(* ===== verification/Prelude.thy ===== *)
theory Prelude
  imports Main "HOL-Library.Word" "HOL-Library.Multiset"
begin

text \<open>
  Shared vocabulary of the development.

  \<^item> \<open>outcome\<close> is what a Rust call can do beside returning: \<open>Panic\<close> is an unwinding panic
    (an \<open>expect\<close>, an \<open>assert!\<close>, an out-of-range index, an arithmetic overflow of the
    checked profile), \<open>Undefined\<close> is undefined behaviour (\<open>assume_init\<close> on memory that was
    never written), \<open>Diverges\<close> is a loop that never ends. A Rust \<open>Result\<close> is a sum with \<open>Inl\<close> for \<open>Err\<close>, a Rust \<open>Option\<close> is
    \<open>option\<close>.
  \<^item> Sizes and indices (\<open>usize\<close>) are natural numbers where the code cannot overflow them or
    checks for it, and 64-bit words where they are atomic counters that wrap.
  \<^item> Signed 64-bit values are integers with the range check written out (\<open>i64_checked\<close>).
\<close>

section \<open>Outcomes\<close>

datatype 'a outcome = Ret 'a | Panic | Undefined | Diverges

fun and_then :: "'a outcome \<Rightarrow> ('a \<Rightarrow> 'b outcome) \<Rightarrow> 'b outcome" where
  "and_then (Ret x) f = f x"
| "and_then Panic f = Panic"
| "and_then Undefined f = Undefined"
| "and_then Diverges f = Diverges"

fun map_outcome_list :: "('a \<Rightarrow> 'b outcome) \<Rightarrow> 'a list \<Rightarrow> 'b list outcome" where
  "map_outcome_list f [] = Ret []"
| "map_outcome_list f (x # xs) =
     and_then (f x) (\<lambda>y. and_then (map_outcome_list f xs) (\<lambda>ys. Ret (y # ys)))"

fun expect :: "'a option \<Rightarrow> 'a outcome" where
  "expect None = Panic"
| "expect (Some x) = Ret x"

text \<open>The result of a loop, where \<open>None\<close> means that it never ends.\<close>

fun loop_result :: "'a option \<Rightarrow> 'a outcome" where
  "loop_result None = Diverges"
| "loop_result (Some x) = Ret x"

text \<open>\<open>MaybeUninit::assume_init\<close> and its by-reference variants.\<close>

fun assume_init_value :: "'a option \<Rightarrow> 'a outcome" where
  "assume_init_value None = Undefined"
| "assume_init_value (Some x) = Ret x"

lemma and_then_eq_Ret [simp]: "and_then m f = Ret y \<longleftrightarrow> (\<exists>x. m = Ret x \<and> f x = Ret y)"
  by (cases m) auto

lemma and_then_assoc [simp]: "and_then (and_then m f) g = and_then m (\<lambda>x. and_then (f x) g)"
  by (cases m) auto

lemma and_then_Ret [simp]: "and_then m Ret = m"
  by (cases m) auto

lemma and_then_cong [fundef_cong]:
  "m = m' \<Longrightarrow> (\<And>x. m' = Ret x \<Longrightarrow> f x = g x) \<Longrightarrow> and_then m f = and_then m' g"
  by (cases m') auto

lemma expect_eq_Ret [simp]: "expect m = Ret x \<longleftrightarrow> m = Some x"
  by (cases m) auto

lemma loop_result_eq_Ret [simp]: "loop_result m = Ret x \<longleftrightarrow> m = Some x"
  by (cases m) auto

lemma propagate_error:
  "(case x of Inl e \<Rightarrow> Ret (Inl e) | Inr y \<Rightarrow> f y) = Ret (Inr z) \<longleftrightarrow> (\<exists>y. x = Inr y \<and> f y = Ret (Inr z))"
  by (cases x) auto

lemma assume_init_eq_Ret [simp]: "assume_init_value m = Ret x \<longleftrightarrow> m = Some x"
  by (cases m) auto

lemma map_outcome_list_Ret:
  "(\<And>x. x \<in> set xs \<Longrightarrow> f x = Ret (g x)) \<Longrightarrow> map_outcome_list f xs = Ret (map g xs)"
  by (induction xs) auto

lemma map_outcome_list_eq_Ret:
  "map_outcome_list f xs = Ret ys \<longleftrightarrow> list_all2 (\<lambda>x y. f x = Ret y) xs ys"
  by (induction xs arbitrary: ys) (auto simp: list_all2_Cons1)

section \<open>Machine integers\<close>

type_synonym byte = "8 word"
type_synonym u32 = "32 word"
type_synonym counter = "64 word"

definition usize_max :: nat where
  "usize_max = 2 ^ 64 - 1"

definition u32_max :: nat where
  "u32_max = 2 ^ 32 - 1"

definition checked_usize :: "nat \<Rightarrow> nat option" where
  "checked_usize n = (if n \<le> usize_max then Some n else None)"

definition checked_u32 :: "nat \<Rightarrow> nat option" where
  "checked_u32 n = (if n \<le> u32_max then Some n else None)"

definition i64_min :: int where
  "i64_min = - (2 ^ 63)"

definition i64_max :: int where
  "i64_max = 2 ^ 63 - 1"

definition i64_range :: "int \<Rightarrow> bool" where
  "i64_range n \<longleftrightarrow> i64_min \<le> n \<and> n \<le> i64_max"

text \<open>Arithmetic on \<open>i64\<close> with overflow checks: out of range panics.\<close>

definition i64_checked :: "int \<Rightarrow> int outcome" where
  "i64_checked n = (if i64_range n then Ret n else Panic)"

definition try_i64 :: "int \<Rightarrow> int option" where
  "try_i64 n = (if i64_range n then Some n else None)"

definition i128_range :: "int \<Rightarrow> bool" where
  "i128_range n \<longleftrightarrow> - (2 ^ 127) \<le> n \<and> n \<le> 2 ^ 127 - 1"

lemmas i64_defs = i64_min_def i64_max_def i64_range_def i64_checked_def try_i64_def

lemma unat_dec: "unat (c :: counter) = Suc k \<Longrightarrow> unat (c - 1) = k"
  by (metis unat_minus_one unat_0 diff_Suc_1 nat.distinct(1))

lemma unat_inc: "Suc (unat c) < 2 ^ 64 \<Longrightarrow> unat (c + 1 :: counter) = Suc (unat c)"
  by (simp add: unat_plus_if_size word_size)

section \<open>Lists\<close>

text \<open>The last \<open>n\<close> elements: what a bounded queue that displaces its oldest entry keeps.\<close>

definition keep_last :: "nat \<Rightarrow> 'a list \<Rightarrow> 'a list" where
  "keep_last n xs = drop (length xs - n) xs"

named_theorems keep_last_simps \<open>rules about the retained suffix of a bounded queue\<close>

lemma keep_last_id [keep_last_simps]: "length xs \<le> n \<Longrightarrow> keep_last n xs = xs"
  by (simp add: keep_last_def)

lemma keep_last_Nil [simp]: "keep_last n [] = []"
  by (simp add: keep_last_def)

lemma length_keep_last [simp]: "length (keep_last n xs) = min n (length xs)"
  by (simp add: keep_last_def)

lemma keep_last_eq_Nil: "0 < n \<Longrightarrow> keep_last n xs = [] \<longleftrightarrow> xs = []"
  by (cases xs) (auto simp: keep_last_def)

lemma keep_last_le: "length (keep_last n xs) \<le> n"
  by simp

lemma set_keep_last: "set (keep_last n xs) \<subseteq> set xs"
  by (simp add: keep_last_def set_drop_subset)

lemma keep_last_append_eq:
  "keep_last n (xs @ ys) = keep_last (n - length ys) xs @ keep_last n ys"
  by (cases "n \<le> length ys") (simp_all add: keep_last_def)

lemma keep_last_min: "keep_last m (keep_last n xs) = keep_last (min m n) xs"
  by (cases "n \<le> length xs"; cases "m \<le> n") (simp_all add: keep_last_def)

lemma keep_last_keep_last_append [keep_last_simps]:
  "keep_last n (keep_last n xs @ ys) = keep_last n (xs @ ys)"
  by (simp add: keep_last_append_eq keep_last_min min_def)

lemma keep_last_drop: "k \<le> length xs - n \<Longrightarrow> keep_last n (drop k xs) = keep_last n xs"
  by (cases "k = 0") (simp_all add: keep_last_def)

lemma keep_last_displace [keep_last_simps]:
  "length xs = n \<Longrightarrow> 0 < n \<Longrightarrow> keep_last n (xs @ [x]) = tl xs @ [x]"
  by (simp add: keep_last_def drop_Suc)

text \<open>Taking what is due from an ascending list.\<close>

lemma sorted_take_due:
  fixes f :: "'a \<Rightarrow> 'k :: linorder"
  assumes "sorted (map f xs)"
  shows "takeWhile (\<lambda>x. f x \<le> t) xs = filter (\<lambda>x. f x \<le> t) xs"
    and "\<forall>x \<in> set (dropWhile (\<lambda>x. f x \<le> t) xs). t < f x"
proof -
  have "takeWhile (\<lambda>x. f x \<le> t) xs = filter (\<lambda>x. f x \<le> t) xs \<and> (\<forall>x \<in> set (dropWhile (\<lambda>x. f x \<le> t) xs). t < f x)"
    using assms
  proof (induction xs)
    case (Cons x xs)
    show ?case
    proof (cases "f x \<le> t")
      case False
      with Cons.prems have later: "\<forall>y \<in> set (x # xs). t < f y" by (auto intro: less_le_trans)
      then have "filter (\<lambda>x. f x \<le> t) (x # xs) = []" unfolding filter_empty_conv by (simp add: not_le)
      with False later show ?thesis by simp
    qed (use Cons in simp)
  qed simp
  then show "takeWhile (\<lambda>x. f x \<le> t) xs = filter (\<lambda>x. f x \<le> t) xs"
    and "\<forall>x \<in> set (dropWhile (\<lambda>x. f x \<le> t) xs). t < f x" by blast+
qed

lemma nth_take_the: "i < n \<Longrightarrow> n \<le> length xs \<Longrightarrow> map the (take n xs) ! i = the (xs ! i)"
  by simp

end
