(* ===== verification/Array_Queue.thy ===== *)
theory Array_Queue
  imports Prelude
begin

text \<open>
  The interface of \<open>crossbeam_queue::ArrayQueue\<close>, a bounded first-in first-out queue from a
  third-party crate. The record \<open>array_queue\<close> holds the operations the repository calls, and
  every definition that uses such a queue takes the record as its first argument. The locale
  \<open>bounded_queue\<close> states the documented behaviour, relative to the list of queued elements
  (\<open>items\<close>, oldest first) and a validity predicate for queue values (\<open>valid\<close>).

  \<open>list_array_queue\<close> is a reference implementation over lists. It shows that the laws can
  hold and lets the theorems be evaluated on concrete inputs.
\<close>

section \<open>Operations and laws\<close>

record ('q, 'a) array_queue =
  aq_new :: "nat \<Rightarrow> 'q outcome" \<comment> \<open>panics when the capacity is zero\<close>
  aq_push :: "'q \<Rightarrow> 'a \<Rightarrow> 'q option" \<comment> \<open>\<open>None\<close>: full, the value is handed back\<close>
  aq_force_push :: "'q \<Rightarrow> 'a \<Rightarrow> 'a option \<times> 'q" \<comment> \<open>the displaced element, if any\<close>
  aq_pop :: "'q \<Rightarrow> ('a \<times> 'q) option"
  aq_len :: "'q \<Rightarrow> nat"
  aq_capacity :: "'q \<Rightarrow> nat"
  aq_is_empty :: "'q \<Rightarrow> bool"

locale bounded_queue =
  fixes Q :: "('q, 'a) array_queue"
    and items :: "'q \<Rightarrow> 'a list"
    and valid :: "'q \<Rightarrow> bool"
  assumes new_zero: "aq_new Q 0 = Panic"
    and new_pos: "0 < c \<Longrightarrow> \<exists>q. aq_new Q c = Ret q \<and> valid q \<and> items q = [] \<and> aq_capacity Q q = c"
    and bound: "valid q \<Longrightarrow> length (items q) \<le> aq_capacity Q q"
    and capacity_pos: "valid q \<Longrightarrow> 0 < aq_capacity Q q"
    and push_room: "valid q \<Longrightarrow> length (items q) < aq_capacity Q q \<Longrightarrow>
      \<exists>q'. aq_push Q q x = Some q' \<and> valid q' \<and> items q' = items q @ [x]
        \<and> aq_capacity Q q' = aq_capacity Q q"
    and push_full: "valid q \<Longrightarrow> length (items q) = aq_capacity Q q \<Longrightarrow> aq_push Q q x = None"
    and force_push_room: "valid q \<Longrightarrow> length (items q) < aq_capacity Q q \<Longrightarrow>
      \<exists>q'. aq_force_push Q q x = (None, q') \<and> valid q' \<and> items q' = items q @ [x]
        \<and> aq_capacity Q q' = aq_capacity Q q"
    and force_push_full: "valid q \<Longrightarrow> length (items q) = aq_capacity Q q \<Longrightarrow>
      \<exists>q'. aq_force_push Q q x = (Some (hd (items q)), q') \<and> valid q'
        \<and> items q' = tl (items q) @ [x] \<and> aq_capacity Q q' = aq_capacity Q q"
    and pop_empty: "valid q \<Longrightarrow> items q = [] \<Longrightarrow> aq_pop Q q = None"
    and pop_front: "valid q \<Longrightarrow> items q = x # xs \<Longrightarrow>
      \<exists>q'. aq_pop Q q = Some (x, q') \<and> valid q' \<and> items q' = xs
        \<and> aq_capacity Q q' = aq_capacity Q q"
    and len_items: "valid q \<Longrightarrow> aq_len Q q = length (items q)"
    and is_empty_items: "valid q \<Longrightarrow> aq_is_empty Q q \<longleftrightarrow> items q = []"
begin

lemma full_or_room:
  "valid q \<Longrightarrow> length (items q) < aq_capacity Q q \<or> length (items q) = aq_capacity Q q"
  using bound [of q] by linarith

lemma full_nonempty: "valid q \<Longrightarrow> length (items q) = aq_capacity Q q \<Longrightarrow> items q \<noteq> []"
  using capacity_pos [of q] by auto

lemma force_push_keeps_last:
  assumes "valid q"
  obtains q' d where "aq_force_push Q q x = (d, q')" and "valid q'"
    and "items q' = keep_last (aq_capacity Q q) (items q @ [x])"
    and "aq_capacity Q q' = aq_capacity Q q"
    and "d = (if length (items q) < aq_capacity Q q then None else Some (hd (items q)))"
proof (cases "length (items q) < aq_capacity Q q")
  case True
  with force_push_room [OF assms True, of x] show ?thesis
    using that by (auto simp: keep_last_simps)
next
  case False
  then have full: "length (items q) = aq_capacity Q q"
    using full_or_room [OF assms] by simp
  with force_push_full [OF assms full, of x] show ?thesis
    using that False capacity_pos [OF assms] by (auto simp: keep_last_simps)
qed

end

section \<open>A reference implementation\<close>

record 'a list_queue =
  lq_capacity :: nat
  lq_items :: "'a list"

definition lq_valid :: "'a list_queue \<Rightarrow> bool" where
  "lq_valid q \<longleftrightarrow> 0 < lq_capacity q \<and> length (lq_items q) \<le> lq_capacity q"

definition list_array_queue :: "('a list_queue, 'a) array_queue" where
  "list_array_queue = \<lparr>
     aq_new = (\<lambda>c. if c = 0 then Panic else Ret \<lparr>lq_capacity = c, lq_items = []\<rparr>),
     aq_push = (\<lambda>q x. if length (lq_items q) < lq_capacity q
        then Some (q\<lparr>lq_items := lq_items q @ [x]\<rparr>) else None),
     aq_force_push = (\<lambda>q x. if length (lq_items q) < lq_capacity q
        then (None, q\<lparr>lq_items := lq_items q @ [x]\<rparr>)
        else (Some (hd (lq_items q)), q\<lparr>lq_items := tl (lq_items q) @ [x]\<rparr>)),
     aq_pop = (\<lambda>q. case lq_items q of [] \<Rightarrow> None | x # xs \<Rightarrow> Some (x, q\<lparr>lq_items := xs\<rparr>)),
     aq_len = (\<lambda>q. length (lq_items q)),
     aq_capacity = lq_capacity,
     aq_is_empty = (\<lambda>q. lq_items q = [])\<rparr>"

lemma list_array_queue_simps [simp]:
  "aq_new list_array_queue c = (if c = 0 then Panic else Ret \<lparr>lq_capacity = c, lq_items = []\<rparr>)"
  "aq_push list_array_queue q x = (if length (lq_items q) < lq_capacity q
     then Some (q\<lparr>lq_items := lq_items q @ [x]\<rparr>) else None)"
  "aq_force_push list_array_queue q x = (if length (lq_items q) < lq_capacity q
     then (None, q\<lparr>lq_items := lq_items q @ [x]\<rparr>)
     else (Some (hd (lq_items q)), q\<lparr>lq_items := tl (lq_items q) @ [x]\<rparr>))"
  "aq_pop list_array_queue q =
     (case lq_items q of [] \<Rightarrow> None | x # xs \<Rightarrow> Some (x, q\<lparr>lq_items := xs\<rparr>))"
  "aq_len list_array_queue q = length (lq_items q)"
  "aq_capacity list_array_queue = lq_capacity"
  "aq_is_empty list_array_queue q \<longleftrightarrow> lq_items q = []"
  by (simp_all add: list_array_queue_def)

interpretation lq: bounded_queue list_array_queue lq_items lq_valid
  by unfold_locales (auto simp: lq_valid_def)

end
