(* ===== verification/Mpsc_Queue.thy ===== *)
theory Mpsc_Queue
  imports Array_Queue
begin

text \<open>
  \<open>base/src/mpsc_queue.rs\<close>: a bounded queue whose \<open>push\<close> displaces the oldest element when it
  is full and counts the displacements. An operation that runs the destructor of an element
  returns that element beside its result, so that a caller whose elements own resources can
  release them.

  The locale \<open>displacing_queue\<close> is the contract its clients rely on; the sublocale
  declaration derives it from the laws of the underlying \<open>ArrayQueue\<close>.
\<close>

section \<open>Model\<close>

record 'q mpsc_queue =
  inner :: 'q
  dropped :: counter

definition mpsc_new :: "('q, 'a) array_queue \<Rightarrow> nat \<Rightarrow> 'q mpsc_queue outcome" where
  "mpsc_new Q capacity =
     and_then (aq_new Q capacity) (\<lambda>q. Ret \<lparr>inner = q, dropped = 0\<rparr>)"

definition mpsc_push ::
  "('q, 'a) array_queue \<Rightarrow> 'q mpsc_queue \<Rightarrow> 'a \<Rightarrow> bool \<times> 'a option \<times> 'q mpsc_queue" where
  "mpsc_push Q m v =
     (let (displaced, q) = aq_force_push Q (inner m) v in
      if displaced \<noteq> None
      then (False, displaced, m\<lparr>inner := q, dropped := dropped m + 1\<rparr>)
      else (True, None, m\<lparr>inner := q\<rparr>))"

definition mpsc_capacity :: "('q, 'a) array_queue \<Rightarrow> 'q mpsc_queue \<Rightarrow> nat" where
  "mpsc_capacity Q m = aq_capacity Q (inner m)"

definition mpsc_pop :: "('q, 'a) array_queue \<Rightarrow> 'q mpsc_queue \<Rightarrow> ('a \<times> 'q mpsc_queue) option" where
  "mpsc_pop Q m =
     (case aq_pop Q (inner m) of None \<Rightarrow> None | Some (x, q) \<Rightarrow> Some (x, m\<lparr>inner := q\<rparr>))"

definition mpsc_is_empty :: "('q, 'a) array_queue \<Rightarrow> 'q mpsc_queue \<Rightarrow> bool" where
  "mpsc_is_empty Q m = aq_is_empty Q (inner m)"

definition mpsc_len :: "('q, 'a) array_queue \<Rightarrow> 'q mpsc_queue \<Rightarrow> nat" where
  "mpsc_len Q m = aq_len Q (inner m)"

text \<open>The loop \<open>while self.pop().is_some() {}\<close>; \<open>None\<close> if it never ends.\<close>

partial_function (option) mpsc_clear ::
  "('q, 'a) array_queue \<Rightarrow> 'q mpsc_queue \<Rightarrow> ('a list \<times> 'q mpsc_queue) option" where
  "mpsc_clear Q m =
     (case mpsc_pop Q m of
        None \<Rightarrow> Some ([], m)
      | Some (x, m') \<Rightarrow> Option.bind (mpsc_clear Q m') (\<lambda>(xs, m''). Some (x # xs, m'')))"

fun mpsc_push_all :: "('q, 'a) array_queue \<Rightarrow> 'q mpsc_queue \<Rightarrow> 'a list \<Rightarrow> 'q mpsc_queue" where
  "mpsc_push_all Q m [] = m"
| "mpsc_push_all Q m (x # xs) = mpsc_push_all Q (snd (snd (mpsc_push Q m x))) xs"

section \<open>The contract of a displacing queue\<close>

locale displacing_queue =
  fixes push :: "'m \<Rightarrow> 'a \<Rightarrow> bool \<times> 'a option \<times> 'm"
    and pop :: "'m \<Rightarrow> ('a \<times> 'm) option"
    and len :: "'m \<Rightarrow> nat"
    and cap :: "'m \<Rightarrow> nat"
    and content :: "'m \<Rightarrow> 'a list"
    and good :: "'m \<Rightarrow> bool"
  assumes push_law: "good m \<Longrightarrow>
      \<exists>m'. push m x = (length (content m) < cap m,
             if length (content m) < cap m then None else Some (hd (content m)), m')
        \<and> good m' \<and> content m' = keep_last (cap m) (content m @ [x]) \<and> cap m' = cap m"
    and pop_none: "good m \<Longrightarrow> content m = [] \<Longrightarrow> pop m = None"
    and pop_some: "good m \<Longrightarrow> content m = x # xs \<Longrightarrow>
      \<exists>m'. pop m = Some (x, m') \<and> good m' \<and> content m' = xs \<and> cap m' = cap m"
    and len_law: "good m \<Longrightarrow> len m = length (content m)"
    and content_bound: "good m \<Longrightarrow> length (content m) \<le> cap m \<and> 0 < cap m"
begin

lemma pop_cases:
  assumes "good m"
  obtains (empty) "content m = []" "pop m = None"
  | (front) x m' where "pop m = Some (x, m')" "good m'" "content m = x # content m'"
      "cap m' = cap m"
proof (cases "content m")
  case Nil
  with pop_none [OF assms Nil] empty show ?thesis by simp
next
  case (Cons x xs)
  with pop_some [OF assms Cons] front show ?thesis by auto
qed

end

section \<open>\<open>MpscQueue\<close> meets the contract\<close>

context bounded_queue begin

lemma mpsc_push_content:
  assumes "valid (inner m)"
  obtains m' where
    "mpsc_push Q m x = (length (items (inner m)) < mpsc_capacity Q m,
       if length (items (inner m)) < mpsc_capacity Q m then None else Some (hd (items (inner m))), m')"
    and "valid (inner m')" and "items (inner m') = keep_last (mpsc_capacity Q m) (items (inner m) @ [x])"
    and "mpsc_capacity Q m' = mpsc_capacity Q m"
    and "dropped m' = dropped m + (if length (items (inner m)) < mpsc_capacity Q m then 0 else 1)"
proof -
  obtain q' d where "aq_force_push Q (inner m) x = (d, q')" "valid q'"
    "items q' = keep_last (aq_capacity Q (inner m)) (items (inner m) @ [x])"
    "aq_capacity Q q' = aq_capacity Q (inner m)"
    "d = (if length (items (inner m)) < aq_capacity Q (inner m) then None
          else Some (hd (items (inner m))))"
    using force_push_keeps_last [OF assms] .
  then show ?thesis
    using that [of "snd (snd (mpsc_push Q m x))"]
    by (auto simp: mpsc_push_def mpsc_capacity_def Let_def split: if_splits)
qed

lemma mpsc_clear_empties:
  "valid (inner m) \<Longrightarrow> \<exists>m'. mpsc_clear Q m = Some (items (inner m), m') \<and> valid (inner m')
     \<and> items (inner m') = [] \<and> dropped m' = dropped m \<and> mpsc_capacity Q m' = mpsc_capacity Q m"
proof (induction "items (inner m)" arbitrary: m)
  case Nil
  then show ?case
    by (subst mpsc_clear.simps) (simp add: mpsc_pop_def pop_empty)
next
  case (Cons x xs)
  obtain q' where q': "aq_pop Q (inner m) = Some (x, q')" "valid q'" "items q' = xs"
    "aq_capacity Q q' = aq_capacity Q (inner m)"
    using pop_front [OF Cons.prems Cons.hyps(2) [symmetric]] by blast
  let ?m = "m\<lparr>inner := q'\<rparr>"
  obtain m' where "mpsc_clear Q ?m = Some (xs, m')" "valid (inner m')" "items (inner m') = []"
    "dropped m' = dropped m" "mpsc_capacity Q m' = mpsc_capacity Q ?m"
    using Cons.hyps(1) [of ?m] q' by auto
  with q' Cons.hyps(2) show ?case
    by (subst mpsc_clear.simps) (auto simp: mpsc_pop_def mpsc_capacity_def)
qed

lemma mpsc_push_all_content:
  "valid (inner m) \<Longrightarrow> valid (inner (mpsc_push_all Q m xs))
     \<and> items (inner (mpsc_push_all Q m xs)) = keep_last (mpsc_capacity Q m) (items (inner m) @ xs)
     \<and> mpsc_capacity Q (mpsc_push_all Q m xs) = mpsc_capacity Q m
     \<and> dropped (mpsc_push_all Q m xs) = dropped m
         + of_nat (length (items (inner m)) + length xs - mpsc_capacity Q m)"
proof (induction xs arbitrary: m)
  case Nil
  then show ?case using bound [of "inner m"] by (simp add: keep_last_simps mpsc_capacity_def)
next
  case (Cons x xs)
  obtain m' where m': "mpsc_push Q m x = (length (items (inner m)) < mpsc_capacity Q m,
       if length (items (inner m)) < mpsc_capacity Q m then None else Some (hd (items (inner m))), m')"
    "valid (inner m')" "items (inner m') = keep_last (mpsc_capacity Q m) (items (inner m) @ [x])"
    "mpsc_capacity Q m' = mpsc_capacity Q m"
    "dropped m' = dropped m + (if length (items (inner m)) < mpsc_capacity Q m then 0 else 1)"
    using mpsc_push_content [OF Cons.prems] .
  let ?l = "length (items (inner m))" and ?c = "mpsc_capacity Q m"
  have "?l \<le> ?c" and "0 < ?c"
    using bound [OF Cons.prems] capacity_pos [OF Cons.prems] by (simp_all add: mpsc_capacity_def)
  then have count: "?l + length (x # xs) - ?c
      = (if ?l < ?c then 0 else 1) + (min ?c (Suc ?l) + length xs - ?c)"
    by auto
  show ?case
    using Cons.IH [OF m'(2)] m' unfolding count
    by (simp add: keep_last_keep_last_append)
qed

end

sublocale bounded_queue \<subseteq> mpsc: displacing_queue "mpsc_push Q" "mpsc_pop Q" "mpsc_len Q"
    "mpsc_capacity Q" "\<lambda>m. items (inner m)" "\<lambda>m. valid (inner m)"
proof (unfold_locales, goal_cases)
  case (1 m x)
  then show ?case by (metis mpsc_push_content)
next
  case (3 m x xs)
  then show ?case using pop_front by (fastforce simp: mpsc_pop_def mpsc_capacity_def)
qed (auto simp: mpsc_pop_def pop_empty mpsc_len_def len_items mpsc_capacity_def bound capacity_pos)

end
