(* ===== verification/Double_Buffer.thy ===== *)
theory Double_Buffer
  imports Mpsc_Queue
begin

text \<open>
  \<open>base/src/double_buffer.rs\<close>: the subscriber side of a connection. Publishers write into a
  displacing queue; the owner moves what has arrived into a bounded read window before it runs.
  The window is a \<open>VecDeque\<close> whose actual capacity the standard library only bounds from below
  (\<open>with_capacity(n)\<close> gives room for at least \<open>n\<close> elements), so \<open>double_buffer_new\<close> takes the
  deque's capacity function as an argument.

  Elements are owning pointers in the code, so every operation that destroys elements returns
  them, oldest first. The counter of the elements dropped from the window is a natural number; the
  code has a \<open>usize\<close>, which \<open>2\<^sup>6\<^sup>4\<close> drops would overflow. Reserving the queue and the window always
  succeeds here: sizes above \<open>isize::MAX\<close> bytes, on which the allocations panic, are left out.
\<close>

section \<open>Model\<close>

record ('q, 'p) double_buffer =
  write_queue :: "'q mpsc_queue"
  read_storage :: "'p list" \<comment> \<open>\<open>Buffer::storage\<close>, front first\<close>
  read_capacity :: nat \<comment> \<open>\<open>Buffer::storage.capacity()\<close>\<close>
  read_drops :: nat \<comment> \<open>\<open>Buffer::drops\<close>\<close>

definition double_buffer_new ::
  "('q, 'p) array_queue \<Rightarrow> (nat \<Rightarrow> nat) \<Rightarrow> nat \<Rightarrow> ('q, 'p) double_buffer outcome" where
  "double_buffer_new Q deque_capacity capacity =
     and_then (mpsc_new Q capacity) (\<lambda>w.
       Ret \<lparr>write_queue = w, read_storage = [], read_capacity = deque_capacity capacity,
            read_drops = 0\<rparr>)"

definition write_buffer_write ::
  "('q, 'p) array_queue \<Rightarrow> ('q, 'p) double_buffer \<Rightarrow> 'p \<Rightarrow> 'p list \<times> ('q, 'p) double_buffer" where
  "write_buffer_write Q b p =
     (let (_, displaced, w) = mpsc_push Q (write_queue b) p in
      (case displaced of None \<Rightarrow> [] | Some x \<Rightarrow> [x], b\<lparr>write_queue := w\<rparr>))"

definition write_buffer_is_empty :: "('q, 'p) array_queue \<Rightarrow> ('q, 'p) double_buffer \<Rightarrow> bool" where
  "write_buffer_is_empty Q b = mpsc_is_empty Q (write_queue b)"

definition write_buffer_len :: "('q, 'p) array_queue \<Rightarrow> ('q, 'p) double_buffer \<Rightarrow> nat" where
  "write_buffer_len Q b = mpsc_len Q (write_queue b)"

definition writer_drops :: "('q, 'p) double_buffer \<Rightarrow> counter" where
  "writer_drops b = dropped (write_queue b)"

definition single_buffer_capacity :: "('q, 'p) array_queue \<Rightarrow> ('q, 'p) double_buffer \<Rightarrow> nat" where
  "single_buffer_capacity Q b = mpsc_capacity Q (write_queue b)"

text \<open>The operations of \<open>ReadBufferGuard\<close> that change the window.\<close>

definition read_pop_front :: "('q, 'p) double_buffer \<Rightarrow> 'p option \<times> ('q, 'p) double_buffer" where
  "read_pop_front b =
     (case read_storage b of [] \<Rightarrow> (None, b) | p # ps \<Rightarrow> (Some p, b\<lparr>read_storage := ps\<rparr>))"

definition read_pop_back :: "('q, 'p) double_buffer \<Rightarrow> 'p option \<times> ('q, 'p) double_buffer" where
  "read_pop_back b =
     (if read_storage b = [] then (None, b)
      else (Some (last (read_storage b)), b\<lparr>read_storage := butlast (read_storage b)\<rparr>))"

definition read_drain :: "('q, 'p) double_buffer \<Rightarrow> 'p list \<times> ('q, 'p) double_buffer" where
  "read_drain b = (read_storage b, b\<lparr>read_storage := []\<rparr>)"

definition read_is_empty :: "('q, 'p) double_buffer \<Rightarrow> bool" where
  "read_is_empty b \<longleftrightarrow> read_storage b = []"

text \<open>
  The inner loop of the drain, \<open>while len >= capacity { drops += 1; pop_front() }\<close>. With a zero
  capacity it would spin on the empty window for ever, which is \<open>None\<close>.
\<close>

fun make_room :: "nat \<Rightarrow> 'p list \<Rightarrow> nat \<Rightarrow> ('p list \<times> nat \<times> 'p list) option" where
  "make_room cap [] drops = (if cap = 0 then None else Some ([], drops, []))"
| "make_room cap (p # ps) drops =
     (if cap \<le> length (p # ps)
      then Option.bind (make_room cap ps (Suc drops)) (\<lambda>(xs, d, st). Some (p # xs, d, st))
      else Some ([], drops, p # ps))"

fun drain_loop ::
  "('q, 'p) array_queue \<Rightarrow> nat \<Rightarrow> ('q, 'p) double_buffer \<Rightarrow> ('p list \<times> ('q, 'p) double_buffer) option"
  where
  "drain_loop Q 0 b = Some ([], b)"
| "drain_loop Q (Suc n) b =
     (case mpsc_pop Q (write_queue b) of
        None \<Rightarrow> drain_loop Q n b
      | Some (v, w) \<Rightarrow>
          Option.bind (make_room (read_capacity b) (read_storage b) (read_drops b))
            (\<lambda>(xs, d, st).
              Option.bind
                (drain_loop Q n (b\<lparr>write_queue := w, read_storage := st @ [v], read_drops := d\<rparr>))
                (\<lambda>(ys, b'). Some (xs @ ys, b'))))"

definition drain_writer_to_reader ::
  "('q, 'p) array_queue \<Rightarrow> ('q, 'p) double_buffer \<Rightarrow> ('p list \<times> ('q, 'p) double_buffer) option" where
  "drain_writer_to_reader Q b = drain_loop Q (mpsc_len Q (write_queue b)) b"

definition double_buffer_clear ::
  "('q, 'p) array_queue \<Rightarrow> ('q, 'p) double_buffer \<Rightarrow> ('p list \<times> ('q, 'p) double_buffer) option" where
  "double_buffer_clear Q b =
     Option.bind (mpsc_clear Q (write_queue b)) (\<lambda>(xs, w).
       Some (xs @ read_storage b, b\<lparr>write_queue := w, read_storage := []\<rparr>))"

text \<open>A sequence of writes, with everything they displace.\<close>

fun write_all ::
  "('q, 'p) array_queue \<Rightarrow> ('q, 'p) double_buffer \<Rightarrow> 'p list \<Rightarrow> 'p list \<times> ('q, 'p) double_buffer" where
  "write_all Q b [] = ([], b)"
| "write_all Q b (p # ps) =
     (let (d, b') = write_buffer_write Q b p; (ds, b'') = write_all Q b' ps in (d @ ds, b''))"

section \<open>Behaviour\<close>

lemma make_room_bounded:
  assumes "length st \<le> cap" and "0 < cap"
  shows "make_room cap st d =
    Some (take (Suc (length st) - cap) st, d + (Suc (length st) - cap), drop (Suc (length st) - cap) st)"
proof (cases st)
  case Nil
  with assms show ?thesis by simp
next
  case (Cons p ps)
  then show ?thesis
  proof (cases "cap \<le> length st")
    case True
    with assms Cons have "cap = Suc (length ps)" by simp
    with Cons show ?thesis by (cases ps) simp_all
  next
    case False
    with Cons show ?thesis by simp
  qed
qed

definition buffer_inv :: "('q \<Rightarrow> bool) \<Rightarrow> ('q, 'a) double_buffer \<Rightarrow> bool" where
  "buffer_inv valid b \<longleftrightarrow> valid (inner (write_queue b)) \<and> 0 < read_capacity b
     \<and> length (read_storage b) \<le> read_capacity b"

definition written :: "('q \<Rightarrow> 'a list) \<Rightarrow> ('q, 'a) double_buffer \<Rightarrow> 'a list" where
  "written items b = items (inner (write_queue b))"

context bounded_queue begin

lemma double_buffer_new_inv:
  assumes "double_buffer_new Q f c = Ret b" and "c \<le> f c"
  shows "buffer_inv valid b \<and> written items b = [] \<and> read_storage b = [] \<and> read_capacity b = f c
    \<and> single_buffer_capacity Q b = c"
proof -
  have "c \<noteq> 0"
    using assms(1) by (auto simp: double_buffer_new_def mpsc_new_def new_zero intro: gr0I)
  then obtain q where "aq_new Q c = Ret q \<and> valid q \<and> items q = [] \<and> aq_capacity Q q = c"
    using new_pos by blast
  with assms \<open>c \<noteq> 0\<close> show ?thesis
    by (auto simp: double_buffer_new_def mpsc_new_def buffer_inv_def written_def
        single_buffer_capacity_def mpsc_capacity_def)
qed

lemma write_buffer_write_law:
  assumes "buffer_inv valid b"
  obtains b' where "write_buffer_write Q b p =
      (take (Suc (length (written items b)) - single_buffer_capacity Q b) (written items b), b')"
    and "buffer_inv valid b'" and "written items b' = keep_last (single_buffer_capacity Q b) (written items b @ [p])"
    and "read_storage b' = read_storage b" and "read_capacity b' = read_capacity b"
    and "read_drops b' = read_drops b"
    and "single_buffer_capacity Q b' = single_buffer_capacity Q b"
proof -
  have v: "valid (inner (write_queue b))" using assms by (simp add: buffer_inv_def)
  then have bd: "length (written items b) \<le> single_buffer_capacity Q b"
    and pos: "0 < single_buffer_capacity Q b"
    using mpsc.content_bound by (auto simp: written_def single_buffer_capacity_def)
  obtain w where w: "mpsc_push Q (write_queue b) p =
      (length (written items b) < single_buffer_capacity Q b,
       if length (written items b) < single_buffer_capacity Q b then None else Some (hd (written items b)), w)"
    "valid (inner w)" "items (inner w) = keep_last (single_buffer_capacity Q b) (written items b @ [p])"
    "mpsc_capacity Q w = single_buffer_capacity Q b"
    using mpsc.push_law [OF v, of p] unfolding written_def single_buffer_capacity_def by blast
  have t: "take (Suc (length (written items b)) - single_buffer_capacity Q b) (written items b)
      = (if length (written items b) < single_buffer_capacity Q b then [] else [hd (written items b)])"
    using bd pos by (cases "written items b") auto
  show ?thesis
    by (rule that [of "b\<lparr>write_queue := w\<rparr>"])
      (use assms w t in \<open>auto simp: write_buffer_write_def Let_def buffer_inv_def written_def
          single_buffer_capacity_def\<close>)
qed

lemma drain_loop_law:
  "buffer_inv valid b \<Longrightarrow> n = length (written items b) \<Longrightarrow>
     \<exists>b'. drain_loop Q n b = Some
         (take (length (read_storage b) + n - read_capacity b) (read_storage b @ written items b), b')
       \<and> buffer_inv valid b' \<and> written items b' = []
       \<and> read_storage b' = keep_last (read_capacity b) (read_storage b @ written items b)
       \<and> read_capacity b' = read_capacity b
       \<and> read_drops b' = read_drops b + (length (read_storage b) + n - read_capacity b)
       \<and> single_buffer_capacity Q b' = single_buffer_capacity Q b
       \<and> writer_drops b' = writer_drops b"
proof (induction n arbitrary: b)
  case 0
  then show ?case by (auto simp: buffer_inv_def keep_last_simps)
next
  case (Suc n)
  let ?st = "read_storage b" and ?c = "read_capacity b"
  have inv: "valid (inner (write_queue b))" "length ?st \<le> ?c" "0 < ?c"
    using Suc.prems(1) by (auto simp: buffer_inv_def)
  obtain v w where pop: "mpsc_pop Q (write_queue b) = Some (v, w)" "valid (inner w)"
    "written items b = v # items (inner w)" "mpsc_capacity Q w = mpsc_capacity Q (write_queue b)"
    and dw: "dropped w = dropped (write_queue b)"
    using mpsc.pop_cases [OF inv(1)] Suc.prems(2)
    by (fastforce simp: written_def mpsc_pop_def split: option.splits)
  let ?k = "Suc (length ?st) - ?c"
  let ?b = "b\<lparr>write_queue := w, read_storage := drop ?k ?st @ [v], read_drops := read_drops b + ?k\<rparr>"
  have "buffer_inv valid ?b" and "n = length (written items ?b)"
    using inv pop Suc.prems(2) by (auto simp: buffer_inv_def written_def)
  from Suc.IH [OF this] obtain b' where b':
    "drain_loop Q n ?b = Some (take (length (read_storage ?b) + n - ?c)
        (read_storage ?b @ written items ?b), b')"
    "buffer_inv valid b'" "written items b' = []"
    "read_storage b' = keep_last ?c (read_storage ?b @ written items ?b)"
    "read_capacity b' = ?c"
    "read_drops b' = read_drops ?b + (length (read_storage ?b) + n - ?c)"
    "single_buffer_capacity Q b' = single_buffer_capacity Q ?b"
    "writer_drops b' = writer_drops ?b"
    by auto
  have n: "n = length (items (inner w))" using Suc.prems(2) pop by simp
  have k: "?k \<le> length ?st" using inv by auto
  have split_take: "take (length ?st + Suc n - ?c) (?st @ written items b)
      = take ?k ?st @ take (length (drop ?k ?st @ [v]) + n - ?c)
          (drop ?k ?st @ [v] @ items (inner w))"
  proof -
    have "length ?st + Suc n - ?c = ?k + (length (drop ?k ?st @ [v]) + n - ?c)"
      using inv by auto
    moreover have "drop ?k (?st @ written items b) = drop ?k ?st @ [v] @ items (inner w)"
      and "take ?k (?st @ written items b) = take ?k ?st"
      using k by (simp_all add: pop(3))
    ultimately show ?thesis by (simp only: take_add)
  qed
  have keep: "keep_last ?c (drop ?k ?st @ v # items (inner w)) = keep_last ?c (?st @ written items b)"
  proof -
    have "?k \<le> length (?st @ written items b) - ?c" by (simp add: pop(3))
    from keep_last_drop [OF this] show ?thesis using k by (simp add: pop(3))
  qed
  have wb: "written items ?b = items (inner w)" by (simp add: written_def)
  have run: "drain_loop Q (Suc n) b =
      Some (take (length ?st + Suc n - ?c) (?st @ written items b), b')"
    unfolding split_take using b'(1) unfolding wb
    by (simp add: pop(1) make_room_bounded [OF inv(2,3)])
  have drops: "read_drops b' = read_drops b + (length ?st + Suc n - ?c)"
    using b'(6) inv by simp
  show ?case
  proof (intro exI [of _ b'] conjI)
    show "read_storage b' = keep_last ?c (?st @ written items b)"
      using b'(4) keep unfolding wb by simp
  qed (rule run drops b'(2,3,5) |
      use b'(7,8) pop(4) dw in \<open>simp add: single_buffer_capacity_def writer_drops_def\<close>)+
qed

lemma drain_law:
  assumes "buffer_inv valid b"
  shows "\<exists>b'. drain_writer_to_reader Q b = Some
         (take (length (read_storage b) + length (written items b) - read_capacity b)
            (read_storage b @ written items b), b')
       \<and> buffer_inv valid b' \<and> written items b' = []
       \<and> read_storage b' = keep_last (read_capacity b) (read_storage b @ written items b)
       \<and> read_capacity b' = read_capacity b
       \<and> read_drops b' = read_drops b
           + (length (read_storage b) + length (written items b) - read_capacity b)
       \<and> single_buffer_capacity Q b' = single_buffer_capacity Q b
       \<and> writer_drops b' = writer_drops b"
proof -
  have "mpsc_len Q (write_queue b) = length (written items b)"
    using assms mpsc.len_law by (auto simp: buffer_inv_def written_def)
  then show ?thesis
    using drain_loop_law [OF assms] by (simp add: drain_writer_to_reader_def)
qed

lemma clear_law:
  assumes "buffer_inv valid b"
  shows "\<exists>b'. double_buffer_clear Q b = Some (written items b @ read_storage b, b')
     \<and> buffer_inv valid b' \<and> written items b' = [] \<and> read_storage b' = []
     \<and> read_capacity b' = read_capacity b
     \<and> single_buffer_capacity Q b' = single_buffer_capacity Q b"
proof -
  have "valid (inner (write_queue b))" using assms by (simp add: buffer_inv_def)
  from mpsc_clear_empties [OF this] show ?thesis
    using assms by (fastforce simp: double_buffer_clear_def buffer_inv_def written_def
        single_buffer_capacity_def)
qed

lemma write_all_law:
  "buffer_inv valid b \<Longrightarrow>
     \<exists>d b'. write_all Q b ps = (d, b') \<and> buffer_inv valid b'
       \<and> written items b' = keep_last (single_buffer_capacity Q b) (written items b @ ps)
       \<and> d @ written items b' = written items b @ ps
       \<and> read_storage b' = read_storage b \<and> read_capacity b' = read_capacity b
       \<and> single_buffer_capacity Q b' = single_buffer_capacity Q b"
proof (induction ps arbitrary: b)
  case Nil
  then have "length (written items b) \<le> single_buffer_capacity Q b"
    using mpsc.content_bound [of "write_queue b"]
    by (simp add: buffer_inv_def written_def single_buffer_capacity_def)
  with Nil show ?case by (simp add: keep_last_simps)
next
  case (Cons p ps)
  let ?c = "single_buffer_capacity Q b" and ?w = "written items b"
  obtain b1 where b1: "write_buffer_write Q b p = (take (Suc (length ?w) - ?c) ?w, b1)"
    "buffer_inv valid b1" "written items b1 = keep_last ?c (?w @ [p])"
    "read_storage b1 = read_storage b" "read_capacity b1 = read_capacity b"
    "single_buffer_capacity Q b1 = ?c"
    using write_buffer_write_law [OF Cons.prems] .
  have "0 < ?c" "length ?w \<le> ?c"
    using mpsc.content_bound [of "write_queue b"] Cons.prems
    by (simp_all add: buffer_inv_def written_def single_buffer_capacity_def)
  then have "take (Suc (length ?w) - ?c) ?w @ keep_last ?c (?w @ [p]) = ?w @ [p]"
    by (cases "length ?w = ?c") (auto simp: keep_last_def)
  moreover obtain d b2 where "write_all Q b1 ps = (d, b2)" "buffer_inv valid b2"
    "written items b2 = keep_last ?c (written items b1 @ ps)"
    "d @ written items b2 = written items b1 @ ps"
    "read_storage b2 = read_storage b1" "read_capacity b2 = read_capacity b1"
    "single_buffer_capacity Q b2 = ?c"
    using Cons.IH [OF b1(2)] b1(6) by auto
  ultimately show ?case
    using b1 by (simp add: keep_last_keep_last_append)
qed

lemma write_then_drain:
  assumes "buffer_inv valid b"
  shows "\<exists>d b1 x b2. write_all Q b ps = (d, b1) \<and> drain_writer_to_reader Q b1 = Some (x, b2)
    \<and> buffer_inv valid b2 \<and> written items b2 = []
    \<and> read_storage b2 = keep_last (read_capacity b)
        (read_storage b @ keep_last (single_buffer_capacity Q b) (written items b @ ps))
    \<and> mset d + mset x + mset (read_storage b2) = mset (read_storage b @ written items b @ ps)"
proof -
  obtain d b1 where b1: "write_all Q b ps = (d, b1)" "buffer_inv valid b1"
    "written items b1 = keep_last (single_buffer_capacity Q b) (written items b @ ps)"
    "d @ written items b1 = written items b @ ps"
    "read_storage b1 = read_storage b" "read_capacity b1 = read_capacity b"
    using write_all_law [OF assms] by blast
  let ?all = "read_storage b @ written items b1"
  obtain x b2 where b2: "drain_writer_to_reader Q b1 = Some (x, b2)"
    "x = take (length ?all - read_capacity b) ?all" "buffer_inv valid b2" "written items b2 = []"
    "read_storage b2 = keep_last (read_capacity b) ?all"
    using drain_law [OF b1(2)] b1(5,6) by auto
  have "mset x + mset (read_storage b2) = mset ?all"
    unfolding b2(2,5) keep_last_def by (metis append_take_drop_id mset_append)
  moreover have "mset d + mset (written items b1) = mset (written items b @ ps)"
    using b1(4) by (metis mset_append)
  ultimately have "mset d + mset x + mset (read_storage b2) = mset (read_storage b @ written items b @ ps)"
    by (simp add: ac_simps)
  then show ?thesis
    using b1 b2 by auto
qed

end

section \<open>Properties\<close>

text \<open>
  What a subscriber sees. After any sequence of writes and one drain, the write side is empty
  and the read window holds the newest elements, oldest first: of what was written, the last
  \<open>single_buffer_capacity\<close> elements survive the write buffer; of the old window followed by
  those, the last \<open>read_capacity\<close>. The drain ends, and every element is accounted for: displaced
  by a write, pushed out of the window, or in the window.
\<close>

theorem double_buffer_keeps_newest:
  assumes "bounded_queue Q items valid" and "buffer_inv valid b"
  shows "\<exists>d b1 x b2. write_all Q b ps = (d, b1) \<and> drain_writer_to_reader Q b1 = Some (x, b2)
    \<and> buffer_inv valid b2 \<and> written items b2 = []
    \<and> read_storage b2 = keep_last (read_capacity b)
        (read_storage b @ keep_last (single_buffer_capacity Q b) (written items b @ ps))
    \<and> mset d + mset x + mset (read_storage b2) = mset (read_storage b @ written items b @ ps)"
  using bounded_queue.write_then_drain [OF assms] .

theorem double_buffer_keeps_newest_witness:
  "\<exists>b d b1 x b2. double_buffer_new list_array_queue (\<lambda>c. c) 2 = Ret b
     \<and> write_all list_array_queue b [1, 2, 3 :: nat] = (d, b1)
     \<and> drain_writer_to_reader list_array_queue b1 = Some (x, b2) \<and> read_storage b2 = [2, 3]"
proof -
  obtain b where b: "double_buffer_new list_array_queue (\<lambda>c. c) 2 = Ret (b :: (nat list_queue, nat) double_buffer)"
    by (simp add: double_buffer_new_def mpsc_new_def)
  note new = lq.double_buffer_new_inv [OF b, simplified]
  have "buffer_inv lq_valid b" using new by blast
  from double_buffer_keeps_newest [OF lq.bounded_queue_axioms this, of "[1, 2, 3]"] show ?thesis
    using b new by (auto simp: keep_last_def)
qed

end
