(* ===== verification/Static_Vec.thy ===== *)
theory Static_Vec
  imports Prelude
begin

text \<open>
  \<open>base/src/static_vec.rs\<close>: an inline sequence of at most \<open>N\<close> entries, used for the bounded
  message and event lists of execution records. The array of \<open>MaybeUninit\<close> entries is a list of
  options of fixed length \<open>N\<close>, \<open>None\<close> for memory that was never written; reading such an entry
  is \<open>Undefined\<close>.

  \<open>elements\<close> is the abstraction: the initialised prefix. The lemmas show that the operations
  implement a bounded stack on it, except \<open>push_cloned\<close>, which writes one entry too low.
\<close>

section \<open>Model\<close>

record 'a static_vec =
  entries :: "'a option list"
  len :: nat

definition sv_new :: "nat \<Rightarrow> 'a static_vec" where
  "sv_new N = \<lparr>entries = replicate N None, len = 0\<rparr>"

definition sv_capacity :: "'a static_vec \<Rightarrow> nat" where
  "sv_capacity v = length (entries v)"

definition sv_push :: "'a static_vec \<Rightarrow> 'a \<Rightarrow> bool \<times> 'a static_vec" where
  "sv_push v x =
     (if len v = sv_capacity v then (False, v)
      else (True, v\<lparr>len := len v + 1, entries := (entries v)[len v := Some x]\<rparr>))"

definition sv_pop :: "'a static_vec \<Rightarrow> ('a option \<times> 'a static_vec) outcome" where
  "sv_pop v =
     (if len v = 0 then Ret (None, v)
      else and_then (assume_init_value (entries v ! (len v - 1))) (\<lambda>x.
        Ret (Some x, v\<lparr>entries := (entries v)[len v - 1 := None], len := len v - 1\<rparr>)))"

definition sv_front :: "'a static_vec \<Rightarrow> 'a option outcome" where
  "sv_front v =
     (if len v = 0 then Ret None
      else and_then (assume_init_value (entries v ! 0)) (\<lambda>x. Ret (Some x)))"

definition sv_back :: "'a static_vec \<Rightarrow> 'a option outcome" where
  "sv_back v =
     (if len v = 0 then Ret None
      else and_then (assume_init_value (entries v ! (len v - 1))) (\<lambda>x. Ret (Some x)))"

text \<open>
  \<open>front_mut\<close> and \<open>back_mut\<close> hand out a mutable reference; the caller's update is the function
  argument.
\<close>

definition sv_front_mut :: "'a static_vec \<Rightarrow> ('a \<Rightarrow> 'a) \<Rightarrow> (bool \<times> 'a static_vec) outcome" where
  "sv_front_mut v f =
     (if len v = 0 then Ret (False, v)
      else and_then (assume_init_value (entries v ! 0)) (\<lambda>x.
        Ret (True, v\<lparr>entries := (entries v)[0 := Some (f x)]\<rparr>)))"

definition sv_back_mut :: "'a static_vec \<Rightarrow> ('a \<Rightarrow> 'a) \<Rightarrow> (bool \<times> 'a static_vec) outcome" where
  "sv_back_mut v f =
     (if len v = 0 then Ret (False, v)
      else and_then (assume_init_value (entries v ! (len v - 1))) (\<lambda>x.
        Ret (True, v\<lparr>entries := (entries v)[len v - 1 := Some (f x)]\<rparr>)))"

text \<open>
  \<open>pop_into\<close> reads the back entry into the slot and leaves a bitwise copy behind, outside the
  initialised prefix; an empty sequence leaves the slot as it was.
\<close>

definition sv_pop_into :: "'a static_vec \<Rightarrow> 'a option \<Rightarrow> ('a option \<times> 'a static_vec) outcome" where
  "sv_pop_into v slot =
     (if len v = 0 then Ret (slot, v)
      else and_then (assume_init_value (entries v ! (len v - 1))) (\<lambda>x.
        Ret (Some x, v\<lparr>len := len v - 1\<rparr>)))"

definition sv_as_slice :: "'a static_vec \<Rightarrow> 'a list outcome" where
  "sv_as_slice v = map_outcome_list assume_init_value (take (len v) (entries v))"

text \<open>\<open>clear\<close> (and \<open>Drop\<close>, which calls it) destroys the initialised entries and returns them here.\<close>

definition sv_clear :: "'a static_vec \<Rightarrow> ('a list \<times> 'a static_vec) outcome" where
  "sv_clear v =
     and_then (map_outcome_list assume_init_value (take (len v) (entries v))) (\<lambda>xs.
       Ret (xs, v\<lparr>entries := replicate (min (len v) (length (entries v))) None
                    @ drop (len v) (entries v), len := 0\<rparr>))"

definition sv_is_empty :: "'a static_vec \<Rightarrow> bool" where
  "sv_is_empty v \<longleftrightarrow> len v = 0"

fun sv_store_from :: "nat \<Rightarrow> 'a option list \<Rightarrow> 'a list \<Rightarrow> 'a option list" where
  "sv_store_from i es [] = es"
| "sv_store_from i es (x # xs) = sv_store_from (Suc i) (es[i := Some x]) xs"

definition sv_clone :: "'a static_vec \<Rightarrow> 'a static_vec outcome" where
  "sv_clone v =
     and_then (sv_as_slice v) (\<lambda>xs.
       Ret \<lparr>entries = sv_store_from 0 (replicate (sv_capacity v) None) xs, len = len v\<rparr>)"

definition sv_eq :: "'a static_vec \<Rightarrow> 'a static_vec \<Rightarrow> bool outcome" where
  "sv_eq v w = and_then (sv_as_slice v) (\<lambda>xs. and_then (sv_as_slice w) (\<lambda>ys. Ret (xs = ys)))"

definition sv_push_cloned :: "'a static_vec \<Rightarrow> 'a \<Rightarrow> (bool \<times> 'a static_vec) outcome" where
  "sv_push_cloned v x =
     (if len v = sv_capacity v then Ret (False, v)
      else if len v = 0 then Panic
      else Ret (True, v\<lparr>entries := (entries v)[len v - 1 := Some x], len := len v + 1\<rparr>))"

text \<open>
  The serde form is the sequence of elements; \<open>visit_seq\<close> pushes element by element and refuses
  the first one that does not fit (\<open>None\<close>).
\<close>

definition sv_serialize :: "'a static_vec \<Rightarrow> 'a list outcome" where
  "sv_serialize v = sv_as_slice v"

fun sv_visit_seq :: "'a static_vec \<Rightarrow> 'a list \<Rightarrow> 'a static_vec option" where
  "sv_visit_seq v [] = Some v"
| "sv_visit_seq v (x # xs) =
     (case sv_push v x of (ok, v') \<Rightarrow> if ok then sv_visit_seq v' xs else None)"

definition sv_deserialize :: "nat \<Rightarrow> 'a list \<Rightarrow> 'a static_vec option" where
  "sv_deserialize N xs = sv_visit_seq (sv_new N) xs"

section \<open>Abstraction and invariant\<close>

definition sv_inv :: "'a static_vec \<Rightarrow> bool" where
  "sv_inv v \<longleftrightarrow> len v \<le> length (entries v) \<and> (\<forall>i < len v. entries v ! i \<noteq> None)"

definition elements :: "'a static_vec \<Rightarrow> 'a list" where
  "elements v = map the (take (len v) (entries v))"

named_theorems sv_simps \<open>operations of the inline sequence on its elements\<close>

lemma length_elements [simp]: "sv_inv v \<Longrightarrow> length (elements v) = len v"
  by (simp add: elements_def sv_inv_def)

lemma take_entries: "sv_inv v \<Longrightarrow> take (len v) (entries v) = map Some (elements v)"
  by (rule nth_equalityI) (auto simp: elements_def sv_inv_def)

lemma entry_elements: "sv_inv v \<Longrightarrow> i < len v \<Longrightarrow> entries v ! i = Some (elements v ! i)"
  by (auto simp: elements_def sv_inv_def)

lemma sv_new_inv [sv_simps]: "sv_inv (sv_new N)" "elements (sv_new N) = []"
  "sv_capacity (sv_new N) = N" "len (sv_new N) = 0"
  by (simp_all add: sv_inv_def sv_new_def elements_def sv_capacity_def)

lemma map_outcome_list_Some [simp]:
  "map_outcome_list assume_init_value (map Some xs) = Ret xs"
  by (induction xs) auto

lemma sv_as_slice_elements [sv_simps]: "sv_inv v \<Longrightarrow> sv_as_slice v = Ret (elements v)"
  by (simp add: sv_as_slice_def take_entries)

lemma sv_push_room [sv_simps]:
  assumes "sv_inv v" and "len v < sv_capacity v"
  obtains v' where "sv_push v x = (True, v')" "sv_inv v'" "elements v' = elements v @ [x]"
    "sv_capacity v' = sv_capacity v" "len v' = Suc (len v)"
proof (rule that [of "v\<lparr>len := len v + 1, entries := (entries v)[len v := Some x]\<rparr>"])
  show "elements (v\<lparr>len := len v + 1, entries := (entries v)[len v := Some x]\<rparr>) = elements v @ [x]"
    using assms by (simp add: elements_def sv_capacity_def take_Suc_conv_app_nth)
qed (use assms in \<open>auto simp: sv_push_def sv_inv_def sv_capacity_def nth_list_update\<close>)

lemma sv_push_full [sv_simps]: "len v = sv_capacity v \<Longrightarrow> sv_push v x = (False, v)"
  by (simp add: sv_push_def)

lemma elements_snoc: "sv_inv v \<Longrightarrow> 0 < len v \<Longrightarrow> elements v = butlast (elements v) @ [last (elements v)]"
  by (metis append_butlast_last_id length_elements length_greater_0_conv)

lemma last_elements: "sv_inv v \<Longrightarrow> 0 < len v \<Longrightarrow> entries v ! (len v - Suc 0) = Some (last (elements v))"
  by (subst last_conv_nth) (auto simp: entry_elements length_greater_0_conv [symmetric]
      simp del: length_greater_0_conv)

lemma sv_pop_elements:
  assumes "sv_inv v" and "0 < len v"
  obtains v' where "sv_pop v = Ret (Some (last (elements v)), v')" "sv_inv v'"
    "elements v' = butlast (elements v)" "sv_capacity v' = sv_capacity v" "len v' = len v - 1"
proof (rule that [of "v\<lparr>entries := (entries v)[len v - 1 := None], len := len v - 1\<rparr>"])
  show "sv_pop v = Ret (Some (last (elements v)),
      v\<lparr>entries := (entries v)[len v - 1 := None], len := len v - 1\<rparr>)"
    using assms by (simp add: sv_pop_def last_elements)
  show "elements (v\<lparr>entries := (entries v)[len v - 1 := None], len := len v - 1\<rparr>)
      = butlast (elements v)"
    using assms by (simp add: elements_def sv_inv_def map_butlast [symmetric] butlast_take)
qed (use assms in \<open>auto simp: sv_inv_def sv_capacity_def nth_list_update\<close>)

lemma sv_store_from_replicate:
  "i + length xs \<le> length es \<Longrightarrow>
     sv_store_from i es xs = take i es @ map Some xs @ drop (i + length xs) es"
proof (induction xs arbitrary: i es)
  case (Cons x xs)
  then have "sv_store_from (Suc i) (es[i := Some x]) xs =
      take (Suc i) (es[i := Some x]) @ map Some xs @ drop (Suc i + length xs) (es[i := Some x])"
    by (intro Cons.IH) simp
  with Cons.prems show ?case by (simp add: take_Suc_conv_app_nth)
qed simp

lemma sv_clone_elements:
  assumes "sv_inv v"
  obtains w where "sv_clone v = Ret w" "sv_inv w" "elements w = elements v"
    "sv_capacity w = sv_capacity v"
proof (rule that [of "\<lparr>entries = sv_store_from 0 (replicate (sv_capacity v) None) (elements v),
    len = len v\<rparr>"])
qed (use assms in \<open>auto simp: sv_clone_def sv_simps sv_inv_def sv_capacity_def elements_def
      sv_store_from_replicate nth_append\<close>)

lemma sv_visit_seq_elements:
  assumes "sv_inv v"
  shows "(len v + length xs \<le> sv_capacity v \<longrightarrow>
     (\<exists>w. sv_visit_seq v xs = Some w \<and> sv_inv w \<and> elements w = elements v @ xs
        \<and> sv_capacity w = sv_capacity v))
     \<and> (sv_capacity v < len v + length xs \<longrightarrow> len v \<le> sv_capacity v \<longrightarrow> sv_visit_seq v xs = None)"
  using assms
proof (induction xs arbitrary: v)
  case Nil
  then show ?case by auto
next
  case (Cons x xs)
  show ?case
  proof (cases "len v < sv_capacity v")
    case True
    obtain v' where v': "sv_push v x = (True, v')" "sv_inv v'" "elements v' = elements v @ [x]"
      "sv_capacity v' = sv_capacity v" "len v' = Suc (len v)"
      using sv_push_room [OF Cons.prems True] .
    with Cons.IH [OF v'(2)] True show ?thesis by auto
  next
    case False
    then show ?thesis by (auto simp: sv_push_full)
  qed
qed

lemma map_outcome_list_Undefined:
  "map_outcome_list assume_init_value (map Some xs @ None # ys) = Undefined"
  by (induction xs) auto

section \<open>Properties\<close>

text \<open>
  the inline sequence is a bounded stack. A push below capacity succeeds, appends, and
  a pop then gives the same value back and restores the elements; a push at capacity fails and
  changes nothing; no read of the initialised prefix touches uninitialised memory.
\<close>

theorem static_vec_bounded_stack:
  assumes "sv_inv v"
  shows "(len v < sv_capacity v \<longrightarrow> (\<exists>v' v''. sv_push v x = (True, v') \<and> sv_inv v'
            \<and> elements v' = elements v @ [x] \<and> sv_back v' = Ret (Some x)
            \<and> sv_pop v' = Ret (Some x, v'') \<and> sv_inv v'' \<and> elements v'' = elements v))
    \<and> (len v = sv_capacity v \<longrightarrow> sv_push v x = (False, v))
    \<and> len v \<le> sv_capacity v
    \<and> sv_as_slice v = Ret (elements v)"
proof (intro conjI impI)
  assume "len v < sv_capacity v"
  then obtain v' where v': "sv_push v x = (True, v')" "sv_inv v'" "elements v' = elements v @ [x]"
    "len v' = Suc (len v)" using sv_push_room [OF assms] by metis
  moreover obtain v'' where "sv_pop v' = Ret (Some (last (elements v')), v'')" "sv_inv v''"
    "elements v'' = butlast (elements v')" using sv_pop_elements [OF v'(2)] v'(4) by auto
  ultimately show "\<exists>v' v''. sv_push v x = (True, v') \<and> sv_inv v'
      \<and> elements v' = elements v @ [x] \<and> sv_back v' = Ret (Some x)
      \<and> sv_pop v' = Ret (Some x, v'') \<and> sv_inv v'' \<and> elements v'' = elements v"
    using last_elements [OF v'(2)] by (auto simp: sv_back_def)
qed (use assms in \<open>auto simp: sv_push_full sv_as_slice_elements sv_capacity_def sv_inv_def\<close>)

theorem static_vec_bounded_stack_witness:
  "sv_inv (snd (sv_push (sv_new 2) (7 :: nat)))
   \<and> sv_as_slice (snd (sv_push (sv_new 2) (7 :: nat))) = Ret [7]"
proof -
  have inv: "sv_inv (snd (sv_push (sv_new 2) (7 :: nat)))"
    by (simp add: sv_inv_def sv_push_def sv_new_def sv_capacity_def)
  have "elements (snd (sv_push (sv_new 2) (7 :: nat))) = [7]"
    by (simp add: elements_def sv_push_def sv_new_def sv_capacity_def numeral_2_eq_2)
  then show ?thesis
    using static_vec_bounded_stack [OF inv, of 1] inv by simp
qed

text \<open>
  round trip through the serialised form. Decoding what was encoded from a well-formed
  sequence gives an equal sequence of the same capacity, and decoding refuses exactly the
  sequences longer than the capacity.
\<close>

theorem static_vec_serde_round_trip:
  assumes "sv_inv v"
  shows "(\<exists>xs w. sv_serialize v = Ret xs \<and> sv_deserialize (sv_capacity v) xs = Some w
      \<and> sv_inv w \<and> sv_capacity w = sv_capacity v \<and> sv_eq v w = Ret True)
    \<and> (sv_deserialize N ys = None \<longleftrightarrow> N < length ys)"
proof
  have "len v \<le> sv_capacity v" using assms by (simp add: sv_inv_def sv_capacity_def)
  then obtain w where "sv_deserialize (sv_capacity v) (elements v) = Some w" "sv_inv w"
    "elements w = elements v" "sv_capacity w = sv_capacity v"
    using sv_visit_seq_elements [OF sv_new_inv(1), of "sv_capacity v" "elements v"] assms
    by (auto simp: sv_deserialize_def sv_new_inv)
  then show "\<exists>xs w. sv_serialize v = Ret xs \<and> sv_deserialize (sv_capacity v) xs = Some w
      \<and> sv_inv w \<and> sv_capacity w = sv_capacity v \<and> sv_eq v w = Ret True"
    using assms by (auto simp: sv_serialize_def sv_eq_def sv_as_slice_elements)
next
  show "sv_deserialize N ys = None \<longleftrightarrow> N < length ys"
    using sv_visit_seq_elements [OF sv_new_inv(1), of N ys]
    by (auto simp: sv_deserialize_def sv_new_inv not_less)
qed

theorem static_vec_serde_round_trip_witness:
  "sv_deserialize 2 [1, 2, 3 :: nat] = None
   \<and> (\<exists>xs w. sv_serialize (sv_new 2 :: nat static_vec) = Ret xs
        \<and> sv_deserialize 2 xs = Some w \<and> sv_eq (sv_new 2) w = Ret True)"
  using static_vec_serde_round_trip [OF sv_new_inv(1) [of 2], of 2 "[1, 2, 3 :: nat]"]
  by (auto simp: sv_new_inv)

text \<open>
  \<open>push_cloned\<close> does not append. On an empty sequence with room it panics (the index
  underflows); on a non-empty one that was filled by pushes it overwrites the last element and
  extends the length over an entry that was never written, so the next read is undefined.
\<close>

theorem push_cloned_breaks_prefix:
  assumes "sv_inv v" and "len v < sv_capacity v" and "entries v ! len v = None"
  shows "(len v = 0 \<longrightarrow> sv_push_cloned v x = Panic)
    \<and> (0 < len v \<longrightarrow> (\<exists>w. sv_push_cloned v x = Ret (True, w) \<and> \<not> sv_inv w
         \<and> entries w ! (len v - 1) = Some x \<and> sv_as_slice w = Undefined))"
proof (intro conjI impI)
  assume "0 < len v"
  let ?es = "(entries v)[len v - 1 := Some x]"
  have n: "len v < length ?es" "?es ! len v = None"
    using assms \<open>0 < len v\<close> by (auto simp: sv_capacity_def)
  have "take (len v) ?es = map Some ((elements v)[len v - 1 := x])"
    using take_entries [OF assms(1)] by (simp add: take_update_swap map_update)
  then have "take (Suc (len v)) ?es = map Some ((elements v)[len v - 1 := x]) @ [None]"
    using n by (simp add: take_Suc_conv_app_nth)
  then have "sv_as_slice (v\<lparr>entries := ?es, len := len v + 1\<rparr>) = Undefined"
    by (simp add: sv_as_slice_def map_outcome_list_Undefined)
  moreover have "\<not> sv_inv (v\<lparr>entries := ?es, len := len v + 1\<rparr>)"
    using n by (auto simp: sv_inv_def)
  ultimately show "\<exists>w. sv_push_cloned v x = Ret (True, w) \<and> \<not> sv_inv w
      \<and> entries w ! (len v - 1) = Some x \<and> sv_as_slice w = Undefined"
    using assms \<open>0 < len v\<close> by (auto simp: sv_push_cloned_def sv_capacity_def)
qed (use assms in \<open>auto simp: sv_push_cloned_def\<close>)

theorem push_cloned_breaks_prefix_witness:
  "sv_push_cloned (sv_new 3) (5 :: nat) = Panic
   \<and> (\<exists>w. sv_push_cloned (snd (sv_push (sv_new 3) (7 :: nat))) 5 = Ret (True, w)
        \<and> sv_as_slice w = Undefined)"
proof -
  have 0: "sv_inv (sv_new 3 :: nat static_vec)" "len (sv_new 3 :: nat static_vec) < sv_capacity (sv_new 3 :: nat static_vec)"
    "entries (sv_new 3 :: nat static_vec) ! len (sv_new 3 :: nat static_vec) = None"
    by (simp_all add: sv_new_inv) (simp add: sv_new_def)
  let ?v = "snd (sv_push (sv_new 3) (7 :: nat))"
  have 1: "sv_inv ?v" "len ?v < sv_capacity ?v" "entries ?v ! len ?v = None" "0 < len ?v"
    by (simp_all add: sv_inv_def sv_push_def sv_new_def sv_capacity_def)
  show ?thesis
    using push_cloned_breaks_prefix [OF 0, of 5] push_cloned_breaks_prefix [OF 1(1-3), of 5] 1(4)
    by (auto simp: sv_new_inv)
qed

end
