(* ===== verification/String_Interner.thy ===== *)
theory String_Interner
  imports Prelude "HOL-Library.AList"
begin

text \<open>
  \<open>base/src/string_interner.rs\<close>: the tables that give channel and callback names their 32-bit
  identifiers. Both hash maps are association lists with one entry per key (\<open>AList.update\<close>
  replaces or appends). Identifiers are \<open>u32\<close> values, and the identifier of a new name is the
  number of names cast to \<open>u32\<close>, so it wraps after \<open>2 ^ 32\<close> names.
\<close>

section \<open>Model\<close>

datatype intern_id = InternId (id_value: u32)

definition intern_index :: "intern_id \<Rightarrow> nat" where
  "intern_index i = unat (id_value i)"

definition intern_from_index :: "nat \<Rightarrow> intern_id option" where
  "intern_from_index n = map_option (\<lambda>k. InternId (of_nat k)) (checked_u32 n)"

record string_interner =
  id_to_data :: "(intern_id \<times> string) list"
  data_to_id :: "(string \<times> intern_id) list"

definition interner_new :: string_interner where
  "interner_new = \<lparr>id_to_data = [], data_to_id = []\<rparr>"

definition intern :: "string_interner \<Rightarrow> string \<Rightarrow> intern_id \<times> string_interner" where
  "intern t value =
     (case map_of (data_to_id t) value of
        Some intern_id \<Rightarrow> (intern_id, t)
      | None \<Rightarrow>
          (let id = InternId (of_nat (length (data_to_id t))) in
           (id, t\<lparr>id_to_data := AList.update id value (id_to_data t),
                  data_to_id := AList.update value id (data_to_id t)\<rparr>)))"

definition lookup_by_id :: "string_interner \<Rightarrow> intern_id \<Rightarrow> string outcome" where
  "lookup_by_id t i = expect (map_of (id_to_data t) i)"

definition try_lookup_by_id :: "string_interner \<Rightarrow> intern_id \<Rightarrow> string option" where
  "try_lookup_by_id t i = map_of (id_to_data t) i"

definition interner_names :: "string_interner \<Rightarrow> string list outcome" where
  "interner_names t =
     map_outcome_list (\<lambda>index. lookup_by_id t (InternId (of_nat index)))
       [0..<length (id_to_data t)]"

definition lookup_by_value :: "string_interner \<Rightarrow> string \<Rightarrow> intern_id option" where
  "lookup_by_value t value = map_of (data_to_id t) value"

definition interner_serialize :: "string_interner \<Rightarrow> string list outcome" where
  "interner_serialize t = interner_names t"

fun interner_load :: "string_interner \<Rightarrow> string list \<Rightarrow> string + string_interner" where
  "interner_load t [] = Inr t"
| "interner_load t (name # names) =
     (if lookup_by_value t name \<noteq> None then Inl ''duplicate interned name''
      else interner_load (snd (intern t name)) names)"

definition interner_deserialize :: "string list \<Rightarrow> string + string_interner" where
  "interner_deserialize names = interner_load interner_new names"

fun intern_all :: "string_interner \<Rightarrow> string list \<Rightarrow> string_interner" where
  "intern_all t [] = t"
| "intern_all t (name # names) = intern_all (snd (intern t name)) names"

section \<open>The table of a list of names\<close>

text \<open>
  \<open>table_of ns\<close> is the table whose names, in identifier order, are \<open>ns\<close>. Every table built by
  interning is of this form as long as there are at most \<open>2 ^ 32\<close> names.
\<close>

definition ids :: "nat \<Rightarrow> intern_id list" where
  "ids n = map (\<lambda>k. InternId (of_nat k)) [0..<n]"

definition table_of :: "string list \<Rightarrow> string_interner" where
  "table_of ns = \<lparr>id_to_data = zip (ids (length ns)) ns, data_to_id = zip ns (ids (length ns))\<rparr>"

definition interner_inv :: "string_interner \<Rightarrow> bool" where
  "interner_inv t \<longleftrightarrow> (\<exists>ns. distinct ns \<and> length ns \<le> 2 ^ 32 \<and> t = table_of ns)"

lemma length_ids [simp]: "length (ids n) = n"
  by (simp add: ids_def)

lemma nth_ids [simp]: "i < n \<Longrightarrow> ids n ! i = InternId (of_nat i)"
  by (simp add: ids_def)

lemma ids_Suc: "ids (Suc n) = ids n @ [InternId (of_nat n)]"
  by (simp add: ids_def)

lemma of_nat_u32_inj:
  "i < 2 ^ 32 \<Longrightarrow> j < 2 ^ 32 \<Longrightarrow> (of_nat i :: u32) = of_nat j \<longleftrightarrow> i = j"
  by (simp add: word_of_nat_eq_iff take_bit_nat_eq_self)

lemma distinct_ids: "n \<le> 2 ^ 32 \<Longrightarrow> distinct (ids n)"
  by (auto simp: ids_def distinct_map inj_on_def of_nat_u32_inj)

lemma update_fresh: "k \<notin> fst ` set al \<Longrightarrow> AList.update k v al = al @ [(k, v)]"
  by (induction al) auto

lemma interner_new_inv: "interner_inv interner_new"
  by (auto simp: interner_inv_def table_of_def interner_new_def ids_def intro!: exI [of _ "[]"])

lemma table_of_lookups:
  assumes "distinct ns" and "length ns \<le> 2 ^ 32" and "i < length ns"
  shows "lookup_by_value (table_of ns) (ns ! i) = Some (InternId (of_nat i))"
    and "try_lookup_by_id (table_of ns) (InternId (of_nat i)) = Some (ns ! i)"
proof -
  show "lookup_by_value (table_of ns) (ns ! i) = Some (InternId (of_nat i))"
    using map_of_zip_nth [of ns "ids (length ns)" i] assms
    by (simp add: lookup_by_value_def table_of_def)
  show "try_lookup_by_id (table_of ns) (InternId (of_nat i)) = Some (ns ! i)"
    using map_of_zip_nth [of "ids (length ns)" ns i] assms distinct_ids [of "length ns"]
    by (simp add: try_lookup_by_id_def table_of_def)
qed

lemma table_of_Some_iff:
  assumes "distinct ns" and "length ns \<le> 2 ^ 32"
  shows "lookup_by_value (table_of ns) w = Some j \<longleftrightarrow>
      (\<exists>k < length ns. w = ns ! k \<and> j = InternId (of_nat k))"
    and "try_lookup_by_id (table_of ns) j = Some w \<longleftrightarrow>
      (\<exists>k < length ns. w = ns ! k \<and> j = InternId (of_nat k))"
proof -
  have z: "(a, b) \<in> set (zip ns (ids (length ns))) \<longleftrightarrow>
      (\<exists>k < length ns. a = ns ! k \<and> b = InternId (of_nat k))" for a b
    by (auto simp: set_zip nth_ids)
  have z': "(b, a) \<in> set (zip (ids (length ns)) ns) \<longleftrightarrow>
      (\<exists>k < length ns. a = ns ! k \<and> b = InternId (of_nat k))" for a b
    by (auto simp: set_zip nth_ids) (metis nth_ids)
  show "lookup_by_value (table_of ns) w = Some j \<longleftrightarrow>
      (\<exists>k < length ns. w = ns ! k \<and> j = InternId (of_nat k))"
    using assms(1) by (simp add: lookup_by_value_def table_of_def z)
  show "try_lookup_by_id (table_of ns) j = Some w \<longleftrightarrow>
      (\<exists>k < length ns. w = ns ! k \<and> j = InternId (of_nat k))"
    using distinct_ids [OF assms(2)] by (simp add: try_lookup_by_id_def table_of_def z')
qed

lemma lookup_by_value_None: "lookup_by_value (table_of ns) v = None \<longleftrightarrow> v \<notin> set ns"
  by (auto simp: lookup_by_value_def table_of_def map_of_eq_None_iff dest: set_zip_leftD)
    (metis fst_conv image_eqI in_set_impl_in_set_zip1 length_ids)

lemma intern_fresh:
  assumes "v \<notin> set ns" and "length ns < 2 ^ 32"
  shows "intern (table_of ns) v = (InternId (of_nat (length ns)), table_of (ns @ [v]))"
proof -
  have a: "v \<notin> fst ` set (zip ns (ids (length ns)))"
    using assms(1) by (auto dest: set_zip_leftD)
  have b: "InternId (of_nat (length ns)) \<notin> fst ` set (zip (ids (length ns)) ns)"
    using assms(2) by (auto simp: ids_def of_nat_u32_inj dest!: set_zip_leftD)
  have c: "map_of (zip ns (ids (length ns))) v = None"
    using a by (simp add: map_of_eq_None_iff)
  show ?thesis
    by (simp add: intern_def table_of_def ids_Suc c update_fresh [OF a] update_fresh [OF b] Let_def)
qed

lemma intern_known:
  "distinct ns \<Longrightarrow> length ns \<le> 2 ^ 32 \<Longrightarrow> i < length ns \<Longrightarrow>
     intern (table_of ns) (ns ! i) = (InternId (of_nat i), table_of ns)"
  using table_of_lookups(1) [of ns i] by (simp add: intern_def lookup_by_value_def)

lemma interner_load_table:
  "distinct (ns @ ms) \<Longrightarrow> length (ns @ ms) \<le> 2 ^ 32 \<Longrightarrow>
     interner_load (table_of ns) ms = Inr (table_of (ns @ ms))"
proof (induction ms arbitrary: ns)
  case (Cons m ms)
  from Cons.prems have "intern (table_of ns) m = (InternId (of_nat (length ns)), table_of (ns @ [m]))"
    by (intro intern_fresh) auto
  with Cons show ?case by (simp add: lookup_by_value_None)
qed simp

lemma interner_load_duplicate:
  "\<not> distinct (ns @ ms) \<Longrightarrow> distinct ns \<Longrightarrow> length (ns @ ms) \<le> 2 ^ 32 \<Longrightarrow>
     interner_load (table_of ns) ms = Inl ''duplicate interned name''"
proof (induction ms arbitrary: ns)
  case (Cons m ms)
  show ?case
  proof (cases "m \<in> set ns")
    case False
    then have "intern (table_of ns) m = (InternId (of_nat (length ns)), table_of (ns @ [m]))"
      using Cons.prems by (intro intern_fresh) auto
    with Cons False show ?thesis by (simp add: lookup_by_value_None)
  qed (simp add: lookup_by_value_None)
qed simp

lemma table_of_Nil: "interner_new = table_of []"
  by (simp add: interner_new_def table_of_def)

lemma interner_names_table:
  assumes "distinct ns" and "length ns \<le> 2 ^ 32"
  shows "interner_names (table_of ns) = Ret ns"
proof -
  have "lookup_by_id (table_of ns) (InternId (of_nat i)) = Ret (ns ! i)" if "i < length ns" for i
    using table_of_lookups(2) [OF assms that] by (simp add: lookup_by_id_def try_lookup_by_id_def)
  then have "interner_names (table_of ns) = Ret (map ((!) ns) [0..<length ns])"
    unfolding interner_names_def by (subst map_outcome_list_Ret) (auto simp: table_of_def)
  then show ?thesis by (simp add: map_nth)
qed

lemma intern_preserves:
  assumes "interner_inv t" and "length (data_to_id t) < 2 ^ 32"
  shows "interner_inv (snd (intern t v))"
proof -
  obtain ns where ns: "distinct ns" "length ns \<le> 2 ^ 32" "t = table_of ns"
    using assms(1) by (auto simp: interner_inv_def)
  show ?thesis
  proof (cases "v \<in> set ns")
    case True
    then obtain i where "i < length ns" "v = ns ! i" by (auto simp: in_set_conv_nth)
    with ns assms(1) show ?thesis by (simp add: intern_known)
  next
    case False
    with ns assms(2) intern_fresh [OF False] show ?thesis
      by (auto simp: interner_inv_def table_of_def intro!: exI [of _ "ns @ [v]"])
  qed
qed

section \<open>Properties\<close>

text \<open>
  interning is a bijection between names and identifiers. From a well-formed table with
  room, the returned identifier maps back to the name and the name to the identifier, every
  lookup that succeeded before still gives the same answer, and the table stays well-formed.
\<close>

theorem intern_bijective:
  assumes "interner_inv t" and "length (data_to_id t) < 2 ^ 32" and "intern t v = (i, t')"
  shows "interner_inv t' \<and> lookup_by_id t' i = Ret v \<and> lookup_by_value t' v = Some i
    \<and> (\<forall>j w. try_lookup_by_id t j = Some w \<longrightarrow> try_lookup_by_id t' j = Some w)
    \<and> (\<forall>j w. lookup_by_value t' w = Some j \<longleftrightarrow> try_lookup_by_id t' j = Some w)"
proof -
  obtain ns where ns: "distinct ns" "length ns \<le> 2 ^ 32" "t = table_of ns"
    using assms(1) by (auto simp: interner_inv_def)
  have inv: "interner_inv t'" using intern_preserves [OF assms(1,2), of v] assms(3) by simp
  obtain ms where ms: "distinct ms" "length ms \<le> 2 ^ 32" "t' = table_of ms"
    and pre: "take (length ns) ms = ns" "length ns \<le> length ms"
    and v: "\<exists>k < length ms. ms ! k = v \<and> i = InternId (of_nat k)"
  proof (cases "v \<in> set ns")
    case True
    then obtain k where "k < length ns" "v = ns ! k" by (auto simp: in_set_conv_nth)
    then show ?thesis using that [of ns] ns assms(3) by (auto simp: intern_known)
  next
    case False
    have "length ns < 2 ^ 32" using assms(2) ns by (simp add: table_of_def)
    then have new: "i = InternId (of_nat (length ns))" "t' = table_of (ns @ [v])"
      using intern_fresh [OF False] ns assms(3) by auto
    have "\<exists>k < length (ns @ [v]). (ns @ [v]) ! k = v \<and> i = InternId (of_nat k)"
      by (rule exI [of _ "length ns"]) (simp add: new)
    then show ?thesis using that [of "ns @ [v]"] ns new False \<open>length ns < 2 ^ 32\<close> by simp
  qed
  have bij: "lookup_by_value t' w = Some j \<longleftrightarrow> try_lookup_by_id t' j = Some w" for j w
    using table_of_Some_iff [OF ms(1,2)] ms(3) by simp
  have old: "try_lookup_by_id t' j = Some w" if "try_lookup_by_id t j = Some w" for j w
  proof -
    from that obtain k where k: "k < length ns" "j = InternId (of_nat k)" "w = ns ! k"
      using table_of_Some_iff(2) [OF ns(1,2)] ns(3) by auto
    then have "ms ! k = w" using pre by (metis nth_take)
    with k pre(2) table_of_lookups(2) [OF ms(1,2), of k] ms(3) show ?thesis by auto
  qed
  from v table_of_lookups [OF ms(1,2)] ms(3) show ?thesis
    using inv bij old by (auto simp: lookup_by_id_def try_lookup_by_id_def)
qed

theorem intern_bijective_witness:
  "interner_inv interner_new \<and> fst (intern interner_new ''imu'') = InternId 0
   \<and> lookup_by_id (snd (intern interner_new ''imu'')) (InternId 0) = Ret ''imu''"
proof -
  have "intern interner_new ''imu'' = (InternId 0, snd (intern interner_new ''imu''))"
    by (simp add: intern_def interner_new_def Let_def)
  moreover have "length (data_to_id interner_new) < 2 ^ 32" by (simp add: interner_new_def)
  ultimately show ?thesis
    using intern_bijective [OF interner_new_inv, of "''imu''" "InternId 0"
        "snd (intern interner_new ''imu'')"] interner_new_inv by (metis fst_conv)
qed

text \<open>
  the persisted form of a table is its names in identifier order. Serialising a well-formed
  table succeeds, decoding the result gives the same table, and decoding fails exactly on a list
  with a repeated name.
\<close>

theorem interner_round_trip:
  assumes "interner_inv t" and "length names \<le> 2 ^ 32"
  shows "(\<exists>ns. interner_serialize t = Ret ns \<and> interner_deserialize ns = Inr t)
    \<and> (interner_deserialize names = Inl ''duplicate interned name'' \<longleftrightarrow> \<not> distinct names)
    \<and> (distinct names \<longrightarrow> interner_deserialize names = Inr (intern_all interner_new names))"
proof (intro conjI)
  from assms(1) show "\<exists>ns. interner_serialize t = Ret ns \<and> interner_deserialize ns = Inr t"
    using interner_load_table [of "[]"] interner_names_table
    by (auto simp: interner_inv_def interner_serialize_def interner_deserialize_def table_of_Nil)
  show "interner_deserialize names = Inl ''duplicate interned name'' \<longleftrightarrow> \<not> distinct names"
    using interner_load_table [of "[]" names] interner_load_duplicate [of "[]" names] assms(2)
    by (auto simp: interner_deserialize_def table_of_Nil)
  have "interner_load u ns = Inr w \<Longrightarrow> w = intern_all u ns" for u w ns
    by (induction ns arbitrary: u) (auto split: if_splits)
  then show "distinct names \<longrightarrow> interner_deserialize names = Inr (intern_all interner_new names)"
    using interner_load_table [of "[]" names] assms(2)
    by (auto simp: interner_deserialize_def table_of_Nil)
qed

theorem interner_round_trip_witness:
  "interner_deserialize [''a'', ''b'', ''a''] = Inl ''duplicate interned name''
   \<and> interner_inv interner_new"
  using interner_round_trip [OF interner_new_inv, of "[''a'', ''b'', ''a'']"] interner_new_inv
  by simp

end
