(* ===== verification/Framework_Time.thy ===== *)
theory Framework_Time
  imports Prelude
begin

text \<open>
  \<open>task/src/time.rs\<close>: the framework's clock value, signed 64-bit nanoseconds, and
  \<open>std::time::Duration\<close> as far as it is used here (its \<open>as_nanos\<close>, a natural number).
  Arithmetic on \<open>i64\<close> is the checked arithmetic of the development profile: an overflow panics.

  The derived ordering is an instance of \<open>linorder\<close>, so that the library's sorting and minimum
  functions apply to times.
\<close>

section \<open>Model\<close>

type_synonym duration = nat \<comment> \<open>nanoseconds\<close>

datatype framework_time = FrameworkTime (nanoseconds: int)

instantiation framework_time :: linorder
begin

definition less_eq_framework_time :: "framework_time \<Rightarrow> framework_time \<Rightarrow> bool" where
  "less_eq_framework_time a b \<longleftrightarrow> nanoseconds a \<le> nanoseconds b"

definition less_framework_time :: "framework_time \<Rightarrow> framework_time \<Rightarrow> bool" where
  "less_framework_time a b \<longleftrightarrow> nanoseconds a < nanoseconds b"

instance
  by standard (auto simp: less_eq_framework_time_def less_framework_time_def intro: framework_time.expand)

end

lemmas time_order = less_eq_framework_time_def less_framework_time_def

definition time_ok :: "framework_time \<Rightarrow> bool" where
  "time_ok t \<longleftrightarrow> i64_range (nanoseconds t)"

definition TIME_MAX :: framework_time where
  "TIME_MAX = FrameworkTime i64_max"

definition TIME_MIN :: framework_time where
  "TIME_MIN = FrameworkTime (i64_min + 1)"

definition INVALID :: framework_time where
  "INVALID = FrameworkTime i64_min"

definition from_nanos :: "int \<Rightarrow> framework_time" where
  "from_nanos n = FrameworkTime n"

definition from_millis :: "int \<Rightarrow> framework_time outcome" where
  "from_millis ms = and_then (i64_checked (ms * 1000)) (\<lambda>n. Ret (from_nanos n))"

definition from_micros :: "int \<Rightarrow> framework_time outcome" where
  "from_micros us = and_then (i64_checked (us * 1000)) from_millis"

definition from_secs :: "int \<Rightarrow> framework_time outcome" where
  "from_secs s = and_then (i64_checked (s * 1000)) from_micros"

definition to_nanoseconds :: "framework_time \<Rightarrow> int" where
  "to_nanoseconds t = nanoseconds t"

text \<open>Decimal rendering of integers, as \<open>write!("{}")\<close> prints them.\<close>

fun dec_digits :: "nat \<Rightarrow> string" where
  "dec_digits n =
     (if n < 10 then [char_of (48 + n)] else dec_digits (n div 10) @ [char_of (48 + n mod 10)])"

declare dec_digits.simps [simp del]

definition dec_int :: "int \<Rightarrow> string" where
  "dec_int n = (if n < 0 then ''-'' @ dec_digits (nat (- n)) else dec_digits (nat n))"

text \<open>Rust's \<open>/\<close> and \<open>%\<close> truncate towards zero.\<close>

definition rust_div :: "int \<Rightarrow> int \<Rightarrow> int" where
  "rust_div a b = sgn a * sgn b * (\<bar>a\<bar> div \<bar>b\<bar>)"

definition rust_rem :: "int \<Rightarrow> int \<Rightarrow> int" where
  "rust_rem a b = sgn a * (\<bar>a\<bar> mod \<bar>b\<bar>)"

definition fmt_as_fractional_sec :: "framework_time \<Rightarrow> string" where
  "fmt_as_fractional_sec t =
     (let seconds = rust_div (nanoseconds t) 1000000000;
          nanos = \<bar>rust_rem (nanoseconds t) 1000000000\<bar>
      in dec_int seconds @ ''.'' @ dec_int nanos)"

text \<open>
  \<open>from_wall_clock\<close>: the result of \<open>clock_gettime\<close> (return code, seconds, nanoseconds) is an
  argument.
\<close>

definition from_wall_clock :: "int \<times> int \<times> int \<Rightarrow> framework_time outcome" where
  "from_wall_clock r =
     (case r of (result, tv_sec, tv_nsec) \<Rightarrow>
        if result = 0
        then and_then (i64_checked (tv_sec * 1000000000)) (\<lambda>s.
               and_then (i64_checked (tv_nsec + s)) (\<lambda>n. Ret (from_nanos n)))
        else Ret INVALID)"

definition checked_add_duration :: "framework_time \<Rightarrow> duration \<Rightarrow> framework_time option" where
  "checked_add_duration t d =
     (if \<not> i128_range (int d) then None
      else if \<not> i128_range (nanoseconds t + int d) then None
      else map_option from_nanos (try_i64 (nanoseconds t + int d)))"

definition checked_duration_since :: "framework_time \<Rightarrow> framework_time \<Rightarrow> duration option outcome" where
  "checked_duration_since t earlier =
     and_then (i64_checked (to_nanoseconds t - to_nanoseconds earlier)) (\<lambda>difference.
       Ret (if 0 \<le> difference then Some (nat difference) else None))"

definition time_add :: "framework_time \<Rightarrow> duration \<Rightarrow> framework_time outcome" where
  "time_add t d =
     (let rhs_nanos = min (int d) (to_nanoseconds TIME_MAX) in
      and_then (i64_checked (to_nanoseconds t + rhs_nanos)) (\<lambda>n. Ret (from_nanos n)))"

definition time_sub :: "framework_time \<Rightarrow> duration \<Rightarrow> framework_time outcome" where
  "time_sub t d =
     (let rhs_nanos = min (int d) (to_nanoseconds TIME_MAX) in
      and_then (i64_checked (to_nanoseconds t - rhs_nanos)) (\<lambda>n. Ret (from_nanos n)))"

text \<open>\<open>AtomicFrameworkTime\<close>: a cell holding the nanoseconds; \<open>INVALID\<close> stands for "no time".\<close>

record atomic_framework_time =
  cell :: int

definition atomic_time_new :: "framework_time \<Rightarrow> atomic_framework_time" where
  "atomic_time_new t = \<lparr>cell = to_nanoseconds t\<rparr>"

definition atomic_time_load :: "atomic_framework_time \<Rightarrow> framework_time" where
  "atomic_time_load a = from_nanos (cell a)"

definition atomic_time_store :: "atomic_framework_time \<Rightarrow> framework_time \<Rightarrow> atomic_framework_time" where
  "atomic_time_store a t = a\<lparr>cell := to_nanoseconds t\<rparr>"

definition atomic_time_swap ::
  "atomic_framework_time \<Rightarrow> framework_time \<Rightarrow> framework_time \<times> atomic_framework_time" where
  "atomic_time_swap a t = (from_nanos (cell a), a\<lparr>cell := to_nanoseconds t\<rparr>)"

section \<open>Lemmas\<close>

lemma INVALID_least: "time_ok t \<Longrightarrow> INVALID \<le> t"
  by (simp add: time_ok_def time_order INVALID_def i64_defs)

lemma INVALID_lt_MIN: "INVALID < TIME_MIN"
  by (simp add: time_order INVALID_def TIME_MIN_def)

lemma checked_add_duration_eq:
  assumes "time_ok t"
  shows "checked_add_duration t d =
    (if nanoseconds t + int d \<le> i64_max then Some (FrameworkTime (nanoseconds t + int d)) else None)"
  using assms by (auto simp: checked_add_duration_def time_ok_def i64_defs i128_range_def from_nanos_def)

lemma checked_add_duration_ge: "checked_add_duration t d = Some u \<Longrightarrow> t \<le> u"
  by (auto simp: checked_add_duration_def time_order try_i64_def from_nanos_def split: if_splits)

lemma checked_add_duration_ok: "checked_add_duration t d = Some u \<Longrightarrow> time_ok u"
  by (auto simp: checked_add_duration_def time_ok_def try_i64_def from_nanos_def split: if_splits)

lemma undec_dec_digits: "foldl (\<lambda>acc c. 10 * acc + (of_char c - 48)) 0 (dec_digits n) = n"
proof (induction n rule: dec_digits.induct)
  case (1 n)
  have c: "of_char (char_of (48 + k) :: char) = 48 + k" if "k < 10" for k :: nat
    using that by (simp add: of_char_of)
  show ?case
    by (subst dec_digits.simps) (auto simp: c 1)
qed

lemma dec_digits_inj: "dec_digits m = dec_digits n \<Longrightarrow> m = n"
  by (metis undec_dec_digits)

lemma dec_digits_range: "c \<in> set (dec_digits n) \<Longrightarrow> 48 \<le> (of_char c :: nat) \<and> (of_char c :: nat) \<le> 57"
proof (induction n rule: dec_digits.induct)
  case (1 n)
  then show ?case
    by (subst (asm) (2) dec_digits.simps) (auto simp: of_char_of split: if_splits)
qed

lemma dec_digits_plain: "c \<in> set (dec_digits n) \<Longrightarrow> c \<noteq> CHR ''.'' \<and> c \<noteq> CHR ''-''"
  using dec_digits_range [of c n] by auto

lemma dec_int_inj: "dec_int a = dec_int b \<longleftrightarrow> a = b"
proof -
  have ne: "dec_digits n \<noteq> []" for n
    by (subst dec_digits.simps) simp
  have "hd (dec_digits n) \<noteq> CHR ''-''" for n
    using dec_digits_plain [of "hd (dec_digits n)" n] ne by auto
  then have "dec_digits n \<noteq> CHR ''-'' # r" for n r
    by (metis list.sel(1))
  then have "CHR ''-'' # r \<noteq> dec_digits n" for n r
    by metis
  note minus = this \<open>\<And>n r. dec_digits n \<noteq> CHR ''-'' # r\<close>
  have "dec_digits (nat m) = dec_digits (nat n) \<Longrightarrow> 0 \<le> m \<Longrightarrow> 0 \<le> n \<Longrightarrow> m = n" for m n
    using dec_digits_inj by fastforce
  from this [of a b] this [of "- a" "- b"] show ?thesis
    unfolding dec_int_def by (cases "a < 0"; cases "b < 0") (simp_all add: minus, blast+)
qed

lemma dec_int_no_dot: "CHR ''.'' \<notin> set (dec_int n)"
  using dec_digits_plain [of "CHR ''.''"] by (auto simp: dec_int_def)

lemma split_at_dot:
  "CHR ''.'' \<notin> set xs \<Longrightarrow> CHR ''.'' \<notin> set xs' \<Longrightarrow>
     xs @ CHR ''.'' # ys = xs' @ CHR ''.'' # ys' \<longleftrightarrow> xs = xs' \<and> ys = ys'"
proof (induction xs arbitrary: xs')
  case Nil
  then show ?case by (cases xs') auto
next
  case (Cons x xs)
  then show ?case by (cases xs') auto
qed

lemma fmt_parts:
  "fmt_as_fractional_sec a = fmt_as_fractional_sec b \<longleftrightarrow>
     rust_div (nanoseconds a) 1000000000 = rust_div (nanoseconds b) 1000000000
     \<and> \<bar>rust_rem (nanoseconds a) 1000000000\<bar> = \<bar>rust_rem (nanoseconds b) 1000000000\<bar>"
  by (simp add: fmt_as_fractional_sec_def Let_def split_at_dot dec_int_no_dot dec_int_inj)

lemma quotient_remainder_sign:
  assumes "0 < m"
  shows "rust_div a m = rust_div b m \<and> \<bar>rust_rem a m\<bar> = \<bar>rust_rem b m\<bar>
    \<longleftrightarrow> a = b \<or> (a = - b \<and> \<bar>a\<bar> < m)"
proof -
  have q: "rust_div a m = rust_div b m \<and> \<bar>rust_rem a m\<bar> = \<bar>rust_rem b m\<bar> \<longleftrightarrow>
      \<bar>a\<bar> div m = \<bar>b\<bar> div m \<and> \<bar>a\<bar> mod m = \<bar>b\<bar> mod m
      \<and> (sgn a = sgn b \<or> \<bar>a\<bar> div m = 0)"
    using assms pos_imp_zdiv_nonneg_iff [of m "\<bar>a\<bar>"] pos_imp_zdiv_nonneg_iff [of m "\<bar>b\<bar>"]
    by (auto simp: rust_div_def rust_rem_def abs_mult sgn_if split: if_splits)
  have "\<bar>a\<bar> div m = \<bar>b\<bar> div m \<and> \<bar>a\<bar> mod m = \<bar>b\<bar> mod m \<longleftrightarrow> \<bar>a\<bar> = \<bar>b\<bar>"
    by (metis div_mult_mod_eq)
  moreover have "\<bar>a\<bar> div m = 0 \<longleftrightarrow> \<bar>a\<bar> < m"
    using assms by (auto simp: zdiv_eq_0_iff)
  ultimately show ?thesis
    unfolding q using assms by (auto simp: sgn_if abs_if split: if_splits)
qed

section \<open>Properties\<close>

text \<open>
  The constructors of a time. \<open>from_secs\<close> yields \<open>10\<^sup>9\<close> nanoseconds per second, but
  \<open>from_millis\<close> yields \<open>10\<^sup>3\<close> nanoseconds per millisecond and \<open>from_micros\<close> \<open>10\<^sup>6\<close> per
  microsecond: the two scales are exchanged. Each constructor panics exactly when its product
  leaves the 64-bit range.
\<close>

theorem time_constructor_units:
  "from_secs n = (if i64_range (n * 1000000000) then Ret (from_nanos (n * 1000000000)) else Panic)
   \<and> from_micros n = (if i64_range (n * 1000000) then Ret (from_nanos (n * 1000000)) else Panic)
   \<and> from_millis n = (if i64_range (n * 1000) then Ret (from_nanos (n * 1000)) else Panic)"
  by (auto simp: from_secs_def from_micros_def from_millis_def from_nanos_def i64_defs)

text \<open>
  \<open>checked_add_duration\<close> is exact: for a representable time it returns the sum when the sum
  fits 64 bits and \<open>None\<close> otherwise, and \<open>checked_duration_since\<close> inverts it whenever it
  returns.
\<close>

theorem checked_add_exact:
  assumes "time_ok t"
  shows "checked_add_duration t d =
      (if nanoseconds t + int d \<le> i64_max then Some (FrameworkTime (nanoseconds t + int d)) else None)
    \<and> (case checked_add_duration t d of
         None \<Rightarrow> True
       | Some u \<Rightarrow> time_ok u \<and> t \<le> u
           \<and> checked_duration_since u t = (if int d \<le> i64_max then Ret (Some d) else Panic))"
  using assms
  by (auto simp: checked_add_duration_eq checked_duration_since_def to_nanoseconds_def time_order
      time_ok_def i64_defs)

theorem checked_add_exact_witness:
  "time_ok TIME_MIN
   \<and> checked_add_duration TIME_MIN 5 = Some (FrameworkTime (i64_min + 6))
   \<and> checked_add_duration TIME_MAX 5 = None"
  using checked_add_exact [of TIME_MIN 5] checked_add_exact [of TIME_MAX 5]
  by (simp add: time_ok_def TIME_MIN_def TIME_MAX_def i64_defs)

text \<open>
  \<open>checked_duration_since\<close> on representable times: the elapsed duration, \<open>None\<close> when the
  other time is later, and a panic exactly when the difference does not fit 64 bits, which the
  name of the function does not suggest.
\<close>

theorem checked_duration_since_cases:
  "checked_duration_since t e =
     (if i64_range (nanoseconds t - nanoseconds e)
      then Ret (if e \<le> t then Some (nat (nanoseconds t - nanoseconds e)) else None)
      else Panic)
   \<and> checked_duration_since TIME_MAX TIME_MIN = Panic"
  by (simp add: checked_duration_since_def to_nanoseconds_def i64_defs time_order TIME_MAX_def
      TIME_MIN_def)

text \<open>
  Which times the \<open>Display\<close> rendering confuses: two different times print alike exactly when
  one is the negation of the other and both are shorter than a second, where the sign is lost.
\<close>

theorem display_confuses_small_negatives:
  "fmt_as_fractional_sec a = fmt_as_fractional_sec b \<longleftrightarrow>
     a = b \<or> (nanoseconds a = - nanoseconds b \<and> \<bar>nanoseconds a\<bar> < 1000000000)"
  unfolding fmt_parts
  using quotient_remainder_sign [of 1000000000 "nanoseconds a" "nanoseconds b"]
  by (auto intro: framework_time.expand)

end
