(* ===== verification/Arena.thy ===== *)
theory Arena
  imports Array_Queue
begin

text \<open>
  \<open>base/src/arena.rs\<close>: fixed storage of reference-counted slots with a free list. A pointer is
  the index of its slot. The payload of a slot is \<open>None\<close> while the memory is uninitialised or
  its value was destroyed. Every operation runs to its end here; the interleaving of the atomic
  accesses of concurrent clones and drops is the subject of \<open>Arena_Concurrent\<close>.

  Two simplifications: allocating the storage and the free list always succeeds, so the panic of
  \<open>Vec::with_capacity\<close> on sizes above \<open>isize::MAX\<close> bytes and running out of memory are left out; and
  the code increments a count before it panics on overflow, while here the panic ends the run and
  leaves no state.

  \<open>arena_inv a H U\<close> relates an arena to the pointers the program holds: \<open>H\<close> is the multiset of
  the slots of all live \<open>ArenaPtr\<close>s and \<open>U\<close> the set of the slots of all live
  \<open>ArenaPtrUninit\<close> reservations.
\<close>

section \<open>Model\<close>

record 'a arena_slot =
  ref_count :: counter
  payload :: "'a option"

record ('q, 'a) arena =
  arena_capacity :: nat
  storage :: "'a arena_slot list"
  free_list :: 'q

fun push_indices :: "('q, nat) array_queue \<Rightarrow> 'q \<Rightarrow> nat list \<Rightarrow> 'q outcome" where
  "push_indices Q q [] = Ret q"
| "push_indices Q q (i # is) = and_then (expect (aq_push Q q i)) (\<lambda>q'. push_indices Q q' is)"

definition reallocate_slots :: "('q, nat) array_queue \<Rightarrow> ('q, 'a) arena \<Rightarrow> ('q, 'a) arena outcome" where
  "reallocate_slots Q a =
     (let slots = replicate (arena_capacity a) \<lparr>ref_count = 0, payload = None\<rparr> in
      and_then (aq_new Q (max (arena_capacity a) 1)) (\<lambda>q.
      and_then (push_indices Q q [0..<length slots]) (\<lambda>q'.
      Ret (a\<lparr>storage := slots, free_list := q'\<rparr>))))"

definition arena_new :: "('q, nat) array_queue \<Rightarrow> nat \<Rightarrow> ('q, 'a) arena outcome" where
  "arena_new Q capacity =
     and_then (aq_new Q (max capacity 1)) (\<lambda>q.
       reallocate_slots Q \<lparr>arena_capacity = capacity, storage = [], free_list = q\<rparr>)"

definition update_capacity :: "('q, 'a) arena \<Rightarrow> nat \<Rightarrow> ('q, 'a) arena" where
  "update_capacity a new_capacity = a\<lparr>arena_capacity := new_capacity\<rparr>"

definition set_slot :: "('q, 'a) arena \<Rightarrow> nat \<Rightarrow> 'a arena_slot \<Rightarrow> ('q, 'a) arena" where
  "set_slot a i s = a\<lparr>storage := (storage a)[i := s]\<rparr>"

text \<open>\<open>ArenaPtrUninit::try_new\<close>: the slot's index, or \<open>None\<close> when no slot is free.\<close>

definition try_allocate_uninit ::
  "('q, nat) array_queue \<Rightarrow> ('q, 'a) arena \<Rightarrow> (nat \<times> ('q, 'a) arena) option outcome" where
  "try_allocate_uninit Q a =
     (case aq_pop Q (free_list a) of
        None \<Rightarrow> Ret None
      | Some (index, q) \<Rightarrow>
          if length (storage a) \<le> index then Panic
          else if ref_count (storage a ! index) \<noteq> 0 then Panic
          else Ret (Some (index,
                 set_slot (a\<lparr>free_list := q\<rparr>) index ((storage a ! index)\<lparr>ref_count := 1\<rparr>))))"

definition allocate_uninit ::
  "('q, nat) array_queue \<Rightarrow> ('q, 'a) arena \<Rightarrow> (nat \<times> ('q, 'a) arena) outcome" where
  "allocate_uninit Q a = and_then (try_allocate_uninit Q a) expect"

text \<open>\<open>payload_uninit().write(v)\<close>: the old content is overwritten without being dropped.\<close>

definition payload_write :: "('q, 'a) arena \<Rightarrow> nat \<Rightarrow> 'a \<Rightarrow> ('q, 'a) arena" where
  "payload_write a i v = set_slot a i ((storage a ! i)\<lparr>payload := Some v\<rparr>)"

text \<open>\<open>assume_init\<close> only changes the type of the pointer; its safety contract is the guard.\<close>

definition assume_init :: "('q, 'a) arena \<Rightarrow> nat \<Rightarrow> nat outcome" where
  "assume_init a i = (if payload (storage a ! i) = None then Undefined else Ret i)"

definition try_allocate_with ::
  "('q, nat) array_queue \<Rightarrow> ('q, 'a) arena \<Rightarrow> 'a \<Rightarrow> (nat \<times> ('q, 'a) arena) option outcome" where
  "try_allocate_with Q a v =
     and_then (try_allocate_uninit Q a) (\<lambda>r. case r of
        None \<Rightarrow> Ret None
      | Some (i, a') \<Rightarrow>
          and_then (assume_init (payload_write a' i v) i) (\<lambda>i. Ret (Some (i, payload_write a' i v))))"

text \<open>\<open>ArenaPtrUninit::drop\<close>: the slot goes back to the free list, its payload is not dropped.\<close>

definition drop_uninit ::
  "('q, nat) array_queue \<Rightarrow> ('q, 'a) arena \<Rightarrow> nat \<Rightarrow> ('q, 'a) arena outcome" where
  "drop_uninit Q a i =
     and_then (expect (aq_push Q (free_list a) i)) (\<lambda>q.
       Ret (set_slot (a\<lparr>free_list := q\<rparr>) i ((storage a ! i)\<lparr>ref_count := 0\<rparr>)))"

definition clone_ptr :: "('q, 'a) arena \<Rightarrow> nat \<Rightarrow> ('q, 'a) arena outcome" where
  "clone_ptr a i =
     (let old = ref_count (storage a ! i) in
      if unat old > usize_max div 2 then Panic
      else Ret (set_slot a i ((storage a ! i)\<lparr>ref_count := old + 1\<rparr>)))"

text \<open>
  \<open>ArenaPtr::drop\<close> without interference: the last pointer destroys the payload, clears the count
  and returns the slot; any other pointer decrements the count. The destroyed value is returned.
\<close>

definition drop_ptr ::
  "('q, nat) array_queue \<Rightarrow> ('q, 'a) arena \<Rightarrow> nat \<Rightarrow> ('a option \<times> ('q, 'a) arena) outcome" where
  "drop_ptr Q a i =
     (let slot = storage a ! i; current = ref_count slot in
      if current = 1
      then and_then (assume_init_value (payload slot)) (\<lambda>v.
           and_then (expect (aq_push Q (free_list a) i)) (\<lambda>q.
             Ret (Some v, set_slot (a\<lparr>free_list := q\<rparr>) i \<lparr>ref_count = 0, payload = None\<rparr>)))
      else if current = 0 then Panic
      else Ret (None, set_slot a i (slot\<lparr>ref_count := current - 1\<rparr>)))"

text \<open>\<open>assume_init_ref\<close> and the dereference of a reader pointer.\<close>

definition assume_init_ref :: "('q, 'a) arena \<Rightarrow> nat \<Rightarrow> 'a outcome" where
  "assume_init_ref a i =
     (if ref_count (storage a ! i) = 0 then Panic else assume_init_value (payload (storage a ! i)))"

section \<open>Invariant\<close>

definition arena_inv ::
  "('q, nat) array_queue \<Rightarrow> ('q \<Rightarrow> nat list) \<Rightarrow> ('q \<Rightarrow> bool) \<Rightarrow> ('q, 'a) arena
     \<Rightarrow> nat multiset \<Rightarrow> nat set \<Rightarrow> bool" where
  "arena_inv Q items valid a H U \<longleftrightarrow>
     valid (free_list a)
     \<and> aq_capacity Q (free_list a) = max (length (storage a)) 1
     \<and> distinct (items (free_list a))
     \<and> set (items (free_list a)) = {i. i < length (storage a) \<and> i \<notin># H \<and> i \<notin> U}
     \<and> (\<forall>i < length (storage a). unat (ref_count (storage a ! i)) = count H i + of_bool (i \<in> U))
     \<and> set_mset H \<union> U \<subseteq> {..<length (storage a)}
     \<and> set_mset H \<inter> U = {}
     \<and> (\<forall>i \<in># H. payload (storage a ! i) \<noteq> None)"

lemma set_slot_simps [simp]:
  "arena_capacity (set_slot a i s) = arena_capacity a"
  "free_list (set_slot a i s) = free_list a"
  "length (storage (set_slot a i s)) = length (storage a)"
  "storage (set_slot a i s) = (storage a)[i := s]"
  by (simp_all add: set_slot_def)

lemma payload_update_count [simp]:
  "payload (xs[j := (xs ! j)\<lparr>ref_count := c\<rparr>] ! i) = payload (xs ! i)"
  by (cases "j < length xs"; cases "i = j") (simp_all add: list_update_beyond)

lemma inv_ref_count:
  assumes "arena_inv Q items valid a H U" and "i < length (storage a)"
  shows "ref_count (storage a ! i) = of_nat (count H i + of_bool (i \<in> U))"
    and "count H i + of_bool (i \<in> U) < 2 ^ 64"
proof -
  have u: "unat (ref_count (storage a ! i)) = count H i + of_bool (i \<in> U)"
    using assms by (simp add: arena_inv_def)
  show "ref_count (storage a ! i) = of_nat (count H i + of_bool (i \<in> U))"
    unfolding u [symmetric] by simp
  show "count H i + of_bool (i \<in> U) < 2 ^ 64"
    unfolding u [symmetric] using unsigned_less [of "ref_count (storage a ! i)"] by simp
qed

lemma inv_bounds:
  assumes "arena_inv Q items valid a H U"
  shows "i \<in># H \<Longrightarrow> i < length (storage a)" and "i \<in> U \<Longrightarrow> i < length (storage a)"
    and "i \<in># H \<Longrightarrow> i \<notin> U"
  using assms by (auto simp: arena_inv_def)

text \<open>The laws of a bounded queue of slot indices.\<close>

locale slot_queue = bounded_queue Q items valid
  for Q :: "('q, nat) array_queue" and items :: "'q \<Rightarrow> nat list" and valid :: "'q \<Rightarrow> bool"
begin

lemma push_indices_room:
  "valid q \<Longrightarrow> length (items q) + length is \<le> aq_capacity Q q \<Longrightarrow>
     \<exists>q'. push_indices Q q is = Ret q' \<and> valid q' \<and> items q' = items q @ is
       \<and> aq_capacity Q q' = aq_capacity Q q"
proof (induction "is" arbitrary: q)
  case (Cons i "is")
  obtain q1 where q1: "aq_push Q q i = Some q1" "valid q1" "items q1 = items q @ [i]"
    "aq_capacity Q q1 = aq_capacity Q q"
    using push_room [OF Cons.prems(1), of i] Cons.prems(2) by auto
  then show ?case using Cons.IH [of q1] Cons.prems(2) by auto
qed simp

lemma reallocate_slots_inv:
  "\<exists>a'. reallocate_slots Q a = Ret a' \<and> arena_inv Q items valid a' {#} {}
     \<and> length (storage a') = arena_capacity a \<and> arena_capacity a' = arena_capacity a"
proof -
  let ?c = "arena_capacity a"
  obtain q where q: "aq_new Q (max ?c 1) = Ret q" "valid q" "items q = []"
    "aq_capacity Q q = max ?c 1"
    using new_pos [of "max ?c 1"] by (auto simp: less_max_iff_disj)
  moreover obtain q' where "push_indices Q q [0..<?c] = Ret q'" "valid q'" "items q' = [0..<?c]"
    "aq_capacity Q q' = max ?c 1"
    using push_indices_room [OF q(2), of "[0..<?c]"] q by auto
  ultimately show ?thesis
    by (auto simp: reallocate_slots_def arena_inv_def)
qed

lemma arena_new_inv:
  "\<exists>a. arena_new Q c = Ret a \<and> arena_inv Q items valid a {#} {} \<and> length (storage a) = c"
proof -
  obtain q where "aq_new Q (max c 1) = Ret q"
    using new_pos [of "max c 1"] by (auto simp: less_max_iff_disj)
  then show ?thesis
    using reallocate_slots_inv [of "\<lparr>arena_capacity = c, storage = [], free_list = q\<rparr>"]
    by (auto simp: arena_new_def)
qed

lemma free_count:
  assumes "arena_inv Q items valid a H U"
  shows "length (items (free_list a)) + card (set_mset H \<union> U) = length (storage a)"
proof -
  let ?n = "length (storage a)" and ?B = "set_mset H \<union> U"
  have d: "distinct (items (free_list a))" and B: "?B \<subseteq> {..<?n}"
    and s: "set (items (free_list a)) = {..<?n} - ?B"
    using assms by (auto simp: arena_inv_def)
  have "length (items (free_list a)) = card ({..<?n} - ?B)"
    using distinct_card [OF d] s by simp
  also have "\<dots> = ?n - card ?B"
    using card_Diff_subset [OF finite_subset [OF B] B] by simp
  finally show ?thesis
    using card_mono [OF _ B] by simp
qed

lemma allocate_law:
  assumes inv: "arena_inv Q items valid a H U"
  shows "if card (set_mset H \<union> U) = length (storage a) then try_allocate_uninit Q a = Ret None
    else \<exists>i a'. try_allocate_uninit Q a = Ret (Some (i, a')) \<and> i \<notin># H \<and> i \<notin> U
      \<and> i < length (storage a) \<and> arena_inv Q items valid a' H (insert i U)
      \<and> length (storage a') = length (storage a)
      \<and> (\<forall>j. payload (storage a' ! j) = payload (storage a ! j))"
proof (cases "items (free_list a)")
  case Nil
  then show ?thesis
    using free_count [OF inv] inv pop_empty by (simp add: arena_inv_def try_allocate_uninit_def)
next
  case (Cons i js)
  have "i \<in> set (items (free_list a))"
    using Cons by simp
  then have v: "valid (free_list a)" and i: "i < length (storage a)" "i \<notin># H" "i \<notin> U"
    using inv by (auto simp: arena_inv_def)
  have r: "ref_count (storage a ! i) = 0"
    using inv_ref_count(1) [OF inv i(1)] i by (simp add: not_in_iff)
  obtain q where q: "aq_pop Q (free_list a) = Some (i, q)" "valid q" "items q = js"
    "aq_capacity Q q = aq_capacity Q (free_list a)"
    using pop_front [OF v Cons] by blast
  let ?a = "set_slot (a\<lparr>free_list := q\<rparr>) i ((storage a ! i)\<lparr>ref_count := 1\<rparr>)"
  have "set js = {j. j < length (storage a) \<and> j \<notin># H \<and> j \<notin> insert i U}"
    using inv Cons by (auto simp: arena_inv_def)
  then have "arena_inv Q items valid ?a H (insert i U)"
    using inv q i Cons by (auto simp: arena_inv_def nth_list_update count_eq_zero_iff)
  moreover have "try_allocate_uninit Q a = Ret (Some (i, ?a))"
    using q i r by (simp add: try_allocate_uninit_def)
  moreover have "card (set_mset H \<union> U) \<noteq> length (storage a)"
    using free_count [OF inv] Cons by simp
  ultimately show ?thesis
    using i by (auto simp: nth_list_update)
qed

lemma return_slot:
  assumes inv: "arena_inv Q items valid a H U" and i: "i \<in># H \<or> i \<in> U"
  shows "\<exists>q. aq_push Q (free_list a) i = Some q \<and> valid q
    \<and> items q = items (free_list a) @ [i] \<and> aq_capacity Q q = aq_capacity Q (free_list a)"
proof (rule push_room)
  show "valid (free_list a)"
    using inv by (simp add: arena_inv_def)
  have "0 < card (set_mset H \<union> U)"
    using i inv finite_subset [of U "{..<length (storage a)}"]
    by (auto simp: card_gt_0_iff arena_inv_def)
  then show "length (items (free_list a)) < aq_capacity Q (free_list a)"
    using free_count [OF inv] inv by (simp add: arena_inv_def)
qed

lemma drop_uninit_law:
  assumes inv: "arena_inv Q items valid a H U" and i: "i \<in> U"
  shows "\<exists>a'. drop_uninit Q a i = Ret a' \<and> arena_inv Q items valid a' H (U - {i})
    \<and> length (storage a') = length (storage a)
    \<and> (\<forall>j. payload (storage a' ! j) = payload (storage a ! j))"
proof -
  obtain q where q: "aq_push Q (free_list a) i = Some q" "valid q"
    "items q = items (free_list a) @ [i]" "aq_capacity Q q = aq_capacity Q (free_list a)"
    using return_slot [OF inv] i by blast
  let ?a = "set_slot (a\<lparr>free_list := q\<rparr>) i ((storage a ! i)\<lparr>ref_count := 0\<rparr>)"
  have "i < length (storage a)" and "i \<notin># H"
    using inv_bounds [OF inv] i by auto
  then have "arena_inv Q items valid ?a H (U - {i})"
    using inv q i by (auto simp: arena_inv_def nth_list_update not_in_iff)
  then show ?thesis
    using q \<open>i < length (storage a)\<close> by (auto simp: drop_uninit_def nth_list_update)
qed

lemma clone_law:
  assumes inv: "arena_inv Q items valid a H U" and i: "i \<in># H"
    and small: "count H i \<le> usize_max div 2"
  shows "\<exists>a'. clone_ptr a i = Ret a' \<and> arena_inv Q items valid a' (add_mset i H) U
    \<and> length (storage a') = length (storage a)
    \<and> (\<forall>j. payload (storage a' ! j) = payload (storage a ! j))"
proof -
  let ?a = "set_slot a i ((storage a ! i)\<lparr>ref_count := ref_count (storage a ! i) + 1\<rparr>)"
  have l: "i < length (storage a)" and u: "i \<notin> U"
    using inv_bounds [OF inv] i by auto
  have r: "ref_count (storage a ! i) = of_nat (count H i)" and "count H i < 2 ^ 64"
    using inv_ref_count [OF inv l] u by auto
  then have un: "unat (ref_count (storage a ! i)) = count H i"
    by (simp add: unat_of_nat)
  have "Suc (count H i) < 2 ^ 64"
    using small by (simp add: usize_max_def)
  then have "unat (of_nat (Suc (count H i)) :: counter) = Suc (count H i)"
    by (subst unat_of_nat) simp
  then have "unat (ref_count (storage a ! i) + 1) = Suc (count H i)"
    by (simp add: r add.commute)
  then have "arena_inv Q items valid ?a (add_mset i H) U"
    using inv l u i by (auto simp: arena_inv_def nth_list_update)
  then show ?thesis
    using l un small by (auto simp: clone_ptr_def Let_def nth_list_update)
qed

lemma drop_last_law:
  assumes inv: "arena_inv Q items valid a H U" and i: "count H i = 1"
  shows "\<exists>v a'. payload (storage a ! i) = Some v \<and> drop_ptr Q a i = Ret (Some v, a')
    \<and> arena_inv Q items valid a' (H - {#i#}) U \<and> length (storage a') = length (storage a)
    \<and> (\<forall>j. j \<noteq> i \<longrightarrow> payload (storage a' ! j) = payload (storage a ! j))"
proof -
  have mem: "i \<in># H"
    using i by (metis not_in_iff zero_neq_one)
  have l: "i < length (storage a)" and u: "i \<notin> U"
    using inv_bounds [OF inv] mem by auto
  have r: "ref_count (storage a ! i) = 1"
    using inv_ref_count(1) [OF inv l] u i by simp
  obtain v where v: "payload (storage a ! i) = Some v"
    using inv mem by (auto simp: arena_inv_def)
  obtain q where q: "aq_push Q (free_list a) i = Some q" "valid q"
    "items q = items (free_list a) @ [i]" "aq_capacity Q q = aq_capacity Q (free_list a)"
    using return_slot [OF inv] mem by blast
  let ?a = "set_slot (a\<lparr>free_list := q\<rparr>) i \<lparr>ref_count = 0, payload = None\<rparr>"
  have "i \<notin># H - {#i#}"
    using i by (simp add: not_in_iff)
  then have "arena_inv Q items valid ?a (H - {#i#}) U"
    using inv q l u mem i
    by (auto simp: arena_inv_def nth_list_update dest: in_diffD) (metis insert_DiffM insert_noteq_member)+
  then show ?thesis
    using q v r l by (auto simp: drop_ptr_def nth_list_update)
qed

lemma drop_shared_law:
  assumes inv: "arena_inv Q items valid a H U" and i: "1 < count H i"
  shows "\<exists>a'. drop_ptr Q a i = Ret (None, a') \<and> arena_inv Q items valid a' (H - {#i#}) U
    \<and> length (storage a') = length (storage a)
    \<and> (\<forall>j. payload (storage a' ! j) = payload (storage a ! j))"
proof -
  have mem: "i \<in># H" and mem': "i \<in># H - {#i#}"
    using i by (auto simp: count_greater_zero_iff [symmetric] simp del: count_greater_zero_iff)
  have l: "i < length (storage a)" and u: "i \<notin> U"
    using inv_bounds [OF inv] mem by auto
  have r: "ref_count (storage a ! i) = of_nat (count H i)" and b: "count H i < 2 ^ 64"
    using inv_ref_count [OF inv l] u by auto
  then have un: "unat (ref_count (storage a ! i)) = count H i"
    by (simp add: unat_of_nat)
  then have ne: "ref_count (storage a ! i) \<noteq> 0" "ref_count (storage a ! i) \<noteq> 1"
    using i by auto
  have "ref_count (storage a ! i) - 1 = of_nat (count H i - 1)"
    using i r by (cases "count H i") simp_all
  then have dec: "unat (ref_count (storage a ! i) - 1) = count H i - 1"
    using b by (simp add: unat_of_nat)
  let ?a = "set_slot a i ((storage a ! i)\<lparr>ref_count := ref_count (storage a ! i) - 1\<rparr>)"
  have s: "set_mset (H - {#i#}) = set_mset H"
    using mem mem' by (auto dest: in_diffD) (metis insert_DiffM insert_noteq_member)
  have "arena_inv Q items valid ?a (H - {#i#}) U"
    using inv l u dec mem unfolding arena_inv_def s by (auto simp: nth_list_update)
  then show ?thesis
    using ne l by (auto simp: drop_ptr_def Let_def nth_list_update)
qed

lemma payload_write_law:
  assumes inv: "arena_inv Q items valid a H U" and i: "i \<in> U"
  shows "arena_inv Q items valid (payload_write a i v) H U"
    and "payload (storage (payload_write a i v) ! i) = Some v"
  using inv i inv_bounds [OF inv]
  by (auto simp: payload_write_def arena_inv_def nth_list_update)

lemma assume_init_law:
  assumes inv: "arena_inv Q items valid a H U" and i: "i \<in> U" and v: "payload (storage a ! i) = Some v"
  shows "assume_init a i = Ret i \<and> arena_inv Q items valid a (add_mset i H) (U - {i})"
  using inv i v inv_bounds [OF inv]
  by (auto simp: assume_init_def arena_inv_def)

lemma write_read_law:
  assumes inv: "arena_inv Q items valid a H U" and i: "i \<in> U"
  shows "assume_init (payload_write a i v) i = Ret i \<and> assume_init_ref (payload_write a i v) i = Ret v"
proof -
  have "unat (ref_count (storage a ! i)) = Suc (count H i)" and "i < length (storage a)"
    using inv i inv_bounds [OF inv] by (auto simp: arena_inv_def)
  then show ?thesis
    by (auto simp: assume_init_def assume_init_ref_def payload_write_def set_slot_def)
qed

lemma clone_total_law:
  assumes inv: "arena_inv Q items valid a H U" and i: "i \<in># H"
  shows "if count H i \<le> usize_max div 2 then \<exists>a'. clone_ptr a i = Ret a' else clone_ptr a i = Panic"
proof -
  have "unat (ref_count (storage a ! i)) = count H i"
    using inv i inv_bounds [OF inv, of i] by (simp add: arena_inv_def)
  then show ?thesis
    using clone_law [OF inv i] by (auto simp: clone_ptr_def Let_def)
qed

lemma read_law:
  assumes inv: "arena_inv Q items valid a H U" and i: "i \<in># H"
  shows "\<exists>v. payload (storage a ! i) = Some v \<and> assume_init_ref a i = Ret v"
proof -
  have "unat (ref_count (storage a ! i)) = count H i"
    using inv i inv_bounds [OF inv, of i] by (simp add: arena_inv_def)
  then have "ref_count (storage a ! i) \<noteq> 0"
    using i by (auto simp: count_eq_zero_iff)
  then show ?thesis
    using inv i by (auto simp: assume_init_ref_def arena_inv_def)
qed

end

interpretation lqs: slot_queue list_array_queue lq_items lq_valid
  by unfold_locales

section \<open>Programs that own pointers\<close>

text \<open>
  What safe code can do with an arena: the configuration holds the arena, the pointers and the
  reservations that exist. A step needs the pointer it works on, as ownership demands; writing
  needs an exclusive reservation; \<open>assume_init\<close> needs a written payload, its documented
  precondition. The number of clones of one pointer stays below the limit that the code enforces.
\<close>

type_synonym ('q, 'a) arena_config = "('q, 'a) arena \<times> nat multiset \<times> nat set"

inductive arena_step ::
  "('q, nat) array_queue \<Rightarrow> ('q, 'a) arena_config \<Rightarrow> ('q, 'a) arena_config \<Rightarrow> bool"
  for Q :: "('q, nat) array_queue" where
  reserve: "try_allocate_uninit Q a = Ret (Some (i, a')) \<Longrightarrow> arena_step Q (a, H, U) (a', H, insert i U)"
| write_payload: "i \<in> U \<Longrightarrow> arena_step Q (a, H, U) (payload_write a i v, H, U)"
| initialise: "i \<in> U \<Longrightarrow> assume_init a i = Ret i \<Longrightarrow>
    arena_step Q (a, H, U) (a, add_mset i H, U - {i})"
| abandon: "i \<in> U \<Longrightarrow> drop_uninit Q a i = Ret a' \<Longrightarrow> arena_step Q (a, H, U) (a', H, U - {i})"
| clone: "i \<in># H \<Longrightarrow> clone_ptr a i = Ret a' \<Longrightarrow> arena_step Q (a, H, U) (a', add_mset i H, U)"
| release: "i \<in># H \<Longrightarrow> drop_ptr Q a i = Ret (d, a') \<Longrightarrow> arena_step Q (a, H, U) (a', H - {#i#}, U)"

definition arena_reachable ::
  "('q, nat) array_queue \<Rightarrow> nat \<Rightarrow> ('q, 'a) arena_config \<Rightarrow> bool" where
  "arena_reachable Q n c \<longleftrightarrow>
     (\<exists>a. arena_new Q n = Ret a \<and> (arena_step Q)\<^sup>*\<^sup>* (a, {#}, {}) c)"


context slot_queue begin

lemma clone_small:
  assumes "arena_inv Q items valid a H U" and "i \<in># H" and "clone_ptr a i = Ret a'"
  shows "count H i \<le> usize_max div 2"
proof -
  have "unat (ref_count (storage a ! i)) = count H i"
    using assms inv_bounds [OF assms(1), of i] by (simp add: arena_inv_def)
  then show ?thesis
    using assms(3) by (simp add: clone_ptr_def Let_def split: if_splits)
qed

lemma drop_law:
  assumes inv: "arena_inv Q items valid a H U" and i: "i \<in># H"
  shows "\<exists>a'. drop_ptr Q a i = Ret (if count H i = 1 then payload (storage a ! i) else None, a')
    \<and> arena_inv Q items valid a' (H - {#i#}) U \<and> length (storage a') = length (storage a)
    \<and> (\<forall>j. j \<in># H - {#i#} \<or> j \<in> U \<longrightarrow> payload (storage a' ! j) = payload (storage a ! j))"
proof (cases "count H i = 1")
  case True
  then have "i \<notin># H - {#i#}" and "i \<notin> U"
    using inv_bounds(3) [OF inv i] by (simp_all add: not_in_iff)
  then show ?thesis
    using drop_last_law [OF inv True] True by auto
next
  case False
  then have "1 < count H i"
    using i by (metis One_nat_def count_greater_zero_iff less_one nat_neq_iff)
  then show ?thesis
    using drop_shared_law [OF inv, of i] False by auto
qed

lemma arena_step_inv:
  assumes "arena_step Q (a, H, U) (a', H', U')" and inv: "arena_inv Q items valid a H U"
  shows "arena_inv Q items valid a' H' U' \<and> length (storage a') = length (storage a)"
  using assms(1)
proof (cases rule: arena_step.cases)
  case (reserve i)
  then show ?thesis
    using allocate_law [OF inv] by (auto split: if_splits)
next
  case (write_payload i v)
  then show ?thesis
    using payload_write_law(1) [OF inv] by (auto simp: payload_write_def)
next
  case (initialise i)
  then show ?thesis
    using assume_init_law [OF inv] by (auto simp: assume_init_def split: if_splits)
next
  case (abandon i)
  then show ?thesis
    using drop_uninit_law [OF inv, of i] by auto
next
  case (clone i)
  then show ?thesis
    using clone_law [OF inv, of i] clone_small [OF inv, of i] by auto
next
  case (release i d)
  then show ?thesis
    using drop_law [OF inv, of i] by auto
qed

lemma arena_reachable_inv:
  assumes "arena_reachable Q n (a, H, U)"
  shows "arena_inv Q items valid a H U \<and> length (storage a) = n"
proof -
  obtain a0 where a0: "arena_new Q n = Ret a0" "(arena_step Q)\<^sup>*\<^sup>* (a0, {#}, {}) (a, H, U)"
    using assms by (auto simp: arena_reachable_def)
  have start: "arena_inv Q items valid a0 {#} {} \<and> length (storage a0) = n"
    by (metis a0(1) arena_new_inv outcome.inject)
  from a0(2) show ?thesis
  proof (induction "(a, H, U)" arbitrary: a H U rule: rtranclp_induct)
    case base
    then show ?case using start by simp
  next
    case (step y)
    then show ?case using arena_step_inv by (cases y) fastforce
  qed
qed

end

section \<open>Properties\<close>


text \<open>One slot, reserved, written and initialised: a state used by the witnesses below.\<close>

definition sample_arena :: "(nat list_queue, nat) arena" where
  "sample_arena = \<lparr>arena_capacity = 2,
     storage = [\<lparr>ref_count = 1, payload = Some 7\<rparr>, \<lparr>ref_count = 0, payload = None\<rparr>],
     free_list = \<lparr>lq_capacity = 2, lq_items = [1]\<rparr>\<rparr>"

lemma sample_arena_reachable: "arena_reachable list_array_queue 2 (sample_arena, {#0#}, {})"
proof -
  let ?new = "\<lparr>arena_capacity = 2,
     storage = [\<lparr>ref_count = 0, payload = None\<rparr>, \<lparr>ref_count = 0, payload = None\<rparr>],
     free_list = \<lparr>lq_capacity = 2, lq_items = [0, 1]\<rparr>\<rparr> :: (nat list_queue, nat) arena"
  let ?loan = "\<lparr>arena_capacity = 2,
     storage = [\<lparr>ref_count = 1, payload = None\<rparr>, \<lparr>ref_count = 0, payload = None\<rparr>],
     free_list = \<lparr>lq_capacity = 2, lq_items = [1]\<rparr>\<rparr> :: (nat list_queue, nat) arena"
  have "arena_step list_array_queue (?new, {#}, {}) (?loan, {#}, insert 0 {})"
    by (rule arena_step.reserve) (simp add: try_allocate_uninit_def set_slot_def)
  moreover have "arena_step list_array_queue (?loan, {#}, {0}) (sample_arena, {#}, {0})"
    using arena_step.write_payload [of 0 "{0}" list_array_queue ?loan "{#}" 7]
    by (simp add: payload_write_def set_slot_def sample_arena_def)
  moreover have "arena_step list_array_queue (sample_arena, {#}, {0}) (sample_arena, {#0#}, {})"
    using arena_step.initialise [of 0 "{0}" sample_arena list_array_queue "{#}"]
    by (simp add: assume_init_def sample_arena_def)
  ultimately have "(arena_step list_array_queue)\<^sup>*\<^sup>* (?new, {#}, {}) (sample_arena, {#0#}, {})"
    by (meson converse_rtranclp_into_rtranclp rtranclp.rtrancl_refl)
  moreover have "arena_new list_array_queue 2 = Ret ?new"
    by (simp add: arena_new_def reallocate_slots_def upt_rec numeral_2_eq_2)
  ultimately show ?thesis
    by (auto simp: arena_reachable_def)
qed


text \<open>
  Allocation is exact and never aliases. In every reachable state a reservation is refused
  exactly when all \<open>n\<close> slots are referenced; otherwise the slot handed out is one that no pointer
  and no reservation refers to, and the payload behind every live pointer is untouched.
\<close>

theorem arena_allocation_exact:
  assumes "bounded_queue Q items valid" and "arena_reachable Q n (a, H, U)"
  shows "if card (set_mset H \<union> U) = n then try_allocate_uninit Q a = Ret None
    else \<exists>i a'. try_allocate_uninit Q a = Ret (Some (i, a')) \<and> i < n \<and> i \<notin># H \<and> i \<notin> U
      \<and> arena_reachable Q n (a', H, insert i U)
      \<and> (\<forall>j. payload (storage a' ! j) = payload (storage a ! j))"
proof -
  have sq: "slot_queue Q items valid"
    using assms(1) by (rule slot_queue.intro)
  have inv: "arena_inv Q items valid a H U" and n: "length (storage a) = n"
    using slot_queue.arena_reachable_inv [OF sq assms(2)] by auto
  have "arena_reachable Q n (a', H, insert i U)"
    if "try_allocate_uninit Q a = Ret (Some (i, a'))" for i a'
    using assms(2) arena_step.reserve [OF that] unfolding arena_reachable_def
    by (meson rtranclp.rtrancl_into_rtrancl)
  then show ?thesis
    using slot_queue.allocate_law [OF sq inv] unfolding n by auto
qed

theorem arena_allocation_exact_witness:
  "arena_reachable list_array_queue 2 (sample_arena, {#0#}, {})
   \<and> (\<exists>i a'. try_allocate_uninit list_array_queue sample_arena = Ret (Some (i, a')) \<and> i < 2 \<and> i \<noteq> 0)"
  using arena_allocation_exact [OF lq.bounded_queue_axioms sample_arena_reachable]
    sample_arena_reachable by auto

text \<open>
  A published payload does not change. Whatever step any owner of the arena takes, a pointer
  that exists before and after the step reads the same value.
\<close>

theorem arena_payload_stable:
  assumes "bounded_queue Q items valid" and "arena_reachable Q n (a, H, U)"
    and "arena_step Q (a, H, U) (a', H', U')" and "i \<in># H" and "i \<in># H'"
  shows "\<exists>v. assume_init_ref a i = Ret v \<and> assume_init_ref a' i = Ret v"
proof -
  have sq: "slot_queue Q items valid"
    using assms(1) by (rule slot_queue.intro)
  have inv: "arena_inv Q items valid a H U"
    using slot_queue.arena_reachable_inv [OF sq assms(2)] by auto
  have inv': "arena_inv Q items valid a' H' U'"
    using slot_queue.arena_step_inv [OF sq assms(3) inv] by auto
  have "payload (storage a' ! i) = payload (storage a ! i)"
    using assms(3)
  proof (cases rule: arena_step.cases)
    case (release j d)
    then show ?thesis
      using slot_queue.drop_law [OF sq inv, of j] assms(5) by auto
  next
    case (write_payload j v)
    then show ?thesis
      using inv_bounds(3) [OF inv assms(4)] by (cases "i = j") (auto simp: payload_write_def)
  qed (auto simp: clone_ptr_def drop_uninit_def try_allocate_uninit_def Let_def
      split: if_splits option.splits)
  then show ?thesis
    using slot_queue.read_law [OF sq inv assms(4)] slot_queue.read_law [OF sq inv' assms(5)] by auto
qed

theorem arena_payload_stable_witness:
  "\<exists>a'. arena_step list_array_queue (sample_arena, {#0#}, {}) (a', {#0, 0#}, {})
     \<and> assume_init_ref a' 0 = Ret 7"
proof -
  have s: "arena_step list_array_queue (sample_arena, {#0#}, {})
      (set_slot sample_arena 0 \<lparr>ref_count = 2, payload = Some 7\<rparr>, {#0, 0#}, {})"
    by (rule arena_step.clone) (simp_all add: clone_ptr_def sample_arena_def usize_max_def)
  have "assume_init_ref sample_arena 0 = Ret 7"
    by (simp add: assume_init_ref_def sample_arena_def)
  then have "assume_init_ref (set_slot sample_arena 0 \<lparr>ref_count = 2, payload = Some 7\<rparr>) 0 = Ret 7"
    using arena_payload_stable [OF lq.bounded_queue_axioms sample_arena_reachable s, of 0] by simp
  with s show ?thesis by blast
qed

end
