(* ===== verification/Arena_Concurrent.thy ===== *)
theory Arena_Concurrent
  imports Arena
begin

text \<open>
  The atomic accesses of \<open>base/src/arena.rs\<close> under interleaving. Every pointer or reservation that
  exists, and every operation on one that is under way, is a program counter \<open>arena_pc\<close>; a state
  is the arena with the multiset of all program counters, whatever threads they belong to.
  \<open>pc_step\<close> is the next atomic access of a program counter: the load, the compare-exchange loop,
  the destructor, the store and the push of \<open>ArenaPtr::drop\<close>; the swap of
  \<open>ArenaPtrUninit::try_new\<close> after its pop; the store and the push of \<open>ArenaPtrUninit::drop\<close>. Its
  argument \<open>spurious\<close> lets the weak compare-exchange fail although the value matches. The accesses
  are interleaved one after the other (sequential consistency).
\<close>

section \<open>Model\<close>

datatype arena_pc =
  Held (slot_of: nat) \<comment> \<open>an \<open>ArenaPtr\<close>, no operation under way\<close>
| Dropping (slot_of: nat) (current: counter) \<comment> \<open>in the loop of \<open>drop\<close>, with the loaded count\<close>
| Destroyed (slot_of: nat) \<comment> \<open>payload dropped, count not yet cleared\<close>
| Returning (slot_of: nat) \<comment> \<open>count cleared, index not yet pushed\<close>
| Popped (slot_of: nat) \<comment> \<open>index taken from the free list, count not yet swapped\<close>
| Reserved (slot_of: nat) \<comment> \<open>an \<open>ArenaPtrUninit\<close>\<close>

definition set_count :: "('q, 'a) arena \<Rightarrow> nat \<Rightarrow> counter \<Rightarrow> ('q, 'a) arena" where
  "set_count a i c = set_slot a i ((storage a ! i)\<lparr>ref_count := c\<rparr>)"

text \<open>The loop body of \<open>ArenaPtr::drop\<close> with the count it last saw.\<close>

definition drop_iteration ::
  "bool \<Rightarrow> ('q, 'a) arena \<Rightarrow> nat \<Rightarrow> counter \<Rightarrow> (arena_pc option \<times> ('q, 'a) arena) outcome" where
  "drop_iteration spurious a i seen =
     (if seen = 1
      then and_then (assume_init_value (payload (storage a ! i))) (\<lambda>v.
             Ret (Some (Destroyed i), set_slot a i ((storage a ! i)\<lparr>payload := None\<rparr>)))
      else if seen = 0 then Panic
      else if ref_count (storage a ! i) = seen \<and> \<not> spurious
      then Ret (None, set_count a i (seen - 1))
      else Ret (Some (Dropping i (ref_count (storage a ! i))), a))"

fun pc_step ::
  "('q, nat) array_queue \<Rightarrow> bool \<Rightarrow> ('q, 'a) arena \<Rightarrow> arena_pc
     \<Rightarrow> (arena_pc option \<times> ('q, 'a) arena) outcome" where
  "pc_step Q spurious a (Held i) = Ret (Some (Dropping i (ref_count (storage a ! i))), a)"
| "pc_step Q spurious a (Dropping i seen) = drop_iteration spurious a i seen"
| "pc_step Q spurious a (Destroyed i) = Ret (Some (Returning i), set_count a i 0)"
| "pc_step Q spurious a (Returning i) =
     and_then (expect (aq_push Q (free_list a) i)) (\<lambda>q. Ret (None, a\<lparr>free_list := q\<rparr>))"
| "pc_step Q spurious a (Popped i) =
     (if length (storage a) \<le> i then Panic
      else if ref_count (storage a ! i) \<noteq> 0 then Panic
      else Ret (Some (Reserved i), set_count a i 1))"
| "pc_step Q spurious a (Reserved i) = Ret (Some (Returning i), set_count a i 0)"

fun add_pc :: "arena_pc option \<Rightarrow> arena_pc multiset \<Rightarrow> arena_pc multiset" where
  "add_pc None R = R"
| "add_pc (Some p) R = add_mset p R"

text \<open>
  The interleavings: \<open>advance\<close> is the next access of an operation (for an idle pointer or a
  reservation it starts its drop), \<open>clone\<close> the \<open>fetch_add\<close> of a pointer that stays alive,
  \<open>reserve\<close> the pop of an allocation, \<open>fill\<close> and \<open>publish\<close> the write and the \<open>assume_init\<close> of a
  reservation.
\<close>

inductive arena_interleave ::
  "('q, nat) array_queue \<Rightarrow> ('q, 'a) arena \<times> arena_pc multiset
     \<Rightarrow> ('q, 'a) arena \<times> arena_pc multiset \<Rightarrow> bool"
  for Q :: "('q, nat) array_queue" where
  advance: "pc_step Q spurious a p = Ret (p', a') \<Longrightarrow>
    arena_interleave Q (a, add_mset p R) (a', add_pc p' R)"
| clone: "clone_ptr a i = Ret a' \<Longrightarrow>
    arena_interleave Q (a, add_mset (Held i) R) (a', add_mset (Held i) (add_mset (Held i) R))"
| reserve: "aq_pop Q (free_list a) = Some (i, q) \<Longrightarrow>
    arena_interleave Q (a, R) (a\<lparr>free_list := q\<rparr>, add_mset (Popped i) R)"
| fill: "arena_interleave Q (a, add_mset (Reserved i) R) (payload_write a i v, add_mset (Reserved i) R)"
| publish: "assume_init a i = Ret i \<Longrightarrow>
    arena_interleave Q (a, add_mset (Reserved i) R) (a, add_mset (Held i) R)"

section \<open>Invariant\<close>

text \<open>Program counters that the reference count accounts for.\<close>

fun counted :: "arena_pc \<Rightarrow> bool" where
  "counted (Returning i) = False"
| "counted (Popped i) = False"
| "counted p = True"

text \<open>Program counters that exclude any other one on their slot.\<close>

fun sole :: "arena_pc \<Rightarrow> bool" where
  "sole (Held i) = False"
| "sole (Dropping i c) = (c = 1)"
| "sole p = True"

fun needs_payload :: "arena_pc \<Rightarrow> bool" where
  "needs_payload (Held i) = True"
| "needs_payload (Dropping i c) = True"
| "needs_payload p = False"

text \<open>One slot, whether its index is on the free list, and the program counters on it.\<close>

definition slot_ok :: "'a arena_slot \<Rightarrow> bool \<Rightarrow> arena_pc multiset \<Rightarrow> bool" where
  "slot_ok s free P \<longleftrightarrow>
     unat (ref_count s) = size (filter_mset counted P)
     \<and> (free \<longleftrightarrow> P = {#})
     \<and> (\<forall>p \<in># P. sole p \<longrightarrow> P = {#p#})
     \<and> (\<forall>p \<in># P. needs_payload p \<longrightarrow> payload s \<noteq> None)
     \<and> (\<forall>i. Dropping i 0 \<notin># P)"

abbreviation users :: "nat \<Rightarrow> arena_pc multiset \<Rightarrow> arena_pc multiset" where
  "users i T \<equiv> filter_mset (\<lambda>p. slot_of p = i) T"

definition interleave_inv ::
  "('q, nat) array_queue \<Rightarrow> ('q \<Rightarrow> nat list) \<Rightarrow> ('q \<Rightarrow> bool) \<Rightarrow> nat
     \<Rightarrow> ('q, 'a) arena \<times> arena_pc multiset \<Rightarrow> bool" where
  "interleave_inv Q items valid n s \<longleftrightarrow>
     (case s of (a, T) \<Rightarrow>
        length (storage a) = n
        \<and> valid (free_list a) \<and> aq_capacity Q (free_list a) = max n 1
        \<and> distinct (items (free_list a)) \<and> set (items (free_list a)) \<subseteq> {..<n}
        \<and> (\<forall>p \<in># T. slot_of p < n)
        \<and> (\<forall>i < n. slot_ok (storage a ! i) (i \<in> set (items (free_list a))) (users i T)))"

lemma not_counted_sole: "\<not> counted p \<Longrightarrow> sole p"
  by (cases p) auto

lemma slot_sole: "slot_ok s free (add_mset p P) \<Longrightarrow> sole p \<Longrightarrow> P = {#}"
  by (simp add: slot_ok_def)

lemma slot_ok_shared:
  assumes "slot_ok s free (add_mset p P)" and "\<not> sole p"
  shows "filter_mset counted P = P"
proof -
  have "counted q" if "q \<in># P" for q
    using assms that not_counted_sole [of q] by (auto simp: slot_ok_def add_mset_eq_single)
  then show ?thesis by (simp add: filter_mset_cong [of P P counted "\<lambda>_. True"])
qed

text \<open>The steps of a program counter, seen at its slot.\<close>

lemma slot_load:
  assumes ok: "slot_ok s free (add_mset p P)" and p: "p = Held i \<or> p = Dropping i c \<and> c \<noteq> 1"
  shows "slot_ok s free (add_mset (Dropping i (ref_count s)) P)"
proof -
  have c: "unat (ref_count s) = Suc (size P)"
    using ok p slot_ok_shared [OF ok] by (auto simp: slot_ok_def)
  then have "ref_count s \<noteq> 0" by auto
  moreover have "P = {#}" if "ref_count s = 1"
    using c that by simp
  ultimately show ?thesis
    using ok p by (auto simp: slot_ok_def add_mset_eq_single)
qed

lemma slot_destroy:
  assumes "slot_ok s free (add_mset (Dropping i 1) P)"
  shows "slot_ok (s\<lparr>payload := None\<rparr>) free (add_mset (Destroyed i) P)"
  using assms by (auto simp: slot_ok_def)

lemma slot_decrement:
  assumes ok: "slot_ok s free (add_mset (Dropping i c) P)" and c: "c \<noteq> 1" "ref_count s = c"
  shows "slot_ok (s\<lparr>ref_count := c - 1\<rparr>) free P"
proof -
  have f: "filter_mset counted P = P"
    using slot_ok_shared [OF ok] c by simp
  have u: "unat c = Suc (size P)"
    using ok c f by (simp add: slot_ok_def)
  then have "unat (c - 1) = size P"
    by (rule unat_dec)
  moreover have "P \<noteq> {#}"
    using u c by (metis One_nat_def size_empty unat_1 word_unat_eq_iff)
  ultimately show ?thesis
    using ok f by (auto simp: slot_ok_def add_mset_eq_single)
qed

lemma slot_clear:
  assumes "slot_ok s free (add_mset p P)" and "p = Destroyed i \<or> p = Reserved i"
  shows "slot_ok (s\<lparr>ref_count := 0\<rparr>) free (add_mset (Returning i) P)"
  using assms by (auto simp: slot_ok_def)

lemma slot_swap:
  assumes "slot_ok s free (add_mset (Popped i) P)"
  shows "ref_count s = 0" and "slot_ok (s\<lparr>ref_count := 1\<rparr>) free (add_mset (Reserved i) P)"
  using assms by (auto simp: slot_ok_def unat_eq_zero)

lemma slot_take: "slot_ok s True P \<Longrightarrow> slot_ok s False (add_mset (Popped i) P)"
  by (auto simp: slot_ok_def)

lemma slot_clone:
  assumes "slot_ok s free (add_mset (Held i) P)" and "unat (ref_count s) \<le> usize_max div 2"
  shows "slot_ok (s\<lparr>ref_count := ref_count s + 1\<rparr>) free (add_mset (Held i) (add_mset (Held i) P))"
proof -
  have "unat (ref_count s + 1) = Suc (unat (ref_count s))"
    using assms(2) by (intro unat_inc) (simp add: usize_max_def)
  then show ?thesis
    using assms(1) by (auto simp: slot_ok_def add_mset_eq_single)
qed

lemma set_count_simps [simp]:
  "free_list (set_count a i c) = free_list a"
  "storage (set_count a i c) = (storage a)[i := (storage a ! i)\<lparr>ref_count := c\<rparr>]"
  by (simp_all add: set_count_def)

text \<open>A step that changes one slot and the program counters on it keeps the other slots.\<close>

lemma interleave_at:
  assumes "interleave_inv Q items valid n (a, add_mset p R)"
  shows "slot_of p < n" and "length (storage a) = n"
    and "slot_ok (storage a ! slot_of p) False (add_mset p (users (slot_of p) R))"
    and "slot_of p \<notin> set (items (free_list a))"
proof -
  show 0: "slot_of p < n" "length (storage a) = n"
    using assms by (auto simp: interleave_inv_def)
  then have "slot_ok (storage a ! slot_of p) (slot_of p \<in> set (items (free_list a)))
      (users (slot_of p) (add_mset p R))"
    using assms unfolding interleave_inv_def by blast
  then show free: "slot_of p \<notin> set (items (free_list a))"
    and "slot_ok (storage a ! slot_of p) False (add_mset p (users (slot_of p) R))"
    by (auto simp: slot_ok_def)
qed

lemma interleave_update:
  assumes "interleave_inv Q items valid n (a, add_mset p R)"
    and "slot_ok s False (users (slot_of p) T)"
    and "storage a' = (storage a)[slot_of p := s]" and "free_list a' = free_list a"
    and "\<And>q. q \<in># T \<Longrightarrow> slot_of q < n"
    and "\<And>j. j \<noteq> slot_of p \<Longrightarrow> users j T = users j R"
  shows "interleave_inv Q items valid n (a', T)"
proof -
  have "slot_ok (storage a' ! j) (j \<in> set (items (free_list a))) (users j T)" if "j < n" for j
  proof (cases "j = slot_of p")
    case True
    then show ?thesis
      using assms(2,3) interleave_at [OF assms(1)] by simp
  next
    case False
    have "slot_ok (storage a ! j) (j \<in> set (items (free_list a))) (users j (add_mset p R))"
      using assms(1) that unfolding interleave_inv_def by blast
    then show ?thesis
      using False assms(3,6) by simp
  qed
  then show ?thesis
    using assms(1,3,4,5) by (simp add: interleave_inv_def)
qed

lemma interleave_replace:
  assumes "interleave_inv Q items valid n (a, add_mset p R)" and "slot_of p' = slot_of p"
    and "slot_ok s False (add_mset p' (users (slot_of p) R))"
    and "storage a' = (storage a)[slot_of p := s]" and "free_list a' = free_list a"
  shows "interleave_inv Q items valid n (a', add_mset p' R)"
  by (rule interleave_update [OF assms(1), where s = s])
    (use assms interleave_at(1) [OF assms(1)] in \<open>auto simp: interleave_inv_def\<close>)

lemma interleave_remove:
  assumes "interleave_inv Q items valid n (a, add_mset p R)"
    and "slot_ok s False (users (slot_of p) R)"
    and "storage a' = (storage a)[slot_of p := s]" and "free_list a' = free_list a"
  shows "interleave_inv Q items valid n (a', R)"
  by (rule interleave_update [OF assms(1), where s = s])
    (use assms in \<open>auto simp: interleave_inv_def\<close>)

context slot_queue begin

lemma interleave_return:
  assumes inv: "interleave_inv Q items valid n (a, add_mset (Returning i) R)"
  shows "\<exists>q. aq_push Q (free_list a) i = Some q
    \<and> interleave_inv Q items valid n (a\<lparr>free_list := q\<rparr>, R)"
proof -
  note at = interleave_at [OF inv, simplified]
  have v: "valid (free_list a)" and d: "distinct (items (free_list a))"
    and s: "set (items (free_list a)) \<subseteq> {..<n} - {i}"
    and cap: "aq_capacity Q (free_list a) = max n 1"
    using inv at(4) by (auto simp: interleave_inv_def)
  have "length (items (free_list a)) < n"
    using card_mono [OF _ s] distinct_card [OF d] at(1) by simp
  then obtain q where q: "aq_push Q (free_list a) i = Some q" "valid q"
    "items q = items (free_list a) @ [i]" "aq_capacity Q q = aq_capacity Q (free_list a)"
    using push_room [OF v, of i] cap by auto
  have "slot_ok (storage a ! j) (j \<in> set (items q)) (users j R)" if "j < n" for j
  proof (cases "j = i")
    case True
    then show ?thesis using at(3) q(3) by (auto simp: slot_ok_def)
  next
    case False
    moreover have "slot_ok (storage a ! j) (j \<in> set (items (free_list a))) (users j (add_mset (Returning i) R))"
      using inv that unfolding interleave_inv_def by blast
    ultimately show ?thesis using q(3) by simp
  qed
  then have "interleave_inv Q items valid n (a\<lparr>free_list := q\<rparr>, R)"
    using inv q at(1,4) by (simp add: interleave_inv_def)
  with q show ?thesis by blast
qed

lemma interleave_take:
  assumes inv: "interleave_inv Q items valid n (a, R)" and pop: "aq_pop Q (free_list a) = Some (i, q)"
  shows "interleave_inv Q items valid n (a\<lparr>free_list := q\<rparr>, add_mset (Popped i) R)"
proof -
  have v: "valid (free_list a)"
    using inv by (simp add: interleave_inv_def)
  obtain js where js: "items (free_list a) = i # js"
    using pop pop_empty [OF v] pop_front [OF v] by (cases "items (free_list a)") fastforce+
  then have q: "valid q" "items q = js" "aq_capacity Q q = aq_capacity Q (free_list a)"
    using pop_front [OF v js] pop by auto
  have i: "i < n" "i \<notin> set js"
    using inv js by (auto simp: interleave_inv_def)
  have "slot_ok (storage a ! j) (j \<in> set js) (users j (add_mset (Popped i) R))" if "j < n" for j
  proof -
    have "slot_ok (storage a ! j) (j \<in> set (items (free_list a))) (users j R)"
      using inv that unfolding interleave_inv_def by blast
    then have "slot_ok (storage a ! j) (j \<in> set (i # js)) (users j R)"
      unfolding js .
    then show ?thesis
      using i(2) slot_take by (cases "j = i") auto
  qed
  then have "\<forall>j < n. slot_ok (storage a ! j) (j \<in> set (items q)) (users j (add_mset (Popped i) R))"
    using q(2) by blast
  moreover have "distinct (items q)" "set (items q) \<subseteq> {..<n}"
    using inv js q(2) by (simp_all add: interleave_inv_def)
  ultimately show ?thesis
    using inv q(1,3) i(1) unfolding interleave_inv_def prod.case by simp
qed

lemma drop_iteration_safe:
  assumes inv: "interleave_inv Q items valid n (a, add_mset (Dropping i c) R)"
  shows "\<exists>p' a'. drop_iteration spurious a i c = Ret (p', a')
    \<and> interleave_inv Q items valid n (a', add_pc p' R)"
proof -
  note at = interleave_at [OF inv, simplified]
  obtain v where c: "c \<noteq> 0" and v: "payload (storage a ! i) = Some v"
    using at(3) by (auto simp: slot_ok_def)
  consider "c = 1" | "c \<noteq> 1" "ref_count (storage a ! i) = c" "\<not> spurious"
    | "c \<noteq> 1" "ref_count (storage a ! i) \<noteq> c \<or> spurious" by blast
  then show ?thesis
  proof cases
    case 1
    then show ?thesis
      using v interleave_replace [OF inv, of "Destroyed i" "(storage a ! i)\<lparr>payload := None\<rparr>"]
        slot_destroy [of "storage a ! i" False i] at(3) by (simp add: drop_iteration_def)
  next
    case 2
    then show ?thesis
      using c interleave_remove [OF inv, of "(storage a ! i)\<lparr>ref_count := c - 1\<rparr>"]
        slot_decrement [OF at(3)] by (simp add: drop_iteration_def)
  next
    case 3
    then show ?thesis
      using c interleave_replace [OF inv, of "Dropping i (ref_count (storage a ! i))" "storage a ! i" a]
        slot_load [OF at(3), of i c] by (auto simp: drop_iteration_def)
  qed
qed

lemma pc_step_safe:
  assumes inv: "interleave_inv Q items valid n (a, add_mset p R)"
  shows "\<exists>p' a'. pc_step Q spurious a p = Ret (p', a')
    \<and> interleave_inv Q items valid n (a', add_pc p' R)"
proof -
  note at = interleave_at [OF inv]
  let ?s = "storage a ! slot_of p"
  show ?thesis
  proof (cases p)
    case (Held i)
    then show ?thesis
      using interleave_replace [OF inv, of "Dropping i (ref_count ?s)" ?s a] slot_load [OF at(3), of i] at
      by simp
  next
    case (Dropping i c)
    then show ?thesis using drop_iteration_safe inv by simp
  next
    case (Returning i)
    then show ?thesis using interleave_return [of n a i R] inv by auto
  next
    case (Popped i)
    then show ?thesis
      using interleave_replace [OF inv, of "Reserved i" "?s\<lparr>ref_count := 1\<rparr>"] slot_swap [of ?s] at
      by simp
  next
    case (Destroyed i)
    then show ?thesis
      using interleave_replace [OF inv, of "Returning i" "?s\<lparr>ref_count := 0\<rparr>"] slot_clear [OF at(3)]
      by simp
  next
    case (Reserved i)
    then show ?thesis
      using interleave_replace [OF inv, of "Returning i" "?s\<lparr>ref_count := 0\<rparr>"] slot_clear [OF at(3)]
      by simp
  qed
qed

lemma interleave_step_inv:
  assumes "arena_interleave Q s s'" and "interleave_inv Q items valid n s"
  shows "interleave_inv Q items valid n s'"
  using assms(1)
proof (cases rule: arena_interleave.cases)
  case (advance spurious a p p' a' R)
  then show ?thesis using pc_step_safe [of n a p R spurious] assms(2) by auto
next
  case (clone a i a' R)
  note inv = assms(2) [unfolded clone(1)]
  have "slot_ok ((storage a ! i)\<lparr>ref_count := ref_count (storage a ! i) + 1\<rparr>) False
      (add_mset (Held i) (add_mset (Held i) (users i R)))"
    and a': "a' = set_count a i (ref_count (storage a ! i) + 1)"
    using clone(3) slot_clone [of "storage a ! i" False i] interleave_at(3) [OF inv]
    by (auto simp: clone_ptr_def Let_def set_count_def split: if_splits)
  then show ?thesis
    unfolding clone(2) a' using interleave_at(1) [OF inv] interleave_inv_def assms(2)
    by (intro interleave_update [OF inv]) (auto simp: clone(1) interleave_inv_def)
next
  case (reserve a i q R)
  then show ?thesis using interleave_take assms(2) by auto
next
  case (fill a i R v)
  note inv = assms(2) [unfolded fill(1)]
  show ?thesis
    unfolding fill(2) using interleave_at(3) [OF inv]
    by (intro interleave_replace [OF inv, where s = "(storage a ! i)\<lparr>payload := Some v\<rparr>"])
      (auto simp: payload_write_def slot_ok_def)
next
  case (publish a i R)
  note inv = assms(2) [unfolded publish(1)]
  show ?thesis
    unfolding publish(2) using interleave_at(3) [OF inv] publish(3)
    by (intro interleave_replace [OF inv, where s = "storage a ! i"])
      (auto simp: assume_init_def slot_ok_def split: if_splits)
qed

end

section \<open>Properties\<close>

definition interleave_reachable ::
  "('q, nat) array_queue \<Rightarrow> nat \<Rightarrow> ('q, 'a) arena \<times> arena_pc multiset \<Rightarrow> bool" where
  "interleave_reachable Q n s \<longleftrightarrow>
     (\<exists>a. arena_new Q n = Ret a \<and> (arena_interleave Q)\<^sup>*\<^sup>* (a, {#}) s)"

context slot_queue begin

lemma interleave_reachable_inv:
  assumes "interleave_reachable Q n s"
  shows "interleave_inv Q items valid n s"
proof -
  obtain a where a: "arena_new Q n = Ret a" "(arena_interleave Q)\<^sup>*\<^sup>* (a, {#}) s"
    using assms by (auto simp: interleave_reachable_def)
  have "arena_inv Q items valid a {#} {} \<and> length (storage a) = n"
    by (metis a(1) arena_new_inv outcome.inject)
  then have "interleave_inv Q items valid n (a, {#})"
    by (auto simp: arena_inv_def interleave_inv_def slot_ok_def)
  with a(2) show ?thesis
    by (induction rule: rtranclp_induct) (auto intro: interleave_step_inv)
qed

end

text \<open>
  C11: Memory safety under interleaving. In every state that clones, drops, allocations and writes
  of any number of threads can reach, whatever the order of their atomic accesses and whichever
  weak compare-exchange fails: the next access of every operation under way succeeds (no double
  return, no unexpected count, no destructor on uninitialised memory); a live pointer reads
  initialised memory of a slot that is not free; the operation that runs the destructor has the
  slot to itself; and when no pointer is left every slot is free.
\<close>

theorem arena_interleavings_safe:
  assumes "bounded_queue Q items valid" and "interleave_reachable Q n (a, T)"
  shows "(\<forall>p \<in># T. \<forall>spurious. \<exists>r. pc_step Q spurious a p = Ret r)
    \<and> (\<forall>i. Held i \<in># T \<longrightarrow> payload (storage a ! i) \<noteq> None \<and> i \<notin> set (items (free_list a)))
    \<and> (\<forall>i. Dropping i 1 \<in># T \<longrightarrow> filter_mset (\<lambda>p. slot_of p = i) T = {#Dropping i 1#})
    \<and> (T = {#} \<longrightarrow> set (items (free_list a)) = {..<n})"
proof (intro conjI ballI allI impI)
  have sq: "slot_queue Q items valid"
    using assms(1) by (rule slot_queue.intro)
  have inv: "interleave_inv Q items valid n (a, T)"
    using slot_queue.interleave_reachable_inv [OF sq assms(2)] .
  note at = interleave_at [of Q items valid n a]
  show "\<exists>r. pc_step Q spurious a p = Ret r" if "p \<in># T" for p spurious
    using slot_queue.pc_step_safe [OF sq, of n a p "T - {#p#}" spurious] inv that by auto
  show "payload (storage a ! i) \<noteq> None" "i \<notin> set (items (free_list a))" if "Held i \<in># T" for i
    using at [of "Held i" "T - {#Held i#}"] inv that by (auto simp: slot_ok_def)
  show "filter_mset (\<lambda>p. slot_of p = i) T = {#Dropping i 1#}" if "Dropping i 1 \<in># T" for i
  proof -
    have "slot_ok (storage a ! i) False (add_mset (Dropping i 1) (users i (T - {#Dropping i 1#})))"
      using at(3) [of "Dropping i 1" "T - {#Dropping i 1#}"] inv that by simp
    then have "users i (T - {#Dropping i 1#}) = {#}"
      by (rule slot_sole) simp
    then have "users i (add_mset (Dropping i 1) (T - {#Dropping i 1#})) = {#Dropping i 1#}"
      by simp
    with that show ?thesis by simp
  qed
  show "set (items (free_list a)) = {..<n}" if "T = {#}"
    using inv that by (auto simp: interleave_inv_def slot_ok_def)
qed

text \<open>Two pointers to one slot, and one of them about to leave the drop loop.\<close>

lemma sample_interleaving:
  "interleave_reachable list_array_queue 1
     (\<lparr>arena_capacity = 1, storage = [\<lparr>ref_count = 1, payload = Some (7 :: nat)\<rparr>],
       free_list = \<lparr>lq_capacity = 1, lq_items = []\<rparr>\<rparr>, {#Dropping 0 1#})"
proof -
  let ?a = "\<lambda>c v f. \<lparr>arena_capacity = 1, storage = [\<lparr>ref_count = c, payload = v\<rparr>],
       free_list = \<lparr>lq_capacity = 1, lq_items = f\<rparr>\<rparr> :: (nat list_queue, nat) arena"
  let ?step = "arena_interleave list_array_queue"
  have "?step (?a 0 None [0], {#}) (?a 0 None [], {#Popped 0#})"
    using arena_interleave.reserve [of list_array_queue "?a 0 None [0]" 0 _ "{#}"] by simp
  moreover have "?step (?a 0 None [], {#Popped 0#}) (?a 1 None [], {#Reserved 0#})"
    using arena_interleave.advance [of list_array_queue False "?a 0 None []" "Popped 0" _ _ "{#}"]
    by (simp add: set_count_def set_slot_def)
  moreover have "?step (?a 1 None [], {#Reserved 0#}) (?a 1 (Some 7) [], {#Reserved 0#})"
    using arena_interleave.fill [of list_array_queue "?a 1 None []" 0 "{#}" 7]
    by (simp add: payload_write_def set_slot_def)
  moreover have "?step (?a 1 (Some 7) [], {#Reserved 0#}) (?a 1 (Some 7) [], {#Held 0#})"
    using arena_interleave.publish [of "?a 1 (Some 7) []" 0 list_array_queue "{#}"]
    by (simp add: assume_init_def)
  moreover have "?step (?a 1 (Some 7) [], {#Held 0#}) (?a 1 (Some 7) [], {#Dropping 0 1#})"
    using arena_interleave.advance [of list_array_queue False "?a 1 (Some 7) []" "Held 0" _ _ "{#}"]
    by simp
  ultimately have "?step\<^sup>*\<^sup>* (?a 0 None [0], {#}) (?a 1 (Some 7) [], {#Dropping 0 1#})"
    by (meson converse_rtranclp_into_rtranclp rtranclp.rtrancl_refl)
  moreover have "arena_new list_array_queue 1 = Ret (?a 0 None [0])"
    by (simp add: arena_new_def reallocate_slots_def)
  ultimately show ?thesis
    by (auto simp: interleave_reachable_def)
qed

theorem arena_interleavings_safe_witness:
  "\<exists>r. pc_step list_array_queue True
     \<lparr>arena_capacity = 1, storage = [\<lparr>ref_count = 1, payload = Some (7 :: nat)\<rparr>],
       free_list = \<lparr>lq_capacity = 1, lq_items = []\<rparr>\<rparr> (Dropping 0 1) = Ret r"
  using arena_interleavings_safe [OF lq.bounded_queue_axioms sample_interleaving] by auto

text \<open>The accesses of one program counter with nothing in between; \<open>None\<close> when the fuel ends.\<close>

fun run_pc ::
  "('q, nat) array_queue \<Rightarrow> nat \<Rightarrow> ('q, 'a) arena \<Rightarrow> arena_pc \<Rightarrow> ('q, 'a) arena option outcome" where
  "run_pc Q 0 a p = Ret None"
| "run_pc Q (Suc k) a p =
     and_then (pc_step Q False a p) (\<lambda>(p', a').
       case p' of None \<Rightarrow> Ret (Some a') | Some p' \<Rightarrow> run_pc Q k a' p')"

text \<open>
  Uncontended drop. Running the accesses of \<open>ArenaPtr::drop\<close> to the end, with nothing in
  between, takes at most four accesses and gives exactly the result of the sequential operation
  \<open>drop_ptr\<close>, the panics included.
\<close>

theorem drop_uncontended_refines:
  assumes "i < length (storage a)"
  shows "run_pc Q 4 a (Held i) = and_then (drop_ptr Q a i) (\<lambda>(d, a'). Ret (Some a'))"
proof -
  have 4: "(4 :: nat) = Suc (Suc (Suc (Suc 0)))" by simp
  have s: "(t :: 'a arena_slot)\<lparr>payload := None, ref_count := 0\<rparr> = \<lparr>ref_count = 0, payload = None\<rparr>" for t
    by (cases t) simp
  show ?thesis
    using assms unfolding 4
    by (cases a; cases "payload (storage a ! i)"; cases "aq_push Q (free_list a) i")
      (auto simp: drop_iteration_def drop_ptr_def Let_def set_count_def set_slot_def s)
qed

theorem drop_uncontended_refines_witness:
  "run_pc list_array_queue 4 sample_arena (Held 0) =
     Ret (Some \<lparr>arena_capacity = 2,
       storage = [\<lparr>ref_count = 0, payload = None\<rparr>, \<lparr>ref_count = 0, payload = None\<rparr>],
       free_list = \<lparr>lq_capacity = 2, lq_items = [1, 0]\<rparr>\<rparr>)"
  using drop_uncontended_refines [of 0 sample_arena list_array_queue]
  by (simp add: sample_arena_def drop_ptr_def set_slot_def)

end
