(* ===== verification/Message_Store.thy ===== *)
theory Message_Store
  imports Arena Framework_Time "HOL-Library.Product_Lexorder"
begin

text \<open>
  \<open>task/src/message.rs\<close> and the storage the message bus works on: one arena of messages per
  publisher. A pointer to a message is the number of its arena and its slot there. The operations
  on a pointer are those of its arena (\<open>Arena\<close>); \<open>store_inv\<close> lifts the arena invariant to all
  arenas, with \<open>M\<close> the multiset of all pointers and \<open>U\<close> the set of all reservations.
\<close>

section \<open>Messages\<close>

datatype message_header = MessageHeader
  (published_at: framework_time) (header_publisher: u32) (header_batch: u32)

text \<open>The derived ordering compares the fields in the order of their declaration.\<close>

instantiation message_header :: linorder
begin

definition less_eq_message_header :: "message_header \<Rightarrow> message_header \<Rightarrow> bool" where
  "less_eq_message_header a b \<longleftrightarrow>
     (published_at a, header_publisher a, header_batch a)
       \<le> (published_at b, header_publisher b, header_batch b)"

definition less_message_header :: "message_header \<Rightarrow> message_header \<Rightarrow> bool" where
  "less_message_header a b \<longleftrightarrow>
     (published_at a, header_publisher a, header_batch a)
       < (published_at b, header_publisher b, header_batch b)"

instance
proof
  fix a b c :: message_header
  show "a < b \<longleftrightarrow> a \<le> b \<and> \<not> b \<le> a"
    by (auto simp: less_eq_message_header_def less_message_header_def)
  show "a \<le> a"
    by (simp add: less_eq_message_header_def)
  show "a \<le> b \<Longrightarrow> b \<le> c \<Longrightarrow> a \<le> c"
    unfolding less_eq_message_header_def by (rule order_trans)
  show "a \<le> b \<Longrightarrow> b \<le> a \<Longrightarrow> a = b"
    unfolding less_eq_message_header_def by (cases a; cases b) (metis Pair_inject message_header.sel order_antisym)
  show "a \<le> b \<or> b \<le> a"
    unfolding less_eq_message_header_def by (rule linear)
qed

end

definition header_new :: "framework_time \<Rightarrow> message_header" where
  "header_new t = MessageHeader t 0 0"

definition header_default :: message_header where
  "header_default = header_new INVALID"

record 'a message =
  header :: message_header
  message_body :: 'a

definition message_default :: "'a \<Rightarrow> 'a message" where
  "message_default d = \<lparr>header = header_default, message_body = d\<rparr>"

section \<open>Pointers into several arenas\<close>

type_synonym ptr = "nat \<times> nat"
type_synonym ('f, 'a) store = "('f, 'a message) arena list"

definition store_release :: "('f, nat) array_queue \<Rightarrow> ('f, 'a) store \<Rightarrow> ptr \<Rightarrow> ('f, 'a) store outcome" where
  "store_release F as p =
     (if fst p < length as
      then and_then (drop_ptr F (as ! fst p) (snd p)) (\<lambda>(d, a). Ret (as[fst p := a]))
      else Undefined)"

fun store_release_all ::
  "('f, nat) array_queue \<Rightarrow> ('f, 'a) store \<Rightarrow> ptr list \<Rightarrow> ('f, 'a) store outcome" where
  "store_release_all F as [] = Ret as"
| "store_release_all F as (p # ps) =
     and_then (store_release F as p) (\<lambda>as'. store_release_all F as' ps)"

definition store_retain :: "('f, 'a) store \<Rightarrow> ptr \<Rightarrow> ('f, 'a) store outcome" where
  "store_retain as p =
     (if fst p < length as
      then and_then (clone_ptr (as ! fst p) (snd p)) (\<lambda>a. Ret (as[fst p := a]))
      else Undefined)"

definition store_read :: "('f, 'a) store \<Rightarrow> ptr \<Rightarrow> 'a message outcome" where
  "store_read as p =
     (if fst p < length as then assume_init_ref (as ! fst p) (snd p) else Undefined)"

text \<open>\<open>(*ptr.payload.get()).assume_init_mut().header = h\<close>\<close>

definition store_stamp :: "('f, 'a) store \<Rightarrow> ptr \<Rightarrow> message_header \<Rightarrow> ('f, 'a) store outcome" where
  "store_stamp as p h =
     (if fst p < length as
      then and_then (assume_init_value (payload (storage (as ! fst p) ! snd p))) (\<lambda>m.
             Ret (as[fst p := payload_write (as ! fst p) (snd p) (m\<lparr>header := h\<rparr>)]))
      else Undefined)"

section \<open>Invariant\<close>

definition slots :: "nat \<Rightarrow> ptr multiset \<Rightarrow> nat multiset" where
  "slots k M = image_mset snd (filter_mset (\<lambda>p. fst p = k) M)"

definition slot_set :: "nat \<Rightarrow> ptr set \<Rightarrow> nat set" where
  "slot_set k U = {i. (k, i) \<in> U}"

definition store_inv ::
  "('f, nat) array_queue \<Rightarrow> ('f \<Rightarrow> nat list) \<Rightarrow> ('f \<Rightarrow> bool) \<Rightarrow> ('f, 'a) store
     \<Rightarrow> ptr multiset \<Rightarrow> ptr set \<Rightarrow> bool" where
  "store_inv F items valid as M U \<longleftrightarrow>
     (\<forall>k < length as. arena_inv F items valid (as ! k) (slots k M) (slot_set k U))
     \<and> (\<forall>p \<in># M. fst p < length as) \<and> (\<forall>p \<in> U. fst p < length as)"

lemma slots_simps [simp]:
  "slots k {#} = {#}"
  "slots k (M + N) = slots k M + slots k N"
  "slots k (add_mset p M) = (if fst p = k then add_mset (snd p) (slots k M) else slots k M)"
  by (auto simp: slots_def)

lemma count_slots [simp]: "count (slots k M) i = count M (k, i)"
  by (induction M) (auto simp: slots_def)

lemma in_slots [simp]: "i \<in># slots k M \<longleftrightarrow> (k, i) \<in># M"
  by (metis count_greater_zero_iff count_slots)

lemma slots_remove: "slots k (M - {#p#}) = (if fst p = k then slots k M - {#snd p#} else slots k M)"
  by (rule multiset_eqI) (cases p, auto)

lemma slot_set_simps [simp]:
  "slot_set k (insert p U) = (if fst p = k then insert (snd p) (slot_set k U) else slot_set k U)"
  "slot_set k (U - {p}) = (if fst p = k then slot_set k U - {snd p} else slot_set k U)"
  "slot_set k {} = {}"
  by (cases p, auto simp: slot_set_def)+

lemma size_slots_le: "size (slots k M) \<le> size M"
  by (simp add: slots_def size_filter_mset_lesseq)

lemma store_inv_update:
  assumes "store_inv F items valid as M U" and "k < length as"
    and "arena_inv F items valid a (slots k M') (slot_set k U')"
    and "\<And>j. j \<noteq> k \<Longrightarrow> slots j M' = slots j M" and "\<And>j. j \<noteq> k \<Longrightarrow> slot_set j U' = slot_set j U"
    and "\<And>p. p \<in># M' \<Longrightarrow> fst p < length as" and "\<And>p. p \<in> U' \<Longrightarrow> fst p < length as"
  shows "store_inv F items valid (as[k := a]) M' U'"
  using assms by (auto simp: store_inv_def nth_list_update)

abbreviation payload_at :: "('f, 'a) store \<Rightarrow> ptr \<Rightarrow> 'a message option" where
  "payload_at as p \<equiv> payload (storage (as ! fst p) ! snd p)"

context slot_queue begin

lemma store_retain_law:
  assumes inv: "store_inv Q items valid as M U" and p: "p \<in># M"
    and small: "count M p \<le> usize_max div 2"
  shows "\<exists>as'. store_retain as p = Ret as' \<and> store_inv Q items valid as' (add_mset p M) U
    \<and> length as' = length as \<and> (\<forall>q. payload_at as' q = payload_at as q)"
proof -
  have k: "fst p < length as" and a: "arena_inv Q items valid (as ! fst p) (slots (fst p) M) (slot_set (fst p) U)"
    using inv p by (auto simp: store_inv_def)
  obtain a' where a': "clone_ptr (as ! fst p) (snd p) = Ret a'"
    "arena_inv Q items valid a' (add_mset (snd p) (slots (fst p) M)) (slot_set (fst p) U)"
    "\<forall>j. payload (storage a' ! j) = payload (storage (as ! fst p) ! j)"
    using clone_law [OF a, of "snd p"] p small by auto
  have "store_inv Q items valid (as[fst p := a']) (add_mset p M) U"
    by (rule store_inv_update [OF inv k]) (use a' inv k in \<open>auto simp: store_inv_def\<close>)
  then show ?thesis
    using a' k by (auto simp: store_retain_def nth_list_update)
qed

lemma store_release_law:
  assumes inv: "store_inv Q items valid as M U" and p: "p \<in># M"
  shows "\<exists>as'. store_release Q as p = Ret as' \<and> store_inv Q items valid as' (M - {#p#}) U
    \<and> length as' = length as \<and> (\<forall>q. q \<in># M - {#p#} \<or> q \<in> U \<longrightarrow> payload_at as' q = payload_at as q)"
proof -
  have k: "fst p < length as" and a: "arena_inv Q items valid (as ! fst p) (slots (fst p) M) (slot_set (fst p) U)"
    using inv p by (auto simp: store_inv_def)
  obtain d a' where a': "drop_ptr Q (as ! fst p) (snd p) = Ret (d, a')"
    "arena_inv Q items valid a' (slots (fst p) M - {#snd p#}) (slot_set (fst p) U)"
    "\<forall>j. j \<in># slots (fst p) M - {#snd p#} \<or> j \<in> slot_set (fst p) U
       \<longrightarrow> payload (storage a' ! j) = payload (storage (as ! fst p) ! j)"
    using drop_law [OF a, of "snd p"] p by auto
  have "store_inv Q items valid (as[fst p := a']) (M - {#p#}) U"
    by (rule store_inv_update [OF inv k])
      (use a' inv k in \<open>auto simp: store_inv_def slots_remove dest: in_diffD\<close>)
  moreover have "payload_at (as[fst p := a']) q = payload_at as q"
    if "q \<in># M - {#p#} \<or> q \<in> U" for q
  proof (cases "fst q = fst p")
    case True
    have "snd q \<in># slots (fst p) M - {#snd p#} \<or> snd q \<in> slot_set (fst p) U"
      using that True slots_remove [of "fst p" M p] by (metis in_slots mem_Collect_eq prod.collapse slot_set_def)
    with True k a'(3) show ?thesis by auto
  qed simp
  ultimately show ?thesis
    using a'(1) k by (auto simp: store_release_def)
qed

lemma store_release_all_law:
  "store_inv Q items valid as (M + mset ps) U \<Longrightarrow>
     \<exists>as'. store_release_all Q as ps = Ret as' \<and> store_inv Q items valid as' M U
       \<and> length as' = length as \<and> (\<forall>q. q \<in># M \<or> q \<in> U \<longrightarrow> payload_at as' q = payload_at as q)"
proof (induction ps arbitrary: as)
  case (Cons p ps)
  obtain as1 where as1: "store_release Q as p = Ret as1"
    "store_inv Q items valid as1 (M + mset ps) U" "length as1 = length as"
    "\<forall>q. q \<in># M + mset ps \<or> q \<in> U \<longrightarrow> payload_at as1 q = payload_at as q"
    using store_release_law [OF Cons.prems, of p] by auto
  then show ?case using Cons.IH [of as1] by auto
qed auto

lemma store_read_law:
  assumes "store_inv Q items valid as M U" and "p \<in># M"
  shows "\<exists>m. payload_at as p = Some m \<and> store_read as p = Ret m"
proof -
  have "fst p < length as"
    and "arena_inv Q items valid (as ! fst p) (slots (fst p) M) (slot_set (fst p) U)"
    using assms by (auto simp: store_inv_def)
  then show ?thesis
    using read_law [of "as ! fst p" "slots (fst p) M" "slot_set (fst p) U" "snd p"] assms(2)
    by (simp add: store_read_def)
qed

lemma store_stamp_law:
  assumes inv: "store_inv Q items valid as M U" and p: "p \<in># M"
  shows "\<exists>as' m. payload_at as p = Some m \<and> store_stamp as p h = Ret as'
    \<and> store_inv Q items valid as' M U \<and> length as' = length as
    \<and> payload_at as' p = Some (m\<lparr>header := h\<rparr>)
    \<and> (\<forall>q. q \<noteq> p \<longrightarrow> payload_at as' q = payload_at as q)"
proof -
  let ?a = "as ! fst p"
  have k: "fst p < length as" and a: "arena_inv Q items valid ?a (slots (fst p) M) (slot_set (fst p) U)"
    using inv p by (auto simp: store_inv_def)
  obtain m where m: "payload_at as p = Some m"
    using store_read_law [OF inv p] by blast
  let ?a' = "payload_write ?a (snd p) (m\<lparr>header := h\<rparr>)"
  have l: "snd p < length (storage ?a)"
    using inv_bounds(1) [OF a] p by simp
  have a': "arena_inv Q items valid ?a' (slots (fst p) M) (slot_set (fst p) U)"
    using a l by (auto simp: arena_inv_def payload_write_def nth_list_update)
  have "store_inv Q items valid (as[fst p := ?a']) M U"
    by (rule store_inv_update [OF inv k a']) (use inv in \<open>auto simp: store_inv_def\<close>)
  moreover have "payload_at (as[fst p := ?a']) q = payload_at as q" if "q \<noteq> p" for q
    using that by (cases "fst q = fst p")
      (auto simp: k payload_write_def prod_eq_iff)
  ultimately show ?thesis
    using m k l by (auto simp: store_stamp_def payload_write_def)
qed

end

end
