(* ===== verification/Message_Bus.thy ===== *)
theory Message_Bus
  imports Message_Store Double_Buffer
begin

text \<open>
  \<open>task/src/subscriber.rs\<close>, \<open>publisher.rs\<close>, \<open>output.rs\<close> and \<open>input.rs\<close>: publishers with their
  arenas and pending batches, and subscribers with their double buffers.

  The state \<open>bus\<close> holds all arenas, all subscribers and a trace of the calls that leave the
  component: observers, wake-ups and readiness notifications. A publisher knows its arena and its
  subscribers by number. An operation that drops a pointer releases it in its arena. \<open>F\<close> is the
  queue type of the free lists, \<open>Q\<close> that of the write buffers.
\<close>

section \<open>Subscribers\<close>

record subscriber_policy =
  trigger :: bool
  keep_across_runs :: bool

definition policy_default :: subscriber_policy where
  "policy_default = \<lparr>trigger = False, keep_across_runs = True\<rparr>"

record 'q subscriber =
  sub_buffer :: "('q, ptr) double_buffer"
  sub_channel :: string
  sub_wake :: bool \<comment> \<open>whether a wake handle is registered\<close>
  sub_policy :: subscriber_policy

datatype 'a bus_event =
  Observed nat "'a message"
| Woken nat
| ReadinessChanged nat

record ('f, 'q, 'a) bus =
  arenas :: "('f, 'a) store"
  subs :: "'q subscriber list"
  trace :: "'a bus_event list"

definition subscriber_with_policy ::
  "('q, ptr) array_queue \<Rightarrow> (nat \<Rightarrow> nat) \<Rightarrow> nat \<Rightarrow> subscriber_policy \<Rightarrow> 'q subscriber outcome" where
  "subscriber_with_policy Q deque_capacity capacity policy =
     and_then (double_buffer_new Q deque_capacity capacity) (\<lambda>b.
       Ret \<lparr>sub_buffer = b, sub_channel = [], sub_wake = False, sub_policy = policy\<rparr>)"

definition subscriber_new ::
  "('q, ptr) array_queue \<Rightarrow> (nat \<Rightarrow> nat) \<Rightarrow> nat \<Rightarrow> 'q subscriber outcome" where
  "subscriber_new Q deque_capacity capacity =
     subscriber_with_policy Q deque_capacity capacity policy_default"

definition set_waker :: "'q subscriber \<Rightarrow> 'q subscriber outcome" where
  "set_waker s = (if sub_wake s then Panic else Ret (s\<lparr>sub_wake := True\<rparr>))"

definition has_pending :: "('q, ptr) array_queue \<Rightarrow> 'q subscriber \<Rightarrow> bool" where
  "has_pending Q s \<longleftrightarrow> \<not> read_is_empty (sub_buffer s) \<or> \<not> write_buffer_is_empty Q (sub_buffer s)"

definition requests_execution :: "('q, ptr) array_queue \<Rightarrow> 'q subscriber \<Rightarrow> bool" where
  "requests_execution Q s \<longleftrightarrow> trigger (sub_policy s) \<and> \<not> write_buffer_is_empty Q (sub_buffer s)"

definition triggers_execution :: "'q subscriber \<Rightarrow> bool" where
  "triggers_execution s = trigger (sub_policy s)"

definition set_buffer :: "('f, 'q, 'a) bus \<Rightarrow> nat \<Rightarrow> ('q, ptr) double_buffer \<Rightarrow> ('f, 'q, 'a) bus" where
  "set_buffer w s b = w\<lparr>subs := (subs w)[s := (subs w ! s)\<lparr>sub_buffer := b\<rparr>]\<rparr>"

definition release_dropped ::
  "('f, nat) array_queue \<Rightarrow> ('f, 'q, 'a) bus \<Rightarrow> ptr list \<Rightarrow> ('f, 'q, 'a) bus outcome" where
  "release_dropped F w ps =
     and_then (store_release_all F (arenas w) ps) (\<lambda>as. Ret (w\<lparr>arenas := as\<rparr>))"

definition finish_iteration ::
  "('f, nat) array_queue \<Rightarrow> ('f, 'q, 'a) bus \<Rightarrow> nat \<Rightarrow> ('f, 'q, 'a) bus outcome" where
  "finish_iteration F w s =
     (let b = sub_buffer (subs w ! s) in
      if keep_across_runs (sub_policy (subs w ! s)) then Ret w
      else release_dropped F (set_buffer w s (b\<lparr>read_storage := []\<rparr>)) (read_storage b))"

definition subscriber_update ::
  "('f, nat) array_queue \<Rightarrow> ('q, ptr) array_queue \<Rightarrow> ('f, 'q, 'a) bus \<Rightarrow> nat \<Rightarrow> ('f, 'q, 'a) bus outcome"
  where
  "subscriber_update F Q w s =
     and_then (loop_result (drain_writer_to_reader Q (sub_buffer (subs w ! s)))) (\<lambda>(ps, b).
       release_dropped F (set_buffer w s b) ps)"

definition subscriber_clear ::
  "('f, nat) array_queue \<Rightarrow> ('q, ptr) array_queue \<Rightarrow> ('f, 'q, 'a) bus \<Rightarrow> nat \<Rightarrow> ('f, 'q, 'a) bus outcome"
  where
  "subscriber_clear F Q w s =
     and_then (loop_result (double_buffer_clear Q (sub_buffer (subs w ! s)))) (\<lambda>(ps, b).
       release_dropped F (set_buffer w s b) ps)"

definition visit_headers :: "('f, 'q, 'a) bus \<Rightarrow> nat \<Rightarrow> message_header list outcome" where
  "visit_headers w s =
     map_outcome_list (\<lambda>p. and_then (store_read (arenas w) p) (\<lambda>m. Ret (header m)))
       (read_storage (sub_buffer (subs w ! s)))"

text \<open>\<open>SubscriberWriter::write\<close>: queue the pointer, drop the displaced one, notify.\<close>

definition notification :: "'q subscriber \<Rightarrow> nat \<Rightarrow> 'a bus_event list" where
  "notification sub s =
     (if sub_wake sub then (if trigger (sub_policy sub) then [Woken s] else [ReadinessChanged s]) else [])"

definition subscriber_write ::
  "('f, nat) array_queue \<Rightarrow> ('q, ptr) array_queue \<Rightarrow> ('f, 'q, 'a) bus \<Rightarrow> nat \<Rightarrow> ptr
     \<Rightarrow> ('f, 'q, 'a) bus outcome" where
  "subscriber_write F Q w s p =
     (let (displaced, b) = write_buffer_write Q (sub_buffer (subs w ! s)) p in
      and_then (release_dropped F (set_buffer w s b) displaced) (\<lambda>w'.
        Ret (w'\<lparr>trace := trace w' @ notification (subs w ! s) s\<rparr>)))"

section \<open>Inputs\<close>

definition input_full_message :: "('f, 'q, 'a) bus \<Rightarrow> nat \<Rightarrow> 'a message option outcome" where
  "input_full_message w s =
     (case read_storage (sub_buffer (subs w ! s)) of
        [] \<Rightarrow> Ret None
      | p # _ \<Rightarrow> and_then (store_read (arenas w) p) (\<lambda>m. Ret (Some m)))"

text \<open>\<open>pop\<close> and \<open>forward\<close>: the pointer passes to the caller.\<close>

definition input_pop :: "('f, 'q, 'a) bus \<Rightarrow> nat \<Rightarrow> ptr option \<times> ('f, 'q, 'a) bus" where
  "input_pop w s =
     (let (p, b) = read_pop_front (sub_buffer (subs w ! s)) in (p, set_buffer w s b))"

definition input_drain :: "('f, 'q, 'a) bus \<Rightarrow> nat \<Rightarrow> ptr list \<times> ('f, 'q, 'a) bus" where
  "input_drain w s =
     (let (ps, b) = read_drain (sub_buffer (subs w ! s)) in (ps, set_buffer w s b))"

definition input_clear ::
  "('f, nat) array_queue \<Rightarrow> ('f, 'q, 'a) bus \<Rightarrow> nat \<Rightarrow> ('f, 'q, 'a) bus outcome" where
  "input_clear F w s =
     (case input_pop w s of
        (None, w') \<Rightarrow> Ret w'
      | (Some p, w') \<Rightarrow> release_dropped F w' [p])"

text \<open>\<open>RequiredInput\<close>: construction asserts a message; reading expects one.\<close>

definition required_input_new :: "('f, 'q, 'a) bus \<Rightarrow> nat \<Rightarrow> nat outcome" where
  "required_input_new w s = (if read_is_empty (sub_buffer (subs w ! s)) then Panic else Ret s)"

definition required_value :: "('f, 'q, 'a) bus \<Rightarrow> nat \<Rightarrow> 'a outcome" where
  "required_value w s =
     and_then (input_full_message w s) (\<lambda>m. and_then (expect m) (\<lambda>m. Ret (message_body m)))"

section \<open>Publishers\<close>

text \<open>
  \<open>LoanError\<close> with the two transport variants, whose contents are types of the transport crate.
\<close>

typedecl iox2_loan_error
typedecl iox2_send_error

datatype loan_error =
  LoanCapacityReached
| ArenaExhausted
| PendingBatchNotEmpty
| Iox2CannotSendToNative
| Iox2Loan iox2_loan_error
| Iox2Send iox2_send_error

record publisher =
  pub_arena :: nat \<comment> \<open>\<open>allocator\<close>\<close>
  loan_capacity :: nat
  pending :: "ptr list"
  targets :: "nat list" \<comment> \<open>\<open>subscribers\<close>\<close>
  pub_channel :: string
  publisher_index :: u32
  observers :: "nat list"

definition publisher_new :: "nat \<Rightarrow> nat \<Rightarrow> publisher outcome" where
  "publisher_new allocator capacity =
     (if checked_u32 capacity = None then Panic
      else Ret \<lparr>pub_arena = allocator, loan_capacity = capacity, pending = [], targets = [],
                pub_channel = [], publisher_index = 0, observers = []\<rparr>)"

definition connect :: "publisher \<Rightarrow> nat \<Rightarrow> publisher" where
  "connect pb s = pb\<lparr>targets := targets pb @ [s]\<rparr>"

definition observe :: "publisher \<Rightarrow> nat \<Rightarrow> publisher" where
  "observe pb observer = pb\<lparr>observers := observers pb @ [observer]\<rparr>"

text \<open>
  \<open>allocate_output\<close>: reserve a slot. The default header it writes becomes part of the message
  when the payload is written; until then nobody can read the slot.
\<close>

definition allocate_output ::
  "('f, nat) array_queue \<Rightarrow> ('f, 'q, 'a) bus \<Rightarrow> nat
     \<Rightarrow> (loan_error + ptr \<times> ('f, 'q, 'a) bus) outcome" where
  "allocate_output F w k =
     and_then (try_allocate_uninit F (arenas w ! k)) (\<lambda>r. case r of
        None \<Rightarrow> Ret (Inl ArenaExhausted)
      | Some (i, a) \<Rightarrow> Ret (Inr ((k, i), w\<lparr>arenas := (arenas w)[k := a]\<rparr>)))"

definition loan_uninit ::
  "('f, nat) array_queue \<Rightarrow> publisher \<Rightarrow> ('f, 'q, 'a) bus
     \<Rightarrow> (loan_error + ptr \<times> ('f, 'q, 'a) bus) outcome" where
  "loan_uninit F pb w =
     (if loan_capacity pb \<le> length (pending pb) then Ret (Inl LoanCapacityReached)
      else allocate_output F w (pub_arena pb))"

text \<open>\<open>OutputUninit::write\<close>\<close>

definition output_write :: "('f, 'q, 'a) bus \<Rightarrow> ptr \<Rightarrow> 'a \<Rightarrow> ('f, 'q, 'a) bus outcome" where
  "output_write w p v =
     (let a = payload_write (arenas w ! fst p) (snd p) \<lparr>header = header_default, message_body = v\<rparr> in
      and_then (assume_init a (snd p)) (\<lambda>_. Ret (w\<lparr>arenas := (arenas w)[fst p := a]\<rparr>)))"

definition loan ::
  "('f, nat) array_queue \<Rightarrow> publisher \<Rightarrow> ('f, 'q, 'a) bus \<Rightarrow> 'a
     \<Rightarrow> (loan_error + ptr \<times> ('f, 'q, 'a) bus) outcome" where
  "loan F pb w v =
     and_then (loan_uninit F pb w) (\<lambda>r. case r of
        Inl e \<Rightarrow> Ret (Inl e)
      | Inr (p, w') \<Rightarrow> and_then (output_write w' p v) (\<lambda>w''. Ret (Inr (p, w''))))"

definition output_send :: "publisher \<Rightarrow> ptr \<Rightarrow> publisher" where
  "output_send pb p = pb\<lparr>pending := pending pb @ [p]\<rparr>"

definition publish ::
  "('f, nat) array_queue \<Rightarrow> publisher \<Rightarrow> ('f, 'q, 'a) bus \<Rightarrow> 'a
     \<Rightarrow> (loan_error + publisher \<times> ('f, 'q, 'a) bus) outcome" where
  "publish F pb w v =
     and_then (loan F pb w v) (\<lambda>r. case r of
        Inl e \<Rightarrow> Ret (Inl e)
      | Inr (p, w') \<Rightarrow> Ret (Inr (output_send pb p, w')))"

definition discard_pending ::
  "('f, nat) array_queue \<Rightarrow> publisher \<Rightarrow> ('f, 'q, 'a) bus \<Rightarrow> (publisher \<times> ('f, 'q, 'a) bus) outcome"
  where
  "discard_pending F pb w =
     and_then (release_dropped F w (pending pb)) (\<lambda>w'. Ret (pb\<lparr>pending := []\<rparr>, w'))"

definition batch_index :: "nat \<Rightarrow> u32 outcome" where
  "batch_index i = and_then (expect (checked_u32 i)) (\<lambda>n. Ret (of_nat n))"

definition visit_pending_headers :: "publisher \<Rightarrow> ('f, 'q, 'a) bus \<Rightarrow> message_header list outcome" where
  "visit_pending_headers pb w =
     map_outcome_list (\<lambda>(i, p).
       and_then (store_read (arenas w) p) (\<lambda>m.
       and_then (batch_index i) (\<lambda>b.
         Ret (MessageHeader (published_at (header m)) (publisher_index pb) b))))
       (enumerate 0 (pending pb))"

fun fan_out ::
  "('f, nat) array_queue \<Rightarrow> ('q, ptr) array_queue \<Rightarrow> ptr \<Rightarrow> nat list \<Rightarrow> ('f, 'q, 'a) bus
     \<Rightarrow> ('f, 'q, 'a) bus outcome" where
  "fan_out F Q p [] w = Ret w"
| "fan_out F Q p (s # ss) w =
     and_then (store_retain (arenas w) p) (\<lambda>as.
     and_then (subscriber_write F Q (w\<lparr>arenas := as\<rparr>) s p) (\<lambda>w'. fan_out F Q p ss w'))"

definition call_observers :: "publisher \<Rightarrow> ptr \<Rightarrow> ('f, 'q, 'a) bus \<Rightarrow> ('f, 'q, 'a) bus outcome" where
  "call_observers pb p w =
     and_then (map_outcome_list (\<lambda>ob. and_then (store_read (arenas w) p) (\<lambda>m. Ret (Observed ob m)))
       (observers pb)) (\<lambda>es. Ret (w\<lparr>trace := trace w @ es\<rparr>))"

definition flush_one ::
  "('f, nat) array_queue \<Rightarrow> ('q, ptr) array_queue \<Rightarrow> publisher \<Rightarrow> (nat \<Rightarrow> message_header outcome)
     \<Rightarrow> nat \<Rightarrow> ptr \<Rightarrow> ('f, 'q, 'a) bus \<Rightarrow> ('f, 'q, 'a) bus outcome" where
  "flush_one F Q pb hdr i p w =
     and_then (hdr i) (\<lambda>h.
     and_then (store_stamp (arenas w) p h) (\<lambda>as.
     and_then (call_observers pb p (w\<lparr>arenas := as\<rparr>)) (\<lambda>w1.
     and_then (fan_out F Q p (targets pb) w1) (\<lambda>w2.
       release_dropped F w2 [p]))))"

fun flush_loop ::
  "('f, nat) array_queue \<Rightarrow> ('q, ptr) array_queue \<Rightarrow> publisher \<Rightarrow> (nat \<Rightarrow> message_header outcome)
     \<Rightarrow> nat \<Rightarrow> ptr list \<Rightarrow> ('f, 'q, 'a) bus \<Rightarrow> ('f, 'q, 'a) bus outcome" where
  "flush_loop F Q pb hdr i [] w = Ret w"
| "flush_loop F Q pb hdr i (p # ps) w =
     and_then (flush_one F Q pb hdr i p w) (\<lambda>w'. flush_loop F Q pb hdr (Suc i) ps w')"

definition flush_headers ::
  "('f, nat) array_queue \<Rightarrow> ('q, ptr) array_queue \<Rightarrow> publisher \<Rightarrow> (nat \<Rightarrow> message_header outcome)
     \<Rightarrow> ('f, 'q, 'a) bus \<Rightarrow> (publisher \<times> ('f, 'q, 'a) bus) outcome" where
  "flush_headers F Q pb hdr w =
     and_then (flush_loop F Q pb hdr 0 (pending pb) w) (\<lambda>w'. Ret (pb\<lparr>pending := []\<rparr>, w'))"

definition flush ::
  "('f, nat) array_queue \<Rightarrow> ('q, ptr) array_queue \<Rightarrow> publisher \<Rightarrow> framework_time
     \<Rightarrow> ('f, 'q, 'a) bus \<Rightarrow> (publisher \<times> ('f, 'q, 'a) bus) outcome" where
  "flush F Q pb timestamp w =
     flush_headers F Q pb
       (\<lambda>i. and_then (batch_index i) (\<lambda>b. Ret (MessageHeader timestamp (publisher_index pb) b))) w"

definition publish_with_header ::
  "('f, nat) array_queue \<Rightarrow> ('q, ptr) array_queue \<Rightarrow> publisher \<Rightarrow> message_header \<Rightarrow> 'a
     \<Rightarrow> ('f, 'q, 'a) bus \<Rightarrow> (loan_error + publisher \<times> ('f, 'q, 'a) bus) outcome" where
  "publish_with_header F Q pb h v w =
     (if pending pb \<noteq> [] then Ret (Inl PendingBatchNotEmpty)
      else and_then (publish F pb w v) (\<lambda>r. case r of
        Inl e \<Rightarrow> Ret (Inl e)
      | Inr (pb', w') \<Rightarrow> and_then (flush_headers F Q pb' (\<lambda>_. Ret h) w') (\<lambda>x. Ret (Inr x))))"

section \<open>Invariant\<close>

text \<open>
  \<open>P\<close> is the multiset of the pointers held outside the subscribers: by pending batches, outputs
  and callbacks.
\<close>

definition sub_ptrs :: "('q \<Rightarrow> ptr list) \<Rightarrow> 'q subscriber \<Rightarrow> ptr multiset" where
  "sub_ptrs qitems s = mset (written qitems (sub_buffer s)) + mset (read_storage (sub_buffer s))"

definition bus_ptrs :: "('q \<Rightarrow> ptr list) \<Rightarrow> ('f, 'q, 'a) bus \<Rightarrow> ptr multiset" where
  "bus_ptrs qitems w = sum_list (map (sub_ptrs qitems) (subs w))"

definition bus_inv ::
  "('f, nat) array_queue \<Rightarrow> ('f \<Rightarrow> nat list) \<Rightarrow> ('f \<Rightarrow> bool) \<Rightarrow> ('q \<Rightarrow> ptr list) \<Rightarrow> ('q \<Rightarrow> bool)
     \<Rightarrow> ('f, 'q, 'a) bus \<Rightarrow> ptr multiset \<Rightarrow> ptr set \<Rightarrow> bool" where
  "bus_inv F fitems fvalid qitems qvalid w P U \<longleftrightarrow>
     (\<forall>s < length (subs w). buffer_inv qvalid (sub_buffer (subs w ! s)))
     \<and> store_inv F fitems fvalid (arenas w) (P + bus_ptrs qitems w) U"

lemma sum_list_replace:
  fixes f :: "'x \<Rightarrow> 'y :: comm_monoid_add"
  shows "i < length xs \<Longrightarrow> sum_list (map f xs) + f y = sum_list (map f (xs[i := y])) + f (xs ! i)"
  by (induction xs arbitrary: i) (auto simp: ac_simps split: nat.split)

lemma size_sum_list: "size (sum_list (map f xs)) = sum_list (map (\<lambda>x. size (f x)) xs)"
  for f :: "'x \<Rightarrow> 'y multiset"
  by (induction xs) auto

lemma bus_ptrs_set_buffer:
  "s < length (subs w) \<Longrightarrow>
     bus_ptrs qitems (set_buffer w s b) + sub_ptrs qitems (subs w ! s)
       = bus_ptrs qitems w + mset (written qitems b) + mset (read_storage b)"
  using sum_list_replace [of s "subs w" "sub_ptrs qitems" "(subs w ! s)\<lparr>sub_buffer := b\<rparr>"]
  by (simp add: bus_ptrs_def set_buffer_def sub_ptrs_def ac_simps)

lemma set_buffer_simps [simp]:
  "arenas (set_buffer w s b) = arenas w" "trace (set_buffer w s b) = trace w"
  "length (subs (set_buffer w s b)) = length (subs w)"
  by (simp_all add: set_buffer_def)

text \<open>A subscriber differs at most in its buffer.\<close>

definition same_config :: "'q subscriber \<Rightarrow> 'q subscriber \<Rightarrow> bool" where
  "same_config s t \<longleftrightarrow>
     sub_wake s = sub_wake t \<and> sub_policy s = sub_policy t \<and> sub_channel s = sub_channel t"

lemma subs_set_buffer:
  "s < length (subs w) \<Longrightarrow> subs (set_buffer w s b) ! t =
     (if t = s then (subs w ! s)\<lparr>sub_buffer := b\<rparr> else subs w ! t)"
  by (simp add: set_buffer_def nth_list_update)

text \<open>
  From \<open>w\<close> to \<open>w'\<close> every subscriber \<open>t\<close> has received the pointers \<open>f t\<close>, in this order, in its
  write buffer, which keeps the newest; nothing else about the subscribers has changed.
\<close>

definition delivered ::
  "('q, ptr) array_queue \<Rightarrow> ('q \<Rightarrow> ptr list) \<Rightarrow> ('f, 'q, 'a) bus \<Rightarrow> ('f, 'q, 'a) bus
     \<Rightarrow> (nat \<Rightarrow> ptr list) \<Rightarrow> bool" where
  "delivered Q qitems w w' f \<longleftrightarrow>
     length (subs w') = length (subs w) \<and>
     (\<forall>t < length (subs w).
        let b = sub_buffer (subs w ! t); b' = sub_buffer (subs w' ! t) in
        same_config (subs w' ! t) (subs w ! t)
        \<and> single_buffer_capacity Q b' = single_buffer_capacity Q b
        \<and> read_capacity b' = read_capacity b \<and> read_storage b' = read_storage b
        \<and> written qitems b' = keep_last (single_buffer_capacity Q b) (written qitems b @ f t))"

lemma delivered_trans:
  assumes "delivered Q qitems w w1 f" and "delivered Q qitems w1 w2 g"
  shows "delivered Q qitems w w2 (\<lambda>t. f t @ g t)"
  using assms by (auto simp: delivered_def Let_def same_config_def keep_last_keep_last_append)

lemma delivered_cong:
  "delivered Q qitems w w' f \<Longrightarrow> (\<And>t. t < length (subs w) \<Longrightarrow> f t = g t) \<Longrightarrow> delivered Q qitems w w' g"
  by (simp add: delivered_def Let_def)

text \<open>What the outside world sees of one published message.\<close>

definition publication :: "publisher \<Rightarrow> 'q subscriber list \<Rightarrow> 'a message \<Rightarrow> 'a bus_event list" where
  "publication pb ss m =
     map (\<lambda>ob. Observed ob m) (observers pb) @ concat (map (\<lambda>s. notification (ss ! s) s) (targets pb))"

text \<open>How many pointers all subscribers together have room for.\<close>

definition bus_room :: "('q, ptr) array_queue \<Rightarrow> ('f, 'q, 'a) bus \<Rightarrow> nat" where
  "bus_room Q w = sum_list (map (\<lambda>s. single_buffer_capacity Q (sub_buffer s)
     + read_capacity (sub_buffer s)) (subs w))"

lemma delivered_room: "delivered Q qitems w w' f \<Longrightarrow> bus_room Q w' = bus_room Q w"
  unfolding bus_room_def delivered_def Let_def
  by (intro arg_cong [where f = sum_list] nth_equalityI) auto

text \<open>A message with the identity that a flush at time \<open>ts\<close> gives to entry \<open>j\<close> of the batch.\<close>

definition stamped :: "publisher \<Rightarrow> framework_time \<Rightarrow> nat \<Rightarrow> 'a message \<Rightarrow> 'a message" where
  "stamped pb ts j m = m\<lparr>header := MessageHeader ts (publisher_index pb) (of_nat j)\<rparr>"

text \<open>The messages of a batch are distinct and nobody else points to them.\<close>

definition batch_exclusive ::
  "('q \<Rightarrow> ptr list) \<Rightarrow> ('f, 'q, 'a) bus \<Rightarrow> ptr multiset \<Rightarrow> publisher \<Rightarrow> bool" where
  "batch_exclusive qitems w P pb \<longleftrightarrow>
     distinct (pending pb) \<and> set (pending pb) \<inter> set_mset (P + bus_ptrs qitems w) = {}"

locale message_bus = fl: slot_queue F fitems fvalid + wq: bounded_queue Q qitems qvalid
  for F :: "('f, nat) array_queue" and fitems :: "'f \<Rightarrow> nat list" and fvalid :: "'f \<Rightarrow> bool"
    and Q :: "('q, ptr) array_queue" and qitems :: "'q \<Rightarrow> ptr list" and qvalid :: "'q \<Rightarrow> bool"
begin

text \<open>Replacing one buffer by another and dropping the pointers that only the old one had.\<close>

lemma replace_buffer_law:
  assumes inv: "bus_inv F fitems fvalid qitems qvalid w (P + N) U" and s: "s < length (subs w)"
    and b: "buffer_inv qvalid b"
    and bal: "mset (written qitems b) + mset (read_storage b) + mset ds
      = sub_ptrs qitems (subs w ! s) + N"
  shows "\<exists>as. release_dropped F (set_buffer w s b) ds = Ret (set_buffer w s b\<lparr>arenas := as\<rparr>)
    \<and> bus_inv F fitems fvalid qitems qvalid (set_buffer w s b\<lparr>arenas := as\<rparr>) P U
    \<and> length as = length (arenas w)
    \<and> bus_ptrs qitems (set_buffer w s b) \<subseteq># N + bus_ptrs qitems w
    \<and> (\<forall>q. q \<in># P + bus_ptrs qitems (set_buffer w s b) \<or> q \<in> U
         \<longrightarrow> payload_at as q = payload_at (arenas w) q)"
proof -
  have eq: "bus_ptrs qitems (set_buffer w s b) + mset ds = N + bus_ptrs qitems w"
  proof -
    have "bus_ptrs qitems (set_buffer w s b) + mset ds + sub_ptrs qitems (subs w ! s)
        = N + bus_ptrs qitems w + sub_ptrs qitems (subs w ! s)"
      using bus_ptrs_set_buffer [OF s, of qitems b] bal by (simp add: ac_simps)
    then show ?thesis by (simp add: ac_simps)
  qed
  then have all: "(P + bus_ptrs qitems (set_buffer w s b)) + mset ds = P + N + bus_ptrs qitems w"
    by (metis add.assoc)
  have "store_inv F fitems fvalid (arenas w) ((P + bus_ptrs qitems (set_buffer w s b)) + mset ds) U"
    using inv unfolding all bus_inv_def by blast
  from fl.store_release_all_law [OF this] obtain as where as:
    "store_release_all F (arenas w) ds = Ret as"
    "store_inv F fitems fvalid as (P + bus_ptrs qitems (set_buffer w s b)) U"
    "length as = length (arenas w)"
    "\<forall>q. q \<in># P + bus_ptrs qitems (set_buffer w s b) \<or> q \<in> U \<longrightarrow> payload_at as q = payload_at (arenas w) q"
    by blast
  have "buffer_inv qvalid (sub_buffer (subs (set_buffer w s b) ! t))" if "t < length (subs w)" for t
    using inv b that subs_set_buffer [OF s, of b t] by (simp add: bus_inv_def)
  moreover have "bus_ptrs qitems (set_buffer w s b) \<subseteq># N + bus_ptrs qitems w"
    unfolding eq [symmetric] by simp
  ultimately show ?thesis
    using as by (auto simp: release_dropped_def bus_inv_def bus_ptrs_def)
qed

lemma size_bus_ptrs_le:
  assumes "bus_inv F fitems fvalid qitems qvalid w P U"
  shows "size (bus_ptrs qitems w) \<le> bus_room Q w"
proof -
  have "size (sub_ptrs qitems s) \<le> single_buffer_capacity Q (sub_buffer s) + read_capacity (sub_buffer s)"
    if "s \<in> set (subs w)" for s
  proof -
    have "buffer_inv qvalid (sub_buffer s)"
      using that assms by (auto simp: bus_inv_def in_set_conv_nth)
    then have "length (written qitems (sub_buffer s)) \<le> single_buffer_capacity Q (sub_buffer s)"
      and "length (read_storage (sub_buffer s)) \<le> read_capacity (sub_buffer s)"
      using wq.mpsc.content_bound by (auto simp: buffer_inv_def written_def single_buffer_capacity_def)
    then show ?thesis by (simp add: sub_ptrs_def)
  qed
  moreover have "size (bus_ptrs qitems w) = sum_list (map (\<lambda>s. size (sub_ptrs qitems s)) (subs w))"
    by (simp add: bus_ptrs_def size_sum_list)
  ultimately show ?thesis
    unfolding bus_room_def by (simp add: sum_list_mono)
qed

lemma delivered_none:
  "bus_inv F fitems fvalid qitems qvalid w P U \<Longrightarrow> delivered Q qitems w w (\<lambda>_. [])"
  using wq.mpsc.content_bound
  by (auto simp: delivered_def Let_def same_config_def bus_inv_def buffer_inv_def written_def
      single_buffer_capacity_def keep_last_simps)

lemma subscriber_write_law:
  assumes inv: "bus_inv F fitems fvalid qitems qvalid w (add_mset p P) U" and s: "s < length (subs w)"
  shows "\<exists>w'. subscriber_write F Q w s p = Ret w' \<and> bus_inv F fitems fvalid qitems qvalid w' P U
    \<and> length (arenas w') = length (arenas w)
    \<and> trace w' = trace w @ notification (subs w ! s) s
    \<and> delivered Q qitems w w' (\<lambda>t. if t = s then [p] else [])
    \<and> bus_ptrs qitems w' \<subseteq># add_mset p (bus_ptrs qitems w)
    \<and> (\<forall>q. q \<in># P + bus_ptrs qitems w' \<or> q \<in> U \<longrightarrow> payload_at (arenas w') q = payload_at (arenas w) q)"
proof -
  let ?b = "sub_buffer (subs w ! s)"
  have b: "buffer_inv qvalid ?b"
    using inv s by (simp add: bus_inv_def)
  obtain d b' where d: "write_all Q ?b [p] = (d, b')" "buffer_inv qvalid b'"
    "written qitems b' = keep_last (single_buffer_capacity Q ?b) (written qitems ?b @ [p])"
    "d @ written qitems b' = written qitems ?b @ [p]"
    "read_storage b' = read_storage ?b" "read_capacity b' = read_capacity ?b"
    "single_buffer_capacity Q b' = single_buffer_capacity Q ?b"
    using wq.write_all_law [OF b, of "[p]"] by blast
  have wr: "write_buffer_write Q ?b p = (d, b')"
    using d(1) by (simp add: Let_def split: prod.splits)
  have "mset (written qitems b') + mset (read_storage b') + mset d = sub_ptrs qitems (subs w ! s) + {#p#}"
    using arg_cong [OF d(4), of mset] d(5) by (simp add: sub_ptrs_def ac_simps)
  with replace_buffer_law [of w P "{#p#}" U s b' d] inv s d(2) obtain as where as:
    "release_dropped F (set_buffer w s b') d = Ret (set_buffer w s b'\<lparr>arenas := as\<rparr>)"
    "bus_inv F fitems fvalid qitems qvalid (set_buffer w s b'\<lparr>arenas := as\<rparr>) P U"
    "length as = length (arenas w)"
    "bus_ptrs qitems (set_buffer w s b') \<subseteq># add_mset p (bus_ptrs qitems w)"
    "\<forall>q. q \<in># P + bus_ptrs qitems (set_buffer w s b') \<or> q \<in> U \<longrightarrow> payload_at as q = payload_at (arenas w) q"
    by auto
  let ?w = "set_buffer w s b'\<lparr>arenas := as, trace := trace w @ notification (subs w ! s) s\<rparr>"
  have run: "subscriber_write F Q w s p = Ret ?w"
    using wr as(1) by (simp add: subscriber_write_def)
  have inv': "bus_inv F fitems fvalid qitems qvalid ?w P U"
    using as(2) by (simp add: bus_inv_def bus_ptrs_def)
  have pl: "\<forall>q. q \<in># P + bus_ptrs qitems ?w \<or> q \<in> U \<longrightarrow> payload_at (arenas ?w) q = payload_at (arenas w) q"
    and sub: "bus_ptrs qitems ?w \<subseteq># add_mset p (bus_ptrs qitems w)"
    using as(4,5) by (simp_all add: bus_ptrs_def)
  have "delivered Q qitems w ?w (\<lambda>t. if t = s then [p] else [])"
    using delivered_none [OF inv] d subs_set_buffer [OF s, of b']
    by (auto simp: delivered_def Let_def same_config_def)
  then show ?thesis
    using run inv' pl sub as(3) by auto
qed

lemma fan_out_law:
  assumes "bus_inv F fitems fvalid qitems qvalid w (add_mset p P) U"
    and "set ss \<subseteq> {..<length (subs w)}"
    and "size P + bus_room Q w < usize_max div 2"
  shows "\<exists>w'. fan_out F Q p ss w = Ret w' \<and> bus_inv F fitems fvalid qitems qvalid w' (add_mset p P) U
    \<and> length (arenas w') = length (arenas w)
    \<and> trace w' = trace w @ concat (map (\<lambda>s. notification (subs w ! s) s) ss)
    \<and> delivered Q qitems w w' (\<lambda>t. replicate (count_list ss t) p)
    \<and> set_mset (bus_ptrs qitems w') \<subseteq> insert p (set_mset (bus_ptrs qitems w))
    \<and> (\<forall>q. q \<in># add_mset p P + bus_ptrs qitems w' \<or> q \<in> U
         \<longrightarrow> payload_at (arenas w') q = payload_at (arenas w) q)"
  using assms
proof (induction ss arbitrary: w)
  case Nil
  then show ?case using delivered_none [OF Nil.prems(1)] by auto
next
  case (Cons s ss)
  let ?M = "add_mset p P + bus_ptrs qitems w"
  have "count ?M p \<le> size ?M"
    by (rule count_le_size)
  then have small: "count ?M p \<le> usize_max div 2"
    using Cons.prems(3) size_bus_ptrs_le [OF Cons.prems(1)] by simp
  obtain as where as: "store_retain (arenas w) p = Ret as"
    "store_inv F fitems fvalid as (add_mset p ?M) U" "length as = length (arenas w)"
    "\<forall>q. payload_at as q = payload_at (arenas w) q"
    using fl.store_retain_law [of "arenas w" ?M U p] Cons.prems(1) small by (auto simp: bus_inv_def)
  let ?w = "w\<lparr>arenas := as\<rparr>"
  have "bus_inv F fitems fvalid qitems qvalid ?w (add_mset p (add_mset p P)) U"
    using as(2) Cons.prems(1) by (simp add: bus_inv_def bus_ptrs_def)
  from subscriber_write_law [OF this, of s] Cons.prems(2) obtain w1 where w1:
    "subscriber_write F Q ?w s p = Ret w1" "bus_inv F fitems fvalid qitems qvalid w1 (add_mset p P) U"
    "length (arenas w1) = length (arenas w)" "trace w1 = trace w @ notification (subs w ! s) s"
    "delivered Q qitems ?w w1 (\<lambda>t. if t = s then [p] else [])"
    "bus_ptrs qitems w1 \<subseteq># add_mset p (bus_ptrs qitems ?w)"
    "\<forall>q. q \<in># add_mset p P + bus_ptrs qitems w1 \<or> q \<in> U \<longrightarrow> payload_at (arenas w1) q = payload_at as q"
    using as(3) by auto
  have dw: "delivered Q qitems w w1 (\<lambda>t. if t = s then [p] else [])"
    using w1(5) by (simp add: delivered_def)
  have st: "set_mset (bus_ptrs qitems w1) \<subseteq> insert p (set_mset (bus_ptrs qitems w))"
    using set_mset_mono [OF w1(6)] by (simp add: bus_ptrs_def)
  have len: "length (subs w1) = length (subs w)"
    and cfg: "notification (subs w1 ! t) t = (notification (subs w ! t) t :: 'c bus_event list)"
      if "t < length (subs w)" for t
    using dw that by (auto simp: delivered_def Let_def same_config_def notification_def)
  obtain w2 where w2: "fan_out F Q p ss w1 = Ret w2" "bus_inv F fitems fvalid qitems qvalid w2 (add_mset p P) U"
    "length (arenas w2) = length (arenas w1)"
    "trace w2 = trace w1 @ concat (map (\<lambda>s. notification (subs w1 ! s) s) ss)"
    "delivered Q qitems w1 w2 (\<lambda>t. replicate (count_list ss t) p)"
    "set_mset (bus_ptrs qitems w2) \<subseteq> insert p (set_mset (bus_ptrs qitems w1))"
    "\<forall>q. q \<in># add_mset p P + bus_ptrs qitems w2 \<or> q \<in> U
         \<longrightarrow> payload_at (arenas w2) q = payload_at (arenas w1) q"
    using Cons.IH [OF w1(2)] Cons.prems(2,3) delivered_room [OF dw] len by auto
  have tr: "map (\<lambda>s. notification (subs w1 ! s) s) ss
      = (map (\<lambda>s. notification (subs w ! s) s) ss :: 'c bus_event list list)"
    using cfg Cons.prems(2) by auto
  have "delivered Q qitems w w2 (\<lambda>t. replicate (count_list (s # ss) t) p)"
    by (rule delivered_cong [OF delivered_trans [OF dw w2(5)]]) auto
  moreover have "\<forall>q. q \<in># add_mset p P + bus_ptrs qitems w2 \<or> q \<in> U
      \<longrightarrow> payload_at (arenas w2) q = payload_at (arenas w) q"
    using w2(6,7) w1(7) as(4) by auto
  moreover have "set_mset (bus_ptrs qitems w2) \<subseteq> insert p (set_mset (bus_ptrs qitems w))"
    using w2(6) st by auto
  ultimately show ?case
    using as(1) w1(1,3,4) w2(1,2,3,4) unfolding tr by simp
qed

lemma call_observers_law:
  assumes "bus_inv F fitems fvalid qitems qvalid w P U" and "p \<in># P" and "payload_at (arenas w) p = Some m"
  shows "call_observers pb p w = Ret (w\<lparr>trace := trace w @ map (\<lambda>ob. Observed ob m) (observers pb)\<rparr>)"
proof -
  have "store_read (arenas w) p = Ret m"
    using fl.store_read_law [of "arenas w" "P + bus_ptrs qitems w" U p] assms by (auto simp: bus_inv_def)
  then show ?thesis
    by (simp add: call_observers_def map_outcome_list_Ret [of _ _ "\<lambda>ob. Observed ob m"])
qed

lemma flush_one_law:
  fixes w :: "('f, 'q, 'c) bus"
  assumes inv: "bus_inv F fitems fvalid qitems qvalid w (add_mset p P) U"
    and t: "set (targets pb) \<subseteq> {..<length (subs w)}" and h: "hdr i = Ret h"
    and small: "size P + bus_room Q w < usize_max div 2"
  shows "\<exists>w' m. payload_at (arenas w) p = Some m \<and> flush_one F Q pb hdr i p w = Ret w'
    \<and> bus_inv F fitems fvalid qitems qvalid w' P U \<and> length (arenas w') = length (arenas w)
    \<and> trace w' = trace w @ publication pb (subs w) (m\<lparr>header := h\<rparr>)
    \<and> delivered Q qitems w w' (\<lambda>t. replicate (count_list (targets pb) t) p)
    \<and> set_mset (bus_ptrs qitems w') \<subseteq> insert p (set_mset (bus_ptrs qitems w))
    \<and> (\<forall>q. q \<in># P + bus_ptrs qitems w' \<or> q \<in> U
         \<longrightarrow> payload_at (arenas w') q = (if q = p then Some (m\<lparr>header := h\<rparr>) else payload_at (arenas w) q))"
proof -
  let ?M = "add_mset p P + bus_ptrs qitems w"
  obtain as m where as: "payload_at (arenas w) p = Some m" "store_stamp (arenas w) p h = Ret as"
    "store_inv F fitems fvalid as ?M U" "length as = length (arenas w)"
    "payload_at as p = Some (m\<lparr>header := h\<rparr>)"
    "\<forall>q. q \<noteq> p \<longrightarrow> payload_at as q = payload_at (arenas w) q"
    using fl.store_stamp_law [of "arenas w" ?M U p h] inv by (auto simp: bus_inv_def)
  let ?m = "m\<lparr>header := h\<rparr>" and ?w = "w\<lparr>arenas := as\<rparr>"
  let ?w1 = "?w\<lparr>trace := trace w @ map (\<lambda>ob. Observed ob ?m) (observers pb)\<rparr>"
  have inv1: "bus_inv F fitems fvalid qitems qvalid ?w (add_mset p P) U"
    and inv2: "bus_inv F fitems fvalid qitems qvalid ?w1 (add_mset p P) U"
    using as(3) inv by (simp_all add: bus_inv_def bus_ptrs_def)
  have obs: "call_observers pb p ?w = Ret ?w1"
    using call_observers_law [OF inv1, of p ?m] as(5) by simp
  have same: "bus_ptrs qitems ?w1 = bus_ptrs qitems w" "bus_room Q ?w1 = bus_room Q w"
    by (simp_all add: bus_ptrs_def bus_room_def)
  obtain w2 where w2: "fan_out F Q p (targets pb) ?w1 = Ret w2"
    "bus_inv F fitems fvalid qitems qvalid w2 (add_mset p P) U" "length (arenas w2) = length as"
    "trace w2 = trace ?w1 @ concat (map (\<lambda>s. notification (subs w ! s) s) (targets pb))"
    "delivered Q qitems ?w1 w2 (\<lambda>t. replicate (count_list (targets pb) t) p)"
    "set_mset (bus_ptrs qitems w2) \<subseteq> insert p (set_mset (bus_ptrs qitems w))"
    "\<forall>q. q \<in># add_mset p P + bus_ptrs qitems w2 \<or> q \<in> U \<longrightarrow> payload_at (arenas w2) q = payload_at as q"
    using fan_out_law [OF inv2, of "targets pb"] t small unfolding same by auto
  have "store_inv F fitems fvalid (arenas w2) ((P + bus_ptrs qitems w2) + mset [p]) U"
    using w2(2) by (simp add: bus_inv_def)
  from fl.store_release_all_law [OF this] obtain as3 where as3:
    "store_release_all F (arenas w2) [p] = Ret as3"
    "store_inv F fitems fvalid as3 (P + bus_ptrs qitems w2) U" "length as3 = length (arenas w2)"
    "\<forall>q. q \<in># P + bus_ptrs qitems w2 \<or> q \<in> U \<longrightarrow> payload_at as3 q = payload_at (arenas w2) q"
    by blast
  let ?w3 = "w2\<lparr>arenas := as3\<rparr>"
  have same3: "bus_ptrs qitems ?w3 = bus_ptrs qitems w2"
    by (simp add: bus_ptrs_def)
  have run: "flush_one F Q pb hdr i p w = Ret ?w3"
    using as(2) obs w2(1) as3(1) h by (simp add: flush_one_def release_dropped_def)
  have inv3: "bus_inv F fitems fvalid qitems qvalid ?w3 P U"
    using w2(2) as3(2) unfolding bus_inv_def same3 by simp
  have tr: "trace ?w3 = trace w @ publication pb (subs w) ?m"
    using w2(4) by (simp add: publication_def)
  have del: "delivered Q qitems w ?w3 (\<lambda>t. replicate (count_list (targets pb) t) p)"
    using w2(5) by (simp add: delivered_def)
  have pl: "payload_at as3 q = (if q = p then Some ?m else payload_at (arenas w) q)"
    if "q \<in># P + bus_ptrs qitems w2 \<or> q \<in> U" for q
    using that as3(4) w2(7) as(5,6) by auto
  show ?thesis
    using as(1,4) run inv3 tr del w2(3,6) as3(3) pl unfolding same3 [symmetric] by auto
qed

lemma flush_loop_law:
  fixes w :: "('f, 'q, 'c) bus"
  assumes "bus_inv F fitems fvalid qitems qvalid w (P + mset ps) U"
    and "distinct ps" and "set ps \<inter> set_mset (P + bus_ptrs qitems w) = {}" and "set ps \<inter> U = {}"
    and "set (targets pb) \<subseteq> {..<length (subs w)}"
    and "\<forall>j < length ps. hdr (i + j) = Ret (h (i + j))"
    and "size P + length ps + bus_room Q w < usize_max div 2"
  shows "\<exists>w'. flush_loop F Q pb hdr i ps w = Ret w' \<and> bus_inv F fitems fvalid qitems qvalid w' P U
    \<and> length (arenas w') = length (arenas w)
    \<and> trace w' = trace w @ concat (map2 (\<lambda>j p. publication pb (subs w)
          ((the (payload_at (arenas w) p))\<lparr>header := h j\<rparr>)) [i..<i + length ps] ps)
    \<and> delivered Q qitems w w' (\<lambda>t. concat (map (\<lambda>p. replicate (count_list (targets pb) t) p) ps))
    \<and> set_mset (bus_ptrs qitems w') \<subseteq> set ps \<union> set_mset (bus_ptrs qitems w)
    \<and> (\<forall>j < length ps. ps ! j \<in># bus_ptrs qitems w' \<longrightarrow>
         payload_at (arenas w') (ps ! j) = Some ((the (payload_at (arenas w) (ps ! j)))\<lparr>header := h (i + j)\<rparr>))
    \<and> (\<forall>q. q \<notin> set ps \<and> (q \<in># P + bus_ptrs qitems w' \<or> q \<in> U)
         \<longrightarrow> payload_at (arenas w') q = payload_at (arenas w) q)"
  using assms
proof (induction ps arbitrary: w i)
  case Nil
  then show ?case using delivered_none [OF Nil.prems(1)] by auto
next
  case (Cons p ps)
  have "bus_inv F fitems fvalid qitems qvalid w (add_mset p (P + mset ps)) U"
    using Cons.prems(1) by simp
  moreover have "size (P + mset ps) + bus_room Q w < usize_max div 2"
    using Cons.prems(7) by simp
  moreover have "hdr i = Ret (h i)"
    using Cons.prems(6) by force
  ultimately obtain w1 m where w1: "payload_at (arenas w) p = Some m"
    "flush_one F Q pb hdr i p w = Ret w1" "bus_inv F fitems fvalid qitems qvalid w1 (P + mset ps) U"
    "length (arenas w1) = length (arenas w)"
    "trace w1 = trace w @ publication pb (subs w) (m\<lparr>header := h i\<rparr>)"
    "delivered Q qitems w w1 (\<lambda>t. replicate (count_list (targets pb) t) p)"
    "set_mset (bus_ptrs qitems w1) \<subseteq> insert p (set_mset (bus_ptrs qitems w))"
    "\<forall>q. q \<in># P + mset ps + bus_ptrs qitems w1 \<or> q \<in> U
       \<longrightarrow> payload_at (arenas w1) q = (if q = p then Some (m\<lparr>header := h i\<rparr>) else payload_at (arenas w) q)"
    using flush_one_law [of w p "P + mset ps" U pb hdr i "h i"] Cons.prems(5) by blast
  have len: "length (subs w1) = length (subs w)"
    using w1(6) by (simp add: delivered_def)
  have pub: "publication pb (subs w1) m' = publication pb (subs w) m'" for m' :: "'c message"
    using w1(6) Cons.prems(5)
    by (auto simp: publication_def delivered_def Let_def same_config_def notification_def
        intro!: arg_cong [where f = concat] map_cong)
  have rest: "payload_at (arenas w1) q = payload_at (arenas w) q" if "q \<in> set ps" for q
    using w1(8) that Cons.prems(2) by auto
  have "set ps \<inter> set_mset (P + bus_ptrs qitems w1) = {}"
    using w1(7) Cons.prems(2,3) by auto
  moreover have "size P + length ps + bus_room Q w1 < usize_max div 2"
    using delivered_room [OF w1(6)] Cons.prems(7) by simp
  moreover have "\<forall>j < length ps. hdr (Suc i + j) = Ret (h (Suc i + j))"
    using Cons.prems(6) by (metis Suc_less_eq add_Suc_shift length_Cons)
  ultimately obtain w2 where w2: "flush_loop F Q pb hdr (Suc i) ps w1 = Ret w2"
    "bus_inv F fitems fvalid qitems qvalid w2 P U" "length (arenas w2) = length (arenas w1)"
    "trace w2 = trace w1 @ concat (map2 (\<lambda>j p. publication pb (subs w1)
          ((the (payload_at (arenas w1) p))\<lparr>header := h j\<rparr>)) [Suc i..<Suc i + length ps] ps)"
    "delivered Q qitems w1 w2 (\<lambda>t. concat (map (\<lambda>p. replicate (count_list (targets pb) t) p) ps))"
    "set_mset (bus_ptrs qitems w2) \<subseteq> set ps \<union> set_mset (bus_ptrs qitems w1)"
    "\<forall>j < length ps. ps ! j \<in># bus_ptrs qitems w2 \<longrightarrow>
       payload_at (arenas w2) (ps ! j) = Some ((the (payload_at (arenas w1) (ps ! j)))\<lparr>header := h (Suc i + j)\<rparr>)"
    "\<forall>q. q \<notin> set ps \<and> (q \<in># P + bus_ptrs qitems w2 \<or> q \<in> U)
       \<longrightarrow> payload_at (arenas w2) q = payload_at (arenas w1) q"
    using Cons.IH [OF w1(3), of "Suc i"] Cons.prems(2,4,5) len by auto
  have tr: "map2 (\<lambda>j p. publication pb (subs w1) ((the (payload_at (arenas w1) p))\<lparr>header := h j\<rparr>))
        [Suc i..<Suc i + length ps] ps
      = map2 (\<lambda>j p. publication pb (subs w) ((the (payload_at (arenas w) p))\<lparr>header := h j\<rparr>))
        [Suc i..<Suc i + length ps] ps"
    using rest by (auto simp: pub dest: set_zip_rightD)
  have upt: "[i..<i + length (p # ps)] = i # [Suc i..<Suc i + length ps]"
    using upt_conv_Cons [of i "i + length (p # ps)"] by (simp del: upt_Suc)
  have trace: "trace w2 = trace w @ concat (map2 (\<lambda>j p. publication pb (subs w)
        ((the (payload_at (arenas w) p))\<lparr>header := h j\<rparr>)) [i..<i + length (p # ps)] (p # ps))"
    unfolding upt using w2(4) w1(1,5) unfolding tr by simp
  have del: "delivered Q qitems w w2
      (\<lambda>t. concat (map (\<lambda>p. replicate (count_list (targets pb) t) p) (p # ps)))"
    using delivered_trans [OF w1(6) w2(5)] by simp
  have set2: "set_mset (bus_ptrs qitems w2) \<subseteq> set (p # ps) \<union> set_mset (bus_ptrs qitems w)"
    using w2(6) w1(7) by auto
  have old: "payload_at (arenas w2) q = payload_at (arenas w) q"
    if "q \<notin> set (p # ps)" "q \<in># P + bus_ptrs qitems w2 \<or> q \<in> U" for q
    using that w2(6,8) w1(8) by auto
  have new: "payload_at (arenas w2) ((p # ps) ! j) =
      Some ((the (payload_at (arenas w) ((p # ps) ! j)))\<lparr>header := h (i + j)\<rparr>)"
    if "j < length (p # ps)" "(p # ps) ! j \<in># bus_ptrs qitems w2" for j
  proof (cases j)
    case 0
    then show ?thesis
      using that w2(6,8) w1(1,8) Cons.prems(2) by auto
  next
    case (Suc k)
    then show ?thesis
      using that w2(7) rest by auto
  qed
  show ?case
    using w1(2,4) w2(1,2,3) trace del set2 old new by auto
qed

lemma allocate_output_law:
  fixes w :: "('f, 'q, 'c) bus"
  assumes inv: "bus_inv F fitems fvalid qitems qvalid w P U" and k: "k < length (arenas w)"
  defines "M \<equiv> P + bus_ptrs qitems w"
  shows "if card (set_mset (slots k M) \<union> slot_set k U) = length (storage (arenas w ! k))
    then allocate_output F w k = Ret (Inl ArenaExhausted)
    else \<exists>p w'. allocate_output F w k = Ret (Inr (p, w')) \<and> fst p = k \<and> p \<notin># M \<and> p \<notin> U
      \<and> bus_inv F fitems fvalid qitems qvalid w' P (insert p U)
      \<and> subs w' = subs w \<and> trace w' = trace w \<and> length (arenas w') = length (arenas w)
      \<and> (\<forall>q. payload_at (arenas w') q = payload_at (arenas w) q)"
proof -
  let ?a = "arenas w ! k"
  have st: "store_inv F fitems fvalid (arenas w) M U"
    using inv by (simp add: bus_inv_def M_def)
  then have a: "arena_inv F fitems fvalid ?a (slots k M) (slot_set k U)"
    using k by (simp add: store_inv_def)
  show ?thesis
  proof (cases "card (set_mset (slots k M) \<union> slot_set k U) = length (storage ?a)")
    case True
    then show ?thesis using fl.allocate_law [OF a] by (simp add: allocate_output_def)
  next
    case False
    then obtain i a' where a': "try_allocate_uninit F ?a = Ret (Some (i, a'))" "i \<notin># slots k M"
      "i \<notin> slot_set k U" "arena_inv F fitems fvalid a' (slots k M) (insert i (slot_set k U))"
      "\<forall>j. payload (storage a' ! j) = payload (storage ?a ! j)"
      using fl.allocate_law [OF a] by auto
    let ?w = "w\<lparr>arenas := (arenas w)[k := a']\<rparr>"
    have "store_inv F fitems fvalid ((arenas w)[k := a']) M (insert (k, i) U)"
      by (rule store_inv_update [OF st k]) (use a'(4) st k in \<open>auto simp: store_inv_def\<close>)
    then have "bus_inv F fitems fvalid qitems qvalid ?w P (insert (k, i) U)"
      using inv by (simp add: bus_inv_def M_def bus_ptrs_def)
    moreover have "payload_at ((arenas w)[k := a']) q = payload_at (arenas w) q" for q
      using a'(5) k by (cases "fst q = k") auto
    ultimately show ?thesis
      using False a' k by (auto simp: allocate_output_def slot_set_def)
  qed
qed

lemma output_write_law:
  fixes w :: "('f, 'q, 'c) bus"
  assumes inv: "bus_inv F fitems fvalid qitems qvalid w P U" and p: "p \<in> U"
  shows "\<exists>w'. output_write w p v = Ret w' \<and> bus_inv F fitems fvalid qitems qvalid w' (add_mset p P) (U - {p})
    \<and> subs w' = subs w \<and> trace w' = trace w \<and> length (arenas w') = length (arenas w)
    \<and> payload_at (arenas w') p = Some \<lparr>header = header_default, message_body = v\<rparr>
    \<and> (\<forall>q. q \<noteq> p \<longrightarrow> payload_at (arenas w') q = payload_at (arenas w) q)"
proof -
  let ?k = "fst p" and ?i = "snd p" and ?M = "P + bus_ptrs qitems w"
  let ?a = "payload_write (arenas w ! ?k) ?i \<lparr>header = header_default, message_body = v\<rparr>"
  have st: "store_inv F fitems fvalid (arenas w) ?M U"
    using inv by (simp add: bus_inv_def)
  then have k: "?k < length (arenas w)"
    and a: "arena_inv F fitems fvalid (arenas w ! ?k) (slots ?k ?M) (slot_set ?k U)"
    using p by (auto simp: store_inv_def)
  have i: "?i \<in> slot_set ?k U"
    using p by (simp add: slot_set_def)
  note wr = fl.payload_write_law [OF a i, of "\<lparr>header = header_default, message_body = v\<rparr>"]
  note ini = fl.assume_init_law [OF wr(1) i wr(2)]
  have "store_inv F fitems fvalid ((arenas w)[?k := ?a]) (add_mset p ?M) (U - {p})"
    by (rule store_inv_update [OF st k]) (use ini st p k in \<open>auto simp: store_inv_def\<close>)
  then have "bus_inv F fitems fvalid qitems qvalid (w\<lparr>arenas := (arenas w)[?k := ?a]\<rparr>) (add_mset p P) (U - {p})"
    using inv by (simp add: bus_inv_def bus_ptrs_def)
  moreover have "payload_at ((arenas w)[?k := ?a]) q = payload_at (arenas w) q" if "q \<noteq> p" for q
    using that k by (cases "fst q = ?k") (auto simp: payload_write_def prod_eq_iff)
  ultimately show ?thesis
    using ini wr(2) k by (auto simp: output_write_def)
qed

lemma loan_law:
  fixes w :: "('f, 'q, 'c) bus"
  assumes inv: "bus_inv F fitems fvalid qitems qvalid w P U" and k: "pub_arena pb < length (arenas w)"
  defines "M \<equiv> P + bus_ptrs qitems w" and "k \<equiv> pub_arena pb"
  shows "if loan_capacity pb \<le> length (pending pb)
    then loan F pb w v = Ret (Inl LoanCapacityReached)
    else if card (set_mset (slots k M) \<union> slot_set k U) = length (storage (arenas w ! k))
    then loan F pb w v = Ret (Inl ArenaExhausted)
    else \<exists>p w'. loan F pb w v = Ret (Inr (p, w')) \<and> fst p = k \<and> p \<notin># M \<and> p \<notin> U
      \<and> bus_inv F fitems fvalid qitems qvalid w' (add_mset p P) U
      \<and> subs w' = subs w \<and> trace w' = trace w \<and> length (arenas w') = length (arenas w)
      \<and> payload_at (arenas w') p = Some \<lparr>header = header_default, message_body = v\<rparr>
      \<and> (\<forall>q. q \<noteq> p \<longrightarrow> payload_at (arenas w') q = payload_at (arenas w) q)"
proof (cases "loan_capacity pb \<le> length (pending pb)")
  case True
  then show ?thesis by (simp add: loan_def loan_uninit_def)
next
  case room: False
  note alloc = allocate_output_law [OF inv k]
  show ?thesis
  proof (cases "card (set_mset (slots k M) \<union> slot_set k U) = length (storage (arenas w ! k))")
    case True
    then have "allocate_output F w k = Ret (Inl ArenaExhausted)"
      using alloc by (simp add: M_def k_def)
    with True room show ?thesis by (simp add: loan_def loan_uninit_def k_def)
  next
    case False
    then obtain p w1 where p: "allocate_output F w k = Ret (Inr (p, w1))" "fst p = k" "p \<notin># M" "p \<notin> U"
      "bus_inv F fitems fvalid qitems qvalid w1 P (insert p U)" "subs w1 = subs w" "trace w1 = trace w"
      "length (arenas w1) = length (arenas w)" "\<forall>q. payload_at (arenas w1) q = payload_at (arenas w) q"
      using alloc unfolding M_def k_def by auto
    from output_write_law [OF p(5), of p v] p(4) obtain w2 where w2: "output_write w1 p v = Ret w2"
      "bus_inv F fitems fvalid qitems qvalid w2 (add_mset p P) U" "subs w2 = subs w1" "trace w2 = trace w1"
      "length (arenas w2) = length (arenas w1)"
      "payload_at (arenas w2) p = Some \<lparr>header = header_default, message_body = v\<rparr>"
      "\<forall>q. q \<noteq> p \<longrightarrow> payload_at (arenas w2) q = payload_at (arenas w1) q"
      by auto
    show ?thesis
      using room False p w2 by (auto simp: loan_def loan_uninit_def k_def)
  qed
qed

lemma publish_law:
  fixes w :: "('f, 'q, 'c) bus"
  assumes inv: "bus_inv F fitems fvalid qitems qvalid w (P + mset (pending pb)) U"
    and ex: "batch_exclusive qitems w P pb" and k: "pub_arena pb < length (arenas w)"
  defines "M \<equiv> P + mset (pending pb) + bus_ptrs qitems w" and "k \<equiv> pub_arena pb"
  shows "if loan_capacity pb \<le> length (pending pb) then publish F pb w v = Ret (Inl LoanCapacityReached)
    else if card (set_mset (slots k M) \<union> slot_set k U) = length (storage (arenas w ! k))
    then publish F pb w v = Ret (Inl ArenaExhausted)
    else \<exists>p w'. publish F pb w v = Ret (Inr (output_send pb p, w')) \<and> fst p = k \<and> p \<notin># M
      \<and> bus_inv F fitems fvalid qitems qvalid w' (P + mset (pending pb @ [p])) U
      \<and> batch_exclusive qitems w' P (output_send pb p)
      \<and> subs w' = subs w \<and> trace w' = trace w
      \<and> store_read (arenas w') p = Ret \<lparr>header = header_default, message_body = v\<rparr>
      \<and> (\<forall>q \<in># M. store_read (arenas w') q = store_read (arenas w) q)"
proof -
  note l = loan_law [OF inv k, of v]
  consider "loan_capacity pb \<le> length (pending pb)"
    | "\<not> loan_capacity pb \<le> length (pending pb)"
      "card (set_mset (slots k M) \<union> slot_set k U) = length (storage (arenas w ! k))"
    | "\<not> loan_capacity pb \<le> length (pending pb)"
      "card (set_mset (slots k M) \<union> slot_set k U) \<noteq> length (storage (arenas w ! k))" by blast
  then show ?thesis
  proof cases
    case 3
    then obtain p w' where p: "loan F pb w v = Ret (Inr (p, w'))" "fst p = k" "p \<notin># M" "p \<notin> U"
      "bus_inv F fitems fvalid qitems qvalid w' (add_mset p (P + mset (pending pb))) U"
      "subs w' = subs w" "trace w' = trace w" "length (arenas w') = length (arenas w)"
      "payload_at (arenas w') p = Some \<lparr>header = header_default, message_body = v\<rparr>"
      "\<forall>q. q \<noteq> p \<longrightarrow> payload_at (arenas w') q = payload_at (arenas w) q"
      using l unfolding k_def M_def by auto
    have bp: "bus_ptrs qitems w' = bus_ptrs qitems w"
      using p(6) by (simp add: bus_ptrs_def)
    have M: "store_inv F fitems fvalid (arenas w) M U"
      and M': "store_inv F fitems fvalid (arenas w') (add_mset p M) U"
      using inv p(5) by (simp_all add: bus_inv_def bp M_def)
    have "store_read (arenas w') q = store_read (arenas w) q" if "q \<in># M" for q
    proof -
      have "q \<noteq> p" using that p(3) by blast
      then have "payload_at (arenas w') q = payload_at (arenas w) q" using p(10) by blast
      then show ?thesis
        using fl.store_read_law [OF M that] fl.store_read_law [OF M', of q] that by auto
    qed
    moreover have "store_read (arenas w') p = Ret \<lparr>header = header_default, message_body = v\<rparr>"
      using fl.store_read_law [OF M', of p] p(9) by auto
    moreover have "batch_exclusive qitems w' P (output_send pb p)"
      using ex p(3) by (auto simp: batch_exclusive_def output_send_def bp M_def)
    moreover have "publish F pb w v = Ret (Inr (output_send pb p, w'))"
      using p(1) by (simp add: publish_def)
    moreover have "bus_inv F fitems fvalid qitems qvalid w' (P + mset (pending pb @ [p])) U"
      using p(5) by simp
    ultimately have "\<exists>p w'. publish F pb w v = Ret (Inr (output_send pb p, w')) \<and> fst p = k \<and> p \<notin># M
      \<and> bus_inv F fitems fvalid qitems qvalid w' (P + mset (pending pb @ [p])) U
      \<and> batch_exclusive qitems w' P (output_send pb p)
      \<and> subs w' = subs w \<and> trace w' = trace w
      \<and> store_read (arenas w') p = Ret \<lparr>header = header_default, message_body = v\<rparr>
      \<and> (\<forall>q \<in># M. store_read (arenas w') q = store_read (arenas w) q)"
      using p(2,3,6,7) by blast
    then show ?thesis using 3 by simp
  qed (use l in \<open>auto simp: publish_def k_def M_def\<close>)
qed

lemma flush_law:
  fixes w :: "('f, 'q, 'c) bus"
  assumes inv: "bus_inv F fitems fvalid qitems qvalid w (P + mset (pending pb)) U"
    and ex: "batch_exclusive qitems w P pb"
    and t: "set (targets pb) \<subseteq> {..<length (subs w)}" and len: "length (pending pb) \<le> u32_max"
    and small: "size P + length (pending pb) + bus_room Q w < usize_max div 2"
  shows "\<exists>w' ms. flush F Q pb ts w = Ret (pb\<lparr>pending := []\<rparr>, w')
    \<and> bus_inv F fitems fvalid qitems qvalid w' P U
    \<and> length ms = length (pending pb)
    \<and> (\<forall>j < length ms. store_read (arenas w) (pending pb ! j) = Ret (ms ! j))
    \<and> delivered Q qitems w w' (\<lambda>t. concat (map (replicate (count_list (targets pb) t)) (pending pb)))
    \<and> set_mset (bus_ptrs qitems w') \<subseteq> set (pending pb) \<union> set_mset (bus_ptrs qitems w)
    \<and> (\<forall>j < length ms. pending pb ! j \<in># bus_ptrs qitems w' \<longrightarrow>
         store_read (arenas w') (pending pb ! j) = Ret (stamped pb ts j (ms ! j)))
    \<and> (\<forall>q \<in># P. store_read (arenas w') q = store_read (arenas w) q)
    \<and> trace w' = trace w
        @ concat (map (\<lambda>j. publication pb (subs w) (stamped pb ts j (ms ! j))) [0..<length ms])"
proof -
  let ?ps = "pending pb" and ?h = "\<lambda>j. MessageHeader ts (publisher_index pb) (of_nat j)"
  let ?hdr = "\<lambda>i. and_then (batch_index i) (\<lambda>b. Ret (MessageHeader ts (publisher_index pb) b))"
  let ?M = "P + mset ?ps + bus_ptrs qitems w"
  have st: "store_inv F fitems fvalid (arenas w) ?M U"
    using inv by (simp add: bus_inv_def)
  have "set ?ps \<inter> U = {}"
  proof -
    have "p \<notin> U" if "p \<in> set ?ps" for p
    proof -
      have "arena_inv F fitems fvalid (arenas w ! fst p) (slots (fst p) ?M) (slot_set (fst p) U)"
        and "p \<in># ?M"
        using st that by (auto simp: store_inv_def)
      then show ?thesis
        using inv_bounds(3) [of F fitems fvalid _ "slots (fst p) ?M" "slot_set (fst p) U" "snd p"]
        by (auto simp: slot_set_def)
    qed
    then show ?thesis by blast
  qed
  moreover have "\<forall>j < length ?ps. ?hdr (0 + j) = Ret (?h (0 + j))"
    using len by (simp add: batch_index_def checked_u32_def)
  ultimately obtain w' where w': "flush_loop F Q pb ?hdr 0 ?ps w = Ret w'"
    "bus_inv F fitems fvalid qitems qvalid w' P U"
    "trace w' = trace w @ concat (map2 (\<lambda>j p. publication pb (subs w)
          ((the (payload_at (arenas w) p))\<lparr>header := ?h j\<rparr>)) [0..<0 + length ?ps] ?ps)"
    "delivered Q qitems w w' (\<lambda>t. concat (map (\<lambda>p. replicate (count_list (targets pb) t) p) ?ps))"
    "set_mset (bus_ptrs qitems w') \<subseteq> set ?ps \<union> set_mset (bus_ptrs qitems w)"
    "\<forall>j < length ?ps. ?ps ! j \<in># bus_ptrs qitems w' \<longrightarrow>
         payload_at (arenas w') (?ps ! j) = Some ((the (payload_at (arenas w) (?ps ! j)))\<lparr>header := ?h (0 + j)\<rparr>)"
    "\<forall>q. q \<notin> set ?ps \<and> (q \<in># P + bus_ptrs qitems w' \<or> q \<in> U)
         \<longrightarrow> payload_at (arenas w') q = payload_at (arenas w) q"
    using flush_loop_law [OF inv, of pb ?hdr 0 ?h] ex t small unfolding batch_exclusive_def by blast
  let ?ms = "map (\<lambda>p. the (payload_at (arenas w) p)) ?ps"
  have st': "store_inv F fitems fvalid (arenas w') (P + bus_ptrs qitems w') U"
    using w'(2) by (simp add: bus_inv_def)
  have "store_read (arenas w) (?ps ! j) = Ret (?ms ! j)" if "j < length ?ps" for j
    using fl.store_read_law [OF st, of "?ps ! j"] that by auto
  moreover have "store_read (arenas w') (?ps ! j) = Ret (stamped pb ts j (?ms ! j))"
    if "j < length ?ps" "?ps ! j \<in># bus_ptrs qitems w'" for j
    using fl.store_read_law [OF st', of "?ps ! j"] that w'(6) by (auto simp: stamped_def)
  moreover have "store_read (arenas w') q = store_read (arenas w) q" if "q \<in># P" for q
  proof -
    have "q \<notin> set ?ps"
      using ex that by (auto simp: batch_exclusive_def)
    then show ?thesis
      using fl.store_read_law [OF st, of q] fl.store_read_law [OF st', of q] that w'(7) by auto
  qed
  moreover have "map2 (\<lambda>j p. publication pb (subs w) ((the (payload_at (arenas w) p))\<lparr>header := ?h j\<rparr>))
        [0..<0 + length ?ps] ?ps
      = map (\<lambda>j. publication pb (subs w) (stamped pb ts j (?ms ! j))) [0..<length ?ms]"
    by (rule nth_equalityI) (auto simp: stamped_def)
  moreover have "flush F Q pb ts w = Ret (pb\<lparr>pending := []\<rparr>, w')"
    using w'(1) by (simp add: flush_def flush_headers_def)
  ultimately show ?thesis
    using w'(2,3,4,5) by (intro exI [of _ w'] exI [of _ ?ms]) auto
qed

end

interpretation lqb: message_bus list_array_queue lq_items lq_valid list_array_queue lq_items lq_valid
  by unfold_locales

section \<open>Properties\<close>

text \<open>
  Publishing a value, on every branch. In a consistent state the call never panics: it is
  refused when the batch has reached the loan capacity, refused when every slot of the publisher's
  arena is in use, and otherwise appends to the batch a slot that nothing else refers to and that
  holds the value; every other message keeps its content, the state stays consistent and the new
  batch is exclusive to its publisher.
\<close>

theorem publish_cases:
  assumes "bounded_queue F fitems fvalid" and "bounded_queue Q qitems qvalid"
    and "bus_inv F fitems fvalid qitems qvalid w (P + mset (pending pb)) U"
    and "batch_exclusive qitems w P pb" and "pub_arena pb < length (arenas w)"
    and "M = P + mset (pending pb) + bus_ptrs qitems w" and "k = pub_arena pb"
  shows "if loan_capacity pb \<le> length (pending pb) then publish F pb w v = Ret (Inl LoanCapacityReached)
    else if card (set_mset (slots k M) \<union> slot_set k U) = length (storage (arenas w ! k))
    then publish F pb w v = Ret (Inl ArenaExhausted)
    else \<exists>p w'. publish F pb w v = Ret (Inr (output_send pb p, w')) \<and> fst p = k \<and> p \<notin># M
      \<and> bus_inv F fitems fvalid qitems qvalid w' (P + mset (pending pb @ [p])) U
      \<and> batch_exclusive qitems w' P (output_send pb p)
      \<and> subs w' = subs w \<and> trace w' = trace w
      \<and> store_read (arenas w') p = Ret \<lparr>header = header_default, message_body = v\<rparr>
      \<and> (\<forall>q \<in># M. store_read (arenas w') q = store_read (arenas w) q)"
proof -
  have mb: "message_bus F fitems fvalid Q qitems qvalid"
    using assms(1,2) by (intro message_bus.intro slot_queue.intro)
  show ?thesis
    using message_bus.publish_law [OF mb assms(3-5), of v] unfolding assms(6,7) .
qed

text \<open>A bus with one arena of two slots and one triggering subscriber of capacity one.\<close>

definition sample_bus :: "(nat list_queue, ptr list_queue, nat) bus" where
  "sample_bus = \<lparr>
     arenas = [\<lparr>arena_capacity = 2,
       storage = [\<lparr>ref_count = 0, payload = None\<rparr>, \<lparr>ref_count = 0, payload = None\<rparr>],
       free_list = \<lparr>lq_capacity = 2, lq_items = [0, 1]\<rparr>\<rparr>],
     subs = [\<lparr>sub_buffer = \<lparr>write_queue = \<lparr>inner = \<lparr>lq_capacity = 1, lq_items = []\<rparr>, dropped = 0\<rparr>,
         read_storage = [], read_capacity = 1, read_drops = 0\<rparr>,
       sub_channel = ''c'', sub_wake = True, sub_policy = \<lparr>trigger = True, keep_across_runs = False\<rparr>\<rparr>],
     trace = []\<rparr>"

definition sample_publisher :: publisher where
  "sample_publisher = \<lparr>pub_arena = 0, loan_capacity = 1, pending = [], targets = [0],
     pub_channel = ''c'', publisher_index = 3, observers = [9]\<rparr>"

lemma sample_bus_inv:
  "bus_inv list_array_queue lq_items lq_valid lq_items lq_valid sample_bus {#} {}"
  by (simp add: bus_inv_def sample_bus_def store_inv_def arena_inv_def bus_ptrs_def sub_ptrs_def
      written_def buffer_inv_def lq_valid_def nth_Cons split: nat.split) auto

lemma sample_exclusive:
  "batch_exclusive lq_items sample_bus {#} sample_publisher"
  by (simp add: batch_exclusive_def sample_publisher_def)

theorem publish_cases_witness:
  "\<exists>p w'. publish list_array_queue sample_publisher sample_bus 5 = Ret (Inr (output_send sample_publisher p, w'))
     \<and> store_read (arenas w') p = Ret \<lparr>header = header_default, message_body = 5\<rparr>"
proof -
  have "bus_inv list_array_queue lq_items lq_valid lq_items lq_valid sample_bus
      ({#} + mset (pending sample_publisher)) {}"
    using sample_bus_inv by (simp add: sample_publisher_def)
  from publish_cases [OF lq.bounded_queue_axioms lq.bounded_queue_axioms this sample_exclusive _ refl refl, of 5]
  show ?thesis
    by (auto simp: sample_publisher_def sample_bus_def bus_ptrs_def sub_ptrs_def written_def slots_def)
qed

text \<open>
  C9: Flushing a batch delivers it. At a consistent state the call returns, whatever the queues
  contain: every subscriber receives, once per connection, each message of the batch in send order,
  its write buffer keeping the newest; every delivered message carries the flush time, the
  publisher's index and its position in the batch and is otherwise unchanged; messages held
  elsewhere keep their content; and the observers of a message are called with the stamped message
  before its subscribers are notified, in the order of connection. The batch is empty afterwards
  and the state consistent, so no pointer is lost or released twice.
\<close>

theorem flush_delivers:
  assumes "bounded_queue F fitems fvalid" and "bounded_queue Q qitems qvalid"
    and "bus_inv F fitems fvalid qitems qvalid w (P + mset (pending pb)) U"
    and "batch_exclusive qitems w P pb"
    and "set (targets pb) \<subseteq> {..<length (subs w)}" and "length (pending pb) \<le> u32_max"
    and "size P + length (pending pb) + bus_room Q w < usize_max div 2"
  shows "\<exists>w' ms. flush F Q pb ts w = Ret (pb\<lparr>pending := []\<rparr>, w')
    \<and> bus_inv F fitems fvalid qitems qvalid w' P U
    \<and> length ms = length (pending pb)
    \<and> (\<forall>j < length ms. store_read (arenas w) (pending pb ! j) = Ret (ms ! j))
    \<and> delivered Q qitems w w' (\<lambda>t. concat (map (replicate (count_list (targets pb) t)) (pending pb)))
    \<and> set_mset (bus_ptrs qitems w') \<subseteq> set (pending pb) \<union> set_mset (bus_ptrs qitems w)
    \<and> (\<forall>j < length ms. pending pb ! j \<in># bus_ptrs qitems w' \<longrightarrow>
         store_read (arenas w') (pending pb ! j) = Ret (stamped pb ts j (ms ! j)))
    \<and> (\<forall>q \<in># P. store_read (arenas w') q = store_read (arenas w) q)
    \<and> trace w' = trace w
        @ concat (map (\<lambda>j. publication pb (subs w) (stamped pb ts j (ms ! j))) [0..<length ms])"
proof -
  have mb: "message_bus F fitems fvalid Q qitems qvalid"
    using assms(1,2) by (intro message_bus.intro slot_queue.intro)
  show ?thesis
    using message_bus.flush_law [OF mb assms(3-7)] .
qed

theorem flush_delivers_witness:
  "\<exists>p w1 w2. publish list_array_queue sample_publisher sample_bus 5
       = Ret (Inr (output_send sample_publisher p, w1))
     \<and> flush list_array_queue list_array_queue (output_send sample_publisher p) (from_nanos 7) w1
       = Ret (sample_publisher, w2)
     \<and> trace w2 = [Observed 9 \<lparr>header = MessageHeader (from_nanos 7) 3 0, message_body = 5\<rparr>, Woken 0]"
proof -
  let ?pb = sample_publisher
  have "bus_inv list_array_queue lq_items lq_valid lq_items lq_valid sample_bus ({#} + mset (pending ?pb)) {}"
    using sample_bus_inv by (simp add: sample_publisher_def)
  from lqb.publish_law [OF this sample_exclusive, of 5] obtain p w1 where p:
    "publish list_array_queue ?pb sample_bus 5 = Ret (Inr (output_send ?pb p, w1))"
    "bus_inv list_array_queue lq_items lq_valid lq_items lq_valid w1 ({#} + mset (pending ?pb @ [p])) {}"
    "batch_exclusive lq_items w1 {#} (output_send ?pb p)" "subs w1 = subs sample_bus" "trace w1 = []"
    "store_read (arenas w1) p = Ret \<lparr>header = header_default, message_body = 5\<rparr>"
    by (auto simp: sample_publisher_def sample_bus_def bus_ptrs_def sub_ptrs_def written_def slots_def)
  have "\<exists>w' ms. flush list_array_queue list_array_queue (output_send ?pb p) (from_nanos 7) w1
      = Ret ((output_send ?pb p)\<lparr>pending := []\<rparr>, w')
    \<and> length ms = 1 \<and> store_read (arenas w1) p = Ret (ms ! 0)
    \<and> trace w' = trace w1 @ publication (output_send ?pb p) (subs w1)
        (stamped (output_send ?pb p) (from_nanos 7) 0 (ms ! 0))"
    using flush_delivers [OF lq.bounded_queue_axioms lq.bounded_queue_axioms _ p(3),
        where U = "{}" and ts = "from_nanos 7"] p(2,4)
    by (auto simp: output_send_def sample_publisher_def sample_bus_def bus_ptrs_def sub_ptrs_def
        written_def u32_max_def usize_max_def bus_room_def single_buffer_capacity_def mpsc_capacity_def)
  then obtain w2 ms where w2:
    "flush list_array_queue list_array_queue (output_send ?pb p) (from_nanos 7) w1
      = Ret ((output_send ?pb p)\<lparr>pending := []\<rparr>, w2)"
    "store_read (arenas w1) p = Ret (ms ! 0)"
    "trace w2 = trace w1 @ publication (output_send ?pb p) (subs w1)
        (stamped (output_send ?pb p) (from_nanos 7) 0 (ms ! 0))"
    by blast
  have "(output_send ?pb p)\<lparr>pending := []\<rparr> = ?pb"
    by (simp add: output_send_def sample_publisher_def)
  moreover have ms: "ms ! 0 = \<lparr>header = header_default, message_body = 5\<rparr>"
    using w2(2) p(6) by simp
  have "trace w2 = [Observed 9 \<lparr>header = MessageHeader (from_nanos 7) 3 0, message_body = 5\<rparr>, Woken 0]"
    using w2(3) p(4,5) ms
    by (simp add: output_send_def sample_publisher_def sample_bus_def publication_def stamped_def
        notification_def)
  ultimately show ?thesis
    using p(1) w2(1) by (intro exI [of _ p] exI [of _ w1] exI [of _ w2]) simp
qed

end
