(* ===== verification/Channel_Plan.thy ===== *)
theory Channel_Plan
  imports Message_Bus
begin

text \<open>
  \<open>task/src/storage.rs\<close> and \<open>task/src/channel.rs\<close>: how much storage a publisher needs, the
  declaration of a channel's endpoints, their validation, the allocation of one arena per publisher
  and the binding of endpoints to the storage. Sizes are natural numbers; every addition and
  multiplication that the code checks for overflow is checked against the range of \<open>usize\<close> here.
\<close>

section \<open>Storage of one publisher\<close>

datatype storage_error =
  ZeroSubscriberCapacity
| CapacityOverflow
| ForeignPublisherKey
| InvalidPublisherIndex nat
| InvalidConnection string
| TransportError string

record storage_plan =
  plan_loan :: nat
  plan_subscribers :: "nat list"
  plan_retained :: nat

definition storage_plan_new :: "nat \<Rightarrow> storage_plan" where
  "storage_plan_new capacity = \<lparr>plan_loan = capacity, plan_subscribers = [], plan_retained = 0\<rparr>"

definition with_subscriber :: "storage_plan \<Rightarrow> nat \<Rightarrow> storage_plan" where
  "with_subscriber pl capacity = pl\<lparr>plan_subscribers := plan_subscribers pl @ [capacity]\<rparr>"

definition with_retained_capacity :: "storage_plan \<Rightarrow> nat \<Rightarrow> storage_plan" where
  "with_retained_capacity pl capacity = pl\<lparr>plan_retained := capacity\<rparr>"

fun ok_or :: "'a option \<Rightarrow> 'e \<Rightarrow> 'e + 'a" where
  "ok_or None e = Inl e"
| "ok_or (Some x) e = Inr x"

fun try_bind :: "'e + 'a \<Rightarrow> ('a \<Rightarrow> 'e + 'b) \<Rightarrow> 'e + 'b" where
  "try_bind (Inl e) f = Inl e"
| "try_bind (Inr x) f = f x"

fun add_footprints :: "nat \<Rightarrow> nat list \<Rightarrow> storage_error + nat" where
  "add_footprints tot [] = Inr tot"
| "add_footprints tot (c # cs) =
     (if c = 0 then Inl ZeroSubscriberCapacity
      else try_bind (ok_or (Option.bind (checked_usize (c * 2)) (\<lambda>n. checked_usize (n + 1))) CapacityOverflow)
        (\<lambda>footprint. try_bind (ok_or (checked_usize (tot + footprint)) CapacityOverflow)
          (\<lambda>tot'. add_footprints tot' cs)))"

definition plan_capacity :: "storage_plan \<Rightarrow> storage_error + nat" where
  "plan_capacity pl =
     (if checked_u32 (plan_loan pl) = None then Inl CapacityOverflow
      else try_bind (ok_or (checked_usize (plan_loan pl + plan_retained pl)) CapacityOverflow)
        (\<lambda>tot. add_footprints tot (plan_subscribers pl)))"

record ('f, 'a) publisher_storage =
  ps_arena :: "('f, 'a message) arena"
  ps_loan :: nat

definition plan_allocate ::
  "('f, nat) array_queue \<Rightarrow> storage_plan \<Rightarrow> (storage_error + ('f, 'a) publisher_storage) outcome" where
  "plan_allocate F pl =
     (case plan_capacity pl of
        Inl e \<Rightarrow> Ret (Inl e)
      | Inr c \<Rightarrow> and_then (arena_new F c) (\<lambda>a. Ret (Inr \<lparr>ps_arena = a, ps_loan = plan_loan pl\<rparr>)))"

definition ps_capacity :: "('f, 'a) publisher_storage \<Rightarrow> nat" where
  "ps_capacity st = arena_capacity (ps_arena st)"

section \<open>Channel declarations\<close>

record key =
  key_channel :: string
  key_index :: nat

record publisher_spec =
  spec_loan :: nat
  spec_retained :: nat

record subscriber_spec =
  spec_capacity :: nat
  spec_policy :: subscriber_policy
  spec_sources :: "nat list option"

record channel_plan =
  forwarding_retention :: nat
  cp_name :: string
  cp_publishers :: "publisher_spec list"
  cp_subscribers :: "subscriber_spec list"

text \<open>\<open>Transport\<close> is declared in \<open>task/src/execution_log_schema.rs\<close>; a plan's channels are native.\<close>

datatype transport = Native | Iox2Data | Iox2Event

record channel_topology =
  topo_retention :: nat
  topo_name :: string
  topo_payload_type :: string
  topo_transport :: transport
  topo_publishers :: "nat list"
  topo_subscribers :: "nat list"
  topo_sources :: "nat list option list"

definition channel_plan_new :: "string \<Rightarrow> channel_plan" where
  "channel_plan_new name =
     \<lparr>forwarding_retention = 0, cp_name = name, cp_publishers = [], cp_subscribers = []\<rparr>"

definition topology :: "string \<Rightarrow> channel_plan \<Rightarrow> channel_topology" where
  "topology payload_type cp =
     \<lparr>topo_retention = forwarding_retention cp, topo_name = cp_name cp,
      topo_payload_type = payload_type, topo_transport = Native,
      topo_publishers = map spec_loan (cp_publishers cp),
      topo_subscribers = map spec_capacity (cp_subscribers cp),
      topo_sources = map spec_sources (cp_subscribers cp)\<rparr>"

definition publisher_key :: "channel_plan \<Rightarrow> nat \<Rightarrow> key outcome" where
  "publisher_key cp index =
     (if index < length (cp_publishers cp) then Ret \<lparr>key_channel = cp_name cp, key_index = index\<rparr>
      else Panic)"

definition subscriber_key :: "channel_plan \<Rightarrow> nat \<Rightarrow> key outcome" where
  "subscriber_key cp index =
     (if index < length (cp_subscribers cp) then Ret \<lparr>key_channel = cp_name cp, key_index = index\<rparr>
      else Panic)"

definition declare_publisher :: "channel_plan \<Rightarrow> nat \<Rightarrow> key \<times> channel_plan" where
  "declare_publisher cp capacity =
     (\<lparr>key_channel = cp_name cp, key_index = length (cp_publishers cp)\<rparr>,
      cp\<lparr>cp_publishers := cp_publishers cp @ [\<lparr>spec_loan = capacity, spec_retained = 0\<rparr>]\<rparr>)"

definition declare_subscriber_with_policy ::
  "channel_plan \<Rightarrow> nat \<Rightarrow> subscriber_policy \<Rightarrow> key \<times> channel_plan" where
  "declare_subscriber_with_policy cp capacity policy =
     (\<lparr>key_channel = cp_name cp, key_index = length (cp_subscribers cp)\<rparr>,
      cp\<lparr>cp_subscribers := cp_subscribers cp
          @ [\<lparr>spec_capacity = capacity, spec_policy = policy, spec_sources = None\<rparr>]\<rparr>)"

definition declare_subscriber :: "channel_plan \<Rightarrow> nat \<Rightarrow> key \<times> channel_plan" where
  "declare_subscriber cp capacity = declare_subscriber_with_policy cp capacity policy_default"

definition reserve_retained :: "channel_plan \<Rightarrow> key \<Rightarrow> nat \<Rightarrow> storage_error + channel_plan" where
  "reserve_retained cp publisher additional =
     (if cp_name cp \<noteq> key_channel publisher then Inl ForeignPublisherKey
      else if length (cp_publishers cp) \<le> key_index publisher
      then Inl (InvalidPublisherIndex (key_index publisher))
      else let spec = cp_publishers cp ! key_index publisher in
        try_bind (ok_or (checked_usize (spec_retained spec + additional)) CapacityOverflow)
          (\<lambda>r. Inr (cp\<lparr>cp_publishers := (cp_publishers cp)[key_index publisher := spec\<lparr>spec_retained := r\<rparr>]\<rparr>)))"

fun check_sources :: "channel_plan \<Rightarrow> key list \<Rightarrow> storage_error + unit" where
  "check_sources cp [] = Inr ()"
| "check_sources cp (k # ks) =
     (if key_channel k \<noteq> cp_name cp then Inl ForeignPublisherKey
      else if length (cp_publishers cp) \<le> key_index k then Inl (InvalidPublisherIndex (key_index k))
      else check_sources cp ks)"

definition restrict_subscriber_sources ::
  "channel_plan \<Rightarrow> key \<Rightarrow> key list \<Rightarrow> storage_error + channel_plan" where
  "restrict_subscriber_sources cp sub publishers =
     (if key_channel sub \<noteq> cp_name cp
      then Inl (InvalidConnection ''subscriber names another channel'')
      else try_bind (check_sources cp publishers) (\<lambda>_.
        if length (cp_subscribers cp) \<le> key_index sub
        then Inl (InvalidConnection ''subscriber index is out of range'')
        else let spec = cp_subscribers cp ! key_index sub in
          if spec_sources spec \<noteq> None
          then Inl (InvalidConnection ''subscriber sources already restricted'')
          else Inr (cp\<lparr>cp_subscribers := (cp_subscribers cp)
                 [key_index sub := spec\<lparr>spec_sources := Some (map key_index publishers)\<rparr>]\<rparr>)))"

definition publisher_plan :: "channel_plan \<Rightarrow> publisher_spec \<Rightarrow> storage_error + storage_plan" where
  "publisher_plan cp spec =
     try_bind (ok_or (checked_usize (spec_retained spec + forwarding_retention cp)) CapacityOverflow)
       (\<lambda>r. Inr (foldl with_subscriber (with_retained_capacity (storage_plan_new (spec_loan spec)) r)
              (map spec_capacity (cp_subscribers cp))))"

definition plan_publisher_capacity :: "channel_plan \<Rightarrow> key \<Rightarrow> storage_error + nat" where
  "plan_publisher_capacity cp publisher =
     (if cp_name cp \<noteq> key_channel publisher then Inl ForeignPublisherKey
      else if length (cp_publishers cp) \<le> key_index publisher
      then Inl (InvalidPublisherIndex (key_index publisher))
      else try_bind (publisher_plan cp (cp_publishers cp ! key_index publisher)) plan_capacity)"

definition set_forwarding_retention :: "channel_plan \<Rightarrow> nat \<Rightarrow> channel_plan" where
  "set_forwarding_retention cp capacity = cp\<lparr>forwarding_retention := capacity\<rparr>"

fun sum_capacities :: "channel_plan \<Rightarrow> nat \<Rightarrow> publisher_spec list \<Rightarrow> storage_error + nat" where
  "sum_capacities cp tot [] = Inr tot"
| "sum_capacities cp tot (spec # specs) =
     try_bind (try_bind (publisher_plan cp spec) plan_capacity) (\<lambda>c.
       try_bind (ok_or (checked_usize (tot + c)) CapacityOverflow) (\<lambda>tot'.
         sum_capacities cp tot' specs))"

definition total_publisher_capacity :: "channel_plan \<Rightarrow> storage_error + nat" where
  "total_publisher_capacity cp = sum_capacities cp 0 (cp_publishers cp)"

fun check_capacities :: "channel_plan \<Rightarrow> publisher_spec list \<Rightarrow> storage_error + unit" where
  "check_capacities cp [] = Inr ()"
| "check_capacities cp (spec # specs) =
     try_bind (try_bind (publisher_plan cp spec) plan_capacity) (\<lambda>_. check_capacities cp specs)"

definition channel_validate :: "channel_plan \<Rightarrow> storage_error + unit" where
  "channel_validate cp =
     (if checked_u32 (length (cp_publishers cp)) = None then Inl CapacityOverflow
      else if \<exists>s \<in> set (cp_subscribers cp). spec_capacity s = 0 then Inl ZeroSubscriberCapacity
      else check_capacities cp (cp_publishers cp))"

section \<open>Allocation and binding\<close>

record ('f, 'a) channel_storage =
  cs_name :: string
  cs_publishers :: "('f, 'a) publisher_storage list"
  cs_subscribers :: "subscriber_spec list"

fun allocate_all ::
  "('f, nat) array_queue \<Rightarrow> channel_plan \<Rightarrow> publisher_spec list
     \<Rightarrow> (storage_error + ('f, 'a) publisher_storage list) outcome" where
  "allocate_all F cp [] = Ret (Inr [])"
| "allocate_all F cp (spec # specs) =
     (case publisher_plan cp spec of
        Inl e \<Rightarrow> Ret (Inl e)
      | Inr pl \<Rightarrow> and_then (plan_allocate F pl) (\<lambda>r. case r of
          Inl e \<Rightarrow> Ret (Inl e)
        | Inr st \<Rightarrow> and_then (allocate_all F cp specs) (\<lambda>r'. case r' of
            Inl e \<Rightarrow> Ret (Inl e)
          | Inr sts \<Rightarrow> Ret (Inr (st # sts)))))"

definition channel_allocate ::
  "('f, nat) array_queue \<Rightarrow> channel_plan \<Rightarrow> (storage_error + ('f, 'a) channel_storage) outcome" where
  "channel_allocate F cp =
     (case channel_validate cp of
        Inl e \<Rightarrow> Ret (Inl e)
      | Inr _ \<Rightarrow> and_then (allocate_all F cp (cp_publishers cp)) (\<lambda>r. case r of
          Inl e \<Rightarrow> Ret (Inl e)
        | Inr sts \<Rightarrow> Ret (Inr \<lparr>cs_name = cp_name cp, cs_publishers = sts, cs_subscribers = cp_subscribers cp\<rparr>)))"

definition storage_publisher_capacity :: "('f, 'a) channel_storage \<Rightarrow> key \<Rightarrow> storage_error + nat" where
  "storage_publisher_capacity cs publisher =
     (if cs_name cs \<noteq> key_channel publisher then Inl ForeignPublisherKey
      else if length (cs_publishers cs) \<le> key_index publisher
      then Inl (InvalidPublisherIndex (key_index publisher))
      else Inr (ps_capacity (cs_publishers cs ! key_index publisher)))"

text \<open>
  \<open>bind\<close> for a channel whose arenas and subscribers occupy consecutive numbers of the bus: arena
  \<open>k\<close> of the channel is arena \<open>k\<close> of the bus and likewise for its subscribers.
\<close>

definition bind_subscriber ::
  "('q, ptr) array_queue \<Rightarrow> (nat \<Rightarrow> nat) \<Rightarrow> string \<Rightarrow> subscriber_spec \<Rightarrow> 'q subscriber outcome" where
  "bind_subscriber Q deque_capacity name spec =
     and_then (subscriber_with_policy Q deque_capacity (spec_capacity spec) (spec_policy spec)) (\<lambda>s.
       Ret (s\<lparr>sub_channel := name\<rparr>))"

definition accepts_source :: "subscriber_spec \<Rightarrow> nat \<Rightarrow> bool" where
  "accepts_source spec index =
     (case spec_sources spec of None \<Rightarrow> True | Some sources \<Rightarrow> index \<in> set sources)"

definition bind_publisher ::
  "string \<Rightarrow> subscriber_spec list \<Rightarrow> nat \<Rightarrow> ('f, 'a) publisher_storage \<Rightarrow> publisher outcome" where
  "bind_publisher name specs index st =
     and_then (publisher_new index (ps_loan st)) (\<lambda>pb.
     and_then (expect (checked_u32 index)) (\<lambda>n.
       Ret (foldl connect (pb\<lparr>pub_channel := name, publisher_index := of_nat n\<rparr>)
             (filter (\<lambda>j. accepts_source (specs ! j) index) [0..<length specs]))))"

definition channel_bind ::
  "('q, ptr) array_queue \<Rightarrow> (nat \<Rightarrow> nat) \<Rightarrow> ('f, 'a) channel_storage
     \<Rightarrow> (publisher list \<times> ('f, 'q, 'a) bus) outcome" where
  "channel_bind Q deque_capacity cs =
     and_then (map_outcome_list (bind_subscriber Q deque_capacity (cs_name cs)) (cs_subscribers cs)) (\<lambda>ss.
     and_then (map_outcome_list (\<lambda>(i, st). bind_publisher (cs_name cs) (cs_subscribers cs) i st)
         (enumerate 0 (cs_publishers cs))) (\<lambda>pbs.
       Ret (pbs, \<lparr>arenas = map ps_arena (cs_publishers cs), subs = ss, trace = []\<rparr>)))"

section \<open>Taking endpoints\<close>

datatype endpoint_error = WrongChannel | InvalidIndex nat | AlreadyTaken

record 'p endpoint_table =
  et_channel :: string
  et_slots :: "'p option list"

definition take_endpoint :: "'p endpoint_table \<Rightarrow> key \<Rightarrow> endpoint_error + 'p \<times> 'p endpoint_table" where
  "take_endpoint t k =
     (if et_channel t \<noteq> key_channel k then Inl WrongChannel
      else if length (et_slots t) \<le> key_index k then Inl (InvalidIndex (key_index k))
      else case et_slots t ! key_index k of
        None \<Rightarrow> Inl AlreadyTaken
      | Some p \<Rightarrow> Inr (p, t\<lparr>et_slots := (et_slots t)[key_index k := None]\<rparr>))"

definition configure_endpoint ::
  "'p endpoint_table \<Rightarrow> key \<Rightarrow> ('p \<Rightarrow> 'r \<times> 'p) \<Rightarrow> endpoint_error + 'r \<times> 'p endpoint_table" where
  "configure_endpoint t k configure =
     (if et_channel t \<noteq> key_channel k then Inl WrongChannel
      else if length (et_slots t) \<le> key_index k then Inl (InvalidIndex (key_index k))
      else case et_slots t ! key_index k of
        None \<Rightarrow> Inl AlreadyTaken
      | Some p \<Rightarrow> (case configure p of (r, p') \<Rightarrow>
          Inr (r, t\<lparr>et_slots := (et_slots t)[key_index k := Some p']\<rparr>)))"

section \<open>Capacities\<close>

lemma add_footprints_Inr:
  "add_footprints tot cs = Inr c \<longleftrightarrow>
     (\<forall>x \<in> set cs. 0 < x) \<and> c = tot + sum_list (map (\<lambda>x. 2 * x + 1) cs) \<and> (cs = [] \<or> c \<le> usize_max)"
proof (induction cs arbitrary: tot)
  case Nil
  then show ?case by auto
next
  case (Cons x xs)
  let ?s = "sum_list (map (\<lambda>x. 2 * x + 1) xs)"
  show ?case
    by (cases "x = 0"; cases "tot + (2 * x + 1) \<le> usize_max")
      (auto simp: checked_usize_def Cons.IH mult.commute)
qed

lemma plan_capacity_Inr:
  "plan_capacity pl = Inr c \<longleftrightarrow>
     plan_loan pl \<le> u32_max \<and> (\<forall>x \<in> set (plan_subscribers pl). 0 < x)
     \<and> c = plan_loan pl + plan_retained pl + sum_list (map (\<lambda>x. 2 * x + 1) (plan_subscribers pl))
     \<and> c \<le> usize_max"
  by (auto simp: plan_capacity_def checked_u32_def checked_usize_def add_footprints_Inr)

lemma foldl_with_subscriber:
  "foldl with_subscriber pl cs = pl\<lparr>plan_subscribers := plan_subscribers pl @ cs\<rparr>"
  by (induction cs arbitrary: pl) (auto simp: with_subscriber_def)

end
