(* ===== verification/Channel_Run.thy ===== *)
theory Channel_Run
  imports Channel_Plan
begin

text \<open>
  A bound channel at work: its publishers, the bus and the pointers that callbacks hold. The steps
  are the calls that callbacks and executors make on endpoints; a step exists where the call
  returns. The invariant of the reachable states gives the storage budget its meaning: a publisher
  that stays within its loan capacity, while at most the retained budget is held outside the
  queues and every read window keeps to its planned capacity, finds a free slot. The last condition
  is not empty: the budget counts the capacity a subscriber asks for, the window is as large as the
  \<open>VecDeque\<close> that was reserved for it, and the standard library promises only that this is no less.
\<close>

section \<open>Subscriber operations on the bus\<close>

text \<open>Nothing but the buffer of subscriber \<open>s\<close> changes, and that keeps its capacities.\<close>

definition buffer_changed ::
  "('q, ptr) array_queue \<Rightarrow> ('f, 'q, 'a) bus \<Rightarrow> ('f, 'q, 'a) bus \<Rightarrow> nat \<Rightarrow> bool" where
  "buffer_changed Q w w' s \<longleftrightarrow>
     trace w' = trace w \<and> length (arenas w') = length (arenas w) \<and> length (subs w') = length (subs w)
     \<and> (\<forall>t < length (subs w). same_config (subs w' ! t) (subs w ! t)
          \<and> single_buffer_capacity Q (sub_buffer (subs w' ! t)) = single_buffer_capacity Q (sub_buffer (subs w ! t))
          \<and> read_capacity (sub_buffer (subs w' ! t)) = read_capacity (sub_buffer (subs w ! t))
          \<and> (t \<noteq> s \<longrightarrow> subs w' ! t = subs w ! t))"

context message_bus begin

lemma change_buffer_law:
  fixes w :: "('f, 'q, 'c) bus"
  assumes inv: "bus_inv F fitems fvalid qitems qvalid w (P + N) U" and s: "s < length (subs w)"
    and b: "buffer_inv qvalid b" "read_capacity b = read_capacity (sub_buffer (subs w ! s))"
      "single_buffer_capacity Q b = single_buffer_capacity Q (sub_buffer (subs w ! s))"
    and bal: "mset (written qitems b) + mset (read_storage b) + mset ds = sub_ptrs qitems (subs w ! s) + N"
  shows "\<exists>w'. release_dropped F (set_buffer w s b) ds = Ret w'
    \<and> bus_inv F fitems fvalid qitems qvalid w' P U \<and> buffer_changed Q w w' s
    \<and> sub_buffer (subs w' ! s) = b
    \<and> bus_ptrs qitems w' \<subseteq># N + bus_ptrs qitems w
    \<and> (\<forall>q \<in># P + bus_ptrs qitems w'. payload_at (arenas w') q = payload_at (arenas w) q)"
proof -
  obtain as where as: "release_dropped F (set_buffer w s b) ds = Ret (set_buffer w s b\<lparr>arenas := as\<rparr>)"
    "bus_inv F fitems fvalid qitems qvalid (set_buffer w s b\<lparr>arenas := as\<rparr>) P U"
    "length as = length (arenas w)" "bus_ptrs qitems (set_buffer w s b) \<subseteq># N + bus_ptrs qitems w"
    "\<forall>q. q \<in># P + bus_ptrs qitems (set_buffer w s b) \<or> q \<in> U \<longrightarrow> payload_at as q = payload_at (arenas w) q"
    using replace_buffer_law [OF inv s b(1) bal] by blast
  let ?w = "set_buffer w s b\<lparr>arenas := as\<rparr>"
  have "bus_ptrs qitems ?w = bus_ptrs qitems (set_buffer w s b)"
    by (simp add: bus_ptrs_def)
  moreover have "buffer_changed Q w ?w s" and "sub_buffer (subs ?w ! s) = b"
    using b as(3) subs_set_buffer [OF s, of b] by (auto simp: buffer_changed_def same_config_def)
  ultimately show ?thesis
    using as by auto
qed

lemma subscriber_update_law:
  fixes w :: "('f, 'q, 'c) bus"
  assumes inv: "bus_inv F fitems fvalid qitems qvalid w P U" and s: "s < length (subs w)"
  shows "\<exists>w'. subscriber_update F Q w s = Ret w'
    \<and> bus_inv F fitems fvalid qitems qvalid w' P U \<and> buffer_changed Q w w' s
    \<and> written qitems (sub_buffer (subs w' ! s)) = []
    \<and> read_storage (sub_buffer (subs w' ! s)) = keep_last (read_capacity (sub_buffer (subs w ! s)))
        (read_storage (sub_buffer (subs w ! s)) @ written qitems (sub_buffer (subs w ! s)))
    \<and> bus_ptrs qitems w' \<subseteq># bus_ptrs qitems w
    \<and> (\<forall>q \<in># P + bus_ptrs qitems w'. payload_at (arenas w') q = payload_at (arenas w) q)"
proof -
  let ?b = "sub_buffer (subs w ! s)"
  have "buffer_inv qvalid ?b"
    using inv s by (simp add: bus_inv_def)
  from wq.drain_law [OF this] obtain b' ds where b': "drain_writer_to_reader Q ?b = Some (ds, b')"
    "ds = take (length (read_storage ?b @ written qitems ?b) - read_capacity ?b)
       (read_storage ?b @ written qitems ?b)"
    "buffer_inv qvalid b'" "written qitems b' = []"
    "read_storage b' = keep_last (read_capacity ?b) (read_storage ?b @ written qitems ?b)"
    "read_capacity b' = read_capacity ?b" "single_buffer_capacity Q b' = single_buffer_capacity Q ?b"
    by auto
  have "mset ds + mset (read_storage b') = mset (read_storage ?b @ written qitems ?b)"
    unfolding b'(2,5) keep_last_def by (metis append_take_drop_id mset_append)
  then have bal: "mset (written qitems b') + mset (read_storage b') + mset ds
      = sub_ptrs qitems (subs w ! s) + {#}"
    using b'(4) by (simp add: sub_ptrs_def ac_simps)
  have "bus_inv F fitems fvalid qitems qvalid w (P + {#}) U"
    using inv by simp
  from change_buffer_law [OF this s b'(3,6,7) bal] show ?thesis
    using b' by (auto simp: subscriber_update_def)
qed

lemma subscriber_clear_law:
  fixes w :: "('f, 'q, 'c) bus"
  assumes inv: "bus_inv F fitems fvalid qitems qvalid w P U" and s: "s < length (subs w)"
  shows "\<exists>w'. subscriber_clear F Q w s = Ret w'
    \<and> bus_inv F fitems fvalid qitems qvalid w' P U \<and> buffer_changed Q w w' s
    \<and> written qitems (sub_buffer (subs w' ! s)) = [] \<and> read_storage (sub_buffer (subs w' ! s)) = []
    \<and> bus_ptrs qitems w' \<subseteq># bus_ptrs qitems w
    \<and> (\<forall>q \<in># P + bus_ptrs qitems w'. payload_at (arenas w') q = payload_at (arenas w) q)"
proof -
  let ?b = "sub_buffer (subs w ! s)"
  have "buffer_inv qvalid ?b"
    using inv s by (simp add: bus_inv_def)
  from wq.clear_law [OF this] obtain b' where b':
    "double_buffer_clear Q ?b = Some (written qitems ?b @ read_storage ?b, b')"
    "buffer_inv qvalid b'" "written qitems b' = []" "read_storage b' = []"
    "read_capacity b' = read_capacity ?b" "single_buffer_capacity Q b' = single_buffer_capacity Q ?b"
    by blast
  have bal: "mset (written qitems b') + mset (read_storage b') + mset (written qitems ?b @ read_storage ?b)
      = sub_ptrs qitems (subs w ! s) + {#}"
    using b' by (simp add: sub_ptrs_def)
  have "bus_inv F fitems fvalid qitems qvalid w (P + {#}) U"
    using inv by simp
  from change_buffer_law [OF this s b'(2,5,6) bal] show ?thesis
    using b' by (auto simp: subscriber_clear_def)
qed

lemma drop_read_law:
  fixes w :: "('f, 'q, 'c) bus"
  assumes inv: "bus_inv F fitems fvalid qitems qvalid w P U" and s: "s < length (subs w)"
    and st: "read_storage (sub_buffer (subs w ! s)) = ds @ st"
  shows "\<exists>w'. release_dropped F (set_buffer w s ((sub_buffer (subs w ! s))\<lparr>read_storage := st\<rparr>)) ds = Ret w'
    \<and> bus_inv F fitems fvalid qitems qvalid w' P U \<and> buffer_changed Q w w' s
    \<and> read_storage (sub_buffer (subs w' ! s)) = st
    \<and> bus_ptrs qitems w' \<subseteq># bus_ptrs qitems w
    \<and> (\<forall>q \<in># P + bus_ptrs qitems w'. payload_at (arenas w') q = payload_at (arenas w) q)"
proof -
  let ?b = "sub_buffer (subs w ! s)" and ?b' = "(sub_buffer (subs w ! s))\<lparr>read_storage := st\<rparr>"
  have "buffer_inv qvalid ?b"
    using inv s by (simp add: bus_inv_def)
  then have b': "buffer_inv qvalid ?b'"
    using st by (simp add: buffer_inv_def)
  have bal: "mset (written qitems ?b') + mset (read_storage ?b') + mset ds = sub_ptrs qitems (subs w ! s) + {#}"
    using st by (simp add: sub_ptrs_def written_def)
  have "bus_inv F fitems fvalid qitems qvalid w (P + {#}) U"
    using inv by simp
  from change_buffer_law [OF this s b' _ _ bal] show ?thesis
    by (auto simp: single_buffer_capacity_def)
qed

lemma finish_iteration_law:
  fixes w :: "('f, 'q, 'c) bus"
  assumes inv: "bus_inv F fitems fvalid qitems qvalid w P U" and s: "s < length (subs w)"
  shows "\<exists>w'. finish_iteration F w s = Ret w'
    \<and> bus_inv F fitems fvalid qitems qvalid w' P U \<and> buffer_changed Q w w' s
    \<and> read_storage (sub_buffer (subs w' ! s)) = (if keep_across_runs (sub_policy (subs w ! s))
        then read_storage (sub_buffer (subs w ! s)) else [])
    \<and> bus_ptrs qitems w' \<subseteq># bus_ptrs qitems w
    \<and> (\<forall>q \<in># P + bus_ptrs qitems w'. payload_at (arenas w') q = payload_at (arenas w) q)"
  using drop_read_law [OF inv s, of "read_storage (sub_buffer (subs w ! s))" "[]"] inv
  by (auto simp: finish_iteration_def buffer_changed_def same_config_def)

lemma input_pop_law:
  fixes w :: "('f, 'q, 'c) bus"
  assumes inv: "bus_inv F fitems fvalid qitems qvalid w P U" and s: "s < length (subs w)"
    and pop: "input_pop w s = (Some p, w')"
  shows "bus_inv F fitems fvalid qitems qvalid w' (add_mset p P) U \<and> buffer_changed Q w w' s
    \<and> arenas w' = arenas w \<and> add_mset p (bus_ptrs qitems w') = bus_ptrs qitems w"
proof -
  let ?b = "sub_buffer (subs w ! s)"
  obtain ps where ps: "read_storage ?b = p # ps"
    and w': "w' = set_buffer w s (?b\<lparr>read_storage := ps\<rparr>)"
    using pop by (auto simp: input_pop_def read_pop_front_def split: list.splits)
  have bp: "add_mset p (bus_ptrs qitems w') = bus_ptrs qitems w"
    using bus_ptrs_set_buffer [OF s, of qitems "?b\<lparr>read_storage := ps\<rparr>"] ps w'
    by (simp add: sub_ptrs_def written_def)
  have "buffer_inv qvalid (sub_buffer (subs w' ! t))" if "t < length (subs w)" for t
    using inv that subs_set_buffer [OF s, of "?b\<lparr>read_storage := ps\<rparr>" t] ps w' s
    by (auto simp: bus_inv_def buffer_inv_def)
  moreover have "store_inv F fitems fvalid (arenas w') (add_mset p P + bus_ptrs qitems w') U"
    using inv w' bp by (simp add: bus_inv_def) (metis add_mset_add_single union_assoc union_commute)
  ultimately show ?thesis
    using bp w' subs_set_buffer [OF s, of "?b\<lparr>read_storage := ps\<rparr>"]
    by (auto simp: bus_inv_def buffer_changed_def same_config_def single_buffer_capacity_def)
qed

end

section \<open>Arena sizes\<close>

text \<open>No operation resizes an arena.\<close>

definition dims :: "('f, 'a) store \<Rightarrow> nat list" where
  "dims as = map (\<lambda>a. length (storage a)) as"

lemma dims_update: "length (storage a) = length (storage (as ! k)) \<Longrightarrow> dims (as[k := a]) = dims as"
  by (cases "k < length as") (auto simp: dims_def map_update list_update_same_conv list_update_beyond)

lemma dims_release: "store_release F as p = Ret as' \<Longrightarrow> dims as' = dims as"
  by (auto simp: store_release_def drop_ptr_def Let_def intro!: dims_update split: if_splits)

lemma dims_release_all: "store_release_all F as ps = Ret as' \<Longrightarrow> dims as' = dims as"
  by (induction ps arbitrary: as) (auto dest: dims_release)

lemma dims_retain: "store_retain as p = Ret as' \<Longrightarrow> dims as' = dims as"
  by (auto simp: store_retain_def clone_ptr_def Let_def intro!: dims_update split: if_splits)

lemma dims_stamp: "store_stamp as p h = Ret as' \<Longrightarrow> dims as' = dims as"
  by (auto simp: store_stamp_def payload_write_def intro!: dims_update split: if_splits)

lemma dims_dropped: "release_dropped F w ps = Ret w' \<Longrightarrow> dims (arenas w') = dims (arenas w)"
  by (auto simp: release_dropped_def dest: dims_release_all)

lemma dims_write: "subscriber_write F Q w s p = Ret w' \<Longrightarrow> dims (arenas w') = dims (arenas w)"
  by (auto simp: subscriber_write_def dest!: dims_dropped split: prod.splits)

lemma dims_fan_out: "fan_out F Q p ss w = Ret w' \<Longrightarrow> dims (arenas w') = dims (arenas w)"
  by (induction ss arbitrary: w) (fastforce dest: dims_retain dims_write)+

lemma dims_flush_one: "flush_one F Q pb hdr i p w = Ret w' \<Longrightarrow> dims (arenas w') = dims (arenas w)"
  by (auto simp: flush_one_def call_observers_def dest!: dims_stamp dims_fan_out dims_dropped)

lemma dims_flush_loop: "flush_loop F Q pb hdr i ps w = Ret w' \<Longrightarrow> dims (arenas w') = dims (arenas w)"
  by (induction ps arbitrary: w i) (auto dest!: dims_flush_one)

lemma dims_flush: "flush F Q pb ts w = Ret (pb', w') \<Longrightarrow> dims (arenas w') = dims (arenas w)"
  by (auto simp: flush_def flush_headers_def dest: dims_flush_loop)

lemma dims_allocate: "allocate_output F w k = Ret (Inr (p, w')) \<Longrightarrow> dims (arenas w') = dims (arenas w)"
  by (auto simp: allocate_output_def try_allocate_uninit_def intro!: dims_update
      split: if_splits option.splits)

lemma dims_output_write: "output_write w p v = Ret w' \<Longrightarrow> dims (arenas w') = dims (arenas w)"
  by (auto simp: output_write_def payload_write_def Let_def intro!: dims_update)

lemma dims_loan: "loan F pb w v = Ret (Inr (p, w')) \<Longrightarrow> dims (arenas w') = dims (arenas w)"
  by (auto simp: loan_def loan_uninit_def propagate_error dest!: dims_allocate dims_output_write
      split: if_splits)

lemma dims_publish: "publish F pb w v = Ret (Inr (pb', w')) \<Longrightarrow> dims (arenas w') = dims (arenas w)"
  by (auto simp: publish_def propagate_error dest!: dims_loan)

lemma dims_subscriber_ops:
  "subscriber_update F Q w s = Ret w' \<Longrightarrow> dims (arenas w') = dims (arenas w)"
  "subscriber_clear F Q w s = Ret w' \<Longrightarrow> dims (arenas w') = dims (arenas w)"
  "finish_iteration F w s = Ret w' \<Longrightarrow> dims (arenas w') = dims (arenas w)"
  by (auto simp: subscriber_update_def subscriber_clear_def finish_iteration_def Let_def
      dest!: dims_dropped split: if_splits)

section \<open>Steps of a bound channel\<close>

record ('f, 'q, 'a) channel_state =
  pubs :: "publisher list"
  cbus :: "('f, 'q, 'a) bus"
  held :: "ptr multiset"

text \<open>
  \<open>MAX_HELD\<close> bounds the number of pointers that callbacks hold at a time; it only keeps the
  reference counts from the limit at which \<open>clone\<close> panics.
\<close>

definition MAX_HELD :: nat where
  "MAX_HELD = 2 ^ 60"

inductive channel_step ::
  "('f, nat) array_queue \<Rightarrow> ('q, ptr) array_queue \<Rightarrow> ('f, 'q, 'a) channel_state
     \<Rightarrow> ('f, 'q, 'a) channel_state \<Rightarrow> bool"
  for F :: "('f, nat) array_queue" and Q :: "('q, ptr) array_queue" where
  publishes: "k < length (pubs st) \<Longrightarrow> publish F (pubs st ! k) (cbus st) v = Ret (Inr (pb, w)) \<Longrightarrow>
    channel_step F Q st (st\<lparr>pubs := (pubs st)[k := pb], cbus := w\<rparr>)"
| flushes: "k < length (pubs st) \<Longrightarrow> flush F Q (pubs st ! k) ts (cbus st) = Ret (pb, w) \<Longrightarrow>
    channel_step F Q st (st\<lparr>pubs := (pubs st)[k := pb], cbus := w\<rparr>)"
| discards: "k < length (pubs st) \<Longrightarrow> discard_pending F (pubs st ! k) (cbus st) = Ret (pb, w) \<Longrightarrow>
    channel_step F Q st (st\<lparr>pubs := (pubs st)[k := pb], cbus := w\<rparr>)"
| updates: "s < length (subs (cbus st)) \<Longrightarrow> subscriber_update F Q (cbus st) s = Ret w \<Longrightarrow>
    channel_step F Q st (st\<lparr>cbus := w\<rparr>)"
| finishes: "s < length (subs (cbus st)) \<Longrightarrow> finish_iteration F (cbus st) s = Ret w \<Longrightarrow>
    channel_step F Q st (st\<lparr>cbus := w\<rparr>)"
| clears: "s < length (subs (cbus st)) \<Longrightarrow> subscriber_clear F Q (cbus st) s = Ret w \<Longrightarrow>
    channel_step F Q st (st\<lparr>cbus := w\<rparr>)"
| takes: "s < length (subs (cbus st)) \<Longrightarrow> size (held st) < MAX_HELD \<Longrightarrow>
    input_pop (cbus st) s = (Some p, w) \<Longrightarrow>
    channel_step F Q st (st\<lparr>cbus := w, held := add_mset p (held st)\<rparr>)"
| drops: "p \<in># held st \<Longrightarrow> release_dropped F (cbus st) [p] = Ret w \<Longrightarrow>
    channel_step F Q st (st\<lparr>cbus := w, held := held st - {#p#}\<rparr>)"

definition all_pending :: "publisher list \<Rightarrow> ptr multiset" where
  "all_pending pbs = sum_list (map (\<lambda>pb. mset (pending pb)) pbs)"

definition room_ok :: "('q, ptr) array_queue \<Rightarrow> ('f, 'q, 'a) channel_state \<Rightarrow> bool" where
  "room_ok Q st \<longleftrightarrow> sum_list (map loan_capacity (pubs st)) + bus_room Q (cbus st) < 2 ^ 62"

definition channel_inv ::
  "('f, nat) array_queue \<Rightarrow> ('f \<Rightarrow> nat list) \<Rightarrow> ('f \<Rightarrow> bool) \<Rightarrow> ('q, ptr) array_queue
     \<Rightarrow> ('q \<Rightarrow> ptr list) \<Rightarrow> ('q \<Rightarrow> bool) \<Rightarrow> ('f, 'q, 'a) channel_state \<Rightarrow> bool" where
  "channel_inv F fitems fvalid Q qitems qvalid st \<longleftrightarrow>
     bus_inv F fitems fvalid qitems qvalid (cbus st) (held st + all_pending (pubs st)) {}
     \<and> (\<forall>p \<in># all_pending (pubs st).
          count (held st + all_pending (pubs st) + bus_ptrs qitems (cbus st)) p = 1)
     \<and> (\<forall>k < length (pubs st). pub_arena (pubs st ! k) = k \<and> k < length (arenas (cbus st))
          \<and> set (targets (pubs st ! k)) \<subseteq> {..<length (subs (cbus st))}
          \<and> length (pending (pubs st ! k)) \<le> loan_capacity (pubs st ! k)
          \<and> loan_capacity (pubs st ! k) \<le> u32_max
          \<and> (\<forall>p \<in> set (pending (pubs st ! k)). fst p = k))
     \<and> size (held st) \<le> MAX_HELD \<and> room_ok Q st"

text \<open>What a step never changes.\<close>

definition same_shape ::
  "('q, ptr) array_queue \<Rightarrow> ('f, 'q, 'a) channel_state \<Rightarrow> ('f, 'q, 'a) channel_state \<Rightarrow> bool" where
  "same_shape Q st st' \<longleftrightarrow>
     map (\<lambda>pb. pb\<lparr>pending := []\<rparr>) (pubs st') = map (\<lambda>pb. pb\<lparr>pending := []\<rparr>) (pubs st)
     \<and> dims (arenas (cbus st')) = dims (arenas (cbus st))
     \<and> map (\<lambda>s. (single_buffer_capacity Q (sub_buffer s), read_capacity (sub_buffer s))) (subs (cbus st'))
       = map (\<lambda>s. (single_buffer_capacity Q (sub_buffer s), read_capacity (sub_buffer s))) (subs (cbus st))"

lemma same_shape_facts:
  assumes "same_shape Q st st'"
  shows "length (pubs st') = length (pubs st)"
    and "k < length (pubs st) \<Longrightarrow> pub_arena (pubs st' ! k) = pub_arena (pubs st ! k)
      \<and> targets (pubs st' ! k) = targets (pubs st ! k)
      \<and> loan_capacity (pubs st' ! k) = loan_capacity (pubs st ! k)"
    and "length (arenas (cbus st')) = length (arenas (cbus st))"
    and "length (subs (cbus st')) = length (subs (cbus st))"
    and "room_ok Q st' = room_ok Q st"
proof -
  let ?e = "\<lambda>pb. pb\<lparr>pending := []\<rparr>"
  let ?c = "\<lambda>s. (single_buffer_capacity Q (sub_buffer s), read_capacity (sub_buffer s))"
  have p: "map ?e (pubs st') = map ?e (pubs st)" and d: "dims (arenas (cbus st')) = dims (arenas (cbus st))"
    and c: "map ?c (subs (cbus st')) = map ?c (subs (cbus st))"
    using assms by (simp_all add: same_shape_def)
  show l: "length (pubs st') = length (pubs st)"
    using map_eq_imp_length_eq [OF p] .
  show "length (arenas (cbus st')) = length (arenas (cbus st))"
    using d map_eq_imp_length_eq by (fastforce simp: dims_def)
  show "length (subs (cbus st')) = length (subs (cbus st))"
    using map_eq_imp_length_eq [OF c] .
  have "pub_arena (?e (pubs st' ! k)) = pub_arena (?e (pubs st ! k))
      \<and> targets (?e (pubs st' ! k)) = targets (?e (pubs st ! k))
      \<and> loan_capacity (?e (pubs st' ! k)) = loan_capacity (?e (pubs st ! k))" if "k < length (pubs st)" for k
    using p that l by (metis nth_map)
  then show "k < length (pubs st) \<Longrightarrow> pub_arena (pubs st' ! k) = pub_arena (pubs st ! k)
      \<and> targets (pubs st' ! k) = targets (pubs st ! k)
      \<and> loan_capacity (pubs st' ! k) = loan_capacity (pubs st ! k)"
    by simp
  have "map loan_capacity (pubs st') = map loan_capacity (map ?e (pubs st'))" by simp
  also have "\<dots> = map loan_capacity (pubs st)" unfolding p by simp
  finally have loans: "map loan_capacity (pubs st') = map loan_capacity (pubs st)" .
  have "map (\<lambda>s. single_buffer_capacity Q (sub_buffer s) + read_capacity (sub_buffer s)) (subs (cbus st'))
      = map (\<lambda>(a, b). a + b) (map ?c (subs (cbus st')))" by (simp add: comp_def)
  also have "\<dots> = map (\<lambda>s. single_buffer_capacity Q (sub_buffer s) + read_capacity (sub_buffer s)) (subs (cbus st))"
    unfolding c by (simp add: comp_def)
  finally show "room_ok Q st' = room_ok Q st"
    using loans by (simp add: room_ok_def bus_room_def)
qed

lemma channel_inv_step:
  assumes "channel_inv F fitems fvalid Q qitems qvalid st" and "same_shape Q st st'"
    and "bus_inv F fitems fvalid qitems qvalid (cbus st') (held st' + all_pending (pubs st')) {}"
    and "\<And>p. p \<in># all_pending (pubs st') \<Longrightarrow>
      count (held st' + all_pending (pubs st') + bus_ptrs qitems (cbus st')) p = 1"
    and "\<And>k. k < length (pubs st) \<Longrightarrow> length (pending (pubs st' ! k)) \<le> loan_capacity (pubs st ! k)
      \<and> (\<forall>p \<in> set (pending (pubs st' ! k)). fst p = k)"
    and "size (held st') \<le> MAX_HELD"
  shows "channel_inv F fitems fvalid Q qitems qvalid st'"
  using assms same_shape_facts [OF assms(2)] by (simp add: channel_inv_def)

lemma channel_inv_pending:
  assumes "channel_inv F fitems fvalid Q qitems qvalid st" and "k < length (pubs st)"
  shows "length (pending (pubs st ! k)) \<le> loan_capacity (pubs st ! k)"
    and "\<forall>p \<in> set (pending (pubs st ! k)). fst p = k"
  using assms by (simp_all add: channel_inv_def)

lemma all_pending_split:
  assumes "k < length pbs"
  obtains R where "\<And>pb. all_pending (pbs[k := pb]) = R + mset (pending pb)"
    and "all_pending pbs = R + mset (pending (pbs ! k))"
proof -
  let ?f = "\<lambda>pb. mset (pending pb)"
  let ?R = "sum_list (map ?f (take k pbs)) + sum_list (map ?f (drop (Suc k) pbs))"
  have r: "all_pending (pbs[k := pb]) = ?R + mset (pending pb)" for pb
    using assms by (simp add: all_pending_def upd_conv_take_nth_drop ac_simps)
  from that [OF this] r [of "pbs ! k"] show ?thesis by simp
qed

lemma size_all_pending_le:
  assumes "\<forall>k < length pbs. length (pending (pbs ! k)) \<le> loan_capacity (pbs ! k)"
  shows "size (all_pending pbs) \<le> sum_list (map loan_capacity pbs)"
proof -
  have "\<And>pb. pb \<in> set pbs \<Longrightarrow> length (pending pb) \<le> loan_capacity pb"
    using assms by (auto simp: in_set_conv_nth)
  then show ?thesis
    by (simp add: all_pending_def size_sum_list sum_list_mono)
qed

context message_bus begin

lemma channel_batch:
  fixes st :: "('f, 'q, 'c) channel_state"
  assumes inv: "channel_inv F fitems fvalid Q qitems qvalid st" and k: "k < length (pubs st)"
  obtains R where "\<And>pb. all_pending ((pubs st)[k := pb]) = R + mset (pending pb)"
    and "all_pending (pubs st) = R + mset (pending (pubs st ! k))"
    and "bus_inv F fitems fvalid qitems qvalid (cbus st) ((held st + R) + mset (pending (pubs st ! k))) {}"
    and "batch_exclusive qitems (cbus st) (held st + R) (pubs st ! k)"
    and "size (held st + R) + length (pending (pubs st ! k)) + bus_room Q (cbus st) < usize_max div 2"
proof -
  let ?ps = "pending (pubs st ! k)"
  obtain R where R: "\<And>pb. all_pending ((pubs st)[k := pb]) = R + mset (pending pb)"
    "all_pending (pubs st) = R + mset ?ps"
    using all_pending_split [OF k] by metis
  have one: "count (held st + R + mset ?ps + bus_ptrs qitems (cbus st)) p = 1" if "p \<in> set ?ps" for p
    using inv that by (auto simp: channel_inv_def R(2) add.assoc)
  have pos: "0 < count (mset ?ps) p" if "p \<in> set ?ps" for p
    using that by (simp only: count_greater_zero_iff set_mset_mset)
  have "count (mset ?ps) p = (if p \<in> set ?ps then 1 else 0)" for p
  proof (cases "p \<in> set ?ps")
    case True
    have "count (mset ?ps) p = 1"
      using one [OF True] pos [OF True] by (simp only: count_union)
    with True show ?thesis by simp
  qed (simp add: count_eq_zero_iff)
  then have "distinct ?ps"
    unfolding distinct_count_atmost_1 by blast
  moreover have "p \<notin># held st + R + bus_ptrs qitems (cbus st)" if "p \<in> set ?ps" for p
  proof -
    have "count (held st + R + bus_ptrs qitems (cbus st)) p = 0"
      using one [OF that] pos [OF that] by (simp only: count_union)
    then show ?thesis unfolding not_in_iff .
  qed
  ultimately have ex: "batch_exclusive qitems (cbus st) (held st + R) (pubs st ! k)"
    by (auto simp: batch_exclusive_def)
  have "size (all_pending (pubs st)) \<le> sum_list (map loan_capacity (pubs st))"
    using inv by (intro size_all_pending_le) (simp add: channel_inv_def)
  then have "size (held st + R) + length ?ps + bus_room Q (cbus st) < usize_max div 2"
    using inv by (simp add: channel_inv_def room_ok_def MAX_HELD_def usize_max_def R(2))
  with that [OF R] ex inv show ?thesis
    by (simp add: channel_inv_def R(2) add.assoc)
qed

lemma publishes_inv:
  fixes st :: "('f, 'q, 'c) channel_state"
  assumes inv: "channel_inv F fitems fvalid Q qitems qvalid st" and k: "k < length (pubs st)"
    and run: "publish F (pubs st ! k) (cbus st) v = Ret (Inr (pb, w))"
  defines "st' \<equiv> st\<lparr>pubs := (pubs st)[k := pb], cbus := w\<rparr>"
  shows "channel_inv F fitems fvalid Q qitems qvalid st' \<and> same_shape Q st st'"
proof -
  let ?pb = "pubs st ! k"
  obtain R where R: "\<And>pb. all_pending ((pubs st)[k := pb]) = R + mset (pending pb)"
    "all_pending (pubs st) = R + mset (pending ?pb)"
    "bus_inv F fitems fvalid qitems qvalid (cbus st) ((held st + R) + mset (pending ?pb)) {}"
    "batch_exclusive qitems (cbus st) (held st + R) ?pb"
    using channel_batch [OF inv k] by metis
  have ka: "pub_arena ?pb = k" "k < length (arenas (cbus st))"
    using inv k by (auto simp: channel_inv_def)
  have room: "\<not> loan_capacity ?pb \<le> length (pending ?pb)"
    using run by (auto simp: publish_def loan_def loan_uninit_def)
  let ?M = "held st + R + mset (pending ?pb) + bus_ptrs qitems (cbus st)"
  obtain p where p: "pb = output_send ?pb p" "fst p = k" "p \<notin># ?M"
    "bus_inv F fitems fvalid qitems qvalid w ((held st + R) + mset (pending ?pb @ [p])) {}"
    "subs w = subs (cbus st)"
    using publish_law [OF R(3,4), of v] ka room run by (auto split: if_splits)
  have bp: "bus_ptrs qitems w = bus_ptrs qitems (cbus st)"
    using p(5) by (simp add: bus_ptrs_def)
  have pend: "all_pending (pubs st') = add_mset p (all_pending (pubs st))"
    using R(1) [of pb] R(2) p(1) by (simp add: st'_def output_send_def)
  have shape: "same_shape Q st st'"
    using p(1,5) k dims_publish [OF run]
    by (auto simp: same_shape_def st'_def output_send_def map_update list_update_same_conv)
  have "channel_inv F fitems fvalid Q qitems qvalid st'"
  proof (rule channel_inv_step [OF inv shape])
    show "bus_inv F fitems fvalid qitems qvalid (cbus st') (held st' + all_pending (pubs st')) {}"
      using p(4) by (simp add: st'_def R(1) p(1) output_send_def add.assoc)
    show "count (held st' + all_pending (pubs st') + bus_ptrs qitems (cbus st')) q = 1"
      if "q \<in># all_pending (pubs st')" for q
    proof (cases "q = p")
      case True
      then show ?thesis
        using p(3) by (simp add: st'_def pend [unfolded st'_def, simplified] bp R(2) not_in_iff)
    next
      case False
      then have "q \<in># all_pending (pubs st)" using that pend by simp
      then have "count (held st + all_pending (pubs st) + bus_ptrs qitems (cbus st)) q = 1"
        using inv by (simp add: channel_inv_def)
      with False show ?thesis
        by (simp add: st'_def pend [unfolded st'_def, simplified] bp)
    qed
    show "length (pending (pubs st' ! j)) \<le> loan_capacity (pubs st ! j)
        \<and> (\<forall>p \<in> set (pending (pubs st' ! j)). fst p = j)" if "j < length (pubs st)" for j
      using channel_inv_pending [OF inv that] that room p(1,2) k
      by (cases "j = k") (auto simp: st'_def output_send_def)
    show "size (held st') \<le> MAX_HELD"
      using inv by (simp add: channel_inv_def st'_def)
  qed
  with shape show ?thesis by blast
qed

lemma flushes_inv:
  fixes st :: "('f, 'q, 'c) channel_state"
  assumes inv: "channel_inv F fitems fvalid Q qitems qvalid st" and k: "k < length (pubs st)"
    and run: "flush F Q (pubs st ! k) ts (cbus st) = Ret (pb, w)"
  defines "st' \<equiv> st\<lparr>pubs := (pubs st)[k := pb], cbus := w\<rparr>"
  shows "channel_inv F fitems fvalid Q qitems qvalid st' \<and> same_shape Q st st'"
proof -
  let ?pb = "pubs st ! k"
  obtain R where R: "\<And>pb. all_pending ((pubs st)[k := pb]) = R + mset (pending pb)"
    "all_pending (pubs st) = R + mset (pending ?pb)"
    "bus_inv F fitems fvalid qitems qvalid (cbus st) ((held st + R) + mset (pending ?pb)) {}"
    "batch_exclusive qitems (cbus st) (held st + R) ?pb"
    "size (held st + R) + length (pending ?pb) + bus_room Q (cbus st) < usize_max div 2"
    using channel_batch [OF inv k] by metis
  have t: "set (targets ?pb) \<subseteq> {..<length (subs (cbus st))}" and l: "length (pending ?pb) \<le> u32_max"
    using inv k by (auto simp: channel_inv_def)
  have pb: "pb = ?pb\<lparr>pending := []\<rparr>" and w: "bus_inv F fitems fvalid qitems qvalid w (held st + R) {}"
    and del: "delivered Q qitems (cbus st) w
      (\<lambda>t. concat (map (replicate (count_list (targets ?pb) t)) (pending ?pb)))"
    and set: "set_mset (bus_ptrs qitems w) \<subseteq> set (pending ?pb) \<union> set_mset (bus_ptrs qitems (cbus st))"
    using flush_law [OF R(3,4) t l R(5), of ts] run by auto
  have pend: "all_pending (pubs st') = R"
    using R(1) [of pb] pb by (simp add: st'_def)
  have caps: "map (\<lambda>s. (single_buffer_capacity Q (sub_buffer s), read_capacity (sub_buffer s))) (subs w)
      = map (\<lambda>s. (single_buffer_capacity Q (sub_buffer s), read_capacity (sub_buffer s))) (subs (cbus st))"
    using del by (intro nth_equalityI) (auto simp: delivered_def Let_def)
  have shape: "same_shape Q st st'"
    using pb k dims_flush [OF run] caps
    by (auto simp: same_shape_def st'_def map_update list_update_same_conv)
  have "channel_inv F fitems fvalid Q qitems qvalid st'"
  proof (rule channel_inv_step [OF inv shape])
    show "bus_inv F fitems fvalid qitems qvalid (cbus st') (held st' + all_pending (pubs st')) {}"
      using w unfolding pend by (simp add: st'_def)
    show "count (held st' + all_pending (pubs st') + bus_ptrs qitems (cbus st')) q = 1"
      if "q \<in># all_pending (pubs st')" for q
    proof -
      have q: "q \<in># R" using that pend by simp
      then have one: "count (held st + all_pending (pubs st) + bus_ptrs qitems (cbus st)) q = 1"
        using inv R(2) by (simp add: channel_inv_def)
      have "q \<notin> set (pending ?pb)"
        using R(4) q by (auto simp: batch_exclusive_def)
      moreover have "q \<notin># bus_ptrs qitems (cbus st)"
      proof
        assume "q \<in># bus_ptrs qitems (cbus st)"
        then have "0 < count R q" and "0 < count (bus_ptrs qitems (cbus st)) q"
          using q by (simp_all only: count_greater_zero_iff)
        then show False using one unfolding R(2) count_union by linarith
      qed
      ultimately have "q \<notin># bus_ptrs qitems w" and "q \<notin># mset (pending ?pb)"
        and "q \<notin># bus_ptrs qitems (cbus st)"
        using set by auto
      then have "count (bus_ptrs qitems w) q = 0" and "count (mset (pending ?pb)) q = 0"
        and "count (bus_ptrs qitems (cbus st)) q = 0"
        unfolding not_in_iff by blast+
      then have "count (held st) q + count R q + count (bus_ptrs qitems w) q = 1"
        using one unfolding R(2) count_union by linarith
      then show ?thesis
        unfolding pend by (simp add: st'_def)
    qed
    show "length (pending (pubs st' ! j)) \<le> loan_capacity (pubs st ! j)
        \<and> (\<forall>p \<in> set (pending (pubs st' ! j)). fst p = j)" if "j < length (pubs st)" for j
      using channel_inv_pending [OF inv that] pb k by (cases "j = k") (auto simp: st'_def)
    show "size (held st') \<le> MAX_HELD"
      using inv by (simp add: channel_inv_def st'_def)
  qed
  with shape show ?thesis by blast
qed

text \<open>
  Steps that only take pointers away: from the batch of a publisher, from a subscriber, or from
  what callbacks hold.
\<close>

lemma shrink_inv:
  fixes st st' :: "('f, 'q, 'c) channel_state"
  assumes inv: "channel_inv F fitems fvalid Q qitems qvalid st" and shape: "same_shape Q st st'"
    and bus: "bus_inv F fitems fvalid qitems qvalid (cbus st') (held st' + all_pending (pubs st')) {}"
    and pend: "\<And>k. k < length (pubs st) \<Longrightarrow>
      pending (pubs st' ! k) = pending (pubs st ! k) \<or> pending (pubs st' ! k) = []"
    and sub: "held st' + all_pending (pubs st') + bus_ptrs qitems (cbus st')
      \<subseteq># held st + all_pending (pubs st) + bus_ptrs qitems (cbus st)"
    and psub: "all_pending (pubs st') \<subseteq># all_pending (pubs st)"
    and h: "size (held st') \<le> MAX_HELD"
  shows "channel_inv F fitems fvalid Q qitems qvalid st'"
proof (rule channel_inv_step [OF inv shape bus _ _ h])
  fix p
  assume p: "p \<in># all_pending (pubs st')"
  let ?T = "held st + all_pending (pubs st) + bus_ptrs qitems (cbus st)"
    and ?T' = "held st' + all_pending (pubs st') + bus_ptrs qitems (cbus st')"
  have "count ?T p = 1"
    using inv mset_subset_eqD [OF psub p] by (simp add: channel_inv_def)
  moreover have "count ?T' p \<le> count ?T p"
    using sub by (rule mset_subset_eq_count)
  moreover have "0 < count ?T' p"
    using p by simp
  ultimately show "count ?T' p = 1" by linarith
next
  fix k
  assume k: "k < length (pubs st)"
  show "length (pending (pubs st' ! k)) \<le> loan_capacity (pubs st ! k)
      \<and> (\<forall>p \<in> set (pending (pubs st' ! k)). fst p = k)"
    using pend [OF k] channel_inv_pending [OF inv k] by auto
qed

lemma bus_only_inv:
  fixes st :: "('f, 'q, 'c) channel_state"
  assumes inv: "channel_inv F fitems fvalid Q qitems qvalid st"
    and ch: "buffer_changed Q (cbus st) w s" and d: "dims (arenas w) = dims (arenas (cbus st))"
    and bus: "bus_inv F fitems fvalid qitems qvalid w (held st + all_pending (pubs st)) {}"
    and sub: "bus_ptrs qitems w \<subseteq># bus_ptrs qitems (cbus st)"
  shows "channel_inv F fitems fvalid Q qitems qvalid (st\<lparr>cbus := w\<rparr>) \<and> same_shape Q st (st\<lparr>cbus := w\<rparr>)"
proof -
  have shape: "same_shape Q st (st\<lparr>cbus := w\<rparr>)"
    using ch d unfolding same_shape_def buffer_changed_def by (auto intro!: nth_equalityI)
  then show ?thesis
    using shrink_inv [OF inv shape] bus sub inv by (simp add: channel_inv_def)
qed

lemma discards_inv:
  fixes st :: "('f, 'q, 'c) channel_state"
  assumes inv: "channel_inv F fitems fvalid Q qitems qvalid st" and k: "k < length (pubs st)"
    and run: "discard_pending F (pubs st ! k) (cbus st) = Ret (pb, w)"
  defines "st' \<equiv> st\<lparr>pubs := (pubs st)[k := pb], cbus := w\<rparr>"
  shows "channel_inv F fitems fvalid Q qitems qvalid st' \<and> same_shape Q st st'"
proof -
  let ?pb = "pubs st ! k"
  obtain R where R: "\<And>pb. all_pending ((pubs st)[k := pb]) = R + mset (pending pb)"
    "all_pending (pubs st) = R + mset (pending ?pb)"
    "bus_inv F fitems fvalid qitems qvalid (cbus st) ((held st + R) + mset (pending ?pb)) {}"
    using channel_batch [OF inv k] by metis
  have rel: "release_dropped F (cbus st) (pending ?pb) = Ret w" and pb: "pb = ?pb\<lparr>pending := []\<rparr>"
    using run by (auto simp: discard_pending_def)
  have st: "store_inv F fitems fvalid (arenas (cbus st))
      ((held st + R + bus_ptrs qitems (cbus st)) + mset (pending ?pb)) {}"
    using R(3) by (simp add: bus_inv_def ac_simps)
  have subs: "subs w = subs (cbus st)"
    using rel by (auto simp: release_dropped_def)
  then have bp: "bus_ptrs qitems w = bus_ptrs qitems (cbus st)"
    by (simp add: bus_ptrs_def)
  have "bus_inv F fitems fvalid qitems qvalid w (held st + R) {}"
    using fl.store_release_all_law [OF st] rel R(3) subs bp
    by (auto simp: bus_inv_def release_dropped_def)
  moreover have pend: "all_pending (pubs st') = R"
    using R(1) [of pb] pb by (simp add: st'_def)
  moreover have shape: "same_shape Q st st'"
    using pb k dims_dropped [OF rel] subs
    by (auto simp: same_shape_def st'_def map_update list_update_same_conv)
  ultimately show ?thesis
    using shrink_inv [OF inv shape] pb bp inv R(2) k
    by (auto simp: st'_def nth_list_update channel_inv_def)
qed

lemma channel_step_inv:
  fixes st st' :: "('f, 'q, 'c) channel_state"
  assumes step: "channel_step F Q st st'" and inv: "channel_inv F fitems fvalid Q qitems qvalid st"
  shows "channel_inv F fitems fvalid Q qitems qvalid st' \<and> same_shape Q st st'"
proof -
  have bus: "bus_inv F fitems fvalid qitems qvalid (cbus st) (held st + all_pending (pubs st)) {}"
    using inv by (simp add: channel_inv_def)
  from step show ?thesis
  proof cases
    case (publishes k v pb w)
    then show ?thesis using publishes_inv [OF inv] by blast
  next
    case (flushes k ts pb w)
    then show ?thesis using flushes_inv [OF inv] by blast
  next
    case (discards k pb w)
    then show ?thesis using discards_inv [OF inv] by blast
  next
    case (updates s w)
    then show ?thesis
      using subscriber_update_law [OF bus updates(2)] bus_only_inv [OF inv _ dims_subscriber_ops(1) [OF updates(3)]]
      by auto
  next
    case (finishes s w)
    then show ?thesis
      using finish_iteration_law [OF bus finishes(2)] bus_only_inv [OF inv _ dims_subscriber_ops(3) [OF finishes(3)]]
      by auto
  next
    case (clears s w)
    then show ?thesis
      using subscriber_clear_law [OF bus clears(2)] bus_only_inv [OF inv _ dims_subscriber_ops(2) [OF clears(3)]]
      by auto
  next
    case (takes s p w)
    note pop = input_pop_law [OF bus takes(2,4)]
    have shape: "same_shape Q st st'"
      using pop unfolding takes(1) same_shape_def buffer_changed_def by (auto intro!: nth_equalityI)
    have "channel_inv F fitems fvalid Q qitems qvalid st'"
    proof (rule shrink_inv [OF inv shape])
      show "held st' + all_pending (pubs st') + bus_ptrs qitems (cbus st')
          \<subseteq># held st + all_pending (pubs st) + bus_ptrs qitems (cbus st)"
        using conjunct2 [OF conjunct2 [OF conjunct2 [OF pop]], symmetric] by (simp add: takes(1))
    qed (use pop takes(3) in \<open>simp_all add: takes(1)\<close>)
    with shape show ?thesis by blast
  next
    case (drops p w)
    have "store_inv F fitems fvalid (arenas (cbus st))
        ((held st - {#p#} + all_pending (pubs st) + bus_ptrs qitems (cbus st)) + mset [p]) {}"
      using bus drops(2) by (simp add: bus_inv_def)
    from fl.store_release_all_law [OF this] obtain as where as:
      "store_release_all F (arenas (cbus st)) [p] = Ret as"
      "store_inv F fitems fvalid as (held st - {#p#} + all_pending (pubs st) + bus_ptrs qitems (cbus st)) {}"
      by blast
    have w: "w = (cbus st)\<lparr>arenas := as\<rparr>"
      using drops(3) as(1) by (simp add: release_dropped_def)
    have bp: "bus_ptrs qitems w = bus_ptrs qitems (cbus st)"
      by (simp add: w bus_ptrs_def)
    have shape: "same_shape Q st st'"
      using dims_dropped [OF drops(3)] by (simp add: same_shape_def drops(1) w)
    have inv': "bus_inv F fitems fvalid qitems qvalid (cbus st') (held st' + all_pending (pubs st')) {}"
      using as(2) bus bp by (simp add: bus_inv_def drops(1) w)
    have "channel_inv F fitems fvalid Q qitems qvalid st'"
    proof (rule shrink_inv [OF inv shape inv'])
      show "size (held st') \<le> MAX_HELD"
      proof -
        have "size (held st) \<le> MAX_HELD"
          using inv by (simp add: channel_inv_def)
        then show ?thesis
          using drops(2) by (simp add: drops(1) size_Diff_singleton)
      qed
      show "held st' + all_pending (pubs st') + bus_ptrs qitems (cbus st')
          \<subseteq># held st + all_pending (pubs st) + bus_ptrs qitems (cbus st)"
        using diff_subset_eq_self [of "held st" "{#p#}"] by (simp add: drops(1) bp)
    qed (simp_all add: drops(1))
    with shape show ?thesis by blast
  qed
qed

lemma channel_steps_inv:
  fixes st st' :: "('f, 'q, 'c) channel_state"
  assumes "(channel_step F Q)\<^sup>*\<^sup>* st st'" and "channel_inv F fitems fvalid Q qitems qvalid st"
  shows "channel_inv F fitems fvalid Q qitems qvalid st' \<and> same_shape Q st st'"
  using assms(1)
proof (induction rule: rtranclp_induct)
  case base
  then show ?case using assms(2) by (simp add: same_shape_def)
next
  case (step st1 st2)
  then show ?case
    using channel_step_inv [OF step(2)] by (auto simp: same_shape_def)
qed

end

section \<open>From the plan to the running channel\<close>

lemma plan_of_spec:
  "try_bind (publisher_plan cp spec) plan_capacity = Inr c \<longleftrightarrow>
     spec_loan spec \<le> u32_max \<and> (\<forall>s \<in> set (cp_subscribers cp). 0 < spec_capacity s)
     \<and> c = spec_loan spec + (spec_retained spec + forwarding_retention cp)
         + sum_list (map (\<lambda>s. 2 * spec_capacity s + 1) (cp_subscribers cp))
     \<and> c \<le> usize_max"
  by (auto simp: publisher_plan_def checked_usize_def foldl_with_subscriber plan_capacity_Inr
      with_retained_capacity_def storage_plan_new_def comp_def)

definition publisher_budget :: "channel_plan \<Rightarrow> publisher_spec \<Rightarrow> nat" where
  "publisher_budget cp spec = spec_loan spec + (spec_retained spec + forwarding_retention cp)
     + sum_list (map (\<lambda>s. 2 * spec_capacity s + 1) (cp_subscribers cp))"

context slot_queue begin

lemma allocate_all_law:
  fixes sts :: "('q, 'c) publisher_storage list"
  shows "allocate_all Q cp specs = Ret (Inr sts) \<Longrightarrow>
    list_all2 (\<lambda>spec st. arena_inv Q items valid (ps_arena st) {#} {}
      \<and> length (storage (ps_arena st)) = publisher_budget cp spec
      \<and> ps_loan st = spec_loan spec \<and> spec_loan spec \<le> u32_max) specs sts"
proof (induction specs arbitrary: sts)
  case (Cons spec specs)
  obtain pl where pl: "publisher_plan cp spec = Inr pl"
    using Cons.prems by (auto split: sum.splits)
  then obtain st sts' where st: "plan_allocate Q pl = Ret (Inr st)"
    "allocate_all Q cp specs = Ret (Inr sts')" "sts = st # sts'"
    using Cons.prems by (auto simp: propagate_error)
  then obtain c a where c: "plan_capacity pl = Inr c" "arena_new Q c = Ret a"
    "st = \<lparr>ps_arena = a, ps_loan = plan_loan pl\<rparr>"
    by (auto simp: plan_allocate_def split: sum.splits)
  have "try_bind (publisher_plan cp spec) plan_capacity = Inr c"
    using pl c(1) by simp
  then have "c = publisher_budget cp spec" and "spec_loan spec \<le> u32_max"
    unfolding plan_of_spec publisher_budget_def by blast+
  moreover have "plan_loan pl = spec_loan spec"
    using pl by (auto simp: publisher_plan_def checked_usize_def foldl_with_subscriber
        with_retained_capacity_def storage_plan_new_def split: if_splits)
  moreover have "arena_inv Q items valid a {#} {} \<and> length (storage a) = c"
    by (metis arena_new_inv c(2) outcome.inject)
  ultimately show ?case
    using c(3) st Cons.IH by auto
qed auto

end

lemma sum_list_empty: "(\<And>x. x \<in> set xs \<Longrightarrow> f x = {#}) \<Longrightarrow> sum_list (map f xs) = {#}"
  by (induction xs) auto

lemma sum_list_single: "sum_list (map (\<lambda>j. if j = k then X else {#}) [0..<n]) = (if k < n then X else {#})"
  by (induction n) auto

lemma foldl_connect: "foldl connect pb js = pb\<lparr>targets := targets pb @ js\<rparr>"
  by (induction js arbitrary: pb) (auto simp: connect_def)

lemma bind_publisher_Ret:
  assumes "bind_publisher name specs i st = Ret pb"
  shows "pub_arena pb = i \<and> loan_capacity pb = ps_loan st \<and> pending pb = []
    \<and> set (targets pb) \<subseteq> {..<length specs} \<and> ps_loan st \<le> u32_max"
  using assms
  by (auto simp: bind_publisher_def publisher_new_def foldl_connect checked_u32_def split: if_splits)

definition initial_state :: "publisher list \<Rightarrow> ('f, 'q, 'a) bus \<Rightarrow> ('f, 'q, 'a) channel_state" where
  "initial_state pbs w = \<lparr>pubs = pbs, cbus = w, held = {#}\<rparr>"

text \<open>
  Plans of realistic size: with fewer than \<open>2\<^sup>6\<^sup>2\<close> loans and queue places in all, no reference count
  comes near the limit at which \<open>clone\<close> panics. \<open>f\<close> is the capacity function of the deque.
\<close>

definition plan_small :: "(nat \<Rightarrow> nat) \<Rightarrow> channel_plan \<Rightarrow> bool" where
  "plan_small f cp \<longleftrightarrow> sum_list (map spec_loan (cp_publishers cp))
     + sum_list (map (\<lambda>s. spec_capacity s + f (spec_capacity s)) (cp_subscribers cp)) < 2 ^ 62"

text \<open>The capacities of the queues and the actual lengths of the read windows.\<close>

definition bus_load :: "('q, ptr) array_queue \<Rightarrow> ('f, 'q, 'a) bus \<Rightarrow> nat" where
  "bus_load Q w = sum_list (map (\<lambda>s. single_buffer_capacity Q (sub_buffer s)
     + length (read_storage (sub_buffer s))) (subs w))"

context message_bus begin

lemma bind_subscriber_law:
  assumes "bind_subscriber Q f name spec = Ret s" and "spec_capacity spec \<le> f (spec_capacity spec)"
  shows "buffer_inv qvalid (sub_buffer s) \<and> sub_ptrs qitems s = {#}
    \<and> single_buffer_capacity Q (sub_buffer s) = spec_capacity spec
    \<and> read_capacity (sub_buffer s) = f (spec_capacity spec)"
proof -
  obtain b where b: "double_buffer_new Q f (spec_capacity spec) = Ret b" "sub_buffer s = b"
    using assms(1) by (auto simp: bind_subscriber_def subscriber_with_policy_def)
  then show ?thesis
    using wq.double_buffer_new_inv [OF b(1)] assms(2) by (auto simp: sub_ptrs_def)
qed

lemma bound_channel_inv:
  fixes w :: "('f, 'q, 'c) bus"
  assumes alloc: "channel_allocate F cp = Ret (Inr cs)" and bnd: "channel_bind Q f cs = Ret (pbs, w)"
    and deque: "\<forall>s \<in> set (cp_subscribers cp). spec_capacity s \<le> f (spec_capacity s)"
    and small: "plan_small f cp"
  shows "channel_inv F fitems fvalid Q qitems qvalid (initial_state pbs w)"
    and "dims (arenas w) = map (publisher_budget cp) (cp_publishers cp)"
    and "map loan_capacity pbs = map spec_loan (cp_publishers cp)"
    and "map (\<lambda>s. (single_buffer_capacity Q (sub_buffer s), read_capacity (sub_buffer s))) (subs w)
      = map (\<lambda>s. (spec_capacity s, f (spec_capacity s))) (cp_subscribers cp)"
proof -
  obtain sts where sts: "allocate_all F cp (cp_publishers cp) = Ret (Inr sts)"
    "cs = \<lparr>cs_name = cp_name cp, cs_publishers = sts, cs_subscribers = cp_subscribers cp\<rparr>"
    using alloc by (auto simp: channel_allocate_def propagate_error split: sum.splits)
  obtain ss where ss: "list_all2 (\<lambda>spec s. bind_subscriber Q f (cp_name cp) spec = Ret s) (cp_subscribers cp) ss"
    "list_all2 (\<lambda>x pb. (case x of (i, st) \<Rightarrow> bind_publisher (cp_name cp) (cp_subscribers cp) i st) = Ret pb)
       (enumerate 0 sts) pbs"
    "w = \<lparr>arenas = map ps_arena sts, subs = ss, trace = []\<rparr>"
    using bnd by (auto simp: channel_bind_def sts(2) map_outcome_list_eq_Ret)
  note st = fl.allocate_all_law [OF sts(1)]
  have len: "length sts = length (cp_publishers cp)" "length pbs = length sts"
    "length ss = length (cp_subscribers cp)"
    using st ss(1,2) by (auto dest: list_all2_lengthD)
  have pub: "pub_arena (pbs ! k) = k \<and> loan_capacity (pbs ! k) = ps_loan (sts ! k) \<and> pending (pbs ! k) = []
      \<and> set (targets (pbs ! k)) \<subseteq> {..<length ss} \<and> ps_loan (sts ! k) \<le> u32_max" if "k < length pbs" for k
    using list_all2_nthD2 [OF ss(2) that] bind_publisher_Ret [of "cp_name cp" "cp_subscribers cp" k "sts ! k" "pbs ! k"]
      that len by (simp add: nth_enumerate_eq)
  have ar: "arena_inv F fitems fvalid (ps_arena (sts ! k)) {#} {}
      \<and> length (storage (ps_arena (sts ! k))) = publisher_budget cp (cp_publishers cp ! k)
      \<and> ps_loan (sts ! k) = spec_loan (cp_publishers cp ! k)" if "k < length sts" for k
    using list_all2_nthD2 [OF st that] by blast
  have sub: "buffer_inv qvalid (sub_buffer (ss ! k)) \<and> sub_ptrs qitems (ss ! k) = {#}
      \<and> single_buffer_capacity Q (sub_buffer (ss ! k)) = spec_capacity (cp_subscribers cp ! k)
      \<and> read_capacity (sub_buffer (ss ! k)) = f (spec_capacity (cp_subscribers cp ! k))" if "k < length ss" for k
    using bind_subscriber_law [OF list_all2_nthD2 [OF ss(1) that]] deque that len by simp
  show loans: "map loan_capacity pbs = map spec_loan (cp_publishers cp)"
    using pub ar len by (intro nth_equalityI) auto
  show "dims (arenas w) = map (publisher_budget cp) (cp_publishers cp)"
    using ar len ss(3) by (intro nth_equalityI) (auto simp: dims_def)
  show caps: "map (\<lambda>s. (single_buffer_capacity Q (sub_buffer s), read_capacity (sub_buffer s))) (subs w)
      = map (\<lambda>s. (spec_capacity s, f (spec_capacity s))) (cp_subscribers cp)"
    using sub len ss(3) by (intro nth_equalityI) auto
  have room: "bus_room Q w = sum_list (map (\<lambda>s. spec_capacity s + f (spec_capacity s)) (cp_subscribers cp))"
    using arg_cong [OF caps, of "\<lambda>xs. sum_list (map (\<lambda>(a, b). a + b) xs)"]
    by (simp add: bus_room_def comp_def)
  have pend: "all_pending pbs = {#}"
    unfolding all_pending_def using pub by (intro sum_list_empty) (auto simp: in_set_conv_nth)
  have bp: "bus_ptrs qitems w = {#}"
    unfolding bus_ptrs_def using sub ss(3) by (intro sum_list_empty) (auto simp: in_set_conv_nth)
  have "store_inv F fitems fvalid (arenas w) {#} {}"
    using ar ss(3) by (auto simp: store_inv_def)
  then have "bus_inv F fitems fvalid qitems qvalid w {#} {}"
    using sub ss(3) bp by (simp add: bus_inv_def)
  then show "channel_inv F fitems fvalid Q qitems qvalid (initial_state pbs w)"
    using pend bp pub len ss(3) small loans room
    by (auto simp: channel_inv_def initial_state_def room_ok_def plan_small_def MAX_HELD_def)
qed

lemma size_slots_pending:
  assumes "\<And>k'. k' < length pbs \<Longrightarrow> \<forall>p \<in> set (pending (pbs ! k')). fst p = k'" and "k < length pbs"
  shows "slots k (all_pending pbs) = image_mset snd (mset (pending (pbs ! k)))"
proof -
  have own: "slots k (mset ps) = (if j = k then image_mset snd (mset ps) else {#})"
    if "\<forall>p \<in> set ps. fst p = j" for j ps
    using that by (induction ps) auto
  have "slots k (sum_list (map f xs)) = sum_list (map (\<lambda>x. slots k (f x)) xs)" for f and xs :: "publisher list"
    by (induction xs) auto
  then have "slots k (all_pending pbs) = sum_list (map (\<lambda>pb. slots k (mset (pending pb))) pbs)"
    by (simp add: all_pending_def)
  also have "map (\<lambda>pb. slots k (mset (pending pb))) pbs
      = map (\<lambda>j. if j = k then image_mset snd (mset (pending (pbs ! k))) else {#}) [0..<length pbs]"
    using own [OF assms(1)] by (intro nth_equalityI) auto
  also have "sum_list \<dots> = image_mset snd (mset (pending (pbs ! k)))"
    using assms(2) by (simp only: sum_list_single if_True)
  finally show ?thesis .
qed

lemma size_bus_ptrs_load:
  assumes "bus_inv F fitems fvalid qitems qvalid w P U"
  shows "size (bus_ptrs qitems w) \<le> bus_load Q w"
proof -
  have "size (sub_ptrs qitems s) \<le> single_buffer_capacity Q (sub_buffer s) + length (read_storage (sub_buffer s))"
    if "s \<in> set (subs w)" for s
  proof -
    have "buffer_inv qvalid (sub_buffer s)"
      using that assms by (auto simp: bus_inv_def in_set_conv_nth)
    then have "length (written qitems (sub_buffer s)) \<le> single_buffer_capacity Q (sub_buffer s)"
      using wq.mpsc.content_bound by (auto simp: buffer_inv_def written_def single_buffer_capacity_def)
    then show ?thesis by (simp add: sub_ptrs_def)
  qed
  then show ?thesis
    unfolding bus_load_def by (simp add: bus_ptrs_def size_sum_list sum_list_mono)
qed

lemma planned_room:
  fixes st :: "('f, 'q, 'c) channel_state"
  assumes inv: "channel_inv F fitems fvalid Q qitems qvalid st" and k: "k < length (pubs st)"
    and quota: "length (pending (pubs st ! k)) < loan_capacity (pubs st ! k)"
    and held: "size (slots k (held st)) \<le> r"
    and cap: "loan_capacity (pubs st ! k) + r + bus_load Q (cbus st) \<le> length (storage (arenas (cbus st) ! k))"
  shows "\<exists>pb w'. publish F (pubs st ! k) (cbus st) v = Ret (Inr (pb, w'))"
proof -
  let ?pb = "pubs st ! k" and ?w = "cbus st"
  obtain R where R: "all_pending (pubs st) = R + mset (pending ?pb)"
    "bus_inv F fitems fvalid qitems qvalid ?w ((held st + R) + mset (pending ?pb)) {}"
    "batch_exclusive qitems ?w (held st + R) ?pb"
    using channel_batch [OF inv k] by metis
  have ka: "pub_arena ?pb = k" "k < length (arenas ?w)"
    using inv k by (auto simp: channel_inv_def)
  let ?M = "held st + R + mset (pending ?pb) + bus_ptrs qitems ?w"
  have "?M = held st + all_pending (pubs st) + bus_ptrs qitems ?w"
    by (simp add: R(1) add.assoc)
  then have "size (slots k ?M)
      = size (slots k (held st)) + size (slots k (all_pending (pubs st))) + size (slots k (bus_ptrs qitems ?w))"
    by (simp only: slots_simps size_union)
  moreover have "size (slots k (all_pending (pubs st))) = length (pending ?pb)"
    using size_slots_pending [OF channel_inv_pending(2) [OF inv] k] by simp
  moreover have "size (slots k (bus_ptrs qitems ?w)) \<le> bus_load Q ?w"
    using size_slots_le [of k "bus_ptrs qitems ?w"] size_bus_ptrs_load [OF R(2)] by linarith
  ultimately have "size (slots k ?M) < length (storage (arenas ?w ! k))"
    using quota held cap by linarith
  moreover have "card (set_mset (slots k ?M)) \<le> size (slots k ?M)"
    by (simp only: size_multiset_overloaded_eq card_eq_sum) (rule sum_mono, simp add: Suc_le_eq)
  ultimately have "card (set_mset (slots k ?M) \<union> slot_set k {}) \<noteq> length (storage (arenas ?w ! k))"
    by simp
  then show ?thesis
    using publish_law [OF R(2,3), of v] ka quota by (auto split: if_splits)
qed

lemma publish_outcomes:
  fixes st :: "('f, 'q, 'c) channel_state"
  assumes inv: "channel_inv F fitems fvalid Q qitems qvalid st" and k: "k < length (pubs st)"
  shows "if loan_capacity (pubs st ! k) \<le> length (pending (pubs st ! k))
    then publish F (pubs st ! k) (cbus st) v = Ret (Inl LoanCapacityReached)
    else publish F (pubs st ! k) (cbus st) v = Ret (Inl ArenaExhausted)
      \<or> (\<exists>pb w'. publish F (pubs st ! k) (cbus st) v = Ret (Inr (pb, w')))"
proof -
  obtain R where R: "bus_inv F fitems fvalid qitems qvalid (cbus st) ((held st + R) + mset (pending (pubs st ! k))) {}"
    "batch_exclusive qitems (cbus st) (held st + R) (pubs st ! k)"
    using channel_batch [OF inv k] by metis
  have "pub_arena (pubs st ! k) < length (arenas (cbus st))"
    using inv k by (auto simp: channel_inv_def)
  from publish_law [OF R this, of v] show ?thesis by (auto split: if_splits)
qed

lemma window_bound:
  assumes "channel_inv F fitems fvalid Q qitems qvalid st" and "s < length (subs (cbus st))"
  shows "length (read_storage (sub_buffer (subs (cbus st) ! s))) \<le> read_capacity (sub_buffer (subs (cbus st) ! s))"
  using assms by (simp add: channel_inv_def bus_inv_def buffer_inv_def)

lemma channel_ops_return:
  fixes st :: "('f, 'q, 'c) channel_state"
  assumes inv: "channel_inv F fitems fvalid Q qitems qvalid st"
  shows "k < length (pubs st) \<Longrightarrow> \<exists>r. publish F (pubs st ! k) (cbus st) v = Ret r"
    and "k < length (pubs st) \<Longrightarrow> \<exists>r. flush F Q (pubs st ! k) ts (cbus st) = Ret r"
    and "k < length (pubs st) \<Longrightarrow> \<exists>r. discard_pending F (pubs st ! k) (cbus st) = Ret r"
    and "s < length (subs (cbus st)) \<Longrightarrow> \<exists>w. subscriber_update F Q (cbus st) s = Ret w"
    and "s < length (subs (cbus st)) \<Longrightarrow> \<exists>w. finish_iteration F (cbus st) s = Ret w"
    and "s < length (subs (cbus st)) \<Longrightarrow> \<exists>w. subscriber_clear F Q (cbus st) s = Ret w"
    and "p \<in># held st + bus_ptrs qitems (cbus st) \<Longrightarrow> \<exists>m. store_read (arenas (cbus st)) p = Ret m"
proof -
  have bus: "bus_inv F fitems fvalid qitems qvalid (cbus st) (held st + all_pending (pubs st)) {}"
    using inv by (simp add: channel_inv_def)
  show "\<exists>w. subscriber_update F Q (cbus st) s = Ret w" if "s < length (subs (cbus st))"
    using subscriber_update_law [OF bus that] by blast
  show "\<exists>w. finish_iteration F (cbus st) s = Ret w" if "s < length (subs (cbus st))"
    using finish_iteration_law [OF bus that] by blast
  show "\<exists>w. subscriber_clear F Q (cbus st) s = Ret w" if "s < length (subs (cbus st))"
    using subscriber_clear_law [OF bus that] by blast
  show "\<exists>m. store_read (arenas (cbus st)) p = Ret m" if "p \<in># held st + bus_ptrs qitems (cbus st)"
  proof -
    have "store_inv F fitems fvalid (arenas (cbus st))
        (held st + all_pending (pubs st) + bus_ptrs qitems (cbus st)) {}"
      using bus by (simp add: bus_inv_def)
    from fl.store_read_law [OF this, of p] that show ?thesis by auto
  qed
  assume k: "k < length (pubs st)"
  let ?pb = "pubs st ! k"
  obtain R where R: "all_pending (pubs st) = R + mset (pending ?pb)"
    "bus_inv F fitems fvalid qitems qvalid (cbus st) ((held st + R) + mset (pending ?pb)) {}"
    "batch_exclusive qitems (cbus st) (held st + R) ?pb"
    "size (held st + R) + length (pending ?pb) + bus_room Q (cbus st) < usize_max div 2"
    using channel_batch [OF inv k] by metis
  have pub: "pub_arena ?pb < length (arenas (cbus st))"
    and t: "set (targets ?pb) \<subseteq> {..<length (subs (cbus st))}" and l: "length (pending ?pb) \<le> u32_max"
    using inv k by (auto simp: channel_inv_def)
  show "\<exists>r. publish F ?pb (cbus st) v = Ret r"
    using publish_law [OF R(2,3) pub, of v] by (auto split: if_splits)
  show "\<exists>r. flush F Q ?pb ts (cbus st) = Ret r"
    using flush_law [OF R(2,3) t l R(4), of ts] by blast
  have "store_inv F fitems fvalid (arenas (cbus st))
      ((held st + R + bus_ptrs qitems (cbus st)) + mset (pending ?pb)) {}"
    using R(2) by (simp add: bus_inv_def ac_simps)
  from fl.store_release_all_law [OF this] show "\<exists>r. discard_pending F ?pb (cbus st) = Ret r"
    by (auto simp: discard_pending_def release_dropped_def)
qed

end

section \<open>Properties\<close>

text \<open>
  C2: The storage plan is enough. Take a channel whose plan allocates and binds, with fewer than
  \<open>2\<^sup>6\<^sup>2\<close> loans and queue places in all, on queues that behave as documented and a deque that reserves
  at least what it is asked for, and let callbacks and executors publish, flush, discard, update,
  finish, clear, consume and drop in any order, holding at most \<open>2\<^sup>6\<^sup>0\<close> messages at a time. In every
  state reached a publisher with a full batch is refused as having reached its loan capacity; below it, publishing succeeds whenever the
  messages of its arena that are held outside the queues stay within the retained budget and no
  read window holds more than its planned capacity, and only otherwise can it see
  \<open>ArenaExhausted\<close>. A window holds at most what its deque reserved, so with a deque that reserves
  exactly what it is asked for the condition on the windows always holds.
\<close>

theorem planned_storage_suffices:
  assumes "bounded_queue F fitems fvalid" and "bounded_queue Q qitems qvalid"
    and "channel_allocate F cp = Ret (Inr cs)" and "channel_bind Q f cs = Ret (pbs, w)"
    and "\<forall>s \<in> set (cp_subscribers cp). spec_capacity s \<le> f (spec_capacity s)" and "plan_small f cp"
    and "(channel_step F Q)\<^sup>*\<^sup>* (initial_state pbs w) st" and "k < length (pubs st)"
  shows "loan_capacity (pubs st ! k) = spec_loan (cp_publishers cp ! k)
    \<and> (if loan_capacity (pubs st ! k) \<le> length (pending (pubs st ! k))
       then publish F (pubs st ! k) (cbus st) v = Ret (Inl LoanCapacityReached)
       else if size (slots k (held st)) \<le> spec_retained (cp_publishers cp ! k) + forwarding_retention cp
         \<and> (\<forall>s < length (subs (cbus st)).
              length (read_storage (sub_buffer (subs (cbus st) ! s))) \<le> spec_capacity (cp_subscribers cp ! s))
       then \<exists>pb w'. publish F (pubs st ! k) (cbus st) v = Ret (Inr (pb, w'))
       else publish F (pubs st ! k) (cbus st) v = Ret (Inl ArenaExhausted)
         \<or> (\<exists>pb w'. publish F (pubs st ! k) (cbus st) v = Ret (Inr (pb, w'))))
    \<and> length (subs (cbus st)) = length (cp_subscribers cp)
    \<and> (\<forall>s < length (subs (cbus st)).
         length (read_storage (sub_buffer (subs (cbus st) ! s))) \<le> f (spec_capacity (cp_subscribers cp ! s)))"
proof -
  have mb: "message_bus F fitems fvalid Q qitems qvalid"
    using assms(1,2) by (intro message_bus.intro slot_queue.intro)
  note init = message_bus.bound_channel_inv [OF mb assms(3-6)]
  have inv: "channel_inv F fitems fvalid Q qitems qvalid st"
    and shape: "same_shape Q (initial_state pbs w) st"
    using message_bus.channel_steps_inv [OF mb assms(7) init(1)] by auto
  note sf = same_shape_facts [OF shape]
  have k: "k < length pbs" "k < length (cp_publishers cp)"
    using assms(8) sf(1) arg_cong [OF init(3), of length] by (simp_all add: initial_state_def)
  have "dims (arenas (cbus st)) = map (publisher_budget cp) (cp_publishers cp)"
    using shape init(2) by (simp add: same_shape_def initial_state_def)
  then have "dims (arenas (cbus st)) ! k = publisher_budget cp (cp_publishers cp ! k)"
    and "length (dims (arenas (cbus st))) = length (cp_publishers cp)"
    using k by simp_all
  then have arena: "length (storage (arenas (cbus st) ! k)) = publisher_budget cp (cp_publishers cp ! k)"
    using k by (simp add: dims_def)
  have loan: "loan_capacity (pubs st ! k) = spec_loan (cp_publishers cp ! k)"
    using sf(2) [of k] k init(3) by (metis initial_state_def channel_state.select_convs(1) nth_map)
  have caps: "map (\<lambda>s. (single_buffer_capacity Q (sub_buffer s), read_capacity (sub_buffer s))) (subs (cbus st))
      = map (\<lambda>s. (spec_capacity s, f (spec_capacity s))) (cp_subscribers cp)"
    using shape init(4) by (simp add: same_shape_def initial_state_def)
  note len = map_eq_imp_length_eq [OF caps]
  have cap: "single_buffer_capacity Q (sub_buffer (subs (cbus st) ! s)) = spec_capacity (cp_subscribers cp ! s)
      \<and> read_capacity (sub_buffer (subs (cbus st) ! s)) = f (spec_capacity (cp_subscribers cp ! s))"
    if "s < length (subs (cbus st))" for s
    using arg_cong [OF caps, of "\<lambda>xs. xs ! s"] that len by simp
  have room: "loan_capacity (pubs st ! k) + (spec_retained (cp_publishers cp ! k) + forwarding_retention cp)
      + bus_load Q (cbus st) \<le> length (storage (arenas (cbus st) ! k))"
    if "\<forall>s < length (subs (cbus st)).
      length (read_storage (sub_buffer (subs (cbus st) ! s))) \<le> spec_capacity (cp_subscribers cp ! s)"
  proof -
    have "bus_load Q (cbus st) \<le> sum_list (map (\<lambda>s. 2 * spec_capacity s + 1) (cp_subscribers cp))"
      unfolding bus_load_def sum_list_sum_nth using that cap len by (auto intro!: sum_mono)
    then show ?thesis unfolding arena loan publisher_budget_def by simp
  qed
  have "length (read_storage (sub_buffer (subs (cbus st) ! s))) \<le> f (spec_capacity (cp_subscribers cp ! s))"
    if "s < length (subs (cbus st))" for s
    using message_bus.window_bound [OF mb inv that] cap [OF that] by simp
  moreover note message_bus.publish_outcomes [OF mb inv assms(8), of v]
    message_bus.planned_room [OF mb inv assms(8) _ _ room, of v] loan len
  ultimately show ?thesis by (auto simp: not_le)
qed

text \<open>A channel with one publisher of loan capacity one and one subscriber of capacity one.\<close>

definition sample_plan :: channel_plan where
  "sample_plan = snd (declare_subscriber (snd (declare_publisher (channel_plan_new ''c'') 1)) 1)"

definition sample_storage :: "(nat list_queue, nat) channel_storage" where
  "sample_storage = \<lparr>cs_name = ''c'',
     cs_publishers = [\<lparr>ps_arena = \<lparr>arena_capacity = 4,
         storage = replicate 4 \<lparr>ref_count = 0, payload = None\<rparr>,
         free_list = \<lparr>lq_capacity = 4, lq_items = [0, 1, 2, 3]\<rparr>\<rparr>, ps_loan = 1\<rparr>],
     cs_subscribers = [\<lparr>spec_capacity = 1, spec_policy = policy_default, spec_sources = None\<rparr>]\<rparr>"

lemma sample_allocates: "channel_allocate list_array_queue sample_plan = Ret (Inr sample_storage)"
proof -
  have "[0..<4] = [0, 1, 2, 3 :: nat]" by (simp add: upt_rec)
  then show ?thesis
    by (simp add: channel_allocate_def channel_validate_def sample_plan_def declare_subscriber_def
        declare_subscriber_with_policy_def declare_publisher_def channel_plan_new_def checked_u32_def
        u32_max_def publisher_plan_def checked_usize_def usize_max_def with_subscriber_def
        with_retained_capacity_def storage_plan_new_def plan_capacity_def plan_allocate_def arena_new_def
        reallocate_slots_def sample_storage_def)
qed

lemma sample_binds:
  "\<exists>pb w. channel_bind list_array_queue (\<lambda>c. c) sample_storage
     = Ret ([pb], w :: (nat list_queue, ptr list_queue, nat) bus)
   \<and> pending pb = [] \<and> loan_capacity pb = 1"
  by (simp add: channel_bind_def sample_storage_def bind_subscriber_def subscriber_with_policy_def
      double_buffer_new_def mpsc_new_def bind_publisher_def publisher_new_def checked_u32_def u32_max_def
      accepts_source_def connect_def)

lemma sample_plan_facts:
  "\<forall>s \<in> set (cp_subscribers sample_plan). spec_capacity s \<le> (\<lambda>c. c) (spec_capacity s)"
  "plan_small (\<lambda>c. c) sample_plan"
  by (simp_all add: plan_small_def sample_plan_def declare_subscriber_def
      declare_subscriber_with_policy_def declare_publisher_def channel_plan_new_def)

theorem planned_storage_suffices_witness:
  "\<exists>pb w pb' w'. channel_bind list_array_queue (\<lambda>c. c) sample_storage = Ret ([pb], w)
     \<and> publish list_array_queue pb w (5 :: nat) = Ret (Inr (pb', w'))"
proof -
  obtain pb and w :: "(nat list_queue, ptr list_queue, nat) bus" where
    b: "channel_bind list_array_queue (\<lambda>c. c) sample_storage = Ret ([pb], w)"
    and pb: "pending pb = []" "loan_capacity pb = 1"
    using sample_binds by blast
  from planned_storage_suffices [OF lq.bounded_queue_axioms lq.bounded_queue_axioms sample_allocates b
      sample_plan_facts rtranclp.rtrancl_refl, of 0 5] show ?thesis
    using b pb by (auto simp: initial_state_def)
qed

text \<open>
  C12: No call on a bound channel fails. Take a channel whose plan allocates and binds, with fewer
  than \<open>2\<^sup>6\<^sup>2\<close> loans and queue places in all, on queues that behave as documented and a deque that
  reserves at least what it is asked for. In every state reached by any sequence of calls in which
  callbacks hold at most \<open>2\<^sup>6\<^sup>0\<close> messages at a time, the next call returns: publishing (with a slot or a refusal), flushing, discarding, updating, finishing
  and clearing never panic, diverge or touch uninitialised memory, and every message in a queue or
  held by a callback can be read.
\<close>

theorem channel_never_stuck:
  assumes "bounded_queue F fitems fvalid" and "bounded_queue Q qitems qvalid"
    and "channel_allocate F cp = Ret (Inr cs)" and "channel_bind Q f cs = Ret (pbs, w)"
    and "\<forall>s \<in> set (cp_subscribers cp). spec_capacity s \<le> f (spec_capacity s)" and "plan_small f cp"
    and "(channel_step F Q)\<^sup>*\<^sup>* (initial_state pbs w) st"
  shows "(\<forall>k < length (pubs st). (\<exists>r. publish F (pubs st ! k) (cbus st) v = Ret r)
      \<and> (\<exists>r. flush F Q (pubs st ! k) ts (cbus st) = Ret r)
      \<and> (\<exists>r. discard_pending F (pubs st ! k) (cbus st) = Ret r))
    \<and> (\<forall>s < length (subs (cbus st)). (\<exists>w. subscriber_update F Q (cbus st) s = Ret w)
      \<and> (\<exists>w. finish_iteration F (cbus st) s = Ret w) \<and> (\<exists>w. subscriber_clear F Q (cbus st) s = Ret w))
    \<and> (\<forall>p \<in># held st + bus_ptrs qitems (cbus st). \<exists>m. store_read (arenas (cbus st)) p = Ret m)"
proof -
  have mb: "message_bus F fitems fvalid Q qitems qvalid"
    using assms(1,2) by (intro message_bus.intro slot_queue.intro)
  have inv: "channel_inv F fitems fvalid Q qitems qvalid st"
    using message_bus.channel_steps_inv [OF mb assms(7) message_bus.bound_channel_inv(1) [OF mb assms(3-6)]]
    by blast
  show ?thesis
    using message_bus.channel_ops_return [OF mb inv] by blast
qed

theorem channel_never_stuck_witness:
  "\<exists>pb w r. channel_bind list_array_queue (\<lambda>c. c) sample_storage
       = Ret ([pb], w :: (nat list_queue, ptr list_queue, nat) bus)
     \<and> flush list_array_queue list_array_queue pb (from_nanos 1) w = Ret r"
proof -
  obtain pb and w :: "(nat list_queue, ptr list_queue, nat) bus" where
    b: "channel_bind list_array_queue (\<lambda>c. c) sample_storage = Ret ([pb], w)"
    using sample_binds by blast
  from channel_never_stuck [OF lq.bounded_queue_axioms lq.bounded_queue_axioms sample_allocates b
      sample_plan_facts rtranclp.rtrancl_refl, of 0 "from_nanos 1"] show ?thesis
    using b by (auto simp: initial_state_def)
qed

end
