(* ===== verification/Output_Span.thy ===== *)
theory Output_Span
  imports Message_Bus
begin

text \<open>
  \<open>task/src/output.rs\<close>: spans, with which a callback holds several reservations of one publisher at
  a time, and the textual form of \<open>LoanError\<close> (\<open>task/src/publisher.rs\<close>) used in logs.

  A span borrows its publisher, so the operations take the publisher's batch along. A span entry is
  a pointer (initialised or not) with a reservation that returns its quota when it is dropped.
\<close>

section \<open>Model\<close>

record output_span =
  span_capacity :: nat
  span_pending_len :: nat
  outstanding :: nat

definition span_new :: "publisher \<Rightarrow> output_span" where
  "span_new pb =
     \<lparr>span_capacity = loan_capacity pb, span_pending_len = length (pending pb), outstanding = 0\<rparr>"

text \<open>The subtraction of the batch length from the capacity panics when it underflows.\<close>

definition span_loan_uninit ::
  "('f, nat) array_queue \<Rightarrow> output_span \<Rightarrow> publisher \<Rightarrow> ('f, 'q, 'a) bus
     \<Rightarrow> (loan_error + ptr \<times> output_span \<times> ('f, 'q, 'a) bus) outcome" where
  "span_loan_uninit F sp pb w =
     (if span_capacity sp < span_pending_len sp then Panic
      else if span_capacity sp - span_pending_len sp \<le> outstanding sp then Ret (Inl LoanCapacityReached)
      else and_then (allocate_output F w (pub_arena pb)) (\<lambda>r. case r of
        Inl e \<Rightarrow> Ret (Inl e)
      | Inr (p, w') \<Rightarrow> Ret (Inr (p, sp\<lparr>outstanding := outstanding sp + 1\<rparr>, w'))))"

definition span_loan ::
  "('f, nat) array_queue \<Rightarrow> output_span \<Rightarrow> publisher \<Rightarrow> ('f, 'q, 'a) bus \<Rightarrow> 'a
     \<Rightarrow> (loan_error + ptr \<times> output_span \<times> ('f, 'q, 'a) bus) outcome" where
  "span_loan F sp pb w v =
     and_then (span_loan_uninit F sp pb w) (\<lambda>r. case r of
        Inl e \<Rightarrow> Ret (Inl e)
      | Inr (p, sp', w') \<Rightarrow> and_then (output_write w' p v) (\<lambda>w''. Ret (Inr (p, sp', w''))))"

definition enqueue_output :: "output_span \<Rightarrow> publisher \<Rightarrow> ptr \<Rightarrow> output_span \<times> publisher" where
  "enqueue_output sp pb p =
     (let ps = pending pb @ [p] in (sp\<lparr>span_pending_len := length ps\<rparr>, pb\<lparr>pending := ps\<rparr>))"

definition reservation_drop :: "output_span \<Rightarrow> output_span outcome" where
  "reservation_drop sp =
     (if outstanding sp = 0 then Panic else Ret (sp\<lparr>outstanding := outstanding sp - 1\<rparr>))"

definition span_send :: "output_span \<Rightarrow> publisher \<Rightarrow> ptr \<Rightarrow> (output_span \<times> publisher) outcome" where
  "span_send sp pb p =
     (let (sp', pb') = enqueue_output sp pb p in
      and_then (reservation_drop sp') (\<lambda>sp''. Ret (sp'', pb')))"

definition span_drop_entry ::
  "('f, nat) array_queue \<Rightarrow> output_span \<Rightarrow> ('f, 'q, 'a) bus \<Rightarrow> ptr
     \<Rightarrow> (output_span \<times> ('f, 'q, 'a) bus) outcome" where
  "span_drop_entry F sp w p =
     and_then (release_dropped F w [p]) (\<lambda>w'. and_then (reservation_drop sp) (\<lambda>sp'. Ret (sp', w')))"

definition span_drop_uninit ::
  "('f, nat) array_queue \<Rightarrow> output_span \<Rightarrow> ('f, 'q, 'a) bus \<Rightarrow> ptr
     \<Rightarrow> (output_span \<times> ('f, 'q, 'a) bus) outcome" where
  "span_drop_uninit F sp w p =
     and_then (drop_uninit F (arenas w ! fst p) (snd p)) (\<lambda>a.
     and_then (reservation_drop sp) (\<lambda>sp'.
       Ret (sp', w\<lparr>arenas := (arenas w)[fst p := a]\<rparr>)))"

section \<open>Steps of a callback that uses a span\<close>

text \<open>\<open>E\<close> are the initialised entries and \<open>U\<close> the uninitialised ones that the callback holds.\<close>

type_synonym ('f, 'q, 'a) span_state =
  "output_span \<times> publisher \<times> ('f, 'q, 'a) bus \<times> ptr multiset \<times> ptr set"

inductive span_step ::
  "('f, nat) array_queue \<Rightarrow> ('f, 'q, 'a) span_state \<Rightarrow> ('f, 'q, 'a) span_state \<Rightarrow> bool"
  for F :: "('f, nat) array_queue" where
  span_reserves: "span_loan_uninit F sp pb w = Ret (Inr (p, sp', w')) \<Longrightarrow>
    span_step F (sp, pb, w, E, U) (sp', pb, w', E, insert p U)"
| span_writes: "p \<in> U \<Longrightarrow> output_write w p v = Ret w' \<Longrightarrow>
    span_step F (sp, pb, w, E, U) (sp, pb, w', add_mset p E, U - {p})"
| span_sends: "p \<in># E \<Longrightarrow> span_send sp pb p = Ret (sp', pb') \<Longrightarrow>
    span_step F (sp, pb, w, E, U) (sp', pb', w, E - {#p#}, U)"
| span_drops: "p \<in># E \<Longrightarrow> span_drop_entry F sp w p = Ret (sp', w') \<Longrightarrow>
    span_step F (sp, pb, w, E, U) (sp', pb, w', E - {#p#}, U)"
| span_abandons: "p \<in> U \<Longrightarrow> span_drop_uninit F sp w p = Ret (sp', w') \<Longrightarrow>
    span_step F (sp, pb, w, E, U) (sp', pb, w', E, U - {p})"

definition span_inv ::
  "('f, nat) array_queue \<Rightarrow> ('f \<Rightarrow> nat list) \<Rightarrow> ('f \<Rightarrow> bool) \<Rightarrow> ('q \<Rightarrow> ptr list) \<Rightarrow> ('q \<Rightarrow> bool)
     \<Rightarrow> ptr multiset \<Rightarrow> ('f, 'q, 'a) span_state \<Rightarrow> bool" where
  "span_inv F fitems fvalid qitems qvalid P s \<longleftrightarrow>
     (case s of (sp, pb, w, E, U) \<Rightarrow>
        bus_inv F fitems fvalid qitems qvalid w (P + mset (pending pb) + E) U
        \<and> finite U \<and> pub_arena pb < length (arenas w)
        \<and> span_capacity sp = loan_capacity pb \<and> span_pending_len sp = length (pending pb)
        \<and> outstanding sp = size E + card U
        \<and> length (pending pb) + outstanding sp \<le> loan_capacity pb)"

context message_bus begin

lemma drop_uninit_bus_law:
  fixes w :: "('f, 'q, 'c) bus"
  assumes inv: "bus_inv F fitems fvalid qitems qvalid w P U" and p: "p \<in> U"
  shows "\<exists>a. drop_uninit F (arenas w ! fst p) (snd p) = Ret a
    \<and> bus_inv F fitems fvalid qitems qvalid (w\<lparr>arenas := (arenas w)[fst p := a]\<rparr>) P (U - {p})"
proof -
  let ?k = "fst p" and ?M = "P + bus_ptrs qitems w"
  have st: "store_inv F fitems fvalid (arenas w) ?M U"
    using inv by (simp add: bus_inv_def)
  then have k: "?k < length (arenas w)"
    and a: "arena_inv F fitems fvalid (arenas w ! ?k) (slots ?k ?M) (slot_set ?k U)"
    using p by (auto simp: store_inv_def)
  have i: "snd p \<in> slot_set ?k U"
    using p by (simp add: slot_set_def)
  obtain a' where a': "drop_uninit F (arenas w ! ?k) (snd p) = Ret a'"
    "arena_inv F fitems fvalid a' (slots ?k ?M) (slot_set ?k U - {snd p})"
    using fl.drop_uninit_law [OF a i] by blast
  have "store_inv F fitems fvalid ((arenas w)[?k := a']) ?M (U - {p})"
    by (rule store_inv_update [OF st k]) (use a'(2) st in \<open>auto simp: store_inv_def\<close>)
  then show ?thesis
    using a'(1) inv by (auto simp: bus_inv_def bus_ptrs_def)
qed

lemma release_one_law:
  fixes w :: "('f, 'q, 'c) bus"
  assumes "bus_inv F fitems fvalid qitems qvalid w (add_mset p P) U"
  shows "\<exists>w'. release_dropped F w [p] = Ret w' \<and> bus_inv F fitems fvalid qitems qvalid w' P U
    \<and> length (arenas w') = length (arenas w) \<and> subs w' = subs w"
proof -
  have "store_inv F fitems fvalid (arenas w) ((P + bus_ptrs qitems w) + mset [p]) U"
    using assms by (simp add: bus_inv_def)
  from fl.store_release_all_law [OF this] show ?thesis
    using assms by (auto simp: release_dropped_def bus_inv_def bus_ptrs_def)
qed

lemma span_step_inv:
  fixes w :: "('f, 'q, 'c) bus"
  assumes "span_step F (sp, pb, w, E, U) (sp', pb', w', E', U')"
    and inv: "span_inv F fitems fvalid qitems qvalid P (sp, pb, w, E, U)"
  shows "span_inv F fitems fvalid qitems qvalid P (sp', pb', w', E', U')
    \<and> loan_capacity pb' = loan_capacity pb"
proof -
  have bus: "bus_inv F fitems fvalid qitems qvalid w (P + mset (pending pb) + E) U"
    and fin: "finite U" and ar: "pub_arena pb < length (arenas w)"
    and q: "span_capacity sp = loan_capacity pb" "span_pending_len sp = length (pending pb)"
      "outstanding sp = size E + card U" "length (pending pb) + outstanding sp \<le> loan_capacity pb"
    using inv by (auto simp: span_inv_def)
  from assms(1) show ?thesis
  proof cases
    case (span_reserves p)
    then have al: "allocate_output F w (pub_arena pb) = Ret (Inr (p, w'))"
      and sp': "sp' = sp\<lparr>outstanding := outstanding sp + 1\<rparr>"
      and room: "\<not> span_capacity sp - span_pending_len sp \<le> outstanding sp"
      by (auto simp: span_loan_uninit_def propagate_error split: if_splits)
    have "bus_inv F fitems fvalid qitems qvalid w' (P + mset (pending pb) + E) (insert p U)"
      and "p \<notin> U" and "length (arenas w') = length (arenas w)"
      using allocate_output_law [OF bus ar] al by (auto split: if_splits)
    then show ?thesis
      using span_reserves sp' room q fin ar by (auto simp: span_inv_def)
  next
    case (span_writes p v)
    then have "bus_inv F fitems fvalid qitems qvalid w' (add_mset p (P + mset (pending pb) + E)) (U - {p})"
      and "length (arenas w') = length (arenas w)"
      using output_write_law [OF bus, of p v] by auto
    moreover have "card U = Suc (card (U - {p}))"
      using card.remove [OF fin, of p] span_writes by blast
    ultimately show ?thesis
      using span_writes q fin ar by (auto simp: span_inv_def)
  next
    case (span_sends p)
    have "size E = Suc (size (E - {#p#}))"
      using span_sends by (simp add: size_Suc_Diff1)
    moreover have "P + mset (pending pb) + E = P + mset (pending pb @ [p]) + (E - {#p#})"
      using span_sends by simp
    ultimately show ?thesis
      using span_sends q fin ar bus
      by (auto simp: span_inv_def span_send_def enqueue_output_def reservation_drop_def split: if_splits)
  next
    case (span_drops p)
    have eq: "add_mset p (P + mset (pending pb) + (E - {#p#})) = P + mset (pending pb) + E"
      using span_drops by simp
    have "bus_inv F fitems fvalid qitems qvalid w (add_mset p (P + mset (pending pb) + (E - {#p#}))) U"
      using bus unfolding eq .
    from release_one_law [OF this] span_drops
    have "bus_inv F fitems fvalid qitems qvalid w' (P + mset (pending pb) + (E - {#p#})) U"
      and "length (arenas w') = length (arenas w)"
      and "sp' = sp\<lparr>outstanding := outstanding sp - 1\<rparr>" and "outstanding sp \<noteq> 0"
      by (auto simp: span_drop_entry_def reservation_drop_def split: if_splits)
    moreover have "size E = Suc (size (E - {#p#}))"
      using span_drops by (simp add: size_Suc_Diff1)
    ultimately show ?thesis
      using span_drops q fin ar by (auto simp: span_inv_def)
  next
    case (span_abandons p)
    have "bus_inv F fitems fvalid qitems qvalid w' (P + mset (pending pb) + E) (U - {p})"
      and "length (arenas w') = length (arenas w)"
      and "sp' = sp\<lparr>outstanding := outstanding sp - 1\<rparr>"
      using drop_uninit_bus_law [OF bus, of p] span_abandons
      by (auto simp: span_drop_uninit_def reservation_drop_def split: if_splits)
    moreover have "card U = Suc (card (U - {p}))"
      using card.remove [OF fin, of p] span_abandons by blast
    moreover have "E' = E" "U' = U - {p}" "pb' = pb"
      using span_abandons by simp_all
    ultimately show ?thesis
      using q fin ar by (simp add: span_inv_def)
  qed
qed

lemma span_steps_inv:
  fixes s s' :: "('f, 'q, 'c) span_state"
  assumes "(span_step F)\<^sup>*\<^sup>* s s'" and "span_inv F fitems fvalid qitems qvalid P s"
  shows "span_inv F fitems fvalid qitems qvalid P s'
    \<and> loan_capacity (fst (snd s')) = loan_capacity (fst (snd s))"
  using assms(1)
proof (induction rule: rtranclp_induct)
  case base
  then show ?case using assms(2) by simp
next
  case (step s1 s2)
  then show ?case
    by (cases s1 rule: prod_cases5; cases s2 rule: prod_cases5) (auto dest: span_step_inv)
qed

lemma span_loan_cases:
  fixes w :: "('f, 'q, 'c) bus"
  assumes inv: "span_inv F fitems fvalid qitems qvalid P (sp, pb, w, E, U)"
  shows "span_loan_uninit F sp pb w = Ret (Inl LoanCapacityReached)
      \<longleftrightarrow> length (pending pb) + size E + card U = loan_capacity pb"
    and "\<exists>r. span_loan_uninit F sp pb w = Ret r"
proof -
  have bus: "bus_inv F fitems fvalid qitems qvalid w (P + mset (pending pb) + E) U"
    and ar: "pub_arena pb < length (arenas w)"
    and q: "span_capacity sp = loan_capacity pb" "span_pending_len sp = length (pending pb)"
      "outstanding sp = size E + card U" "length (pending pb) + outstanding sp \<le> loan_capacity pb"
    using inv by (auto simp: span_inv_def)
  obtain r where r: "allocate_output F w (pub_arena pb) = Ret r" "r \<noteq> Inl LoanCapacityReached"
    using allocate_output_law [OF bus ar] by (auto split: if_splits)
  show "span_loan_uninit F sp pb w = Ret (Inl LoanCapacityReached)
      \<longleftrightarrow> length (pending pb) + size E + card U = loan_capacity pb"
    using q r by (auto simp: span_loan_uninit_def split: sum.splits)
  show "\<exists>r. span_loan_uninit F sp pb w = Ret r"
    using q r(1) by (cases r) (auto simp: span_loan_uninit_def)
qed

end

section \<open>Textual form of loan errors\<close>

definition loan_error_serialize :: "loan_error \<Rightarrow> string" where
  "loan_error_serialize e =
     (case e of
        LoanCapacityReached \<Rightarrow> ''LoanCapacityReached''
      | ArenaExhausted \<Rightarrow> ''ArenaExhausted''
      | PendingBatchNotEmpty \<Rightarrow> ''PendingBatchNotEmpty''
      | Iox2CannotSendToNative \<Rightarrow> ''Iox2CannotSendToNative''
      | Iox2Loan _ \<Rightarrow> ''Iox2Loan''
      | Iox2Send _ \<Rightarrow> ''Iox2Send'')"

text \<open>
  \<open>parse\<close>: \<open>internal_failure\<close> and \<open>internal_error\<close> are the transport crate's values that stand in
  for the details, which are not written.
\<close>

definition loan_error_parse ::
  "iox2_loan_error \<Rightarrow> iox2_send_error \<Rightarrow> string \<Rightarrow> string + loan_error" where
  "loan_error_parse internal_failure internal_error v =
     (if v = ''LoanCapacityReached'' then Inr LoanCapacityReached
      else if v = ''ArenaExhausted'' then Inr ArenaExhausted
      else if v = ''PendingBatchNotEmpty'' \<or> v = ''HeaderInjectionWithPendingBatch''
      then Inr PendingBatchNotEmpty
      else if v = ''Transport('' @ [CHR 0x22] @ ''header injection requires an empty pending batch'' @ [CHR 0x22] @ '')''
      then Inr PendingBatchNotEmpty
      else if v = ''Iox2CannotSendToNative'' \<or> v = ''LocalPublicationRequiresTransportDelivery''
      then Inr Iox2CannotSendToNative
      else if v = ''Transport('' @ [CHR 0x22] @ ''immediate IPC publication requires transport delivery'' @ [CHR 0x22] @ '')''
      then Inr Iox2CannotSendToNative
      else if v = ''Iox2Loan'' then Inr (Iox2Loan internal_failure)
      else if v = ''Iox2Send'' then Inr (Iox2Send internal_error)
      else Inl (''unknown loan error '' @ [CHR 0x27] @ v @ [CHR 0x27]))"

text \<open>What the visitor can be given: a string, or a map from keys to strings.\<close>

datatype serde_value = SerdeStr string | SerdeMap "(string \<times> string) list"

definition loan_error_deserialize ::
  "iox2_loan_error \<Rightarrow> iox2_send_error \<Rightarrow> serde_value \<Rightarrow> string + loan_error" where
  "loan_error_deserialize internal_failure internal_error v =
     (case v of
        SerdeStr s \<Rightarrow> loan_error_parse internal_failure internal_error s
      | SerdeMap [] \<Rightarrow> Inl ''empty loan error''
      | SerdeMap ((key, s) # _) \<Rightarrow>
          if key \<noteq> ''Transport''
          then Inl (''unknown loan error variant '' @ [CHR 0x27] @ key @ [CHR 0x27])
          else loan_error_parse internal_failure internal_error s)"

section \<open>Properties\<close>

text \<open>
  C38: A span never exceeds its publisher's quota. Starting from a consistent state in which the
  batch fits the loan capacity, whatever sequence of reservations, writes, sends and drops the
  callback performs, the batch plus the entries it still holds fit the loan capacity; a
  reservation is refused for quota exactly when they fill it; and no reservation panics, so the
  subtraction in the quota check never underflows.
\<close>

theorem span_quota:
  assumes "bounded_queue F fitems fvalid" and "bounded_queue Q qitems qvalid"
    and "bus_inv F fitems fvalid qitems qvalid w0 (P + mset (pending pb0)) {}"
    and "pub_arena pb0 < length (arenas w0)" and "length (pending pb0) \<le> loan_capacity pb0"
    and "(span_step F)\<^sup>*\<^sup>* (span_new pb0, pb0, w0, {#}, {}) (sp, pb, w, E, U)"
  shows "length (pending pb) + size E + card U \<le> loan_capacity pb0
    \<and> outstanding sp = size E + card U
    \<and> (span_loan_uninit F sp pb w = Ret (Inl LoanCapacityReached)
        \<longleftrightarrow> length (pending pb) + size E + card U = loan_capacity pb0)
    \<and> (\<exists>r. span_loan_uninit F sp pb w = Ret r)
    \<and> bus_inv F fitems fvalid qitems qvalid w (P + mset (pending pb) + E) U"
proof -
  have mb: "message_bus F fitems fvalid Q qitems qvalid"
    using assms(1,2) by (intro message_bus.intro slot_queue.intro)
  have "span_inv F fitems fvalid qitems qvalid P (span_new pb0, pb0, w0, {#}, {})"
    using assms(3-5) by (simp add: span_inv_def span_new_def)
  from message_bus.span_steps_inv [OF mb assms(6) this]
  have inv: "span_inv F fitems fvalid qitems qvalid P (sp, pb, w, E, U)"
    and cap: "loan_capacity pb = loan_capacity pb0" by auto
  show ?thesis
    using inv message_bus.span_loan_cases [OF mb inv] cap by (simp add: span_inv_def)
qed

theorem span_quota_witness:
  "\<exists>p sp w. span_loan_uninit list_array_queue (span_new sample_publisher) sample_publisher sample_bus
       = Ret (Inr (p, sp, w))
     \<and> span_loan_uninit list_array_queue sp sample_publisher w = Ret (Inl LoanCapacityReached)"
proof -
  have a: "bus_inv list_array_queue lq_items lq_valid lq_items lq_valid sample_bus
      ({#} + mset (pending sample_publisher)) {}"
    using sample_bus_inv by (simp add: sample_publisher_def)
  have b: "pub_arena sample_publisher < length (arenas sample_bus)"
    "length (pending sample_publisher) \<le> loan_capacity sample_publisher"
    by (simp_all add: sample_publisher_def sample_bus_def)
  obtain p sp w where r: "span_loan_uninit list_array_queue (span_new sample_publisher) sample_publisher sample_bus
      = Ret (Inr (p, sp, w))"
    by (simp add: span_loan_uninit_def span_new_def sample_publisher_def sample_bus_def
        allocate_output_def try_allocate_uninit_def)
  have "(span_step list_array_queue)\<^sup>*\<^sup>* (span_new sample_publisher, sample_publisher, sample_bus, {#}, {})
      (sp, sample_publisher, w, {#}, {p})"
    using span_step.span_reserves [OF r] by blast
  from span_quota [OF lq.bounded_queue_axioms lq.bounded_queue_axioms a b this] show ?thesis
    using r by (auto simp: sample_publisher_def)
qed

text \<open>
  The textual form of a loan error. Every error is read back from what is written for it, up
  to the details of the two transport variants; two errors have the same text only if they differ
  in such details; and the names of earlier versions and the tagged transport form are read as the
  errors they stand for.
\<close>

theorem loan_error_round_trip:
  "loan_error_deserialize lf se (SerdeStr (loan_error_serialize e)) =
     Inr (case e of Iox2Loan _ \<Rightarrow> Iox2Loan lf | Iox2Send _ \<Rightarrow> Iox2Send se | _ \<Rightarrow> e)
   \<and> loan_error_deserialize lf se (SerdeMap ((''Transport'', loan_error_serialize e) # rest)) =
     loan_error_deserialize lf se (SerdeStr (loan_error_serialize e))
   \<and> loan_error_deserialize lf se (SerdeStr ''HeaderInjectionWithPendingBatch'') = Inr PendingBatchNotEmpty
   \<and> loan_error_deserialize lf se (SerdeStr ''LocalPublicationRequiresTransportDelivery'')
     = Inr Iox2CannotSendToNative"
  by (cases e) (simp_all add: loan_error_deserialize_def loan_error_parse_def loan_error_serialize_def)

end
