(* ===== verification/Callback_Lifecycle.thy ===== *)
theory Callback_Lifecycle
  imports Channel_Run
begin

text \<open>
  \<open>task/src/callback.rs\<close>, \<open>callback/endpoints.rs\<close> and \<open>callback/node.rs\<close>: what an executor does with
  a callback (prepare, run, commit or cancel), the traversal of a callback's endpoints, and the
  callback node that connects endpoints with a body.

  The trait \<open>Callback\<close> is the record \<open>callback_ops\<close> of its methods over a state. A panicking body
  unwinds through the destructor of \<open>Invocation\<close>, so the body's panic is a value here and the
  effects it had remain. The endpoints are native ones; those of the transport crate are left out.
\<close>

section \<open>The lifecycle of an invocation\<close>

datatype body_result = BodyOk | BodyErr loan_error | BodyPanic

record 's callback_ops =
  update_inputs :: "'s \<Rightarrow> 's outcome"
  required_inputs_ready :: "'s \<Rightarrow> bool"
  required_inputs_available :: "'s \<Rightarrow> bool"
  run_body :: "framework_time \<Rightarrow> 's \<Rightarrow> (body_result \<times> 's) outcome"
  finish_inputs :: "'s \<Rightarrow> 's outcome"
  flush_outputs :: "framework_time \<Rightarrow> 's \<Rightarrow> 's outcome"
  discard_outputs :: "'s \<Rightarrow> 's outcome"

text \<open>\<open>Drop for Invocation\<close>\<close>

definition invocation_drop :: "'s callback_ops \<Rightarrow> bool \<Rightarrow> 's \<Rightarrow> 's outcome" where
  "invocation_drop cb has_run s =
     and_then (discard_outputs cb s) (\<lambda>s'. if has_run then finish_inputs cb s' else Ret s')"

text \<open>\<open>prepare_callback\<close>: when the inputs are not ready the invocation is dropped at once.\<close>

definition prepare_callback :: "'s callback_ops \<Rightarrow> 's \<Rightarrow> (bool \<times> 's) outcome" where
  "prepare_callback cb s =
     and_then (update_inputs cb s) (\<lambda>s'.
       if required_inputs_ready cb s' then Ret (True, s')
       else and_then (invocation_drop cb False s') (\<lambda>s''. Ret (False, s'')))"

text \<open>\<open>PreparedCallback::run\<close>: an error or a panic drops the invocation, which has run.\<close>

definition run_prepared ::
  "'s callback_ops \<Rightarrow> framework_time \<Rightarrow> 's \<Rightarrow> (body_result \<times> 's) outcome" where
  "run_prepared cb now s =
     and_then (run_body cb now s) (\<lambda>(r, s').
       if r = BodyOk then Ret (BodyOk, s')
       else and_then (invocation_drop cb True s') (\<lambda>s''. Ret (r, s'')))"

text \<open>\<open>CompletedCallback::commit\<close>: publish, then drop the invocation.\<close>

definition commit_callback :: "'s callback_ops \<Rightarrow> framework_time \<Rightarrow> 's \<Rightarrow> 's outcome" where
  "commit_callback cb timestamp s = and_then (flush_outputs cb timestamp s) (invocation_drop cb True)"

datatype execution_result = Skipped | Executed | Failed loan_error | Unwound

definition execute_callback ::
  "'s callback_ops \<Rightarrow> framework_time \<Rightarrow> 's \<Rightarrow> (execution_result \<times> 's) outcome" where
  "execute_callback cb now s =
     and_then (prepare_callback cb s) (\<lambda>(ready, s1).
       if \<not> ready then Ret (Skipped, s1)
       else and_then (run_prepared cb now s1) (\<lambda>(r, s2). case r of
         BodyErr e \<Rightarrow> Ret (Failed e, s2)
       | BodyPanic \<Rightarrow> Ret (Unwound, s2)
       | BodyOk \<Rightarrow> and_then (commit_callback cb now s2) (\<lambda>s3. Ret (Executed, s3))))"

section \<open>Traversal of endpoints\<close>

text \<open>The endpoint collections: a single endpoint, none, or a pair of collections.\<close>

datatype 'e endpoints = Endpoint 'e | NoEndpoints | EndpointPair "'e endpoints" "'e endpoints"

fun visit :: "('e \<Rightarrow> 'v \<Rightarrow> 'v) \<Rightarrow> 'e endpoints \<Rightarrow> 'v \<Rightarrow> 'v" where
  "visit f (Endpoint e) v = f e v"
| "visit f NoEndpoints v = v"
| "visit f (EndpointPair a b) v = visit f b (visit f a v)"

fun visit_mut :: "('e \<Rightarrow> 's \<Rightarrow> 's outcome) \<Rightarrow> 'e endpoints \<Rightarrow> 's \<Rightarrow> 's outcome" where
  "visit_mut f (Endpoint e) s = f e s"
| "visit_mut f NoEndpoints s = Ret s"
| "visit_mut f (EndpointPair a b) s = and_then (visit_mut f a s) (visit_mut f b)"

text \<open>The declaration order.\<close>

fun in_order :: "'e endpoints \<Rightarrow> 'e list" where
  "in_order (Endpoint e) = [e]"
| "in_order NoEndpoints = []"
| "in_order (EndpointPair a b) = in_order a @ in_order b"

fun each :: "('e \<Rightarrow> 's \<Rightarrow> 's outcome) \<Rightarrow> 'e list \<Rightarrow> 's \<Rightarrow> 's outcome" where
  "each f [] s = Ret s"
| "each f (e # es) s = and_then (f e s) (each f es)"

lemma each_append: "each f (es @ es') = (\<lambda>s. and_then (each f es s) (each f es'))"
proof (induction es)
  case (Cons e es)
  have "each f ((e # es) @ es') s = and_then (each f (e # es) s) (each f es')" for s
    by (simp add: Cons.IH)
  then show ?case by (rule ext)
qed (simp add: fun_eq_iff)

lemma each_Nil: "each f [] = Ret"
  by (simp add: fun_eq_iff)

lemma visit_fold: "visit f t v = fold f (in_order t) v"
  by (induction t arbitrary: v) auto

lemma visit_mut_each: "visit_mut f t = each f (in_order t)"
proof (induction t)
  case (EndpointPair a b)
  have "visit_mut f (EndpointPair a b) s = each f (in_order (EndpointPair a b)) s" for s
    by (simp add: EndpointPair.IH each_append)
  then show ?case by (rule ext)
qed (simp_all add: fun_eq_iff each_Nil)

section \<open>Callback nodes on native endpoints\<close>

text \<open>An input is a subscriber of the bus, possibly required; an output is a publisher.\<close>

record native_input =
  input_sub :: nat
  input_required :: bool

definition native_update ::
  "('f, nat) array_queue \<Rightarrow> ('q, ptr) array_queue \<Rightarrow> native_input \<Rightarrow> ('f, 'q, 'a) channel_state
     \<Rightarrow> ('f, 'q, 'a) channel_state outcome" where
  "native_update F Q e st =
     and_then (subscriber_update F Q (cbus st) (input_sub e)) (\<lambda>w. Ret (st\<lparr>cbus := w\<rparr>))"

definition native_finish ::
  "('f, nat) array_queue \<Rightarrow> native_input \<Rightarrow> ('f, 'q, 'a) channel_state
     \<Rightarrow> ('f, 'q, 'a) channel_state outcome" where
  "native_finish F e st =
     and_then (finish_iteration F (cbus st) (input_sub e)) (\<lambda>w. Ret (st\<lparr>cbus := w\<rparr>))"

definition native_clear ::
  "('f, nat) array_queue \<Rightarrow> ('q, ptr) array_queue \<Rightarrow> native_input \<Rightarrow> ('f, 'q, 'a) channel_state
     \<Rightarrow> ('f, 'q, 'a) channel_state outcome" where
  "native_clear F Q e st =
     and_then (subscriber_clear F Q (cbus st) (input_sub e)) (\<lambda>w. Ret (st\<lparr>cbus := w\<rparr>))"

definition native_requests ::
  "('q, ptr) array_queue \<Rightarrow> ('f, 'q, 'a) channel_state \<Rightarrow> native_input \<Rightarrow> bool" where
  "native_requests Q st e = requests_execution Q (subs (cbus st) ! input_sub e)"

definition native_ready :: "('f, 'q, 'a) channel_state \<Rightarrow> native_input \<Rightarrow> bool" where
  "native_ready st e \<longleftrightarrow>
     input_required e \<longrightarrow> \<not> read_is_empty (sub_buffer (subs (cbus st) ! input_sub e))"

definition native_available ::
  "('q, ptr) array_queue \<Rightarrow> ('f, 'q, 'a) channel_state \<Rightarrow> native_input \<Rightarrow> bool" where
  "native_available Q st e \<longleftrightarrow> input_required e \<longrightarrow> has_pending Q (subs (cbus st) ! input_sub e)"

definition native_flush ::
  "('f, nat) array_queue \<Rightarrow> ('q, ptr) array_queue \<Rightarrow> framework_time \<Rightarrow> nat
     \<Rightarrow> ('f, 'q, 'a) channel_state \<Rightarrow> ('f, 'q, 'a) channel_state outcome" where
  "native_flush F Q ts k st =
     and_then (flush F Q (pubs st ! k) ts (cbus st)) (\<lambda>(pb, w).
       Ret (st\<lparr>pubs := (pubs st)[k := pb], cbus := w\<rparr>))"

definition native_discard ::
  "('f, nat) array_queue \<Rightarrow> nat \<Rightarrow> ('f, 'q, 'a) channel_state \<Rightarrow> ('f, 'q, 'a) channel_state outcome" where
  "native_discard F k st =
     and_then (discard_pending F (pubs st ! k) (cbus st)) (\<lambda>(pb, w).
       Ret (st\<lparr>pubs := (pubs st)[k := pb], cbus := w\<rparr>))"

record callback_node =
  node_inputs :: "native_input endpoints"
  node_outputs :: "nat endpoints"

definition node_callback ::
  "('f, nat) array_queue \<Rightarrow> ('q, ptr) array_queue \<Rightarrow> callback_node
     \<Rightarrow> (framework_time \<Rightarrow> ('f, 'q, 'a) channel_state \<Rightarrow> (body_result \<times> ('f, 'q, 'a) channel_state) outcome)
     \<Rightarrow> ('f, 'q, 'a) channel_state callback_ops" where
  "node_callback F Q node body = \<lparr>
     update_inputs = visit_mut (native_update F Q) (node_inputs node),
     required_inputs_ready = (\<lambda>st. visit (\<lambda>e ready. ready \<and> native_ready st e) (node_inputs node) True),
     required_inputs_available =
       (\<lambda>st. visit (\<lambda>e ready. ready \<and> native_available Q st e) (node_inputs node) True),
     run_body = body,
     finish_inputs = visit_mut (native_finish F) (node_inputs node),
     flush_outputs = (\<lambda>ts. visit_mut (native_flush F Q ts) (node_outputs node)),
     discard_outputs = visit_mut (native_discard F) (node_outputs node)\<rparr>"

definition has_pending_inputs ::
  "('q, ptr) array_queue \<Rightarrow> callback_node \<Rightarrow> ('f, 'q, 'a) channel_state \<Rightarrow> bool" where
  "has_pending_inputs Q node st =
     visit (\<lambda>e pending. pending \<or> native_requests Q st e) (node_inputs node) False"

definition has_triggering_inputs :: "callback_node \<Rightarrow> ('f, 'q, 'a) channel_state \<Rightarrow> bool" where
  "has_triggering_inputs node st =
     visit (\<lambda>e t. t \<or> triggers_execution (subs (cbus st) ! input_sub e)) (node_inputs node) False"

definition clear_replay_inputs ::
  "('f, nat) array_queue \<Rightarrow> ('q, ptr) array_queue \<Rightarrow> callback_node \<Rightarrow> ('f, 'q, 'a) channel_state
     \<Rightarrow> ('f, 'q, 'a) channel_state outcome" where
  "clear_replay_inputs F Q node = visit_mut (native_clear F Q) (node_inputs node)"

section \<open>Descriptors and logged messages\<close>

text \<open>
  \<open>type_name\<close> is the compiler's name of the type \<open>'a\<close> of the messages.
\<close>

datatype direction = Received | Published

record endpoint_descriptor =
  desc_ordinal :: nat
  desc_channel :: string
  desc_direction :: direction
  desc_transport :: transport
  desc_payload_type :: string
  desc_publisher :: "u32 option"

definition push_descriptor ::
  "direction \<Rightarrow> string \<Rightarrow> string \<Rightarrow> u32 option \<Rightarrow> endpoint_descriptor list \<times> nat \<Rightarrow> endpoint_descriptor list \<times> nat"
  where
  "push_descriptor dir channel type_name pub v =
     (fst v @ [\<lparr>desc_ordinal = snd v, desc_channel = channel, desc_direction = dir,
        desc_transport = Native, desc_payload_type = type_name, desc_publisher = pub\<rparr>], snd v + 1)"

definition recording_endpoints ::
  "string \<Rightarrow> callback_node \<Rightarrow> ('f, 'q, 'a) channel_state \<Rightarrow> endpoint_descriptor list" where
  "recording_endpoints type_name node st =
     (let (ins, _) = visit (\<lambda>e. push_descriptor Received (sub_channel (subs (cbus st) ! input_sub e)) type_name None)
            (node_inputs node) ([], 0);
          (all_ends, _) = visit (\<lambda>k. push_descriptor Published (pub_channel (pubs st ! k)) type_name
            (Some (publisher_index (pubs st ! k)))) (node_outputs node) (ins, 0)
      in all_ends)"

record logged_message =
  logged_ordinal :: nat
  logged_header :: message_header

definition log_headers ::
  "('e \<Rightarrow> message_header list outcome) \<Rightarrow> 'e \<Rightarrow> (logged_message list \<times> nat) outcome
     \<Rightarrow> (logged_message list \<times> nat) outcome" where
  "log_headers headers e v =
     and_then v (\<lambda>(ms, ordinal). and_then (headers e) (\<lambda>hs.
       Ret (ms @ map (\<lambda>h. \<lparr>logged_ordinal = ordinal, logged_header = h\<rparr>) hs, ordinal + 1)))"

definition visit_prepared_messages ::
  "callback_node \<Rightarrow> ('f, 'q, 'a) channel_state \<Rightarrow> logged_message list outcome" where
  "visit_prepared_messages node st =
     and_then (visit (log_headers (\<lambda>e. visit_headers (cbus st) (input_sub e))) (node_inputs node) (Ret ([], 0)))
       (\<lambda>(ms, _). Ret ms)"

definition visit_pending_messages ::
  "callback_node \<Rightarrow> ('f, 'q, 'a) channel_state \<Rightarrow> logged_message list outcome" where
  "visit_pending_messages node st =
     and_then (visit (log_headers (\<lambda>k. visit_pending_headers (pubs st ! k) (cbus st))) (node_outputs node)
       (Ret ([], 0))) (\<lambda>(ms, _). Ret ms)"

text \<open>The remaining visitors of \<open>CallbackNode\<close>. No native endpoint supports staged events.\<close>

definition native_set_waker ::
  "native_input \<Rightarrow> ('f, 'q, 'a) channel_state \<Rightarrow> ('f, 'q, 'a) channel_state outcome" where
  "native_set_waker e st =
     and_then (set_waker (subs (cbus st) ! input_sub e)) (\<lambda>s.
       Ret (st\<lparr>cbus := (cbus st)\<lparr>subs := (subs (cbus st))[input_sub e := s]\<rparr>\<rparr>))"

definition node_set_waker ::
  "callback_node \<Rightarrow> ('f, 'q, 'a) channel_state \<Rightarrow> ('f, 'q, 'a) channel_state outcome" where
  "node_set_waker node = visit_mut native_set_waker (node_inputs node)"

definition visit_channel_names :: "callback_node \<Rightarrow> ('f, 'q, 'a) channel_state \<Rightarrow> string list" where
  "visit_channel_names node st =
     visit (\<lambda>k names. names @ [pub_channel (pubs st ! k)]) (node_outputs node)
       (visit (\<lambda>e names. names @ [sub_channel (subs (cbus st) ! input_sub e)]) (node_inputs node) [])"

definition stage_visit ::
  "('e \<Rightarrow> unit + 's) \<Rightarrow> 'e \<Rightarrow> nat \<times> (unit + 's) option \<Rightarrow> nat \<times> (unit + 's) option" where
  "stage_visit stage e v = (case v of
     (remaining, Some r) \<Rightarrow> (remaining, Some r)
   | (remaining, None) \<Rightarrow> if remaining = 0 then (0, Some (stage e)) else (remaining - 1, None))"

text \<open>The result is an error (\<open>Inl ()\<close>) also when the ordinal names no endpoint.\<close>

definition stage_replay_iox2_event :: "('e \<Rightarrow> unit + 's) \<Rightarrow> 'e endpoints \<Rightarrow> nat \<Rightarrow> unit + 's" where
  "stage_replay_iox2_event stage ends ordinal =
     (case snd (visit (stage_visit stage) ends (ordinal, None)) of Some r \<Rightarrow> r | None \<Rightarrow> Inl ())"

lemma node_ready_iff:
  "required_inputs_ready (node_callback F Q node body) st
     \<longleftrightarrow> (\<forall>e \<in> set (in_order (node_inputs node)). native_ready st e)"
proof -
  have "fold (\<lambda>e ready. ready \<and> native_ready st e) es b \<longleftrightarrow> b \<and> (\<forall>e \<in> set es. native_ready st e)" for es b
    by (induction es arbitrary: b) auto
  then show ?thesis by (simp add: node_callback_def visit_fold)
qed

lemma node_available_iff:
  "required_inputs_available (node_callback F Q node body) st
     \<longleftrightarrow> (\<forall>e \<in> set (in_order (node_inputs node)). native_available Q st e)"
proof -
  have "fold (\<lambda>e ready. ready \<and> native_available Q st e) es b \<longleftrightarrow> b \<and> (\<forall>e \<in> set es. native_available Q st e)"
    for es b
    by (induction es arbitrary: b) auto
  then show ?thesis by (simp add: node_callback_def visit_fold)
qed

section \<open>Traversals that keep a relation\<close>

text \<open>
  From \<open>st\<close> to \<open>st'\<close> nothing was published: no observer was called and nobody was woken, every
  subscriber outside \<open>I\<close> and every publisher outside \<open>K\<close> is as it was, and the subscribers in \<open>I\<close>
  keep their configuration.
\<close>

definition silent ::
  "nat set \<Rightarrow> nat set \<Rightarrow> ('f, 'q, 'a) channel_state \<Rightarrow> ('f, 'q, 'a) channel_state \<Rightarrow> bool" where
  "silent I K st st' \<longleftrightarrow>
     trace (cbus st') = trace (cbus st)
     \<and> length (subs (cbus st')) = length (subs (cbus st)) \<and> length (pubs st') = length (pubs st)
     \<and> (\<forall>t < length (subs (cbus st)). same_config (subs (cbus st') ! t) (subs (cbus st) ! t)
          \<and> (t \<notin> I \<longrightarrow> subs (cbus st') ! t = subs (cbus st) ! t))
     \<and> (\<forall>k < length (pubs st). k \<notin> K \<longrightarrow> pubs st' ! k = pubs st ! k)"

lemma silent_refl [simp]: "silent I K st st"
  by (simp add: silent_def same_config_def)

lemma silent_trans: "silent I K st st1 \<Longrightarrow> silent I K st1 st2 \<Longrightarrow> silent I K st st2"
  by (simp add: silent_def same_config_def)

lemma silent_buffer:
  "buffer_changed Q (cbus st) w s \<Longrightarrow> s \<in> I \<Longrightarrow> silent I K st (st\<lparr>cbus := w, held := H\<rparr>)"
  by (auto simp: silent_def buffer_changed_def same_config_def)

text \<open>The body uses its endpoints: it publishes to outputs, consumes inputs and drops what it holds.\<close>

inductive body_step ::
  "('f, nat) array_queue \<Rightarrow> callback_node \<Rightarrow> ('f, 'q, 'a) channel_state
     \<Rightarrow> ('f, 'q, 'a) channel_state \<Rightarrow> bool"
  for F :: "('f, nat) array_queue" and node :: callback_node where
  body_publishes: "k \<in> set (in_order (node_outputs node)) \<Longrightarrow>
    publish F (pubs st ! k) (cbus st) v = Ret (Inr (pb, w)) \<Longrightarrow>
    body_step F node st (st\<lparr>pubs := (pubs st)[k := pb], cbus := w\<rparr>)"
| body_takes: "e \<in> set (in_order (node_inputs node)) \<Longrightarrow> size (held st) < MAX_HELD \<Longrightarrow>
    input_pop (cbus st) (input_sub e) = (Some p, w) \<Longrightarrow>
    body_step F node st (st\<lparr>cbus := w, held := add_mset p (held st)\<rparr>)"
| body_drops: "p \<in># held st \<Longrightarrow> release_dropped F (cbus st) [p] = Ret w \<Longrightarrow>
    body_step F node st (st\<lparr>cbus := w, held := held st - {#p#}\<rparr>)"

text \<open>The endpoints of the node exist and each output appears once, as ownership ensures.\<close>

definition node_fits :: "callback_node \<Rightarrow> ('f, 'q, 'a) channel_state \<Rightarrow> bool" where
  "node_fits node st \<longleftrightarrow>
     (\<forall>e \<in> set (in_order (node_inputs node)). input_sub e < length (subs (cbus st)))
     \<and> (\<forall>k \<in> set (in_order (node_outputs node)). k < length (pubs st))
     \<and> distinct (in_order (node_outputs node))"

abbreviation input_subs :: "callback_node \<Rightarrow> nat set" where
  "input_subs node \<equiv> input_sub ` set (in_order (node_inputs node))"

abbreviation output_pubs :: "callback_node \<Rightarrow> nat set" where
  "output_pubs node \<equiv> set (in_order (node_outputs node))"

lemma node_fits_silent: "node_fits node st \<Longrightarrow> silent I K st st' \<Longrightarrow> node_fits node st'"
  by (simp add: node_fits_def silent_def)

text \<open>What a flush at time \<open>ts\<close> shows of the batch of publisher \<open>k\<close>, and what it delivers.\<close>

definition batch_trace ::
  "framework_time \<Rightarrow> ('f, 'q, 'a) channel_state \<Rightarrow> nat \<Rightarrow> 'a bus_event list" where
  "batch_trace ts st k =
     (let pb = pubs st ! k in
      concat (map (\<lambda>j. publication pb (subs (cbus st))
        (stamped pb ts j (the (payload_at (arenas (cbus st)) (pending pb ! j))))) [0..<length (pending pb)]))"

definition deliveries :: "('f, 'q, 'a) channel_state \<Rightarrow> nat list \<Rightarrow> nat \<Rightarrow> ptr list" where
  "deliveries st ks t = concat (map (\<lambda>k. concat (map
     (replicate (count_list (targets (pubs st ! k)) t)) (pending (pubs st ! k)))) ks)"

lemma pending_in_all: "k < length pbs \<Longrightarrow> p \<in> set (pending (pbs ! k)) \<Longrightarrow> p \<in># all_pending pbs"
proof -
  assume k: "k < length pbs" and p: "p \<in> set (pending (pbs ! k))"
  obtain R where "\<And>pb. all_pending (pbs[k := pb]) = R + mset (pending pb)"
    using all_pending_split [OF k] by metis
  from this [of "pbs ! k"] p show ?thesis by simp
qed

lemma publication_cong:
  assumes "\<forall>t < length ss. same_config (ss' ! t) (ss ! t)" and "set (targets pb) \<subseteq> {..<length ss}"
  shows "publication pb ss' m = publication pb ss m"
  unfolding publication_def
  by (intro arg_cong2 [where f = append] arg_cong [where f = concat] map_cong refl)
    (use assms in \<open>auto simp: notification_def same_config_def\<close>)

lemma publish_keeps_bus:
  "allocate_output F w k = Ret (Inr (p, w')) \<Longrightarrow> trace w' = trace w \<and> subs w' = subs w"
  "output_write w p v = Ret w' \<Longrightarrow> trace w' = trace w \<and> subs w' = subs w"
  by (auto simp: allocate_output_def output_write_def Let_def split: option.splits)

lemma loan_keeps_bus: "loan F pb w v = Ret (Inr (p, w')) \<Longrightarrow> trace w' = trace w \<and> subs w' = subs w"
  by (auto simp: loan_def loan_uninit_def propagate_error dest!: publish_keeps_bus split: if_splits)

context message_bus begin

lemma write_empty_iff:
  "qvalid (inner (write_queue b)) \<Longrightarrow> write_buffer_is_empty Q b \<longleftrightarrow> written qitems b = []"
  by (simp add: write_buffer_is_empty_def written_def mpsc_is_empty_def wq.is_empty_items)

lemma updates_law:
  fixes st :: "('f, 'q, 'c) channel_state"
  assumes "channel_inv F fitems fvalid Q qitems qvalid st"
    and "\<forall>e \<in> set es. input_sub e < length (subs (cbus st))"
  shows "\<exists>st'. each (native_update F Q) es st = Ret st' \<and> channel_inv F fitems fvalid Q qitems qvalid st'
    \<and> same_shape Q st st' \<and> silent (input_sub ` set es) {} st st'
    \<and> (\<forall>e \<in> set es. let b = sub_buffer (subs (cbus st) ! input_sub e) in
         written qitems (sub_buffer (subs (cbus st') ! input_sub e)) = []
         \<and> read_storage (sub_buffer (subs (cbus st') ! input_sub e))
           = keep_last (read_capacity b) (read_storage b @ written qitems b))"
  using assms
proof (induction es arbitrary: st)
  case (Cons e es)
  let ?s = "input_sub e"
  have bus: "bus_inv F fitems fvalid qitems qvalid (cbus st) (held st + all_pending (pubs st)) {}"
    using Cons.prems by (simp add: channel_inv_def)
  obtain w where w: "subscriber_update F Q (cbus st) ?s = Ret w" "buffer_changed Q (cbus st) w ?s"
    "written qitems (sub_buffer (subs w ! ?s)) = []"
    "read_storage (sub_buffer (subs w ! ?s)) = keep_last (read_capacity (sub_buffer (subs (cbus st) ! ?s)))
        (read_storage (sub_buffer (subs (cbus st) ! ?s)) @ written qitems (sub_buffer (subs (cbus st) ! ?s)))"
    using subscriber_update_law [OF bus, of ?s] Cons.prems(2) by auto
  let ?st = "st\<lparr>cbus := w\<rparr>"
  have step: "channel_step F Q st ?st"
    using w(1) Cons.prems(2) by (auto intro: channel_step.updates)
  note inv = channel_step_inv [OF step Cons.prems(1)]
  have sil: "silent (input_sub ` set (e # es)) {} st ?st"
    using silent_buffer [OF w(2), of "input_sub ` set (e # es)" "{}" "held st"] by simp
  have "\<forall>e \<in> set es. input_sub e < length (subs (cbus ?st))"
    using Cons.prems(2) w(2) by (simp add: buffer_changed_def)
  from Cons.IH [OF conjunct1 [OF inv] this] obtain st' where st':
    "each (native_update F Q) es ?st = Ret st'" "channel_inv F fitems fvalid Q qitems qvalid st'"
    "same_shape Q ?st st'" "silent (input_sub ` set es) {} ?st st'"
    "\<And>e. e \<in> set es \<Longrightarrow> written qitems (sub_buffer (subs (cbus st') ! input_sub e)) = []
       \<and> read_storage (sub_buffer (subs (cbus st') ! input_sub e))
         = keep_last (read_capacity (sub_buffer (subs w ! input_sub e)))
             (read_storage (sub_buffer (subs w ! input_sub e)) @ written qitems (sub_buffer (subs w ! input_sub e)))"
    by (auto simp: Let_def)
  have "silent (input_sub ` set (e # es)) {} ?st st'"
    using st'(4) by (auto simp: silent_def)
  with sil have "silent (input_sub ` set (e # es)) {} st st'" by (rule silent_trans)
  moreover have "same_shape Q st st'"
    using inv st'(3) by (simp add: same_shape_def)
  moreover have "written qitems (sub_buffer (subs (cbus st') ! input_sub e')) = []
      \<and> read_storage (sub_buffer (subs (cbus st') ! input_sub e'))
        = keep_last (read_capacity (sub_buffer (subs (cbus st) ! input_sub e')))
            (read_storage (sub_buffer (subs (cbus st) ! input_sub e'))
             @ written qitems (sub_buffer (subs (cbus st) ! input_sub e')))"
    if e': "e' \<in> set (e # es)" for e'
  proof (cases "input_sub e' = ?s")
    case True
    have cap: "read_capacity (sub_buffer (subs w ! ?s)) = read_capacity (sub_buffer (subs (cbus st) ! ?s))"
      using w(2) Cons.prems(2) by (simp add: buffer_changed_def)
    show ?thesis
    proof (cases "?s \<in> input_sub ` set es")
      case True
      then obtain e2 where "e2 \<in> set es" "input_sub e2 = ?s" by auto
      with st'(5) [of e2] \<open>input_sub e' = ?s\<close> w(3,4) cap show ?thesis
        by (simp add: keep_last_id [OF keep_last_le])
    next
      case False
      then have "subs (cbus st') ! ?s = subs w ! ?s"
        using st'(4) Cons.prems(2) w(2) by (auto simp: silent_def buffer_changed_def)
      with \<open>input_sub e' = ?s\<close> w(3,4) show ?thesis by simp
    qed
  next
    case False
    with e' have "e' \<in> set es" by auto
    moreover have "subs w ! input_sub e' = subs (cbus st) ! input_sub e'"
      using w(2) False Cons.prems(2) e' by (auto simp: buffer_changed_def)
    ultimately show ?thesis using st'(5) [of e'] by simp
  qed
  moreover have "each (native_update F Q) (e # es) st = Ret st'"
    using w(1) st'(1) by (simp add: native_update_def [of F Q e st])
  ultimately show ?case
    using st'(2) by (auto simp: Let_def)
qed (simp add: same_shape_def)

lemma finishes_law:
  fixes st :: "('f, 'q, 'c) channel_state"
  assumes "channel_inv F fitems fvalid Q qitems qvalid st"
    and "\<forall>e \<in> set es. input_sub e < length (subs (cbus st))"
  shows "\<exists>st'. each (native_finish F) es st = Ret st' \<and> channel_inv F fitems fvalid Q qitems qvalid st'
    \<and> same_shape Q st st' \<and> silent (input_sub ` set es) {} st st'"
  using assms
proof (induction es arbitrary: st)
  case (Cons e es)
  let ?I = "input_sub ` set (e # es)"
  have bus: "bus_inv F fitems fvalid qitems qvalid (cbus st) (held st + all_pending (pubs st)) {}"
    using Cons.prems by (simp add: channel_inv_def)
  obtain w where w: "finish_iteration F (cbus st) (input_sub e) = Ret w" "buffer_changed Q (cbus st) w (input_sub e)"
    using finish_iteration_law [OF bus, of "input_sub e"] Cons.prems(2) by auto
  let ?st = "st\<lparr>cbus := w\<rparr>"
  have "channel_step F Q st ?st"
    using w(1) Cons.prems(2) by (auto intro: channel_step.finishes)
  note inv = channel_step_inv [OF this Cons.prems(1)]
  have sil: "silent ?I {} st ?st"
    using silent_buffer [OF w(2), of ?I "{}" "held st"] by simp
  have "\<forall>e \<in> set es. input_sub e < length (subs (cbus ?st))"
    using Cons.prems(2) w(2) by (simp add: buffer_changed_def)
  from Cons.IH [OF conjunct1 [OF inv] this] obtain st' where st':
    "each (native_finish F) es ?st = Ret st'" "channel_inv F fitems fvalid Q qitems qvalid st'"
    "same_shape Q ?st st'" "silent (input_sub ` set es) {} ?st st'"
    by auto
  have "silent ?I {} ?st st'"
    using st'(4) by (auto simp: silent_def)
  with sil have "silent ?I {} st st'" by (rule silent_trans)
  moreover have "same_shape Q st st'"
    using inv st'(3) by (simp add: same_shape_def)
  moreover have "each (native_finish F) (e # es) st = Ret st'"
    using w(1) st'(1) by (simp add: native_finish_def [of F e st])
  ultimately show ?case
    using st'(2) by blast
qed (simp add: same_shape_def)

lemma discards_law:
  fixes st :: "('f, 'q, 'c) channel_state"
  assumes "channel_inv F fitems fvalid Q qitems qvalid st" and "\<forall>k \<in> set ks. k < length (pubs st)"
  shows "\<exists>st'. each (native_discard F) ks st = Ret st' \<and> channel_inv F fitems fvalid Q qitems qvalid st'
    \<and> same_shape Q st st' \<and> silent {} (set ks) st st' \<and> (\<forall>k \<in> set ks. pending (pubs st' ! k) = [])
    \<and> (\<forall>k < length (pubs st). pending (pubs st ! k) = [] \<longrightarrow> pending (pubs st' ! k) = [])"
  using assms
proof (induction ks arbitrary: st)
  case (Cons k ks)
  let ?K = "set (k # ks)"
  have k: "k < length (pubs st)" using Cons.prems(2) by simp
  obtain pb w where w: "discard_pending F (pubs st ! k) (cbus st) = Ret (pb, w)"
    using channel_ops_return(3) [OF Cons.prems(1) k] by auto
  let ?st = "st\<lparr>pubs := (pubs st)[k := pb], cbus := w\<rparr>"
  have pb: "pb = (pubs st ! k)\<lparr>pending := []\<rparr>" and subs: "subs w = subs (cbus st)" "trace w = trace (cbus st)"
    using w by (auto simp: discard_pending_def release_dropped_def)
  have "channel_step F Q st ?st" using w k by (rule channel_step.discards [rotated])
  note inv = channel_step_inv [OF this Cons.prems(1)]
  have sil: "silent {} ?K st ?st"
    using subs by (auto simp: silent_def same_config_def)
  have "\<forall>k \<in> set ks. k < length (pubs ?st)"
    using Cons.prems(2) by simp
  from Cons.IH [OF conjunct1 [OF inv] this] obtain st' where st':
    "each (native_discard F) ks ?st = Ret st'" "channel_inv F fitems fvalid Q qitems qvalid st'"
    "same_shape Q ?st st'" "silent {} (set ks) ?st st'" "\<forall>k \<in> set ks. pending (pubs st' ! k) = []"
    "\<forall>i < length (pubs st). pending (pubs ?st ! i) = [] \<longrightarrow> pending (pubs st' ! i) = []"
    by auto
  have "silent {} ?K ?st st'"
    using st'(4) by (auto simp: silent_def)
  with sil have "silent {} ?K st st'" by (rule silent_trans)
  moreover have "same_shape Q st st'"
    using inv st'(3) by (simp add: same_shape_def)
  moreover have "pending (pubs st' ! k) = []"
    using st'(6) k pb by simp
  moreover have "pending (pubs st' ! i) = []" if "i < length (pubs st)" "pending (pubs st ! i) = []" for i
    using st'(6) that pb by (cases "i = k") simp_all
  moreover have "each (native_discard F) (k # ks) st = Ret st'"
    using w st'(1) by (simp add: native_discard_def [of F k st])
  ultimately show ?case
    using st'(2,5) by auto
qed (simp add: same_shape_def)

lemma flush_batch_law:
  fixes st :: "('f, 'q, 'c) channel_state"
  assumes inv: "channel_inv F fitems fvalid Q qitems qvalid st" and k: "k < length (pubs st)"
  shows "\<exists>w. native_flush F Q ts k st = Ret (st\<lparr>pubs := (pubs st)[k := (pubs st ! k)\<lparr>pending := []\<rparr>], cbus := w\<rparr>)
    \<and> channel_step F Q st (st\<lparr>pubs := (pubs st)[k := (pubs st ! k)\<lparr>pending := []\<rparr>], cbus := w\<rparr>)
    \<and> delivered Q qitems (cbus st) w (deliveries st [k])
    \<and> trace w = trace (cbus st) @ batch_trace ts st k
    \<and> (\<forall>i < length (pubs st). i \<noteq> k \<longrightarrow> (\<forall>p \<in> set (pending (pubs st ! i)).
         payload_at (arenas w) p = payload_at (arenas (cbus st)) p))"
proof -
  let ?pb = "pubs st ! k"
  obtain R where R: "\<And>pb. all_pending ((pubs st)[k := pb]) = R + mset (pending pb)"
    "all_pending (pubs st) = R + mset (pending ?pb)"
    "bus_inv F fitems fvalid qitems qvalid (cbus st) ((held st + R) + mset (pending ?pb)) {}"
    "batch_exclusive qitems (cbus st) (held st + R) ?pb"
    "size (held st + R) + length (pending ?pb) + bus_room Q (cbus st) < usize_max div 2"
    using channel_batch [OF inv k] by metis
  have t: "set (targets ?pb) \<subseteq> {..<length (subs (cbus st))}" and l: "length (pending ?pb) \<le> u32_max"
    using inv k by (auto simp: channel_inv_def)
  from flush_law [OF R(3,4) t l R(5), of ts] obtain w ms where w:
    "flush F Q ?pb ts (cbus st) = Ret (?pb\<lparr>pending := []\<rparr>, w)"
    "bus_inv F fitems fvalid qitems qvalid w (held st + R) {}"
    "length ms = length (pending ?pb)"
    "\<And>j. j < length ms \<Longrightarrow> store_read (arenas (cbus st)) (pending ?pb ! j) = Ret (ms ! j)"
    "delivered Q qitems (cbus st) w (\<lambda>t. concat (map (replicate (count_list (targets ?pb) t)) (pending ?pb)))"
    "\<And>q. q \<in># held st + R \<Longrightarrow> store_read (arenas w) q = store_read (arenas (cbus st)) q"
    "trace w = trace (cbus st)
        @ concat (map (\<lambda>j. publication ?pb (subs (cbus st)) (stamped ?pb ts j (ms ! j))) [0..<length ms])"
    by blast
  have st: "store_inv F fitems fvalid (arenas (cbus st))
      (held st + all_pending (pubs st) + bus_ptrs qitems (cbus st)) {}"
    using inv by (simp add: channel_inv_def bus_inv_def)
  have "the (payload_at (arenas (cbus st)) (pending ?pb ! j)) = ms ! j" if "j < length ms" for j
  proof -
    have "pending ?pb ! j \<in># held st + all_pending (pubs st) + bus_ptrs qitems (cbus st)"
      using that w(3) R(2) by simp
    from fl.store_read_law [OF st this] w(4) [OF that] show ?thesis by auto
  qed
  then have "trace w = trace (cbus st) @ batch_trace ts st k"
    unfolding w(7) batch_trace_def Let_def w(3) by (auto intro!: arg_cong [where f = concat])
  moreover have "payload_at (arenas w) p = payload_at (arenas (cbus st)) p"
    if "i < length (pubs st)" "i \<noteq> k" "p \<in> set (pending (pubs st ! i))" for i p
  proof -
    have "p \<in># all_pending ((pubs st)[k := ?pb\<lparr>pending := []\<rparr>])"
      using that by (intro pending_in_all [of i]) simp_all
    then have p: "p \<in># R" using R(1) by simp
    have "store_inv F fitems fvalid (arenas w) (held st + R + bus_ptrs qitems w) {}"
      using w(2) by (simp add: bus_inv_def)
    from fl.store_read_law [OF this, of p] fl.store_read_law [OF st, of p] w(6) [of p] p R(2)
    show ?thesis by auto
  qed
  moreover have "deliveries st [k] = (\<lambda>t. concat (map (replicate (count_list (targets ?pb) t)) (pending ?pb)))"
    by (simp add: deliveries_def fun_eq_iff)
  ultimately show ?thesis
    using w(1,5) channel_step.flushes [OF k w(1)]
    by (intro exI [of _ w]) (simp add: native_flush_def)
qed

lemma flushes_law:
  fixes st :: "('f, 'q, 'c) channel_state"
  assumes "channel_inv F fitems fvalid Q qitems qvalid st" and "\<forall>k \<in> set ks. k < length (pubs st)"
    and "distinct ks"
  shows "\<exists>st'. each (native_flush F Q ts) ks st = Ret st' \<and> channel_inv F fitems fvalid Q qitems qvalid st'
    \<and> same_shape Q st st' \<and> (\<forall>k < length (pubs st). pubs st' ! k
        = (if k \<in> set ks then (pubs st ! k)\<lparr>pending := []\<rparr> else pubs st ! k))
    \<and> delivered Q qitems (cbus st) (cbus st') (deliveries st ks)
    \<and> trace (cbus st') = trace (cbus st) @ concat (map (batch_trace ts st) ks)"
  using assms
proof (induction ks arbitrary: st)
  case (Cons k ks)
  have k: "k < length (pubs st)" using Cons.prems(2) by simp
  from flush_batch_law [OF Cons.prems(1) k, of ts] obtain w where w:
    "native_flush F Q ts k st = Ret (st\<lparr>pubs := (pubs st)[k := (pubs st ! k)\<lparr>pending := []\<rparr>], cbus := w\<rparr>)"
    "channel_step F Q st (st\<lparr>pubs := (pubs st)[k := (pubs st ! k)\<lparr>pending := []\<rparr>], cbus := w\<rparr>)"
    "delivered Q qitems (cbus st) w (deliveries st [k])"
    "trace w = trace (cbus st) @ batch_trace ts st k"
    "\<And>i p. i < length (pubs st) \<Longrightarrow> i \<noteq> k \<Longrightarrow> p \<in> set (pending (pubs st ! i)) \<Longrightarrow>
       payload_at (arenas w) p = payload_at (arenas (cbus st)) p"
    by blast
  let ?st = "st\<lparr>pubs := (pubs st)[k := (pubs st ! k)\<lparr>pending := []\<rparr>], cbus := w\<rparr>"
  note inv = channel_step_inv [OF w(2) Cons.prems(1)]
  from Cons.IH [OF conjunct1 [OF inv]] Cons.prems(2,3) obtain st' where st':
    "each (native_flush F Q ts) ks ?st = Ret st'" "channel_inv F fitems fvalid Q qitems qvalid st'"
    "same_shape Q ?st st'"
    "\<forall>i < length (pubs st). pubs st' ! i
       = (if i \<in> set ks then (pubs ?st ! i)\<lparr>pending := []\<rparr> else pubs ?st ! i)"
    "delivered Q qitems w (cbus st') (deliveries ?st ks)"
    "trace (cbus st') = trace w @ concat (map (batch_trace ts ?st) ks)"
    by auto
  have other: "pubs ?st ! i = pubs st ! i" "i < length (pubs st)" "i \<noteq> k" if "i \<in> set ks" for i
    using that Cons.prems(2,3) by (auto simp: nth_list_update)
  have "deliveries ?st ks = deliveries st ks"
    using other by (auto simp: deliveries_def fun_eq_iff intro!: arg_cong [where f = concat])
  then have "delivered Q qitems (cbus st) (cbus st') (\<lambda>t. deliveries st [k] t @ deliveries st ks t)"
    using delivered_trans [OF w(3) st'(5)] by simp
  moreover have "(\<lambda>t. deliveries st [k] t @ deliveries st ks t) = deliveries st (k # ks)"
    by (simp add: deliveries_def fun_eq_iff)
  moreover have "batch_trace ts ?st i = batch_trace ts st i" if i: "i \<in> set ks" for i
  proof -
    have "publication (pubs st ! i) (subs w) m = publication (pubs st ! i) (subs (cbus st)) m" for m
      using w(3) Cons.prems(1) other(2) [OF i]
      by (intro publication_cong) (auto simp: delivered_def Let_def channel_inv_def)
    then show ?thesis
      using other [OF i] w(5) [of i]
      by (auto simp: batch_trace_def Let_def intro!: arg_cong [where f = concat])
  qed
  then have "trace (cbus st') = trace (cbus st) @ concat (map (batch_trace ts st) (k # ks))"
    using st'(6) w(4) by (simp cong: map_cong)
  moreover have "pubs st' ! i = (if i \<in> set (k # ks) then (pubs st ! i)\<lparr>pending := []\<rparr> else pubs st ! i)"
    if "i < length (pubs st)" for i
    using st'(4) that by (cases "i = k") simp_all
  moreover have "same_shape Q st st'"
    using inv st'(3) by (simp add: same_shape_def)
  ultimately show ?case
    using w(1) st'(1,2) by simp
next
  case Nil
  have "deliveries st [] = (\<lambda>_. [])"
    by (simp add: deliveries_def fun_eq_iff)
  moreover have "bus_inv F fitems fvalid qitems qvalid (cbus st) (held st + all_pending (pubs st)) {}"
    using Nil by (simp add: channel_inv_def)
  ultimately have "delivered Q qitems (cbus st) (cbus st) (deliveries st [])"
    using delivered_none by (simp only:)
  then show ?case using Nil by (simp add: same_shape_def)
qed

lemma body_step_law:
  fixes st :: "('f, 'q, 'c) channel_state"
  assumes step: "body_step F node st st'" and inv: "channel_inv F fitems fvalid Q qitems qvalid st"
    and fits: "node_fits node st"
  shows "channel_step F Q st st' \<and> silent (input_subs node) (output_pubs node) st st'"
  using step
proof cases
  case (body_publishes k v pb w)
  have k: "k < length (pubs st)" using fits body_publishes(2) by (simp add: node_fits_def)
  have "trace w = trace (cbus st) \<and> subs w = subs (cbus st)"
    using body_publishes(3) by (auto simp: publish_def propagate_error dest!: loan_keeps_bus)
  then have "silent (input_subs node) (output_pubs node) st st'"
    using body_publishes(1,2) k by (auto simp: silent_def same_config_def nth_list_update)
  moreover have "channel_step F Q st st'"
    using channel_step.publishes [OF k body_publishes(3)] body_publishes(1) by simp
  ultimately show ?thesis by blast
next
  case (body_takes e p w)
  have s: "input_sub e < length (subs (cbus st))" using fits body_takes(2) by (simp add: node_fits_def)
  have "bus_inv F fitems fvalid qitems qvalid (cbus st) (held st + all_pending (pubs st)) {}"
    using inv by (simp add: channel_inv_def)
  from input_pop_law [OF this s body_takes(4)] have "silent (input_subs node) (output_pubs node) st st'"
    using silent_buffer [of Q st w "input_sub e"] body_takes(1,2) by blast
  moreover have "channel_step F Q st st'"
    using channel_step.takes [OF s body_takes(3,4)] body_takes(1) by simp
  ultimately show ?thesis by blast
next
  case (body_drops p w)
  have "silent (input_subs node) (output_pubs node) st st'"
    using body_drops(1,3) by (auto simp: silent_def same_config_def release_dropped_def)
  then show ?thesis
    using channel_step.drops [OF body_drops(2,3)] body_drops(1) by blast
qed

lemma body_steps_law:
  fixes st :: "('f, 'q, 'c) channel_state"
  assumes "(body_step F node)\<^sup>*\<^sup>* st st'" and "channel_inv F fitems fvalid Q qitems qvalid st"
    and "node_fits node st"
  shows "channel_inv F fitems fvalid Q qitems qvalid st' \<and> same_shape Q st st'
    \<and> silent (input_subs node) (output_pubs node) st st'"
  using assms(1)
proof (induction rule: rtranclp_induct)
  case base
  then show ?case using assms(2) by (simp add: same_shape_def)
next
  case (step st1 st2)
  then have st1: "channel_inv F fitems fvalid Q qitems qvalid st1" "same_shape Q st st1"
    "silent (input_subs node) (output_pubs node) st st1" by auto
  from body_step_law [OF step.hyps(2) st1(1) node_fits_silent [OF assms(3) st1(3)]]
  have "channel_step F Q st1 st2" and "silent (input_subs node) (output_pubs node) st1 st2" by auto
  with channel_step_inv [of st1 st2] st1 silent_trans show ?case
    by (auto simp: same_shape_def dest: silent_trans)
qed

text \<open>Dropping an invocation discards every batch and, when the body ran, finishes the inputs.\<close>

lemma invocation_drop_law:
  fixes st :: "('f, 'q, 'c) channel_state"
  assumes inv: "channel_inv F fitems fvalid Q qitems qvalid st" and fits: "node_fits node st"
  shows "\<exists>st'. invocation_drop (node_callback F Q node body) has_run st = Ret st'
    \<and> channel_inv F fitems fvalid Q qitems qvalid st' \<and> same_shape Q st st'
    \<and> silent (if has_run then input_subs node else {}) (output_pubs node) st st'
    \<and> (\<forall>k \<in> output_pubs node. pending (pubs st' ! k) = [])"
proof -
  let ?I = "input_subs node" and ?K = "output_pubs node"
  from discards_law [OF inv, of "in_order (node_outputs node)"] fits obtain st1 where st1:
    "each (native_discard F) (in_order (node_outputs node)) st = Ret st1"
    "channel_inv F fitems fvalid Q qitems qvalid st1" "same_shape Q st st1" "silent {} ?K st st1"
    "\<forall>k \<in> ?K. pending (pubs st1 ! k) = []"
    by (auto simp: node_fits_def)
  have s1: "silent ?I ?K st st1" using st1(4) by (auto simp: silent_def)
  show ?thesis
  proof (cases has_run)
    case False
    with st1 show ?thesis
      by (auto simp: invocation_drop_def node_callback_def visit_mut_each)
  next
    case True
    have "node_fits node st1" using fits s1 by (rule node_fits_silent)
    with finishes_law [OF st1(2), of "in_order (node_inputs node)"] obtain st2 where st2:
      "each (native_finish F) (in_order (node_inputs node)) st1 = Ret st2"
      "channel_inv F fitems fvalid Q qitems qvalid st2" "same_shape Q st1 st2" "silent ?I {} st1 st2"
      by (auto simp: node_fits_def)
    have s2: "silent ?I ?K st1 st2" using st2(4) by (auto simp: silent_def)
    have "\<forall>k \<in> ?K. pending (pubs st2 ! k) = []"
      using st1(5) st2(4) \<open>node_fits node st1\<close> by (auto simp: silent_def node_fits_def)
    with True st1(1,3) st2 silent_trans [OF s1 s2] show ?thesis
      by (auto simp: invocation_drop_def node_callback_def visit_mut_each same_shape_def)
  qed
qed

lemma prepare_law:
  fixes st :: "('f, 'q, 'c) channel_state" and body
  assumes inv: "channel_inv F fitems fvalid Q qitems qvalid st" and fits: "node_fits node st"
  defines "cb \<equiv> node_callback F Q node body"
  shows "\<exists>st'. prepare_callback cb st = Ret (required_inputs_available cb st, st')
    \<and> channel_inv F fitems fvalid Q qitems qvalid st' \<and> same_shape Q st st'
    \<and> silent (input_subs node) (output_pubs node) st st'
    \<and> (required_inputs_available cb st \<or> (\<forall>k \<in> output_pubs node. pending (pubs st' ! k) = []))
    \<and> (\<forall>e \<in> set (in_order (node_inputs node)).
         let b = sub_buffer (subs (cbus st) ! input_sub e) in
         read_storage (sub_buffer (subs (cbus st') ! input_sub e))
           = keep_last (read_capacity b) (read_storage b @ written qitems b))"
proof -
  let ?es = "in_order (node_inputs node)"
  from updates_law [OF inv, of ?es] fits obtain st1 where st1:
    "each (native_update F Q) ?es st = Ret st1" "channel_inv F fitems fvalid Q qitems qvalid st1"
    "same_shape Q st st1" "silent (input_subs node) {} st st1"
    "\<And>e. e \<in> set ?es \<Longrightarrow> read_storage (sub_buffer (subs (cbus st1) ! input_sub e))
       = keep_last (read_capacity (sub_buffer (subs (cbus st) ! input_sub e)))
          (read_storage (sub_buffer (subs (cbus st) ! input_sub e))
           @ written qitems (sub_buffer (subs (cbus st) ! input_sub e)))"
    by (auto simp: node_fits_def Let_def)
  have s1: "silent (input_subs node) (output_pubs node) st st1"
    using st1(4) by (auto simp: silent_def)
  have buf: "buffer_inv qvalid (sub_buffer (subs (cbus st) ! input_sub e))" if "e \<in> set ?es" for e
    using inv fits that by (simp add: channel_inv_def bus_inv_def node_fits_def)
  have ready: "native_ready st1 e = native_available Q st e" if e: "e \<in> set ?es" for e
    using buf [OF e] st1(5) [OF e]
    by (auto simp: native_ready_def native_available_def has_pending_def read_is_empty_def
        keep_last_eq_Nil write_empty_iff buffer_inv_def)
  have av: "required_inputs_available cb st = required_inputs_ready cb st1"
    unfolding cb_def node_ready_iff node_available_iff using ready by simp
  show ?thesis
  proof (cases "required_inputs_ready cb st1")
    case True
    with av st1 s1 show ?thesis
      by (auto simp: prepare_callback_def cb_def node_callback_def visit_mut_each Let_def)
  next
    case False
    from invocation_drop_law [OF st1(2) node_fits_silent [OF fits s1], of body False]
    obtain st2 where st2: "invocation_drop cb False st1 = Ret st2"
      "channel_inv F fitems fvalid Q qitems qvalid st2" "same_shape Q st1 st2"
      "silent {} (output_pubs node) st1 st2" "\<forall>k \<in> output_pubs node. pending (pubs st2 ! k) = []"
      by (auto simp: cb_def)
    have "silent (input_subs node) (output_pubs node) st1 st2"
      using st2(4) by (auto simp: silent_def)
    with s1 have "silent (input_subs node) (output_pubs node) st st2" by (rule silent_trans)
    moreover have "subs (cbus st2) ! input_sub e = subs (cbus st1) ! input_sub e" if "e \<in> set ?es" for e
      using st2(4) node_fits_silent [OF fits s1] that by (auto simp: silent_def node_fits_def)
    moreover have "prepare_callback cb st = Ret (False, st2)"
      using False st1(1) st2(1) by (simp add: prepare_callback_def cb_def node_callback_def visit_mut_each)
    ultimately show ?thesis
      using False av st1(3,5) st2(2,3,5) by (auto simp: same_shape_def Let_def)
  qed
qed

text \<open>What becomes of a batch and of the subscribers outside the node when a callback commits.\<close>

lemma commit_law:
  fixes st :: "('f, 'q, 'c) channel_state" and body
  assumes inv: "channel_inv F fitems fvalid Q qitems qvalid st" and fits: "node_fits node st"
  shows "\<exists>st'. commit_callback (node_callback F Q node body) now st = Ret st'
    \<and> channel_inv F fitems fvalid Q qitems qvalid st' \<and> same_shape Q st st'
    \<and> (\<forall>k \<in> output_pubs node. pending (pubs st' ! k) = [])
    \<and> trace (cbus st') = trace (cbus st) @ concat (map (batch_trace now st) (in_order (node_outputs node)))
    \<and> (\<forall>t < length (subs (cbus st)). t \<notin> input_subs node \<longrightarrow>
         written qitems (sub_buffer (subs (cbus st') ! t))
           = keep_last (single_buffer_capacity Q (sub_buffer (subs (cbus st) ! t)))
              (written qitems (sub_buffer (subs (cbus st) ! t)) @ deliveries st (in_order (node_outputs node)) t))"
proof -
  let ?ks = "in_order (node_outputs node)"
  from flushes_law [OF inv, of ?ks now] fits obtain st1 where st1:
    "each (native_flush F Q now) ?ks st = Ret st1" "channel_inv F fitems fvalid Q qitems qvalid st1"
    "same_shape Q st st1" "delivered Q qitems (cbus st) (cbus st1) (deliveries st ?ks)"
    "trace (cbus st1) = trace (cbus st) @ concat (map (batch_trace now st) ?ks)"
    by (auto simp: node_fits_def)
  note len = same_shape_facts [OF st1(3)]
  have fits1: "node_fits node st1" using fits len by (simp add: node_fits_def)
  from invocation_drop_law [OF st1(2) fits1, of body True] obtain st2 where st2:
    "invocation_drop (node_callback F Q node body) True st1 = Ret st2"
    "channel_inv F fitems fvalid Q qitems qvalid st2"
    "silent (input_subs node) (output_pubs node) st1 st2"
    "\<forall>k \<in> output_pubs node. pending (pubs st2 ! k) = []" "same_shape Q st1 st2"
    by auto
  have "commit_callback (node_callback F Q node body) now st = Ret st2"
    using st1(1) st2(1) by (simp add: commit_callback_def) (simp add: node_callback_def visit_mut_each)
  moreover have "written qitems (sub_buffer (subs (cbus st2) ! t))
      = keep_last (single_buffer_capacity Q (sub_buffer (subs (cbus st) ! t)))
          (written qitems (sub_buffer (subs (cbus st) ! t)) @ deliveries st ?ks t)"
    if "t < length (subs (cbus st))" "t \<notin> input_subs node" for t
    using st1(4) st2(3) that by (auto simp: delivered_def silent_def Let_def)
  ultimately show ?thesis
    using st1(3,5) st2(2-5) by (auto simp: silent_def same_shape_def)
qed

end

text \<open>What follows a successful preparation.\<close>

definition finish_execution ::
  "'s callback_ops \<Rightarrow> framework_time \<Rightarrow> 's \<Rightarrow> (execution_result \<times> 's) outcome" where
  "finish_execution cb now s =
     and_then (run_prepared cb now s) (\<lambda>(r, s2). case r of
         BodyErr e \<Rightarrow> Ret (Failed e, s2)
       | BodyPanic \<Rightarrow> Ret (Unwound, s2)
       | BodyOk \<Rightarrow> and_then (commit_callback cb now s2) (\<lambda>s3. Ret (Executed, s3)))"

context message_bus begin

lemma finish_law:
  fixes st :: "('f, 'q, 'c) channel_state" and body
  assumes inv: "channel_inv F fitems fvalid Q qitems qvalid st" and fits: "node_fits node st"
    and body: "body now st = Ret (r, st2)" and steps: "(body_step F node)\<^sup>*\<^sup>* st st2"
  defines "cb \<equiv> node_callback F Q node body"
  shows "r \<noteq> BodyOk \<Longrightarrow> \<exists>x st'. finish_execution cb now st = Ret (x, st') \<and> x \<noteq> Executed \<and> x \<noteq> Skipped
      \<and> channel_inv F fitems fvalid Q qitems qvalid st' \<and> (\<forall>k \<in> output_pubs node. pending (pubs st' ! k) = [])
      \<and> silent (input_subs node) (output_pubs node) st st'"
    and "r = BodyOk \<Longrightarrow> \<exists>st'. finish_execution cb now st = Ret (Executed, st')
      \<and> channel_inv F fitems fvalid Q qitems qvalid st' \<and> (\<forall>k \<in> output_pubs node. pending (pubs st' ! k) = [])
      \<and> trace (cbus st') = trace (cbus st) @ concat (map (batch_trace now st2) (in_order (node_outputs node)))
      \<and> (\<forall>t < length (subs (cbus st)). t \<notin> input_subs node \<longrightarrow> written qitems (sub_buffer (subs (cbus st') ! t))
           = keep_last (single_buffer_capacity Q (sub_buffer (subs (cbus st) ! t)))
              (written qitems (sub_buffer (subs (cbus st) ! t)) @ deliveries st2 (in_order (node_outputs node)) t))"
proof -
  let ?I = "input_subs node" and ?K = "output_pubs node"
  have run: "run_body cb now st = Ret (r, st2)" using body by (simp add: cb_def node_callback_def)
  have inv2: "channel_inv F fitems fvalid Q qitems qvalid st2" and s2: "silent ?I ?K st st2"
    using body_steps_law [OF steps inv fits] by auto
  have fits2: "node_fits node st2" using fits s2 by (rule node_fits_silent)
  show "\<exists>x st'. finish_execution cb now st = Ret (x, st') \<and> x \<noteq> Executed \<and> x \<noteq> Skipped
      \<and> channel_inv F fitems fvalid Q qitems qvalid st' \<and> (\<forall>k \<in> ?K. pending (pubs st' ! k) = [])
      \<and> silent ?I ?K st st'" if r: "r \<noteq> BodyOk"
  proof -
    from invocation_drop_law [OF inv2 fits2, of body True] obtain st3 where st3:
      "invocation_drop cb True st2 = Ret st3" "channel_inv F fitems fvalid Q qitems qvalid st3"
      "silent ?I ?K st2 st3" "\<forall>k \<in> ?K. pending (pubs st3 ! k) = []"
      by (auto simp: cb_def)
    have "silent ?I ?K st st3" using s2 st3(3) by (rule silent_trans)
    then show ?thesis
      using run r st3 by (cases r) (simp_all add: finish_execution_def run_prepared_def)
  qed
  assume r: "r = BodyOk"
  have old: "trace (cbus st2) = trace (cbus st)" "length (subs (cbus st2)) = length (subs (cbus st))"
    "\<And>t. t < length (subs (cbus st)) \<Longrightarrow> t \<notin> ?I \<Longrightarrow> subs (cbus st2) ! t = subs (cbus st) ! t"
    using s2 by (auto simp: silent_def)
  have "finish_execution cb now st = and_then (commit_callback cb now st2) (\<lambda>s. Ret (Executed, s))"
    using run r by (simp add: finish_execution_def run_prepared_def)
  moreover obtain st4 where st4:
    "commit_callback cb now st2 = Ret st4" "channel_inv F fitems fvalid Q qitems qvalid st4"
    "\<forall>k \<in> ?K. pending (pubs st4 ! k) = []"
    "trace (cbus st4) = trace (cbus st2) @ concat (map (batch_trace now st2) (in_order (node_outputs node)))"
    "\<forall>t < length (subs (cbus st2)). t \<notin> ?I \<longrightarrow> written qitems (sub_buffer (subs (cbus st4) ! t))
         = keep_last (single_buffer_capacity Q (sub_buffer (subs (cbus st2) ! t)))
            (written qitems (sub_buffer (subs (cbus st2) ! t)) @ deliveries st2 (in_order (node_outputs node)) t)"
    using commit_law [OF inv2 fits2, of body now] unfolding cb_def by blast
  ultimately show "\<exists>st'. finish_execution cb now st = Ret (Executed, st')
      \<and> channel_inv F fitems fvalid Q qitems qvalid st' \<and> (\<forall>k \<in> ?K. pending (pubs st' ! k) = [])
      \<and> trace (cbus st') = trace (cbus st) @ concat (map (batch_trace now st2) (in_order (node_outputs node)))
      \<and> (\<forall>t < length (subs (cbus st)). t \<notin> ?I \<longrightarrow> written qitems (sub_buffer (subs (cbus st') ! t))
           = keep_last (single_buffer_capacity Q (sub_buffer (subs (cbus st) ! t)))
              (written qitems (sub_buffer (subs (cbus st) ! t)) @ deliveries st2 (in_order (node_outputs node)) t))"
    using old by auto
qed

end

text \<open>
  The body of a callback returns, as a result or by unwinding, and uses its own endpoints only.
\<close>

definition body_confined ::
  "('f, nat) array_queue \<Rightarrow> callback_node \<Rightarrow> (('f, 'q, 'a) channel_state \<Rightarrow> bool)
     \<Rightarrow> (('f, 'q, 'a) channel_state \<Rightarrow> (body_result \<times> ('f, 'q, 'a) channel_state) outcome) \<Rightarrow> bool" where
  "body_confined F node good body \<longleftrightarrow>
     (\<forall>t. good t \<longrightarrow> node_fits node t \<longrightarrow> (\<exists>r t'. body t = Ret (r, t') \<and> (body_step F node)\<^sup>*\<^sup>* t t'))"

section \<open>Properties\<close>

text \<open>
  C3: A callback publishes everything or nothing. At a consistent state, \<open>execute_callback\<close> on a
  node returns and leaves a consistent state with every output batch empty. It skips the body
  exactly when some required input has no message, queued or retained. Skipped, failed and unwound
  invocations publish nothing: no observer runs, nobody is woken, and no subscriber outside the node
  changes. A successful one publishes all batches as the body left them, output by output in
  declaration order, stamped with the invocation time, and every subscriber outside the node
  receives exactly those messages.
\<close>

theorem execute_callback_transactional:
  assumes "bounded_queue F fitems fvalid" and "bounded_queue Q qitems qvalid"
    and inv: "channel_inv F fitems fvalid Q qitems qvalid st" and fits: "node_fits node st"
    and body: "body_confined F node (channel_inv F fitems fvalid Q qitems qvalid) (body now)"
  shows "\<exists>r st'. execute_callback (node_callback F Q node body) now st = Ret (r, st')
    \<and> channel_inv F fitems fvalid Q qitems qvalid st'
    \<and> (\<forall>k \<in> output_pubs node. pending (pubs st' ! k) = [])
    \<and> (r = Skipped \<longleftrightarrow> \<not> required_inputs_available (node_callback F Q node body) st)
    \<and> (r \<noteq> Executed \<longrightarrow> silent (input_subs node) (output_pubs node) st st')
    \<and> (r = Executed \<longrightarrow> (\<exists>st1 st2. prepare_callback (node_callback F Q node body) st = Ret (True, st1)
         \<and> body now st1 = Ret (BodyOk, st2)
         \<and> trace (cbus st') = trace (cbus st) @ concat (map (batch_trace now st2) (in_order (node_outputs node)))
         \<and> (\<forall>t < length (subs (cbus st)). t \<notin> input_subs node \<longrightarrow>
              written qitems (sub_buffer (subs (cbus st') ! t))
                = keep_last (single_buffer_capacity Q (sub_buffer (subs (cbus st) ! t)))
                   (written qitems (sub_buffer (subs (cbus st) ! t))
                    @ deliveries st2 (in_order (node_outputs node)) t))))"
proof -
  have mb: "message_bus F fitems fvalid Q qitems qvalid"
    using assms(1,2) by (intro message_bus.intro slot_queue.intro)
  let ?cb = "node_callback F Q node body" and ?I = "input_subs node" and ?K = "output_pubs node"
  from message_bus.prepare_law [OF mb inv fits, of body] obtain st1 where st1:
    "prepare_callback ?cb st = Ret (required_inputs_available ?cb st, st1)"
    "channel_inv F fitems fvalid Q qitems qvalid st1" "silent ?I ?K st st1"
    "required_inputs_available ?cb st \<or> (\<forall>k \<in> ?K. pending (pubs st1 ! k) = [])"
    by blast
  have fits1: "node_fits node st1" using fits st1(3) by (rule node_fits_silent)
  obtain r st2 where st2: "body now st1 = Ret (r, st2)" "(body_step F node)\<^sup>*\<^sup>* st1 st2"
    using body st1(2) fits1 unfolding body_confined_def by blast
  note finish = message_bus.finish_law [where body = body and now = now, OF mb st1(2) fits1 st2]
  show ?thesis
  proof (cases "required_inputs_available ?cb st")
    case False
    with st1 show ?thesis by (simp add: execute_callback_def)
  next
    case True
    then have ex: "execute_callback ?cb now st = finish_execution ?cb now st1"
      using st1(1) by (simp add: execute_callback_def finish_execution_def)
    show ?thesis
    proof (cases "r = BodyOk")
      case False
      with finish(1) obtain x st' where "finish_execution ?cb now st1 = Ret (x, st')" "x \<noteq> Executed" "x \<noteq> Skipped"
        "channel_inv F fitems fvalid Q qitems qvalid st'" "\<forall>k \<in> ?K. pending (pubs st' ! k) = []" "silent ?I ?K st1 st'"
        by blast
      with True ex silent_trans [OF st1(3)] show ?thesis by simp
    next
      case ok: True
      have "trace (cbus st1) = trace (cbus st)" and "length (subs (cbus st1)) = length (subs (cbus st))"
        and "\<And>t. t < length (subs (cbus st)) \<Longrightarrow> t \<notin> ?I \<Longrightarrow> subs (cbus st1) ! t = subs (cbus st) ! t"
        using st1(3) by (auto simp: silent_def)
      with finish(2) [OF ok] True ok ex st1(1) st2(1) show ?thesis by auto
    qed
  qed
qed

text \<open>A callback without inputs whose body publishes the number five on its only output.\<close>

definition sample_node :: callback_node where
  "sample_node = \<lparr>node_inputs = NoEndpoints, node_outputs = Endpoint 0\<rparr>"

definition sample_body ::
  "framework_time \<Rightarrow> (nat list_queue, ptr list_queue, nat) channel_state
     \<Rightarrow> (body_result \<times> (nat list_queue, ptr list_queue, nat) channel_state) outcome" where
  "sample_body now st = and_then (publish list_array_queue (pubs st ! 0) (cbus st) 5) (\<lambda>r. case r of
     Inl e \<Rightarrow> Ret (BodyErr e, st)
   | Inr (pb, w) \<Rightarrow> Ret (BodyOk, st\<lparr>pubs := (pubs st)[0 := pb], cbus := w\<rparr>))"

lemma sample_body_confined:
  "body_confined list_array_queue sample_node
     (channel_inv list_array_queue lq_items lq_valid list_array_queue lq_items lq_valid) (sample_body now)"
  unfolding body_confined_def
proof (intro allI impI)
  fix t :: "(nat list_queue, ptr list_queue, nat) channel_state"
  assume t: "channel_inv list_array_queue lq_items lq_valid list_array_queue lq_items lq_valid t"
    and "node_fits sample_node t"
  then have "0 < length (pubs t)" by (simp add: node_fits_def sample_node_def)
  from lqb.channel_ops_return(1) [OF t this] obtain r where
    r: "publish list_array_queue (pubs t ! 0) (cbus t) 5 = Ret r" by blast
  show "\<exists>r t'. sample_body now t = Ret (r, t') \<and> (body_step list_array_queue sample_node)\<^sup>*\<^sup>* t t'"
  proof (cases r)
    case (Inl e)
    with r show ?thesis by (auto simp: sample_body_def)
  next
    case (Inr a)
    obtain pb w where a: "a = (pb, w)" by (cases a)
    have "body_step list_array_queue sample_node t (t\<lparr>pubs := (pubs t)[0 := pb], cbus := w\<rparr>)"
      using r Inr a by (intro body_publishes) (simp_all add: sample_node_def)
    with r Inr a show ?thesis by (auto simp: sample_body_def)
  qed
qed

theorem execute_callback_transactional_witness:
  "\<exists>pb w r st'. channel_bind list_array_queue (\<lambda>c. c) sample_storage = Ret ([pb], w)
     \<and> execute_callback (node_callback list_array_queue list_array_queue sample_node sample_body)
         (from_nanos 3) (initial_state [pb] w) = Ret (r, st')
     \<and> r \<noteq> Skipped \<and> pending (pubs st' ! 0) = []"
proof -
  obtain pb and w :: "(nat list_queue, ptr list_queue, nat) bus" where
    b: "channel_bind list_array_queue (\<lambda>c. c) sample_storage = Ret ([pb], w)"
    using sample_binds by blast
  note inv = lqb.bound_channel_inv(1) [OF sample_allocates b sample_plan_facts]
  have "node_fits sample_node (initial_state [pb] w)"
    by (simp add: node_fits_def sample_node_def initial_state_def)
  from execute_callback_transactional [where body = sample_body and now = "from_nanos 3",
      OF lq.bounded_queue_axioms lq.bounded_queue_axioms inv this sample_body_confined] show ?thesis
    using b by (auto simp: node_available_iff sample_node_def)
qed

lemma visit_push_descriptor:
  "visit (\<lambda>e. push_descriptor dir (c e) type_name (pub e)) t (ds, n)
     = (ds @ map (\<lambda>(i, e). \<lparr>desc_ordinal = i, desc_channel = c e, desc_direction = dir,
          desc_transport = Native, desc_payload_type = type_name, desc_publisher = pub e\<rparr>) (enumerate n (in_order t)),
        n + length (in_order t))"
proof -
  have "fold (\<lambda>e. push_descriptor dir (c e) type_name (pub e)) es (ds, n)
     = (ds @ map (\<lambda>(i, e). \<lparr>desc_ordinal = i, desc_channel = c e, desc_direction = dir,
          desc_transport = Native, desc_payload_type = type_name, desc_publisher = pub e\<rparr>) (enumerate n es), n + length es)" for es
    by (induction es arbitrary: ds n) (simp_all add: push_descriptor_def)
  then show ?thesis by (simp add: visit_fold)
qed

lemma visit_log_headers:
  "visit (log_headers hs) t (Ret (ms, n))
     = and_then (map_outcome_list (\<lambda>(i, e). and_then (hs e)
          (\<lambda>h. Ret (map (\<lambda>x. \<lparr>logged_ordinal = i, logged_header = x\<rparr>) h))) (enumerate n (in_order t)))
        (\<lambda>mss. Ret (ms @ concat mss, n + length (in_order t)))"
proof -
  have stuck: "fold (log_headers hs) es Panic = Panic" "fold (log_headers hs) es Undefined = Undefined"
    "fold (log_headers hs) es Diverges = Diverges" for es
    by (induction es) (simp_all add: log_headers_def)
  have "fold (log_headers hs) es (Ret (ms, n))
     = and_then (map_outcome_list (\<lambda>(i, e). and_then (hs e)
          (\<lambda>h. Ret (map (\<lambda>x. \<lparr>logged_ordinal = i, logged_header = x\<rparr>) h))) (enumerate n es))
        (\<lambda>mss. Ret (ms @ concat mss, n + length es))" for es
  proof (induction es arbitrary: ms n)
    case (Cons e es)
    show ?case
    proof (cases "hs e")
      case (Ret h)
      then show ?thesis by (simp add: log_headers_def [of hs e] Cons.IH)
    qed (simp_all add: log_headers_def [of hs e] stuck)
  qed simp
  then show ?thesis by (simp add: visit_fold)
qed

text \<open>
  The descriptors name every endpoint of a node once: inputs and outputs are numbered from zero
  in declaration order, so that direction and ordinal identify an endpoint. A message reported of
  the prepared inputs carries the ordinal of an input whose snapshot holds a message with that header,
  and the descriptor at this position describes that input.
\<close>

theorem recording_identifies_endpoints:
  shows "distinct (map (\<lambda>d. (desc_direction d, desc_ordinal d)) (recording_endpoints type_name node st))
    \<and> length (recording_endpoints type_name node st) = length (in_order (node_inputs node)) + length (in_order (node_outputs node))
    \<and> (\<forall>ms. visit_prepared_messages node st = Ret ms \<longrightarrow> (\<forall>m \<in> set ms.
         logged_ordinal m < length (in_order (node_inputs node))
         \<and> (let s = input_sub (in_order (node_inputs node) ! logged_ordinal m) in
            (\<exists>hs. visit_headers (cbus st) s = Ret hs \<and> logged_header m \<in> set hs)
            \<and> recording_endpoints type_name node st ! logged_ordinal m
              = \<lparr>desc_ordinal = logged_ordinal m, desc_channel = sub_channel (subs (cbus st) ! s),
                 desc_direction = Received, desc_transport = Native, desc_payload_type = type_name, desc_publisher = None\<rparr>)))"
proof (intro conjI allI impI ballI)
  let ?is = "in_order (node_inputs node)" and ?os = "in_order (node_outputs node)"
  let ?in = "\<lambda>(i, e). \<lparr>desc_ordinal = i, desc_channel = sub_channel (subs (cbus st) ! input_sub e),
      desc_direction = Received, desc_transport = Native, desc_payload_type = type_name, desc_publisher = None\<rparr>"
  let ?out = "\<lambda>(i, k). \<lparr>desc_ordinal = i, desc_channel = pub_channel (pubs st ! k), desc_direction = Published,
      desc_transport = Native, desc_payload_type = type_name, desc_publisher = Some (publisher_index (pubs st ! k))\<rparr>"
  have r: "recording_endpoints type_name node st = map ?in (enumerate 0 ?is) @ map ?out (enumerate 0 ?os)"
    by (simp add: recording_endpoints_def visit_push_descriptor)
  have "map (\<lambda>d. (desc_direction d, desc_ordinal d)) (recording_endpoints type_name node st)
      = map (Pair Received) [0..<length ?is] @ map (Pair Published) [0..<length ?os]"
    by (auto simp: r comp_def case_prod_beta enumerate_eq_zip intro!: nth_equalityI)
  then show "distinct (map (\<lambda>d. (desc_direction d, desc_ordinal d)) (recording_endpoints type_name node st))"
    by (auto simp: distinct_map inj_on_def)
  show "length (recording_endpoints type_name node st) = length ?is + length ?os"
    by (simp add: r)
  fix ms m assume ms: "visit_prepared_messages node st = Ret ms" and m: "m \<in> set ms"
  then obtain mss where mss: "ms = concat mss" "map_outcome_list (\<lambda>(i, e). and_then (visit_headers (cbus st) (input_sub e))
          (\<lambda>h. Ret (map (\<lambda>x. \<lparr>logged_ordinal = i, logged_header = x\<rparr>) h))) (enumerate 0 ?is) = Ret mss"
    by (auto simp: visit_prepared_messages_def visit_log_headers)
  from m mss(1) obtain xs where "xs \<in> set mss" "m \<in> set xs" by auto
  then obtain j where j: "j < length mss" "m \<in> set (mss ! j)"
    by (auto simp: in_set_conv_nth [of xs])
  from mss(2) j(1) have len: "j < length ?is" and "\<exists>hs. visit_headers (cbus st) (input_sub (?is ! j)) = Ret hs
      \<and> map (\<lambda>x. \<lparr>logged_ordinal = j, logged_header = x\<rparr>) hs = mss ! j"
    by (simp_all add: map_outcome_list_eq_Ret list_all2_conv_all_nth nth_enumerate_eq)
  then obtain hs where "visit_headers (cbus st) (input_sub (?is ! j)) = Ret hs"
    "mss ! j = map (\<lambda>x. \<lparr>logged_ordinal = j, logged_header = x\<rparr>) hs" by metis
  with len j(2) have j': "j < length ?is" "logged_ordinal m = j"
    "\<exists>hs. visit_headers (cbus st) (input_sub (?is ! j)) = Ret hs \<and> logged_header m \<in> set hs"
    by auto
  then show "logged_ordinal m < length ?is" by simp
  show "let s = input_sub (?is ! logged_ordinal m) in
      (\<exists>hs. visit_headers (cbus st) s = Ret hs \<and> logged_header m \<in> set hs)
      \<and> recording_endpoints type_name node st ! logged_ordinal m
        = \<lparr>desc_ordinal = logged_ordinal m, desc_channel = sub_channel (subs (cbus st) ! s),
           desc_direction = Received, desc_transport = Native, desc_payload_type = type_name, desc_publisher = None\<rparr>"
    using j' by (simp add: Let_def r nth_append nth_enumerate_eq)
qed

text \<open>A node with one required input, whose snapshot holds one message.\<close>

definition reading_node :: callback_node where
  "reading_node = \<lparr>node_inputs = Endpoint \<lparr>input_sub = 0, input_required = True\<rparr>, node_outputs = NoEndpoints\<rparr>"

definition reading_state :: "(nat list_queue, ptr list_queue, nat) channel_state" where
  "reading_state = \<lparr>pubs = [], cbus = \<lparr>
     arenas = [\<lparr>arena_capacity = 1,
       storage = [\<lparr>ref_count = 1, payload = Some \<lparr>header = MessageHeader (from_nanos 7) 3 0, message_body = 5\<rparr>\<rparr>],
       free_list = \<lparr>lq_capacity = 1, lq_items = []\<rparr>\<rparr>],
     subs = [\<lparr>sub_buffer = \<lparr>write_queue = \<lparr>inner = \<lparr>lq_capacity = 1, lq_items = []\<rparr>, dropped = 0\<rparr>,
         read_storage = [(0, 0)], read_capacity = 1, read_drops = 0\<rparr>,
       sub_channel = ''c'', sub_wake = False, sub_policy = policy_default\<rparr>],
     trace = []\<rparr>, held = {#}\<rparr>"

theorem recording_identifies_endpoints_witness:
  "visit_prepared_messages reading_node reading_state
     = Ret [\<lparr>logged_ordinal = 0, logged_header = MessageHeader (from_nanos 7) 3 0\<rparr>]
   \<and> recording_endpoints ''i32'' reading_node reading_state ! 0 = \<lparr>desc_ordinal = 0, desc_channel = ''c'',
       desc_direction = Received, desc_transport = Native, desc_payload_type = ''i32'', desc_publisher = None\<rparr>"
proof -
  let ?m = "\<lparr>logged_ordinal = 0, logged_header = MessageHeader (from_nanos 7) 3 0\<rparr>"
  have ms: "visit_prepared_messages reading_node reading_state = Ret [?m]"
    by (simp add: visit_prepared_messages_def reading_node_def reading_state_def log_headers_def
        visit_headers_def store_read_def assume_init_ref_def)
  have "\<forall>m \<in> set [?m]. recording_endpoints ''i32'' reading_node reading_state ! logged_ordinal m
      = \<lparr>desc_ordinal = logged_ordinal m, desc_channel = sub_channel (subs (cbus reading_state)
           ! input_sub (in_order (node_inputs reading_node) ! logged_ordinal m)),
         desc_direction = Received, desc_transport = Native, desc_payload_type = ''i32'', desc_publisher = None\<rparr>"
    using recording_identifies_endpoints [where type_name = "''i32''" and node = reading_node and st = reading_state] ms by (auto simp: Let_def)
  with ms show ?thesis
    by (simp add: reading_node_def reading_state_def)
qed

end
