(* ===== verification/Task_Graph.thy ===== *)
theory Task_Graph
  imports String_Interner Framework_Time "HOL-Library.List_Lexorder" "HOL-Library.Char_ord"
begin

text \<open>
  \<open>task_graph/src/graph.rs\<close>: schedules of callbacks, the builder that constructs callbacks from
  factories, and the built graph with its frozen name tables.

  A callback is a value of type \<open>'c\<close>; what the graph asks of it (\<open>visit_channel_names\<close> and
  \<open>has_triggering_inputs\<close>) are arguments. A factory is a function on a state that everything a
  factory may touch belongs to, so that it can be told which factories ran. The two closures of a
  schedule are functions; closures with state of their own are not covered.
\<close>

section \<open>Schedules\<close>

datatype timing_error = MissingDuration | Overflow | PastDeadline

record callback_schedule =
  schedule_pool :: nat
  run_on_start :: bool
  period :: "duration option"
  execution_duration :: "duration option"
  execution_duration_callback :: "(unit \<Rightarrow> duration) option"
  next_execution_time_callback :: "(framework_time \<Rightarrow> framework_time option) option"

definition with_execution_duration :: "callback_schedule \<Rightarrow> duration \<Rightarrow> callback_schedule" where
  "with_execution_duration s d = s\<lparr>execution_duration := Some d, execution_duration_callback := None\<rparr>"

definition with_execution_duration_callback ::
  "callback_schedule \<Rightarrow> (unit \<Rightarrow> duration) \<Rightarrow> callback_schedule" where
  "with_execution_duration_callback s d = s\<lparr>execution_duration_callback := Some d\<rparr>"

definition with_next_execution_time_callback ::
  "callback_schedule \<Rightarrow> (framework_time \<Rightarrow> framework_time option) \<Rightarrow> callback_schedule" where
  "with_next_execution_time_callback s next_time =
     s\<lparr>next_execution_time_callback := Some next_time, period := None\<rparr>"

definition has_execution_duration :: "callback_schedule \<Rightarrow> bool" where
  "has_execution_duration s \<longleftrightarrow> execution_duration s \<noteq> None \<or> execution_duration_callback s \<noteq> None"

definition schedule_duration :: "callback_schedule \<Rightarrow> timing_error + duration" where
  "schedule_duration s = (case execution_duration_callback s of
     Some d \<Rightarrow> Inr (d ())
   | None \<Rightarrow> (case execution_duration s of Some d \<Rightarrow> Inr d | None \<Rightarrow> Inl MissingDuration))"

definition is_timed :: "callback_schedule \<Rightarrow> bool" where
  "is_timed s \<longleftrightarrow> period s \<noteq> None \<or> next_execution_time_callback s \<noteq> None"

definition is_ever_runnable :: "callback_schedule \<Rightarrow> bool \<Rightarrow> bool" where
  "is_ever_runnable s triggering \<longleftrightarrow> triggering \<or> run_on_start s \<or> is_timed s"

definition past_deadline :: "framework_time option \<Rightarrow> framework_time \<Rightarrow> bool" where
  "past_deadline next_time now = (case next_time of Some t \<Rightarrow> t < now | None \<Rightarrow> False)"

definition next_after :: "callback_schedule \<Rightarrow> framework_time \<Rightarrow> timing_error + framework_time option" where
  "next_after s now =
     (case (case next_execution_time_callback s of
              Some next_time \<Rightarrow> Inr (next_time now)
            | None \<Rightarrow> (case period s of
                Some p \<Rightarrow> (case checked_add_duration now p of
                    Some t \<Rightarrow> Inr (Some t)
                  | None \<Rightarrow> Inl Overflow)
              | None \<Rightarrow> Inr None)) of
        Inl e \<Rightarrow> Inl e
      | Inr next_time \<Rightarrow> if past_deadline next_time now then Inl PastDeadline else Inr next_time)"

definition input_triggered :: callback_schedule where
  "input_triggered = \<lparr>schedule_pool = 0, run_on_start = False, period = None, execution_duration = None,
     execution_duration_callback = None, next_execution_time_callback = None\<rparr>"

definition on_start :: callback_schedule where
  "on_start = input_triggered\<lparr>run_on_start := True\<rparr>"

definition periodic :: "duration \<Rightarrow> callback_schedule" where
  "periodic p = on_start\<lparr>period := Some p\<rparr>"

definition in_pool :: "callback_schedule \<Rightarrow> nat \<Rightarrow> callback_schedule" where
  "in_pool s p = s\<lparr>schedule_pool := p\<rparr>"

section \<open>Building a graph\<close>

datatype 'e graph_build_error =
  DuplicateCallback string
| ZeroPeriod string
| NeverRuns string
| FactoryFailed string 'e

record 'c scheduled_callback =
  cb_name :: string
  cb_callback :: 'c
  cb_schedule :: callback_schedule

record graph_metadata =
  channel_names :: string_interner
  callback_names :: string_interner

record 'c built_graph =
  graph_callbacks :: "'c scheduled_callback list"
  metadata :: graph_metadata

record ('s, 'e, 'c) graph_builder =
  factories :: "(string \<times> callback_schedule \<times> ('s \<Rightarrow> ('e + 'c) \<times> 's)) list"
  builder_channel_names :: string_interner

definition builder_new :: "('s, 'e, 'c) graph_builder" where
  "builder_new = \<lparr>factories = [], builder_channel_names = interner_new\<rparr>"

definition with_channel_names :: "string list \<Rightarrow> ('s, 'e, 'c) graph_builder" where
  "with_channel_names names =
     \<lparr>factories = [], builder_channel_names = intern_all interner_new (remdups_adj (sort names))\<rparr>"

definition add_scheduled_callback ::
  "('s, 'e, 'c) graph_builder \<Rightarrow> string \<Rightarrow> callback_schedule \<Rightarrow> ('s \<Rightarrow> ('e + 'c) \<times> 's)
     \<Rightarrow> ('s, 'e, 'c) graph_builder" where
  "add_scheduled_callback b name sch f = b\<lparr>factories := factories b @ [(name, sch, f)]\<rparr>"

definition add_callback ::
  "('s, 'e, 'c) graph_builder \<Rightarrow> string \<Rightarrow> ('s \<Rightarrow> ('e + 'c) \<times> 's) \<Rightarrow> ('s, 'e, 'c) graph_builder" where
  "add_callback b name f = add_scheduled_callback b name input_triggered f"

fun validate_loop :: "string set \<Rightarrow> (string \<times> callback_schedule) list \<Rightarrow> 'e graph_build_error + unit" where
  "validate_loop names [] = Inr ()"
| "validate_loop names ((name, sch) # cs) =
     (if period sch = Some 0 then Inl (ZeroPeriod name)
      else if name \<in> names then Inl (DuplicateCallback name)
      else validate_loop (insert name names) cs)"

definition validate_callbacks :: "(string \<times> callback_schedule) list \<Rightarrow> 'e graph_build_error + unit" where
  "validate_callbacks cs = validate_loop {} cs"

fun run_factories ::
  "'s \<Rightarrow> (string \<times> callback_schedule \<times> ('s \<Rightarrow> ('e + 'c) \<times> 's)) list
     \<Rightarrow> ('e graph_build_error + 'c scheduled_callback list) \<times> 's" where
  "run_factories s [] = (Inr [], s)"
| "run_factories s ((name, sch, f) # fs) = (case f s of
     (Inl e, s') \<Rightarrow> (Inl (FactoryFailed name e), s')
   | (Inr c, s') \<Rightarrow> (case run_factories s' fs of
       (Inl e, s'') \<Rightarrow> (Inl e, s'')
     | (Inr cs, s'') \<Rightarrow> (Inr (\<lparr>cb_name = name, cb_callback = c, cb_schedule = sch\<rparr> # cs), s'')))"

fun intern_channels :: "string_interner \<Rightarrow> string list \<Rightarrow> string_interner" where
  "intern_channels t [] = t"
| "intern_channels t (channel # channels) =
     intern_channels
       (if channel \<noteq> [] \<and> lookup_by_value t channel = None then snd (intern t channel) else t) channels"

fun extend_metadata :: "('c \<Rightarrow> string list) \<Rightarrow> graph_metadata \<Rightarrow> 'c scheduled_callback list \<Rightarrow> graph_metadata" where
  "extend_metadata visit_names m [] = m"
| "extend_metadata visit_names m (node # nodes) =
     extend_metadata visit_names
       \<lparr>channel_names = intern_channels (channel_names m) (visit_names (cb_callback node)),
        callback_names = snd (intern (callback_names m) (cb_name node))\<rparr> nodes"

definition graph_extend ::
  "('c \<Rightarrow> string list) \<Rightarrow> 'c built_graph \<Rightarrow> 'c scheduled_callback list \<Rightarrow> 'c built_graph" where
  "graph_extend visit_names g nodes =
     \<lparr>graph_callbacks = graph_callbacks g @ nodes, metadata = extend_metadata visit_names (metadata g) nodes\<rparr>"

definition from_callbacks ::
  "('c \<Rightarrow> string list) \<Rightarrow> 'c scheduled_callback list \<Rightarrow> string_interner \<Rightarrow> 'c built_graph" where
  "from_callbacks visit_names nodes channels =
     graph_extend visit_names
       \<lparr>graph_callbacks = [], metadata = \<lparr>channel_names = channels, callback_names = interner_new\<rparr>\<rparr> nodes"

definition builder_build ::
  "('c \<Rightarrow> string list) \<Rightarrow> ('s, 'e, 'c) graph_builder \<Rightarrow> 's
     \<Rightarrow> ('e graph_build_error + 'c built_graph) \<times> 's" where
  "builder_build visit_names b s =
     (case validate_callbacks (map (\<lambda>(name, sch, _). (name, sch)) (factories b)) of
        Inl e \<Rightarrow> (Inl e, s)
      | Inr _ \<Rightarrow> (case run_factories s (factories b) of
          (Inl e, s') \<Rightarrow> (Inl e, s')
        | (Inr nodes, s') \<Rightarrow> (Inr (from_callbacks visit_names nodes (builder_channel_names b)), s')))"

fun check_runnable :: "('c \<Rightarrow> bool) \<Rightarrow> 'c scheduled_callback list \<Rightarrow> 'e graph_build_error + unit" where
  "check_runnable triggering [] = Inr ()"
| "check_runnable triggering (node # nodes) =
     (if \<not> is_ever_runnable (cb_schedule node) (triggering (cb_callback node))
      then Inl (NeverRuns (cb_name node)) else check_runnable triggering nodes)"

definition validate_runnable :: "('c \<Rightarrow> bool) \<Rightarrow> 'c built_graph \<Rightarrow> 'e graph_build_error + unit" where
  "validate_runnable triggering g = check_runnable triggering (graph_callbacks g)"

definition append_callbacks ::
  "('c \<Rightarrow> string list) \<Rightarrow> 'c built_graph \<Rightarrow> 'c scheduled_callback list \<Rightarrow> 'e graph_build_error + 'c built_graph"
  where
  "append_callbacks visit_names g nodes =
     (case validate_callbacks (map (\<lambda>node. (cb_name node, cb_schedule node)) (graph_callbacks g @ nodes)) of
        Inl e \<Rightarrow> Inl e
      | Inr _ \<Rightarrow> Inr (graph_extend visit_names g nodes))"

fun map_nodes ::
  "(nat \<Rightarrow> string \<Rightarrow> 'c \<Rightarrow> 'e + 'c) \<Rightarrow> nat \<Rightarrow> 'c scheduled_callback list \<Rightarrow> 'e + 'c scheduled_callback list" where
  "map_nodes f i [] = Inr []"
| "map_nodes f i (node # nodes) = (case f i (cb_name node) (cb_callback node) of
     Inl e \<Rightarrow> Inl e
   | Inr c \<Rightarrow> (case map_nodes f (i + 1) nodes of
       Inl e \<Rightarrow> Inl e
     | Inr cs \<Rightarrow> Inr (node\<lparr>cb_callback := c\<rparr> # cs)))"

definition try_map_callbacks ::
  "(nat \<Rightarrow> string \<Rightarrow> 'c \<Rightarrow> 'e + 'c) \<Rightarrow> 'c built_graph \<Rightarrow> 'e + 'c built_graph" where
  "try_map_callbacks f g = (case map_nodes f 0 (graph_callbacks g) of
     Inl e \<Rightarrow> Inl e
   | Inr nodes \<Rightarrow> Inr (g\<lparr>graph_callbacks := nodes\<rparr>))"

definition configure_schedules ::
  "(string \<Rightarrow> callback_schedule \<Rightarrow> callback_schedule) \<Rightarrow> 'c built_graph \<Rightarrow> 'c built_graph" where
  "configure_schedules configure g = g\<lparr>graph_callbacks := map (\<lambda>node.
     node\<lparr>cb_schedule := configure (cb_name node) (cb_schedule node)\<rparr>) (graph_callbacks g)\<rparr>"

section \<open>Lemmas\<close>

lemma validate_loop_Inr:
  "validate_loop names cs = Inr () \<longleftrightarrow>
     distinct (map fst cs) \<and> set (map fst cs) \<inter> names = {} \<and> (\<forall>(n, s) \<in> set cs. period s \<noteq> Some 0)"
  by (induction names cs rule: validate_loop.induct) auto

lemma validate_loop_Inl:
  "validate_loop names cs = Inl e \<Longrightarrow> \<exists>n \<in> set (map fst cs). e = DuplicateCallback n \<or> e = ZeroPeriod n"
  by (induction names cs rule: validate_loop.induct) (auto split: if_splits)

lemma run_factories_Inr:
  "run_factories s fs = (Inr nodes, s') \<Longrightarrow>
     map cb_name nodes = map fst fs \<and> map cb_schedule nodes = map (\<lambda>(_, sch, _). sch) fs"
  by (induction s fs arbitrary: nodes rule: run_factories.induct)
    (auto split: prod.splits sum.splits)

lemma run_factories_Inl:
  "run_factories s fs = (Inl e, s') \<Longrightarrow> \<exists>n \<in> set (map fst fs). \<exists>src. e = FactoryFailed n src"
  by (induction s fs rule: run_factories.induct) (auto split: prod.splits sum.splits)

text \<open>The names of a table after the channels of a callback have been visited.\<close>

fun add_names :: "string list \<Rightarrow> string list \<Rightarrow> string list" where
  "add_names ns [] = ns"
| "add_names ns (c # cs) = add_names (if c = [] \<or> c \<in> set ns then ns else ns @ [c]) cs"

lemma set_add_names: "set (add_names ns cs) = set ns \<union> (set cs - {[]})"
  by (induction ns cs rule: add_names.induct) auto

lemma distinct_add_names: "distinct ns \<Longrightarrow> distinct (add_names ns cs)"
  by (induction ns cs rule: add_names.induct) auto

lemma add_names_prefix: "\<exists>ms. add_names ns cs = ns @ ms"
  by (induction ns cs rule: add_names.induct) auto

lemma length_add_names: "length (add_names ns cs) \<le> length ns + length cs"
  by (induction ns cs rule: add_names.induct) auto

lemma intern_channels_table:
  "length ns + length cs \<le> 2 ^ 32 \<Longrightarrow> intern_channels (table_of ns) cs = table_of (add_names ns cs)"
  by (induction ns cs rule: add_names.induct) (auto simp: lookup_by_value_None intern_fresh)

lemma intern_all_table:
  "distinct (ns @ ms) \<Longrightarrow> length (ns @ ms) \<le> 2 ^ 32 \<Longrightarrow> intern_all (table_of ns) ms = table_of (ns @ ms)"
  by (induction ms arbitrary: ns) (auto simp: intern_fresh)

text \<open>All channel names of a list of nodes, in the order of the visits.\<close>

definition visited_names :: "('c \<Rightarrow> string list) \<Rightarrow> 'c scheduled_callback list \<Rightarrow> string list" where
  "visited_names visit_names nodes = concat (map (\<lambda>node. visit_names (cb_callback node)) nodes)"

lemma add_names_append: "add_names (add_names ns cs) ds = add_names ns (cs @ ds)"
  by (induction ns cs rule: add_names.induct) auto

lemma extend_metadata_tables:
  assumes "length ns + length (visited_names visit_names nodes) \<le> 2 ^ 32"
    and "distinct (ks @ map cb_name nodes)" and "length ks + length nodes \<le> 2 ^ 32"
  shows "extend_metadata visit_names \<lparr>channel_names = table_of ns, callback_names = table_of ks\<rparr> nodes
    = \<lparr>channel_names = table_of (add_names ns (visited_names visit_names nodes)),
       callback_names = table_of (ks @ map cb_name nodes)\<rparr>"
  using assms
proof (induction nodes arbitrary: ns ks)
  case (Cons node nodes)
  let ?cs = "visit_names (cb_callback node)"
  have "length (add_names ns ?cs) + length (visited_names visit_names nodes) \<le> 2 ^ 32"
    using Cons.prems(1) length_add_names [of ns ?cs] by (simp add: visited_names_def)
  with Cons.IH [of "add_names ns ?cs" "ks @ [cb_name node]"] Cons.prems show ?case
    by (simp add: intern_channels_table visited_names_def intern_fresh add_names_append)
qed (simp add: visited_names_def)

lemma from_callbacks_tables:
  assumes ns: "distinct ns" and d: "distinct (map cb_name nodes)"
    and small: "length ns + length (visited_names visit_names nodes) \<le> 2 ^ 32" "length nodes \<le> 2 ^ 32"
  shows "graph_callbacks (from_callbacks visit_names nodes (table_of ns)) = nodes"
    and "i < length nodes \<Longrightarrow> try_lookup_by_id (callback_names (metadata (from_callbacks visit_names nodes (table_of ns))))
      (InternId (of_nat i)) = Some (cb_name (nodes ! i))"
    and "\<exists>ms. channel_names (metadata (from_callbacks visit_names nodes (table_of ns))) = table_of (ns @ ms)
      \<and> distinct (ns @ ms) \<and> set (ns @ ms) = set ns \<union> (set (visited_names visit_names nodes) - {[]})"
proof -
  let ?vs = "visited_names visit_names nodes"
  have g: "from_callbacks visit_names nodes (table_of ns) = \<lparr>graph_callbacks = nodes, metadata =
      \<lparr>channel_names = table_of (add_names ns ?vs), callback_names = table_of (map cb_name nodes)\<rparr>\<rparr>"
    using extend_metadata_tables [of ns visit_names nodes "[]"] small d
    by (simp add: from_callbacks_def graph_extend_def table_of_Nil)
  then show "graph_callbacks (from_callbacks visit_names nodes (table_of ns)) = nodes" by simp
  show "try_lookup_by_id (callback_names (metadata (from_callbacks visit_names nodes (table_of ns))))
      (InternId (of_nat i)) = Some (cb_name (nodes ! i))" if "i < length nodes"
    using table_of_lookups(2) [OF d, of i] that small g by simp
  obtain ms where "add_names ns ?vs = ns @ ms" using add_names_prefix by blast
  then show "\<exists>ms. channel_names (metadata (from_callbacks visit_names nodes (table_of ns))) = table_of (ns @ ms)
      \<and> distinct (ns @ ms) \<and> set (ns @ ms) = set ns \<union> (set ?vs - {[]})"
    using g set_add_names [of ns ?vs] distinct_add_names [OF ns, of ?vs] by (intro exI [of _ ms]) simp
qed

section \<open>Properties\<close>

text \<open>
  C40: Building a graph. Names and periods are validated before any factory runs: with a duplicate
  name or a zero period the result names an offending callback and the factories' state is
  untouched. Otherwise the factories run in declaration order and the build fails only with the
  error of one of them. A built graph has the callbacks in declaration order with their names
  and schedules, the id of a callback is its position, and the channel table extends the
  builder's without changing an id and holds exactly the given and the visited names.
\<close>

theorem graph_build_correct:
  fixes b :: "('s, 'e, 'c) graph_builder"
  assumes "builder_channel_names b = table_of ns" and "distinct ns" and "length (factories b) \<le> 2 ^ 32"
    and "\<And>nodes s'. run_factories s (factories b) = (Inr nodes, s') \<Longrightarrow>
      length ns + length (visited_names visit_names nodes) \<le> 2 ^ 32"
  defines "valid \<equiv> distinct (map fst (factories b)) \<and> (\<forall>(_, sch, _) \<in> set (factories b). period sch \<noteq> Some 0)"
  shows "(\<not> valid \<longrightarrow> (\<exists>n \<in> set (map fst (factories b)).
        builder_build visit_names b s = (Inl (DuplicateCallback n), s)
        \<or> builder_build visit_names b s = (Inl (ZeroPeriod n), s)))
    \<and> (valid \<longrightarrow> (case builder_build visit_names b s of
        (Inl e, s') \<Rightarrow> \<exists>n \<in> set (map fst (factories b)). \<exists>src. e = FactoryFailed n src
      | (Inr g, s') \<Rightarrow>
          map cb_name (graph_callbacks g) = map fst (factories b)
          \<and> map cb_schedule (graph_callbacks g) = map (\<lambda>(_, sch, _). sch) (factories b)
          \<and> (\<forall>i < length (graph_callbacks g). try_lookup_by_id (callback_names (metadata g)) (InternId (of_nat i))
               = Some (cb_name (graph_callbacks g ! i)))
          \<and> (\<exists>ms. channel_names (metadata g) = table_of (ns @ ms) \<and> distinct (ns @ ms)
               \<and> set (ns @ ms) = set ns \<union> (set (visited_names visit_names (graph_callbacks g)) - {[]}))))"
proof (intro conjI impI)
  let ?cs = "map (\<lambda>(name, sch, _). (name, sch)) (factories b)"
  have fst: "map fst ?cs = map fst (factories b)" by (simp add: comp_def case_prod_beta)
  have valid: "valid \<longleftrightarrow> (validate_callbacks ?cs :: 'e graph_build_error + unit) = Inr ()"
    by (auto simp: validate_callbacks_def validate_loop_Inr valid_def fst simp del: map_map)
  show "\<exists>n \<in> set (map fst (factories b)). builder_build visit_names b s = (Inl (DuplicateCallback n), s)
      \<or> builder_build visit_names b s = (Inl (ZeroPeriod n), s)" if nv: "\<not> valid"
  proof -
    obtain e :: "'e graph_build_error" where e: "validate_callbacks ?cs = Inl e"
      using nv valid by (cases "validate_callbacks ?cs :: 'e graph_build_error + unit") auto
    then obtain n where "n \<in> set (map fst ?cs)" "e = DuplicateCallback n \<or> e = ZeroPeriod n"
      using validate_loop_Inl [of "{}" ?cs e] unfolding validate_callbacks_def by blast
    with e show ?thesis unfolding fst by (auto simp: builder_build_def)
  qed
  assume v: valid
  show "case builder_build visit_names b s of
      (Inl e, s') \<Rightarrow> \<exists>n \<in> set (map fst (factories b)). \<exists>src. e = FactoryFailed n src
    | (Inr g, s') \<Rightarrow>
        map cb_name (graph_callbacks g) = map fst (factories b)
        \<and> map cb_schedule (graph_callbacks g) = map (\<lambda>(_, sch, _). sch) (factories b)
        \<and> (\<forall>i < length (graph_callbacks g). try_lookup_by_id (callback_names (metadata g)) (InternId (of_nat i))
             = Some (cb_name (graph_callbacks g ! i)))
        \<and> (\<exists>ms. channel_names (metadata g) = table_of (ns @ ms) \<and> distinct (ns @ ms)
             \<and> set (ns @ ms) = set ns \<union> (set (visited_names visit_names (graph_callbacks g)) - {[]}))"
  proof (cases "run_factories s (factories b)")
    case (Pair r s')
    show ?thesis
    proof (cases r)
      case (Inl e)
      with Pair v valid run_factories_Inl [of s "factories b" e s'] show ?thesis
        by (simp add: builder_build_def)
    next
      case (Inr nodes)
      note f = run_factories_Inr [OF Pair [unfolded Inr]]
      have len: "length nodes = length (factories b)" using f map_eq_imp_length_eq by blast
      have "distinct (map cb_name nodes)" using v f by (simp add: valid_def)
      from from_callbacks_tables [OF assms(2) this, of visit_names] f v valid Pair Inr len assms(1,3,4) show ?thesis
        by (auto simp: builder_build_def)
    qed
  qed
qed

text \<open>Two callbacks whose factories count their runs.\<close>

definition sample_builder :: "(nat, string, nat) graph_builder" where
  "sample_builder =
     add_scheduled_callback
       (add_callback \<lparr>factories = [], builder_channel_names = table_of [''x'']\<rparr> ''a'' (\<lambda>n. (Inr n, n + 1)))
       ''b'' (periodic 5) (\<lambda>n. (Inr n, n + 1))"

theorem graph_build_correct_witness:
  "\<exists>g. builder_build (\<lambda>_. [''y'', ''x'']) sample_builder 0 = (Inr g, 2)
     \<and> map cb_name (graph_callbacks g) = [''a'', ''b'']
     \<and> try_lookup_by_id (callback_names (metadata g)) (InternId 1) = Some ''b''"
proof -
  let ?v = "\<lambda>_ :: nat. [''y'', ''x'']"
  have fs: "map fst (factories sample_builder) = [''a'', ''b'']" "length (factories sample_builder) = 2"
    "\<forall>(_, sch, _) \<in> set (factories sample_builder). period sch \<noteq> Some 0"
    by (simp_all add: sample_builder_def add_callback_def add_scheduled_callback_def periodic_def on_start_def
        input_triggered_def)
  obtain nodes where run: "run_factories 0 (factories sample_builder) = (Inr nodes, 2)" "length nodes = 2"
    by (simp add: sample_builder_def add_callback_def add_scheduled_callback_def)
  then have build: "builder_build ?v sample_builder 0
      = (Inr (from_callbacks ?v nodes (builder_channel_names sample_builder)), 2)"
    by (simp add: builder_build_def validate_callbacks_def sample_builder_def add_callback_def
        add_scheduled_callback_def periodic_def on_start_def input_triggered_def)
  have small: "length [''x''] + length (visited_names ?v ns) \<le> 2 ^ 32"
    if "run_factories 0 (factories sample_builder) = (Inr ns, s')" for ns s'
    using that run by (simp add: visited_names_def length_concat comp_def sum_list_triv)
  have "builder_channel_names sample_builder = table_of [''x'']"
    by (simp add: sample_builder_def add_callback_def add_scheduled_callback_def)
  from graph_build_correct [where visit_names = ?v and s = 0, OF this _ _ small] fs build
  have g: "map cb_name (graph_callbacks (from_callbacks ?v nodes (builder_channel_names sample_builder))) = [''a'', ''b'']"
    "\<forall>i < length (graph_callbacks (from_callbacks ?v nodes (builder_channel_names sample_builder))).
       try_lookup_by_id (callback_names (metadata (from_callbacks ?v nodes (builder_channel_names sample_builder))))
         (InternId (of_nat i))
       = Some (cb_name (graph_callbacks (from_callbacks ?v nodes (builder_channel_names sample_builder)) ! i))"
    by simp_all
  let ?cs = "graph_callbacks (from_callbacks ?v nodes (builder_channel_names sample_builder))"
  have "length ?cs = 2" using arg_cong [OF g(1), of length] by simp
  moreover have "cb_name (?cs ! 1) = ''b''"
    using g(1) \<open>length ?cs = 2\<close> by (metis Suc_1 lessI nth_Cons_0 nth_Cons_Suc nth_map One_nat_def)
  ultimately show ?thesis
    using build g by (force dest: spec [of _ 1])
qed

text \<open>
  Appending infrastructure callbacks keeps every id. Where it is accepted, the old callbacks
  stay at their positions, callback and channel ids of the old graph resolve to the same names,
  and the new callbacks get the following positions and ids. It is refused exactly when a name
  would appear twice or a period is zero.
\<close>

theorem append_callbacks_stable:
  assumes "metadata g = \<lparr>channel_names = table_of ns, callback_names = table_of (map cb_name (graph_callbacks g))\<rparr>"
    and "distinct ns" and "length ns + length (visited_names visit_names nodes) \<le> 2 ^ 32"
    and "length (graph_callbacks g) + length nodes \<le> 2 ^ 32"
  shows "case (append_callbacks visit_names g nodes :: 'e graph_build_error + 'c built_graph) of
      Inl _ \<Rightarrow> \<not> distinct (map cb_name (graph_callbacks g @ nodes))
        \<or> (\<exists>node \<in> set (graph_callbacks g @ nodes). period (cb_schedule node) = Some 0)
    | Inr g' \<Rightarrow> graph_callbacks g' = graph_callbacks g @ nodes
        \<and> (\<forall>i name. try_lookup_by_id (channel_names (metadata g)) i = Some name \<longrightarrow>
             try_lookup_by_id (channel_names (metadata g')) i = Some name)
        \<and> (\<forall>i < length (graph_callbacks g'). try_lookup_by_id (callback_names (metadata g')) (InternId (of_nat i))
             = Some (cb_name (graph_callbacks g' ! i)))"
proof -
  let ?all = "graph_callbacks g @ nodes" and ?vs = "visited_names visit_names nodes"
  let ?cs = "map (\<lambda>node. (cb_name node, cb_schedule node)) ?all"
  have names: "map fst ?cs = map cb_name ?all" by simp
  have valid: "(validate_callbacks ?cs :: 'e graph_build_error + unit) = Inr () \<longleftrightarrow>
      distinct (map cb_name ?all) \<and> (\<forall>node \<in> set ?all. period (cb_schedule node) \<noteq> Some 0)"
    unfolding validate_callbacks_def validate_loop_Inr names by auto
  show ?thesis
  proof (cases "(validate_callbacks ?cs :: 'e graph_build_error + unit) = Inr ()")
    case False
    then obtain e :: "'e graph_build_error" where "validate_callbacks ?cs = Inl e"
      by (cases "validate_callbacks ?cs :: 'e graph_build_error + unit") auto
    with False valid show ?thesis by (auto simp: append_callbacks_def simp del: map_append)
  next
    case True
    then have d: "distinct (map cb_name ?all)" using valid by blast
    let ?m = "\<lparr>channel_names = table_of (add_names ns ?vs), callback_names = table_of (map cb_name ?all)\<rparr>"
    have "extend_metadata visit_names (metadata g) nodes = ?m"
      using extend_metadata_tables [of ns visit_names nodes "map cb_name (graph_callbacks g)"] assms d by simp
    then have g': "(append_callbacks visit_names g nodes :: 'e graph_build_error + 'c built_graph)
        = Inr \<lparr>graph_callbacks = ?all, metadata = ?m\<rparr>"
      using True by (simp add: append_callbacks_def graph_extend_def del: map_append)
    obtain ms where ms: "add_names ns ?vs = ns @ ms" using add_names_prefix by blast
    have "length (ns @ ms) \<le> 2 ^ 32" using length_add_names [of ns ?vs] assms(3) ms by simp
    then have "try_lookup_by_id (table_of (ns @ ms)) i = Some name"
      if "try_lookup_by_id (table_of ns) i = Some name" for i name
      using that table_of_Some_iff(2) [of ns i name] table_of_lookups(2) [of "ns @ ms"] assms(2)
        distinct_add_names [OF assms(2), of ?vs] ms by (auto simp: nth_append)
    moreover have "try_lookup_by_id (table_of (map cb_name ?all)) (InternId (of_nat i)) = Some (cb_name (?all ! i))"
      if "i < length ?all" for i
      using table_of_lookups(2) [OF d, of i] that assms(4) by (simp del: map_append)
    ultimately show ?thesis using assms(1) ms unfolding g' by simp
  qed
qed

definition sample_callback :: "string \<Rightarrow> nat scheduled_callback" where
  "sample_callback name = \<lparr>cb_name = name, cb_callback = 0, cb_schedule = on_start\<rparr>"

definition sample_graph :: "nat built_graph" where
  "sample_graph = \<lparr>graph_callbacks = [sample_callback ''a''],
     metadata = \<lparr>channel_names = table_of [''x''], callback_names = table_of [''a'']\<rparr>\<rparr>"

theorem append_callbacks_stable_witness:
  "\<exists>g'. (append_callbacks (\<lambda>_. [''y'']) sample_graph [sample_callback ''b''] :: string graph_build_error + nat built_graph)
       = Inr g' \<and> try_lookup_by_id (callback_names (metadata g')) (InternId 1) = Some ''b''"
proof -
  let ?r = "append_callbacks (\<lambda>_. [''y'']) sample_graph [sample_callback ''b'']
      :: string graph_build_error + nat built_graph"
  have "?r = Inr (graph_extend (\<lambda>_. [''y'']) sample_graph [sample_callback ''b''])"
    by (simp add: append_callbacks_def validate_callbacks_def sample_graph_def sample_callback_def on_start_def
        input_triggered_def)
  moreover have "case ?r of Inl _ \<Rightarrow> True | Inr g' \<Rightarrow>
      graph_callbacks g' = graph_callbacks sample_graph @ [sample_callback ''b'']
      \<and> (\<forall>i < length (graph_callbacks g'). try_lookup_by_id (callback_names (metadata g')) (InternId (of_nat i))
             = Some (cb_name (graph_callbacks g' ! i)))"
    using append_callbacks_stable [of sample_graph "[''x'']" "\<lambda>_. [''y'']" "[sample_callback ''b'']", where 'e = string]
    by (auto simp: sample_graph_def sample_callback_def visited_names_def split: sum.splits)
  ultimately show ?thesis
    by (auto simp: sample_graph_def sample_callback_def dest: spec [of _ 1])
qed

lemma distinct_remdups_adj_sorted:
  fixes xs :: "'a::linorder list"
  shows "sorted xs \<Longrightarrow> distinct (remdups_adj xs)"
  by (induction xs rule: remdups_adj.induct) auto

text \<open>
  The channel table of \<open>with_channel_names\<close> depends on the set of names only, not on their
  order or repetition: the ids number the names in ascending order.
\<close>

theorem channel_ids_canonical:
  assumes "set names = set names'" and "card (set names) \<le> 2 ^ 32"
  shows "with_channel_names names = with_channel_names names'
    \<and> builder_channel_names (with_channel_names names) = table_of (sorted_list_of_set (set names))"
proof -
  have canon: "remdups_adj (sort xs) = sorted_list_of_set (set xs)" for xs :: "string list"
  proof -
    have "distinct (remdups_adj (sort xs))" and "sorted (remdups_adj (sort xs))"
      by (simp_all add: sorted_remdups_adj distinct_remdups_adj_sorted)
    then show ?thesis
      using sorted_list_of_set.idem_if_sorted_distinct [of "remdups_adj (sort xs)"] by simp
  qed
  have "intern_all interner_new (sorted_list_of_set (set names)) = table_of (sorted_list_of_set (set names))"
    using intern_all_table [of "[]" "sorted_list_of_set (set names)"] assms(2) by (simp add: table_of_Nil)
  then show ?thesis
    using assms(1) by (simp add: with_channel_names_def canon)
qed

theorem channel_ids_canonical_witness:
  "with_channel_names [''b'', ''a'', ''b''] = with_channel_names [''a'', ''b'']"
  using channel_ids_canonical [of "[''b'', ''a'', ''b'']" "[''a'', ''b'']"] by (auto simp: card_insert_if)

text \<open>
  The next deadline of a schedule. A deadline is never before the time it is computed from. A
  periodic schedule adds its period exactly or reports an overflow, a custom one may disable the
  timer, and a deadline in the past is reported; without timer there is no deadline.
\<close>

theorem next_after_cases:
  assumes "time_ok now"
  shows "case next_after s now of
      Inr (Some t) \<Rightarrow> now \<le> t \<and> is_timed s
        \<and> (next_execution_time_callback s = None \<longrightarrow>
             (\<exists>p. period s = Some p \<and> nanoseconds t = nanoseconds now + int p))
    | Inr None \<Rightarrow> is_timed s \<longrightarrow> (\<exists>f. next_execution_time_callback s = Some f \<and> f now = None)
    | Inl Overflow \<Rightarrow> (\<exists>p. period s = Some p \<and> \<not> i64_range (nanoseconds now + int p))
    | Inl PastDeadline \<Rightarrow> (\<exists>f t. next_execution_time_callback s = Some f \<and> f now = Some t \<and> t < now)
    | Inl MissingDuration \<Rightarrow> False"
proof (cases "next_execution_time_callback s")
  case (Some f)
  then show ?thesis
    by (auto simp: next_after_def is_timed_def past_deadline_def split: option.splits)
next
  case None
  then show ?thesis
  proof (cases "period s")
    case (Some p)
    with None show ?thesis
      using checked_add_duration_eq [OF assms, of p]
      by (auto simp: next_after_def is_timed_def past_deadline_def from_nanos_def less_framework_time_def
          less_eq_framework_time_def i64_range_def split: option.splits if_splits)
  qed (simp add: next_after_def is_timed_def past_deadline_def)
qed

theorem next_after_cases_witness:
  "next_after (periodic 5) (from_nanos 7) = Inr (Some (from_nanos 12)) \<and> from_nanos 7 \<le> from_nanos 12"
proof -
  have "time_ok (from_nanos 7)" by (simp add: time_ok_def i64_defs from_nanos_def)
  moreover have "next_after (periodic 5) (from_nanos 7) = Inr (Some (from_nanos 12))"
    by (simp add: next_after_def periodic_def on_start_def input_triggered_def checked_add_duration_def i128_range_def
        try_i64_def i64_defs past_deadline_def less_framework_time_def from_nanos_def)
  ultimately show ?thesis
    using next_after_cases [of "from_nanos 7" "periodic 5"] by simp
qed

end
