(* ===== verification/Live_Scheduler.thy ===== *)
theory Live_Scheduler
  imports Task_Graph Array_Queue "HOL-Library.Multiset"
begin

text \<open>
  \<open>live_executor/src/pool_state.rs\<close> with the loops of \<open>periodic.rs\<close> and \<open>pool_worker.rs\<close>: the
  scheduler that hands callbacks (nodes) to pools of worker threads.

  The operations on a node are loops of atomic accesses. A thread inside one of them is a program
  counter, and the scheduler runs with any multiset of them; one step is one atomic access, by any
  thread. The bounded channel of crossbeam that carries the work of a pool is a parameter with the
  laws that its documentation states. The atomics are sequentially consistent here; the weaker
  orderings of the code are not modelled.
\<close>

section \<open>The bounded channel\<close>

record 'c work_channel =
  ch_bounded :: "nat \<Rightarrow> 'c"
  ch_try_send :: "'c \<Rightarrow> nat \<Rightarrow> 'c option"
  ch_try_recv :: "'c \<Rightarrow> (nat \<times> 'c) option"

locale bounded_channel =
  fixes C :: "'c work_channel" and items :: "'c \<Rightarrow> nat list" and room :: "'c \<Rightarrow> nat"
  assumes new_empty: "0 < n \<Longrightarrow> items (ch_bounded C n) = [] \<and> room (ch_bounded C n) = n"
    and send_room: "length (items c) < room c \<Longrightarrow>
      \<exists>c'. ch_try_send C c x = Some c' \<and> items c' = items c @ [x] \<and> room c' = room c"
    and send_full: "room c \<le> length (items c) \<Longrightarrow> ch_try_send C c x = None"
    and recv_empty: "items c = [] \<Longrightarrow> ch_try_recv C c = None"
    and recv_front: "items c = x # xs \<Longrightarrow>
      \<exists>c'. ch_try_recv C c = Some (x, c') \<and> items c' = xs \<and> room c' = room c"
begin

lemma send_Some:
  assumes "ch_try_send C c x = Some c'"
  shows "items c' = items c @ [x] \<and> room c' = room c \<and> length (items c) < room c"
proof -
  have "length (items c) < room c" using send_full [of c x] assms by (cases "length (items c) < room c") auto
  with send_room [of c x] assms show ?thesis by auto
qed

lemma recv_Some:
  assumes "ch_try_recv C c = Some (x, c')"
  shows "items c = x # items c' \<and> room c' = room c"
proof (cases "items c")
  case Nil
  with recv_empty assms show ?thesis by simp
next
  case (Cons y ys)
  with recv_front [OF Cons] assms show ?thesis by auto
qed

end

definition list_channel :: "nat list_queue work_channel" where
  "list_channel = \<lparr>
     ch_bounded = (\<lambda>n. \<lparr>lq_capacity = n, lq_items = []\<rparr>),
     ch_try_send = (\<lambda>q x. if length (lq_items q) < lq_capacity q
        then Some (q\<lparr>lq_items := lq_items q @ [x]\<rparr>) else None),
     ch_try_recv = (\<lambda>q. case lq_items q of [] \<Rightarrow> None | x # xs \<Rightarrow> Some (x, q\<lparr>lq_items := xs\<rparr>))\<rparr>"

interpretation lc: bounded_channel list_channel lq_items lq_capacity
  by unfold_locales (auto simp: list_channel_def)

section \<open>State\<close>

datatype node_status = IDLE | QUEUED | RUNNING | RETRIGGERED | WAITING | READINESS_CHANGED

record 'c pool_state =
  thread_count :: nat
  work_queue :: 'c \<comment> \<open>\<open>work_tx\<close> and \<open>work_rx\<close>\<close>

record node_state =
  status :: node_status
  node_pool :: nat
  deadline_cell :: int

record 'c scheduler =
  active :: counter
  completed :: counter
  timers_enabled :: bool
  poll_requested :: counter
  poll_completed :: counter
  external_stop :: bool \<comment> \<open>whether a waker is registered\<close>
  pools :: "'c pool_state list"
  nodes :: "node_state list"
  stopped :: bool
  stop_open :: bool \<comment> \<open>whether \<open>stop_tx\<close> is still connected\<close>
  timer_signal :: bool \<comment> \<open>the one slot of the timer channel\<close>

definition scheduler_new :: "'c work_channel \<Rightarrow> callback_schedule list \<Rightarrow> nat list \<Rightarrow> 'c scheduler" where
  "scheduler_new C schedules workers = \<lparr>
     active = 0, completed = 0, timers_enabled = True, poll_requested = 0, poll_completed = 0,
     external_stop = False,
     pools = map (\<lambda>(pool, threads). \<lparr>thread_count = threads, work_queue =
       ch_bounded C (max (length (filter (\<lambda>s. schedule_pool s = pool) schedules)) 1)\<rparr>) (enumerate 0 workers),
     nodes = map (\<lambda>s. \<lparr>status = IDLE, node_pool = schedule_pool s,
       deadline_cell = to_nanoseconds INVALID\<rparr>) schedules,
     stopped = False, stop_open = True, timer_signal = False\<rparr>"

definition is_idle :: "'c scheduler \<Rightarrow> bool" where
  "is_idle s \<longleftrightarrow> active s = 0"

definition set_status :: "'c scheduler \<Rightarrow> nat \<Rightarrow> node_status \<Rightarrow> 'c scheduler" where
  "set_status s i st = s\<lparr>nodes := (nodes s)[i := (nodes s ! i)\<lparr>status := st\<rparr>]\<rparr>"

abbreviation status_of :: "'c scheduler \<Rightarrow> nat \<Rightarrow> node_status" where
  "status_of s i \<equiv> status (nodes s ! i)"

section \<open>Triggering and finishing nodes\<close>

text \<open>The \<open>match\<close> of \<open>notify\<close> and that of \<open>finish\<close>, whose missing cases are \<open>unreachable!\<close>.\<close>

fun notify_next :: "node_status \<Rightarrow> bool \<Rightarrow> node_status" where
  "notify_next IDLE trigger = (if trigger then QUEUED else IDLE)"
| "notify_next WAITING trigger = QUEUED"
| "notify_next RUNNING trigger = (if trigger then RETRIGGERED else READINESS_CHANGED)"
| "notify_next READINESS_CHANGED trigger = (if trigger then RETRIGGERED else READINESS_CHANGED)"
| "notify_next QUEUED trigger = QUEUED"
| "notify_next RETRIGGERED trigger = RETRIGGERED"

fun finish_next :: "node_status \<Rightarrow> bool \<Rightarrow> node_status option" where
  "finish_next RUNNING executed = Some (if executed then IDLE else WAITING)"
| "finish_next READINESS_CHANGED executed = Some (if executed then IDLE else QUEUED)"
| "finish_next RETRIGGERED executed = Some QUEUED"
| "finish_next _ executed = None"

definition new_work :: "node_status \<Rightarrow> bool \<Rightarrow> bool" where
  "new_work st trigger \<longleftrightarrow> notify_next st trigger = QUEUED \<and> st \<noteq> QUEUED"

definition enqueue :: "'c work_channel \<Rightarrow> 'c scheduler \<Rightarrow> nat \<Rightarrow> 'c scheduler outcome" where
  "enqueue C s i =
     (let p = node_pool (nodes s ! i) in
      if length (pools s) \<le> p then Panic
      else and_then (expect (ch_try_send C (work_queue (pools s ! p)) i)) (\<lambda>c.
        Ret (s\<lparr>pools := (pools s)[p := (pools s ! p)\<lparr>work_queue := c\<rparr>]\<rparr>)))"

definition claim :: "'c scheduler \<Rightarrow> nat \<Rightarrow> 'c scheduler outcome" where
  "claim s i = (if status_of s i = QUEUED then Ret (set_status s i RUNNING) else Panic)"

text \<open>The program counters: where a thread is in \<open>notify\<close>, in the worker loop or in \<open>finish\<close>.\<close>

datatype sched_pc =
  Entered (node_of: nat) bool \<comment> \<open>\<open>notify\<close> after the test for \<open>stopped\<close>\<close>
| Notifying (node_of: nat) bool node_status \<comment> \<open>at the loop head, with the status last seen\<close>
| Counted (node_of: nat) bool node_status \<comment> \<open>\<open>active\<close> incremented, before the exchange\<close>
| Undoing (node_of: nat) bool node_status \<comment> \<open>exchange failed, before the decrement\<close>
| Enqueueing (node_of: nat)
| Received (node_of: nat) \<comment> \<open>worker with the index from the queue\<close>
| Claiming (node_of: nat) \<comment> \<open>the same after the test for \<open>stopped\<close>\<close>
| Executing (node_of: nat) \<comment> \<open>claimed; running the callback\<close>
| Finishing (node_of: nat) bool node_status
| Completing (node_of: nat) \<comment> \<open>before \<open>completed.fetch_add\<close>\<close>
| Releasing (node_of: nat) \<comment> \<open>before \<open>active.fetch_sub\<close>\<close>
| Forsaken (node_of: nat) bool \<comment> \<open>the worker has returned; whether it had claimed the node\<close>

definition notify_exchange ::
  "bool \<Rightarrow> 'c scheduler \<Rightarrow> nat \<Rightarrow> bool \<Rightarrow> node_status \<Rightarrow> sched_pc option \<times> 'c scheduler" where
  "notify_exchange spurious s i trigger seen =
     (if status_of s i = seen \<and> \<not> spurious
      then (if new_work seen trigger then Some (Enqueueing i) else None,
            set_status s i (notify_next seen trigger))
      else (Some (if new_work seen trigger then Undoing i trigger (status_of s i)
                  else Notifying i trigger (status_of s i)), s))"

fun sched_step ::
  "'c work_channel \<Rightarrow> bool \<Rightarrow> 'c scheduler \<Rightarrow> sched_pc \<Rightarrow> (sched_pc option \<times> 'c scheduler) outcome" where
  "sched_step C spurious s (Entered i trigger) = Ret (Some (Notifying i trigger (status_of s i)), s)"
| "sched_step C spurious s (Notifying i trigger seen) =
     (if new_work seen trigger then Ret (Some (Counted i trigger seen), s\<lparr>active := active s + 1\<rparr>)
      else Ret (notify_exchange spurious s i trigger seen))"
| "sched_step C spurious s (Counted i trigger seen) = Ret (notify_exchange spurious s i trigger seen)"
| "sched_step C spurious s (Undoing i trigger seen) =
     Ret (Some (Notifying i trigger seen), s\<lparr>active := active s - 1\<rparr>)"
| "sched_step C spurious s (Enqueueing i) = and_then (enqueue C s i) (\<lambda>s'. Ret (None, s'))"
| "sched_step C spurious s (Received i) =
     Ret (Some (if stopped s then Forsaken i False else Claiming i), s)"
| "sched_step C spurious s (Claiming i) = and_then (claim s i) (\<lambda>s'. Ret (Some (Executing i), s'))"
| "sched_step C spurious s (Finishing i executed seen) = (case finish_next seen executed of
     None \<Rightarrow> Panic
   | Some st \<Rightarrow> if status_of s i = seen \<and> \<not> spurious
       then Ret (Some (if st = QUEUED then Enqueueing i else Completing i), set_status s i st)
       else Ret (Some (Finishing i executed (status_of s i)), s))"
| "sched_step C spurious s (Completing i) = Ret (Some (Releasing i), s\<lparr>completed := completed s + 1\<rparr>)"
| "sched_step C spurious s (Releasing i) = Ret (None, s\<lparr>active := active s - 1\<rparr>)"
| "sched_step C spurious s (Executing i) = Ret (Some (Executing i), s)"
| "sched_step C spurious s (Forsaken i claimed) = Ret (Some (Forsaken i claimed), s)"

fun add_thread :: "sched_pc option \<Rightarrow> sched_pc multiset \<Rightarrow> sched_pc multiset" where
  "add_thread None P = P"
| "add_thread (Some p) P = add_mset p P"

definition request_stop :: "'c scheduler \<Rightarrow> 'c scheduler" where
  "request_stop s = s\<lparr>stopped := True, stop_open := False\<rparr>"

text \<open>
  One step of the whole system: a thread advances; a call of \<open>notify\<close> passes the stop test; a worker
  receives an index from its pool's queue; a callback ends and \<open>finish\<close> loads the status, or the
  callback fails and the worker returns; somebody requests the stop.
\<close>

inductive sched_interleave ::
  "'c work_channel \<Rightarrow> 'c scheduler \<times> sched_pc multiset \<Rightarrow> 'c scheduler \<times> sched_pc multiset \<Rightarrow> bool"
  for C :: "'c work_channel" where
  advances: "sched_step C spurious s p = Ret (p', s') \<Longrightarrow>
    sched_interleave C (s, add_mset p P) (s', add_thread p' P)"
| notifies: "\<not> stopped s \<Longrightarrow> i < length (nodes s) \<Longrightarrow>
    sched_interleave C (s, P) (s, add_mset (Entered i trigger) P)"
| receives: "k < length (pools s) \<Longrightarrow> ch_try_recv C (work_queue (pools s ! k)) = Some (i, c) \<Longrightarrow>
    sched_interleave C (s, P)
      (s\<lparr>pools := (pools s)[k := (pools s ! k)\<lparr>work_queue := c\<rparr>]\<rparr>, add_mset (Received i) P)"
| returns: "sched_interleave C (s, add_mset (Executing i) P)
    (s, add_mset (Finishing i executed (status_of s i)) P)"
| fails: "sched_interleave C (s, add_mset (Executing i) P) (s, add_mset (Forsaken i True) P)"
| stops: "sched_interleave C (s, P) (request_stop s, P)"

section \<open>Invariant\<close>

text \<open>
  A node that is queued has exactly one entry: in the queue, on its way into it, or received. A
  running one has exactly one worker. \<open>Forsaken\<close> counts as the entry or the worker it was.
\<close>

fun entry_pc :: "sched_pc \<Rightarrow> bool" where
  "entry_pc (Enqueueing i) = True"
| "entry_pc (Received i) = True"
| "entry_pc (Claiming i) = True"
| "entry_pc (Forsaken i claimed) = (\<not> claimed)"
| "entry_pc p = False"

fun worker_pc :: "sched_pc \<Rightarrow> bool" where
  "worker_pc (Executing i) = True"
| "worker_pc (Finishing i executed seen) = True"
| "worker_pc (Forsaken i claimed) = claimed"
| "worker_pc p = False"

text \<open>Threads that \<open>active\<close> accounts for beside the nodes at work.\<close>

fun counting_pc :: "sched_pc \<Rightarrow> bool" where
  "counting_pc (Counted i trigger seen) = True"
| "counting_pc (Undoing i trigger seen) = True"
| "counting_pc (Completing i) = True"
| "counting_pc (Releasing i) = True"
| "counting_pc p = False"

fun claimed_status :: "node_status \<Rightarrow> bool" where
  "claimed_status st \<longleftrightarrow> st = RUNNING \<or> st = RETRIGGERED \<or> st = READINESS_CHANGED"

declare claimed_status.simps [simp del]

fun pc_ok :: "sched_pc \<Rightarrow> bool" where
  "pc_ok (Counted i trigger seen) = new_work seen trigger"
| "pc_ok (Finishing i executed seen) = claimed_status seen"
| "pc_ok p = True"

definition status_ok :: "node_status \<Rightarrow> nat \<Rightarrow> nat \<Rightarrow> bool" where
  "status_ok st entries workers \<longleftrightarrow>
     entries = of_bool (st = QUEUED) \<and> workers = of_bool (claimed_status st)"

definition entries_of :: "('c \<Rightarrow> nat list) \<Rightarrow> 'c scheduler \<Rightarrow> sched_pc multiset \<Rightarrow> nat \<Rightarrow> nat" where
  "entries_of items s P i =
     count_list (items (work_queue (pools s ! node_pool (nodes s ! i)))) i
     + size {#p \<in># P. entry_pc p \<and> node_of p = i#}"

definition workers_of :: "sched_pc multiset \<Rightarrow> nat \<Rightarrow> nat" where
  "workers_of P i = size {#p \<in># P. worker_pc p \<and> node_of p = i#}"

definition busy :: "node_status \<Rightarrow> bool" where
  "busy st \<longleftrightarrow> st = QUEUED \<or> claimed_status st"

definition busy_nodes :: "'c scheduler \<Rightarrow> nat" where
  "busy_nodes s = sum_list (map (\<lambda>n. of_bool (busy (status n))) (nodes s))"

definition outstanding :: "'c scheduler \<Rightarrow> sched_pc multiset \<Rightarrow> nat" where
  "outstanding s P = busy_nodes s + size {#p \<in># P. counting_pc p#}"

definition pool_nodes :: "'c scheduler \<Rightarrow> nat \<Rightarrow> nat list" where
  "pool_nodes s k = filter (\<lambda>i. node_pool (nodes s ! i) = k) [0..<length (nodes s)]"

definition sched_shape :: "('c \<Rightarrow> nat list) \<Rightarrow> ('c \<Rightarrow> nat) \<Rightarrow> 'c scheduler \<Rightarrow> bool" where
  "sched_shape items room s \<longleftrightarrow>
     (\<forall>i < length (nodes s). node_pool (nodes s ! i) < length (pools s))
     \<and> (\<forall>k < length (pools s). set (items (work_queue (pools s ! k))) \<subseteq> set (pool_nodes s k)
          \<and> length (pool_nodes s k) \<le> room (work_queue (pools s ! k)))"

definition sched_inv ::
  "('c \<Rightarrow> nat list) \<Rightarrow> ('c \<Rightarrow> nat) \<Rightarrow> 'c scheduler \<times> sched_pc multiset \<Rightarrow> bool" where
  "sched_inv items room = (\<lambda>(s, P).
     sched_shape items room s
     \<and> (\<forall>p \<in># P. node_of p < length (nodes s) \<and> pc_ok p)
     \<and> (\<forall>i < length (nodes s). status_ok (status_of s i) (entries_of items s P i) (workers_of P i))
     \<and> active s = of_nat (outstanding s P))"

lemma set_status_simps [simp]:
  "pools (set_status s i st) = pools s" "active (set_status s i st) = active s"
  "stopped (set_status s i st) = stopped s"
  "length (nodes (set_status s i st)) = length (nodes s)"
  "i < length (nodes s) \<Longrightarrow> status_of (set_status s i st) j = (if j = i then st else status_of s j)"
  "set_status s i (status_of s i) = s"
  by (simp_all add: set_status_def nth_list_update)

lemma set_status_pool [simp]: "node_pool (nodes (set_status s i st) ! j) = node_pool (nodes s ! j)"
  by (cases "i < length (nodes s)"; cases "j = i") (simp_all add: set_status_def list_update_beyond)

lemma busy_nodes_set_status:
  assumes "i < length (nodes s)"
  shows "busy_nodes (set_status s i st) + of_bool (busy (status_of s i)) = busy_nodes s + of_bool (busy st)"
proof -
  let ?f = "\<lambda>n. of_bool (busy (status n)) :: nat"
  have "sum_list (map ?f (nodes s)) \<ge> ?f (nodes s ! i)"
    using assms by (intro member_le_sum_list) auto
  then show ?thesis
    using assms by (simp add: busy_nodes_def set_status_def map_update sum_list_update)
qed

lemma entries_set_status [simp]: "entries_of items (set_status s i st) P j = entries_of items s P j"
  by (simp add: entries_of_def)

text \<open>Removing the thread \<open>p\<close> and adding \<open>p'\<close>, which is on the same node.\<close>

lemma entries_add:
  "entries_of items s (add_mset p P) i = of_bool (entry_pc p \<and> node_of p = i) + entries_of items s P i"
  by (simp add: entries_of_def)

lemma workers_add: "workers_of (add_mset p P) i = of_bool (worker_pc p \<and> node_of p = i) + workers_of P i"
  by (simp add: workers_of_def)

lemma outstanding_add: "outstanding s (add_mset p P) = of_bool (counting_pc p) + outstanding s P"
  by (simp add: outstanding_def)

lemma outstanding_set_status:
  "i < length (nodes s) \<Longrightarrow> outstanding (set_status s i st) P + of_bool (busy (status_of s i))
     = outstanding s P + of_bool (busy st)"
  using busy_nodes_set_status [of i s st] by (simp add: outstanding_def)

lemma shape_set_status [simp]: "sched_shape items room (set_status s i st) = sched_shape items room s"
  by (simp add: sched_shape_def pool_nodes_def)

lemma sched_counters [simp]:
  "sched_shape items room (s\<lparr>active := a, completed := c\<rparr>) = sched_shape items room s"
  "entries_of items (s\<lparr>active := a, completed := c\<rparr>) P i = entries_of items s P i"
  "outstanding (s\<lparr>active := a, completed := c\<rparr>) P = outstanding s P"
  by (simp_all add: sched_shape_def entries_of_def outstanding_def busy_nodes_def pool_nodes_def)

definition thread_counts :: "(sched_pc \<Rightarrow> bool) \<Rightarrow> sched_pc option \<Rightarrow> nat" where
  "thread_counts f p = (case p of None \<Rightarrow> 0 | Some q \<Rightarrow> of_bool (f q))"

lemma add_thread_counts:
  assumes "\<And>q. p' = Some q \<Longrightarrow> node_of q = i"
  shows "entries_of items s (add_thread p' P) j = entries_of items s P j + (if j = i then thread_counts entry_pc p' else 0)"
    and "workers_of (add_thread p' P) j = workers_of P j + (if j = i then thread_counts worker_pc p' else 0)"
    and "outstanding s (add_thread p' P) = outstanding s P + thread_counts counting_pc p'"
  using assms
  by (cases p'; auto simp: thread_counts_def entries_add workers_add outstanding_add)+

text \<open>
  A step of thread \<open>p\<close> on node \<open>i\<close> that leaves the queues alone: it may change the status of the
  node and the counters, and ends as \<open>p'\<close>.
\<close>

lemma replace_thread:
  assumes inv: "sched_inv items room (s, add_mset p P)" and i: "node_of p = i"
    and p': "\<And>q. p' = Some q \<Longrightarrow> node_of q = i \<and> pc_ok q"
    and st: "status_ok st (entries_of items s P i + thread_counts entry_pc p')
      (workers_of P i + thread_counts worker_pc p')"
    and a: "a = of_nat (outstanding (set_status s i st) P + thread_counts counting_pc p')"
  shows "sched_inv items room ((set_status s i st)\<lparr>active := a, completed := c\<rparr>, add_thread p' P)"
proof -
  have node: "node_of q = i" if "p' = Some q" for q using p' [OF that] by simp
  have old: "sched_shape items room s" "i < length (nodes s)"
    "\<forall>q \<in># P. node_of q < length (nodes s) \<and> pc_ok q"
    "\<And>j. j < length (nodes s) \<Longrightarrow>
       status_ok (status_of s j) (entries_of items s (add_mset p P) j) (workers_of (add_mset p P) j)"
    using inv i by (auto simp: sched_inv_def)
  have "\<forall>q \<in># add_thread p' P. node_of q < length (nodes s) \<and> pc_ok q"
    using old(2,3) p' by (cases p') auto
  moreover have "status_ok (status_of (set_status s i st) j)
      (entries_of items s (add_thread p' P) j) (workers_of (add_thread p' P) j)" if "j < length (nodes s)" for j
    using st old(4) [OF that] old(2) i
    by (cases "j = i") (simp_all add: add_thread_counts(1,2) [of p' i, OF node] entries_add workers_add)
  ultimately show ?thesis
    using old(1) a by (simp add: sched_inv_def add_thread_counts(3) [of p' i, OF node])
qed

text \<open>Replacing the queue of pool \<open>k\<close>.\<close>

abbreviation set_queue :: "'c scheduler \<Rightarrow> nat \<Rightarrow> 'c \<Rightarrow> 'c scheduler" where
  "set_queue s k c \<equiv> s\<lparr>pools := (pools s)[k := (pools s ! k)\<lparr>work_queue := c\<rparr>]\<rparr>"

lemma queue_change:
  assumes inv: "sched_inv items room (s, P)" and k: "k < length (pools s)"
    and c: "room c = room (work_queue (pools s ! k))"
    and sub: "set (items c) \<subseteq> set (pool_nodes s k)"
    and P': "\<forall>p \<in># P'. node_of p < length (nodes s) \<and> pc_ok p"
    and out: "size {#p \<in># P'. counting_pc p#} = size {#p \<in># P. counting_pc p#}"
    and w: "\<And>i. workers_of P' i = workers_of P i"
    and e: "\<And>i. i < length (nodes s) \<Longrightarrow> entries_of items (set_queue s k c) P' i = entries_of items s P i"
  shows "sched_inv items room (set_queue s k c, P')"
  using assms
  by (auto simp: sched_inv_def sched_shape_def nth_list_update pool_nodes_def outstanding_def busy_nodes_def)

lemma distinct_queue:
  assumes inv: "sched_inv items room (s, P)" and k: "k < length (pools s)"
  shows "distinct (items (work_queue (pools s ! k)))"
proof -
  let ?q = "items (work_queue (pools s ! k))"
  have sub: "set ?q \<subseteq> set (pool_nodes s k)" using inv k by (simp add: sched_inv_def sched_shape_def)
  have "count_list ?q i \<le> 1" if "i \<in> set ?q" for i
  proof -
    have i: "i < length (nodes s)" "node_pool (nodes s ! i) = k" using that sub by (auto simp: pool_nodes_def)
    then have "status_ok (status_of s i) (entries_of items s P i) (workers_of P i)"
      using inv by (simp add: sched_inv_def)
    then show ?thesis using i by (simp add: status_ok_def entries_of_def of_bool_def split: if_splits)
  qed
  then have "\<forall>i. count (mset ?q) i \<le> 1"
    by (metis count_list_0_iff count_mset le0 zero_le)
  then show ?thesis
    by (metis distinct_count_atmost_1 count_mset count_list_0_iff le_antisym le_zero_eq less_one not_less
        One_nat_def Suc_leI neq0_conv)
qed

text \<open>What the invariant says of a thread and its node.\<close>

lemma thread_facts:
  assumes "sched_inv items room (s, add_mset p P)"
  shows "node_of p < length (nodes s)" and "pc_ok p"
    and "status_ok (status_of s (node_of p)) (of_bool (entry_pc p) + entries_of items s P (node_of p))
      (of_bool (worker_pc p) + workers_of P (node_of p))"
    and "active s = of_nat (of_bool (counting_pc p) + outstanding s P)"
  using assms by (auto simp: sched_inv_def entries_add workers_add outstanding_add)

text \<open>A step that leaves the status alone.\<close>

lemma replace_same:
  assumes inv: "sched_inv items room (s, add_mset p P)"
    and q: "node_of q = node_of p" "pc_ok q" "entry_pc q = entry_pc p" "worker_pc q = worker_pc p"
    and a: "a = of_nat (of_bool (counting_pc q) + outstanding s P)"
  shows "sched_inv items room (s\<lparr>active := a, completed := c\<rparr>, add_mset q P)"
  using replace_thread [OF inv refl, where p' = "Some q" and st = "status_of s (node_of p)" and a = a and c = c]
    thread_facts [OF inv] q a by (simp add: thread_counts_def ac_simps)

lemma replace_quiet:
  assumes "sched_inv items room (s, add_mset p P)"
    and "node_of q = node_of p" "pc_ok q" "entry_pc q = entry_pc p" "worker_pc q = worker_pc p"
    and "counting_pc q = counting_pc p"
  shows "sched_inv items room (s, add_mset q P)"
proof -
  have "active s = of_nat (of_bool (counting_pc q) + outstanding s P)"
    using thread_facts(4) [OF assms(1)] by (simp only: assms(6))
  from replace_same [OF assms(1-5) this, where c = "completed s"] show ?thesis by simp
qed

text \<open>A step that changes the status by a successful exchange.\<close>

lemma replace_status:
  assumes inv: "sched_inv items room (s, add_mset p P)"
    and p': "\<And>q. p' = Some q \<Longrightarrow> node_of q = node_of p \<and> pc_ok q"
    and st: "status_ok st (entries_of items s P (node_of p) + thread_counts entry_pc p')
      (workers_of P (node_of p) + thread_counts worker_pc p')"
    and a: "of_bool (counting_pc p) + of_bool (busy (status_of s (node_of p)))
      = thread_counts counting_pc p' + of_bool (busy st)"
  shows "sched_inv items room (set_status s (node_of p) st, add_thread p' P)"
proof -
  note f = thread_facts [OF inv]
  have "of_bool (counting_pc p) + outstanding s P = outstanding (set_status s (node_of p) st) P + thread_counts counting_pc p'"
    using outstanding_set_status [OF f(1), of st P] a by linarith
  then have "active s = of_nat (outstanding (set_status s (node_of p) st) P + thread_counts counting_pc p')"
    using f(4) by (simp only:)
  from replace_thread [OF inv refl p' st this, where c = "completed (set_status s (node_of p) st)"] show ?thesis
    by (metis scheduler.surjective scheduler.update_convs(1,2) set_status_simps(2))
qed

context bounded_channel begin

lemma enqueue_law:
  assumes inv: "sched_inv items room (s, add_mset (Enqueueing i) P)"
  shows "\<exists>s'. enqueue C s i = Ret s' \<and> sched_inv items room (s', P)"
proof -
  let ?k = "node_pool (nodes s ! i)"
  let ?q = "work_queue (pools s ! ?k)"
  note f = thread_facts [OF inv]
  have i: "i < length (nodes s)" using f(1) by simp
  have k: "?k < length (pools s)" and q: "set (items ?q) \<subseteq> set (pool_nodes s ?k)"
    "length (pool_nodes s ?k) \<le> room ?q"
    using inv i by (auto simp: sched_inv_def sched_shape_def)
  have "count_list (items ?q) i = 0"
    using f(3) by (auto simp: status_ok_def entries_of_def of_bool_def split: if_splits)
  then have fresh: "i \<notin> set (items ?q)" by (simp add: count_list_0_iff)
  have mem: "i \<in> set (pool_nodes s ?k)" using i by (simp add: pool_nodes_def)
  have "card (set (items ?q)) < card (set (pool_nodes s ?k))"
    using q(1) fresh mem by (intro psubset_card_mono) auto
  also have "\<dots> \<le> room ?q" using q(2) card_length [of "pool_nodes s ?k"] by linarith
  finally have "length (items ?q) < room ?q"
    using distinct_card [OF distinct_queue [OF inv k]] by simp
  from send_room [OF this, of i] obtain c where c: "ch_try_send C ?q i = Some c"
    "items c = items ?q @ [i]" "room c = room ?q" by auto
  have "sched_inv items room (set_queue s ?k c, P)"
  proof (rule queue_change [OF inv k])
    show "entries_of items (set_queue s ?k c) P j = entries_of items s (add_mset (Enqueueing i) P) j"
      if "j < length (nodes s)" for j
      using k c(2) by (auto simp: entries_of_def nth_list_update)
  qed (use c q mem inv in \<open>auto simp: sched_inv_def workers_of_def\<close>)
  then show ?thesis using c k by (simp add: enqueue_def Let_def)
qed

lemma receive_law:
  assumes inv: "sched_inv items room (s, P)" and k: "k < length (pools s)"
    and r: "ch_try_recv C (work_queue (pools s ! k)) = Some (i, c)"
  shows "sched_inv items room (set_queue s k c, add_mset (Received i) P)"
proof -
  let ?q = "work_queue (pools s ! k)"
  have c: "items ?q = i # items c" "room c = room ?q" using recv_Some [OF r] by auto
  have q: "set (items ?q) \<subseteq> set (pool_nodes s k)" using inv k by (simp add: sched_inv_def sched_shape_def)
  then have i: "i < length (nodes s)" "node_pool (nodes s ! i) = k" using c(1) by (auto simp: pool_nodes_def)
  show ?thesis
  proof (rule queue_change [OF inv k])
    show "entries_of items (set_queue s k c) (add_mset (Received i) P) j = entries_of items s P j"
      if "j < length (nodes s)" for j
      using k c(1) i by (auto simp: entries_of_def nth_list_update)
  qed (use c q i inv in \<open>auto simp: sched_inv_def workers_of_def\<close>)
qed

lemma exchange_law:
  assumes inv: "sched_inv items room (s, add_mset p P)" and i: "node_of p = i"
    and p: "\<not> entry_pc p" "\<not> worker_pc p" "counting_pc p = new_work seen trigger"
    and e: "notify_exchange spurious s i trigger seen = (p', s')"
  shows "sched_inv items room (s', add_thread p' P)"
proof -
  note f = thread_facts [OF inv]
  show ?thesis
  proof (cases "status_of s i = seen \<and> \<not> spurious")
    case False
    then have "s' = s" and p': "p' = Some (if new_work seen trigger then Undoing i trigger (status_of s i)
        else Notifying i trigger (status_of s i))"
      using e by (auto simp: notify_exchange_def)
    moreover have "sched_inv items room (s, add_mset (the p') P)"
      using p i by (intro replace_quiet [OF inv]) (simp_all add: p')
    ultimately show ?thesis by simp
  next
    case True
    then have s': "s' = set_status s (node_of p) (notify_next seen trigger)"
      and p': "p' = (if new_work seen trigger then Some (Enqueueing i) else None)"
      using e i by (auto simp: notify_exchange_def)
    show ?thesis
      unfolding s'
    proof (rule replace_status [OF inv])
      show "status_ok (notify_next seen trigger) (entries_of items s P (node_of p) + thread_counts entry_pc p')
          (workers_of P (node_of p) + thread_counts worker_pc p')"
        using f(3) p True i
        by (cases seen) (auto simp: p' status_ok_def thread_counts_def new_work_def claimed_status.simps)
      show "of_bool (counting_pc p) + of_bool (busy (status_of s (node_of p)))
          = thread_counts counting_pc p' + of_bool (busy (notify_next seen trigger))"
        using p True i
        by (cases seen) (auto simp: p' thread_counts_def new_work_def busy_def claimed_status.simps)
    qed (use i in \<open>auto simp: p' split: if_splits\<close>)
  qed
qed

lemma finish_exchange_law:
  assumes inv: "sched_inv items room (s, add_mset (Finishing i executed seen) P)"
  shows "\<exists>p' s'. sched_step C spurious s (Finishing i executed seen) = Ret (p', s')
    \<and> sched_inv items room (s', add_thread p' P)"
proof -
  note f = thread_facts [OF inv]
  obtain st where st: "finish_next seen executed = Some st"
    using f(2) by (cases seen) (auto simp: claimed_status.simps)
  show ?thesis
  proof (cases "status_of s i = seen \<and> \<not> spurious")
    case False
    have "claimed_status (status_of s i)"
      using f(3) by (auto simp: status_ok_def of_bool_def split: if_splits)
    then have "sched_inv items room (s, add_mset (Finishing i executed (status_of s i)) P)"
      by (intro replace_quiet [OF inv]) simp_all
    then show ?thesis using st False by auto
  next
    case True
    let ?p' = "Some (if st = QUEUED then Enqueueing i else Completing i)"
    have "sched_inv items room (set_status s (node_of (Finishing i executed seen)) st, add_thread ?p' P)"
    proof (rule replace_status [OF inv])
      show "status_ok st (entries_of items s P (node_of (Finishing i executed seen)) + thread_counts entry_pc ?p')
          (workers_of P (node_of (Finishing i executed seen)) + thread_counts worker_pc ?p')"
        using f(2,3) st True
        by (cases seen) (auto simp: status_ok_def thread_counts_def claimed_status.simps split: if_splits)
      show "of_bool (counting_pc (Finishing i executed seen)) + of_bool (busy (status_of s (node_of (Finishing i executed seen))))
          = thread_counts counting_pc ?p' + of_bool (busy st)"
        using f(2) st True
        by (cases seen) (auto simp: thread_counts_def busy_def claimed_status.simps split: if_splits)
    qed (auto split: if_splits)
    then show ?thesis using st True by simp
  qed
qed

lemma sched_step_law:
  assumes inv: "sched_inv items room (s, add_mset p P)"
  shows "\<exists>p' s'. sched_step C spurious s p = Ret (p', s') \<and> sched_inv items room (s', add_thread p' P)"
proof (cases p)
  case (Entered i trigger)
  then show ?thesis
    using replace_quiet [OF inv, of "Notifying i trigger (status_of s i)"] by simp
next
  case (Notifying i trigger seen)
  show ?thesis
  proof (cases "new_work seen trigger")
    case True
    have "sched_inv items room (s\<lparr>active := active s + 1, completed := completed s\<rparr>, add_mset (Counted i trigger seen) P)"
      using thread_facts(4) [OF inv] Notifying True by (intro replace_same [OF inv]) simp_all
    then show ?thesis using Notifying True by simp
  next
    case False
    obtain p' s' where e: "notify_exchange spurious s i trigger seen = (p', s')" by fastforce
    show ?thesis
      using exchange_law [OF inv _ _ _ _ e] Notifying False e by simp
  qed
next
  case (Counted i trigger seen)
  obtain p' s' where e: "notify_exchange spurious s i trigger seen = (p', s')" by fastforce
  show ?thesis
    using exchange_law [OF inv _ _ _ _ e] thread_facts(2) [OF inv] Counted e by simp
next
  case (Undoing i trigger seen)
  have "sched_inv items room (s\<lparr>active := active s - 1, completed := completed s\<rparr>, add_mset (Notifying i trigger seen) P)"
    using thread_facts(4) [OF inv] Undoing by (intro replace_same [OF inv]) simp_all
  then show ?thesis using Undoing by simp
next
  case (Enqueueing i)
  with enqueue_law [of s i P] inv show ?thesis by auto
next
  case (Received i)
  then show ?thesis
    using replace_quiet [OF inv, of "Forsaken i False"] replace_quiet [OF inv, of "Claiming i"] by simp
next
  case (Claiming i)
  have q: "status_of s i = QUEUED"
    using thread_facts(3) [OF inv] Claiming by (auto simp: status_ok_def of_bool_def split: if_splits)
  have "sched_inv items room (set_status s (node_of p) RUNNING, add_thread (Some (Executing i)) P)"
    using thread_facts(3) [OF inv] Claiming q
    by (intro replace_status [OF inv]) (auto simp: status_ok_def thread_counts_def busy_def claimed_status.simps)
  then show ?thesis using Claiming q by (simp add: claim_def)
next
  case (Finishing i executed seen)
  with finish_exchange_law inv show ?thesis by blast
next
  case (Completing i)
  have "sched_inv items room (s\<lparr>active := active s, completed := completed s + 1\<rparr>, add_mset (Releasing i) P)"
    using thread_facts(4) [OF inv] Completing by (intro replace_same [OF inv]) simp_all
  then show ?thesis using Completing by simp
next
  case (Releasing i)
  have "sched_inv items room ((set_status s (node_of p) (status_of s (node_of p)))
      \<lparr>active := active s - 1, completed := completed s\<rparr>, add_thread None P)"
    using thread_facts [OF inv] Releasing
    by (intro replace_thread [OF inv refl]) (simp_all add: thread_counts_def)
  then show ?thesis using Releasing by simp
qed (use inv in auto)

lemma interleave_law:
  assumes "sched_interleave C sP sP'" and "sched_inv items room sP"
  shows "sched_inv items room sP'"
  using assms
proof cases
  case (advances spurious s p p' s' P)
  then show ?thesis using sched_step_law [of s p P spurious] assms(2) by auto
next
  case (notifies s i P trigger)
  have "sched_inv items room (s, P)" using assms(2) notifies(1) by simp
  then show ?thesis
    using notifies by (auto simp: sched_inv_def entries_add workers_add outstanding_add)
next
  case (receives k s i c P)
  then show ?thesis using receive_law assms(2) by simp
next
  case (returns s i P executed)
  then have inv: "sched_inv items room (s, add_mset (Executing i) P)" using assms(2) by simp
  have "claimed_status (status_of s i)"
    using thread_facts(3) [OF inv] by (auto simp: status_ok_def of_bool_def split: if_splits)
  then show ?thesis
    using replace_quiet [OF inv, of "Finishing i executed (status_of s i)"] returns by simp
next
  case (fails s i P)
  then show ?thesis using replace_quiet [of items room s "Executing i" P "Forsaken i True"] assms(2) by simp
next
  case (stops s P)
  then show ?thesis
    using assms(2)
    by (simp add: sched_inv_def request_stop_def sched_shape_def pool_nodes_def entries_of_def outstanding_def busy_nodes_def)
qed

lemma length_pool_filter:
  "length (filter (\<lambda>i. node_pool (map f xs ! i) = k) [0..<length xs]) = length (filter (\<lambda>x. node_pool (f x) = k) xs)"
proof -
  have "length (filter (\<lambda>x. node_pool (f x) = k) xs) = card {i. i < length xs \<and> node_pool (f (xs ! i)) = k}"
    by (rule length_filter_conv_card)
  also have "\<dots> = length (filter (\<lambda>i. node_pool (map f xs ! i) = k) [0..<length xs])"
    unfolding length_filter_conv_card by (rule arg_cong [where f = card]) auto
  finally show ?thesis by simp
qed

lemma scheduler_new_inv:
  assumes "\<forall>s \<in> set schedules. schedule_pool s < length workers"
  shows "sched_inv items room (scheduler_new C schedules workers, {#})"
proof -
  let ?s = "scheduler_new C schedules workers"
  let ?f = "\<lambda>s. \<lparr>status = IDLE, node_pool = schedule_pool s, deadline_cell = to_nanoseconds INVALID\<rparr>"
  have nodes: "nodes ?s = map ?f schedules" and len: "length (pools ?s) = length workers"
    by (simp_all add: scheduler_new_def)
  have queue: "work_queue (pools ?s ! k) = ch_bounded C (max (length (filter (\<lambda>s. schedule_pool s = k) schedules)) 1)"
    if "k < length workers" for k
    using that by (simp add: scheduler_new_def nth_enumerate_eq)
  have pn: "length (pool_nodes ?s k) = length (filter (\<lambda>s. schedule_pool s = k) schedules)" for k
    using length_pool_filter [of ?f schedules k] by (simp add: pool_nodes_def nodes)
  have "sched_shape items room ?s"
    using assms queue new_empty pn by (auto simp: sched_shape_def len nodes)
  moreover have "entries_of items ?s {#} i = 0" if "i < length schedules" for i
    using that assms queue new_empty by (simp add: entries_of_def nodes)
  moreover have "outstanding ?s {#} = 0"
    by (simp add: outstanding_def busy_nodes_def nodes busy_def claimed_status.simps comp_def)
  ultimately show ?thesis
    by (auto simp: sched_inv_def nodes status_ok_def workers_of_def claimed_status.simps scheduler_new_def)
qed

lemma reachable_inv:
  assumes "(sched_interleave C)\<^sup>*\<^sup>* (scheduler_new C schedules workers, {#}) sP"
    and "\<forall>s \<in> set schedules. schedule_pool s < length workers"
  shows "sched_inv items room sP"
  using assms(1)
proof (induction rule: rtranclp_induct)
  case base
  show ?case using assms(2) by (rule scheduler_new_inv)
next
  case (step sP sP')
  show ?case using step.hyps(2) step.IH by (rule interleave_law)
qed

lemma idle_quiescent:
  assumes inv: "sched_inv items room (s, P)" and idle: "is_idle s"
    and small: "length (nodes s) + size P < 2 ^ 64"
  shows "i < length (nodes s) \<Longrightarrow> status_of s i = IDLE \<or> status_of s i = WAITING"
    and "k < length (pools s) \<Longrightarrow> items (work_queue (pools s ! k)) = []"
    and "p \<in># P \<Longrightarrow> \<not> entry_pc p \<and> \<not> worker_pc p \<and> \<not> counting_pc p"
proof -
  have "busy_nodes s \<le> sum_list (map (\<lambda>_. 1) (nodes s))"
    unfolding busy_nodes_def by (rule sum_list_mono) simp
  then have "busy_nodes s \<le> length (nodes s)" by (simp add: sum_list_triv)
  moreover have "size {#p \<in># P. counting_pc p#} \<le> size P"
    by (intro size_mset_mono multiset_filter_subset)
  ultimately have "outstanding s P < 2 ^ 64"
    using small unfolding outstanding_def by linarith
  moreover have "(of_nat (outstanding s P) :: counter) = 0"
    using inv idle by (simp add: sched_inv_def is_idle_def)
  ultimately have zero: "outstanding s P = 0"
    by (simp add: word_of_nat_eq_0_iff dvd_imp_le not_less) (metis dvd_imp_le not_less neq0_conv)
  show st: "status_of s i = IDLE \<or> status_of s i = WAITING" if "i < length (nodes s)" for i
    using zero that by (cases "status_of s i")
      (auto simp: outstanding_def busy_nodes_def busy_def claimed_status.simps)
  have none: "entries_of items s P i = 0 \<and> workers_of P i = 0" if "i < length (nodes s)" for i
    using inv st [OF that] that by (auto simp: sched_inv_def status_ok_def claimed_status.simps)
  show "items (work_queue (pools s ! k)) = []" if k: "k < length (pools s)"
  proof (rule ccontr)
    assume "items (work_queue (pools s ! k)) \<noteq> []"
    then obtain i where "i \<in> set (items (work_queue (pools s ! k)))" by fastforce
    moreover from this have "i < length (nodes s)" "node_pool (nodes s ! i) = k"
      using inv k by (auto simp: sched_inv_def sched_shape_def pool_nodes_def)
    ultimately show False using none [of i] by (auto simp: entries_of_def count_list_0_iff)
  qed
  assume p: "p \<in># P"
  then have "node_of p < length (nodes s)" using inv by (auto simp: sched_inv_def)
  from none [OF this] p zero show "\<not> entry_pc p \<and> \<not> worker_pc p \<and> \<not> counting_pc p"
    by (auto simp: entries_of_def workers_of_def outstanding_def)
qed

end

section \<open>Properties\<close>

text \<open>
  C4: The scheduler never fails and never runs a node twice at once. Whatever the interleaving of
  notifications, workers and stop requests, every atomic step that a thread is about to take
  returns: the queue of a pool never overflows, a claimed node was queued, and the unreachable
  cases are not reached. A queued node has exactly one entry and a node that is not queued has none:
  an entry is an index in the queue of the node's pool, a thread about to push it there, or a worker
  that received it and has not claimed the node (or left it when the scheduler was stopped). A
  claimed node has exactly one worker, which executes it, is finishing it or was lost to its
  failure, and a node that is not claimed has none. A queue holds only nodes of its own pool, none
  twice, and at most one worker executes a node.
  When \<open>is_idle\<close> holds, nothing is queued, claimed or executing and no notification that
  found new work is under way.
\<close>

theorem scheduler_safe:
  assumes "bounded_channel C items room" and "\<forall>s \<in> set schedules. schedule_pool s < length workers"
    and "(sched_interleave C)\<^sup>*\<^sup>* (scheduler_new C schedules workers, {#}) (s, P)"
  shows "(\<forall>p \<in># P. \<forall>spurious. \<exists>r. sched_step C spurious s p = Ret r)
    \<and> (\<forall>i < length (nodes s). entries_of items s P i = of_bool (status_of s i = QUEUED)
         \<and> workers_of P i = of_bool (claimed_status (status_of s i)))
    \<and> (\<forall>k < length (pools s). distinct (items (work_queue (pools s ! k)))
         \<and> (\<forall>i \<in> set (items (work_queue (pools s ! k))). i < length (nodes s) \<and> node_pool (nodes s ! i) = k))
    \<and> (\<forall>i. count P (Executing i) \<le> 1)
    \<and> (is_idle s \<longrightarrow> length (nodes s) + size P < 2 ^ 64 \<longrightarrow>
         (\<forall>i < length (nodes s). status_of s i = IDLE \<or> status_of s i = WAITING)
         \<and> (\<forall>k < length (pools s). items (work_queue (pools s ! k)) = [])
         \<and> (\<forall>p \<in># P. \<not> entry_pc p \<and> \<not> worker_pc p \<and> \<not> counting_pc p))"
proof -
  have inv: "sched_inv items room (s, P)"
    using bounded_channel.reachable_inv [OF assms(1,3,2)] .
  have "\<exists>r. sched_step C spurious s p = Ret r" if "p \<in># P" for p spurious
    using bounded_channel.sched_step_law [OF assms(1), of s p "P - {#p#}" spurious] inv that by auto
  moreover have "count P (Executing i) \<le> 1" for i
  proof (cases "Executing i \<in># P")
    case True
    then have "i < length (nodes s)" using inv by (auto simp: sched_inv_def)
    then have "workers_of P i \<le> 1" using inv by (auto simp: sched_inv_def status_ok_def)
    moreover have "replicate_mset (count P (Executing i)) (Executing i) \<subseteq># {#p \<in># P. worker_pc p \<and> node_of p = i#}"
      by (auto simp: subseteq_mset_def)
    ultimately show ?thesis using size_mset_mono by (fastforce simp: workers_of_def)
  qed (simp add: not_in_iff)
  moreover have "entries_of items s P i = of_bool (status_of s i = QUEUED)
      \<and> workers_of P i = of_bool (claimed_status (status_of s i))" if "i < length (nodes s)" for i
    using inv that by (auto simp: sched_inv_def status_ok_def)
  moreover have "i < length (nodes s) \<and> node_pool (nodes s ! i) = k"
    if "k < length (pools s)" "i \<in> set (items (work_queue (pools s ! k)))" for k i
    using inv that by (auto simp: sched_inv_def sched_shape_def pool_nodes_def)
  ultimately show ?thesis
    using distinct_queue [OF inv] bounded_channel.idle_quiescent [OF assms(1) inv] by blast
qed

text \<open>One node, one worker, and a notification that arrives while it is idle.\<close>

definition sample_scheduler :: "nat list_queue scheduler" where
  "sample_scheduler = scheduler_new list_channel [input_triggered] [1]"

lemma sample_reaches:
  "(sched_interleave list_channel)\<^sup>*\<^sup>* (sample_scheduler, {#}) (sample_scheduler, {#Entered 0 True#})"
  by (intro r_into_rtranclp notifies) (simp_all add: sample_scheduler_def scheduler_new_def)

theorem scheduler_safe_witness:
  "\<exists>r. sched_step list_channel False sample_scheduler (Entered 0 True) = Ret r"
  using scheduler_safe [OF lc.bounded_channel_axioms _ sample_reaches [unfolded sample_scheduler_def]]
  by (simp add: sample_scheduler_def input_triggered_def)

text \<open>A node whose next run has been asked for, and the step in which a worker takes the request.\<close>

definition requested :: "'c scheduler \<Rightarrow> nat \<Rightarrow> bool" where
  "requested s i \<longleftrightarrow> status_of s i = QUEUED \<or> status_of s i = RETRIGGERED"

definition claims ::
  "nat \<Rightarrow> 'c scheduler \<times> sched_pc multiset \<Rightarrow> 'c scheduler \<times> sched_pc multiset \<Rightarrow> bool" where
  "claims i sP sP' \<longleftrightarrow> Claiming i \<in># snd sP \<and> Executing i \<in># snd sP' \<and> status_of (fst sP') i = RUNNING"

lemma exchange_requested:
  assumes "i < length (nodes s)" and "requested s j"
  shows "requested (snd (notify_exchange spurious s i trigger seen)) j"
  using assms by (cases seen) (auto simp: notify_exchange_def requested_def)

lemma enqueue_status: "enqueue C s i = Ret s' \<Longrightarrow> nodes s' = nodes s"
  by (auto simp: enqueue_def Let_def split: if_splits)

lemma step_requested:
  assumes "sched_step C spurious s p = Ret (p', s')" and "requested s j" and "node_of p < length (nodes s)"
    and "pc_ok p"
  shows "requested s' j \<or> (p = Claiming j \<and> p' = Some (Executing j) \<and> status_of s' j = RUNNING)"
proof (cases p)
  case (Notifying i trigger seen)
  have "nodes s' = nodes s \<or> (p', s') = notify_exchange spurious s i trigger seen"
    using assms(1) Notifying by (auto split: if_splits)
  then show ?thesis
    using exchange_requested [of i s j spurious trigger seen] assms(2,3) Notifying
    by (auto simp: requested_def dest!: arg_cong [where f = snd])
next
  case (Counted i trigger seen)
  then show ?thesis
    using assms exchange_requested [of i s j spurious trigger seen] by simp
next
  case (Finishing i executed seen)
  then show ?thesis
    using assms by (cases seen) (auto simp: requested_def claimed_status.simps split: if_splits)
next
  case (Claiming i)
  then show ?thesis
    using assms by (auto simp: claim_def requested_def split: if_splits)
next
  case (Enqueueing i)
  then show ?thesis
    using assms(1,2) by (auto simp: requested_def dest: enqueue_status)
qed (use assms in \<open>auto simp: requested_def\<close>)

text \<open>
  C8: No trigger is lost. A notification that ends (its exchange succeeds) with \<open>trigger\<close> set leaves
  its node requested. A requested node stays so through every step of any thread until a worker
  claims it, and at any time somebody is responsible for the next step towards that: the node is in
  the queue of its pool, or a thread is enqueueing it, has received it, or is running it and will
  requeue it; where that thread is one that has returned, the executor was stopped or the callback
  failed.
\<close>

theorem triggers_are_not_lost:
  assumes "bounded_channel C items room" and "\<forall>s \<in> set schedules. schedule_pool s < length workers"
    and "(sched_interleave C)\<^sup>*\<^sup>* (scheduler_new C schedules workers, {#}) (s, P)"
  shows "(\<forall>i seen spurious p' s'. Notifying i True seen \<in># P \<or> Counted i True seen \<in># P \<longrightarrow>
        notify_exchange spurious s i True seen = (p', s') \<longrightarrow>
        p' = None \<or> p' = Some (Enqueueing i) \<longrightarrow> requested s' i)
    \<and> (\<forall>i sP'. requested s i \<longrightarrow> sched_interleave C (s, P) sP' \<longrightarrow>
        requested (fst sP') i \<or> claims i (s, P) sP')
    \<and> (\<forall>i < length (nodes s). requested s i \<longrightarrow>
        i \<in> set (items (work_queue (pools s ! node_pool (nodes s ! i))))
        \<or> (\<exists>p \<in># P. node_of p = i \<and> (entry_pc p \<or> worker_pc p)))"
proof (intro conjI allI impI)
  have inv: "sched_inv items room (s, P)"
    using bounded_channel.reachable_inv [OF assms(1,3,2)] .
  then have ok: "\<And>p. p \<in># P \<Longrightarrow> node_of p < length (nodes s) \<and> pc_ok p" by (auto simp: sched_inv_def)
  show "requested s' i" if "Notifying i True seen \<in># P \<or> Counted i True seen \<in># P"
    "notify_exchange spurious s i True seen = (p', s')" "p' = None \<or> p' = Some (Enqueueing i)"
    for i seen spurious p' s'
  proof -
    have "i < length (nodes s)" using ok that(1) by force
    then show ?thesis
      using that(2,3) by (cases seen) (auto simp: notify_exchange_def requested_def new_work_def split: if_splits)
  qed
  show "requested (fst sP') i \<or> claims i (s, P) sP'"
    if r: "requested s i" and step: "sched_interleave C (s, P) sP'" for i sP'
    using step
  proof cases
    case (advances spurious p p' s' P0)
    then show ?thesis
      using step_requested [OF advances(3) r] ok [of p] by (auto simp: claims_def)
  qed (use r in \<open>auto simp: requested_def request_stop_def\<close>)
  show "i \<in> set (items (work_queue (pools s ! node_pool (nodes s ! i))))
      \<or> (\<exists>p \<in># P. node_of p = i \<and> (entry_pc p \<or> worker_pc p))"
    if i: "i < length (nodes s)" "requested s i" for i
  proof -
    have "entries_of items s P i + workers_of P i \<noteq> 0"
      using inv i by (auto simp: sched_inv_def status_ok_def requested_def claimed_status.simps)
    then show ?thesis
      by (auto simp: entries_of_def workers_of_def count_list_0_iff)
  qed
qed

theorem triggers_are_not_lost_witness:
  "requested (snd (notify_exchange False sample_scheduler 0 True IDLE)) 0"
proof -
  let ?P = "{#Notifying 0 True IDLE#}"
  have "sched_interleave list_channel (sample_scheduler, {#Entered 0 True#}) (sample_scheduler, ?P)"
    using advances [of list_channel False sample_scheduler "Entered 0 True" "Some (Notifying 0 True IDLE)" sample_scheduler "{#}"]
    by (simp add: sample_scheduler_def scheduler_new_def)
  then have "(sched_interleave list_channel)\<^sup>*\<^sup>* (sample_scheduler, {#}) (sample_scheduler, ?P)"
    using sample_reaches by (rule rtranclp.rtrancl_into_rtrancl [rotated])
  from triggers_are_not_lost [OF lc.bounded_channel_axioms _ this [unfolded sample_scheduler_def]]
  have "\<forall>p' s'. notify_exchange False sample_scheduler 0 True IDLE = (p', s') \<longrightarrow>
      p' = None \<or> p' = Some (Enqueueing 0) \<longrightarrow> requested s' 0"
    by (simp add: sample_scheduler_def input_triggered_def)
  moreover obtain p' s' where e: "notify_exchange False sample_scheduler 0 True IDLE = (p', s')" by fastforce
  moreover have "p' = Some (Enqueueing 0)"
    using e by (simp add: notify_exchange_def new_work_def sample_scheduler_def scheduler_new_def)
  ultimately show ?thesis by simp
qed

end
