(* ===== verification/Live_Timers.thy ===== *)
theory Live_Timers
  imports Live_Scheduler
begin

text \<open>
  The calls on the live scheduler as a thread sees them that is not disturbed: \<open>notify\<close>, \<open>finish\<close>,
  the deadlines and poll tickets of \<open>pool_state.rs\<close>, one round of the timer thread of \<open>periodic.rs\<close>
  and one work item of a pool worker of \<open>pool_worker.rs\<close>. The clock's readings are arguments. An
  equivalence relates the calls to the atomic steps of the interleaved model.
\<close>

section \<open>Calls\<close>

definition notify :: "'c work_channel \<Rightarrow> 'c scheduler \<Rightarrow> nat \<Rightarrow> bool \<Rightarrow> 'c scheduler outcome" where
  "notify C s i trigger =
     (if stopped s then Ret s
      else let seen = status_of s i; s' = set_status s i (notify_next seen trigger)
           in if new_work seen trigger then enqueue C (s'\<lparr>active := active s' + 1\<rparr>) i else Ret s')"

definition trigger :: "'c work_channel \<Rightarrow> 'c scheduler \<Rightarrow> nat \<Rightarrow> 'c scheduler outcome" where
  "trigger C s i = notify C s i True"

definition finish :: "'c work_channel \<Rightarrow> 'c scheduler \<Rightarrow> nat \<Rightarrow> bool \<Rightarrow> 'c scheduler outcome" where
  "finish C s i executed = (case finish_next (status_of s i) executed of
     None \<Rightarrow> Panic
   | Some st \<Rightarrow>
       if st = QUEUED then enqueue C (set_status s i st) i
       else let s' = set_status s i st
            in Ret (s'\<lparr>completed := completed s' + 1, active := active s' - 1\<rparr>))"

text \<open>\<open>NodeWake\<close>: the waker holds the scheduler weakly, which may be gone.\<close>

definition node_wake :: "'c work_channel \<Rightarrow> 'c scheduler option \<Rightarrow> nat \<Rightarrow> bool \<Rightarrow> 'c scheduler option outcome" where
  "node_wake C s i wakes = (case s of
     None \<Rightarrow> Ret None
   | Some s \<Rightarrow> and_then (notify C s i wakes) (\<lambda>s'. Ret (Some s')))"

definition set_deadline :: "'c scheduler \<Rightarrow> nat \<Rightarrow> framework_time option \<Rightarrow> 'c scheduler" where
  "set_deadline s i time =
     s\<lparr>nodes := (nodes s)[i := (nodes s ! i)\<lparr>deadline_cell :=
         to_nanoseconds (case time of Some t \<Rightarrow> t | None \<Rightarrow> INVALID)\<rparr>],
       timer_signal := True\<rparr>"

definition deadline :: "'c scheduler \<Rightarrow> nat \<Rightarrow> framework_time option" where
  "deadline s i =
     (let time = from_nanos (deadline_cell (nodes s ! i)) in if time \<noteq> INVALID then Some time else None)"

text \<open>The exchange of \<open>claim_due\<close>, which takes place after the load.\<close>

definition claim_exchange :: "'c scheduler \<Rightarrow> nat \<Rightarrow> framework_time \<Rightarrow> bool \<times> 'c scheduler" where
  "claim_exchange s i time =
     (if deadline_cell (nodes s ! i) = to_nanoseconds time
      then (True, s\<lparr>nodes := (nodes s)[i := (nodes s ! i)\<lparr>deadline_cell := to_nanoseconds INVALID\<rparr>]\<rparr>)
      else (False, s))"

definition claim_due :: "'c scheduler \<Rightarrow> nat \<Rightarrow> framework_time \<Rightarrow> bool \<times> 'c scheduler" where
  "claim_due s i now = (case deadline s i of
     None \<Rightarrow> (False, s)
   | Some time \<Rightarrow> if time \<le> now then claim_exchange s i time else (False, s))"

definition dispatch_due :: "'c work_channel \<Rightarrow> 'c scheduler \<Rightarrow> nat \<Rightarrow> framework_time \<Rightarrow> 'c scheduler outcome" where
  "dispatch_due C s i now =
     (if timers_enabled s
      then let (claimed, s') = claim_due s i now in if claimed then trigger C s' i else Ret s'
      else Ret s)"

fun dispatch_all ::
  "'c work_channel \<Rightarrow> 'c scheduler \<Rightarrow> nat list \<Rightarrow> framework_time \<Rightarrow> 'c scheduler outcome" where
  "dispatch_all C s [] now = Ret s"
| "dispatch_all C s (i # is) now = and_then (dispatch_due C s i now) (\<lambda>s'. dispatch_all C s' is now)"

definition quiesce_timers :: "'c work_channel \<Rightarrow> 'c scheduler \<Rightarrow> framework_time \<Rightarrow> 'c scheduler outcome" where
  "quiesce_timers C s now =
     and_then (if timers_enabled s
               then and_then (dispatch_all C s [0..<length (nodes s)] now) (\<lambda>s'. Ret (s'\<lparr>timers_enabled := False\<rparr>))
               else Ret s) (\<lambda>s'. Ret (s'\<lparr>timer_signal := True\<rparr>))"

section \<open>Poll tickets\<close>

text \<open>The overflow check is that of \<open>fetch_add(1) + 1\<close>. Waking the transport thread has no effect here.\<close>

definition request_poll :: "'c scheduler \<Rightarrow> (counter \<times> 'c scheduler) outcome" where
  "request_poll s =
     (let s' = s\<lparr>poll_requested := poll_requested s + 1\<rparr>; ticket = poll_requested s + 1
      in if poll_requested s = - 1 then Panic
         else if external_stop s then Ret (ticket, s')
         else Ret (ticket, s'\<lparr>poll_completed := max (poll_completed s) ticket\<rparr>))"

definition acknowledge_poll :: "'c scheduler \<Rightarrow> counter \<Rightarrow> 'c scheduler" where
  "acknowledge_poll s ticket = s\<lparr>poll_completed := max (poll_completed s) ticket\<rparr>"

definition polled :: "'c scheduler \<Rightarrow> counter \<Rightarrow> bool" where
  "polled s ticket \<longleftrightarrow> ticket \<le> poll_completed s"

definition set_external_stop :: "'c scheduler \<Rightarrow> 'c scheduler outcome" where
  "set_external_stop s = (if external_stop s then Panic else Ret (s\<lparr>external_stop := True\<rparr>))"

section \<open>The timer thread and the workers\<close>

definition POLL_INTERVAL :: nat where
  "POLL_INTERVAL = 100 * 1000000"

fun earliest :: "framework_time option list \<Rightarrow> framework_time option" where
  "earliest [] = None"
| "earliest (None # ts) = earliest ts"
| "earliest (Some t # ts) = (case earliest ts of None \<Rightarrow> Some t | Some u \<Rightarrow> Some (min t u))"

definition round_timeout :: "framework_time option \<Rightarrow> framework_time \<Rightarrow> duration" where
  "round_timeout next_time now = (case next_time of
     None \<Rightarrow> POLL_INTERVAL
   | Some t \<Rightarrow> min (nat (max (to_nanoseconds t - to_nanoseconds now) 0) mod 2 ^ 64) POLL_INTERVAL)"

text \<open>One round of the loop of \<open>periodic::run\<close>, up to the wait.\<close>

definition timer_round ::
  "'c work_channel \<Rightarrow> 'c scheduler \<Rightarrow> nat list \<Rightarrow> framework_time \<Rightarrow> ('c scheduler \<times> duration) outcome" where
  "timer_round C s timed now =
     and_then (dispatch_all C (s\<lparr>timer_signal := False\<rparr>) timed now) (\<lambda>s'.
       Ret (s', round_timeout (if timers_enabled s' then earliest (map (deadline s') timed) else None) now))"

datatype 'e thread_failure =
  TimingFailed string timing_error
| ReadinessFailed string
| CallbackFailed nat string 'e \<comment> \<open>worker and callback\<close>
| PanicFailed string

text \<open>
  One item of the loop of \<open>pool_worker::work\<close>, from the claim on. \<open>run\<close> is \<open>execute_callback\<close>: it
  may notify nodes, and returns an error or whether the body ran.
\<close>

definition work_item ::
  "'c work_channel \<Rightarrow> ('c scheduler \<Rightarrow> (('e + bool) \<times> 'c scheduler) outcome) \<Rightarrow> nat \<Rightarrow> string \<Rightarrow> callback_schedule
     \<Rightarrow> framework_time \<Rightarrow> 'c scheduler \<Rightarrow> nat \<Rightarrow> (('e thread_failure + unit) \<times> 'c scheduler) outcome" where
  "work_item C run worker name sch now s i =
     and_then (claim s i) (\<lambda>s1.
     and_then (run s1) (\<lambda>(r, s2). case r of
       Inl e \<Rightarrow> Ret (Inl (CallbackFailed worker name e), s2)
     | Inr executed \<Rightarrow>
         (case (if executed \<and> is_timed sch
                then (case next_after sch now of
                        Inl e \<Rightarrow> Inl e
                      | Inr next_time \<Rightarrow> Inr (set_deadline s2 i next_time))
                else Inr s2) of
            Inl e \<Rightarrow> Ret (Inl (TimingFailed name e), s2)
          | Inr s3 \<Rightarrow> and_then (finish C s3 i executed) (\<lambda>s4. Ret (Inr (), s4)))))"

section \<open>Lemmas\<close>

lemma set_status_deadline [simp]:
  "deadline_cell (nodes (set_status s i st) ! j) = deadline_cell (nodes s ! j)"
  by (cases "i < length (nodes s)"; cases "j = i") (simp_all add: set_status_def list_update_beyond)

lemma enqueue_frame:
  "enqueue C s i = Ret s' \<Longrightarrow>
     nodes s' = nodes s \<and> stopped s' = stopped s \<and> timers_enabled s' = timers_enabled s"
  by (auto simp: enqueue_def Let_def split: if_splits)

lemma notify_frame:
  assumes "notify C s i tr = Ret s'"
  shows "length (nodes s') = length (nodes s)" "stopped s' = stopped s" "timers_enabled s' = timers_enabled s"
    and "deadline_cell (nodes s' ! j) = deadline_cell (nodes s ! j)"
  using assms
  by (auto simp: notify_def Let_def dest!: enqueue_frame split: if_splits)
    (simp_all add: set_status_def)

lemma trigger_requested:
  assumes "trigger C s i = Ret s'" and "\<not> stopped s" and "i < length (nodes s)"
  shows "requested s' i" and "requested s j \<Longrightarrow> requested s' j"
proof -
  have *: "nodes s' = nodes (set_status s i (notify_next (status_of s i) True))"
    using assms(1,2) by (auto simp: trigger_def notify_def Let_def set_status_def dest!: enqueue_status split: if_splits)
  show "requested s' i" and "requested s j \<Longrightarrow> requested s' j"
    using assms(3) unfolding requested_def * by (cases "status_of s i"; auto)+
qed

lemma claim_due_cases:
  assumes "i < length (nodes s)"
  shows "case claim_due s i now of (claimed, s') \<Rightarrow>
      length (nodes s') = length (nodes s) \<and> stopped s' = stopped s \<and> timers_enabled s' = timers_enabled s
      \<and> (claimed \<longleftrightarrow> (\<exists>t. deadline s i = Some t \<and> t \<le> now))
      \<and> (\<forall>j. requested s' j = requested s j)
      \<and> (\<forall>j. deadline s' j = (if j = i \<and> claimed then None else deadline s j))"
proof -
  have cell: "deadline_cell (nodes s ! i) = to_nanoseconds t" if "deadline s i = Some t" for t
    using that by (auto simp: deadline_def Let_def from_nanos_def to_nanoseconds_def split: if_splits)
  have inv: "from_nanos (to_nanoseconds INVALID) = INVALID"
    by (simp add: from_nanos_def to_nanoseconds_def)
  have req: "requested (s\<lparr>nodes := (nodes s)[i := (nodes s ! i)\<lparr>deadline_cell := x\<rparr>]\<rparr>) j = requested s j" for x j
    using assms by (cases "j = i") (simp_all add: requested_def)
  show ?thesis
  proof (cases "deadline s i")
    case (Some t)
    show ?thesis
    proof (cases "t \<le> now")
      case True
      have "deadline (s\<lparr>nodes := (nodes s)[i := (nodes s ! i)\<lparr>deadline_cell := to_nanoseconds INVALID\<rparr>]\<rparr>) j
          = (if j = i then None else deadline s j)" for j
        using assms by (cases "j = i") (simp_all add: deadline_def inv)
      then show ?thesis
        using Some True by (simp add: claim_due_def claim_exchange_def cell req)
    qed (use Some in \<open>simp add: claim_due_def\<close>)
  qed (simp add: claim_due_def)
qed

lemma deadline_cong: "deadline_cell (nodes s' ! j) = deadline_cell (nodes s ! j) \<Longrightarrow> deadline s' j = deadline s j"
  by (simp add: deadline_def)

lemma dispatch_due_law:
  assumes run: "dispatch_due C s i now = Ret s'" and i: "i < length (nodes s)"
    and on: "timers_enabled s" and go: "\<not> stopped s"
  shows "length (nodes s') = length (nodes s) \<and> timers_enabled s' \<and> \<not> stopped s'"
    and "deadline s' j = (if j = i \<and> (\<exists>t. deadline s i = Some t \<and> t \<le> now) then None else deadline s j)"
    and "requested s j \<Longrightarrow> requested s' j"
    and "deadline s i = Some t \<Longrightarrow> t \<le> now \<Longrightarrow> requested s' i"
proof -
  obtain b s1 where c: "claim_due s i now = (b, s1)" by fastforce
  note f = claim_due_cases [OF i, of now, unfolded c prod.case]
  have r: "(if b then trigger C s1 i else Ret s1) = Ret s'" using run on c by (simp add: dispatch_due_def)
  have n: "length (nodes s') = length (nodes s1) \<and> stopped s' = stopped s1 \<and> timers_enabled s' = timers_enabled s1
      \<and> deadline s' j = deadline s1 j" for j
    using r notify_frame [of C s1 i True s'] deadline_cong [of s' j s1] by (auto simp: trigger_def split: if_splits)
  then show "length (nodes s') = length (nodes s) \<and> timers_enabled s' \<and> \<not> stopped s'"
    using f on go by simp
  show "deadline s' j = (if j = i \<and> (\<exists>t. deadline s i = Some t \<and> t \<le> now) then None else deadline s j)"
    using n f by simp
  show "requested s j \<Longrightarrow> requested s' j"
    using r f go i trigger_requested(2) [of C s1 i s' j] by (auto split: if_splits)
  show "deadline s i = Some t \<Longrightarrow> t \<le> now \<Longrightarrow> requested s' i"
    using r f go i trigger_requested(1) [of C s1 i s'] by (auto split: if_splits)
qed

lemma dispatch_all_law:
  assumes "dispatch_all C s is now = Ret s'" and "set is \<subseteq> {..<length (nodes s)}"
    and "timers_enabled s" and "\<not> stopped s"
  shows "length (nodes s') = length (nodes s) \<and> timers_enabled s' \<and> \<not> stopped s'
    \<and> (\<forall>j. deadline s' j = (if j \<in> set is \<and> (\<exists>t. deadline s j = Some t \<and> t \<le> now) then None else deadline s j))
    \<and> (\<forall>j. requested s j \<longrightarrow> requested s' j)
    \<and> (\<forall>j t. j \<in> set is \<longrightarrow> deadline s j = Some t \<longrightarrow> t \<le> now \<longrightarrow> requested s' j)"
  using assms
proof (induction "is" arbitrary: s)
  case (Cons i "is")
  obtain s1 where s1: "dispatch_due C s i now = Ret s1" and r: "dispatch_all C s1 is now = Ret s'"
    using Cons.prems(1) by auto
  have i: "i < length (nodes s)" using Cons.prems(2) by simp
  note d = dispatch_due_law [OF s1 i Cons.prems(3,4)]
  from Cons.IH [OF r] d(1) Cons.prems(2) have IH:
    "length (nodes s') = length (nodes s1)" "timers_enabled s'" "\<not> stopped s'"
    "\<And>j. deadline s' j = (if j \<in> set is \<and> (\<exists>t. deadline s1 j = Some t \<and> t \<le> now) then None else deadline s1 j)"
    "\<And>j. requested s1 j \<Longrightarrow> requested s' j"
    "\<And>j t. j \<in> set is \<Longrightarrow> deadline s1 j = Some t \<Longrightarrow> t \<le> now \<Longrightarrow> requested s' j"
    by auto
  have "requested s' j" if "j \<in> set (i # is)" "deadline s j = Some t" "t \<le> now" for j t
  proof (cases "j = i")
    case True
    with d(4) IH(5) that show ?thesis by blast
  next
    case False
    with IH(6) [of j t] d(2) [of j] that show ?thesis by simp
  qed
  moreover have "deadline s' j = (if j \<in> set (i # is) \<and> (\<exists>t. deadline s j = Some t \<and> t \<le> now) then None else deadline s j)" for j
    using IH(4) [of j] d(2) [of j] by (cases "j = i") auto
  ultimately show ?case
    using IH(1-3) d(1) IH(5) d(3) by (intro conjI allI impI) (simp_all del: split_paired_All)
qed auto

text \<open>What a round does to each node: a due one is triggered once, the others are left alone.\<close>

definition timer_due :: "'c scheduler \<Rightarrow> framework_time \<Rightarrow> nat \<Rightarrow> bool" where
  "timer_due s now i \<longleftrightarrow> (case deadline s i of None \<Rightarrow> False | Some t \<Rightarrow> t \<le> now)"

definition timer_fired :: "node_state \<Rightarrow> node_state" where
  "timer_fired n = n\<lparr>deadline_cell := to_nanoseconds INVALID, status := notify_next (status n) True\<rparr>"

lemma deadline_timer_fired: "nodes s ! i = timer_fired n \<Longrightarrow> deadline s i = None"
  by (simp add: deadline_def timer_fired_def from_nanos_def to_nanoseconds_def)

lemma dispatch_due_exact:
  assumes run: "dispatch_due C s i now = Ret s'" and i: "i < length (nodes s)"
    and on: "timers_enabled s" and go: "\<not> stopped s"
  shows "if timer_due s now i
    then nodes s' = (nodes s)[i := timer_fired (nodes s ! i)]
      \<and> active s' = active s + of_bool (new_work (status_of s i) True)
    else s' = s"
proof (cases "timer_due s now i")
  case False
  then have "claim_due s i now = (False, s)"
    by (auto simp: timer_due_def claim_due_def split: option.splits)
  with False run on show ?thesis by (simp add: dispatch_due_def)
next
  case True
  then obtain t where t: "deadline s i = Some t" "t \<le> now"
    by (auto simp: timer_due_def split: option.splits)
  let ?s = "s\<lparr>nodes := (nodes s)[i := (nodes s ! i)\<lparr>deadline_cell := to_nanoseconds INVALID\<rparr>]\<rparr>"
  have "deadline_cell (nodes s ! i) = to_nanoseconds t"
    using t(1) by (auto simp: deadline_def Let_def from_nanos_def to_nanoseconds_def split: if_splits)
  then have "claim_due s i now = (True, ?s)"
    using t by (simp add: claim_due_def claim_exchange_def)
  with run on have "notify C ?s i True = Ret s'"
    by (simp add: dispatch_due_def trigger_def)
  then have "nodes s' = (nodes s)[i := timer_fired (nodes s ! i)]
      \<and> active s' = active s + of_bool (new_work (status_of s i) True)"
    using i go
    by (auto simp: notify_def Let_def timer_fired_def set_status_def enqueue_def split: if_splits)
  with True show ?thesis by simp
qed

lemma dispatch_all_exact:
  assumes "dispatch_all C s is now = Ret s'" and "set is \<subseteq> {..<length (nodes s)}"
    and "timers_enabled s" and "\<not> stopped s"
  shows "(\<forall>j < length (nodes s). nodes s' ! j = (if j \<in> set is \<and> timer_due s now j then timer_fired (nodes s ! j) else nodes s ! j))
    \<and> active s' = active s + of_nat (card {j \<in> set is. timer_due s now j \<and> new_work (status_of s j) True})"
  using assms
proof (induction "is" arbitrary: s)
  case (Cons i "is")
  obtain s1 where s1: "dispatch_due C s i now = Ret s1" and r: "dispatch_all C s1 is now = Ret s'"
    using Cons.prems(1) by auto
  have i: "i < length (nodes s)" using Cons.prems(2) by simp
  note d = dispatch_due_exact [OF s1 i Cons.prems(3,4)]
  note frame = dispatch_due_law(1) [OF s1 i Cons.prems(3,4)]
  from Cons.IH [OF r] frame Cons.prems(2) have IH:
    "\<forall>j < length (nodes s). nodes s' ! j = (if j \<in> set is \<and> timer_due s1 now j then timer_fired (nodes s1 ! j) else nodes s1 ! j)"
    "active s' = active s1 + of_nat (card {j \<in> set is. timer_due s1 now j \<and> new_work (status_of s1 j) True})"
    by auto
  show ?case
  proof (cases "timer_due s now i")
    case False
    with d have "s1 = s" by simp
    moreover have "{j \<in> set (i # is). timer_due s now j \<and> new_work (status_of s j) True}
        = {j \<in> set is. timer_due s now j \<and> new_work (status_of s j) True}" using False by auto
    ultimately show ?thesis using IH False by auto
  next
    case True
    with d have n: "nodes s1 = (nodes s)[i := timer_fired (nodes s ! i)]"
      and a: "active s1 = active s + of_bool (new_work (status_of s i) True)" by simp_all
    have other: "nodes s1 ! j = nodes s ! j" "timer_due s1 now j = timer_due s now j" "status_of s1 j = status_of s j" if "j \<noteq> i" for j
      using that n by (simp_all add: timer_due_def deadline_def)
    have gone: "\<not> timer_due s1 now i"
      using deadline_timer_fired [of s1 i "nodes s ! i"] n i by (simp add: timer_due_def)
    let ?D = "{j \<in> set is. timer_due s1 now j \<and> new_work (status_of s1 j) True}"
    have "{j \<in> set (i # is). timer_due s now j \<and> new_work (status_of s j) True}
        = (if new_work (status_of s i) True then insert i ?D else ?D)"
      using True other(2,3) gone by (auto; metis)
    moreover have "i \<notin> ?D" using gone by simp
    ultimately have "active s' = active s + of_nat (card {j \<in> set (i # is). timer_due s now j \<and> new_work (status_of s j) True})"
      using IH(2) a by simp
    moreover have "nodes s' ! j = (if j \<in> set (i # is) \<and> timer_due s now j then timer_fired (nodes s ! j) else nodes s ! j)"
      if "j < length (nodes s)" for j
      using IH(1) that n i True gone other by (cases "j = i") auto
    ultimately show ?thesis by blast
  qed
qed auto

lemma earliest_None: "earliest ts = None \<longleftrightarrow> set ts \<subseteq> {None}"
  by (induction ts rule: earliest.induct) (auto split: option.splits)

lemma earliest_Some:
  "earliest ts = Some t \<Longrightarrow> Some t \<in> set ts \<and> (\<forall>u. Some u \<in> set ts \<longrightarrow> t \<le> u)"
  by (induction ts arbitrary: t rule: earliest.induct)
    (auto split: option.splits simp: min_def earliest_None split: if_splits)

section \<open>Properties\<close>

text \<open>
  C39: A round of the timer thread. With timers enabled and the executor not stopped, after a round
  every timed node whose deadline had passed is requested and its deadline is cleared, so that one
  deadline triggers one run. Exactly these nodes are triggered, each once: their status is what one
  notification makes of it, every other node is unchanged, and the number of nodes at work grows by
  those of them that were idle or waiting. The wait that follows is at most
  100 milliseconds and never extends beyond the earliest remaining deadline, which lies in the
  future.
\<close>

theorem timer_round_dispatches:
  assumes "timer_round C s timed now = Ret (s', timeout)" and "set timed \<subseteq> {..<length (nodes s)}"
    and "timers_enabled s" and "\<not> stopped s"
  shows "(\<forall>i \<in> set timed. \<forall>t. deadline s i = Some t \<longrightarrow> t \<le> now \<longrightarrow> requested s' i \<and> deadline s' i = None)
    \<and> (\<forall>i. (\<forall>t. deadline s i = Some t \<longrightarrow> now < t) \<or> i \<notin> set timed \<longrightarrow> deadline s' i = deadline s i)
    \<and> (\<forall>i < length (nodes s). nodes s' ! i = (if i \<in> set timed \<and> timer_due s now i
         then (nodes s ! i)\<lparr>deadline_cell := to_nanoseconds INVALID, status := notify_next (status_of s i) True\<rparr>
         else nodes s ! i))
    \<and> active s' = active s + of_nat (card {i \<in> set timed. timer_due s now i \<and> new_work (status_of s i) True})
    \<and> timeout \<le> POLL_INTERVAL
    \<and> (\<forall>i \<in> set timed. \<forall>t. deadline s' i = Some t \<longrightarrow>
         now < t \<and> nanoseconds now + int timeout \<le> nanoseconds t)"
proof -
  let ?s = "s\<lparr>timer_signal := False\<rparr>"
  have same: "deadline ?s i = deadline s i" for i by (simp add: deadline_def)
  from assms(1) have run: "dispatch_all C ?s timed now = Ret s'"
    and tm: "timeout = round_timeout (if timers_enabled s' then earliest (map (deadline s') timed) else None) now"
    by (auto simp: timer_round_def)
  from dispatch_all_law [OF run] assms(2-4) have d: "timers_enabled s'"
    "\<And>j. deadline s' j = (if j \<in> set timed \<and> (\<exists>t. deadline s j = Some t \<and> t \<le> now) then None else deadline s j)"
    "\<And>j t. j \<in> set timed \<Longrightarrow> deadline s j = Some t \<Longrightarrow> t \<le> now \<Longrightarrow> requested s' j"
    by (auto simp: same)
  have dues: "timer_due ?s now i = timer_due s now i" for i by (simp add: timer_due_def same)
  have exact: "\<forall>i < length (nodes s). nodes s' ! i = (if i \<in> set timed \<and> timer_due s now i
         then (nodes s ! i)\<lparr>deadline_cell := to_nanoseconds INVALID, status := notify_next (status_of s i) True\<rparr>
         else nodes s ! i)"
    "active s' = active s + of_nat (card {i \<in> set timed. timer_due s now i \<and> new_work (status_of s i) True})"
    using dispatch_all_exact [OF run] assms(2-4) by (simp_all add: dues timer_fired_def)
  have late: "now < t" if "i \<in> set timed" "deadline s' i = Some t" for i t
    using d(2) [of i] that by (cases "\<exists>t. deadline s i = Some t \<and> t \<le> now") (auto simp: not_le)
  have "nanoseconds now + int timeout \<le> nanoseconds t" if i: "i \<in> set timed" "deadline s' i = Some t" for i t
  proof -
    have "Some t \<in> set (map (deadline s') timed)" using i by (metis image_eqI set_map)
    then obtain u where u: "earliest (map (deadline s') timed) = Some u" "u \<le> t"
      using earliest_Some earliest_None [of "map (deadline s') timed"]
      by (cases "earliest (map (deadline s') timed)") auto
    have "now < u"
      using earliest_Some [OF u(1)] late by auto
    then show ?thesis
      using tm d(1) u mod_less_eq_dividend [of "nat (nanoseconds u - nanoseconds now)" "2 ^ 64"]
      by (simp add: round_timeout_def to_nanoseconds_def less_framework_time_def less_eq_framework_time_def)
  qed
  moreover have "timeout \<le> POLL_INTERVAL"
    by (simp add: tm round_timeout_def split: option.splits)
  moreover have "(\<forall>i \<in> set timed. \<forall>t. deadline s i = Some t \<longrightarrow> t \<le> now \<longrightarrow> requested s' i \<and> deadline s' i = None)
      \<and> (\<forall>i. (\<forall>t. deadline s i = Some t \<longrightarrow> now < t) \<or> i \<notin> set timed \<longrightarrow> deadline s' i = deadline s i)"
    using d late by (auto split: if_splits)
  ultimately show ?thesis
    using exact late by blast
qed

definition armed_scheduler :: "nat list_queue scheduler" where
  "armed_scheduler = set_deadline sample_scheduler 0 (Some (from_nanos 5))"

lemma armed_round:
  "\<exists>s' timeout. timer_round list_channel armed_scheduler [0] (from_nanos 7) = Ret (s', timeout)"
  by (simp add: timer_round_def armed_scheduler_def set_deadline_def sample_scheduler_def scheduler_new_def
      dispatch_due_def claim_due_def claim_exchange_def deadline_def Let_def from_nanos_def to_nanoseconds_def
      INVALID_def i64_defs less_eq_framework_time_def trigger_def notify_def new_work_def set_status_def
      enqueue_def list_channel_def input_triggered_def)

lemma armed_facts:
  "set [0] \<subseteq> {..<length (nodes armed_scheduler)}" "timers_enabled armed_scheduler" "\<not> stopped armed_scheduler"
  "deadline armed_scheduler 0 = Some (from_nanos 5)" "from_nanos 5 \<le> from_nanos 7"
  by (simp_all add: armed_scheduler_def set_deadline_def sample_scheduler_def scheduler_new_def deadline_def Let_def
      from_nanos_def to_nanoseconds_def INVALID_def i64_defs less_eq_framework_time_def)

theorem timer_round_dispatches_witness:
  "\<exists>s' timeout. timer_round list_channel armed_scheduler [0] (from_nanos 7) = Ret (s', timeout)
     \<and> requested s' 0 \<and> deadline s' 0 = None \<and> timeout \<le> POLL_INTERVAL"
proof -
  obtain s' timeout where r: "timer_round list_channel armed_scheduler [0] (from_nanos 7) = Ret (s', timeout)"
    using armed_round by blast
  from timer_round_dispatches [OF r armed_facts(1-3)] armed_facts(4,5) have
    "requested s' 0 \<and> deadline s' 0 = None \<and> timeout \<le> POLL_INTERVAL" by simp
  with r show ?thesis by blast
qed

text \<open>
  Quiescing the timers is final and loses nothing: nodes whose deadline has passed are requested,
  the remaining deadlines stay, and afterwards no call of \<open>dispatch_due\<close> and no second
  \<open>quiesce_timers\<close> triggers anything.
\<close>

theorem quiesce_timers_final:
  assumes "quiesce_timers C s now = Ret s'" and "timers_enabled s" and "\<not> stopped s"
  shows "(\<forall>i < length (nodes s). \<forall>t. deadline s i = Some t \<longrightarrow>
        (if t \<le> now then requested s' i \<and> deadline s' i = None else deadline s' i = Some t))
    \<and> \<not> timers_enabled s'
    \<and> (\<forall>i later. dispatch_due C s' i later = Ret s') \<and> (\<forall>later. quiesce_timers C s' later = Ret s')"
proof -
  obtain s1 where s1: "dispatch_all C s [0..<length (nodes s)] now = Ret s1"
    "s' = s1\<lparr>timers_enabled := False, timer_signal := True\<rparr>"
    using assms(1,2) by (auto simp: quiesce_timers_def)
  have same: "deadline s' i = deadline s1 i" "requested s' i = requested s1 i" for i
    by (simp_all add: s1(2) deadline_def requested_def)
  have "(\<forall>j. deadline s1 j = (if j \<in> set [0..<length (nodes s)] \<and> (\<exists>t. deadline s j = Some t \<and> t \<le> now)
          then None else deadline s j))
      \<and> (\<forall>j t. j \<in> set [0..<length (nodes s)] \<longrightarrow> deadline s j = Some t \<longrightarrow> t \<le> now \<longrightarrow> requested s1 j)"
    using dispatch_all_law [OF s1(1) _ assms(2,3)] lessThan_atLeast0 [of "length (nodes s)"]
    by (simp del: split_paired_All)
  then show ?thesis
    by (auto simp: same) (simp_all add: s1(2) dispatch_due_def quiesce_timers_def)
qed

theorem quiesce_timers_final_witness:
  "\<exists>s'. quiesce_timers list_channel armed_scheduler (from_nanos 7) = Ret s' \<and> requested s' 0 \<and> \<not> timers_enabled s'"
proof -
  have "\<exists>s'. quiesce_timers list_channel armed_scheduler (from_nanos 7) = Ret s'"
    by (simp add: quiesce_timers_def armed_scheduler_def set_deadline_def sample_scheduler_def scheduler_new_def
        dispatch_due_def claim_due_def claim_exchange_def deadline_def Let_def from_nanos_def to_nanoseconds_def
        INVALID_def i64_defs less_eq_framework_time_def trigger_def notify_def new_work_def set_status_def
        enqueue_def list_channel_def input_triggered_def)
  then obtain s' where r: "quiesce_timers list_channel armed_scheduler (from_nanos 7) = Ret s'" by blast
  from quiesce_timers_final [OF r armed_facts(2,3)] armed_facts(1,4,5) r show ?thesis by fastforce
qed

text \<open>A thread runs its atomic steps without being disturbed; \<open>n\<close> steps are enough.\<close>

fun run_thread :: "nat \<Rightarrow> 'c work_channel \<Rightarrow> 'c scheduler \<Rightarrow> sched_pc \<Rightarrow> 'c scheduler outcome" where
  "run_thread 0 C s p = Diverges"
| "run_thread (Suc n) C s p = and_then (sched_step C False s p) (\<lambda>(p', s'). case p' of
     None \<Rightarrow> Ret s' | Some q \<Rightarrow> run_thread n C s' q)"

text \<open>
  The calls agree with the interleaved model. Run alone from its entry, the thread of a
  notification ends after at most four steps in the state \<open>notify\<close> returns, with the same panic if
  the queue is full, and the thread that finishes a node ends in the state \<open>finish\<close> returns.
\<close>

theorem calls_refine_steps:
  assumes "i < length (nodes s)" and "\<not> stopped s" and "4 \<le> n"
  shows "run_thread n C s (Entered i tr) = notify C s i tr
    \<and> (claimed_status (status_of s i) \<longrightarrow>
         run_thread n C s (Finishing i executed (status_of s i)) = finish C s i executed)"
proof -
  have four: "4 = Suc (Suc (Suc (Suc 0)))" by simp
  obtain m where n: "n = Suc (Suc (Suc (Suc m)))"
    using le_Suc_ex [OF assms(3)] unfolding four by auto
  have "run_thread n C s (Entered i tr) = notify C s i tr"
  proof (cases "new_work (status_of s i) tr")
    case True
    let ?s = "set_status s i (notify_next (status_of s i) tr)"
    have "set_status (s\<lparr>active := active s + 1\<rparr>) i (notify_next (status_of s i) tr) = ?s\<lparr>active := active ?s + 1\<rparr>"
      by (simp add: set_status_def)
    with True assms(2) show ?thesis
      by (simp add: n notify_def notify_exchange_def Let_def)
  next
    case False
    with assms(2) show ?thesis by (simp add: n notify_def notify_exchange_def Let_def)
  qed
  moreover have "run_thread n C s (Finishing i executed (status_of s i)) = finish C s i executed"
    if "claimed_status (status_of s i)"
    using assms that by (cases "status_of s i") (auto simp: n finish_def claimed_status.simps Let_def)
  ultimately show ?thesis by blast
qed

theorem calls_refine_steps_witness:
  "run_thread 4 list_channel sample_scheduler (Entered 0 True) = notify list_channel sample_scheduler 0 True"
  using calls_refine_steps [of 0 sample_scheduler 4 list_channel True]
  by (simp add: sample_scheduler_def scheduler_new_def)

end
