(* ===== verification/Callback_Batch.thy ===== *)
theory Callback_Batch
  imports Callback_Lifecycle
begin

text \<open>
  \<open>simulation_executor/src/callback_execution.rs\<close>: a batch of callbacks is prepared, run by a bounded
  number of workers, and committed in the order given.

  The workers run the bodies concurrently. Here a body is one action, and \<open>order\<close>, an argument of
  the model, is the order in which the bodies of the batch happen to run: any order that keeps the
  positions of each worker's share ascending. A panic of a body is caught by the code, and is the
  value \<open>BodyPanic\<close>. The validation before the commit sees the state after the bodies.
\<close>

section \<open>Model\<close>

datatype batch_failure = BatchCallback loan_error | BatchPanic

datatype 'e batch_execution_error =
  NoWorkers
| BatchCallbackError nat batch_failure
| BeforeCommit 'e

fun prepare_batch ::
  "(nat \<times> 's callback_ops) list \<Rightarrow> 's \<Rightarrow> ((nat \<times> 's callback_ops) list \<times> 's) outcome" where
  "prepare_batch [] s = Ret ([], s)"
| "prepare_batch ((index, cb) # cbs) s =
     and_then (prepare_callback cb s) (\<lambda>(ready, s1).
     and_then (prepare_batch cbs s1) (\<lambda>(prepared, s2).
       Ret (if ready then (index, cb) # prepared else prepared, s2)))"

text \<open>The position in the batch decides which worker runs a job: \<open>position % count\<close>.\<close>

definition worker_count :: "nat \<Rightarrow> nat \<Rightarrow> nat" where
  "worker_count workers n = min workers n"

definition batch_order :: "nat \<Rightarrow> nat \<Rightarrow> nat list \<Rightarrow> bool" where
  "batch_order workers n order \<longleftrightarrow> distinct order \<and> set order = {..<n}
     \<and> (\<forall>k < worker_count workers n. sorted (filter (\<lambda>p. p mod worker_count workers n = k) order))"

fun run_jobs ::
  "'s callback_ops list \<Rightarrow> framework_time \<Rightarrow> nat list \<Rightarrow> 's \<Rightarrow> ((nat \<times> body_result) list \<times> 's) outcome" where
  "run_jobs cbs now [] s = Ret ([], s)"
| "run_jobs cbs now (p # ps) s =
     and_then (run_prepared (cbs ! p) now s) (\<lambda>(r, s1).
     and_then (run_jobs cbs now ps s1) (\<lambda>(rs, s2). Ret ((p, r) # rs, s2)))"

fun first_failure :: "(nat \<times> body_result) list \<Rightarrow> (nat \<times> batch_failure) option" where
  "first_failure [] = None"
| "first_failure ((p, BodyOk) # rs) = first_failure rs"
| "first_failure ((p, BodyErr e) # rs) = Some (p, BatchCallback e)"
| "first_failure ((p, BodyPanic) # rs) = Some (p, BatchPanic)"

text \<open>Dropping completed invocations, in this order.\<close>

fun cancel_jobs :: "'s callback_ops list \<Rightarrow> nat list \<Rightarrow> 's \<Rightarrow> 's outcome" where
  "cancel_jobs cbs [] s = Ret s"
| "cancel_jobs cbs (p # ps) s = and_then (invocation_drop (cbs ! p) True s) (cancel_jobs cbs ps)"

text \<open>
  At the first failure, \<open>collect\<close> drops the results that follow and then those it had collected; of
  failed ones there is nothing left to drop.
\<close>

definition drop_order :: "nat \<Rightarrow> (nat \<times> body_result) list \<Rightarrow> nat list" where
  "drop_order p results =
     (let completed = map fst (filter (\<lambda>(_, r). r = BodyOk) results)
      in filter (\<lambda>q. p < q) completed @ filter (\<lambda>q. q < p) completed)"

definition run_prepared_batch ::
  "'s callback_ops list \<Rightarrow> framework_time \<Rightarrow> nat list \<Rightarrow> 's \<Rightarrow> ((nat \<times> batch_failure + unit) \<times> 's) outcome" where
  "run_prepared_batch cbs now order s =
     and_then (run_jobs cbs now order s) (\<lambda>(rs, s1).
       let results = sort_key fst rs in case first_failure results of
         None \<Rightarrow> Ret (Inr (), s1)
       | Some (p, failure) \<Rightarrow> and_then (cancel_jobs cbs (drop_order p results) s1) (\<lambda>s2.
           Ret (Inl (p, failure), s2)))"

fun commit_jobs :: "'s callback_ops list \<Rightarrow> framework_time \<Rightarrow> 's \<Rightarrow> 's outcome" where
  "commit_jobs [] now s = Ret s"
| "commit_jobs (cb # cbs) now s = and_then (commit_callback cb now s) (commit_jobs cbs now)"

definition execute_callback_batch ::
  "(nat \<times> 's callback_ops) list \<Rightarrow> framework_time \<Rightarrow> nat \<Rightarrow> (nat \<Rightarrow> nat list) \<Rightarrow> (nat list \<Rightarrow> 's \<Rightarrow> 'e + 'r) \<Rightarrow> 's
     \<Rightarrow> (('e batch_execution_error + nat list \<times> 'r) \<times> 's) outcome" where
  "execute_callback_batch callbacks now workers order before_commit s =
     (if workers = 0 then Ret (Inl NoWorkers, s)
      else and_then (prepare_batch callbacks s) (\<lambda>(prepared, s1).
        let executed = map fst prepared; cbs = map snd prepared in
        and_then (run_prepared_batch cbs now (order (length cbs)) s1) (\<lambda>(r, s2). case r of
          Inl (p, failure) \<Rightarrow> Ret (Inl (BatchCallbackError (executed ! p) failure), s2)
        | Inr _ \<Rightarrow> (case before_commit executed s2 of
            Inl e \<Rightarrow> and_then (cancel_jobs cbs [0..<length cbs] s2) (\<lambda>s3. Ret (Inl (BeforeCommit e), s3))
          | Inr result \<Rightarrow> and_then (commit_jobs cbs now s2) (\<lambda>s3. Ret (Inr (executed, result), s3))))))"

section \<open>Independence of the order\<close>

text \<open>Two actions that may be exchanged.\<close>

definition commuting :: "('s \<Rightarrow> ('r \<times> 's) outcome) \<Rightarrow> ('s \<Rightarrow> ('r \<times> 's) outcome) \<Rightarrow> bool" where
  "commuting f g \<longleftrightarrow> (\<forall>s.
     and_then (f s) (\<lambda>(x, s1). and_then (g s1) (\<lambda>(y, s2). Ret (x, y, s2)))
     = and_then (g s) (\<lambda>(y, s1). and_then (f s1) (\<lambda>(x, s2). Ret (x, y, s2))))"

lemma commuting_sym: "commuting f g \<Longrightarrow> commuting g f"
  unfolding commuting_def
proof
  fix s
  assume "\<forall>s. and_then (f s) (\<lambda>(x, s1). and_then (g s1) (\<lambda>(y, s2). Ret (x, y, s2)))
     = and_then (g s) (\<lambda>(y, s1). and_then (f s1) (\<lambda>(x, s2). Ret (x, y, s2)))"
  then have "and_then (and_then (f s) (\<lambda>(x, s1). and_then (g s1) (\<lambda>(y, s2). Ret (x, y, s2))))
        (\<lambda>(x, y, s2). Ret (y, x, s2))
      = and_then (and_then (g s) (\<lambda>(y, s1). and_then (f s1) (\<lambda>(x, s2). Ret (x, y, s2))))
        (\<lambda>(x, y, s2). Ret (y, x, s2))"
    by simp
  then show "and_then (g s) (\<lambda>(x, s1). and_then (f s1) (\<lambda>(y, s2). Ret (x, y, s2)))
      = and_then (f s) (\<lambda>(y, s1). and_then (g s1) (\<lambda>(x, s2). Ret (x, y, s2)))"
    by (simp add: case_prod_unfold)
qed

text \<open>The results of the jobs without their order.\<close>

definition jobs_result ::
  "'s callback_ops list \<Rightarrow> framework_time \<Rightarrow> nat list \<Rightarrow> 's \<Rightarrow> ((nat \<times> body_result) multiset \<times> 's) outcome" where
  "jobs_result cbs now ps s = and_then (run_jobs cbs now ps s) (\<lambda>(rs, s'). Ret (mset rs, s'))"

lemma jobs_result_Cons:
  "jobs_result cbs now (p # ps) s = and_then (run_prepared (cbs ! p) now s) (\<lambda>(r, s1).
     and_then (jobs_result cbs now ps s1) (\<lambda>(M, s2). Ret (add_mset (p, r) M, s2)))"
  by (simp add: jobs_result_def case_prod_unfold)

lemma jobs_result_swap:
  assumes "commuting (run_prepared (cbs ! p) now) (run_prepared (cbs ! q) now)"
  shows "jobs_result cbs now (p # q # ps) s = jobs_result cbs now (q # p # ps) s"
proof -
  let ?f = "run_prepared (cbs ! p) now" and ?g = "run_prepared (cbs ! q) now"
  let ?k = "\<lambda>(x, y, s2). and_then (jobs_result cbs now ps s2) (\<lambda>(M, s3). Ret (add_mset (p, x) (add_mset (q, y) M), s3))"
  have "jobs_result cbs now (p # q # ps) s
      = and_then (and_then (?f s) (\<lambda>(x, s1). and_then (?g s1) (\<lambda>(y, s2). Ret (x, y, s2)))) ?k"
    by (simp add: jobs_result_Cons case_prod_unfold)
  also have "\<dots> = and_then (and_then (?g s) (\<lambda>(y, s1). and_then (?f s1) (\<lambda>(x, s2). Ret (x, y, s2)))) ?k"
    using assms by (simp only: commuting_def)
  also have "\<dots> = jobs_result cbs now (q # p # ps) s"
    by (simp add: jobs_result_Cons case_prod_unfold add_mset_commute)
  finally show ?thesis .
qed

lemma jobs_result_bubble:
  assumes "\<forall>q \<in> set qs. commuting (run_prepared (cbs ! q) now) (run_prepared (cbs ! p) now)"
  shows "jobs_result cbs now (qs @ p # ps) s = jobs_result cbs now (p # qs @ ps) s"
  using assms
proof (induction qs arbitrary: s)
  case (Cons q qs)
  then have "jobs_result cbs now ((q # qs) @ p # ps) s = jobs_result cbs now (q # p # qs @ ps) s"
    by (simp add: jobs_result_Cons [of _ _ q])
  also have "\<dots> = jobs_result cbs now (p # q # qs @ ps) s"
    using Cons.prems by (intro jobs_result_swap) simp
  finally show ?case by simp
qed simp

lemma jobs_result_perm:
  assumes "mset ps = mset qs" and "distinct ps"
    and "\<forall>p \<in> set ps. \<forall>q \<in> set ps. p \<noteq> q \<longrightarrow> commuting (run_prepared (cbs ! p) now) (run_prepared (cbs ! q) now)"
  shows "jobs_result cbs now ps s = jobs_result cbs now qs s"
  using assms
proof (induction ps arbitrary: qs s)
  case (Cons p ps)
  then have "p \<in> set qs" by (metis list.set_intros(1) set_mset_mset)
  then obtain xs ys where qs: "qs = xs @ p # ys" by (metis split_list)
  have sub: "mset ps = mset (xs @ ys)" using Cons.prems(1) qs by simp
  then have "set xs \<subseteq> set ps" by (metis set_append set_mset_mset sup_ge1)
  then have c: "\<forall>q \<in> set xs. commuting (run_prepared (cbs ! q) now) (run_prepared (cbs ! p) now)"
    using Cons.prems(2,3) by (metis distinct.simps(2) list.set_intros subsetD)
  have "jobs_result cbs now ps s' = jobs_result cbs now (xs @ ys) s'" for s'
    using Cons.IH [OF sub] Cons.prems(2,3) by simp
  then show ?case
    unfolding qs jobs_result_bubble [OF c] by (simp add: jobs_result_Cons)
qed simp

lemma run_jobs_fst: "run_jobs cbs now ps s = Ret (rs, s') \<Longrightarrow> map fst rs = ps"
  by (induction ps arbitrary: s rs) auto

lemma run_prepared_batch_order:
  assumes "mset ps = mset qs" and "distinct ps"
    and "\<forall>p \<in> set ps. \<forall>q \<in> set ps. p \<noteq> q \<longrightarrow> commuting (run_prepared (cbs ! p) now) (run_prepared (cbs ! q) now)"
  shows "run_prepared_batch cbs now ps s = run_prepared_batch cbs now qs s"
proof -
  have sort: "sort_key fst rs = sort_key fst rs'"
    if "mset rs = mset rs'" "distinct (map fst rs)" for rs rs' :: "(nat \<times> body_result) list"
    using that sort_key_inj_key_eq [of rs "sort_key fst rs'" fst] by (simp add: distinct_map)
  have eq: "jobs_result cbs now ps s = jobs_result cbs now qs s"
    using assms by (rule jobs_result_perm)
  show ?thesis
  proof (cases "run_jobs cbs now ps s")
    case (Ret x)
    obtain rs s1 where x: "x = (rs, s1)" by (cases x)
    from eq Ret x obtain rs' where r: "run_jobs cbs now qs s = Ret (rs', s1)" "mset rs = mset rs'"
      by (cases "run_jobs cbs now qs s") (auto simp: jobs_result_def)
    have "sort_key fst rs = sort_key fst rs'"
      using r(2) run_jobs_fst [of cbs now ps s rs s1] Ret x assms(2) by (intro sort) simp_all
    then show ?thesis
      using Ret x r(1) by (simp add: run_prepared_batch_def)
  qed (use eq in \<open>cases "run_jobs cbs now qs s"; auto simp: jobs_result_def run_prepared_batch_def\<close>)+
qed

lemma prepare_batch_sublist:
  "prepare_batch cbs s = Ret (prepared, s') \<Longrightarrow> sorted_wrt R cbs \<Longrightarrow>
     set prepared \<subseteq> set cbs \<and> sorted_wrt R prepared"
proof (induction cbs arbitrary: s prepared)
  case (Cons c cbs)
  obtain index cb where c: "c = (index, cb)" by (cases c)
  from Cons.prems(1) c obtain ready s1 prepared' where *: "prepare_callback cb s = Ret (ready, s1)"
    "prepare_batch cbs s1 = Ret (prepared', s')" "prepared = (if ready then (index, cb) # prepared' else prepared')"
    by auto
  from Cons.IH [OF *(2)] Cons.prems(2) * c show ?case by auto
qed simp

lemma batch_order_mset: "batch_order w n ps \<Longrightarrow> batch_order w' n qs \<Longrightarrow> mset ps = mset qs \<and> distinct ps \<and> set ps = {..<n}"
  by (simp add: batch_order_def set_eq_iff_mset_eq_distinct [symmetric])

section \<open>Effects of a batch on the bus\<close>

lemma silent_mono: "silent I K st st' \<Longrightarrow> I \<subseteq> I' \<Longrightarrow> K \<subseteq> K' \<Longrightarrow> silent I' K' st st'"
  by (auto simp: silent_def)

text \<open>
  Operations of callbacks that return at good states and change the state within a relation, which
  the commit may leave for another good state. The relation is that nothing was published, or no
  restriction at all where only returning matters.
\<close>

definition quiet_callback :: "('s \<Rightarrow> bool) \<Rightarrow> ('s \<Rightarrow> 's \<Rightarrow> bool) \<Rightarrow> framework_time \<Rightarrow> 's callback_ops \<Rightarrow> bool" where
  "quiet_callback good R now cb \<longleftrightarrow> (\<forall>st. good st \<longrightarrow>
     (\<exists>r st'. prepare_callback cb st = Ret (r, st') \<and> R st st')
     \<and> (\<exists>r st'. run_prepared cb now st = Ret (r, st') \<and> R st st')
     \<and> (\<exists>st'. invocation_drop cb True st = Ret st' \<and> R st st')
     \<and> (\<exists>st'. commit_callback cb now st = Ret st' \<and> good st'))"

lemma quiet_callbackD:
  assumes "quiet_callback good R now cb" and "good st"
  shows "\<exists>r st'. prepare_callback cb st = Ret (r, st') \<and> R st st'"
    and "\<exists>r st'. run_prepared cb now st = Ret (r, st') \<and> R st st'"
    and "\<exists>st'. invocation_drop cb True st = Ret st' \<and> R st st'"
    and "\<exists>st'. commit_callback cb now st = Ret st' \<and> good st'"
  using assms by (simp_all add: quiet_callback_def)

locale batch_relation =
  fixes good :: "'s \<Rightarrow> bool" and R :: "'s \<Rightarrow> 's \<Rightarrow> bool"
  assumes R_refl: "good st \<Longrightarrow> R st st"
    and R_trans: "R st st1 \<Longrightarrow> R st1 st2 \<Longrightarrow> R st st2"
    and R_good: "R st st' \<Longrightarrow> good st'"
begin

lemma prepare_batch_law:
  assumes "\<forall>(_, cb) \<in> set cbs. quiet_callback good R now cb" and "good st"
  shows "\<exists>prepared st'. prepare_batch cbs st = Ret (prepared, st') \<and> R st st'
    \<and> set prepared \<subseteq> set cbs"
  using assms
proof (induction cbs arbitrary: st)
  case (Cons c cbs)
  obtain i cb where c: "c = (i, cb)" by (cases c)
  then obtain r st1 where 1: "prepare_callback cb st = Ret (r, st1)" "R st st1"
    using quiet_callbackD(1) [of good R now cb st] Cons.prems by auto
  from Cons.IH [OF _ R_good [OF 1(2)]] Cons.prems(1) obtain prepared st' where
    2: "prepare_batch cbs st1 = Ret (prepared, st')" "R st1 st'" "set prepared \<subseteq> set cbs" by auto
  with 1 c R_trans [OF 1(2) 2(2)] show ?case by auto
qed (simp add: R_refl)

lemma run_jobs_law:
  assumes "\<forall>cb \<in> set cbs. quiet_callback good R now cb" and "set ps \<subseteq> {..<length cbs}" and "good st"
  shows "\<exists>rs st'. run_jobs cbs now ps st = Ret (rs, st') \<and> R st st'"
  using assms
proof (induction ps arbitrary: st)
  case (Cons p ps)
  then obtain r st1 where 1: "run_prepared (cbs ! p) now st = Ret (r, st1)" "R st st1"
    using quiet_callbackD(2) [of good R now "cbs ! p" st] by auto
  from Cons.IH [OF Cons.prems(1) _ R_good [OF 1(2)]] Cons.prems(2) obtain rs st' where
    2: "run_jobs cbs now ps st1 = Ret (rs, st')" "R st1 st'" by auto
  with 1 R_trans [OF 1(2) 2(2)] show ?case by auto
qed (simp add: R_refl)

lemma cancel_jobs_law:
  assumes "\<forall>cb \<in> set cbs. quiet_callback good R now cb" and "set ps \<subseteq> {..<length cbs}" and "good st"
  shows "\<exists>st'. cancel_jobs cbs ps st = Ret st' \<and> R st st'"
  using assms
proof (induction ps arbitrary: st)
  case (Cons p ps)
  then obtain st1 where 1: "invocation_drop (cbs ! p) True st = Ret st1" "R st st1"
    using quiet_callbackD(3) [of good R now "cbs ! p" st] by auto
  from Cons.IH [OF Cons.prems(1) _ R_good [OF 1(2)]] Cons.prems(2) obtain st' where
    2: "cancel_jobs cbs ps st1 = Ret st'" "R st1 st'" by auto
  with 1 R_trans [OF 1(2) 2(2)] show ?case by auto
qed (simp add: R_refl)

lemma commit_jobs_law:
  assumes "\<forall>cb \<in> set cbs. quiet_callback good R now cb" and "good st"
  shows "\<exists>st'. commit_jobs cbs now st = Ret st' \<and> good st'"
  using assms
proof (induction cbs arbitrary: st)
  case (Cons cb cbs)
  then obtain st1 where "commit_callback cb now st = Ret st1" "good st1"
    using quiet_callbackD(4) [of good R now cb st] by auto
  with Cons.IH [of st1] Cons.prems(1) show ?case by auto
qed simp

lemma drop_order_positions:
  assumes "run_jobs cbs now ps st = Ret (rs, st')"
  shows "set (drop_order p (sort_key fst rs)) \<subseteq> set ps"
  using run_jobs_fst [OF assms] by (force simp: drop_order_def Let_def)

lemma run_prepared_batch_law:
  assumes q: "\<forall>cb \<in> set cbs. quiet_callback good R now cb" and ps: "set ps \<subseteq> {..<length cbs}" and "good st"
  shows "\<exists>r st'. run_prepared_batch cbs now ps st = Ret (r, st') \<and> R st st'"
proof -
  from run_jobs_law [OF assms] obtain rs st1 where
    1: "run_jobs cbs now ps st = Ret (rs, st1)" "R st st1" by blast
  show ?thesis
  proof (cases "first_failure (sort_key fst rs)")
    case (Some x)
    obtain p failure where x: "x = (p, failure)" by (cases x)
    have "set (drop_order p (sort_key fst rs)) \<subseteq> {..<length cbs}"
      using drop_order_positions [OF 1(1)] ps by blast
    from cancel_jobs_law [OF q this R_good [OF 1(2)]] obtain st2 where
      2: "cancel_jobs cbs (drop_order p (sort_key fst rs)) st1 = Ret st2" "R st1 st2" by blast
    with 1 Some x R_trans [OF 1(2) 2(2)] show ?thesis
      by (simp add: run_prepared_batch_def Let_def)
  qed (use 1 in \<open>simp add: run_prepared_batch_def Let_def\<close>)
qed

lemma execute_batch_law:
  assumes batch: "\<forall>(_, cb) \<in> set cbs. quiet_callback good R now cb" and order: "\<forall>n. set (order n) \<subseteq> {..<n}" and st: "good st"
  shows "\<exists>r st'. execute_callback_batch cbs now workers order before_commit st = Ret (r, st')
    \<and> good st' \<and> (\<forall>e. r = Inl e \<longrightarrow> R st st')"
proof -
  from prepare_batch_law [OF batch st] obtain prepared st1 where p: "prepare_batch cbs st = Ret (prepared, st1)"
    "R st st1" "set prepared \<subseteq> set cbs" by blast
  have q: "\<forall>cb \<in> set (map snd prepared). quiet_callback good R now cb"
  proof
    fix cb assume "cb \<in> set (map snd prepared)"
    then obtain i where "(i, cb) \<in> set cbs" using p(3) by auto
    with batch show "quiet_callback good R now cb" by blast
  qed
  from run_prepared_batch_law [OF q order [rule_format] R_good [OF p(2)]] obtain r st2 where
    r: "run_prepared_batch (map snd prepared) now (order (length (map snd prepared))) st1 = Ret (r, st2)"
      "R st1 st2" by blast
  have un: "R st st2" using p(2) r(2) by (rule R_trans)
  have "set [0..<length (map snd prepared)] \<subseteq> {..<length (map snd prepared)}" by auto
  from cancel_jobs_law [OF q this R_good [OF un]] obtain st3 where
    c: "cancel_jobs (map snd prepared) [0..<length (map snd prepared)] st2 = Ret st3"
      "R st2 st3" by blast
  from commit_jobs_law [OF q R_good [OF un]] obtain st4 where
    d: "commit_jobs (map snd prepared) now st2 = Ret st4" "good st4" by blast
  show ?thesis
    using p(1) r(1) c(1) d un R_trans [OF un c(2)] st R_good [OF R_trans [OF un c(2)]] R_good [OF un] R_refl [OF st]
    by (cases "workers = 0"; cases r; cases "before_commit (map fst prepared) st2")
      (auto simp: execute_callback_batch_def Let_def split: prod.splits)
qed

end

text \<open>Nothing published: no visible effect beyond the given subscribers and publishers.\<close>

definition unpublished ::
  "(('f, 'q, 'a) channel_state \<Rightarrow> bool) \<Rightarrow> nat set \<Rightarrow> nat set
     \<Rightarrow> ('f, 'q, 'a) channel_state \<Rightarrow> ('f, 'q, 'a) channel_state \<Rightarrow> bool" where
  "unpublished good I K st st' \<longleftrightarrow> good st' \<and> silent I K st st'"

interpretation unpublished: batch_relation good "unpublished good I K" for good I K
  using silent_trans by unfold_locales (auto simp: unpublished_def)

text \<open>Operations that return, whatever they do.\<close>

definition ops_return :: "'s callback_ops \<Rightarrow> bool" where
  "ops_return cb \<longleftrightarrow> (\<forall>s. (\<exists>s'. update_inputs cb s = Ret s') \<and> (\<forall>now. \<exists>r s'. run_body cb now s = Ret (r, s'))
     \<and> (\<exists>s'. finish_inputs cb s = Ret s') \<and> (\<forall>now. \<exists>s'. flush_outputs cb now s = Ret s')
     \<and> (\<exists>s'. discard_outputs cb s = Ret s'))"

interpretation returning: batch_relation "\<lambda>_. True" "\<lambda>_ _. True"
  by unfold_locales auto

text \<open>Operations that return and keep a property of the state.\<close>

definition ops_keep :: "('s \<Rightarrow> bool) \<Rightarrow> 's callback_ops \<Rightarrow> bool" where
  "ops_keep P cb \<longleftrightarrow> (\<forall>s. P s \<longrightarrow> (\<exists>s'. update_inputs cb s = Ret s' \<and> P s')
     \<and> (\<forall>now. \<exists>r s'. run_body cb now s = Ret (r, s') \<and> P s')
     \<and> (\<exists>s'. finish_inputs cb s = Ret s' \<and> P s') \<and> (\<forall>now. \<exists>s'. flush_outputs cb now s = Ret s' \<and> P s')
     \<and> (\<exists>s'. discard_outputs cb s = Ret s' \<and> P s'))"

interpretation keeping: batch_relation P "\<lambda>_. P" for P
  by unfold_locales auto

lemma ops_keep_quiet:
  assumes "ops_keep P cb"
  shows "quiet_callback P (\<lambda>_. P) now cb"
proof -
  have keep: "\<exists>s'. update_inputs cb s = Ret s' \<and> P s'" "\<exists>r s'. run_body cb now s = Ret (r, s') \<and> P s'"
    "\<exists>s'. finish_inputs cb s = Ret s' \<and> P s'" "\<exists>s'. flush_outputs cb now s = Ret s' \<and> P s'"
    "\<exists>s'. discard_outputs cb s = Ret s' \<and> P s'" if "P s" for s
    using assms that by (simp_all add: ops_keep_def)
  have drop: "\<exists>s'. invocation_drop cb b s = Ret s' \<and> P s'" if "P s" for b s
  proof -
    obtain s1 where "discard_outputs cb s = Ret s1" "P s1" using keep(5) [OF \<open>P s\<close>] by blast
    moreover from this obtain s2 where "finish_inputs cb s1 = Ret s2" "P s2" using keep(3) by blast
    ultimately show ?thesis by (cases b) (simp_all add: invocation_drop_def)
  qed
  have "\<exists>r s'. prepare_callback cb s = Ret (r, s') \<and> P s'" if "P s" for s
  proof -
    obtain s1 where "update_inputs cb s = Ret s1" "P s1" using keep(1) [OF \<open>P s\<close>] by blast
    with drop [of s1 False] show ?thesis by (auto simp: prepare_callback_def)
  qed
  moreover have "\<exists>r s'. run_prepared cb now s = Ret (r, s') \<and> P s'" if "P s" for s
  proof -
    obtain r s1 where "run_body cb now s = Ret (r, s1)" "P s1" using keep(2) [OF \<open>P s\<close>] by blast
    with drop [of s1 True] show ?thesis by (auto simp: run_prepared_def)
  qed
  moreover have "\<exists>s'. commit_callback cb now s = Ret s' \<and> P s'" if "P s" for s
  proof -
    obtain s1 where "flush_outputs cb now s = Ret s1" "P s1" using keep(4) [OF \<open>P s\<close>] by blast
    with drop [of s1 True] show ?thesis by (auto simp: commit_callback_def)
  qed
  ultimately show ?thesis using drop [of _ True] by (simp add: quiet_callback_def)
qed

lemma ops_return_keep: "ops_return cb \<longleftrightarrow> ops_keep (\<lambda>_. True) cb"
  by (simp add: ops_return_def ops_keep_def)

lemma ops_return_quiet: "ops_return cb \<Longrightarrow> quiet_callback (\<lambda>_. True) (\<lambda>_ _. True) now cb"
  unfolding ops_return_keep by (rule ops_keep_quiet)

text \<open>Callback nodes whose bodies use their own endpoints only are quiet.\<close>

definition batch_good ::
  "(('f, 'q, 'a) channel_state \<Rightarrow> bool) \<Rightarrow> callback_node set \<Rightarrow> ('f, 'q, 'a) channel_state \<Rightarrow> bool" where
  "batch_good good nodes st \<longleftrightarrow> good st \<and> (\<forall>node \<in> nodes. node_fits node st)"

lemma batch_good_silent: "batch_good good N st \<Longrightarrow> good st' \<Longrightarrow> silent I K st st' \<Longrightarrow> batch_good good N st'"
  by (auto simp: batch_good_def intro: node_fits_silent)

context message_bus begin

lemma node_quiet:
  fixes body
  assumes node: "node \<in> N" and body: "body_confined F node (channel_inv F fitems fvalid Q qitems qvalid) (body now)"
  defines "good \<equiv> batch_good (channel_inv F fitems fvalid Q qitems qvalid) N"
  shows "quiet_callback good (unpublished good (\<Union>n \<in> N. input_subs n) (\<Union>n \<in> N. output_pubs n)) now (node_callback F Q node body)"
  unfolding quiet_callback_def
proof (intro allI impI)
  fix st assume st: "good st"
  let ?cb = "node_callback F Q node body"
  let ?I = "\<Union>n \<in> N. input_subs n" and ?K = "\<Union>n \<in> N. output_pubs n"
  have inv: "channel_inv F fitems fvalid Q qitems qvalid st" and fits: "node_fits node st"
    using st node by (auto simp: good_def batch_good_def)
  have un: "unpublished good ?I ?K st st'" if "channel_inv F fitems fvalid Q qitems qvalid st'"
    "silent (input_subs node) (output_pubs node) st st'" for st'
    using batch_good_silent [OF st [unfolded good_def] that] silent_mono [OF that(2), of ?I ?K] node
    by (auto simp: unpublished_def good_def)
  have 1: "\<exists>r st'. prepare_callback ?cb st = Ret (r, st') \<and> unpublished good ?I ?K st st'"
    using prepare_law [OF inv fits, of body] un by blast
  obtain r st2 where r: "body now st = Ret (r, st2)" "(body_step F node)\<^sup>*\<^sup>* st st2"
    using body inv fits unfolding body_confined_def by blast
  note b = body_steps_law [OF r(2) inv fits]
  have fits2: "node_fits node st2" using node_fits_silent [OF fits] b by blast
  from invocation_drop_law [OF conjunct1 [OF b] fits2, of body True] obtain st3 where
    3: "invocation_drop ?cb True st2 = Ret st3" "channel_inv F fitems fvalid Q qitems qvalid st3"
      "silent (input_subs node) (output_pubs node) st2 st3" by auto
  have 2: "\<exists>r st'. run_prepared ?cb now st = Ret (r, st') \<and> unpublished good ?I ?K st st'"
    using r(1) 3 b un silent_trans [OF conjunct2 [OF conjunct2 [OF b]] 3(3)]
    by (cases "r = BodyOk") (auto simp: run_prepared_def, auto simp: node_callback_def)
  have 4: "\<exists>st'. invocation_drop ?cb True st = Ret st' \<and> unpublished good ?I ?K st st'"
    using invocation_drop_law [OF inv fits, of body True] un by auto
  have 5: "\<exists>st'. commit_callback ?cb now st = Ret st' \<and> good st'"
  proof -
    from commit_law [OF inv fits, of body now] obtain st' where st': "commit_callback ?cb now st = Ret st'"
      "channel_inv F fitems fvalid Q qitems qvalid st'" "same_shape Q st st'" by blast
    have "batch_good (channel_inv F fitems fvalid Q qitems qvalid) N st'"
      using st st'(2) same_shape_facts(1,4) [OF st'(3)] by (auto simp: good_def batch_good_def node_fits_def)
    with st'(1) show ?thesis by (auto simp: good_def)
  qed
  show "(\<exists>r st'. prepare_callback ?cb st = Ret (r, st') \<and> unpublished good ?I ?K st st')
      \<and> (\<exists>r st'. run_prepared ?cb now st = Ret (r, st') \<and> unpublished good ?I ?K st st')
      \<and> (\<exists>st'. invocation_drop ?cb True st = Ret st' \<and> unpublished good ?I ?K st st')
      \<and> (\<exists>st'. commit_callback ?cb now st = Ret st' \<and> good st')"
    using 1 2 4 5 by blast
qed

end

section \<open>Properties\<close>

text \<open>
  C20: The outcome of a batch does not depend on the number of workers or on how they interleave:
  when the bodies of the batch are independent of each other, two executions with any positive
  numbers of workers and any admissible orders of the bodies give the same result, the same error
  and the same state.
\<close>

theorem batch_order_irrelevant:
  assumes "sorted_wrt (\<lambda>(_, a) (_, b). commuting (run_prepared a now) (run_prepared b now)) callbacks"
    and "0 < workers" and "0 < workers'"
    and "\<forall>n. batch_order workers n (order n)" and "\<forall>n. batch_order workers' n (order' n)"
  shows "execute_callback_batch callbacks now workers order before_commit s
    = execute_callback_batch callbacks now workers' order' before_commit s"
proof (cases "prepare_batch callbacks s")
  case (Ret x)
  obtain prepared s1 where x: "x = (prepared, s1)" by (cases x)
  let ?cbs = "map snd prepared"
  have "sorted_wrt (\<lambda>(_, a) (_, b). commuting (run_prepared a now) (run_prepared b now)) prepared"
    using prepare_batch_sublist [OF _ assms(1), of s prepared s1] Ret x by simp
  then have "commuting (run_prepared (?cbs ! p) now) (run_prepared (?cbs ! q) now)"
    if "p < q" "q < length ?cbs" for p q
    using that by (fastforce simp: sorted_wrt_iff_nth_less case_prod_unfold)
  then have "commuting (run_prepared (?cbs ! p) now) (run_prepared (?cbs ! q) now)"
    if "p < length ?cbs" "q < length ?cbs" "p \<noteq> q" for p q
    using that commuting_sym by (metis linorder_neqE_nat)
  then have "run_prepared_batch ?cbs now (order (length ?cbs)) s1 = run_prepared_batch ?cbs now (order' (length ?cbs)) s1"
    using batch_order_mset [OF assms(4) [rule_format] assms(5) [rule_format], of "length ?cbs"]
    by (intro run_prepared_batch_order) auto
  then show ?thesis
    using assms(2,3) Ret x by (simp add: execute_callback_batch_def Let_def)
qed (use assms(2,3) in \<open>simp_all add: execute_callback_batch_def\<close>)

text \<open>Two callbacks that add to a counter and are always ready.\<close>

definition counting_callback :: "nat \<Rightarrow> nat callback_ops" where
  "counting_callback k = \<lparr>update_inputs = Ret, required_inputs_ready = (\<lambda>_. True), required_inputs_available = (\<lambda>_. True),
     run_body = (\<lambda>_ n. Ret (BodyOk, n + k)), finish_inputs = Ret, flush_outputs = (\<lambda>_. Ret), discard_outputs = Ret\<rparr>"

theorem batch_order_irrelevant_witness:
  "execute_callback_batch [(0, counting_callback 2), (1, counting_callback 3)] (from_nanos 1) 1 (\<lambda>n. [0..<n])
     (\<lambda>_ _. Inr () :: string + unit) 0
   = execute_callback_batch [(0, counting_callback 2), (1, counting_callback 3)] (from_nanos 1) 2
     (\<lambda>n. if n = 2 then [1, 0] else [0..<n]) (\<lambda>_ _. Inr () :: string + unit) 0"
proof (rule batch_order_irrelevant)
  show "sorted_wrt (\<lambda>(_, a) (_, b). commuting (run_prepared a (from_nanos 1)) (run_prepared b (from_nanos 1)))
      [(0 :: nat, counting_callback 2), (1, counting_callback 3)]"
    by (simp add: commuting_def run_prepared_def counting_callback_def)
  show "\<forall>n. batch_order 1 n [0..<n]"
    by (auto simp: batch_order_def worker_count_def intro!: sorted_filter [of "\<lambda>x. x", simplified])
  show "\<forall>n. batch_order 2 n (if n = 2 then [1, 0] else [0..<n])"
    by (auto simp: batch_order_def worker_count_def less_Suc_eq numeral_2_eq_2 intro!: sorted_filter [of "\<lambda>x. x", simplified])
qed simp_all

text \<open>
  C7: A batch of callback nodes publishes everything or nothing. At a consistent state the batch
  returns and leaves a consistent state. When a body fails or panics, or the validation before the
  commit refuses the batch, nothing at all was published: no observer ran, nobody was woken, and no
  subscriber outside the nodes of the batch changed, although other bodies succeeded.
\<close>

theorem failed_batch_publishes_nothing:
  assumes "bounded_queue F fitems fvalid" and "bounded_queue Q qitems qvalid"
    and inv: "channel_inv F fitems fvalid Q qitems qvalid st"
    and batch: "\<forall>(_, node, body) \<in> set batch. node_fits node st
      \<and> body_confined F node (channel_inv F fitems fvalid Q qitems qvalid) (body now)"
    and order: "\<forall>n. batch_order workers n (order n)"
  shows "\<exists>r st'. execute_callback_batch (map (\<lambda>(i, node, body). (i, node_callback F Q node body)) batch)
        now workers order before_commit st = Ret (r, st')
    \<and> channel_inv F fitems fvalid Q qitems qvalid st'
    \<and> (\<forall>e. r = Inl e \<longrightarrow> silent (\<Union>(_, node, _) \<in> set batch. input_subs node)
         (\<Union>(_, node, _) \<in> set batch. output_pubs node) st st')"
proof -
  have mb: "message_bus F fitems fvalid Q qitems qvalid"
    using assms(1,2) by (intro message_bus.intro slot_queue.intro)
  let ?N = "(fst \<circ> snd) ` set batch" and ?inv = "channel_inv F fitems fvalid Q qitems qvalid"
  let ?good = "batch_good ?inv ?N" and ?cbs = "map (\<lambda>(i, node, body). (i, node_callback F Q node body)) batch"
  let ?I = "\<Union>n \<in> ?N. input_subs n" and ?K = "\<Union>n \<in> ?N. output_pubs n"
  have sets: "(\<Union>(_, node, _) \<in> set batch. input_subs node) = ?I"
    "(\<Union>(_, node, _) \<in> set batch. output_pubs node) = ?K" by auto
  have good: "?good st" using inv batch by (auto simp: batch_good_def)
  have q: "\<forall>(_, cb) \<in> set ?cbs. quiet_callback ?good (unpublished ?good ?I ?K) now cb"
  proof
    fix c assume "c \<in> set ?cbs"
    then obtain i node body where c: "c = (i, node_callback F Q node body)" "(i, node, body) \<in> set batch" by auto
    then have "node \<in> ?N" and "body_confined F node ?inv (body now)" using batch by force+
    from message_bus.node_quiet [OF mb this(1), of body now] this(2) show "case c of (_, cb) \<Rightarrow> quiet_callback ?good (unpublished ?good ?I ?K) now cb"
      by (simp add: c)
  qed
  have o: "\<forall>n. set (order n) \<subseteq> {..<n}" using order by (simp add: batch_order_def)
  from unpublished.execute_batch_law [OF q o good, of workers before_commit] obtain r st' where
    "execute_callback_batch ?cbs now workers order before_commit st = Ret (r, st')" "?good st'"
    "\<forall>e. r = Inl e \<longrightarrow> unpublished ?good ?I ?K st st'" by blast
  then show ?thesis unfolding sets by (auto simp: unpublished_def batch_good_def)
qed

lemma refused_batch:
  "execute_callback_batch cbs now workers order (\<lambda>_ _. Inl e) s = Ret (r, s') \<Longrightarrow> \<exists>e. r = Inl e"
  by (auto simp: execute_callback_batch_def Let_def case_prod_unfold split: if_split_asm sum.split_asm)
    (metis old.sum.exhaust old.unit.exhaust prod.exhaust)

text \<open>A batch of one publishing node that the validation refuses.\<close>

theorem failed_batch_publishes_nothing_witness:
  "\<exists>pb w r st'. channel_bind list_array_queue (\<lambda>c. c) sample_storage = Ret ([pb], w)
     \<and> execute_callback_batch [(4, node_callback list_array_queue list_array_queue sample_node sample_body)]
         (from_nanos 3) 2 (\<lambda>n. [0..<n]) (\<lambda>_ _. Inl ''no'' :: string + unit) (initial_state [pb] w) = Ret (Inl r, st')
     \<and> silent {} {0} (initial_state [pb] w) st'"
proof -
  obtain pb w where b: "channel_bind list_array_queue (\<lambda>c. c) sample_storage = Ret ([pb], w)"
    using sample_binds by blast
  let ?st = "initial_state [pb] w"
  let ?run = "execute_callback_batch [(4, node_callback list_array_queue list_array_queue sample_node sample_body)]
         (from_nanos 3) 2 (\<lambda>n. [0..<n]) (\<lambda>_ _. Inl ''no'' :: string + unit) ?st"
  note inv = lqb.bound_channel_inv(1) [OF sample_allocates b sample_plan_facts]
  have fits: "\<forall>(_, node, body) \<in> set [(4, sample_node, sample_body)]. node_fits node ?st
      \<and> body_confined list_array_queue node
        (channel_inv list_array_queue lq_items lq_valid list_array_queue lq_items lq_valid) (body (from_nanos 3))"
    using sample_body_confined [of "from_nanos 3"] by (simp add: node_fits_def sample_node_def initial_state_def)
  have order: "\<forall>n. batch_order 2 n [0..<n]"
    by (auto simp: batch_order_def intro!: sorted_filter [of "\<lambda>x. x", simplified])
  from failed_batch_publishes_nothing [where before_commit = "\<lambda>_ _. Inl ''no'' :: string + unit",
      OF lq.bounded_queue_axioms lq.bounded_queue_axioms inv fits order]
  obtain r st' where r: "?run = Ret (r, st')" "\<forall>e. r = Inl e \<longrightarrow> silent {} {0} ?st st'"
    by (auto simp: sample_node_def)
  from refused_batch [OF r(1)] r b show ?thesis by auto
qed

end
