(* ===== verification/Simulation.thy ===== *)
theory Simulation
  imports Callback_Batch Task_Graph "HOL-Library.Product_Lexorder" "HOL-Library.Sublist"
begin

text \<open>
  \<open>simulation_executor/src/state.rs\<close>: discrete-event simulation of a graph over virtual time, in
  the build without the shared-memory transport, where \<open>poll_events\<close> does nothing.

  Callbacks and scheduled actions act on a world: the notification cells and the timer switch,
  which the simulation reads, and everything else that they share, of type \<open>'w\<close>. A batch of
  callbacks runs as in \<open>Callback_Batch\<close>; \<open>order\<close> is the order in which the real workers happen to
  run its bodies.
\<close>

section \<open>State\<close>

record 'w sim_world =
  notifications :: "(bool \<times> bool) list" \<comment> \<open>the bits \<open>TRIGGER\<close> and \<open>READINESS\<close>\<close>
  timers :: bool
  shared :: 'w

definition notification_wake :: "nat \<Rightarrow> 'w sim_world \<Rightarrow> 'w sim_world" where
  "notification_wake i w = w\<lparr>notifications := (notifications w)[i := (True, snd (notifications w ! i))]\<rparr>"

definition notification_readiness_changed :: "nat \<Rightarrow> 'w sim_world \<Rightarrow> 'w sim_world" where
  "notification_readiness_changed i w =
     w\<lparr>notifications := (notifications w)[i := (fst (notifications w ! i), True)]\<rparr>"

datatype step_error =
  InvalidConfig string
| CallbackFailure string batch_failure
| TimingFailure string timing_error
| Panicked
| Poisoned
| ActionFailure string
| PastAction
| UnknownEventChannel string
| Iox2EventFailure string
| StepLimitExceeded

record step_result =
  step_before :: framework_time
  step_after :: framework_time
  step_executed :: "nat list"
  step_idle :: bool

record sim_node =
  input_requested :: bool
  node_requested :: bool
  ready_since :: "framework_time option"
  busy_until :: framework_time
  node_next :: "framework_time option"

datatype 'w action =
  Once "framework_time \<Rightarrow> 'w sim_world \<Rightarrow> ((string + unit) \<times> 'w sim_world) outcome"
| Stream "framework_time \<Rightarrow> 'w sim_world \<Rightarrow> ((string + framework_time option) \<times> 'w sim_world) outcome"

record sim_config =
  start_time :: framework_time
  virtual_pool_threads :: "nat list"
  node_executor_thread_count :: nat
  poll_external_events :: bool

definition config_default :: sim_config where
  "config_default = \<lparr>start_time = from_nanos 0, virtual_pool_threads = [1], node_executor_thread_count = 1,
     poll_external_events = True\<rparr>"

text \<open>What the simulation asks of a callback; a waker is the index of its notification.\<close>

record 'w sim_callback =
  sim_ops :: "'w sim_world callback_ops"
  sim_has_triggering_inputs :: "'w sim_world \<Rightarrow> bool"
  sim_set_waker :: "nat \<Rightarrow> 'w sim_world \<Rightarrow> 'w sim_world outcome"
  sim_has_pending_inputs :: "'w sim_world \<Rightarrow> bool"

type_synonym action_key = "framework_time \<times> nat"

record 'w simulation =
  sim_callbacks :: "'w sim_callback list"
  sim_names :: "string list"
  sim_schedules :: "callback_schedule list"
  sim_nodes :: "sim_node list"
  sim_metadata :: graph_metadata
  sim_configuration :: sim_config
  sim_time :: framework_time
  step_count :: nat
  failed :: bool
  actions :: "(action_key \<times> 'w action) list" \<comment> \<open>the tree map, ascending in the keys\<close>
  action_sequence :: nat
  world :: "'w sim_world" \<comment> \<open>\<open>timers\<close>, \<open>notifications\<close> and what the callbacks share\<close>

text \<open>\<open>BTreeMap::insert\<close>\<close>

fun map_insert :: "'k::linorder \<Rightarrow> 'v \<Rightarrow> ('k \<times> 'v) list \<Rightarrow> ('k \<times> 'v) list" where
  "map_insert k v [] = [(k, v)]"
| "map_insert k v ((k', v') # m) =
     (if k < k' then (k, v) # (k', v') # m
      else if k = k' then (k, v) # m
      else (k', v') # map_insert k v m)"

section \<open>Construction\<close>

definition quoted :: "string \<Rightarrow> string" where
  "quoted s = CHR 0x27 # s @ [CHR 0x27]"

definition config_error :: "sim_config \<Rightarrow> bool" where
  "config_error c \<longleftrightarrow> node_executor_thread_count c = 0 \<or> virtual_pool_threads c = []
     \<or> 0 \<in> set (virtual_pool_threads c) \<or> start_time c = INVALID"

text \<open>The checks of one callback in the loop of \<open>with_config\<close>, and the first deadline.\<close>

definition node_error :: "'w sim_world \<Rightarrow> sim_config \<Rightarrow> 'w sim_callback scheduled_callback \<Rightarrow> step_error option" where
  "node_error w c node =
     (let name = cb_name node; sch = cb_schedule node in
      if period sch = Some 0 then Some (InvalidConfig (''callback '' @ quoted name @ '' has a zero period''))
      else if \<not> has_execution_duration sch then Some (TimingFailure name MissingDuration)
      else if \<not> is_ever_runnable sch (sim_has_triggering_inputs (cb_callback node) w)
        then Some (InvalidConfig (''callback '' @ quoted name
          @ '' has no triggering inputs and no time-based execution''))
      else if length (virtual_pool_threads c) \<le> schedule_pool sch
        then Some (InvalidConfig (''callback '' @ quoted name @ '' references missing pool ''
          @ dec_digits (schedule_pool sch)))
      else None)"

definition first_deadline :: "callback_schedule \<Rightarrow> framework_time \<Rightarrow> timing_error + framework_time option" where
  "first_deadline sch now = (if run_on_start sch then Inr (Some now) else next_after sch now)"

definition push_node ::
  "'w simulation \<Rightarrow> 'w sim_callback scheduled_callback \<Rightarrow> (step_error + 'w simulation) outcome" where
  "push_node st node = (case node_error (world st) (sim_configuration st) node of
     Some e \<Rightarrow> Ret (Inl e)
   | None \<Rightarrow>
       let cb = cb_callback node; sch = cb_schedule node;
           w = (world st)\<lparr>notifications := notifications (world st) @ [(False, False)]\<rparr>
       in and_then (sim_set_waker cb (length (notifications (world st))) w) (\<lambda>w1.
         let pending = sim_has_pending_inputs cb w1 in
         case first_deadline sch (sim_time st) of
           Inl e \<Rightarrow> Ret (Inl (TimingFailure (cb_name node) e))
         | Inr next_time \<Rightarrow> Ret (Inr (st\<lparr>
             sim_nodes := sim_nodes st @ [\<lparr>input_requested = pending,
               node_requested = run_on_start sch \<or> pending, ready_since = None,
               busy_until = sim_time st, node_next = next_time\<rparr>],
             sim_names := sim_names st @ [cb_name node],
             sim_schedules := sim_schedules st @ [sch],
             sim_callbacks := sim_callbacks st @ [cb],
             world := w1\<rparr>))))"

fun push_nodes ::
  "'w simulation \<Rightarrow> 'w sim_callback scheduled_callback list \<Rightarrow> (step_error + 'w simulation) outcome" where
  "push_nodes st [] = Ret (Inr st)"
| "push_nodes st (node # nodes) = and_then (push_node st node) (\<lambda>r. case r of
     Inl e \<Rightarrow> Ret (Inl e)
   | Inr st1 \<Rightarrow> push_nodes st1 nodes)"

definition with_config ::
  "'w sim_callback built_graph \<Rightarrow> sim_config \<Rightarrow> 'w \<Rightarrow> (step_error + 'w simulation) outcome" where
  "with_config g c s =
     (if config_error c
      then Ret (Inl (InvalidConfig ''positive worker/pool counts and a valid start time are required''))
      else push_nodes \<lparr>sim_callbacks = [], sim_names = [], sim_schedules = [], sim_nodes = [],
        sim_metadata = metadata g, sim_configuration = c, sim_time = start_time c, step_count = 0,
        failed = False, actions = [], action_sequence = 0,
        world = \<lparr>notifications = [], timers = True, shared = s\<rparr>\<rparr> (graph_callbacks g))"

section \<open>Actions\<close>

definition insert_action ::
  "'w simulation \<Rightarrow> framework_time \<Rightarrow> 'w action \<Rightarrow> (step_error + unit) \<times> 'w simulation" where
  "insert_action st at_time a =
     (if failed st then (Inl Poisoned, st)
      else if at_time < sim_time st then (Inl PastAction, st)
      else (case checked_usize (action_sequence st + 1) of
          None \<Rightarrow> (Inl (InvalidConfig ''action sequence exhausted''), st)
        | Some n \<Rightarrow> (Inr (), st\<lparr>action_sequence := n,
            actions := map_insert (at_time, action_sequence st) a (actions st)\<rparr>)))"

definition schedule_at where
  "schedule_at st at_time f = insert_action st at_time (Once f)"

definition schedule_stream where
  "schedule_stream st at_time f = insert_action st at_time (Stream f)"

text \<open>\<open>pop_first\<close> and one action.\<close>

definition run_action ::
  "'w simulation \<Rightarrow> framework_time \<Rightarrow> 'w action \<Rightarrow> ((step_error + unit) \<times> 'w simulation) outcome" where
  "run_action st at_time a = (case a of
     Once f \<Rightarrow> and_then (f at_time (world st)) (\<lambda>(r, w). let st1 = st\<lparr>world := w\<rparr> in case r of
         Inl e \<Rightarrow> Ret (Inl (ActionFailure e), st1)
       | Inr _ \<Rightarrow> Ret (Inr (), st1))
   | Stream f \<Rightarrow> and_then (f at_time (world st)) (\<lambda>(r, w). let st1 = st\<lparr>world := w\<rparr> in case r of
         Inl e \<Rightarrow> Ret (Inl (ActionFailure e), st1)
       | Inr None \<Rightarrow> Ret (Inr (), st1)
       | Inr (Some next_time) \<Rightarrow>
           if next_time \<le> sim_time st1
           then Ret (Inl (ActionFailure ''streaming action must return a future timestamp''), st1)
           else Ret (insert_action st1 next_time (Stream f))))"

definition due :: "framework_time \<Rightarrow> (action_key \<times> 'w action) list \<Rightarrow> nat" where
  "due now m = length (filter (\<lambda>((t, _), _). t \<le> now) m)"

lemma due_map_insert:
  "now < t \<Longrightarrow> due now (map_insert (t, k) a m) \<le> due now m"
  by (induction m) (auto simp: due_def)

lemma run_action_shrinks:
  assumes "run_action st t a = Ret (Inr u, st')"
  shows "due (sim_time st') (actions st') \<le> due (sim_time st) (actions st) \<and> sim_time st' = sim_time st"
proof (cases a)
  case (Once f)
  then show ?thesis
    using assms by (auto simp: run_action_def) (auto simp: Let_def split: sum.splits)
next
  case (Stream f)
  then show ?thesis
    using assms due_map_insert [of "sim_time st"]
    by (auto simp: run_action_def)
      (auto simp: insert_action_def Let_def not_le split: sum.splits option.splits if_splits)
qed

function run_actions :: "'w simulation \<Rightarrow> ((step_error + unit) \<times> 'w simulation) outcome" where
  "run_actions st = (case actions st of
     [] \<Rightarrow> Ret (Inr (), st)
   | ((t, _), a) # m \<Rightarrow>
       if t \<le> sim_time st
       then and_then (run_action (st\<lparr>actions := m\<rparr>) t a) (\<lambda>(r, st1). case r of
           Inl e \<Rightarrow> Ret (Inl e, st1)
         | Inr _ \<Rightarrow> run_actions st1)
       else Ret (Inr (), st))"
  by pat_completeness auto
termination
  by (relation "measure (\<lambda>st. due (sim_time st) (actions st))")
    (auto dest!: run_action_shrinks simp: due_def)

declare run_actions.simps [simp del]

section \<open>Readiness and pools\<close>

definition refresh_node ::
  "bool \<Rightarrow> framework_time \<Rightarrow> bool \<Rightarrow> bool \<Rightarrow> sim_node \<Rightarrow> sim_node" where
  "refresh_node timers_on now triggered available n =
     (let input = input_requested n \<or> triggered;
          next_time = (if timers_on then node_next n else None);
          asked = (if timers_on then node_requested n else input) \<or> triggered
            \<or> (case next_time of Some t \<Rightarrow> t \<le> now | None \<Rightarrow> False)
      in n\<lparr>input_requested := input, node_next := next_time, node_requested := asked,
           ready_since := (if asked \<and> busy_until n \<le> now \<and> available
             then Some (case ready_since n of Some t \<Rightarrow> t | None \<Rightarrow> now) else None)\<rparr>)"

fun refresh_nodes ::
  "bool \<Rightarrow> framework_time \<Rightarrow> nat \<Rightarrow> (sim_node \<times> 'w sim_callback) list \<Rightarrow> 'w sim_world
     \<Rightarrow> sim_node list \<times> 'w sim_world" where
  "refresh_nodes timers_on now i [] w = ([], w)"
| "refresh_nodes timers_on now i ((n, cb) # ns) w =
     (let triggered = fst (notifications w ! i);
          w1 = w\<lparr>notifications := (notifications w)[i := (False, False)]\<rparr>;
          n1 = refresh_node timers_on now triggered (required_inputs_available (sim_ops cb) w1) n;
          (ns1, w2) = refresh_nodes timers_on now (i + 1) ns w1
      in (n1 # ns1, w2))"

definition refresh :: "'w simulation \<Rightarrow> 'w simulation" where
  "refresh st =
     (let (ns, w) = refresh_nodes (timers (world st)) (sim_time st) 0 (zip (sim_nodes st) (sim_callbacks st)) (world st)
      in st\<lparr>sim_nodes := ns, world := w\<rparr>)"

text \<open>A thread less in a pool; the subtraction and the index are checked.\<close>

definition take_thread :: "nat list \<Rightarrow> nat \<Rightarrow> nat list outcome" where
  "take_thread free p =
     (if length free \<le> p \<or> free ! p = 0 then Panic else Ret (free[p := free ! p - 1]))"

fun occupy :: "framework_time \<Rightarrow> nat list \<Rightarrow> (sim_node \<times> callback_schedule) list \<Rightarrow> nat list outcome" where
  "occupy now free [] = Ret free"
| "occupy now free ((n, sch) # ns) =
     (if now < busy_until n
      then and_then (take_thread free (schedule_pool sch)) (\<lambda>free1. occupy now free1 ns)
      else occupy now free ns)"

definition free_threads :: "'w simulation \<Rightarrow> nat list outcome" where
  "free_threads st =
     occupy (sim_time st) (virtual_pool_threads (sim_configuration st)) (zip (sim_nodes st) (sim_schedules st))"

definition runnable :: "'w simulation \<Rightarrow> nat list \<Rightarrow> bool" where
  "runnable st free \<longleftrightarrow> (\<exists>(n, sch) \<in> set (zip (sim_nodes st) (sim_schedules st)).
     ready_since n \<noteq> None \<and> free ! schedule_pool sch \<noteq> 0)"

section \<open>Steps\<close>

definition candidates :: "'w simulation \<Rightarrow> (framework_time \<times> nat) list" where
  "candidates st = sort (List.map_filter (\<lambda>(i, n). map_option (\<lambda>since. (since, i)) (ready_since n))
     (enumerate 0 (sim_nodes st)))"

fun select :: "callback_schedule list \<Rightarrow> nat list \<Rightarrow> nat list \<Rightarrow> nat list outcome" where
  "select schs free [] = Ret []"
| "select schs free (i # is) =
     (let p = schedule_pool (schs ! i) in
      if length free \<le> p then Panic
      else if free ! p \<noteq> 0
      then and_then (select schs (free[p := free ! p - 1]) is) (\<lambda>selected. Ret (i # selected))
      else select schs free is)"

definition rank_of :: "nat \<Rightarrow> nat list \<Rightarrow> nat option list" where
  "rank_of n selected = fold (\<lambda>(position, i) rank. rank[i := Some position]) (enumerate 0 selected) (replicate n None)"

definition batch_of :: "nat option list \<Rightarrow> nat list" where
  "batch_of rank = map snd (sort_key fst
     (List.map_filter (\<lambda>(i, r). map_option (\<lambda>position. (position, i)) r) (enumerate 0 rank)))"

definition clear_ready :: "nat list \<Rightarrow> sim_node list \<Rightarrow> sim_node list" where
  "clear_ready selected ns = fold (\<lambda>i ns. ns[i := (ns ! i)\<lparr>ready_since := None\<rparr>]) selected ns"

text \<open>The timing of the executed callbacks, computed before anything is published.\<close>

definition node_timing ::
  "'w simulation \<Rightarrow> 'w sim_world \<Rightarrow> nat \<Rightarrow> step_error + framework_time \<times> framework_time option" where
  "node_timing st w i =
     (let sch = sim_schedules st ! i; failure = TimingFailure (sim_names st ! i) in
      case schedule_duration sch of
        Inl e \<Rightarrow> Inl (failure e)
      | Inr d \<Rightarrow> (case checked_add_duration (sim_time st) d of
          None \<Rightarrow> Inl (failure Overflow)
        | Some finish \<Rightarrow>
            if timers w
            then (case next_after sch finish of
                Inl e \<Rightarrow> Inl (failure e)
              | Inr next_time \<Rightarrow> Inr (finish, next_time))
            else Inr (finish, None)))"

fun batch_timing ::
  "'w simulation \<Rightarrow> nat list \<Rightarrow> 'w sim_world \<Rightarrow> step_error + (framework_time \<times> framework_time option) list" where
  "batch_timing st [] w = Inr []"
| "batch_timing st (i # is) w = (case node_timing st w i of
     Inl e \<Rightarrow> Inl e
   | Inr t \<Rightarrow> (case batch_timing st is w of Inl e \<Rightarrow> Inl e | Inr ts \<Rightarrow> Inr (t # ts)))"

fun batch_step_error :: "string list \<Rightarrow> step_error batch_execution_error \<Rightarrow> step_error" where
  "batch_step_error names (BatchCallbackError i failure) = CallbackFailure (names ! i) failure"
| "batch_step_error names (BeforeCommit e) = e"
| "batch_step_error names NoWorkers = InvalidConfig ''a callback batch requires a worker''"

definition record_timing ::
  "(nat \<times> framework_time \<times> framework_time option) list \<Rightarrow> sim_node list \<Rightarrow> sim_node list" where
  "record_timing ts ns = fold (\<lambda>(i, finish, next_time) ns. ns[i := (ns ! i)\<lparr>node_requested := False,
     input_requested := False, busy_until := finish, node_next := next_time\<rparr>]) ts ns"

definition event_times :: "'w simulation \<Rightarrow> framework_time list" where
  "event_times st = concat (map (\<lambda>n. busy_until n # (case node_next n of Some t \<Rightarrow> [t] | None \<Rightarrow> [])) (sim_nodes st))
     @ (case actions st of [] \<Rightarrow> [] | ((t, _), _) # _ \<Rightarrow> [t])"

definition next_event :: "'w simulation \<Rightarrow> framework_time option" where
  "next_event st = (case filter (\<lambda>t. sim_time st < t) (event_times st) of
     [] \<Rightarrow> None
   | t # ts \<Rightarrow> Some (fold min ts t))"

definition has_future :: "'w simulation \<Rightarrow> bool" where
  "has_future st \<longleftrightarrow> actions st \<noteq> [] \<or> (\<exists>n \<in> set (sim_nodes st). sim_time st < busy_until n
     \<or> (case node_next n of Some t \<Rightarrow> sim_time st < t | None \<Rightarrow> False))"

text \<open>The batch is executed and its timing recorded.\<close>

definition settle_batch ::
  "(nat \<Rightarrow> nat list) \<Rightarrow> 'w simulation \<Rightarrow> nat list \<Rightarrow> nat list
     \<Rightarrow> ((step_error + nat list) \<times> 'w simulation) outcome" where
  "settle_batch order st selected batch =
     (let st1 = st\<lparr>sim_nodes := clear_ready selected (sim_nodes st)\<rparr> in
      and_then (execute_callback_batch (map (\<lambda>i. (i, sim_ops (sim_callbacks st ! i))) batch) (sim_time st)
          (node_executor_thread_count (sim_configuration st)) order (batch_timing st1) (world st))
        (\<lambda>(r, w). case r of
            Inl e \<Rightarrow> Ret (Inl (batch_step_error (sim_names st) e), st1\<lparr>world := w\<rparr>)
          | Inr (executed, timing) \<Rightarrow> Ret (Inr executed,
              st1\<lparr>sim_nodes := record_timing (zip executed timing) (sim_nodes st1), world := w\<rparr>)))"

definition run_batch ::
  "(nat \<Rightarrow> nat list) \<Rightarrow> 'w simulation \<Rightarrow> ((step_error + nat list) \<times> 'w simulation) outcome" where
  "run_batch order st =
     and_then (free_threads st) (\<lambda>free.
     and_then (select (sim_schedules st) free (map snd (candidates st))) (\<lambda>selected.
       settle_batch order st selected (batch_of (rank_of (length (sim_callbacks st)) selected))))"

text \<open>The advance of the time and the end of the step.\<close>

definition advance :: "'w simulation \<Rightarrow> 'w simulation outcome" where
  "advance st =
     and_then (free_threads st) (\<lambda>free. Ret (case next_event st of
       Some t \<Rightarrow> if runnable st free then st else st\<lparr>sim_time := t\<rparr>
     | None \<Rightarrow> st))"

definition conclude :: "framework_time \<Rightarrow> nat list \<Rightarrow> 'w simulation \<Rightarrow> (step_result \<times> 'w simulation) outcome" where
  "conclude before executed st =
     and_then (free_threads st) (\<lambda>free.
       Ret (\<lparr>step_before = before, step_after = sim_time st, step_executed = executed,
              step_idle = (\<not> runnable st free \<and> \<not> has_future st)\<rparr>,
            st\<lparr>step_count := min (step_count st + 1) usize_max\<rparr>))"

definition step_inner ::
  "(nat \<Rightarrow> nat list) \<Rightarrow> 'w simulation \<Rightarrow> ((step_error + step_result) \<times> 'w simulation) outcome" where
  "step_inner order st =
     and_then (run_actions st) (\<lambda>(r, st1). case r of
       Inl e \<Rightarrow> Ret (Inl e, st1)
     | Inr _ \<Rightarrow> and_then (run_batch order (refresh st1)) (\<lambda>(r, st2). case r of
         Inl e \<Rightarrow> Ret (Inl e, st2)
       | Inr executed \<Rightarrow> and_then (advance (refresh st2)) (\<lambda>st3.
           and_then (conclude (sim_time st) executed (refresh st3)) (\<lambda>(result, st4). Ret (Inr result, st4)))))"

text \<open>
  A caught panic leaves the simulation poisoned. Its contents are then out of reach, and the model
  keeps those before the step.
\<close>

definition step ::
  "(nat \<Rightarrow> nat list) \<Rightarrow> 'w simulation \<Rightarrow> ((step_error + step_result) \<times> 'w simulation) outcome" where
  "step order st =
     (if failed st then Ret (Inl Poisoned, st)
      else (case step_inner order st of
          Ret (Inl e, st1) \<Rightarrow> Ret (Inl e, st1\<lparr>failed := True\<rparr>)
        | Panic \<Rightarrow> Ret (Inl Panicked, st\<lparr>failed := True\<rparr>)
        | r \<Rightarrow> r))"

fun run_until_idle ::
  "(nat \<Rightarrow> nat \<Rightarrow> nat list) \<Rightarrow> nat \<Rightarrow> 'w simulation \<Rightarrow> ((step_error + step_result list) \<times> 'w simulation) outcome" where
  "run_until_idle orders 0 st = Ret (Inl StepLimitExceeded, st)"
| "run_until_idle orders (Suc k) st =
     and_then (step (orders k) st) (\<lambda>(r, st1). case r of
       Inl e \<Rightarrow> Ret (Inl e, st1)
     | Inr res \<Rightarrow>
         if step_idle res then Ret (Inr [res], st1)
         else and_then (run_until_idle orders k st1) (\<lambda>(r, st2). Ret (case r of
           Inl e \<Rightarrow> Inl e | Inr steps \<Rightarrow> Inr (res # steps), st2)))"

end
