(* ===== verification/Simulation_Steps.thy ===== *)
theory Simulation_Steps
  imports Simulation
begin

text \<open>
  Laws and properties of the simulation: pool occupancy, selection, the action loop, readiness, the
  batch and the advance of time, the invariant of all reachable states, and that steps return.
\<close>

section \<open>Pool occupancy\<close>

definition busy_count :: "framework_time \<Rightarrow> (sim_node \<times> callback_schedule) list \<Rightarrow> nat \<Rightarrow> nat" where
  "busy_count now xs p = length (filter (\<lambda>(n, sch). now < busy_until n \<and> schedule_pool sch = p) xs)"

lemma occupy_exact:
  assumes "\<forall>(_, sch) \<in> set xs. schedule_pool sch < length free"
    and "\<forall>p < length free. busy_count now xs p \<le> free ! p"
  shows "occupy now free xs = Ret (map (\<lambda>p. free ! p - busy_count now xs p) [0..<length free])"
  using assms
proof (induction xs arbitrary: free)
  case Nil
  have "map (\<lambda>p. free ! p) [0..<length free] = free" by (rule map_nth)
  then show ?case by (simp add: busy_count_def)
next
  case (Cons x xs)
  obtain n sch where x: "x = (n, sch)" by (cases x)
  let ?p = "schedule_pool sch"
  show ?case
  proof (cases "now < busy_until n")
    case True
    then have c: "busy_count now (x # xs) p = busy_count now xs p + (if p = ?p then 1 else 0)" for p
      by (simp add: busy_count_def x)
    have p: "?p < length free" "free ! ?p \<noteq> 0" using Cons.prems c [of ?p] by (auto simp: x)
    let ?free = "free[?p := free ! ?p - 1]"
    have "occupy now ?free xs = Ret (map (\<lambda>p. ?free ! p - busy_count now xs p) [0..<length ?free])"
    proof (intro Cons.IH allI impI)
      fix p assume "p < length ?free"
      then have "busy_count now xs p + (if p = ?p then 1 else 0) \<le> free ! p"
        using Cons.prems(2) by (simp add: c)
      then show "busy_count now xs p \<le> ?free ! p" using p by (auto simp: nth_list_update split: if_splits)
    qed (use Cons.prems(1) in simp)
    moreover have "map (\<lambda>p. ?free ! p - busy_count now xs p) [0..<length ?free]
        = map (\<lambda>p. free ! p - busy_count now (x # xs) p) [0..<length free]"
      using p by (auto simp: c nth_list_update)
    ultimately show ?thesis using True p by (simp add: x take_thread_def)
  next
    case False
    then have "busy_count now (x # xs) = busy_count now xs" by (auto simp: busy_count_def x)
    with Cons False show ?thesis by (simp add: x)
  qed
qed

lemma busy_count_card:
  assumes "length ns = length schs"
  shows "busy_count now (zip ns schs) p
    = card {i. i < length ns \<and> now < busy_until (ns ! i) \<and> schedule_pool (schs ! i) = p}"
  unfolding busy_count_def length_filter_conv_card using assms
  by (auto intro!: arg_cong [of _ _ card])

section \<open>Selection\<close>

lemma select_exact:
  assumes "\<forall>i \<in> set is. schedule_pool (schs ! i) < length free"
  shows "\<exists>selected. select schs free is = Ret selected \<and> subseq selected is
    \<and> (\<forall>p < length free. filter (\<lambda>i. schedule_pool (schs ! i) = p) selected
         = take (free ! p) (filter (\<lambda>i. schedule_pool (schs ! i) = p) is))"
  using assms
proof (induction "is" arbitrary: free)
  case (Cons i "is")
  let ?p = "schedule_pool (schs ! i)"
  have p: "?p < length free" using Cons.prems by simp
  show ?case
  proof (cases "free ! ?p = 0")
    case True
    with Cons.IH [of free] Cons.prems p show ?thesis by (auto simp: list_emb_Cons)
  next
    case False
    from Cons.IH [of "free[?p := free ! ?p - 1]"] Cons.prems obtain selected where
      "select schs (free[?p := free ! ?p - 1]) is = Ret selected" "subseq selected is"
      "\<forall>p < length free. filter (\<lambda>i. schedule_pool (schs ! i) = p) selected
         = take (free[?p := free ! ?p - 1] ! p) (filter (\<lambda>i. schedule_pool (schs ! i) = p) is)" by auto
    with False p show ?thesis
      by (auto simp: take_Cons' nth_list_update)
  qed
qed simp

lemma rank_of_snoc: "rank_of n (xs @ [x]) = (rank_of n xs)[x := Some (length xs)]"
  by (simp add: rank_of_def enumerate_append_eq)

lemma length_rank_of [simp]: "length (rank_of n xs) = n"
proof (induction xs rule: rev_induct)
  case Nil
  show ?case by (simp add: rank_of_def)
qed (simp add: rank_of_snoc)

lemma rank_of_nth:
  assumes "distinct xs" and "i < n"
  shows "rank_of n xs ! i = Some p \<longleftrightarrow> p < length xs \<and> xs ! p = i"
  using assms
proof (induction xs arbitrary: p rule: rev_induct)
  case Nil
  then show ?case by (simp add: rank_of_def)
next
  case (snoc x xs)
  then show ?case
    by (cases "x = i") (auto simp: rank_of_snoc nth_append less_Suc_eq in_set_conv_nth)
qed

lemma distinct_ranked:
  "distinct (List.map_filter (\<lambda>(i, r). map_option (\<lambda>p. (p, i)) r) (enumerate k rs))"
proof (induction rs arbitrary: k)
  case (Cons r rs)
  have "(p, k) \<notin> set (List.map_filter (\<lambda>(i, r). map_option (\<lambda>p. (p, i)) r) (enumerate (Suc k) rs))" for p
    by (auto simp: List.map_filter_def in_set_enumerate_eq)
  with Cons show ?case by (auto simp: List.map_filter_simps split: option.split)
qed (simp add: List.map_filter_simps)

text \<open>Ranking the selection and sorting by rank gives it back.\<close>

lemma batch_of_rank:
  assumes "distinct xs" and "set xs \<subseteq> {..<n}"
  shows "batch_of (rank_of n xs) = xs"
proof -
  let ?L = "List.map_filter (\<lambda>(i, r). map_option (\<lambda>p. (p, i)) r) (enumerate 0 (rank_of n xs))"
  have "set ?L = {(p, i). i < n \<and> rank_of n xs ! i = Some p}"
    by (force simp: List.map_filter_def in_set_enumerate_eq image_iff)
  also have "\<dots> = set (enumerate 0 xs)"
    using assms rank_of_nth [OF assms(1), of _ n] by (auto simp: in_set_enumerate_eq subset_iff)
  finally have "mset ?L = mset (enumerate 0 xs)"
    using distinct_ranked [of 0 "rank_of n xs"] distinct_enumerate [of 0 xs] set_eq_iff_mset_eq_distinct by blast
  then have "sort_key fst ?L = enumerate 0 xs"
    by (intro sort_key_inj_key_eq) (auto simp: inj_on_def in_set_enumerate_eq dest: mset_eq_setD)
  then show ?thesis by (simp add: batch_of_def)
qed


lemma set_map_filter_Some: "y \<in> set (List.map_filter f xs) \<longleftrightarrow> (\<exists>x \<in> set xs. f x = Some y)"
  by (force simp: List.map_filter_def image_iff)

lemma candidates_facts:
  "sorted (candidates st)" "distinct (map snd (candidates st))"
  "(t, i) \<in> set (candidates st) \<longleftrightarrow> i < length (sim_nodes st) \<and> ready_since (sim_nodes st ! i) = Some t"
proof -
  let ?ready = "List.map_filter (\<lambda>(i, n). map_option (\<lambda>since. (since, i)) (ready_since n))"
  show "sorted (candidates st)" by (simp add: candidates_def)
  have d: "distinct (map snd (?ready (enumerate k ns)))" for k ns
  proof (induction ns arbitrary: k)
    case (Cons n ns)
    have "k \<notin> set (map snd (?ready (enumerate (Suc k) ns)))"
      by (auto simp: List.map_filter_def in_set_enumerate_eq)
    with Cons show ?case by (auto simp: List.map_filter_simps split: option.split)
  qed (simp add: List.map_filter_simps)
  have "distinct (?ready (enumerate 0 (sim_nodes st)))" "inj_on snd (set (?ready (enumerate 0 (sim_nodes st))))"
    using d [of 0 "sim_nodes st"] by (simp_all add: distinct_map)
  then show "distinct (map snd (candidates st))" by (simp add: candidates_def distinct_map)
  show "(t, i) \<in> set (candidates st) \<longleftrightarrow> i < length (sim_nodes st) \<and> ready_since (sim_nodes st ! i) = Some t"
    by (auto simp: candidates_def set_map_filter_Some in_set_enumerate_eq intro!: bexI [of _ "(i, sim_nodes st ! i)"])
qed

lemma candidates_indices:
  "i \<in> set (map snd (candidates st)) \<longleftrightarrow> i < length (sim_nodes st) \<and> ready_since (sim_nodes st ! i) \<noteq> None"
  using candidates_facts(3) [of _ i st] by (force simp: image_iff)

section \<open>Invariant\<close>

text \<open>
  The vectors have one entry per callback, every callback is in a configured pool, no pool has more
  busy callbacks than threads, and no scheduled action lies in the past.
\<close>

definition sim_shape :: "'w simulation \<Rightarrow> bool" where
  "sim_shape st \<longleftrightarrow> length (sim_names st) = length (sim_callbacks st)
     \<and> length (sim_schedules st) = length (sim_callbacks st) \<and> length (sim_nodes st) = length (sim_callbacks st)
     \<and> \<not> config_error (sim_configuration st)
     \<and> (\<forall>sch \<in> set (sim_schedules st). schedule_pool sch < length (virtual_pool_threads (sim_configuration st)))"

definition pool_busy :: "'w simulation \<Rightarrow> nat \<Rightarrow> nat set" where
  "pool_busy st p = {i. i < length (sim_nodes st) \<and> sim_time st < busy_until (sim_nodes st ! i)
     \<and> schedule_pool (sim_schedules st ! i) = p}"

definition pools_fit :: "'w simulation \<Rightarrow> bool" where
  "pools_fit st \<longleftrightarrow> (\<forall>p < length (virtual_pool_threads (sim_configuration st)).
     card (pool_busy st p) \<le> virtual_pool_threads (sim_configuration st) ! p)"

definition actions_ok :: "framework_time \<Rightarrow> nat \<Rightarrow> (action_key \<times> 'w action) list \<Rightarrow> bool" where
  "actions_ok now n m \<longleftrightarrow> sorted_wrt (<) (map fst m) \<and> (\<forall>((t, k), _) \<in> set m. now \<le> t \<and> k < n)"

definition sim_inv :: "'w simulation \<Rightarrow> bool" where
  "sim_inv st \<longleftrightarrow> sim_shape st \<and> pools_fit st \<and> actions_ok (sim_time st) (action_sequence st) (actions st)"

lemma finite_pool_busy [simp]: "finite (pool_busy st p)"
  by (simp add: pool_busy_def)

lemma free_threads_exact:
  assumes "sim_shape st" and "pools_fit st"
  shows "free_threads st = Ret (map (\<lambda>p. virtual_pool_threads (sim_configuration st) ! p - card (pool_busy st p))
    [0..<length (virtual_pool_threads (sim_configuration st))])"
proof -
  have "busy_count (sim_time st) (zip (sim_nodes st) (sim_schedules st)) p = card (pool_busy st p)" for p
    using assms(1) busy_count_card [of "sim_nodes st" "sim_schedules st"] by (simp add: sim_shape_def pool_busy_def)
  then show ?thesis
    using assms unfolding free_threads_def
    by (subst occupy_exact) (auto simp: sim_shape_def pools_fit_def dest: set_zip_rightD)
qed

text \<open>Adding an action.\<close>

lemma map_of_map_insert: "map_of (map_insert k v m) = (map_of m)(k \<mapsto> v)"
  by (induction m rule: map_insert.induct [where ?a0.0 = k and ?a1.0 = v, case_names Nil Cons]) (auto simp: fun_eq_iff)

lemma map_insert_keys:
  assumes "sorted_wrt (<) (map fst m)" and "k \<notin> set (map fst m)"
  shows "sorted_wrt (<) (map fst (map_insert k v m)) \<and> set (map_insert k v m) = insert (k, v) (set m)"
  using assms
proof (induction m)
  case (Cons x m)
  obtain k' v' where x: "x = (k', v')" by (cases x)
  show ?case
  proof (cases "k < k'")
    case True
    then show ?thesis using Cons.prems by (force simp: x)
  next
    case False
    then have "k' < k" using Cons.prems(2) by (auto simp: x)
    with Cons show ?thesis by (auto simp: x)
  qed
qed simp

lemma actions_ok_insert:
  assumes "actions_ok now n m" and "now \<le> t"
  shows "actions_ok now (Suc n) (map_insert (t, n) a m)"
proof -
  have "(t, n) \<notin> set (map fst m)" using assms(1) by (force simp: actions_ok_def)
  with assms map_insert_keys [of m "(t, n)" a] show ?thesis
    by (force simp: actions_ok_def less_Suc_eq)
qed


section \<open>The action loop\<close>

text \<open>What an action leaves alone.\<close>

definition actions_only :: "'w simulation \<Rightarrow> 'w simulation \<Rightarrow> bool" where
  "actions_only st st' \<longleftrightarrow> sim_callbacks st' = sim_callbacks st \<and> sim_names st' = sim_names st
     \<and> sim_schedules st' = sim_schedules st \<and> sim_nodes st' = sim_nodes st \<and> sim_metadata st' = sim_metadata st
     \<and> sim_configuration st' = sim_configuration st \<and> sim_time st' = sim_time st
     \<and> step_count st' = step_count st \<and> failed st' = failed st"

lemma actions_only_refl [simp]: "actions_only st st"
  by (simp add: actions_only_def)

lemma actions_only_trans: "actions_only st st1 \<Longrightarrow> actions_only st1 st2 \<Longrightarrow> actions_only st st2"
  by (simp add: actions_only_def)

lemma run_action_cases:
  assumes "run_action st t a = Ret (r, st')"
  obtains (kept) w where "st' = st\<lparr>world := w\<rparr>"
  | (again) w f next_time where "a = Stream f" "sim_time st < next_time"
      "insert_action (st\<lparr>world := w\<rparr>) next_time (Stream f) = (r, st')"
proof (cases a)
  case (Once f)
  with assms kept show ?thesis
    by (auto simp: run_action_def) (auto simp: Let_def split: sum.splits)
next
  case (Stream f)
  with assms obtain x w where *: "f t (world st) = Ret (x, w)"
    "(let st1 = st\<lparr>world := w\<rparr> in case x of
         Inl e \<Rightarrow> Ret (Inl (ActionFailure e), st1)
       | Inr None \<Rightarrow> Ret (Inr (), st1)
       | Inr (Some next_time) \<Rightarrow>
           if next_time \<le> sim_time st1
           then Ret (Inl (ActionFailure ''streaming action must return a future timestamp''), st1)
           else Ret (insert_action st1 next_time (Stream f))) = Ret (r, st')"
    by (auto simp: run_action_def)
  then show ?thesis
    using kept [of w] again [OF Stream] by (auto simp: Let_def not_le split: sum.splits option.splits if_splits)
qed

lemma run_action_frame:
  assumes "run_action st t a = Ret (r, st')"
  shows "actions_only st st'"
  using assms
  by (cases rule: run_action_cases) (auto simp: actions_only_def insert_action_def split: if_splits option.splits)

lemma run_action_ok:
  assumes "run_action st t a = Ret (r, st')" and "actions_ok (sim_time st) (action_sequence st) (actions st)"
  shows "actions_ok (sim_time st') (action_sequence st') (actions st')"
  using assms(1)
proof (cases rule: run_action_cases)
  case (again w f next_time)
  with actions_ok_insert [OF assms(2), of next_time] assms(2) show ?thesis
    by (auto simp: insert_action_def checked_usize_def split: if_splits)
qed (use assms(2) in simp)

lemma actions_ok_pop:
  "actions_ok now n (x # m) \<Longrightarrow> actions_ok now n m"
  by (auto simp: actions_ok_def)

lemma run_actions_ok:
  assumes "run_actions st = Ret (r, st')" and "actions_ok (sim_time st) (action_sequence st) (actions st)"
  shows "actions_only st st' \<and> actions_ok (sim_time st') (action_sequence st') (actions st')
    \<and> (r = Inr () \<longrightarrow> (\<forall>((t, _), _) \<in> set (actions st'). sim_time st' < t))"
  using assms
proof (induction st rule: run_actions.induct)
  case (1 st)
  show ?case
  proof (cases "actions st")
    case Nil
    with "1.prems" show ?thesis by (auto simp: run_actions.simps)
  next
    case (Cons x m)
    obtain t k a where x: "x = ((t, k), a)" by (cases x) auto
    show ?thesis
    proof (cases "t \<le> sim_time st")
      case True
      with "1.prems"(1) Cons x obtain q st1 where q: "run_action (st\<lparr>actions := m\<rparr>) t a = Ret (q, st1)"
        "(case q of Inl e \<Rightarrow> Ret (Inl e, st1) | Inr u \<Rightarrow> run_actions st1) = Ret (r, st')"
        by (subst (asm) run_actions.simps) auto
      have frame: "actions_only st st1"
        using run_action_frame [OF q(1)] Cons by (auto simp: actions_only_def)
      have ok: "actions_ok (sim_time st1) (action_sequence st1) (actions st1)"
        using run_action_ok [OF q(1)] actions_ok_pop [of "sim_time st" "action_sequence st" x m] "1.prems"(2) Cons
        by simp
      show ?thesis
      proof (cases q)
        case (Inr u)
        with "1.IH" [OF Cons x [symmetric] refl True q(1) refl Inr] q ok frame actions_only_trans [OF frame] show ?thesis by auto
      qed (use q ok frame in auto)
    next
      case False
      then have "\<forall>((t', _), _) \<in> set (actions st). t \<le> t'"
        using "1.prems"(2) Cons x by (fastforce simp: actions_ok_def)
      with False "1.prems" Cons x show ?thesis
        by (subst (asm) run_actions.simps) force
    qed
  qed
qed


text \<open>The loop as one pass over given actions; those that a failure leaves over stay in the map.\<close>

fun run_each ::
  "(action_key \<times> 'w action) list \<Rightarrow> 'w simulation \<Rightarrow> ((step_error + unit) \<times> 'w simulation) outcome" where
  "run_each [] st = Ret (Inr (), st)"
| "run_each (((t, _), a) # as) st = and_then (run_action st t a) (\<lambda>(r, st1). case r of
     Inl e \<Rightarrow> Ret (Inl e, st1\<lparr>actions := as @ actions st1\<rparr>)
   | Inr _ \<Rightarrow> run_each as st1)"

lemma map_insert_subset: "set (map_insert k v m) \<subseteq> insert (k, v) (set m)"
  by (induction m) (auto split: if_splits)

lemma map_insert_append:
  "\<forall>k' \<in> set (map fst m). k' < k \<Longrightarrow> map_insert k v (m @ m') = m @ map_insert k v m'"
  by (induction m) auto

lemma insert_action_append:
  assumes "insert_action (st\<lparr>actions := m'\<rparr>) t a = (r, st1)"
    and "\<forall>k \<in> set (map fst m). k < (t, action_sequence st)"
  shows "insert_action (st\<lparr>actions := m @ m'\<rparr>) t a = (r, st1\<lparr>actions := m @ actions st1\<rparr>)"
  using assms by (auto simp: insert_action_def map_insert_append split: if_splits option.splits)

lemma run_action_append:
  assumes "run_action (st\<lparr>actions := m'\<rparr>) t a = R"
    and "\<forall>((t, _), _) \<in> set m. t \<le> sim_time st"
  shows "run_action (st\<lparr>actions := m @ m'\<rparr>) t a
    = and_then R (\<lambda>(r, st1). Ret (r, st1\<lparr>actions := m @ actions st1\<rparr>))"
proof -
  have insert: "insert_action (st\<lparr>actions := m @ m', world := w\<rparr>) t' b
      = (case insert_action (st\<lparr>actions := m', world := w\<rparr>) t' b of (r, st1) \<Rightarrow> (r, st1\<lparr>actions := m @ actions st1\<rparr>))"
    if "sim_time st < t'" for t' b w
  proof -
    have "\<forall>k \<in> set (map fst m). k < (t', action_sequence (st\<lparr>world := w\<rparr>))"
      using assms(2) that by fastforce
    moreover have swap: "st\<lparr>actions := x, world := w\<rparr> = st\<lparr>world := w, actions := x\<rparr>" for x by simp
    ultimately show ?thesis
      unfolding swap
      using insert_action_append [where st = "st\<lparr>world := w\<rparr>" and m = m and m' = m' and t = t' and a = b]
      by (auto split: prod.split)
  qed
  show ?thesis
    unfolding assms(1) [symmetric] run_action_def
    by (cases a) (auto simp: Let_def insert case_prod_unfold split: sum.splits option.splits intro!: and_then_cong)
qed

text \<open>With the due actions in front, the loop runs these and stops at the first action left.\<close>

lemma run_actions_each:
  assumes "\<forall>((t, _), _) \<in> set ds. t \<le> sim_time st" and "\<forall>((t, _), _) \<in> set m. sim_time st < t"
  shows "run_actions (st\<lparr>actions := ds @ m\<rparr>) = run_each ds (st\<lparr>actions := m\<rparr>)"
  using assms
proof (induction ds arbitrary: st m)
  case Nil
  then show ?case
    by (subst run_actions.simps) (force split: list.split)
next
  case (Cons d ds)
  obtain t k a where d: "d = ((t, k), a)" by (cases d) auto
  have later: "run_actions (st1\<lparr>actions := ds @ actions st1\<rparr>) = run_each ds st1"
    if r: "run_action (st\<lparr>actions := m\<rparr>) t a = Ret (Inr u, st1)" for u st1
  proof -
    have "sim_time st1 = sim_time st" using run_action_frame [OF r] by (simp add: actions_only_def)
    moreover have "\<forall>((t, _), _) \<in> set (actions st1). sim_time st < t"
      using r
    proof (cases rule: run_action_cases)
      case (again w f next_time)
      with Cons.prems(2) map_insert_subset [of "(next_time, action_sequence st)" "Stream f" m] show ?thesis
        by (fastforce simp: insert_action_def split: if_splits option.splits)
    qed (use Cons.prems(2) in auto)
    ultimately show ?thesis
      using Cons.IH [of st1 "actions st1"] Cons.prems(1) by auto
  qed
  have "run_actions (st\<lparr>actions := (d # ds) @ m\<rparr>)
      = and_then (run_action (st\<lparr>actions := ds @ m\<rparr>) t a) (\<lambda>(r, st1). case r of
           Inl e \<Rightarrow> Ret (Inl e, st1) | Inr _ \<Rightarrow> run_actions st1)"
    using Cons.prems(1) by (subst run_actions.simps) (simp add: d)
  also have "\<dots> = and_then (run_action (st\<lparr>actions := m\<rparr>) t a) (\<lambda>(r, st1). case r of
           Inl e \<Rightarrow> Ret (Inl e, st1\<lparr>actions := ds @ actions st1\<rparr>)
         | Inr _ \<Rightarrow> run_actions (st1\<lparr>actions := ds @ actions st1\<rparr>))"
    using Cons.prems(1) by (subst run_action_append [OF refl]) (auto simp: case_prod_unfold split: sum.split intro!: and_then_cong)
  finally show ?case
    using later by (auto simp: d case_prod_unfold split: sum.split intro!: and_then_cong)
qed


section \<open>Readiness\<close>

lemma refresh_node_busy [simp]: "busy_until (refresh_node on now tr av n) = busy_until n"
  by (simp add: refresh_node_def Let_def)

lemma refresh_node_next: "node_next (refresh_node on now tr av n) = (if on then node_next n else None)"
  by (simp add: refresh_node_def Let_def)

lemma refresh_node_ready: "ready_since (refresh_node on now tr av n) = Some t \<Longrightarrow> busy_until n \<le> now"
  by (auto simp: refresh_node_def Let_def split: if_splits)

lemma refresh_nodes_facts:
  assumes "refresh_nodes on now i xs w = (ns, w')"
  shows "length ns = length xs \<and> timers w' = timers w \<and> shared w' = shared w
    \<and> (\<forall>j < length xs. \<exists>tr av. ns ! j = refresh_node on now tr av (fst (xs ! j)))"
  using assms
proof (induction xs arbitrary: i w ns)
  case (Cons x xs)
  obtain n cb where x: "x = (n, cb)" by (cases x)
  let ?w = "w\<lparr>notifications := (notifications w)[i := (False, False)]\<rparr>"
  obtain ns1 where ns1: "refresh_nodes on now (i + 1) xs ?w = (ns1, w')"
    "ns = refresh_node on now (fst (notifications w ! i)) (required_inputs_available (sim_ops cb) ?w) n # ns1"
    using Cons.prems by (auto simp: x Let_def split: prod.splits)
  from Cons.IH [OF ns1(1)] ns1(2) show ?case by (auto simp: x nth_Cons split: nat.split)
qed auto

lemma refresh_fields [simp]:
  "sim_callbacks (refresh st) = sim_callbacks st" "sim_names (refresh st) = sim_names st"
  "sim_schedules (refresh st) = sim_schedules st" "sim_metadata (refresh st) = sim_metadata st"
  "sim_configuration (refresh st) = sim_configuration st" "sim_time (refresh st) = sim_time st"
  "step_count (refresh st) = step_count st" "failed (refresh st) = failed st"
  "actions (refresh st) = actions st" "action_sequence (refresh st) = action_sequence st"
  by (simp_all add: refresh_def case_prod_unfold Let_def)

lemma refresh_sim_nodes:
  assumes "sim_shape st"
  shows "length (sim_nodes (refresh st)) = length (sim_nodes st)"
    and "i < length (sim_nodes st) \<Longrightarrow> \<exists>tr av. sim_nodes (refresh st) ! i
      = refresh_node (timers (world st)) (sim_time st) tr av (sim_nodes st ! i)"
proof -
  let ?xs = "zip (sim_nodes st) (sim_callbacks st)"
  obtain ns w where r: "refresh_nodes (timers (world st)) (sim_time st) 0 ?xs (world st) = (ns, w)" by fastforce
  have len: "length ?xs = length (sim_nodes st)" using assms by (simp add: sim_shape_def)
  from refresh_nodes_facts [OF r] r len show "length (sim_nodes (refresh st)) = length (sim_nodes st)"
    by (simp add: refresh_def)
  show "\<exists>tr av. sim_nodes (refresh st) ! i = refresh_node (timers (world st)) (sim_time st) tr av (sim_nodes st ! i)"
    if "i < length (sim_nodes st)"
    using refresh_nodes_facts [OF r] r len that by (simp add: refresh_def)
qed

lemma refresh_keeps:
  assumes "sim_shape st"
  shows "sim_shape (refresh st)" and "pool_busy (refresh st) p = pool_busy st p"
proof -
  show "sim_shape (refresh st)" using assms refresh_sim_nodes(1) [OF assms] by (simp add: sim_shape_def)
  have "busy_until (sim_nodes (refresh st) ! i) = busy_until (sim_nodes st ! i)" if "i < length (sim_nodes st)" for i
    using refresh_sim_nodes(2) [OF assms that] by auto
  then show "pool_busy (refresh st) p = pool_busy st p"
    using refresh_sim_nodes(1) [OF assms] by (auto simp: pool_busy_def)
qed

lemma refresh_ready_not_busy:
  assumes "sim_shape st" and "i < length (sim_nodes st)" and "ready_since (sim_nodes (refresh st) ! i) \<noteq> None"
  shows "busy_until (sim_nodes (refresh st) ! i) \<le> sim_time st"
  using refresh_sim_nodes(2) [OF assms(1,2)] assms(3) by (auto dest: refresh_node_ready)

lemma pools_fit_refresh: "sim_shape st \<Longrightarrow> pools_fit (refresh st) = pools_fit st"
  by (simp add: pools_fit_def refresh_keeps)

section \<open>One batch\<close>

lemma prepare_batch_subseq:
  "prepare_batch cbs s = Ret (prepared, s') \<Longrightarrow> subseq prepared cbs"
proof (induction cbs arbitrary: s prepared)
  case (Cons c cbs)
  obtain i cb where c: "c = (i, cb)" by (cases c)
  from Cons.prems c obtain ready s1 prepared' where *: "prepare_callback cb s = Ret (ready, s1)"
    "prepare_batch cbs s1 = Ret (prepared', s')" "prepared = (if ready then (i, cb) # prepared' else prepared')"
    by auto
  from Cons.IH [OF *(2)] * c show ?case by auto
qed auto

lemma execute_callback_batch_Inr:
  assumes "execute_callback_batch cbs now workers order before_commit s = Ret (Inr (executed, r), s')"
  shows "subseq executed (map fst cbs) \<and> (\<exists>s2. before_commit executed s2 = Inr r)"
proof -
  have w: "workers \<noteq> 0"
  proof
    assume "workers = 0"
    with assms show False by (simp add: execute_callback_batch_def)
  qed
  obtain prepared s1 where 1: "prepare_batch cbs s = Ret (prepared, s1)"
    using assms w by (auto simp: execute_callback_batch_def)
  obtain q s2 where 2: "run_prepared_batch (map snd prepared) now (order (length prepared)) s1 = Ret (q, s2)"
    using assms w 1 by (auto simp: execute_callback_batch_def Let_def)
  have "executed = map fst prepared \<and> before_commit executed s2 = Inr r"
    using assms w 1 2
    by (cases q; cases "before_commit (map fst prepared) s2")
      (auto simp: execute_callback_batch_def Let_def split: prod.splits)
  with prepare_batch_subseq [OF 1] show ?thesis by (auto simp: subseq_map)
qed

lemma clear_ready_nth:
  "length (clear_ready xs ns) = length ns
    \<and> (\<forall>i < length ns. clear_ready xs ns ! i = (if i \<in> set xs then (ns ! i)\<lparr>ready_since := None\<rparr> else ns ! i))"
proof (induction xs arbitrary: ns)
  case (Cons x xs)
  let ?ns = "ns[x := (ns ! x)\<lparr>ready_since := None\<rparr>]"
  have "clear_ready (x # xs) ns = clear_ready xs ?ns" by (simp add: clear_ready_def)
  moreover have "clear_ready xs ?ns ! i = (if i \<in> set (x # xs) then (ns ! i)\<lparr>ready_since := None\<rparr> else ns ! i)"
    if "i < length ns" for i
    using Cons.IH [of ?ns] that by (cases "i = x") auto
  ultimately show ?case using Cons.IH [of ?ns] by simp
qed (simp add: clear_ready_def)

lemma record_timing_nth:
  "length (record_timing ts ns) = length ns
    \<and> (\<forall>i. i \<notin> fst ` set ts \<longrightarrow> record_timing ts ns ! i = ns ! i)"
proof (induction ts arbitrary: ns)
  case (Cons t ts)
  obtain i finish next_time where t: "t = (i, finish, next_time)" by (cases t) auto
  let ?ns = "ns[i := (ns ! i)\<lparr>node_requested := False, input_requested := False, busy_until := finish,
    node_next := next_time\<rparr>]"
  have "record_timing (t # ts) ns = record_timing ts ?ns" by (simp add: record_timing_def t)
  with Cons.IH [of ?ns] show ?case by (auto simp: t)
qed (simp add: record_timing_def)

lemma batch_timing_length: "batch_timing st is w = Inr ts \<Longrightarrow> length ts = length is"
  by (induction "is" arbitrary: ts) (auto split: sum.splits)

lemma subseq_facts: "subseq xs ys \<Longrightarrow> set xs \<subseteq> set ys \<and> (distinct ys \<longrightarrow> distinct xs)"
  by (induction rule: list_emb.induct) auto

text \<open>What the selection of a state gives.\<close>

lemma selection_law:
  assumes "sim_shape st" and "pools_fit st"
  obtains free selected where "free_threads st = Ret free"
    and "select (sim_schedules st) free (map snd (candidates st)) = Ret selected"
    and "batch_of (rank_of (length (sim_callbacks st)) selected) = selected"
    and "subseq selected (map snd (candidates st))"
    and "length free = length (virtual_pool_threads (sim_configuration st))"
    and "\<And>p. p < length free \<Longrightarrow> free ! p + card (pool_busy st p) = virtual_pool_threads (sim_configuration st) ! p"
    and "\<And>p. p < length free \<Longrightarrow> filter (\<lambda>i. schedule_pool (sim_schedules st ! i) = p) selected
      = take (free ! p) (filter (\<lambda>i. schedule_pool (sim_schedules st ! i) = p) (map snd (candidates st)))"
proof -
  let ?threads = "virtual_pool_threads (sim_configuration st)"
  let ?free = "map (\<lambda>p. ?threads ! p - card (pool_busy st p)) [0..<length ?threads]"
  have free: "free_threads st = Ret ?free" using assms by (rule free_threads_exact)
  have "\<forall>i \<in> set (map snd (candidates st)). schedule_pool (sim_schedules st ! i) < length ?free"
  proof
    fix i assume "i \<in> set (map snd (candidates st))"
    then show "schedule_pool (sim_schedules st ! i) < length ?free"
      using assms(1) unfolding candidates_indices by (simp add: sim_shape_def)
  qed
  from select_exact [OF this] obtain selected where s:
    "select (sim_schedules st) ?free (map snd (candidates st)) = Ret selected" "subseq selected (map snd (candidates st))"
    "\<And>p. p < length ?free \<Longrightarrow> filter (\<lambda>i. schedule_pool (sim_schedules st ! i) = p) selected
         = take (?free ! p) (filter (\<lambda>i. schedule_pool (sim_schedules st ! i) = p) (map snd (candidates st)))" by blast
  have "distinct selected"
    using subseq_facts [OF s(2)] candidates_facts(2) by blast
  moreover have "set selected \<subseteq> set (map snd (candidates st))" using subseq_facts [OF s(2)] by blast
  then have "set selected \<subseteq> {..<length (sim_callbacks st)}"
    using assms(1) unfolding subset_iff candidates_indices by (simp add: sim_shape_def)
  ultimately have "batch_of (rank_of (length (sim_callbacks st)) selected) = selected" by (rule batch_of_rank)
  moreover have "?free ! p + card (pool_busy st p) = ?threads ! p" if "p < length ?free" for p
    using that assms(2) by (auto simp: pools_fit_def)
  ultimately show ?thesis using that [of ?free selected] free s by simp
qed


text \<open>What a batch leaves alone.\<close>

definition nodes_only :: "'w simulation \<Rightarrow> 'w simulation \<Rightarrow> bool" where
  "nodes_only st st' \<longleftrightarrow> sim_callbacks st' = sim_callbacks st \<and> sim_names st' = sim_names st
     \<and> sim_schedules st' = sim_schedules st \<and> sim_metadata st' = sim_metadata st
     \<and> sim_configuration st' = sim_configuration st \<and> sim_time st' = sim_time st \<and> actions st' = actions st
     \<and> action_sequence st' = action_sequence st \<and> step_count st' = step_count st \<and> failed st' = failed st"

lemma run_batch_unfold:
  assumes "sim_shape st" and "pools_fit st"
  obtains free selected where "free_threads st = Ret free"
    and "subseq selected (map snd (candidates st))"
    and "length free = length (virtual_pool_threads (sim_configuration st))"
    and "\<And>p. p < length free \<Longrightarrow> free ! p + card (pool_busy st p) = virtual_pool_threads (sim_configuration st) ! p"
    and "\<And>p. p < length free \<Longrightarrow> length (filter (\<lambda>i. schedule_pool (sim_schedules st ! i) = p) selected) \<le> free ! p"
    and "\<And>order. run_batch order st = settle_batch order st selected selected"
proof (rule selection_law [OF assms])
  fix free selected
  assume *: "free_threads st = Ret free"
    "select (sim_schedules st) free (map snd (candidates st)) = Ret selected"
    "batch_of (rank_of (length (sim_callbacks st)) selected) = selected"
    "subseq selected (map snd (candidates st))"
    "length free = length (virtual_pool_threads (sim_configuration st))"
    "\<And>p. p < length free \<Longrightarrow> free ! p + card (pool_busy st p) = virtual_pool_threads (sim_configuration st) ! p"
    "\<And>p. p < length free \<Longrightarrow> filter (\<lambda>i. schedule_pool (sim_schedules st ! i) = p) selected
      = take (free ! p) (filter (\<lambda>i. schedule_pool (sim_schedules st ! i) = p) (map snd (candidates st)))"
  show thesis
  proof (rule that [OF *(1,4,5,6)])
    show "length (filter (\<lambda>i. schedule_pool (sim_schedules st ! i) = p) selected) \<le> free ! p" if "p < length free" for p
      unfolding *(7) [OF that] by simp
  next
    show "run_batch order st = settle_batch order st selected selected" for order
      by (simp add: run_batch_def *)
  qed simp_all
qed

lemma run_batch_law:
  assumes "sim_shape st" and "pools_fit st"
    and idle: "\<And>i. i < length (sim_nodes st) \<Longrightarrow> ready_since (sim_nodes st ! i) \<noteq> None \<Longrightarrow>
      busy_until (sim_nodes st ! i) \<le> sim_time st"
    and run: "run_batch order st = Ret (Inr executed, st')"
  shows "sim_shape st' \<and> pools_fit st' \<and> nodes_only st st' \<and> distinct executed
    \<and> (\<forall>i \<in> set executed. i < length (sim_nodes st) \<and> ready_since (sim_nodes st ! i) \<noteq> None)"
proof (rule run_batch_unfold [OF assms(1,2)])
  fix free selected
  assume *: "free_threads st = Ret free"
    and sub: "subseq selected (map snd (candidates st))"
    and len: "length free = length (virtual_pool_threads (sim_configuration st))"
    and fit: "\<And>p. p < length free \<Longrightarrow> free ! p + card (pool_busy st p) = virtual_pool_threads (sim_configuration st) ! p"
    and few: "\<And>p. p < length free \<Longrightarrow> length (filter (\<lambda>i. schedule_pool (sim_schedules st ! i) = p) selected) \<le> free ! p"
    and eq: "\<And>order. run_batch order st = settle_batch order st selected selected"
  from run obtain q w where
    q: "execute_callback_batch (map (\<lambda>i. (i, sim_ops (sim_callbacks st ! i))) selected)
      (sim_time st) (node_executor_thread_count (sim_configuration st)) order
      (batch_timing (st\<lparr>sim_nodes := clear_ready selected (sim_nodes st)\<rparr>)) (world st) = Ret (q, w)"
    by (auto simp: eq settle_batch_def Let_def)
  with run obtain timing where t: "q = Inr (executed, timing)" and st': "st' = st\<lparr>sim_nodes :=
      record_timing (zip executed timing) (clear_ready selected (sim_nodes st)), world := w\<rparr>"
    by (cases q) (auto simp: eq settle_batch_def Let_def)
  have sub': "subseq executed selected"
    using execute_callback_batch_Inr [OF q [unfolded t]] by (simp add: comp_def)
  have ex: "distinct executed" "set executed \<subseteq> set selected" "set selected \<subseteq> set (map snd (candidates st))" "distinct selected"
    using subseq_facts [OF sub] subseq_facts [OF sub'] candidates_facts(2) [of st] by auto
  have ready: "i < length (sim_nodes st) \<and> ready_since (sim_nodes st ! i) \<noteq> None" if "i \<in> set executed" for i
    using ex(2,3) that candidates_indices [of i st] by blast
  have nth: "length (sim_nodes st') = length (sim_nodes st)"
    "\<And>i. i \<notin> set executed \<Longrightarrow> i < length (sim_nodes st) \<Longrightarrow> busy_until (sim_nodes st' ! i) = busy_until (sim_nodes st ! i)"
  proof -
    note r = record_timing_nth [of "zip executed timing" "clear_ready selected (sim_nodes st)"]
      clear_ready_nth [of selected "sim_nodes st"]
    then show "length (sim_nodes st') = length (sim_nodes st)" by (simp add: st')
    fix i assume i: "i \<notin> set executed" "i < length (sim_nodes st)"
    then have "i \<notin> fst ` set (zip executed timing)" by (auto dest: set_zip_leftD)
    then show "busy_until (sim_nodes st' ! i) = busy_until (sim_nodes st ! i)" using r i by (simp add: st')
  qed
  have "card (pool_busy st' p) \<le> virtual_pool_threads (sim_configuration st) ! p" if "p < length free" for p
  proof -
    let ?ex = "set (filter (\<lambda>i. schedule_pool (sim_schedules st ! i) = p) selected)"
    have "pool_busy st' p \<subseteq> pool_busy st p \<union> ?ex"
    proof
      fix i assume i: "i \<in> pool_busy st' p"
      show "i \<in> pool_busy st p \<union> ?ex"
        using i nth ex(2) by (cases "i \<in> set executed") (auto simp: pool_busy_def st')
    qed
    then have "card (pool_busy st' p) \<le> card (pool_busy st p \<union> ?ex)" by (intro card_mono) auto
    also have "\<dots> \<le> card (pool_busy st p) + card ?ex" by (rule card_Un_le)
    also have "card ?ex = length (filter (\<lambda>i. schedule_pool (sim_schedules st ! i) = p) selected)"
      using ex(4) by (intro distinct_card) simp
    finally show ?thesis using few [OF that] fit [OF that] by linarith
  qed
  then have "pools_fit st'" by (simp add: pools_fit_def len st')
  moreover have "sim_shape st'" "nodes_only st st'"
    using assms(1) nth(1) by (auto simp: sim_shape_def nodes_only_def st')
  ultimately show ?thesis using ex(1) ready by blast
qed


section \<open>Events\<close>

lemma next_event_Some:
  assumes "next_event st = Some t"
  shows "sim_time st < t \<and> t \<in> set (event_times st) \<and> (\<forall>u \<in> set (event_times st). u \<le> sim_time st \<or> t \<le> u)"
proof -
  let ?us = "filter (\<lambda>t. sim_time st < t) (event_times st)"
  obtain u us where us: "?us = u # us" and t: "t = fold min us u"
    using assms by (auto simp: next_event_def split: list.splits)
  have "t = Min (set ?us)" unfolding us t by (rule Min.set_eq_fold [symmetric])
  moreover have "set ?us \<noteq> {}" unfolding us by simp
  ultimately have "t \<in> set ?us" "\<And>v. v \<in> set ?us \<Longrightarrow> t \<le> v" by (auto simp del: set_filter)
  then show ?thesis by force
qed

lemma next_event_None:
  assumes "next_event st = None"
  shows "\<forall>u \<in> set (event_times st). u \<le> sim_time st"
  using assms by (auto simp: next_event_def filter_empty_conv not_less split: list.splits)

lemma next_event_NoneI:
  assumes "\<forall>u \<in> set (event_times st). u \<le> sim_time st"
  shows "next_event st = None"
  using assms by (auto simp: next_event_def filter_empty_conv not_less split: list.splits)

lemma event_times_first:
  assumes "sorted_wrt (<) (map fst (actions st))" and "((t, k), a) \<in> set (actions st)"
  shows "\<exists>t' \<in> set (event_times st). t' \<le> t \<and> (\<exists>k' a'. ((t', k'), a') \<in> set (actions st))"
  using assms by (cases "actions st") (fastforce simp: event_times_def)+

lemma event_times_nodes:
  "n \<in> set (sim_nodes st) \<Longrightarrow> busy_until n \<in> set (event_times st)"
  "n \<in> set (sim_nodes st) \<Longrightarrow> node_next n = Some t \<Longrightarrow> t \<in> set (event_times st)"
  by (force simp: event_times_def)+

text \<open>The events of the callbacks after a refresh.\<close>

definition node_events :: "'w simulation \<Rightarrow> (framework_time \<times> framework_time option) list" where
  "node_events st = map (\<lambda>n. (busy_until n, node_next n)) (sim_nodes st)"

lemma event_times_alt:
  "event_times st = concat (map (\<lambda>(b, x). b # (case x of Some t \<Rightarrow> [t] | None \<Rightarrow> [])) (node_events st))
     @ (case actions st of [] \<Rightarrow> [] | ((t, _), _) # _ \<Rightarrow> [t])"
  by (simp add: event_times_def node_events_def comp_def)

lemma refresh_timers [simp]: "timers (world (refresh st)) = timers (world st)"
proof -
  obtain ns w where "refresh_nodes (timers (world st)) (sim_time st) 0 (zip (sim_nodes st) (sim_callbacks st)) (world st)
      = (ns, w)" by fastforce
  with refresh_nodes_facts [OF this] show ?thesis by (simp add: refresh_def)
qed

lemma node_events_refresh:
  assumes "sim_shape st"
  shows "node_events (refresh st) = map (\<lambda>(b, x). (b, if timers (world st) then x else None)) (node_events st)"
proof (rule nth_equalityI)
  fix i assume "i < length (node_events (refresh st))"
  then have i: "i < length (sim_nodes st)" using refresh_sim_nodes(1) [OF assms] by (simp add: node_events_def)
  then obtain tr av where "sim_nodes (refresh st) ! i
      = refresh_node (timers (world st)) (sim_time st) tr av (sim_nodes st ! i)"
    using refresh_sim_nodes(2) [OF assms] by blast
  with i show "node_events (refresh st) ! i
      = map (\<lambda>(b, x). (b, if timers (world st) then x else None)) (node_events st) ! i"
    by (simp add: node_events_def refresh_sim_nodes(1) [OF assms] refresh_node_next)
qed (simp add: node_events_def refresh_sim_nodes(1) [OF assms])

section \<open>Steps keep the invariant\<close>

lemma advance_law:
  assumes "sim_shape st" and "pools_fit st"
  obtains free where "free_threads st = Ret free" and "runnable st free \<or> next_event st = None" and "advance st = Ret st"
  | free t where "free_threads st = Ret free" and "\<not> runnable st free" and "next_event st = Some t"
      and "advance st = Ret (st\<lparr>sim_time := t\<rparr>)"
  using free_threads_exact [OF assms] by (cases "next_event st") (auto simp: advance_def split: if_splits)

lemma pools_fit_later:
  assumes "pools_fit st" and "sim_time st \<le> t"
  shows "pools_fit (st\<lparr>sim_time := t\<rparr>)"
proof -
  have "card (pool_busy (st\<lparr>sim_time := t\<rparr>) p) \<le> card (pool_busy st p)" for p
    using assms(2) by (intro card_mono) (auto simp: pool_busy_def)
  with assms(1) show ?thesis by (fastforce simp: pools_fit_def intro: order_trans)
qed

lemma sim_shape_time [simp]: "sim_shape (st\<lparr>sim_time := t\<rparr>) = sim_shape st"
  by (simp add: sim_shape_def)

text \<open>The part of a step after its actions.\<close>

lemma step_tail_law:
  assumes "sim_shape st" and "pools_fit st" and ok: "actions_ok (sim_time st) (action_sequence st) (actions st)"
    and later: "\<forall>((t, _), _) \<in> set (actions st). sim_time st < t"
    and run: "run_batch order (refresh st) = Ret (Inr executed, st2)"
    and adv: "advance (refresh st2) = Ret st3"
    and fin: "conclude (sim_time st) executed (refresh st3) = Ret (res, st')"
  shows "sim_inv st'" and "step_before res = sim_time st" and "step_after res = sim_time st'"
    and "step_executed res = executed" and "sim_time st \<le> sim_time st'" and "actions st' = actions st"
    and "\<forall>u \<in> set (event_times st'). u \<le> sim_time st \<or> sim_time st' \<le> u"
    and "sim_time st < sim_time st' \<Longrightarrow> sim_time st' \<in> set (event_times st')"
    and "st' = (refresh st3)\<lparr>step_count := step_count st'\<rparr>" and "sim_shape st3"
    and "sim_time st = sim_time st' \<Longrightarrow> \<exists>st2 free. sim_shape st2 \<and> st3 = refresh st2 \<and> free_threads st3 = Ret free
      \<and> (runnable st3 free \<or> next_event st3 = None)"
    and "failed st' = failed st" and "sim_callbacks st' = sim_callbacks st"
proof -
  have b: "sim_shape st2 \<and> pools_fit st2 \<and> nodes_only (refresh st) st2"
    using run_batch_law [OF refresh_keeps(1) [OF assms(1)] _ _ run] assms(1,2) pools_fit_refresh
      refresh_ready_not_busy [OF assms(1)] refresh_sim_nodes(1) [OF assms(1)] by auto
  then have same: "sim_time st2 = sim_time st" "actions st2 = actions st" "action_sequence st2 = action_sequence st"
    by (simp_all add: nodes_only_def)
  let ?r2 = "refresh st2"
  have fit2: "sim_shape ?r2" "pools_fit ?r2" using b by (simp_all add: refresh_keeps pools_fit_refresh)
  obtain t3 where st3: "st3 = ?r2\<lparr>sim_time := t3\<rparr>" and a: "sim_time st \<le> t3"
      "\<forall>u \<in> set (event_times ?r2). u \<le> sim_time st \<or> t3 \<le> u" "sim_time st < t3 \<longrightarrow> t3 \<in> set (event_times ?r2)"
      "sim_time st = t3 \<longrightarrow> (\<exists>free. st3 = ?r2 \<and> free_threads ?r2 = Ret free \<and> (runnable ?r2 free \<or> next_event ?r2 = None))"
  proof (cases rule: advance_law [OF fit2])
    case 1
    then show ?thesis using adv same(1) that [of "sim_time st"] by (auto simp: linorder_linear)
  next
    case (2 free t)
    then show ?thesis using adv same(1) next_event_Some [OF 2(3)] that [of t] by auto
  qed
  have fit3: "sim_shape st3" "pools_fit st3"
    using fit2(1) pools_fit_later [OF fit2(2), of t3] a(1) same(1) by (simp_all add: st3)
  have "pools_fit (refresh st3)" using fit3 by (simp add: pools_fit_refresh)
  note free_threads_exact [OF refresh_keeps(1) [OF fit3(1)] this]
  then obtain free where free: "free_threads (refresh st3) = Ret free" ..
  have st': "st' = (refresh st3)\<lparr>step_count := min (step_count (refresh st3) + 1) usize_max\<rparr>"
    "step_before res = sim_time st" "step_after res = sim_time st3" "step_executed res = executed"
    using fin unfolding conclude_def free and_then.simps outcome.inject prod.inject by auto
  have acts: "actions st3 = actions st" "action_sequence st3 = action_sequence st" "timers (world st3) = timers (world st2)"
    "node_events st3 = node_events ?r2"
    using same by (simp_all add: st3 node_events_def)
  have "node_events (refresh st3) = node_events st3"
    unfolding node_events_refresh [OF fit3(1)] acts(3) unfolding acts(4) node_events_refresh [OF conjunct1 [OF b]]
    by (simp add: case_prod_unfold)
  then have ev: "event_times st' = event_times ?r2"
    unfolding event_times_alt using acts same by (simp add: st'(1) node_events_def)
  show "step_before res = sim_time st" "step_after res = sim_time st'" "step_executed res = executed"
    "sim_time st \<le> sim_time st'" "actions st' = actions st" "st' = (refresh st3)\<lparr>step_count := step_count st'\<rparr>" "sim_shape st3"
    "failed st' = failed st" "sim_callbacks st' = sim_callbacks st"
    using st' a(1) acts fit3 b by (simp_all add: st3 nodes_only_def)
  have time: "sim_time st' = t3" by (simp add: st'(1) st3)
  show "\<forall>u \<in> set (event_times st'). u \<le> sim_time st \<or> sim_time st' \<le> u"
    "sim_time st < sim_time st' \<Longrightarrow> sim_time st' \<in> set (event_times st')"
    using a(2,3) ev time by simp_all
  show "\<exists>st2 free. sim_shape st2 \<and> st3 = refresh st2 \<and> free_threads st3 = Ret free
      \<and> (runnable st3 free \<or> next_event st3 = None)" if "sim_time st = sim_time st'"
    using a(4) b time that by blast
  have "sim_time st' \<le> t" if sched: "((t, k), x) \<in> set (actions st)" for t k x
  proof -
    obtain t' k' a' where t': "t' \<in> set (event_times st')" "t' \<le> t" "((t', k'), a') \<in> set (actions st)"
      using event_times_first [of st' t k x] sched ok acts by (auto simp: st'(1) actions_ok_def)
    with later have "sim_time st < t'" by auto
    with t' a(2) ev time show ?thesis by force
  qed
  then have "actions_ok (sim_time st') (action_sequence st') (actions st')"
    using ok acts by (auto simp: actions_ok_def st'(1))
  moreover have "sim_shape st'" "pools_fit st'"
    using refresh_keeps(1) [OF fit3(1)] pools_fit_refresh [OF fit3(1)] fit3(2)
    by (simp_all add: st'(1) sim_shape_def pools_fit_def pool_busy_def)
  ultimately show "sim_inv st'" by (simp add: sim_inv_def)
qed


section \<open>Reachable states\<close>

text \<open>
  A simulation is constructed, actions are scheduled, steps are taken, whatever their result, and
  between them the outside may change the world.
\<close>

inductive sim_reachable :: "'w sim_callback built_graph \<Rightarrow> sim_config \<Rightarrow> 'w simulation \<Rightarrow> bool"
  for g :: "'w sim_callback built_graph" and c :: sim_config where
  built: "with_config g c s = Ret (Inr st) \<Longrightarrow> sim_reachable g c st"
| scheduled: "sim_reachable g c st \<Longrightarrow> insert_action st t a = (r, st') \<Longrightarrow> sim_reachable g c st'"
| stepped: "sim_reachable g c st \<Longrightarrow> step order st = Ret (r, st') \<Longrightarrow> sim_reachable g c st'"
| outside: "sim_reachable g c st \<Longrightarrow> sim_reachable g c (st\<lparr>world := w\<rparr>)"

lemma push_node_inv:
  assumes "push_node st node = Ret (Inr st')" and "sim_shape st" and "\<forall>p. pool_busy st p = {}" and "actions st = []"
  shows "sim_shape st' \<and> (\<forall>p. pool_busy st' p = {}) \<and> actions st' = [] \<and> sim_configuration st' = sim_configuration st"
proof -
  have busy: "busy_until (sim_nodes st ! i) \<le> sim_time st" if "i < length (sim_nodes st)" for i
  proof (rule ccontr)
    assume "\<not> busy_until (sim_nodes st ! i) \<le> sim_time st"
    with that have "i \<in> pool_busy st (schedule_pool (sim_schedules st ! i))" by (simp add: pool_busy_def)
    with assms(3) show False by simp
  qed
  from assms(1) have ok: "node_error (world st) (sim_configuration st) node = None"
    by (auto simp: push_node_def split: option.splits)
  then have pool: "schedule_pool (cb_schedule node) < length (virtual_pool_threads (sim_configuration st))"
    by (auto simp: node_error_def Let_def split: if_splits)
  from assms(1) ok obtain w1 n where st': "st' = st\<lparr>sim_nodes := sim_nodes st @ [n], sim_names := sim_names st @ [cb_name node],
      sim_schedules := sim_schedules st @ [cb_schedule node], sim_callbacks := sim_callbacks st @ [cb_callback node],
      world := w1\<rparr>" and n: "busy_until n = sim_time st"
    by (auto simp: push_node_def Let_def) (auto split: sum.splits)
  show ?thesis
    using assms(2,4) busy pool n by (auto simp: st' sim_shape_def pool_busy_def nth_append not_less less_Suc_eq)
qed

lemma push_nodes_inv:
  assumes "push_nodes st nodes = Ret (Inr st')" and "sim_shape st" and "\<forall>p. pool_busy st p = {}" and "actions st = []"
  shows "sim_shape st' \<and> (\<forall>p. pool_busy st' p = {}) \<and> actions st' = [] \<and> sim_configuration st' = sim_configuration st"
  using assms
proof (induction nodes arbitrary: st)
  case (Cons node nodes)
  then obtain st1 where "push_node st node = Ret (Inr st1)" "push_nodes st1 nodes = Ret (Inr st')"
    by (auto simp: propagate_error)
  with push_node_inv [of st node st1] Cons.IH [of st1] Cons.prems show ?case by simp
qed simp

lemma with_config_inv:
  assumes "with_config g c s = Ret (Inr st)"
  shows "sim_inv st"
proof -
  let ?st = "\<lparr>sim_callbacks = [], sim_names = [], sim_schedules = [], sim_nodes = [],
        sim_metadata = metadata g, sim_configuration = c, sim_time = start_time c, step_count = 0,
        failed = False, actions = [], action_sequence = 0,
        world = \<lparr>notifications = [], timers = True, shared = s\<rparr>\<rparr>"
  from assms have "push_nodes ?st (graph_callbacks g) = Ret (Inr st)" and c: "\<not> config_error c"
    by (auto simp: with_config_def split: if_splits)
  moreover have "sim_shape ?st" "\<forall>p. pool_busy ?st p = {}" using c by (simp_all add: sim_shape_def pool_busy_def)
  ultimately have "sim_shape st \<and> (\<forall>p. pool_busy st p = {}) \<and> actions st = []"
    using push_nodes_inv [of ?st "graph_callbacks g" st] by simp
  then show ?thesis by (simp add: sim_inv_def pools_fit_def actions_ok_def)
qed

lemma sim_inv_frame:
  assumes "sim_inv st" and "actions_only st st'" and "actions_ok (sim_time st') (action_sequence st') (actions st')"
  shows "sim_inv st'"
proof -
  have "pool_busy st' p = pool_busy st p" for p using assms(2) by (simp add: pool_busy_def actions_only_def)
  with assms show ?thesis by (simp add: sim_inv_def sim_shape_def pools_fit_def actions_only_def)
qed

lemma insert_action_inv:
  assumes "sim_inv st" and "insert_action st t a = (r, st')"
  shows "sim_inv st'"
proof (rule sim_inv_frame [OF assms(1)])
  show "actions_only st st'"
    using assms(2) by (auto simp: insert_action_def actions_only_def split: if_splits option.splits)
  show "actions_ok (sim_time st') (action_sequence st') (actions st')"
    using assms actions_ok_insert [of "sim_time st" "action_sequence st" "actions st" t a]
    by (auto simp: insert_action_def sim_inv_def checked_usize_def split: if_splits option.splits)
qed

text \<open>A successful step in its parts.\<close>

lemma step_inner_Inr:
  assumes "step_inner order st = Ret (Inr res, st')"
  obtains st1 executed st2 st3 where "run_actions st = Ret (Inr (), st1)"
    and "run_batch order (refresh st1) = Ret (Inr executed, st2)" and "advance (refresh st2) = Ret st3"
    and "conclude (sim_time st) executed (refresh st3) = Ret (res, st')"
proof -
  obtain r st1 where 1: "run_actions st = Ret (r, st1)" using assms by (auto simp: step_inner_def)
  then obtain u where r: "r = Inr u" using assms by (cases r) (auto simp: step_inner_def)
  obtain q st2 where 2: "run_batch order (refresh st1) = Ret (q, st2)" using assms 1 r by (auto simp: step_inner_def)
  then obtain executed where q: "q = Inr executed" using assms 1 r by (cases q) (auto simp: step_inner_def)
  obtain st3 where 3: "advance (refresh st2) = Ret st3" using assms 1 2 r q by (auto simp: step_inner_def)
  have "conclude (sim_time st) executed (refresh st3) = Ret (res, st')" using assms 1 2 3 r q by (auto simp: step_inner_def)
  with 1 2 3 r q that show ?thesis by simp
qed

lemma step_Inr:
  assumes "step order st = Ret (Inr res, st')"
  shows "\<not> failed st \<and> step_inner order st = Ret (Inr res, st')"
  using assms by (auto simp: step_def split: if_splits outcome.splits prod.splits sum.splits)

text \<open>The parts of a step at a consistent state.\<close>

lemma step_law:
  assumes inv: "sim_inv st" and run: "step order st = Ret (Inr res, st')"
  obtains st1 st3 executed where "run_actions st = Ret (Inr (), st1)" and "sim_inv st1" and "actions_only st st1"
    and "sim_shape st3" and "st' = (refresh st3)\<lparr>step_count := step_count st'\<rparr>"
    and "sim_inv st'" and "step_before res = sim_time st" and "step_after res = sim_time st'"
    and "sim_time st \<le> sim_time st'" and "actions st' = actions st1"
    and "\<forall>((t, _), _) \<in> set (actions st'). sim_time st < t"
    and "\<forall>u \<in> set (event_times st'). u \<le> sim_time st \<or> sim_time st' \<le> u"
    and "sim_time st < sim_time st' \<Longrightarrow> sim_time st' \<in> set (event_times st')"
    and "conclude (sim_time st) executed (refresh st3) = Ret (res, st')"
    and "sim_time st = sim_time st' \<Longrightarrow> \<exists>st2 free. sim_shape st2 \<and> st3 = refresh st2 \<and> free_threads st3 = Ret free
      \<and> (runnable st3 free \<or> next_event st3 = None)"
    and "failed st' = failed st" and "sim_callbacks st' = sim_callbacks st"
proof -
  have ok: "actions_ok (sim_time st) (action_sequence st) (actions st)" using inv by (simp add: sim_inv_def)
  from step_inner_Inr [OF conjunct2 [OF step_Inr [OF run]]] obtain st1 executed st2 st3 where
    p: "run_actions st = Ret (Inr (), st1)" "run_batch order (refresh st1) = Ret (Inr executed, st2)"
      "advance (refresh st2) = Ret st3" "conclude (sim_time st) executed (refresh st3) = Ret (res, st')" by blast
  note acts = run_actions_ok [OF p(1) ok]
  have inv1: "sim_inv st1" using sim_inv_frame [OF inv] acts by blast
  have time: "sim_time st1 = sim_time st" using acts by (simp add: actions_only_def)
  have later: "\<forall>((t, _), _) \<in> set (actions st1). sim_time st1 < t" using acts by simp
  have inv1': "sim_shape st1" "pools_fit st1" "actions_ok (sim_time st1) (action_sequence st1) (actions st1)"
    using inv1 by (simp_all add: sim_inv_def)
  note tail = step_tail_law [OF inv1' later p(2,3) p(4) [folded time]]
  show ?thesis
    by (rule that [OF p(1) inv1 conjunct1 [OF acts] tail(10) tail(9) tail(1) _ tail(3) _ tail(6) _ _ _ p(4)])
      (use tail(2,5-8,11-13) later time acts in \<open>simp_all add: tail(11) actions_only_def\<close>)
qed


section \<open>Repeated refreshing\<close>

text \<open>The documented contract of \<open>required_inputs_available\<close>: it looks at the inputs only.\<close>

definition inputs_only :: "'w sim_callback \<Rightarrow> bool" where
  "inputs_only cb \<longleftrightarrow> (\<forall>w ns. required_inputs_available (sim_ops cb) (w\<lparr>notifications := ns\<rparr>)
     = required_inputs_available (sim_ops cb) w)"

lemma refresh_node_again:
  "refresh_node on now False av (refresh_node on now tr av n) = refresh_node on now tr av n"
  by (auto simp: refresh_node_def Let_def split: option.split)

lemma refresh_nodes_exact:
  assumes "\<forall>(_, cb) \<in> set xs. inputs_only cb" and "i + length xs \<le> length (notifications w)"
    and "refresh_nodes on now i xs w = (ns, w')"
  shows "w' = w\<lparr>notifications := notifications w'\<rparr> \<and> length (notifications w') = length (notifications w)
    \<and> (\<forall>j < length (notifications w). notifications w' ! j
         = (if i \<le> j \<and> j < i + length xs then (False, False) else notifications w ! j))
    \<and> ns = map (\<lambda>(j, n, cb). refresh_node on now (fst (notifications w ! j)) (required_inputs_available (sim_ops cb) w) n)
        (enumerate i xs)"
  using assms
proof (induction xs arbitrary: i w ns)
  case (Cons x xs)
  obtain n cb where x: "x = (n, cb)" by (cases x)
  let ?w = "w\<lparr>notifications := (notifications w)[i := (False, False)]\<rparr>"
  obtain ns1 where r: "refresh_nodes on now (Suc i) xs ?w = (ns1, w')"
    "ns = refresh_node on now (fst (notifications w ! i)) (required_inputs_available (sim_ops cb) ?w) n # ns1"
    using Cons.prems(3) by (auto simp: x Let_def split: prod.splits)
  have av: "required_inputs_available (sim_ops c) ?w = required_inputs_available (sim_ops c) w"
    if "(m, c) \<in> set (x # xs)" for m c
    using Cons.prems(1) that unfolding inputs_only_def by blast
  have IH: "w' = ?w\<lparr>notifications := notifications w'\<rparr>" "length (notifications w') = length (notifications ?w)"
    "\<forall>j < length (notifications ?w). notifications w' ! j
         = (if Suc i \<le> j \<and> j < Suc i + length xs then (False, False) else notifications ?w ! j)"
    "ns1 = map (\<lambda>(j, n, cb). refresh_node on now (fst (notifications ?w ! j)) (required_inputs_available (sim_ops cb) ?w) n)
        (enumerate (Suc i) xs)"
    using Cons.IH [OF _ _ r(1)] Cons.prems(1,2) by auto
  have "ns1 = map (\<lambda>(j, n, cb). refresh_node on now (fst (notifications w ! j)) (required_inputs_available (sim_ops cb) w) n)
        (enumerate (Suc i) xs)"
    unfolding IH(4)
  proof (rule map_cong [OF refl])
    fix y assume y: "y \<in> set (enumerate (Suc i) xs)"
    obtain j m c where "y = (j, m, c)" by (metis prod.exhaust)
    moreover from y this have "Suc i \<le> j" "(m, c) \<in> set xs"
      using nth_mem [of "j - Suc i" xs] by (auto simp: in_set_enumerate_eq)
    ultimately show "(case y of (j, n, cb) \<Rightarrow> refresh_node on now (fst (notifications ?w ! j)) (required_inputs_available (sim_ops cb) ?w) n)
      = (case y of (j, n, cb) \<Rightarrow> refresh_node on now (fst (notifications w ! j)) (required_inputs_available (sim_ops cb) w) n)"
      using av [of m c] by simp
  qed
  with r(2) av [of n cb] have "ns = map (\<lambda>(j, n, cb). refresh_node on now (fst (notifications w ! j))
      (required_inputs_available (sim_ops cb) w) n) (enumerate i (x # xs))" by (simp add: x)
  moreover have "\<forall>j < length (notifications w). notifications w' ! j
      = (if i \<le> j \<and> j < i + length (x # xs) then (False, False) else notifications w ! j)"
    using IH(3) by (auto simp: nth_list_update)
  moreover have "w' = w\<lparr>notifications := notifications w'\<rparr>" using IH(1) by simp
  ultimately show ?case using IH(2) by simp
qed auto

lemma refresh_again:
  assumes shape: "sim_shape st" and quiet: "\<forall>cb \<in> set (sim_callbacks st). inputs_only cb"
    and cells: "length (notifications (world st)) = length (sim_nodes st)"
  shows "refresh (refresh st) = refresh st"
proof -
  let ?on = "timers (world st)" and ?now = "sim_time st" and ?cbs = "sim_callbacks st"
  let ?av = "\<lambda>i. required_inputs_available (sim_ops (?cbs ! i))"
  have len: "length (sim_nodes st) = length ?cbs" using shape by (simp add: sim_shape_def)
  obtain ns w where 1: "refresh_nodes ?on ?now 0 (zip (sim_nodes st) ?cbs) (world st) = (ns, w)" by fastforce
  have q: "\<forall>(_, cb) \<in> set (zip ms ?cbs). inputs_only cb" for ms :: "sim_node list"
    using quiet by (auto dest: set_zip_rightD)
  note e1 = refresh_nodes_exact [OF q _ 1]
  have ns: "length ns = length ?cbs" "\<And>i. i < length ?cbs \<Longrightarrow>
      ns ! i = refresh_node ?on ?now (fst (notifications (world st) ! i)) (?av i (world st)) (sim_nodes st ! i)"
    using e1 cells len by (simp_all add: nth_enumerate_eq)
  have w: "w = (world st)\<lparr>notifications := notifications w\<rparr>" "length (notifications w) = length ?cbs"
    "\<And>i. i < length ?cbs \<Longrightarrow> notifications w ! i = (False, False)"
    using e1 cells len by simp_all
  obtain ns2 w2 where 2: "refresh_nodes ?on ?now 0 (zip ns ?cbs) w = (ns2, w2)" by fastforce
  note e2 = refresh_nodes_exact [OF q _ 2]
  have "notifications w2 = notifications w"
    using e2 w(2,3) ns(1) by (intro nth_equalityI) simp_all
  moreover have "w2 = w\<lparr>notifications := notifications w2\<rparr>" using e2 w(2) ns(1) by simp
  ultimately have w2: "w2 = w" by simp
  have "?av i w = ?av i (world st)" if "i < length ?cbs" for i
  proof -
    have "inputs_only (?cbs ! i)" using quiet that by simp
    then show ?thesis by (subst w(1)) (simp add: inputs_only_def)
  qed
  then have "ns2 = ns"
    using e2 w(2,3) ns by (intro nth_equalityI) (simp_all add: nth_enumerate_eq refresh_node_again)
  have "timers w = ?on" using refresh_nodes_facts [OF 1] by simp
  with 1 2 w2 \<open>ns2 = ns\<close> show ?thesis by (simp add: refresh_def)
qed

lemma refresh_notifications: "length (notifications (world (refresh st))) = length (notifications (world st))"
proof -
  have "length (notifications (snd (refresh_nodes on now i xs w))) = length (notifications w)" for on now i xs and w :: "'a sim_world"
    by (induction xs arbitrary: i w) (auto simp: Let_def case_prod_unfold)
  then show ?thesis by (simp add: refresh_def case_prod_unfold Let_def)
qed

lemma refresh_step_count [simp]: "refresh (st\<lparr>step_count := k\<rparr>) = (refresh st)\<lparr>step_count := k\<rparr>"
  by (simp add: refresh_def case_prod_unfold Let_def)


section \<open>Steps return\<close>

fun action_returns :: "'w action \<Rightarrow> bool" where
  "action_returns (Once f) \<longleftrightarrow> (\<forall>t w. \<exists>r w'. f t w = Ret (r, w'))"
| "action_returns (Stream f) \<longleftrightarrow> (\<forall>t w. \<exists>r w'. f t w = Ret (r, w'))"

lemma run_action_returns:
  assumes "action_returns a" and "\<forall>x \<in> set (actions st). action_returns (snd x)"
  shows "\<exists>r st'. run_action st t a = Ret (r, st') \<and> r \<noteq> Inl Panicked \<and> (\<forall>x \<in> set (actions st'). action_returns (snd x))"
proof (cases a)
  case (Once f)
  with assms obtain r w where "f t (world st) = Ret (r, w)" by fastforce
  with Once assms show ?thesis by (cases r) (auto simp: run_action_def)
next
  case (Stream f)
  with assms obtain r w where f: "f t (world st) = Ret (r, w)" by fastforce
  show ?thesis
  proof (cases r)
    case (Inr x)
    have sub: "\<forall>x \<in> set (map_insert k (Stream f) (actions st)). action_returns (snd x)" for k
      using map_insert_subset [of k "Stream f" "actions st"] assms Stream by auto
    with Stream f Inr assms(2) show ?thesis
      by (cases x) (auto simp: run_action_def insert_action_def Let_def split: option.split)
  qed (use Stream f assms in \<open>auto simp: run_action_def\<close>)
qed

lemma run_actions_returns:
  assumes "\<forall>x \<in> set (actions st). action_returns (snd x)"
  shows "\<exists>r st'. run_actions st = Ret (r, st') \<and> r \<noteq> Inl Panicked"
  using assms
proof (induction st rule: run_actions.induct)
  case (1 st)
  show ?case
  proof (cases "actions st")
    case Nil
    then show ?thesis by (simp add: run_actions.simps)
  next
    case (Cons x m)
    obtain t k a where x: "x = ((t, k), a)" by (cases x) auto
    show ?thesis
    proof (cases "t \<le> sim_time st")
      case True
      from run_action_returns [of a "st\<lparr>actions := m\<rparr>" t] "1.prems" Cons x obtain q st1 where
        q: "run_action (st\<lparr>actions := m\<rparr>) t a = Ret (q, st1)" "q \<noteq> Inl Panicked"
          "\<forall>x \<in> set (actions st1). action_returns (snd x)" by auto
      show ?thesis
      proof (cases q)
        case (Inr u)
        from "1.IH" [OF Cons x [symmetric] refl True q(1) refl Inr q(3)] True q Inr Cons x show ?thesis
          by (subst run_actions.simps) simp
      qed (use True q Cons x in \<open>subst run_actions.simps; simp\<close>)
    next
      case False
      then show ?thesis using Cons x by (subst run_actions.simps) simp
    qed
  qed
qed

lemma batch_timing_error: "batch_timing st is w = Inl e \<Longrightarrow> e \<noteq> Panicked"
  by (induction "is") (auto simp: node_timing_def Let_def split: sum.splits option.splits if_splits)

lemma execute_callback_batch_Inl:
  assumes "execute_callback_batch cbs now workers order before_commit s = Ret (Inl (BeforeCommit e), s')"
  shows "\<exists>executed s2. before_commit executed s2 = Inl e"
proof -
  have w: "workers \<noteq> 0"
  proof
    assume "workers = 0"
    with assms show False by (simp add: execute_callback_batch_def)
  qed
  obtain prepared s1 where 1: "prepare_batch cbs s = Ret (prepared, s1)"
    using assms w by (auto simp: execute_callback_batch_def)
  obtain q s2 where 2: "run_prepared_batch (map snd prepared) now (order (length prepared)) s1 = Ret (q, s2)"
    using assms w 1 by (auto simp: execute_callback_batch_def Let_def)
  show ?thesis
    using assms w 1 2
    by (cases q; cases "before_commit (map fst prepared) s2")
      (auto simp: execute_callback_batch_def Let_def split: prod.splits)
qed

lemma run_batch_returns:
  assumes "sim_shape st" and "pools_fit st" and ops: "\<forall>cb \<in> set (sim_callbacks st). ops_return (sim_ops cb)"
    and order: "\<forall>n. set (order n) \<subseteq> {..<n}"
  shows "\<exists>r st'. run_batch order st = Ret (r, st') \<and> r \<noteq> Inl Panicked"
proof (rule run_batch_unfold [OF assms(1,2)])
  fix selected
  assume sub: "subseq selected (map snd (candidates st))"
    and eq: "\<And>order. run_batch order st = settle_batch order st selected selected"
  let ?cbs = "map (\<lambda>i. (i, sim_ops (sim_callbacks st ! i))) selected"
  let ?timing = "batch_timing (st\<lparr>sim_nodes := clear_ready selected (sim_nodes st)\<rparr>)"
  have "\<forall>(_, cb) \<in> set ?cbs. quiet_callback (\<lambda>_. True) (\<lambda>_ _. True) (sim_time st) cb"
  proof
    fix c assume "c \<in> set ?cbs"
    then obtain i where i: "i \<in> set selected" "c = (i, sim_ops (sim_callbacks st ! i))" by auto
    then have "i < length (sim_callbacks st)"
      using subseq_facts [OF sub] candidates_indices [of i st] assms(1) by (auto simp: sim_shape_def)
    with i ops show "case c of (_, cb) \<Rightarrow> quiet_callback (\<lambda>_. True) (\<lambda>_ _. True) (sim_time st) cb"
      by (auto intro: ops_return_quiet)
  qed
  from returning.execute_batch_law [OF this order, where st = "world st"
      and workers = "node_executor_thread_count (sim_configuration st)" and before_commit = ?timing] obtain r w where
    r: "execute_callback_batch ?cbs (sim_time st) (node_executor_thread_count (sim_configuration st)) order ?timing (world st)
      = Ret (r, w)" by auto
  have err: "e' \<noteq> Panicked" if "r = Inl (BeforeCommit e')" for e'
    using execute_callback_batch_Inl [OF r [unfolded that]] batch_timing_error by blast
  show ?thesis
  proof (cases r)
    case (Inl e)
    then have "batch_step_error (sim_names st) e \<noteq> Panicked" using err by (cases e) auto
    with Inl r show ?thesis by (simp add: eq settle_batch_def Let_def)
  qed (use r in \<open>auto simp: eq settle_batch_def Let_def\<close>)
qed

lemma step_returns:
  assumes inv: "sim_inv st" and "\<forall>cb \<in> set (sim_callbacks st). ops_return (sim_ops cb)"
    and "\<forall>x \<in> set (actions st). action_returns (snd x)" and order: "\<forall>n. set (order n) \<subseteq> {..<n}"
  shows "\<exists>r st'. step order st = Ret (r, st') \<and> r \<noteq> Inl Panicked"
proof -
  from run_actions_returns [OF assms(3)] obtain r st1 where 1: "run_actions st = Ret (r, st1)" "r \<noteq> Inl Panicked" by blast
  have "\<exists>r st'. step_inner order st = Ret (r, st') \<and> r \<noteq> Inl Panicked"
  proof (cases r)
    case (Inr u)
    have ok: "actions_only st st1 \<and> actions_ok (sim_time st1) (action_sequence st1) (actions st1)"
      using run_actions_ok [OF 1(1)] inv by (simp add: sim_inv_def)
    then have inv1: "sim_inv st1" using sim_inv_frame [OF inv] by blast
    let ?r1 = "refresh st1"
    have r1: "sim_shape ?r1" "pools_fit ?r1" using inv1 by (simp_all add: sim_inv_def refresh_keeps pools_fit_refresh)
    from run_batch_returns [OF r1 _ order] assms(2) ok obtain q st2 where
      2: "run_batch order ?r1 = Ret (q, st2)" "q \<noteq> Inl Panicked" by (auto simp: actions_only_def)
    show ?thesis
    proof (cases q)
      case (Inr executed)
      have "sim_shape st2 \<and> pools_fit st2"
        using run_batch_law [OF r1 _ 2(1) [unfolded Inr]] refresh_ready_not_busy [of st1] refresh_sim_nodes(1) [of st1] inv1
        by (auto simp: sim_inv_def)
      then have "sim_shape (refresh st2)" "pools_fit (refresh st2)" by (simp_all add: refresh_keeps pools_fit_refresh)
      from advance_law [OF this] next_event_Some pools_fit_later [OF this(2)] this obtain st3 where
        3: "advance (refresh st2) = Ret st3" "sim_shape st3" "pools_fit st3"
        by (metis order_less_imp_le sim_shape_time)
      then have "free_threads (refresh st3) \<noteq> Panic"
        "\<exists>free. free_threads (refresh st3) = Ret free"
        using free_threads_exact [of "refresh st3"] by (simp_all add: refresh_keeps pools_fit_refresh)
      with 1 2 3 Inr \<open>r = Inr u\<close> show ?thesis by (auto simp: step_inner_def conclude_def)
    qed (use 1 2 \<open>r = Inr u\<close> in \<open>auto simp: step_inner_def\<close>)
  qed (use 1 in \<open>auto simp: step_inner_def\<close>)
  then obtain r st' where r: "step_inner order st = Ret (r, st')" "r \<noteq> Inl Panicked" by blast
  show ?thesis
    by (cases "failed st"; cases r) (use r in \<open>simp_all add: step_def\<close>)
qed


section \<open>Facts for the properties\<close>

lemma step_count_simps [simp]:
  "free_threads (st\<lparr>step_count := k\<rparr>) = free_threads st" "runnable (st\<lparr>step_count := k\<rparr>) free = runnable st free"
  "has_future (st\<lparr>step_count := k\<rparr>) = has_future st" "event_times (st\<lparr>step_count := k\<rparr>) = event_times st"
  "next_event (st\<lparr>step_count := k\<rparr>) = next_event st" "sim_shape (st\<lparr>step_count := k\<rparr>) = sim_shape st"
  by (simp_all add: free_threads_def runnable_def has_future_def event_times_def next_event_def sim_shape_def
      cong: option.case_cong)

lemma conclude_eq:
  assumes "conclude before executed st = Ret (res, st')"
  shows "\<exists>free. free_threads st = Ret free \<and> (step_idle res \<longleftrightarrow> \<not> runnable st free \<and> \<not> has_future st)
    \<and> st' = st\<lparr>step_count := min (step_count st + 1) usize_max\<rparr>"
proof -
  obtain free where "free_threads st = Ret free" using assms by (auto simp: conclude_def)
  with assms show ?thesis by (auto simp: conclude_def)
qed

lemma sim_reachable_inv:
  assumes "sim_reachable g c st"
  shows "failed st \<or> sim_inv st"
  using assms
proof induction
  case (built s st)
  then show ?case by (simp add: with_config_inv)
next
  case (scheduled st t a r st')
  then show ?case
    by (cases "failed st") (auto simp: insert_action_def [of st] dest: insert_action_inv)
next
  case (stepped st order r st')
  show ?case
  proof (cases r)
    case (Inl e)
    then have "failed st'" using stepped.hyps(2)
      by (auto simp: step_def split: if_splits outcome.splits prod.splits sum.splits)
    then show ?thesis ..
  next
    case (Inr res)
    then have run: "step order st = Ret (Inr res, st')" using stepped.hyps(2) by simp
    with stepped.IH step_Inr [OF run] have inv: "sim_inv st" by blast
    have "sim_inv st'" by (rule step_law [OF inv run])
    then show ?thesis ..
  qed
next
  case (outside st w)
  then show ?case
    by (auto simp: sim_inv_def sim_shape_def pools_fit_def pool_busy_def)
qed

text \<open>Events are not in the future when there is no next one.\<close>

lemma no_future:
  assumes "next_event st = None" and "\<forall>((t, _), _) \<in> set (actions st). sim_time st < t"
  shows "\<not> has_future st"
proof -
  note none = next_event_None [OF assms(1)]
  have "actions st = []"
  proof (cases "actions st")
    case (Cons x m)
    obtain t k a where x: "x = ((t, k), a)" by (cases x) auto
    then have "t \<in> set (event_times st)" using Cons by (simp add: event_times_def)
    then have "t \<le> sim_time st" using none by blast
    moreover have "sim_time st < t" using assms(2) Cons x by simp
    ultimately show ?thesis by simp
  qed
  moreover have "busy_until n \<le> sim_time st" "\<And>t. node_next n = Some t \<Longrightarrow> t \<le> sim_time st" if "n \<in> set (sim_nodes st)" for n
    using none event_times_nodes [OF that] by blast+
  ultimately show ?thesis
    by (simp add: has_future_def not_less [symmetric] split: option.split)
qed

lemma has_future_none:
  assumes "\<not> has_future st"
  shows "next_event st = None" and "actions st = []" and "pool_busy st p = {}"
proof -
  show "actions st = []" using assms by (simp add: has_future_def)
  with assms show "next_event st = None"
    by (intro next_event_NoneI) (force simp: event_times_def has_future_def not_less split: option.splits)
  show "pool_busy st p = {}" using assms by (auto simp: pool_busy_def has_future_def)
qed

lemma batch_of_empty: "batch_of (rank_of n []) = []"
  by (rule batch_of_rank) simp_all

lemma candidates_empty:
  assumes "candidates st = []" and "n \<in> set (sim_nodes st)"
  shows "ready_since n = None"
proof -
  from assms(2) obtain i where "i < length (sim_nodes st)" "sim_nodes st ! i = n" by (auto simp: in_set_conv_nth)
  with candidates_facts(3) [of _ i st] assms(1) show ?thesis by (cases "ready_since n") auto
qed

lemma runnable_idle:
  assumes "sim_shape st" and "pools_fit st" and "\<not> has_future st" and "free_threads st = Ret free" and "\<not> runnable st free"
  shows "candidates st = []"
proof -
  let ?threads = "virtual_pool_threads (sim_configuration st)"
  have free: "free = ?threads"
    using free_threads_exact [OF assms(1,2)] assms(4) has_future_none(3) [OF assms(3)] map_nth [of ?threads] by simp
  have "ready_since (sim_nodes st ! i) = None" if i: "i < length (sim_nodes st)" for i
  proof -
    have len: "length (sim_schedules st) = length (sim_nodes st)" using assms(1) by (simp add: sim_shape_def)
    with i have "(sim_nodes st ! i, sim_schedules st ! i) \<in> set (zip (sim_nodes st) (sim_schedules st))"
      by (force simp: in_set_zip)
    moreover have "schedule_pool (sim_schedules st ! i) < length ?threads"
      using assms(1) i len by (simp add: sim_shape_def)
    then have "?threads ! schedule_pool (sim_schedules st ! i) \<noteq> 0"
      using assms(1) nth_mem [of "schedule_pool (sim_schedules st ! i)" ?threads]
      by (metis config_error_def sim_shape_def)
    ultimately show ?thesis using assms(5) free unfolding runnable_def by blast
  qed
  then have none: "i \<notin> set (map snd (candidates st))" for i unfolding candidates_indices by simp
  show ?thesis
  proof (cases "candidates st")
    case (Cons x xs)
    with none [of "snd x"] show ?thesis by simp
  qed
qed


section \<open>An example\<close>

text \<open>One callback that runs at the start and takes two nanoseconds.\<close>

definition tick_callback :: "nat sim_callback" where
  "tick_callback = \<lparr>sim_ops = \<lparr>update_inputs = Ret, required_inputs_ready = (\<lambda>_. True),
       required_inputs_available = (\<lambda>_. True), run_body = (\<lambda>_ w. Ret (BodyOk, w\<lparr>shared := shared w + 1\<rparr>)),
       finish_inputs = Ret, flush_outputs = (\<lambda>_. Ret), discard_outputs = Ret\<rparr>,
     sim_has_triggering_inputs = (\<lambda>_. False), sim_set_waker = (\<lambda>_. Ret), sim_has_pending_inputs = (\<lambda>_. False)\<rparr>"

definition tick_graph :: "nat sim_callback built_graph" where
  "tick_graph = \<lparr>graph_callbacks = [\<lparr>cb_name = ''tick'', cb_callback = tick_callback,
       cb_schedule = with_execution_duration on_start 2\<rparr>],
     metadata = \<lparr>channel_names = interner_new, callback_names = interner_new\<rparr>\<rparr>"

definition tick_start :: "nat simulation" where
  "tick_start = \<lparr>sim_callbacks = [tick_callback], sim_names = [''tick''],
     sim_schedules = [with_execution_duration on_start 2],
     sim_nodes = [\<lparr>input_requested = False, node_requested = True, ready_since = None, busy_until = from_nanos 0,
       node_next = Some (from_nanos 0)\<rparr>],
     sim_metadata = \<lparr>channel_names = interner_new, callback_names = interner_new\<rparr>,
     sim_configuration = config_default, sim_time = from_nanos 0, step_count = 0, failed = False, actions = [],
     action_sequence = 0, world = \<lparr>notifications = [(False, False)], timers = True, shared = 0\<rparr>\<rparr>"

definition tick_end :: "nat simulation" where
  "tick_end = tick_start\<lparr>
     sim_nodes := [\<lparr>input_requested = False, node_requested = False, ready_since = None, busy_until = from_nanos 2,
       node_next = None\<rparr>],
     sim_time := from_nanos 2, step_count := 1, world := (world tick_start)\<lparr>shared := 1\<rparr>\<rparr>"

lemma tick_reachable: "sim_reachable tick_graph config_default tick_start"
  by (rule built [where s = 0])
    (simp add: with_config_def config_error_def config_default_def tick_graph_def push_node_def node_error_def
      tick_callback_def first_deadline_def with_execution_duration_def on_start_def input_triggered_def Let_def
      has_execution_duration_def is_ever_runnable_def tick_start_def from_nanos_def INVALID_def i64_defs)

lemma tick_returns:
  "ops_return (sim_ops tick_callback)" "inputs_only tick_callback"
  by (simp_all add: ops_return_def inputs_only_def tick_callback_def)

abbreviation tick_node :: "bool \<Rightarrow> framework_time option \<Rightarrow> framework_time \<Rightarrow> framework_time option \<Rightarrow> sim_node" where
  "tick_node r since b nxt \<equiv> \<lparr>input_requested = False, node_requested = r, ready_since = since, busy_until = b,
     node_next = nxt\<rparr>"

lemmas tick_defs = tick_start_def tick_callback_def config_default_def with_execution_duration_def on_start_def
  input_triggered_def from_nanos_def time_order

lemma tick_refresh:
  "refresh tick_start = tick_start\<lparr>sim_nodes := [tick_node True (Some (from_nanos 0)) (from_nanos 0) (Some (from_nanos 0))]\<rparr>"
  by (simp add: refresh_def refresh_node_def tick_defs)

lemma tick_batch:
  "run_batch (\<lambda>n. [0..<n]) (refresh tick_start) = Ret (Inr [0], tick_start\<lparr>
     sim_nodes := [tick_node False None (from_nanos 2) None], world := (world tick_start)\<lparr>shared := 1\<rparr>\<rparr>)"
  unfolding tick_refresh
  by (simp add: run_batch_def free_threads_def tick_defs candidates_def List.map_filter_simps rank_of_def batch_of_def
      settle_batch_def clear_ready_def execute_callback_batch_def prepare_callback_def run_prepared_batch_def
      run_prepared_def upt_rec commit_callback_def invocation_drop_def node_timing_def schedule_duration_def
      checked_add_duration_def next_after_def past_deadline_def record_timing_def i64_defs i128_range_def)

lemma tick_step:
  "step (\<lambda>n. [0..<n]) tick_start = Ret (Inr \<lparr>step_before = from_nanos 0, step_after = from_nanos 2,
     step_executed = [0], step_idle = True\<rparr>, tick_end)"
proof -
  let ?ran = "tick_start\<lparr>sim_nodes := [tick_node False None (from_nanos 2) None], world := (world tick_start)\<lparr>shared := 1\<rparr>\<rparr>"
  have 1: "run_actions tick_start = Ret (Inr (), tick_start)" by (simp add: run_actions.simps tick_start_def)
  have 2: "refresh ?ran = ?ran" by (simp add: refresh_def refresh_node_def tick_defs)
  have 3: "advance ?ran = Ret (?ran\<lparr>sim_time := from_nanos 2\<rparr>)"
    by (simp add: advance_def free_threads_def next_event_def event_times_def runnable_def take_thread_def tick_defs)
  have 4: "refresh (?ran\<lparr>sim_time := from_nanos 2\<rparr>) = ?ran\<lparr>sim_time := from_nanos 2\<rparr>"
    by (simp add: refresh_def refresh_node_def tick_defs)
  have 5: "conclude (sim_time tick_start) [0] (?ran\<lparr>sim_time := from_nanos 2\<rparr>) = Ret (\<lparr>step_before = from_nanos 0,
      step_after = from_nanos 2, step_executed = [0], step_idle = True\<rparr>, tick_end)"
    by (simp add: conclude_def free_threads_def runnable_def has_future_def tick_end_def usize_max_def tick_defs)
  have "step_inner (\<lambda>n. [0..<n]) tick_start = Ret (Inr \<lparr>step_before = from_nanos 0,
      step_after = from_nanos 2, step_executed = [0], step_idle = True\<rparr>, tick_end)"
    by (simp only: step_inner_def 1 tick_batch 2 3 4 5 and_then.simps prod.case sum.case)
  then show ?thesis by (simp add: step_def tick_start_def)
qed

lemma admissible_order: "\<forall>n. batch_order k n [0..<n]"
  by (auto simp: batch_order_def intro!: sorted_filter [of "\<lambda>x. x", simplified])

lemma tick_facts:
  "\<not> failed tick_start" "sim_callbacks tick_start = [tick_callback]" "actions tick_start = []"
  "length (notifications (world tick_end)) = 1" "actions tick_end = []" "sim_time tick_start = from_nanos 0"
  "sim_time tick_end = from_nanos 2"
  by (simp_all add: tick_start_def tick_end_def)



section \<open>Properties\<close>

text \<open>
  C5: A simulation keeps its books. In every reachable state that is not poisoned, whatever the
  callbacks, actions and the outside did to the world, no virtual pool has more busy callbacks than
  threads and no scheduled action lies in the past. From such a state, if the operations of the
  callbacks and the actions return, a step returns and is not reported as panicked, for every number
  of real workers and every admissible order of the bodies: the checked subtraction of free threads
  does not underflow and no index is out of range.
\<close>

theorem simulation_sound:
  assumes "sim_reachable g c st" and "\<not> failed st"
  shows "(\<forall>p < length (virtual_pool_threads (sim_configuration st)).
      card (pool_busy st p) \<le> virtual_pool_threads (sim_configuration st) ! p)
    \<and> (\<forall>((t, _), _) \<in> set (actions st). sim_time st \<le> t)
    \<and> (\<forall>order. (\<forall>n. batch_order (node_executor_thread_count (sim_configuration st)) n (order n)) \<longrightarrow>
        (\<forall>cb \<in> set (sim_callbacks st). ops_return (sim_ops cb)) \<longrightarrow> (\<forall>x \<in> set (actions st). action_returns (snd x)) \<longrightarrow>
        (\<exists>r st'. step order st = Ret (r, st') \<and> r \<noteq> Inl Panicked))"
proof -
  have inv: "sim_inv st" using sim_reachable_inv [OF assms(1)] assms(2) by blast
  then have "\<forall>p < length (virtual_pool_threads (sim_configuration st)).
      card (pool_busy st p) \<le> virtual_pool_threads (sim_configuration st) ! p"
    and "\<forall>((t, _), _) \<in> set (actions st). sim_time st \<le> t"
    by (auto simp: sim_inv_def pools_fit_def actions_ok_def)
  with step_returns [OF inv] show ?thesis by (simp add: batch_order_def)
qed

theorem simulation_sound_witness:
  "\<exists>r st'. step (\<lambda>n. [0..<n]) tick_start = Ret (r, st') \<and> r \<noteq> Inl Panicked"
  using simulation_sound [OF tick_reachable tick_facts(1)] admissible_order tick_returns tick_facts(2,3) by auto

text \<open>
  C10: Time advances to the next event and skips none. A successful step starts at the current time
  and never goes back. No completion, deadline or action of the resulting state lies strictly
  between the old and the new time, actions that were due have run, and a new time is the time of
  one of these events. A step that is not idle makes progress: the time advanced, or some callback
  is ready and has a free thread.
\<close>

theorem step_advances_to_next_event:
  assumes "sim_reachable g c st" and run: "step order st = Ret (Inr res, st')"
    and quiet: "\<forall>cb \<in> set (sim_callbacks st). inputs_only cb"
    and cells: "length (notifications (world st')) = length (sim_callbacks st)"
  shows "step_before res = sim_time st \<and> step_after res = sim_time st' \<and> sim_time st \<le> sim_time st'
    \<and> (\<forall>n \<in> set (sim_nodes st'). \<forall>t. busy_until n = t \<or> node_next n = Some t \<longrightarrow> t \<le> sim_time st \<or> sim_time st' \<le> t)
    \<and> (\<forall>((t, _), _) \<in> set (actions st'). sim_time st < t \<and> sim_time st' \<le> t)
    \<and> (sim_time st < sim_time st' \<longrightarrow> sim_time st' \<in> set (event_times st'))
    \<and> (step_idle res \<or> sim_time st < sim_time st' \<or> (\<exists>free. free_threads st' = Ret free \<and> runnable st' free))"
proof -
  have inv: "sim_inv st" using sim_reachable_inv [OF assms(1)] step_Inr [OF run] by blast
  obtain st3 executed where inv': "sim_inv st'" and shape3: "sim_shape st3"
    and st': "st' = (refresh st3)\<lparr>step_count := step_count st'\<rparr>"
    and time: "step_before res = sim_time st" "step_after res = sim_time st'" "sim_time st \<le> sim_time st'"
    and acts: "\<forall>((t, _), _) \<in> set (actions st'). sim_time st < t"
    and events: "\<forall>u \<in> set (event_times st'). u \<le> sim_time st \<or> sim_time st' \<le> u"
      "sim_time st < sim_time st' \<Longrightarrow> sim_time st' \<in> set (event_times st')"
    and fin: "conclude (sim_time st) executed (refresh st3) = Ret (res, st')"
    and stay: "sim_time st = sim_time st' \<Longrightarrow> \<exists>st2 free. sim_shape st2 \<and> st3 = refresh st2 \<and> free_threads st3 = Ret free
      \<and> (runnable st3 free \<or> next_event st3 = None)"
    and cbs: "sim_callbacks st' = sim_callbacks st"
    by (rule step_law [OF inv run]) blast
  have "step_idle res \<or> (\<exists>free. free_threads st' = Ret free \<and> runnable st' free)" if eq: "sim_time st = sim_time st'"
  proof -
    from stay [OF eq] obtain st2 free where s: "sim_shape st2" "st3 = refresh st2" "free_threads st3 = Ret free"
      "runnable st3 free \<or> next_event st3 = None" by blast
    have same: "sim_callbacks st' = sim_callbacks st2" "length (notifications (world st')) = length (notifications (world st2))"
      by (subst st'; simp add: s(2) refresh_notifications)+
    have "refresh st3 = st3"
      using refresh_again [OF s(1)] quiet cells s(1) same cbs by (simp add: s(2) sim_shape_def)
    with st' fin have st'3: "st' = st3\<lparr>step_count := step_count st'\<rparr>" and f: "conclude (sim_time st) executed st3 = Ret (res, st')"
      by simp_all
    have "actions st3 = actions st'" "sim_time st3 = sim_time st'" by (subst st'3; simp)+
    with acts eq have "next_event st3 = None \<Longrightarrow> \<not> has_future st3" using no_future [of st3] by simp
    with conclude_eq [OF f] s(3,4) show ?thesis by auto
  qed
  moreover have "\<forall>((t, _), _) \<in> set (actions st'). sim_time st' \<le> t"
    using inv' by (auto simp: sim_inv_def actions_ok_def)
  moreover have "t \<le> sim_time st \<or> sim_time st' \<le> t"
    if "n \<in> set (sim_nodes st')" "busy_until n = t \<or> node_next n = Some t" for n t
    using that events(1) event_times_nodes [OF that(1)] by blast
  ultimately show ?thesis
    using time acts events(2) by (auto simp: le_less)
qed

theorem step_advances_to_next_event_witness:
  "step (\<lambda>n. [0..<n]) tick_start = Ret (Inr \<lparr>step_before = from_nanos 0, step_after = from_nanos 2,
     step_executed = [0], step_idle = True\<rparr>, tick_end)
   \<and> from_nanos 2 \<in> set (event_times tick_end)"
  using step_advances_to_next_event [OF tick_reachable tick_step] tick_returns tick_facts tick_step
  by (simp add: from_nanos_def time_order)



text \<open>
  Callbacks are selected by readiness. The candidates are the ready callbacks in the order of
  the time since when they are ready, then of their index. Each pool takes as many of its
  candidates as it has free threads, the first ones in this order, so that none waits while a
  thread of its pool stays free; the batch consists of them in the same order.
\<close>

theorem selection_by_readiness:
  assumes "sim_reachable g c st" and "\<not> failed st"
  shows "\<exists>free selected. free_threads st = Ret free
    \<and> select (sim_schedules st) free (map snd (candidates st)) = Ret selected
    \<and> batch_of (rank_of (length (sim_callbacks st)) selected) = selected
    \<and> sorted (candidates st) \<and> distinct (map snd (candidates st))
    \<and> (\<forall>t i. (t, i) \<in> set (candidates st) \<longleftrightarrow> i < length (sim_nodes st) \<and> ready_since (sim_nodes st ! i) = Some t)
    \<and> subseq selected (map snd (candidates st))
    \<and> (\<forall>p < length free. free ! p + card (pool_busy st p) = virtual_pool_threads (sim_configuration st) ! p
        \<and> filter (\<lambda>i. schedule_pool (sim_schedules st ! i) = p) selected
          = take (free ! p) (filter (\<lambda>i. schedule_pool (sim_schedules st ! i) = p) (map snd (candidates st))))"
proof -
  have "sim_shape st" "pools_fit st" using sim_reachable_inv [OF assms(1)] assms(2) by (simp_all add: sim_inv_def)
  then show ?thesis
  proof (rule selection_law)
    fix free selected
    assume s: "free_threads st = Ret free" "select (sim_schedules st) free (map snd (candidates st)) = Ret selected"
      "batch_of (rank_of (length (sim_callbacks st)) selected) = selected" "subseq selected (map snd (candidates st))"
      "\<And>p. p < length free \<Longrightarrow> free ! p + card (pool_busy st p) = virtual_pool_threads (sim_configuration st) ! p"
      "\<And>p. p < length free \<Longrightarrow> filter (\<lambda>i. schedule_pool (sim_schedules st ! i) = p) selected
        = take (free ! p) (filter (\<lambda>i. schedule_pool (sim_schedules st ! i) = p) (map snd (candidates st)))"
    show ?thesis
      by (intro exI [of _ free] exI [of _ selected] conjI allI impI s candidates_facts)
  qed
qed

theorem selection_by_readiness_witness:
  "\<exists>free selected. free_threads tick_start = Ret free
    \<and> select (sim_schedules tick_start) free (map snd (candidates tick_start)) = Ret selected
    \<and> batch_of (rank_of (length (sim_callbacks tick_start)) selected) = selected"
  using selection_by_readiness [OF tick_reachable tick_facts(1)] by blast

lemma sorted_fst: "sorted ps \<Longrightarrow> sorted (map fst (ps :: ('a :: linorder \<times> 'b :: linorder) list))"
  by (induction ps) (auto simp: less_eq_prod_def)

text \<open>
  C19: The loop over due actions ends. It runs the actions that are due when it starts, each once,
  in the order of time and then of scheduling, up to the first that fails, and no other: a streaming
  action can only schedule itself for the future. When it ends without error, all actions left are
  in the future.
\<close>

theorem due_actions_run_once:
  assumes "sim_reachable g c st" and "\<not> failed st"
  shows "let is_due = \<lambda>((t, _), _). t \<le> sim_time st in
      run_actions st = run_each (takeWhile is_due (actions st)) (st\<lparr>actions := dropWhile is_due (actions st)\<rparr>)
    \<and> sorted (map fst (takeWhile is_due (actions st)))
    \<and> takeWhile is_due (actions st) = filter is_due (actions st)
    \<and> (\<forall>st'. run_actions st = Ret (Inr (), st') \<longrightarrow> (\<forall>((t, _), _) \<in> set (actions st'). sim_time st < t))"
proof -
  let ?due = "\<lambda>((t, _), _). t \<le> sim_time st"
  have ok: "actions_ok (sim_time st) (action_sequence st) (actions st)"
    using sim_reachable_inv [OF assms(1)] assms(2) by (simp add: sim_inv_def)
  then have sorted: "sorted_wrt (<) (map fst (actions st))" by (simp add: actions_ok_def)
  then have sorted': "sorted (map fst (actions st))" by (rule strict_sorted_imp_sorted)
  have times: "sorted (map (fst \<circ> fst) (actions st))"
  proof -
    have "sorted (map fst (map fst (actions st)))" using sorted' by (rule sorted_fst)
    then show ?thesis by simp
  qed
  have due: "?due = (\<lambda>x. (fst \<circ> fst) x \<le> sim_time st)" by (simp add: fun_eq_iff case_prod_unfold)
  note split = sorted_take_due [OF times, of "sim_time st", folded due]
  have "run_actions (st\<lparr>actions := takeWhile ?due (actions st) @ dropWhile ?due (actions st)\<rparr>)
      = run_each (takeWhile ?due (actions st)) (st\<lparr>actions := dropWhile ?due (actions st)\<rparr>)"
  proof (rule run_actions_each)
    show "\<forall>((t, _), _) \<in> set (takeWhile ?due (actions st)). t \<le> sim_time st"
      by (auto dest!: set_takeWhileD)
    show "\<forall>((t, _), _) \<in> set (dropWhile ?due (actions st)). sim_time st < t"
      using split(2) by (simp add: case_prod_unfold)
  qed
  then have "run_actions st = run_each (takeWhile ?due (actions st)) (st\<lparr>actions := dropWhile ?due (actions st)\<rparr>)" by simp
  moreover have "sorted (map fst (takeWhile ?due (actions st)))"
    unfolding split(1) by (rule sorted_filter [OF sorted'])
  moreover have "\<forall>((t, _), _) \<in> set (actions st'). sim_time st < t" if "run_actions st = Ret (Inr (), st')" for st'
    using run_actions_ok [OF that ok] by (auto simp: actions_only_def)
  ultimately show ?thesis using split(1) unfolding Let_def by blast
qed

text \<open>An action scheduled for the start.\<close>

definition tick_action :: "nat action" where
  "tick_action = Once (\<lambda>_ w. Ret (Inr (), w\<lparr>shared := 7\<rparr>))"

theorem due_actions_run_once_witness:
  "let st = snd (insert_action tick_start (from_nanos 0) tick_action) in
     run_actions st = run_each [((from_nanos 0, 0), tick_action)] (st\<lparr>actions := []\<rparr>)"
proof -
  let ?st = "snd (insert_action tick_start (from_nanos 0) tick_action)"
  have st: "?st = tick_start\<lparr>action_sequence := 1, actions := [((from_nanos 0, 0), tick_action)]\<rparr>"
    by (simp add: insert_action_def tick_start_def checked_usize_def usize_max_def)
  have "sim_reachable tick_graph config_default ?st"
    by (rule scheduled [OF tick_reachable, of "from_nanos 0" tick_action]) (rule prod.collapse [symmetric])
  moreover have "\<not> failed ?st" unfolding st by (simp add: tick_start_def)
  ultimately show ?thesis
    using due_actions_run_once [of tick_graph config_default ?st] unfolding st Let_def by (simp add: tick_start_def)
qed

text \<open>
  C18: Idle means that nothing is left to do. After a step that reports idle there is no scheduled
  action, no running callback and no deadline ahead, and unless the outside changes the world every
  further step executes nothing, leaves the time alone and reports idle again.
\<close>

theorem idle_step_is_stable:
  assumes "sim_reachable g c st" and run: "step order st = Ret (Inr res, st')" and idle: "step_idle res"
    and quiet: "\<forall>cb \<in> set (sim_callbacks st). inputs_only cb"
    and cells: "length (notifications (world st')) = length (sim_callbacks st)"
    and order: "order' 0 = []"
  shows "actions st' = [] \<and> (\<forall>n \<in> set (sim_nodes st'). busy_until n \<le> sim_time st'
        \<and> (\<forall>t. node_next n = Some t \<longrightarrow> t \<le> sim_time st') \<and> ready_since n = None)
    \<and> step order' st' = Ret (Inr \<lparr>step_before = sim_time st', step_after = sim_time st', step_executed = [],
        step_idle = True\<rparr>, st'\<lparr>step_count := min (step_count st' + 1) usize_max\<rparr>)"
proof -
  have inv: "sim_inv st" using sim_reachable_inv [OF assms(1)] step_Inr [OF run] by blast
  obtain st3 executed where inv': "sim_inv st'" and shape3: "sim_shape st3"
    and st': "st' = (refresh st3)\<lparr>step_count := step_count st'\<rparr>"
    and fin: "conclude (sim_time st) executed (refresh st3) = Ret (res, st')"
    and cbs: "sim_callbacks st' = sim_callbacks st" and live: "failed st' = failed st"
    by (rule step_law [OF inv run]) blast
  have shape: "sim_shape st'" "pools_fit st'" using inv' by (simp_all add: sim_inv_def)
  from conclude_eq [OF fin] idle obtain free where "free_threads (refresh st3) = Ret free"
    "\<not> runnable (refresh st3) free" "\<not> has_future (refresh st3)" by blast
  then have f: "free_threads st' = Ret free" "\<not> runnable st' free" and fut: "\<not> has_future st'"
    by (subst st'; simp)+
  have cand: "candidates st' = []" using runnable_idle [OF shape fut f] .
  have same: "sim_callbacks st' = sim_callbacks st3" "length (notifications (world st')) = length (notifications (world st3))"
    by (subst st'; simp add: refresh_notifications)+
  have "refresh (refresh st3) = refresh st3"
    using refresh_again [OF shape3] quiet cells same cbs shape3 by (simp add: sim_shape_def)
  then have again: "refresh st' = st'" by (subst st', subst (2) st') simp
  have live: "\<not> failed st'" using live step_Inr [OF run] by simp
  have workers: "node_executor_thread_count (sim_configuration st') \<noteq> 0"
    using shape by (simp add: sim_shape_def config_error_def)
  have acts: "run_actions st' = Ret (Inr (), st')"
    using has_future_none(2) [OF fut] by (simp add: run_actions.simps)
  have batch: "run_batch order' st' = Ret (Inr [], st')"
    using workers order
    by (simp add: run_batch_def f(1) cand batch_of_empty settle_batch_def execute_callback_batch_def
        run_prepared_batch_def clear_ready_def record_timing_def)
  have adv: "advance st' = Ret st'"
    by (simp add: advance_def f(1) has_future_none(1) [OF fut])
  have "step_inner order' st' = Ret (Inr \<lparr>step_before = sim_time st', step_after = sim_time st', step_executed = [],
        step_idle = True\<rparr>, st'\<lparr>step_count := min (step_count st' + 1) usize_max\<rparr>)"
    by (simp add: step_inner_def acts again batch adv conclude_def f fut)
  then have "step order' st' = Ret (Inr \<lparr>step_before = sim_time st', step_after = sim_time st', step_executed = [],
        step_idle = True\<rparr>, st'\<lparr>step_count := min (step_count st' + 1) usize_max\<rparr>)"
    using live by (simp add: step_def)
  moreover have "busy_until n \<le> sim_time st'" "\<And>t. node_next n = Some t \<Longrightarrow> t \<le> sim_time st'"
    if "n \<in> set (sim_nodes st')" for n
    using fut that by (auto simp: has_future_def not_less)
  moreover have "ready_since n = None" if "n \<in> set (sim_nodes st')" for n
    using candidates_empty [OF cand that] .
  ultimately show ?thesis using has_future_none(2) [OF fut] by blast
qed

theorem idle_step_is_stable_witness:
  "step (\<lambda>n. [0..<n]) tick_end = Ret (Inr \<lparr>step_before = from_nanos 2, step_after = from_nanos 2,
     step_executed = [], step_idle = True\<rparr>, tick_end\<lparr>step_count := 2\<rparr>)"
  using idle_step_is_stable [OF tick_reachable tick_step, of "\<lambda>n. [0..<n]"] tick_returns tick_facts
  by (simp add: tick_end_def usize_max_def)


end
