(* ===== verification/Log_Stream.thy ===== *)
theory Log_Stream
  imports Message_Store "HOL-Library.Product_Lexorder"
begin

text \<open>
  \<open>logging/src/sorted_log_stream.rs\<close>: a log of JSON lines is validated, sorted by time in bounded
  memory with runs on disk, and read as a stream.

  A run file is the list of its entries. Decoding a line and encoding an artifact are serde's; the
  codec is a parameter. File-system failures while the runs are written are left out; reading a run
  later may fail, so a file source is a list of read results.
\<close>

section \<open>Entries\<close>

type_synonym line = "nat list" \<comment> \<open>Unicode scalar values\<close>

datatype log_read_error =
  LogIo string
| LogJson nat string
| CorruptRun string
| LogInvalid string
| LogPoisoned

text \<open>The \<open>Display\<close> of an error; that of an underlying error is its text.\<close>

fun log_error_text :: "log_read_error \<Rightarrow> string" where
  "log_error_text (LogIo e) = ''log IO: '' @ e"
| "log_error_text (LogJson line_number e) = ''invalid log line '' @ dec_digits line_number @ '': '' @ e"
| "log_error_text (CorruptRun e) = ''invalid sorted run: '' @ e"
| "log_error_text (LogInvalid reason) = reason"
| "log_error_text LogPoisoned = ''log reader failed previously''"

record log_entry =
  entry_header :: message_header
  channel_name :: string
  serialized_body :: "byte list"

abbreviation entry_time :: "log_entry \<Rightarrow> framework_time" where
  "entry_time e \<equiv> published_at (entry_header e)"

datatype 'j log_row = ArtifactRow string 'j | MessageRow log_entry

text \<open>What is used of serde: parsing a row and printing the value of an artifact.\<close>

record 'j row_codec =
  parse_row :: "line \<Rightarrow> string + 'j log_row"
  value_to_vec :: "'j \<Rightarrow> string + byte list"
  value_from_slice :: "byte list \<Rightarrow> string + 'j"

record run_entry =
  run_sequence :: nat
  run_row :: log_entry

definition run_key :: "run_entry \<Rightarrow> framework_time \<times> nat" where
  "run_key r = (entry_time (run_row r), run_sequence r)"

definition log_validate :: "log_entry \<Rightarrow> log_read_error + unit" where
  "log_validate e =
     (if entry_time e = INVALID
      then Inl (LogInvalid (''invalid timestamp on '' @ [CHR 0x27] @ channel_name e @ [CHR 0x27]))
      else if channel_name e = [] then Inl (LogInvalid ''empty log channel name'')
      else Inr ())"

section \<open>External sorting\<close>

text \<open>\<open>sort_by_key\<close> is stable, as is \<open>sort_key\<close>.\<close>

definition spill :: "run_entry list \<Rightarrow> run_entry list" where
  "spill chunk = sort_key run_key chunk"

fun merge_runs :: "run_entry list \<Rightarrow> run_entry list \<Rightarrow> run_entry list" where
  "merge_runs [] [] = []"
| "merge_runs (x # xs) [] = x # merge_runs xs []"
| "merge_runs [] (y # ys) = y # merge_runs [] ys"
| "merge_runs (x # xs) (y # ys) =
     (if run_key x \<le> run_key y then x # merge_runs xs (y # ys) else y # merge_runs (x # xs) ys)"

text \<open>The levels of the binary merge hierarchy.\<close>

fun add_run :: "run_entry list option list \<Rightarrow> run_entry list \<Rightarrow> run_entry list option list" where
  "add_run [] r = [Some r]"
| "add_run (None # levels) r = Some r # levels"
| "add_run (Some previous # levels) r = None # add_run levels (merge_runs previous r)"

fun sort_loop ::
  "nat \<Rightarrow> run_entry list \<Rightarrow> run_entry list \<Rightarrow> run_entry list option list \<Rightarrow> run_entry list option list" where
  "sort_loop batch_size [] chunk levels =
     (if chunk \<noteq> [] then add_run levels (spill chunk) else levels)"
| "sort_loop batch_size (e # es) chunk levels =
     (let chunk1 = chunk @ [e] in
      if length chunk1 = batch_size then sort_loop batch_size es [] (add_run levels (spill chunk1))
      else sort_loop batch_size es chunk1 levels)"

fun merge_levels :: "run_entry list option \<Rightarrow> run_entry list option list \<Rightarrow> run_entry list option" where
  "merge_levels result [] = result"
| "merge_levels result (None # levels) = merge_levels result levels"
| "merge_levels None (Some r # levels) = merge_levels (Some r) levels"
| "merge_levels (Some previous) (Some r # levels) = merge_levels (Some (merge_runs previous r)) levels"

definition sort_run :: "run_entry list \<Rightarrow> nat \<Rightarrow> log_read_error + run_entry list" where
  "sort_run input batch_size = (case merge_levels None (sort_loop batch_size input [] []) of
     None \<Rightarrow> Inl (LogInvalid ''empty external sort input'')
   | Some r \<Rightarrow> Inr r)"

section \<open>The reader\<close>

datatype log_source =
  SourceEmpty
| SourceMemory "log_entry list"
| SourceFile "(log_read_error + run_entry) list"

record log_reader =
  log_source :: log_source
  log_channels :: "string set"
  log_artifacts :: "string \<rightharpoonup> byte list"
  entry_count :: nat
  first_time :: "framework_time option"
  peeked :: "log_entry option"
  reader_failed :: bool

definition peek_time :: "log_reader \<Rightarrow> framework_time option" where
  "peek_time r = map_option entry_time (peeked r)"

definition reader_artifact :: "log_reader \<Rightarrow> string \<Rightarrow> byte list option" where
  "reader_artifact r name = log_artifacts r name"

fun source_next :: "log_source \<Rightarrow> (log_read_error + log_entry option) \<times> log_source" where
  "source_next SourceEmpty = (Inr None, SourceEmpty)"
| "source_next (SourceMemory []) = (Inr None, SourceMemory [])"
| "source_next (SourceMemory (e # es)) = (Inr (Some e), SourceMemory es)"
| "source_next (SourceFile []) = (Inr None, SourceFile [])"
| "source_next (SourceFile (Inl x # rs)) = (Inl x, SourceFile rs)"
| "source_next (SourceFile (Inr r # rs)) = (Inr (Some (run_row r)), SourceFile rs)"

definition reader_advance :: "log_reader \<Rightarrow> (log_read_error + unit) \<times> log_reader" where
  "reader_advance r = (case source_next (log_source r) of
     (Inr e, src) \<Rightarrow> (Inr (), r\<lparr>log_source := src, peeked := e\<rparr>)
   | (Inl x, src) \<Rightarrow> (Inl x, r\<lparr>log_source := src, reader_failed := True\<rparr>))"

definition reader_initialize ::
  "log_source \<Rightarrow> string set \<Rightarrow> (string \<rightharpoonup> byte list) \<Rightarrow> nat \<Rightarrow> log_read_error + log_reader" where
  "reader_initialize src channels artifacts n = (case reader_advance \<lparr>log_source = src, log_channels = channels,
       log_artifacts = artifacts, entry_count = n, first_time = None, peeked = None, reader_failed = False\<rparr> of
     (Inl x, _) \<Rightarrow> Inl x
   | (Inr _, r) \<Rightarrow> Inr (r\<lparr>first_time := peek_time r\<rparr>))"

definition next_entry :: "log_reader \<Rightarrow> (log_read_error + log_entry option) \<times> log_reader" where
  "next_entry r =
     (if reader_failed r then (Inl LogPoisoned, r)
      else (case reader_advance (r\<lparr>peeked := None\<rparr>) of
          (Inl x, r1) \<Rightarrow> (Inl x, r1)
        | (Inr _, r1) \<Rightarrow> (Inr (peeked r), r1)))"

fun source_length :: "log_source \<Rightarrow> nat" where
  "source_length SourceEmpty = 0"
| "source_length (SourceMemory es) = length es"
| "source_length (SourceFile rs) = length rs"

definition reader_size :: "log_reader \<Rightarrow> nat" where
  "reader_size r = source_length (log_source r) + (case peeked r of None \<Rightarrow> 0 | Some _ \<Rightarrow> 1)"

lemma source_next_length: "source_next src = (q, src') \<Longrightarrow>
    source_length src = source_length src' + (case q of Inr None \<Rightarrow> 0 | _ \<Rightarrow> 1)"
  by (cases src rule: source_next.cases) auto

lemma next_entry_size:
  assumes "next_entry r = (Inr e, r')" and "peeked r \<noteq> None"
  shows "reader_size r' < reader_size r"
  using assms source_next_length [of "log_source r"]
  by (fastforce simp: next_entry_def reader_advance_def reader_size_def
      split: if_splits prod.splits sum.splits option.splits)

text \<open>The loop of \<open>read_until\<close>; an entry that was peeked is there, so the \<open>unwrap\<close> holds.\<close>

function read_until_loop ::
  "framework_time \<Rightarrow> log_reader \<Rightarrow> (log_read_error + log_entry list) \<times> log_reader" where
  "read_until_loop t r =
     (if (case peek_time r of Some u \<Rightarrow> u \<le> t | None \<Rightarrow> False)
      then (case next_entry r of
          (Inl x, r1) \<Rightarrow> (Inl x, r1)
        | (Inr e, r1) \<Rightarrow> (case read_until_loop t r1 of
            (Inl x, r2) \<Rightarrow> (Inl x, r2)
          | (Inr batch, r2) \<Rightarrow> (Inr (the e # batch), r2)))
      else (Inr [], r))"
  by pat_completeness auto
termination
  by (relation "measure (\<lambda>(t, r). reader_size r)")
    (auto intro!: next_entry_size [OF sym] simp: peek_time_def split: option.splits)

declare read_until_loop.simps [simp del]

definition read_until ::
  "log_reader \<Rightarrow> framework_time \<Rightarrow> (log_read_error + log_entry list \<times> framework_time option) \<times> log_reader" where
  "read_until r t =
     (if reader_failed r then (Inl LogPoisoned, r)
      else (case read_until_loop t r of
          (Inl x, r1) \<Rightarrow> (Inl x, r1)
        | (Inr batch, r1) \<Rightarrow> (Inr (batch, peek_time r1), r1)))"

section \<open>Construction\<close>

definition RECORDING_INCOMPLETENESS_ARTIFACT :: string where
  "RECORDING_INCOMPLETENESS_ARTIFACT = ''recording_incompleteness''"

text \<open>\<open>char::is_whitespace\<close>\<close>

definition is_whitespace :: "nat \<Rightarrow> bool" where
  "is_whitespace c \<longleftrightarrow> 9 \<le> c \<and> c \<le> 13 \<or> c = 32 \<or> c = 0x85 \<or> c = 0xA0 \<or> c = 0x1680
     \<or> 0x2000 \<le> c \<and> c \<le> 0x200A \<or> c = 0x2028 \<or> c = 0x2029 \<or> c = 0x202F \<or> c = 0x205F \<or> c = 0x3000"

record scan_state =
  scan_channels :: "string set"
  scan_artifacts :: "string \<rightharpoonup> byte list"
  scan_count :: nat
  scan_sorted :: bool
  scan_previous :: "framework_time option"
  scan_run :: "run_entry list" \<comment> \<open>the snapshot written so far\<close>

definition scan_row :: "'j row_codec \<Rightarrow> nat \<Rightarrow> 'j log_row \<Rightarrow> scan_state \<Rightarrow> log_read_error + scan_state" where
  "scan_row J line_number row s = (case row of
     ArtifactRow name body \<Rightarrow>
       if scan_artifacts s name \<noteq> None \<and> name \<noteq> RECORDING_INCOMPLETENESS_ARTIFACT
       then Inl (LogInvalid (''duplicate artifact '' @ [CHR 0x27] @ name @ [CHR 0x27] @ '' at line ''
         @ dec_digits line_number))
       else (case value_to_vec J body of
           Inl e \<Rightarrow> Inl (LogJson line_number e)
         | Inr bytes \<Rightarrow> Inr (s\<lparr>scan_artifacts := (scan_artifacts s)(name \<mapsto> bytes)\<rparr>))
   | MessageRow e \<Rightarrow> (case log_validate e of
         Inl x \<Rightarrow> Inl x
       | Inr _ \<Rightarrow> (case checked_usize (scan_count s + 1) of
             None \<Rightarrow> Inl (LogInvalid ''too many log entries'')
           | Some n \<Rightarrow> Inr (s\<lparr>scan_channels := insert (channel_name e) (scan_channels s),
               scan_sorted := (scan_sorted s \<and> (case scan_previous s of None \<Rightarrow> True | Some last_time \<Rightarrow> last_time \<le> entry_time e)),
               scan_previous := Some (entry_time e),
               scan_run := scan_run s @ [\<lparr>run_sequence = scan_count s, run_row = e\<rparr>],
               scan_count := n\<rparr>))))"

fun scan_lines :: "'j row_codec \<Rightarrow> nat \<Rightarrow> line list \<Rightarrow> scan_state \<Rightarrow> log_read_error + scan_state" where
  "scan_lines J line_number [] s = Inr s"
| "scan_lines J line_number (l # ls) s =
     (if list_all is_whitespace l then scan_lines J (line_number + 1) ls s
      else (case parse_row J l of
          Inl e \<Rightarrow> Inl (LogJson (line_number + 1) e)
        | Inr row \<Rightarrow> (case scan_row J (line_number + 1) row s of
            Inl x \<Rightarrow> Inl x
          | Inr s1 \<Rightarrow> scan_lines J (line_number + 1) ls s1)))"

definition from_reader :: "'j row_codec \<Rightarrow> line list \<Rightarrow> nat \<Rightarrow> log_read_error + log_reader" where
  "from_reader J input sort_batch_size =
     (if sort_batch_size = 0 then Inl (LogInvalid ''sort batch size must be positive'')
      else (case scan_lines J 0 input \<lparr>scan_channels = {}, scan_artifacts = Map.empty, scan_count = 0,
            scan_sorted = True, scan_previous = None, scan_run = []\<rparr> of
          Inl x \<Rightarrow> Inl x
        | Inr s \<Rightarrow> (case (if scan_count s = 0 then Inr SourceEmpty
              else if scan_sorted s then Inr (SourceFile (map Inr (scan_run s)))
              else (case sort_run (scan_run s) sort_batch_size of
                  Inl x \<Rightarrow> Inl x
                | Inr run \<Rightarrow> Inr (SourceFile (map Inr run)))) of
            Inl x \<Rightarrow> Inl x
          | Inr src \<Rightarrow> reader_initialize src (scan_channels s) (scan_artifacts s) (scan_count s))))"

fun validate_all :: "log_entry list \<Rightarrow> log_read_error + unit" where
  "validate_all [] = Inr ()"
| "validate_all (e # es) = (case log_validate e of Inl x \<Rightarrow> Inl x | Inr _ \<Rightarrow> validate_all es)"

text \<open>The artifacts as the list in which the map is iterated.\<close>

fun check_artifacts :: "'j row_codec \<Rightarrow> (string \<times> byte list) list \<Rightarrow> log_read_error + unit" where
  "check_artifacts J [] = Inr ()"
| "check_artifacts J ((name, body) # as) = (case value_from_slice J body of
     Inl e \<Rightarrow> Inl (LogInvalid (''artifact '' @ [CHR 0x27] @ name @ [CHR 0x27] @ '': '' @ e))
   | Inr _ \<Rightarrow> check_artifacts J as)"

definition from_entries ::
  "'j row_codec \<Rightarrow> log_entry list \<Rightarrow> (string \<times> byte list) list \<Rightarrow> log_read_error + log_reader" where
  "from_entries J entries artifacts = (case validate_all entries of
     Inl x \<Rightarrow> Inl x
   | Inr _ \<Rightarrow> (case check_artifacts J artifacts of
       Inl x \<Rightarrow> Inl x
     | Inr _ \<Rightarrow> reader_initialize (SourceMemory (sort_key entry_time entries)) (set (map channel_name entries))
         (map_of artifacts) (length entries)))"


section \<open>Correctness of the sort\<close>

lemma merge_runs_mset: "mset (merge_runs xs ys) = mset xs + mset ys"
  by (induction xs ys rule: merge_runs.induct) auto

lemma merge_runs_set [simp]: "set (merge_runs xs ys) = set xs \<union> set ys"
  using arg_cong [OF merge_runs_mset, of set_mset] by simp

lemma merge_runs_sorted:
  "sorted (map run_key xs) \<Longrightarrow> sorted (map run_key ys) \<Longrightarrow> sorted (map run_key (merge_runs xs ys))"
proof (induction xs ys rule: merge_runs.induct)
  case (4 x xs y ys)
  show ?case
  proof (cases "run_key x \<le> run_key y")
    case True
    with 4 show ?thesis by (auto intro: order_trans)
  next
    case False
    then have "run_key y \<le> run_key x" by simp
    with 4 False show ?thesis by (auto intro: order_trans)
  qed
qed auto

text \<open>Runs on the levels are sorted and hold all entries that were added.\<close>

definition levels_ok :: "run_entry list option list \<Rightarrow> bool" where
  "levels_ok levels \<longleftrightarrow> (\<forall>r. Some r \<in> set levels \<longrightarrow> sorted (map run_key r))"

definition levels_mset :: "run_entry list option list \<Rightarrow> run_entry multiset" where
  "levels_mset levels = sum_list (map (\<lambda>l. case l of None \<Rightarrow> {#} | Some r \<Rightarrow> mset r) levels)"

lemma levels_simps [simp]:
  "levels_ok []" "levels_ok (None # levels) = levels_ok levels"
  "levels_ok (Some r # levels) \<longleftrightarrow> sorted (map run_key r) \<and> levels_ok levels"
  "levels_mset [] = {#}" "levels_mset (None # levels) = levels_mset levels"
  "levels_mset (Some r # levels) = mset r + levels_mset levels"
  by (auto simp: levels_ok_def levels_mset_def)

lemma add_run_law:
  assumes "levels_ok levels" and "sorted (map run_key r)"
  shows "levels_ok (add_run levels r) \<and> levels_mset (add_run levels r) = levels_mset levels + mset r"
  using assms
proof (induction levels r rule: add_run.induct)
  case (3 previous levels r)
  then have "sorted (map run_key (merge_runs previous r))"
    by (intro merge_runs_sorted) simp_all
  with 3 show ?case by (simp add: merge_runs_mset ac_simps)
qed simp_all

lemma sort_loop_law:
  assumes "levels_ok levels"
  shows "levels_ok (sort_loop b es chunk levels)
    \<and> levels_mset (sort_loop b es chunk levels) = levels_mset levels + mset chunk + mset es"
  using assms
proof (induction b es chunk levels rule: sort_loop.induct)
  case (1 b chunk levels)
  then show ?case using add_run_law [of levels "spill chunk"] by (simp add: spill_def)
next
  case (2 b e es chunk levels)
  show ?case
  proof (cases "length (chunk @ [e]) = b")
    case True
    have "levels_ok (add_run levels (spill (chunk @ [e])))
        \<and> levels_mset (add_run levels (spill (chunk @ [e]))) = levels_mset levels + mset (chunk @ [e])"
      using add_run_law [of levels "spill (chunk @ [e])"] 2(3) by (simp add: spill_def)
    with 2(1) True show ?thesis by (simp add: Let_def)
  next
    case False
    with 2(2,3) show ?thesis by (simp add: Let_def)
  qed
qed

lemma merge_levels_law:
  assumes "levels_ok levels" and "\<forall>r. result = Some r \<longrightarrow> sorted (map run_key r)"
  shows "case merge_levels result levels of
      None \<Rightarrow> result = None \<and> levels_mset levels = {#}
    | Some r \<Rightarrow> sorted (map run_key r)
        \<and> mset r = (case result of None \<Rightarrow> {#} | Some r0 \<Rightarrow> mset r0) + levels_mset levels"
  using assms
proof (induction result levels rule: merge_levels.induct)
  case (4 previous r levels)
  then have "sorted (map run_key (merge_runs previous r))"
    by (intro merge_runs_sorted) simp_all
  with 4 show ?case by (simp add: merge_runs_mset ac_simps split: option.splits)
qed (simp_all split: option.splits)

lemma sort_run_law:
  assumes "input \<noteq> []" and "distinct (map run_key input)"
  shows "sort_run input b = Inr (sort_key run_key input)"
proof -
  let ?levels = "sort_loop b input [] []"
  have l: "levels_ok ?levels" "levels_mset ?levels = mset input"
    using sort_loop_law [of "[]" b input "[]"] by simp_all
  from merge_levels_law [OF l(1), of None] l(2) assms(1) obtain r where
    r: "merge_levels None ?levels = Some r" "sorted (map run_key r)" "mset r = mset input"
    by (cases "merge_levels None ?levels") auto
  have "sort_key run_key input = r"
    using r assms(2) by (intro sort_key_inj_key_eq) (auto simp: distinct_map)
  with r(1) show ?thesis by (simp add: sort_run_def)
qed

text \<open>Sorting by time and number is the stable sort by time of numbered entries.\<close>

definition numbered :: "nat \<Rightarrow> log_entry list \<Rightarrow> run_entry list" where
  "numbered n es = map (\<lambda>(i, e). \<lparr>run_sequence = i, run_row = e\<rparr>) (enumerate n es)"

lemma numbered_simps [simp]:
  "numbered n [] = []" "numbered n (e # es) = \<lparr>run_sequence = n, run_row = e\<rparr> # numbered (Suc n) es"
  "length (numbered n es) = length es"
  by (simp_all add: numbered_def)

lemma numbered_snoc: "numbered n (es @ [e]) = numbered n es @ [\<lparr>run_sequence = n + length es, run_row = e\<rparr>]"
  by (induction es arbitrary: n) simp_all

lemma numbered_rows [simp]: "map run_row (numbered n es) = es"
  by (induction es arbitrary: n) simp_all

lemma numbered_sequence: "r \<in> set (numbered n es) \<Longrightarrow> n \<le> run_sequence r \<and> run_sequence r < n + length es"
  by (induction es arbitrary: n) force+

lemma distinct_numbered: "distinct (map run_key (numbered n es))"
proof (induction es arbitrary: n)
  case (Cons e es)
  have "run_key \<lparr>run_sequence = n, run_row = e\<rparr> \<notin> set (map run_key (numbered (Suc n) es))"
    using numbered_sequence [of _ "Suc n" es] by (force simp: run_key_def)
  with Cons show ?case by simp
qed simp

lemma stable_insort:
  assumes "\<forall>x \<in> set rs. run_sequence r < run_sequence x" and "sorted (map run_key rs)"
  shows "map run_row (insort_key run_key r rs) = insort_key entry_time (run_row r) (map run_row rs)"
  using assms by (induction rs) (auto simp: run_key_def less_eq_prod_def)

lemma sort_numbered: "map run_row (sort_key run_key (numbered n es)) = sort_key entry_time es"
proof (induction es arbitrary: n)
  case (Cons e es)
  have "\<forall>x \<in> set (sort_key run_key (numbered (Suc n) es)). n < run_sequence x"
    by (auto dest: numbered_sequence)
  with Cons stable_insort [of "sort_key run_key (numbered (Suc n) es)" "\<lparr>run_sequence = n, run_row = e\<rparr>"]
  show ?case by simp
qed simp


section \<open>The stream of a reader\<close>

text \<open>What is still to be read, and that no read of it fails.\<close>

fun source_rows :: "log_source \<Rightarrow> log_entry list" where
  "source_rows SourceEmpty = []"
| "source_rows (SourceMemory es) = es"
| "source_rows (SourceFile rs) = concat (map (\<lambda>x. case x of Inl _ \<Rightarrow> [] | Inr r \<Rightarrow> [run_row r]) rs)"

fun source_intact :: "log_source \<Rightarrow> bool" where
  "source_intact (SourceFile rs) = (\<forall>x \<in> set rs. \<exists>r. x = Inr r)"
| "source_intact _ = True"

definition pending_entries :: "log_reader \<Rightarrow> log_entry list" where
  "pending_entries r = (case peeked r of None \<Rightarrow> [] | Some e \<Rightarrow> [e]) @ source_rows (log_source r)"

definition reader_intact :: "log_reader \<Rightarrow> bool" where
  "reader_intact r \<longleftrightarrow> \<not> reader_failed r \<and> source_intact (log_source r)
     \<and> (peeked r = None \<longrightarrow> source_rows (log_source r) = [])"

lemma source_next_intact:
  assumes "source_intact src"
  shows "\<exists>src'. source_next src = (Inr (case source_rows src of [] \<Rightarrow> None | e # _ \<Rightarrow> Some e), src')
    \<and> source_rows src' = tl (source_rows src) \<and> source_intact src'"
  using assms by (cases src rule: source_next.cases) auto

lemma reader_advance_intact:
  assumes "source_intact (log_source r)" and "\<not> reader_failed r"
  shows "\<exists>r'. reader_advance r = (Inr (), r') \<and> reader_intact r' \<and> pending_entries r' = source_rows (log_source r)
    \<and> r' = r\<lparr>log_source := log_source r', peeked := peeked r'\<rparr>"
proof -
  from source_next_intact [OF assms(1)] obtain src where
    src: "source_next (log_source r) = (Inr (case source_rows (log_source r) of [] \<Rightarrow> None | e # _ \<Rightarrow> Some e), src)"
      "source_rows src = tl (source_rows (log_source r))" "source_intact src" by blast
  then show ?thesis using assms(2)
    by (auto simp: reader_advance_def reader_intact_def pending_entries_def split: list.splits)
qed

lemma next_entry_intact:
  assumes "reader_intact r"
  shows "\<exists>r'. next_entry r = (Inr (case pending_entries r of [] \<Rightarrow> None | e # _ \<Rightarrow> Some e), r')
    \<and> reader_intact r' \<and> pending_entries r' = tl (pending_entries r)"
proof -
  have "source_intact (log_source (r\<lparr>peeked := None\<rparr>))" "\<not> reader_failed (r\<lparr>peeked := None\<rparr>)"
    using assms by (simp_all add: reader_intact_def)
  from reader_advance_intact [OF this] obtain r' where
    r': "reader_advance (r\<lparr>peeked := None\<rparr>) = (Inr (), r')" "reader_intact r'"
      "pending_entries r' = source_rows (log_source r)" by auto
  have "peeked r = (case pending_entries r of [] \<Rightarrow> None | e # _ \<Rightarrow> Some e)" "source_rows (log_source r) = tl (pending_entries r)"
    using assms by (auto simp: reader_intact_def pending_entries_def split: option.splits list.splits)
  with r' assms show ?thesis by (simp add: next_entry_def reader_intact_def)
qed

lemma peek_time_intact:
  "reader_intact r \<Longrightarrow> peek_time r = (case pending_entries r of [] \<Rightarrow> None | e # _ \<Rightarrow> Some (entry_time e))"
  by (auto simp: peek_time_def reader_intact_def pending_entries_def split: option.splits)

lemma read_until_loop_intact:
  assumes "reader_intact r"
  shows "\<exists>r'. read_until_loop t r = (Inr (takeWhile (\<lambda>e. entry_time e \<le> t) (pending_entries r)), r')
    \<and> reader_intact r' \<and> pending_entries r' = dropWhile (\<lambda>e. entry_time e \<le> t) (pending_entries r)"
  using assms
proof (induction "pending_entries r" arbitrary: r)
  case Nil
  then show ?case by (subst read_until_loop.simps) (simp add: peek_time_intact)
next
  case (Cons e es)
  from next_entry_intact [OF Cons.prems] Cons.hyps(2) obtain r1 where
    r1: "next_entry r = (Inr (Some e), r1)" "reader_intact r1" "pending_entries r1 = es" by (metis list.case(2) list.sel(3))
  have peek: "peek_time r = Some (entry_time e)" using peek_time_intact [OF Cons.prems] Cons.hyps(2) by (metis list.case(2))
  show ?case
  proof (cases "entry_time e \<le> t")
    case True
    with Cons.hyps(1) [of r1] r1 obtain r2 where
      "read_until_loop t r1 = (Inr (takeWhile (\<lambda>e. entry_time e \<le> t) es), r2)" "reader_intact r2"
      "pending_entries r2 = dropWhile (\<lambda>e. entry_time e \<le> t) es" by auto
    with True peek r1(1) show ?thesis
      unfolding Cons.hyps(2) [symmetric] by (subst read_until_loop.simps) simp
  next
    case False
    with peek Cons.prems show ?thesis
      by (subst read_until_loop.simps) (simp add: Cons.hyps(2) [symmetric])
  qed
qed

lemma reader_initialize_intact:
  assumes "source_intact src"
  shows "\<exists>r. reader_initialize src channels artifacts n = Inr r \<and> reader_intact r \<and> pending_entries r = source_rows src
    \<and> log_channels r = channels \<and> log_artifacts r = artifacts \<and> entry_count r = n
    \<and> first_time r = (case source_rows src of [] \<Rightarrow> None | e # _ \<Rightarrow> Some (entry_time e))"
proof -
  let ?r = "\<lparr>log_source = src, log_channels = channels, log_artifacts = artifacts, entry_count = n, first_time = None,
      peeked = None, reader_failed = False\<rparr>"
  from reader_advance_intact [of ?r] assms obtain r where r: "reader_advance ?r = (Inr (), r)" "reader_intact r"
    "pending_entries r = source_rows src" "r = ?r\<lparr>log_source := log_source r, peeked := peeked r\<rparr>" by auto
  have "log_channels r = channels" "log_artifacts r = artifacts" "entry_count r = n" by (subst r(4); simp)+
  with r(1-3) peek_time_intact [OF r(2)] show ?thesis
    by (simp add: reader_initialize_def reader_intact_def pending_entries_def)
qed

section \<open>Scanning\<close>

definition message_of :: "'j row_codec \<Rightarrow> line \<Rightarrow> log_entry list" where
  "message_of J l = (if list_all is_whitespace l then []
     else case parse_row J l of Inr (MessageRow e) \<Rightarrow> [e] | _ \<Rightarrow> [])"

definition scanned :: "log_entry list \<Rightarrow> scan_state \<Rightarrow> bool" where
  "scanned es s \<longleftrightarrow> scan_run s = numbered 0 es \<and> scan_count s = length es \<and> (scan_sorted s \<longleftrightarrow> sorted (map entry_time es))
     \<and> scan_previous s = (if es = [] then None else Some (entry_time (last es)))
     \<and> scan_channels s = set (map channel_name es)"

lemma sorted_snoc: "sorted (xs @ [x]) \<longleftrightarrow> sorted xs \<and> (xs = [] \<or> last xs \<le> (x :: 'a :: linorder))"
  by (induction xs rule: rev_induct) (auto simp: sorted_append intro: order_trans)

lemma scan_row_law:
  assumes "scan_row J k row s = Inr s'" and "scanned es s"
  shows "scanned (es @ (case row of MessageRow e \<Rightarrow> [e] | _ \<Rightarrow> [])) s'"
proof (cases row)
  case (ArtifactRow name body)
  with assms show ?thesis by (auto simp: scan_row_def scanned_def split: if_splits sum.splits)
next
  case (MessageRow e)
  have "sorted (map entry_time (es @ [e])) \<longleftrightarrow> sorted (map entry_time es) \<and> (es = [] \<or> entry_time (last es) \<le> entry_time e)"
    using sorted_snoc [of "map entry_time es" "entry_time e"] by (cases "es = []") (auto simp: last_map)
  with MessageRow assms show ?thesis
    by (auto simp: scan_row_def scanned_def numbered_snoc checked_usize_def split: if_splits sum.splits)
qed

lemma scan_lines_law:
  assumes "scan_lines J k ls s = Inr s'" and "scanned es s"
  shows "scanned (es @ concat (map (message_of J) ls)) s'"
  using assms
proof (induction J k ls s arbitrary: es rule: scan_lines.induct)
  case (2 J k l ls s)
  show ?case
  proof (cases "list_all is_whitespace l")
    case True
    with 2 show ?thesis by (simp add: message_of_def)
  next
    case False
    with 2(3) obtain row s1 where row: "parse_row J l = Inr row" "scan_row J (k + 1) row s = Inr s1"
      "scan_lines J (k + 1) ls s1 = Inr s'"
      by (auto split: sum.splits)
    have "message_of J l = (case row of MessageRow e \<Rightarrow> [e] | _ \<Rightarrow> [])" using False row(1) by (simp add: message_of_def)
    with 2(2) [OF False row(1,2,3) scan_row_law [OF row(2) 2(4)]] show ?thesis by simp
  qed
qed simp

lemma scan_lines_complete:
  assumes "\<forall>l \<in> set ls. \<not> list_all is_whitespace l \<longrightarrow> (\<exists>e. parse_row J l = Inr (MessageRow e) \<and> log_validate e = Inr ())"
    and "scan_count s + length ls \<le> usize_max"
  shows "\<exists>s'. scan_lines J k ls s = Inr s'"
  using assms
proof (induction ls arbitrary: k s)
  case (Cons l ls)
  show ?case
  proof (cases "list_all is_whitespace l")
    case True
    with Cons show ?thesis by simp
  next
    case False
    with Cons.prems(1) obtain e where e: "parse_row J l = Inr (MessageRow e)" "log_validate e = Inr ()" by auto
    with Cons.prems(2) obtain s1 where s1: "scan_row J (k + 1) (MessageRow e) s = Inr s1" "scan_count s1 = scan_count s + 1"
      by (auto simp: scan_row_def checked_usize_def)
    with Cons.IH [of s1 "k + 1"] Cons.prems False e show ?thesis by simp
  qed
qed simp

lemma sorted_numbered:
  assumes "sorted (map entry_time es)"
  shows "sorted (map run_key (numbered n es))"
  using assms
proof (induction es arbitrary: n)
  case (Cons e es)
  have "run_key \<lparr>run_sequence = n, run_row = e\<rparr> \<le> run_key r" if "r \<in> set (numbered (Suc n) es)" for r
  proof -
    have "run_row r \<in> set es" using that imageI [of r _ run_row] numbered_rows [of "Suc n" es] by (metis set_map)
    then have "entry_time e \<le> entry_time (run_row r)" using Cons.prems by simp
    with numbered_sequence [OF that] show ?thesis by (simp add: run_key_def less_eq_prod_def)
  qed
  with Cons show ?case by simp
qed simp

lemma first_of_sorted:
  "(case sort_key f xs of [] \<Rightarrow> None | e # _ \<Rightarrow> Some (f e)) = (if xs = [] then None else Some (Min (set (map f xs))))"
proof (cases "sort_key f xs")
  case Nil
  then have "length xs = 0" by (metis length_sort list.size(3))
  with Nil show ?thesis by simp
next
  case (Cons e es)
  have "set (map f xs) = set (map f (e # es))" using arg_cong [OF Cons, of "\<lambda>ys. f ` set ys"] by simp
  moreover have "sorted (map f (e # es))" using sorted_sort_key [of f xs] Cons by simp
  then have "Min (set (map f (e # es))) = f e" by (intro Min_eqI) auto
  moreover have "xs \<noteq> []" using Cons by auto
  ultimately show ?thesis using Cons by simp
qed

lemma from_reader_scanned:
  assumes "0 < b"
    and "scan_lines J 0 input \<lparr>scan_channels = {}, scan_artifacts = Map.empty, scan_count = 0, scan_sorted = True,
      scan_previous = None, scan_run = []\<rparr> = Inr s"
  defines "es \<equiv> concat (map (message_of J) input)"
  shows "\<exists>src. from_reader J input b = reader_initialize src (scan_channels s) (scan_artifacts s) (scan_count s)
    \<and> source_intact src \<and> source_rows src = sort_key entry_time es
    \<and> src = (if es = [] then SourceEmpty else SourceFile (map Inr (sort_key run_key (numbered 0 es))))"
proof -
  have s: "scanned es s"
    unfolding es_def using scan_lines_law [OF assms(2), of "[]"] by (simp add: scanned_def)
  have rows: "concat (map ((\<lambda>x. case x of Inl _ \<Rightarrow> [] | Inr r \<Rightarrow> [run_row r]) \<circ> Inr) rs) = map run_row rs" for rs
    by (induction rs) simp_all
  show ?thesis
  proof (cases "es = []")
    case True
    with s assms(1,2) show ?thesis by (simp add: from_reader_def scanned_def)
  next
    case False
    have run: "sort_run (numbered 0 es) b = Inr (sort_key run_key (numbered 0 es))"
      using False by (intro sort_run_law distinct_numbered) (cases es; simp)
    have "sort_key run_key (numbered 0 es) = numbered 0 es" if "sorted (map entry_time es)"
      using sorted_numbered [OF that, of 0] by (rule sort_key_id_if_sorted)
    with False s assms(1,2) run show ?thesis
      by (auto simp: from_reader_def scanned_def rows sort_numbered)
  qed
qed

lemma from_reader_law:
  assumes "0 < b" and "from_reader J input b = Inr r"
  defines "es \<equiv> concat (map (message_of J) input)"
  shows "reader_intact r" and "pending_entries r = sort_key entry_time es" and "entry_count r = length es"
    and "log_channels r = set (map channel_name es)"
    and "first_time r = (if es = [] then None else Some (Min (set (map entry_time es))))"
proof -
  obtain s where scan: "scan_lines J 0 input \<lparr>scan_channels = {}, scan_artifacts = Map.empty, scan_count = 0,
      scan_sorted = True, scan_previous = None, scan_run = []\<rparr> = Inr s"
    using assms(1,2) by (auto simp: from_reader_def split: sum.splits)
  have s: "scanned es s" using scan_lines_law [OF scan, of "[]"] by (simp add: scanned_def es_def)
  from from_reader_scanned [OF assms(1) scan] obtain src where
    src: "from_reader J input b = reader_initialize src (scan_channels s) (scan_artifacts s) (scan_count s)"
      "source_intact src" "source_rows src = sort_key entry_time es" unfolding es_def by blast
  with reader_initialize_intact [OF src(2), of "scan_channels s" "scan_artifacts s" "scan_count s"] assms(2)
  have r: "reader_intact r" "pending_entries r = sort_key entry_time es" "log_channels r = scan_channels s"
    "entry_count r = scan_count s"
    "first_time r = (case sort_key entry_time es of [] \<Rightarrow> None | e # _ \<Rightarrow> Some (entry_time e))" by simp_all
  then show "reader_intact r" "pending_entries r = sort_key entry_time es" by simp_all
  show "entry_count r = length es" "log_channels r = set (map channel_name es)"
    using r(3,4) s by (simp_all add: scanned_def)
  show "first_time r = (if es = [] then None else Some (Min (set (map entry_time es))))"
    unfolding r(5) by (rule first_of_sorted)
qed

section \<open>Properties\<close>

text \<open>
  C21: External sorting is the stable sort. Reading a log with any positive batch size gives the same
  result. A reader that was built yields the messages of the log sorted by time, with messages of
  equal time in the order of the file, and knows their number, their channels and the first time. A
  log whose lines are all blank or valid messages, fewer than \<open>2 ^ 64\<close>, is always accepted.
\<close>

theorem external_sort_stable:
  assumes "0 < b"
  shows "(\<forall>b' > 0. from_reader J input b' = from_reader J input b)
    \<and> (\<forall>r. from_reader J input b = Inr r \<longrightarrow> (let es = concat (map (message_of J) input) in
        reader_intact r \<and> pending_entries r = sort_key entry_time es \<and> entry_count r = length es
        \<and> log_channels r = set (map channel_name es)
        \<and> first_time r = (if es = [] then None else Some (Min (set (map entry_time es))))))
    \<and> ((\<forall>l \<in> set input. \<not> list_all is_whitespace l \<longrightarrow>
          (\<exists>e. parse_row J l = Inr (MessageRow e) \<and> log_validate e = Inr ())) \<longrightarrow> length input \<le> usize_max \<longrightarrow>
        (\<exists>r. from_reader J input b = Inr r))"
proof -
  let ?start = "\<lparr>scan_channels = {}, scan_artifacts = Map.empty, scan_count = 0, scan_sorted = True,
      scan_previous = None, scan_run = []\<rparr>"
  let ?es = "concat (map (message_of J) input)"
  show ?thesis
  proof (cases "scan_lines J 0 input ?start")
    case (Inl x)
    then have "from_reader J input b' = Inl x" if "0 < b'" for b' using that by (simp add: from_reader_def)
    moreover have "\<exists>s'. scan_lines J 0 input ?start = Inr s'"
      if "\<forall>l \<in> set input. \<not> list_all is_whitespace l \<longrightarrow> (\<exists>e. parse_row J l = Inr (MessageRow e) \<and> log_validate e = Inr ())"
        "length input \<le> usize_max" using scan_lines_complete [OF that(1), of ?start 0] that(2) by simp
    ultimately show ?thesis using Inl assms by auto
  next
    case (Inr s)
    from from_reader_scanned [OF assms Inr] obtain src where
      src: "from_reader J input b = reader_initialize src (scan_channels s) (scan_artifacts s) (scan_count s)"
        "source_intact src"
        "src = (if ?es = [] then SourceEmpty else SourceFile (map Inr (sort_key run_key (numbered 0 ?es))))" by blast
    have "from_reader J input b' = from_reader J input b" if "0 < b'" for b'
      using from_reader_scanned [OF that Inr] src(1,3) by metis
    moreover obtain r where r: "from_reader J input b = Inr r"
      using reader_initialize_intact [OF src(2)] unfolding src(1) by blast
    ultimately show ?thesis unfolding Let_def using r from_reader_law [OF assms r] by simp
  qed
qed

text \<open>Two messages out of order, in a log where a line is its own time.\<close>

definition sample_codec :: "unit row_codec" where
  "sample_codec = \<lparr>parse_row = (\<lambda>l. Inr (MessageRow \<lparr>entry_header = header_new (from_nanos (int (hd l))), channel_name = ''c'',
     serialized_body = []\<rparr>)), value_to_vec = (\<lambda>_. Inr []), value_from_slice = (\<lambda>_. Inr ())\<rparr>"

abbreviation sample_message :: "int \<Rightarrow> log_entry" where
  "sample_message t \<equiv> \<lparr>entry_header = header_new (from_nanos t), channel_name = ''c'', serialized_body = []\<rparr>"

lemma sample_accepted:
  "\<forall>l \<in> set [[70], [10], [65]]. \<not> list_all is_whitespace l \<longrightarrow>
    (\<exists>e. parse_row sample_codec l = Inr (MessageRow e) \<and> log_validate e = Inr ())"
  by (simp add: sample_codec_def log_validate_def header_new_def from_nanos_def INVALID_def i64_defs)

theorem external_sort_stable_witness:
  "\<exists>r. from_reader sample_codec [[70], [10], [65]] 1 = Inr r
     \<and> pending_entries r = [sample_message 65, sample_message 70] \<and> first_time r = Some (from_nanos 65)"
proof -
  have es: "concat (map (message_of sample_codec) [[70], [10], [65]]) = [sample_message 70, sample_message 65]"
    by (simp add: message_of_def sample_codec_def is_whitespace_def)
  note sort = external_sort_stable [of 1 sample_codec "[[70], [10], [65]]", OF zero_less_one, unfolded es Let_def]
  have "length [[70], [10], [65 :: nat]] \<le> usize_max" by (simp add: usize_max_def)
  with sort [THEN conjunct2, THEN conjunct2] sample_accepted obtain r where
    r: "from_reader sample_codec [[70], [10], [65]] 1 = Inr r" by meson
  from sort [THEN conjunct2, THEN conjunct1, rule_format, OF r]
  have "pending_entries r = sort_key entry_time [sample_message 70, sample_message 65]"
    "first_time r = Some (Min (set (map entry_time [sample_message 70, sample_message 65])))" by simp_all
  with r show ?thesis by (simp add: header_new_def from_nanos_def time_order min_def)
qed

text \<open>
  C22: Reading up to a time takes exactly the prefix of the stream up to the first later entry, in
  order, leaves the rest, and reports the time of the next entry. For a stream sorted by time, as
  the constructors build it, these are all entries that are due.
\<close>

theorem read_until_exact:
  assumes "reader_intact r"
  shows "\<exists>r'. read_until r t = (Inr (takeWhile (\<lambda>e. entry_time e \<le> t) (pending_entries r),
        case pending_entries r' of [] \<Rightarrow> None | e # _ \<Rightarrow> Some (entry_time e)), r')
    \<and> reader_intact r' \<and> pending_entries r' = dropWhile (\<lambda>e. entry_time e \<le> t) (pending_entries r)
    \<and> (sorted (map entry_time (pending_entries r)) \<longrightarrow>
        takeWhile (\<lambda>e. entry_time e \<le> t) (pending_entries r) = filter (\<lambda>e. entry_time e \<le> t) (pending_entries r)
        \<and> (\<forall>e \<in> set (pending_entries r'). t < entry_time e))"
proof -
  from read_until_loop_intact [OF assms, of t] obtain r' where
    r': "read_until_loop t r = (Inr (takeWhile (\<lambda>e. entry_time e \<le> t) (pending_entries r)), r')" "reader_intact r'"
      "pending_entries r' = dropWhile (\<lambda>e. entry_time e \<le> t) (pending_entries r)" by blast
  with assms peek_time_intact [OF r'(2)] sorted_take_due [of entry_time "pending_entries r" t] show ?thesis
    by (auto simp: read_until_def reader_intact_def)
qed

theorem read_until_exact_witness:
  "\<exists>r r'. from_entries sample_codec [sample_message 7, sample_message 3, sample_message 9] [] = Inr r
     \<and> read_until r (from_nanos 7) = (Inr ([sample_message 3, sample_message 7], Some (from_nanos 9)), r')
     \<and> pending_entries r' = [sample_message 9]"
proof -
  let ?es = "[sample_message 7, sample_message 3, sample_message 9]"
  have "source_intact (SourceMemory (sort_key entry_time ?es))" by simp
  from reader_initialize_intact [OF this, of "{''c''}" "Map.empty" 3] obtain r where
    init: "reader_initialize (SourceMemory (sort_key entry_time ?es)) {''c''} Map.empty 3 = Inr r" and
    r: "reader_intact r" "pending_entries r = sort_key entry_time ?es" by auto
  have "validate_all ?es = Inr ()"
    by (simp add: log_validate_def header_new_def from_nanos_def INVALID_def i64_defs)
  moreover have "set (map channel_name ?es) = {''c''}" "length ?es = 3" "map_of ([] :: (string \<times> byte list) list) = Map.empty"
    by simp_all
  ultimately have new: "from_entries sample_codec ?es [] = Inr r"
    using init by (simp only: from_entries_def check_artifacts.simps sum.case)
  have sorted: "pending_entries r = [sample_message 3, sample_message 7, sample_message 9]"
    unfolding r(2) by (simp add: header_new_def from_nanos_def time_order)
  from read_until_exact [OF r(1), of "from_nanos 7", unfolded sorted] obtain r' where
    "pending_entries r' = [sample_message 9]" and "read_until r (from_nanos 7) = (Inr ([sample_message 3, sample_message 7],
       case pending_entries r' of [] \<Rightarrow> None | e # _ \<Rightarrow> Some (entry_time e)), r')"
    by (auto simp: header_new_def from_nanos_def time_order)
  with new show ?thesis by (simp add: header_new_def)
qed

end
