(* ===== verification/Intern_Tables.thy ===== *)
theory Intern_Tables
  imports Callback_Lifecycle Task_Graph
begin

text \<open>
  \<open>logging/src/intern_tables.rs\<close> and the persisted schema of \<open>task/src/execution_log_schema.rs\<close>: the
  name tables at the head of a log, in which the position of a name is its id, and the registry that
  the shards of a logger share until the tables are written.

  The registry's mutex makes each call atomic. A log file writer and serde's printers are parameters;
  the tables are printed as the lists of their names, as \<open>String_Interner\<close> has it.
\<close>

section \<open>Schema\<close>

definition EXECUTION_LOG_CHANNEL :: string where
  "EXECUTION_LOG_CHANNEL = ''execution_log''"

definition IOX2_EVENT_RECORD_CHANNEL :: string where
  "IOX2_EVENT_RECORD_CHANNEL = ''iox2_event_records''"

definition EXECUTION_LOG_DESCRIPTOR_ARTIFACT :: string where
  "EXECUTION_LOG_DESCRIPTOR_ARTIFACT = ''execution_log_descriptor''"

definition INTERN_TABLES_ARTIFACT :: string where
  "INTERN_TABLES_ARTIFACT = ''intern_tables''"

record intern_tables =
  channels_table :: string_interner
  callbacks_table :: string_interner

datatype execution_log_mode = ModeOff | DurationOnly | FullMode

record execution_log_modes =
  default_mode :: execution_log_mode
  mode_callbacks :: "string \<rightharpoonup> execution_log_mode"

definition modes_with_callback :: "execution_log_modes \<Rightarrow> string \<Rightarrow> execution_log_mode \<Rightarrow> execution_log_modes" where
  "modes_with_callback m name mode = m\<lparr>mode_callbacks := (mode_callbacks m)(name \<mapsto> mode)\<rparr>"

definition mode_for :: "execution_log_modes \<Rightarrow> string \<Rightarrow> execution_log_mode" where
  "mode_for m name = (case mode_callbacks m name of Some mode \<Rightarrow> mode | None \<Rightarrow> default_mode m)"

record callback_descriptor =
  desc_name :: string
  desc_mode :: execution_log_mode
  desc_endpoints :: "endpoint_descriptor list"

record execution_descriptor =
  desc_callbacks :: "callback_descriptor list"
  logged_channels :: "string list"

text \<open>\<open>GraphMetadata::intern_tables\<close>\<close>

definition metadata_intern_tables :: "graph_metadata \<Rightarrow> intern_tables" where
  "metadata_intern_tables m = \<lparr>channels_table = channel_names m, callbacks_table = callback_names m\<rparr>"

section \<open>Decoding and validation\<close>

text \<open>The object of the two name lists is serde's to parse; the lists are loaded into interners.\<close>

definition decode_intern_tables ::
  "(byte list \<Rightarrow> string + string list \<times> string list) \<Rightarrow> byte list option \<Rightarrow> string + intern_tables" where
  "decode_intern_tables parse bytes = (case bytes of
     None \<Rightarrow> Inl ''missing intern_tables artifact''
   | Some b \<Rightarrow> (case parse b of
       Inl e \<Rightarrow> Inl e
     | Inr (c_names, b_names) \<Rightarrow> (case interner_deserialize c_names of
         Inl e \<Rightarrow> Inl e
       | Inr cs \<Rightarrow> (case interner_deserialize b_names of
           Inl e \<Rightarrow> Inl e
         | Inr bs \<Rightarrow> Inr \<lparr>channels_table = cs, callbacks_table = bs\<rparr>))))"

fun validate_endpoints :: "intern_tables \<Rightarrow> endpoint_descriptor list \<Rightarrow> string + unit" where
  "validate_endpoints tables [] = Inr ()"
| "validate_endpoints tables (e # es) =
     (if lookup_by_value (channels_table tables) (desc_channel e) = None
      then Inl (''channel '' @ [CHR 0x27] @ desc_channel e @ [CHR 0x27] @ '' is absent from intern tables'')
      else validate_endpoints tables es)"

fun validate_descriptors :: "intern_tables \<Rightarrow> nat \<Rightarrow> callback_descriptor list \<Rightarrow> string + unit" where
  "validate_descriptors tables index [] = Inr ()"
| "validate_descriptors tables index (c # cs) = (case intern_from_index index of
     None \<Rightarrow> Inl ''callback ID out of range''
   | Some i \<Rightarrow>
       if try_lookup_by_id (callbacks_table tables) i \<noteq> Some (desc_name c)
       then Inl (''callback '' @ [CHR 0x27] @ desc_name c @ [CHR 0x27] @ '' does not match intern table ID ''
         @ dec_digits index)
       else (case validate_endpoints tables (desc_endpoints c) of
           Inl e \<Rightarrow> Inl e
         | Inr _ \<Rightarrow> validate_descriptors tables (index + 1) cs))"

definition validate_descriptor_tables :: "intern_tables \<Rightarrow> execution_descriptor \<Rightarrow> string + unit" where
  "validate_descriptor_tables tables descriptor = validate_descriptors tables 0 (desc_callbacks descriptor)"

section \<open>The registry\<close>

record registry =
  reg_tables :: intern_tables
  reg_started :: bool
  reg_descriptor :: "execution_descriptor option"

definition registry_new :: "string list \<Rightarrow> registry" where
  "registry_new channels = \<lparr>reg_tables = \<lparr>channels_table =
       intern_all interner_new (channels @ [EXECUTION_LOG_CHANNEL, IOX2_EVENT_RECORD_CHANNEL]),
     callbacks_table = interner_new\<rparr>, reg_started = False, reg_descriptor = None\<rparr>"

definition registry_channel :: "registry \<Rightarrow> string \<Rightarrow> intern_id outcome" where
  "registry_channel g name = expect (lookup_by_value (channels_table (reg_tables g)) name)"

definition registry_configure :: "registry \<Rightarrow> intern_tables \<Rightarrow> ((string + unit) \<times> registry) outcome" where
  "registry_configure g tables =
     (if reg_started g then Ret (Inl ''logging name tables are already frozen'', g)
      else and_then (interner_names (channels_table (reg_tables g))) (\<lambda>names.
        Ret (Inr (), g\<lparr>reg_tables := tables\<lparr>channels_table := intern_all (channels_table tables) names\<rparr>\<rparr>)))"

definition registry_recording :: "registry \<Rightarrow> execution_descriptor \<Rightarrow> (string + unit) \<times> registry" where
  "registry_recording g descriptor =
     (if reg_started g then (Inl ''recording must be attached before logging starts'', g)
      else (Inr (), g\<lparr>reg_descriptor := Some descriptor\<rparr>))"

text \<open>A log file writer, with serde's printers for the two artifacts.\<close>

record 'f artifact_writer =
  write_artifact :: "'f \<Rightarrow> string \<Rightarrow> byte list \<Rightarrow> (string + unit) \<times> 'f"
  tables_to_vec :: "string list \<times> string list \<Rightarrow> string + byte list"
  descriptor_to_vec :: "execution_descriptor \<Rightarrow> string + byte list"

definition tables_serialize :: "'f artifact_writer \<Rightarrow> intern_tables \<Rightarrow> (string + byte list) outcome" where
  "tables_serialize W tables =
     and_then (interner_serialize (channels_table tables)) (\<lambda>cs.
     and_then (interner_serialize (callbacks_table tables)) (\<lambda>bs. Ret (tables_to_vec W (cs, bs))))"

definition write_descriptor ::
  "'f artifact_writer \<Rightarrow> 'f \<Rightarrow> execution_descriptor option \<Rightarrow> (string + unit) \<times> 'f" where
  "write_descriptor W f descriptor = (case descriptor of
     None \<Rightarrow> (Inr (), f)
   | Some d \<Rightarrow> (case descriptor_to_vec W d of
       Inl e \<Rightarrow> (Inl e, f)
     | Inr bytes \<Rightarrow> write_artifact W f EXECUTION_LOG_DESCRIPTOR_ARTIFACT bytes))"

definition registry_start ::
  "'f artifact_writer \<Rightarrow> registry \<Rightarrow> 'f \<Rightarrow> ((string + unit) \<times> registry \<times> 'f) outcome" where
  "registry_start W g f =
     (if reg_started g then Ret (Inr (), g, f)
      else (case (case reg_descriptor g of Some d \<Rightarrow> validate_descriptor_tables (reg_tables g) d | None \<Rightarrow> Inr ()) of
          Inl e \<Rightarrow> Ret (Inl e, g, f)
        | Inr _ \<Rightarrow> and_then (tables_serialize W (reg_tables g)) (\<lambda>r. case r of
            Inl e \<Rightarrow> Ret (Inl e, g, f)
          | Inr bytes \<Rightarrow> (case write_artifact W f INTERN_TABLES_ARTIFACT bytes of
              (Inl e, f1) \<Rightarrow> Ret (Inl e, g, f1)
            | (Inr _, f1) \<Rightarrow> (case write_descriptor W f1 (reg_descriptor g) of
                (Inl e, f2) \<Rightarrow> Ret (Inl e, g, f2)
              | (Inr _, f2) \<Rightarrow> Ret (Inr (), g\<lparr>reg_started := True\<rparr>, f2))))))"

section \<open>Laws\<close>

lemma intern_all_extends:
  assumes "distinct ns" and "length ns + length ms \<le> 2 ^ 32"
  shows "\<exists>ks. intern_all (table_of ns) ms = table_of (ns @ ks) \<and> distinct (ns @ ks)
    \<and> set (ns @ ks) = set ns \<union> set ms \<and> length ks \<le> length ms"
  using assms
proof (induction ms arbitrary: ns)
  case (Cons m ms)
  show ?case
  proof (cases "m \<in> set ns")
    case True
    then obtain i where "i < length ns" "m = ns ! i" by (auto simp: in_set_conv_nth)
    then have "intern_all (table_of ns) (m # ms) = intern_all (table_of ns) ms"
      using intern_known Cons.prems by simp
    with Cons.IH [OF Cons.prems(1)] Cons.prems(2) True show ?thesis by fastforce
  next
    case False
    then have "intern_all (table_of ns) (m # ms) = intern_all (table_of (ns @ [m])) ms"
      using intern_fresh [OF False] Cons.prems by simp
    moreover from Cons.IH [of "ns @ [m]"] Cons.prems False obtain ks where
      "intern_all (table_of (ns @ [m])) ms = table_of ((ns @ [m]) @ ks)" "distinct ((ns @ [m]) @ ks)"
      "set ((ns @ [m]) @ ks) = set (ns @ [m]) \<union> set ms" "length ks \<le> length ms" by auto
    ultimately show ?thesis by (intro exI [of _ "m # ks"]) auto
  qed
qed simp

lemma table_prefix_lookup:
  assumes "distinct (ns @ ks)" and "length (ns @ ks) \<le> 2 ^ 32" and "try_lookup_by_id (table_of ns) i = Some name"
  shows "try_lookup_by_id (table_of (ns @ ks)) i = Some name"
  using assms table_of_Some_iff(2) [of ns i name] table_of_lookups(2) [of "ns @ ks"] by (auto simp: nth_append)

lemma registry_new_tables:
  assumes "length channels + 2 \<le> 2 ^ 32"
  shows "\<exists>ns. registry_new channels = \<lparr>reg_tables = \<lparr>channels_table = table_of ns, callbacks_table = interner_new\<rparr>,
      reg_started = False, reg_descriptor = None\<rparr> \<and> distinct ns
    \<and> set ns = set channels \<union> {EXECUTION_LOG_CHANNEL, IOX2_EVENT_RECORD_CHANNEL} \<and> length ns \<le> length channels + 2"
  using intern_all_extends [of "[]" "channels @ [EXECUTION_LOG_CHANNEL, IOX2_EVENT_RECORD_CHANNEL]"] assms
  by (auto simp: registry_new_def table_of_Nil)

lemma validate_endpoints_iff:
  "validate_endpoints \<lparr>channels_table = table_of ns, callbacks_table = t\<rparr> es = Inr ()
     \<longleftrightarrow> (\<forall>e \<in> set es. desc_channel e \<in> set ns)"
  by (induction es) (auto simp: lookup_by_value_None)

lemma validate_descriptors_iff:
  assumes "distinct bs" and "length bs \<le> 2 ^ 32"
  shows "validate_descriptors \<lparr>channels_table = table_of ns, callbacks_table = table_of bs\<rparr> k cs = Inr ()
    \<longleftrightarrow> (\<forall>i < length cs. k + i < length bs \<and> desc_name (cs ! i) = bs ! (k + i)
        \<and> (\<forall>e \<in> set (desc_endpoints (cs ! i)). desc_channel e \<in> set ns))"
proof (induction cs arbitrary: k)
  case (Cons c cs)
  have lookup: "try_lookup_by_id (table_of bs) (InternId (of_nat k)) = Some w \<longleftrightarrow> k < length bs \<and> w = bs ! k"
    if "k \<le> u32_max" for w
  proof -
    have "(of_nat k :: u32) = of_nat j \<longleftrightarrow> k = j" if "j < length bs" for j
      using that assms(2) \<open>k \<le> u32_max\<close> by (intro of_nat_u32_inj) (simp_all add: u32_max_def)
    then show ?thesis using table_of_Some_iff(2) [OF assms, of "InternId (of_nat k)" w] by auto
  qed
  show ?case
  proof (cases "k \<le> u32_max")
    case True
    let ?v = "validate_endpoints \<lparr>channels_table = table_of ns, callbacks_table = table_of bs\<rparr> (desc_endpoints c)"
    have "validate_descriptors \<lparr>channels_table = table_of ns, callbacks_table = table_of bs\<rparr> k (c # cs) = Inr ()
        \<longleftrightarrow> k < length bs \<and> desc_name c = bs ! k \<and> ?v = Inr ()
          \<and> validate_descriptors \<lparr>channels_table = table_of ns, callbacks_table = table_of bs\<rparr> (k + 1) cs = Inr ()"
      using True lookup [OF True, of "desc_name c"]
      by (cases ?v) (auto simp: intern_from_index_def checked_u32_def simp del: validate_endpoints.simps)
    then show ?thesis unfolding Cons.IH validate_endpoints_iff by (auto simp: All_less_Suc2)
  next
    case False
    then show ?thesis using assms(2) by (auto simp: intern_from_index_def checked_u32_def u32_max_def)
  qed
qed simp

lemma tables_serialize_table:
  assumes "distinct ns" and "length ns \<le> 2 ^ 32" and "distinct bs" and "length bs \<le> 2 ^ 32"
  shows "tables_serialize W \<lparr>channels_table = table_of ns, callbacks_table = table_of bs\<rparr> = Ret (tables_to_vec W (ns, bs))"
  using assms by (simp add: tables_serialize_def interner_serialize_def interner_names_table)

lemma interner_deserialize_table:
  "distinct ns \<Longrightarrow> length ns \<le> 2 ^ 32 \<Longrightarrow> interner_deserialize ns = Inr (table_of ns)"
  using interner_load_table [of "[]" ns] by (simp add: interner_deserialize_def table_of_Nil)

section \<open>Properties\<close>

text \<open>
  The tables of a log contain every name under one id. Configuring a new registry with the tables
  of a graph keeps the id of every channel of the graph and the callbacks' table, and adds the
  captured channels and the two reserved ones: exactly these have an id, which maps back to the name.
\<close>

theorem configure_keeps_ids:
  assumes "distinct cns" and "length cns + length captured + 2 \<le> 2 ^ 32"
  shows "\<exists>g. registry_configure (registry_new captured)
        (metadata_intern_tables \<lparr>channel_names = table_of cns, callback_names = bt\<rparr>) = Ret (Inr (), g)
    \<and> callbacks_table (reg_tables g) = bt
    \<and> (\<forall>i name. try_lookup_by_id (table_of cns) i = Some name \<longrightarrow>
          try_lookup_by_id (channels_table (reg_tables g)) i = Some name)
    \<and> (\<forall>name. (\<exists>i. registry_channel g name = Ret i) \<longleftrightarrow>
          name \<in> set cns \<union> set captured \<union> {EXECUTION_LOG_CHANNEL, IOX2_EVENT_RECORD_CHANNEL})
    \<and> (\<forall>name i. registry_channel g name = Ret i \<longleftrightarrow> try_lookup_by_id (channels_table (reg_tables g)) i = Some name)"
proof -
  from registry_new_tables [of captured] assms(2) obtain ns where
    new: "registry_new captured = \<lparr>reg_tables = \<lparr>channels_table = table_of ns, callbacks_table = interner_new\<rparr>,
      reg_started = False, reg_descriptor = None\<rparr>" and ns: "distinct ns"
      "set ns = set captured \<union> {EXECUTION_LOG_CHANNEL, IOX2_EVENT_RECORD_CHANNEL}" "length ns \<le> length captured + 2" by auto
  from intern_all_extends [OF assms(1), of ns] assms(2) ns(3) obtain ks where
    all: "intern_all (table_of cns) ns = table_of (cns @ ks)" and ks: "distinct (cns @ ks)"
      "set (cns @ ks) = set cns \<union> set ns" "length ks \<le> length ns" by auto
  let ?t = "table_of (cns @ ks)"
  have small: "length (cns @ ks) \<le> 2 ^ 32" using ks(3) ns(3) assms(2) by simp
  have names: "interner_names (table_of ns) = Ret ns" using ns assms(2) by (intro interner_names_table) auto
  have known: "(\<exists>i. lookup_by_value ?t name = Some i) \<longleftrightarrow> name \<in> set cns \<union> set ns" for name
    using lookup_by_value_None [of "cns @ ks" name] unfolding ks(2) by (cases "lookup_by_value ?t name") simp_all
  have inverse: "lookup_by_value ?t name = Some i \<longleftrightarrow> try_lookup_by_id ?t i = Some name" for name i
    unfolding table_of_Some_iff [OF ks(1) small] ..
  let ?g = "\<lparr>reg_tables = \<lparr>channels_table = ?t, callbacks_table = bt\<rparr>, reg_started = False, reg_descriptor = None\<rparr>"
  have "registry_configure (registry_new captured)
      (metadata_intern_tables \<lparr>channel_names = table_of cns, callback_names = bt\<rparr>) = Ret (Inr (), ?g)"
    by (simp add: new names all registry_configure_def metadata_intern_tables_def)
  with table_prefix_lookup [OF ks(1) small] known inverse ns(2) show ?thesis
    by (intro exI [of _ ?g]) (simp add: registry_channel_def Un_assoc)
qed

theorem configure_keeps_ids_witness:
  "\<exists>g i. registry_configure (registry_new [''imu''])
        (metadata_intern_tables \<lparr>channel_names = table_of [''gps''], callback_names = interner_new\<rparr>) = Ret (Inr (), g)
     \<and> registry_channel g ''gps'' = Ret (InternId 0) \<and> registry_channel g ''imu'' = Ret i"
proof -
  have "try_lookup_by_id (table_of [''gps'']) (InternId 0) = Some ''gps''"
    using table_of_lookups(2) [of "[''gps'']" 0] by simp
  with configure_keeps_ids [of "[''gps'']" "[''imu'']" interner_new] show ?thesis by auto
qed

text \<open>
  C33: Starting a log writes the name tables first, then the descriptor, once. A start that succeeds
  has found every callback of the descriptor under its position and every endpoint's channel in the
  tables; the bytes of the tables, which serde reads back, decode to the registry's tables. After it
  the registry is frozen: a further start writes nothing and tables and descriptor cannot change. A
  start never panics, and one that fails leaves the registry as it was.
\<close>

theorem start_writes_tables_once:
  fixes W :: "'f artifact_writer"
  assumes "reg_tables g = \<lparr>channels_table = table_of ns, callbacks_table = table_of bs\<rparr>" and "\<not> reg_started g"
    and "distinct ns" and "length ns \<le> 2 ^ 32" and "distinct bs" and "length bs \<le> 2 ^ 32"
    and serde: "\<And>names bytes. tables_to_vec W names = Inr bytes \<Longrightarrow> parse bytes = Inr names"
  shows "case registry_start W g f of
      Ret (Inr _, g', f') \<Rightarrow> g' = g\<lparr>reg_started := True\<rparr>
        \<and> (\<exists>bytes f1. write_artifact W f INTERN_TABLES_ARTIFACT bytes = (Inr (), f1)
            \<and> decode_intern_tables parse (Some bytes) = Inr (reg_tables g)
            \<and> (case reg_descriptor g of
                None \<Rightarrow> f' = f1
              | Some d \<Rightarrow> (\<exists>db. descriptor_to_vec W d = Inr db
                    \<and> write_artifact W f1 EXECUTION_LOG_DESCRIPTOR_ARTIFACT db = (Inr (), f'))
                  \<and> (\<forall>i < length (desc_callbacks d). i < length bs \<and> desc_name (desc_callbacks d ! i) = bs ! i
                      \<and> (\<forall>e \<in> set (desc_endpoints (desc_callbacks d ! i)). desc_channel e \<in> set ns))))
        \<and> (\<forall>f2. registry_start W g' f2 = Ret (Inr (), g', f2))
        \<and> (\<forall>t. \<exists>e. registry_configure g' t = Ret (Inl e, g'))
        \<and> (\<forall>d. \<exists>e. registry_recording g' d = (Inl e, g'))
    | Ret (Inl _, g', _) \<Rightarrow> g' = g
    | _ \<Rightarrow> False"
proof -
  let ?checked = "case reg_descriptor g of Some d \<Rightarrow> validate_descriptor_tables (reg_tables g) d | None \<Rightarrow> Inr ()"
  show ?thesis
  proof (cases ?checked)
    case (Inl e)
    then show ?thesis using assms(2) by (simp add: registry_start_def)
  next
    case checked: (Inr u)
    have valid: "\<forall>i < length (desc_callbacks d). i < length bs \<and> desc_name (desc_callbacks d ! i) = bs ! i
        \<and> (\<forall>e \<in> set (desc_endpoints (desc_callbacks d ! i)). desc_channel e \<in> set ns)"
      if "reg_descriptor g = Some d" for d
      using checked that validate_descriptors_iff [OF assms(5,6), of ns 0 "desc_callbacks d"] assms(1)
      by (simp add: validate_descriptor_tables_def)
    have vec: "tables_serialize W (reg_tables g) = Ret (tables_to_vec W (ns, bs))"
      unfolding assms(1) by (rule tables_serialize_table [OF assms(3-6)])
    show ?thesis
    proof (cases "tables_to_vec W (ns, bs)")
      case (Inl e)
      then show ?thesis using assms(2) checked vec by (simp add: registry_start_def)
    next
      case (Inr bytes)
      have decode: "decode_intern_tables parse (Some bytes) = Inr (reg_tables g)"
        using serde [OF Inr] assms(3-6) by (simp add: decode_intern_tables_def interner_deserialize_table assms(1))
      obtain w f1 where first: "write_artifact W f INTERN_TABLES_ARTIFACT bytes = (w, f1)" by fastforce
      obtain w2 f2 where second: "write_descriptor W f1 (reg_descriptor g) = (w2, f2)" by fastforce
      have start: "registry_start W g f = (case w of Inl e \<Rightarrow> Ret (Inl e, g, f1)
          | Inr _ \<Rightarrow> (case w2 of Inl e \<Rightarrow> Ret (Inl e, g, f2) | Inr _ \<Rightarrow> Ret (Inr (), g\<lparr>reg_started := True\<rparr>, f2)))"
        using assms(2) checked vec Inr first second
        by (cases w; cases w2) (simp_all add: registry_start_def)
      have frozen: "registry_start W (g\<lparr>reg_started := True\<rparr>) f3 = Ret (Inr (), g\<lparr>reg_started := True\<rparr>, f3)"
          "\<exists>e. registry_configure (g\<lparr>reg_started := True\<rparr>) t = Ret (Inl e, g\<lparr>reg_started := True\<rparr>)"
          "\<exists>e. registry_recording (g\<lparr>reg_started := True\<rparr>) d = (Inl e, g\<lparr>reg_started := True\<rparr>)" for f3 t d
        by (simp_all add: registry_start_def registry_configure_def registry_recording_def)
      show ?thesis
      proof (cases "reg_descriptor g")
        case None
        then show ?thesis using first second frozen decode unfolding start
          by (cases w) (auto simp: write_descriptor_def)
      next
        case (Some d)
        then show ?thesis using first second frozen decode valid [OF Some] unfolding start
          by (cases w; cases w2; cases "descriptor_to_vec W d") (auto simp: write_descriptor_def)
      qed
    qed
  qed
qed

text \<open>A writer that keeps the artifacts and can print one pair of tables.\<close>

definition sample_writer :: "(string \<times> byte list) list artifact_writer" where
  "sample_writer = \<lparr>write_artifact = (\<lambda>f name bytes. (Inr (), f @ [(name, bytes)])),
     tables_to_vec = (\<lambda>names. if names = ([''imu''], [''work'']) then Inr [0] else Inl ''unsupported''),
     descriptor_to_vec = (\<lambda>_. Inr [1])\<rparr>"

definition sample_registry :: registry where
  "sample_registry = \<lparr>reg_tables = \<lparr>channels_table = table_of [''imu''], callbacks_table = table_of [''work'']\<rparr>,
     reg_started = False, reg_descriptor = Some \<lparr>desc_callbacks = [\<lparr>desc_name = ''work'', desc_mode = FullMode,
       desc_endpoints = [\<lparr>desc_ordinal = 0, desc_channel = ''imu'', desc_direction = Received,
         desc_transport = Native, desc_payload_type = ''i32'', desc_publisher = None\<rparr>]\<rparr>], logged_channels = [''imu'']\<rparr>\<rparr>"

definition sample_parse :: "byte list \<Rightarrow> string + string list \<times> string list" where
  "sample_parse bytes = Inr ([''imu''], [''work''])"

theorem start_writes_tables_once_witness:
  "\<exists>g'. registry_start sample_writer sample_registry []
      = Ret (Inr (), g', [(INTERN_TABLES_ARTIFACT, [0]), (EXECUTION_LOG_DESCRIPTOR_ARTIFACT, [1])])
    \<and> decode_intern_tables sample_parse (Some [0]) = Inr (reg_tables sample_registry)
    \<and> registry_start sample_writer g' [] = Ret (Inr (), g', [])"
proof -
  let ?t = "\<lparr>channels_table = table_of [''imu''], callbacks_table = table_of [''work'']\<rparr>"
  have "tables_serialize sample_writer ?t = Ret (tables_to_vec sample_writer ([''imu''], [''work'']))"
    by (rule tables_serialize_table) simp_all
  moreover have "validate_descriptor_tables ?t (the (reg_descriptor sample_registry)) = Inr ()"
    unfolding validate_descriptor_tables_def
    by (subst validate_descriptors_iff) (simp_all add: sample_registry_def)
  ultimately have start: "registry_start sample_writer sample_registry [] = Ret (Inr (), sample_registry\<lparr>reg_started := True\<rparr>,
      [(INTERN_TABLES_ARTIFACT, [0]), (EXECUTION_LOG_DESCRIPTOR_ARTIFACT, [1])])"
    by (simp add: registry_start_def sample_registry_def sample_writer_def write_descriptor_def)
  have serde: "sample_parse bytes = Inr names"
    if "tables_to_vec sample_writer names = Inr bytes" for names bytes
    using that by (auto simp: sample_parse_def sample_writer_def split: if_splits)
  have g: "reg_tables sample_registry = ?t" "\<not> reg_started sample_registry" by (simp_all add: sample_registry_def)
  have small: "distinct [''imu'']" "length [''imu''] \<le> 2 ^ 32" "distinct [''work'']" "length [''work''] \<le> 2 ^ 32"
    by simp_all
  from start_writes_tables_once [OF g small, of sample_writer sample_parse "[]", OF serde]
  have "decode_intern_tables sample_parse (Some [0]) = Inr (reg_tables sample_registry)"
    "registry_start sample_writer (sample_registry\<lparr>reg_started := True\<rparr>) []
      = Ret (Inr (), sample_registry\<lparr>reg_started := True\<rparr>, [])"
    unfolding start by (auto simp: decode_intern_tables_def sample_parse_def)
  with start show ?thesis by blast
qed

end
