(* ===== verification/Replay_Feed.thy ===== *)
theory Replay_Feed
  imports Log_Stream Intern_Tables
begin

text \<open>
  \<open>logging/src/replay_feed.rs\<close>: the entries of a sorted log are selected and injected into the
  channels of a graph, up to a given time.

  The publications behind the sources and the delivery of events act on a state of type \<open>'s\<close>: they
  are the arguments \<open>S\<close> and \<open>deliver_event\<close>, and the feed keeps the names of the channels that have a
  source. \<open>running\<close> is the caller's closure, with a state of its own. The parsers are serde's.
\<close>

section \<open>Records\<close>

record logged_iox2_event =
  event_ordinal :: nat
  event_id :: nat
  event_count :: nat

record iox2_event_record =
  observed_callback :: intern_id
  observed_at :: framework_time
  observed_event :: logged_iox2_event

datatype record_outcome = Committed | BodyError loan_error | BodyPanicked | Cancelled | CommitPanicked

record execution_record =
  record_callback :: intern_id
  execution_time :: framework_time
  body_duration_ns :: nat
  record_inputs :: "logged_message list"
  record_events :: "logged_iox2_event list"
  record_output_events :: "logged_iox2_event list"
  record_outputs :: "logged_message list"
  record_outcome :: record_outcome
  record_truncated :: nat

record feed_codec =
  descriptor_from_slice :: "byte list \<Rightarrow> string + execution_descriptor"
  tables_from_slice :: "byte list \<Rightarrow> string + string list \<times> string list"
  execution_from_slice :: "byte list \<Rightarrow> string + execution_record"
  event_from_slice :: "byte list \<Rightarrow> string + iox2_event_record"

datatype feed_pending = Data log_entry | Iox2Observation string string iox2_event_record

fun pending_time :: "feed_pending \<Rightarrow> framework_time" where
  "pending_time (Data e) = entry_time e"
| "pending_time (Iox2Observation callback channel event) = observed_at event"

record replay_feed =
  feed_reader :: log_reader
  feed_sources :: "string set"
  feed_descriptor :: "execution_descriptor option"
  feed_denied :: "string set"
  feed_pending :: "feed_pending option"
  feed_exhausted :: bool
  feed_failed :: bool
  feed_last_time :: "framework_time option"

definition next_time :: "replay_feed \<Rightarrow> framework_time option" where
  "next_time f = map_option pending_time (feed_pending f)"

section \<open>Selection\<close>

text \<open>What the loop of \<open>advance\<close> does with an entry: an error, nothing, or the pending item.\<close>

definition select_execution ::
  "feed_codec \<Rightarrow> execution_descriptor option \<Rightarrow> log_entry \<Rightarrow> string + feed_pending option" where
  "select_execution J descriptor e = (case execution_from_slice J (serialized_body e) of
     Inl x \<Rightarrow> Inl x
   | Inr r \<Rightarrow> (case descriptor of
       None \<Rightarrow> Inl ''execution record has no descriptor''
     | Some d \<Rightarrow>
         if length (desc_callbacks d) \<le> intern_index (record_callback r) \<or> execution_time r \<noteq> entry_time e
         then Inl ''invalid execution record index or timestamp''
         else Inr None))"

definition select_event ::
  "feed_codec \<Rightarrow> execution_descriptor option \<Rightarrow> string set \<Rightarrow> log_entry \<Rightarrow> string + feed_pending option" where
  "select_event J descriptor denied e = (case event_from_slice J (serialized_body e) of
     Inl x \<Rightarrow> Inl x
   | Inr event \<Rightarrow>
       if observed_at event \<noteq> entry_time e then Inl ''event timestamp differs from log header''
       else (case Option.bind descriptor (\<lambda>d. let i = intern_index (observed_callback event) in
           if i < length (desc_callbacks d) then Some (desc_callbacks d ! i) else None) of
         None \<Rightarrow> Inl ''event record has no matching callback descriptor''
       | Some callback \<Rightarrow> (case filter (\<lambda>p. desc_direction p = Received
               \<and> desc_ordinal p = event_ordinal (observed_event event)) (desc_endpoints callback) of
           [] \<Rightarrow> Inl ''event record has unknown subscriber ordinal''
         | endpoint # others \<Rightarrow>
             if others \<noteq> [] \<or> desc_transport endpoint \<noteq> Iox2Event
             then Inl ''event record has ambiguous or non-event subscriber ordinal''
             else if desc_channel endpoint \<in> denied then Inr None
             else Inr (Some (Iox2Observation (desc_name callback) (desc_channel endpoint) event)))))"

definition select_entry ::
  "feed_codec \<Rightarrow> execution_descriptor option \<Rightarrow> string set \<Rightarrow> log_entry \<Rightarrow> string + feed_pending option" where
  "select_entry J descriptor denied e =
     (if channel_name e \<in> denied then Inr None
      else if channel_name e = EXECUTION_LOG_CHANNEL then select_execution J descriptor e
      else if channel_name e = IOX2_EVENT_RECORD_CHANNEL then select_event J descriptor denied e
      else Inr (Some (Data e)))"

lemma next_entry_shrinks:
  assumes "next_entry r = (Inr (Some e), r')"
  shows "reader_size r' < reader_size r"
proof -
  have "peeked r \<noteq> None"
    using assms by (auto simp: next_entry_def split: if_splits prod.splits sum.splits)
  with next_entry_size [OF assms] show ?thesis by simp
qed

function advance_loop ::
  "feed_codec \<Rightarrow> ('r \<Rightarrow> bool \<times> 'r) \<Rightarrow> 'r \<Rightarrow> replay_feed \<Rightarrow> (string + unit) \<times> 'r \<times> replay_feed" where
  "advance_loop J running rs f = (case running rs of
     (False, rs1) \<Rightarrow> (Inr (), rs1, f)
   | (True, rs1) \<Rightarrow> (case next_entry (feed_reader f) of
       (Inl x, r) \<Rightarrow> (Inl (log_error_text x), rs1, f\<lparr>feed_reader := r\<rparr>)
     | (Inr None, r) \<Rightarrow> (Inr (), rs1, f\<lparr>feed_reader := r, feed_exhausted := True\<rparr>)
     | (Inr (Some e), r) \<Rightarrow>
         let f1 = f\<lparr>feed_reader := r, feed_last_time := Some (entry_time e)\<rparr> in
         case select_entry J (feed_descriptor f) (feed_denied f) e of
           Inl x \<Rightarrow> (Inl x, rs1, f1)
         | Inr None \<Rightarrow> advance_loop J running rs1 f1
         | Inr (Some p) \<Rightarrow> (Inr (), rs1, f1\<lparr>feed_pending := Some p\<rparr>)))"
  by pat_completeness auto
termination
  by (relation "measure (\<lambda>(J, running, rs, f). reader_size (feed_reader f))")
    (auto intro!: next_entry_shrinks [OF sym])

declare advance_loop.simps [simp del]

definition feed_advance ::
  "feed_codec \<Rightarrow> ('r \<Rightarrow> bool \<times> 'r) \<Rightarrow> 'r \<Rightarrow> replay_feed \<Rightarrow> (string + unit) \<times> 'r \<times> replay_feed" where
  "feed_advance J running rs f = advance_loop J running rs (f\<lparr>feed_pending := None\<rparr>)"

section \<open>Construction\<close>

definition is_reserved :: "string \<Rightarrow> bool" where
  "is_reserved name \<longleftrightarrow> name = EXECUTION_LOG_CHANNEL \<or> name = IOX2_EVENT_RECORD_CHANNEL"

definition reject_incomplete_recording :: "byte list option \<Rightarrow> string + unit" where
  "reject_incomplete_recording artifact =
     (if artifact \<noteq> None then Inl ''log recording is incomplete (recording_incompleteness artifact)'' else Inr ())"

fun insert_sources :: "string set \<Rightarrow> string list \<Rightarrow> string + string set" where
  "insert_sources m [] = Inr m"
| "insert_sources m (name # names) =
     (if is_reserved name then Inl (''reserved replay source channel '' @ [CHR 0x27] @ name @ [CHR 0x27])
      else if name \<in> m then Inl (''duplicate replay source for '' @ [CHR 0x27] @ name @ [CHR 0x27])
      else insert_sources (insert name m) names)"

text \<open>The channels of the log, in the order in which the hash set yields them.\<close>

fun check_channels :: "string set \<Rightarrow> string set \<Rightarrow> string list \<Rightarrow> string + unit" where
  "check_channels denied m [] = Inr ()"
| "check_channels denied m (channel # channels) =
     (if \<not> is_reserved channel \<and> channel \<notin> denied \<and> channel \<notin> m
      then Inl (''no replay source for channel '' @ [CHR 0x27] @ channel @ [CHR 0x27]
        @ '' (add a source or explicitly deny it)'')
      else check_channels denied m channels)"

fun check_callbacks :: "string set \<Rightarrow> callback_descriptor list \<Rightarrow> string + unit" where
  "check_callbacks names [] = Inr ()"
| "check_callbacks names (c # cs) =
     (if desc_name c \<in> names
      then Inl (''duplicate recorded callback name '' @ [CHR 0x27] @ desc_name c @ [CHR 0x27])
      else if \<not> distinct (map (\<lambda>e. (desc_direction e = Received, desc_ordinal e)) (desc_endpoints c))
      then Inl (''duplicate endpoint ordinal on '' @ [CHR 0x27] @ desc_name c @ [CHR 0x27])
      else check_callbacks (insert (desc_name c) names) cs)"

definition feed_artifacts :: "feed_codec \<Rightarrow> log_reader \<Rightarrow> string + execution_descriptor option" where
  "feed_artifacts J reader = (case reader_artifact reader EXECUTION_LOG_DESCRIPTOR_ARTIFACT of
     None \<Rightarrow> Inr None
   | Some bytes \<Rightarrow> (case descriptor_from_slice J bytes of
       Inl x \<Rightarrow> Inl x
     | Inr d \<Rightarrow> (case decode_intern_tables (tables_from_slice J) (reader_artifact reader INTERN_TABLES_ARTIFACT) of
         Inl x \<Rightarrow> Inl x
       | Inr tables \<Rightarrow> (case validate_descriptor_tables tables d of
           Inl x \<Rightarrow> Inl x
         | Inr _ \<Rightarrow> (case check_callbacks {} (desc_callbacks d) of
             Inl x \<Rightarrow> Inl x
           | Inr _ \<Rightarrow> Inr (Some d))))))"

definition feed_new ::
  "feed_codec \<Rightarrow> log_reader \<Rightarrow> string list \<Rightarrow> string list \<Rightarrow> string set \<Rightarrow> string + replay_feed" where
  "feed_new J reader channel_order sources denied =
     (case reject_incomplete_recording (reader_artifact reader RECORDING_INCOMPLETENESS_ARTIFACT) of
       Inl x \<Rightarrow> Inl x
     | Inr _ \<Rightarrow> (case insert_sources {} sources of
         Inl x \<Rightarrow> Inl x
       | Inr m \<Rightarrow> (case check_channels denied m channel_order of
           Inl x \<Rightarrow> Inl x
         | Inr _ \<Rightarrow> (case feed_artifacts J reader of
             Inl x \<Rightarrow> Inl x
           | Inr descriptor \<Rightarrow>
               (case feed_advance J (\<lambda>u. (True, u)) () \<lparr>feed_reader = reader, feed_sources = m,
                   feed_descriptor = descriptor, feed_denied = denied, feed_pending = None, feed_exhausted = False,
                   feed_failed = False, feed_last_time = None\<rparr> of
                 (Inl x, _) \<Rightarrow> Inl x
               | (Inr _, _, feed) \<Rightarrow> Inr feed)))))"

section \<open>Injection\<close>

type_synonym 's source_inject = "string \<Rightarrow> message_header \<Rightarrow> byte list \<Rightarrow> 's \<Rightarrow> ((string + unit) \<times> 's) outcome"
type_synonym 's event_inject = "string \<Rightarrow> string \<Rightarrow> iox2_event_record \<Rightarrow> 's \<Rightarrow> ((string + unit) \<times> 's) outcome"

definition inject_pending ::
  "'s source_inject \<Rightarrow> 's event_inject \<Rightarrow> string set \<Rightarrow> feed_pending \<Rightarrow> 's \<Rightarrow> ((string + unit) \<times> 's) outcome" where
  "inject_pending S deliver_event sources p s = (case p of
     Data e \<Rightarrow>
       if channel_name e \<notin> sources then Panic
       else and_then (S (channel_name e) (entry_header e) (serialized_body e) s) (\<lambda>(r, s1). Ret (case r of
           Inl x \<Rightarrow> Inl (''replay channel '' @ [CHR 0x27] @ channel_name e @ [CHR 0x27] @ '' at ''
             @ fmt_as_fractional_sec (entry_time e) @ '': '' @ x)
         | Inr _ \<Rightarrow> Inr (), s1))
   | Iox2Observation callback channel event \<Rightarrow> deliver_event callback channel event s)"

definition feed_size :: "replay_feed \<Rightarrow> nat" where
  "feed_size f = reader_size (feed_reader f) + (case feed_pending f of None \<Rightarrow> 0 | Some _ \<Rightarrow> 1)"

lemma next_entry_no_growth:
  assumes "next_entry r = (Inr q, r')"
  shows "reader_size r' \<le> reader_size r"
  using assms source_next_length [of "log_source r"]
  by (fastforce simp: next_entry_def reader_advance_def reader_size_def
      split: if_splits prod.splits sum.splits option.splits)

lemma advance_loop_size:
  "advance_loop J running rs f = (Inr u, rs', f') \<Longrightarrow> feed_pending f = None \<Longrightarrow> feed_size f' \<le> feed_size f"
proof (induction J running rs f rule: advance_loop.induct)
  case (1 J running rs f)
  obtain go rs1 where go: "running rs = (go, rs1)" by fastforce
  obtain n r where n: "next_entry (feed_reader f) = (n, r)" by fastforce
  note loop = advance_loop.simps [of J running rs f, unfolded go n]
  show ?case
  proof (cases "go \<and> (\<exists>e. n = Inr (Some e))")
    case True
    then obtain e where e: "n = Inr (Some e)" by blast
    have less: "reader_size r < reader_size (feed_reader f)" using next_entry_shrinks n e by simp
    consider (bad) x where "select_entry J (feed_descriptor f) (feed_denied f) e = Inl x"
      | (skip) "select_entry J (feed_descriptor f) (feed_denied f) e = Inr None"
      | (found) p where "select_entry J (feed_descriptor f) (feed_denied f) e = Inr (Some p)" by (metis obj_sumE option.exhaust)
    then show ?thesis
    proof cases
      case bad
      with 1(2) True loop e show ?thesis by simp
    next
      case skip
      let ?f = "f\<lparr>feed_reader := r, feed_last_time := Some (entry_time e)\<rparr>"
      have "feed_size f' \<le> feed_size ?f"
        using 1 True loop e go n skip by (intro "1.IH") auto
      with less show ?thesis by (simp add: feed_size_def)
    next
      case found
      with 1(2,3) True loop e less show ?thesis by (auto simp: feed_size_def Let_def)
    qed
  next
    case False
    with 1(2,3) loop n next_entry_no_growth [of "feed_reader f"] show ?thesis
      by (cases go; cases n) (auto simp: feed_size_def split: option.splits)
  qed
qed

function inject_loop ::
  "feed_codec \<Rightarrow> 's source_inject \<Rightarrow> 's event_inject \<Rightarrow> ('r \<Rightarrow> bool \<times> 'r) \<Rightarrow> framework_time \<Rightarrow> replay_feed \<Rightarrow> 'r \<Rightarrow> 's
     \<Rightarrow> ((string + unit) \<times> replay_feed \<times> 'r \<times> 's) outcome" where
  "inject_loop J S deliver_event running t f rs s = (case feed_pending f of
     None \<Rightarrow> Ret (Inr (), f, rs, s)
   | Some p \<Rightarrow>
       if t < pending_time p then Ret (Inr (), f, rs, s)
       else (case running rs of
           (False, rs1) \<Rightarrow> Ret (Inr (), f, rs1, s)
         | (True, rs1) \<Rightarrow> and_then (inject_pending S deliver_event (feed_sources f) p s) (\<lambda>(r, s1). case r of
             Inl x \<Rightarrow> Ret (Inl x, f\<lparr>feed_pending := None\<rparr>, rs1, s1)
           | Inr _ \<Rightarrow> (case feed_advance J running rs1 (f\<lparr>feed_pending := None\<rparr>) of
               (Inl x, rs2, f2) \<Rightarrow> Ret (Inl x, f2, rs2, s1)
             | (Inr _, rs2, f2) \<Rightarrow> inject_loop J S deliver_event running t f2 rs2 s1))))"
  by pat_completeness auto
termination
  by (relation "measure (\<lambda>(J, S, ev, running, t, f, rs, s). feed_size f)")
    (auto dest!: advance_loop_size [OF sym] simp: feed_advance_def feed_size_def)

declare inject_loop.simps [simp del]

text \<open>The closure of \<open>inject_due_while\<close>, whose error poisons the feed.\<close>

definition inject_due_while ::
  "feed_codec \<Rightarrow> 's source_inject \<Rightarrow> 's event_inject \<Rightarrow> ('r \<Rightarrow> bool \<times> 'r) \<Rightarrow> framework_time \<Rightarrow> replay_feed \<Rightarrow> 'r \<Rightarrow> 's
     \<Rightarrow> ((string + framework_time option) \<times> replay_feed \<times> 'r \<times> 's) outcome" where
  "inject_due_while J S deliver_event running t f rs s =
     (if feed_failed f then Ret (Inl ''replay feed failed previously'', f, rs, s)
      else (case (if feed_pending f = None \<and> \<not> feed_exhausted f then feed_advance J running rs f else (Inr (), rs, f)) of
          (Inl x, rs1, f1) \<Rightarrow> Ret (Inl x, f1\<lparr>feed_failed := True\<rparr>, rs1, s)
        | (Inr _, rs1, f1) \<Rightarrow> and_then (inject_loop J S deliver_event running t f1 rs1 s) (\<lambda>(r, f2, rs2, s1). Ret (case r of
            Inl x \<Rightarrow> (Inl x, f2\<lparr>feed_failed := True\<rparr>, rs2, s1)
          | Inr _ \<Rightarrow> (Inr (next_time f2), f2, rs2, s1)))))"

definition inject_due ::
  "feed_codec \<Rightarrow> 's source_inject \<Rightarrow> 's event_inject \<Rightarrow> framework_time \<Rightarrow> replay_feed \<Rightarrow> 's
     \<Rightarrow> ((string + framework_time option) \<times> replay_feed \<times> 's) outcome" where
  "inject_due J S deliver_event t f s =
     and_then (inject_due_while J S deliver_event (\<lambda>u. (True, u)) t f () s) (\<lambda>(r, f1, _, s1). Ret (r, f1, s1))"

section \<open>The stream of selected items\<close>

text \<open>What the log still holds for the feed, as a list.\<close>

definition selected ::
  "feed_codec \<Rightarrow> execution_descriptor option \<Rightarrow> string set \<Rightarrow> log_entry \<Rightarrow> feed_pending list" where
  "selected J descriptor denied e = (case select_entry J descriptor denied e of Inr (Some p) \<Rightarrow> [p] | _ \<Rightarrow> [])"

definition remaining :: "feed_codec \<Rightarrow> replay_feed \<Rightarrow> feed_pending list" where
  "remaining J f = concat (map (selected J (feed_descriptor f) (feed_denied f)) (pending_entries (feed_reader f)))"

definition feed_items :: "feed_codec \<Rightarrow> replay_feed \<Rightarrow> feed_pending list" where
  "feed_items J f = (case feed_pending f of None \<Rightarrow> [] | Some p \<Rightarrow> [p]) @ remaining J f"

fun has_source :: "string set \<Rightarrow> feed_pending \<Rightarrow> bool" where
  "has_source m (Data e) \<longleftrightarrow> channel_name e \<in> m"
| "has_source m (Iox2Observation _ _ _) \<longleftrightarrow> True"

definition feed_inv :: "feed_codec \<Rightarrow> replay_feed \<Rightarrow> bool" where
  "feed_inv J f \<longleftrightarrow> reader_intact (feed_reader f)
     \<and> (\<forall>e \<in> set (pending_entries (feed_reader f)). \<exists>q. select_entry J (feed_descriptor f) (feed_denied f) e = Inr q)
     \<and> (\<forall>p \<in> set (feed_items J f). has_source (feed_sources f) p)
     \<and> (feed_exhausted f \<longrightarrow> pending_entries (feed_reader f) = [] \<and> feed_pending f = None)"

definition same_plan :: "replay_feed \<Rightarrow> replay_feed \<Rightarrow> bool" where
  "same_plan f f' \<longleftrightarrow> feed_sources f = feed_sources f' \<and> feed_descriptor f = feed_descriptor f'
     \<and> feed_denied f = feed_denied f' \<and> feed_failed f = feed_failed f'"

text \<open>A feed is awake when it holds the next item or has seen the end of the log.\<close>

definition feed_awake :: "replay_feed \<Rightarrow> bool" where
  "feed_awake f \<longleftrightarrow> (feed_pending f = None \<longrightarrow> feed_exhausted f)"

lemma feed_next_entry:
  assumes "feed_inv J f" and "feed_pending f = None"
  obtains (eof) r where "pending_entries (feed_reader f) = []" "next_entry (feed_reader f) = (Inr None, r)"
      "feed_inv J (f\<lparr>feed_reader := r, feed_exhausted := True\<rparr>)"
      "feed_items J (f\<lparr>feed_reader := r, feed_exhausted := True\<rparr>) = []" "feed_items J f = []"
  | (entry) e r q where "next_entry (feed_reader f) = (Inr (Some e), r)" "\<not> feed_exhausted f"
      "select_entry J (feed_descriptor f) (feed_denied f) e = Inr q"
      "feed_inv J (f\<lparr>feed_reader := r, feed_last_time := Some (entry_time e), feed_pending := q\<rparr>)"
      "feed_items J (f\<lparr>feed_reader := r, feed_last_time := Some (entry_time e), feed_pending := q\<rparr>) = feed_items J f"
proof (cases "pending_entries (feed_reader f)")
  case Nil
  with next_entry_intact [of "feed_reader f"] assms obtain r where
    "next_entry (feed_reader f) = (Inr None, r)" "reader_intact r" "pending_entries r = []"
    by (auto simp: feed_inv_def)
  with Nil assms show ?thesis by (intro eof [of r]) (simp_all add: feed_inv_def feed_items_def remaining_def)
next
  case (Cons e es)
  with next_entry_intact [of "feed_reader f"] assms obtain r where
    r: "next_entry (feed_reader f) = (Inr (Some e), r)" "reader_intact r" "pending_entries r = es"
    by (auto simp: feed_inv_def)
  from assms Cons obtain q where q: "select_entry J (feed_descriptor f) (feed_denied f) e = Inr q"
    by (auto simp: feed_inv_def)
  let ?f = "f\<lparr>feed_reader := r, feed_last_time := Some (entry_time e), feed_pending := q\<rparr>"
  have items: "feed_items J ?f = feed_items J f"
    using assms(2) Cons r(3) q by (auto simp: feed_items_def remaining_def selected_def split: option.splits)
  moreover have "feed_inv J ?f"
    using assms(1) r(2,3) Cons unfolding feed_inv_def items by simp
  ultimately show ?thesis using r(1) q assms(1) Cons by (intro entry [of e r q]) (auto simp: feed_inv_def)
qed

lemma advance_loop_plan:
  "advance_loop J running rs f = (q, rs', f') \<Longrightarrow> same_plan f' f"
proof (induction J running rs f rule: advance_loop.induct)
  case (1 J running rs f)
  obtain go rs1 where go: "running rs = (go, rs1)" by fastforce
  obtain n r where n: "next_entry (feed_reader f) = (n, r)" by fastforce
  note loop = advance_loop.simps [of J running rs f, unfolded go n]
  show ?case
  proof (cases "go \<and> (\<exists>e. n = Inr (Some e) \<and> select_entry J (feed_descriptor f) (feed_denied f) e = Inr None)")
    case True
    then obtain e where e: "n = Inr (Some e)" "select_entry J (feed_descriptor f) (feed_denied f) e = Inr None" by blast
    have "same_plan f' (f\<lparr>feed_reader := r, feed_last_time := Some (entry_time e)\<rparr>)"
      using 1 True loop e go n by (intro "1.IH") auto
    then show ?thesis by (simp add: same_plan_def)
  next
    case False
    with 1(2) loop show ?thesis
      by (cases go; cases n) (auto simp: same_plan_def Let_def split: option.splits sum.splits)
  qed
qed

lemma advance_loop_law:
  assumes "feed_inv J f" and "feed_pending f = None"
  shows "\<exists>rs' f'. advance_loop J running rs f = (Inr (), rs', f') \<and> feed_inv J f' \<and> feed_items J f' = feed_items J f
    \<and> same_plan f' f \<and> ((\<forall>rs. fst (running rs)) \<longrightarrow> feed_awake f')"
  using assms
proof (induction J running rs f rule: advance_loop.induct)
  case (1 J running rs f)
  obtain go rs1 where go: "running rs = (go, rs1)" by fastforce
  note loop = advance_loop.simps [of J running rs f, unfolded go]
  show ?case
  proof (cases go)
    case False
    then have "\<not> (\<forall>rs. fst (running rs))" using go by (metis fst_conv)
    with False loop 1(2,3) show ?thesis by (auto simp: same_plan_def)
  next
    case True
    from 1(2,3) show ?thesis
    proof (cases rule: feed_next_entry)
      case (eof r)
      with True loop 1(3) show ?thesis by (auto simp: same_plan_def feed_awake_def)
    next
      case (entry e r q)
      show ?thesis
      proof (cases q)
        case None
        let ?f = "f\<lparr>feed_reader := r, feed_last_time := Some (entry_time e)\<rparr>"
        have f: "f\<lparr>feed_reader := r, feed_last_time := Some (entry_time e), feed_pending := None\<rparr> = ?f" using 1(3) by simp
        have inv: "feed_inv J ?f" "feed_items J ?f = feed_items J f" using entry(4,5) unfolding None f by simp_all
        have "advance_loop J running rs f = advance_loop J running rs1 ?f" using True loop entry None by simp
        moreover have "same_plan x ?f \<longleftrightarrow> same_plan x f" for x by (simp add: same_plan_def)
        ultimately show ?thesis
          using "1.IH" [of True rs1 "Inr (Some e)" r "Some e" e ?f q] True go entry(1,3) None 1(3) inv by simp
      next
        case (Some p)
        with True loop entry show ?thesis by (auto simp: same_plan_def feed_awake_def)
      qed
    qed
  qed
qed

text \<open>The reference: the items are injected one after the other until one fails.\<close>

fun inject_all ::
  "'s source_inject \<Rightarrow> 's event_inject \<Rightarrow> string set \<Rightarrow> feed_pending list \<Rightarrow> 's \<Rightarrow> ((string + unit) \<times> 's) outcome" where
  "inject_all S deliver_event sources [] s = Ret (Inr (), s)"
| "inject_all S deliver_event sources (p # ps) s =
     and_then (inject_pending S deliver_event sources p s) (\<lambda>(r, s1). case r of
       Inl x \<Rightarrow> Ret (Inl x, s1)
     | Inr _ \<Rightarrow> inject_all S deliver_event sources ps s1)"

definition due_items :: "feed_codec \<Rightarrow> framework_time \<Rightarrow> replay_feed \<Rightarrow> feed_pending list" where
  "due_items J t f = takeWhile (\<lambda>p. pending_time p \<le> t) (feed_items J f)"

text \<open>
  What a run of the injection loop has done: a prefix of the due items was injected and the rest is
  still there, or the first failure among the due items was met.
\<close>

definition injected ::
  "feed_codec \<Rightarrow> 's source_inject \<Rightarrow> 's event_inject \<Rightarrow> ('r \<Rightarrow> bool \<times> 'r) \<Rightarrow> framework_time \<Rightarrow> replay_feed \<Rightarrow> 's
     \<Rightarrow> ((string + unit) \<times> replay_feed \<times> 'r \<times> 's) outcome \<Rightarrow> bool" where
  "injected J S deliver_event running t f s r = (case r of
     Ret (Inr _, f', _, s') \<Rightarrow> feed_inv J f' \<and> same_plan f' f
       \<and> (\<exists>n \<le> length (due_items J t f). inject_all S deliver_event (feed_sources f) (take n (due_items J t f)) s = Ret (Inr (), s')
           \<and> feed_items J f' = drop n (feed_items J f)
           \<and> ((\<forall>rs. fst (running rs)) \<longrightarrow> feed_awake f \<longrightarrow> n = length (due_items J t f) \<and> feed_awake f'))
   | Ret (Inl x, f', _, s') \<Rightarrow> same_plan f' f \<and> inject_all S deliver_event (feed_sources f) (due_items J t f) s = Ret (Inl x, s')
   | _ \<Rightarrow> (\<forall>q. inject_all S deliver_event (feed_sources f) (due_items J t f) s \<noteq> Ret q))"

lemma feed_items_empty: "feed_inv J f \<Longrightarrow> feed_awake f \<Longrightarrow> feed_pending f = None \<Longrightarrow> feed_items J f = []"
  by (simp add: feed_inv_def feed_awake_def feed_items_def remaining_def)

lemma injected_none:
  assumes "feed_inv J f" and "feed_awake f \<Longrightarrow> due_items J t f = [] \<or> \<not> (\<forall>rs. fst (running rs))"
  shows "injected J S deliver_event running t f s (Ret (Inr (), f, rs, s))"
  using assms by (auto simp: injected_def same_plan_def intro: exI [of _ 0])

lemma injected_step:
  assumes "feed_inv J f" and "feed_pending f = Some p" and "pending_time p \<le> t"
    and "inject_pending S deliver_event (feed_sources f) p s = Ret (Inr (), s1)"
    and "feed_items J f1 = tl (feed_items J f)" and "same_plan f1 f" and "(\<forall>rs. fst (running rs)) \<longrightarrow> feed_awake f1"
    and "injected J S deliver_event running t f1 s1 r"
  shows "injected J S deliver_event running t f s r"
proof -
  have items: "feed_items J f = p # feed_items J f1" using assms(2,5) by (simp add: feed_items_def)
  then have due: "due_items J t f = p # due_items J t f1" using assms(3) by (simp add: due_items_def)
  have all: "inject_all S deliver_event (feed_sources f) (p # ps) s = inject_all S deliver_event (feed_sources f1) ps s1" for ps
    using assms(4,6) by (simp add: same_plan_def)
  have plan: "same_plan f2 f1 \<longleftrightarrow> same_plan f2 f" for f2 using assms(6) by (auto simp: same_plan_def)
  show ?thesis
  proof (cases r)
    case (Ret q)
    obtain v f2 rs2 s2 where q: "q = (v, f2, rs2, s2)" by (cases q)
    show ?thesis
    proof (cases v)
      case (Inl x)
      with assms(8) Ret q show ?thesis unfolding injected_def due all plan by simp
    next
      case (Inr u)
      with assms(8) Ret q obtain n where n: "feed_inv J f2" "same_plan f2 f" "n \<le> length (due_items J t f1)"
        "inject_all S deliver_event (feed_sources f1) (take n (due_items J t f1)) s1 = Ret (Inr (), s2)"
        "feed_items J f2 = drop n (feed_items J f1)"
        "(\<forall>rs. fst (running rs)) \<longrightarrow> feed_awake f1 \<longrightarrow> n = length (due_items J t f1) \<and> feed_awake f2"
        unfolding injected_def plan by auto
      then show ?thesis
        unfolding injected_def Ret q Inr using assms(7) all
        by (auto simp: due items simp del: inject_all.simps intro!: exI [of _ "Suc n"])
    qed
  qed (use assms(8) in \<open>simp_all add: injected_def due all del: inject_all.simps\<close>)
qed

lemma inject_loop_law:
  assumes "feed_inv J f"
  shows "injected J S deliver_event running t f s (inject_loop J S deliver_event running t f rs s)"
  using assms
proof (induction J S deliver_event running t f rs s rule: inject_loop.induct)
  case (1 J S deliver_event running t f rs s)
  note loop = inject_loop.simps [of J S deliver_event running t f rs s]
  show ?case
  proof (cases "feed_pending f")
    case None
    then show ?thesis unfolding loop
      using 1(2) by (auto intro!: injected_none simp: due_items_def dest: feed_items_empty)
  next
    case p: (Some p)
    have items: "feed_items J f = p # remaining J f" using p by (simp add: feed_items_def)
    show ?thesis
    proof (cases "t < pending_time p")
      case True
      then show ?thesis unfolding loop using p 1(2) by (auto intro!: injected_none simp: due_items_def items dest: leD split: if_splits)
    next
      case due: False
      obtain go rs1 where go: "running rs = (go, rs1)" by fastforce
      show ?thesis
      proof (cases go)
        case False
        then have "\<not> (\<forall>rs. fst (running rs))" using go by (metis fst_conv)
        then show ?thesis unfolding loop using p due go False 1(2) by (auto intro!: injected_none)
      next
        case True
        have head: "due_items J t f = p # takeWhile (\<lambda>p. pending_time p \<le> t) (remaining J f)"
          using due by (simp add: due_items_def items)
        let ?x = "inject_pending S deliver_event (feed_sources f) p s"
        show ?thesis
        proof (cases "\<exists>u s1. ?x = Ret (Inr u, s1)")
          case False
          then show ?thesis unfolding loop using p due go True
            by (cases ?x) (auto simp: injected_def head same_plan_def split: sum.splits prod.splits)
        next
          case ok: True
          then obtain s1 where s1: "?x = Ret (Inr (), s1)" by auto
          let ?f = "f\<lparr>feed_pending := None\<rparr>"
          have inv: "feed_inv J ?f" using 1(2) p by (auto simp: feed_inv_def feed_items_def remaining_def)
          from advance_loop_law [OF inv, of running rs1] obtain rs2 f2 where
            f2: "advance_loop J running rs1 ?f = (Inr (), rs2, f2)" "feed_inv J f2" "feed_items J f2 = feed_items J ?f"
              "same_plan f2 ?f" "(\<forall>rs. fst (running rs)) \<longrightarrow> feed_awake f2" by auto
          have "injected J S deliver_event running t f2 s1 (inject_loop J S deliver_event running t f2 rs2 s1)"
            using p due go True s1 f2 by (intro "1.IH") (auto simp: feed_advance_def)
          moreover have "inject_loop J S deliver_event running t f rs s = inject_loop J S deliver_event running t f2 rs2 s1"
            unfolding loop using p due go True s1 f2 by (simp add: feed_advance_def)
          moreover have "feed_items J f2 = tl (feed_items J f)" "same_plan f2 f"
            using f2(3,4) items by (simp_all add: feed_items_def remaining_def same_plan_def)
          ultimately show ?thesis
            using injected_step [OF 1(2) p _ s1, of t f2 running] due f2(5) by (simp add: not_less)
        qed
      qed
    qed
  qed
qed

lemma selected_time: "p \<in> set (selected J d denied e) \<Longrightarrow> pending_time p = entry_time e"
  by (auto simp: selected_def select_entry_def select_execution_def select_event_def Let_def
      split: sum.splits option.splits if_splits list.splits)

lemma selected_source:
  "p \<in> set (selected J d denied e) \<Longrightarrow> channel_name e \<in> denied \<or> is_reserved (channel_name e) \<or> channel_name e \<in> m
     \<Longrightarrow> has_source m p"
  by (auto simp: selected_def select_entry_def select_execution_def select_event_def is_reserved_def Let_def
      split: sum.splits option.splits if_splits list.splits)

lemma sorted_selected:
  assumes "sorted (map entry_time es)"
  shows "sorted (map pending_time (concat (map (selected J d denied) es)))"
  using assms
proof (induction es)
  case (Cons e es)
  have "sorted (map pending_time (selected J d denied e))"
    by (auto simp: selected_def split: sum.splits option.splits)
  with Cons selected_time show ?case by (fastforce simp: sorted_append)
qed simp

lemma insert_sources_Inr:
  "insert_sources m names = Inr m' \<longleftrightarrow>
     distinct names \<and> set names \<inter> m = {} \<and> (\<forall>n \<in> set names. \<not> is_reserved n) \<and> m' = m \<union> set names"
  by (induction names arbitrary: m) auto

lemma check_channels_Inr:
  "check_channels denied m cs = Inr () \<longleftrightarrow> (\<forall>c \<in> set cs. is_reserved c \<or> c \<in> denied \<or> c \<in> m)"
  by (induction cs) auto

lemma inject_due_failed:
  "feed_failed f \<Longrightarrow> inject_due J S deliver_event t f s = Ret (Inl ''replay feed failed previously'', f, s)"
  by (simp add: inject_due_def inject_due_while_def)

lemma inject_due_while_law:
  assumes "feed_inv J f" and "\<not> feed_failed f"
  obtains f1 rs1 where "feed_inv J f1" "same_plan f1 f" "feed_items J f1 = feed_items J f"
    "(\<forall>rs. fst (running rs)) \<longrightarrow> feed_awake f1"
    "inject_due_while J S deliver_event running t f rs s =
       and_then (inject_loop J S deliver_event running t f1 rs1 s) (\<lambda>(r, f2, rs2, s1). Ret (case r of
         Inl x \<Rightarrow> (Inl x, f2\<lparr>feed_failed := True\<rparr>, rs2, s1)
       | Inr _ \<Rightarrow> (Inr (next_time f2), f2, rs2, s1)))"
proof (cases "feed_pending f = None \<and> \<not> feed_exhausted f")
  case True
  then have "f\<lparr>feed_pending := None\<rparr> = f" by simp
  with advance_loop_law [OF assms(1), of running rs] True obtain rs1 f1 where
    "feed_advance J running rs f = (Inr (), rs1, f1)" "feed_inv J f1" "feed_items J f1 = feed_items J f" "same_plan f1 f"
    "(\<forall>rs. fst (running rs)) \<longrightarrow> feed_awake f1" by (auto simp: feed_advance_def)
  with True assms(2) show ?thesis by (intro that [of f1 rs1]) (simp_all add: inject_due_while_def)
next
  case False
  with assms show ?thesis
    by (intro that [of f rs]) (auto simp: inject_due_while_def same_plan_def feed_awake_def)
qed

lemma feed_new_Inr:
  assumes "feed_new J reader channel_order sources denied = Inr f"
  shows "reader_artifact reader RECORDING_INCOMPLETENESS_ARTIFACT = None"
    and "distinct sources" and "\<forall>n \<in> set sources. \<not> is_reserved n"
    and "\<forall>c \<in> set channel_order. is_reserved c \<or> c \<in> denied \<or> c \<in> set sources"
    and "\<exists>d. feed_artifacts J reader = Inr d \<and> feed_advance J (\<lambda>u. (True, u)) () \<lparr>feed_reader = reader,
      feed_sources = set sources, feed_descriptor = d, feed_denied = denied, feed_pending = None, feed_exhausted = False,
      feed_failed = False, feed_last_time = None\<rparr> = (Inr (), (), f)"
  using assms
  by (auto simp: feed_new_def reject_incomplete_recording_def insert_sources_Inr check_channels_Inr
      split: if_splits sum.splits prod.splits)

lemma feed_new_law:
  assumes "feed_new J reader channel_order sources denied = Inr f" and "reader_intact reader"
    and "\<forall>e \<in> set (pending_entries reader). channel_name e \<in> set channel_order"
    and clean: "\<forall>e \<in> set (pending_entries reader). \<exists>q. select_entry J (feed_descriptor f) denied e = Inr q"
  shows "feed_inv J f \<and> \<not> feed_failed f \<and> feed_awake f \<and> feed_sources f = set sources
    \<and> feed_items J f = concat (map (selected J (feed_descriptor f) denied) (pending_entries reader))"
proof -
  from feed_new_Inr(5) [OF assms(1)] obtain d where adv: "feed_advance J (\<lambda>u. (True, u)) () \<lparr>feed_reader = reader,
      feed_sources = set sources, feed_descriptor = d, feed_denied = denied, feed_pending = None, feed_exhausted = False,
      feed_failed = False, feed_last_time = None\<rparr> = (Inr (), (), f)" (is "feed_advance _ _ _ ?f = _") by blast
  have d: "feed_descriptor f = d"
    using adv advance_loop_plan [of J "\<lambda>u. (True, u)" "()" ?f] by (simp add: feed_advance_def same_plan_def)
  have items: "feed_items J ?f = concat (map (selected J d denied) (pending_entries reader))"
    by (simp add: feed_items_def remaining_def)
  have "feed_inv J ?f"
    using assms(2,3) clean feed_new_Inr(4) [OF assms(1)] selected_source unfolding feed_inv_def items d by fastforce
  with advance_loop_law [of J ?f "\<lambda>u. (True, u)" "()"] adv items d show ?thesis
    by (simp add: feed_advance_def same_plan_def)
qed

lemma injection_law:
  fixes running :: "'r \<Rightarrow> bool \<times> 'r" and S :: "'s source_inject" and deliver_event :: "'s event_inject"
    and t :: framework_time
  assumes "feed_inv J f" and "\<not> feed_failed f"
  defines "items \<equiv> feed_items J f" and "due \<equiv> takeWhile (\<lambda>p. pending_time p \<le> t) (feed_items J f)"
    and "inject \<equiv> inject_all S deliver_event (feed_sources f)"
  shows "case inject_due_while J S deliver_event running t f rs s of
      Ret (Inr time, f', _, s') \<Rightarrow> feed_inv J f' \<and> \<not> feed_failed f' \<and> time = next_time f'
        \<and> (\<exists>n \<le> length due. inject (take n due) s = Ret (Inr (), s') \<and> feed_items J f' = drop n items
            \<and> ((\<forall>rs. fst (running rs)) \<longrightarrow> n = length due \<and> (time = None \<longrightarrow> feed_exhausted f' \<and> due = items)))
    | Ret (Inl x, f', _, s') \<Rightarrow> inject due s = Ret (Inl x, s') \<and> feed_failed f'
    | _ \<Rightarrow> (\<forall>q. inject due s \<noteq> Ret q)"
proof -
  obtain f1 rs1 where
    f1: "feed_inv J f1" "same_plan f1 f" "feed_items J f1 = feed_items J f" "(\<forall>rs. fst (running rs)) \<longrightarrow> feed_awake f1" and
    call: "inject_due_while J S deliver_event running t f rs s =
       and_then (inject_loop J S deliver_event running t f1 rs1 s) (\<lambda>(r, f2, rs2, s1). Ret (case r of
         Inl x \<Rightarrow> (Inl x, f2\<lparr>feed_failed := True\<rparr>, rs2, s1)
       | Inr _ \<Rightarrow> (Inr (next_time f2), f2, rs2, s1)))" by (rule inject_due_while_law [OF assms(1,2)])
  have due: "due_items J t f1 = due" "inject_all S deliver_event (feed_sources f1) = inject"
    using f1(2,3) by (simp_all add: due_items_def due_def items_def inject_def same_plan_def)
  note law = inject_loop_law [OF f1(1), of S deliver_event running t s rs1, unfolded injected_def due f1(3) items_def [symmetric]]
  show ?thesis
  proof (cases "inject_loop J S deliver_event running t f1 rs1 s")
    case (Ret q)
    obtain r f2 rs2 s2 where q: "q = (r, f2, rs2, s2)" by (cases q)
    show ?thesis
    proof (cases r)
      case (Inl x)
      with law Ret q call show ?thesis by simp
    next
      case (Inr u)
      with law Ret q obtain n where n: "feed_inv J f2" "same_plan f2 f1" "n \<le> length due"
        "inject (take n due) s = Ret (Inr (), s2)" "feed_items J f2 = drop n items"
        "(\<forall>rs. fst (running rs)) \<longrightarrow> feed_awake f1 \<longrightarrow> n = length due \<and> feed_awake f2" by auto
      have "feed_exhausted f2 \<and> due = items" if "\<forall>rs. fst (running rs)" "next_time f2 = None"
      proof -
        have awake: "n = length due" "feed_awake f2" "feed_pending f2 = None"
          using that n(6) f1(4) by (simp_all add: next_time_def)
        then have "drop (length due) items = []" using feed_items_empty [OF n(1)] n(5) by simp
        then show ?thesis using awake unfolding due_def items_def feed_awake_def
          by (metis append_Nil2 dropWhile_eq_drop takeWhile_dropWhile_id)
      qed
      moreover have "\<not> feed_failed f2" using n(2) f1(2) assms(2) by (simp add: same_plan_def)
      ultimately show ?thesis using n f1(4) call Ret q Inr by auto
    qed
  qed (use law call in simp_all)
qed

text \<open>The call that is never interrupted.\<close>

lemma inject_due_law:
  assumes "feed_inv J f" and "\<not> feed_failed f"
  shows "case inject_due J S deliver_event t f s of
      Ret (Inr time, f', s') \<Rightarrow> feed_inv J f' \<and> \<not> feed_failed f' \<and> feed_awake f' \<and> time = next_time f'
        \<and> inject_all S deliver_event (feed_sources f) (takeWhile (\<lambda>p. pending_time p \<le> t) (feed_items J f)) s = Ret (Inr (), s')
        \<and> feed_items J f' = dropWhile (\<lambda>p. pending_time p \<le> t) (feed_items J f)
    | Ret (Inl x, f', s') \<Rightarrow> feed_failed f'
    | _ \<Rightarrow> True"
proof -
  let ?call = "inject_due_while J S deliver_event (\<lambda>u. (True, u)) t f () s"
  note law = injection_law [OF assms, where running = "\<lambda>u. (True, u)" and S = S and deliver_event = deliver_event and t = t
      and rs = "()" and s = s]
  show ?thesis
  proof (cases ?call)
    case (Ret q)
    obtain r f' u s' where q: "q = (r, f', u, s')" by (cases q)
    show ?thesis using law Ret q by (cases r) (auto simp: inject_due_def dropWhile_eq_drop feed_awake_def next_time_def)
  qed (simp_all add: inject_due_def)
qed

section \<open>Properties\<close>

text \<open>
  C31: A feed can be interrupted between entries without losing or repeating any. Whatever the caller's
  closure answers, a call that succeeds has injected a prefix of the items due at \<open>t\<close>, in log order,
  keeps all others, and names the time of the next item if it has one in hand. When the closure never
  interrupts, all due items were injected, and no next time means the end of the log. A call that
  fails has stopped at the first failing injection and poisons the feed; a poisoned feed refuses
  every call. Nothing but an injection itself keeps the call from returning.
\<close>

theorem injection_in_order:
  fixes running :: "'r \<Rightarrow> bool \<times> 'r" and S :: "'s source_inject" and deliver_event :: "'s event_inject"
    and t :: framework_time
  assumes "feed_inv J f" and "\<not> feed_failed f"
  defines "items \<equiv> feed_items J f" and "due \<equiv> takeWhile (\<lambda>p. pending_time p \<le> t) (feed_items J f)"
    and "inject \<equiv> inject_all S deliver_event (feed_sources f)"
  shows "case inject_due_while J S deliver_event running t f rs s of
      Ret (Inr time, f', _, s') \<Rightarrow> feed_inv J f' \<and> \<not> feed_failed f' \<and> time = next_time f'
        \<and> (\<exists>n \<le> length due. inject (take n due) s = Ret (Inr (), s') \<and> feed_items J f' = drop n items
            \<and> ((\<forall>rs. fst (running rs)) \<longrightarrow> n = length due \<and> (time = None \<longrightarrow> feed_exhausted f' \<and> due = items)))
    | Ret (Inl x, f', _, s') \<Rightarrow> inject due s = Ret (Inl x, s')
        \<and> (\<forall>t' s2. inject_due J S deliver_event t' f' s2 = Ret (Inl ''replay feed failed previously'', f', s2))
    | _ \<Rightarrow> (\<forall>q. inject due s \<noteq> Ret q)"
proof (cases "inject_due_while J S deliver_event running t f rs s")
  case (Ret q)
  obtain r f' rs' s' where q: "q = (r, f', rs', s')" by (cases q)
  show ?thesis
    using injection_law [OF assms(1,2), where running = running and S = S and deliver_event = deliver_event and t = t
        and rs = rs and s = s] Ret q
    unfolding items_def due_def inject_def by (cases r) (simp_all add: inject_due_failed)
qed (use injection_law [OF assms(1,2), where running = running and S = S and deliver_event = deliver_event and t = t
    and rs = rs and s = s] in \<open>simp_all add: due_def inject_def\<close>)

text \<open>
  C32: A feed over a log holds exactly the selected messages of the log, by time. A feed is built only
  for a complete recording, with one source per channel, none of them reserved, and a source or a
  denial for every data channel of the log. If the log's metadata is well-formed, the feed's items
  are what is selected from the log's messages in their stable order by time; it has its invariant,
  so the items due at a time are all items up to that time.
\<close>

theorem feed_holds_selected_log:
  assumes "0 < b" and "from_reader R input b = Inr reader" and "set channel_order = log_channels reader"
    and "feed_new J reader channel_order sources denied = Inr f"
  defines "es \<equiv> concat (map (message_of R) input)"
  shows "reader_artifact reader RECORDING_INCOMPLETENESS_ARTIFACT = None \<and> distinct sources
    \<and> (\<forall>e \<in> set es. is_reserved (channel_name e) \<or> channel_name e \<in> denied \<or> channel_name e \<in> set sources)
    \<and> (\<forall>name \<in> set sources. \<not> is_reserved name)
    \<and> ((\<forall>e \<in> set es. \<exists>q. select_entry J (feed_descriptor f) denied e = Inr q) \<longrightarrow>
        feed_inv J f \<and> \<not> feed_failed f \<and> feed_sources f = set sources
        \<and> feed_items J f = concat (map (selected J (feed_descriptor f) denied) (sort_key entry_time es))
        \<and> next_time f = (case feed_items J f of [] \<Rightarrow> None | p # _ \<Rightarrow> Some (pending_time p))
        \<and> (\<forall>t. takeWhile (\<lambda>p. pending_time p \<le> t) (feed_items J f)
              = filter (\<lambda>p. pending_time p \<le> t) (feed_items J f)))"
proof -
  note reader = from_reader_law [OF assms(1,2), folded es_def]
  note new = feed_new_Inr [OF assms(4)]
  have channels: "\<forall>e \<in> set (pending_entries reader). channel_name e \<in> set channel_order"
    using assms(3) reader(2,4) by simp
  have covered: "\<forall>e \<in> set es. is_reserved (channel_name e) \<or> channel_name e \<in> denied \<or> channel_name e \<in> set sources"
    using new(4) assms(3) reader(4) by auto
  have law: "feed_inv J f \<and> \<not> feed_failed f \<and> feed_awake f \<and> feed_sources f = set sources
      \<and> feed_items J f = concat (map (selected J (feed_descriptor f) denied) (sort_key entry_time es))"
    if "\<forall>e \<in> set es. \<exists>q. select_entry J (feed_descriptor f) denied e = Inr q"
    using feed_new_law [OF assms(4) reader(1) channels] that unfolding reader(2) by simp
  moreover have "next_time f = (case feed_items J f of [] \<Rightarrow> None | p # _ \<Rightarrow> Some (pending_time p))"
    if "feed_inv J f" "feed_awake f"
    using feed_items_empty [OF that] by (cases "feed_pending f") (simp_all add: next_time_def feed_items_def)
  moreover have "sorted (map pending_time (concat (map (selected J (feed_descriptor f) denied) (sort_key entry_time es))))"
    by (rule sorted_selected) simp
  then have "takeWhile (\<lambda>p. pending_time p \<le> t) (concat (map (selected J (feed_descriptor f) denied) (sort_key entry_time es)))
      = filter (\<lambda>p. pending_time p \<le> t) (concat (map (selected J (feed_descriptor f) denied) (sort_key entry_time es)))" for t
    by (rule sorted_take_due)
  ultimately show ?thesis using new(1-3) covered by auto
qed

text \<open>A log of two messages on one channel, and a source that collects the times of what it injects.\<close>

definition sample_reader :: log_reader where
  "sample_reader = \<lparr>log_source = SourceFile [Inr \<lparr>run_sequence = 1, run_row = sample_message 70\<rparr>], log_channels = {''c''},
     log_artifacts = Map.empty, entry_count = 2, first_time = Some (from_nanos 65), peeked = Some (sample_message 65),
     reader_failed = False\<rparr>"

definition sample_feed_codec :: feed_codec where
  "sample_feed_codec = \<lparr>descriptor_from_slice = (\<lambda>_. Inl ''no''), tables_from_slice = (\<lambda>_. Inl ''no''),
     execution_from_slice = (\<lambda>_. Inl ''no''), event_from_slice = (\<lambda>_. Inl ''no'')\<rparr>"

definition sample_feed :: replay_feed where
  "sample_feed = \<lparr>feed_reader = \<lparr>log_source = SourceFile [], log_channels = {''c''}, log_artifacts = Map.empty,
       entry_count = 2, first_time = Some (from_nanos 65), peeked = Some (sample_message 70), reader_failed = False\<rparr>,
     feed_sources = {''c''}, feed_descriptor = None, feed_denied = {}, feed_pending = Some (Data (sample_message 65)),
     feed_exhausted = False, feed_failed = False, feed_last_time = Some (from_nanos 65)\<rparr>"

lemma published_at_new [simp]: "published_at (header_new t) = t"
  by (simp add: header_new_def)

lemma sample_read: "from_reader sample_codec [[65], [70]] 1 = Inr sample_reader"
  by (simp add: from_reader_def sample_codec_def scan_row_def is_whitespace_def log_validate_def header_new_def
      from_nanos_def INVALID_def i64_defs checked_usize_def usize_max_def time_order reader_initialize_def
      reader_advance_def peek_time_def sample_reader_def)

lemma sample_select: "select_entry sample_feed_codec d {} (sample_message t) = Inr (Some (Data (sample_message t)))"
  by (simp add: select_entry_def EXECUTION_LOG_CHANNEL_def IOX2_EVENT_RECORD_CHANNEL_def)

lemma sample_new: "feed_new sample_feed_codec sample_reader [''c''] [''c''] {} = Inr sample_feed"
  by (simp add: feed_new_def reject_incomplete_recording_def reader_artifact_def sample_reader_def is_reserved_def
      EXECUTION_LOG_CHANNEL_def IOX2_EVENT_RECORD_CHANNEL_def feed_artifacts_def feed_advance_def sample_select
      advance_loop.simps next_entry_def reader_advance_def sample_feed_def)

lemma sample_items: "feed_items sample_feed_codec sample_feed = [Data (sample_message 65), Data (sample_message 70)]"
  by (simp add: feed_items_def remaining_def sample_feed_def pending_entries_def selected_def sample_select)

lemma sample_inv: "feed_inv sample_feed_codec sample_feed"
  unfolding feed_inv_def sample_items
  by (simp add: sample_feed_def pending_entries_def sample_select reader_intact_def)

theorem feed_holds_selected_log_witness:
  "feed_new sample_feed_codec sample_reader [''c''] [''c''] {} = Inr sample_feed
   \<and> feed_items sample_feed_codec sample_feed = [Data (sample_message 65), Data (sample_message 70)]
   \<and> next_time sample_feed = Some (from_nanos 65)"
proof -
  have messages: "concat (map (message_of sample_codec) [[65], [70]]) = [sample_message 65, sample_message 70]"
    by (simp add: message_of_def sample_codec_def is_whitespace_def)
  have channels: "set [''c''] = log_channels sample_reader" by (simp add: sample_reader_def)
  have "next_time sample_feed = (case feed_items sample_feed_codec sample_feed of [] \<Rightarrow> None | p # _ \<Rightarrow> Some (pending_time p))"
    using feed_holds_selected_log [OF zero_less_one sample_read channels sample_new, unfolded messages]
    by (simp add: sample_select)
  then show ?thesis using sample_new by (simp add: sample_items header_new_def)
qed

definition sample_source :: "framework_time list source_inject" where
  "sample_source c h bytes s = Ret (Inr (), s @ [published_at h])"

theorem injection_in_order_witness:
  "\<exists>f'. inject_due_while sample_feed_codec sample_source (\<lambda>_ _ _ _. Panic) (\<lambda>_. (True, ())) (from_nanos 69) sample_feed () []
      = Ret (Inr (Some (from_nanos 70)), f', (), [from_nanos 65])
    \<and> feed_items sample_feed_codec f' = [Data (sample_message 70)]"
proof -
  let ?call = "inject_due_while sample_feed_codec sample_source (\<lambda>_ _ _ _. Panic) (\<lambda>_. (True, ())) (from_nanos 69) sample_feed () []"
  have due: "takeWhile (\<lambda>p. pending_time p \<le> from_nanos 69) [Data (sample_message 65), Data (sample_message 70)]
      = [Data (sample_message 65)]"
    by (simp add: from_nanos_def time_order)
  have inject: "inject_all sample_source (\<lambda>_ _ _ _. Panic) (feed_sources sample_feed) [Data (sample_message 65)] []
      = Ret (Inr (), [from_nanos 65])"
    by (simp add: inject_pending_def sample_source_def sample_feed_def header_new_def)
  have "\<not> feed_failed sample_feed" by (simp add: sample_feed_def)
  note law = injection_in_order [OF sample_inv this, where running = "\<lambda>_. (True, ())" and S = sample_source and t = "from_nanos 69"
      and deliver_event = "\<lambda>_ _ _ _. Panic" and rs = "()" and s = "[]",
      unfolded sample_items due inject]
  show ?thesis
  proof (cases ?call)
    case (Ret q)
    obtain r f' u s' where q: "q = (r, f', u, s')" by (cases q)
    with law Ret obtain time where "r = Inr time" "feed_inv sample_feed_codec f'" "time = next_time f'"
      "feed_items sample_feed_codec f' = [Data (sample_message 70)]" "time \<noteq> None" "s' = [from_nanos 65]"
      using inject by (cases r) (auto simp: take_Suc_conv_app_nth)
    with Ret q show ?thesis by (cases "feed_pending f'") (auto simp: next_time_def feed_items_def header_new_def)
  qed (use law in simp_all)
qed

end
