(* ===== verification/Log_Simulation.thy ===== *)
theory Log_Simulation
  imports Simulation_Steps Replay_Feed
begin

text \<open>
  \<open>simulation_executor/src/log_simulation.rs\<close>: a simulation whose inputs come from a log, in the build
  without the shared-memory transport. The feed is injected by a streaming action of the simulation.

  What that action owns, the feed and whether the tail has begun, lies in the shared part of the world
  beside everything else, of type \<open>'w\<close>. \<open>S\<close> publishes a payload through the source of a channel.
\<close>

section \<open>Model\<close>

datatype eof_policy = Drain | Tail duration | Continue

datatype completion_reason = Drained | TailDrained | StepBudgetExhausted | CompletionCancelled

record log_simulation_completion =
  completion_reason :: completion_reason
  completion_steps :: nat
  completion_at :: framework_time
  completion_input_exhausted :: bool

record log_simulation_options =
  options_eof :: eof_policy
  options_simulation :: "sim_config option"
  options_denylist :: "string set"

record 'w feed_world =
  lg_feed :: replay_feed
  lg_tail :: bool
  lg_rest :: 'w

type_synonym 'w log_world = "'w feed_world sim_world"

record 'w log_simulation =
  lg_eof :: eof_policy
  lg_simulation :: "'w feed_world simulation"

datatype log_simulation_error = LogMessage string | LogStep step_error

definition set_feed :: "'w log_world \<Rightarrow> replay_feed \<Rightarrow> 'w log_world" where
  "set_feed w f = w\<lparr>shared := (shared w)\<lparr>lg_feed := f\<rparr>\<rparr>"

definition begin_tail :: "'w log_world \<Rightarrow> 'w log_world" where
  "begin_tail w = w\<lparr>shared := (shared w)\<lparr>lg_tail := True\<rparr>\<rparr>"

definition stop_timers :: "'w log_world \<Rightarrow> 'w log_world" where
  "stop_timers w = w\<lparr>timers := False\<rparr>"

definition no_events :: "'s event_inject" where
  "no_events callback channel event s = Ret (Inl ''replaying event records requires iceoryx2'', s)"

text \<open>The end of the input in the streaming action.\<close>

definition end_of_input ::
  "eof_policy \<Rightarrow> framework_time \<Rightarrow> 'w log_world \<Rightarrow> (string + framework_time option) \<times> 'w log_world" where
  "end_of_input eof t w = (case eof of
     Drain \<Rightarrow> (Inr None, stop_timers w)
   | Tail d \<Rightarrow>
       if d \<noteq> 0 then (case checked_add_duration t d of
           None \<Rightarrow> (Inl ''EOF tail time overflow'', begin_tail w)
         | Some finish \<Rightarrow> (Inr (Some finish), begin_tail w))
       else (Inr None, stop_timers w)
   | Continue \<Rightarrow> (Inr None, w))"

definition log_stream ::
  "feed_codec \<Rightarrow> 'w log_world source_inject \<Rightarrow> eof_policy \<Rightarrow> framework_time \<Rightarrow> 'w log_world
     \<Rightarrow> ((string + framework_time option) \<times> 'w log_world) outcome" where
  "log_stream J S eof t w =
     (if lg_tail (shared w) then Ret (Inr None, stop_timers w)
      else and_then (inject_due J S no_events t (lg_feed (shared w)) w) (\<lambda>(r, f, w1). Ret (case r of
          Inl x \<Rightarrow> (Inl x, set_feed w1 f)
        | Inr None \<Rightarrow> end_of_input eof t (set_feed w1 f)
        | Inr (Some at_time) \<Rightarrow> (Inr (Some at_time), set_feed w1 f))))"

definition log_config :: "log_simulation_options \<Rightarrow> log_reader \<Rightarrow> sim_config" where
  "log_config options reader = (case options_simulation options of
     Some c \<Rightarrow> c
   | None \<Rightarrow> config_default\<lparr>start_time := (case first_time reader of Some t \<Rightarrow> t | None \<Rightarrow> from_nanos 0),
       poll_external_events := False\<rparr>)"

text \<open>What \<open>with_options\<close> does to the simulation when the log holds nothing to inject.\<close>

definition without_input ::
  "eof_policy \<Rightarrow> 'w feed_world simulation \<Rightarrow> log_simulation_error + 'w feed_world simulation" where
  "without_input eof st = (case eof of
     Continue \<Rightarrow> Inr st
   | Tail d \<Rightarrow>
       if d \<noteq> 0 then (case checked_add_duration (sim_time st) d of
           None \<Rightarrow> Inl (LogMessage ''EOF tail time overflow'')
         | Some finish \<Rightarrow> (case schedule_at st finish (\<lambda>_ w. Ret (Inr (), stop_timers w)) of
             (Inl e, _) \<Rightarrow> Inl (LogStep e)
           | (Inr _, st1) \<Rightarrow> Inr st1))
       else Inr (st\<lparr>world := stop_timers (world st)\<rparr>)
   | Drain \<Rightarrow> Inr (st\<lparr>world := stop_timers (world st)\<rparr>))"

definition with_options ::
  "feed_codec \<Rightarrow> 'w log_world source_inject \<Rightarrow> 'w feed_world sim_callback built_graph \<Rightarrow> log_reader \<Rightarrow> string list
     \<Rightarrow> string list \<Rightarrow> log_simulation_options \<Rightarrow> 'w \<Rightarrow> (log_simulation_error + 'w log_simulation) outcome" where
  "with_options J S g reader channel_order sources options rest =
     (case feed_new J reader channel_order sources (options_denylist options) of
       Inl x \<Rightarrow> Ret (Inl (LogMessage x))
     | Inr feed \<Rightarrow>
         and_then (with_config g (log_config options reader) \<lparr>lg_feed = feed, lg_tail = False, lg_rest = rest\<rparr>) (\<lambda>r. case r of
           Inl e \<Rightarrow> Ret (Inl (LogStep e))
         | Inr st \<Rightarrow> (case (case next_time feed of
               Some at_time \<Rightarrow> (case schedule_stream st at_time (log_stream J S (options_eof options)) of
                   (Inl e, _) \<Rightarrow> Inl (LogStep e)
                 | (Inr _, st1) \<Rightarrow> Inr st1)
             | None \<Rightarrow> without_input (options_eof options) st) of
             Inl e \<Rightarrow> Ret (Inl e)
           | Inr st1 \<Rightarrow> Ret (Inr \<lparr>lg_eof = options_eof options, lg_simulation = st1\<rparr>))))"

definition log_step ::
  "(nat \<Rightarrow> nat list) \<Rightarrow> 'w log_simulation \<Rightarrow> ((step_error + step_result) \<times> 'w log_simulation) outcome" where
  "log_step order ls = and_then (step order (lg_simulation ls)) (\<lambda>(r, st). Ret (r, ls\<lparr>lg_simulation := st\<rparr>))"

definition input_exhausted :: "'w log_simulation \<Rightarrow> bool" where
  "input_exhausted ls \<longleftrightarrow> feed_exhausted (lg_feed (shared (world (lg_simulation ls))))"

text \<open>The loop of \<open>run_until\<close> with the steps that are left.\<close>

fun run_until_loop ::
  "(nat \<Rightarrow> nat \<Rightarrow> nat list) \<Rightarrow> ('r \<Rightarrow> bool \<times> 'r) \<Rightarrow> nat \<Rightarrow> nat \<Rightarrow> 'r \<Rightarrow> 'w log_simulation
     \<Rightarrow> ((step_error + completion_reason \<times> nat) \<times> 'r \<times> 'w log_simulation) outcome" where
  "run_until_loop orders running 0 steps rs ls = Ret (Inr (StepBudgetExhausted, steps), rs, ls)"
| "run_until_loop orders running (Suc k) steps rs ls = (case running rs of
     (False, rs1) \<Rightarrow> Ret (Inr (CompletionCancelled, steps), rs1, ls)
   | (True, rs1) \<Rightarrow> and_then (log_step (orders steps) ls) (\<lambda>(r, ls1). case r of
       Inl e \<Rightarrow> Ret (Inl e, rs1, ls1)
     | Inr res \<Rightarrow>
         if step_idle res
         then Ret (Inr (case lg_eof ls1 of Tail _ \<Rightarrow> TailDrained | _ \<Rightarrow> Drained, steps + 1), rs1, ls1)
         else run_until_loop orders running k (steps + 1) rs1 ls1))"

definition run_until ::
  "(nat \<Rightarrow> nat \<Rightarrow> nat list) \<Rightarrow> ('r \<Rightarrow> bool \<times> 'r) \<Rightarrow> nat \<Rightarrow> 'r \<Rightarrow> 'w log_simulation
     \<Rightarrow> ((step_error + log_simulation_completion) \<times> 'r \<times> 'w log_simulation) outcome" where
  "run_until orders running max_steps rs ls =
     and_then (run_until_loop orders running max_steps 0 rs ls) (\<lambda>(r, rs1, ls1). Ret (case r of
         Inl e \<Rightarrow> Inl e
       | Inr (reason, steps) \<Rightarrow> Inr \<lparr>completion_reason = reason, completion_steps = steps,
           completion_at = sim_time (lg_simulation ls1), completion_input_exhausted = input_exhausted ls1\<rparr>, rs1, ls1))"

section \<open>What belongs to the streaming action\<close>

definition private_state :: "'w log_world \<Rightarrow> replay_feed \<times> bool \<times> bool" where
  "private_state w = (lg_feed (shared w), lg_tail (shared w), timers w)"

definition visible_state :: "'w log_world \<Rightarrow> (bool \<times> bool) list \<times> 'w" where
  "visible_state w = (notifications w, lg_rest (shared w))"

text \<open>Callbacks and sources cannot reach the captured variables of a closure.\<close>

definition private_callback :: "'w feed_world sim_callback \<Rightarrow> bool" where
  "private_callback cb \<longleftrightarrow> (\<forall>F. ops_keep (\<lambda>w. private_state w = F) (sim_ops cb))
     \<and> (\<forall>i w w'. sim_set_waker cb i w = Ret w' \<longrightarrow> private_state w' = private_state w)"

definition private_source :: "'w log_world source_inject \<Rightarrow> bool" where
  "private_source S \<longleftrightarrow> (\<forall>channel h bytes w r w'. S channel h bytes w = Ret (r, w') \<longrightarrow> private_state w' = private_state w)"

lemma private_state_notifications [simp]: "private_state (w\<lparr>notifications := ns\<rparr>) = private_state w"
  by (simp add: private_state_def)

lemma refresh_private [simp]: "private_state (world (refresh st)) = private_state (world st)"
proof -
  have "private_state (snd (refresh_nodes on now i xs w)) = private_state w" for on now i xs and w :: "'a log_world"
    by (induction xs arbitrary: i w) (auto simp: Let_def case_prod_unfold)
  then show ?thesis by (simp add: refresh_def case_prod_unfold Let_def)
qed

lemma inject_pending_private:
  "private_source S \<Longrightarrow> inject_pending S no_events sources p w = Ret (r, w') \<Longrightarrow> private_state w' = private_state w"
  by (cases p) (auto simp: inject_pending_def no_events_def private_source_def split: if_splits)

lemma inject_all_private:
  "private_source S \<Longrightarrow> inject_all S no_events sources ps w = Ret (r, w') \<Longrightarrow> private_state w' = private_state w"
proof (induction ps arbitrary: w)
  case (Cons p ps)
  from Cons.prems(2) obtain q w1 where q: "inject_pending S no_events sources p w = Ret (q, w1)" by auto
  then show ?case
    using Cons inject_pending_private [OF Cons.prems(1) q] by (cases q) auto
qed simp

lemma run_batch_keeps:
  assumes "sim_shape st" and "pools_fit st" and ops: "\<forall>cb \<in> set (sim_callbacks st). ops_keep P (sim_ops cb)"
    and order: "\<forall>n. set (order n) \<subseteq> {..<n}" and "P (world st)" and run: "run_batch order st = Ret (r, st')"
  shows "P (world st')"
proof (rule run_batch_unfold [OF assms(1,2)])
  fix selected
  assume sub: "subseq selected (map snd (candidates st))"
    and eq: "\<And>order. run_batch order st = settle_batch order st selected selected"
  let ?cbs = "map (\<lambda>i. (i, sim_ops (sim_callbacks st ! i))) selected"
  let ?timing = "batch_timing (st\<lparr>sim_nodes := clear_ready selected (sim_nodes st)\<rparr>)"
  have "\<forall>(_, cb) \<in> set ?cbs. quiet_callback P (\<lambda>_. P) (sim_time st) cb"
  proof
    fix c assume "c \<in> set ?cbs"
    then obtain i where i: "i \<in> set selected" "c = (i, sim_ops (sim_callbacks st ! i))" by auto
    then have "i < length (sim_callbacks st)"
      using subseq_facts [OF sub] candidates_indices [of i st] assms(1) by (auto simp: sim_shape_def)
    with i ops show "case c of (_, cb) \<Rightarrow> quiet_callback P (\<lambda>_. P) (sim_time st) cb" by (auto intro: ops_keep_quiet)
  qed
  from keeping.execute_batch_law [OF this order assms(5), where before_commit = ?timing
      and workers = "node_executor_thread_count (sim_configuration st)"] obtain q w where
    q: "execute_callback_batch ?cbs (sim_time st) (node_executor_thread_count (sim_configuration st)) order ?timing (world st)
      = Ret (q, w)" "P w" by blast
  with run show ?thesis by (cases q) (auto simp: eq settle_batch_def Let_def)
qed

lemma step_private:
  assumes inv: "sim_inv st" and ops: "\<forall>cb \<in> set (sim_callbacks st). private_callback cb"
    and order: "\<forall>n. set (order n) \<subseteq> {..<n}" and run: "step order st = Ret (Inr res, st')"
  obtains st1 where "run_actions st = Ret (Inr (), st1)" and "actions st' = actions st1"
    and "private_state (world st') = private_state (world st1)" and "sim_inv st'" and "sim_callbacks st' = sim_callbacks st"
    and "sim_time st \<le> sim_time st'" and "\<not> failed st'"
proof (rule step_law [OF inv run])
  fix st1 st3 executed
  assume a: "run_actions st = Ret (Inr (), st1)" "sim_inv st1" "actions_only st st1" "sim_inv st'" "actions st' = actions st1"
    "sim_time st \<le> sim_time st'" "failed st' = failed st" "sim_callbacks st' = sim_callbacks st"
  from step_inner_Inr [OF conjunct2 [OF step_Inr [OF run]]] obtain executed st2 st3 where
    b: "run_batch order (refresh st1) = Ret (Inr executed, st2)" "advance (refresh st2) = Ret st3"
      "conclude (sim_time st) executed (refresh st3) = Ret (res, st')" using a(1) by (metis outcome.inject(1) prod.inject)
  have shape: "sim_shape (refresh st1)" "pools_fit (refresh st1)"
    using a(2) by (simp_all add: sim_inv_def refresh_keeps pools_fit_refresh)
  have "\<forall>cb \<in> set (sim_callbacks (refresh st1)). ops_keep (\<lambda>w. private_state w = private_state (world st1)) (sim_ops cb)"
  proof
    fix cb assume "cb \<in> set (sim_callbacks (refresh st1))"
    then have "private_callback cb" using ops a(3) by (simp add: actions_only_def)
    then show "ops_keep (\<lambda>w. private_state w = private_state (world st1)) (sim_ops cb)"
      unfolding private_callback_def by blast
  qed
  from run_batch_keeps [OF shape this order _ b(1)]
  have "private_state (world st2) = private_state (world st1)" by simp
  moreover have "world st3 = world (refresh st2)" using b(2) by (auto simp: advance_def split: option.splits if_splits)
  moreover have "world st' = world (refresh st3)" using conclude_eq [OF b(3)] by auto
  ultimately show ?thesis using that a step_Inr [OF run] by simp
qed

lemma run_action_later:
  assumes "run_action st t a = Ret (Inr u, st')" and "actions st = []" and "\<not> failed st"
  shows "\<forall>x \<in> set (actions st'). sim_time st' < fst (fst x)"
proof (cases a)
  case (Once f)
  with assms obtain r w where "f t (world st) = Ret (r, w)" by (auto simp: run_action_def)
  with assms Once show ?thesis by (cases r) (auto simp: run_action_def)
next
  case (Stream f)
  with assms obtain r w where f: "f t (world st) = Ret (r, w)" by (auto simp: run_action_def)
  with assms Stream obtain x where r: "r = Inr x" by (cases r) (auto simp: run_action_def)
  show ?thesis
  proof (cases x)
    case None
    with assms Stream f r show ?thesis by (auto simp: run_action_def)
  next
    case (Some t')
    with assms Stream f r show ?thesis
      by (auto simp: run_action_def insert_action_def Let_def not_le split: option.splits if_splits)
  qed
qed

lemma run_actions_single:
  assumes "actions st = [((t, k), a)]" and "run_actions st = Ret (Inr (), st1)" and "\<not> failed st"
  shows "if t \<le> sim_time st then run_action (st\<lparr>actions := []\<rparr>) t a = Ret (Inr (), st1) else st1 = st"
proof (cases "t \<le> sim_time st")
  case True
  from assms(1,2) True obtain q st0 where q: "run_action (st\<lparr>actions := []\<rparr>) t a = Ret (q, st0)"
    by (subst (asm) run_actions.simps) auto
  then have st0: "q = Inr ()" "run_actions st0 = Ret (Inr (), st1)"
    using assms(1,2) True by (subst (asm) run_actions.simps; cases q; auto)+
  have "\<forall>x \<in> set (actions st0). sim_time st0 < fst (fst x)"
    using run_action_later [of "st\<lparr>actions := []\<rparr>" t a "()" st0] q st0(1) assms(3) by simp
  then have "run_actions st0 = Ret (Inr (), st0)"
    by (subst run_actions.simps) (auto split: list.splits prod.splits dest: leD)
  with q st0 True show ?thesis by simp
qed (use assms in \<open>subst (asm) run_actions.simps; simp\<close>)

section \<open>The invariant of a log simulation\<close>

definition stop_action :: "'w feed_world action" where
  "stop_action = Once (\<lambda>_ w. Ret (Inr (), stop_timers w))"

text \<open>
  While the feed has items, its action is scheduled at the time of the next one and the timers are on.
  After that the policy for the end of the input decides.
\<close>

definition ended ::
  "feed_codec \<Rightarrow> 'w log_world source_inject \<Rightarrow> eof_policy \<Rightarrow> bool \<Rightarrow> bool \<Rightarrow> (action_key \<times> 'w feed_world action) list \<Rightarrow> bool" where
  "ended J S eof tail timers_on acts = (case eof of
     Drain \<Rightarrow> \<not> timers_on \<and> acts = []
   | Continue \<Rightarrow> timers_on \<and> acts = []
   | Tail d \<Rightarrow> if acts = [] then \<not> timers_on
       else timers_on \<and> d \<noteq> 0 \<and> (\<exists>t k. (tail \<and> acts = [((t, k), Stream (log_stream J S eof))]) \<or> acts = [((t, k), stop_action)]))"

definition log_ok ::
  "feed_codec \<Rightarrow> 'w log_world source_inject \<Rightarrow> eof_policy \<Rightarrow> replay_feed \<times> bool \<times> bool
     \<Rightarrow> (action_key \<times> 'w feed_world action) list \<Rightarrow> bool" where
  "log_ok J S eof F acts = (case F of (f, tail, timers_on) \<Rightarrow>
     feed_inv J f \<and> \<not> feed_failed f \<and> feed_awake f \<and> sorted (map pending_time (feed_items J f))
     \<and> (case feed_items J f of
          p # _ \<Rightarrow> \<not> tail \<and> timers_on \<and> (\<exists>k. acts = [((pending_time p, k), Stream (log_stream J S eof))])
        | [] \<Rightarrow> ended J S eof tail timers_on acts))"

text \<open>One run of the streaming action while there is input.\<close>

lemma log_stream_law:
  assumes "private_source S" and "private_state w = (f, False, True)"
    and ok: "feed_inv J f" "\<not> feed_failed f" and run: "log_stream J S eof t w = Ret (Inr next_at, w')"
  shows "\<exists>f' w1 tail timers_on. inject_all S no_events (feed_sources f) (takeWhile (\<lambda>p. pending_time p \<le> t) (feed_items J f)) w = Ret (Inr (), w1)
    \<and> visible_state w' = visible_state w1
    \<and> private_state w' = (f', tail, timers_on) \<and> feed_inv J f' \<and> \<not> feed_failed f' \<and> feed_awake f'
    \<and> feed_items J f' = dropWhile (\<lambda>p. pending_time p \<le> t) (feed_items J f)
    \<and> (case feed_items J f' of
        p # _ \<Rightarrow> next_at = Some (pending_time p) \<and> \<not> tail \<and> timers_on
      | [] \<Rightarrow> (case eof of Drain \<Rightarrow> next_at = None \<and> \<not> timers_on | Continue \<Rightarrow> next_at = None \<and> timers_on
          | Tail d \<Rightarrow> if d = 0 then next_at = None \<and> \<not> timers_on
              else next_at = checked_add_duration t d \<and> next_at \<noteq> None \<and> tail \<and> timers_on))"
proof -
  have w: "lg_feed (shared w) = f" "\<not> lg_tail (shared w)" "timers w" using assms(2) by (auto simp: private_state_def)
  note law = inject_due_law [OF ok, of S no_events t w]
  obtain r f' w1 where q: "inject_due J S no_events t f w = Ret (r, f', w1)"
    using run w by (auto simp: log_stream_def)
  obtain n where r: "r = Inr n" using run w q by (cases r) (auto simp: log_stream_def)
  have l: "feed_inv J f'" "\<not> feed_failed f'" "feed_awake f'" "n = next_time f'"
    "inject_all S no_events (feed_sources f) (takeWhile (\<lambda>p. pending_time p \<le> t) (feed_items J f)) w = Ret (Inr (), w1)"
    "feed_items J f' = dropWhile (\<lambda>p. pending_time p \<le> t) (feed_items J f)"
    using law q r by simp_all
  have w1: "\<not> lg_tail (shared w1)" "timers w1"
    using inject_all_private [OF assms(1) l(5)] w by (auto simp: private_state_def)
  show ?thesis
  proof (cases "feed_items J f'")
    case Nil
    then have "n = None" unfolding l(4) by (auto simp: next_time_def feed_items_def split: option.splits)
    then have "end_of_input eof t (set_feed w1 f') = (Inr next_at, w')" using run w q r by (simp add: log_stream_def)
    with l Nil w1 show ?thesis
      by (auto simp: end_of_input_def stop_timers_def begin_tail_def set_feed_def private_state_def visible_state_def
          dest: sym [of "Some _"] split: eof_policy.splits if_splits option.splits)
  next
    case (Cons p ps)
    then have "feed_pending f' = Some p"
      using feed_items_empty [OF l(1,3)] by (cases "feed_pending f'") (auto simp: feed_items_def)
    then have n: "n = Some (pending_time p)" unfolding l(4) by (simp add: next_time_def)
    have "log_stream J S eof t w = Ret (Inr (Some (pending_time p)), set_feed w1 f')"
      using w q by (simp add: log_stream_def r n)
    with run have "next_at = Some (pending_time p)" "w' = set_feed w1 f'" by simp_all
    then have "private_state w' = (f', False, True)" "next_at = Some (pending_time p)" "visible_state w' = visible_state w1"
      using w1 by (simp_all add: set_feed_def private_state_def visible_state_def)
    moreover have "dropWhile (\<lambda>p. pending_time p \<le> t) (feed_items J f) = p # ps" using l(6) Cons by simp
    ultimately show ?thesis using l(1-5)
      by (intro exI [of _ f'] exI [of _ w1] exI [of _ False] exI [of _ True]) (simp add: Cons)
  qed
qed

lemma sorted_dropWhile_map: "sorted (map f xs) \<Longrightarrow> sorted (map f (dropWhile P xs))"
  by (metis sorted_dropWhile dropWhile_map sorted_append map_append takeWhile_dropWhile_id)

lemma run_stream_action:
  assumes "run_action st t (Stream g) = Ret (Inr (), st')" and "actions st = []" and "\<not> failed st"
  obtains next_at w where "g t (world st) = Ret (Inr next_at, w)" and "world st' = w" and "sim_time st' = sim_time st"
    and "next_at = None \<Longrightarrow> actions st' = []"
    and "\<And>u. next_at = Some u \<Longrightarrow> sim_time st < u \<and> (\<exists>k. actions st' = [((u, k), Stream g)])"
proof -
  from assms(1) obtain r w where g: "g t (world st) = Ret (r, w)" by (auto simp: run_action_def)
  then obtain x where r: "r = Inr x" using assms(1) by (cases r) (auto simp: run_action_def)
  show ?thesis
  proof (cases x)
    case None
    with assms g r show ?thesis by (intro that [of None w]) (auto simp: run_action_def)
  next
    case (Some u)
    with assms g r show ?thesis
      by (intro that [of "Some u" w])
        (auto simp: run_action_def insert_action_def Let_def not_le split: option.splits if_splits)
  qed
qed

lemma log_ok_actions:
  fixes st :: "'w feed_world simulation"
  assumes "private_source S" and ok: "log_ok J S eof (private_state (world st)) (actions st)"
    and inv: "sim_inv st" "\<not> failed st" and run: "run_actions st = Ret (Inr (), st1)"
  defines "f \<equiv> lg_feed (shared (world st))"
  shows "log_ok J S eof (private_state (world st1)) (actions st1)
    \<and> feed_items J (lg_feed (shared (world st1))) = dropWhile (\<lambda>p. pending_time p \<le> sim_time st) (feed_items J f)
    \<and> (\<exists>w. inject_all S no_events (feed_sources f)
          (takeWhile (\<lambda>p. pending_time p \<le> sim_time st) (feed_items J f)) (world st) = Ret (Inr (), w)
        \<and> visible_state (world st1) = visible_state w)
    \<and> (\<forall>d. feed_items J f \<noteq> [] \<longrightarrow> feed_items J (lg_feed (shared (world st1))) = [] \<longrightarrow> eof = Tail d \<longrightarrow> d \<noteq> 0 \<longrightarrow>
        (\<exists>u k. checked_add_duration (sim_time st) d = Some u \<and> actions st1 = [((u, k), Stream (log_stream J S eof))]))"
proof -
  obtain tail timers_on where F: "private_state (world st) = (f, tail, timers_on)" by (simp add: private_state_def f_def)
  note ok' = ok [unfolded log_ok_def F prod.case]
  have feed: "lg_feed (shared w) = fst (private_state w)" for w :: "'w log_world" by (simp add: private_state_def)
  have none: ?thesis if "st1 = st" "takeWhile (\<lambda>p. pending_time p \<le> sim_time st) (feed_items J f) = []"
  proof -
    have "dropWhile (\<lambda>p. pending_time p \<le> sim_time st) (feed_items J f) = feed_items J f"
      using that(2) by (metis append_Nil takeWhile_dropWhile_id)
    with ok that show ?thesis by (simp add: f_def)
  qed
  show ?thesis
  proof (cases "feed_items J f")
    case Nil
    show ?thesis
    proof (cases "actions st")
      case empty: Nil
      then have "st1 = st" using run by (subst (asm) run_actions.simps) simp
      with none Nil show ?thesis by simp
    next
      case (Cons x xs)
      have end_ok: "ended J S eof tail timers_on (actions st)" using ok' Nil by simp
      then obtain d where d: "eof = Tail d" using Cons by (cases eof) (simp_all add: ended_def)
      from end_ok obtain t k a where acts: "actions st = [((t, k), a)]"
        and a: "a = stop_action \<or> a = Stream (log_stream J S eof) \<and> tail"
        using Cons d unfolding ended_def by auto
      note single = run_actions_single [OF acts run inv(2)]
      show ?thesis
      proof (cases "t \<le> sim_time st")
        case True
        have "actions st1 = [] \<and> world st1 = stop_timers (world st)"
          using single True a F
          by (auto simp: run_action_def stop_action_def log_stream_def private_state_def)
        then have "private_state (world st1) = (f, tail, False)" "actions st1 = []"
          "visible_state (world st1) = visible_state (world st)"
          using F by (auto simp: private_state_def visible_state_def stop_timers_def)
        then show ?thesis using ok' Nil d by (simp add: log_ok_def feed ended_def)
      next
        case False
        with single none Nil show ?thesis by simp
      qed
    qed
  next
    case (Cons p ps)
    then obtain k where acts: "actions st = [((pending_time p, k), Stream (log_stream J S eof))]"
      and flags: "\<not> tail" "timers_on" using ok' by auto
    note single = run_actions_single [OF acts run inv(2)]
    show ?thesis
    proof (cases "pending_time p \<le> sim_time st")
      case True
      have "sim_time st \<le> pending_time p"
        using inv(1) acts by (auto simp: sim_inv_def actions_ok_def)
      with True have now: "pending_time p = sim_time st" by simp
      have "run_action (st\<lparr>actions := []\<rparr>) (sim_time st) (Stream (log_stream J S eof)) = Ret (Inr (), st1)"
        using single True now by simp
      then obtain next_at w where step: "log_stream J S eof (sim_time st) (world st) = Ret (Inr next_at, w)"
        "world st1 = w" "next_at = None \<Longrightarrow> actions st1 = []"
        "\<And>u. next_at = Some u \<Longrightarrow> \<exists>k. actions st1 = [((u, k), Stream (log_stream J S eof))]"
        by (rule run_stream_action) (use inv in auto)
      have "private_state (world st) = (f, False, True)" using F flags by simp
      from log_stream_law [OF assms(1) this _ _ step(1)] ok' obtain f' w1 tail' timers' where
        l: "inject_all S no_events (feed_sources f) (takeWhile (\<lambda>p. pending_time p \<le> sim_time st) (feed_items J f)) (world st) = Ret (Inr (), w1)"
          "visible_state w = visible_state w1" "private_state w = (f', tail', timers')" "feed_inv J f'" "\<not> feed_failed f'" "feed_awake f'"
          "feed_items J f' = dropWhile (\<lambda>p. pending_time p \<le> sim_time st) (feed_items J f)"
        and next_at: "case feed_items J f' of p # _ \<Rightarrow> next_at = Some (pending_time p) \<and> \<not> tail' \<and> timers'
          | [] \<Rightarrow> (case eof of Drain \<Rightarrow> next_at = None \<and> \<not> timers' | Continue \<Rightarrow> next_at = None \<and> timers'
              | Tail d \<Rightarrow> if d = 0 then next_at = None \<and> \<not> timers'
                  else next_at = checked_add_duration (sim_time st) d \<and> next_at \<noteq> None \<and> tail' \<and> timers')" by blast
      have "sorted (map pending_time (feed_items J f'))" unfolding l(7) using ok' sorted_dropWhile_map by blast
      moreover have "case feed_items J f' of
          p # _ \<Rightarrow> \<not> tail' \<and> timers' \<and> (\<exists>k. actions st1 = [((pending_time p, k), Stream (log_stream J S eof))])
        | [] \<Rightarrow> ended J S eof tail' timers' (actions st1)"
        using next_at step(3,4)
        by (cases "feed_items J f'"; cases eof) (fastforce simp: ended_def split: if_splits)+
      ultimately have "log_ok J S eof (private_state (world st1)) (actions st1)"
        using l step(2) by (simp add: log_ok_def)
      moreover have "\<exists>u k. checked_add_duration (sim_time st) d = Some u \<and> actions st1 = [((u, k), Stream (log_stream J S eof))]"
        if "feed_items J f' = []" "eof = Tail d" "d \<noteq> 0" for d using next_at step(4) that by auto
      ultimately show ?thesis using l step(2) by (simp add: feed)
    next
      case False
      with single none Cons show ?thesis by simp
    qed
  qed
qed

section \<open>Reachable states\<close>

lemma push_nodes_frame:
  assumes "push_nodes st nodes = Ret (Inr st')" and "\<forall>n \<in> set nodes. private_callback (cb_callback n)"
  shows "private_state (world st') = private_state (world st) \<and> actions st' = actions st \<and> sim_time st' = sim_time st
    \<and> failed st' = failed st \<and> sim_callbacks st' = sim_callbacks st @ map cb_callback nodes"
  using assms
proof (induction nodes arbitrary: st)
  case (Cons node nodes)
  then obtain st1 where st1: "push_node st node = Ret (Inr st1)" "push_nodes st1 nodes = Ret (Inr st')"
    by (auto simp: propagate_error)
  have ok: "node_error (world st) (sim_configuration st) node = None"
    using st1(1) by (auto simp: push_node_def split: option.splits)
  with st1(1) obtain w1 where w1: "sim_set_waker (cb_callback node) (length (notifications (world st)))
      ((world st)\<lparr>notifications := notifications (world st) @ [(False, False)]\<rparr>) = Ret w1" and
    st1': "world st1 = w1" "actions st1 = actions st" "sim_time st1 = sim_time st" "failed st1 = failed st"
      "sim_callbacks st1 = sim_callbacks st @ [cb_callback node]"
    by (auto simp: push_node_def Let_def) (auto split: sum.splits)
  have "private_state w1 = private_state (world st)"
    using w1 Cons.prems(2) unfolding private_callback_def by (metis list.set_intros(1) private_state_notifications)
  with Cons.IH [OF st1(2)] Cons.prems(2) st1' show ?case by simp
qed simp

text \<open>A log simulation that has been built and stepped.\<close>

inductive log_reachable ::
  "feed_codec \<Rightarrow> 'w log_world source_inject \<Rightarrow> 'w feed_world sim_callback built_graph \<Rightarrow> log_reader \<Rightarrow> string list
     \<Rightarrow> string list \<Rightarrow> log_simulation_options \<Rightarrow> 'w log_simulation \<Rightarrow> bool"
  for J S g reader channel_order sources options where
  log_built: "with_options J S g reader channel_order sources options rest = Ret (Inr ls)
    \<Longrightarrow> log_reachable J S g reader channel_order sources options ls"
| log_stepped: "log_reachable J S g reader channel_order sources options ls \<Longrightarrow> \<forall>n. set (order n) \<subseteq> {..<n}
    \<Longrightarrow> log_step order ls = Ret (r, ls') \<Longrightarrow> log_reachable J S g reader channel_order sources options ls'"

definition log_inv ::
  "feed_codec \<Rightarrow> 'w log_world source_inject \<Rightarrow> log_simulation_options \<Rightarrow> 'w log_simulation \<Rightarrow> bool" where
  "log_inv J S options ls \<longleftrightarrow> sim_inv (lg_simulation ls) \<and> lg_eof ls = options_eof options
     \<and> (\<forall>cb \<in> set (sim_callbacks (lg_simulation ls)). private_callback cb)
     \<and> log_ok J S (options_eof options) (private_state (world (lg_simulation ls))) (actions (lg_simulation ls))"

text \<open>What is asked of the log, the graph and the sources.\<close>

definition log_input ::
  "feed_codec \<Rightarrow> 'w log_world source_inject \<Rightarrow> 'w feed_world sim_callback built_graph \<Rightarrow> log_reader \<Rightarrow> string list
     \<Rightarrow> string list \<Rightarrow> log_simulation_options \<Rightarrow> bool" where
  "log_input J S g reader channel_order sources options \<longleftrightarrow>
     private_source S \<and> (\<forall>n \<in> set (graph_callbacks g). private_callback (cb_callback n))
     \<and> reader_intact reader \<and> sorted (map entry_time (pending_entries reader))
     \<and> (\<forall>e \<in> set (pending_entries reader). channel_name e \<in> set channel_order)
     \<and> (\<forall>f. feed_new J reader channel_order sources (options_denylist options) = Inr f \<longrightarrow>
          (\<forall>e \<in> set (pending_entries reader). \<exists>q. select_entry J (feed_descriptor f) (options_denylist options) e = Inr q))"

lemma with_options_Inr:
  assumes "with_options J S g reader channel_order sources options rest = Ret (Inr ls)"
  obtains feed st where "feed_new J reader channel_order sources (options_denylist options) = Inr feed"
    and "with_config g (log_config options reader) \<lparr>lg_feed = feed, lg_tail = False, lg_rest = rest\<rparr> = Ret (Inr st)"
    and "lg_eof ls = options_eof options"
    and "case next_time feed of
        Some at_time \<Rightarrow> schedule_stream st at_time (log_stream J S (options_eof options)) = (Inr (), lg_simulation ls)
      | None \<Rightarrow> without_input (options_eof options) st = Inr (lg_simulation ls)"
proof -
  obtain feed where f: "feed_new J reader channel_order sources (options_denylist options) = Inr feed"
    using assms by (auto simp: with_options_def split: sum.splits)
  from assms f obtain r where
    r: "with_config g (log_config options reader) \<lparr>lg_feed = feed, lg_tail = False, lg_rest = rest\<rparr> = Ret r"
    by (auto simp: with_options_def)
  obtain st where st: "r = Inr st" using assms f r by (cases r) (auto simp: with_options_def)
  show ?thesis
    by (rule that [OF f r [unfolded st]])
      (use assms in \<open>auto simp: with_options_def f r st split: option.splits sum.splits prod.splits\<close>)
qed

lemma private_state_shared:
  "private_state \<lparr>notifications = ns, timers = b, shared = \<lparr>lg_feed = f, lg_tail = tail, lg_rest = rest\<rparr>\<rparr> = (f, tail, b)"
  by (simp add: private_state_def)

lemma with_config_frame:
  assumes "with_config g c \<lparr>lg_feed = f, lg_tail = False, lg_rest = rest\<rparr> = Ret (Inr st)"
    and "\<forall>n \<in> set (graph_callbacks g). private_callback (cb_callback n)"
  shows "private_state (world st) = (f, False, True) \<and> actions st = [] \<and> \<not> failed st
    \<and> (\<forall>cb \<in> set (sim_callbacks st). private_callback cb)"
  using assms(1) push_nodes_frame [OF _ assms(2)]
  by (auto simp: with_config_def private_state_shared assms(2) split: if_splits)

lemma insert_first_action:
  assumes "insert_action st t a = (Inr (), st')" and "actions st = []"
  shows "(\<exists>k. actions st' = [((t, k), a)]) \<and> world st' = world st \<and> sim_callbacks st' = sim_callbacks st \<and> \<not> failed st'"
  using assms by (auto simp: insert_action_def split: if_splits option.splits)

lemma without_input_inv:
  assumes "without_input eof st = Inr st'" and "sim_inv st" and "actions st = []" and "\<not> failed st"
    and "private_state (world st) = (f, False, True)"
  shows "sim_inv st' \<and> sim_callbacks st' = sim_callbacks st \<and> \<not> failed st' \<and> (\<exists>on. private_state (world st') = (f, False, on)
    \<and> ended J S eof False on (actions st'))"
proof (cases "\<exists>d. eof = Tail d \<and> d \<noteq> 0")
  case True
  then obtain d where d: "eof = Tail d" "d \<noteq> 0" by blast
  then obtain u where "checked_add_duration (sim_time st) d = Some u"
    using assms(1) by (auto simp: without_input_def split: option.splits)
  with assms(1) d have ins: "insert_action st u stop_action = (Inr (), st')"
    by (auto simp: without_input_def schedule_at_def stop_action_def split: prod.splits sum.splits)
  with insert_first_action [OF ins assms(3)] insert_action_inv [OF assms(2) ins] assms(5) d show ?thesis by (auto simp: ended_def)
next
  case False
  then have "st' = st \<or> st' = st\<lparr>world := stop_timers (world st)\<rparr>" "eof \<noteq> Continue \<longrightarrow> st' = st\<lparr>world := stop_timers (world st)\<rparr>"
    "eof = Continue \<longrightarrow> st' = st"
    using assms(1) by (auto simp: without_input_def split: eof_policy.splits if_splits)
  with assms(2-) show ?thesis
    by (cases eof) (auto simp: ended_def stop_timers_def private_state_def sim_inv_def sim_shape_def pools_fit_def pool_busy_def)
qed

lemma with_options_inv:
  assumes "log_input J S g reader channel_order sources options"
    and "with_options J S g reader channel_order sources options rest = Ret (Inr ls)"
  shows "log_inv J S options ls \<and> \<not> failed (lg_simulation ls)
    \<and> feed_new J reader channel_order sources (options_denylist options) = Inr (lg_feed (shared (world (lg_simulation ls))))"
proof -
  from assms(2) obtain feed st where
    new: "feed_new J reader channel_order sources (options_denylist options) = Inr feed" and
    st: "with_config g (log_config options reader) \<lparr>lg_feed = feed, lg_tail = False, lg_rest = rest\<rparr> = Ret (Inr st)" and
    eof: "lg_eof ls = options_eof options" and
    fin: "case next_time feed of
        Some at_time \<Rightarrow> schedule_stream st at_time (log_stream J S (options_eof options)) = (Inr (), lg_simulation ls)
      | None \<Rightarrow> without_input (options_eof options) st = Inr (lg_simulation ls)" by (rule with_options_Inr)
  have frame: "private_state (world st) = (feed, False, True)" "actions st = []" "\<not> failed st"
    "\<forall>cb \<in> set (sim_callbacks st). private_callback cb"
    using with_config_frame [OF st] assms(1) by (auto simp: log_input_def)
  have law: "feed_inv J feed" "\<not> feed_failed feed" "feed_awake feed"
    "feed_items J feed = concat (map (selected J (feed_descriptor feed) (options_denylist options)) (pending_entries reader))"
    using feed_new_law [OF new] new assms(1) by (auto simp: log_input_def)
  have sorted: "sorted (map pending_time (feed_items J feed))"
    unfolding law(4) using assms(1) by (intro sorted_selected) (simp add: log_input_def)
  show ?thesis
  proof (cases "next_time feed")
    case None
    then have empty: "feed_items J feed = []" using feed_items_empty [OF law(1,3)] by (simp add: next_time_def)
    from None fin have w: "without_input (options_eof options) st = Inr (lg_simulation ls)" by simp
    from without_input_inv [OF this with_config_inv [OF st] frame(2,3,1)]
    have "sim_inv (lg_simulation ls) \<and> sim_callbacks (lg_simulation ls) = sim_callbacks st \<and> \<not> failed (lg_simulation ls)
      \<and> (\<exists>on. private_state (world (lg_simulation ls)) = (feed, False, on)
          \<and> ended J S (options_eof options) False on (actions (lg_simulation ls)))" by blast
    then show ?thesis using eof law(1-3) empty frame new
      by (auto simp: log_inv_def log_ok_def) (auto simp: private_state_def)
  next
    case (Some t)
    then obtain p where p: "feed_pending feed = Some p" "t = pending_time p" by (auto simp: next_time_def)
    from Some fin have ins: "insert_action st t (Stream (log_stream J S (options_eof options))) = (Inr (), lg_simulation ls)"
      by (simp add: schedule_stream_def)
    with insert_first_action [OF ins frame(2)] insert_action_inv [OF with_config_inv [OF st] ins] eof law(1-3) sorted frame p new show ?thesis
      by (auto simp: log_inv_def log_ok_def feed_items_def) (auto simp: private_state_def)
  qed
qed

lemma log_step_inv:
  assumes "private_source S" and "log_inv J S options ls" and "\<forall>n. set (order n) \<subseteq> {..<n}"
    and "log_step order ls = Ret (Inr res, ls')"
  shows "log_inv J S options ls' \<and> \<not> failed (lg_simulation ls')
    \<and> feed_items J (lg_feed (shared (world (lg_simulation ls')))) = dropWhile (\<lambda>p. pending_time p \<le> sim_time (lg_simulation ls))
        (feed_items J (lg_feed (shared (world (lg_simulation ls)))))"
proof -
  let ?st = "lg_simulation ls"
  from assms(4) obtain st' where run: "step order ?st = Ret (Inr res, st')" and ls': "ls' = ls\<lparr>lg_simulation := st'\<rparr>"
    by (auto simp: log_step_def)
  have inv: "sim_inv ?st" "\<forall>cb \<in> set (sim_callbacks ?st). private_callback cb" using assms(2) by (simp_all add: log_inv_def)
  from step_private [OF inv assms(3) run] obtain st1 where
    s: "run_actions ?st = Ret (Inr (), st1)" "actions st' = actions st1" "private_state (world st') = private_state (world st1)"
      "sim_inv st'" "sim_callbacks st' = sim_callbacks ?st" "\<not> failed st'" by blast
  have feed: "lg_feed (shared (world st')) = lg_feed (shared (world st1))" using s(3) by (simp add: private_state_def)
  have "\<not> failed ?st" using step_Inr [OF run] by simp
  from log_ok_actions [OF assms(1) _ inv(1) this s(1)] assms(2)
  show ?thesis using s inv by (auto simp: log_inv_def ls' feed)
qed

lemma log_reachable_inv:
  assumes "log_reachable J S g reader channel_order sources options ls" and "log_input J S g reader channel_order sources options"
  shows "failed (lg_simulation ls) \<or> log_inv J S options ls
    \<and> (\<exists>feed n. feed_new J reader channel_order sources (options_denylist options) = Inr feed
        \<and> feed_items J (lg_feed (shared (world (lg_simulation ls)))) = drop n (feed_items J feed))"
  using assms(1)
proof induction
  case (log_built rest ls)
  from with_options_inv [OF assms(2) this] show ?case by (metis drop_0)
next
  case (log_stepped ls order r ls')
  then obtain st' where run: "step order (lg_simulation ls) = Ret (r, st')" and ls': "ls' = ls\<lparr>lg_simulation := st'\<rparr>"
    by (auto simp: log_step_def)
  show ?case
  proof (cases r)
    case (Inl e)
    then have "failed st'" using run by (auto simp: step_def split: if_splits outcome.splits prod.splits sum.splits)
    then show ?thesis using ls' by simp
  next
    case (Inr res)
    then have "\<not> failed (lg_simulation ls)" using run step_Inr by blast
    with log_stepped.IH obtain feed n where
      ih: "log_inv J S options ls" "feed_new J reader channel_order sources (options_denylist options) = Inr feed"
        "feed_items J (lg_feed (shared (world (lg_simulation ls)))) = drop n (feed_items J feed)" by blast
    have "private_source S" using assms(2) by (simp add: log_input_def)
    from log_step_inv [OF this ih(1) log_stepped.hyps(2)] log_stepped.hyps(3) Inr ih(2,3)
    show ?thesis by (auto simp: dropWhile_eq_drop)
  qed
qed

lemma dropWhile_sorted_map:
  fixes f :: "'a \<Rightarrow> 'b :: linorder"
  assumes "sorted (map f xs)" and "\<forall>x \<in> set xs. t \<le> f x"
  shows "xs = filter (\<lambda>x. f x = t) xs @ dropWhile (\<lambda>x. f x \<le> t) xs \<and> takeWhile (\<lambda>x. f x \<le> t) xs = filter (\<lambda>x. f x = t) xs
    \<and> (\<forall>x \<in> set (dropWhile (\<lambda>x. f x \<le> t) xs). t < f x)"
  using assms
proof (induction xs)
  case (Cons x xs)
  show ?case
  proof (cases "f x \<le> t")
    case True
    with Cons show ?thesis by (auto intro: antisym)
  next
    case False
    then have "filter (\<lambda>x. f x = t) xs = []" using Cons.prems(1) by (auto simp: filter_empty_conv)
    with False Cons.prems(1) show ?thesis by (auto simp: not_le intro: less_le_trans)
  qed
qed simp

lemma log_inv_items:
  assumes "log_inv J S options ls"
  defines "items \<equiv> feed_items J (lg_feed (shared (world (lg_simulation ls))))"
  shows "sorted (map pending_time items) \<and> (\<forall>p \<in> set items. sim_time (lg_simulation ls) \<le> pending_time p)
    \<and> (input_exhausted ls \<longleftrightarrow> items = [])"
proof -
  let ?f = "lg_feed (shared (world (lg_simulation ls)))"
  have ok: "feed_inv J ?f" "feed_awake ?f" "sorted (map pending_time items)"
    using assms by (simp_all add: log_inv_def log_ok_def private_state_def)
  have "\<forall>p \<in> set items. sim_time (lg_simulation ls) \<le> pending_time p"
  proof (cases items)
    case (Cons p ps)
    then have "\<exists>k a. ((pending_time p, k), a) \<in> set (actions (lg_simulation ls))"
      using assms by (auto simp: log_inv_def log_ok_def private_state_def)
    then have "sim_time (lg_simulation ls) \<le> pending_time p"
      using assms(1) by (auto simp: log_inv_def sim_inv_def actions_ok_def)
    with Cons ok(3) show ?thesis by auto
  qed simp
  moreover have "input_exhausted ls \<longleftrightarrow> items = []"
    using ok(1,2) by (auto simp: input_exhausted_def items_def feed_inv_def feed_awake_def feed_items_def remaining_def
        split: option.splits)
  ultimately show ?thesis using ok(3) by blast
qed

lemma idle_no_actions:
  assumes "step order st = Ret (Inr res, st')" and "step_idle res"
  shows "actions st' = []"
proof (rule step_inner_Inr [OF conjunct2 [OF step_Inr [OF assms(1)]]])
  fix executed st3
  assume "conclude (sim_time st) executed (refresh st3) = Ret (res, st')"
  from conclude_eq [OF this] assms(2) show ?thesis by (auto dest: has_future_none(2))
qed

lemma run_until_loop_law:
  assumes "private_source S" and "log_inv J S options ls" and "\<forall>k n. set (orders k n) \<subseteq> {..<n}"
    and "run_until_loop orders running k steps rs ls = Ret (Inr (reason, taken), rs', ls')"
  shows "log_inv J S options ls' \<and> steps \<le> taken \<and> taken \<le> steps + k \<and> (case reason of
      StepBudgetExhausted \<Rightarrow> taken = steps + k
    | CompletionCancelled \<Rightarrow> taken < steps + k \<and> (\<exists>rs0. running rs0 = (False, rs'))
    | Drained \<Rightarrow> (\<forall>d. options_eof options \<noteq> Tail d) \<and> actions (lg_simulation ls') = []
    | TailDrained \<Rightarrow> (\<exists>d. options_eof options = Tail d) \<and> actions (lg_simulation ls') = [])"
  using assms(2,4)
proof (induction k arbitrary: steps rs ls)
  case (Suc k)
  obtain go rs1 where go: "running rs = (go, rs1)" by fastforce
  show ?case
  proof (cases go)
    case True
    from Suc.prems(2) go True obtain r ls1 where r: "log_step (orders steps) ls = Ret (r, ls1)" by auto
    obtain res where res: "r = Inr res" using Suc.prems(2) go True r by (cases r) auto
    from log_step_inv [OF assms(1) Suc.prems(1) _ r [unfolded res]] assms(3) have inv1: "log_inv J S options ls1" by blast
    show ?thesis
    proof (cases "step_idle res")
      case idle: True
      obtain st' where "step (orders steps) (lg_simulation ls) = Ret (Inr res, st')" and st': "ls1 = ls\<lparr>lg_simulation := st'\<rparr>"
        using r res by (auto simp: log_step_def)
      then have "actions st' = []" using idle_no_actions idle by blast
      then show ?thesis
        using Suc.prems(2) go True r res idle inv1 st' by (cases "options_eof options") (auto simp: log_inv_def)
    next
      case False
      then have "run_until_loop orders running k (steps + 1) rs1 ls1 = Ret (Inr (reason, taken), rs', ls')"
        using Suc.prems(2) go True r res by simp
      from Suc.IH [OF inv1 this] show ?thesis by (auto split: completion_reason.splits)
    qed
  next
    case False
    with Suc.prems go show ?thesis by auto
  qed
qed simp

text \<open>The log of the sample feed, replayed into a graph without callbacks; the rest of the world collects times.\<close>

definition sample_inject :: "framework_time list log_world source_inject" where
  "sample_inject channel h bytes w = Ret (Inr (), w\<lparr>shared := (shared w)\<lparr>lg_rest := lg_rest (shared w) @ [published_at h]\<rparr>\<rparr>)"

definition silent_graph :: "framework_time list feed_world sim_callback built_graph" where
  "silent_graph = \<lparr>graph_callbacks = [], metadata = \<lparr>channel_names = interner_new, callback_names = interner_new\<rparr>\<rparr>"

definition sample_options :: log_simulation_options where
  "sample_options = \<lparr>options_eof = Drain, options_simulation = None, options_denylist = {}\<rparr>"

definition sample_simulation :: "int \<Rightarrow> nat \<Rightarrow> replay_feed \<Rightarrow> bool \<Rightarrow> framework_time list
    \<Rightarrow> (action_key \<times> framework_time list feed_world action) list \<Rightarrow> nat \<Rightarrow> framework_time list log_simulation" where
  "sample_simulation t k f on ts acts n = \<lparr>lg_eof = Drain, lg_simulation = \<lparr>sim_callbacks = [], sim_names = [], sim_schedules = [],
     sim_nodes = [], sim_metadata = metadata silent_graph,
     sim_configuration = config_default\<lparr>start_time := from_nanos 65, poll_external_events := False\<rparr>,
     sim_time = from_nanos t, step_count = k, failed = False, actions = acts, action_sequence = n,
     world = \<lparr>notifications = [], timers = on, shared = \<lparr>lg_feed = f, lg_tail = False, lg_rest = ts\<rparr>\<rparr>\<rparr>\<rparr>"

abbreviation sample_stream where
  "sample_stream \<equiv> Stream (log_stream sample_feed_codec sample_inject Drain)"

definition feed_at_70 :: replay_feed where
  "feed_at_70 = sample_feed\<lparr>feed_reader := (feed_reader sample_feed)\<lparr>peeked := None\<rparr>,
     feed_pending := Some (Data (sample_message 70)), feed_last_time := Some (from_nanos 70)\<rparr>"

lemma nanos_order:
  "from_nanos a < from_nanos b \<longleftrightarrow> a < b" "from_nanos a \<le> from_nanos b \<longleftrightarrow> a \<le> b" "from_nanos a = from_nanos b \<longleftrightarrow> a = b"
  by (simp_all add: from_nanos_def time_order)

lemma nanos_valid: "from_nanos 65 \<noteq> INVALID"
  by (simp add: from_nanos_def INVALID_def i64_defs)

lemma sample_facts:
  "first_time sample_reader = Some (from_nanos 65)" "next_time sample_feed = Some (from_nanos 65)"
  "next_time feed_at_70 = Some (from_nanos 70)" "reader_intact sample_reader"
  "pending_entries sample_reader = [sample_message 65, sample_message 70]"
  by (simp_all add: sample_reader_def sample_feed_def feed_at_70_def next_time_def reader_intact_def pending_entries_def)

lemma sample_built:
  "with_options sample_feed_codec sample_inject silent_graph sample_reader [''c''] [''c''] sample_options []
     = Ret (Inr (sample_simulation 65 0 sample_feed True [] [((from_nanos 65, 0), sample_stream)] 1))"
  by (simp add: with_options_def sample_options_def sample_new sample_facts with_config_def log_config_def config_error_def
      config_default_def silent_graph_def nanos_valid
      schedule_stream_def insert_action_def nanos_order checked_usize_def usize_max_def sample_simulation_def)

lemma sample_input:
  "log_input sample_feed_codec sample_inject silent_graph sample_reader [''c''] [''c''] sample_options"
  by (auto simp: log_input_def private_source_def sample_inject_def private_state_def silent_graph_def sample_options_def
      sample_facts sample_select sample_new nanos_order)

lemma sample_due:
  "log_stream sample_feed_codec sample_inject Drain (from_nanos 65)
     \<lparr>notifications = [], timers = True, shared = \<lparr>lg_feed = sample_feed, lg_tail = False, lg_rest = []\<rparr>\<rparr>
   = Ret (Inr (Some (from_nanos 70)),
       \<lparr>notifications = [], timers = True, shared = \<lparr>lg_feed = feed_at_70, lg_tail = False, lg_rest = [from_nanos 65]\<rparr>\<rparr>)"
  by (simp add: log_stream_def inject_due_def inject_due_while_def inject_loop.simps feed_advance_def advance_loop.simps
      next_entry_def reader_advance_def sample_select sample_feed_def feed_at_70_def set_feed_def inject_pending_def
      sample_inject_def next_time_def nanos_order)

lemma sample_step:
  "log_step (\<lambda>n. [0..<n]) (sample_simulation 65 0 sample_feed True [] [((from_nanos 65, 0), sample_stream)] 1)
     = Ret (Inr \<lparr>step_before = from_nanos 65, step_after = from_nanos 70, step_executed = [], step_idle = False\<rparr>,
         sample_simulation 70 1 feed_at_70 True [from_nanos 65] [((from_nanos 70, 1), sample_stream)] 2)"
proof -
  let ?st = "\<lambda>t k f on ts acts n. lg_simulation (sample_simulation t k f on ts acts n)"
  let ?st1 = "?st 65 0 feed_at_70 True [from_nanos 65] [((from_nanos 70, 1), sample_stream)] 2"
  let ?st2 = "?st 70 0 feed_at_70 True [from_nanos 65] [((from_nanos 70, 1), sample_stream)] 2"
  have fields: "actions (?st t k f on ts acts n) = acts" "sim_time (?st t k f on ts acts n) = from_nanos t" for t k f on ts acts n
    by (simp_all add: sample_simulation_def)
  have action: "run_action ((?st 65 0 sample_feed True [] [((from_nanos 65, 0), sample_stream)] 1)\<lparr>actions := []\<rparr>) (from_nanos 65) sample_stream
    = Ret (Inr (), ?st1)"
    by (simp add: run_action_def sample_simulation_def sample_due insert_action_def nanos_order checked_usize_def usize_max_def)
  have "run_actions ?st1 = Ret (Inr (), ?st1)" by (subst run_actions.simps) (simp add: fields nanos_order)
  with action have 1: "run_actions (?st 65 0 sample_feed True [] [((from_nanos 65, 0), sample_stream)] 1) = Ret (Inr (), ?st1)"
    by (subst run_actions.simps) (simp add: fields)
  have 2: "refresh (?st t k f on ts acts n) = ?st t k f on ts acts n" for t k f on ts acts n
    by (simp add: refresh_def sample_simulation_def)
  have 3: "run_batch (\<lambda>n. [0..<n]) ?st1 = Ret (Inr [], ?st1)"
    by (simp add: run_batch_def free_threads_def candidates_def List.map_filter_simps rank_of_def batch_of_def settle_batch_def
        clear_ready_def execute_callback_batch_def run_prepared_batch_def record_timing_def Let_def sample_simulation_def config_default_def)
  have 4: "advance ?st1 = Ret ?st2"
    by (simp add: advance_def free_threads_def next_event_def event_times_def runnable_def sample_simulation_def
        config_default_def nanos_order)
  have 5: "conclude (from_nanos 65) [] ?st2 = Ret (\<lparr>step_before = from_nanos 65, step_after = from_nanos 70, step_executed = [],
      step_idle = False\<rparr>, ?st 70 1 feed_at_70 True [from_nanos 65] [((from_nanos 70, 1), sample_stream)] 2)"
    by (simp add: conclude_def free_threads_def runnable_def has_future_def sample_simulation_def config_default_def usize_max_def)
  have "step_inner (\<lambda>n. [0..<n]) (?st 65 0 sample_feed True [] [((from_nanos 65, 0), sample_stream)] 1)
    = Ret (Inr \<lparr>step_before = from_nanos 65, step_after = from_nanos 70, step_executed = [], step_idle = False\<rparr>,
        ?st 70 1 feed_at_70 True [from_nanos 65] [((from_nanos 70, 1), sample_stream)] 2)"
    by (simp only: step_inner_def 1 2 3 4 5 fields and_then.simps prod.case sum.case)
  then show ?thesis by (simp add: log_step_def step_def sample_simulation_def)
qed

lemma sample_reachable:
  "log_reachable sample_feed_codec sample_inject silent_graph sample_reader [''c''] [''c''] sample_options
     (sample_simulation 65 0 sample_feed True [] [((from_nanos 65, 0), sample_stream)] 1)"
  by (rule log_built) (rule sample_built)

section \<open>Properties\<close>

text \<open>
  C34: A log drives a simulation at the logged times. In every state that steps of a log simulation reach, the
  items still to come are a suffix of the selected log, none lies in the past, and the simulation knows
  whether there are any. A successful step first publishes exactly the items of the current time, in log
  order and before any callback runs, and keeps the others for their own times, which the step does not pass.
  When it has published the last one, the policy decides: \<open>Drain\<close> and a tail of zero turn the timers
  off, \<open>Continue\<close> leaves them on, and another tail leaves them on until exactly that much later.
\<close>

theorem log_injected_on_time:
  fixes ls :: "'w log_simulation"
  assumes "log_input J S g reader channel_order sources options"
    and "log_reachable J S g reader channel_order sources options ls"
    and "\<forall>n. set (order n) \<subseteq> {..<n}" and "log_step order ls = Ret (Inr res, ls')"
  defines "st \<equiv> lg_simulation ls" and "st' \<equiv> lg_simulation ls'"
  defines "items \<equiv> feed_items J (lg_feed (shared (world st)))" and "items' \<equiv> feed_items J (lg_feed (shared (world st')))"
  shows "(\<exists>feed n. feed_new J reader channel_order sources (options_denylist options) = Inr feed \<and> items = drop n (feed_items J feed))
    \<and> (input_exhausted ls \<longleftrightarrow> items = [])
    \<and> items = filter (\<lambda>p. pending_time p = sim_time st) items @ items'
    \<and> (\<exists>st1 w. run_actions st = Ret (Inr (), st1) \<and> visible_state (world st1) = visible_state w
        \<and> inject_all S no_events (feed_sources (lg_feed (shared (world st))))
            (filter (\<lambda>p. pending_time p = sim_time st) items) (world st) = Ret (Inr (), w))
    \<and> (\<forall>p \<in> set items'. sim_time st < pending_time p \<and> sim_time st' \<le> pending_time p)
    \<and> (items \<noteq> [] \<longrightarrow> items' = [] \<longrightarrow> (case options_eof options of
          Drain \<Rightarrow> \<not> timers (world st') \<and> actions st' = []
        | Continue \<Rightarrow> timers (world st') \<and> actions st' = []
        | Tail d \<Rightarrow> if d = 0 then \<not> timers (world st') \<and> actions st' = []
            else timers (world st') \<and> (\<exists>u k a. checked_add_duration (sim_time st) d = Some u \<and> actions st' = [((u, k), a)])))"
proof -
  from assms(4) have run: "step order st = Ret (Inr res, st')" and eof: "lg_eof ls' = lg_eof ls"
    by (auto simp: log_step_def st_def st'_def)
  have ok: "\<not> failed st" using step_Inr [OF run] by simp
  with log_reachable_inv [OF assms(2,1)] obtain feed n where inv: "log_inv J S options ls"
    and n: "feed_new J reader channel_order sources (options_denylist options) = Inr feed" "items = drop n (feed_items J feed)"
    by (auto simp: st_def items_def)
  have S: "private_source S" using assms(1) by (simp add: log_input_def)
  note facts = log_inv_items [OF inv, folded st_def, folded items_def]
  note inv' = log_step_inv [OF S inv assms(3,4), folded st_def st'_def, folded items_def items'_def]
  note facts' = log_inv_items [OF conjunct1 [OF inv'], folded st'_def, folded items'_def]
  note split = dropWhile_sorted_map [of pending_time items "sim_time st"]
  have sim: "sim_inv st" "\<forall>cb \<in> set (sim_callbacks st). private_callback cb"
    "log_ok J S (options_eof options) (private_state (world st)) (actions st)"
    using inv by (simp_all add: log_inv_def st_def)
  from step_private [OF sim(1,2) assms(3) run] obtain st1 where
    s: "run_actions st = Ret (Inr (), st1)" "actions st' = actions st1" "private_state (world st') = private_state (world st1)"
    by blast
  have feed: "lg_feed (shared (world st1)) = lg_feed (shared (world st'))" using s(3) by (simp add: private_state_def)
  note act = log_ok_actions [OF S sim(3,1) ok s(1), folded items_def, unfolded feed, folded items'_def]
  have items': "items' = dropWhile (\<lambda>p. pending_time p \<le> sim_time st) items" using inv' by blast
  have split: "items = filter (\<lambda>p. pending_time p = sim_time st) items @ items'" "\<forall>p \<in> set items'. sim_time st < pending_time p"
    "takeWhile (\<lambda>p. pending_time p \<le> sim_time st) items = filter (\<lambda>p. pending_time p = sim_time st) items"
    using dropWhile_sorted_map [of pending_time items "sim_time st"] facts unfolding items' by auto
  have "case options_eof options of
          Drain \<Rightarrow> \<not> timers (world st') \<and> actions st' = []
        | Continue \<Rightarrow> timers (world st') \<and> actions st' = []
        | Tail d \<Rightarrow> if d = 0 then \<not> timers (world st') \<and> actions st' = []
            else timers (world st') \<and> (\<exists>u k a. checked_add_duration (sim_time st) d = Some u \<and> actions st' = [((u, k), a)])"
    if last: "items \<noteq> []" "items' = []"
  proof -
    have "ended J S (options_eof options) (lg_tail (shared (world st'))) (timers (world st')) (actions st')"
      using conjunct1 [OF inv'] last(2) by (simp add: log_inv_def log_ok_def private_state_def items'_def flip: st'_def)
    with act last s(2) show ?thesis by (cases "options_eof options") (auto simp: ended_def split: if_splits)
  qed
  with n facts facts' split s(1) act show ?thesis by (simp only: split(3)) blast
qed

theorem log_injected_on_time_witness:
  "\<exists>st1. run_actions (lg_simulation (sample_simulation 65 0 sample_feed True [] [((from_nanos 65, 0), sample_stream)] 1)) = Ret (Inr (), st1)
    \<and> lg_rest (shared (world st1)) = [from_nanos 65]
    \<and> feed_items sample_feed_codec feed_at_70 = [Data (sample_message 70)]"
proof -
  have "\<forall>n. set [0..<n] \<subseteq> {..<n}" by auto
  note law = log_injected_on_time [OF sample_input sample_reachable this sample_step]
  have fields: "lg_feed (shared (world (lg_simulation (sample_simulation t k f on ts acts n)))) = f"
    "sim_time (lg_simulation (sample_simulation t k f on ts acts n)) = from_nanos t"
    "lg_rest (shared (world (lg_simulation (sample_simulation t k f on ts acts n)))) = ts" for t k f on ts acts n
    by (simp_all add: sample_simulation_def)
  have due: "filter (\<lambda>p. pending_time p = from_nanos 65) [Data (sample_message 65), Data (sample_message 70)]
      = [Data (sample_message 65)]"
    by (simp add: nanos_order)
  have sources: "feed_sources sample_feed = {''c''}" by (simp add: sample_feed_def)
  show ?thesis
    using law unfolding fields sample_items due sources
    by (auto simp: inject_pending_def sample_inject_def visible_state_def fields)
qed

text \<open>
  C35: A run of a log simulation ends for the reason it reports. \<open>run_until\<close> takes at most the steps it is given;
  it reports an exhausted budget after exactly that many, and a cancellation only when the caller's
  closure asked for it. When it reports that the log has drained, everything in the log has been
  published, nothing is scheduled, and the timers are off unless the policy was to continue; the tail
  is reported for the tail policy and no other. What it says of the input is the truth for every reason.
\<close>

theorem run_until_completion:
  fixes ls :: "'w log_simulation"
  assumes "log_input J S g reader channel_order sources options"
    and "log_reachable J S g reader channel_order sources options ls" and "\<not> failed (lg_simulation ls)"
    and "\<forall>k n. set (orders k n) \<subseteq> {..<n}" and "run_until orders running max_steps rs ls = Ret (Inr c, rs', ls')"
  defines "items' \<equiv> feed_items J (lg_feed (shared (world (lg_simulation ls'))))"
  shows "completion_steps c \<le> max_steps \<and> completion_at c = sim_time (lg_simulation ls')
    \<and> (completion_input_exhausted c \<longleftrightarrow> items' = [])
    \<and> (case completion_reason c of
        StepBudgetExhausted \<Rightarrow> completion_steps c = max_steps
      | CompletionCancelled \<Rightarrow> completion_steps c < max_steps \<and> (\<exists>rs0. running rs0 = (False, rs'))
      | Drained \<Rightarrow> completion_input_exhausted c \<and> actions (lg_simulation ls') = []
          \<and> (options_eof options = Drain \<and> \<not> timers (world (lg_simulation ls'))
              \<or> options_eof options = Continue \<and> timers (world (lg_simulation ls')))
      | TailDrained \<Rightarrow> completion_input_exhausted c \<and> actions (lg_simulation ls') = []
          \<and> (\<exists>d. options_eof options = Tail d) \<and> \<not> timers (world (lg_simulation ls')))"
proof -
  have inv: "log_inv J S options ls" using log_reachable_inv [OF assms(2,1)] assms(3) by blast
  have S: "private_source S" using assms(1) by (simp add: log_input_def)
  from assms(5) obtain q where q: "run_until_loop orders running max_steps 0 rs ls = Ret q" by (auto simp: run_until_def)
  obtain r where "q = (r, rs', ls')" using assms(5) q by (cases q) (auto simp: run_until_def)
  moreover obtain reason taken where "r = Inr (reason, taken)"
    using assms(5) q calculation by (cases r) (auto simp: run_until_def)
  ultimately have loop: "run_until_loop orders running max_steps 0 rs ls = Ret (Inr (reason, taken), rs', ls')" using q by simp
  then have c: "c = \<lparr>completion_reason = reason, completion_steps = taken, completion_at = sim_time (lg_simulation ls'),
      completion_input_exhausted = input_exhausted ls'\<rparr>" using assms(5) by (simp add: run_until_def)
  note law = run_until_loop_law [OF S inv assms(4) loop]
  note facts = log_inv_items [OF conjunct1 [OF law], folded items'_def]
  have drained: "items' = [] \<and> ended J S (options_eof options) (lg_tail (shared (world (lg_simulation ls'))))
      (timers (world (lg_simulation ls'))) []" if "actions (lg_simulation ls') = []"
    using conjunct1 [OF law] that
    by (cases items') (auto simp: log_inv_def log_ok_def private_state_def items'_def)
  show ?thesis using law facts drained by (cases reason; cases "options_eof options") (auto simp: c ended_def)
qed

theorem run_until_completion_witness:
  "\<exists>ls'. run_until (\<lambda>k n. [0..<n]) (\<lambda>rs. (True, rs)) 1 () (sample_simulation 65 0 sample_feed True [] [((from_nanos 65, 0), sample_stream)] 1)
      = Ret (Inr \<lparr>completion_reason = StepBudgetExhausted, completion_steps = 1, completion_at = from_nanos 70,
          completion_input_exhausted = False\<rparr>, (), ls')
    \<and> feed_items sample_feed_codec (lg_feed (shared (world (lg_simulation ls')))) \<noteq> []"
proof -
  let ?ls = "sample_simulation 70 1 feed_at_70 True [from_nanos 65] [((from_nanos 70, 1), sample_stream)] 2"
  have call: "run_until (\<lambda>k n. [0..<n]) (\<lambda>rs. (True, rs)) 1 () (sample_simulation 65 0 sample_feed True [] [((from_nanos 65, 0), sample_stream)] 1)
      = Ret (Inr \<lparr>completion_reason = StepBudgetExhausted, completion_steps = 1, completion_at = from_nanos 70,
          completion_input_exhausted = False\<rparr>, (), ?ls)"
    using sample_step by (simp add: run_until_def input_exhausted_def sample_simulation_def feed_at_70_def sample_feed_def)
  have order: "\<forall>(k :: nat) n. set [0..<n] \<subseteq> {..<n}" by auto
  have "\<not> failed (lg_simulation (sample_simulation 65 0 sample_feed True [] [((from_nanos 65, 0), sample_stream)] 1))"
    by (simp add: sample_simulation_def)
  from run_until_completion [OF sample_input sample_reachable this order call] call show ?thesis by auto
qed

end
