(* ===== verification/Experimental_Queue.thy ===== *)
theory Experimental_Queue
  imports Prelude
begin

text \<open>
  \<open>base/src/experimental_mpsc_queue.rs\<close>: a hand-written ring buffer with one sequence number per
  slot, in which a push to a full queue displaces the oldest element.

  A call under way is a program counter; \<open>xq_step\<close> performs its next access to the shared state. The
  calls of a thread that is not disturbed are the runs of this relation (\<open>xq_push\<close>, \<open>xq_pop\<close>), and
  \<open>xq_schedule\<close> interleaves any number of calls. Positions are \<open>usize\<close>: \<open>fetch_add\<close> wraps, \<open>+\<close> panics
  on overflow. A slot's value is \<open>None\<close> while it is uninitialised or after its destructor has run.
\<close>

section \<open>Model\<close>

record 'a xq_slot =
  sequence :: nat
  slot_value :: "'a option"

record 'a xqueue =
  xq_head :: nat
  xq_tail :: nat
  xq_dropped :: nat
  xq_capacity :: nat
  xq_slots :: "'a xq_slot list"

definition xq_new :: "nat \<Rightarrow> 'a xqueue outcome" where
  "xq_new capacity =
     (if capacity < 2 then Panic
      else Ret \<lparr>xq_head = 0, xq_tail = 0, xq_dropped = 0, xq_capacity = capacity,
        xq_slots = map (\<lambda>i. \<lparr>sequence = i, slot_value = None\<rparr>) [0..<capacity]\<rparr>)"

definition wrapping_add :: "nat \<Rightarrow> nat \<Rightarrow> nat" where
  "wrapping_add a b = (a + b) mod (usize_max + 1)"

definition wrapping_sub :: "nat \<Rightarrow> nat \<Rightarrow> nat" where
  "wrapping_sub a b = (a + (usize_max + 1) - b) mod (usize_max + 1)"

definition usize_add :: "nat \<Rightarrow> nat \<Rightarrow> nat outcome" where
  "usize_add a b = expect (checked_usize (a + b))"

definition slot_at :: "'a xqueue \<Rightarrow> nat \<Rightarrow> 'a xq_slot" where
  "slot_at q pos = xq_slots q ! (pos mod xq_capacity q)"

definition set_slot_at :: "'a xqueue \<Rightarrow> nat \<Rightarrow> 'a xq_slot \<Rightarrow> 'a xqueue" where
  "set_slot_at q pos s = q\<lparr>xq_slots := (xq_slots q)[pos mod xq_capacity q := s]\<rparr>"

definition set_sequence :: "'a xqueue \<Rightarrow> nat \<Rightarrow> nat \<Rightarrow> 'a xqueue" where
  "set_sequence q pos n = set_slot_at q pos ((slot_at q pos)\<lparr>sequence := n\<rparr>)"

definition set_value :: "'a xqueue \<Rightarrow> nat \<Rightarrow> 'a option \<Rightarrow> 'a xqueue" where
  "set_value q pos v = set_slot_at q pos ((slot_at q pos)\<lparr>slot_value := v\<rparr>)"

text \<open>
  The program counters of \<open>push\<close>, with the position \<open>t\<close>, the value, the elements displaced so far
  and the position \<open>h\<close> under displacement, and of \<open>pop\<close>.
\<close>

datatype 'a xq_pc =
  PushStart 'a
| PushCheck nat 'a "'a list"
| PushHead nat 'a "'a list"
| PushOld nat 'a "'a list" nat
| PushCas nat 'a "'a list" nat
| PushFree nat 'a "'a list" nat
| PushDrop nat 'a "'a list" nat
| PushCount nat 'a "'a list"
| PushWrite nat 'a "'a list"
| PushPublish nat "'a list"
| PushDone "'a list"
| PopStart
| PopTail nat
| PopSequence nat
| PopSkip nat
| PopCas nat
| PopTake nat
| PopFree nat 'a
| PopDone "'a option"

fun xq_step :: "bool \<Rightarrow> 'a xqueue \<Rightarrow> 'a xq_pc \<Rightarrow> ('a xq_pc \<times> 'a xqueue) outcome" where
  "xq_step spurious q (PushStart v) =
     Ret (PushCheck (xq_tail q) v [], q\<lparr>xq_tail := wrapping_add (xq_tail q) 1\<rparr>)"
| "xq_step spurious q (PushCheck t v ds) =
     Ret (if sequence (slot_at q t) = t then PushWrite t v ds else PushHead t v ds, q)"
| "xq_step spurious q (PushHead t v ds) =
     Ret (if xq_capacity q \<le> wrapping_sub t (xq_head q) then PushOld t v ds (xq_head q) else PushCheck t v ds, q)"
| "xq_step spurious q (PushOld t v ds h) =
     and_then (usize_add h 1) (\<lambda>h1.
       Ret (if sequence (slot_at q h) = h1 then PushCas t v ds h else PushCheck t v ds, q))"
| "xq_step spurious q (PushCas t v ds h) =
     and_then (usize_add h 1) (\<lambda>h1.
       Ret (if xq_head q = h \<and> \<not> spurious then (PushFree t v ds h, q\<lparr>xq_head := h1\<rparr>) else (PushCheck t v ds, q)))"
| "xq_step spurious q (PushFree t v ds h) =
     and_then (usize_add h (xq_capacity q)) (\<lambda>n. Ret (PushDrop t v ds h, set_sequence q h n))"
| "xq_step spurious q (PushDrop t v ds h) =
     and_then (assume_init_value (slot_value (slot_at q h))) (\<lambda>x.
       Ret (PushCount t v (ds @ [x]), set_value q h None))"
| "xq_step spurious q (PushCount t v ds) =
     Ret (PushCheck t v ds, q\<lparr>xq_dropped := wrapping_add (xq_dropped q) 1\<rparr>)"
| "xq_step spurious q (PushWrite t v ds) = Ret (PushPublish t ds, set_value q t (Some v))"
| "xq_step spurious q (PushPublish t ds) =
     and_then (usize_add t 1) (\<lambda>n. Ret (PushDone ds, set_sequence q t n))"
| "xq_step spurious q (PushDone ds) = Ret (PushDone ds, q)"
| "xq_step spurious q PopStart = Ret (PopTail (xq_head q), q)"
| "xq_step spurious q (PopTail h) = Ret (if h = xq_tail q then PopDone None else PopSequence h, q)"
| "xq_step spurious q (PopSequence h) =
     and_then (usize_add h 1) (\<lambda>h1.
       if sequence (slot_at q h) = h1 then Ret (PopCas h, q)
       else and_then (usize_add h (xq_capacity q)) (\<lambda>n.
         Ret (if sequence (slot_at q h) = n then PopSkip h else PopDone None, q)))"
| "xq_step spurious q (PopSkip h) =
     and_then (usize_add h 1) (\<lambda>h1.
       Ret (PopStart, if xq_head q = h \<and> \<not> spurious then q\<lparr>xq_head := h1\<rparr> else q))"
| "xq_step spurious q (PopCas h) =
     and_then (usize_add h 1) (\<lambda>h1.
       Ret (if xq_head q = h \<and> \<not> spurious then (PopTake h, q\<lparr>xq_head := h1\<rparr>) else (PopTail (xq_head q), q)))"
| "xq_step spurious q (PopTake h) =
     and_then (assume_init_value (slot_value (slot_at q h))) (\<lambda>x. Ret (PopFree h x, set_value q h None))"
| "xq_step spurious q (PopFree h x) =
     and_then (usize_add h (xq_capacity q)) (\<lambda>n. Ret (PopDone (Some x), set_sequence q h n))"
| "xq_step spurious q (PopDone r) = Ret (PopDone r, q)"

fun xq_done :: "'a xq_pc \<Rightarrow> bool" where
  "xq_done (PushDone _) = True"
| "xq_done (PopDone _) = True"
| "xq_done _ = False"

text \<open>A call to its end, where no compare-exchange fails spuriously; \<open>None\<close> if it spins forever.\<close>

partial_function (option) xq_run :: "'a xqueue \<Rightarrow> 'a xq_pc \<Rightarrow> ('a xq_pc \<times> 'a xqueue) outcome option" where
  "xq_run q p =
     (if xq_done p then Some (Ret (p, q))
      else (case xq_step False q p of
          Ret (p', q') \<Rightarrow> xq_run q' p'
        | Panic \<Rightarrow> Some Panic
        | Undefined \<Rightarrow> Some Undefined
        | Diverges \<Rightarrow> Some Diverges))"

text \<open>\<open>push\<close> with the displaced elements and \<open>pop\<close>.\<close>

definition xq_push :: "'a xqueue \<Rightarrow> 'a \<Rightarrow> (bool \<times> 'a list \<times> 'a xqueue) outcome" where
  "xq_push q v = (case xq_run q (PushStart v) of
     Some (Ret (PushDone ds, q')) \<Rightarrow> Ret (ds = [], ds, q')
   | Some Panic \<Rightarrow> Panic
   | Some Undefined \<Rightarrow> Undefined
   | _ \<Rightarrow> Diverges)"

definition xq_pop :: "'a xqueue \<Rightarrow> ('a option \<times> 'a xqueue) outcome" where
  "xq_pop q = (case xq_run q PopStart of
     Some (Ret (PopDone r, q')) \<Rightarrow> Ret (r, q')
   | Some Panic \<Rightarrow> Panic
   | Some Undefined \<Rightarrow> Undefined
   | _ \<Rightarrow> Diverges)"

partial_function (option) xq_clear :: "'a xqueue \<Rightarrow> 'a xqueue outcome option" where
  "xq_clear q = (case xq_pop q of
     Ret (Some _, q') \<Rightarrow> xq_clear q'
   | Ret (None, q') \<Rightarrow> Some (Ret q')
   | Panic \<Rightarrow> Some Panic
   | Undefined \<Rightarrow> Some Undefined
   | Diverges \<Rightarrow> Some Diverges)"

definition xq_is_empty :: "'a xqueue \<Rightarrow> bool" where
  "xq_is_empty q \<longleftrightarrow> xq_head q = xq_tail q"

definition xq_len :: "'a xqueue \<Rightarrow> nat" where
  "xq_len q = xq_tail q - xq_head q"

definition xq_drop :: "'a xqueue \<Rightarrow> 'a list outcome" where
  "xq_drop q = map_outcome_list (\<lambda>pos. assume_init_value (slot_value (slot_at q pos))) [xq_head q..<xq_tail q]"

text \<open>Threads in any interleaving: a schedule names the thread of each access.\<close>

fun xq_schedule :: "nat list \<Rightarrow> 'a xq_pc list \<Rightarrow> 'a xqueue \<Rightarrow> ('a xq_pc list \<times> 'a xqueue) outcome" where
  "xq_schedule [] ps q = Ret (ps, q)"
| "xq_schedule (i # is) ps q =
     (if length ps \<le> i then xq_schedule is ps q
      else and_then (xq_step False q (ps ! i)) (\<lambda>(p, q1). xq_schedule is (ps[i := p]) q1))"

section \<open>Contents\<close>

text \<open>
  The elements lie at the positions from the head on. A slot that is occupied at position \<open>p\<close> has the
  sequence number \<open>p + 1\<close>, one that waits for the push at position \<open>p\<close> has \<open>p\<close>.
\<close>

definition xq_holds :: "'a xqueue \<Rightarrow> 'a list \<Rightarrow> bool" where
  "xq_holds q xs \<longleftrightarrow> 2 \<le> xq_capacity q \<and> length (xq_slots q) = xq_capacity q \<and> length xs \<le> xq_capacity q
     \<and> xq_tail q = xq_head q + length xs
     \<and> (\<forall>i < xq_capacity q. slot_at q (xq_head q + i) =
         (if i < length xs then \<lparr>sequence = xq_head q + i + 1, slot_value = Some (xs ! i)\<rparr>
          else \<lparr>sequence = xq_head q + i, slot_value = None\<rparr>))"

lemma xq_holds_new:
  assumes "2 \<le> c"
  shows "\<exists>q. xq_new c = Ret q \<and> xq_holds q [] \<and> xq_capacity q = c \<and> xq_tail q = 0"
  using assms by (auto simp: xq_new_def xq_holds_def slot_at_def)

lemma slot_at_set: "pos mod xq_capacity q < length (xq_slots q) \<Longrightarrow>
    slot_at (set_slot_at q pos s) pos' = (if pos' mod xq_capacity q = pos mod xq_capacity q then s else slot_at q pos')"
  by (auto simp: slot_at_def set_slot_at_def)

lemma near_positions:
  assumes "i < (c :: nat)" and "j < c"
  shows "(h + i) mod c = (h + j) mod c \<longleftrightarrow> i = j"
proof
  assume e: "(h + i) mod c = (h + j) mod c"
  show "i = j"
  proof (rule ccontr)
    assume "i \<noteq> j"
    then consider "i < j" | "j < i" by linarith
    then show False
    proof cases
      case 1
      have "c dvd (h + j) - (h + i)" using e 1 by (intro mod_eq_dvd_iff_nat [THEN iffD1]) auto
      with 1 assms show False by (auto dest: dvd_imp_le)
    next
      case 2
      have "c dvd (h + i) - (h + j)" using e 2 by (intro mod_eq_dvd_iff_nat [THEN iffD1]) auto
      with 2 assms show False by (auto dest: dvd_imp_le)
    qed
  qed
qed simp

lemma slot_at_frame [simp]:
  "slot_at (q\<lparr>xq_head := h\<rparr>) pos = slot_at q pos"
  "slot_at (q\<lparr>xq_tail := t\<rparr>) pos = slot_at q pos"
  "slot_at (q\<lparr>xq_dropped := d\<rparr>) pos = slot_at q pos"
  by (simp_all add: slot_at_def)

lemma set_slot_at_fields [simp]:
  "xq_head (set_slot_at q pos s) = xq_head q" "xq_tail (set_slot_at q pos s) = xq_tail q"
  "xq_dropped (set_slot_at q pos s) = xq_dropped q" "xq_capacity (set_slot_at q pos s) = xq_capacity q"
  "length (xq_slots (set_slot_at q pos s)) = length (xq_slots q)"
  by (simp_all add: set_slot_at_def)

lemma slot_updates:
  "s\<lparr>slot_value := v, sequence := n\<rparr> = \<lparr>sequence = n, slot_value = v\<rparr>"
  "s\<lparr>sequence := n, slot_value := v\<rparr> = \<lparr>sequence = n, slot_value = v\<rparr>"
  for s :: "'a xq_slot"
  by (cases s; simp)+

lemma set_slot_at_twice:
  assumes "pos mod xq_capacity q < length (xq_slots q)"
  shows "set_sequence (set_value q pos v) pos n = set_slot_at q pos \<lparr>sequence = n, slot_value = v\<rparr>"
    and "set_value (set_sequence q pos n) pos v = set_slot_at q pos \<lparr>sequence = n, slot_value = v\<rparr>"
  using assms by (simp_all add: set_sequence_def set_value_def slot_at_def set_slot_at_def slot_updates)

lemma holds_slot:
  "xq_holds q xs \<Longrightarrow> i < xq_capacity q \<Longrightarrow> slot_at q (xq_head q + i) =
     (if i < length xs then \<lparr>sequence = xq_head q + i + 1, slot_value = Some (xs ! i)\<rparr>
      else \<lparr>sequence = xq_head q + i, slot_value = None\<rparr>)"
  by (simp add: xq_holds_def)

lemma holds_index: "xq_holds q xs \<Longrightarrow> pos mod xq_capacity q < length (xq_slots q)"
  by (simp add: xq_holds_def)

lemma holds_append:
  assumes "xq_holds q xs" and "length xs < xq_capacity q"
  shows "xq_holds ((set_slot_at q (xq_tail q) \<lparr>sequence = xq_tail q + 1, slot_value = Some v\<rparr>)\<lparr>xq_tail := xq_tail q + 1\<rparr>) (xs @ [v])"
proof -
  have tail: "xq_tail q = xq_head q + length xs" using assms(1) by (simp add: xq_holds_def)
  show ?thesis
    using assms holds_slot [OF assms(1)] holds_index [OF assms(1)] near_positions [of _ "xq_capacity q" "length xs"]
    unfolding xq_holds_def tail by (auto simp: slot_at_set nth_append)
qed

lemma holds_remove:
  assumes "xq_holds q (x # xs)"
  shows "xq_holds ((set_slot_at q (xq_head q) \<lparr>sequence = xq_head q + xq_capacity q, slot_value = None\<rparr>)\<lparr>xq_head := xq_head q + 1\<rparr>) xs"
    (is "xq_holds ?q xs")
proof -
  let ?c = "xq_capacity q" and ?h = "xq_head q"
  have c: "2 \<le> ?c" "length xs < ?c" using assms by (auto simp: xq_holds_def)
  have "slot_at ?q (?h + 1 + i) = (if i < length xs then \<lparr>sequence = ?h + 1 + i + 1, slot_value = Some (xs ! i)\<rparr>
      else \<lparr>sequence = ?h + 1 + i, slot_value = None\<rparr>)" if "i < ?c" for i
  proof (cases "i + 1 < ?c")
    case True
    then have "(?h + 1 + i) mod ?c \<noteq> ?h mod ?c" using near_positions [of "i + 1" ?c 0 ?h] c by auto
    with holds_slot [OF assms True] show ?thesis by (simp add: slot_at_set holds_index [OF assms])
  next
    case False
    with that have "i = ?c - 1" "?h + 1 + i = ?h + ?c" by simp_all
    with c show ?thesis by (simp add: slot_at_set holds_index [OF assms])
  qed
  then show ?thesis using assms c by (auto simp: xq_holds_def)
qed

section \<open>Undisturbed calls\<close>

lemma xq_run_step:
  "\<not> xq_done p \<Longrightarrow> xq_step False q p = Ret (p', q') \<Longrightarrow> xq_run q p = xq_run q' p'"
  by (subst xq_run.simps) simp

lemma xq_run_done: "xq_done p \<Longrightarrow> xq_run q p = Some (Ret (p, q))"
  by (subst xq_run.simps) simp

lemma push_into_room:
  assumes "xq_holds q xs" and "length xs < xq_capacity q" and "xq_tail q + 1 \<le> usize_max"
  shows "xq_run (q\<lparr>xq_tail := xq_tail q + 1\<rparr>) (PushCheck (xq_tail q) v ds) = Some (Ret (PushDone ds,
    (set_slot_at q (xq_tail q) \<lparr>sequence = xq_tail q + 1, slot_value = Some v\<rparr>)\<lparr>xq_tail := xq_tail q + 1\<rparr>))"
proof -
  let ?t = "xq_tail q" and ?q = "q\<lparr>xq_tail := xq_tail q + 1\<rparr>"
  have "sequence (slot_at q ?t) = ?t"
    using holds_slot [OF assms(1,2)] assms(1) by (simp add: xq_holds_def)
  then have "xq_run ?q (PushCheck ?t v ds) = xq_run ?q (PushWrite ?t v ds)" by (intro xq_run_step) simp_all
  also have "\<dots> = xq_run (set_value ?q ?t (Some v)) (PushPublish ?t ds)" by (intro xq_run_step) simp_all
  also have "\<dots> = xq_run (set_sequence (set_value ?q ?t (Some v)) ?t (?t + 1)) (PushDone ds)"
    using assms(3) by (intro xq_run_step) (simp_all add: usize_add_def checked_usize_def)
  also have "set_sequence (set_value ?q ?t (Some v)) ?t (?t + 1)
      = (set_slot_at q ?t \<lparr>sequence = ?t + 1, slot_value = Some v\<rparr>)\<lparr>xq_tail := ?t + 1\<rparr>"
    using holds_index [OF assms(1)] by (subst set_slot_at_twice) (simp_all add: set_slot_at_def)
  finally show ?thesis by (simp add: xq_run_done)
qed

lemma push_displaces:
  assumes "xq_holds q (x # xs)" and "Suc (length xs) = xq_capacity q" and "xq_tail q + 1 \<le> usize_max"
  defines "q1 \<equiv> (set_slot_at q (xq_head q) \<lparr>sequence = xq_head q + xq_capacity q, slot_value = None\<rparr>)
      \<lparr>xq_head := xq_head q + 1, xq_dropped := wrapping_add (xq_dropped q) 1\<rparr>"
  shows "xq_run (q\<lparr>xq_tail := xq_tail q + 1\<rparr>) (PushCheck (xq_tail q) v [])
    = xq_run (q1\<lparr>xq_tail := xq_tail q + 1\<rparr>) (PushCheck (xq_tail q) v [x])"
proof -
  let ?t = "xq_tail q" and ?h = "xq_head q" and ?c = "xq_capacity q" and ?q = "q\<lparr>xq_tail := xq_tail q + 1\<rparr>"
  have c: "2 \<le> ?c" and t: "?t = ?h + ?c" using assms(1,2) by (auto simp: xq_holds_def)
  have head: "slot_at q ?h = \<lparr>sequence = ?h + 1, slot_value = Some x\<rparr>" using holds_slot [OF assms(1), of 0] c by simp
  have "slot_at q ?t = slot_at q ?h" by (simp add: slot_at_def t)
  with head c t have busy: "sequence (slot_at q ?t) \<noteq> ?t" by simp
  have fits: "usize_add ?h (Suc 0) = Ret (?h + 1)" "usize_add ?h ?c = Ret ?t"
    using assms(3) t c by (simp_all add: usize_add_def checked_usize_def)
  have "?t + (usize_max + 1) - ?h = ?c + (usize_max + 1)" by (simp add: t)
  then have sub: "wrapping_sub ?t ?h = ?c" using assms(3) t unfolding wrapping_sub_def by (simp only: mod_add_self2) simp
  have "xq_run ?q (PushCheck ?t v []) = xq_run ?q (PushHead ?t v [])"
    using busy by (intro xq_run_step) simp_all
  also have "\<dots> = xq_run ?q (PushOld ?t v [] ?h)" by (intro xq_run_step) (simp_all add: sub)
  also have "\<dots> = xq_run ?q (PushCas ?t v [] ?h)" by (intro xq_run_step) (simp_all add: fits head)
  also have "\<dots> = xq_run (?q\<lparr>xq_head := ?h + 1\<rparr>) (PushFree ?t v [] ?h)" by (intro xq_run_step) (simp_all add: fits)
  also have "\<dots> = xq_run (set_sequence (?q\<lparr>xq_head := ?h + 1\<rparr>) ?h ?t) (PushDrop ?t v [] ?h)"
    by (intro xq_run_step) (simp_all add: fits)
  also have "\<dots> = xq_run (set_value (set_sequence (?q\<lparr>xq_head := ?h + 1\<rparr>) ?h ?t) ?h None) (PushCount ?t v [x])"
    using holds_index [OF assms(1)] by (intro xq_run_step) (simp_all add: set_sequence_def slot_at_set head)
  also have "set_value (set_sequence (?q\<lparr>xq_head := ?h + 1\<rparr>) ?h ?t) ?h None
      = (set_slot_at q ?h \<lparr>sequence = ?t, slot_value = None\<rparr>)\<lparr>xq_head := ?h + 1, xq_tail := ?t + 1\<rparr>"
    using holds_index [OF assms(1)] by (subst set_slot_at_twice) (simp_all add: set_slot_at_def)
  also have "xq_run \<dots> (PushCount ?t v [x]) = xq_run (q1\<lparr>xq_tail := ?t + 1\<rparr>) (PushCheck ?t v [x])"
    by (intro xq_run_step) (simp_all add: q1_def t set_slot_at_def)
  finally show ?thesis .
qed

lemma push_start:
  assumes "xq_tail q + 1 \<le> usize_max"
  shows "xq_run q (PushStart v) = xq_run (q\<lparr>xq_tail := xq_tail q + 1\<rparr>) (PushCheck (xq_tail q) v [])"
  using assms by (intro xq_run_step) (simp_all add: wrapping_add_def)

lemma push_law_room:
  assumes "xq_holds q xs" and "length xs < xq_capacity q" and "xq_tail q + 1 \<le> usize_max"
  shows "\<exists>q'. xq_push q v = Ret (True, [], q') \<and> xq_holds q' (xs @ [v]) \<and> xq_capacity q' = xq_capacity q
    \<and> xq_dropped q' = xq_dropped q \<and> xq_tail q' = xq_tail q + 1"
  using push_into_room [OF assms, of v "[]"] holds_append [OF assms(1,2), of v]
  by (simp add: xq_push_def push_start [OF assms(3)])

lemma push_law_full:
  assumes "xq_holds q xs" and "length xs = xq_capacity q" and "xq_tail q + 1 \<le> usize_max"
  shows "\<exists>q'. xq_push q v = Ret (False, [hd xs], q') \<and> xq_holds q' (tl xs @ [v]) \<and> xq_capacity q' = xq_capacity q
    \<and> xq_dropped q' = wrapping_add (xq_dropped q) 1 \<and> xq_tail q' = xq_tail q + 1"
proof -
  obtain x ys where xs: "xs = x # ys" using assms(1,2) by (cases xs) (auto simp: xq_holds_def)
  let ?q1 = "(set_slot_at q (xq_head q) \<lparr>sequence = xq_head q + xq_capacity q, slot_value = None\<rparr>)
      \<lparr>xq_head := xq_head q + 1, xq_dropped := wrapping_add (xq_dropped q) 1\<rparr>"
  have q1: "xq_holds ?q1 ys" using holds_remove [of q x ys] assms(1) xs by (simp add: xq_holds_def)
  have "length ys < xq_capacity ?q1" "xq_tail ?q1 + 1 \<le> usize_max" using assms(2,3) xs by simp_all
  note room = push_into_room [OF q1 this, of v "[x]"] holds_append [OF q1 this(1), of v]
  have "xq_run q (PushStart v) = xq_run (?q1\<lparr>xq_tail := xq_tail q + 1\<rparr>) (PushCheck (xq_tail q) v [x])"
    using push_displaces [of q x ys v] assms xs push_start [OF assms(3), of v] by simp
  with room xs show ?thesis by (simp add: xq_push_def)
qed

lemma pop_law:
  assumes "xq_holds q xs" and "xq_head q + xq_capacity q \<le> usize_max"
  shows "xq_pop q = (case xs of [] \<Rightarrow> Ret (None, q)
    | x # ys \<Rightarrow> Ret (Some x, (set_slot_at q (xq_head q) \<lparr>sequence = xq_head q + xq_capacity q, slot_value = None\<rparr>)
        \<lparr>xq_head := xq_head q + 1\<rparr>))"
proof -
  let ?h = "xq_head q" and ?c = "xq_capacity q"
  have start: "xq_run q PopStart = xq_run q (PopTail ?h)" by (intro xq_run_step) simp_all
  show ?thesis
  proof (cases xs)
    case Nil
    then have "xq_run q (PopTail ?h) = xq_run q (PopDone None)"
      using assms(1) by (intro xq_run_step) (simp_all add: xq_holds_def)
    with start Nil show ?thesis by (simp add: xq_pop_def xq_run_done)
  next
    case (Cons x ys)
    have c: "2 \<le> ?c" using assms(1) by (simp add: xq_holds_def)
    have head: "slot_at q ?h = \<lparr>sequence = ?h + 1, slot_value = Some x\<rparr>"
      using holds_slot [OF assms(1), of 0] c Cons by simp
    have fits: "usize_add ?h (Suc 0) = Ret (?h + 1)" "usize_add ?h ?c = Ret (?h + ?c)"
      using assms(2) c by (simp_all add: usize_add_def checked_usize_def)
    note start
    also have "xq_run q (PopTail ?h) = xq_run q (PopSequence ?h)"
      using assms(1) Cons by (intro xq_run_step) (simp_all add: xq_holds_def)
    also have "\<dots> = xq_run q (PopCas ?h)" by (intro xq_run_step) (simp_all add: fits head)
    also have "\<dots> = xq_run (q\<lparr>xq_head := ?h + 1\<rparr>) (PopTake ?h)" by (intro xq_run_step) (simp_all add: fits)
    also have "\<dots> = xq_run (set_value (q\<lparr>xq_head := ?h + 1\<rparr>) ?h None) (PopFree ?h x)"
      by (intro xq_run_step) (simp_all add: head)
    also have "\<dots> = xq_run (set_sequence (set_value (q\<lparr>xq_head := ?h + 1\<rparr>) ?h None) ?h (?h + ?c)) (PopDone (Some x))"
      by (intro xq_run_step) (simp_all add: fits set_value_def)
    also have "set_sequence (set_value (q\<lparr>xq_head := ?h + 1\<rparr>) ?h None) ?h (?h + ?c)
        = (set_slot_at q ?h \<lparr>sequence = ?h + ?c, slot_value = None\<rparr>)\<lparr>xq_head := ?h + 1\<rparr>"
      using holds_index [OF assms(1)] by (subst set_slot_at_twice) (simp_all add: set_slot_at_def)
    finally show ?thesis using Cons by (simp add: xq_pop_def xq_run_done)
  qed
qed

lemma xq_drop_law:
  assumes "xq_holds q xs"
  shows "xq_drop q = Ret xs"
proof -
  have "xq_drop q = Ret (map (\<lambda>pos. xs ! (pos - xq_head q)) [xq_head q..<xq_tail q])"
    unfolding xq_drop_def
  proof (rule map_outcome_list_Ret)
    fix pos
    assume "pos \<in> set [xq_head q..<xq_tail q]"
    then have "pos = xq_head q + (pos - xq_head q)" "pos - xq_head q < length xs" "pos - xq_head q < xq_capacity q"
      using assms by (auto simp: xq_holds_def)
    with holds_slot [OF assms, of "pos - xq_head q"]
    show "assume_init_value (slot_value (slot_at q pos)) = Ret (xs ! (pos - xq_head q))" by simp
  qed
  moreover have "map (\<lambda>pos. xs ! (pos - xq_head q)) [xq_head q..<xq_tail q] = xs"
    using assms by (intro nth_equalityI) (auto simp: xq_holds_def)
  ultimately show ?thesis by simp
qed

lemma xq_clear_law:
  "xq_holds q xs \<Longrightarrow> xq_tail q + xq_capacity q \<le> usize_max \<Longrightarrow> \<exists>q'. xq_clear q = Some (Ret q') \<and> xq_holds q' []"
proof (induction xs arbitrary: q)
  case Nil
  then show ?case using pop_law [OF Nil(1)] by (subst xq_clear.simps) (simp add: xq_holds_def)
next
  case (Cons x xs)
  let ?q = "(set_slot_at q (xq_head q) \<lparr>sequence = xq_head q + xq_capacity q, slot_value = None\<rparr>)\<lparr>xq_head := xq_head q + 1\<rparr>"
  have "xq_pop q = Ret (Some x, ?q)" using pop_law [OF Cons.prems(1)] Cons.prems by (simp add: xq_holds_def)
  then have "xq_clear q = xq_clear ?q" by (subst xq_clear.simps) simp
  with Cons.IH [OF holds_remove [OF Cons.prems(1)]] Cons.prems(2) show ?case by simp
qed

section \<open>Properties\<close>

text \<open>
  C36: Without interference the ring buffer is the bounded queue that keeps the newest elements. On a
  queue that holds \<open>xs\<close>, with positions below the end of \<open>usize\<close>, a push returns, reports whether it
  displaced the oldest element and counts that, a pop returns the oldest element, the length and
  emptiness are those of \<open>xs\<close>, clearing ends with an empty queue, and dropping the queue drops exactly
  \<open>xs\<close>; no call spins forever, panics
  or touches an uninitialised slot. A new queue holds nothing.
\<close>

theorem undisturbed_queue_correct:
  assumes "xq_holds q xs" and "xq_tail q + xq_capacity q < usize_max"
  shows "(\<exists>q'. xq_push q v = Ret (length xs < xq_capacity q, if length xs < xq_capacity q then [] else [hd xs], q')
        \<and> xq_holds q' (if length xs < xq_capacity q then xs @ [v] else tl xs @ [v]) \<and> xq_capacity q' = xq_capacity q
        \<and> xq_tail q' = xq_tail q + 1
        \<and> xq_dropped q' = (if length xs < xq_capacity q then xq_dropped q else wrapping_add (xq_dropped q) 1))
    \<and> (\<exists>q'. xq_pop q = Ret (case xs of [] \<Rightarrow> None | x # _ \<Rightarrow> Some x, q') \<and> xq_holds q' (tl xs)
        \<and> xq_capacity q' = xq_capacity q \<and> xq_tail q' = xq_tail q \<and> xq_dropped q' = xq_dropped q)
    \<and> xq_len q = length xs \<and> (xq_is_empty q \<longleftrightarrow> xs = []) \<and> xq_drop q = Ret xs
    \<and> (\<exists>q'. xq_clear q = Some (Ret q') \<and> xq_holds q' [])
    \<and> (\<forall>c. 2 \<le> c \<longrightarrow> (\<exists>q0 :: 'a xqueue. xq_new c = Ret q0 \<and> xq_holds q0 [] \<and> xq_capacity q0 = c))"
proof (intro conjI)
  have bound: "length xs \<le> xq_capacity q" and tail: "xq_tail q = xq_head q + length xs"
    using assms(1) by (simp_all add: xq_holds_def)
  show "\<exists>q'. xq_push q v = Ret (length xs < xq_capacity q, if length xs < xq_capacity q then [] else [hd xs], q')
        \<and> xq_holds q' (if length xs < xq_capacity q then xs @ [v] else tl xs @ [v]) \<and> xq_capacity q' = xq_capacity q
        \<and> xq_tail q' = xq_tail q + 1
        \<and> xq_dropped q' = (if length xs < xq_capacity q then xq_dropped q else wrapping_add (xq_dropped q) 1)"
    using push_law_room [OF assms(1), of v] push_law_full [OF assms(1), of v] bound assms(2)
    by (cases "length xs < xq_capacity q") auto
  show "\<exists>q'. xq_pop q = Ret (case xs of [] \<Rightarrow> None | x # _ \<Rightarrow> Some x, q') \<and> xq_holds q' (tl xs)
        \<and> xq_capacity q' = xq_capacity q \<and> xq_tail q' = xq_tail q \<and> xq_dropped q' = xq_dropped q"
    using pop_law [OF assms(1)] assms tail holds_remove [of q] by (cases xs) auto
  show "xq_len q = length xs" "xq_is_empty q \<longleftrightarrow> xs = []" "xq_drop q = Ret xs"
    using tail xq_drop_law [OF assms(1)] by (simp_all add: xq_len_def xq_is_empty_def)
  show "\<exists>q'. xq_clear q = Some (Ret q') \<and> xq_holds q' []" using xq_clear_law [OF assms(1)] assms(2) by simp
  show "\<forall>c. 2 \<le> c \<longrightarrow> (\<exists>q0 :: 'a xqueue. xq_new c = Ret q0 \<and> xq_holds q0 [] \<and> xq_capacity q0 = c)"
    using xq_holds_new by blast
qed

theorem undisturbed_queue_correct_witness:
  "\<exists>(q :: nat xqueue) q'. xq_new 2 = Ret q \<and> xq_push q 7 = Ret (True, [], q') \<and> xq_holds q' [7]"
proof -
  from xq_holds_new [of 2] obtain q :: "nat xqueue" where
    q: "xq_new 2 = Ret q" "xq_holds q []" "xq_capacity q = 2" "xq_tail q = 0" by auto
  then have "xq_tail q + xq_capacity q < usize_max" by (simp add: usize_max_def)
  from undisturbed_queue_correct [OF q(2) this, of 7] q show ?thesis by auto
qed

lemma wrapping_add_small: "a + b \<le> 1000 \<Longrightarrow> wrapping_add a b = a + b"
  by (simp add: wrapping_add_def usize_max_def)

lemma wrapping_sub_small:
  assumes "b \<le> a" and "a \<le> 1000"
  shows "wrapping_sub a b = a - b"
proof -
  have "a + (usize_max + 1) - b = (a - b) + (usize_max + 1)" using assms(1) by simp
  then show ?thesis using assms(2) unfolding wrapping_sub_def by (simp only: mod_add_self2) (simp add: usize_max_def)
qed

lemma usize_add_small: "a + b \<le> 1000 \<Longrightarrow> usize_add a b = Ret (a + b)"
  by (simp add: usize_add_def checked_usize_def usize_max_def)

text \<open>
  C37: Concurrent pushes can destroy a published element. In a queue of capacity two that holds \<open>a\<close> and
  \<open>b\<close>, the producers of \<open>c\<close> and \<open>d\<close> take the positions 2 and 3. The second one displaces \<open>a\<close> and marks
  its slot free before it runs the destructor; the first one then publishes \<open>c\<close> in that slot, and the
  destructor runs on \<open>c\<close>. The push of \<open>c\<close> reports success, \<open>a\<close> is never dropped, and a pop reads the
  destroyed element, which is undefined behaviour.
\<close>

theorem displacement_race:
  fixes a b c d :: 'a
  defines "start \<equiv> \<lparr>xq_head = 0, xq_tail = 2, xq_dropped = 0, xq_capacity = 2,
      xq_slots = [\<lparr>sequence = 1, slot_value = Some a\<rparr>, \<lparr>sequence = 2, slot_value = Some b\<rparr>]\<rparr>"
    and "schedule \<equiv> [0, 1, 1, 1, 1, 1, 1, 0, 0, 0, 1, 1, 1, 1, 1, 1, 1, 1, 1, 1, 1, 1, 2, 2, 2, 2 :: nat]"
  shows "xq_holds start [a, b]
    \<and> (\<exists>q. xq_schedule schedule [PushStart c, PushStart d, PopStart] start
            = Ret ([PushDone [], PushDone [c, b], PopTake 2], q)
          \<and> sequence (slot_at q 2) = 3 \<and> xq_step False q (PopTake 2) = Undefined)"
proof
  show "xq_holds start [a, b]"
    by (auto simp: start_def xq_holds_def slot_at_def less_Suc_eq numeral_2_eq_2)
  show "\<exists>q. xq_schedule schedule [PushStart c, PushStart d, PopStart] start
            = Ret ([PushDone [], PushDone [c, b], PopTake 2], q)
          \<and> sequence (slot_at q 2) = 3 \<and> xq_step False q (PopTake 2) = Undefined"
    by (simp add: start_def schedule_def slot_at_def set_sequence_def set_value_def set_slot_at_def
        wrapping_add_small wrapping_sub_small usize_add_small)
qed

end
