(* ===== verification/Replay_Log.thy ===== *)
theory Replay_Log
  imports Replay_Feed Simulation_Steps
begin

text \<open>
  \<open>exact_replay_executor/src/replay_log.rs\<close>: a recording is read back and validated before anything of
  it is replayed.

  A \<open>BTreeMap\<close> is the list of its entries in the order of the keys. The texts that \<open>derive(Debug)\<close> generates
  are the parameter \<open>D\<close>; serde's parsers are the parameter \<open>J\<close>, as in \<open>Replay_Feed\<close>.
\<close>

section \<open>Model\<close>

datatype exact_replay_step_error =
  InvalidLog string
| Setup string
| Divergence string
| ReplayGap string string
| CallbackFailed string string
| ReplayPoisoned

record debug_texts =
  debug_header :: "message_header \<Rightarrow> string"
  debug_outcome :: "record_outcome \<Rightarrow> string"
  debug_loan_error :: "loan_error \<Rightarrow> string"
  debug_endpoint_key :: "string \<times> nat \<Rightarrow> string"
  debug_step_error :: "exact_replay_step_error \<Rightarrow> string"

type_synonym identity = "string \<times> message_header"

record replay_log =
  rl_tables :: intern_tables
  rl_descriptor :: execution_descriptor
  rl_executions :: "execution_record list"
  rl_payloads :: "(identity \<times> byte list) list"
  rl_logged :: "string set"

definition in_quotes :: "string \<Rightarrow> string" where
  "in_quotes s = [CHR 0x27] @ s @ [CHR 0x27]"

definition is_data_output :: "endpoint_descriptor \<Rightarrow> bool" where
  "is_data_output e \<longleftrightarrow> desc_direction e = Published \<and> desc_transport e \<noteq> Iox2Event"

text \<open>The checks of \<open>descriptor\<close> for the endpoints of one callback, and for all callbacks.\<close>

fun check_endpoints ::
  "string \<Rightarrow> (string \<times> u32) set \<Rightarrow> (bool \<times> nat) set \<Rightarrow> endpoint_descriptor list \<Rightarrow> exact_replay_step_error + (string \<times> u32) set" where
  "check_endpoints name publishers ends [] = Inr publishers"
| "check_endpoints name publishers ends (e # es) =
     (if is_data_output e \<noteq> (desc_publisher e \<noteq> None)
      then Inl (InvalidLog ''publisher index must identify a data output endpoint'')
      else if \<exists>i. desc_publisher e = Some i \<and> (desc_channel e, i) \<in> publishers
      then Inl (InvalidLog (''duplicate publisher index on '' @ in_quotes (desc_channel e)))
      else if (desc_direction e = Received, desc_ordinal e) \<in> ends
      then Inl (InvalidLog (''duplicate ordinal on '' @ in_quotes name))
      else check_endpoints name
        (case desc_publisher e of None \<Rightarrow> publishers | Some i \<Rightarrow> insert (desc_channel e, i) publishers)
        (insert (desc_direction e = Received, desc_ordinal e) ends) es)"

fun check_recorded :: "string set \<Rightarrow> (string \<times> u32) set \<Rightarrow> callback_descriptor list \<Rightarrow> exact_replay_step_error + unit" where
  "check_recorded names publishers [] = Inr ()"
| "check_recorded names publishers (c # cs) =
     (if desc_mode c \<noteq> FullMode
      then Inl (InvalidLog (''callback '' @ in_quotes (desc_name c) @ '' was not fully recorded''))
      else if desc_name c \<in> names then Inl (InvalidLog ''duplicate callback name'')
      else (case check_endpoints (desc_name c) publishers {} (desc_endpoints c) of
          Inl e \<Rightarrow> Inl e
        | Inr publishers' \<Rightarrow> check_recorded (insert (desc_name c) names) publishers' cs))"

definition rl_from_descriptor :: "feed_codec \<Rightarrow> byte list option \<Rightarrow> exact_replay_step_error + replay_log" where
  "rl_from_descriptor J bytes = (case bytes of
     None \<Rightarrow> Inl (InvalidLog ''execution descriptor is required'')
   | Some b \<Rightarrow> (case descriptor_from_slice J b of
       Inl x \<Rightarrow> Inl (InvalidLog x)
     | Inr d \<Rightarrow> (case check_recorded {} {} (desc_callbacks d) of
         Inl e \<Rightarrow> Inl e
       | Inr _ \<Rightarrow> Inr \<lparr>rl_tables = \<lparr>channels_table = interner_new, callbacks_table = interner_new\<rparr>,
           rl_descriptor = d, rl_executions = [], rl_payloads = [], rl_logged = set (logged_channels d)\<rparr>)))"

text \<open>\<open>ReplayLog::endpoint\<close>\<close>

fun debug_direction :: "direction \<Rightarrow> string" where
  "debug_direction Received = ''Received''"
| "debug_direction Published = ''Published''"

definition rl_endpoint ::
  "execution_descriptor \<Rightarrow> nat \<Rightarrow> direction \<Rightarrow> nat \<Rightarrow> bool \<Rightarrow> exact_replay_step_error + endpoint_descriptor" where
  "rl_endpoint d callback dir ordinal event =
     (case (if callback < length (desc_callbacks d)
            then find (\<lambda>p. desc_direction p = dir \<and> desc_ordinal p = ordinal
              \<and> (if event then desc_transport p \<noteq> Native else desc_transport p \<noteq> Iox2Event))
                (desc_endpoints (desc_callbacks d ! callback))
            else None) of
        Some p \<Rightarrow> Inr p
      | None \<Rightarrow> Inl (InvalidLog (''unknown '' @ debug_direction dir @ '' endpoint '' @ dec_digits ordinal
          @ '' on callback '' @ dec_digits callback)))"

definition rl_push ::
  "debug_texts \<Rightarrow> feed_codec \<Rightarrow> replay_log \<Rightarrow> log_entry \<Rightarrow> exact_replay_step_error + replay_log" where
  "rl_push D J l e =
     (if entry_time e = INVALID then Inl (InvalidLog ''invalid timestamp'')
      else if channel_name e = EXECUTION_LOG_CHANNEL
      then (case execution_from_slice J (serialized_body e) of
          Inl x \<Rightarrow> Inl (InvalidLog x)
        | Inr r \<Rightarrow>
            if execution_time r \<noteq> entry_time e then Inl (InvalidLog ''execution timestamp differs from header'')
            else Inr (l\<lparr>rl_executions := rl_executions l @ [r]\<rparr>))
      else if channel_name e = IOX2_EVENT_RECORD_CHANNEL
      then (case event_from_slice J (serialized_body e) of
          Inl x \<Rightarrow> Inl (InvalidLog x)
        | Inr event \<Rightarrow>
            if observed_at event \<noteq> entry_time e then Inl (InvalidLog ''event timestamp differs from header'')
            else (case rl_endpoint (rl_descriptor l) (intern_index (observed_callback event)) Received
                (event_ordinal (observed_event event)) True of
              Inl x \<Rightarrow> Inl x
            | Inr p \<Rightarrow>
                if desc_transport p \<noteq> Iox2Event
                then Inl (InvalidLog ''observed event is not addressed to an event endpoint'')
                else Inr l))
      else if channel_name e \<notin> rl_logged l
      then Inl (InvalidLog (''payload channel '' @ in_quotes (channel_name e) @ '' is not declared logged''))
      else if map_of (rl_payloads l) (channel_name e, entry_header e) \<noteq> None
      then Inl (InvalidLog (''ambiguous payload identity on '' @ in_quotes (channel_name e) @ '': ''
        @ debug_header D (entry_header e)))
      else Inr (l\<lparr>rl_payloads := map_insert (channel_name e, entry_header e) (serialized_body e) (rl_payloads l)\<rparr>))"

text \<open>
  The messages of one execution in \<open>finish\<close>: \<open>produced\<close> are the identities published so far,
  \<open>batch\<close> the next index in each publisher's batch.
\<close>

fun finish_messages ::
  "debug_texts \<Rightarrow> execution_descriptor \<Rightarrow> execution_record \<Rightarrow> direction \<Rightarrow> logged_message list
     \<Rightarrow> identity set \<times> (nat \<rightharpoonup> u32) \<Rightarrow> exact_replay_step_error + identity set \<times> (nat \<rightharpoonup> u32)" where
  "finish_messages D d r dir [] acc = Inr acc"
| "finish_messages D d r dir (m # ms) (produced, batch) =
     (case rl_endpoint d (intern_index (record_callback r)) dir (logged_ordinal m) False of
        Inl x \<Rightarrow> Inl x
      | Inr p \<Rightarrow>
          if published_at (logged_header m) = INVALID then Inl (InvalidLog ''invalid message reference'')
          else if dir = Received then finish_messages D d r dir ms (produced, batch)
          else if (desc_channel p, logged_header m) \<in> produced
          then Inl (InvalidLog (''ambiguous publication identity on '' @ in_quotes (desc_channel p) @ '': ''
            @ debug_header D (logged_header m)))
          else
            let next_index = (case batch (logged_ordinal m) of None \<Rightarrow> 0 | Some n \<Rightarrow> n) in
            if desc_publisher p \<noteq> Some (header_publisher (logged_header m)) \<or> header_batch (logged_header m) \<noteq> next_index
              \<or> published_at (logged_header m) \<noteq> execution_time r
            then Inl (InvalidLog ''output header differs from publisher/batch metadata'')
            else if unat next_index = 2 ^ 32 - 1 then Inl (InvalidLog ''publisher batch index overflow'')
            else finish_messages D d r dir ms
              (insert (desc_channel p, logged_header m) produced, batch(logged_ordinal m \<mapsto> next_index + 1)))"

fun finish_events :: "execution_descriptor \<Rightarrow> nat \<Rightarrow> direction \<Rightarrow> logged_iox2_event list \<Rightarrow> exact_replay_step_error + unit" where
  "finish_events d callback dir [] = Inr ()"
| "finish_events d callback dir (v # vs) =
     (case rl_endpoint d callback dir (event_ordinal v) True of
        Inl x \<Rightarrow> Inl x
      | Inr p \<Rightarrow>
          if dir = Received \<and> desc_transport p \<noteq> Iox2Event
          then Inl (InvalidLog ''input event ordinal is not an event endpoint'')
          else finish_events d callback dir vs)"

definition finish_record ::
  "debug_texts \<Rightarrow> execution_descriptor \<Rightarrow> execution_record \<Rightarrow> identity set \<Rightarrow> exact_replay_step_error + identity set" where
  "finish_record D d r produced =
     (if record_outcome r \<noteq> Committed
      then Inl (InvalidLog (''cannot exactly replay '' @ debug_outcome D (record_outcome r) @ '' execution''))
      else if length (desc_callbacks d) \<le> intern_index (record_callback r) then Inl (InvalidLog ''unknown callback index'')
      else (case finish_messages D d r Received (record_inputs r) (produced, Map.empty) of
          Inl x \<Rightarrow> Inl x
        | Inr acc \<Rightarrow> (case finish_messages D d r Published (record_outputs r) acc of
            Inl x \<Rightarrow> Inl x
          | Inr (produced', _) \<Rightarrow> (case finish_events d (intern_index (record_callback r)) Received (record_events r) of
              Inl x \<Rightarrow> Inl x
            | Inr _ \<Rightarrow> (case finish_events d (intern_index (record_callback r)) Published (record_output_events r) of
                Inl x \<Rightarrow> Inl x
              | Inr _ \<Rightarrow> Inr produced')))))"

fun finish_records ::
  "debug_texts \<Rightarrow> execution_descriptor \<Rightarrow> execution_record list \<Rightarrow> identity set \<Rightarrow> exact_replay_step_error + unit" where
  "finish_records D d [] produced = Inr ()"
| "finish_records D d (r # rs) produced = (case finish_record D d r produced of
     Inl x \<Rightarrow> Inl x
   | Inr produced' \<Rightarrow> finish_records D d rs produced')"

definition rl_finish :: "debug_texts \<Rightarrow> replay_log \<Rightarrow> exact_replay_step_error + replay_log" where
  "rl_finish D l = (let sorted_records = sort_key execution_time (rl_executions l) in
     case finish_records D (rl_descriptor l) sorted_records {} of
       Inl x \<Rightarrow> Inl x
     | Inr _ \<Rightarrow> Inr (l\<lparr>rl_executions := sorted_records\<rparr>))"

text \<open>What \<open>from_reader\<close> and \<open>from_sorted\<close> do before they read entries, with the artifacts as a function.\<close>

definition rl_begin :: "feed_codec \<Rightarrow> (string \<Rightarrow> byte list option) \<Rightarrow> exact_replay_step_error + replay_log" where
  "rl_begin J artifact = (case reject_incomplete_recording (artifact RECORDING_INCOMPLETENESS_ARTIFACT) of
     Inl x \<Rightarrow> Inl (InvalidLog x)
   | Inr _ \<Rightarrow> (case rl_from_descriptor J (artifact EXECUTION_LOG_DESCRIPTOR_ARTIFACT) of
       Inl x \<Rightarrow> Inl x
     | Inr l \<Rightarrow> (case decode_intern_tables (tables_from_slice J) (artifact INTERN_TABLES_ARTIFACT) of
         Inl x \<Rightarrow> Inl (InvalidLog x)
       | Inr tables \<Rightarrow> (case validate_descriptor_tables tables (rl_descriptor l) of
           Inl x \<Rightarrow> Inl (InvalidLog x)
         | Inr _ \<Rightarrow> Inr (l\<lparr>rl_tables := tables\<rparr>)))))"

text \<open>A reader behind the trait \<open>LogFileReader\<close>, which the code reads by index.\<close>

record file_reader =
  file_artifact :: "string \<Rightarrow> byte list option"
  file_len :: nat
  file_entry :: "nat \<Rightarrow> log_entry option"

fun rl_read_indices ::
  "debug_texts \<Rightarrow> feed_codec \<Rightarrow> file_reader \<Rightarrow> nat list \<Rightarrow> replay_log \<Rightarrow> exact_replay_step_error + replay_log" where
  "rl_read_indices D J reader [] l = Inr l"
| "rl_read_indices D J reader (i # is) l = (case file_entry reader i of
     None \<Rightarrow> Inl (InvalidLog ''reader length/entry mismatch'')
   | Some e \<Rightarrow> (case rl_push D J l e of
       Inl x \<Rightarrow> Inl x
     | Inr l' \<Rightarrow> rl_read_indices D J reader is l'))"

definition rl_from_reader :: "debug_texts \<Rightarrow> feed_codec \<Rightarrow> file_reader \<Rightarrow> exact_replay_step_error + replay_log" where
  "rl_from_reader D J reader = (case rl_begin J (file_artifact reader) of
     Inl x \<Rightarrow> Inl x
   | Inr l \<Rightarrow> (case rl_read_indices D J reader [0..<file_len reader] l of
       Inl x \<Rightarrow> Inl x
     | Inr l' \<Rightarrow> rl_finish D l'))"

function rl_read_loop ::
  "debug_texts \<Rightarrow> feed_codec \<Rightarrow> log_reader \<Rightarrow> replay_log \<Rightarrow> exact_replay_step_error + replay_log" where
  "rl_read_loop D J reader l = (case next_entry reader of
     (Inl x, _) \<Rightarrow> Inl (InvalidLog (log_error_text x))
   | (Inr None, _) \<Rightarrow> Inr l
   | (Inr (Some e), reader') \<Rightarrow> (case rl_push D J l e of
       Inl x \<Rightarrow> Inl x
     | Inr l' \<Rightarrow> rl_read_loop D J reader' l'))"
  by pat_completeness auto
termination
  by (relation "measure (\<lambda>(D, J, reader, l). reader_size reader)") (auto intro!: next_entry_shrinks [OF sym])

declare rl_read_loop.simps [simp del]

definition rl_from_sorted :: "debug_texts \<Rightarrow> feed_codec \<Rightarrow> log_reader \<Rightarrow> exact_replay_step_error + replay_log" where
  "rl_from_sorted D J reader = (case rl_begin J (reader_artifact reader) of
     Inl x \<Rightarrow> Inl x
   | Inr l \<Rightarrow> (case rl_read_loop D J reader l of
       Inl x \<Rightarrow> Inl x
     | Inr l' \<Rightarrow> rl_finish D l'))"

definition execution_count :: "replay_log \<Rightarrow> nat" where
  "execution_count l = length (rl_executions l)"

definition output_headers :: "execution_descriptor \<Rightarrow> string \<Rightarrow> execution_record \<Rightarrow> message_header list" where
  "output_headers d channel r = map logged_header (filter (\<lambda>m.
     case rl_endpoint d (intern_index (record_callback r)) Published (logged_ordinal m) False of
       Inl _ \<Rightarrow> False
     | Inr p \<Rightarrow> desc_channel p = channel) (record_outputs r))"

definition source_capacity :: "replay_log \<Rightarrow> string \<Rightarrow> nat" where
  "source_capacity l channel = card (
     set (map (\<lambda>((_, h), _). h) (filter (\<lambda>((name, _), _). name = channel) (rl_payloads l)))
     \<union> (\<Union>r \<in> set (rl_executions l). set (output_headers (rl_descriptor l) channel r)))"

section \<open>What an accepted log satisfies\<close>

definition endpoint_publisher :: "endpoint_descriptor \<Rightarrow> (string \<times> u32) list" where
  "endpoint_publisher e = (case desc_publisher e of None \<Rightarrow> [] | Some i \<Rightarrow> [(desc_channel e, i)])"

definition endpoint_key :: "endpoint_descriptor \<Rightarrow> bool \<times> nat" where
  "endpoint_key e = (desc_direction e = Received, desc_ordinal e)"

definition fully_recorded :: "callback_descriptor list \<Rightarrow> bool" where
  "fully_recorded cs \<longleftrightarrow> distinct (map desc_name cs) \<and> (\<forall>c \<in> set cs. desc_mode c = FullMode \<and> distinct (map endpoint_key (desc_endpoints c))
       \<and> (\<forall>e \<in> set (desc_endpoints c). is_data_output e \<longleftrightarrow> desc_publisher e \<noteq> None))
     \<and> distinct (concat (map (\<lambda>c. concat (map endpoint_publisher (desc_endpoints c))) cs))"

lemma check_endpoints_Inr:
  "check_endpoints name P E es = Inr P' \<Longrightarrow>
     (\<forall>e \<in> set es. is_data_output e \<longleftrightarrow> desc_publisher e \<noteq> None) \<and> distinct (map endpoint_key es)
     \<and> set (map endpoint_key es) \<inter> E = {} \<and> distinct (concat (map endpoint_publisher es))
     \<and> set (concat (map endpoint_publisher es)) \<inter> P = {} \<and> P' = P \<union> set (concat (map endpoint_publisher es))"
proof (induction name P E es rule: check_endpoints.induct)
  case (2 name P E e es)
  let ?P = "case desc_publisher e of None \<Rightarrow> P | Some i \<Rightarrow> insert (desc_channel e, i) P"
  from "2.prems" have ok: "is_data_output e \<longleftrightarrow> desc_publisher e \<noteq> None" "endpoint_key e \<notin> E"
    "set (endpoint_publisher e) \<inter> P = {}" "?P = P \<union> set (endpoint_publisher e)" "distinct (endpoint_publisher e)"
    and rest: "check_endpoints name ?P (insert (endpoint_key e) E) es = Inr P'"
    by (auto simp: endpoint_key_def endpoint_publisher_def split: if_splits option.splits)
  from "2.prems" have conds: "\<not> is_data_output e \<noteq> (desc_publisher e \<noteq> None)"
    "\<not> (\<exists>i. desc_publisher e = Some i \<and> (desc_channel e, i) \<in> P)" "(desc_direction e = Received, desc_ordinal e) \<notin> E"
    by (auto split: if_splits)
  from "2.IH" [OF conds rest [unfolded endpoint_key_def]] have ih: "(\<forall>e \<in> set es. is_data_output e \<longleftrightarrow> desc_publisher e \<noteq> None) \<and> distinct (map endpoint_key es)
     \<and> set (map endpoint_key es) \<inter> insert (endpoint_key e) E = {} \<and> distinct (concat (map endpoint_publisher es))
     \<and> set (concat (map endpoint_publisher es)) \<inter> ?P = {} \<and> P' = ?P \<union> set (concat (map endpoint_publisher es))"
    unfolding endpoint_key_def .
  show ?case using ih ok(1,2,3,5) unfolding ok(4) by auto
qed simp

lemma check_recorded_Inr:
  "check_recorded names P cs = Inr u \<Longrightarrow> fully_recorded cs \<and> set (map desc_name cs) \<inter> names = {}
     \<and> set (concat (map (\<lambda>c. concat (map endpoint_publisher (desc_endpoints c))) cs)) \<inter> P = {}"
proof (induction names P cs rule: check_recorded.induct)
  case (2 names P c cs)
  then obtain P' where ok: "desc_mode c = FullMode" "desc_name c \<notin> names"
    "check_endpoints (desc_name c) P {} (desc_endpoints c) = Inr P'" "check_recorded (insert (desc_name c) names) P' cs = Inr u"
    by (auto split: if_splits sum.splits)
  have "fully_recorded cs \<and> set (map desc_name cs) \<inter> insert (desc_name c) names = {}
     \<and> set (concat (map (\<lambda>c. concat (map endpoint_publisher (desc_endpoints c))) cs)) \<inter> P' = {}"
    using "2.IH" [OF _ _ ok(3,4)] ok(1,2) by simp
  moreover note check_endpoints_Inr [OF ok(3)]
  ultimately show ?case using ok(1,2) by (simp add: fully_recorded_def Int_Un_distrib Int_Un_distrib2 disjoint_iff) blast
qed (simp add: fully_recorded_def)

text \<open>Entries of the log that carry an execution and entries that carry a payload.\<close>

definition record_of :: "feed_codec \<Rightarrow> log_entry \<Rightarrow> execution_record list" where
  "record_of J e = (if channel_name e = EXECUTION_LOG_CHANNEL
     then (case execution_from_slice J (serialized_body e) of Inr r \<Rightarrow> [r] | Inl _ \<Rightarrow> []) else [])"

definition payload_of :: "log_entry \<Rightarrow> (identity \<times> byte list) list" where
  "payload_of e = (if is_reserved (channel_name e) then [] else [((channel_name e, entry_header e), serialized_body e)])"

text \<open>The part of the log that is still to be read, read by \<open>rl_push\<close>.\<close>

fun rl_push_all :: "debug_texts \<Rightarrow> feed_codec \<Rightarrow> log_entry list \<Rightarrow> replay_log \<Rightarrow> exact_replay_step_error + replay_log" where
  "rl_push_all D J [] l = Inr l"
| "rl_push_all D J (e # es) l = (case rl_push D J l e of Inl x \<Rightarrow> Inl x | Inr l' \<Rightarrow> rl_push_all D J es l')"

lemma rl_read_loop_push:
  assumes "reader_intact reader"
  shows "rl_read_loop D J reader l = rl_push_all D J (pending_entries reader) l"
  using assms
proof (induction "pending_entries reader" arbitrary: reader l)
  case Nil
  from next_entry_intact [OF Nil(2)] Nil(1) obtain r' where "next_entry reader = (Inr None, r')" by auto
  with Nil(1) show ?case by (subst rl_read_loop.simps) (simp flip: Nil(1))
next
  case (Cons e es)
  from next_entry_intact [OF Cons.prems] Cons.hyps(2) obtain r' where
    "next_entry reader = (Inr (Some e), r')" "reader_intact r'" "pending_entries r' = es" by (auto split: list.splits)
  with Cons.hyps(1) [of r'] show ?case
    by (subst rl_read_loop.simps) (auto simp flip: Cons.hyps(2) split: sum.splits)
qed

lemma rl_read_indices_push:
  assumes "map (file_entry reader) is = map Some es"
  shows "rl_read_indices D J reader is l = rl_push_all D J es l"
  using assms
proof (induction "is" arbitrary: es l)
  case (Cons i "is")
  then show ?case by (cases es) (auto split: sum.splits)
qed auto

lemma rl_push_law:
  assumes "rl_push D J l e = Inr l'"
  shows "rl_executions l' = rl_executions l @ record_of J e
    \<and> rl_payloads l' = fold (\<lambda>(k, v). map_insert k v) (payload_of e) (rl_payloads l)
    \<and> rl_descriptor l' = rl_descriptor l \<and> rl_logged l' = rl_logged l \<and> rl_tables l' = rl_tables l
    \<and> entry_time e \<noteq> INVALID \<and> (\<forall>r \<in> set (record_of J e). execution_time r = entry_time e)
    \<and> (\<forall>(k, v) \<in> set (payload_of e). map_of (rl_payloads l) k = None \<and> fst k \<in> rl_logged l)"
proof (cases "is_reserved (channel_name e)")
  case True
  have names: "IOX2_EVENT_RECORD_CHANNEL \<noteq> EXECUTION_LOG_CHANNEL"
    by (simp add: EXECUTION_LOG_CHANNEL_def IOX2_EVENT_RECORD_CHANNEL_def)
  show ?thesis
  proof (cases "channel_name e = EXECUTION_LOG_CHANNEL")
    case exec: True
    with assms obtain r where "execution_from_slice J (serialized_body e) = Inr r" "execution_time r = entry_time e"
      "l' = l\<lparr>rl_executions := rl_executions l @ [r]\<rparr>" "entry_time e \<noteq> INVALID"
      by (auto simp: rl_push_def split: if_splits sum.splits)
    with exec True show ?thesis by (simp add: record_of_def payload_of_def)
  next
    case False
    with True assms have "l' = l" "entry_time e \<noteq> INVALID"
      by (auto simp: rl_push_def is_reserved_def split: if_splits sum.splits)
    with False True show ?thesis by (simp add: record_of_def payload_of_def)
  qed
next
  case False
  with assms have "l' = l\<lparr>rl_payloads := map_insert (channel_name e, entry_header e) (serialized_body e) (rl_payloads l)\<rparr>"
    "entry_time e \<noteq> INVALID" "map_of (rl_payloads l) (channel_name e, entry_header e) = None" "channel_name e \<in> rl_logged l"
    by (auto simp: rl_push_def is_reserved_def split: if_splits)
  with False show ?thesis by (simp add: record_of_def payload_of_def is_reserved_def)
qed

lemma rl_push_all_law:
  assumes "rl_push_all D J es l = Inr l'" and "sorted_wrt (<) (map fst (rl_payloads l))"
  shows "rl_executions l' = rl_executions l @ concat (map (record_of J) es)
    \<and> sorted_wrt (<) (map fst (rl_payloads l')) \<and> set (rl_payloads l') = set (rl_payloads l) \<union> set (concat (map payload_of es))
    \<and> distinct (map fst (concat (map payload_of es))) \<and> set (map fst (rl_payloads l)) \<inter> set (map fst (concat (map payload_of es))) = {}
    \<and> rl_descriptor l' = rl_descriptor l \<and> rl_logged l' = rl_logged l \<and> rl_tables l' = rl_tables l
    \<and> (\<forall>r \<in> set (concat (map (record_of J) es)). execution_time r \<noteq> INVALID)
    \<and> (\<forall>k \<in> set (map fst (concat (map payload_of es))). fst k \<in> rl_logged l)"
  using assms
proof (induction es arbitrary: l)
  case (Cons e es)
  then obtain l1 where push: "rl_push D J l e = Inr l1" and rest: "rl_push_all D J es l1 = Inr l'" by (auto split: sum.splits)
  note law = rl_push_law [OF push]
  have new: "sorted_wrt (<) (map fst (rl_payloads l1)) \<and> set (rl_payloads l1) = set (rl_payloads l) \<union> set (payload_of e)
    \<and> set (map fst (rl_payloads l)) \<inter> set (map fst (payload_of e)) = {} \<and> length (payload_of e) \<le> 1"
  proof (cases "payload_of e")
    case (Cons kv kvs)
    then obtain k v where kv: "payload_of e = [(k, v)]" by (cases kv) (auto simp: payload_of_def split: if_splits)
    with law have fresh: "k \<notin> set (map fst (rl_payloads l))" by (simp add: map_of_eq_None_iff)
    from map_insert_keys [OF Cons.prems(2) this, of v] law kv fresh show ?thesis by auto
  qed (use law Cons.prems(2) in auto)
  from Cons.IH [OF rest] new have ih: "rl_executions l' = rl_executions l1 @ concat (map (record_of J) es)"
    "sorted_wrt (<) (map fst (rl_payloads l'))" "set (rl_payloads l') = set (rl_payloads l1) \<union> set (concat (map payload_of es))"
    "distinct (map fst (concat (map payload_of es)))" "set (map fst (rl_payloads l1)) \<inter> set (map fst (concat (map payload_of es))) = {}"
    "rl_descriptor l' = rl_descriptor l1 \<and> rl_logged l' = rl_logged l1 \<and> rl_tables l' = rl_tables l1"
    "\<forall>r \<in> set (concat (map (record_of J) es)). execution_time r \<noteq> INVALID"
    "\<forall>k \<in> set (map fst (concat (map payload_of es))). fst k \<in> rl_logged l1" by blast+
  have keys: "set (map fst (rl_payloads l1)) = set (map fst (rl_payloads l)) \<union> set (map fst (payload_of e))"
    using new by (simp add: image_Un)
  have single: "distinct (map fst (payload_of e))" by (simp add: payload_of_def)
  show ?case
  proof (intro conjI)
    show "distinct (map fst (concat (map payload_of (e # es))))"
      "set (map fst (rl_payloads l)) \<inter> set (map fst (concat (map payload_of (e # es)))) = {}"
      using ih(4,5) new single unfolding keys by auto
    show "set (rl_payloads l') = set (rl_payloads l) \<union> set (concat (map payload_of (e # es)))" using ih(3) new by auto
    show "\<forall>r \<in> set (concat (map (record_of J) (e # es))). execution_time r \<noteq> INVALID" using ih(7) law by auto
    show "\<forall>k \<in> set (map fst (concat (map payload_of (e # es)))). fst k \<in> rl_logged l" using ih(8) law by fastforce
  qed (use ih(1,2,6) law in simp_all)
qed simp

text \<open>The identities that an execution publishes.\<close>

definition output_identity :: "execution_descriptor \<Rightarrow> execution_record \<Rightarrow> logged_message \<Rightarrow> identity" where
  "output_identity d r m = (case rl_endpoint d (intern_index (record_callback r)) Published (logged_ordinal m) False of
     Inr p \<Rightarrow> (desc_channel p, logged_header m) | Inl _ \<Rightarrow> ([], logged_header m))"

definition stamped_output :: "execution_descriptor \<Rightarrow> execution_record \<Rightarrow> logged_message \<Rightarrow> bool" where
  "stamped_output d r m \<longleftrightarrow> (\<exists>p. rl_endpoint d (intern_index (record_callback r)) Published (logged_ordinal m) False = Inr p
     \<and> desc_publisher p = Some (header_publisher (logged_header m)) \<and> published_at (logged_header m) = execution_time r)"

definition batch_position :: "logged_message list \<Rightarrow> nat \<Rightarrow> nat" where
  "batch_position ms i = length (filter (\<lambda>m. logged_ordinal m = logged_ordinal (ms ! i)) (take i ms))"

lemma finish_outputs_law:
  "finish_messages D d r Published ms (produced, batch) = Inr (produced', batch') \<Longrightarrow>
     (\<forall>m \<in> set ms. stamped_output d r m) \<and> distinct (map (output_identity d r) ms)
     \<and> set (map (output_identity d r) ms) \<inter> produced = {} \<and> produced' = produced \<union> set (map (output_identity d r) ms)
     \<and> (\<forall>i < length ms. unat (header_batch (logged_header (ms ! i)))
          = (case batch (logged_ordinal (ms ! i)) of None \<Rightarrow> 0 | Some n \<Rightarrow> unat n) + batch_position ms i)"
proof (induction ms arbitrary: produced batch)
  case (Cons m ms)
  let ?n = "case batch (logged_ordinal m) of None \<Rightarrow> 0 | Some n \<Rightarrow> n"
  let ?batch = "batch(logged_ordinal m \<mapsto> ?n + 1)"
  from Cons.prems obtain p where
    p: "rl_endpoint d (intern_index (record_callback r)) Published (logged_ordinal m) False = Inr p"
      "(desc_channel p, logged_header m) \<notin> produced" "desc_publisher p = Some (header_publisher (logged_header m))"
      "header_batch (logged_header m) = ?n" "published_at (logged_header m) = execution_time r" "unat ?n \<noteq> 2 ^ 32 - 1" and
    rest: "finish_messages D d r Published ms (insert (desc_channel p, logged_header m) produced, ?batch) = Inr (produced', batch')"
    by (auto simp: Let_def split: sum.splits if_splits)
  have id: "output_identity d r m = (desc_channel p, logged_header m)" using p(1) by (simp add: output_identity_def)
  have m: "stamped_output d r m" using p by (auto simp: stamped_output_def)
  have "unat ?n < 2 ^ 32" using unsigned_less [of ?n] by simp
  with p(6) have suc: "unat (?n + 1) = Suc (unat ?n)" by (simp add: unat_plus_if_size word_size)
  note ih = Cons.IH [OF rest]
  have "unat (header_batch (logged_header ((m # ms) ! i)))
      = (case batch (logged_ordinal ((m # ms) ! i)) of None \<Rightarrow> 0 | Some n \<Rightarrow> unat n) + batch_position (m # ms) i"
    if i: "i < length (m # ms)" for i
  proof (cases i)
    case 0
    then show ?thesis using p(4) by (simp add: batch_position_def split: option.splits)
  next
    case (Suc j)
    with i ih have "unat (header_batch (logged_header (ms ! j)))
        = (case ?batch (logged_ordinal (ms ! j)) of None \<Rightarrow> 0 | Some n \<Rightarrow> unat n) + batch_position ms j" by auto
    with Suc suc show ?thesis by (auto simp: batch_position_def split: option.splits)
  qed
  with ih m id p(2) show ?case by auto
qed simp

lemma finish_inputs_law:
  "finish_messages D d r Received ms acc = Inr acc' \<Longrightarrow> acc' = acc \<and> (\<forall>m \<in> set ms.
     (\<exists>p. rl_endpoint d (intern_index (record_callback r)) Received (logged_ordinal m) False = Inr p)
     \<and> published_at (logged_header m) \<noteq> INVALID)"
proof (induction ms arbitrary: acc)
  case (Cons m ms)
  then show ?case by (cases acc) (auto split: sum.splits if_splits)
qed simp

lemma finish_events_law:
  "finish_events d callback dir vs = Inr u \<Longrightarrow> \<forall>v \<in> set vs. \<exists>p. rl_endpoint d callback dir (event_ordinal v) True = Inr p
     \<and> (dir = Received \<longrightarrow> desc_transport p = Iox2Event)"
  by (induction d callback dir vs rule: finish_events.induct) (auto split: sum.splits if_splits)

text \<open>An execution that can be replayed exactly.\<close>

definition replayable :: "execution_descriptor \<Rightarrow> execution_record \<Rightarrow> bool" where
  "replayable d r \<longleftrightarrow> record_outcome r = Committed \<and> intern_index (record_callback r) < length (desc_callbacks d)
     \<and> (\<forall>m \<in> set (record_inputs r). (\<exists>p. rl_endpoint d (intern_index (record_callback r)) Received (logged_ordinal m) False = Inr p)
          \<and> published_at (logged_header m) \<noteq> INVALID)
     \<and> (\<forall>m \<in> set (record_outputs r). stamped_output d r m)
     \<and> (\<forall>i < length (record_outputs r). unat (header_batch (logged_header (record_outputs r ! i))) = batch_position (record_outputs r) i)
     \<and> (\<forall>v \<in> set (record_events r). \<exists>p. rl_endpoint d (intern_index (record_callback r)) Received (event_ordinal v) True = Inr p
          \<and> desc_transport p = Iox2Event)
     \<and> (\<forall>v \<in> set (record_output_events r). \<exists>p. rl_endpoint d (intern_index (record_callback r)) Published (event_ordinal v) True = Inr p)"

lemma finish_record_law:
  assumes "finish_record D d r produced = Inr produced'"
  shows "replayable d r \<and> distinct (map (output_identity d r) (record_outputs r))
    \<and> set (map (output_identity d r) (record_outputs r)) \<inter> produced = {}
    \<and> produced' = produced \<union> set (map (output_identity d r) (record_outputs r))"
proof -
  from assms obtain acc b where ok: "record_outcome r = Committed" "intern_index (record_callback r) < length (desc_callbacks d)"
    "finish_messages D d r Received (record_inputs r) (produced, Map.empty) = Inr acc"
    "finish_messages D d r Published (record_outputs r) acc = Inr (produced', b)"
    "finish_events d (intern_index (record_callback r)) Received (record_events r) = Inr ()"
    "finish_events d (intern_index (record_callback r)) Published (record_output_events r) = Inr ()"
    by (auto simp: finish_record_def split: if_splits sum.splits)
  note inputs = finish_inputs_law [OF ok(3)]
  from ok(4) inputs have "finish_messages D d r Published (record_outputs r) (produced, Map.empty) = Inr (produced', b)" by simp
  from finish_outputs_law [OF this] inputs ok(1,2) finish_events_law [OF ok(5)] finish_events_law [OF ok(6)] show ?thesis
    by (auto simp: replayable_def)
qed

lemma finish_records_law:
  "finish_records D d rs produced = Inr u \<Longrightarrow> (\<forall>r \<in> set rs. replayable d r)
     \<and> distinct (concat (map (\<lambda>r. map (output_identity d r) (record_outputs r)) rs))
     \<and> set (concat (map (\<lambda>r. map (output_identity d r) (record_outputs r)) rs)) \<inter> produced = {}"
proof (induction rs arbitrary: produced)
  case (Cons r rs)
  then obtain produced' where r: "finish_record D d r produced = Inr produced'" and rest: "finish_records D d rs produced' = Inr u"
    by (auto split: sum.splits)
  from finish_record_law [OF r] Cons.IH [OF rest] show ?case by (simp add: Int_Un_distrib) blast
qed simp

definition replay_log_ok :: "replay_log \<Rightarrow> bool" where
  "replay_log_ok l \<longleftrightarrow> fully_recorded (desc_callbacks (rl_descriptor l)) \<and> rl_logged l = set (logged_channels (rl_descriptor l))
     \<and> validate_descriptor_tables (rl_tables l) (rl_descriptor l) = Inr ()
     \<and> sorted (map execution_time (rl_executions l)) \<and> (\<forall>r \<in> set (rl_executions l). replayable (rl_descriptor l) r)
     \<and> distinct (concat (map (\<lambda>r. map (output_identity (rl_descriptor l) r) (record_outputs r)) (rl_executions l)))
     \<and> sorted_wrt (<) (map fst (rl_payloads l)) \<and> fst ` fst ` set (rl_payloads l) \<subseteq> rl_logged l"

lemma rl_accept_law:
  assumes start: "rl_begin J artifact = Inr l0" and push: "rl_push_all D J es l0 = Inr l1" and fin: "rl_finish D l1 = Inr l"
  shows "replay_log_ok l \<and> artifact RECORDING_INCOMPLETENESS_ARTIFACT = None
    \<and> rl_executions l = sort_key execution_time (concat (map (record_of J) es))
    \<and> set (rl_payloads l) = set (concat (map payload_of es)) \<and> distinct (map fst (concat (map payload_of es)))"
proof -
  from start obtain b where d: "descriptor_from_slice J b = Inr (rl_descriptor l0)" "check_recorded {} {} (desc_callbacks (rl_descriptor l0)) = Inr ()"
    "rl_logged l0 = set (logged_channels (rl_descriptor l0))" "rl_executions l0 = []" "rl_payloads l0 = []"
    "validate_descriptor_tables (rl_tables l0) (rl_descriptor l0) = Inr ()" "artifact RECORDING_INCOMPLETENESS_ARTIFACT = None"
    by (auto simp: rl_begin_def rl_from_descriptor_def reject_incomplete_recording_def split: sum.splits option.splits if_splits)
  from rl_push_all_law [OF push] d(5) have p: "rl_executions l1 = rl_executions l0 @ concat (map (record_of J) es)"
    "sorted_wrt (<) (map fst (rl_payloads l1))" "set (rl_payloads l1) = set (concat (map payload_of es))"
    "distinct (map fst (concat (map payload_of es)))"
    "rl_descriptor l1 = rl_descriptor l0" "rl_logged l1 = rl_logged l0" "rl_tables l1 = rl_tables l0"
    "\<forall>k \<in> set (map fst (concat (map payload_of es))). fst k \<in> rl_logged l0" by simp_all
  let ?rs = "sort_key execution_time (rl_executions l1)"
  from fin have f: "finish_records D (rl_descriptor l1) ?rs {} = Inr ()" "l = l1\<lparr>rl_executions := ?rs\<rparr>"
    by (auto simp: rl_finish_def Let_def split: sum.splits)
  have "fst ` fst ` set (rl_payloads l) \<subseteq> rl_logged l" using p(3,6,8) f(2) by fastforce
  then show ?thesis
    using check_recorded_Inr [OF d(2)] finish_records_law [OF f(1)] p(1-7) d(3-7)
    unfolding replay_log_ok_def by (simp add: f(2))
qed

section \<open>The order of the entries\<close>

definition entry_ok :: "feed_codec \<Rightarrow> execution_descriptor \<Rightarrow> string set \<Rightarrow> log_entry \<Rightarrow> bool" where
  "entry_ok J d logged e \<longleftrightarrow> entry_time e \<noteq> INVALID \<and>
     (if channel_name e = EXECUTION_LOG_CHANNEL
      then (\<exists>r. execution_from_slice J (serialized_body e) = Inr r \<and> execution_time r = entry_time e)
      else if channel_name e = IOX2_EVENT_RECORD_CHANNEL
      then (\<exists>v p. event_from_slice J (serialized_body e) = Inr v \<and> observed_at v = entry_time e
        \<and> rl_endpoint d (intern_index (observed_callback v)) Received (event_ordinal (observed_event v)) True = Inr p
        \<and> desc_transport p = Iox2Event)
      else channel_name e \<in> logged)"

lemma entry_ok_time: "entry_ok J d logged e \<Longrightarrow> r \<in> set (record_of J e) \<Longrightarrow> execution_time r = entry_time e"
  by (cases "channel_name e = EXECUTION_LOG_CHANNEL") (auto simp: entry_ok_def record_of_def)

lemma rl_push_iff:
  "(\<exists>l'. rl_push D J l e = Inr l') \<longleftrightarrow> entry_ok J (rl_descriptor l) (rl_logged l) e
     \<and> set (map fst (rl_payloads l)) \<inter> set (map fst (payload_of e)) = {}"
proof (cases "is_reserved (channel_name e)")
  case True
  then show ?thesis
    by (auto simp: rl_push_def entry_ok_def payload_of_def is_reserved_def split: sum.splits if_splits)
next
  case False
  then show ?thesis
    by (auto simp: rl_push_def entry_ok_def payload_of_def is_reserved_def map_of_eq_None_iff)
qed

lemma rl_push_all_iff:
  assumes "sorted_wrt (<) (map fst (rl_payloads l))"
  shows "(\<exists>l'. rl_push_all D J es l = Inr l') \<longleftrightarrow> (\<forall>e \<in> set es. entry_ok J (rl_descriptor l) (rl_logged l) e)
    \<and> distinct (map fst (concat (map payload_of es))) \<and> set (map fst (rl_payloads l)) \<inter> set (map fst (concat (map payload_of es))) = {}"
  using assms
proof (induction es arbitrary: l)
  case (Cons e es)
  show ?case
  proof (cases "rl_push D J l e")
    case (Inl x)
    then have "\<not> (\<exists>l'. rl_push D J l e = Inr l')" by simp
    with Inl rl_push_iff [of D J l e] show ?thesis by auto
  next
    case (Inr l1)
    from rl_push_all_law [of D J "[e]" l l1] Inr Cons.prems have law: "sorted_wrt (<) (map fst (rl_payloads l1))"
      "set (rl_payloads l1) = set (rl_payloads l) \<union> set (payload_of e)" "distinct (map fst (payload_of e))"
      "rl_descriptor l1 = rl_descriptor l" "rl_logged l1 = rl_logged l" by auto
    have keys: "set (map fst (rl_payloads l1)) = set (map fst (rl_payloads l)) \<union> set (map fst (payload_of e))"
      using law(2) by (simp add: image_Un)
    have e: "entry_ok J (rl_descriptor l) (rl_logged l) e" "set (map fst (rl_payloads l)) \<inter> set (map fst (payload_of e)) = {}"
      using rl_push_iff [of D J l e] Inr by auto
    have pushed: "rl_push_all D J (e # es) l = rl_push_all D J es l1"
      "concat (map payload_of (e # es)) = payload_of e @ concat (map payload_of es)" by (simp_all add: Inr)
    have sets: "(K \<union> A) \<inter> B = {} \<longleftrightarrow> A \<inter> B = {} \<and> K \<inter> (A \<union> B) = {}" if "K \<inter> A = {}" for K A B :: "identity set"
      using that by blast
    show ?thesis
      unfolding pushed map_append set_append distinct_append Cons.IH [OF law(1)] keys law(4,5) sets [OF e(2)]
      by (simp only: e(1) law(3) list.set(2) ball_simps simp_thms) (simp only: conj_ac)
  qed
qed simp

lemma sorted_entries_unique:
  assumes "sorted_wrt (<) (map fst xs)" and "sorted_wrt (<) (map fst ys)" and "set xs = set (ys :: ('k :: linorder \<times> 'v) list)"
  shows "xs = ys"
proof (rule map_sorted_distinct_set_unique [where f = fst])
  have d: "distinct (map fst xs)" "sorted (map fst xs)" "distinct (map fst ys)" "sorted (map fst ys)"
    using assms(1,2) by (simp_all add: strict_sorted_iff)
  then show "sorted (map fst xs)" "distinct (map fst xs)" "sorted (map fst ys)" "distinct (map fst ys)" by simp_all
  show "inj_on fst (set xs \<union> set ys)" using d(1) assms(3) by (simp add: distinct_map)
qed (rule assms(3))

lemma records_sorted:
  assumes "\<forall>e \<in> set es. \<forall>r \<in> set (record_of J e). execution_time r = entry_time e"
  shows "concat (map (record_of J) (sort_key entry_time es)) = sort_key execution_time (concat (map (record_of J) es))"
proof (rule properties_for_sort_key [symmetric])
  let ?es = "sort_key entry_time es"
  have mset: "mset (concat (map (record_of J) xs)) = sum_mset (image_mset (\<lambda>e. mset (record_of J e)) (mset xs))" for xs
    by (induction xs) auto
  show "mset (concat (map (record_of J) ?es)) = mset (concat (map (record_of J) es))" unfolding mset by simp
  have sorted: "sorted (map execution_time (concat (map (record_of J) xs)))"
    if "sorted (map entry_time xs)" "set xs \<subseteq> set es" for xs
    using that assms
  proof (induction xs)
    case (Cons e xs)
    have "sorted (map execution_time (record_of J e))" by (simp add: record_of_def split: sum.split)
    with Cons show ?case by (auto simp: sorted_append)
  qed simp
  show "sorted (map execution_time (concat (map (record_of J) ?es)))" by (rule sorted) simp_all
  have filt: "filter (\<lambda>r. execution_time r = t) (concat (map (record_of J) xs))
      = concat (map (record_of J) (filter (\<lambda>e. entry_time e = t) xs))" if "set xs \<subseteq> set es" for t xs
    using that assms
  proof (induction xs)
    case (Cons e xs)
    then have "\<forall>r \<in> set (record_of J e). execution_time r = entry_time e" by simp
    then have "filter (\<lambda>r. execution_time r = t) (record_of J e) = (if entry_time e = t then record_of J e else [])"
      by (auto simp: filter_empty_conv intro: filter_True)
    with Cons show ?case by simp
  qed simp
  show "filter (\<lambda>x. execution_time k = execution_time x) (concat (map (record_of J) ?es))
      = filter (\<lambda>x. execution_time k = execution_time x) (concat (map (record_of J) es))" for k
    unfolding eq_commute [of "execution_time k"] by (simp only: filt set_sort subset_refl sort_key_stable)
qed

lemma rl_begin_empty:
  "rl_begin J artifact = Inr l \<Longrightarrow> rl_payloads l = [] \<and> rl_executions l = []"
  by (auto simp: rl_begin_def rl_from_descriptor_def split: sum.splits option.splits)

text \<open>Reading entries and finishing gives the same log for every order that is the same by time.\<close>

definition rl_read :: "debug_texts \<Rightarrow> feed_codec \<Rightarrow> log_entry list \<Rightarrow> replay_log \<Rightarrow> exact_replay_step_error + replay_log" where
  "rl_read D J es l = (case rl_push_all D J es l of Inl x \<Rightarrow> Inl x | Inr l' \<Rightarrow> rl_finish D l')"

lemma rl_read_sorted:
  assumes empty: "rl_payloads l0 = []" "rl_executions l0 = []"
  shows "rl_read D J es l0 = Inr l \<longleftrightarrow> rl_read D J (sort_key entry_time es) l0 = Inr l"
proof -
  let ?es = "sort_key entry_time es"
  have sorted: "sorted_wrt (<) (map fst (rl_payloads l0))" by (simp add: empty)
  have "mset (map fst (concat (map payload_of xs))) = sum_mset (image_mset (\<lambda>e. mset (map fst (payload_of e))) (mset xs))" for xs
    by (induction xs) auto
  then have "mset (map fst (concat (map payload_of ?es))) = mset (map fst (concat (map payload_of es)))" by simp
  then have "distinct (map fst (concat (map payload_of ?es))) = distinct (map fst (concat (map payload_of es)))"
    by (metis mset_eq_imp_distinct_iff)
  then have iff: "(\<exists>l1. rl_push_all D J ?es l0 = Inr l1) \<longleftrightarrow> (\<exists>l1. rl_push_all D J es l0 = Inr l1)"
    unfolding rl_push_all_iff [OF sorted] by (simp add: empty)
  show ?thesis
  proof (cases "rl_push_all D J es l0")
    case (Inl x)
    with iff show ?thesis by (cases "rl_push_all D J ?es l0") (auto simp: rl_read_def)
  next
    case (Inr l1)
    with iff obtain l2 where l2: "rl_push_all D J ?es l0 = Inr l2" by blast
    note a = rl_push_all_law [OF Inr sorted] and b = rl_push_all_law [OF l2 sorted]
    have "\<forall>e \<in> set es. entry_ok J (rl_descriptor l0) (rl_logged l0) e" using rl_push_all_iff [OF sorted, of D J es] Inr by blast
    then have "\<forall>e \<in> set es. \<forall>r \<in> set (record_of J e). execution_time r = entry_time e" by (blast intro: entry_ok_time)
    from records_sorted [OF this] have "sort_key execution_time (rl_executions l2) = sort_key execution_time (rl_executions l1)"
      using a b by (simp add: empty sort_key_id_if_sorted)
    moreover have "set (rl_payloads l1) = set (rl_payloads l2)" "sorted_wrt (<) (map fst (rl_payloads l1))"
      "sorted_wrt (<) (map fst (rl_payloads l2))" using a b by simp_all
    then have "rl_payloads l1 = rl_payloads l2" by (blast intro: sorted_entries_unique)
    ultimately have same: "sort_key execution_time (rl_executions l2) = sort_key execution_time (rl_executions l1)"
      "rl_descriptor l2 = rl_descriptor l1" "l2\<lparr>rl_executions := rs\<rparr> = l1\<lparr>rl_executions := rs\<rparr>" for rs
      using a b by (auto intro!: replay_log.equality)
    have "rl_finish D l2 = rl_finish D l1" by (simp only: rl_finish_def Let_def same)
    with Inr l2 show ?thesis by (simp add: rl_read_def)
  qed
qed

section \<open>Properties\<close>

text \<open>
  C30: A log that is accepted for exact replay can be replayed. It is complete and all its callbacks
  were fully recorded under distinct names with distinct endpoints and publishers that the name tables
  know. Its executions are those of the log in stable order by time, each committed, of a known
  callback, with inputs, outputs and events at known endpoints of their direction; every output carries the time of its execution,
  the index of its publisher and its position in the batch, and no identity is published twice. The
  payloads are exactly those of the log, each under one identity.
\<close>

theorem accepted_log_replayable:
  assumes "reader_intact reader" and "rl_from_sorted D J reader = Inr l"
  defines "es \<equiv> pending_entries reader"
  shows "replay_log_ok l \<and> reader_artifact reader RECORDING_INCOMPLETENESS_ARTIFACT = None
    \<and> rl_executions l = sort_key execution_time (concat (map (record_of J) es))
    \<and> distinct (map fst (concat (map payload_of es)))
    \<and> (\<forall>k bytes. map_of (rl_payloads l) k = Some bytes \<longleftrightarrow> (k, bytes) \<in> set (concat (map payload_of es)))"
proof -
  from assms(2) obtain l0 l1 where l: "rl_begin J (reader_artifact reader) = Inr l0"
    "rl_push_all D J es l0 = Inr l1" "rl_finish D l1 = Inr l"
    by (auto simp: rl_from_sorted_def rl_read_loop_push [OF assms(1)] es_def split: sum.splits)
  note law = rl_accept_law [OF l]
  then have "distinct (map fst (rl_payloads l))" by (simp add: replay_log_ok_def strict_sorted_iff)
  with law show ?thesis by (simp add: map_of_eq_Some_iff)
qed

text \<open>
  A log file read entry by entry and the same log read as a sorted stream give the same log for
  replay, or are both refused: the order in which the file has the entries does not matter, except among
  entries of the same time.
\<close>

theorem reading_order_irrelevant:
  assumes "reader_intact reader" and "map (file_entry file) [0..<file_len file] = map Some es"
    and "pending_entries reader = sort_key entry_time es" and "reader_artifact reader = file_artifact file"
  shows "rl_from_reader D J file = Inr l \<longleftrightarrow> rl_from_sorted D J reader = Inr l"
proof (cases "rl_begin J (file_artifact file)")
  case (Inr l0)
  then show ?thesis
    using rl_read_sorted [of l0 D J es l] rl_begin_empty [OF Inr]
    by (simp add: rl_from_reader_def rl_from_sorted_def rl_read_def rl_read_loop_push [OF assms(1)] assms(3,4)
        rl_read_indices_push [OF assms(2)])
qed (simp add: rl_from_reader_def rl_from_sorted_def assms(4))

text \<open>A recording of one execution of a callback that copies its input.\<close>

definition copy_descriptor :: execution_descriptor where
  "copy_descriptor = \<lparr>desc_callbacks = [\<lparr>desc_name = ''copy'', desc_mode = FullMode, desc_endpoints = [
       \<lparr>desc_ordinal = 0, desc_channel = ''imu'', desc_direction = Received, desc_transport = Native, desc_payload_type = ''u8'',
         desc_publisher = None\<rparr>,
       \<lparr>desc_ordinal = 0, desc_channel = ''out'', desc_direction = Published, desc_transport = Native, desc_payload_type = ''u8'',
         desc_publisher = Some 0\<rparr>]\<rparr>], logged_channels = [''imu'', ''out'']\<rparr>"

definition copy_record :: execution_record where
  "copy_record = \<lparr>record_callback = InternId 0, execution_time = from_nanos 70, body_duration_ns = 1,
     record_inputs = [\<lparr>logged_ordinal = 0, logged_header = MessageHeader (from_nanos 65) 0 0\<rparr>], record_events = [],
     record_output_events = [], record_outputs = [\<lparr>logged_ordinal = 0, logged_header = MessageHeader (from_nanos 70) 0 0\<rparr>],
     record_outcome = Committed, record_truncated = 0\<rparr>"

definition copy_codec :: feed_codec where
  "copy_codec = \<lparr>descriptor_from_slice = (\<lambda>_. Inr copy_descriptor),
     tables_from_slice = (\<lambda>_. Inr ([''imu'', ''out''], [''copy''])), execution_from_slice = (\<lambda>_. Inr copy_record),
     event_from_slice = (\<lambda>_. Inl ''no'')\<rparr>"

definition copy_entries :: "log_entry list" where
  "copy_entries = [
     \<lparr>entry_header = MessageHeader (from_nanos 65) 0 0, channel_name = ''imu'', serialized_body = [5]\<rparr>,
     \<lparr>entry_header = MessageHeader (from_nanos 70) 0 0, channel_name = ''execution_log'', serialized_body = []\<rparr>,
     \<lparr>entry_header = MessageHeader (from_nanos 70) 0 0, channel_name = ''out'', serialized_body = [5]\<rparr>]"

definition copy_reader :: log_reader where
  "copy_reader = \<lparr>log_source = SourceFile (map (\<lambda>e. Inr \<lparr>run_sequence = 1, run_row = e\<rparr>) (tl copy_entries)),
     log_channels = {''imu'', ''execution_log'', ''out''},
     log_artifacts = [EXECUTION_LOG_DESCRIPTOR_ARTIFACT \<mapsto> [], INTERN_TABLES_ARTIFACT \<mapsto> []], entry_count = 3,
     first_time = Some (from_nanos 65), peeked = Some (hd copy_entries), reader_failed = False\<rparr>"

definition copy_log :: replay_log where
  "copy_log = \<lparr>rl_tables = \<lparr>channels_table = table_of [''imu'', ''out''], callbacks_table = table_of [''copy'']\<rparr>,
     rl_descriptor = copy_descriptor, rl_executions = [copy_record],
     rl_payloads = [((''imu'', MessageHeader (from_nanos 65) 0 0), [5]), ((''out'', MessageHeader (from_nanos 70) 0 0), [5])],
     rl_logged = {''imu'', ''out''}\<rparr>"

definition plain_texts :: debug_texts where
  "plain_texts = \<lparr>debug_header = (\<lambda>_. ''header''), debug_outcome = (\<lambda>_. ''outcome''), debug_loan_error = (\<lambda>_. ''error''),
     debug_endpoint_key = fst, debug_step_error = (\<lambda>_. ''error'')\<rparr>"

lemma copy_reader_facts:
  "reader_intact copy_reader" "pending_entries copy_reader = copy_entries"
  by (simp_all add: copy_reader_def reader_intact_def pending_entries_def copy_entries_def)

lemma copy_begin:
  "rl_begin copy_codec (reader_artifact copy_reader) = Inr (copy_log\<lparr>rl_executions := [], rl_payloads := []\<rparr>)"
proof -
  have names: "''recording_incompleteness'' \<noteq> EXECUTION_LOG_DESCRIPTOR_ARTIFACT" "''recording_incompleteness'' \<noteq> INTERN_TABLES_ARTIFACT"
    "EXECUTION_LOG_DESCRIPTOR_ARTIFACT \<noteq> INTERN_TABLES_ARTIFACT"
    by (simp_all add: EXECUTION_LOG_DESCRIPTOR_ARTIFACT_def INTERN_TABLES_ARTIFACT_def)
  then have artifacts: "reader_artifact copy_reader RECORDING_INCOMPLETENESS_ARTIFACT = None"
    "reader_artifact copy_reader EXECUTION_LOG_DESCRIPTOR_ARTIFACT = Some []" "reader_artifact copy_reader INTERN_TABLES_ARTIFACT = Some []"
    by (simp_all add: reader_artifact_def copy_reader_def RECORDING_INCOMPLETENESS_ARTIFACT_def)
  have tables: "decode_intern_tables (tables_from_slice copy_codec) (Some [])
      = Inr \<lparr>channels_table = table_of [''imu'', ''out''], callbacks_table = table_of [''copy'']\<rparr>"
    by (simp add: decode_intern_tables_def copy_codec_def interner_deserialize_table)
  have descriptor: "rl_from_descriptor copy_codec (Some []) = Inr (copy_log\<lparr>rl_executions := [], rl_payloads := [],
      rl_tables := \<lparr>channels_table = interner_new, callbacks_table = interner_new\<rparr>\<rparr>)"
    by (simp add: rl_from_descriptor_def copy_codec_def copy_descriptor_def copy_log_def is_data_output_def)
  have valid: "validate_descriptor_tables \<lparr>channels_table = table_of [''imu'', ''out''], callbacks_table = table_of [''copy'']\<rparr>
      copy_descriptor = Inr ()"
    unfolding validate_descriptor_tables_def by (subst validate_descriptors_iff) (simp_all add: copy_descriptor_def)
  show ?thesis
    by (simp add: rl_begin_def artifacts tables descriptor reject_incomplete_recording_def valid copy_log_def)
qed

lemma copy_accepted: "rl_from_sorted plain_texts copy_codec copy_reader = Inr copy_log"
proof -
  have "rl_push_all plain_texts copy_codec copy_entries (copy_log\<lparr>rl_executions := [], rl_payloads := []\<rparr>) = Inr copy_log"
    by (simp add: copy_entries_def rl_push_def copy_log_def copy_codec_def copy_record_def from_nanos_def INVALID_def i64_defs
        EXECUTION_LOG_CHANNEL_def IOX2_EVENT_RECORD_CHANNEL_def less_prod_def)
  moreover have "rl_finish plain_texts copy_log = Inr copy_log"
    by (simp add: rl_finish_def Let_def copy_log_def copy_record_def copy_descriptor_def finish_record_def rl_endpoint_def
        intern_index_def from_nanos_def INVALID_def i64_defs)
  ultimately show ?thesis
    by (simp add: rl_from_sorted_def copy_begin rl_read_loop_push copy_reader_facts)
qed

theorem accepted_log_replayable_witness:
  "replay_log_ok copy_log \<and> rl_executions copy_log = [copy_record]
   \<and> map_of (rl_payloads copy_log) (''imu'', MessageHeader (from_nanos 65) 0 0) = Some [5]"
proof -
  note law = accepted_log_replayable [OF copy_reader_facts(1) copy_accepted, unfolded copy_reader_facts(2)]
  have "((''imu'', MessageHeader (from_nanos 65) 0 0), [5]) \<in> set (concat (map payload_of copy_entries))"
    by (simp add: copy_entries_def payload_of_def is_reserved_def EXECUTION_LOG_CHANNEL_def IOX2_EVENT_RECORD_CHANNEL_def)
  with law have "replay_log_ok copy_log" "map_of (rl_payloads copy_log) (''imu'', MessageHeader (from_nanos 65) 0 0) = Some [5]"
    by blast+
  then show ?thesis by (simp add: copy_log_def)
qed

definition shuffled_entries :: "log_entry list" where
  "shuffled_entries = [copy_entries ! 1, copy_entries ! 0, copy_entries ! 2]"

definition copy_file :: file_reader where
  "copy_file = \<lparr>file_artifact = reader_artifact copy_reader, file_len = length shuffled_entries,
     file_entry = (\<lambda>i. if i < length shuffled_entries then Some (shuffled_entries ! i) else None)\<rparr>"

theorem reading_order_irrelevant_witness: "rl_from_reader plain_texts copy_codec copy_file = Inr copy_log"
proof -
  have entries: "map (file_entry copy_file) [0..<file_len copy_file] = map Some shuffled_entries"
    by (rule nth_equalityI) (simp_all add: copy_file_def)
  have sorted: "pending_entries copy_reader = sort_key entry_time shuffled_entries"
    by (simp add: copy_reader_facts copy_entries_def shuffled_entries_def from_nanos_def time_order)
  have "reader_artifact copy_reader = file_artifact copy_file" by (simp add: copy_file_def)
  from reading_order_irrelevant [OF copy_reader_facts(1) entries sorted this] copy_accepted show ?thesis by blast
qed

end
