(* ===== verification/Exact_Report.thy ===== *)
theory Exact_Report
  imports Replay_Log
begin

text \<open>
  \<open>exact_replay_executor/src/report.rs\<close>: the accuracy report of an exact replay. The statistics per channel are an
  association list, whose order stands for that of the hash map. Strings are sequences of bytes. The
  counters are natural numbers: they count references of a log that is in memory. The ratio as a
  floating-point number is left out.
\<close>

section \<open>Model\<close>

datatype replay_detail_kind = DetailGap | DetailMismatch | DetailError

record replay_detail =
  detail_kind :: replay_detail_kind
  detail_callback :: intern_id
  detail_channel :: "intern_id option"
  detail_time :: framework_time
  detail_endpoint :: "(direction \<times> nat) option"
  detail_publication :: "message_header option"
  detail_reason :: string
  detail_truncated :: bool

definition DEFAULT_MAX_MISMATCH_DETAILS :: nat where
  "DEFAULT_MAX_MISMATCH_DETAILS = 10"

definition MAX_DETAIL_BYTES :: nat where
  "MAX_DETAIL_BYTES = 1024"

text \<open>\<open>str::is_char_boundary\<close>: not in the middle of a UTF-8 sequence.\<close>

definition is_char_boundary :: "string \<Rightarrow> nat \<Rightarrow> bool" where
  "is_char_boundary text i \<longleftrightarrow> i = 0 \<or> i = length text
     \<or> i < length text \<and> \<not> (0x80 \<le> (of_char (text ! i) :: nat) \<and> (of_char (text ! i) :: nat) < 0xC0)"

fun boundary_below :: "string \<Rightarrow> nat \<Rightarrow> nat" where
  "boundary_below text 0 = 0"
| "boundary_below text (Suc i) = (if is_char_boundary text (Suc i) then Suc i else boundary_below text i)"

definition truncate_detail :: "string \<Rightarrow> string" where
  "truncate_detail text = (if MAX_DETAIL_BYTES < length text then take (boundary_below text MAX_DETAIL_BYTES) text else text)"

record channel_stats =
  stats_logged :: nat
  stats_reproduced :: nat
  stats_mismatches :: nat
  stats_gaps :: nat

definition stats_default :: channel_stats where
  "stats_default = \<lparr>stats_logged = 0, stats_reproduced = 0, stats_mismatches = 0, stats_gaps = 0\<rparr>"

definition stats_total :: "channel_stats \<Rightarrow> nat" where
  "stats_total s = stats_logged s + stats_reproduced s + stats_gaps s"

definition stats_is_exact :: "channel_stats \<Rightarrow> bool" where
  "stats_is_exact s \<longleftrightarrow> stats_mismatches s = 0 \<and> stats_gaps s = 0"

record replay_report =
  report_tables :: intern_tables
  report_details :: "replay_detail list"
  omitted_details :: nat
  total_executions :: nat
  consumed_executions :: nat
  report_channels :: "(string \<times> channel_stats) list"
  max_mismatch_details :: nat
  mismatch_details :: "string list"
  report_errors :: nat

definition report_new :: "nat \<Rightarrow> nat \<Rightarrow> replay_report" where
  "report_new executions max_details = \<lparr>report_tables = \<lparr>channels_table = interner_new, callbacks_table = interner_new\<rparr>,
     report_details = [], omitted_details = 0, total_executions = executions, consumed_executions = 0, report_channels = [],
     max_mismatch_details = max_details, mismatch_details = [], report_errors = 0\<rparr>"

definition set_intern_tables :: "intern_tables \<Rightarrow> replay_report \<Rightarrow> replay_report" where
  "set_intern_tables tables r = r\<lparr>report_tables := tables\<rparr>"

definition report_detail :: "replay_detail \<Rightarrow> replay_report \<Rightarrow> replay_report" where
  "report_detail d r =
     (if length (report_details r) = max_mismatch_details r
      then r\<lparr>omitted_details := min (omitted_details r + 1) usize_max\<rparr>
      else r\<lparr>report_details := report_details r
        @ [d\<lparr>detail_truncated := (MAX_DETAIL_BYTES < length (detail_reason d)), detail_reason := truncate_detail (detail_reason d)\<rparr>]\<rparr>)"

definition mark_consumed :: "replay_report \<Rightarrow> replay_report" where
  "mark_consumed r = r\<lparr>consumed_executions := consumed_executions r + 1\<rparr>"

text \<open>\<open>entry(channel).or_default()\<close>, changed by \<open>f\<close>.\<close>

definition channel_entry :: "string \<Rightarrow> (channel_stats \<Rightarrow> channel_stats) \<Rightarrow> replay_report \<Rightarrow> replay_report" where
  "channel_entry channel f r = r\<lparr>report_channels := AList.update channel
     (f (case map_of (report_channels r) channel of None \<Rightarrow> stats_default | Some s \<Rightarrow> s)) (report_channels r)\<rparr>"

definition record_logged :: "string \<Rightarrow> replay_report \<Rightarrow> replay_report" where
  "record_logged channel = channel_entry channel (\<lambda>s. s\<lparr>stats_logged := stats_logged s + 1\<rparr>)"

definition record_reproduced :: "string \<Rightarrow> replay_report \<Rightarrow> replay_report" where
  "record_reproduced channel = channel_entry channel (\<lambda>s. s\<lparr>stats_reproduced := stats_reproduced s + 1\<rparr>)"

definition record_gap :: "string \<Rightarrow> replay_report \<Rightarrow> replay_report" where
  "record_gap channel = channel_entry channel (\<lambda>s. s\<lparr>stats_gaps := stats_gaps s + 1\<rparr>)"

definition record_mismatch :: "string \<Rightarrow> string \<Rightarrow> replay_report \<Rightarrow> replay_report" where
  "record_mismatch channel text r =
     (let r1 = channel_entry channel (\<lambda>s. s\<lparr>stats_mismatches := stats_mismatches s + 1\<rparr>) r in
      if length (mismatch_details r1) < max_mismatch_details r1
      then r1\<lparr>mismatch_details := mismatch_details r1 @ [truncate_detail text]\<rparr> else r1)"

definition record_error :: "replay_report \<Rightarrow> replay_report" where
  "record_error r = r\<lparr>report_errors := report_errors r + 1\<rparr>"

definition total_messages :: "replay_report \<Rightarrow> nat" where
  "total_messages r = sum_list (map (stats_total \<circ> snd) (report_channels r))"

definition logged_count :: "replay_report \<Rightarrow> nat" where
  "logged_count r = sum_list (map (stats_logged \<circ> snd) (report_channels r))"

definition reproduced_count :: "replay_report \<Rightarrow> nat" where
  "reproduced_count r = sum_list (map (stats_reproduced \<circ> snd) (report_channels r))"

definition mismatch_count :: "replay_report \<Rightarrow> nat" where
  "mismatch_count r = sum_list (map (stats_mismatches \<circ> snd) (report_channels r))"

definition gap_count :: "replay_report \<Rightarrow> nat" where
  "gap_count r = sum_list (map (stats_gaps \<circ> snd) (report_channels r))"

definition report_is_exact :: "replay_report \<Rightarrow> bool" where
  "report_is_exact r \<longleftrightarrow> consumed_executions r = total_executions r \<and> report_errors r = 0
     \<and> list_all (stats_is_exact \<circ> snd) (report_channels r)"

section \<open>Laws\<close>

lemma boundary_below_le: "boundary_below s i \<le> i"
  by (induction s i rule: boundary_below.induct) auto

lemma boundary_below_boundary: "is_char_boundary s (boundary_below s i)"
  by (induction s i rule: boundary_below.induct) (auto simp: is_char_boundary_def)

lemma truncate_detail_bounded: "length (truncate_detail s) \<le> MAX_DETAIL_BYTES"
  using boundary_below_le [of s MAX_DETAIL_BYTES] by (simp add: truncate_detail_def)

text \<open>
  What a report keeps: the channels are distinct and the details are within their limits. It is truthful
  when whatever counts against a channel also counts as an error.
\<close>

definition report_bounds :: "replay_report \<Rightarrow> bool" where
  "report_bounds r \<longleftrightarrow> distinct (map fst (report_channels r)) \<and> length (report_details r) \<le> max_mismatch_details r
     \<and> length (mismatch_details r) \<le> max_mismatch_details r
     \<and> (\<forall>d \<in> set (report_details r). length (detail_reason d) \<le> MAX_DETAIL_BYTES)
     \<and> (\<forall>t \<in> set (mismatch_details r). length t \<le> MAX_DETAIL_BYTES)"

definition report_truthful :: "replay_report \<Rightarrow> bool" where
  "report_truthful r \<longleftrightarrow> (report_errors r = 0 \<longrightarrow> list_all (stats_is_exact \<circ> snd) (report_channels r))"

lemma channel_entry_fields [simp]:
  "report_errors (channel_entry c f r) = report_errors r" "consumed_executions (channel_entry c f r) = consumed_executions r"
  "total_executions (channel_entry c f r) = total_executions r" "report_details (channel_entry c f r) = report_details r"
  "mismatch_details (channel_entry c f r) = mismatch_details r" "max_mismatch_details (channel_entry c f r) = max_mismatch_details r"
  by (simp_all add: channel_entry_def)

lemma channel_entry_bounds: "report_bounds r \<Longrightarrow> report_bounds (channel_entry c f r)"
  by (simp add: report_bounds_def channel_entry_def distinct_update)

lemma channel_entry_exact:
  assumes "list_all (stats_is_exact \<circ> snd) (report_channels r)" and "\<And>s. stats_is_exact s \<Longrightarrow> stats_is_exact (f s)"
  shows "list_all (stats_is_exact \<circ> snd) (report_channels (channel_entry c f r))"
proof -
  let ?s = "case map_of (report_channels r) c of None \<Rightarrow> stats_default | Some s \<Rightarrow> s"
  have "stats_is_exact ?s"
    using assms(1) by (auto simp: list_all_iff stats_default_def stats_is_exact_def split: option.split dest!: map_of_SomeD)
  then have "stats_is_exact (f ?s)" by (rule assms(2))
  moreover have "list_all (stats_is_exact \<circ> snd) (AList.update c v xs)"
    if "stats_is_exact v" "list_all (stats_is_exact \<circ> snd) xs" for v xs
    using that by (induction xs) auto
  ultimately show ?thesis using assms(1) by (simp add: channel_entry_def)
qed

text \<open>The operations keep the bounds; those that count nothing against a channel keep the report truthful.\<close>

definition report_inv :: "replay_report \<Rightarrow> bool" where
  "report_inv r \<longleftrightarrow> report_bounds r \<and> report_truthful r"

lemma report_inv_new: "report_inv (set_intern_tables tables (report_new n k))"
  by (simp add: report_inv_def report_bounds_def report_truthful_def report_new_def set_intern_tables_def)

lemma record_error_truthful [simp]: "report_truthful (record_error r)"
  by (simp add: report_truthful_def record_error_def)

lemma report_ops_bounds:
  assumes "report_bounds r"
  shows "report_bounds (report_detail d r)" "report_bounds (mark_consumed r)" "report_bounds (record_logged c r)"
    "report_bounds (record_reproduced c r)" "report_bounds (record_gap c r)" "report_bounds (record_mismatch c t r)"
    "report_bounds (record_error r)"
proof -
  have entry: "report_bounds (channel_entry c f r)" for c f using assms by (rule channel_entry_bounds)
  then show "report_bounds (record_logged c r)" "report_bounds (record_reproduced c r)" "report_bounds (record_gap c r)"
    by (simp_all add: record_logged_def record_reproduced_def record_gap_def)
  show "report_bounds (record_mismatch c t r)"
    using entry [of c "\<lambda>s. s\<lparr>stats_mismatches := stats_mismatches s + 1\<rparr>"] truncate_detail_bounded [of t]
    by (auto simp: record_mismatch_def Let_def report_bounds_def)
  show "report_bounds (report_detail d r)"
    using assms truncate_detail_bounded [of "detail_reason d"] by (auto simp: report_bounds_def report_detail_def)
  show "report_bounds (mark_consumed r)" "report_bounds (record_error r)"
    using assms by (simp_all add: report_bounds_def mark_consumed_def record_error_def)
qed

lemma report_ops_truthful:
  assumes "report_truthful r"
  shows "report_truthful (report_detail d r)" "report_truthful (mark_consumed r)" "report_truthful (record_logged c r)"
    "report_truthful (record_reproduced c r)"
proof -
  show "report_truthful (record_logged c r)" "report_truthful (record_reproduced c r)"
    using assms channel_entry_exact [of r]
    by (auto simp: record_logged_def record_reproduced_def report_truthful_def stats_is_exact_def)
qed (use assms in \<open>simp_all add: report_truthful_def report_detail_def mark_consumed_def\<close>)

lemma report_is_exact_iff:
  "report_truthful r \<Longrightarrow> report_is_exact r \<longleftrightarrow> consumed_executions r = total_executions r \<and> report_errors r = 0"
  by (auto simp: report_is_exact_def report_truthful_def)

lemma report_fields [simp]:
  "report_errors (report_detail d r) = report_errors r" "report_errors (mark_consumed r) = report_errors r"
  "report_errors (record_logged c r) = report_errors r" "report_errors (record_reproduced c r) = report_errors r"
  "report_errors (record_gap c r) = report_errors r" "report_errors (record_mismatch c t r) = report_errors r"
  "report_errors (record_error r) = report_errors r + 1"
  "consumed_executions (report_detail d r) = consumed_executions r" "consumed_executions (mark_consumed r) = consumed_executions r + 1"
  "consumed_executions (record_logged c r) = consumed_executions r" "consumed_executions (record_reproduced c r) = consumed_executions r"
  "consumed_executions (record_gap c r) = consumed_executions r" "consumed_executions (record_mismatch c t r) = consumed_executions r"
  "consumed_executions (record_error r) = consumed_executions r"
  "total_executions (report_detail d r) = total_executions r" "total_executions (mark_consumed r) = total_executions r"
  "total_executions (record_logged c r) = total_executions r" "total_executions (record_reproduced c r) = total_executions r"
  "total_executions (record_gap c r) = total_executions r" "total_executions (record_mismatch c t r) = total_executions r"
  "total_executions (record_error r) = total_executions r"
  by (simp_all add: report_detail_def mark_consumed_def record_logged_def record_reproduced_def record_gap_def
      record_mismatch_def record_error_def Let_def)

end
