(* ===== verification/Exact_Replay.thy ===== *)
theory Exact_Replay
  imports Exact_Report
begin

text \<open>
  \<open>exact_replay_executor/src/replay.rs\<close>, \<open>output_capture.rs\<close> and the bindings of \<open>plan.rs\<close>: recorded executions are run again on
  their recorded inputs, and what they publish is compared with the recording.

  The callbacks, sources and cache loaders act on a world that holds the states of the captures, which the
  publishers' observers share, and everything else, of type \<open>'w\<close>. A panic inside \<open>execute\<close> is the
  value \<open>Unwinding\<close>, so that the report keeps what was recorded before it; what the panicking call itself did
  to the world is lost, and the executor is poisoned. Another thread may request a stop: the argument
  \<open>stops\<close> of \<open>replay_run\<close> says before which steps one has arrived.
\<close>

section \<open>Captures\<close>

record capture_state =
  capture_messages :: "(message_header \<times> byte list) list"
  capture_error :: "string option"
  capture_capacity :: nat

record 'w replay_world =
  captures :: "capture_state list"
  replay_rest :: 'w

record output_capture =
  capture_channel :: string
  capture_type :: string
  capture_index :: nat

definition set_capture :: "nat \<Rightarrow> (capture_state \<Rightarrow> capture_state) \<Rightarrow> 'w replay_world \<Rightarrow> 'w replay_world" where
  "set_capture i f w = w\<lparr>captures := (captures w)[i := f (captures w ! i)]\<rparr>"

definition capture_new :: "string \<Rightarrow> string \<Rightarrow> nat \<Rightarrow> 'w replay_world \<Rightarrow> (output_capture \<times> 'w replay_world) outcome" where
  "capture_new channel type_name capacity w =
     (if capacity = 0 then Panic
      else Ret (\<lparr>capture_channel = channel, capture_type = type_name, capture_index = length (captures w)\<rparr>,
        w\<lparr>captures := captures w @ [\<lparr>capture_messages = [], capture_error = None, capture_capacity = capacity\<rparr>]\<rparr>))"

definition capture_clear :: "output_capture \<Rightarrow> 'w replay_world \<Rightarrow> 'w replay_world" where
  "capture_clear c = set_capture (capture_index c) (\<lambda>s. s\<lparr>capture_messages := [], capture_error := None\<rparr>)"

definition capture_take ::
  "output_capture \<Rightarrow> 'w replay_world \<Rightarrow> (string + (message_header \<times> byte list) list) \<times> 'w replay_world" where
  "capture_take c w = (let s = captures w ! capture_index c in
     (case capture_error s of Some e \<Rightarrow> Inl e | None \<Rightarrow> Inr (capture_messages s),
      set_capture (capture_index c) (\<lambda>s. s\<lparr>capture_messages := [], capture_error := None\<rparr>) w))"

definition first_error :: "string \<Rightarrow> capture_state \<Rightarrow> capture_state" where
  "first_error e s = (case capture_error s of None \<Rightarrow> s\<lparr>capture_error := Some e\<rparr> | Some _ \<Rightarrow> s)"

definition sink_captured :: "nat \<Rightarrow> message_header \<Rightarrow> byte list \<Rightarrow> 'w replay_world \<Rightarrow> 'w replay_world" where
  "sink_captured i h body = set_capture i (\<lambda>s.
     if capture_capacity s \<le> length (capture_messages s) then first_error ''publisher capture overflow'' s
     else s\<lparr>capture_messages := capture_messages s @ [(h, body)]\<rparr>)"

definition sink_failed :: "nat \<Rightarrow> string \<Rightarrow> 'w replay_world \<Rightarrow> 'w replay_world" where
  "sink_failed i e = set_capture i (first_error e)"

section \<open>Bindings\<close>

record 'w replay_source =
  source_channel :: string
  source_type :: string
  source_inject :: "message_header \<Rightarrow> byte list \<Rightarrow> 'w replay_world \<Rightarrow> ((string + unit) \<times> 'w replay_world) outcome"

type_synonym 'w cache_loader = "message_header \<Rightarrow> byte list \<Rightarrow> 'w replay_world \<Rightarrow> ((string + unit) \<times> 'w replay_world) outcome"

record 'w replay_bindings =
  bound_inputs :: "((string \<times> nat) \<times> 'w replay_source) list"
  bound_outputs :: "((string \<times> nat) \<times> output_capture) list"
  bound_caches :: "(string \<times> 'w cache_loader) list"

definition bindings_new :: "'w replay_bindings" where
  "bindings_new = \<lparr>bound_inputs = [], bound_outputs = [], bound_caches = []\<rparr>"

definition add_input ::
  "debug_texts \<Rightarrow> 'w replay_bindings \<Rightarrow> string \<Rightarrow> nat \<Rightarrow> 'w replay_source \<Rightarrow> exact_replay_step_error + 'w replay_bindings" where
  "add_input D b callback ordinal source =
     (if map_of (bound_inputs b) (callback, ordinal) \<noteq> None
      then Inl (Setup (''duplicate input binding '' @ debug_endpoint_key D (callback, ordinal)))
      else Inr (b\<lparr>bound_inputs := map_insert (callback, ordinal) source (bound_inputs b)\<rparr>))"

definition add_output ::
  "debug_texts \<Rightarrow> 'w replay_bindings \<Rightarrow> string \<Rightarrow> nat \<Rightarrow> output_capture \<Rightarrow> exact_replay_step_error + 'w replay_bindings" where
  "add_output D b callback ordinal capture =
     (if map_of (bound_outputs b) (callback, ordinal) \<noteq> None
      then Inl (Setup (''duplicate output binding '' @ debug_endpoint_key D (callback, ordinal)))
      else Inr (b\<lparr>bound_outputs := map_insert (callback, ordinal) capture (bound_outputs b)\<rparr>))"

definition add_cache ::
  "'w replay_bindings \<Rightarrow> string \<Rightarrow> 'w cache_loader \<Rightarrow> exact_replay_step_error + 'w replay_bindings" where
  "add_cache b channel load =
     (if map_of (bound_caches b) channel \<noteq> None then Inl (Setup (''duplicate source cache '' @ in_quotes channel))
      else Inr (b\<lparr>bound_caches := map_insert channel load (bound_caches b)\<rparr>))"

section \<open>Construction\<close>

datatype divergence_policy = Strict | BestEffort

record exact_replay_config =
  divergence_policy :: divergence_policy
  config_max_details :: nat

definition replay_config_default :: exact_replay_config where
  "replay_config_default = \<lparr>divergence_policy = Strict, config_max_details = DEFAULT_MAX_MISMATCH_DETAILS\<rparr>"

text \<open>The part of the trait \<open>Callback\<close> that replay uses.\<close>

record 'w replay_callback =
  rc_ops :: "'w replay_world callback_ops"
  rc_recording_endpoints :: "endpoint_descriptor list option"
  rc_outputs_are_local :: bool
  rc_clear_replay_inputs :: "'w replay_world \<Rightarrow> ((string + unit) \<times> 'w replay_world) outcome"
  rc_stage_event :: "logged_iox2_event \<Rightarrow> 'w replay_world \<Rightarrow> ((string + unit) \<times> 'w replay_world) outcome"
  rc_prepared_messages :: "'w replay_world \<Rightarrow> logged_message list outcome"
  rc_prepared_events :: "'w replay_world \<Rightarrow> logged_iox2_event list outcome"
  rc_pending_events :: "'w replay_world \<Rightarrow> logged_iox2_event list outcome"

record replay_step =
  step_callback :: string
  step_time :: framework_time
  step_ran :: bool

record 'w exact_replay =
  ex_detail_endpoint :: "(direction \<times> nat) option"
  ex_detail_header :: "message_header option"
  ex_callbacks :: "'w replay_callback list"
  ex_mapping :: "nat list"
  ex_publishers :: "(nat \<rightharpoonup> u32 \<times> u32) list"
  ex_metadata :: graph_metadata
  ex_log :: replay_log
  ex_bindings :: "'w replay_bindings"
  ex_reproduced :: "identity \<rightharpoonup> byte list"
  ex_config :: exact_replay_config
  ex_report :: replay_report
  ex_cursor :: nat
  ex_failed :: bool
  ex_stop :: bool
  ex_world :: "'w replay_world"

definition endpoint_order :: "endpoint_descriptor \<Rightarrow> bool \<times> nat" where
  "endpoint_order p = (desc_direction p = Published, desc_ordinal p)"

text \<open>The loop over the pairs of endpoints: the storage indices are exchanged for the recorded ones and noted.\<close>

fun adopt_indices ::
  "endpoint_descriptor list \<Rightarrow> endpoint_descriptor list \<Rightarrow> (nat \<rightharpoonup> u32 \<times> u32) \<Rightarrow> endpoint_descriptor list \<times> (nat \<rightharpoonup> u32 \<times> u32)" where
  "adopt_indices (p # ps) (q # qs) m =
     (let (p', m') = (case (desc_publisher p, desc_publisher q) of
          (Some current, Some recorded) \<Rightarrow> (p\<lparr>desc_publisher := Some recorded\<rparr>, m(desc_ordinal q \<mapsto> (current, recorded)))
        | _ \<Rightarrow> (p, m));
          (ps', m'') = adopt_indices ps qs m'
      in (p' # ps', m''))"
| "adopt_indices ps qs m = (ps, m)"

fun check_bindings ::
  "debug_texts \<Rightarrow> 'w replay_bindings \<Rightarrow> string \<Rightarrow> endpoint_descriptor list \<Rightarrow> (string \<times> nat) set \<times> (string \<times> nat) set
     \<Rightarrow> exact_replay_step_error + (string \<times> nat) set \<times> (string \<times> nat) set" where
  "check_bindings D b name [] acc = Inr acc"
| "check_bindings D b name (p # ps) (ins, outs) =
     (let key = (name, desc_ordinal p) in
      if desc_transport p = Iox2Event then check_bindings D b name ps (ins, outs)
      else (case desc_direction p of
        Received \<Rightarrow> (case map_of (bound_inputs b) key of
            None \<Rightarrow> Inl (Setup (''missing hydration binding '' @ debug_endpoint_key D key))
          | Some s \<Rightarrow>
              if source_channel s \<noteq> desc_channel p \<or> source_type s \<noteq> desc_payload_type p
              then Inl (Setup (''hydration type/channel mismatch for '' @ debug_endpoint_key D key))
              else check_bindings D b name ps (insert key ins, outs))
      | Published \<Rightarrow> (case map_of (bound_outputs b) key of
            None \<Rightarrow> Inl (Setup (''missing output capture '' @ debug_endpoint_key D key))
          | Some c \<Rightarrow>
              if capture_channel c \<noteq> desc_channel p \<or> capture_type c \<noteq> desc_payload_type p
              then Inl (Setup (''capture type/channel mismatch for '' @ debug_endpoint_key D key))
              else check_bindings D b name ps (ins, insert key outs))))"

fun position :: "('a \<Rightarrow> bool) \<Rightarrow> 'a list \<Rightarrow> nat option" where
  "position P [] = None"
| "position P (x # xs) = (if P x then Some 0 else map_option Suc (position P xs))"

text \<open>One descriptor in the loop of \<open>with_config\<close>: the index of its callback, its publishers, and the bindings seen.\<close>

definition match_callback ::
  "debug_texts \<Rightarrow> 'w replay_callback scheduled_callback list \<Rightarrow> 'w replay_bindings \<Rightarrow> callback_descriptor
     \<Rightarrow> (string \<times> nat) set \<times> (string \<times> nat) set
     \<Rightarrow> exact_replay_step_error + nat \<times> (nat \<rightharpoonup> u32 \<times> u32) \<times> (string \<times> nat) set \<times> (string \<times> nat) set" where
  "match_callback D nodes b d acc = (case position (\<lambda>n. cb_name n = desc_name d) nodes of
     None \<Rightarrow> Inl (Setup (''missing callback '' @ in_quotes (desc_name d)))
   | Some index \<Rightarrow> (case rc_recording_endpoints (cb_callback (nodes ! index)) of
       None \<Rightarrow> Inl (Setup (''callback '' @ in_quotes (desc_name d) @ '' has no endpoint metadata''))
     | Some actual \<Rightarrow>
         let expected = sort_key endpoint_order (desc_endpoints d);
             (adopted, indices) = adopt_indices (sort_key endpoint_order actual) expected Map.empty
         in if adopted \<noteq> expected then Inl (Setup (''endpoint layout differs for '' @ in_quotes (desc_name d)))
         else (case check_bindings D b (desc_name d) (desc_endpoints d) acc of
             Inl x \<Rightarrow> Inl x
           | Inr acc' \<Rightarrow>
               if \<not> rc_outputs_are_local (cb_callback (nodes ! index))
               then Inl (Setup (''callback '' @ in_quotes (desc_name d) @ '': bind outputs with local delivery before exact replay''))
               else Inr (index, indices, acc'))))"

fun match_callbacks ::
  "debug_texts \<Rightarrow> 'w replay_callback scheduled_callback list \<Rightarrow> 'w replay_bindings \<Rightarrow> callback_descriptor list
     \<Rightarrow> (string \<times> nat) set \<times> (string \<times> nat) set
     \<Rightarrow> exact_replay_step_error + nat list \<times> (nat \<rightharpoonup> u32 \<times> u32) list \<times> (string \<times> nat) set \<times> (string \<times> nat) set" where
  "match_callbacks D nodes b [] acc = Inr ([], [], acc)"
| "match_callbacks D nodes b (d # ds) acc = (case match_callback D nodes b d acc of
     Inl x \<Rightarrow> Inl x
   | Inr (index, indices, acc') \<Rightarrow> (case match_callbacks D nodes b ds acc' of
       Inl x \<Rightarrow> Inl x
     | Inr (mapping, publishers, acc'') \<Rightarrow> Inr (index # mapping, indices # publishers, acc'')))"

fun load_caches ::
  "'w replay_bindings \<Rightarrow> (identity \<times> byte list) list \<Rightarrow> 'w replay_world \<Rightarrow> ((exact_replay_step_error + unit) \<times> 'w replay_world) outcome" where
  "load_caches b [] w = Ret (Inr (), w)"
| "load_caches b (((channel, h), bytes) # ps) w = (case map_of (bound_caches b) channel of
     None \<Rightarrow> load_caches b ps w
   | Some load \<Rightarrow> and_then (load h bytes w) (\<lambda>(r, w1). case r of
       Inl e \<Rightarrow> Ret (Inl (Setup (''source cache '' @ in_quotes channel @ '': '' @ e)), w1)
     | Inr _ \<Rightarrow> load_caches b ps w1))"

definition replay_with_config ::
  "debug_texts \<Rightarrow> 'w replay_callback built_graph \<Rightarrow> replay_log \<Rightarrow> 'w replay_bindings \<Rightarrow> exact_replay_config \<Rightarrow> 'w replay_world
     \<Rightarrow> (exact_replay_step_error + 'w exact_replay) outcome" where
  "replay_with_config D g l b c w =
     (if length (graph_callbacks g) \<noteq> length (desc_callbacks (rl_descriptor l))
      then Ret (Inl (Setup ''callback count differs from descriptor''))
      else (case match_callbacks D (graph_callbacks g) b (desc_callbacks (rl_descriptor l)) ({}, {}) of
          Inl x \<Rightarrow> Ret (Inl x)
        | Inr (mapping, publishers, ins, outs) \<Rightarrow>
            if card ins \<noteq> length (bound_inputs b) \<or> card outs \<noteq> length (bound_outputs b)
            then Ret (Inl (Setup ''extra or event-only data bindings''))
            else and_then (load_caches b (rl_payloads l) w) (\<lambda>(r, w1). Ret (case r of
                Inl x \<Rightarrow> Inl x
              | Inr _ \<Rightarrow> Inr \<lparr>ex_detail_endpoint = None, ex_detail_header = None,
                  ex_callbacks = map cb_callback (graph_callbacks g), ex_mapping = mapping, ex_publishers = publishers,
                  ex_metadata = (metadata g)\<lparr>callback_names := intern_all interner_new (map desc_name (desc_callbacks (rl_descriptor l)))\<rparr>,
                  ex_log = l, ex_bindings = b, ex_reproduced = Map.empty, ex_config = c,
                  ex_report = set_intern_tables (rl_tables l) (report_new (length (rl_executions l)) (config_max_details c)),
                  ex_cursor = 0, ex_failed = False, ex_stop = False, ex_world = w1\<rparr>))))"

section \<open>Steps\<close>

datatype replay_failure = StepFailed exact_replay_step_error | Unwinding

type_synonym ('a, 'w) replay_result = "((replay_failure + 'a) \<times> 'w exact_replay) outcome"

text \<open>The operator \<open>?\<close>, and a call that acts on the world and may panic.\<close>

definition try_then :: "('a, 'w) replay_result \<Rightarrow> ('a \<Rightarrow> 'w exact_replay \<Rightarrow> ('b, 'w) replay_result) \<Rightarrow> ('b, 'w) replay_result" where
  "try_then m k = and_then m (\<lambda>(r, x). case r of Inl e \<Rightarrow> Ret (Inl e, x) | Inr a \<Rightarrow> k a x)"

definition attempt :: "('a \<times> 'w replay_world) outcome \<Rightarrow> 'w exact_replay \<Rightarrow> ('a, 'w) replay_result" where
  "attempt m x = (case m of
     Ret (a, w) \<Rightarrow> Ret (Inr a, x\<lparr>ex_world := w\<rparr>)
   | Panic \<Rightarrow> Ret (Inl Unwinding, x)
   | Undefined \<Rightarrow> Undefined
   | Diverges \<Rightarrow> Diverges)"

definition observing :: "('w replay_world \<Rightarrow> 'a outcome) \<Rightarrow> 'w exact_replay \<Rightarrow> ('a, 'w) replay_result" where
  "observing f x = attempt (and_then (f (ex_world x)) (\<lambda>a. Ret (a, ex_world x))) x"

definition update_report :: "(replay_report \<Rightarrow> replay_report) \<Rightarrow> 'w exact_replay \<Rightarrow> 'w exact_replay" where
  "update_report f x = x\<lparr>ex_report := f (ex_report x)\<rparr>"

definition find_endpoint :: "endpoint_descriptor list \<Rightarrow> direction \<Rightarrow> nat \<Rightarrow> endpoint_descriptor option" where
  "find_endpoint ps dir ordinal = find (\<lambda>p. desc_direction p = dir \<and> desc_ordinal p = ordinal) ps"

definition ex_record :: "'w exact_replay \<Rightarrow> execution_record" where
  "ex_record x = rl_executions (ex_log x) ! (ex_cursor x - 1)"

definition replay_detail_op ::
  "replay_detail_kind \<Rightarrow> string option \<Rightarrow> string \<Rightarrow> 'w exact_replay \<Rightarrow> 'w exact_replay" where
  "replay_detail_op kind channel reason x =
     (let r = ex_record x;
          name = (case channel of
              Some c \<Rightarrow> Some c
            | None \<Rightarrow> Option.bind (ex_detail_endpoint x) (\<lambda>(dir, ordinal). map_option desc_channel
                (find_endpoint (desc_endpoints (desc_callbacks (rl_descriptor (ex_log x)) ! intern_index (record_callback r))) dir ordinal)))
      in update_report (report_detail \<lparr>detail_kind = kind, detail_callback = record_callback r,
          detail_channel = Option.bind name (lookup_by_value (channels_table (rl_tables (ex_log x)))),
          detail_time = execution_time r, detail_endpoint = ex_detail_endpoint x, detail_publication = ex_detail_header x,
          detail_reason = reason, detail_truncated = False\<rparr>) x)"

definition is_strict :: "'w exact_replay \<Rightarrow> bool" where
  "is_strict x \<longleftrightarrow> divergence_policy (ex_config x) = Strict"

definition replay_gap :: "string \<Rightarrow> string \<Rightarrow> 'w exact_replay \<Rightarrow> (unit, 'w) replay_result" where
  "replay_gap channel reason x =
     (let x1 = update_report (record_error \<circ> record_gap channel) (replay_detail_op DetailGap (Some channel) reason x) in
      Ret (if is_strict x then Inl (StepFailed (ReplayGap channel reason)) else Inr (), x1))"

definition replay_mismatch :: "string \<Rightarrow> string \<Rightarrow> 'w exact_replay \<Rightarrow> (unit, 'w) replay_result" where
  "replay_mismatch channel reason x =
     (let x1 = update_report (record_error \<circ> record_mismatch channel reason) (replay_detail_op DetailMismatch (Some channel) reason x) in
      Ret (if is_strict x then Inl (StepFailed (Divergence reason)) else Inr (), x1))"

text \<open>Hydration of the recorded inputs; the result says whether the execution goes on.\<close>

definition recorded_payload :: "'w exact_replay \<Rightarrow> identity \<Rightarrow> byte list option" where
  "recorded_payload x k = (if fst k \<in> rl_logged (ex_log x) then map_of (rl_payloads (ex_log x)) k else ex_reproduced x k)"

fun hydrate ::
  "debug_texts \<Rightarrow> callback_descriptor \<Rightarrow> logged_message list \<Rightarrow> 'w exact_replay \<Rightarrow> (bool, 'w) replay_result" where
  "hydrate D d [] x = Ret (Inr True, x)"
| "hydrate D d (m # ms) x =
     (let x1 = x\<lparr>ex_detail_endpoint := Some (Received, logged_ordinal m), ex_detail_header := Some (logged_header m)\<rparr> in
      case find_endpoint (desc_endpoints d) Received (logged_ordinal m) of
        None \<Rightarrow> Ret (Inl Unwinding, x1)
      | Some p \<Rightarrow> (case recorded_payload x1 (desc_channel p, logged_header m) of
          None \<Rightarrow> try_then (replay_gap (desc_channel p) (''missing input for '' @ in_quotes (desc_name d) @ '': ''
            @ debug_header D (logged_header m)) x1) (\<lambda>_ x2. Ret (Inr False, x2))
        | Some bytes \<Rightarrow> (case map_of (bound_inputs (ex_bindings x1)) (desc_name d, logged_ordinal m) of
            None \<Rightarrow> Ret (Inl Unwinding, x1)
          | Some s \<Rightarrow> try_then (attempt (source_inject s (logged_header m) bytes (ex_world x1)) x1) (\<lambda>r x2. case r of
              Inl e \<Rightarrow> try_then (replay_gap (desc_channel p) (''input '' @ in_quotes (desc_name d)
                @ '' decoding/publication: '' @ e) x2) (\<lambda>_ x3. Ret (Inr False, x3))
            | Inr _ \<Rightarrow> hydrate D d ms (update_report
                (if desc_channel p \<in> rl_logged (ex_log x2) then record_logged (desc_channel p) else record_reproduced (desc_channel p)) x2)))))"

fun stage_events ::
  "'w replay_callback \<Rightarrow> string \<Rightarrow> logged_iox2_event list \<Rightarrow> 'w exact_replay \<Rightarrow> (unit, 'w) replay_result" where
  "stage_events cb name [] x = Ret (Inr (), x)"
| "stage_events cb name (v # vs) x =
     (let x1 = x\<lparr>ex_detail_endpoint := Some (Received, event_ordinal v), ex_detail_header := None\<rparr> in
      try_then (attempt (rc_stage_event cb v (ex_world x1)) x1) (\<lambda>r x2. case r of
        Inl e \<Rightarrow> Ret (Inl (StepFailed (CallbackFailed name (''event hydration: '' @ e))), x2)
      | Inr _ \<Rightarrow> stage_events cb name vs x2))"

text \<open>\<open>headers\<close>: the headers of each endpoint, by ordinal.\<close>

definition message_headers :: "logged_message list \<Rightarrow> (nat \<times> message_header list) list" where
  "message_headers ms = fold (\<lambda>m g. map_insert (logged_ordinal m)
     ((case map_of g (logged_ordinal m) of None \<Rightarrow> [] | Some hs \<Rightarrow> hs) @ [logged_header m]) g) ms []"

definition differing_ordinal :: "logged_message list \<Rightarrow> logged_message list \<Rightarrow> nat option" where
  "differing_ordinal actual expected =
     (let a = message_headers actual; e = message_headers expected
      in find (\<lambda>i. map_of a i \<noteq> map_of e i) (map fst a @ map fst e))"

text \<open>The comparison of one recorded output with the captured ones.\<close>

definition compare_output ::
  "string \<Rightarrow> endpoint_descriptor \<Rightarrow> (message_header \<times> byte list) list \<Rightarrow> nat \<Rightarrow> message_header \<Rightarrow> 'w exact_replay \<Rightarrow> (unit, 'w) replay_result" where
  "compare_output name p actual pos expected x =
     (let x1 = x\<lparr>ex_detail_header := Some expected\<rparr>;
          channel = desc_channel p;
          label = in_quotes name @ '' publisher '' @ dec_digits (desc_ordinal p)
      in try_then
        (if channel \<in> rl_logged (ex_log x1)
         then (case map_of (rl_payloads (ex_log x1)) (channel, expected) of
             Some bytes \<Rightarrow> Ret (Inr (Some bytes), update_report (record_logged channel) x1)
           | None \<Rightarrow> try_then (replay_gap channel (''missing expected output for '' @ in_quotes name) x1) (\<lambda>_ x2. Ret (Inr None, x2)))
         else if pos < length actual then Ret (Inr None, update_report (record_reproduced channel) x1)
         else Ret (Inr None, replay_detail_op DetailGap (Some channel) ''output was not reproduced'' (update_report (record_gap channel) x1)))
        (\<lambda>body x2.
          if length actual \<le> pos
          then replay_mismatch channel (label @ '' missing output '' @ dec_digits pos) x2
          else if fst (actual ! pos) \<noteq> expected \<or> (\<exists>b. body = Some b \<and> b \<noteq> snd (actual ! pos))
          then replay_mismatch channel (label @ '' output '' @ dec_digits pos @ '' differs'') x2
          else Ret (Inr (), x2)))"

fun compare_outputs ::
  "string \<Rightarrow> endpoint_descriptor \<Rightarrow> (message_header \<times> byte list) list \<Rightarrow> nat \<Rightarrow> message_header list \<Rightarrow> 'w exact_replay \<Rightarrow> (unit, 'w) replay_result" where
  "compare_outputs name p actual pos [] x = Ret (Inr (), x)"
| "compare_outputs name p actual pos (e # es) x =
     try_then (compare_output name p actual pos e x) (\<lambda>_. compare_outputs name p actual (pos + 1) es)"

fun compare_extra ::
  "string \<Rightarrow> endpoint_descriptor \<Rightarrow> nat \<Rightarrow> (message_header \<times> byte list) list \<Rightarrow> 'w exact_replay \<Rightarrow> (unit, 'w) replay_result" where
  "compare_extra name p pos [] x = Ret (Inr (), x)"
| "compare_extra name p pos ((h, _) # ms) x =
     try_then (replay_mismatch (desc_channel p) (in_quotes name @ '' publisher '' @ dec_digits (desc_ordinal p)
       @ '' unexpected output '' @ dec_digits pos) (x\<lparr>ex_detail_header := Some h\<rparr>)) (\<lambda>_. compare_extra name p (pos + 1) ms)"

fun store_outputs ::
  "string \<Rightarrow> endpoint_descriptor \<Rightarrow> (message_header \<times> byte list) list \<Rightarrow> 'w exact_replay \<Rightarrow> (unit, 'w) replay_result" where
  "store_outputs name p [] x = Ret (Inr (), x)"
| "store_outputs name p ((h, body) # ms) x =
     (let x1 = x\<lparr>ex_detail_header := Some h\<rparr>; channel = desc_channel p in
      if channel \<in> rl_logged (ex_log x1) then store_outputs name p ms x1
      else let x2 = x1\<lparr>ex_reproduced := (ex_reproduced x1)((channel, h) \<mapsto> body)\<rparr> in
        if ex_reproduced x1 (channel, h) \<noteq> None
        then Ret (Inl (StepFailed (CallbackFailed name ''ambiguous reproduced publication'')), x2)
        else (case map_of (bound_caches (ex_bindings x2)) channel of
            None \<Rightarrow> store_outputs name p ms x2
          | Some load \<Rightarrow> try_then (attempt (load h body (ex_world x2)) x2) (\<lambda>r x3. case r of
              Inl e \<Rightarrow> Ret (Inl (StepFailed (CallbackFailed name (''source cache: '' @ e))), x3)
            | Inr _ \<Rightarrow> store_outputs name p ms x3)))"

definition with_publisher :: "u32 \<Rightarrow> message_header \<times> byte list \<Rightarrow> message_header \<times> byte list" where
  "with_publisher i m = (MessageHeader (published_at (fst m)) i (header_batch (fst m)), snd m)"

definition compare_endpoint ::
  "string \<Rightarrow> execution_record \<Rightarrow> endpoint_descriptor \<Rightarrow> 'w exact_replay \<Rightarrow> (unit, 'w) replay_result" where
  "compare_endpoint name r p x =
     (let x1 = x\<lparr>ex_detail_endpoint := Some (Published, desc_ordinal p), ex_detail_header := None\<rparr> in
      case map_of (bound_outputs (ex_bindings x1)) (name, desc_ordinal p) of
        None \<Rightarrow> Ret (Inl Unwinding, x1)
      | Some c \<Rightarrow> try_then (attempt (Ret (capture_take c (ex_world x1))) x1) (\<lambda>taken x2. case taken of
          Inl e \<Rightarrow> Ret (Inl (StepFailed (CallbackFailed name (''capture: '' @ e))), x2)
        | Inr actual \<Rightarrow> (case (ex_publishers x2 ! intern_index (record_callback r)) (desc_ordinal p) of
            None \<Rightarrow> Ret (Inl Unwinding, x2)
          | Some (current, recorded) \<Rightarrow> (case find (\<lambda>(h, _). header_publisher h \<noteq> current) actual of
              Some (h, _) \<Rightarrow> replay_mismatch (desc_channel p) (in_quotes name @ '' publisher '' @ dec_digits (desc_ordinal p)
                @ '' captured index '' @ dec_digits (unat (header_publisher h)) @ '', expected current index '' @ dec_digits (unat current))
                (x2\<lparr>ex_detail_header := Some h\<rparr>)
            | None \<Rightarrow>
                let actual' = map (with_publisher recorded) actual;
                    expected = map logged_header (filter (\<lambda>m. logged_ordinal m = desc_ordinal p) (record_outputs r))
                in try_then (compare_outputs name p actual' 0 expected x2) (\<lambda>_ x3.
                   try_then (compare_extra name p (length expected) (drop (length expected) actual') x3) (\<lambda>_ x4.
                   store_outputs name p actual' x4))))))"

fun compare_endpoints ::
  "string \<Rightarrow> execution_record \<Rightarrow> endpoint_descriptor list \<Rightarrow> 'w exact_replay \<Rightarrow> (unit, 'w) replay_result" where
  "compare_endpoints name r [] x = Ret (Inr (), x)"
| "compare_endpoints name r (p # ps) x = try_then (compare_endpoint name r p x) (\<lambda>_. compare_endpoints name r ps)"

text \<open>
  \<open>execute\<close>, in its parts: the inputs, the preparation with the checks of the snapshot, and the run with the
  comparison. The result of the first two says whether the execution goes on.
\<close>

definition clear_captures :: "((string \<times> nat) \<times> output_capture) list \<Rightarrow> 'w replay_world \<Rightarrow> 'w replay_world" where
  "clear_captures cs w = fold (\<lambda>(_, c). capture_clear c) cs w"

definition no_detail :: "'w exact_replay \<Rightarrow> 'w exact_replay" where
  "no_detail x = x\<lparr>ex_detail_endpoint := None, ex_detail_header := None\<rparr>"

definition hydrate_execution ::
  "debug_texts \<Rightarrow> callback_descriptor \<Rightarrow> 'w replay_callback \<Rightarrow> execution_record \<Rightarrow> 'w exact_replay \<Rightarrow> (bool, 'w) replay_result" where
  "hydrate_execution D d cb r x =
     (if record_truncated r \<noteq> 0
      then try_then (replay_gap ''execution_log'' (in_quotes (desc_name d) @ '' record dropped '' @ dec_digits (record_truncated r)
        @ '' entries at capacity and is not exactly replayable'') x) (\<lambda>_ x1. Ret (Inr False, x1))
      else try_then (attempt (rc_clear_replay_inputs cb (ex_world x)) x) (\<lambda>cleared x1. case cleared of
          Inl e \<Rightarrow> Ret (Inl (StepFailed (CallbackFailed (desc_name d) (''input reset: '' @ e))), x1)
        | Inr _ \<Rightarrow>
            try_then (hydrate D d (record_inputs r) (x1\<lparr>ex_world := clear_captures (bound_outputs (ex_bindings x1)) (ex_world x1)\<rparr>))
              (\<lambda>go x2. if \<not> go then Ret (Inr False, x2)
                else try_then (stage_events cb (desc_name d) (record_events r) x2) (\<lambda>_ x3. Ret (Inr True, no_detail x3)))))"

definition drop_prepared :: "'w replay_callback \<Rightarrow> 'w exact_replay \<Rightarrow> (unit, 'w) replay_result" where
  "drop_prepared cb x = attempt (and_then (invocation_drop (rc_ops cb) False (ex_world x)) (\<lambda>w. Ret ((), w))) x"

definition prepare_execution ::
  "callback_descriptor \<Rightarrow> 'w replay_callback \<Rightarrow> execution_record \<Rightarrow> 'w exact_replay \<Rightarrow> (bool, 'w) replay_result" where
  "prepare_execution d cb r x =
     try_then (attempt (prepare_callback (rc_ops cb) (ex_world x)) x) (\<lambda>ready x1.
       if \<not> ready
       then Ret (Inl (StepFailed (CallbackFailed (desc_name d) ''recorded snapshot does not satisfy required inputs'')), x1)
       else try_then (observing (rc_prepared_messages cb) x1) (\<lambda>actual x2. case differing_ordinal actual (record_inputs r) of
           Some ordinal \<Rightarrow> try_then (drop_prepared cb x2) (\<lambda>_ x3.
             let x4 = x3\<lparr>ex_detail_endpoint := Some (Received, ordinal)\<rparr> in
             case find_endpoint (desc_endpoints d) Received ordinal of
               None \<Rightarrow> Ret (Inl Unwinding, x4)
             | Some p \<Rightarrow> try_then (replay_gap (desc_channel p) (''prepared snapshot differs for '' @ in_quotes (desc_name d)
                 @ '' input '' @ dec_digits ordinal) x4) (\<lambda>_ x5. Ret (Inr False, x5)))
         | None \<Rightarrow> try_then (observing (rc_prepared_events cb) x2) (\<lambda>events x3.
             if events \<noteq> record_events r
             then try_then (drop_prepared cb x3) (\<lambda>_ x4.
               Ret (Inl (StepFailed (CallbackFailed (desc_name d) ''hydrated event snapshot differs'')), x4))
             else Ret (Inr True, x3))))"

definition run_execution ::
  "debug_texts \<Rightarrow> callback_descriptor \<Rightarrow> 'w replay_callback \<Rightarrow> execution_record \<Rightarrow> 'w exact_replay \<Rightarrow> (unit, 'w) replay_result" where
  "run_execution D d cb r x =
     try_then (attempt (run_prepared (rc_ops cb) (execution_time r) (ex_world x)) x) (\<lambda>res x1. case res of
       BodyPanic \<Rightarrow> Ret (Inl Unwinding, x1)
     | BodyErr e \<Rightarrow> Ret (Inl (StepFailed (CallbackFailed (desc_name d) (debug_loan_error D e))), x1)
     | BodyOk \<Rightarrow> try_then (observing (rc_pending_events cb) x1) (\<lambda>events x2.
         try_then (attempt (and_then (commit_callback (rc_ops cb) (execution_time r) (ex_world x2)) (\<lambda>w. Ret ((), w))) x2) (\<lambda>_ x3.
         try_then (if events \<noteq> record_output_events r
             then replay_mismatch ''output_iox2_events'' (in_quotes (desc_name d) @ '' output event counts/IDs differ'') x3
             else Ret (Inr (), x3)) (\<lambda>_ x4.
         compare_endpoints (desc_name d) r (filter is_data_output (desc_endpoints d)) x4))))"

definition replay_execute :: "debug_texts \<Rightarrow> execution_record \<Rightarrow> 'w exact_replay \<Rightarrow> (replay_step, 'w) replay_result" where
  "replay_execute D r x =
     (let d = desc_callbacks (rl_descriptor (ex_log x)) ! intern_index (record_callback r);
          cb = ex_callbacks x ! (ex_mapping x ! intern_index (record_callback r));
          done = (\<lambda>ran. \<lparr>step_callback = desc_name d, step_time = execution_time r, step_ran = ran\<rparr>)
      in try_then (hydrate_execution D d cb r x) (\<lambda>go x1.
         if \<not> go then Ret (Inr (done False), x1)
         else try_then (prepare_execution d cb r x1) (\<lambda>go x2.
           if \<not> go then Ret (Inr (done False), x2)
           else try_then (run_execution D d cb r x2) (\<lambda>_ x3. Ret (Inr (done True), x3)))))"

definition replay_step_op ::
  "debug_texts \<Rightarrow> 'w exact_replay \<Rightarrow> ((exact_replay_step_error + replay_step option) \<times> 'w exact_replay) outcome" where
  "replay_step_op D x =
     (if ex_failed x then Ret (Inl ReplayPoisoned, x)
      else if ex_cursor x = length (rl_executions (ex_log x)) \<or> ex_stop x then Ret (Inr None, x)
      else
        let r = rl_executions (ex_log x) ! ex_cursor x;
            x1 = update_report mark_consumed (x\<lparr>ex_detail_endpoint := None, ex_detail_header := None, ex_cursor := ex_cursor x + 1\<rparr>);
            name = desc_name (desc_callbacks (rl_descriptor (ex_log x)) ! intern_index (record_callback r))
        in and_then (replay_execute D r x1) (\<lambda>(res, x2). Ret (case res of
            Inr s \<Rightarrow> (Inr (Some s), x2)
          | Inl failure \<Rightarrow>
              let e = (case failure of StepFailed e \<Rightarrow> e | Unwinding \<Rightarrow> CallbackFailed name ''execution or hydration panicked'');
                  x3 = x2\<lparr>ex_failed := True\<rparr>
              in (Inl e, case e of
                  ReplayGap _ _ \<Rightarrow> x3
                | Divergence _ \<Rightarrow> x3
                | _ \<Rightarrow> replay_detail_op DetailError None (''exact replay: '' @ debug_step_error D e) (update_report record_error x3)))))"

definition request_replay_stop :: "'w exact_replay \<Rightarrow> 'w exact_replay" where
  "request_replay_stop x = x\<lparr>ex_stop := True\<rparr>"

text \<open>The loop of \<open>run\<close>, bounded by the executions that are left; \<open>None\<close> never occurs, as \<open>replay_run_returns\<close> shows.\<close>

fun replay_run_loop ::
  "debug_texts \<Rightarrow> (nat \<Rightarrow> bool) \<Rightarrow> nat \<Rightarrow> 'w exact_replay \<Rightarrow> ((exact_replay_step_error + unit) \<times> 'w exact_replay) option outcome" where
  "replay_run_loop D stops 0 x = Ret None"
| "replay_run_loop D stops (Suc fuel) x =
     and_then (replay_step_op D (if stops (ex_cursor x) then request_replay_stop x else x)) (\<lambda>(r, x1). case r of
       Inl e \<Rightarrow> Ret (Some (Inl e, x1))
     | Inr None \<Rightarrow> Ret (Some (Inr (), x1))
     | Inr (Some _) \<Rightarrow> replay_run_loop D stops fuel x1)"

definition replay_run ::
  "debug_texts \<Rightarrow> (nat \<Rightarrow> bool) \<Rightarrow> 'w exact_replay \<Rightarrow> ((exact_replay_step_error + replay_report) \<times> 'w exact_replay) option outcome" where
  "replay_run D stops x =
     and_then (replay_run_loop D stops (length (rl_executions (ex_log x)) - ex_cursor x + 1) x) (\<lambda>res. Ret (map_option (\<lambda>(r, x1).
       (case r of Inl e \<Rightarrow> Inl e | Inr _ \<Rightarrow> Inr (ex_report x1), x1)) res))"

end
