(* ===== verification/Exact_Steps.thy ===== *)
theory Exact_Steps
  imports Exact_Replay
begin

text \<open>
  Laws of exact replay: what the executor keeps while it runs an execution, that a validated log and its
  bindings cause no panic, and that an execution without a recorded error reproduces the recording.
\<close>

section \<open>Relations that every part of an execution respects\<close>

text \<open>
  The executor changes the world, the endpoint under examination, the reproduced payloads and the report.
  An output that was expected and not captured is counted twice, before an error is recorded.
\<close>

lemma is_strict_frame [simp]:
  "is_strict (replay_detail_op k c t x) = is_strict x" "is_strict (update_report f x) = is_strict x"
  "is_strict (x\<lparr>ex_world := w\<rparr>) = is_strict x" "is_strict (x\<lparr>ex_detail_endpoint := e\<rparr>) = is_strict x"
  "is_strict (x\<lparr>ex_detail_header := h\<rparr>) = is_strict x" "is_strict (x\<lparr>ex_reproduced := m\<rparr>) = is_strict x"
  by (simp_all add: is_strict_def replay_detail_op_def Let_def update_report_def)

definition divergence :: "replay_failure \<Rightarrow> bool" where
  "divergence e \<longleftrightarrow> (case e of StepFailed (ReplayGap _ _) \<Rightarrow> True | StepFailed (Divergence _) \<Rightarrow> True | _ \<Rightarrow> False)"

definition callback_failure :: "replay_failure \<Rightarrow> bool" where
  "callback_failure e \<longleftrightarrow> (case e of Unwinding \<Rightarrow> True | StepFailed (CallbackFailed _ _) \<Rightarrow> True | _ \<Rightarrow> False)"

lemma failure_simps [simp]:
  "\<not> divergence Unwinding" "\<not> divergence (StepFailed (CallbackFailed n t))"
  "divergence (StepFailed (ReplayGap c t))" "divergence (StepFailed (Divergence t))"
  "callback_failure Unwinding" "callback_failure (StepFailed (CallbackFailed n t))"
  by (simp_all add: divergence_def callback_failure_def)

locale replay_relation =
  fixes R :: "'w exact_replay \<Rightarrow> 'w exact_replay \<Rightarrow> bool"
    and E :: "replay_failure \<Rightarrow> 'w exact_replay \<Rightarrow> 'w exact_replay \<Rightarrow> bool"
  assumes refl: "R x x"
    and trans: "R x y \<Longrightarrow> R y z \<Longrightarrow> R x z"
    and fails: "callback_failure f \<Longrightarrow> R x y \<Longrightarrow> E f x y" "R x y \<Longrightarrow> E f y z \<Longrightarrow> E f x z"
    and world: "R x (x\<lparr>ex_world := w\<rparr>)"
    and endpoint: "R x (x\<lparr>ex_detail_endpoint := e\<rparr>)"
    and header: "R x (x\<lparr>ex_detail_header := h\<rparr>)"
    and reproduced: "R x (x\<lparr>ex_reproduced := m\<rparr>)"
    and counted: "R x (update_report (record_logged c) x)" "R x (update_report (record_reproduced c) x)"
    and gap: "(if is_strict x then E (StepFailed (ReplayGap c t)) else R) x (update_report (record_error \<circ> record_gap c) (replay_detail_op k ch t x))"
    and mismatch: "(if is_strict x then E (StepFailed (Divergence t)) else R) x (update_report (record_error \<circ> record_mismatch c t) (replay_detail_op k ch t' x))"
    and lost: "(if is_strict x then E (StepFailed (Divergence t)) else R) x (update_report (record_error \<circ> record_mismatch c t) (replay_detail_op k ch t'
      (replay_detail_op k' ch' t'' (update_report (record_gap c') x))))"
begin

definition related :: "'w exact_replay \<Rightarrow> ('a, 'w) replay_result \<Rightarrow> bool" where
  "related x m \<longleftrightarrow> (\<forall>r y. m = Ret (r, y) \<longrightarrow> (case r of Inl e \<Rightarrow> E e x y | Inr _ \<Rightarrow> R x y))"

lemma related_Inr: "related x m \<Longrightarrow> m = Ret (Inr a, y) \<Longrightarrow> R x y"
  by (auto simp: related_def)

lemma related_Inl: "related x m \<Longrightarrow> m = Ret (Inl e, y) \<Longrightarrow> E e x y"
  by (auto simp: related_def)

lemma related_Ret [simp]: "related x (Ret (Inl e, y)) \<longleftrightarrow> E e x y" "related x (Ret (Inr a, y)) \<longleftrightarrow> R x y"
  by (simp_all add: related_def)

lemma failing: "E Unwinding x x" "E (StepFailed (CallbackFailed n t)) x x"
  by (rule fails(1) [OF _ refl], simp)+

lemma related_trans: "R x y \<Longrightarrow> related y m \<Longrightarrow> related x m"
  unfolding related_def using trans fails(2) by (fastforce split: sum.splits)

lemma related_try:
  assumes "related x m" and "\<And>a y. m = Ret (Inr a, y) \<Longrightarrow> R x y \<Longrightarrow> related y (k a y)"
  shows "related x (try_then m k)"
proof (cases m)
  case (Ret q)
  obtain r y where q: "q = (r, y)" by (cases q)
  show ?thesis
  proof (cases r)
    case (Inl e)
    with Ret q assms(1) show ?thesis by (simp add: try_then_def)
  next
    case (Inr a)
    with Ret q assms(1) have "R x y" by simp
    with assms(2) Ret q Inr have "R x y" "related y (k a y)" by simp_all
    with Ret q Inr show ?thesis by (simp add: try_then_def related_trans)
  qed
qed (simp_all add: try_then_def related_def)

lemma related_attempt: "related x (attempt m x)"
  by (cases m) (auto simp: attempt_def related_def refl world failing)

lemma related_observing: "related x (observing f x)"
  by (simp add: observing_def related_attempt)

lemma related_gap: "related x (replay_gap c t x)"
  using gap [of x c t DetailGap "Some c"] by (simp add: replay_gap_def Let_def split: if_splits)

lemma related_mismatch: "related x (replay_mismatch c t x)"
  using mismatch [of x t c DetailMismatch "Some c" t] by (simp add: replay_mismatch_def Let_def split: if_splits)

lemma at_endpoint: "R x (x\<lparr>ex_detail_endpoint := e, ex_detail_header := h\<rparr>)"
  using trans [OF endpoint header] .

lemma related_hydrate: "related x (hydrate D d ms x)"
proof (induction ms arbitrary: x)
  case (Cons m ms)
  let ?x = "x\<lparr>ex_detail_endpoint := Some (Received, logged_ordinal m), ex_detail_header := Some (logged_header m)\<rparr>"
  have counted': "R y (update_report (if b then record_logged c else record_reproduced c) y)" for y b c
    using counted by simp
  have "related ?x (hydrate D d (m # ms) x)"
    by (auto simp: Let_def split: option.splits sum.splits intro!: related_try related_attempt related_gap refl failing
        intro: related_trans [OF counted' Cons.IH] related_trans [OF counted(1) Cons.IH] related_trans [OF counted(2) Cons.IH])
  then show ?case by (rule related_trans [OF at_endpoint])
qed (simp add: refl)

lemma related_stage: "related x (stage_events cb name vs x)"
proof (induction vs arbitrary: x)
  case (Cons v vs)
  let ?x = "x\<lparr>ex_detail_endpoint := Some (Received, event_ordinal v), ex_detail_header := None\<rparr>"
  have "related ?x (stage_events cb name (v # vs) x)"
    by (auto simp: Let_def split: sum.splits intro!: related_try related_attempt Cons.IH refl failing)
  then show ?case by (rule related_trans [OF at_endpoint])
qed (simp add: refl)

lemma related_compare_output: "related x (compare_output name p actual pos e x)"
proof -
  let ?x = "x\<lparr>ex_detail_header := Some e\<rparr>" and ?c = "desc_channel p"
  have "related ?x (compare_output name p actual pos e x)"
  proof (cases "?c \<notin> rl_logged (ex_log x) \<and> length actual \<le> pos")
    case True
    with lost [of ?x] show ?thesis by (auto simp: compare_output_def Let_def try_then_def replay_mismatch_def)
  next
    case False
    then show ?thesis unfolding compare_output_def Let_def
      by (intro related_try)
        (auto simp: counted split: option.splits intro!: related_try related_gap related_mismatch refl failing)
  qed
  then show ?thesis by (rule related_trans [OF header])
qed

lemma related_compare_outputs: "related x (compare_outputs name p actual pos es x)"
  by (induction es arbitrary: pos x) (auto intro!: related_try related_compare_output refl failing)

lemma related_compare_extra: "related x (compare_extra name p pos ms x)"
proof (induction ms arbitrary: pos x)
  case (Cons m ms)
  obtain h b where m: "m = (h, b)" by (cases m)
  have "related (x\<lparr>ex_detail_header := Some h\<rparr>) (compare_extra name p pos (m # ms) x)"
    unfolding m by (auto intro!: related_try related_mismatch Cons.IH)
  then show ?case by (rule related_trans [OF header])
qed (simp add: refl)

lemma related_store: "related x (store_outputs name p ms x)"
proof (induction ms arbitrary: x)
  case (Cons m ms)
  obtain h b where m: "m = (h, b)" by (cases m)
  let ?x1 = "x\<lparr>ex_detail_header := Some h\<rparr>"
  let ?x2 = "?x1\<lparr>ex_reproduced := (ex_reproduced ?x1)((desc_channel p, h) \<mapsto> b)\<rparr>"
  have two: "R ?x1 ?x2" by (rule reproduced)
  have tail: "related ?x2 (case map_of (bound_caches (ex_bindings ?x2)) (desc_channel p) of
            None \<Rightarrow> store_outputs name p ms ?x2
          | Some load \<Rightarrow> try_then (attempt (load h b (ex_world ?x2)) ?x2) (\<lambda>r x3. case r of
              Inl e \<Rightarrow> Ret (Inl (StepFailed (CallbackFailed name (''source cache: '' @ e))), x3)
            | Inr _ \<Rightarrow> store_outputs name p ms x3))"
    by (auto split: option.splits sum.splits intro!: related_try related_attempt Cons.IH refl failing)
  have "related ?x1 (store_outputs name p (m # ms) x)"
    unfolding m store_outputs.simps Let_def
    using Cons.IH [of ?x1] fails(1) [OF _ two] related_trans [OF two tail] by simp
  then show ?case by (rule related_trans [OF header])
qed (simp add: refl)

lemma related_compare_endpoint: "related x (compare_endpoint name r p x)"
proof -
  let ?x = "x\<lparr>ex_detail_endpoint := Some (Published, desc_ordinal p), ex_detail_header := None\<rparr>"
  have "related ?x (compare_endpoint name r p x)"
    unfolding compare_endpoint_def Let_def
    by (auto split: option.splits sum.splits prod.splits intro!: related_try related_attempt related_compare_outputs
        related_compare_extra related_store refl failing intro: related_trans [OF header related_mismatch])
  then show ?thesis by (rule related_trans [OF at_endpoint])
qed

lemma related_compare_endpoints: "related x (compare_endpoints name r ps x)"
  by (induction ps arbitrary: x) (auto intro!: related_try related_compare_endpoint refl failing)

lemma related_hydrate_world: "related x (hydrate D d ms (x\<lparr>ex_world := w\<rparr>))"
  by (rule related_trans [OF world related_hydrate])

lemma related_gap_endpoint: "related x (replay_gap c t (x\<lparr>ex_detail_endpoint := e\<rparr>))"
  by (rule related_trans [OF endpoint related_gap])

lemma related_hydrate_execution: "related x (hydrate_execution D d cb r x)"
  unfolding hydrate_execution_def no_detail_def
  by (auto split: sum.splits intro!: related_try related_attempt related_gap related_stage refl failing at_endpoint
      related_hydrate_world)

lemma related_drop: "related x (drop_prepared cb x)"
  by (simp add: drop_prepared_def related_attempt)

lemma related_prepare_execution: "related x (prepare_execution d cb r x)"
  unfolding prepare_execution_def Let_def
  by (auto split: option.splits intro!: related_try related_attempt related_observing related_drop refl failing fails(1) [OF _ endpoint]
      related_gap_endpoint)

lemma related_run_execution: "related x (run_execution D d cb r x)"
  unfolding run_execution_def
  by (auto split: body_result.splits intro!: related_try related_attempt related_observing related_mismatch
      related_compare_endpoints refl failing)

lemma related_execute: "related x (replay_execute D r x)"
  unfolding replay_execute_def Let_def
  by (auto intro!: related_try related_hydrate_execution related_prepare_execution related_run_execution refl failing)

end

abbreviation errors :: "'w exact_replay \<Rightarrow> nat" where
  "errors x \<equiv> report_errors (ex_report x)"

definition same_run :: "'w exact_replay \<Rightarrow> 'w exact_replay \<Rightarrow> bool" where
  "same_run x y \<longleftrightarrow> ex_log y = ex_log x \<and> ex_bindings y = ex_bindings x \<and> ex_config y = ex_config x \<and> ex_callbacks y = ex_callbacks x
     \<and> ex_mapping y = ex_mapping x \<and> ex_publishers y = ex_publishers x \<and> ex_metadata y = ex_metadata x \<and> ex_cursor y = ex_cursor x
     \<and> ex_failed y = ex_failed x \<and> ex_stop y = ex_stop x
     \<and> consumed_executions (ex_report y) = consumed_executions (ex_report x) \<and> total_executions (ex_report y) = total_executions (ex_report x)"

lemma detail_fields [simp]:
  "ex_report (replay_detail_op k c t x) = report_detail \<lparr>detail_kind = k, detail_callback = record_callback (ex_record x),
     detail_channel = Option.bind (case c of Some n \<Rightarrow> Some n | None \<Rightarrow> Option.bind (ex_detail_endpoint x) (\<lambda>(dir, ordinal).
         map_option desc_channel (find_endpoint (desc_endpoints (desc_callbacks (rl_descriptor (ex_log x))
           ! intern_index (record_callback (ex_record x)))) dir ordinal)))
       (lookup_by_value (channels_table (rl_tables (ex_log x)))),
     detail_time = execution_time (ex_record x), detail_endpoint = ex_detail_endpoint x, detail_publication = ex_detail_header x,
     detail_reason = t, detail_truncated = False\<rparr> (ex_report x)"
  "ex_world (replay_detail_op k c t x) = ex_world x" "ex_reproduced (replay_detail_op k c t x) = ex_reproduced x"
  "ex_failed (replay_detail_op k c t x) = ex_failed x" "ex_log (replay_detail_op k c t x) = ex_log x"
  by (simp_all add: replay_detail_op_def Let_def update_report_def)

lemma update_report_fields [simp]:
  "ex_report (update_report f x) = f (ex_report x)" "ex_world (update_report f x) = ex_world x"
  "ex_reproduced (update_report f x) = ex_reproduced x" "ex_failed (update_report f x) = ex_failed x"
  "ex_log (update_report f x) = ex_log x"
  by (simp_all add: update_report_def)

interpretation frame: replay_relation same_run "\<lambda>_. same_run"
  by unfold_locales (auto simp: same_run_def replay_detail_op_def Let_def update_report_def)

interpretation counting: replay_relation "\<lambda>x y. errors x \<le> errors y" "\<lambda>_ x y. errors x \<le> errors y"
  by unfold_locales auto

interpretation honest: replay_relation "\<lambda>x y. report_inv (ex_report x) \<longrightarrow> report_inv (ex_report y)"
  "\<lambda>_ x y. report_inv (ex_report x) \<longrightarrow> report_inv (ex_report y)"
  by unfold_locales (auto simp: report_inv_def report_ops_bounds report_ops_truthful)

section \<open>Executions without an error\<close>

lemma try_then_Inr:
  "try_then m k = Ret (Inr b, z) \<longleftrightarrow> (\<exists>a y. m = Ret (Inr a, y) \<and> k a y = Ret (Inr b, z))"
  by (cases m) (auto simp: try_then_def split: sum.splits)

lemma try_then_Ret [simp]: "try_then (Ret (Inr a, x)) k = k a x" "try_then (Ret (Inl e, x)) k = Ret (Inl e, x)"
  by (simp_all add: try_then_def)

lemma attempt_Ret [simp]: "attempt (Ret (a, w)) x = Ret (Inr a, x\<lparr>ex_world := w\<rparr>)"
  by (simp add: attempt_def)

lemma gap_counts: "replay_gap c t x = Ret (r, y) \<Longrightarrow> errors y = errors x + 1"
  by (auto simp: replay_gap_def Let_def)

lemma mismatch_counts: "replay_mismatch c t x = Ret (r, y) \<Longrightarrow> errors y = errors x + 1"
  by (auto simp: replay_mismatch_def Let_def)

lemma attempt_Inr: "attempt m x = Ret (Inr a, y) \<longleftrightarrow> (\<exists>w. m = Ret (a, w) \<and> y = x\<lparr>ex_world := w\<rparr>)"
  by (cases m) (auto simp: attempt_def)

lemma observing_Inr: "observing f x = Ret (Inr a, y) \<longleftrightarrow> f (ex_world x) = Ret a \<and> y = x"
  by (auto simp: observing_def attempt_Inr)

text \<open>In strict replay a result means that no error was counted, and only a strict replay fails with a divergence.\<close>

interpretation strict: replay_relation "\<lambda>x y. is_strict y = is_strict x \<and> (is_strict x \<longrightarrow> errors y = errors x)"
  "\<lambda>e x y. callback_failure e \<or> divergence e \<and> is_strict x \<and> errors x < errors y"
  by unfold_locales auto

lemma message_headers_map:
  "map_of (message_headers ms) i = (if \<exists>m \<in> set ms. logged_ordinal m = i
     then Some (map logged_header (filter (\<lambda>m. logged_ordinal m = i) ms)) else None)"
  by (induction ms rule: rev_induct) (auto simp: message_headers_def map_of_map_insert)

lemma differing_ordinal_None:
  assumes "differing_ordinal actual expected = None"
  shows "map logged_header (filter (\<lambda>m. logged_ordinal m = i) actual) = map logged_header (filter (\<lambda>m. logged_ordinal m = i) expected)"
proof -
  let ?a = "message_headers actual" and ?e = "message_headers expected"
  have "map_of ?a i = map_of ?e i"
  proof (cases "i \<in> fst ` set ?a \<union> fst ` set ?e")
    case True
    with assms show ?thesis by (auto simp: differing_ordinal_def Let_def find_None_iff)
  next
    case False
    then show ?thesis by (simp add: map_of_eq_None_iff flip: map_of_eq_None_iff)
  qed
  then show ?thesis
    by (auto simp: message_headers_map filter_empty_conv split: if_splits)
qed

lemma try_exact:
  assumes "try_then m k = Ret (Inr b, z)" and "errors z = errors x" and "counting.related x m"
    and "\<And>a y. m = Ret (Inr a, y) \<Longrightarrow> counting.related y (k a y)"
  obtains a y where "m = Ret (Inr a, y)" and "k a y = Ret (Inr b, z)" and "errors y = errors x" and "errors z = errors y"
proof -
  from assms(1) obtain a y where ay: "m = Ret (Inr a, y)" "k a y = Ret (Inr b, z)" by (auto simp: try_then_Inr)
  from counting.related_Inr [OF assms(3) ay(1)] counting.related_Inr [OF assms(4) ay(2), OF ay(1)] assms(2)
  show ?thesis by (intro that [OF ay]) simp_all
qed

lemma gap_not_exact: "try_then (replay_gap c t x) k = Ret (Inr b, z) \<Longrightarrow> errors z = errors x
    \<Longrightarrow> (\<And>a y. counting.related y (k a y)) \<Longrightarrow> False"
  by (erule try_exact [OF _ _ counting.related_gap]) (auto dest: gap_counts)

text \<open>The recorded inputs of an execution with their payloads, injected one after the other.\<close>

fun inject_recorded ::
  "'w replay_bindings \<Rightarrow> string \<Rightarrow> (logged_message \<times> byte list) list \<Rightarrow> 'w replay_world \<Rightarrow> 'w replay_world outcome" where
  "inject_recorded b name [] w = Ret w"
| "inject_recorded b name ((m, bytes) # ms) w = (case map_of (bound_inputs b) (name, logged_ordinal m) of
     None \<Rightarrow> Panic
   | Some s \<Rightarrow> (case source_inject s (logged_header m) bytes w of
       Ret (Inr _, w1) \<Rightarrow> inject_recorded b name ms w1
     | _ \<Rightarrow> Panic))"

definition resolved :: "'w exact_replay \<Rightarrow> callback_descriptor \<Rightarrow> logged_message \<times> byte list \<Rightarrow> bool" where
  "resolved x d i \<longleftrightarrow> (\<exists>p. find_endpoint (desc_endpoints d) Received (logged_ordinal (fst i)) = Some p
     \<and> recorded_payload x (desc_channel p, logged_header (fst i)) = Some (snd i))"

lemma hydrate_exact:
  assumes "hydrate D d ms x = Ret (Inr go, y)" and "errors y = errors x"
  shows "go \<and> ex_reproduced y = ex_reproduced x \<and> (\<exists>items. map fst items = ms \<and> (\<forall>i \<in> set items. resolved x d i)
    \<and> inject_recorded (ex_bindings x) (desc_name d) items (ex_world x) = Ret (ex_world y))"
  using assms
proof (induction ms arbitrary: x)
  case (Cons m ms)
  let ?x = "x\<lparr>ex_detail_endpoint := Some (Received, logged_ordinal m), ex_detail_header := Some (logged_header m)\<rparr>"
  from Cons.prems(1) obtain p where p: "find_endpoint (desc_endpoints d) Received (logged_ordinal m) = Some p"
    by (auto simp: Let_def split: option.splits)
  have same: "errors ?x = errors x" by simp
  have "recorded_payload ?x (desc_channel p, logged_header m) \<noteq> None"
  proof
    assume "recorded_payload ?x (desc_channel p, logged_header m) = None"
    with Cons.prems p show False by (auto simp: Let_def dest!: gap_not_exact)
  qed
  then obtain bytes where bytes: "recorded_payload ?x (desc_channel p, logged_header m) = Some bytes" by blast
  obtain s where s: "map_of (bound_inputs (ex_bindings x)) (desc_name d, logged_ordinal m) = Some s"
    using Cons.prems(1) p bytes by (auto simp: Let_def split: option.splits)
  from Cons.prems(1) p bytes s obtain q w where q: "source_inject s (logged_header m) bytes (ex_world x) = Ret (q, w)"
    by (auto simp: Let_def try_then_Inr attempt_Inr)
  have q': "q = Inr ()"
  proof (cases q)
    case (Inl e)
    with Cons.prems p bytes s q show ?thesis by (auto simp: Let_def attempt_def try_then_def [of "Ret _"] dest!: gap_not_exact)
  qed simp
  let ?y = "update_report (if desc_channel p \<in> rl_logged (ex_log x) then record_logged (desc_channel p) else record_reproduced (desc_channel p))
      (?x\<lparr>ex_world := w\<rparr>)"
  have rest: "hydrate D d ms ?y = Ret (Inr go, y)"
    using Cons.prems(1) p bytes s q q' by (simp add: Let_def attempt_def try_then_def)
  have err: "errors ?y = errors x" by simp
  from Cons.IH [OF rest] Cons.prems(2) err obtain items where ih: "go" "ex_reproduced y = ex_reproduced ?y" "map fst items = ms"
    "\<forall>i \<in> set items. resolved ?y d i" "inject_recorded (ex_bindings ?y) (desc_name d) items (ex_world ?y) = Ret (ex_world y)" by auto
  have "resolved ?y d = resolved x d" by (auto simp: fun_eq_iff resolved_def recorded_payload_def)
  with ih(4) have items: "\<forall>i \<in> set items. resolved x d i" by simp
  have "resolved x d (m, bytes)" using p bytes by (simp add: resolved_def recorded_payload_def split: if_splits)
  moreover have "inject_recorded (ex_bindings x) (desc_name d) ((m, bytes) # items) (ex_world x) = Ret (ex_world y)"
    using ih(5) s q q' by (simp add: update_report_def)
  ultimately show ?case using ih(1-3) items by (intro conjI exI [of _ "(m, bytes) # items"]) auto
qed auto

text \<open>The captured outputs of an endpoint are the recorded ones.\<close>

definition matches_recording :: "replay_log \<Rightarrow> string \<Rightarrow> message_header list \<Rightarrow> (message_header \<times> byte list) list \<Rightarrow> bool" where
  "matches_recording l channel expected actual \<longleftrightarrow> map fst actual = expected
     \<and> (channel \<in> rl_logged l \<longrightarrow> (\<forall>(h, body) \<in> set actual. map_of (rl_payloads l) (channel, h) = Some body))"

lemma compare_output_exact:
  assumes "compare_output name p actual pos e x = Ret (Inr u, y)" and "errors y = errors x"
  shows "pos < length actual \<and> fst (actual ! pos) = e
    \<and> (desc_channel p \<in> rl_logged (ex_log x) \<longrightarrow> map_of (rl_payloads (ex_log x)) (desc_channel p, e) = Some (snd (actual ! pos)))
    \<and> ex_world y = ex_world x \<and> ex_reproduced y = ex_reproduced x"
proof -
  let ?x = "x\<lparr>ex_detail_header := Some e\<rparr>" and ?c = "desc_channel p"
  have err: "errors y = errors ?x" using assms(2) by simp
  note bad = mismatch_counts
  show ?thesis
  proof (cases "?c \<in> rl_logged (ex_log x)")
    case True
    have "map_of (rl_payloads (ex_log x)) (?c, e) \<noteq> None"
    proof
      assume "map_of (rl_payloads (ex_log x)) (?c, e) = None"
      with assms True obtain y1 where "replay_gap ?c (''missing expected output for '' @ in_quotes name) ?x = Ret (Inr (), y1)"
        "errors y1 \<le> errors y"
        by (auto simp: compare_output_def Let_def try_then_Inr split: if_splits dest: mismatch_counts)
      with err gap_counts show False by fastforce
    qed
    with True assms show ?thesis
      by (auto simp: compare_output_def Let_def try_then_def not_le split: if_splits dest!: mismatch_counts)
  next
    case False
    with assms show ?thesis
      by (auto simp: compare_output_def Let_def try_then_def not_le split: if_splits dest!: mismatch_counts)
  qed
qed

lemma compare_outputs_exact:
  assumes "compare_outputs name p actual pos es x = Ret (Inr u, y)" and "errors y = errors x"
  shows "pos + length es \<le> max pos (length actual) \<and> map fst (take (length es) (drop pos actual)) = es
    \<and> (desc_channel p \<in> rl_logged (ex_log x) \<longrightarrow>
        (\<forall>(h, body) \<in> set (take (length es) (drop pos actual)). map_of (rl_payloads (ex_log x)) (desc_channel p, h) = Some body))
    \<and> ex_world y = ex_world x \<and> ex_reproduced y = ex_reproduced x"
  using assms
proof (induction es arbitrary: pos x)
  case (Cons e es)
  from try_exact [OF Cons.prems(1) [unfolded compare_outputs.simps] Cons.prems(2) counting.related_compare_output
      counting.related_compare_outputs] obtain a x1 where
    x1: "compare_output name p actual pos e x = Ret (Inr a, x1)" "compare_outputs name p actual (pos + 1) es x1 = Ret (Inr u, y)"
      "errors x1 = errors x" "errors y = errors x1" by blast
  note one = compare_output_exact [OF x1(1,3)] and rest = Cons.IH [OF x1(2,4)]
  have log: "ex_log x1 = ex_log x" using frame.related_Inr [OF frame.related_compare_output x1(1)] by (simp add: same_run_def)
  have "drop pos actual = actual ! pos # drop (pos + 1) actual" using one by (simp add: Cons_nth_drop_Suc)
  with one rest log show ?case by (cases "actual ! pos") auto
qed simp

lemma compare_extra_exact:
  assumes "compare_extra name p pos ms x = Ret (Inr u, y)" and "errors y = errors x"
  shows "ms = [] \<and> y = x"
proof (cases ms)
  case (Cons m ms')
  obtain h b where m: "m = (h, b)" by (cases m)
  let ?x = "x\<lparr>ex_detail_header := Some h\<rparr>"
  let ?t = "in_quotes name @ '' publisher '' @ dec_digits (desc_ordinal p) @ '' unexpected output '' @ dec_digits pos"
  from assms(1) Cons m obtain x1 where x1: "replay_mismatch (desc_channel p) ?t ?x = Ret (Inr (), x1)"
    "compare_extra name p (pos + 1) ms' x1 = Ret (Inr u, y)" by (auto simp: try_then_Inr)
  from mismatch_counts [OF x1(1)] counting.related_Inr [OF counting.related_compare_extra x1(2)] assms(2) show ?thesis by simp
qed (use assms(1) in simp)

text \<open>What an endpoint published is kept for executions that read it, unless it was logged.\<close>

lemma store_outputs_exact:
  assumes "store_outputs name p ms x = Ret (Inr u, y)"
    and loaders: "\<forall>(c, load) \<in> set (bound_caches (ex_bindings x)). \<forall>h b w r w'. load h b w = Ret (r, w') \<longrightarrow> captures w' = captures w"
  shows "captures (ex_world y) = captures (ex_world x)
    \<and> (if desc_channel p \<in> rl_logged (ex_log x) then ex_reproduced y = ex_reproduced x
       else ex_reproduced y = ex_reproduced x ++ map_of (map (\<lambda>(h, b). ((desc_channel p, h), b)) ms)
         \<and> (\<forall>(h, _) \<in> set ms. ex_reproduced x (desc_channel p, h) = None) \<and> distinct (map fst ms))"
  using assms
proof (induction ms arbitrary: x)
  case (Cons m ms)
  obtain h b where m: "m = (h, b)" by (cases m)
  let ?c = "desc_channel p" and ?x1 = "x\<lparr>ex_detail_header := Some h\<rparr>"
  let ?x2 = "?x1\<lparr>ex_reproduced := (ex_reproduced x)((?c, h) \<mapsto> b)\<rparr>"
  show ?case
  proof (cases "?c \<in> rl_logged (ex_log x)")
    case True
    then have "store_outputs name p ms ?x1 = Ret (Inr u, y)" using Cons.prems(1) m by simp
    from Cons.IH [OF this] Cons.prems(2) True show ?thesis by simp
  next
    case False
    then have fresh: "ex_reproduced x (?c, h) = None" using Cons.prems(1) m by (auto simp: Let_def split: if_splits)
    have "\<exists>w. captures w = captures (ex_world x) \<and> store_outputs name p ms (?x2\<lparr>ex_world := w\<rparr>) = Ret (Inr u, y)"
    proof (cases "map_of (bound_caches (ex_bindings x)) ?c")
      case None
      with False fresh Cons.prems(1) m show ?thesis by (intro exI [of _ "ex_world x"]) (simp add: Let_def)
    next
      case (Some load)
      with False fresh Cons.prems(1) m obtain q w where q: "load h b (ex_world x) = Ret (q, w)"
        by (auto simp: Let_def try_then_Inr attempt_Inr)
      moreover have "(?c, load) \<in> set (bound_caches (ex_bindings x))" using Some by (rule map_of_SomeD)
      ultimately have "captures w = captures (ex_world x)" using Cons.prems(2) by fastforce
      with False fresh Cons.prems(1) m Some q show ?thesis
        by (intro exI [of _ w]) (auto simp: Let_def try_then_Inr attempt_Inr split: sum.splits)
    qed
    then obtain w where w: "captures w = captures (ex_world x)" "store_outputs name p ms (?x2\<lparr>ex_world := w\<rparr>) = Ret (Inr u, y)" by blast
    from Cons.IH [OF w(2)] Cons.prems(2) False w(1) have ih: "captures (ex_world y) = captures (ex_world x)"
      "ex_reproduced y = (ex_reproduced x)((?c, h) \<mapsto> b) ++ map_of (map (\<lambda>(h, b). ((?c, h), b)) ms)"
      "\<forall>(h', _) \<in> set ms. ((ex_reproduced x)((?c, h) \<mapsto> b)) (?c, h') = None" "distinct (map fst ms)" by simp_all
    from ih(3) have other: "\<forall>(h', _) \<in> set ms. h' \<noteq> h \<and> ex_reproduced x (?c, h') = None" by (auto split: if_splits)
    have "map_of (map (\<lambda>(h, b). ((?c, h), b)) ms) (?c, h) = None" using other by (auto simp: map_of_eq_None_iff)
    then have "(ex_reproduced x)((?c, h) \<mapsto> b) ++ map_of (map (\<lambda>(h, b). ((?c, h), b)) ms)
        = ex_reproduced x ++ map_of (map (\<lambda>(h, b). ((?c, h), b)) (m # ms))"
      using m by (auto simp: fun_eq_iff map_add_def split: option.splits)
    with ih other fresh False m show ?thesis by auto
  qed
qed simp

definition expected_headers :: "execution_record \<Rightarrow> endpoint_descriptor \<Rightarrow> message_header list" where
  "expected_headers r p = map logged_header (filter (\<lambda>m. logged_ordinal m = desc_ordinal p) (record_outputs r))"

definition endpoint_reproduced ::
  "'w exact_replay \<Rightarrow> 'w replay_world \<Rightarrow> string \<Rightarrow> execution_record \<Rightarrow> endpoint_descriptor \<Rightarrow> (identity \<rightharpoonup> byte list) \<Rightarrow> bool" where
  "endpoint_reproduced x w name r p reproduced \<longleftrightarrow> (\<exists>c current recorded.
     map_of (bound_outputs (ex_bindings x)) (name, desc_ordinal p) = Some c
     \<and> (ex_publishers x ! intern_index (record_callback r)) (desc_ordinal p) = Some (current, recorded)
     \<and> capture_error (captures w ! capture_index c) = None
     \<and> (\<forall>(h, _) \<in> set (capture_messages (captures w ! capture_index c)). header_publisher h = current)
     \<and> matches_recording (ex_log x) (desc_channel p) (expected_headers r p)
         (map (with_publisher recorded) (capture_messages (captures w ! capture_index c)))
     \<and> (desc_channel p \<notin> rl_logged (ex_log x) \<longrightarrow>
         (\<forall>(h, b) \<in> set (map (with_publisher recorded) (capture_messages (captures w ! capture_index c))).
            reproduced (desc_channel p, h) = Some b)))"

definition isolated_captures :: "'w replay_bindings \<Rightarrow> bool" where
  "isolated_captures b \<longleftrightarrow> distinct (map (capture_index \<circ> snd) (bound_outputs b))
     \<and> (\<forall>(c, load) \<in> set (bound_caches b). \<forall>h bytes w r w'. load h bytes w = Ret (r, w') \<longrightarrow> captures w' = captures w)"

lemma map_of_keyed: "distinct (map fst ms) \<Longrightarrow> (h, b) \<in> set ms \<Longrightarrow> map_of (map (\<lambda>(h, b). ((c, h), b)) ms) (c, h) = Some b"
  by (induction ms) (auto simp: rev_image_eqI)

lemma compare_endpoint_exact:
  assumes run: "compare_endpoint name r p x = Ret (Inr u, y)" and err: "errors y = errors x" and iso: "isolated_captures (ex_bindings x)"
  shows "endpoint_reproduced x (ex_world x) name r p (ex_reproduced y) \<and> ex_reproduced x \<subseteq>\<^sub>m ex_reproduced y
    \<and> (\<forall>i. (\<forall>c. map_of (bound_outputs (ex_bindings x)) (name, desc_ordinal p) = Some c \<longrightarrow> i \<noteq> capture_index c)
        \<longrightarrow> captures (ex_world y) ! i = captures (ex_world x) ! i)"
proof -
  let ?x1 = "x\<lparr>ex_detail_endpoint := Some (Published, desc_ordinal p), ex_detail_header := None\<rparr>" and ?l = "ex_log x"
  from run obtain c where c: "map_of (bound_outputs (ex_bindings x)) (name, desc_ordinal p) = Some c"
    by (auto simp: compare_endpoint_def Let_def split: option.splits)
  let ?s = "captures (ex_world x) ! capture_index c"
  let ?w = "set_capture (capture_index c) (\<lambda>s. s\<lparr>capture_messages := [], capture_error := None\<rparr>) (ex_world x)"
  let ?x2 = "?x1\<lparr>ex_world := ?w\<rparr>" and ?actual = "capture_messages ?s"
  have ok: "capture_error ?s = None"
    using run c by (auto simp: compare_endpoint_def Let_def capture_take_def split: option.splits)
  obtain current recorded where pub: "(ex_publishers x ! intern_index (record_callback r)) (desc_ordinal p) = Some (current, recorded)"
    using run c ok by (auto simp: compare_endpoint_def Let_def capture_take_def split: option.splits)
  have none: "find (\<lambda>(h, _). header_publisher h \<noteq> current) ?actual = None"
  proof (rule ccontr)
    assume "find (\<lambda>(h, _). header_publisher h \<noteq> current) ?actual \<noteq> None"
    then obtain h b where "find (\<lambda>(h, _). header_publisher h \<noteq> current) ?actual = Some (h, b)" by auto
    with run c ok pub err show False
      by (auto simp: compare_endpoint_def Let_def capture_take_def dest!: mismatch_counts)
  qed
  let ?actual' = "map (with_publisher recorded) ?actual" and ?expected = "expected_headers r p"
  have "try_then (compare_outputs name p ?actual' 0 ?expected ?x2) (\<lambda>_ x3.
      try_then (compare_extra name p (length ?expected) (drop (length ?expected) ?actual') x3) (\<lambda>_ x4.
      store_outputs name p ?actual' x4)) = Ret (Inr u, y)"
    using run c ok pub none by (simp add: compare_endpoint_def Let_def capture_take_def expected_headers_def)
  moreover have err2: "errors y = errors ?x2" using err by simp
  ultimately obtain a x3 where x3: "compare_outputs name p ?actual' 0 ?expected ?x2 = Ret (Inr a, x3)" "errors x3 = errors ?x2"
    "errors y = errors x3"
    "try_then (compare_extra name p (length ?expected) (drop (length ?expected) ?actual') x3) (\<lambda>_ x4.
      store_outputs name p ?actual' x4) = Ret (Inr u, y)"
    by (rule try_exact [OF _ _ counting.related_compare_outputs])
      (auto intro!: counting.related_try counting.related_compare_extra counting.related_store)
  from try_exact [OF x3(4,3) counting.related_compare_extra counting.related_store] obtain b x4 where
    x4: "compare_extra name p (length ?expected) (drop (length ?expected) ?actual') x3 = Ret (Inr b, x4)" "errors x4 = errors x3"
      "store_outputs name p ?actual' x4 = Ret (Inr u, y)" by blast
  note extra = compare_extra_exact [OF x4(1,2)] and outs = compare_outputs_exact [OF x3(1,2)]
  have "same_run x x3" using frame.related_Inr [OF frame.related_compare_outputs x3(1)] by (simp add: same_run_def)
  then have keep: "ex_log x4 = ?l" "ex_bindings x4 = ex_bindings x" "ex_world x4 = ?w" "ex_reproduced x4 = ex_reproduced x"
    using extra outs by (simp_all add: same_run_def)
  have all: "take (length ?expected) ?actual' = ?actual'" using extra by simp
  have match: "matches_recording ?l (desc_channel p) ?expected ?actual'"
    using outs unfolding matches_recording_def by (simp add: all del: map_map)
  have store: "captures (ex_world y) = captures ?w \<and> (if desc_channel p \<in> rl_logged ?l then ex_reproduced y = ex_reproduced x
       else ex_reproduced y = ex_reproduced x ++ map_of (map (\<lambda>(h, b). ((desc_channel p, h), b)) ?actual')
         \<and> (\<forall>(h, _) \<in> set ?actual'. ex_reproduced x (desc_channel p, h) = None) \<and> distinct (map fst ?actual'))"
    using store_outputs_exact [OF x4(3)] iso unfolding keep isolated_captures_def by blast
  have "endpoint_reproduced x (ex_world x) name r p (ex_reproduced y)"
    unfolding endpoint_reproduced_def
  proof (intro exI conjI impI)
    show "\<forall>(h, _) \<in> set ?actual. header_publisher h = current" using none by (auto simp: find_None_iff)
    show "\<forall>(h, b) \<in> set ?actual'. ex_reproduced y (desc_channel p, h) = Some b" if "desc_channel p \<notin> rl_logged ?l"
    proof clarify
      fix h b
      assume "(h, b) \<in> set ?actual'"
      with store that have "map_of (map (\<lambda>(h, b). ((desc_channel p, h), b)) ?actual') (desc_channel p, h) = Some b"
        by (intro map_of_keyed) simp_all
      with store that show "ex_reproduced y (desc_channel p, h) = Some b" by (simp add: map_add_Some_iff)
    qed
  qed (rule c pub ok match)+
  moreover have "ex_reproduced x \<subseteq>\<^sub>m ex_reproduced y"
  proof (cases "desc_channel p \<in> rl_logged ?l")
    case False
    then have "dom (ex_reproduced x) \<inter> dom (map_of (map (\<lambda>(h, b). ((desc_channel p, h), b)) ?actual')) = {}"
      using store by (auto simp: dom_map_of_conv_image_fst)
    then show ?thesis using store False by (metis map_add_comm map_le_map_add)
  qed (use store in simp)
  moreover have "captures (ex_world y) ! i = captures (ex_world x) ! i" if "i \<noteq> capture_index c" for i
    using store that by (simp add: set_capture_def)
  ultimately show ?thesis using c by auto
qed

lemma endpoint_reproduced_frame:
  assumes "endpoint_reproduced y w name r p m" and "same_run x y" and "m \<subseteq>\<^sub>m m'"
    and "\<And>c. map_of (bound_outputs (ex_bindings x)) (name, desc_ordinal p) = Some c \<Longrightarrow> captures w ! capture_index c = captures w' ! capture_index c"
  shows "endpoint_reproduced x w' name r p m'"
proof -
  from assms(1) obtain c current recorded where
    e: "map_of (bound_outputs (ex_bindings y)) (name, desc_ordinal p) = Some c"
      "(ex_publishers y ! intern_index (record_callback r)) (desc_ordinal p) = Some (current, recorded)"
      "capture_error (captures w ! capture_index c) = None"
      "\<forall>(h, _) \<in> set (capture_messages (captures w ! capture_index c)). header_publisher h = current"
      "matches_recording (ex_log y) (desc_channel p) (expected_headers r p)
         (map (with_publisher recorded) (capture_messages (captures w ! capture_index c)))"
      "desc_channel p \<notin> rl_logged (ex_log y) \<longrightarrow>
         (\<forall>(h, b) \<in> set (map (with_publisher recorded) (capture_messages (captures w ! capture_index c))). m (desc_channel p, h) = Some b)"
    unfolding endpoint_reproduced_def by blast
  have same: "ex_bindings y = ex_bindings x" "ex_publishers y = ex_publishers x" "ex_log y = ex_log x"
    using assms(2) by (simp_all add: same_run_def)
  note e = e [unfolded same]
  have cap: "captures w ! capture_index c = captures w' ! capture_index c" by (rule assms(4) [OF e(1)])
  have "\<forall>(h, b) \<in> set (map (with_publisher recorded) (capture_messages (captures w' ! capture_index c))). m' (desc_channel p, h) = Some b"
    if "desc_channel p \<notin> rl_logged (ex_log x)"
  proof clarify
    fix h b
    assume "(h, b) \<in> set (map (with_publisher recorded) (capture_messages (captures w' ! capture_index c)))"
    with e(6) that have "m (desc_channel p, h) = Some b" unfolding cap by blast
    with assms(3) show "m' (desc_channel p, h) = Some b" by (metis domI map_le_def)
  qed
  then show ?thesis unfolding endpoint_reproduced_def using e(1-5) unfolding cap by blast
qed

lemma compare_endpoints_exact:
  assumes "compare_endpoints name r ps x = Ret (Inr u, y)" and "errors y = errors x" and iso: "isolated_captures (ex_bindings x)"
    and "distinct (map desc_ordinal ps)"
  shows "(\<forall>p \<in> set ps. endpoint_reproduced x (ex_world x) name r p (ex_reproduced y)) \<and> ex_reproduced x \<subseteq>\<^sub>m ex_reproduced y"
  using assms
proof (induction ps arbitrary: x)
  case (Cons p ps)
  from try_exact [OF Cons.prems(1) [unfolded compare_endpoints.simps] Cons.prems(2) counting.related_compare_endpoint
      counting.related_compare_endpoints] obtain a x1 where
    x1: "compare_endpoint name r p x = Ret (Inr a, x1)" "compare_endpoints name r ps x1 = Ret (Inr u, y)"
      "errors x1 = errors x" "errors y = errors x1" by blast
  have run: "same_run x x1" by (rule frame.related_Inr [OF frame.related_compare_endpoint x1(1)])
  then have b: "ex_bindings x1 = ex_bindings x" by (simp add: same_run_def)
  note one = compare_endpoint_exact [OF x1(1,3) Cons.prems(3)]
  have rest: "\<forall>q \<in> set ps. endpoint_reproduced x1 (ex_world x1) name r q (ex_reproduced y)" "ex_reproduced x1 \<subseteq>\<^sub>m ex_reproduced y"
    using Cons.IH [OF x1(2,4)] Cons.prems(3,4) by (simp_all add: b)
  have "endpoint_reproduced x (ex_world x) name r q (ex_reproduced y)" if q: "q \<in> set ps" for q
  proof (rule endpoint_reproduced_frame [OF bspec [OF rest(1) q] run map_le_refl])
    fix c assume c: "map_of (bound_outputs (ex_bindings x)) (name, desc_ordinal q) = Some c"
    have inj: "inj_on (capture_index \<circ> snd) (set (bound_outputs (ex_bindings x)))"
      using Cons.prems(3) by (simp add: isolated_captures_def distinct_map)
    have "desc_ordinal q \<noteq> desc_ordinal p" using Cons.prems(4) imageI [OF q, of desc_ordinal] by auto
    then have "capture_index c \<noteq> capture_index c'" if "map_of (bound_outputs (ex_bindings x)) (name, desc_ordinal p) = Some c'" for c'
      using inj_onD [OF inj _ map_of_SomeD [OF c] map_of_SomeD [OF that]] by auto
    with one show "captures (ex_world x1) ! capture_index c = captures (ex_world x) ! capture_index c" by blast
  qed
  moreover have "endpoint_reproduced x (ex_world x) name r p (ex_reproduced y)"
    by (rule endpoint_reproduced_frame [OF conjunct1 [OF one] _ rest(2)]) (simp_all add: same_run_def)
  ultimately show ?case using one rest(2) map_le_trans by auto
qed simp

fun stage_all :: "'w replay_callback \<Rightarrow> logged_iox2_event list \<Rightarrow> 'w replay_world \<Rightarrow> 'w replay_world outcome" where
  "stage_all cb [] w = Ret w"
| "stage_all cb (v # vs) w = (case rc_stage_event cb v w of Ret (Inr _, w1) \<Rightarrow> stage_all cb vs w1 | _ \<Rightarrow> Panic)"

lemma stage_events_exact:
  "stage_events cb name vs x = Ret (Inr u, y) \<Longrightarrow> stage_all cb vs (ex_world x) = Ret (ex_world y) \<and> ex_reproduced y = ex_reproduced x"
proof (induction vs arbitrary: x)
  case (Cons v vs)
  then obtain q w where q: "rc_stage_event cb v (ex_world x) = Ret (q, w)" by (auto simp: Let_def try_then_Inr attempt_Inr)
  with Cons.prems have "q = Inr ()" by (cases q) (auto simp: Let_def)
  with q Cons.prems Cons.IH [of "x\<lparr>ex_detail_endpoint := Some (Received, event_ordinal v), ex_detail_header := None, ex_world := w\<rparr>"]
  show ?case by (simp add: Let_def)
qed simp

text \<open>
  An execution reproduced: on its recorded inputs, and after them on its recorded events, the callback
  was ready, saw the recorded snapshot, ran, and published what was recorded.
\<close>

definition execution_reproduced ::
  "'w exact_replay \<Rightarrow> callback_descriptor \<Rightarrow> 'w replay_callback \<Rightarrow> execution_record \<Rightarrow> 'w exact_replay \<Rightarrow> bool" where
  "execution_reproduced x d cb r y \<longleftrightarrow> (\<exists>w0 w1 w2 w3 w4 w5 items ms.
     rc_clear_replay_inputs cb (ex_world x) = Ret (Inr (), w0)
     \<and> map fst items = record_inputs r \<and> (\<forall>i \<in> set items. resolved x d i)
     \<and> inject_recorded (ex_bindings x) (desc_name d) items (clear_captures (bound_outputs (ex_bindings x)) w0) = Ret w1
     \<and> stage_all cb (record_events r) w1 = Ret w2
     \<and> prepare_callback (rc_ops cb) w2 = Ret (True, w3)
     \<and> rc_prepared_messages cb w3 = Ret ms
     \<and> (\<forall>i. map logged_header (filter (\<lambda>m. logged_ordinal m = i) ms) = map logged_header (filter (\<lambda>m. logged_ordinal m = i) (record_inputs r)))
     \<and> rc_prepared_events cb w3 = Ret (record_events r)
     \<and> run_prepared (rc_ops cb) (execution_time r) w3 = Ret (BodyOk, w4)
     \<and> rc_pending_events cb w4 = Ret (record_output_events r)
     \<and> commit_callback (rc_ops cb) (execution_time r) w4 = Ret w5
     \<and> (\<forall>p \<in> set (desc_endpoints d). is_data_output p \<longrightarrow> endpoint_reproduced x w5 (desc_name d) r p (ex_reproduced y)))"

lemma hydrate_execution_exact:
  assumes run: "hydrate_execution D d cb r x = Ret (Inr go, y)" and err: "errors y = errors x"
  shows "go \<and> ex_reproduced y = ex_reproduced x \<and> (\<exists>w0 w1 items. rc_clear_replay_inputs cb (ex_world x) = Ret (Inr (), w0)
     \<and> map fst items = record_inputs r \<and> (\<forall>i \<in> set items. resolved x d i)
     \<and> inject_recorded (ex_bindings x) (desc_name d) items (clear_captures (bound_outputs (ex_bindings x)) w0) = Ret w1
     \<and> stage_all cb (record_events r) w1 = Ret (ex_world y))"
proof -
  have whole: "record_truncated r = 0"
  proof (rule ccontr)
    assume "record_truncated r \<noteq> 0"
    with run err show False by (auto simp: hydrate_execution_def dest!: gap_not_exact)
  qed
  from run whole obtain q w0 where w0: "rc_clear_replay_inputs cb (ex_world x) = Ret (q, w0)"
    by (auto simp: hydrate_execution_def try_then_Inr attempt_Inr)
  from run whole w0 have q: "q = Inr ()" by (cases q) (auto simp: hydrate_execution_def)
  let ?x = "x\<lparr>ex_world := clear_captures (bound_outputs (ex_bindings x)) w0\<rparr>"
  have "try_then (hydrate D d (record_inputs r) ?x) (\<lambda>go x2. if \<not> go then Ret (Inr False, x2)
      else try_then (stage_events cb (desc_name d) (record_events r) x2) (\<lambda>_ x3. Ret (Inr True, no_detail x3))) = Ret (Inr go, y)"
    using run whole w0 q by (simp add: hydrate_execution_def)
  moreover have "errors y = errors ?x" using err by simp
  ultimately obtain go' x2 where x2: "hydrate D d (record_inputs r) ?x = Ret (Inr go', x2)" "errors x2 = errors ?x"
    "(if \<not> go' then Ret (Inr False, x2)
      else try_then (stage_events cb (desc_name d) (record_events r) x2) (\<lambda>_ x3. Ret (Inr True, no_detail x3))) = Ret (Inr go, y)"
    by (rule try_exact [OF _ _ counting.related_hydrate]) (auto intro!: counting.related_try counting.related_stage simp: no_detail_def)
  note h = hydrate_exact [OF x2(1,2)]
  from x2(3) h obtain u x3 where x3: "stage_events cb (desc_name d) (record_events r) x2 = Ret (Inr u, x3)" "y = no_detail x3" "go"
    by (auto simp: try_then_Inr)
  have "resolved ?x d = resolved x d" by (auto simp: fun_eq_iff resolved_def recorded_payload_def)
  with h obtain items where items: "map fst items = record_inputs r" "\<forall>i \<in> set items. resolved x d i"
    "inject_recorded (ex_bindings x) (desc_name d) items (ex_world ?x) = Ret (ex_world x2)" by auto
  from stage_events_exact [OF x3(1)] x3(2,3) h w0 q items show ?thesis
    by (auto simp: no_detail_def)
qed

lemma prepare_execution_exact:
  assumes run: "prepare_execution d cb r x = Ret (Inr go, y)" and err: "errors y = errors x"
  shows "go \<and> ex_reproduced y = ex_reproduced x \<and> (\<exists>ms. prepare_callback (rc_ops cb) (ex_world x) = Ret (True, ex_world y)
     \<and> rc_prepared_messages cb (ex_world y) = Ret ms
     \<and> (\<forall>i. map logged_header (filter (\<lambda>m. logged_ordinal m = i) ms) = map logged_header (filter (\<lambda>m. logged_ordinal m = i) (record_inputs r)))
     \<and> rc_prepared_events cb (ex_world y) = Ret (record_events r))"
proof -
  from run obtain w where w: "prepare_callback (rc_ops cb) (ex_world x) = Ret (True, w)"
    by (auto simp: prepare_execution_def try_then_Inr attempt_Inr split: if_splits)
  from run w obtain ms where ms: "rc_prepared_messages cb w = Ret ms"
    by (auto simp: prepare_execution_def try_then_Inr observing_Inr)
  let ?x = "x\<lparr>ex_world := w\<rparr>"
  have look: "observing (rc_prepared_messages cb) ?x = Ret (Inr ms, ?x)" using ms by (simp add: observing_Inr)
  have "differing_ordinal ms (record_inputs r) = None"
  proof (rule ccontr)
    assume "differing_ordinal ms (record_inputs r) \<noteq> None"
    then obtain i where "differing_ordinal ms (record_inputs r) = Some i" by blast
    with run w look obtain p x3 c t where g: "drop_prepared cb ?x = Ret (Inr (), x3)"
      "try_then (replay_gap c t (x3\<lparr>ex_detail_endpoint := Some (Received, i)\<rparr>)) (\<lambda>_ x5. Ret (Inr False, x5)) = Ret (Inr go, y)"
      by (auto simp: prepare_execution_def Let_def try_then_Inr [of "drop_prepared _ _"] split: option.splits)
    then have "errors y = errors (x3\<lparr>ex_detail_endpoint := Some (Received, i)\<rparr>)"
      using err by (auto simp: drop_prepared_def attempt_Inr)
    then show False by (rule gap_not_exact [OF g(2)]) simp
  qed
  with run w look have "rc_prepared_events cb w = Ret (record_events r) \<and> go \<and> y = ?x"
    by (auto simp: prepare_execution_def try_then_Inr observing_Inr split: if_splits)
  with w ms differing_ordinal_None [OF \<open>differing_ordinal ms (record_inputs r) = None\<close>] show ?thesis by auto
qed

lemma run_execution_exact:
  assumes run: "run_execution D d cb r x = Ret (Inr u, y)" and err: "errors y = errors x" and iso: "isolated_captures (ex_bindings x)"
    and ends: "distinct (map endpoint_key (desc_endpoints d))"
  shows "\<exists>w4 w5. run_prepared (rc_ops cb) (execution_time r) (ex_world x) = Ret (BodyOk, w4)
     \<and> rc_pending_events cb w4 = Ret (record_output_events r) \<and> commit_callback (rc_ops cb) (execution_time r) w4 = Ret w5
     \<and> (\<forall>p \<in> set (desc_endpoints d). is_data_output p \<longrightarrow> endpoint_reproduced x w5 (desc_name d) r p (ex_reproduced y))"
proof -
  from run obtain res w4 where "run_prepared (rc_ops cb) (execution_time r) (ex_world x) = Ret (res, w4)"
    by (auto simp: run_execution_def try_then_Inr attempt_Inr)
  moreover from this run have "res = BodyOk" by (cases res) (simp_all add: run_execution_def)
  ultimately have w4: "run_prepared (rc_ops cb) (execution_time r) (ex_world x) = Ret (BodyOk, w4)" by simp
  from run w4 obtain events where events: "rc_pending_events cb w4 = Ret events"
    by (auto simp: run_execution_def try_then_Inr observing_Inr)
  let ?x1 = "x\<lparr>ex_world := w4\<rparr>"
  have look: "observing (rc_pending_events cb) ?x1 = Ret (Inr events, ?x1)" using events by (simp add: observing_Inr)
  from run w4 look obtain w5 where w5: "commit_callback (rc_ops cb) (execution_time r) w4 = Ret w5"
    by (auto simp: run_execution_def try_then_Inr attempt_Inr)
  let ?x = "x\<lparr>ex_world := w5\<rparr>" and ?t = "in_quotes (desc_name d) @ '' output event counts/IDs differ''"
  have tail: "try_then (if events \<noteq> record_output_events r then replay_mismatch ''output_iox2_events'' ?t ?x else Ret (Inr (), ?x))
      (\<lambda>_ x4. compare_endpoints (desc_name d) r (filter is_data_output (desc_endpoints d)) x4) = Ret (Inr u, y)"
    using run w4 look w5 by (simp add: run_execution_def)
  have "events = record_output_events r"
  proof (rule ccontr)
    assume "events \<noteq> record_output_events r"
    with tail obtain x4 where "replay_mismatch ''output_iox2_events'' ?t ?x = Ret (Inr (), x4)"
      "compare_endpoints (desc_name d) r (filter is_data_output (desc_endpoints d)) x4 = Ret (Inr u, y)" by (auto simp: try_then_Inr)
    with counting.related_Inr [OF counting.related_compare_endpoints] mismatch_counts err show False by fastforce
  qed
  with tail have cmp: "compare_endpoints (desc_name d) r (filter is_data_output (desc_endpoints d)) ?x = Ret (Inr u, y)" by simp
  have "distinct (map desc_ordinal (filter is_data_output (desc_endpoints d)))"
    using ends by (auto simp: distinct_map inj_on_def endpoint_key_def is_data_output_def)
  from compare_endpoints_exact [OF cmp _ _ this] err iso
  have outs: "\<forall>p \<in> set (filter is_data_output (desc_endpoints d)). endpoint_reproduced ?x w5 (desc_name d) r p (ex_reproduced y)" by simp
  have "endpoint_reproduced x w5 (desc_name d) r p (ex_reproduced y)" if "p \<in> set (desc_endpoints d)" "is_data_output p" for p
    by (rule endpoint_reproduced_frame [where y = ?x and w = w5 and m = "ex_reproduced y"])
      (use outs that in \<open>auto simp: same_run_def\<close>)
  with w4 events w5 \<open>events = record_output_events r\<close> show ?thesis by blast
qed

lemma resolved_cong:
  "ex_log y = ex_log x \<Longrightarrow> ex_reproduced y = ex_reproduced x \<Longrightarrow> resolved y d = resolved x d"
  by (simp add: fun_eq_iff resolved_def recorded_payload_def)

lemma execute_exact:
  assumes run: "replay_execute D r x = Ret (Inr s, y)" and err: "errors y = errors x" and iso: "isolated_captures (ex_bindings x)"
  defines "d \<equiv> desc_callbacks (rl_descriptor (ex_log x)) ! intern_index (record_callback r)"
    and "cb \<equiv> ex_callbacks x ! (ex_mapping x ! intern_index (record_callback r))"
  assumes ends: "distinct (map endpoint_key (desc_endpoints d))"
  shows "s = \<lparr>step_callback = desc_name d, step_time = execution_time r, step_ran = True\<rparr> \<and> execution_reproduced x d cb r y"
proof -
  let ?done = "\<lambda>ran. \<lparr>step_callback = desc_name d, step_time = execution_time r, step_ran = ran\<rparr>"
  from run have "try_then (hydrate_execution D d cb r x) (\<lambda>go x1. if \<not> go then Ret (Inr (?done False), x1)
      else try_then (prepare_execution d cb r x1) (\<lambda>go x2. if \<not> go then Ret (Inr (?done False), x2)
        else try_then (run_execution D d cb r x2) (\<lambda>_ x3. Ret (Inr (?done True), x3)))) = Ret (Inr s, y)"
    unfolding replay_execute_def Let_def d_def cb_def .
  then obtain go x1 where
    x1: "hydrate_execution D d cb r x = Ret (Inr go, x1)" "errors x1 = errors x" "errors y = errors x1"
      "(if \<not> go then Ret (Inr (?done False), x1) else try_then (prepare_execution d cb r x1) (\<lambda>go x2.
         if \<not> go then Ret (Inr (?done False), x2)
         else try_then (run_execution D d cb r x2) (\<lambda>_ x3. Ret (Inr (?done True), x3)))) = Ret (Inr s, y)"
    by (rule try_exact [OF _ err counting.related_hydrate_execution])
      (auto intro!: counting.related_try counting.related_prepare_execution counting.related_run_execution)
  note h = hydrate_execution_exact [OF x1(1,2)]
  with x1(4) have "try_then (prepare_execution d cb r x1) (\<lambda>go x2. if \<not> go then Ret (Inr (?done False), x2)
      else try_then (run_execution D d cb r x2) (\<lambda>_ x3. Ret (Inr (?done True), x3))) = Ret (Inr s, y)" by simp
  then obtain go2 x2 where
    x2: "prepare_execution d cb r x1 = Ret (Inr go2, x2)" "errors x2 = errors x1" "errors y = errors x2"
      "(if \<not> go2 then Ret (Inr (?done False), x2)
        else try_then (run_execution D d cb r x2) (\<lambda>_ x3. Ret (Inr (?done True), x3))) = Ret (Inr s, y)"
    by (rule try_exact [OF _ x1(3) counting.related_prepare_execution])
      (auto intro!: counting.related_try counting.related_run_execution)
  note p = prepare_execution_exact [OF x2(1,2)]
  with x2(4) obtain u where run3: "run_execution D d cb r x2 = Ret (Inr u, y)" and s: "s = ?done True"
    by (auto simp: try_then_Inr)
  have same: "same_run x x2"
    by (rule frame.trans [OF frame.related_Inr [OF frame.related_hydrate_execution x1(1)]
          frame.related_Inr [OF frame.related_prepare_execution x2(1)]])
  then have b: "ex_bindings x2 = ex_bindings x" by (simp add: same_run_def)
  from run_execution_exact [OF run3 x2(3) _ ends] iso b obtain w4 w5 where
    w: "run_prepared (rc_ops cb) (execution_time r) (ex_world x2) = Ret (BodyOk, w4)" "rc_pending_events cb w4 = Ret (record_output_events r)"
      "commit_callback (rc_ops cb) (execution_time r) w4 = Ret w5"
      "\<forall>p \<in> set (desc_endpoints d). is_data_output p \<longrightarrow> endpoint_reproduced x2 w5 (desc_name d) r p (ex_reproduced y)" by auto
  have outs: "\<forall>p \<in> set (desc_endpoints d). is_data_output p \<longrightarrow> endpoint_reproduced x w5 (desc_name d) r p (ex_reproduced y)"
    using w(4) endpoint_reproduced_frame [OF _ same map_le_refl] by blast
  from h obtain w0 w1 items where i: "rc_clear_replay_inputs cb (ex_world x) = Ret (Inr (), w0)"
    "map fst items = record_inputs r" "\<forall>i \<in> set items. resolved x d i"
    "inject_recorded (ex_bindings x) (desc_name d) items (clear_captures (bound_outputs (ex_bindings x)) w0) = Ret w1"
    "stage_all cb (record_events r) w1 = Ret (ex_world x1)" by blast
  from p obtain ms where m: "prepare_callback (rc_ops cb) (ex_world x1) = Ret (True, ex_world x2)"
    "rc_prepared_messages cb (ex_world x2) = Ret ms"
    "\<forall>i. map logged_header (filter (\<lambda>m. logged_ordinal m = i) ms) = map logged_header (filter (\<lambda>m. logged_ordinal m = i) (record_inputs r))"
    "rc_prepared_events cb (ex_world x2) = Ret (record_events r)" by blast
  show ?thesis
    unfolding execution_reproduced_def
    by (intro conjI exI) (rule s i m w(1-3) outs)+
qed

section \<open>Construction\<close>

lemma position_Some: "position P xs = Some i \<Longrightarrow> i < length xs \<and> P (xs ! i)"
  by (induction xs arbitrary: i) (auto split: if_splits)

lemma adopt_indices_law:
  "adopt_indices ps qs m = (qs, m') \<Longrightarrow> length ps = length qs \<and> dom m \<subseteq> dom m'
     \<and> (\<forall>q \<in> set qs. desc_publisher q \<noteq> None \<longrightarrow> desc_ordinal q \<in> dom m')
     \<and> map endpoint_key ps = map endpoint_key qs"
proof (induction ps qs m rule: adopt_indices.induct)
  case (1 p ps q qs m)
  define p1 m1 where one: "p1 = (if desc_publisher p \<noteq> None \<and> desc_publisher q \<noteq> None then p\<lparr>desc_publisher := desc_publisher q\<rparr> else p)"
    "m1 = (if desc_publisher p \<noteq> None \<and> desc_publisher q \<noteq> None
       then m(desc_ordinal q \<mapsto> (the (desc_publisher p), the (desc_publisher q))) else m)"
  obtain ps' m2 where rest: "adopt_indices ps qs m1 = (ps', m2)" by fastforce
  have step: "(case (desc_publisher p, desc_publisher q) of
      (Some current, Some recorded) \<Rightarrow> (p\<lparr>desc_publisher := Some recorded\<rparr>, m(desc_ordinal q \<mapsto> (current, recorded)))
    | _ \<Rightarrow> (p, m)) = (p1, m1)"
    by (auto simp: one split: option.splits)
  have "adopt_indices (p # ps) (q # qs) m = (p1 # ps', m2)"
    by (subst adopt_indices.simps(1)) (simp only: Let_def prod.case step [unfolded prod.case] rest)
  with "1.prems" have eq: "p1 = q" "ps' = qs" "m2 = m'" by simp_all
  from "1.IH" [OF step [unfolded prod.case, symmetric] refl] rest eq have ih: "length ps = length qs \<and> dom m1 \<subseteq> dom m'
      \<and> (\<forall>q \<in> set qs. desc_publisher q \<noteq> None \<longrightarrow> desc_ordinal q \<in> dom m') \<and> map endpoint_key ps = map endpoint_key qs" by simp
  have "dom m \<subseteq> dom m1" "desc_publisher q \<noteq> None \<longrightarrow> desc_ordinal q \<in> dom m1" "endpoint_key p = endpoint_key q"
    using eq(1) by (auto simp: one endpoint_key_def split: if_splits)
  with ih show ?case by auto
qed auto

definition bindings_cover :: "'w replay_bindings \<Rightarrow> string \<Rightarrow> endpoint_descriptor list \<Rightarrow> bool" where
  "bindings_cover b name ps \<longleftrightarrow> (\<forall>p \<in> set ps. desc_transport p \<noteq> Iox2Event \<longrightarrow> (case desc_direction p of
     Received \<Rightarrow> (\<exists>s. map_of (bound_inputs b) (name, desc_ordinal p) = Some s
       \<and> source_channel s = desc_channel p \<and> source_type s = desc_payload_type p)
   | Published \<Rightarrow> (\<exists>c. map_of (bound_outputs b) (name, desc_ordinal p) = Some c
       \<and> capture_channel c = desc_channel p \<and> capture_type c = desc_payload_type p)))"

lemma check_bindings_Inr: "check_bindings D b name ps acc = Inr acc' \<Longrightarrow> bindings_cover b name ps"
proof (induction ps arbitrary: acc)
  case (Cons p ps)
  obtain ins outs where acc: "acc = (ins, outs)" by (cases acc)
  from Cons.prems acc obtain acc1 where "check_bindings D b name ps acc1 = Inr acc'"
    by (auto simp: Let_def split: if_splits direction.splits option.splits)
  then have "bindings_cover b name ps" by (rule Cons.IH)
  moreover have "bindings_cover b name [p]"
    using Cons.prems acc by (auto simp: bindings_cover_def Let_def split: if_splits direction.splits option.splits)
  ultimately show ?case by (simp add: bindings_cover_def)
qed (simp add: bindings_cover_def)

text \<open>What is known of the callback of a descriptor.\<close>

definition matched ::
  "'w replay_callback scheduled_callback list \<Rightarrow> 'w replay_bindings \<Rightarrow> callback_descriptor \<Rightarrow> nat \<Rightarrow> (nat \<rightharpoonup> u32 \<times> u32) \<Rightarrow> bool" where
  "matched nodes b d i indices \<longleftrightarrow> i < length nodes \<and> cb_name (nodes ! i) = desc_name d \<and> bindings_cover b (desc_name d) (desc_endpoints d)
     \<and> rc_outputs_are_local (cb_callback (nodes ! i))
     \<and> (\<forall>p \<in> set (desc_endpoints d). desc_publisher p \<noteq> None \<longrightarrow> desc_ordinal p \<in> dom indices)
     \<and> (\<exists>actual. rc_recording_endpoints (cb_callback (nodes ! i)) = Some actual
          \<and> set (map endpoint_key actual) = set (map endpoint_key (desc_endpoints d)))"

lemma match_callback_Inr:
  assumes "match_callback D nodes b d acc = Inr (i, indices, acc')"
  shows "matched nodes b d i indices"
proof -
  let ?expected = "sort_key endpoint_order (desc_endpoints d)"
  from assms obtain actual where a: "position (\<lambda>n. cb_name n = desc_name d) nodes = Some i"
    "rc_recording_endpoints (cb_callback (nodes ! i)) = Some actual"
    "adopt_indices (sort_key endpoint_order actual) ?expected Map.empty = (?expected, indices)"
    "check_bindings D b (desc_name d) (desc_endpoints d) acc = Inr acc'" "rc_outputs_are_local (cb_callback (nodes ! i))"
    by (auto simp: match_callback_def Let_def split: option.splits prod.splits if_splits sum.splits)
  note law = adopt_indices_law [OF a(3)]
  then have "set (map endpoint_key (sort_key endpoint_order actual)) = set (map endpoint_key ?expected)" by metis
  then have keys: "set (map endpoint_key actual) = set (map endpoint_key (desc_endpoints d))"
    unfolding list.set_map set_sort .
  have indices: "\<forall>p \<in> set (desc_endpoints d). desc_publisher p \<noteq> None \<longrightarrow> desc_ordinal p \<in> dom indices"
    using law unfolding set_sort by blast
  show ?thesis unfolding matched_def
    using a(2,5) keys indices position_Some [OF a(1)] check_bindings_Inr [OF a(4)] by blast
qed

lemma match_callbacks_Inr:
  "match_callbacks D nodes b ds acc = Inr (mapping, publishers, acc') \<Longrightarrow> length mapping = length ds \<and> length publishers = length ds
     \<and> (\<forall>k < length ds. matched nodes b (ds ! k) (mapping ! k) (publishers ! k))"
proof (induction ds arbitrary: acc mapping publishers)
  case (Cons d ds)
  from Cons.prems obtain i indices acc1 mapping' publishers' where
    one: "match_callback D nodes b d acc = Inr (i, indices, acc1)"
      "match_callbacks D nodes b ds acc1 = Inr (mapping', publishers', acc')" "mapping = i # mapping'" "publishers = indices # publishers'"
    by (auto split: sum.splits prod.splits)
  from match_callback_Inr [OF one(1)] Cons.IH [OF one(2)] one(3,4) show ?case by (auto simp: less_Suc_eq_0_disj nth_Cons')
qed simp

text \<open>The invariant of an executor on a log and its bindings.\<close>

definition ex_inv ::
  "'w replay_callback built_graph \<Rightarrow> replay_log \<Rightarrow> 'w replay_bindings \<Rightarrow> 'w exact_replay \<Rightarrow> bool" where
  "ex_inv g l b x \<longleftrightarrow> ex_log x = l \<and> ex_bindings x = b \<and> ex_callbacks x = map cb_callback (graph_callbacks g)
     \<and> length (ex_mapping x) = length (desc_callbacks (rl_descriptor l)) \<and> length (ex_publishers x) = length (desc_callbacks (rl_descriptor l))
     \<and> (\<forall>k < length (desc_callbacks (rl_descriptor l)).
          matched (graph_callbacks g) b (desc_callbacks (rl_descriptor l) ! k) (ex_mapping x ! k) (ex_publishers x ! k))
     \<and> report_inv (ex_report x) \<and> ex_cursor x \<le> length (rl_executions l)
     \<and> consumed_executions (ex_report x) = ex_cursor x \<and> total_executions (ex_report x) = length (rl_executions l)"

lemma with_config_ex_inv:
  assumes "replay_with_config D g l b c w = Ret (Inr x)"
  shows "ex_inv g l b x \<and> errors x = 0 \<and> \<not> ex_failed x \<and> ex_cursor x = 0 \<and> \<not> ex_stop x \<and> ex_config x = c"
proof -
  from assms obtain mapping publishers ins outs where
    m: "match_callbacks D (graph_callbacks g) b (desc_callbacks (rl_descriptor l)) ({}, {}) = Inr (mapping, publishers, ins, outs)"
    by (auto simp: replay_with_config_def split: if_splits sum.splits)
  from assms m obtain q where q: "load_caches b (rl_payloads l) w = Ret q"
    by (auto simp: replay_with_config_def split: if_splits)
  obtain r w1 where q': "q = (r, w1)" by (cases q)
  from assms m q q' have "r = Inr ()" by (cases r) (auto simp: replay_with_config_def split: if_splits)
  with assms m q q' have x: "ex_log x = l" "ex_bindings x = b" "ex_callbacks x = map cb_callback (graph_callbacks g)"
    "ex_mapping x = mapping" "ex_publishers x = publishers"
    "ex_report x = set_intern_tables (rl_tables l) (report_new (length (rl_executions l)) (config_max_details c))"
    "ex_cursor x = 0" "\<not> ex_failed x" "\<not> ex_stop x" "ex_config x = c"
    by (auto simp: replay_with_config_def split: if_splits)
  have "report_inv (ex_report x)" unfolding x by (rule report_inv_new)
  with match_callbacks_Inr [OF m] x show ?thesis
    by (simp add: ex_inv_def) (simp add: set_intern_tables_def report_new_def)
qed

end
