(* ===== verification/Exact_Session.thy ===== *)
theory Exact_Session
  imports Exact_Steps
begin

text \<open>
  Sessions of exact replay: the states an executor goes through from its construction over steps and stop
  requests, what its report means, and that a run that reports an exact replay has reproduced every
  recorded execution in the recorded order.
\<close>

section \<open>Steps\<close>

definition begin_step :: "'w exact_replay \<Rightarrow> 'w exact_replay" where
  "begin_step x = update_report mark_consumed (x\<lparr>ex_detail_endpoint := None, ex_detail_header := None, ex_cursor := ex_cursor x + 1\<rparr>)"

definition current_record :: "'w exact_replay \<Rightarrow> execution_record" where
  "current_record x = rl_executions (ex_log x) ! ex_cursor x"

definition fail_step :: "debug_texts \<Rightarrow> exact_replay_step_error \<Rightarrow> 'w exact_replay \<Rightarrow> 'w exact_replay" where
  "fail_step D e x = (let y = x\<lparr>ex_failed := True\<rparr> in case e of
       ReplayGap _ _ \<Rightarrow> y
     | Divergence _ \<Rightarrow> y
     | _ \<Rightarrow> replay_detail_op DetailError None (''exact replay: '' @ debug_step_error D e) (update_report record_error y))"

lemma replay_step_cases:
  assumes "replay_step_op D x = Ret (r, y)"
  obtains (poisoned) "ex_failed x" "r = Inl ReplayPoisoned" "y = x"
  | (idle) "\<not> ex_failed x" "ex_cursor x = length (rl_executions (ex_log x)) \<or> ex_stop x" "r = Inr None" "y = x"
  | (ran) s where "\<not> ex_failed x" "ex_cursor x \<noteq> length (rl_executions (ex_log x))" "\<not> ex_stop x"
      "replay_execute D (current_record x) (begin_step x) = Ret (Inr s, y)" "r = Inr (Some s)"
  | (failed) f x2 e where "\<not> ex_failed x" "ex_cursor x \<noteq> length (rl_executions (ex_log x))" "\<not> ex_stop x"
      "replay_execute D (current_record x) (begin_step x) = Ret (Inl f, x2)"
      "e = (case f of StepFailed e \<Rightarrow> e | Unwinding \<Rightarrow> CallbackFailed (desc_name
         (desc_callbacks (rl_descriptor (ex_log x)) ! intern_index (record_callback (current_record x)))) ''execution or hydration panicked'')"
      "r = Inl e" "y = fail_step D e x2"
proof (cases "ex_failed x \<or> ex_cursor x = length (rl_executions (ex_log x)) \<or> ex_stop x")
  case True
  show ?thesis
  proof (cases "ex_failed x")
    case True
    with assms show ?thesis by (intro that(1)) (simp_all add: replay_step_op_def)
  next
    case False
    with True assms show ?thesis by (intro that(2)) (auto simp: replay_step_op_def)
  qed
next
  case False
  let ?m = "replay_execute D (current_record x) (begin_step x)"
  from False have step: "replay_step_op D x = and_then ?m (\<lambda>(res, x2). Ret (case res of
            Inr s \<Rightarrow> (Inr (Some s), x2)
          | Inl f \<Rightarrow> let e = (case f of StepFailed e \<Rightarrow> e | Unwinding \<Rightarrow> CallbackFailed (desc_name
              (desc_callbacks (rl_descriptor (ex_log x)) ! intern_index (record_callback (current_record x)))) ''execution or hydration panicked'')
              in (Inl e, fail_step D e x2)))"
    unfolding replay_step_op_def Let_def current_record_def begin_step_def fail_step_def by simp
  from step assms obtain q x2 where q: "?m = Ret (q, x2)" by (cases ?m) auto
  show ?thesis
  proof (cases q)
    case (Inl f)
    with assms False q step show ?thesis by (intro that(4) [of f x2, OF _ _ _ _ refl]) (simp_all add: Let_def)
  next
    case (Inr s)
    with assms False q step show ?thesis by (intro that(3) [of s]) simp_all
  qed
qed

text \<open>What a session keeps, with the errors it has counted.\<close>

definition session_inv ::
  "'w replay_callback built_graph \<Rightarrow> replay_log \<Rightarrow> 'w replay_bindings \<Rightarrow> exact_replay_config \<Rightarrow> 'w exact_replay \<Rightarrow> bool" where
  "session_inv g l b c x \<longleftrightarrow> ex_inv g l b x \<and> ex_config x = c \<and> (ex_failed x \<longrightarrow> 0 < errors x)
     \<and> (divergence_policy c = Strict \<and> \<not> ex_failed x \<longrightarrow> errors x = 0)"

lemma begin_step_fields [simp]:
  "ex_log (begin_step x) = ex_log x" "ex_bindings (begin_step x) = ex_bindings x" "ex_config (begin_step x) = ex_config x"
  "ex_callbacks (begin_step x) = ex_callbacks x" "ex_mapping (begin_step x) = ex_mapping x" "ex_publishers (begin_step x) = ex_publishers x"
  "ex_metadata (begin_step x) = ex_metadata x" "ex_cursor (begin_step x) = ex_cursor x + 1" "ex_failed (begin_step x) = ex_failed x"
  "ex_stop (begin_step x) = ex_stop x" "ex_report (begin_step x) = mark_consumed (ex_report x)" "errors (begin_step x) = errors x"
  "ex_world (begin_step x) = ex_world x" "ex_reproduced (begin_step x) = ex_reproduced x"
  by (simp_all add: begin_step_def update_report_def)

lemma is_strict_begin [simp]: "is_strict (begin_step x) = is_strict x"
  by (simp add: is_strict_def)

lemma begin_step_inv:
  assumes "ex_inv g l b x" and "ex_cursor x \<noteq> length (rl_executions l)"
  shows "ex_inv g l b (begin_step x)"
  using assms
  by (auto simp: ex_inv_def report_inv_def report_ops_bounds report_ops_truthful)

lemma same_run_inv:
  "ex_inv g l b x \<Longrightarrow> same_run x y \<Longrightarrow> (report_inv (ex_report x) \<longrightarrow> report_inv (ex_report y)) \<Longrightarrow> ex_inv g l b y"
  by (simp add: ex_inv_def same_run_def)

lemma fail_step_frame:
  "same_run (x\<lparr>ex_failed := True\<rparr>) (fail_step D e x)" "report_inv (ex_report x) \<longrightarrow> report_inv (ex_report (fail_step D e x))"
  "errors (fail_step D e x) = (if divergence (StepFailed e) then errors x else errors x + 1)"
  by (auto simp: fail_step_def Let_def same_run_def report_inv_def report_ops_bounds report_ops_truthful divergence_def
      replay_detail_op_def update_report_def split: exact_replay_step_error.splits)

lemma fail_step_inv: "ex_inv g l b x \<Longrightarrow> ex_inv g l b (fail_step D e x)"
  by (rule same_run_inv [of _ _ _ "x\<lparr>ex_failed := True\<rparr>"]) (simp_all add: fail_step_frame, simp add: ex_inv_def)

lemma execute_inv:
  assumes "ex_inv g l b x" and "replay_execute D r x = Ret (q, y)"
  shows "ex_inv g l b y" "same_run x y"
proof -
  show same: "same_run x y"
    using frame.related_execute [of x D r] assms(2) by (cases q) simp_all
  show "ex_inv g l b y"
    using honest.related_execute [of x D r] assms(2) same_run_inv [OF assms(1) same]
    by (cases q) simp_all
qed

lemma step_inv:
  assumes inv: "session_inv g l b c x" and step: "replay_step_op D x = Ret (r, y)"
  shows "session_inv g l b c y"
  using step
proof (cases rule: replay_step_cases)
  case (ran s)
  from inv ran(2) have "ex_inv g l b (begin_step x)" by (intro begin_step_inv) (auto simp: session_inv_def ex_inv_def)
  note law = execute_inv [OF this ran(4)]
  from law(2) inv ran(1) have "ex_config y = c" "\<not> ex_failed y" by (simp_all add: same_run_def session_inv_def)
  moreover have "is_strict x \<longrightarrow> errors y = errors x"
    using strict.related_Inr [OF strict.related_execute ran(4)] by simp
  ultimately show ?thesis using law(1) inv ran(1) by (simp add: session_inv_def is_strict_def)
next
  case (failed f x2 e)
  from inv failed(2) have "ex_inv g l b (begin_step x)" by (intro begin_step_inv) (auto simp: session_inv_def ex_inv_def)
  note law = execute_inv [OF this failed(4)]
  have "divergence (StepFailed e) \<longrightarrow> errors x < errors x2"
    using strict.related_Inl [OF strict.related_execute failed(4)] failed(5)
    by (auto simp: callback_failure_def divergence_def split: replay_failure.splits exact_replay_step_error.splits)
  then have "0 < errors y" unfolding failed(7) fail_step_frame by auto
  moreover have "ex_failed y" "ex_config y = c"
    using fail_step_frame(1) [of x2 D e] law(2) inv failed(7) by (simp_all add: same_run_def session_inv_def)
  ultimately show ?thesis using fail_step_inv [OF law(1)] failed(7) by (simp add: session_inv_def)
qed (use inv in simp_all)

lemma stop_inv: "session_inv g l b c x \<Longrightarrow> session_inv g l b c (request_replay_stop x)"
  by (simp add: session_inv_def ex_inv_def request_replay_stop_def)

inductive replay_session ::
  "debug_texts \<Rightarrow> 'w replay_callback built_graph \<Rightarrow> replay_log \<Rightarrow> 'w replay_bindings \<Rightarrow> exact_replay_config \<Rightarrow> 'w replay_world
     \<Rightarrow> 'w exact_replay \<Rightarrow> bool"
  for D g l b c w where
  built: "replay_with_config D g l b c w = Ret (Inr x) \<Longrightarrow> replay_session D g l b c w x"
| stepped: "replay_session D g l b c w x \<Longrightarrow> replay_step_op D x = Ret (r, y) \<Longrightarrow> replay_session D g l b c w y"
| stopped: "replay_session D g l b c w x \<Longrightarrow> replay_session D g l b c w (request_replay_stop x)"

lemma with_config_session_inv: "replay_with_config D g l b c w = Ret (Inr x) \<Longrightarrow> session_inv g l b c x"
  using with_config_ex_inv [of D g l b c w x] by (simp add: session_inv_def)

lemma replay_session_inv: "replay_session D g l b c w x \<Longrightarrow> session_inv g l b c x"
  by (induction rule: replay_session.induct) (auto intro: with_config_session_inv step_inv stop_inv)

section \<open>Runs\<close>

text \<open>The states of a run before each of its executions, and the state at its end.\<close>

fun run_trace :: "debug_texts \<Rightarrow> 'w exact_replay \<Rightarrow> 'w exact_replay list \<Rightarrow> 'w exact_replay \<Rightarrow> bool" where
  "run_trace D x [] y \<longleftrightarrow> y = x"
| "run_trace D x (z # zs) y \<longleftrightarrow> z = x \<and> (\<exists>s x1. replay_step_op D x = Ret (Inr (Some s), x1) \<and> run_trace D x1 zs y)"

lemma step_Some:
  assumes "replay_step_op D x = Ret (Inr (Some s), y)"
  shows "\<not> ex_failed x" "\<not> ex_stop x" "ex_cursor x \<noteq> length (rl_executions (ex_log x))"
    "replay_execute D (current_record x) (begin_step x) = Ret (Inr s, y)" "same_run (begin_step x) y"
  using assms by (cases rule: replay_step_cases; simp add: frame.related_Inr [OF frame.related_execute])+

lemma step_None:
  assumes "replay_step_op D x = Ret (Inr None, y)"
  shows "y = x" "\<not> ex_failed x" "ex_cursor x = length (rl_executions (ex_log x)) \<or> ex_stop x"
  using assms by (cases rule: replay_step_cases; simp)+

lemma step_Inl_failed:
  assumes "replay_step_op D x = Ret (Inl e, y)"
  shows "ex_failed y" "if ex_failed x then e = ReplayPoisoned \<and> y = x
     else callback_failure (StepFailed e) \<or> is_strict x \<and> divergence (StepFailed e)"
proof -
  show "ex_failed y" using assms
    by (cases rule: replay_step_cases) (simp_all add: fail_step_frame(1) [unfolded same_run_def])
  from assms show "if ex_failed x then e = ReplayPoisoned \<and> y = x
     else callback_failure (StepFailed e) \<or> is_strict x \<and> divergence (StepFailed e)"
  proof (cases rule: replay_step_cases)
    case (failed f x2 e')
    with strict.related_Inl [OF strict.related_execute failed(4)] show ?thesis
      by (auto split: replay_failure.splits)
  qed simp_all
qed

lemma loop_trace:
  "replay_run_loop D stops fuel x = Ret (Some (Inr (), y)) \<Longrightarrow> \<exists>zs y0. run_trace D x zs y0 \<and> ex_report y = ex_report y0
     \<and> (ex_cursor y = length (rl_executions (ex_log y)) \<or> ex_stop y) \<and> \<not> ex_failed y"
proof (induction fuel arbitrary: x)
  case (Suc fuel)
  let ?x = "if stops (ex_cursor x) then request_replay_stop x else x"
  from Suc.prems obtain r x1 where step: "replay_step_op D ?x = Ret (r, x1)"
    by (cases "replay_step_op D ?x") auto
  with Suc.prems obtain o' where r: "r = Inr o'" by (cases r) auto
  show ?case
  proof (cases o')
    case None
    with step r have none: "replay_step_op D ?x = Ret (Inr None, x1)" by simp
    with Suc.prems step_None [OF none] have "y = ?x" by simp
    with step_None [OF none] have "run_trace D x [] x" "ex_report y = ex_report x" "\<not> ex_failed y"
      "ex_cursor y = length (rl_executions (ex_log y)) \<or> ex_stop y" by (auto simp: request_replay_stop_def)
    then show ?thesis by blast
  next
    case (Some s)
    with step r have some: "replay_step_op D ?x = Ret (Inr (Some s), x1)" by simp
    from step_Some(2) [OF some] have "?x = x" by (auto simp: request_replay_stop_def split: if_splits)
    with some have one: "replay_step_op D x = Ret (Inr (Some s), x1)" by simp
    from Suc.prems some have "replay_run_loop D stops fuel x1 = Ret (Some (Inr (), y))" by simp
    from Suc.IH [OF this] obtain zs y0 where rest: "run_trace D x1 zs y0" "ex_report y = ex_report y0"
      "ex_cursor y = length (rl_executions (ex_log y)) \<or> ex_stop y" "\<not> ex_failed y" by blast
    from one rest(1) have "run_trace D x (x # zs) y0" by auto
    with rest show ?thesis by blast
  qed
qed simp

lemma loop_returns:
  "ex_cursor x \<le> length (rl_executions (ex_log x)) \<Longrightarrow> length (rl_executions (ex_log x)) < ex_cursor x + fuel
     \<Longrightarrow> replay_run_loop D stops fuel x \<noteq> Ret None"
proof (induction fuel arbitrary: x)
  case (Suc fuel)
  let ?x = "if stops (ex_cursor x) then request_replay_stop x else x"
  have same: "ex_cursor ?x = ex_cursor x" "ex_log ?x = ex_log x" by (simp_all add: request_replay_stop_def)
  have "replay_run_loop D stops fuel x1 \<noteq> Ret None" if some: "replay_step_op D ?x = Ret (Inr (Some s), x1)" for s x1
    using step_Some(3,5) [OF some] Suc.prems same by (intro Suc.IH) (auto simp: same_run_def)
  then show ?case by (cases "replay_step_op D ?x") (auto split: sum.splits option.splits)
qed simp

lemma loop_session:
  "replay_session D g l b c w x \<Longrightarrow> replay_run_loop D stops fuel x = Ret (Some (r, y)) \<Longrightarrow> replay_session D g l b c w y"
proof (induction fuel arbitrary: x)
  case (Suc fuel)
  let ?x = "if stops (ex_cursor x) then request_replay_stop x else x"
  from Suc.prems(2) obtain q x1 where step: "replay_step_op D ?x = Ret (q, x1)"
    by (cases "replay_step_op D ?x") auto
  from Suc.prems(1) have "replay_session D g l b c w ?x" by (simp add: replay_session.stopped)
  from replay_session.stepped [OF this step] have "replay_session D g l b c w x1" .
  with Suc.IH [of x1] Suc.prems(2) step show ?case by (auto split: sum.splits option.splits)
qed simp

lemma loop_Inl:
  "replay_run_loop D stops fuel x = Ret (Some (Inl e, y)) \<Longrightarrow> \<not> ex_failed x \<Longrightarrow> ex_failed y \<and> e \<noteq> ReplayPoisoned"
proof (induction fuel arbitrary: x)
  case (Suc fuel)
  let ?x = "if stops (ex_cursor x) then request_replay_stop x else x"
  from Suc.prems(1) obtain q x1 where step: "replay_step_op D ?x = Ret (q, x1)"
    by (cases "replay_step_op D ?x") auto
  show ?case
  proof (cases q)
    case (Inl e')
    with step Suc.prems step_Inl_failed [of D ?x e' x1] show ?thesis
      by (auto simp: request_replay_stop_def callback_failure_def divergence_def split: if_splits)
  next
    case (Inr o')
    then show ?thesis
    proof (cases o')
      case (Some s)
      with step Inr have "\<not> ex_failed x1" using step_Some(1,5) [of D ?x s x1] by (simp add: same_run_def)
      with Suc.IH [of x1] Suc.prems(1) step Inr Some show ?thesis by simp
    qed (use Suc.prems(1) step Inr in simp)
  qed
qed simp

text \<open>
  A step reproduced: the callback that the recording names ran at the recorded time on the recorded
  inputs and published what was recorded.
\<close>

definition step_reproduced :: "'w replay_callback built_graph \<Rightarrow> 'w exact_replay \<Rightarrow> 'w exact_replay \<Rightarrow> bool" where
  "step_reproduced g x y \<longleftrightarrow> (let r = current_record x; d = desc_callbacks (rl_descriptor (ex_log x)) ! intern_index (record_callback r) in
     \<exists>i < length (graph_callbacks g). cb_name (graph_callbacks g ! i) = desc_name d
       \<and> execution_reproduced (begin_step x) d (cb_callback (graph_callbacks g ! i)) r y)"

lemma current_record_ok:
  assumes "replay_log_ok (ex_log x)" and "ex_cursor x < length (rl_executions (ex_log x))"
  shows "replayable (rl_descriptor (ex_log x)) (current_record x)"
    "distinct (map endpoint_key (desc_endpoints (desc_callbacks (rl_descriptor (ex_log x)) ! intern_index (record_callback (current_record x)))))"
proof -
  show r: "replayable (rl_descriptor (ex_log x)) (current_record x)"
    using assms by (simp add: replay_log_ok_def current_record_def)
  then have "desc_callbacks (rl_descriptor (ex_log x)) ! intern_index (record_callback (current_record x)) \<in> set (desc_callbacks (rl_descriptor (ex_log x)))"
    by (simp add: replayable_def)
  with assms(1) show "distinct (map endpoint_key (desc_endpoints (desc_callbacks (rl_descriptor (ex_log x)) ! intern_index (record_callback (current_record x)))))"
    unfolding replay_log_ok_def fully_recorded_def by blast
qed

lemma step_exact:
  assumes inv: "session_inv g l b c x" and log: "replay_log_ok l" and iso: "isolated_captures b"
    and step: "replay_step_op D x = Ret (Inr (Some s), y)" and err: "errors y = errors x"
  shows "step_reproduced g x y \<and> step_ran s"
proof -
  from inv have x: "ex_log x = l" "ex_bindings x = b" "ex_callbacks x = map cb_callback (graph_callbacks g)" "ex_cursor x \<le> length (rl_executions l)"
    by (simp_all add: session_inv_def ex_inv_def)
  let ?k = "intern_index (record_callback (current_record x))"
  let ?d = "desc_callbacks (rl_descriptor l) ! ?k" and ?i = "ex_mapping x ! ?k"
  note run = step_Some [OF step]
  have ok: "replay_log_ok (ex_log x)" "ex_cursor x < length (rl_executions (ex_log x))" using x run(3) log by simp_all
  note rec = current_record_ok [OF ok, unfolded x(1)]
  from rec(1) inv have m: "matched (graph_callbacks g) b ?d ?i (ex_publishers x ! ?k)"
    by (simp add: session_inv_def ex_inv_def replayable_def)
  then have i: "?i < length (graph_callbacks g)" "cb_name (graph_callbacks g ! ?i) = desc_name ?d" by (simp_all add: matched_def)
  have "errors y = errors (begin_step x)" using err by simp
  from execute_exact [OF run(4) this] iso rec(2) x i
  have "s = \<lparr>step_callback = desc_name ?d, step_time = execution_time (current_record x), step_ran = True\<rparr>"
    "execution_reproduced (begin_step x) ?d (cb_callback (graph_callbacks g ! ?i)) (current_record x) y" by simp_all
  with i x show ?thesis by (auto simp: step_reproduced_def Let_def)
qed

lemma trace_errors: "run_trace D x zs y \<Longrightarrow> errors x \<le> errors y"
proof (induction zs arbitrary: x)
  case (Cons z zs)
  then obtain s x1 where one: "replay_step_op D x = Ret (Inr (Some s), x1)" "run_trace D x1 zs y" by auto
  from counting.related_Inr [OF counting.related_execute step_Some(4) [OF one(1)]] Cons.IH [OF one(2)] show ?case by simp
qed simp

lemma trace_exact:
  assumes "session_inv g l b c x" and "replay_log_ok l" and "isolated_captures b" and "run_trace D x zs y" and "errors y = errors x"
  shows "ex_cursor y = ex_cursor x + length zs
    \<and> (\<forall>k < length zs. ex_cursor (zs ! k) = ex_cursor x + k \<and> ex_log (zs ! k) = l \<and> step_reproduced g (zs ! k) ((zs @ [y]) ! Suc k))"
  using assms(1,4,5)
proof (induction zs arbitrary: x)
  case (Cons z zs)
  then obtain s x1 where one: "z = x" "replay_step_op D x = Ret (Inr (Some s), x1)" "run_trace D x1 zs y" by auto
  have "errors x \<le> errors x1"
    using counting.related_Inr [OF counting.related_execute step_Some(4) [OF one(2)]] by simp
  with trace_errors [OF one(3)] Cons.prems(3) have err: "errors x1 = errors x" "errors y = errors x1" by simp_all
  have rep: "step_reproduced g x x1" using step_exact [OF Cons.prems(1) assms(2,3) one(2) err(1)] ..
  have cur: "ex_cursor x1 = ex_cursor x + 1" using step_Some(5) [OF one(2)] by (simp add: same_run_def)
  note ih = Cons.IH [OF step_inv [OF Cons.prems(1) one(2)] one(3) err(2)]
  have head: "(zs @ [y]) ! 0 = x1" using one(3) by (cases zs) auto
  from Cons.prems(1) have "ex_log x = l" by (simp add: session_inv_def ex_inv_def)
  with ih cur rep head one(1) show ?case by (auto simp: nth_Cons' less_Suc_eq_0_disj)
qed simp

section \<open>What a replay shows\<close>

lemma run_result:
  assumes "replay_run D stops x = Ret (Some (r, y))"
  obtains q n where "replay_run_loop D stops n x = Ret (Some (q, y))"
    "r = (case q of Inl e \<Rightarrow> Inl e | Inr _ \<Rightarrow> Inr (ex_report y))"
proof -
  define n where "n = length (rl_executions (ex_log x)) - ex_cursor x + 1"
  from assms obtain q where "replay_run_loop D stops n x = Ret (Some (q, y))" "r = (case q of Inl e \<Rightarrow> Inl e | Inr _ \<Rightarrow> Inr (ex_report y))"
    unfolding replay_run_def n_def [symmetric] by (cases "replay_run_loop D stops n x") auto
  then show ?thesis by (rule that)
qed

lemma run_returns:
  assumes "session_inv g l b c x" and "replay_run D stops x = Ret res"
  shows "res \<noteq> None"
proof -
  let ?m = "replay_run_loop D stops (length (rl_executions (ex_log x)) - ex_cursor x + 1) x"
  from assms(1) have "?m \<noteq> Ret None" by (intro loop_returns) (auto simp: session_inv_def ex_inv_def)
  with assms(2) show ?thesis by (cases ?m) (auto simp: replay_run_def)
qed

lemma session_exact_iff:
  "session_inv g l b c x \<Longrightarrow> report_is_exact (ex_report x) \<longleftrightarrow> ex_cursor x = length (rl_executions l) \<and> errors x = 0"
  by (auto simp: session_inv_def ex_inv_def report_inv_def report_is_exact_iff)

text \<open>
  C6: a run of exact replay that ends with an exact report has reproduced the whole recording. The run went
  through one step per recorded execution, in the recorded order; in each, the graph's callback of the recorded name ran at
  the recorded time on the recorded inputs, each with its recorded payload or, for a channel that was not logged, with the
  payload that an earlier step of the run reproduced, and captured on every output exactly the recorded publications.
\<close>

theorem exact_run_reproduces:
  assumes log: "replay_log_ok l" and iso: "isolated_captures b" and built: "replay_with_config D g l b c w = Ret (Inr x)"
    and run: "replay_run D stops x = Ret (Some (Inr rep, y))" and exact: "report_is_exact rep"
  shows "\<exists>zs y0. run_trace D x zs y0 \<and> ex_report y0 = rep \<and> length zs = length (rl_executions l)
    \<and> (\<forall>k < length zs. current_record (zs ! k) = rl_executions l ! k \<and> step_reproduced g (zs ! k) ((zs @ [y0]) ! Suc k))"
proof -
  note start = with_config_session_inv [OF built] with_config_ex_inv [OF built]
  obtain n where loop: "replay_run_loop D stops n x = Ret (Some (Inr (), y))" and rep: "rep = ex_report y"
    using run by (rule run_result) (auto split: sum.splits)
  have "session_inv g l b c y" by (rule replay_session_inv [OF loop_session [OF replay_session.built [OF built] loop]])
  then have y: "ex_cursor y = length (rl_executions l)" "errors y = 0" using exact rep by (simp_all add: session_exact_iff)
  from loop_trace [OF loop] obtain zs y0 where zs: "run_trace D x zs y0" "ex_report y = ex_report y0" by blast
  with y start(2) have "errors y0 = errors x" by simp
  note law = trace_exact [OF start(1) log iso zs(1) this]
  have "session_inv g l b c y0 \<and> ex_report y = ex_report y0 \<longrightarrow> ex_cursor y0 = ex_cursor y" if "session_inv g l b c y"
    using that by (auto simp: session_inv_def ex_inv_def)
  moreover have "run_trace D u us v \<Longrightarrow> session_inv g l b c u \<Longrightarrow> session_inv g l b c v" for u us v
    by (induction us arbitrary: u) (auto intro: step_inv)
  ultimately have "length zs = length (rl_executions l)"
    using law start zs y \<open>session_inv g l b c y\<close> by fastforce
  with law zs rep start(2) show ?thesis by (intro exI [of _ zs] exI [of _ y0]) (auto simp: current_record_def)
qed

text \<open>
  C23: strict replay decides. A run from the start of which no stop is requested always returns (when the calls it makes
  do); either with a report, which is then exact, or with an error that is not poisoning, and then the report is not
  exact and every later step returns the poisoning error and changes nothing.
\<close>

theorem strict_run_decides:
  assumes built: "replay_with_config D g l b c w = Ret (Inr x)" and strict: "divergence_policy c = Strict"
    and run: "replay_run D (\<lambda>_. False) x = Ret res"
  shows "\<exists>r y. res = Some (r, y) \<and> (case r of
      Inr rep \<Rightarrow> rep = ex_report y \<and> report_is_exact rep
    | Inl e \<Rightarrow> e \<noteq> ReplayPoisoned \<and> \<not> report_is_exact (ex_report y) \<and> replay_step_op D y = Ret (Inl ReplayPoisoned, y))"
proof -
  note start = with_config_session_inv [OF built] with_config_ex_inv [OF built]
  from run_returns [OF start(1) run] obtain r y where res: "res = Some (r, y)" by auto
  obtain q n where loop: "replay_run_loop D (\<lambda>_. False) n x = Ret (Some (q, y))"
    and r: "r = (case q of Inl e \<Rightarrow> Inl e | Inr _ \<Rightarrow> Inr (ex_report y))"
    using run unfolding res by (rule run_result)
  have inv: "session_inv g l b c y" by (rule replay_session_inv [OF loop_session [OF replay_session.built [OF built] loop]])
  have stop: "ex_stop u \<longleftrightarrow> ex_stop v" if "replay_run_loop D (\<lambda>_. False) n u = Ret (Some (Inr (), v))" for n u v
    using that
  proof (induction n arbitrary: u)
    case (Suc n)
    then obtain o' u1 where one: "replay_step_op D u = Ret (Inr o', u1)" by (cases "replay_step_op D u") (auto split: sum.splits)
    with Suc show ?case
      by (cases o') (auto dest!: step_None(1) step_Some(5) simp: same_run_def)
  qed simp
  show ?thesis
  proof (cases q)
    case (Inl e)
    with loop_Inl [of D _ _ x e y] loop start(2) have "ex_failed y" "e \<noteq> ReplayPoisoned" by simp_all
    with inv have "\<not> report_is_exact (ex_report y)" by (auto simp: session_exact_iff session_inv_def)
    with \<open>ex_failed y\<close> \<open>e \<noteq> ReplayPoisoned\<close> res r Inl show ?thesis by (auto simp: replay_step_op_def)
  next
    case (Inr u)
    from loop_trace [of D _ _ x y] loop Inr have "ex_cursor y = length (rl_executions (ex_log y)) \<or> ex_stop y" "\<not> ex_failed y" by auto
    moreover have "\<not> ex_stop y" using stop [of _ x y] loop Inr start(2) by simp
    ultimately have "report_is_exact (ex_report y)"
      using inv strict by (auto simp: session_exact_iff) (auto simp: session_inv_def ex_inv_def)
    with res r Inr show ?thesis by simp
  qed
qed

text \<open>
  C24: in every state of a session the report is honest: it counts the executions taken, it is exact just when all
  were taken and no error was counted, a failed session is never exact, and in strict replay a session without an error is one
  that has not failed; details and their reasons stay within their bounds.
\<close>

theorem session_report_honest:
  assumes "replay_session D g l b c w x"
  shows "consumed_executions (ex_report x) = ex_cursor x \<and> total_executions (ex_report x) = length (rl_executions l)
    \<and> ex_cursor x \<le> length (rl_executions l) \<and> report_bounds (ex_report x)
    \<and> (report_is_exact (ex_report x) \<longleftrightarrow> ex_cursor x = length (rl_executions l) \<and> report_errors (ex_report x) = 0)
    \<and> (ex_failed x \<longrightarrow> \<not> report_is_exact (ex_report x))
    \<and> (divergence_policy c = Strict \<longrightarrow> (report_errors (ex_report x) = 0 \<longleftrightarrow> \<not> ex_failed x))"
proof -
  have inv: "session_inv g l b c x" by (rule replay_session_inv [OF assms])
  then have "ex_failed x \<longrightarrow> 0 < errors x" "divergence_policy c = Strict \<and> \<not> ex_failed x \<longrightarrow> errors x = 0"
    "ex_inv g l b x" by (simp_all add: session_inv_def)
  with session_exact_iff [OF inv] show ?thesis by (auto simp: ex_inv_def report_inv_def)
qed

text \<open>
  C25: the first error of a session is a callback's failure, or, in strict replay only, a gap or a divergence; best-effort
  replay never stops for a gap or a divergence. After it the session is poisoned.
\<close>

theorem first_failure_poisons:
  assumes "replay_session D g l b c w x" and "replay_step_op D x = Ret (Inl e, y)" and "\<not> ex_failed x"
  shows "((\<exists>name reason. e = CallbackFailed name reason)
      \<or> divergence_policy c = Strict \<and> ((\<exists>channel reason. e = ReplayGap channel reason) \<or> (\<exists>reason. e = Divergence reason)))
    \<and> 0 < report_errors (ex_report y) \<and> replay_step_op D y = Ret (Inl ReplayPoisoned, y)"
proof -
  note failed = step_Inl_failed [OF assms(2)]
  have inv: "session_inv g l b c x" "session_inv g l b c y"
    using replay_session_inv assms(1) replay_session.stepped [OF assms(1,2)] by blast+
  with failed(1) have "0 < errors y" "replay_step_op D y = Ret (Inl ReplayPoisoned, y)"
    by (simp_all add: session_inv_def replay_step_op_def)
  moreover have "is_strict x \<longleftrightarrow> divergence_policy c = Strict" using inv(1) by (simp add: session_inv_def is_strict_def)
  ultimately show ?thesis using failed(2) assms(3)
    by (auto simp: callback_failure_def divergence_def split: exact_replay_step_error.splits)
qed

text \<open>The recording of \<open>Replay_Log\<close> replayed by a callback that copies its input, under another publisher index.\<close>

type_synonym copy_world = "(message_header \<times> byte list) list replay_world"

definition copy_source :: "(message_header \<times> byte list) list replay_source" where
  "copy_source = \<lparr>source_channel = ''imu'', source_type = ''u8'',
     source_inject = (\<lambda>h bytes w. Ret (Inr (), w\<lparr>replay_rest := [(h, bytes)]\<rparr>))\<rparr>"

definition copy_capture :: output_capture where
  "copy_capture = \<lparr>capture_channel = ''out'', capture_type = ''u8'', capture_index = 0\<rparr>"

definition copy_bindings :: "(message_header \<times> byte list) list replay_bindings" where
  "copy_bindings = \<lparr>bound_inputs = [((''copy'', 0), copy_source)], bound_outputs = [((''copy'', 0), copy_capture)], bound_caches = []\<rparr>"

definition copy_callback :: "byte list \<Rightarrow> (message_header \<times> byte list) list replay_callback" where
  "copy_callback tail_bytes = \<lparr>rc_ops = \<lparr>update_inputs = Ret, required_inputs_ready = (\<lambda>w. replay_rest w \<noteq> []),
       required_inputs_available = (\<lambda>w. replay_rest w \<noteq> []), run_body = (\<lambda>now w. Ret (BodyOk, w)),
       finish_inputs = (\<lambda>w. Ret (w\<lparr>replay_rest := []\<rparr>)),
       flush_outputs = (\<lambda>now w. Ret (sink_captured 0 (MessageHeader now 7 0) (snd (hd (replay_rest w)) @ tail_bytes) w)),
       discard_outputs = Ret\<rparr>,
     rc_recording_endpoints = Some [(desc_endpoints (hd (desc_callbacks copy_descriptor)) ! 1)\<lparr>desc_publisher := Some 7\<rparr>,
       desc_endpoints (hd (desc_callbacks copy_descriptor)) ! 0],
     rc_outputs_are_local = True, rc_clear_replay_inputs = (\<lambda>w. Ret (Inr (), w\<lparr>replay_rest := []\<rparr>)),
     rc_stage_event = (\<lambda>v w. Ret (Inr (), w)),
     rc_prepared_messages = (\<lambda>w. Ret (map (\<lambda>(h, _). \<lparr>logged_ordinal = 0, logged_header = h\<rparr>) (replay_rest w))),
     rc_prepared_events = (\<lambda>_. Ret []), rc_pending_events = (\<lambda>_. Ret [])\<rparr>"

definition copy_graph :: "byte list \<Rightarrow> (message_header \<times> byte list) list replay_callback built_graph" where
  "copy_graph tail_bytes = \<lparr>graph_callbacks = [\<lparr>cb_name = ''copy'', cb_callback = copy_callback tail_bytes,
       cb_schedule = \<lparr>schedule_pool = 0, run_on_start = False, period = None, execution_duration = None,
         execution_duration_callback = None, next_execution_time_callback = None\<rparr>\<rparr>],
     metadata = \<lparr>channel_names = interner_new, callback_names = interner_new\<rparr>\<rparr>"

definition copy_start :: copy_world where
  "copy_start = \<lparr>captures = [\<lparr>capture_messages = [], capture_error = None, capture_capacity = 4\<rparr>], replay_rest = []\<rparr>"

definition copy_executor :: "byte list \<Rightarrow> exact_replay_config \<Rightarrow> (message_header \<times> byte list) list exact_replay" where
  "copy_executor tail_bytes c = \<lparr>ex_detail_endpoint = None, ex_detail_header = None,
     ex_callbacks = [copy_callback tail_bytes], ex_mapping = [0], ex_publishers = [[0 \<mapsto> (7, 0)]],
     ex_metadata = \<lparr>channel_names = interner_new, callback_names = intern_all interner_new [''copy'']\<rparr>,
     ex_log = copy_log, ex_bindings = copy_bindings, ex_reproduced = Map.empty, ex_config = c,
     ex_report = set_intern_tables (rl_tables copy_log) (report_new 1 (config_max_details c)),
     ex_cursor = 0, ex_failed = False, ex_stop = False, ex_world = copy_start\<rparr>"

lemma copy_match:
  "match_callbacks plain_texts (graph_callbacks (copy_graph tail_bytes)) copy_bindings (desc_callbacks (rl_descriptor copy_log)) ({}, {})
     = Inr ([0], [[0 \<mapsto> (7, 0)]], {(''copy'', 0)}, {(''copy'', 0)})"
  by (simp add: copy_graph_def copy_log_def copy_descriptor_def match_callback_def copy_callback_def endpoint_order_def
      copy_bindings_def copy_source_def copy_capture_def Let_def)

lemma copy_built: "replay_with_config plain_texts (copy_graph tail_bytes) copy_log copy_bindings c copy_start = Ret (Inr (copy_executor tail_bytes c))"
  unfolding replay_with_config_def copy_match
  by (simp add: copy_bindings_def copy_graph_def copy_executor_def) (simp add: copy_log_def copy_descriptor_def copy_bindings_def copy_graph_def)

lemmas copy_defs = copy_executor_def copy_callback_def copy_bindings_def copy_source_def copy_capture_def copy_start_def
  copy_log_def copy_record_def copy_descriptor_def

lemmas replay_defs = replay_execute_def hydrate_execution_def prepare_execution_def run_execution_def begin_step_def update_report_def
  try_then_def attempt_def observing_def find_endpoint_def recorded_payload_def clear_captures_def capture_clear_def set_capture_def no_detail_def
  prepare_callback_def run_prepared_def commit_callback_def invocation_drop_def compare_endpoint_def
  compare_output_def capture_take_def sink_captured_def with_publisher_def differing_ordinal_def message_headers_def is_data_output_def

lemma copy_execute:
  "\<exists>y. replay_execute plain_texts copy_record (begin_step (copy_executor [] c))
      = Ret (Inr \<lparr>step_callback = ''copy'', step_time = from_nanos 70, step_ran = True\<rparr>, y)"
  by (simp add: copy_defs replay_defs Let_def intern_index_def)

lemma copy_diverges:
  "\<exists>reason y. replay_execute plain_texts copy_record (begin_step (copy_executor [9] replay_config_default))
      = Ret (Inl (StepFailed (Divergence reason)), y)"
  by (simp add: copy_defs replay_defs Let_def intern_index_def replay_config_default_def replay_mismatch_def is_strict_def replay_detail_op_def)

lemma copy_executor_fields:
  "\<not> ex_failed (copy_executor t c)" "\<not> ex_stop (copy_executor t c)" "ex_cursor (copy_executor t c) = 0" "ex_log (copy_executor t c) = copy_log"
  "rl_executions copy_log ! 0 = copy_record" "length (rl_executions copy_log) = 1"
  by (simp_all add: copy_executor_def copy_log_def)

lemma copy_step:
  obtains s y where "replay_step_op plain_texts (copy_executor [] c) = Ret (Inr (Some s), y)" "replay_step_op plain_texts y = Ret (Inr None, y)"
proof -
  let ?x = "copy_executor [] c"
  obtain s y where y: "replay_execute plain_texts copy_record (begin_step ?x) = Ret (Inr s, y)" using copy_execute [of c] by blast
  have "replay_step_op plain_texts ?x = Ret (Inr (Some s), y)"
    using y by (simp add: replay_step_op_def Let_def copy_executor_fields begin_step_def)
  moreover have "same_run (begin_step ?x) y" by (rule frame.related_Inr [OF frame.related_execute y])
  then have "replay_step_op plain_texts y = Ret (Inr None, y)"
    by (simp add: replay_step_op_def same_run_def copy_executor_fields)
  ultimately show ?thesis by (rule that)
qed

lemma copy_run:
  "\<exists>y. replay_run plain_texts (\<lambda>_. False) (copy_executor [] replay_config_default) = Ret (Some (Inr (ex_report y), y))
     \<and> report_is_exact (ex_report y)"
proof -
  let ?x = "copy_executor [] replay_config_default" and ?inv = "session_inv (copy_graph []) copy_log copy_bindings replay_config_default"
  obtain s y where y: "replay_step_op plain_texts ?x = Ret (Inr (Some s), y)" "replay_step_op plain_texts y = Ret (Inr None, y)"
    by (rule copy_step)
  have inv: "?inv y" by (rule step_inv [OF with_config_session_inv [OF copy_built] y(1)])
  have "ex_cursor y = 1" "\<not> ex_failed y" using step_Some(5) [OF y(1)] by (simp_all add: same_run_def copy_executor_fields)
  with inv have "report_is_exact (ex_report y)"
    by (simp add: session_exact_iff copy_executor_fields) (simp add: session_inv_def replay_config_default_def)
  moreover have "replay_run plain_texts (\<lambda>_. False) ?x = Ret (Some (Inr (ex_report y), y))"
    using y by (simp add: replay_run_def copy_executor_fields)
  ultimately show ?thesis by blast
qed

lemma copy_log_ok: "replay_log_ok copy_log"
proof -
  from copy_accepted obtain l0 l1 where "rl_begin copy_codec (reader_artifact copy_reader) = Inr l0"
    "rl_push_all plain_texts copy_codec copy_entries l0 = Inr l1" "rl_finish plain_texts l1 = Inr copy_log"
    by (auto simp: rl_from_sorted_def rl_read_loop_push copy_reader_facts split: sum.splits)
  from rl_accept_law [OF this] show ?thesis ..
qed

lemma copy_isolated: "isolated_captures copy_bindings"
  by (simp add: isolated_captures_def copy_bindings_def)

theorem exact_run_reproduces_witness:
  "\<exists>zs y0. run_trace plain_texts (copy_executor [] replay_config_default) zs y0 \<and> length zs = 1
     \<and> current_record (zs ! 0) = copy_record \<and> step_reproduced (copy_graph []) (zs ! 0) y0"
proof -
  obtain y where y: "replay_run plain_texts (\<lambda>_. False) (copy_executor [] replay_config_default) = Ret (Some (Inr (ex_report y), y))"
    "report_is_exact (ex_report y)" using copy_run by blast
  from exact_run_reproduces [OF copy_log_ok copy_isolated copy_built y] obtain zs y0 where
    zs: "run_trace plain_texts (copy_executor [] replay_config_default) zs y0" "length zs = 1"
      "\<forall>k < length zs. current_record (zs ! k) = rl_executions copy_log ! k \<and> step_reproduced (copy_graph []) (zs ! k) ((zs @ [y0]) ! Suc k)"
    by (auto simp: copy_executor_fields)
  from zs(2) have "(zs @ [y0]) ! Suc 0 = y0" by (simp add: nth_append)
  with zs show ?thesis by (intro exI [of _ zs] exI [of _ y0]) (simp add: copy_log_def)
qed

theorem strict_run_decides_witness:
  "\<exists>rep y. replay_run plain_texts (\<lambda>_. False) (copy_executor [] replay_config_default) = Ret (Some (Inr rep, y)) \<and> report_is_exact rep"
proof -
  obtain y where y: "replay_run plain_texts (\<lambda>_. False) (copy_executor [] replay_config_default) = Ret (Some (Inr (ex_report y), y))"
    using copy_run by blast
  from strict_run_decides [OF copy_built _ y] y show ?thesis by (simp add: replay_config_default_def)
qed

theorem session_report_honest_witness:
  "report_bounds (ex_report (copy_executor [] replay_config_default)) \<and> \<not> report_is_exact (ex_report (copy_executor [] replay_config_default))"
  using session_report_honest [OF replay_session.built [OF copy_built]] by (simp add: copy_executor_fields)

theorem first_failure_poisons_witness:
  "\<exists>reason y. replay_step_op plain_texts (copy_executor [9] replay_config_default) = Ret (Inl (Divergence reason), y)
     \<and> 0 < report_errors (ex_report y) \<and> replay_step_op plain_texts y = Ret (Inl ReplayPoisoned, y)"
proof -
  let ?x = "copy_executor [9] replay_config_default"
  obtain reason z where z: "replay_execute plain_texts copy_record (begin_step ?x) = Ret (Inl (StepFailed (Divergence reason)), z)"
    using copy_diverges by blast
  then have "replay_step_op plain_texts ?x = Ret (Inl (Divergence reason), z\<lparr>ex_failed := True\<rparr>)"
    by (simp add: replay_step_op_def Let_def copy_executor_fields begin_step_def)
  from first_failure_poisons [OF replay_session.built [OF copy_built] this] this show ?thesis
    by (auto simp: copy_executor_fields)
qed

end

