(* ===== verification/Execution_Log.thy ===== *)
theory Execution_Log
  imports Replay_Log
begin

text \<open>
  \<open>task_graph/src/execution_log.rs\<close>: callbacks wrapped so that every execution publishes a record of what it
  read, what it published and how it ended.

  The wrapper owns the callback's state, a publisher of records and the record of the execution at work. The channel
  of the records is a parameter: its \<open>publish\<close> is \<open>Publisher::publish_with_header\<close>, for which the channels of
  \<open>Message_Bus\<close> are an instance. The measured time is a parameter as well, read from the state the
  body leaves. The counter of refused records, which the callbacks of a graph share, appears as each callback's share
  of it. Endpoints of the transport crate, and with them the observers of events, are left out.

  A panic in the commit unwinds through the destructor of the invocation, which publishes the record.
  \<open>recorded_flush_caught\<close> therefore says of a panicking \<open>flush_outputs\<close> which state it leaves; the state in which
  the wrapped callback's own \<open>flush_outputs\<close> panics is a parameter, as its body is. Only where one of the callback's
  visitors of pending messages and events panics itself is the state not followed.
\<close>

section \<open>Wrapped callbacks\<close>

text \<open>The part of the trait \<open>Callback\<close> that recording uses.\<close>

record 's recordable =
  rec_ops :: "'s callback_ops"
  rec_endpoints :: "'s \<Rightarrow> endpoint_descriptor list option"
  rec_prepared_messages :: "'s \<Rightarrow> logged_message list outcome"
  rec_pending_messages :: "'s \<Rightarrow> logged_message list outcome"
  rec_prepared_events :: "'s \<Rightarrow> logged_iox2_event list outcome"
  rec_pending_events :: "'s \<Rightarrow> logged_iox2_event list outcome"
  rec_flush_left :: "framework_time \<Rightarrow> 's \<Rightarrow> 's" \<comment> \<open>what a panicking \<open>flush_outputs\<close> leaves\<close>

record 'p record_channel =
  rch_publish :: "message_header \<Rightarrow> execution_record \<Rightarrow> 'p \<Rightarrow> ((loan_error + unit) \<times> 'p) outcome"
  rch_index :: "'p \<Rightarrow> u32"

record active_execution =
  active_record :: execution_record
  body_started :: bool

record ('s, 'p) recorder =
  inner_state :: 's
  record_publisher :: 'p
  active :: "active_execution option"
  dropped_records :: nat

record execution_log_recorded =
  recorded_id :: intern_id
  recorded_mode :: execution_log_mode

definition MAX_RECORDED_MESSAGES :: nat where
  "MAX_RECORDED_MESSAGES = 16"

definition MAX_RECORDED_EVENTS :: nat where
  "MAX_RECORDED_EVENTS = 16"

text \<open>The visitors of \<open>run\<close> and \<open>flush_outputs\<close>: what does not fit is counted in 16 bits.\<close>

fun record_all :: "nat \<Rightarrow> 'e list \<Rightarrow> 'e list \<times> nat \<Rightarrow> ('e list \<times> nat) outcome" where
  "record_all cap [] acc = Ret acc"
| "record_all cap (e # es) (xs, truncated) =
     (if length xs < cap then record_all cap es (xs @ [e], truncated)
      else if truncated + 1 < 2 ^ 16 then record_all cap es (xs, truncated + 1)
      else Panic)"

text \<open>The same up to the element at which the counter overflows, if there is one.\<close>

fun recorded_until :: "nat \<Rightarrow> 'e list \<Rightarrow> 'e list \<times> nat \<Rightarrow> 'e list \<times> nat" where
  "recorded_until cap [] acc = acc"
| "recorded_until cap (e # es) (xs, truncated) =
     (if length xs < cap then recorded_until cap es (xs @ [e], truncated)
      else if truncated + 1 < 2 ^ 16 then recorded_until cap es (xs, truncated + 1)
      else (xs, truncated))"

definition MAX_DURATION :: nat where
  "MAX_DURATION = 2 ^ 64 - 1"

definition new_record :: "execution_log_recorded \<Rightarrow> framework_time \<Rightarrow> execution_record" where
  "new_record c now = \<lparr>record_callback = recorded_id c, execution_time = now, body_duration_ns = 0, record_inputs = [],
     record_events = [], record_output_events = [], record_outputs = [], record_outcome = BodyPanicked, record_truncated = 0\<rparr>"

definition record_snapshot ::
  "execution_log_recorded \<Rightarrow> 's recordable \<Rightarrow> framework_time \<Rightarrow> 's \<Rightarrow> execution_record outcome" where
  "record_snapshot c cb now s =
     (if recorded_mode c \<noteq> FullMode then Ret (new_record c now)
      else and_then (rec_prepared_messages cb s) (\<lambda>ms.
        and_then (record_all MAX_RECORDED_MESSAGES ms ([], 0)) (\<lambda>(ins, t1).
        and_then (rec_prepared_events cb s) (\<lambda>vs.
        and_then (record_all MAX_RECORDED_EVENTS vs ([], t1)) (\<lambda>(evs, t2).
          Ret ((new_record c now)\<lparr>record_inputs := ins, record_events := evs, record_truncated := t2\<rparr>))))))"

text \<open>\<open>run\<close>: a panic before the body leaves no record, a panic of the body leaves the record as it is.\<close>

definition recorded_run ::
  "execution_log_recorded \<Rightarrow> ('s \<Rightarrow> nat) \<Rightarrow> 's recordable \<Rightarrow> framework_time \<Rightarrow> ('s, 'p) recorder
     \<Rightarrow> (body_result \<times> ('s, 'p) recorder) outcome" where
  "recorded_run c elapsed cb now x = (case record_snapshot c cb now (inner_state x) of
     Panic \<Rightarrow> Ret (BodyPanic, x)
   | Undefined \<Rightarrow> Undefined
   | Diverges \<Rightarrow> Diverges
   | Ret r \<Rightarrow> and_then (run_body (rec_ops cb) now (inner_state x)) (\<lambda>(res, s).
       Ret (res, x\<lparr>inner_state := s, active := Some (case res of
           BodyPanic \<Rightarrow> \<lparr>active_record = r, body_started = True\<rparr>
         | BodyOk \<Rightarrow> \<lparr>active_record = r\<lparr>body_duration_ns := min (elapsed s) MAX_DURATION, record_outcome := Cancelled\<rparr>,
             body_started = False\<rparr>
         | BodyErr e \<Rightarrow> \<lparr>active_record = r\<lparr>body_duration_ns := min (elapsed s) MAX_DURATION, record_outcome := BodyError e\<rparr>,
             body_started = False\<rparr>)\<rparr>)))"

definition publish_record ::
  "'p record_channel \<Rightarrow> execution_record \<Rightarrow> ('s, 'p) recorder \<Rightarrow> ('s, 'p) recorder outcome" where
  "publish_record ch r x =
     and_then (rch_publish ch (MessageHeader (execution_time r) (rch_index ch (record_publisher x)) 0) r (record_publisher x)) (\<lambda>(res, p).
       Ret (x\<lparr>record_publisher := p, dropped_records := dropped_records x + (case res of Inl _ \<Rightarrow> 1 | Inr _ \<Rightarrow> 0)\<rparr>))"

definition with_published_at :: "framework_time \<Rightarrow> logged_message \<Rightarrow> logged_message" where
  "with_published_at t m = m\<lparr>logged_header := MessageHeader t (header_publisher (logged_header m)) (header_batch (logged_header m))\<rparr>"

definition record_attempt ::
  "execution_log_recorded \<Rightarrow> 's recordable \<Rightarrow> framework_time \<Rightarrow> 's \<Rightarrow> execution_record \<Rightarrow> execution_record outcome" where
  "record_attempt c cb time s r =
     (let r1 = r\<lparr>record_outcome := CommitPanicked\<rparr> in
      if recorded_mode c \<noteq> FullMode then Ret r1
      else and_then (rec_pending_messages cb s) (\<lambda>ms.
        and_then (record_all MAX_RECORDED_MESSAGES (map (with_published_at time) ms) (record_outputs r1, record_truncated r1)) (\<lambda>(outs, t1).
        and_then (rec_pending_events cb s) (\<lambda>vs.
        and_then (record_all MAX_RECORDED_EVENTS vs (record_output_events r1, t1)) (\<lambda>(evs, t2).
          Ret (r1\<lparr>record_outputs := outs, record_output_events := evs, record_truncated := t2\<rparr>))))))"

text \<open>The record as \<open>record_attempt\<close> leaves it when its counter overflows.\<close>

definition attempt_left ::
  "'s recordable \<Rightarrow> framework_time \<Rightarrow> 's \<Rightarrow> execution_record \<Rightarrow> execution_record outcome" where
  "attempt_left cb time s r =
     (let r1 = r\<lparr>record_outcome := CommitPanicked\<rparr> in
      and_then (rec_pending_messages cb s) (\<lambda>ms.
        let all = map (with_published_at time) ms;
            (outs, t1) = recorded_until MAX_RECORDED_MESSAGES all (record_outputs r1, record_truncated r1)
        in if record_all MAX_RECORDED_MESSAGES all (record_outputs r1, record_truncated r1) = Panic
           then Ret (r1\<lparr>record_outputs := outs, record_truncated := t1\<rparr>)
           else and_then (rec_pending_events cb s) (\<lambda>vs.
             let (evs, t2) = recorded_until MAX_RECORDED_EVENTS vs (record_output_events r1, t1)
             in Ret (r1\<lparr>record_outputs := outs, record_output_events := evs, record_truncated := t2\<rparr>))))"

text \<open>
  \<open>flush_outputs\<close>: whether it returned or panicked, and the state it leaves to the destructor of the invocation. A
  panicking commit leaves its record in place, with outcome \<open>CommitPanicked\<close>.
\<close>

definition recorded_flush_caught ::
  "execution_log_recorded \<Rightarrow> 'p record_channel \<Rightarrow> 's recordable \<Rightarrow> framework_time \<Rightarrow> ('s, 'p) recorder
     \<Rightarrow> (bool \<times> ('s, 'p) recorder) outcome" where
  "recorded_flush_caught c ch cb time x = (case active x of
     None \<Rightarrow> (case flush_outputs (rec_ops cb) time (inner_state x) of
         Panic \<Rightarrow> Ret (False, x\<lparr>inner_state := rec_flush_left cb time (inner_state x)\<rparr>)
       | Undefined \<Rightarrow> Undefined
       | Diverges \<Rightarrow> Diverges
       | Ret s \<Rightarrow> Ret (True, x\<lparr>inner_state := s\<rparr>))
   | Some a \<Rightarrow> (case record_attempt c cb time (inner_state x) (active_record a) of
         Panic \<Rightarrow> and_then (attempt_left cb time (inner_state x) (active_record a)) (\<lambda>r.
           Ret (False, x\<lparr>active := Some (a\<lparr>active_record := r\<rparr>)\<rparr>))
       | Undefined \<Rightarrow> Undefined
       | Diverges \<Rightarrow> Diverges
       | Ret r \<Rightarrow> (case flush_outputs (rec_ops cb) time (inner_state x) of
           Panic \<Rightarrow> Ret (False, x\<lparr>inner_state := rec_flush_left cb time (inner_state x), active := Some (a\<lparr>active_record := r\<rparr>)\<rparr>)
         | Undefined \<Rightarrow> Undefined
         | Diverges \<Rightarrow> Diverges
         | Ret s \<Rightarrow> and_then (publish_record ch (r\<lparr>record_outcome := Committed\<rparr>) (x\<lparr>inner_state := s, active := None\<rparr>)) (\<lambda>y.
             Ret (True, y)))))"

definition recorded_flush ::
  "execution_log_recorded \<Rightarrow> 'p record_channel \<Rightarrow> 's recordable \<Rightarrow> framework_time \<Rightarrow> ('s, 'p) recorder \<Rightarrow> ('s, 'p) recorder outcome" where
  "recorded_flush c ch cb time x =
     and_then (recorded_flush_caught c ch cb time x) (\<lambda>(returned, y). if returned then Ret y else Panic)"

definition closing_record :: "('s \<Rightarrow> nat) \<Rightarrow> 's \<Rightarrow> active_execution \<Rightarrow> execution_record" where
  "closing_record elapsed s a =
     (let r = (if body_started a then (active_record a)\<lparr>body_duration_ns := min (elapsed s) MAX_DURATION\<rparr> else active_record a)
      in if record_outcome r \<noteq> CommitPanicked then r\<lparr>record_outputs := [], record_output_events := []\<rparr> else r)"

definition recorded_discard ::
  "('s \<Rightarrow> nat) \<Rightarrow> 'p record_channel \<Rightarrow> 's recordable \<Rightarrow> ('s, 'p) recorder \<Rightarrow> ('s, 'p) recorder outcome" where
  "recorded_discard elapsed ch cb x =
     and_then (case active x of
         None \<Rightarrow> Ret x
       | Some a \<Rightarrow> publish_record ch (closing_record elapsed (inner_state x) a) (x\<lparr>active := None\<rparr>)) (\<lambda>x1.
       and_then (discard_outputs (rec_ops cb) (inner_state x1)) (\<lambda>s. Ret (x1\<lparr>inner_state := s\<rparr>)))"

definition on_inner :: "('s \<Rightarrow> 's outcome) \<Rightarrow> ('s, 'p) recorder \<Rightarrow> ('s, 'p) recorder outcome" where
  "on_inner f x = and_then (f (inner_state x)) (\<lambda>s. Ret (x\<lparr>inner_state := s\<rparr>))"

definition recorded_callback ::
  "execution_log_recorded \<Rightarrow> ('s \<Rightarrow> nat) \<Rightarrow> 'p record_channel \<Rightarrow> 's recordable \<Rightarrow> ('s, 'p) recorder callback_ops" where
  "recorded_callback c elapsed ch cb = \<lparr>
     update_inputs = on_inner (update_inputs (rec_ops cb)),
     required_inputs_ready = (\<lambda>x. required_inputs_ready (rec_ops cb) (inner_state x)),
     required_inputs_available = (\<lambda>x. required_inputs_available (rec_ops cb) (inner_state x)),
     run_body = recorded_run c elapsed cb,
     finish_inputs = on_inner (finish_inputs (rec_ops cb)),
     flush_outputs = recorded_flush c ch cb,
     discard_outputs = recorded_discard elapsed ch cb\<rparr>"

text \<open>
  \<open>CompletedCallback::commit\<close> and \<open>execute_callback\<close> of \<open>task/src/callback.rs\<close> on a recorded callback, followed
  through the unwinding of a panicking commit: the destructor of the invocation runs in either case.
\<close>

definition recorded_commit_caught ::
  "execution_log_recorded \<Rightarrow> ('s \<Rightarrow> nat) \<Rightarrow> 'p record_channel \<Rightarrow> 's recordable \<Rightarrow> framework_time \<Rightarrow> ('s, 'p) recorder
     \<Rightarrow> (bool \<times> ('s, 'p) recorder) outcome" where
  "recorded_commit_caught c elapsed ch cb time x =
     and_then (recorded_flush_caught c ch cb time x) (\<lambda>(returned, y).
     and_then (invocation_drop (recorded_callback c elapsed ch cb) True y) (\<lambda>z. Ret (returned, z)))"

datatype recorded_end = Ended execution_result | CommitUnwound

definition execute_recorded ::
  "execution_log_recorded \<Rightarrow> ('s \<Rightarrow> nat) \<Rightarrow> 'p record_channel \<Rightarrow> 's recordable \<Rightarrow> framework_time \<Rightarrow> ('s, 'p) recorder
     \<Rightarrow> (recorded_end \<times> ('s, 'p) recorder) outcome" where
  "execute_recorded c elapsed ch cb now x =
     and_then (prepare_callback (recorded_callback c elapsed ch cb) x) (\<lambda>(ready, x1).
       if \<not> ready then Ret (Ended Skipped, x1)
       else and_then (run_prepared (recorded_callback c elapsed ch cb) now x1) (\<lambda>(r, x2). case r of
         BodyErr e \<Rightarrow> Ret (Ended (Failed e), x2)
       | BodyPanic \<Rightarrow> Ret (Ended Unwound, x2)
       | BodyOk \<Rightarrow> and_then (recorded_commit_caught c elapsed ch cb now x2) (\<lambda>(returned, x3).
           Ret (if returned then Ended Executed else CommitUnwound, x3))))"

section \<open>Wrapping a graph\<close>

definition endpoint_group :: "endpoint_descriptor list \<Rightarrow> direction \<Rightarrow> bool \<Rightarrow> nat" where
  "endpoint_group ps dir events = length (filter (\<lambda>p. desc_direction p = dir \<and> (desc_transport p = Iox2Event) = events) ps)"

fun check_groups :: "string \<Rightarrow> (string \<times> nat \<times> nat) list \<Rightarrow> string + unit" where
  "check_groups name [] = Inr ()"
| "check_groups name ((label, n, cap) # gs) =
     (if cap < n
      then Inl (''callback '' @ in_quotes name @ '' has '' @ dec_digits n @ '' '' @ label
        @ '' endpoints; execution log records at most '' @ dec_digits cap)
      else check_groups name gs)"

definition validate_record_capacity :: "string \<Rightarrow> endpoint_descriptor list \<Rightarrow> string + unit" where
  "validate_record_capacity name ps = check_groups name
     [(''received message'', endpoint_group ps Received False, MAX_RECORDED_MESSAGES),
      (''published message'', endpoint_group ps Published False, MAX_RECORDED_MESSAGES),
      (''received event'', endpoint_group ps Received True, MAX_RECORDED_EVENTS),
      (''published event'', endpoint_group ps Published True, MAX_RECORDED_EVENTS)]"

datatype ('c, 'p) logged_callback = Unlogged 'c | Logged 'c execution_log_recorded 'p 'p

record 'p log_publishers =
  record_publishers :: "(string \<times> 'p) list"
  event_publishers :: "(string \<times> 'p) list"

record execution_log_metadata =
  log_descriptor :: execution_descriptor
  log_tables :: intern_tables

text \<open>The closure of \<open>with_execution_log\<close> on one callback.\<close>

definition log_callback ::
  "('c \<Rightarrow> endpoint_descriptor list option) \<Rightarrow> execution_log_modes \<Rightarrow> intern_tables \<Rightarrow> string \<Rightarrow> 'c \<Rightarrow> 'p log_publishers
     \<Rightarrow> (string + ('c, 'p) logged_callback \<times> callback_descriptor \<times> 'p log_publishers) outcome" where
  "log_callback endpoints_of modes tables name cb lps =
     (let mode = mode_for modes name in
      case (mode, endpoints_of cb) of
        (FullMode, None) \<Rightarrow> Ret (Inl (''callback '' @ in_quotes name @ '' does not implement execution log metadata''))
      | (_, ends) \<Rightarrow>
          let ps = (case ends of None \<Rightarrow> [] | Some ps \<Rightarrow> ps);
              d = \<lparr>desc_name = name, desc_mode = mode, desc_endpoints = ps\<rparr>
          in case (if mode = FullMode then validate_record_capacity name ps else Inr ()) of
            Inl e \<Rightarrow> Ret (Inl e)
          | Inr _ \<Rightarrow>
              if mode = ModeOff then Ret (Inr (Unlogged cb, d, lps))
              else (case map_of (record_publishers lps) name of
                  None \<Rightarrow> Ret (Inl (''missing execution log publisher for '' @ in_quotes name))
                | Some rp \<Rightarrow> (case map_of (event_publishers lps) name of
                    None \<Rightarrow> Ret (Inl (''missing iox2 event publisher for '' @ in_quotes name))
                  | Some ep \<Rightarrow> and_then (expect (lookup_by_value (callbacks_table tables) name)) (\<lambda>i.
                      Ret (Inr (Logged cb \<lparr>recorded_id = i, recorded_mode = mode\<rparr> rp ep, d,
                        \<lparr>record_publishers = AList.delete name (record_publishers lps),
                         event_publishers = AList.delete name (event_publishers lps)\<rparr>))))))"

fun log_callbacks ::
  "('c \<Rightarrow> endpoint_descriptor list option) \<Rightarrow> execution_log_modes \<Rightarrow> intern_tables \<Rightarrow> 'c scheduled_callback list \<Rightarrow> 'p log_publishers
     \<Rightarrow> (string + ('c, 'p) logged_callback scheduled_callback list \<times> callback_descriptor list \<times> 'p log_publishers) outcome" where
  "log_callbacks endpoints_of modes tables [] lps = Ret (Inr ([], [], lps))"
| "log_callbacks endpoints_of modes tables (node # nodes) lps =
     and_then (log_callback endpoints_of modes tables (cb_name node) (cb_callback node) lps) (\<lambda>r. case r of
       Inl e \<Rightarrow> Ret (Inl e)
     | Inr (cb, d, lps1) \<Rightarrow> and_then (log_callbacks endpoints_of modes tables nodes lps1) (\<lambda>r. Ret (case r of
         Inl e \<Rightarrow> Inl e
       | Inr (cs, ds, lps2) \<Rightarrow>
           Inr (\<lparr>cb_name = cb_name node, cb_callback = cb, cb_schedule = cb_schedule node\<rparr> # cs, d # ds, lps2))))"

definition with_execution_log ::
  "('c \<Rightarrow> endpoint_descriptor list option) \<Rightarrow> execution_log_modes \<Rightarrow> 'p log_publishers \<Rightarrow> 'c built_graph
     \<Rightarrow> (string + ('c, 'p) logged_callback built_graph \<times> execution_log_metadata) outcome" where
  "with_execution_log endpoints_of modes lps g =
     (case find (\<lambda>name. lookup_by_value (callback_names (metadata g)) name = None) (sorted_list_of_set (dom (mode_callbacks modes))) of
        Some name \<Rightarrow> Ret (Inl (''unknown execution log callback '' @ in_quotes name))
      | None \<Rightarrow>
          let tables = metadata_intern_tables (metadata g)
          in and_then (log_callbacks endpoints_of modes tables (graph_callbacks g) lps) (\<lambda>r. Ret (case r of
              Inl e \<Rightarrow> Inl e
            | Inr (cs, ds, rest) \<Rightarrow>
                if record_publishers rest \<noteq> [] \<or> event_publishers rest \<noteq> []
                then Inl ''execution log publishers do not match graph callbacks''
                else Inr (\<lparr>graph_callbacks = cs, metadata = metadata g\<rparr>,
                  \<lparr>log_descriptor = \<lparr>desc_callbacks = ds, logged_channels = []\<rparr>, log_tables = tables\<rparr>))))"

section \<open>Laws\<close>

lemma record_all_law:
  "length xs \<le> cap \<Longrightarrow> t + (length es - (cap - length xs)) < 2 ^ 16 \<Longrightarrow>
     record_all cap es (xs, t) = Ret (xs @ take (cap - length xs) es, t + (length es - (cap - length xs)))"
proof (induction es arbitrary: xs t)
  case (Cons e es)
  show ?case
  proof (cases "length xs < cap")
    case True
    then have "cap - length xs = Suc (cap - length (xs @ [e]))" by simp
    with Cons True show ?thesis by simp
  next
    case False
    with Cons.prems Cons.IH [of xs "t + 1"] show ?thesis by simp
  qed
qed simp

lemma record_all_Ret:
  "record_all cap es (xs, t) = Ret (ys, t') \<Longrightarrow> length xs \<le> cap \<Longrightarrow>
     ys = xs @ take (cap - length xs) es \<and> t' = t + (length es - (cap - length xs))"
proof (induction es arbitrary: xs t)
  case (Cons e es)
  show ?case
  proof (cases "length xs < cap")
    case True
    then have "cap - length xs = Suc (cap - length (xs @ [e]))" by simp
    with Cons.IH [of "xs @ [e]" t] Cons.prems True show ?thesis by simp
  next
    case False
    with Cons.prems Cons.IH [of xs "t + 1"] show ?thesis by (auto split: if_splits)
  qed
qed simp

lemma record_all_returns: "record_all cap es (xs, t) \<noteq> Panic \<Longrightarrow> record_all cap es (xs, t) = Ret (recorded_until cap es (xs, t))"
  by (induction es arbitrary: xs t) (auto split: if_splits)

lemma recorded_until_full:
  "record_all cap es (xs, t) = Panic \<Longrightarrow> t < 2 ^ 16 \<Longrightarrow> snd (recorded_until cap es (xs, t)) = 2 ^ 16 - 1"
  by (induction es arbitrary: xs t) (auto split: if_splits)

lemma recorded_until_bound: "t < 2 ^ 16 \<Longrightarrow> snd (recorded_until cap es (xs, t)) < 2 ^ 16"
  by (induction es arbitrary: xs t) auto

text \<open>What a record says of the inputs of its execution.\<close>

definition describes ::
  "execution_log_recorded \<Rightarrow> 's recordable \<Rightarrow> framework_time \<Rightarrow> 's \<Rightarrow> nat \<Rightarrow> execution_record \<Rightarrow> bool" where
  "describes c cb now s n r \<longleftrightarrow> record_callback r = recorded_id c \<and> execution_time r = now
     \<and> (if recorded_mode c = FullMode
        then \<exists>ms vs. rec_prepared_messages cb s = Ret ms \<and> record_inputs r = take MAX_RECORDED_MESSAGES ms
          \<and> rec_prepared_events cb s = Ret vs \<and> record_events r = take MAX_RECORDED_EVENTS vs
          \<and> record_truncated r = (length ms - MAX_RECORDED_MESSAGES) + (length vs - MAX_RECORDED_EVENTS) + n
        else record_inputs r = [] \<and> record_events r = [] \<and> record_truncated r = 0)"

lemma record_snapshot_Ret:
  assumes "record_snapshot c cb now s = Ret r"
  shows "describes c cb now s 0 r \<and> record_outcome r = BodyPanicked \<and> record_outputs r = [] \<and> record_output_events r = []"
  using assms
  by (auto simp: record_snapshot_def describes_def new_record_def dest!: record_all_Ret split: if_splits prod.splits)

lemma record_attempt_Ret:
  assumes "record_attempt c cb time s r = Ret r'" and "record_outputs r = []" and "record_output_events r = []"
  shows "record_callback r' = record_callback r \<and> execution_time r' = execution_time r \<and> record_inputs r' = record_inputs r
    \<and> record_events r' = record_events r \<and> (if recorded_mode c = FullMode
       then \<exists>ms vs. rec_pending_messages cb s = Ret ms \<and> record_outputs r' = map (with_published_at time) (take MAX_RECORDED_MESSAGES ms)
         \<and> rec_pending_events cb s = Ret vs \<and> record_output_events r' = take MAX_RECORDED_EVENTS vs
         \<and> record_truncated r' = record_truncated r + (length ms - MAX_RECORDED_MESSAGES) + (length vs - MAX_RECORDED_EVENTS)
       else record_outputs r' = [] \<and> record_output_events r' = [] \<and> record_truncated r' = record_truncated r)"
  using assms
  by (auto simp: record_attempt_def Let_def take_map dest!: record_all_Ret split: if_splits prod.splits)

text \<open>Flushing as a call that returns or panics, without the state a panic leaves.\<close>

lemma attempt_left_cases:
  "record_attempt c cb time s r = Panic \<Longrightarrow> attempt_left cb time s r = Panic \<or> (\<exists>r'. attempt_left cb time s r = Ret r')"
  by (cases "rec_pending_messages cb s"; cases "rec_pending_events cb s")
    (auto simp: record_attempt_def attempt_left_def Let_def split: if_splits prod.splits dest: record_all_returns)

lemma recorded_flush_eq:
  "recorded_flush c ch cb time x = (case active x of
     None \<Rightarrow> and_then (flush_outputs (rec_ops cb) time (inner_state x)) (\<lambda>s. Ret (x\<lparr>inner_state := s\<rparr>))
   | Some a \<Rightarrow> and_then (record_attempt c cb time (inner_state x) (active_record a)) (\<lambda>r.
       and_then (flush_outputs (rec_ops cb) time (inner_state x)) (\<lambda>s.
       publish_record ch (r\<lparr>record_outcome := Committed\<rparr>) (x\<lparr>inner_state := s, active := None\<rparr>))))"
proof (cases "active x")
  case None
  then show ?thesis
    by (cases "flush_outputs (rec_ops cb) time (inner_state x)") (simp_all add: recorded_flush_def recorded_flush_caught_def)
next
  case (Some a)
  show ?thesis
  proof (cases "record_attempt c cb time (inner_state x) (active_record a)")
    case (Ret r)
    have untag: "and_then (and_then m (\<lambda>y. Ret (True, y))) (\<lambda>(returned, y). if returned then Ret y else Panic) = m" for m :: "'b outcome"
      by (cases m) simp_all
    from Some Ret show ?thesis
      by (cases "flush_outputs (rec_ops cb) time (inner_state x)") (simp_all add: recorded_flush_def recorded_flush_caught_def untag)
  next
    case Panic
    with attempt_left_cases [OF Panic] Some show ?thesis by (auto simp: recorded_flush_def recorded_flush_caught_def)
  qed (use Some in \<open>simp_all add: recorded_flush_def recorded_flush_caught_def\<close>)
qed

text \<open>The record went to the channel once; when the channel refused it, that was counted.\<close>

definition published_one :: "'p record_channel \<Rightarrow> execution_record \<Rightarrow> ('s, 'p) recorder \<Rightarrow> ('s, 'p) recorder \<Rightarrow> bool" where
  "published_one ch r x y \<longleftrightarrow> (\<exists>res. rch_publish ch (MessageHeader (execution_time r) (rch_index ch (record_publisher x)) 0) r (record_publisher x)
       = Ret (res, record_publisher y)
     \<and> dropped_records y = dropped_records x + (case res of Inl _ \<Rightarrow> 1 | Inr _ \<Rightarrow> 0))"

lemma publish_record_Ret:
  "publish_record ch r x = Ret y \<Longrightarrow> published_one ch r x y \<and> inner_state y = inner_state x \<and> active y = active x"
  by (auto simp: publish_record_def published_one_def)

lemma recorded_ops [simp]:
  "update_inputs (recorded_callback c elapsed ch cb) = on_inner (update_inputs (rec_ops cb))"
  "required_inputs_ready (recorded_callback c elapsed ch cb) x = required_inputs_ready (rec_ops cb) (inner_state x)"
  "run_body (recorded_callback c elapsed ch cb) = recorded_run c elapsed cb"
  "finish_inputs (recorded_callback c elapsed ch cb) = on_inner (finish_inputs (rec_ops cb))"
  "flush_outputs (recorded_callback c elapsed ch cb) = recorded_flush c ch cb"
  "discard_outputs (recorded_callback c elapsed ch cb) = recorded_discard elapsed ch cb"
  by (simp_all add: recorded_callback_def)

text \<open>Dropping an invocation publishes the record of the execution at work, if any.\<close>

lemma recorded_drop_inactive:
  "active x = None \<Longrightarrow> invocation_drop (recorded_callback c elapsed ch cb) b x = on_inner (invocation_drop (rec_ops cb) b) x"
  by (simp add: invocation_drop_def recorded_discard_def on_inner_def if_distrib [of "\<lambda>m. and_then m _"] cong: if_cong)

lemma recorded_drop_active:
  "active x = Some a \<Longrightarrow> invocation_drop (recorded_callback c elapsed ch cb) b x
     = and_then (publish_record ch (closing_record elapsed (inner_state x) a) (x\<lparr>active := None\<rparr>))
         (on_inner (invocation_drop (rec_ops cb) b))"
  by (simp add: invocation_drop_def recorded_discard_def on_inner_def [abs_def] if_distrib [of "\<lambda>m. and_then m _"] cong: if_cong)

lemma recorded_prepare:
  "active x = None \<Longrightarrow> prepare_callback (recorded_callback c elapsed ch cb) x
     = and_then (prepare_callback (rec_ops cb) (inner_state x)) (\<lambda>(ready, s). Ret (ready, x\<lparr>inner_state := s\<rparr>))"
  by (cases "update_inputs (rec_ops cb) (inner_state x)")
    (simp_all add: prepare_callback_def on_inner_def recorded_drop_inactive)

lemma published_one_frame:
  "published_one ch r x y \<Longrightarrow> record_publisher x' = record_publisher x \<Longrightarrow> dropped_records x' = dropped_records x
     \<Longrightarrow> record_publisher y' = record_publisher y \<Longrightarrow> dropped_records y' = dropped_records y \<Longrightarrow> published_one ch r x' y'"
  by (simp add: published_one_def)

lemma describes_cong:
  "record_callback r' = record_callback r \<Longrightarrow> execution_time r' = execution_time r \<Longrightarrow> record_inputs r' = record_inputs r
     \<Longrightarrow> record_events r' = record_events r \<Longrightarrow> record_truncated r' = record_truncated r
     \<Longrightarrow> describes c cb now s n r' = describes c cb now s n r"
  by (simp add: describes_def)

lemma closing_fields [simp]:
  "record_callback (closing_record elapsed t a) = record_callback (active_record a)"
  "execution_time (closing_record elapsed t a) = execution_time (active_record a)"
  "record_inputs (closing_record elapsed t a) = record_inputs (active_record a)"
  "record_events (closing_record elapsed t a) = record_events (active_record a)"
  "record_truncated (closing_record elapsed t a) = record_truncated (active_record a)"
  "record_outcome (closing_record elapsed t a) = record_outcome (active_record a)"
  "record_outcome (active_record a) \<noteq> CommitPanicked \<Longrightarrow> record_outputs (closing_record elapsed t a) = []"
  "record_outcome (active_record a) \<noteq> CommitPanicked \<Longrightarrow> record_output_events (closing_record elapsed t a) = []"
  by (simp_all add: closing_record_def Let_def)

lemma closing_describes [simp]: "describes c cb now s n (closing_record elapsed t a) = describes c cb now s n (active_record a)"
  by (rule describes_cong) simp_all

lemma outcome_describes [simp]:
  "describes c cb now s n (r\<lparr>record_outcome := out\<rparr>) = describes c cb now s n r"
  "describes c cb now s n (r\<lparr>body_duration_ns := d\<rparr>) = describes c cb now s n r"
  by (rule describes_cong; simp)+

lemma drop_publishes:
  assumes "active x = Some a" and "invocation_drop (recorded_callback c elapsed ch cb) b x = Ret y"
  shows "published_one ch (closing_record elapsed (inner_state x) a) x y \<and> active y = None
    \<and> invocation_drop (rec_ops cb) b (inner_state x) = Ret (inner_state y)"
proof -
  from assms obtain x1 s where x1: "publish_record ch (closing_record elapsed (inner_state x) a) (x\<lparr>active := None\<rparr>) = Ret x1"
    "invocation_drop (rec_ops cb) b (inner_state x1) = Ret s" "y = x1\<lparr>inner_state := s\<rparr>"
    by (auto simp: recorded_drop_active on_inner_def)
  from publish_record_Ret [OF x1(1)] x1(2,3) show ?thesis by (auto intro: published_one_frame)
qed

lemma drop_silent:
  assumes "active x = None" and "invocation_drop (recorded_callback c elapsed ch cb) b x = Ret y"
  shows "y = x\<lparr>inner_state := inner_state y\<rparr> \<and> invocation_drop (rec_ops cb) b (inner_state x) = Ret (inner_state y)"
  using assms by (auto simp: recorded_drop_inactive on_inner_def)

text \<open>A completed execution whose batch is cancelled, and one that is committed.\<close>

definition completed :: "execution_record \<Rightarrow> nat \<Rightarrow> active_execution" where
  "completed r d = \<lparr>active_record = r\<lparr>body_duration_ns := d, record_outcome := Cancelled\<rparr>, body_started = False\<rparr>"

lemma run_cases:
  assumes "recorded_run c elapsed cb now x = Ret (res, y)" and "active x = None"
  obtains (unrecorded) "record_snapshot c cb now (inner_state x) = Panic" "res = BodyPanic" "y = x"
  | (ran) r s where "record_snapshot c cb now (inner_state x) = Ret r" "run_body (rec_ops cb) now (inner_state x) = Ret (res, s)"
      "y = x\<lparr>inner_state := s, active := Some (case res of
           BodyPanic \<Rightarrow> \<lparr>active_record = r, body_started = True\<rparr>
         | BodyOk \<Rightarrow> completed r (min (elapsed s) MAX_DURATION)
         | BodyErr e \<Rightarrow> \<lparr>active_record = r\<lparr>body_duration_ns := min (elapsed s) MAX_DURATION, record_outcome := BodyError e\<rparr>,
             body_started = False\<rparr>)\<rparr>"
proof (cases "record_snapshot c cb now (inner_state x)")
  case (Ret r)
  with assms(1) obtain s where "run_body (rec_ops cb) now (inner_state x) = Ret (res, s)" by (auto simp: recorded_run_def)
  with Ret assms(1) show ?thesis by (intro ran [of r s]) (cases res; simp add: recorded_run_def completed_def)+
next
  case Panic
  with assms(1) show ?thesis by (intro unrecorded) (simp_all add: recorded_run_def)
qed (use assms(1) in \<open>simp_all add: recorded_run_def\<close>)

definition describes_outputs ::
  "execution_log_recorded \<Rightarrow> 's recordable \<Rightarrow> framework_time \<Rightarrow> 's \<Rightarrow> nat \<Rightarrow> execution_record \<Rightarrow> bool" where
  "describes_outputs c cb now s n r \<longleftrightarrow> (if recorded_mode c = FullMode
     then \<exists>ms vs. rec_pending_messages cb s = Ret ms \<and> record_outputs r = map (with_published_at now) (take MAX_RECORDED_MESSAGES ms)
       \<and> rec_pending_events cb s = Ret vs \<and> record_output_events r = take MAX_RECORDED_EVENTS vs
       \<and> n = (length ms - MAX_RECORDED_MESSAGES) + (length vs - MAX_RECORDED_EVENTS)
     else record_outputs r = [] \<and> record_output_events r = [] \<and> n = 0)"

lemma attempt_describes:
  assumes "record_attempt c cb time s r = Ret r'" and "describes c cb now s1 0 r" and "record_outputs r = []" and "record_output_events r = []"
  shows "\<exists>n. describes c cb now s1 n (r'\<lparr>record_outcome := out\<rparr>) \<and> describes_outputs c cb time s n (r'\<lparr>record_outcome := out\<rparr>)"
proof -
  note law = record_attempt_Ret [OF assms(1,3,4)]
  show ?thesis
  proof (cases "recorded_mode c = FullMode")
    case True
    with law obtain ms vs where "rec_pending_messages cb s = Ret ms" "record_outputs r' = map (with_published_at time) (take MAX_RECORDED_MESSAGES ms)"
      "rec_pending_events cb s = Ret vs" "record_output_events r' = take MAX_RECORDED_EVENTS vs"
      "record_truncated r' = record_truncated r + (length ms - MAX_RECORDED_MESSAGES) + (length vs - MAX_RECORDED_EVENTS)" by auto
    with True law assms(2) show ?thesis
      by (intro exI [of _ "(length ms - MAX_RECORDED_MESSAGES) + (length vs - MAX_RECORDED_EVENTS)"])
        (simp add: describes_outputs_def, simp add: describes_def)
  next
    case False
    with law assms(2) show ?thesis by (intro exI [of _ 0]) (simp add: describes_outputs_def, simp add: describes_def)
  qed
qed

lemma commit_publishes:
  assumes "active x = Some a" and "commit_callback (recorded_callback c elapsed ch cb) time x = Ret y"
  shows "\<exists>r'. record_attempt c cb time (inner_state x) (active_record a) = Ret r'
    \<and> published_one ch (r'\<lparr>record_outcome := Committed\<rparr>) x y \<and> active y = None
    \<and> commit_callback (rec_ops cb) time (inner_state x) = Ret (inner_state y)"
proof -
  from assms obtain r' s x1 where r': "record_attempt c cb time (inner_state x) (active_record a) = Ret r'"
    "flush_outputs (rec_ops cb) time (inner_state x) = Ret s"
    "publish_record ch (r'\<lparr>record_outcome := Committed\<rparr>) (x\<lparr>inner_state := s, active := None\<rparr>) = Ret x1"
    "invocation_drop (recorded_callback c elapsed ch cb) True x1 = Ret y"
    by (auto simp: commit_callback_def recorded_flush_eq)
  note pub = publish_record_Ret [OF r'(3)]
  with drop_silent [OF _ r'(4)] have y: "y = x1\<lparr>inner_state := inner_state y\<rparr>" "invocation_drop (rec_ops cb) True s = Ret (inner_state y)" by auto
  have "record_publisher y = record_publisher x1" "dropped_records y = dropped_records x1" "active y = active x1"
    by (subst y(1), simp)+
  with pub y(2) r'(1,2) show ?thesis by (auto simp: commit_callback_def intro: published_one_frame)
qed

section \<open>The channel of the records\<close>

text \<open>What recording relies on: publishing returns, with success or an error, and can be repeated.\<close>

locale record_sink =
  fixes ch :: "'p record_channel" and valid :: "'p \<Rightarrow> bool"
  assumes publish_returns: "valid p \<Longrightarrow> \<exists>res q. rch_publish ch h r p = Ret (res, q) \<and> valid q \<and> rch_index ch q = rch_index ch p"
begin

lemma publish_record_returns:
  assumes "valid (record_publisher x)"
  obtains p n where "publish_record ch r x = Ret (x\<lparr>record_publisher := p, dropped_records := n\<rparr>)" "valid p"
  using publish_returns [OF assms] that by (fastforce simp: publish_record_def)

lemma drop_transparent:
  assumes "valid (record_publisher x)"
  shows "and_then (invocation_drop (recorded_callback c elapsed ch cb) b x) (\<lambda>y. Ret (inner_state y))
    = invocation_drop (rec_ops cb) b (inner_state x)"
proof (cases "active x")
  case None
  then show ?thesis by (simp add: recorded_drop_inactive on_inner_def)
next
  case (Some a)
  have "valid (record_publisher (x\<lparr>active := None\<rparr>))" using assms by simp
  then obtain p n where "publish_record ch (closing_record elapsed (inner_state x) a) (x\<lparr>active := None\<rparr>)
      = Ret (x\<lparr>active := None, record_publisher := p, dropped_records := n\<rparr>)"
    by (rule publish_record_returns)
  with Some show ?thesis by (simp add: recorded_drop_active on_inner_def)
qed

lemma commit_transparent:
  assumes "valid (record_publisher x)" and "active x = Some a" and "record_attempt c cb time (inner_state x) (active_record a) = Ret r"
  shows "and_then (commit_callback (recorded_callback c elapsed ch cb) time x) (\<lambda>y. Ret (inner_state y))
    = commit_callback (rec_ops cb) time (inner_state x)"
proof (cases "flush_outputs (rec_ops cb) time (inner_state x)")
  case (Ret s)
  have "valid (record_publisher (x\<lparr>inner_state := s, active := None\<rparr>))" using assms(1) by simp
  then obtain p n where "publish_record ch (r\<lparr>record_outcome := Committed\<rparr>) (x\<lparr>inner_state := s, active := None\<rparr>)
      = Ret (x\<lparr>inner_state := s, active := None, record_publisher := p, dropped_records := n\<rparr>)"
    by (rule publish_record_returns)
  with Ret assms(2,3) show ?thesis
    by (simp add: commit_callback_def recorded_flush_eq recorded_drop_inactive on_inner_def)
qed (use assms(2,3) in \<open>simp_all add: commit_callback_def recorded_flush_eq\<close>)

end

text \<open>Few enough to be counted.\<close>

definition few ::
  "execution_log_recorded \<Rightarrow> ('s \<Rightarrow> logged_message list outcome) \<Rightarrow> ('s \<Rightarrow> logged_iox2_event list outcome) \<Rightarrow> 's \<Rightarrow> bool" where
  "few c messages events s \<longleftrightarrow> (recorded_mode c = FullMode \<longrightarrow>
     (\<exists>ms vs. messages s = Ret ms \<and> events s = Ret vs \<and> length ms + length vs < 2 ^ 15))"

lemma record_snapshot_returns:
  assumes "few c (rec_prepared_messages cb) (rec_prepared_events cb) s"
  shows "\<exists>r. record_snapshot c cb now s = Ret r \<and> record_truncated r < 2 ^ 15 \<and> record_outputs r = [] \<and> record_output_events r = []"
proof (cases "recorded_mode c = FullMode")
  case True
  with assms obtain ms vs where "rec_prepared_messages cb s = Ret ms" "rec_prepared_events cb s = Ret vs" "length ms + length vs < 2 ^ 15"
    by (auto simp: few_def)
  with True show ?thesis by (auto simp: record_snapshot_def record_all_law new_record_def)
qed (simp add: record_snapshot_def new_record_def)

lemma record_attempt_returns:
  assumes "few c (rec_pending_messages cb) (rec_pending_events cb) s" and "record_truncated r < 2 ^ 15"
    and "record_outputs r = []" and "record_output_events r = []"
  shows "\<exists>r'. record_attempt c cb time s r = Ret r'"
proof (cases "recorded_mode c = FullMode")
  case True
  with assms(1) obtain ms vs where "rec_pending_messages cb s = Ret ms" "rec_pending_events cb s = Ret vs" "length ms + length vs < 2 ^ 15"
    by (auto simp: few_def)
  with True assms(2-) show ?thesis by (simp add: record_attempt_def record_all_law)
qed (simp add: record_attempt_def)

lemma tag_result: "and_then m (\<lambda>y. Ret (f y)) = m' \<Longrightarrow> and_then m (\<lambda>y. Ret (k, f y)) = and_then m' (\<lambda>s. Ret (k, s))"
  by (cases m) auto

context record_sink
begin

lemma execute_transparent:
  assumes idle: "active x = None" and ok: "valid (record_publisher x)"
    and ins: "\<And>s1. prepare_callback (rec_ops cb) (inner_state x) = Ret (True, s1) \<Longrightarrow> few c (rec_prepared_messages cb) (rec_prepared_events cb) s1"
    and outs: "\<And>s1 s2. prepare_callback (rec_ops cb) (inner_state x) = Ret (True, s1) \<Longrightarrow> run_body (rec_ops cb) now s1 = Ret (BodyOk, s2)
      \<Longrightarrow> few c (rec_pending_messages cb) (rec_pending_events cb) s2"
  shows "and_then (execute_callback (recorded_callback c elapsed ch cb) now x) (\<lambda>(res, y). Ret (res, inner_state y))
    = execute_callback (rec_ops cb) now (inner_state x)"
proof (cases "prepare_callback (rec_ops cb) (inner_state x)")
  case (Ret q)
  obtain ready s1 where q: "q = (ready, s1)" by (cases q)
  show ?thesis
  proof (cases ready)
    case True
    with Ret q have prep: "prepare_callback (rec_ops cb) (inner_state x) = Ret (True, s1)" by simp
    obtain r where r: "record_snapshot c cb now s1 = Ret r" "record_truncated r < 2 ^ 15" "record_outputs r = []" "record_output_events r = []"
      using record_snapshot_returns [OF ins [OF prep]] by blast
    show ?thesis
    proof (cases "run_body (rec_ops cb) now s1")
      case (Ret q2)
      obtain res s2 where q2: "q2 = (res, s2)" by (cases q2)
      note run = Ret [unfolded q2]
      show ?thesis
      proof (cases res)
        case BodyOk
        let ?a = "completed r (min (elapsed s2) MAX_DURATION)"
        let ?x = "x\<lparr>inner_state := s2, active := Some ?a\<rparr>"
        have "\<exists>r'. record_attempt c cb now s2 (active_record ?a) = Ret r'"
          using outs [OF prep] run BodyOk r by (intro record_attempt_returns) (simp_all add: completed_def)
        then obtain r' where r': "record_attempt c cb now (inner_state ?x) (active_record ?a) = Ret r'" by auto
        have "and_then (commit_callback (recorded_callback c elapsed ch cb) now ?x) (\<lambda>y. Ret (inner_state y)) = commit_callback (rec_ops cb) now s2"
          using commit_transparent [of ?x, OF _ _ r'] ok by simp
        then have "and_then (commit_callback (recorded_callback c elapsed ch cb) now ?x) (\<lambda>y. Ret (Executed, inner_state y))
            = and_then (commit_callback (rec_ops cb) now s2) (\<lambda>s. Ret (Executed, s))"
          by (rule tag_result)
        with prep run BodyOk r show ?thesis
          by (simp add: execute_callback_def recorded_prepare [OF idle] run_prepared_def recorded_run_def completed_def)
      next
        case (BodyErr e)
        let ?x = "x\<lparr>inner_state := s2, active := Some \<lparr>active_record = r\<lparr>body_duration_ns := min (elapsed s2) MAX_DURATION,
            record_outcome := BodyError e\<rparr>, body_started = False\<rparr>\<rparr>"
        have "and_then (invocation_drop (recorded_callback c elapsed ch cb) True ?x) (\<lambda>y. Ret (inner_state y)) = invocation_drop (rec_ops cb) True s2"
          using drop_transparent [of ?x] ok by simp
        then have "and_then (invocation_drop (recorded_callback c elapsed ch cb) True ?x) (\<lambda>y. Ret (Failed e, inner_state y))
            = and_then (invocation_drop (rec_ops cb) True s2) (\<lambda>s. Ret (Failed e, s))"
          by (rule tag_result)
        with prep run BodyErr r show ?thesis
          by (simp add: execute_callback_def recorded_prepare [OF idle] run_prepared_def recorded_run_def)
      next
        case BodyPanic
        let ?x = "x\<lparr>inner_state := s2, active := Some \<lparr>active_record = r, body_started = True\<rparr>\<rparr>"
        have "and_then (invocation_drop (recorded_callback c elapsed ch cb) True ?x) (\<lambda>y. Ret (inner_state y)) = invocation_drop (rec_ops cb) True s2"
          using drop_transparent [of ?x] ok by simp
        then have "and_then (invocation_drop (recorded_callback c elapsed ch cb) True ?x) (\<lambda>y. Ret (Unwound, inner_state y))
            = and_then (invocation_drop (rec_ops cb) True s2) (\<lambda>s. Ret (Unwound, s))"
          by (rule tag_result)
        with prep run BodyPanic r show ?thesis
          by (simp add: execute_callback_def recorded_prepare [OF idle] run_prepared_def recorded_run_def)
      qed
    qed (use prep r in \<open>simp_all add: execute_callback_def recorded_prepare [OF idle] run_prepared_def recorded_run_def\<close>)
  qed (use Ret q in \<open>simp add: execute_callback_def recorded_prepare [OF idle]\<close>)
qed (simp_all add: execute_callback_def recorded_prepare [OF idle])

end

text \<open>A publisher of the bus as the channel of the records.\<close>

definition bus_channel ::
  "('f, nat) array_queue \<Rightarrow> ('q, ptr) array_queue \<Rightarrow> (publisher \<times> ('f, 'q, execution_record) bus) record_channel" where
  "bus_channel F Q = \<lparr>
     rch_publish = (\<lambda>h r (pb, w). and_then (publish_with_header F Q pb h r w) (\<lambda>res. Ret (case res of
       Inl e \<Rightarrow> (Inl e, (pb, w)) | Inr p \<Rightarrow> (Inr (), p)))),
     rch_index = (\<lambda>(pb, _). publisher_index pb)\<rparr>"

definition log_channel_ok ::
  "('f, nat) array_queue \<Rightarrow> ('f \<Rightarrow> nat list) \<Rightarrow> ('f \<Rightarrow> bool) \<Rightarrow> ('q, ptr) array_queue \<Rightarrow> ('q \<Rightarrow> ptr list) \<Rightarrow> ('q \<Rightarrow> bool)
     \<Rightarrow> publisher \<times> ('f, 'q, 'a) bus \<Rightarrow> bool" where
  "log_channel_ok F fitems fvalid Q qitems qvalid p \<longleftrightarrow> (case p of (pb, w) \<Rightarrow>
     pending pb = [] \<and> pub_arena pb < length (arenas w) \<and> set (targets pb) \<subseteq> {..<length (subs w)}
     \<and> (\<exists>P U. bus_inv F fitems fvalid qitems qvalid w P U \<and> size P + 1 + bus_room Q w < usize_max div 2))"

context message_bus
begin

lemma publish_with_header_law:
  fixes w :: "('f, 'q, 'c) bus"
  assumes inv: "bus_inv F fitems fvalid qitems qvalid w P U" and empty: "pending pb = []"
    and k: "pub_arena pb < length (arenas w)" and t: "set (targets pb) \<subseteq> {..<length (subs w)}"
    and small: "size P + 1 + bus_room Q w < usize_max div 2"
  shows "(\<exists>e. publish_with_header F Q pb h v w = Ret (Inl e)) \<or>
    (\<exists>w'. publish_with_header F Q pb h v w = Ret (Inr (pb, w')) \<and> bus_inv F fitems fvalid qitems qvalid w' P U
      \<and> length (arenas w') = length (arenas w) \<and> length (subs w') = length (subs w) \<and> bus_room Q w' = bus_room Q w
      \<and> trace w' = trace w @ publication pb (subs w) \<lparr>header = h, message_body = v\<rparr>)"
proof -
  note l = loan_law [OF inv k, of v]
  consider e where "loan F pb w v = Ret (Inl e)"
    | p w1 where "loan F pb w v = Ret (Inr (p, w1))" "p \<notin># P + bus_ptrs qitems w" "p \<notin> U"
      "bus_inv F fitems fvalid qitems qvalid w1 (add_mset p P) U" "subs w1 = subs w" "trace w1 = trace w"
      "length (arenas w1) = length (arenas w)" "payload_at (arenas w1) p = Some \<lparr>header = header_default, message_body = v\<rparr>"
    using l by (auto split: if_splits)
  then show ?thesis
  proof cases
    case 1
    then show ?thesis using empty by (simp add: publish_with_header_def publish_def)
  next
    case (2 p w1)
    let ?pb = "output_send pb p"
    have bp: "bus_ptrs qitems w1 = bus_ptrs qitems w" and room: "bus_room Q w1 = bus_room Q w"
      using 2(5) by (simp_all add: bus_ptrs_def bus_room_def)
    have pb: "pending ?pb = [p]" "?pb\<lparr>pending := []\<rparr> = pb" "targets ?pb = targets pb" "publication ?pb = publication pb"
      using empty by (simp_all add: output_send_def publication_def fun_eq_iff)
    have "bus_inv F fitems fvalid qitems qvalid w1 (P + mset [p]) U" using 2(4) by simp
    from flush_loop_law [OF this, of ?pb "\<lambda>_. Ret h" 0 "\<lambda>_. h"] 2(2,3) t small pb(3)
    obtain w' where w': "flush_loop F Q ?pb (\<lambda>_. Ret h) 0 [p] w1 = Ret w'" "bus_inv F fitems fvalid qitems qvalid w' P U"
      "length (arenas w') = length (arenas w1)"
      "trace w' = trace w1 @ concat (map2 (\<lambda>j p. publication ?pb (subs w1) ((the (payload_at (arenas w1) p))\<lparr>header := h\<rparr>)) [0..<0 + length [p]] [p])"
      "delivered Q qitems w1 w' (\<lambda>t. concat (map (\<lambda>p. replicate (count_list (targets ?pb) t) p) [p]))"
      by (auto simp: bp room 2(5) simp del: flush_loop.simps)
    from w'(4) have "trace w' = trace w @ publication pb (subs w) \<lparr>header = h, message_body = v\<rparr>"
      by (simp add: 2(5,6,8) pb(4))
    moreover have "bus_room Q w' = bus_room Q w" "length (subs w') = length (subs w)"
      using delivered_room [OF w'(5)] w'(5) room 2(5) by (simp_all add: delivered_def Let_def)
    moreover have "publish_with_header F Q pb h v w = Ret (Inr (pb, w'))"
      using empty 2(1) w'(1) pb(1,2) by (simp add: publish_with_header_def publish_def flush_headers_def)
    ultimately show ?thesis using w'(2,3) 2(7) by auto
  qed
qed

end

interpretation log_sink: record_sink "bus_channel list_array_queue list_array_queue"
  "log_channel_ok list_array_queue lq_items lq_valid list_array_queue lq_items lq_valid"
proof unfold_locales
  fix p :: "publisher \<times> (nat list_queue, ptr list_queue, execution_record) bus" and h r
  let ?ok = "log_channel_ok list_array_queue lq_items lq_valid list_array_queue lq_items lq_valid"
  let ?ch = "bus_channel list_array_queue list_array_queue"
  assume ok: "?ok p"
  obtain pb w where p: "p = (pb, w)" by (cases p)
  from ok p obtain P U where inv: "bus_inv list_array_queue lq_items lq_valid lq_items lq_valid w P U" "pending pb = []"
    "pub_arena pb < length (arenas w)" "set (targets pb) \<subseteq> {..<length (subs w)}" "size P + 1 + bus_room list_array_queue w < usize_max div 2"
    by (auto simp: log_channel_ok_def)
  from lqb.publish_with_header_law [OF inv, of h r]
  show "\<exists>res q. rch_publish ?ch h r p = Ret (res, q) \<and> ?ok q \<and> rch_index ?ch q = rch_index ?ch p"
  proof
    assume "\<exists>e. publish_with_header list_array_queue list_array_queue pb h r w = Ret (Inl e)"
    with ok p show ?thesis by (auto simp: bus_channel_def)
  next
    assume "\<exists>w'. publish_with_header list_array_queue list_array_queue pb h r w = Ret (Inr (pb, w'))
      \<and> bus_inv list_array_queue lq_items lq_valid lq_items lq_valid w' P U \<and> length (arenas w') = length (arenas w)
      \<and> length (subs w') = length (subs w) \<and> bus_room list_array_queue w' = bus_room list_array_queue w
      \<and> trace w' = trace w @ publication pb (subs w) \<lparr>header = h, message_body = r\<rparr>"
    then obtain w' where w': "publish_with_header list_array_queue list_array_queue pb h r w = Ret (Inr (pb, w'))"
      "bus_inv list_array_queue lq_items lq_valid lq_items lq_valid w' P U" "length (arenas w') = length (arenas w)"
      "length (subs w') = length (subs w)" "bus_room list_array_queue w' = bus_room list_array_queue w" by blast
    have "?ok (pb, w')" unfolding log_channel_ok_def prod.case
      using w'(2-5) inv(2-5) by (intro conjI exI [of _ P] exI [of _ U]) simp_all
    with w'(1) p show ?thesis by (simp add: bus_channel_def)
  qed
qed

section \<open>Properties\<close>

lemma ended_execution:
  assumes idle: "active x = None" and run: "execute_callback (recorded_callback c elapsed ch cb) now x = Ret (res, y)"
  shows "active y = None \<and> (case res of
      Skipped \<Rightarrow> record_publisher y = record_publisher x \<and> dropped_records y = dropped_records x
    | Executed \<Rightarrow> \<exists>s1 s2 n r. prepare_callback (rec_ops cb) (inner_state x) = Ret (True, s1)
        \<and> run_prepared (rec_ops cb) now s1 = Ret (BodyOk, s2) \<and> published_one ch r x y \<and> record_outcome r = Committed
        \<and> describes c cb now s1 n r \<and> describes_outputs c cb now s2 n r
    | Failed e \<Rightarrow> \<exists>s1 r. prepare_callback (rec_ops cb) (inner_state x) = Ret (True, s1) \<and> published_one ch r x y
        \<and> record_outcome r = BodyError e \<and> describes c cb now s1 0 r \<and> record_outputs r = [] \<and> record_output_events r = []
    | Unwound \<Rightarrow> \<exists>s1. prepare_callback (rec_ops cb) (inner_state x) = Ret (True, s1)
        \<and> (if record_snapshot c cb now s1 = Panic then record_publisher y = record_publisher x \<and> dropped_records y = dropped_records x
           else \<exists>r. published_one ch r x y \<and> record_outcome r = BodyPanicked \<and> describes c cb now s1 0 r
             \<and> record_outputs r = [] \<and> record_output_events r = []))"
proof -
  let ?cb = "recorded_callback c elapsed ch cb"
  from run obtain ready s1 where prep: "prepare_callback (rec_ops cb) (inner_state x) = Ret (ready, s1)"
    by (auto simp: execute_callback_def recorded_prepare [OF idle])
  let ?x1 = "x\<lparr>inner_state := s1\<rparr>"
  show ?thesis
  proof (cases ready)
    case False
    with run prep show ?thesis by (auto simp: execute_callback_def recorded_prepare [OF idle] idle)
  next
    case True
    with run prep obtain body x2 where body: "run_prepared ?cb now ?x1 = Ret (body, x2)"
      "(case body of BodyErr e \<Rightarrow> Ret (Failed e, x2) | BodyPanic \<Rightarrow> Ret (Unwound, x2)
        | BodyOk \<Rightarrow> and_then (commit_callback ?cb now x2) (\<lambda>s3. Ret (Executed, s3))) = Ret (res, y)"
      by (auto simp: execute_callback_def recorded_prepare [OF idle])
    from body(1) obtain x3 where x3: "recorded_run c elapsed cb now ?x1 = Ret (body, x3)"
      "if body = BodyOk then x2 = x3 else invocation_drop ?cb True x3 = Ret x2"
      by (auto simp: run_prepared_def split: if_splits)
    have "active ?x1 = None" using idle by simp
    with x3(1) show ?thesis
    proof (cases rule: run_cases)
      case unrecorded
      then have snap: "record_snapshot c cb now s1 = Panic" by simp
      from unrecorded x3(2) have "invocation_drop ?cb True ?x1 = Ret x2" by simp
      from drop_silent [OF _ this] idle have "x2 = ?x1\<lparr>inner_state := inner_state x2\<rparr>" by simp
      then have "active x2 = None" "record_publisher x2 = record_publisher x" "dropped_records x2 = dropped_records x"
        using idle by (metis recorder.ext_inject recorder.surjective recorder.update_convs(1))+
      with body(2) unrecorded snap prep True show ?thesis by simp
    next
      case (ran r s2)
      then have r: "record_snapshot c cb now s1 = Ret r" "run_body (rec_ops cb) now s1 = Ret (body, s2)" by simp_all
      note snap = record_snapshot_Ret [OF r(1)]
      have frame: "published_one ch q x3 z \<Longrightarrow> published_one ch q x z" for q z
        by (erule published_one_frame) (simp_all add: ran(3))
      show ?thesis
      proof (cases body)
        case BodyOk
        with x3(2) body(2) obtain commit: "commit_callback ?cb now x3 = Ret y" and res: "res = Executed" by auto
        from ran(3) BodyOk have a: "active x3 = Some (completed r (min (elapsed s2) MAX_DURATION))" "inner_state x3 = s2" by simp_all
        from commit_publishes [OF a(1) commit] a(2) obtain r' where
          r': "record_attempt c cb now s2 (active_record (completed r (min (elapsed s2) MAX_DURATION))) = Ret r'"
            "published_one ch (r'\<lparr>record_outcome := Committed\<rparr>) x3 y" "active y = None" by auto
        have "describes c cb now s1 0 (active_record (completed r (min (elapsed s2) MAX_DURATION)))" using snap by (simp add: completed_def)
        from attempt_describes [OF r'(1) this, of Committed] snap obtain n where
          "describes c cb now s1 n (r'\<lparr>record_outcome := Committed\<rparr>)" "describes_outputs c cb now s2 n (r'\<lparr>record_outcome := Committed\<rparr>)"
          by (auto simp: completed_def)
        moreover have "run_prepared (rec_ops cb) now s1 = Ret (BodyOk, s2)" using r(2) BodyOk by (simp add: run_prepared_def)
        ultimately show ?thesis using r'(3) frame [OF r'(2)] prep True res
          by (intro conjI) (simp, force intro: exI [of _ "r'\<lparr>record_outcome := Committed\<rparr>"])
      next
        case (BodyErr e)
        with x3(2) body(2) have drop: "invocation_drop ?cb True x3 = Ret y" and res: "res = Failed e" by auto
        let ?a = "\<lparr>active_record = r\<lparr>body_duration_ns := min (elapsed s2) MAX_DURATION, record_outcome := BodyError e\<rparr>, body_started = False\<rparr>"
        have "active x3 = Some ?a" using ran(3) BodyErr by simp
        note pub = drop_publishes [OF this drop]
        with frame snap prep True res show ?thesis
          by (auto intro!: exI [of _ "closing_record elapsed (inner_state x3) ?a"])
      next
        case BodyPanic
        with x3(2) body(2) have drop: "invocation_drop ?cb True x3 = Ret y" and res: "res = Unwound" by auto
        let ?a = "\<lparr>active_record = r, body_started = True\<rparr>"
        have "active x3 = Some ?a" using ran(3) BodyPanic by simp
        note pub = drop_publishes [OF this drop]
        with frame snap prep True res r(1) show ?thesis
          by (auto intro!: exI [of _ "closing_record elapsed (inner_state x3) ?a"])
      qed
    qed
  qed
qed

text \<open>A commit that panics.\<close>

lemma record_all_bound: "record_all cap es (xs, t) = Ret (ys, t') \<Longrightarrow> t < 2 ^ 16 \<Longrightarrow> t' < 2 ^ 16"
  using record_all_returns [of cap es xs t] recorded_until_bound [of t cap es xs]
  by (cases "recorded_until cap es (xs, t)") simp

lemma snapshot_bound: "record_snapshot c cb now s = Ret r \<Longrightarrow> record_truncated r < 2 ^ 16"
  by (auto simp: record_snapshot_def new_record_def dest!: record_all_bound split: if_splits prod.splits)

lemma attempt_left_full:
  assumes "record_attempt c cb time s r = Panic" and "attempt_left cb time s r = Ret r'" and "record_truncated r < 2 ^ 16"
  shows "record_callback r' = record_callback r \<and> execution_time r' = execution_time r
    \<and> record_outcome r' = CommitPanicked \<and> record_truncated r' = 2 ^ 16 - 1"
proof -
  let ?acc = "(record_outputs r, record_truncated r)"
  have full: "recorded_mode c = FullMode" using assms(1) by (auto simp: record_attempt_def Let_def split: if_splits)
  obtain ms where ms: "rec_pending_messages cb s = Ret ms"
    using assms(1,2) full by (cases "rec_pending_messages cb s") (auto simp: attempt_left_def record_attempt_def Let_def)
  let ?ms = "map (with_published_at time) ms"
  obtain outs t1 where u: "recorded_until MAX_RECORDED_MESSAGES ?ms ?acc = (outs, t1)" by fastforce
  show ?thesis
  proof (cases "record_all MAX_RECORDED_MESSAGES ?ms ?acc = Panic")
    case True
    with assms(2,3) ms u recorded_until_full [OF True] show ?thesis by (auto simp: attempt_left_def Let_def)
  next
    case False
    note all = record_all_returns [OF False]
    have t1: "t1 < 2 ^ 16" using recorded_until_bound [OF assms(3)] u by (metis snd_conv)
    from assms(1,2) False full ms u all obtain vs where vs: "rec_pending_events cb s = Ret vs"
      by (cases "rec_pending_events cb s") (auto simp: attempt_left_def record_attempt_def Let_def)
    have p: "record_all MAX_RECORDED_EVENTS vs (record_output_events r, t1) = Panic"
    proof (rule ccontr)
      assume "record_all MAX_RECORDED_EVENTS vs (record_output_events r, t1) \<noteq> Panic"
      from record_all_returns [OF this] assms(1) full ms u all vs show False
        by (simp add: record_attempt_def Let_def split: prod.splits)
    qed
    from assms(2) False ms u vs recorded_until_full [OF p t1] show ?thesis
      by (auto simp: attempt_left_def Let_def split: prod.splits)
  qed
qed

lemma commit_panic_publishes:
  assumes a: "active x = Some (completed r d)" and bound: "record_truncated r < 2 ^ 16"
    and snap: "describes c cb now s1 0 r" "record_outputs r = []" "record_output_events r = []"
    and run: "recorded_commit_caught c elapsed ch cb now x = Ret (False, y)"
  shows "\<exists>q. published_one ch q x y \<and> active y = None \<and> record_outcome q = CommitPanicked
    \<and> ((\<exists>n. describes c cb now s1 n q \<and> describes_outputs c cb now (inner_state x) n q)
       \<or> (record_callback q = recorded_id c \<and> execution_time q = now \<and> record_truncated q = 2 ^ 16 - 1))"
proof -
  let ?a = "completed r d"
  from run obtain z where flush: "recorded_flush_caught c ch cb now x = Ret (False, z)"
    and drop: "invocation_drop (recorded_callback c elapsed ch cb) True z = Ret y"
    by (auto simp: recorded_commit_caught_def)
  have publishes: ?thesis
    if z: "active z = Some (?a\<lparr>active_record := q\<rparr>)" "record_publisher z = record_publisher x" "dropped_records z = dropped_records x"
      and q: "record_outcome q = CommitPanicked"
        "(\<exists>n. describes c cb now s1 n q \<and> describes_outputs c cb now (inner_state x) n q)
         \<or> (record_callback q = recorded_id c \<and> execution_time q = now \<and> record_truncated q = 2 ^ 16 - 1)" for q
  proof -
    have "closing_record elapsed (inner_state z) (?a\<lparr>active_record := q\<rparr>) = q"
      using q(1) by (simp add: closing_record_def completed_def)
    with drop_publishes [OF z(1) drop] z(2,3) q show ?thesis
      by (intro exI [of _ q]) (auto intro: published_one_frame)
  qed
  show ?thesis
  proof (cases "record_attempt c cb now (inner_state x) (active_record ?a)")
    case (Ret q)
    have out: "record_outcome q = CommitPanicked"
      using Ret by (auto simp: record_attempt_def Let_def split: if_splits)
    then have same: "q\<lparr>record_outcome := CommitPanicked\<rparr> = q" by simp
    from attempt_describes [OF Ret, of now s1 CommitPanicked] snap have
      "\<exists>n. describes c cb now s1 n q \<and> describes_outputs c cb now (inner_state x) n q"
      by (simp add: same) (simp add: completed_def)
    moreover have "z = x\<lparr>inner_state := rec_flush_left cb now (inner_state x), active := Some (?a\<lparr>active_record := q\<rparr>)\<rparr>"
      using flush a Ret by (auto simp: recorded_flush_caught_def split: outcome.splits)
    ultimately show ?thesis using out by (intro publishes [of q]) simp_all
  next
    case Panic
    with flush a obtain q where q: "attempt_left cb now (inner_state x) (active_record ?a) = Ret q"
      "z = x\<lparr>active := Some (?a\<lparr>active_record := q\<rparr>)\<rparr>"
      by (auto simp: recorded_flush_caught_def)
    from attempt_left_full [OF Panic q(1)] bound snap(1) show ?thesis
      by (intro publishes [of q]) (simp_all add: q(2), simp_all add: completed_def describes_def)
  qed (use flush a in \<open>auto simp: recorded_flush_caught_def\<close>)
qed

lemma execute_recorded_agrees:
  assumes "execute_recorded c elapsed ch cb now x = Ret (res, y)"
  shows "execute_callback (recorded_callback c elapsed ch cb) now x = (case res of Ended r \<Rightarrow> Ret (r, y) | CommitUnwound \<Rightarrow> Panic)"
proof -
  let ?cb = "recorded_callback c elapsed ch cb"
  from assms obtain ready x1 where prep: "prepare_callback ?cb x = Ret (ready, x1)" by (auto simp: execute_recorded_def)
  show ?thesis
  proof (cases ready)
    case False
    with assms prep show ?thesis by (auto simp: execute_recorded_def execute_callback_def)
  next
    case True
    with assms prep obtain r x2 where r: "run_prepared ?cb now x1 = Ret (r, x2)" by (auto simp: execute_recorded_def)
    have commit: "commit_callback ?cb now x2 = (if returned then Ret x3 else Panic)"
      if "recorded_commit_caught c elapsed ch cb now x2 = Ret (returned, x3)" for returned x3
    proof -
      from that obtain z where z: "recorded_flush_caught c ch cb now x2 = Ret (returned, z)" "invocation_drop ?cb True z = Ret x3"
        by (auto simp: recorded_commit_caught_def)
      then show ?thesis by (cases returned) (simp_all add: commit_callback_def recorded_flush_def)
    qed
    show ?thesis
    proof (cases r)
      case BodyOk
      with assms prep True r obtain returned x3 where c: "recorded_commit_caught c elapsed ch cb now x2 = Ret (returned, x3)"
        "res = (if returned then Ended Executed else CommitUnwound)" "y = x3"
        by (auto simp: execute_recorded_def)
      from commit [OF c(1)] c(2,3) prep True r BodyOk show ?thesis by (simp add: execute_callback_def)
    qed (use assms prep True r in \<open>auto simp: execute_recorded_def execute_callback_def\<close>)
  qed
qed

text \<open>
  C28: every execution of a recorded callback publishes one record and ends with none at work. A skipped execution
  publishes nothing; a committed one a record of outcome \<open>Committed\<close> with the messages and events it saw prepared and
  those it published, at the time of the execution, up to the capacity and with the number of the others; a failed one
  the error and no outputs; one that panicked \<open>BodyPanicked\<close> and no outputs, unless the panic was that of the
  recording itself before the body ran; one whose commit panicked \<open>CommitPanicked\<close> with its inputs and the outputs it
  tried to publish, unless it was the counter of what did not fit that overflowed.
\<close>

theorem one_record_per_execution:
  assumes idle: "active x = None" and run: "execute_recorded c elapsed ch cb now x = Ret (res, y)"
  shows "execute_callback (recorded_callback c elapsed ch cb) now x = (case res of Ended r \<Rightarrow> Ret (r, y) | CommitUnwound \<Rightarrow> Panic)
    \<and> active y = None \<and> (case res of
      Ended Skipped \<Rightarrow> record_publisher y = record_publisher x \<and> dropped_records y = dropped_records x
    | Ended Executed \<Rightarrow> \<exists>s1 s2 n r. prepare_callback (rec_ops cb) (inner_state x) = Ret (True, s1)
        \<and> run_prepared (rec_ops cb) now s1 = Ret (BodyOk, s2) \<and> published_one ch r x y \<and> record_outcome r = Committed
        \<and> describes c cb now s1 n r \<and> describes_outputs c cb now s2 n r
    | Ended (Failed e) \<Rightarrow> \<exists>s1 r. prepare_callback (rec_ops cb) (inner_state x) = Ret (True, s1) \<and> published_one ch r x y
        \<and> record_outcome r = BodyError e \<and> describes c cb now s1 0 r \<and> record_outputs r = [] \<and> record_output_events r = []
    | Ended Unwound \<Rightarrow> \<exists>s1. prepare_callback (rec_ops cb) (inner_state x) = Ret (True, s1)
        \<and> (if record_snapshot c cb now s1 = Panic then record_publisher y = record_publisher x \<and> dropped_records y = dropped_records x
           else \<exists>r. published_one ch r x y \<and> record_outcome r = BodyPanicked \<and> describes c cb now s1 0 r
             \<and> record_outputs r = [] \<and> record_output_events r = [])
    | CommitUnwound \<Rightarrow> \<exists>s1 s2 r. prepare_callback (rec_ops cb) (inner_state x) = Ret (True, s1)
        \<and> run_prepared (rec_ops cb) now s1 = Ret (BodyOk, s2) \<and> published_one ch r x y \<and> record_outcome r = CommitPanicked
        \<and> ((\<exists>n. describes c cb now s1 n r \<and> describes_outputs c cb now s2 n r)
           \<or> (record_callback r = recorded_id c \<and> execution_time r = now \<and> record_truncated r = 2 ^ 16 - 1)))"
proof (cases res)
  case (Ended e)
  with execute_recorded_agrees [OF run] have ex: "execute_callback (recorded_callback c elapsed ch cb) now x = Ret (e, y)" by simp
  from ended_execution [OF idle ex] ex Ended show ?thesis by (cases e) simp_all
next
  case CommitUnwound
  let ?cb = "recorded_callback c elapsed ch cb"
  from run CommitUnwound obtain s1 where prep: "prepare_callback (rec_ops cb) (inner_state x) = Ret (True, s1)"
    by (auto simp: execute_recorded_def recorded_prepare [OF idle] split: if_splits)
  with run obtain b x2 where b: "run_prepared ?cb now (x\<lparr>inner_state := s1\<rparr>) = Ret (b, x2)"
    by (auto simp: execute_recorded_def recorded_prepare [OF idle])
  with run prep CommitUnwound have body: "run_prepared ?cb now (x\<lparr>inner_state := s1\<rparr>) = Ret (BodyOk, x2)"
    and commit: "recorded_commit_caught c elapsed ch cb now x2 = Ret (False, y)"
    by (cases b; auto simp: execute_recorded_def recorded_prepare [OF idle] split: if_splits)+
  from body have "recorded_run c elapsed cb now (x\<lparr>inner_state := s1\<rparr>) = Ret (BodyOk, x2)"
    by (auto simp: run_prepared_def split: if_splits)
  then obtain r s2 where r: "record_snapshot c cb now s1 = Ret r" "run_body (rec_ops cb) now s1 = Ret (BodyOk, s2)"
    "x2 = x\<lparr>inner_state := s2, active := Some (completed r (min (elapsed s2) MAX_DURATION))\<rparr>"
    by (cases rule: run_cases) (simp_all add: idle)
  have act: "active x2 = Some (completed r (min (elapsed s2) MAX_DURATION))" using r(3) by simp
  note snap = record_snapshot_Ret [OF r(1)]
  from commit_panic_publishes [OF act snapshot_bound [OF r(1)] conjunct1 [OF snap] _ _ commit] snap
  obtain q where q: "published_one ch q x2 y" "active y = None" "record_outcome q = CommitPanicked"
    "(\<exists>n. describes c cb now s1 n q \<and> describes_outputs c cb now s2 n q)
       \<or> (record_callback q = recorded_id c \<and> execution_time q = now \<and> record_truncated q = 2 ^ 16 - 1)"
    using r(3) by auto
  have "published_one ch q x y" by (rule published_one_frame [OF q(1)]) (simp_all add: r(3))
  moreover have "run_prepared (rec_ops cb) now s1 = Ret (BodyOk, s2)" using r(2) by (simp add: run_prepared_def)
  ultimately show ?thesis using execute_recorded_agrees [OF run] CommitUnwound prep q by auto
qed

text \<open>
  C29: recording does not disturb. On a consistent channel of records, and unless an execution handles tens of thousands
  of messages, executing the recorded callback has the result and the effect on the callback's state that executing the
  callback itself has, whether it is skipped, fails, panics or commits, and whether the record was accepted or dropped.
\<close>

theorem recording_transparent:
  assumes "active x = None"
    and "log_channel_ok list_array_queue lq_items lq_valid list_array_queue lq_items lq_valid (record_publisher x)"
    and "\<And>s1. prepare_callback (rec_ops cb) (inner_state x) = Ret (True, s1) \<Longrightarrow> few c (rec_prepared_messages cb) (rec_prepared_events cb) s1"
    and "\<And>s1 s2. prepare_callback (rec_ops cb) (inner_state x) = Ret (True, s1) \<Longrightarrow> run_body (rec_ops cb) now s1 = Ret (BodyOk, s2)
      \<Longrightarrow> few c (rec_pending_messages cb) (rec_pending_events cb) s2"
  shows "and_then (execute_callback (recorded_callback c elapsed (bus_channel list_array_queue list_array_queue) cb) now x)
      (\<lambda>(res, y). Ret (res, inner_state y))
    = execute_callback (rec_ops cb) now (inner_state x)"
  using assms by (rule log_sink.execute_transparent)

text \<open>
  an execution that completed and is then cancelled with its batch publishes one record of outcome \<open>Cancelled\<close>, with
  its inputs and no outputs.
\<close>

theorem cancelled_execution_recorded:
  assumes idle: "active x = None" and run: "run_prepared (recorded_callback c elapsed ch cb) now x = Ret (BodyOk, x1)"
    and drop: "invocation_drop (recorded_callback c elapsed ch cb) True x1 = Ret y"
  shows "\<exists>r. published_one ch r x y \<and> record_outcome r = Cancelled \<and> describes c cb now (inner_state x) 0 r
    \<and> record_outputs r = [] \<and> record_output_events r = [] \<and> active y = None
    \<and> invocation_drop (rec_ops cb) True (inner_state x1) = Ret (inner_state y)"
proof -
  from run have body: "recorded_run c elapsed cb now x = Ret (BodyOk, x1)"
    by (auto simp: run_prepared_def split: if_splits)
  from body idle obtain r s where r: "record_snapshot c cb now (inner_state x) = Ret r"
    "x1 = x\<lparr>inner_state := s, active := Some (completed r (min (elapsed s) MAX_DURATION))\<rparr>"
    by (cases rule: run_cases) auto
  let ?a = "completed r (min (elapsed s) MAX_DURATION)"
  have a: "active x1 = Some ?a" using r(2) by simp
  note pub = drop_publishes [OF a drop]
  have "published_one ch (closing_record elapsed (inner_state x1) ?a) x y"
    by (rule published_one_frame [OF conjunct1 [OF pub]]) (simp_all add: r(2))
  with pub record_snapshot_Ret [OF r(1)] show ?thesis
    by (intro exI [of _ "closing_record elapsed (inner_state x1) ?a"]) (simp add: completed_def)
qed

lemma log_callback_Inr:
  assumes "log_callback endpoints_of modes tables name cb lps = Ret (Inr (lcb, d, lps'))"
  shows "d = \<lparr>desc_name = name, desc_mode = mode_for modes name, desc_endpoints = (case endpoints_of cb of None \<Rightarrow> [] | Some ps \<Rightarrow> ps)\<rparr>
    \<and> (mode_for modes name = FullMode \<longrightarrow> endpoints_of cb \<noteq> None \<and> validate_record_capacity name (desc_endpoints d) = Inr ())
    \<and> (if mode_for modes name = ModeOff then lcb = Unlogged cb \<and> lps' = lps
       else \<exists>i rp ep. lcb = Logged cb \<lparr>recorded_id = i, recorded_mode = mode_for modes name\<rparr> rp ep
         \<and> lookup_by_value (callbacks_table tables) name = Some i
         \<and> map_of (record_publishers lps) name = Some rp \<and> map_of (event_publishers lps) name = Some ep
         \<and> record_publishers lps' = AList.delete name (record_publishers lps)
         \<and> event_publishers lps' = AList.delete name (event_publishers lps))"
  using assms
  by (cases "mode_for modes name"; cases "endpoints_of cb")
    (auto simp: log_callback_def Let_def split: sum.splits option.splits if_splits)

text \<open>How a callback appears in the recorded graph.\<close>

definition logged_as ::
  "('c \<Rightarrow> endpoint_descriptor list option) \<Rightarrow> execution_log_modes \<Rightarrow> intern_tables \<Rightarrow> 'p log_publishers \<Rightarrow> 'c scheduled_callback
     \<Rightarrow> ('c, 'p) logged_callback scheduled_callback \<Rightarrow> callback_descriptor \<Rightarrow> bool" where
  "logged_as endpoints_of modes tables lps node lnode d \<longleftrightarrow> (let name = cb_name node; mode = mode_for modes name in
     cb_name lnode = name \<and> cb_schedule lnode = cb_schedule node
     \<and> d = \<lparr>desc_name = name, desc_mode = mode, desc_endpoints = (case endpoints_of (cb_callback node) of None \<Rightarrow> [] | Some ps \<Rightarrow> ps)\<rparr>
     \<and> (mode = FullMode \<longrightarrow> endpoints_of (cb_callback node) \<noteq> None
          \<and> (\<forall>dir. endpoint_group (desc_endpoints d) dir False \<le> MAX_RECORDED_MESSAGES \<and> endpoint_group (desc_endpoints d) dir True \<le> MAX_RECORDED_EVENTS))
     \<and> (if mode = ModeOff then cb_callback lnode = Unlogged (cb_callback node)
        else \<exists>i rp ep. cb_callback lnode = Logged (cb_callback node) \<lparr>recorded_id = i, recorded_mode = mode\<rparr> rp ep
          \<and> lookup_by_value (callbacks_table tables) name = Some i
          \<and> map_of (record_publishers lps) name = Some rp \<and> map_of (event_publishers lps) name = Some ep))"

lemma validate_record_capacity_Inr:
  "validate_record_capacity name ps = Inr () \<longleftrightarrow>
     (\<forall>dir. endpoint_group ps dir False \<le> MAX_RECORDED_MESSAGES \<and> endpoint_group ps dir True \<le> MAX_RECORDED_EVENTS)"
proof -
  have "(\<forall>dir. P dir) \<longleftrightarrow> P Received \<and> P Published" for P by (metis direction.exhaust)
  then show ?thesis by (auto simp: validate_record_capacity_def)
qed

lemma filter_delete: "filter (\<lambda>(n, _). n \<notin> S) (AList.delete k xs) = filter (\<lambda>(n, _). n \<notin> insert k S) xs"
  by (auto simp: AList.delete_eq intro!: filter_cong)

lemma log_callbacks_Inr:
  assumes "log_callbacks endpoints_of modes tables nodes lps = Ret (Inr (cs, ds, lps'))" and "distinct (map cb_name nodes)"
  defines "logged \<equiv> {cb_name n | n. n \<in> set nodes \<and> mode_for modes (cb_name n) \<noteq> ModeOff}"
  shows "length cs = length nodes \<and> length ds = length nodes
    \<and> (\<forall>i < length nodes. logged_as endpoints_of modes tables lps (nodes ! i) (cs ! i) (ds ! i))
    \<and> record_publishers lps' = filter (\<lambda>(n, _). n \<notin> logged) (record_publishers lps)
    \<and> event_publishers lps' = filter (\<lambda>(n, _). n \<notin> logged) (event_publishers lps)"
  using assms(1,2) unfolding logged_def
proof (induction nodes arbitrary: lps cs ds)
  case (Cons node nodes)
  from Cons.prems(1) obtain q where q: "log_callback endpoints_of modes tables (cb_name node) (cb_callback node) lps = Ret q" by auto
  with Cons.prems(1) obtain cb d lps1 where q': "q = Inr (cb, d, lps1)" by (cases q) auto
  with Cons.prems(1) q obtain q2 where q2: "log_callbacks endpoints_of modes tables nodes lps1 = Ret q2" by auto
  with Cons.prems(1) q q' obtain cs1 ds1 where
    one: "log_callback endpoints_of modes tables (cb_name node) (cb_callback node) lps = Ret (Inr (cb, d, lps1))"
      "log_callbacks endpoints_of modes tables nodes lps1 = Ret (Inr (cs1, ds1, lps'))"
      "cs = \<lparr>cb_name = cb_name node, cb_callback = cb, cb_schedule = cb_schedule node\<rparr> # cs1" "ds = d # ds1"
    by (cases q2) auto
  note first = log_callback_Inr [OF one(1)]
  from Cons.prems(2) have "distinct (map cb_name nodes)" "cb_name node \<notin> cb_name ` set nodes" by simp_all
  note rest = Cons.IH [OF one(2) this(1)]
  have sub: "map_of (record_publishers lps1) n = map_of (record_publishers lps) n" "map_of (event_publishers lps1) n = map_of (event_publishers lps) n"
    if "n \<noteq> cb_name node" for n
    using first that by (auto simp: delete_conv' split: if_splits)
  have head: "logged_as endpoints_of modes tables lps node (\<lparr>cb_name = cb_name node, cb_callback = cb, cb_schedule = cb_schedule node\<rparr>) d"
    using first by (auto simp: logged_as_def Let_def validate_record_capacity_Inr)
  have tail: "logged_as endpoints_of modes tables lps (nodes ! i) (cs1 ! i) (ds1 ! i)" if "i < length nodes" for i
  proof -
    have "cb_name (nodes ! i) \<noteq> cb_name node" using \<open>cb_name node \<notin> cb_name ` set nodes\<close> imageI [OF nth_mem [OF that], of cb_name] by auto
    then have "logged_as endpoints_of modes tables lps (nodes ! i) = logged_as endpoints_of modes tables lps1 (nodes ! i)"
      by (simp add: fun_eq_iff logged_as_def sub)
    with rest that show ?thesis by simp
  qed
  define S where "S = {cb_name n | n. n \<in> set nodes \<and> mode_for modes (cb_name n) \<noteq> ModeOff}"
  have names: "{cb_name n | n. n \<in> set (node # nodes) \<and> mode_for modes (cb_name n) \<noteq> ModeOff}
      = (if mode_for modes (cb_name node) = ModeOff then S else insert (cb_name node) S)" by (auto simp: S_def)
  from first have "if mode_for modes (cb_name node) = ModeOff then lps1 = lps
      else record_publishers lps1 = AList.delete (cb_name node) (record_publishers lps)
        \<and> event_publishers lps1 = AList.delete (cb_name node) (event_publishers lps)" by (auto split: if_splits)
  with rest [folded S_def] have "record_publishers lps' = filter (\<lambda>(n, _). n \<notin> (if mode_for modes (cb_name node) = ModeOff then S else insert (cb_name node) S)) (record_publishers lps)"
    "event_publishers lps' = filter (\<lambda>(n, _). n \<notin> (if mode_for modes (cb_name node) = ModeOff then S else insert (cb_name node) S)) (event_publishers lps)"
    by (simp_all add: filter_delete split: if_splits)
  with head tail rest one(3,4) show ?case unfolding names by (simp add: less_Suc_eq_0_disj all_conj_distrib) (auto simp: less_Suc_eq_0_disj)
qed simp

text \<open>
  wrapping a graph for recording keeps its callbacks' names, schedules and order and describes each of them; every
  callback whose mode is not off is wrapped under its own interned id with the publishers of its name, the others are left
  alone, callbacks recorded in full have endpoint groups that fit into a record, and no publisher is left over.
\<close>

theorem recorded_graph_complete:
  assumes ok: "with_execution_log endpoints_of modes lps g = Ret (Inr (g', m))" and names: "distinct (map cb_name (graph_callbacks g))"
  shows "metadata g' = metadata g \<and> log_tables m = metadata_intern_tables (metadata g)
    \<and> length (graph_callbacks g') = length (graph_callbacks g) \<and> length (desc_callbacks (log_descriptor m)) = length (graph_callbacks g)
    \<and> (\<forall>i < length (graph_callbacks g). logged_as endpoints_of modes (metadata_intern_tables (metadata g)) lps
         (graph_callbacks g ! i) (graph_callbacks g' ! i) (desc_callbacks (log_descriptor m) ! i))
    \<and> fst ` set (record_publishers lps) \<union> fst ` set (event_publishers lps)
        \<subseteq> {cb_name n | n. n \<in> set (graph_callbacks g) \<and> mode_for modes (cb_name n) \<noteq> ModeOff}"
proof -
  from ok obtain q where q: "log_callbacks endpoints_of modes (metadata_intern_tables (metadata g)) (graph_callbacks g) lps = Ret q"
    by (auto simp: with_execution_log_def Let_def split: option.splits)
  with ok obtain cs ds rest where r: "log_callbacks endpoints_of modes (metadata_intern_tables (metadata g)) (graph_callbacks g) lps
      = Ret (Inr (cs, ds, rest))" "record_publishers rest = []" "event_publishers rest = []"
    "g' = \<lparr>graph_callbacks = cs, metadata = metadata g\<rparr>"
    "m = \<lparr>log_descriptor = \<lparr>desc_callbacks = ds, logged_channels = []\<rparr>, log_tables = metadata_intern_tables (metadata g)\<rparr>"
    by (cases q) (auto simp: with_execution_log_def Let_def split: option.splits if_splits)
  note law = log_callbacks_Inr [OF r(1) names]
  have none_left: "ys = filter (\<lambda>(n, _). n \<notin> S) xs \<Longrightarrow> ys = [] \<Longrightarrow> fst ` set xs \<subseteq> S" for ys xs :: "(string \<times> 'b) list" and S
    by (fastforce simp: filter_empty_conv)
  note left = law [THEN conjunct2, THEN conjunct2, THEN conjunct2]
  have "fst ` set (record_publishers lps) \<union> fst ` set (event_publishers lps)
      \<subseteq> {cb_name n | n. n \<in> set (graph_callbacks g) \<and> mode_for modes (cb_name n) \<noteq> ModeOff}"
    by (rule Un_least [OF none_left [OF conjunct1 [OF left] r(2)] none_left [OF conjunct2 [OF left] r(3)]])
  with law r(4,5) show ?thesis by simp
qed

text \<open>A callback that counts its executions and publishes one message per execution; its records go to a list.\<close>

definition tick_message :: "nat \<Rightarrow> logged_message" where
  "tick_message n = \<lparr>logged_ordinal = 0, logged_header = MessageHeader INVALID 4 (of_nat n)\<rparr>"

definition tick_callback :: "nat recordable" where
  "tick_callback = \<lparr>rec_ops = \<lparr>update_inputs = Ret, required_inputs_ready = (\<lambda>_. True), required_inputs_available = (\<lambda>_. True),
       run_body = (\<lambda>now s. Ret (BodyOk, s + 1)), finish_inputs = Ret, flush_outputs = (\<lambda>_. Ret), discard_outputs = Ret\<rparr>,
     rec_endpoints = (\<lambda>_. None), rec_prepared_messages = (\<lambda>s. Ret (map tick_message [0..<17])), rec_pending_messages = (\<lambda>s. Ret [tick_message 0]),
     rec_prepared_events = (\<lambda>_. Ret []), rec_pending_events = (\<lambda>_. Ret []), rec_flush_left = (\<lambda>_ s. s)\<rparr>"

definition list_channel :: "(message_header \<times> execution_record) list record_channel" where
  "list_channel = \<lparr>rch_publish = (\<lambda>h r p. Ret (Inr (), p @ [(h, r)])), rch_index = (\<lambda>_. 2)\<rparr>"

definition tick_recorded :: execution_log_recorded where
  "tick_recorded = \<lparr>recorded_id = InternId 5, recorded_mode = FullMode\<rparr>"

definition tick_recorder :: "'p \<Rightarrow> (nat, 'p) recorder" where
  "tick_recorder p = \<lparr>inner_state = 7, record_publisher = p, active = None, dropped_records = 0\<rparr>"

lemma tick_snapshot:
  "record_snapshot tick_recorded tick_callback now s = Ret \<lparr>record_callback = InternId 5, execution_time = now, body_duration_ns = 0,
     record_inputs = map tick_message [0..<16], record_events = [], record_output_events = [], record_outputs = [],
     record_outcome = BodyPanicked, record_truncated = 1\<rparr>"
  by (simp add: record_snapshot_def tick_recorded_def tick_callback_def new_record_def MAX_RECORDED_MESSAGES_def upt_rec)

lemma tick_execute:
  "\<exists>y. execute_recorded tick_recorded (\<lambda>_. 9) list_channel tick_callback (from_nanos 50) (tick_recorder []) = Ret (Ended Executed, y)
     \<and> length (record_publisher y) = 1"
  by (simp add: execute_recorded_def recorded_prepare tick_recorder_def prepare_callback_def run_prepared_def recorded_run_def tick_snapshot
      recorded_commit_caught_def recorded_flush_caught_def record_attempt_def publish_record_def list_channel_def invocation_drop_def recorded_discard_def
      on_inner_def MAX_RECORDED_MESSAGES_def)
    (simp add: tick_callback_def tick_recorded_def on_inner_def MAX_RECORDED_MESSAGES_def Let_def ex_bool_eq publish_record_def)


text \<open>The same callback with a \<open>flush_outputs\<close> that panics.\<close>

definition panicking_callback :: "nat recordable" where
  "panicking_callback = tick_callback\<lparr>rec_ops := (rec_ops tick_callback)\<lparr>flush_outputs := (\<lambda>_ _. Panic)\<rparr>\<rparr>"

lemma tick_snapshot_panicking: "record_snapshot tick_recorded panicking_callback now s = record_snapshot tick_recorded tick_callback now s"
  by (simp add: record_snapshot_def panicking_callback_def)

lemma panicking_execute:
  "\<exists>y. execute_recorded tick_recorded (\<lambda>_. 9) list_channel panicking_callback (from_nanos 50) (tick_recorder []) = Ret (CommitUnwound, y)
     \<and> length (record_publisher y) = 1"
  by (simp add: execute_recorded_def recorded_prepare tick_recorder_def prepare_callback_def run_prepared_def recorded_run_def
      tick_snapshot_panicking tick_snapshot recorded_commit_caught_def recorded_flush_caught_def record_attempt_def publish_record_def
      list_channel_def invocation_drop_def recorded_discard_def on_inner_def MAX_RECORDED_MESSAGES_def)
    (simp add: panicking_callback_def tick_callback_def tick_recorded_def on_inner_def MAX_RECORDED_MESSAGES_def Let_def ex_bool_eq
      closing_record_def publish_record_def)

theorem one_record_per_execution_witness:
  "(\<exists>r y. execute_recorded tick_recorded (\<lambda>_. 9) list_channel tick_callback (from_nanos 50) (tick_recorder []) = Ret (Ended Executed, y)
     \<and> published_one list_channel r (tick_recorder []) y \<and> record_outcome r = Committed \<and> active y = None)
   \<and> (\<exists>r y. execute_recorded tick_recorded (\<lambda>_. 9) list_channel panicking_callback (from_nanos 50) (tick_recorder []) = Ret (CommitUnwound, y)
     \<and> published_one list_channel r (tick_recorder []) y \<and> record_outcome r = CommitPanicked \<and> active y = None)"
proof -
  obtain y where y: "execute_recorded tick_recorded (\<lambda>_. 9) list_channel tick_callback (from_nanos 50) (tick_recorder []) = Ret (Ended Executed, y)"
    using tick_execute by blast
  obtain z where z: "execute_recorded tick_recorded (\<lambda>_. 9) list_channel panicking_callback (from_nanos 50) (tick_recorder []) = Ret (CommitUnwound, z)"
    using panicking_execute by blast
  have idle: "active (tick_recorder []) = None" by (simp add: tick_recorder_def)
  from one_record_per_execution [OF idle y] one_record_per_execution [OF idle z] y z show ?thesis by auto
qed

definition record_bus :: "(nat list_queue, ptr list_queue, execution_record) bus" where
  "record_bus = \<lparr>
     arenas = [\<lparr>arena_capacity = 2,
       storage = [\<lparr>ref_count = 0, payload = None\<rparr>, \<lparr>ref_count = 0, payload = None\<rparr>],
       free_list = \<lparr>lq_capacity = 2, lq_items = [0, 1]\<rparr>\<rparr>],
     subs = [\<lparr>sub_buffer = \<lparr>write_queue = \<lparr>inner = \<lparr>lq_capacity = 1, lq_items = []\<rparr>, dropped = 0\<rparr>,
         read_storage = [], read_capacity = 1, read_drops = 0\<rparr>,
       sub_channel = ''c'', sub_wake = True, sub_policy = \<lparr>trigger = True, keep_across_runs = False\<rparr>\<rparr>],
     trace = []\<rparr>"

lemma record_bus_ok:
  "log_channel_ok list_array_queue lq_items lq_valid list_array_queue lq_items lq_valid (sample_publisher, record_bus)"
proof -
  have "bus_inv list_array_queue lq_items lq_valid lq_items lq_valid record_bus {#} {}"
    by (simp add: bus_inv_def record_bus_def store_inv_def arena_inv_def bus_ptrs_def sub_ptrs_def
        written_def buffer_inv_def lq_valid_def nth_Cons split: nat.split) auto
  moreover have "size ({#} :: ptr multiset) + 1 + bus_room list_array_queue record_bus < usize_max div 2"
    by (simp add: record_bus_def bus_room_def usize_max_def list_array_queue_def single_buffer_capacity_def mpsc_capacity_def)
  ultimately show ?thesis unfolding log_channel_ok_def prod.case
    by (intro conjI exI [of _ "{#}"] exI [of _ "{}"]) (simp_all add: sample_publisher_def record_bus_def)
qed

theorem recording_transparent_witness:
  "\<exists>y. execute_callback (recorded_callback tick_recorded (\<lambda>_. 9) (bus_channel list_array_queue list_array_queue) tick_callback)
      (from_nanos 50) (tick_recorder (sample_publisher, record_bus)) = Ret (Executed, y) \<and> inner_state y = 8"
proof -
  let ?x = "tick_recorder (sample_publisher, record_bus)"
  let ?m = "execute_callback (recorded_callback tick_recorded (\<lambda>_. 9) (bus_channel list_array_queue list_array_queue) tick_callback) (from_nanos 50) ?x"
  have "and_then ?m (\<lambda>(res, y). Ret (res, inner_state y)) = execute_callback (rec_ops tick_callback) (from_nanos 50) (inner_state ?x)"
    by (rule recording_transparent) (simp_all add: tick_recorder_def record_bus_ok few_def tick_callback_def)
  also have "\<dots> = Ret (Executed, 8)"
    by (simp add: tick_callback_def tick_recorder_def execute_callback_def prepare_callback_def run_prepared_def commit_callback_def invocation_drop_def)
  finally show ?thesis by (cases ?m) auto
qed

theorem cancelled_execution_recorded_witness:
  "\<exists>x1 y r. run_prepared (recorded_callback tick_recorded (\<lambda>_. 9) list_channel tick_callback) (from_nanos 50) (tick_recorder []) = Ret (BodyOk, x1)
     \<and> invocation_drop (recorded_callback tick_recorded (\<lambda>_. 9) list_channel tick_callback) True x1 = Ret y
     \<and> published_one list_channel r (tick_recorder []) y \<and> record_outcome r = Cancelled"
proof -
  let ?cb = "recorded_callback tick_recorded (\<lambda>_. 9) list_channel tick_callback"
  have "\<exists>x1 y. run_prepared ?cb (from_nanos 50) (tick_recorder []) = Ret (BodyOk, x1) \<and> invocation_drop ?cb True x1 = Ret y"
    by (simp add: run_prepared_def recorded_run_def tick_snapshot tick_recorder_def invocation_drop_def recorded_discard_def publish_record_def
        list_channel_def on_inner_def) (simp add: tick_callback_def publish_record_def on_inner_def Let_def)
  then obtain x1 y where y: "run_prepared ?cb (from_nanos 50) (tick_recorder []) = Ret (BodyOk, x1)" "invocation_drop ?cb True x1 = Ret y" by blast
  have "active (tick_recorder []) = None" by (simp add: tick_recorder_def)
  from cancelled_execution_recorded [OF this y] y show ?thesis by blast
qed


definition tick_graph :: "nat built_graph" where
  "tick_graph = \<lparr>graph_callbacks = [\<lparr>cb_name = ''tick'', cb_callback = 0, cb_schedule = on_start\<rparr>],
     metadata = \<lparr>channel_names = interner_new, callback_names = snd (intern interner_new ''tick'')\<rparr>\<rparr>"

definition full_modes :: execution_log_modes where
  "full_modes = \<lparr>default_mode = FullMode, mode_callbacks = Map.empty\<rparr>"

theorem recorded_graph_complete_witness:
  "\<exists>g' m. with_execution_log (\<lambda>_. Some []) full_modes \<lparr>record_publishers = [(''tick'', 1 :: nat)], event_publishers = [(''tick'', 2)]\<rparr> tick_graph
       = Ret (Inr (g', m)) \<and> length (desc_callbacks (log_descriptor m)) = 1"
proof -
  let ?lps = "\<lparr>record_publishers = [(''tick'', 1 :: nat)], event_publishers = [(''tick'', 2)]\<rparr>"
  have "\<exists>g' m. with_execution_log (\<lambda>_. Some []) full_modes ?lps tick_graph = Ret (Inr (g', m))"
    by (simp add: with_execution_log_def tick_graph_def full_modes_def log_callback_def mode_for_def metadata_intern_tables_def
        intern_def interner_new_def lookup_by_value_def validate_record_capacity_def endpoint_group_def Let_def)
  then obtain g' m where ok: "with_execution_log (\<lambda>_. Some []) full_modes ?lps tick_graph = Ret (Inr (g', m))" by blast
  have "distinct (map cb_name (graph_callbacks tick_graph))" by (simp add: tick_graph_def)
  from recorded_graph_complete [OF ok this] ok show ?thesis by (simp add: tick_graph_def)
qed

end
