(* ===== verification/Graph_Plan.thy ===== *)
theory Graph_Plan
  imports Channel_Run Simulation_Steps
begin

text \<open>
  \<open>task_graph/src/plan.rs\<close>, \<open>endpoints.rs\<close>, \<open>bundle.rs\<close>, \<open>capture.rs\<close>, \<open>replay.rs\<close>, \<open>topology.rs\<close> and
  \<open>application.rs\<close> in the build without shared memory: how tasks declare their endpoints on named channels, how
  captures, injections and forwarding are added to the plan, and the invariant that all of this keeps.

  A type is its \<open>TypeId\<close> with its name. A function pointer that is instantiated for a payload type, as in the
  declarations of captures and replay sources, is that type. A \<open>BTreeMap\<close> is the list of its entries in the order of
  the keys. Errors have a constructor per message.
\<close>

section \<open>Types and errors\<close>

record native_type =
  native_id :: nat
  native_name :: string

record bundle_type =
  bundle_ids :: "nat \<times> nat"
  bundle_name :: string
  bundle_sources :: string
  source_fields :: "(string \<times> nat) list"

datatype payload = NativePayload native_type | BundlePayload bundle_type

fun family :: "payload \<Rightarrow> nat + nat \<times> nat" where
  "family (NativePayload t) = Inl (native_id t)"
| "family (BundlePayload b) = Inr (bundle_ids b)"

fun payload_name :: "payload \<Rightarrow> string" where
  "payload_name (NativePayload t) = native_name t"
| "payload_name (BundlePayload b) = bundle_name b"

datatype endpoint_direction = Input | Output

instantiation endpoint_direction :: linorder
begin

definition less_eq_endpoint_direction :: "endpoint_direction \<Rightarrow> endpoint_direction \<Rightarrow> bool" where
  "less_eq_endpoint_direction d e \<longleftrightarrow> d = Input \<or> e = Output"

definition less_endpoint_direction :: "endpoint_direction \<Rightarrow> endpoint_direction \<Rightarrow> bool" where
  "less_endpoint_direction d e \<longleftrightarrow> d = Input \<and> e = Output"

instance
proof
  fix x y z :: endpoint_direction
  show "x < y \<longleftrightarrow> x \<le> y \<and> \<not> y \<le> x"
    by (cases x; cases y) (simp_all add: less_eq_endpoint_direction_def less_endpoint_direction_def)
  show "x \<le> x" "x \<le> y \<Longrightarrow> y \<le> x \<Longrightarrow> x = y" "x \<le> y \<or> y \<le> x"
    by (cases x; cases y; simp add: less_eq_endpoint_direction_def)+
qed (auto simp: less_eq_endpoint_direction_def)

end

datatype build_error =
  UnknownArgument endpoint_direction string
| WrongDirection string endpoint_direction endpoint_direction
| EmptyOverride string
| EmptyChannel string
| DuplicateTask string
| TaskFailed string build_error
| TaskError string
| IncompatiblePayload string string string string
| IncompatibleBundle string string
| NoTaskEndpoint string bool
| InvalidCallbacks "unit graph_build_error"
| ChannelFailed string build_error
| FromStorage storage_error
| FromEndpoint endpoint_error
| AlreadyBuilt
| UnknownChannel string
| PayloadMismatch string
| BundleMismatch string
| UnmappedFields string
| BadField string string string
| CyclicForwarding string
| UnknownForwarding string
| UnknownTask string
| UnknownOrdinal string nat
| UnknownEndpoint string nat
| AlreadyConfigured string nat
| InjectionCapacity
| NoDecoder string
| NoSerializer string
| ExpectedNative endpoint_direction
| ReplayCapacity
| NoReplayDecoder string
| CaptureCapacity

section \<open>Channel overrides\<close>

type_synonym overrides = "((endpoint_direction \<times> string) \<times> string) list"

definition override_input :: "string \<Rightarrow> string \<Rightarrow> overrides \<Rightarrow> overrides" where
  "override_input endpoint channel ov = map_insert (Input, endpoint) channel ov"

definition override_output :: "string \<Rightarrow> string \<Rightarrow> overrides \<Rightarrow> overrides" where
  "override_output endpoint channel ov = map_insert (Output, endpoint) channel ov"

fun overrides_validate :: "overrides \<Rightarrow> (string \<times> endpoint_direction) list \<Rightarrow> build_error + unit" where
  "overrides_validate [] ends = Inr ()"
| "overrides_validate (((dir, name), channel) # ov) ends = (case map_of ends name of
     None \<Rightarrow> Inl (UnknownArgument dir name)
   | Some actual \<Rightarrow>
       if actual \<noteq> dir then Inl (WrongDirection name actual dir)
       else if channel = [] then Inl (EmptyOverride name)
       else overrides_validate ov ends)"

definition overrides_resolve :: "overrides \<Rightarrow> string \<Rightarrow> endpoint_direction \<Rightarrow> string \<Rightarrow> build_error + string" where
  "overrides_resolve ov endpoint dir dflt =
     (let name = (case map_of ov (dir, endpoint) of Some c \<Rightarrow> c | None \<Rightarrow> dflt)
      in if name = [] then Inl (EmptyChannel endpoint) else Inr name)"

section \<open>The plan\<close>

record planned_endpoint =
  pe_configured :: bool
  pe_forwardable :: bool
  pe_name :: "string option"
  pe_channel :: string
  pe_output :: bool
  pe_transport :: transport
  pe_payload_type :: string
  pe_index :: nat
  pe_capacity :: nat

definition planned_endpoint_new :: "payload \<Rightarrow> string \<Rightarrow> bool \<Rightarrow> nat \<Rightarrow> nat \<Rightarrow> planned_endpoint" where
  "planned_endpoint_new pl channel output index capacity =
     \<lparr>pe_configured = False, pe_forwardable = False, pe_name = None, pe_channel = channel, pe_output = output,
      pe_transport = Native, pe_payload_type = payload_name pl, pe_index = index, pe_capacity = capacity\<rparr>"

record planned_channel =
  ch_capture :: "payload option"
  ch_replay :: "native_type option"
  ch_origin :: "string option"
  ch_payload :: payload
  ch_plan :: channel_plan
  ch_publishers :: nat
  ch_subscribers :: nat

record forwarding_edge =
  edge_callback :: "string option"
  edge_output :: string
  edge_field :: string
  edge_input :: string
  edge_source :: string
  edge_target :: string

record 'b graph_plan =
  forwarding_edges :: "forwarding_edge list"
  active_task :: "string option"
  gp_channels :: "(string \<times> planned_channel) list"
  gp_endpoints :: "planned_endpoint list"
  gp_tasks :: "(string \<times> nat \<times> nat) list"
  gp_callbacks :: "(string \<times> callback_schedule \<times> 'b) list"

definition graph_plan_default :: "'b graph_plan" where
  "graph_plan_default = \<lparr>forwarding_edges = [], active_task = None, gp_channels = [], gp_endpoints = [],
     gp_tasks = [], gp_callbacks = []\<rparr>"

definition annotate_last_endpoint :: "string \<Rightarrow> bool \<Rightarrow> 'b graph_plan \<Rightarrow> 'b graph_plan outcome" where
  "annotate_last_endpoint name forwardable p =
     (if gp_endpoints p = [] then Panic
      else Ret (p\<lparr>gp_endpoints := butlast (gp_endpoints p)
        @ [(last (gp_endpoints p))\<lparr>pe_name := Some name, pe_forwardable := forwardable\<rparr>]\<rparr>))"

definition channel_new :: "'b graph_plan \<Rightarrow> payload \<Rightarrow> string \<Rightarrow> planned_channel" where
  "channel_new p pl name = \<lparr>ch_capture = None, ch_replay = None, ch_origin = active_task p, ch_payload = pl,
     ch_plan = channel_plan_new name, ch_publishers = 0, ch_subscribers = 0\<rparr>"

text \<open>\<open>native\<close> and \<open>bundle\<close> find or create the channel; the caller works on its plan through \<open>on_channel\<close>.\<close>

definition gp_native :: "native_type \<Rightarrow> string \<Rightarrow> 'b graph_plan \<Rightarrow> build_error + 'b graph_plan" where
  "gp_native t name p = (case map_of (gp_channels p) name of
     None \<Rightarrow> Inr (p\<lparr>gp_channels := map_insert name (channel_new p (NativePayload t) name) (gp_channels p)\<rparr>)
   | Some c \<Rightarrow>
       if family (ch_payload c) = family (NativePayload t) then Inr p
       else Inl (IncompatiblePayload name (case ch_origin c of Some task \<Rightarrow> task | None \<Rightarrow> ''direct declaration'')
         (payload_name (ch_payload c)) (native_name t)))"

definition gp_bundle :: "bundle_type \<Rightarrow> string \<Rightarrow> 'b graph_plan \<Rightarrow> build_error + 'b graph_plan" where
  "gp_bundle b name p = (case map_of (gp_channels p) name of
     None \<Rightarrow> Inr (p\<lparr>gp_channels := map_insert name (channel_new p (BundlePayload b) name) (gp_channels p)\<rparr>)
   | Some c \<Rightarrow>
       if family (ch_payload c) = family (BundlePayload b) then Inr p
       else Inl (IncompatibleBundle name (bundle_sources b)))"

fun gp_channel :: "payload \<Rightarrow> string \<Rightarrow> 'b graph_plan \<Rightarrow> build_error + 'b graph_plan" where
  "gp_channel (NativePayload t) = gp_native t"
| "gp_channel (BundlePayload b) = gp_bundle b"

definition on_channel :: "string \<Rightarrow> (planned_channel \<Rightarrow> planned_channel) \<Rightarrow> 'b graph_plan \<Rightarrow> 'b graph_plan" where
  "on_channel name f p = p\<lparr>gp_channels := map (\<lambda>(n, c). (n, if n = name then f c else c)) (gp_channels p)\<rparr>"

definition channel_at :: "'b graph_plan \<Rightarrow> string \<Rightarrow> planned_channel outcome" where
  "channel_at p name = expect (map_of (gp_channels p) name)"

text \<open>\<open>publisher\<close> and \<open>bundle_publisher\<close>, \<open>subscriber\<close> and \<open>bundle_subscriber\<close>\<close>

definition gp_publisher ::
  "payload \<Rightarrow> string \<Rightarrow> nat \<Rightarrow> 'b graph_plan \<Rightarrow> (build_error + key \<times> 'b graph_plan) outcome" where
  "gp_publisher pl name capacity p = (case gp_channel pl name p of
     Inl e \<Rightarrow> Ret (Inl e)
   | Inr p1 \<Rightarrow> and_then (channel_at p1 name) (\<lambda>c.
       let (key, cp) = declare_publisher (ch_plan c) capacity;
           p2 = on_channel name (\<lambda>c. c\<lparr>ch_plan := cp, ch_publishers := ch_publishers c + 1\<rparr>) p1
       in Ret (Inr (key, p2\<lparr>gp_endpoints := gp_endpoints p2 @ [planned_endpoint_new pl name True (key_index key) capacity]\<rparr>))))"

definition gp_subscriber ::
  "payload \<Rightarrow> string \<Rightarrow> nat \<Rightarrow> subscriber_policy \<Rightarrow> 'b graph_plan \<Rightarrow> (build_error + key \<times> 'b graph_plan) outcome" where
  "gp_subscriber pl name capacity policy p = (case gp_channel pl name p of
     Inl e \<Rightarrow> Ret (Inl e)
   | Inr p1 \<Rightarrow> and_then (channel_at p1 name) (\<lambda>c.
       let (key, cp) = declare_subscriber_with_policy (ch_plan c) capacity policy;
           p2 = on_channel name (\<lambda>c. c\<lparr>ch_plan := cp, ch_subscribers := ch_subscribers c + 1\<rparr>) p1
       in Ret (Inr (key, p2\<lparr>gp_endpoints := gp_endpoints p2 @ [planned_endpoint_new pl name False (key_index key) capacity]\<rparr>))))"

definition gp_require :: "'b graph_plan \<Rightarrow> string \<Rightarrow> bool \<Rightarrow> build_error + unit" where
  "gp_require p name publisher =
     (if (case map_of (gp_channels p) name of None \<Rightarrow> False
          | Some c \<Rightarrow> if publisher then 0 < ch_publishers c else 0 < ch_subscribers c)
      then Inr () else Inl (NoTaskEndpoint name publisher))"

text \<open>\<open>native_workload_publishers\<close>\<close>

definition workload_publishers ::
  "native_type \<Rightarrow> string \<Rightarrow> 'b graph_plan \<Rightarrow> (build_error + key list \<times> 'b graph_plan) outcome" where
  "workload_publishers t name p =
     (let indices = map pe_index (filter (\<lambda>e. pe_channel e = name \<and> pe_output e \<and> pe_transport e = Native) (gp_endpoints p))
      in case gp_native t name p of
        Inl e \<Rightarrow> Ret (Inl e)
      | Inr p1 \<Rightarrow> and_then (channel_at p1 name) (\<lambda>c.
          and_then (map_outcome_list (publisher_key (ch_plan c)) indices) (\<lambda>ks. Ret (Inr (ks, p1)))))"

section \<open>Topology\<close>

record endpoint_topology =
  et_forwardable :: bool
  et_callback :: string
  et_name :: string
  et_ordinal :: nat
  et_output :: bool
  et_endpoint_channel :: string
  et_transport :: transport
  et_payload_type :: string
  et_capacity :: nat
  et_index :: nat

record graph_topology =
  topo_forwarding :: "forwarding_edge list"
  topo_callbacks :: "string list"
  topo_channels :: "channel_topology list"
  topo_endpoints :: "endpoint_topology list"

text \<open>The loop over the endpoints of a task with the two counters of its inputs and outputs.\<close>

fun endpoint_topologies :: "string \<Rightarrow> nat \<Rightarrow> nat \<Rightarrow> planned_endpoint list \<Rightarrow> endpoint_topology list" where
  "endpoint_topologies callback i j [] = []"
| "endpoint_topologies callback i j (e # es) =
     (let ordinal = (if pe_output e then j else i) in
      \<lparr>et_forwardable = pe_forwardable e, et_callback = callback,
       et_name = (case pe_name e of Some n \<Rightarrow> n | None \<Rightarrow> dec_digits ordinal),
       et_ordinal = ordinal, et_output = pe_output e, et_endpoint_channel = pe_channel e, et_transport = pe_transport e,
       et_payload_type = pe_payload_type e, et_capacity = pe_capacity e, et_index = pe_index e\<rparr>
      # (if pe_output e then endpoint_topologies callback i (j + 1) es else endpoint_topologies callback (i + 1) j es))"

definition range_of :: "nat \<times> nat \<Rightarrow> 'e list \<Rightarrow> 'e list outcome" where
  "range_of r es = (if fst r \<le> snd r \<and> snd r \<le> length es then Ret (drop (fst r) (take (snd r) es)) else Panic)"

definition gp_topology :: "'b graph_plan \<Rightarrow> graph_topology outcome" where
  "gp_topology p =
     and_then (map_outcome_list (\<lambda>(callback, r). and_then (range_of r (gp_endpoints p)) (\<lambda>es.
         Ret (endpoint_topologies callback 0 0 es))) (gp_tasks p)) (\<lambda>ends.
       Ret \<lparr>topo_forwarding = forwarding_edges p, topo_callbacks = map fst (gp_tasks p),
         topo_channels = sort_key topo_name (map (\<lambda>(_, c). topology (payload_name (ch_payload c)) (ch_plan c)) (gp_channels p)),
         topo_endpoints = concat ends\<rparr>)"

section \<open>Endpoints of a task\<close>

definition task_endpoints :: "'b graph_plan \<Rightarrow> string \<Rightarrow> (build_error + planned_endpoint list) outcome" where
  "task_endpoints p callback = (case map_of (gp_tasks p) callback of
     None \<Rightarrow> Ret (Inl (UnknownTask callback))
   | Some r \<Rightarrow> and_then (range_of r (gp_endpoints p)) (\<lambda>es. Ret (Inr es)))"

text \<open>The position of the endpoint that \<open>filter(output).nth(ordinal)\<close> selects, counted from the start of the range.\<close>

fun nth_endpoint :: "bool \<Rightarrow> nat \<Rightarrow> planned_endpoint list \<Rightarrow> nat option" where
  "nth_endpoint output ordinal [] = None"
| "nth_endpoint output ordinal (e # es) =
     (if pe_output e = output
      then (if ordinal = 0 then Some 0 else map_option Suc (nth_endpoint output (ordinal - 1) es))
      else map_option Suc (nth_endpoint output ordinal es))"

definition gp_endpoint :: "'b graph_plan \<Rightarrow> string \<Rightarrow> nat \<Rightarrow> bool \<Rightarrow> (build_error + planned_endpoint) outcome" where
  "gp_endpoint p callback ordinal output = (case map_of (gp_tasks p) callback of
     None \<Rightarrow> Ret (Inl (UnknownEndpoint callback ordinal))
   | Some r \<Rightarrow> and_then (range_of r (gp_endpoints p)) (\<lambda>es. Ret (case nth_endpoint output ordinal es of
       None \<Rightarrow> Inl (UnknownEndpoint callback ordinal)
     | Some k \<Rightarrow> Inr (es ! k))))"

definition endpoint_is_configured :: "'b graph_plan \<Rightarrow> string \<Rightarrow> nat \<Rightarrow> bool \<Rightarrow> (build_error + bool) outcome" where
  "endpoint_is_configured p callback ordinal output =
     and_then (gp_endpoint p callback ordinal output) (\<lambda>r. Ret (map_sum id pe_configured r))"

definition claim_endpoint ::
  "string \<Rightarrow> nat \<Rightarrow> bool \<Rightarrow> 'b graph_plan \<Rightarrow> (build_error + 'b graph_plan) outcome" where
  "claim_endpoint callback ordinal output p = (case map_of (gp_tasks p) callback of
     None \<Rightarrow> Ret (Inl (UnknownTask callback))
   | Some r \<Rightarrow> and_then (range_of r (gp_endpoints p)) (\<lambda>es. Ret (case nth_endpoint output ordinal es of
       None \<Rightarrow> Inl (UnknownOrdinal callback ordinal)
     | Some k \<Rightarrow>
         if pe_configured (es ! k) then Inl (AlreadyConfigured callback ordinal)
         else Inr (p\<lparr>gp_endpoints := (gp_endpoints p)[fst r + k := (es ! k)\<lparr>pe_configured := True\<rparr>]\<rparr>))))"

definition can_inject_input :: "'b graph_plan \<Rightarrow> string \<Rightarrow> nat \<Rightarrow> (build_error + bool) outcome" where
  "can_inject_input p callback ordinal = and_then (gp_endpoint p callback ordinal False) (\<lambda>r. Ret (map_sum id (\<lambda>e.
     case map_of (gp_channels p) (pe_channel e) of None \<Rightarrow> False | Some c \<Rightarrow> ch_replay c \<noteq> None) r))"

definition can_observe_output :: "'b graph_plan \<Rightarrow> string \<Rightarrow> nat \<Rightarrow> (build_error + bool) outcome" where
  "can_observe_output p callback ordinal = and_then (gp_endpoint p callback ordinal True) (\<lambda>r. Ret (map_sum id (\<lambda>e.
     case map_of (gp_channels p) (pe_channel e) of None \<Rightarrow> False | Some c \<Rightarrow> ch_capture c \<noteq> None) r))"

text \<open>
  What a binding of a source, an observer or a capture needs later: the payload, the channel and the key.
  \<open>native_input\<close> adds the publisher before it restricts the subscriber, so a refusal leaves it in the plan.
\<close>

record planned_binding =
  pb_payload :: payload
  pb_channel :: string
  pb_key :: key

definition declare_injection ::
  "native_type \<Rightarrow> planned_endpoint \<Rightarrow> nat \<Rightarrow> 'b graph_plan \<Rightarrow> ((build_error + planned_binding) \<times> 'b graph_plan) outcome" where
  "declare_injection t e capacity p = (case gp_native t (pe_channel e) p of
     Inl err \<Rightarrow> Ret (Inl err, p)
   | Inr p1 \<Rightarrow> and_then (channel_at p1 (pe_channel e)) (\<lambda>c.
       and_then (subscriber_key (ch_plan c) (pe_index e)) (\<lambda>sub.
         let (key, cp) = declare_publisher (ch_plan c) capacity
         in Ret (case restrict_subscriber_sources cp sub [key] of
           Inl err \<Rightarrow> (Inl (FromStorage err), on_channel (pe_channel e) (\<lambda>c. c\<lparr>ch_plan := cp\<rparr>) p1)
         | Inr cp' \<Rightarrow> (Inr \<lparr>pb_payload = NativePayload t, pb_channel = pe_channel e, pb_key = key\<rparr>,
             on_channel (pe_channel e) (\<lambda>c. c\<lparr>ch_plan := cp'\<rparr>) p1)))))"

definition inject_input ::
  "string \<Rightarrow> nat \<Rightarrow> nat \<Rightarrow> 'b graph_plan \<Rightarrow> ((build_error + planned_binding) \<times> 'b graph_plan) outcome" where
  "inject_input callback ordinal capacity p =
     (if capacity = 0 \<or> checked_u32 capacity = None then Ret (Inl InjectionCapacity, p)
      else and_then (gp_endpoint p callback ordinal False) (\<lambda>r. case r of
        Inl err \<Rightarrow> Ret (Inl err, p)
      | Inr e \<Rightarrow> (case Option.bind (map_of (gp_channels p) (pe_channel e)) ch_replay of
          None \<Rightarrow> Ret (Inl (NoDecoder (pe_channel e)), p)
        | Some t \<Rightarrow>
            if pe_configured e then Ret (Inl (AlreadyConfigured callback ordinal), p)
            else and_then (declare_injection t e capacity p) (\<lambda>(r, p1). case r of
              Inl err \<Rightarrow> Ret (Inl err, p1)
            | Inr b \<Rightarrow> and_then (claim_endpoint callback ordinal False p1) (\<lambda>r. Ret (case r of
                Inl err \<Rightarrow> (Inl err, p1)
              | Inr p2 \<Rightarrow> (Inr b, p2)))))))"

definition declare_output ::
  "payload \<Rightarrow> planned_endpoint \<Rightarrow> 'b graph_plan \<Rightarrow> (build_error + planned_binding \<times> 'b graph_plan) outcome" where
  "declare_output pl e p = (case gp_channel pl (pe_channel e) p of
     Inl err \<Rightarrow> Ret (Inl err)
   | Inr p1 \<Rightarrow> and_then (channel_at p1 (pe_channel e)) (\<lambda>c.
       and_then (publisher_key (ch_plan c) (pe_index e)) (\<lambda>key.
         Ret (Inr (\<lparr>pb_payload = pl, pb_channel = pe_channel e, pb_key = key\<rparr>, p1)))))"

definition observe_output ::
  "string \<Rightarrow> nat \<Rightarrow> 'b graph_plan \<Rightarrow> (build_error + planned_binding \<times> 'b graph_plan) outcome" where
  "observe_output callback ordinal p = and_then (gp_endpoint p callback ordinal True) (\<lambda>r. case r of
     Inl err \<Rightarrow> Ret (Inl err)
   | Inr e \<Rightarrow> (case Option.bind (map_of (gp_channels p) (pe_channel e)) ch_capture of
       None \<Rightarrow> Ret (Inl (NoSerializer (pe_channel e)))
     | Some pl \<Rightarrow>
         if pe_configured e then Ret (Inl (AlreadyConfigured callback ordinal))
         else and_then (declare_output pl e p) (\<lambda>r. case r of
           Inl err \<Rightarrow> Ret (Inl err)
         | Inr (b, p1) \<Rightarrow> and_then (claim_endpoint callback ordinal True p1) (\<lambda>r. Ret (map_sum id (Pair b) r)))))"

text \<open>\<open>native_input_key\<close>, \<open>bundle_input_key\<close> and \<open>native_output_key\<close>\<close>

definition input_key ::
  "payload \<Rightarrow> string \<Rightarrow> nat \<Rightarrow> 'b graph_plan \<Rightarrow> (build_error + key \<times> 'b graph_plan) outcome" where
  "input_key pl callback ordinal p = and_then (gp_endpoint p callback ordinal False) (\<lambda>r. case r of
     Inl err \<Rightarrow> Ret (Inl err)
   | Inr e \<Rightarrow>
       if (\<exists>t. pl = NativePayload t) \<and> pe_transport e \<noteq> Native then Ret (Inl (ExpectedNative Input))
       else (case gp_channel pl (pe_channel e) p of
         Inl err \<Rightarrow> Ret (Inl err)
       | Inr p1 \<Rightarrow> and_then (channel_at p1 (pe_channel e)) (\<lambda>c.
           and_then (subscriber_key (ch_plan c) (pe_index e)) (\<lambda>k. Ret (Inr (k, p1))))))"

definition output_key ::
  "native_type \<Rightarrow> string \<Rightarrow> nat \<Rightarrow> 'b graph_plan \<Rightarrow> (build_error + key \<times> 'b graph_plan) outcome" where
  "output_key t callback ordinal p = and_then (gp_endpoint p callback ordinal True) (\<lambda>r. case r of
     Inl err \<Rightarrow> Ret (Inl err)
   | Inr e \<Rightarrow>
       if pe_transport e \<noteq> Native then Ret (Inl (ExpectedNative Output))
       else (case gp_native t (pe_channel e) p of
         Inl err \<Rightarrow> Ret (Inl err)
       | Inr p1 \<Rightarrow> and_then (channel_at p1 (pe_channel e)) (\<lambda>c.
           and_then (publisher_key (ch_plan c) (pe_index e)) (\<lambda>k. Ret (Inr (k, p1))))))"

section \<open>Captures and replay sources\<close>

text \<open>\<open>get_or_insert\<close>: the first registration stays.\<close>

definition register_loggable_native :: "native_type \<Rightarrow> string \<Rightarrow> 'b graph_plan \<Rightarrow> build_error + 'b graph_plan" where
  "register_loggable_native t channel p =
     (if map_of (gp_channels p) channel = None then Inl (UnknownChannel channel)
      else try_bind (gp_native t channel p) (\<lambda>p1. Inr (on_channel channel (\<lambda>c.
        c\<lparr>ch_capture := (case ch_capture c of None \<Rightarrow> Some (NativePayload t) | Some pl \<Rightarrow> Some pl)\<rparr>) p1)))"

definition register_bundle_capture :: "bundle_type \<Rightarrow> string \<Rightarrow> 'b graph_plan \<Rightarrow> build_error + 'b graph_plan" where
  "register_bundle_capture b channel p =
     try_bind (gp_bundle b channel p) (\<lambda>p1. Inr (on_channel channel (\<lambda>c.
        c\<lparr>ch_capture := (case ch_capture c of None \<Rightarrow> Some (BundlePayload b) | Some pl \<Rightarrow> Some pl)\<rparr>) p1))"

definition register_replay_native :: "native_type \<Rightarrow> string \<Rightarrow> 'b graph_plan \<Rightarrow> build_error + 'b graph_plan" where
  "register_replay_native t channel p =
     (if map_of (gp_channels p) channel = None then Inl (UnknownChannel channel)
      else try_bind (gp_native t channel p) (\<lambda>p1. Inr (on_channel channel (\<lambda>c.
        c\<lparr>ch_replay := (case ch_replay c of None \<Rightarrow> Some t | Some t \<Rightarrow> Some t)\<rparr>) p1)))"

definition loggable_channels :: "'b graph_plan \<Rightarrow> string list" where
  "loggable_channels p = map fst (filter (\<lambda>(_, c). ch_capture c \<noteq> None) (gp_channels p))"

definition replayable_channels :: "'b graph_plan \<Rightarrow> string list" where
  "replayable_channels p = map fst (filter (\<lambda>(_, c). ch_replay c \<noteq> None) (gp_channels p))"

definition capture_policy :: subscriber_policy where
  "capture_policy = \<lparr>trigger = False, keep_across_runs = True\<rparr>"

definition declare_capture ::
  "payload \<Rightarrow> string \<Rightarrow> nat \<Rightarrow> 'b graph_plan \<Rightarrow> (build_error + planned_binding \<times> 'b graph_plan) outcome" where
  "declare_capture pl channel capacity p = (case gp_channel pl channel p of
     Inl e \<Rightarrow> Ret (Inl e)
   | Inr p1 \<Rightarrow> and_then (channel_at p1 channel) (\<lambda>c.
       let (key, cp) = declare_subscriber_with_policy (ch_plan c) capacity capture_policy
       in Ret (Inr (\<lparr>pb_payload = pl, pb_channel = channel, pb_key = key\<rparr>, on_channel channel (\<lambda>c. c\<lparr>ch_plan := cp\<rparr>) p1))))"

fun declare_capture_loop ::
  "nat \<Rightarrow> string list \<Rightarrow> 'b graph_plan \<Rightarrow> ((build_error + planned_binding list) \<times> 'b graph_plan) outcome" where
  "declare_capture_loop capacity [] p = Ret (Inr [], p)"
| "declare_capture_loop capacity (channel # channels) p =
     and_then (channel_at p channel) (\<lambda>c. and_then (expect (ch_capture c)) (\<lambda>pl.
       and_then (declare_capture pl channel capacity p) (\<lambda>r. case r of
         Inl e \<Rightarrow> Ret (Inl e, p)
       | Inr (b, p1) \<Rightarrow> and_then (declare_capture_loop capacity channels p1) (\<lambda>(r, p2).
           Ret (map_sum id (Cons b) r, p2)))))"

definition declare_captures ::
  "nat \<Rightarrow> string set \<Rightarrow> 'b graph_plan \<Rightarrow> ((build_error + planned_binding list \<times> string list) \<times> 'b graph_plan) outcome" where
  "declare_captures capacity excluded p =
     (if capacity = 0 then Ret (Inl CaptureCapacity, p)
      else let channels = filter (\<lambda>n. n \<notin> excluded) (loggable_channels p)
        in and_then (declare_capture_loop capacity channels p) (\<lambda>(r, p1). Ret (map_sum id (\<lambda>bs. (bs, channels)) r, p1)))"

definition declare_source ::
  "native_type \<Rightarrow> string \<Rightarrow> nat \<Rightarrow> 'b graph_plan \<Rightarrow> (build_error + planned_binding \<times> 'b graph_plan) outcome" where
  "declare_source t channel capacity p = (case gp_native t channel p of
     Inl e \<Rightarrow> Ret (Inl e)
   | Inr p1 \<Rightarrow> and_then (channel_at p1 channel) (\<lambda>c.
       let (key, cp) = declare_publisher (ch_plan c) capacity
       in Ret (Inr (\<lparr>pb_payload = NativePayload t, pb_channel = channel, pb_key = key\<rparr>,
            on_channel channel (\<lambda>c. c\<lparr>ch_plan := cp\<rparr>) p1))))"

fun declare_source_loop ::
  "nat \<Rightarrow> string list \<Rightarrow> 'b graph_plan \<Rightarrow> ((build_error + planned_binding list) \<times> 'b graph_plan) outcome" where
  "declare_source_loop capacity [] p = Ret (Inr [], p)"
| "declare_source_loop capacity (channel # channels) p =
     and_then (channel_at p channel) (\<lambda>c. and_then (expect (ch_replay c)) (\<lambda>t.
       and_then (declare_source t channel capacity p) (\<lambda>r. case r of
         Inl e \<Rightarrow> Ret (Inl e, p)
       | Inr (b, p1) \<Rightarrow> and_then (declare_source_loop capacity channels p1) (\<lambda>(r, p2).
           Ret (map_sum id (Cons b) r, p2)))))"

text \<open>The set of channels is given in its order.\<close>

definition declare_replay_sources ::
  "string list \<Rightarrow> nat \<Rightarrow> 'b graph_plan \<Rightarrow> ((build_error + planned_binding list \<times> string list) \<times> 'b graph_plan) outcome" where
  "declare_replay_sources channels capacity p =
     (if capacity = 0 \<or> checked_u32 capacity = None then Ret (Inl ReplayCapacity, p)
      else (case find (\<lambda>n. Option.bind (map_of (gp_channels p) n) ch_replay = None) channels of
        Some n \<Rightarrow> Ret (Inl (NoReplayDecoder n), p)
      | None \<Rightarrow> and_then (declare_source_loop capacity channels p) (\<lambda>(r, p1). Ret (map_sum id (\<lambda>bs. (bs, channels)) r, p1))))"

section \<open>Forwarding edges and registration of tasks\<close>

fun check_fields :: "string \<Rightarrow> (string \<times> nat) list \<Rightarrow> string set \<Rightarrow> (string \<times> string \<times> string \<times> nat) list \<Rightarrow> build_error + unit" where
  "check_fields output expected seen [] = Inr ()"
| "check_fields output expected seen ((field, input, channel, ty) # mapped) =
     (if field \<in> seen \<or> (field, ty) \<notin> set expected then Inl (BadField output field input)
      else check_fields output expected (insert field seen) mapped)"

definition map_forwarding ::
  "(string \<times> nat) list \<Rightarrow> string \<Rightarrow> string \<Rightarrow> (string \<times> string \<times> string \<times> nat) list \<Rightarrow> 'b graph_plan
     \<Rightarrow> build_error + 'b graph_plan" where
  "map_forwarding expected output output_channel mapped p =
     (if length expected \<noteq> length mapped then Inl (UnmappedFields output)
      else try_bind (check_fields output expected {} mapped) (\<lambda>_.
        Inr (p\<lparr>forwarding_edges := forwarding_edges p @ map (\<lambda>(field, input, channel, _).
          \<lparr>edge_callback = active_task p, edge_output = output, edge_field = field, edge_input = input,
           edge_source = channel, edge_target = output_channel\<rparr>) mapped\<rparr>)))"

text \<open>A task is what its \<open>register\<close> does to the plan.\<close>

type_synonym 'b task = "overrides \<Rightarrow> 'b graph_plan \<Rightarrow> ((build_error + 'b) \<times> 'b graph_plan) outcome"

record 'b task_registration =
  reg_name :: string
  reg_schedule :: callback_schedule
  reg_task :: "'b task"
  reg_channels :: overrides

definition registration_new :: "string \<Rightarrow> 'b task \<Rightarrow> callback_schedule \<Rightarrow> 'b task_registration" where
  "registration_new name tsk sch = \<lparr>reg_name = name, reg_schedule = sch, reg_task = tsk, reg_channels = []\<rparr>"

definition input_channel :: "string \<Rightarrow> string \<Rightarrow> 'b task_registration \<Rightarrow> 'b task_registration" where
  "input_channel endpoint channel r = r\<lparr>reg_channels := override_input endpoint channel (reg_channels r)\<rparr>"

definition output_channel :: "string \<Rightarrow> string \<Rightarrow> 'b task_registration \<Rightarrow> 'b task_registration" where
  "output_channel endpoint channel r = r\<lparr>reg_channels := override_output endpoint channel (reg_channels r)\<rparr>"

definition register_task :: "'b task_registration \<Rightarrow> 'b graph_plan \<Rightarrow> ((build_error + unit) \<times> 'b graph_plan) outcome" where
  "register_task r p =
     (if map_of (gp_tasks p) (reg_name r) \<noteq> None then Ret (Inl (DuplicateTask (reg_name r)), p)
      else let start = length (gp_endpoints p)
        in and_then (reg_task r (reg_channels r) (p\<lparr>active_task := Some (reg_name r)\<rparr>)) (\<lambda>(res, p1).
          let p2 = p1\<lparr>active_task := None\<rparr>
          in Ret (case res of
            Inl e \<Rightarrow> (Inl (TaskFailed (reg_name r) e), p2)
          | Inr b \<Rightarrow> (Inr (), p2\<lparr>gp_tasks := map_insert (reg_name r) (start, length (gp_endpoints p2)) (gp_tasks p2),
              gp_callbacks := gp_callbacks p2 @ [(reg_name r, reg_schedule r, b)]\<rparr>))))"

fun plan_with :: "'b task_registration list \<Rightarrow> 'b graph_plan \<Rightarrow> (build_error + 'b graph_plan) outcome" where
  "plan_with [] p = Ret (Inr p)"
| "plan_with (r # rs) p = and_then (register_task r p) (\<lambda>(res, p1). case res of
     Inl e \<Rightarrow> Ret (Inl e)
   | Inr _ \<Rightarrow> plan_with rs p1)"

section \<open>Forwarding budgets\<close>

text \<open>
  \<open>budget\<close> computes the slots of a channel after those of the channels its messages are forwarded into. Its nesting
  is bounded by the number of edges, which is the fuel; \<open>budget_all\<close> is its loop over the outputs.
\<close>

type_synonym budget_state = "nat \<times> string set \<times> (string \<rightharpoonup> nat)"

fun budget ::
  "nat \<Rightarrow> string \<Rightarrow> string set \<Rightarrow> (string \<rightharpoonup> nat) \<Rightarrow> 'b graph_plan \<Rightarrow> ((build_error + budget_state) \<times> 'b graph_plan) outcome"
  and budget_all ::
  "nat \<Rightarrow> nat \<Rightarrow> string list \<Rightarrow> string set \<Rightarrow> (string \<rightharpoonup> nat) \<Rightarrow> 'b graph_plan \<Rightarrow> ((build_error + budget_state) \<times> 'b graph_plan) outcome"
where
  "budget 0 name visiting fin p = Diverges"
| "budget (Suc fuel) name visiting fin p = (case fin name of
     Some v \<Rightarrow> Ret (Inr (v, visiting, fin), p)
   | None \<Rightarrow>
       if name \<in> visiting then Ret (Inl (CyclicForwarding name), p)
       else let outputs = map edge_target (filter (\<lambda>e. edge_source e = name) (forwarding_edges p))
       in and_then (budget_all fuel 0 outputs (insert name visiting) fin p) (\<lambda>(r, p1). case r of
         Inl e \<Rightarrow> Ret (Inl e, p1)
       | Inr (extra, visiting1, fin1) \<Rightarrow> (case map_of (gp_channels p1) name of
           None \<Rightarrow> Ret (Inl (UnknownForwarding name), p1)
         | Some c \<Rightarrow>
             let cp = set_forwarding_retention (ch_plan c) extra;
                 p2 = on_channel name (\<lambda>c. c\<lparr>ch_plan := cp\<rparr>) p1
             in Ret (case total_publisher_capacity cp of
               Inl e \<Rightarrow> (Inl (FromStorage e), p2)
             | Inr capacity \<Rightarrow> (Inr (capacity, visiting1 - {name}, fin1(name \<mapsto> capacity)), p2)))))"
| "budget_all fuel extra [] visiting fin p = Ret (Inr (extra, visiting, fin), p)"
| "budget_all fuel extra (out # outs) visiting fin p =
     and_then (budget fuel out visiting fin p) (\<lambda>(r, p1). case r of
       Inl e \<Rightarrow> Ret (Inl e, p1)
     | Inr (n, visiting1, fin1) \<Rightarrow> (case checked_usize (extra + n) of
         None \<Rightarrow> Ret (Inl (FromStorage CapacityOverflow), p1)
       | Some extra1 \<Rightarrow> budget_all fuel extra1 outs visiting1 fin1 p1))"

fun forwarding_loop ::
  "string list \<Rightarrow> (string \<rightharpoonup> nat) \<Rightarrow> 'b graph_plan \<Rightarrow> ((build_error + unit) \<times> 'b graph_plan) outcome" where
  "forwarding_loop [] fin p = Ret (Inr (), p)"
| "forwarding_loop (source # sources) fin p =
     and_then (budget (length (forwarding_edges p) + 2) source {} fin p) (\<lambda>(r, p1). case r of
       Inl e \<Rightarrow> Ret (Inl e, p1)
     | Inr (_, _, fin1) \<Rightarrow> forwarding_loop sources fin1 p1)"

definition prepare_forwarding :: "'b graph_plan \<Rightarrow> ((build_error + unit) \<times> 'b graph_plan) outcome" where
  "prepare_forwarding p = forwarding_loop (map edge_source (forwarding_edges p)) Map.empty p"

fun validate_channels :: "(string \<times> planned_channel) list \<Rightarrow> build_error + unit" where
  "validate_channels [] = Inr ()"
| "validate_channels ((name, c) # cs) = (case channel_validate (ch_plan c) of
     Inl e \<Rightarrow> Inl (ChannelFailed name (FromStorage e))
   | Inr _ \<Rightarrow> validate_channels cs)"

definition gp_prepare :: "'b graph_plan \<Rightarrow> ((build_error + unit) \<times> 'b graph_plan) outcome" where
  "gp_prepare p = (case validate_callbacks (map (\<lambda>(name, sch, _). (name, sch)) (gp_callbacks p)) of
     Inl e \<Rightarrow> Ret (Inl (InvalidCallbacks e), p)
   | Inr _ \<Rightarrow> and_then (prepare_forwarding p) (\<lambda>(r, p1). Ret (case r of
       Inl e \<Rightarrow> (Inl e, p1)
     | Inr _ \<Rightarrow> (validate_channels (gp_channels p1), p1))))"

section \<open>Storage, bindings and the graph\<close>

record ('f, 'v, 'b) graph_storage =
  gs_callbacks :: "(string \<times> callback_schedule \<times> 'b) list option"
  gs_topology :: graph_topology
  gs_channels :: "(string \<times> payload \<times> ('f, 'v) channel_storage) list"
  gs_names :: string_interner

fun allocate_channels ::
  "('f, nat) array_queue \<Rightarrow> (string \<times> planned_channel) list
     \<Rightarrow> (build_error + (string \<times> payload \<times> ('f, 'v) channel_storage) list) outcome" where
  "allocate_channels F [] = Ret (Inr [])"
| "allocate_channels F ((name, c) # cs) = and_then (channel_allocate F (ch_plan c)) (\<lambda>r. case r of
     Inl e \<Rightarrow> Ret (Inl (FromStorage e))
   | Inr st \<Rightarrow> and_then (allocate_channels F cs) (\<lambda>r. Ret (map_sum id (Cons (name, ch_payload c, st)) r)))"

definition gp_allocate ::
  "('f, nat) array_queue \<Rightarrow> 'b graph_plan \<Rightarrow> (build_error + ('f, 'v, 'b) graph_storage) outcome" where
  "gp_allocate F p = and_then (gp_prepare p) (\<lambda>(r, p1). case r of
     Inl e \<Rightarrow> Ret (Inl e)
   | Inr _ \<Rightarrow> and_then (gp_topology p1) (\<lambda>topo.
       and_then (allocate_channels F (gp_channels p1)) (\<lambda>r. Ret (map_sum id (\<lambda>cs.
         \<lparr>gs_callbacks = Some (gp_callbacks p1), gs_topology = topo, gs_channels = cs,
          gs_names = intern_all interner_new (map fst (gp_channels p1))\<rparr>) r))))"

record ('f, 'q, 'v) channel_binding =
  bd_payload :: payload
  bd_publishers :: "publisher endpoint_table"
  bd_subscribers :: "nat endpoint_table"
  bd_bus :: "('f, 'q, 'v) bus"

type_synonym ('f, 'q, 'v) graph_bindings = "(string \<times> ('f, 'q, 'v) channel_binding) list"

definition bind_stored ::
  "('q, ptr) array_queue \<Rightarrow> (nat \<Rightarrow> nat) \<Rightarrow> string \<times> payload \<times> ('f, 'v) channel_storage
     \<Rightarrow> (string \<times> ('f, 'q, 'v) channel_binding) outcome" where
  "bind_stored Q deque_capacity x = (case x of (name, pl, cs) \<Rightarrow>
     and_then (channel_bind Q deque_capacity cs) (\<lambda>(pbs, w). Ret (name,
       \<lparr>bd_payload = pl, bd_publishers = \<lparr>et_channel = cs_name cs, et_slots = map Some pbs\<rparr>,
        bd_subscribers = \<lparr>et_channel = cs_name cs, et_slots = map Some [0..<length (subs w)]\<rparr>, bd_bus = w\<rparr>)))"

definition gs_bind ::
  "('q, ptr) array_queue \<Rightarrow> (nat \<Rightarrow> nat) \<Rightarrow> ('f, 'v, 'b) graph_storage \<Rightarrow> ('f, 'q, 'v) graph_bindings outcome" where
  "gs_bind Q deque_capacity st = map_outcome_list (bind_stored Q deque_capacity) (gs_channels st)"

definition bindings_native :: "native_type \<Rightarrow> string \<Rightarrow> ('f, 'q, 'v) graph_bindings \<Rightarrow> build_error + ('f, 'q, 'v) channel_binding" where
  "bindings_native t name w = (case map_of w name of
     None \<Rightarrow> Inl (UnknownChannel name)
   | Some b \<Rightarrow> if family (bd_payload b) \<noteq> family (NativePayload t) then Inl (PayloadMismatch name) else Inr b)"

definition bindings_bundle :: "bundle_type \<Rightarrow> string \<Rightarrow> ('f, 'q, 'v) graph_bindings \<Rightarrow> build_error + ('f, 'q, 'v) channel_binding" where
  "bindings_bundle t name w = (case map_of w name of
     None \<Rightarrow> Inl (UnknownChannel name)
   | Some b \<Rightarrow> if family (bd_payload b) \<noteq> family (BundlePayload t) then Inl (BundleMismatch name) else Inr b)"

fun bindings_channel :: "payload \<Rightarrow> string \<Rightarrow> ('f, 'q, 'v) graph_bindings \<Rightarrow> build_error + ('f, 'q, 'v) channel_binding" where
  "bindings_channel (NativePayload t) = bindings_native t"
| "bindings_channel (BundlePayload b) = bindings_bundle b"

text \<open>The bindings of a source and of a capture take the endpoint that was declared for them.\<close>

definition take_planned_publisher ::
  "planned_binding \<Rightarrow> ('f, 'q, 'v) graph_bindings \<Rightarrow> build_error + publisher \<times> ('f, 'q, 'v) graph_bindings" where
  "take_planned_publisher b w = try_bind (bindings_channel (pb_payload b) (pb_channel b) w) (\<lambda>cb.
     case take_endpoint (bd_publishers cb) (pb_key b) of
       Inl e \<Rightarrow> Inl (FromEndpoint e)
     | Inr (pb, t) \<Rightarrow> Inr (pb, AList.update (pb_channel b) (cb\<lparr>bd_publishers := t\<rparr>) w))"

definition take_planned_subscriber ::
  "planned_binding \<Rightarrow> ('f, 'q, 'v) graph_bindings \<Rightarrow> build_error + nat \<times> ('f, 'q, 'v) graph_bindings" where
  "take_planned_subscriber b w = try_bind (bindings_channel (pb_payload b) (pb_channel b) w) (\<lambda>cb.
     case take_endpoint (bd_subscribers cb) (pb_key b) of
       Inl e \<Rightarrow> Inl (FromEndpoint e)
     | Inr (s, t) \<Rightarrow> Inr (s, AList.update (pb_channel b) (cb\<lparr>bd_subscribers := t\<rparr>) w))"

fun take_all :: "('b \<Rightarrow> 'w \<Rightarrow> 'e + 'x \<times> 'w) \<Rightarrow> 'b list \<Rightarrow> 'w \<Rightarrow> ('e + 'x list) \<times> 'w" where
  "take_all f [] w = (Inr [], w)"
| "take_all f (b # bs) w = (case f b w of
     Inl e \<Rightarrow> (Inl e, w)
   | Inr (x, w1) \<Rightarrow> (case take_all f bs w1 of (r, w2) \<Rightarrow> (map_sum id (Cons x) r, w2)))"

text \<open>A task's binding is a function of the bindings, from which it takes its endpoints.\<close>

type_synonym ('w, 'c) task_binding = "'w \<Rightarrow> (build_error + 'c) \<times> 'w"

fun bind_tasks ::
  "(string \<times> callback_schedule \<times> ('w, 'c) task_binding) list \<Rightarrow> 'w \<Rightarrow> (build_error + 'c scheduled_callback list) \<times> 'w" where
  "bind_tasks [] w = (Inr [], w)"
| "bind_tasks ((name, sch, bnd) # tasks) w = (case bnd w of
     (Inl e, w1) \<Rightarrow> (Inl (TaskFailed name e), w1)
   | (Inr c, w1) \<Rightarrow> (case bind_tasks tasks w1 of
       (r, w2) \<Rightarrow> (map_sum id (Cons \<lparr>cb_name = name, cb_callback = c, cb_schedule = sch\<rparr>) r, w2)))"

definition build_with ::
  "('c \<Rightarrow> string list) \<Rightarrow> ('f, 'v, ('w, 'c) task_binding) graph_storage \<Rightarrow> 'w
     \<Rightarrow> (build_error + 'c built_graph) \<times> ('f, 'v, ('w, 'c) task_binding) graph_storage \<times> 'w" where
  "build_with visit_names st w = (case gs_callbacks st of
     None \<Rightarrow> (Inl AlreadyBuilt, st, w)
   | Some tasks \<Rightarrow> (case bind_tasks tasks w of (r, w1) \<Rightarrow>
       (map_sum id (\<lambda>nodes. from_callbacks visit_names nodes (gs_names st)) r, st\<lparr>gs_callbacks := None\<rparr>, w1)))"

definition bind_and_build ::
  "('q, ptr) array_queue \<Rightarrow> (nat \<Rightarrow> nat) \<Rightarrow> ('c \<Rightarrow> string list)
     \<Rightarrow> ('f, 'v, (('f, 'q, 'v) graph_bindings, 'c) task_binding) graph_storage
     \<Rightarrow> ((build_error + 'c built_graph \<times> ('f, 'q, 'v) graph_bindings)
        \<times> ('f, 'v, (('f, 'q, 'v) graph_bindings, 'c) task_binding) graph_storage) outcome" where
  "bind_and_build Q deque_capacity visit_names st = and_then (gs_bind Q deque_capacity st) (\<lambda>w.
     case build_with visit_names st w of (r, st1, w1) \<Rightarrow> Ret (map_sum id (\<lambda>g. (g, w1)) r, st1))"

end
