(* ===== verification/Graph_Wiring.thy ===== *)
theory Graph_Wiring
  imports Graph_Plan
begin

text \<open>
  The invariant of graph plans. Every call that works on a plan keeps it, so no index, key or range that the plan
  hands out is ever out of bounds.
\<close>

section \<open>Growing a channel\<close>

definition sources_ok :: "channel_plan \<Rightarrow> bool" where
  "sources_ok cp \<longleftrightarrow> (\<forall>s \<in> set (cp_subscribers cp). \<forall>ks. spec_sources s = Some ks \<longrightarrow> (\<forall>k \<in> set ks. k < length (cp_publishers cp)))"

definition grows :: "channel_plan \<Rightarrow> channel_plan \<Rightarrow> bool" where
  "grows cp cp' \<longleftrightarrow> cp_name cp' = cp_name cp
     \<and> length (cp_publishers cp) \<le> length (cp_publishers cp') \<and> length (cp_subscribers cp) \<le> length (cp_subscribers cp')
     \<and> (\<forall>i < length (cp_publishers cp). spec_loan (cp_publishers cp' ! i) = spec_loan (cp_publishers cp ! i))
     \<and> (\<forall>i < length (cp_subscribers cp). spec_capacity (cp_subscribers cp' ! i) = spec_capacity (cp_subscribers cp ! i))
     \<and> (\<forall>i < length (cp_subscribers cp). \<forall>ks. spec_sources (cp_subscribers cp ! i) = Some ks
          \<longrightarrow> spec_sources (cp_subscribers cp' ! i) = Some ks)
     \<and> (sources_ok cp \<longrightarrow> sources_ok cp')"

named_theorems grows_intros

lemma grows_refl [grows_intros]: "grows cp cp"
  by (simp add: grows_def)

lemma grows_trans: "grows a b \<Longrightarrow> grows b c \<Longrightarrow> grows a c"
  by (simp add: grows_def)

lemma grows_publisher [grows_intros]: "grows cp (snd (declare_publisher cp n))"
  by (force simp: grows_def declare_publisher_def nth_append sources_ok_def)

lemma grows_subscriber [grows_intros]: "grows cp (snd (declare_subscriber_with_policy cp n pol))"
  by (force simp: grows_def declare_subscriber_with_policy_def nth_append sources_ok_def)

lemma grows_retained: "reserve_retained cp k n = Inr cp' \<Longrightarrow> grows cp cp'"
  by (cases "checked_usize (spec_retained (cp_publishers cp ! key_index k) + n)")
    (auto simp: grows_def reserve_retained_def Let_def sources_ok_def nth_list_update split: if_splits)

lemma check_sources_Inr: "check_sources cp ks = Inr u \<Longrightarrow> k \<in> set ks \<Longrightarrow> key_index k < length (cp_publishers cp)"
  by (induction cp ks rule: check_sources.induct) (auto split: if_splits)

lemma grows_restrict:
  assumes "restrict_subscriber_sources cp sub ks = Inr cp'"
  shows "grows cp cp'"
proof -
  from assms obtain u where u: "check_sources cp ks = Inr u"
    by (cases "check_sources cp ks") (auto simp: restrict_subscriber_sources_def split: if_splits)
  with assms have cp': "key_index sub < length (cp_subscribers cp)"
    "spec_sources (cp_subscribers cp ! key_index sub) = None"
    "cp' = cp\<lparr>cp_subscribers := (cp_subscribers cp)[key_index sub := (cp_subscribers cp ! key_index sub)\<lparr>spec_sources := Some (map key_index ks)\<rparr>]\<rparr>"
    by (auto simp: restrict_subscriber_sources_def Let_def split: if_splits)
  have "sources_ok cp'" if "sources_ok cp"
    unfolding sources_ok_def
  proof (intro ballI allI impI)
    fix s js k assume s: "s \<in> set (cp_subscribers cp')" "spec_sources s = Some js" "k \<in> set js"
    from s(1) cp'(3) have "s \<in> insert ((cp_subscribers cp ! key_index sub)\<lparr>spec_sources := Some (map key_index ks)\<rparr>) (set (cp_subscribers cp))"
      using set_update_subset_insert [of "cp_subscribers cp" "key_index sub"] by auto
    with s(2,3) that check_sources_Inr [OF u] cp'(3) show "k < length (cp_publishers cp')"
      by (auto simp: sources_ok_def)
  qed
  with cp' show ?thesis by (auto simp: grows_def nth_list_update)
qed

lemma grows_retention [grows_intros]: "grows cp (set_forwarding_retention cp n)"
  by (simp add: grows_def set_forwarding_retention_def sources_ok_def)

section \<open>The invariant\<close>

definition uses :: "'b graph_plan \<Rightarrow> string \<Rightarrow> bool \<Rightarrow> nat" where
  "uses p name output = length (filter (\<lambda>e. pe_channel e = name \<and> pe_output e = output) (gp_endpoints p))"

definition declarations_ok :: "planned_channel \<Rightarrow> bool" where
  "declarations_ok c \<longleftrightarrow> (\<forall>pl. ch_capture c = Some pl \<longrightarrow> family (ch_payload c) = family pl)
     \<and> (\<forall>t. ch_replay c = Some t \<longrightarrow> family (ch_payload c) = family (NativePayload t))"

definition channel_ok :: "'b graph_plan \<Rightarrow> string \<Rightarrow> planned_channel \<Rightarrow> bool" where
  "channel_ok p n c \<longleftrightarrow> cp_name (ch_plan c) = n \<and> sources_ok (ch_plan c) \<and> declarations_ok c
     \<and> ch_publishers c = uses p n True \<and> ch_subscribers c = uses p n False"

definition endpoint_ok :: "channel_plan \<Rightarrow> planned_endpoint \<Rightarrow> bool" where
  "endpoint_ok cp e \<longleftrightarrow> (if pe_output e
     then pe_index e < length (cp_publishers cp) \<and> spec_loan (cp_publishers cp ! pe_index e) = pe_capacity e
     else pe_index e < length (cp_subscribers cp) \<and> spec_capacity (cp_subscribers cp ! pe_index e) = pe_capacity e)"

definition endpoint_id :: "planned_endpoint \<Rightarrow> string \<times> bool \<times> nat" where
  "endpoint_id e = (pe_channel e, pe_output e, pe_index e)"

definition ranges_ok :: "nat \<Rightarrow> (string \<times> nat \<times> nat) list \<Rightarrow> bool" where
  "ranges_ok n ts \<longleftrightarrow> sorted_wrt (<) (map fst ts) \<and> (\<forall>(_, a, b) \<in> set ts. a \<le> b \<and> b \<le> n)
     \<and> (\<forall>x \<in> set ts. \<forall>y \<in> set ts. x \<noteq> y \<longrightarrow> snd (snd x) \<le> fst (snd y) \<or> snd (snd y) \<le> fst (snd x))"

definition plan_ok :: "'b graph_plan \<Rightarrow> bool" where
  "plan_ok p \<longleftrightarrow> sorted_wrt (<) (map fst (gp_channels p))
     \<and> (\<forall>n c. map_of (gp_channels p) n = Some c \<longrightarrow> channel_ok p n c)
     \<and> (\<forall>e \<in> set (gp_endpoints p). pe_transport e = Native
          \<and> (\<exists>c. map_of (gp_channels p) (pe_channel e) = Some c \<and> endpoint_ok (ch_plan c) e))
     \<and> distinct (map endpoint_id (gp_endpoints p))
     \<and> ranges_ok (length (gp_endpoints p)) (gp_tasks p)
     \<and> distinct (map fst (gp_callbacks p)) \<and> set (map fst (gp_callbacks p)) = set (map fst (gp_tasks p))"

lemma endpoint_ok_grows: "grows cp cp' \<Longrightarrow> endpoint_ok cp e \<Longrightarrow> endpoint_ok cp' e"
  by (auto simp: endpoint_ok_def grows_def split: if_splits)

lemma plan_ok_default [simp]: "plan_ok graph_plan_default"
  by (simp add: plan_ok_def graph_plan_default_def ranges_ok_def)

lemma plan_okI:
  assumes "sorted_wrt (<) (map fst (gp_channels p))" and "\<And>n c. map_of (gp_channels p) n = Some c \<Longrightarrow> channel_ok p n c"
    and "\<And>e. e \<in> set (gp_endpoints p) \<Longrightarrow> pe_transport e = Native \<and> (\<exists>c. map_of (gp_channels p) (pe_channel e) = Some c \<and> endpoint_ok (ch_plan c) e)"
    and "distinct (map endpoint_id (gp_endpoints p))" and "ranges_ok (length (gp_endpoints p)) (gp_tasks p)"
    and "distinct (map fst (gp_callbacks p))" and "set (map fst (gp_callbacks p)) = set (map fst (gp_tasks p))"
  shows "plan_ok p"
  using assms by (simp add: plan_ok_def)

lemma plan_okD:
  assumes "plan_ok p"
  shows "sorted_wrt (<) (map fst (gp_channels p))" "map_of (gp_channels p) n = Some c \<Longrightarrow> channel_ok p n c"
    "e \<in> set (gp_endpoints p) \<Longrightarrow> pe_transport e = Native"
    "e \<in> set (gp_endpoints p) \<Longrightarrow> \<exists>c. map_of (gp_channels p) (pe_channel e) = Some c \<and> endpoint_ok (ch_plan c) e"
    "distinct (map endpoint_id (gp_endpoints p))" "ranges_ok (length (gp_endpoints p)) (gp_tasks p)"
    "distinct (map fst (gp_callbacks p))" "set (map fst (gp_callbacks p)) = set (map fst (gp_tasks p))"
  using assms by (simp_all add: plan_ok_def)

lemma uses_cong: "gp_endpoints p' = gp_endpoints p \<Longrightarrow> uses p' n b = uses p n b"
  by (simp add: uses_def)

lemma channel_ok_cong: "gp_endpoints p' = gp_endpoints p \<Longrightarrow> channel_ok p' n c = channel_ok p n c"
  by (simp add: channel_ok_def uses_def)

text \<open>The entries of the map.\<close>

lemma on_channel_fields [simp]:
  "gp_endpoints (on_channel n f p) = gp_endpoints p" "gp_tasks (on_channel n f p) = gp_tasks p"
  "gp_callbacks (on_channel n f p) = gp_callbacks p" "forwarding_edges (on_channel n f p) = forwarding_edges p"
  "active_task (on_channel n f p) = active_task p"
  "map fst (gp_channels (on_channel n f p)) = map fst (gp_channels p)"
  by (simp_all add: on_channel_def comp_def case_prod_unfold)

lemma map_of_on_channel [simp]:
  "map_of (gp_channels (on_channel n f p)) m = (if m = n then map_option f (map_of (gp_channels p) n) else map_of (gp_channels p) m)"
proof -
  have "map_of (map (\<lambda>(k, c). (k, if k = n then f c else c)) cs) m = (if m = n then map_option f (map_of cs n) else map_of cs m)" for cs
    by (induction cs) auto
  then show ?thesis by (simp add: on_channel_def)
qed

lemma channel_at_Ret [simp]: "channel_at p n = Ret c \<longleftrightarrow> map_of (gp_channels p) n = Some c"
  by (simp add: channel_at_def)

definition same_wiring :: "'b graph_plan \<Rightarrow> 'b graph_plan \<Rightarrow> bool" where
  "same_wiring p p' \<longleftrightarrow> gp_endpoints p' = gp_endpoints p \<and> gp_tasks p' = gp_tasks p \<and> gp_callbacks p' = gp_callbacks p
     \<and> forwarding_edges p' = forwarding_edges p \<and> active_task p' = active_task p"

lemma same_wiring_on_channel [simp]: "same_wiring p (on_channel n f p)"
  by (simp add: same_wiring_def)

text \<open>Calls leave the tasks alone, only add endpoints, and channels only grow.\<close>

definition plans_grow :: "'b graph_plan \<Rightarrow> 'b graph_plan \<Rightarrow> bool" where
  "plans_grow p p' \<longleftrightarrow> (\<forall>n c. map_of (gp_channels p) n = Some c \<longrightarrow>
     (\<exists>c'. map_of (gp_channels p') n = Some c' \<and> grows (ch_plan c) (ch_plan c')))"

lemma plans_grow_same: "(\<And>n c. map_of (gp_channels p) n = Some c \<Longrightarrow> map_of (gp_channels p') n = Some c) \<Longrightarrow> plans_grow p p'"
  by (fastforce simp: plans_grow_def intro: grows_refl)

lemma plans_grow_fields [simp]:
  "plans_grow p p" "plans_grow p (q\<lparr>gp_endpoints := es\<rparr>) = plans_grow p q" "plans_grow p (q\<lparr>forwarding_edges := fs\<rparr>) = plans_grow p q"
  "plans_grow p (q\<lparr>active_task := a\<rparr>) = plans_grow p q" "plans_grow (q\<lparr>active_task := a\<rparr>) p = plans_grow q p"
  by (auto simp: plans_grow_def intro: grows_refl)

lemma plans_grow_trans: "plans_grow p q \<Longrightarrow> plans_grow q r \<Longrightarrow> plans_grow p r"
  unfolding plans_grow_def by (fastforce intro: grows_trans)

lemma plans_grow_on_channel:
  "plans_grow p q \<Longrightarrow> map_of (gp_channels q) n = Some c \<Longrightarrow> grows (ch_plan c) (ch_plan (f c)) \<Longrightarrow> plans_grow p (on_channel n f q)"
  by (rule plans_grow_trans, assumption) (auto simp: plans_grow_def intro: grows_refl)

definition extends :: "'b graph_plan \<Rightarrow> 'b graph_plan \<Rightarrow> bool" where
  "extends p p' \<longleftrightarrow> gp_tasks p' = gp_tasks p \<and> gp_callbacks p' = gp_callbacks p \<and> length (gp_endpoints p) \<le> length (gp_endpoints p')
     \<and> plans_grow p p'"

lemma extends_refl [simp]: "extends p p"
  by (simp add: extends_def plans_grow_same)

lemma extends_trans: "extends p q \<Longrightarrow> extends q r \<Longrightarrow> extends p r"
  by (auto simp: extends_def intro: plans_grow_trans)

lemma extends_wiring: "same_wiring p p' \<Longrightarrow> plans_grow p p' \<Longrightarrow> extends p p'"
  by (simp add: same_wiring_def extends_def)

lemma extends_endpoints: "extends p q \<Longrightarrow> length (gp_endpoints q) \<le> length es \<Longrightarrow> extends p (q\<lparr>gp_endpoints := es\<rparr>)"
  by (simp add: extends_def)

lemma extends_on_channel:
  "extends p q \<Longrightarrow> map_of (gp_channels q) n = Some c \<Longrightarrow> grows (ch_plan c) (ch_plan (f c)) \<Longrightarrow> extends p (on_channel n f q)"
  by (simp add: extends_def plans_grow_on_channel)

lemma gp_channel_law:
  assumes "plan_ok p" and "gp_channel pl n p = Inr p'"
  shows "plan_ok p' \<and> same_wiring p p' \<and> (\<exists>c. map_of (gp_channels p') n = Some c \<and> family (ch_payload c) = family pl)
    \<and> (\<forall>m c. map_of (gp_channels p) m = Some c \<longrightarrow> map_of (gp_channels p') m = Some c) \<and> extends p p'"
proof (cases "map_of (gp_channels p) n")
  case None
  with assms(2) have p': "p' = p\<lparr>gp_channels := map_insert n (channel_new p pl n) (gp_channels p)\<rparr>"
    by (cases pl) (auto simp: gp_native_def gp_bundle_def)
  from None have fresh: "n \<notin> set (map fst (gp_channels p))" by (simp add: map_of_eq_None_iff)
  note D = plan_okD [OF assms(1)]
  have at: "map_of (gp_channels p') m = (if m = n then Some (channel_new p pl n) else map_of (gp_channels p) m)" for m
    by (simp add: p' map_of_map_insert)
  have "pe_channel e \<noteq> n" if "e \<in> set (gp_endpoints p)" for e using D(4) [OF that] None by auto
  then have "uses p n b = 0" for b by (simp add: uses_def filter_empty_conv)
  then have "channel_ok p n (channel_new p pl n)"
    by (simp add: channel_ok_def channel_new_def channel_plan_new_def sources_ok_def declarations_ok_def)
  with D(2) have "channel_ok p m c" if "map_of (gp_channels p') m = Some c" for m c
    using that by (simp add: at split: if_splits)
  moreover have "channel_ok p' m c = channel_ok p m c" for m c by (rule channel_ok_cong) (simp add: p')
  ultimately have chan: "channel_ok p' m c" if "map_of (gp_channels p') m = Some c" for m c using that by simp
  have "plan_ok p'"
  proof (rule plan_okI)
    fix e assume "e \<in> set (gp_endpoints p')"
    then have e: "e \<in> set (gp_endpoints p)" by (simp add: p')
    from D(3) [OF e] D(4) [OF e] None show "pe_transport e = Native \<and> (\<exists>c. map_of (gp_channels p') (pe_channel e) = Some c \<and> endpoint_ok (ch_plan c) e)"
      by (auto simp: at)
  qed (use D chan map_insert_keys [OF D(1) fresh] in \<open>simp_all add: p'\<close>)
  moreover have "extends p p'" using None by (intro extends_wiring plans_grow_same) (auto simp: same_wiring_def p' map_of_map_insert)
  ultimately show ?thesis using None by (auto simp: at same_wiring_def p' channel_new_def map_of_map_insert)
next
  case (Some c)
  with assms show ?thesis
    by (cases pl) (auto simp: gp_native_def gp_bundle_def same_wiring_def split: if_splits)
qed

lemma change_channel:
  assumes "plan_ok p" and "map_of (gp_channels p) n = Some c" and "grows (ch_plan c) (ch_plan (f c))"
    and "declarations_ok (f c)" and "ch_publishers (f c) = ch_publishers c" and "ch_subscribers (f c) = ch_subscribers c"
  shows "plan_ok (on_channel n f p)"
proof -
  note D = plan_okD [OF assms(1)]
  have "channel_ok p n (f c)"
    using D(2) [OF assms(2)] assms(3-) by (simp add: channel_ok_def grows_def)
  with D(2) assms(2) have chan: "channel_ok (on_channel n f p) m d" if "map_of (gp_channels (on_channel n f p)) m = Some d" for m d
    using that by (auto simp: channel_ok_cong [of "on_channel n f p" p] split: if_splits)
  have ends: "\<exists>d. map_of (gp_channels (on_channel n f p)) (pe_channel e) = Some d \<and> endpoint_ok (ch_plan d) e" if "e \<in> set (gp_endpoints p)" for e
    using D(4) [OF that] assms(2) endpoint_ok_grows [OF assms(3)] by auto
  show ?thesis by (rule plan_okI) (use D chan ends in simp_all)
qed

lemma add_endpoint:
  assumes ok: "plan_ok p" and c: "map_of (gp_channels p) (pe_channel e) = Some c" and g: "grows (ch_plan c) (ch_plan (f c))"
    and d: "declarations_ok (f c)" and e: "endpoint_ok (ch_plan (f c)) e" "pe_transport e = Native"
    and fresh: "(if pe_output e then length (cp_publishers (ch_plan c)) else length (cp_subscribers (ch_plan c))) \<le> pe_index e"
    and counts: "ch_publishers (f c) = ch_publishers c + (if pe_output e then 1 else 0)"
      "ch_subscribers (f c) = ch_subscribers c + (if pe_output e then 0 else 1)"
  shows "plan_ok ((on_channel (pe_channel e) f p)\<lparr>gp_endpoints := gp_endpoints p @ [e]\<rparr>)"
    (is "plan_ok ?p")
proof -
  note D = plan_okD [OF ok]
  have u: "uses ?p n b = uses p n b + (if pe_channel e = n \<and> pe_output e = b then 1 else 0)" for n b
  proof -
    have "gp_endpoints ?p = gp_endpoints p @ [e]" by simp
    then show ?thesis unfolding uses_def by (simp only: filter_append length_append filter.simps) simp
  qed
  have chan: "channel_ok ?p m x" if "map_of (gp_channels ?p) m = Some x" for m x
  proof (cases "m = pe_channel e")
    case True
    with that c have "x = f c" by simp
    with True D(2) [OF c] g d counts show ?thesis by (simp add: channel_ok_def u grows_def)
  next
    case False
    with that have "map_of (gp_channels p) m = Some x" by simp
    from False D(2) [OF this] show ?thesis by (simp add: channel_ok_def u)
  qed
  have ends: "\<exists>x. map_of (gp_channels ?p) (pe_channel e') = Some x \<and> endpoint_ok (ch_plan x) e'" if "e' \<in> set (gp_endpoints p)" for e'
    using D(4) [OF that] c endpoint_ok_grows [OF g] by auto
  have new: "endpoint_id e \<notin> endpoint_id ` set (gp_endpoints p)"
  proof
    assume "endpoint_id e \<in> endpoint_id ` set (gp_endpoints p)"
    then obtain e' where e': "e' \<in> set (gp_endpoints p)" "endpoint_id e' = endpoint_id e" by auto
    with D(4) [OF e'(1)] c have "endpoint_ok (ch_plan c) e'" by (auto simp: endpoint_id_def)
    with e'(2) fresh show False by (auto simp: endpoint_ok_def endpoint_id_def split: if_splits)
  qed
  have ranges: "ranges_ok (Suc (length (gp_endpoints p))) (gp_tasks p)"
    using D(6) unfolding ranges_ok_def by fastforce
  show ?thesis
  proof (rule plan_okI)
    show "pe_transport e' = Native \<and> (\<exists>c. map_of (gp_channels ?p) (pe_channel e') = Some c \<and> endpoint_ok (ch_plan c) e')"
      if "e' \<in> set (gp_endpoints ?p)" for e'
      using that ends [of e'] D(3) [of e'] c e by (cases "e' = e") auto
  qed (use D new chan ranges in simp_all)
qed

lemma declarations_plan [simp]:
  "declarations_ok (c\<lparr>ch_plan := cp\<rparr>) = declarations_ok c"
  "declarations_ok (c\<lparr>ch_plan := cp, ch_publishers := i\<rparr>) = declarations_ok c"
  "declarations_ok (c\<lparr>ch_plan := cp, ch_subscribers := i\<rparr>) = declarations_ok c"
  by (simp_all add: declarations_ok_def)

lemma gp_publisher_law:
  assumes "plan_ok p" and "gp_channel pl n p = Inr p1"
  shows "\<exists>k p'. gp_publisher pl n cap p = Ret (Inr (k, p')) \<and> plan_ok p' \<and> extends p p'"
proof -
  from gp_channel_law [OF assms] obtain c where ok: "plan_ok p1" and c: "map_of (gp_channels p1) n = Some c"
    and ext: "extends p p1" by blast
  let ?f = "\<lambda>c'. c'\<lparr>ch_plan := snd (declare_publisher (ch_plan c) cap), ch_publishers := ch_publishers c' + 1\<rparr>"
  let ?e = "planned_endpoint_new pl n True (length (cp_publishers (ch_plan c))) cap"
  have grow: "extends p ((on_channel n ?f p1)\<lparr>gp_endpoints := gp_endpoints p1 @ [?e]\<rparr>)"
    by (intro extends_endpoints extends_on_channel [OF ext c]) (simp_all add: grows_publisher)
  have "plan_ok ((on_channel (pe_channel ?e) ?f p1)\<lparr>gp_endpoints := gp_endpoints p1 @ [?e]\<rparr>)"
    by (rule add_endpoint [OF ok, of _ c])
      (use c plan_okD(2) [OF ok c] in \<open>simp_all add: planned_endpoint_new_def grows_publisher [unfolded declare_publisher_def snd_conv] channel_ok_def
        endpoint_ok_def declare_publisher_def\<close>)
  then show ?thesis
    using assms(2) c grow by (auto simp: gp_publisher_def declare_publisher_def channel_at_def planned_endpoint_new_def)
qed

lemma gp_subscriber_law:
  assumes "plan_ok p" and "gp_channel pl n p = Inr p1"
  shows "\<exists>k p'. gp_subscriber pl n cap pol p = Ret (Inr (k, p')) \<and> plan_ok p' \<and> extends p p'"
proof -
  from gp_channel_law [OF assms] obtain c where ok: "plan_ok p1" and c: "map_of (gp_channels p1) n = Some c"
    and ext: "extends p p1" by blast
  let ?f = "\<lambda>c'. c'\<lparr>ch_plan := snd (declare_subscriber_with_policy (ch_plan c) cap pol), ch_subscribers := ch_subscribers c' + 1\<rparr>"
  let ?e = "planned_endpoint_new pl n False (length (cp_subscribers (ch_plan c))) cap"
  have grow: "extends p ((on_channel n ?f p1)\<lparr>gp_endpoints := gp_endpoints p1 @ [?e]\<rparr>)"
    by (intro extends_endpoints extends_on_channel [OF ext c]) (simp_all add: grows_subscriber)
  have "plan_ok ((on_channel (pe_channel ?e) ?f p1)\<lparr>gp_endpoints := gp_endpoints p1 @ [?e]\<rparr>)"
    by (rule add_endpoint [OF ok, of _ c])
      (use c plan_okD(2) [OF ok c] in \<open>simp_all add: planned_endpoint_new_def grows_subscriber [unfolded declare_subscriber_with_policy_def snd_conv]
        channel_ok_def endpoint_ok_def declare_subscriber_with_policy_def\<close>)
  then show ?thesis
    using assms(2) c grow by (auto simp: gp_subscriber_def declare_subscriber_with_policy_def channel_at_def planned_endpoint_new_def)
qed

lemma change_plan:
  assumes "plan_ok p" and "map_of (gp_channels p) n = Some c" and "grows (ch_plan c) cp"
  shows "plan_ok (on_channel n (\<lambda>c. c\<lparr>ch_plan := cp\<rparr>) p)"
  by (rule change_channel [OF assms(1,2)]) (use assms plan_okD(2) [OF assms(1,2)] in \<open>simp_all add: channel_ok_def\<close>)

section \<open>Endpoints of tasks\<close>

lemma nth_endpoint_law:
  "nth_endpoint b i es = Some k \<Longrightarrow> k < length es \<and> pe_output (es ! k) = b \<and> length (filter (\<lambda>e. pe_output e = b) (take k es)) = i"
proof (induction b i es arbitrary: k rule: nth_endpoint.induct)
  case (2 out ordinal e es)
  then show ?case by (cases "pe_output e = out"; cases "ordinal = 0") (auto simp: less_Suc_eq_0_disj)
qed simp

lemma nth_endpoint_defined: "nth_endpoint b i es \<noteq> None \<longleftrightarrow> i < length (filter (\<lambda>e. pe_output e = b) es)"
proof (induction b i es rule: nth_endpoint.induct)
  case (2 out ordinal e es)
  then show ?case by (cases "pe_output e = out"; cases "ordinal = 0") auto
qed simp

lemma task_range:
  assumes "plan_ok p" and "map_of (gp_tasks p) n = Some r"
  shows "fst r \<le> snd r \<and> snd r \<le> length (gp_endpoints p) \<and> range_of r (gp_endpoints p) = Ret (drop (fst r) (take (snd r) (gp_endpoints p)))"
proof -
  from plan_okD(6) [OF assms(1)] map_of_SomeD [OF assms(2)] have "fst r \<le> snd r \<and> snd r \<le> length (gp_endpoints p)"
    by (force simp: ranges_ok_def)
  then show ?thesis by (simp add: range_of_def)
qed

text \<open>An endpoint of a task is an endpoint of the plan, at a position in the range of the task.\<close>

lemma gp_endpoint_law:
  assumes "plan_ok p"
  shows "(\<exists>e. gp_endpoint p n i b = Ret (Inl e)) \<or>
    (\<exists>r k. map_of (gp_tasks p) n = Some r \<and> fst r + k < snd r \<and> snd r \<le> length (gp_endpoints p)
      \<and> nth_endpoint b i (drop (fst r) (take (snd r) (gp_endpoints p))) = Some k
      \<and> pe_output (gp_endpoints p ! (fst r + k)) = b \<and> gp_endpoint p n i b = Ret (Inr (gp_endpoints p ! (fst r + k))))"
proof (cases "map_of (gp_tasks p) n")
  case (Some r)
  let ?es = "drop (fst r) (take (snd r) (gp_endpoints p))"
  note r = task_range [OF assms Some]
  show ?thesis
  proof (cases "nth_endpoint b i ?es")
    case None
    with Some r show ?thesis by (simp add: gp_endpoint_def)
  next
    case (Some k)
    from nth_endpoint_law [OF Some] r have "fst r + k < snd r" "pe_output (gp_endpoints p ! (fst r + k)) = b" by auto
    with Some \<open>map_of (gp_tasks p) n = Some r\<close> r show ?thesis by (auto simp: gp_endpoint_def)
  qed
qed (simp add: gp_endpoint_def)

lemma gp_endpoint_cases:
  assumes "plan_ok p"
  obtains err where "gp_endpoint p n i b = Ret (Inl err)"
  | e where "gp_endpoint p n i b = Ret (Inr e)" "e \<in> set (gp_endpoints p)" "pe_output e = b"
  using gp_endpoint_law [OF assms, of n i b]
proof
  assume "\<exists>r k. map_of (gp_tasks p) n = Some r \<and> fst r + k < snd r \<and> snd r \<le> length (gp_endpoints p)
      \<and> nth_endpoint b i (drop (fst r) (take (snd r) (gp_endpoints p))) = Some k
      \<and> pe_output (gp_endpoints p ! (fst r + k)) = b \<and> gp_endpoint p n i b = Ret (Inr (gp_endpoints p ! (fst r + k)))"
  then obtain r k where r: "fst r + k < snd r" "snd r \<le> length (gp_endpoints p)" "pe_output (gp_endpoints p ! (fst r + k)) = b"
    "gp_endpoint p n i b = Ret (Inr (gp_endpoints p ! (fst r + k)))" by blast
  from r(1,2) have "gp_endpoints p ! (fst r + k) \<in> set (gp_endpoints p)" by simp
  with r(3,4) show ?thesis by (intro that(2))
qed (use that(1) in blast)

lemma update_endpoint:
  assumes "plan_ok p" and "i < length (gp_endpoints p)"
    and "endpoint_id e = endpoint_id (gp_endpoints p ! i)" and "pe_capacity e = pe_capacity (gp_endpoints p ! i)" and "pe_transport e = Native"
  shows "plan_ok (p\<lparr>gp_endpoints := (gp_endpoints p)[i := e]\<rparr>)"
    (is "plan_ok ?p")
proof -
  note D = plan_okD [OF assms(1)]
  let ?old = "gp_endpoints p ! i"
  have ids: "map g (gp_endpoints ?p) = map g (gp_endpoints p)" if "g e = g ?old" for g :: "planned_endpoint \<Rightarrow> 'x"
    using assms(2) that by (simp add: map_update list_update_same_conv)
  have "uses ?p n b = uses p n b" for n b
  proof -
    have "uses q n b = length (filter (\<lambda>(c, out, _). c = n \<and> out = b) (map endpoint_id (gp_endpoints q)))" for q :: "'a graph_plan"
      by (simp add: uses_def filter_map comp_def endpoint_id_def)
    then show ?thesis by (simp only: ids [of endpoint_id, OF assms(3)])
  qed
  then have "channel_ok ?p n c = channel_ok p n c" for n c by (simp add: channel_ok_def)
  with D(2) have chan: "channel_ok ?p n c" if "map_of (gp_channels ?p) n = Some c" for n c using that by simp
  have ends: "pe_transport e' = Native \<and> (\<exists>c. map_of (gp_channels p) (pe_channel e') = Some c \<and> endpoint_ok (ch_plan c) e')"
    if "e' \<in> insert e (set (gp_endpoints p))" for e'
  proof (cases "e' = e")
    case True
    from D(4) [OF nth_mem [OF assms(2)]] assms(3-5) True show ?thesis by (auto simp: endpoint_id_def endpoint_ok_def)
  next
    case False
    with that D(3,4) show ?thesis by simp
  qed
  show ?thesis
  proof (rule plan_okI)
    fix e' assume "e' \<in> set (gp_endpoints ?p)"
    then have "e' \<in> insert e (set (gp_endpoints p))" using set_update_subset_insert [of "gp_endpoints p" i e] by auto
    from ends [OF this] show "pe_transport e' = Native \<and> (\<exists>c. map_of (gp_channels ?p) (pe_channel e') = Some c \<and> endpoint_ok (ch_plan c) e')" by simp
  next
    show "distinct (map endpoint_id (gp_endpoints ?p))" by (simp only: ids [of endpoint_id, OF assms(3)] D(5))
  qed (use D chan in simp_all)
qed

lemma claim_endpoint_law:
  assumes ok: "plan_ok p" and e: "gp_endpoint p n i b = Ret (Inr e)" and free: "\<not> pe_configured e"
    and w: "gp_endpoints p' = gp_endpoints p" "gp_tasks p' = gp_tasks p" and ok': "plan_ok p'"
  shows "\<exists>j < length (gp_endpoints p). gp_endpoints p ! j = e
    \<and> claim_endpoint n i b p' = Ret (Inr (p'\<lparr>gp_endpoints := (gp_endpoints p)[j := e\<lparr>pe_configured := True\<rparr>]\<rparr>))
    \<and> plan_ok (p'\<lparr>gp_endpoints := (gp_endpoints p)[j := e\<lparr>pe_configured := True\<rparr>]\<rparr>)"
proof -
  from gp_endpoint_law [OF ok, of n i b] e obtain r k where r: "map_of (gp_tasks p) n = Some r" "fst r + k < snd r"
    "snd r \<le> length (gp_endpoints p)" "nth_endpoint b i (drop (fst r) (take (snd r) (gp_endpoints p))) = Some k"
    "e = gp_endpoints p ! (fst r + k)" by auto
  have at: "drop (fst r) (take (snd r) (gp_endpoints p)) ! k = e" using r by simp
  have "plan_ok (p'\<lparr>gp_endpoints := (gp_endpoints p')[fst r + k := e\<lparr>pe_configured := True\<rparr>]\<rparr>)"
    using r w plan_okD(3) [OF ok, of e] by (intro update_endpoint [OF ok']) (auto simp: endpoint_id_def)
  with r w at free task_range [OF ok r(1)] show ?thesis
    by (intro exI [of _ "fst r + k"]) (simp add: claim_endpoint_def)
qed

section \<open>The calls\<close>

lemma gp_channel_known:
  "map_of (gp_channels p) n = Some c \<Longrightarrow> family (ch_payload c) = family pl \<Longrightarrow> gp_channel pl n p = Inr p"
  by (cases pl) (simp_all add: gp_native_def gp_bundle_def)

lemmas gp_native_known = gp_channel_known [where pl = "NativePayload t" for t, simplified]
lemmas gp_native_law = gp_channel_law [where pl = "NativePayload t" for t, simplified]
lemmas gp_bundle_law = gp_channel_law [where pl = "BundlePayload b" for b, simplified]

lemma annotate_law:
  assumes "plan_ok p" and "gp_endpoints p \<noteq> []"
  shows "\<exists>p'. annotate_last_endpoint n f p = Ret p' \<and> plan_ok p' \<and> extends p p'"
proof -
  let ?i = "length (gp_endpoints p) - 1"
  have "butlast (gp_endpoints p) @ [e] = (gp_endpoints p)[?i := e]" for e
    using assms(2) by (simp add: list_update_append1 [of _ "butlast (gp_endpoints p)"] butlast_conv_take upd_conv_take_nth_drop)
  moreover have "plan_ok (p\<lparr>gp_endpoints := (gp_endpoints p)[?i := (last (gp_endpoints p))\<lparr>pe_name := Some n, pe_forwardable := f\<rparr>]\<rparr>)"
    using assms plan_okD(3) [OF assms(1), of "last (gp_endpoints p)"]
    by (intro update_endpoint) (simp_all add: endpoint_id_def last_conv_nth)
  ultimately show ?thesis using assms(2) by (simp add: annotate_last_endpoint_def extends_def)
qed

text \<open>A declaration that was accepted before is accepted again, with the same family.\<close>

lemma declared_family:
  assumes "plan_ok p" and "map_of (gp_channels p) n = Some c"
  shows "ch_capture c = Some pl \<Longrightarrow> gp_channel pl n p = Inr p" and "ch_replay c = Some t \<Longrightarrow> gp_native t n p = Inr p"
  using plan_okD(2) [OF assms] gp_channel_known [OF assms(2)] gp_native_known [OF assms(2)]
  by (auto simp: channel_ok_def declarations_ok_def)

text \<open>What changes on the channels of a plan when one of them gets endpoints.\<close>

definition channels_grow :: "'b graph_plan \<Rightarrow> 'b graph_plan \<Rightarrow> bool" where
  "channels_grow p p' \<longleftrightarrow> (\<forall>n c. map_of (gp_channels p) n = Some c \<longrightarrow>
     (\<exists>c'. map_of (gp_channels p') n = Some c' \<and> grows (ch_plan c) (ch_plan c') \<and> ch_capture c' = ch_capture c
       \<and> ch_replay c' = ch_replay c \<and> ch_payload c' = ch_payload c))"

lemma channels_plans: "channels_grow p p' \<Longrightarrow> plans_grow p p'"
  unfolding channels_grow_def plans_grow_def by blast

lemma channels_grow_refl [simp]: "channels_grow p p"
  by (simp add: channels_grow_def grows_refl)

lemma channels_grow_trans: "channels_grow p q \<Longrightarrow> channels_grow q r \<Longrightarrow> channels_grow p r"
  unfolding channels_grow_def by (fastforce intro: grows_trans)

lemma channels_grow_plan:
  "map_of (gp_channels p) n = Some c \<Longrightarrow> grows (ch_plan c) cp \<Longrightarrow> channels_grow p (on_channel n (\<lambda>c. c\<lparr>ch_plan := cp\<rparr>) p)"
  by (auto simp: channels_grow_def grows_refl)

lemma same_wiring_trans: "same_wiring p q \<Longrightarrow> same_wiring q r \<Longrightarrow> same_wiring p r"
  by (simp add: same_wiring_def)

lemma declare_injection_law:
  assumes ok: "plan_ok p" and e: "e \<in> set (gp_endpoints p)" "\<not> pe_output e"
    and t: "Option.bind (map_of (gp_channels p) (pe_channel e)) ch_replay = Some t"
  shows "\<exists>r p'. declare_injection t e cap p = Ret (r, p') \<and> plan_ok p' \<and> same_wiring p p' \<and> channels_grow p p'"
proof -
  from t obtain c where c: "map_of (gp_channels p) (pe_channel e) = Some c" "ch_replay c = Some t" by (auto split: bind_splits)
  note native = declared_family(2) [OF ok c]
  from plan_okD(4) [OF ok e(1)] c(1) e(2) have index: "pe_index e < length (cp_subscribers (ch_plan c))"
    by (simp add: endpoint_ok_def)
  let ?cp = "snd (declare_publisher (ch_plan c) cap)" and ?k = "fst (declare_publisher (ch_plan c) cap)"
  let ?sub = "\<lparr>key_channel = cp_name (ch_plan c), key_index = pe_index e\<rparr>"
  obtain r cp where r: "declare_injection t e cap p = Ret (r, on_channel (pe_channel e) (\<lambda>c. c\<lparr>ch_plan := cp\<rparr>) p)" "grows (ch_plan c) cp"
  proof (cases "restrict_subscriber_sources ?cp ?sub [?k]")
    case (Inl err)
    with that native c(1) index show ?thesis
      by (simp add: declare_injection_def channel_at_def subscriber_key_def split_def Let_def grows_publisher)
  next
    case (Inr cp')
    with that native c(1) index grows_trans [OF grows_publisher grows_restrict [OF Inr]] show ?thesis
      by (simp add: declare_injection_def channel_at_def subscriber_key_def split_def Let_def)
  qed
  then show ?thesis using change_plan [OF ok c(1) r(2)] channels_grow_plan [OF c(1) r(2)] by auto
qed

lemma claim_same:
  "channels_grow p p' \<Longrightarrow> channels_grow p (p'\<lparr>gp_endpoints := es\<rparr>)"
  by (simp add: channels_grow_def)

lemma inject_input_law:
  assumes ok: "plan_ok p"
  shows "\<exists>r p'. inject_input n i cap p = Ret (r, p') \<and> plan_ok p' \<and> channels_grow p p' \<and> extends p p'"
proof (cases "cap = 0 \<or> checked_u32 cap = None")
  case False
  show ?thesis
  proof (cases rule: gp_endpoint_cases [OF ok, of n i False])
    case (2 e)
    show ?thesis
    proof (cases "Option.bind (map_of (gp_channels p) (pe_channel e)) ch_replay")
      case (Some t)
      show ?thesis
      proof (cases "pe_configured e")
        case free: False
        from declare_injection_law [OF ok 2(2) _ Some, of cap] 2(3) obtain r p1 where d: "declare_injection t e cap p = Ret (r, p1)"
          "plan_ok p1" "same_wiring p p1" "channels_grow p p1" by auto
        show ?thesis
        proof (cases r)
          case (Inl err)
          with False free Some 2 d extends_wiring [OF d(3) channels_plans [OF d(4)]] show ?thesis by (auto simp: inject_input_def)
        next
          case (Inr b)
          from claim_endpoint_law [OF ok 2(1) free _ _ d(2)] d(3) obtain p2 where "claim_endpoint n i False p1 = Ret (Inr p2)" "plan_ok p2"
            "channels_grow p p2" "extends p p2" using claim_same [OF d(4)] channels_plans [OF d(4)] by (auto simp: same_wiring_def extends_def)
          with False free Some 2 d Inr show ?thesis by (auto simp: inject_input_def)
        qed
      qed (use False 2 Some ok in \<open>simp add: inject_input_def\<close>)
    qed (use False 2 ok in \<open>simp add: inject_input_def\<close>)
  qed (use False ok in \<open>simp add: inject_input_def\<close>)
qed (use ok in \<open>simp add: inject_input_def\<close>)

lemma observe_output_law:
  assumes ok: "plan_ok p"
  shows "(\<exists>err. observe_output n i p = Ret (Inl err)) \<or> (\<exists>b p'. observe_output n i p = Ret (Inr (b, p')) \<and> plan_ok p' \<and> gp_channels p' = gp_channels p \<and> extends p p')"
proof (cases rule: gp_endpoint_cases [OF ok, of n i True])
  case (2 e)
  show ?thesis
  proof (cases "Option.bind (map_of (gp_channels p) (pe_channel e)) ch_capture")
    case (Some pl)
    then obtain c where c: "map_of (gp_channels p) (pe_channel e) = Some c" "ch_capture c = Some pl" by (auto split: bind_splits)
    from plan_okD(4) [OF ok 2(2)] c(1) 2(3) have index: "pe_index e < length (cp_publishers (ch_plan c))" by (simp add: endpoint_ok_def)
    then obtain b where b: "declare_output pl e p = Ret (Inr (b, p))"
      using declared_family(1) [OF ok c] c(1) by (simp add: declare_output_def channel_at_def publisher_key_def)
    show ?thesis
    proof (cases "pe_configured e")
      case False
      from claim_endpoint_law [OF ok 2(1) False refl refl ok] 2(1) Some False b show ?thesis
        by (auto simp: observe_output_def extends_def)
    qed (use 2(1) Some in \<open>simp add: observe_output_def\<close>)
  qed (use 2(1) in \<open>simp add: observe_output_def\<close>)
qed (simp add: observe_output_def)

lemma declare_capture_law:
  assumes ok: "plan_ok p" and c: "map_of (gp_channels p) n = Some c" "ch_capture c = Some pl"
  shows "\<exists>b p'. declare_capture pl n cap p = Ret (Inr (b, p')) \<and> plan_ok p' \<and> same_wiring p p' \<and> channels_grow p p'"
proof -
  let ?cp = "snd (declare_subscriber_with_policy (ch_plan c) cap capture_policy)"
  note g = grows_subscriber [of "ch_plan c" cap capture_policy]
  show ?thesis
    using declared_family(1) [OF ok c] c(1) change_plan [OF ok c(1) g] channels_grow_plan [OF c(1) g]
    by (simp add: declare_capture_def channel_at_def split_def Let_def)
qed

lemma declare_source_law:
  assumes ok: "plan_ok p" and c: "map_of (gp_channels p) n = Some c" "ch_replay c = Some t"
  shows "\<exists>b p'. declare_source t n cap p = Ret (Inr (b, p')) \<and> plan_ok p' \<and> same_wiring p p' \<and> channels_grow p p'"
proof -
  let ?cp = "snd (declare_publisher (ch_plan c) cap)"
  note g = grows_publisher [of "ch_plan c" cap]
  show ?thesis
    using declared_family(2) [OF ok c] c(1) change_plan [OF ok c(1) g] channels_grow_plan [OF c(1) g]
    by (simp add: declare_source_def channel_at_def split_def Let_def)
qed

lemma declare_capture_loop_law:
  assumes "plan_ok p" and "\<forall>n \<in> set ns. Option.bind (map_of (gp_channels p) n) ch_capture \<noteq> None"
  shows "\<exists>bs p'. declare_capture_loop cap ns p = Ret (Inr bs, p') \<and> length bs = length ns \<and> plan_ok p' \<and> same_wiring p p' \<and> channels_grow p p'"
  using assms
proof (induction ns arbitrary: p)
  case (Cons n ns)
  from Cons.prems(2) obtain c pl where c: "map_of (gp_channels p) n = Some c" "ch_capture c = Some pl" by (auto split: bind_splits)
  from declare_capture_law [OF Cons.prems(1) c] obtain b p1 where p1: "declare_capture pl n cap p = Ret (Inr (b, p1))" "plan_ok p1"
    "same_wiring p p1" "channels_grow p p1" by blast
  from Cons.prems(2) p1(4) have "\<forall>n \<in> set ns. Option.bind (map_of (gp_channels p1) n) ch_capture \<noteq> None"
    by (fastforce simp: channels_grow_def split: bind_splits)
  from Cons.IH [OF p1(2) this] c p1 show ?case
    by (auto simp: channel_at_def intro: same_wiring_trans channels_grow_trans)
qed (simp add: same_wiring_def)

lemma declare_source_loop_law:
  assumes "plan_ok p" and "\<forall>n \<in> set ns. Option.bind (map_of (gp_channels p) n) ch_replay \<noteq> None"
  shows "\<exists>bs p'. declare_source_loop cap ns p = Ret (Inr bs, p') \<and> length bs = length ns \<and> plan_ok p' \<and> same_wiring p p' \<and> channels_grow p p'"
  using assms
proof (induction ns arbitrary: p)
  case (Cons n ns)
  from Cons.prems(2) obtain c t where c: "map_of (gp_channels p) n = Some c" "ch_replay c = Some t" by (auto split: bind_splits)
  from declare_source_law [OF Cons.prems(1) c] obtain b p1 where p1: "declare_source t n cap p = Ret (Inr (b, p1))" "plan_ok p1"
    "same_wiring p p1" "channels_grow p p1" by blast
  from Cons.prems(2) p1(4) have "\<forall>n \<in> set ns. Option.bind (map_of (gp_channels p1) n) ch_replay \<noteq> None"
    by (fastforce simp: channels_grow_def split: bind_splits)
  from Cons.IH [OF p1(2) this] c p1 show ?case
    by (auto simp: channel_at_def intro: same_wiring_trans channels_grow_trans)
qed (simp add: same_wiring_def)

end
