(* ===== verification/Graph_Forwarding.thy ===== *)
theory Graph_Forwarding
  imports Graph_Wiring
begin

text \<open>
  Forwarding budgets. A message of an output channel may keep messages of the channels it was forwarded from, so each
  publisher of a source channel reserves as many slots as the arenas of the output channels have together. The depth-first
  computation of \<open>prepare_forwarding\<close> ends, finds every cycle, and otherwise gives every channel that sum.
\<close>

definition edge_rel :: "'b graph_plan \<Rightarrow> (string \<times> string) set" where
  "edge_rel p = (\<lambda>e. (edge_source e, edge_target e)) ` set (forwarding_edges p)"

definition outputs_of :: "'b graph_plan \<Rightarrow> string \<Rightarrow> string list" where
  "outputs_of p n = map edge_target (filter (\<lambda>e. edge_source e = n) (forwarding_edges p))"

lemma set_outputs_of: "set (outputs_of p n) = {m. (n, m) \<in> edge_rel p}"
  by (auto simp: outputs_of_def edge_rel_def)

definition source_names :: "'b graph_plan \<Rightarrow> string set" where
  "source_names p = edge_source ` set (forwarding_edges p)"

lemma outputs_of_Nil: "n \<notin> source_names p \<Longrightarrow> outputs_of p n = []"
  by (auto simp: outputs_of_def source_names_def filter_empty_conv)

text \<open>Only retentions change.\<close>

definition retuned :: "'b graph_plan \<Rightarrow> 'b graph_plan \<Rightarrow> bool" where
  "retuned p p' \<longleftrightarrow> same_wiring p p' \<and> map fst (gp_channels p') = map fst (gp_channels p)
     \<and> (\<forall>n c. map_of (gp_channels p) n = Some c \<longrightarrow>
          (\<exists>x. map_of (gp_channels p') n = Some (c\<lparr>ch_plan := set_forwarding_retention (ch_plan c) x\<rparr>)))"

lemma retunedD: "retuned p p' \<Longrightarrow> same_wiring p p'" "retuned p p' \<Longrightarrow> map fst (gp_channels p') = map fst (gp_channels p)"
  by (simp_all only: retuned_def)

lemma retuned_refl [simp]: "retuned p p"
proof -
  have "c\<lparr>ch_plan := set_forwarding_retention (ch_plan c) (forwarding_retention (ch_plan c))\<rparr> = c" for c :: planned_channel
    by (simp add: set_forwarding_retention_def)
  then show ?thesis unfolding retuned_def same_wiring_def by metis
qed

lemma retention_twice: "set_forwarding_retention (set_forwarding_retention cp x) y = set_forwarding_retention cp y"
  by (simp add: set_forwarding_retention_def)

lemma retuned_trans:
  assumes "retuned p q" and "retuned q r"
  shows "retuned p r"
  unfolding retuned_def
proof (intro conjI allI impI)
  fix n c assume "map_of (gp_channels p) n = Some c"
  with assms(1) obtain x where "map_of (gp_channels q) n = Some (c\<lparr>ch_plan := set_forwarding_retention (ch_plan c) x\<rparr>)"
    by (auto simp: retuned_def)
  with assms(2) obtain y where "map_of (gp_channels r) n
      = Some (c\<lparr>ch_plan := set_forwarding_retention (set_forwarding_retention (ch_plan c) x) y\<rparr>)"
    unfolding retuned_def by fastforce
  then show "\<exists>x. map_of (gp_channels r) n = Some (c\<lparr>ch_plan := set_forwarding_retention (ch_plan c) x\<rparr>)"
    by (auto simp: retention_twice)
qed (use assms in \<open>auto simp: retuned_def same_wiring_def\<close>)

lemma retuned_channel:
  "map_of (gp_channels p) n = Some c \<Longrightarrow>
     retuned p (on_channel n (\<lambda>d. d\<lparr>ch_plan := set_forwarding_retention (ch_plan c) x\<rparr>) p)"
  using retuned_refl [of p] unfolding retuned_def by (auto simp del: retuned_refl)

lemma retention_set [simp]: "forwarding_retention (set_forwarding_retention cp x) = x"
  by (simp add: set_forwarding_retention_def)

lemma retuned_edges [simp]:
  assumes "retuned p p'"
  shows "edge_rel p' = edge_rel p" "outputs_of p' n = outputs_of p n" "source_names p' = source_names p" "forwarding_edges p' = forwarding_edges p"
  using assms by (simp_all add: retuned_def same_wiring_def edge_rel_def outputs_of_def source_names_def)

lemma retuned_unknown: "retuned p p' \<Longrightarrow> map_of (gp_channels p') n = None \<longleftrightarrow> map_of (gp_channels p) n = None"
  unfolding map_of_eq_None_iff set_map [symmetric] by (simp only: retuned_def)

lemma retuned_at:
  assumes "retuned p p'" and "map_of (gp_channels p') n = Some c'"
  shows "\<exists>c x. map_of (gp_channels p) n = Some c \<and> c' = c\<lparr>ch_plan := set_forwarding_retention (ch_plan c) x\<rparr>"
proof -
  from assms obtain c where c: "map_of (gp_channels p) n = Some c" using retuned_unknown [OF assms(1), of n] by (cases "map_of (gp_channels p) n") auto
  with assms show ?thesis by (fastforce simp: retuned_def)
qed

text \<open>A channel whose budget is final: it retains the slots of all its outputs, and it is on no cycle.\<close>

definition settled :: "'b graph_plan \<Rightarrow> (string \<rightharpoonup> nat) \<Rightarrow> string \<Rightarrow> bool" where
  "settled p fin n \<longleftrightarrow> (\<exists>c v. fin n = Some v \<and> map_of (gp_channels p) n = Some c \<and> total_publisher_capacity (ch_plan c) = Inr v
     \<and> set (outputs_of p n) \<subseteq> dom fin \<and> forwarding_retention (ch_plan c) = sum_list (map (\<lambda>m. the (fin m)) (outputs_of p n))
     \<and> (n, n) \<notin> (edge_rel p)\<^sup>+ \<and> n \<in> Field (edge_rel p))"

definition fin_ok :: "'b graph_plan \<Rightarrow> (string \<rightharpoonup> nat) \<Rightarrow> bool" where
  "fin_ok p fin \<longleftrightarrow> (\<forall>n \<in> dom fin. settled p fin n)"

lemma settled_mono:
  assumes "settled p fin n" and "map_of (gp_channels p') n = map_of (gp_channels p) n" and "retuned p p'" and "fin \<subseteq>\<^sub>m fin'"
  shows "settled p' fin' n"
proof -
  from assms(1) obtain c v where n: "fin n = Some v" "map_of (gp_channels p) n = Some c" "total_publisher_capacity (ch_plan c) = Inr v"
    "set (outputs_of p n) \<subseteq> dom fin" "forwarding_retention (ch_plan c) = sum_list (map (\<lambda>m. the (fin m)) (outputs_of p n))" "(n, n) \<notin> (edge_rel p)\<^sup>+"
    "n \<in> Field (edge_rel p)"
    by (auto simp: settled_def)
  have eq: "fin' m = fin m" if "m \<in> dom fin" for m using assms(4) that by (metis map_le_def)
  have "sum_list (map (\<lambda>m. the (fin' m)) (outputs_of p n)) = sum_list (map (\<lambda>m. the (fin m)) (outputs_of p n))"
    by (intro arg_cong [of _ _ sum_list] map_cong refl) (simp add: eq subsetD [OF n(4)])
  with n eq [of n] assms(2,3) map_le_implies_dom_le [OF assms(4)] show ?thesis by (auto simp: settled_def)
qed

definition progress ::
  "'b graph_plan \<Rightarrow> string set \<Rightarrow> (string \<rightharpoonup> nat) \<Rightarrow> 'b graph_plan \<Rightarrow> (string \<rightharpoonup> nat) \<Rightarrow> bool" where
  "progress p visiting fin p' fin' \<longleftrightarrow> retuned p p' \<and> fin \<subseteq>\<^sub>m fin' \<and> dom fin' \<inter> visiting \<subseteq> dom fin \<and> fin_ok p' fin'
     \<and> (\<forall>n. n \<notin> dom fin' \<or> n \<in> dom fin \<longrightarrow> map_of (gp_channels p') n = map_of (gp_channels p) n)"

lemma progress_refl: "fin_ok p fin \<Longrightarrow> progress p visiting fin p fin"
  by (simp add: progress_def)

lemma progress_trans:
  assumes "progress p visiting fin p1 fin1" and "progress p1 visiting fin1 p2 fin2"
  shows "progress p visiting fin p2 fin2"
proof -
  from assms have "retuned p p2" "fin \<subseteq>\<^sub>m fin2" "fin_ok p2 fin2" "dom fin \<subseteq> dom fin1" "dom fin1 \<subseteq> dom fin2"
    by (auto simp: progress_def intro: retuned_trans map_le_trans dest: map_le_implies_dom_le)
  moreover have "map_of (gp_channels p2) n = map_of (gp_channels p) n" if "n \<notin> dom fin2 \<or> n \<in> dom fin" for n
  proof -
    have "n \<notin> dom fin2 \<or> n \<in> dom fin1" "n \<notin> dom fin1 \<or> n \<in> dom fin" using that calculation(4,5) by blast+
    with assms show ?thesis by (simp add: progress_def)
  qed
  moreover have "dom fin2 \<inter> visiting \<subseteq> dom fin"
    using assms unfolding progress_def by blast
  ultimately show ?thesis by (simp add: progress_def)
qed

lemma closed_reach:
  assumes "\<And>x y. x \<in> D \<Longrightarrow> (x, y) \<in> E \<Longrightarrow> y \<in> D" and "(a, b) \<in> E\<^sup>*" and "a \<in> D"
  shows "b \<in> D"
  using assms(2,3) by (induction rule: rtrancl_induct) (auto intro: assms(1))

text \<open>The step that settles a channel after its outputs.\<close>

lemma settle_step:
  assumes pr: "progress p (insert n visiting) fin p1 fin1" and new: "n \<notin> dom fin" "n \<notin> visiting"
    and c: "map_of (gp_channels p1) n = Some c" and outs: "set (outputs_of p n) \<subseteq> dom fin1"
    and x: "x = sum_list (map (\<lambda>m. the (fin1 m)) (outputs_of p n))"
    and v: "total_publisher_capacity (set_forwarding_retention (ch_plan c) x) = Inr v" and field: "n \<in> Field (edge_rel p)"
  shows "progress p visiting fin (on_channel n (\<lambda>d. d\<lparr>ch_plan := set_forwarding_retention (ch_plan c) x\<rparr>) p1) (fin1(n \<mapsto> v))"
    (is "progress p visiting fin ?p ?fin")
proof -
  from pr have r1: "retuned p p1" and le: "fin \<subseteq>\<^sub>m fin1" and dom: "dom fin1 \<inter> insert n visiting \<subseteq> dom fin" and ok: "fin_ok p1 fin1"
    and same: "\<And>m. m \<notin> dom fin1 \<or> m \<in> dom fin \<Longrightarrow> map_of (gp_channels p1) m = map_of (gp_channels p) m"
    by (auto simp: progress_def)
  from dom new have n1: "n \<notin> dom fin1" by auto
  then have le1: "fin1 \<subseteq>\<^sub>m ?fin" by (auto simp: map_le_def)
  have r2: "retuned p1 ?p" by (rule retuned_channel [OF c])
  have acyclic: "(n, n) \<notin> (edge_rel p)\<^sup>+"
  proof
    assume "(n, n) \<in> (edge_rel p)\<^sup>+"
    then obtain m where m: "(n, m) \<in> edge_rel p" "(m, n) \<in> (edge_rel p)\<^sup>*" by (meson tranclD)
    from m(1) outs have "m \<in> dom fin1" by (auto simp: set_outputs_of)
    have "n \<in> dom fin1"
    proof (rule closed_reach [OF _ m(2) \<open>m \<in> dom fin1\<close>])
      fix y z assume y: "y \<in> dom fin1" "(y, z) \<in> edge_rel p"
      with ok have "set (outputs_of p1 y) \<subseteq> dom fin1" by (auto simp: fin_ok_def settled_def)
      with y(2) r1 show "z \<in> dom fin1" by (auto simp: set_outputs_of)
    qed
    with n1 show False ..
  qed
  have "settled ?p ?fin n"
  proof -
    have "n \<notin> set (outputs_of p n)" using acyclic by (auto simp: set_outputs_of)
    then have "sum_list (map (\<lambda>m. the (?fin m)) (outputs_of p n)) = x" unfolding x by (intro arg_cong [of _ _ sum_list] map_cong) auto
    moreover note retuned_edges [OF retuned_trans [OF r1 r2]]
    ultimately show ?thesis unfolding settled_def using c v outs acyclic field
      by (intro exI [of _ "c\<lparr>ch_plan := set_forwarding_retention (ch_plan c) x\<rparr>"] exI [of _ v]) auto
  qed
  moreover have "settled ?p ?fin m" if "m \<in> dom fin1" for m
    by (rule settled_mono [OF _ _ r2 le1]) (use that ok n1 in \<open>auto simp: fin_ok_def\<close>)
  ultimately have "fin_ok ?p ?fin" by (auto simp: fin_ok_def)
  moreover have "dom ?fin \<inter> visiting \<subseteq> dom fin" using dom new(2) by auto
  moreover have "map_of (gp_channels ?p) m = map_of (gp_channels p) m" if "m \<notin> dom ?fin \<or> m \<in> dom fin" for m
    using that same [of m] new(1) by auto
  ultimately show ?thesis
    unfolding progress_def using retuned_trans [OF r1 r2] map_le_trans [OF le le1] by blast
qed

definition forwarding_error :: "'b graph_plan \<Rightarrow> build_error \<Rightarrow> bool" where
  "forwarding_error p err \<longleftrightarrow> (case err of
     CyclicForwarding n \<Rightarrow> (n, n) \<in> (edge_rel p)\<^sup>+
   | UnknownForwarding n \<Rightarrow> map_of (gp_channels p) n = None
   | FromStorage _ \<Rightarrow> True
   | _ \<Rightarrow> False)"

lemma forwarding_error_retuned: "retuned p p' \<Longrightarrow> forwarding_error p' err = forwarding_error p err"
  by (cases err) (simp_all add: forwarding_error_def retuned_unknown)

definition budget_post ::
  "'b graph_plan \<Rightarrow> string set \<Rightarrow> (string \<rightharpoonup> nat) \<Rightarrow> (nat \<Rightarrow> (string \<rightharpoonup> nat) \<Rightarrow> bool)
     \<Rightarrow> ((build_error + budget_state) \<times> 'b graph_plan) outcome \<Rightarrow> bool" where
  "budget_post p visiting fin Q m \<longleftrightarrow> (\<exists>r p'. m = Ret (r, p') \<and> (case r of
     Inl err \<Rightarrow> retuned p p' \<and> forwarding_error p err
   | Inr (v, visiting', fin') \<Rightarrow> visiting' = visiting \<and> progress p visiting fin p' fin' \<and> Q v fin'))"

lemma finite_sources [simp]: "finite (source_names p)"
  by (simp add: source_names_def)

lemma budget_postE:
  assumes "budget_post p visiting fin Q m"
  obtains (failed) err p' where "m = Ret (Inl err, p')" "retuned p p'" "forwarding_error p err"
  | (ended) v fin' p' where "m = Ret (Inr (v, visiting, fin'), p')" "progress p visiting fin p' fin'" "retuned p p'" "Q v fin'"
proof -
  from assms obtain r p' where r: "m = Ret (r, p')" "case r of
     Inl err \<Rightarrow> retuned p p' \<and> forwarding_error p err
   | Inr (v, visiting', fin') \<Rightarrow> visiting' = visiting \<and> progress p visiting fin p' fin' \<and> Q v fin'"
    by (auto simp: budget_post_def)
  show ?thesis
  proof (cases r)
    case (Inl err)
    with r show ?thesis by (intro failed) auto
  next
    case (Inr res)
    obtain v vis fin' where "res = (v, vis, fin')" by (cases res)
    with r Inr show ?thesis by (intro ended [of v fin' p']) (auto simp: progress_def)
  qed
qed

text \<open>What the two functions promise, one step each.\<close>

lemma budget_step:
  assumes None: "fin name = None" and new: "name \<notin> visiting" and field: "name \<in> Field (edge_rel p)"
    and outs: "budget_post p (insert name visiting) fin
      (\<lambda>v fin'. set (outputs_of p name) \<subseteq> dom fin' \<and> v = 0 + sum_list (map (\<lambda>m. the (fin' m)) (outputs_of p name)))
      (budget_all fuel 0 (outputs_of p name) (insert name visiting) fin p)"
  shows "budget_post p visiting fin (\<lambda>v fin'. fin' name = Some v) (budget (Suc fuel) name visiting fin p)"
  using outs
proof (cases rule: budget_postE)
  case (failed err p1)
  with None new show ?thesis by (simp add: budget_post_def outputs_of_def [symmetric])
next
  case (ended x fin1 p1)
  have step: "budget (Suc fuel) name visiting fin p = (case map_of (gp_channels p1) name of
      None \<Rightarrow> Ret (Inl (UnknownForwarding name), p1)
    | Some c \<Rightarrow> let cp = set_forwarding_retention (ch_plan c) x; p2 = on_channel name (\<lambda>c. c\<lparr>ch_plan := cp\<rparr>) p1
        in Ret (case total_publisher_capacity cp of Inl e \<Rightarrow> (Inl (FromStorage e), p2)
          | Inr capacity \<Rightarrow> (Inr (capacity, insert name visiting - {name}, fin1(name \<mapsto> capacity)), p2)))"
    using None new ended(1) by (simp add: outputs_of_def [symmetric])
  show ?thesis
  proof (cases "map_of (gp_channels p1) name")
    case none: None
    with step ended(3) show ?thesis by (simp add: budget_post_def forwarding_error_def retuned_unknown)
  next
    case (Some c)
    show ?thesis
    proof (cases "total_publisher_capacity (set_forwarding_retention (ch_plan c) x)")
      case (Inl e)
      with Some step show ?thesis
        using retuned_trans [OF ended(3) retuned_channel [OF Some, of x]] by (simp add: budget_post_def forwarding_error_def Let_def)
    next
      case (Inr v)
      from settle_step [OF ended(2) _ new Some _ _ Inr field] None ended(4)
      have "progress p visiting fin (on_channel name (\<lambda>d. d\<lparr>ch_plan := set_forwarding_retention (ch_plan c) x\<rparr>) p1) (fin1(name \<mapsto> v))"
        by auto
      with Some step Inr new show ?thesis by (simp add: budget_post_def Let_def)
    qed
  qed
qed

lemma budget_all_step:
  assumes first: "budget_post p visiting fin (\<lambda>v fin'. fin' out = Some v) (budget fuel out visiting fin p)"
    and rest: "\<And>v fin1 p1. budget fuel out visiting fin p = Ret (Inr (v, visiting, fin1), p1) \<Longrightarrow> checked_usize (extra + v) = Some (extra + v)
      \<Longrightarrow> progress p visiting fin p1 fin1
      \<Longrightarrow> budget_post p1 visiting fin1 (\<lambda>w fin'. set outs \<subseteq> dom fin' \<and> w = (extra + v) + sum_list (map (\<lambda>m. the (fin' m)) outs))
        (budget_all fuel (extra + v) outs visiting fin1 p1)"
  shows "budget_post p visiting fin (\<lambda>v fin'. set (out # outs) \<subseteq> dom fin' \<and> v = extra + sum_list (map (\<lambda>m. the (fin' m)) (out # outs)))
      (budget_all fuel extra (out # outs) visiting fin p)"
  using first
proof (cases rule: budget_postE)
  case (failed err p1)
  then show ?thesis by (simp add: budget_post_def)
next
  case one: (ended v fin1 p1)
  show ?thesis
  proof (cases "checked_usize (extra + v)")
    case None
    with one show ?thesis by (simp add: budget_post_def forwarding_error_def)
  next
    case (Some extra1)
    then have extra1: "extra1 = extra + v" by (simp add: checked_usize_def split: if_splits)
    then have step: "budget_all fuel extra (out # outs) visiting fin p = budget_all fuel (extra + v) outs visiting fin1 p1"
      using one Some by simp
    from Some extra1 have "checked_usize (extra + v) = Some (extra + v)" by simp
    from rest [OF one(1) this one(2)] show ?thesis
    proof (cases rule: budget_postE)
      case (failed err p2)
      with one(3) retuned_trans [OF one(3), of p2] show ?thesis unfolding step budget_post_def by (simp add: forwarding_error_retuned)
    next
      case (ended w fin2 p2)
      then have "fin2 out = Some v" using one(4) by (auto simp: progress_def map_le_def dom_def)
      with ended progress_trans [OF one(2) ended(2)] show ?thesis unfolding step budget_post_def by auto
    qed
  qed
qed

lemma budget_law:
  fixes p :: "'b graph_plan"
  shows "fin_ok p fin \<Longrightarrow> visiting \<inter> dom fin = {} \<Longrightarrow> \<forall>m \<in> visiting. (m, name) \<in> (edge_rel p)\<^sup>+
      \<Longrightarrow> card (source_names p - visiting) < fuel \<Longrightarrow> name \<in> Field (edge_rel p)
      \<Longrightarrow> budget_post p visiting fin (\<lambda>v fin'. fin' name = Some v) (budget fuel name visiting fin p)"
    and "fin_ok p fin \<Longrightarrow> visiting \<inter> dom fin = {} \<Longrightarrow> \<forall>m \<in> visiting. \<forall>out \<in> set outs. (m, out) \<in> (edge_rel p)\<^sup>+
      \<Longrightarrow> (outs \<noteq> [] \<longrightarrow> card (source_names p - visiting) < fuel) \<Longrightarrow> set outs \<subseteq> Field (edge_rel p)
      \<Longrightarrow> budget_post p visiting fin (\<lambda>v fin'. set outs \<subseteq> dom fin' \<and> v = extra + sum_list (map (\<lambda>m. the (fin' m)) outs))
        (budget_all fuel extra outs visiting fin p)"
proof (induction fuel name visiting fin p and fuel extra outs visiting fin p rule: budget_budget_all.induct)
  case (1 name visiting fin p)
  from 1(4) show ?case by simp
next
  case (2 fuel name visiting fin p)
  show ?case
  proof (cases "fin name")
    case (Some v)
    with 2(2) show ?thesis by (simp add: budget_post_def progress_refl)
  next
    case None
    show ?thesis
    proof (cases "name \<in> visiting")
      case True
      with None 2(4) show ?thesis by (simp add: budget_post_def forwarding_error_def)
    next
      case False
      let ?outs = "outputs_of p name"
      have reach: "\<forall>m \<in> insert name visiting. \<forall>out \<in> set ?outs. (m, out) \<in> (edge_rel p)\<^sup>+"
        using 2(4) by (auto simp: set_outputs_of intro: trancl_into_trancl)
      have room: "card (source_names p - insert name visiting) < fuel" if "?outs \<noteq> []"
      proof -
        from that have "name \<in> source_names p - visiting" using outputs_of_Nil [of name p] False by auto
        then have "card (source_names p - insert name visiting) < card (source_names p - visiting)"
          by (intro psubset_card_mono) auto
        with 2(5) show ?thesis by simp
      qed
      have "set ?outs \<subseteq> Field (edge_rel p)" by (auto simp: set_outputs_of Field_def)
      then show ?thesis
        by (intro budget_step [of fin name visiting, OF None False 2(6)] 2(1) [OF None False, unfolded outputs_of_def [symmetric], OF refl])
          (use 2(2,3) None reach room in auto)
    qed
  qed
next
  case (3 fuel extra visiting fin p)
  from progress_refl [OF 3(1)] show ?case by (simp add: budget_post_def)
next
  case (4 fuel extra out outs visiting fin p)
  show ?case
  proof (rule budget_all_step)
    show "budget_post p visiting fin (\<lambda>v fin'. fin' out = Some v) (budget fuel out visiting fin p)"
      by (rule 4(1)) (use 4(3-7) in auto)
  next
    fix v fin1 p1 assume one: "budget fuel out visiting fin p = Ret (Inr (v, visiting, fin1), p1)"
      "checked_usize (extra + v) = Some (extra + v)" "progress p visiting fin p1 fin1"
    then have r1: "retuned p p1" by (simp add: progress_def)
    show "budget_post p1 visiting fin1 (\<lambda>w fin'. set outs \<subseteq> dom fin' \<and> w = (extra + v) + sum_list (map (\<lambda>m. the (fin' m)) outs))
        (budget_all fuel (extra + v) outs visiting fin1 p1)"
    proof (rule 4(2) [OF one(1) refl refl refl refl one(2)])
      show "visiting \<inter> dom fin1 = {}" using 4(4) one(3) unfolding progress_def by blast
      show "fin_ok p1 fin1" using one(3) by (simp add: progress_def)
    qed (use 4(5-7) r1 in auto)
  qed
qed

section \<open>Preparing a plan\<close>

lemma forwarding_fuel:
  "fin_ok p fin \<Longrightarrow> n \<in> source_names p
     \<Longrightarrow> budget_post p {} fin (\<lambda>v fin'. fin' n = Some v) (budget (length (forwarding_edges p) + 2) n {} fin p)"
proof (rule budget_law(1))
  assume n: "n \<in> source_names p"
  have "card (source_names p) \<le> length (forwarding_edges p)"
    unfolding source_names_def by (rule order_trans [OF card_image_le]) (simp_all add: card_length)
  then show "card (source_names p - {}) < length (forwarding_edges p) + 2" by simp
  show "n \<in> Field (edge_rel p)" using n by (auto simp: source_names_def edge_rel_def Field_def)
qed simp_all

lemma forwarding_loop_law:
  assumes "fin_ok p fin" and "set sources \<subseteq> source_names p"
  shows "\<exists>r p'. forwarding_loop sources fin p = Ret (r, p') \<and> retuned p p' \<and> (case r of
     Inl err \<Rightarrow> forwarding_error p err
   | Inr _ \<Rightarrow> \<exists>fin'. progress p {} fin p' fin' \<and> set sources \<subseteq> dom fin')"
  using assms
proof (induction sources arbitrary: fin p)
  case (Cons n ns)
  from Cons.prems(2) have "n \<in> source_names p" by simp
  from forwarding_fuel [OF Cons.prems(1) this] show ?case
  proof (cases rule: budget_postE)
    case (failed err p1)
    then show ?thesis by simp
  next
    case (ended v fin1 p1)
    have "fin_ok p1 fin1" "set ns \<subseteq> source_names p1" using ended(2,3) Cons.prems(2) by (simp_all add: progress_def)
    from Cons.IH [OF this] obtain r p2 where p2: "forwarding_loop ns fin1 p1 = Ret (r, p2)" "retuned p1 p2"
      "case r of Inl err \<Rightarrow> forwarding_error p1 err | Inr _ \<Rightarrow> \<exists>fin'. progress p1 {} fin1 p2 fin' \<and> set ns \<subseteq> dom fin'" by blast
    have loop: "forwarding_loop (n # ns) fin p = Ret (r, p2)" using ended(1) p2(1) by simp
    show ?thesis
    proof (cases r)
      case (Inl err)
      with p2(3) retuned_trans [OF ended(3) p2(2)] show ?thesis unfolding loop by (simp add: forwarding_error_retuned [OF ended(3)])
    next
      case (Inr u)
      with p2(3) obtain fin2 where fin2: "progress p1 {} fin1 p2 fin2" "set ns \<subseteq> dom fin2" by auto
      then have "n \<in> dom fin2" using ended(4) by (auto simp: progress_def map_le_def dom_def)
      with fin2 Inr retuned_trans [OF ended(3) p2(2)] progress_trans [OF ended(2) fin2(1)] show ?thesis unfolding loop by auto
    qed
  qed
qed (auto intro: progress_refl)

text \<open>The slots of all arenas of a channel.\<close>

definition channel_slots :: "'b graph_plan \<Rightarrow> string \<Rightarrow> nat" where
  "channel_slots p n = (case map_of (gp_channels p) n of None \<Rightarrow> 0
     | Some c \<Rightarrow> (case total_publisher_capacity (ch_plan c) of Inl _ \<Rightarrow> 0 | Inr v \<Rightarrow> v))"

lemma settled_slots: "settled p fin n \<Longrightarrow> fin n = Some (channel_slots p n)"
  by (auto simp: settled_def channel_slots_def)

lemma settled_retention:
  assumes "fin_ok p fin" and "n \<in> dom fin"
  shows "\<exists>c. map_of (gp_channels p) n = Some c \<and> total_publisher_capacity (ch_plan c) = Inr (channel_slots p n)
    \<and> forwarding_retention (ch_plan c) = sum_list (map (channel_slots p) (outputs_of p n))"
proof -
  from assms have n: "settled p fin n" by (auto simp: fin_ok_def)
  then have outs: "set (outputs_of p n) \<subseteq> dom fin" by (auto simp: settled_def)
  have "map (\<lambda>m. the (fin m)) (outputs_of p n) = map (channel_slots p) (outputs_of p n)"
  proof (rule map_cong [OF refl])
    fix m assume "m \<in> set (outputs_of p n)"
    with outs assms(1) have "settled p fin m" by (auto simp: fin_ok_def)
    then show "the (fin m) = channel_slots p m" by (simp add: settled_slots)
  qed
  with n settled_slots [OF n] show ?thesis by (auto simp: settled_def)
qed

lemma prepare_forwarding_law:
  "\<exists>r p'. prepare_forwarding p = Ret (r, p') \<and> retuned p p' \<and> (case r of
     Inl err \<Rightarrow> forwarding_error p err
   | Inr _ \<Rightarrow> acyclic (edge_rel p)
       \<and> (\<forall>n \<in> Field (edge_rel p). \<exists>c. map_of (gp_channels p') n = Some c \<and> total_publisher_capacity (ch_plan c) = Inr (channel_slots p' n)
            \<and> forwarding_retention (ch_plan c) = sum_list (map (channel_slots p') (outputs_of p n)))
       \<and> (\<forall>n. n \<notin> Field (edge_rel p) \<longrightarrow> map_of (gp_channels p') n = map_of (gp_channels p) n))"
proof -
  have "fin_ok p Map.empty" "set (map edge_source (forwarding_edges p)) \<subseteq> source_names p" by (simp_all add: fin_ok_def source_names_def)
  from forwarding_loop_law [OF this] obtain r p' where r: "prepare_forwarding p = Ret (r, p')" "retuned p p'"
    "case r of Inl err \<Rightarrow> forwarding_error p err
     | Inr _ \<Rightarrow> \<exists>fin'. progress p {} Map.empty p' fin' \<and> set (map edge_source (forwarding_edges p)) \<subseteq> dom fin'"
    unfolding prepare_forwarding_def by blast
  show ?thesis
  proof (cases r)
    case (Inl err)
    with r show ?thesis by auto
  next
    case (Inr u)
    with r(3) obtain fin where pr: "progress p {} Map.empty p' fin" and src: "source_names p \<subseteq> dom fin" by (auto simp: source_names_def)
    from pr have ok: "fin_ok p' fin" and same: "\<And>n. n \<notin> dom fin \<Longrightarrow> map_of (gp_channels p') n = map_of (gp_channels p) n"
      by (auto simp: progress_def)
    have set: "n \<notin> dom fin \<or> settled p' fin n" for n using ok by (auto simp: fin_ok_def)
    have "dom fin = Field (edge_rel p)"
    proof
      show "dom fin \<subseteq> Field (edge_rel p)" using set r(2) by (auto simp: settled_def)
      have target: "m \<in> dom fin" if "(n, m) \<in> edge_rel p" for n m
      proof -
        from that src have "n \<in> dom fin" by (auto simp: edge_rel_def source_names_def)
        with set have "set (outputs_of p' n) \<subseteq> dom fin" by (auto simp: settled_def)
        with that r(2) show ?thesis by (auto simp: set_outputs_of)
      qed
      have "n \<in> dom fin" if "(n, m) \<in> edge_rel p" for n m using that src by (auto simp: edge_rel_def source_names_def)
      with target show "Field (edge_rel p) \<subseteq> dom fin" unfolding Field_def by blast
    qed
    moreover have "acyclic (edge_rel p)"
      unfolding acyclic_def
    proof (intro allI notI)
      fix n assume n: "(n, n) \<in> (edge_rel p)\<^sup>+"
      then have "n \<in> Field (edge_rel p)" by (metis FieldI1 tranclD)
      with calculation set r(2) n show False by (auto simp: settled_def)
    qed
    moreover have "\<exists>c. map_of (gp_channels p') n = Some c \<and> total_publisher_capacity (ch_plan c) = Inr (channel_slots p' n)
        \<and> forwarding_retention (ch_plan c) = sum_list (map (channel_slots p') (outputs_of p n))" if "n \<in> dom fin" for n
      using settled_retention [OF ok that] r(2) by simp
    ultimately show ?thesis using r(1,2) Inr same by simp
  qed
qed

text \<open>
  C13: preparing a plan computes the forwarding budgets. It always ends and changes nothing but retentions. It fails only
  with a channel that is on a cycle of forwarding edges, an unknown channel, or capacities out of range. Otherwise there is
  no cycle, every channel with forwarding edges retains, per publisher, as many slots as the arenas of the channels its
  messages are forwarded into have together, and no other channel changes.
\<close>

theorem forwarding_budgets_exact:
  "\<exists>r p'. prepare_forwarding p = Ret (r, p') \<and> retuned p p' \<and> (case r of
     Inl err \<Rightarrow> forwarding_error p err
   | Inr _ \<Rightarrow> acyclic (edge_rel p)
       \<and> (\<forall>n \<in> Field (edge_rel p). \<exists>c. map_of (gp_channels p') n = Some c \<and> total_publisher_capacity (ch_plan c) = Inr (channel_slots p' n)
            \<and> forwarding_retention (ch_plan c) = sum_list (map (channel_slots p') (outputs_of p n)))
       \<and> (\<forall>n. n \<notin> Field (edge_rel p) \<longrightarrow> map_of (gp_channels p') n = map_of (gp_channels p) n))"
  by (rule prepare_forwarding_law)

text \<open>A plan with a channel that is forwarded into another.\<close>

definition relay_channel :: "string \<Rightarrow> payload \<Rightarrow> nat \<Rightarrow> planned_channel" where
  "relay_channel n pl k = \<lparr>ch_capture = None, ch_replay = None, ch_origin = None, ch_payload = pl,
     ch_plan = \<lparr>forwarding_retention = 0, cp_name = n, cp_publishers = [\<lparr>spec_loan = k, spec_retained = 0\<rparr>],
       cp_subscribers = [\<lparr>spec_capacity = 1, spec_policy = capture_policy, spec_sources = None\<rparr>]\<rparr>,
     ch_publishers = 0, ch_subscribers = 0\<rparr>"

definition relay_plan :: "unit graph_plan" where
  "relay_plan = graph_plan_default\<lparr>
     gp_channels := [(''a'', relay_channel ''a'' (NativePayload \<lparr>native_id = 1, native_name = ''u64''\<rparr>) 1),
       (''b'', relay_channel ''b'' (BundlePayload \<lparr>bundle_ids = (1, 2), bundle_name = ''F'', bundle_sources = ''S'', source_fields = [(''x'', 1)]\<rparr>) 2)],
     forwarding_edges := [\<lparr>edge_callback = None, edge_output = ''out'', edge_field = ''x'', edge_input = ''in'', edge_source = ''a'', edge_target = ''b''\<rparr>]\<rparr>"

lemma relay_prepares: "\<exists>p'. prepare_forwarding relay_plan = Ret (Inr (), p')"
  by (simp add: prepare_forwarding_def relay_plan_def relay_channel_def graph_plan_default_def numeral_2_eq_2 on_channel_def Let_def
      set_forwarding_retention_def total_publisher_capacity_def publisher_plan_def plan_capacity_def checked_usize_def checked_u32_def
      usize_max_def u32_max_def storage_plan_new_def with_retained_capacity_def with_subscriber_def)
    (simp flip: numeral_2_eq_2)

theorem forwarding_budgets_exact_witness:
  "\<exists>p' c. prepare_forwarding relay_plan = Ret (Inr (), p') \<and> map_of (gp_channels p') ''a'' = Some c
     \<and> forwarding_retention (ch_plan c) = channel_slots p' ''b''"
proof -
  have "''a'' \<in> Field (edge_rel relay_plan)" "outputs_of relay_plan ''a'' = [''b'']"
    by (simp_all add: edge_rel_def relay_plan_def outputs_of_def Field_def)
  with relay_prepares forwarding_budgets_exact [of relay_plan] show ?thesis by force
qed

end
