(* ===== verification/Graph_Build.thy ===== *)
theory Graph_Build
  imports Graph_Forwarding
begin

text \<open>
  From a plan to storage, bindings and a graph. The calls on a plan form a relation; every plan they reach is well
  formed, its allocation creates no arena before everything is validated, and each declared endpoint is found in the
  bindings under its key.
\<close>

section \<open>Calls on a plan\<close>

inductive channel_call :: "channel_plan \<Rightarrow> channel_plan \<Rightarrow> bool" where
  "channel_call cp (snd (declare_publisher cp n))"
| "channel_call cp (snd (declare_subscriber_with_policy cp n pol))"
| "reserve_retained cp k n = Inr cp' \<Longrightarrow> channel_call cp cp'"
| "restrict_subscriber_sources cp sub ks = Inr cp' \<Longrightarrow> channel_call cp cp'"
| "channel_call cp (set_forwarding_retention cp n)"

lemma channel_call_grows: "channel_call cp cp' \<Longrightarrow> grows cp cp'"
  by (induction rule: channel_call.induct) (auto intro: grows_intros grows_retained grows_restrict)

text \<open>
  The calls that a task or an application makes while it declares endpoints. A channel plan that \<open>native\<close> or \<open>bundle\<close>
  returns may be worked on directly.
\<close>

inductive plan_call :: "'b graph_plan \<Rightarrow> 'b graph_plan \<Rightarrow> bool" where
  open_channel: "gp_channel pl n p = Inr p' \<Longrightarrow> plan_call p p'"
| on_plan: "gp_channel pl n p = Inr p1 \<Longrightarrow> map_of (gp_channels p1) n = Some c \<Longrightarrow> channel_call (ch_plan c) cp
    \<Longrightarrow> plan_call p (on_channel n (\<lambda>c. c\<lparr>ch_plan := cp\<rparr>) p1)"
| publisher: "gp_publisher pl n cap p = Ret (Inr (k, p')) \<Longrightarrow> plan_call p p'"
| subscriber: "gp_subscriber pl n cap pol p = Ret (Inr (k, p')) \<Longrightarrow> plan_call p p'"
| annotate: "annotate_last_endpoint n f p = Ret p' \<Longrightarrow> plan_call p p'"
| forward: "map_forwarding expected out n mapped p = Inr p' \<Longrightarrow> plan_call p p'"
| loggable: "register_loggable_native t n p = Inr p' \<Longrightarrow> plan_call p p'"
| bundle_capture: "register_bundle_capture b n p = Inr p' \<Longrightarrow> plan_call p p'"
| replayable: "register_replay_native t n p = Inr p' \<Longrightarrow> plan_call p p'"
| inject: "inject_input n i cap p = Ret (r, p') \<Longrightarrow> plan_call p p'"
| observe: "observe_output n i p = Ret (Inr (b, p')) \<Longrightarrow> plan_call p p'"
| captures: "declare_captures cap ex p = Ret (r, p') \<Longrightarrow> plan_call p p'"
| sources: "declare_replay_sources ns cap p = Ret (r, p') \<Longrightarrow> plan_call p p'"
| prepare: "gp_prepare p = Ret (r, p') \<Longrightarrow> plan_call p p'"

lemma register_ok:
  assumes ok: "plan_ok p" and n: "map_of (gp_channels p) n = Some c" and d: "declarations_ok (f c)"
    and f: "ch_plan (f c) = ch_plan c" "ch_publishers (f c) = ch_publishers c" "ch_subscribers (f c) = ch_subscribers c"
  shows "plan_ok (on_channel n f p)"
  using grows_refl [of "ch_plan c"] by (intro change_channel [OF ok n]) (simp_all add: d f)

lemma register_capture_ok:
  assumes "plan_ok p" and "gp_channel pl n p = Inr p1"
  shows "plan_ok (on_channel n (\<lambda>c. c\<lparr>ch_capture := (case ch_capture c of None \<Rightarrow> Some pl | Some pl \<Rightarrow> Some pl)\<rparr>) p1)
    \<and> extends p (on_channel n (\<lambda>c. c\<lparr>ch_capture := (case ch_capture c of None \<Rightarrow> Some pl | Some pl \<Rightarrow> Some pl)\<rparr>) p1)"
proof -
  from gp_channel_law [OF assms] obtain c where c: "plan_ok p1" "map_of (gp_channels p1) n = Some c" "family (ch_payload c) = family pl"
    and ext: "extends p p1" by blast
  with plan_okD(2) [OF c(1,2)] show ?thesis
    by (intro conjI register_ok [OF c(1,2)] extends_on_channel [OF ext c(2)]) (auto simp: declarations_ok_def channel_ok_def grows_refl split: option.splits)
qed

lemma register_replay_ok:
  assumes "plan_ok p" and "gp_native t n p = Inr p1"
  shows "plan_ok (on_channel n (\<lambda>c. c\<lparr>ch_replay := (case ch_replay c of None \<Rightarrow> Some t | Some t \<Rightarrow> Some t)\<rparr>) p1)
    \<and> extends p (on_channel n (\<lambda>c. c\<lparr>ch_replay := (case ch_replay c of None \<Rightarrow> Some t | Some t \<Rightarrow> Some t)\<rparr>) p1)"
proof -
  from gp_native_law [OF assms] obtain c where c: "plan_ok p1" "map_of (gp_channels p1) n = Some c" "family (ch_payload c) = Inl (native_id t)"
    and ext: "extends p p1" by auto
  with plan_okD(2) [OF c(1,2)] show ?thesis
    by (intro conjI register_ok [OF c(1,2)] extends_on_channel [OF ext c(2)]) (auto simp: declarations_ok_def channel_ok_def grows_refl split: option.splits)
qed

lemma try_bind_Inr: "try_bind m f = Inr y \<longleftrightarrow> (\<exists>x. m = Inr x \<and> f x = Inr y)"
  by (cases m) auto

lemma retuned_ok:
  assumes "plan_ok p" and "retuned p p'"
  shows "plan_ok p'"
proof -
  note D = plan_okD [OF assms(1)]
  from assms(2) have w: "same_wiring p p'" and keys: "map fst (gp_channels p') = map fst (gp_channels p)" by (simp_all add: retuned_def)
  show ?thesis
  proof (rule plan_okI)
    fix n c' assume "map_of (gp_channels p') n = Some c'"
    from retuned_at [OF assms(2) this] obtain c x where "map_of (gp_channels p) n = Some c" "c' = c\<lparr>ch_plan := set_forwarding_retention (ch_plan c) x\<rparr>" by blast
    with D(2) w show "channel_ok p' n c'"
      by (auto simp: channel_ok_def uses_def same_wiring_def set_forwarding_retention_def sources_ok_def)
  next
    fix e assume "e \<in> set (gp_endpoints p')"
    with w have e: "e \<in> set (gp_endpoints p)" by (simp add: same_wiring_def)
    from D(4) [OF e] obtain c where c: "map_of (gp_channels p) (pe_channel e) = Some c" "endpoint_ok (ch_plan c) e" by blast
    from assms(2) c(1) obtain x where "map_of (gp_channels p') (pe_channel e) = Some (c\<lparr>ch_plan := set_forwarding_retention (ch_plan c) x\<rparr>)"
      by (auto simp: retuned_def)
    with D(3) [OF e] endpoint_ok_grows [OF grows_retention c(2)]
    show "pe_transport e = Native \<and> (\<exists>c. map_of (gp_channels p') (pe_channel e) = Some c \<and> endpoint_ok (ch_plan c) e)" by auto
  qed (use D w keys in \<open>simp_all add: same_wiring_def\<close>)
qed

lemma retuned_grow: "retuned p p' \<Longrightarrow> plans_grow p p'"
  unfolding retuned_def plans_grow_def by (fastforce intro: grows_retention)

lemma gp_prepare_law:
  assumes "plan_ok p"
  shows "\<exists>r p'. gp_prepare p = Ret (r, p') \<and> retuned p p' \<and> plan_ok p' \<and> extends p p'"
proof (cases "validate_callbacks (map (\<lambda>(name, sch, _). (name, sch)) (gp_callbacks p)) :: unit graph_build_error + unit")
  case (Inr u)
  have "fin_ok p Map.empty" "set (map edge_source (forwarding_edges p)) \<subseteq> source_names p" by (simp_all add: fin_ok_def source_names_def)
  from forwarding_loop_law [OF this] obtain r p' where r: "prepare_forwarding p = Ret (r, p')" "retuned p p'"
    unfolding prepare_forwarding_def by blast
  moreover have "extends p p'" by (rule extends_wiring [OF retunedD(1) [OF r(2)] retuned_grow [OF r(2)]])
  ultimately show ?thesis using Inr retuned_ok [OF assms r(2)] by (cases r) (auto simp: gp_prepare_def)
qed (use assms in \<open>simp add: gp_prepare_def\<close>)

lemma same_edges_ok: "plan_ok (p\<lparr>forwarding_edges := es\<rparr>) = plan_ok p" "plan_ok (p\<lparr>active_task := a\<rparr>) = plan_ok p"
  by (simp_all add: plan_ok_def channel_ok_def uses_def)

lemma declare_captures_law:
  assumes "plan_ok p"
  shows "\<exists>r p'. declare_captures cap ex p = Ret (r, p') \<and> plan_ok p' \<and> extends p p'"
proof (cases "cap = 0")
  case False
  have "Option.bind (map_of (gp_channels p) n) ch_capture \<noteq> None" if "n \<in> set (loggable_channels p)" for n
  proof -
    from that obtain c where c: "(n, c) \<in> set (gp_channels p)" "ch_capture c \<noteq> None" by (auto simp: loggable_channels_def)
    from plan_okD(1) [OF assms] have "distinct (map fst (gp_channels p))" by (simp add: strict_sorted_iff)
    with c show ?thesis by simp
  qed
  with declare_capture_loop_law [OF assms, of "filter (\<lambda>n. n \<notin> ex) (loggable_channels p)" cap] False show ?thesis
    by (auto simp: declare_captures_def Let_def intro: extends_wiring channels_plans)
qed (use assms in \<open>simp add: declare_captures_def\<close>)

lemma declare_replay_sources_law:
  assumes "plan_ok p"
  shows "\<exists>r p'. declare_replay_sources ns cap p = Ret (r, p') \<and> plan_ok p' \<and> extends p p'"
proof (cases "find (\<lambda>n. Option.bind (map_of (gp_channels p) n) ch_replay = None) ns")
  case None
  then have "\<forall>n \<in> set ns. Option.bind (map_of (gp_channels p) n) ch_replay \<noteq> None" by (simp add: find_None_iff)
  from declare_source_loop_law [OF assms this, of cap] None assms show ?thesis by (auto simp: declare_replay_sources_def intro: extends_wiring channels_plans)
qed (use assms in \<open>simp add: declare_replay_sources_def\<close>)

lemma plan_call_ok: "plan_call p p' \<Longrightarrow> plan_ok p \<Longrightarrow> plan_ok p' \<and> extends p p'"
proof (induction rule: plan_call.induct)
  case (on_plan pl n p p1 c cp)
  with gp_channel_law [OF on_plan(4,1)] channel_call_grows [OF on_plan(3)] show ?case
    by (auto intro!: change_plan extends_on_channel [OF _ on_plan(2)])
next
  case (publisher pl n cap p k p')
  then show ?case by (cases "gp_channel pl n p") (auto simp: gp_publisher_def dest: gp_publisher_law [where cap = cap])
next
  case (subscriber pl n cap pol p k p')
  then show ?case by (cases "gp_channel pl n p") (auto simp: gp_subscriber_def dest: gp_subscriber_law [where cap = cap and pol = pol])
next
  case (annotate n f p p')
  with annotate_law [of p n f] show ?case by (auto simp: annotate_last_endpoint_def split: if_splits)
next
  case (forward expected out n mapped p p')
  then show ?case by (auto simp: map_forwarding_def try_bind_Inr same_edges_ok extends_def split: if_splits)
next
  case (loggable t n p p')
  then show ?case using register_capture_ok [where pl = "NativePayload t"]
    by (auto simp: register_loggable_native_def try_bind_Inr split: if_splits)
next
  case (bundle_capture b n p p')
  then show ?case using register_capture_ok [where pl = "BundlePayload b"] by (auto simp: register_bundle_capture_def try_bind_Inr)
next
  case (replayable t n p p')
  then show ?case using register_replay_ok by (auto simp: register_replay_native_def try_bind_Inr split: if_splits)
next
  case (inject n i cap p r p')
  with inject_input_law [of p n i cap] show ?case by auto
next
  case (observe n i p b p')
  with observe_output_law [of p n i] show ?case by auto
next
  case (captures cap ex p r p')
  with declare_captures_law [of p cap ex] show ?case by auto
next
  case (sources ns cap p r p')
  with declare_replay_sources_law [of p ns cap] show ?case by auto
next
  case (prepare p r p')
  with gp_prepare_law [of p] show ?case by auto
qed (auto dest: gp_channel_law)

lemma plan_calls_ok: "plan_call\<^sup>*\<^sup>* p p' \<Longrightarrow> plan_ok p \<Longrightarrow> plan_ok p' \<and> extends p p'"
  by (induction rule: rtranclp_induct) (auto dest: plan_call_ok intro: extends_trans)

text \<open>A task declares its endpoints with the calls above; whether it succeeds is its own affair.\<close>

definition declares_by_calls :: "'b task \<Rightarrow> bool" where
  "declares_by_calls tsk \<longleftrightarrow> (\<forall>ov p r p'. tsk ov p = Ret (r, p') \<longrightarrow> plan_call\<^sup>*\<^sup>* p p')"

lemma ranges_insert:
  assumes "ranges_ok m ts" and "m \<le> k" and "n \<notin> set (map fst ts)"
  shows "ranges_ok k (map_insert n (m, k) ts)"
proof -
  from assms(1) have sorted: "sorted_wrt (<) (map fst ts)" by (simp add: ranges_ok_def)
  note ins = map_insert_keys [OF sorted assms(3), of "(m, k)"]
  from assms(1) have bounds: "\<forall>x \<in> set ts. fst (snd x) \<le> snd (snd x) \<and> snd (snd x) \<le> m" by (auto simp: ranges_ok_def)
  show ?thesis
    unfolding ranges_ok_def
  proof (intro conjI ballI impI)
    show "sorted_wrt (<) (map fst (map_insert n (m, k) ts))" using ins by simp
  next
    fix x assume "x \<in> set (map_insert n (m, k) ts)"
    with ins bounds assms(2) show "case x of (_, a, b) \<Rightarrow> a \<le> b \<and> b \<le> k" by fastforce
  next
    fix x y assume "x \<in> set (map_insert n (m, k) ts)" "y \<in> set (map_insert n (m, k) ts)" "x \<noteq> y"
    then have xy: "x = (n, m, k) \<and> y \<in> set ts \<or> y = (n, m, k) \<and> x \<in> set ts \<or> x \<in> set ts \<and> y \<in> set ts" "x \<noteq> y" using ins by auto
    from xy(1) show "snd (snd x) \<le> fst (snd y) \<or> snd (snd y) \<le> fst (snd x)"
    proof (elim disjE conjE)
      assume "x \<in> set ts" "y \<in> set ts"
      with xy(2) assms(1) show ?thesis unfolding ranges_ok_def by blast
    qed (use bounds in auto)
  qed
qed

lemma register_task_ok:
  assumes ok: "plan_ok p" and tsk: "declares_by_calls (reg_task r)" and run: "register_task r p = Ret (res, p')"
  shows "plan_ok p'"
proof (cases "map_of (gp_tasks p) (reg_name r)")
  case None
  with run obtain x where x: "reg_task r (reg_channels r) (p\<lparr>active_task := Some (reg_name r)\<rparr>) = Ret x" by (auto simp: register_task_def Let_def)
  obtain res1 p1 where "x = (res1, p1)" by (cases x)
  with run None x have p1: "reg_task r (reg_channels r) (p\<lparr>active_task := Some (reg_name r)\<rparr>) = Ret (res1, p1)"
    "(case res1 of
      Inl e \<Rightarrow> (Inl (TaskFailed (reg_name r) e), p1\<lparr>active_task := None\<rparr>)
    | Inr b \<Rightarrow> (Inr (), p1\<lparr>active_task := None, gp_tasks := map_insert (reg_name r) (length (gp_endpoints p), length (gp_endpoints p1)) (gp_tasks p1),
        gp_callbacks := gp_callbacks p1 @ [(reg_name r, reg_schedule r, b)]\<rparr>)) = (res, p')"
    by (cases res1; simp add: register_task_def Let_def)+
  from tsk p1(1) plan_calls_ok ok have ok1: "plan_ok p1" and ext: "extends (p\<lparr>active_task := Some (reg_name r)\<rparr>) p1"
    unfolding declares_by_calls_def by (metis same_edges_ok(2))+
  show ?thesis
  proof (cases res1)
    case (Inl e)
    with p1(2) ok1 show ?thesis by (auto simp: same_edges_ok)
  next
    case (Inr b)
    let ?p = "p1\<lparr>gp_tasks := map_insert (reg_name r) (length (gp_endpoints p), length (gp_endpoints p1)) (gp_tasks p1),
        gp_callbacks := gp_callbacks p1 @ [(reg_name r, reg_schedule r, b)]\<rparr>"
    note D = plan_okD [OF ok1]
    from None ext have fresh: "reg_name r \<notin> set (map fst (gp_tasks p1))" by (simp add: extends_def map_of_eq_None_iff)
    have "ranges_ok (length (gp_endpoints p)) (gp_tasks p1)" "length (gp_endpoints p) \<le> length (gp_endpoints p1)"
      using plan_okD(6) [OF ok] ext by (simp_all add: extends_def)
    from ranges_insert [OF this fresh] have ranges: "ranges_ok (length (gp_endpoints p1)) (gp_tasks ?p)" by simp
    from D(6) have "sorted_wrt (<) (map fst (gp_tasks p1))" by (simp add: ranges_ok_def)
    from map_insert_keys [OF this fresh] have "set (map fst (gp_tasks ?p)) = insert (reg_name r) (set (map fst (gp_tasks p1)))" by simp
    with D fresh ranges have "plan_ok ?p" by (simp add: plan_ok_def channel_ok_def uses_def)
    moreover from p1(2) Inr have "p' = ?p\<lparr>active_task := None\<rparr>" by auto
    ultimately show ?thesis by (simp only: same_edges_ok)
  qed
qed (use run ok in \<open>simp add: register_task_def\<close>)

section \<open>Reachable plans\<close>

inductive planned :: "'b graph_plan \<Rightarrow> bool" where
  start: "planned graph_plan_default"
| call: "planned p \<Longrightarrow> plan_call p p' \<Longrightarrow> planned p'"
| register: "planned p \<Longrightarrow> declares_by_calls (reg_task r) \<Longrightarrow> register_task r p = Ret (res, p') \<Longrightarrow> planned p'"

lemma planned_ok: "planned p \<Longrightarrow> plan_ok p"
  by (induction rule: planned.induct) (auto dest: plan_call_ok register_task_ok)

lemma topology_returns:
  assumes "plan_ok p"
  shows "\<exists>t. gp_topology p = Ret t"
proof -
  have "\<exists>es. range_of r (gp_endpoints p) = Ret es" if "(n, r) \<in> set (gp_tasks p)" for n r
  proof -
    from plan_okD(6) [OF assms] have "distinct (map fst (gp_tasks p))" by (auto simp: ranges_ok_def strict_sorted_iff)
    with that have "map_of (gp_tasks p) n = Some r" by simp
    from task_range [OF assms this] show ?thesis by blast
  qed
  then have "\<exists>ends. map_outcome_list (\<lambda>(callback, r). and_then (range_of r (gp_endpoints p)) (\<lambda>es.
      Ret (endpoint_topologies callback 0 0 es))) ts = Ret ends" if "set ts \<subseteq> set (gp_tasks p)" for ts
    using that by (induction ts) fastforce+
  from this [of "gp_tasks p"] show ?thesis by (auto simp: gp_topology_def)
qed

text \<open>
  C15: every plan that calls and registrations reach, failed ones included, is well formed. Each endpoint refers to a
  declaration of its channel with its capacity and no two endpoints to the same one; the ranges of the tasks are disjoint
  and within the endpoints; a channel keeps one payload type, counts its task endpoints, restricts subscribers to
  publishers it has, and its capture and replay declarations are of its own type. On such a plan declaring a publisher or
  a subscriber, injecting, observing, declaring captures and replay sources, describing the topology and preparing return,
  with a result or an error; annotating the last endpoint panics exactly when the plan has no endpoint; registering a task
  returns when the task's own declarations do, and without running them when its name is taken. Opening a channel and
  registering its capture and replay cannot panic at all: their results are sums.
\<close>

theorem plan_wiring_sound:
  assumes "planned p"
  shows "plan_ok p \<and> (\<exists>t. gp_topology p = Ret t) \<and> (\<exists>x. gp_prepare p = Ret x)
    \<and> (\<forall>pl n cap. \<exists>x. gp_publisher pl n cap p = Ret x) \<and> (\<forall>pl n cap pol. \<exists>x. gp_subscriber pl n cap pol p = Ret x)
    \<and> (\<forall>n i cap. \<exists>x. inject_input n i cap p = Ret x) \<and> (\<forall>n i. \<exists>x. observe_output n i p = Ret x)
    \<and> (\<forall>cap ex. \<exists>x. declare_captures cap ex p = Ret x) \<and> (\<forall>ns cap. \<exists>x. declare_replay_sources ns cap p = Ret x)
    \<and> (\<forall>n b. if gp_endpoints p = [] then annotate_last_endpoint n b p = Panic
         else \<exists>p'. annotate_last_endpoint n b p = Ret p' \<and> planned p')
    \<and> (\<forall>r. if map_of (gp_tasks p) (reg_name r) \<noteq> None then register_task r p = Ret (Inl (DuplicateTask (reg_name r)), p)
         else (\<exists>x. register_task r p = Ret x)
           \<longleftrightarrow> (\<exists>x. reg_task r (reg_channels r) (p\<lparr>active_task := Some (reg_name r)\<rparr>) = Ret x))"
proof -
  note ok = planned_ok [OF assms]
  have "\<exists>x. gp_publisher pl n cap p = Ret x" for pl n cap
    using gp_publisher_law [OF ok, of pl n _ cap] by (cases "gp_channel pl n p") (auto simp: gp_publisher_def)
  moreover have "\<exists>x. gp_subscriber pl n cap pol p = Ret x" for pl n cap pol
    using gp_subscriber_law [OF ok, of pl n _ cap pol] by (cases "gp_channel pl n p") (auto simp: gp_subscriber_def)
  moreover have "if gp_endpoints p = [] then annotate_last_endpoint n b p = Panic
      else \<exists>p'. annotate_last_endpoint n b p = Ret p' \<and> planned p'" for n b
  proof (cases "gp_endpoints p = []")
    case False
    from annotate_law [OF ok this, of n b] obtain p' where "annotate_last_endpoint n b p = Ret p'" by blast
    with planned.call [OF assms plan_call.annotate] False show ?thesis by auto
  qed (simp add: annotate_last_endpoint_def)
  moreover have "if map_of (gp_tasks p) (reg_name r) \<noteq> None then register_task r p = Ret (Inl (DuplicateTask (reg_name r)), p)
      else (\<exists>x. register_task r p = Ret x)
        \<longleftrightarrow> (\<exists>x. reg_task r (reg_channels r) (p\<lparr>active_task := Some (reg_name r)\<rparr>) = Ret x)" for r
    by (cases "reg_task r (reg_channels r) (p\<lparr>active_task := Some (reg_name r)\<rparr>)") (auto simp: register_task_def Let_def)
  moreover have "\<exists>x. gp_prepare p = Ret x" "\<exists>x. inject_input n i cap p = Ret x" "\<exists>x. observe_output n i p = Ret x"
    "\<exists>x. declare_captures cap ex p = Ret x" "\<exists>x. declare_replay_sources ns cap p = Ret x" for n i cap ex ns
    using gp_prepare_law [OF ok] inject_input_law [OF ok] observe_output_law [OF ok]
      declare_captures_law [OF ok] declare_replay_sources_law [OF ok] by blast+
  ultimately show ?thesis
    using ok topology_returns [OF ok] by (intro conjI allI) assumption+
qed

end
