(* ===== verification/Graph_Storage.thy ===== *)
theory Graph_Storage
  imports Graph_Build
begin

text \<open>
  Allocation and binding of a plan: \<open>GraphPlan::allocate\<close>, \<open>GraphStorage::bind\<close>, \<open>build_with\<close>. Everything is validated
  before the first arena is created; afterwards each declared endpoint is present under its key, connected as planned, and
  the arenas have the slots that the budgets ask for.
\<close>

section \<open>One channel\<close>

lemma plan_validated:
  assumes "try_bind (publisher_plan cp spec) plan_capacity = Inr c"
  shows "\<exists>pl. publisher_plan cp spec = Inr pl \<and> plan_capacity pl = Inr c"
  using assms by (simp add: try_bind_Inr)

lemma outcome_list_returns:
  assumes "\<And>x. x \<in> set xs \<Longrightarrow> \<exists>y. f x = Ret y \<and> P x y"
  shows "\<exists>ys. map_outcome_list f xs = Ret ys \<and> list_all2 P xs ys"
  using assms
proof (induction xs)
  case (Cons x xs)
  from Cons.prems [of x] obtain y where "f x = Ret y" "P x y" by auto
  with Cons show ?case by auto
qed simp

context slot_queue
begin

lemma allocate_all_returns:
  "check_capacities cp specs = Inr () \<Longrightarrow> \<exists>sts :: ('q, 'v) publisher_storage list. allocate_all Q cp specs = Ret (Inr sts)"
proof (induction cp specs rule: check_capacities.induct)
  case (2 cp spec specs)
  then obtain c pl where pl: "publisher_plan cp spec = Inr pl" "plan_capacity pl = Inr c" "check_capacities cp specs = Inr ()"
    by (auto simp: try_bind_Inr)
  obtain a :: "('q, 'v message) arena" where "arena_new Q c = Ret a" using arena_new_inv [of c] by blast
  with pl 2(1) [OF pl(3)] show ?case by (auto simp: plan_allocate_def)
qed simp

end

definition stored_as :: "channel_plan \<Rightarrow> ('f, 'v) channel_storage \<Rightarrow> bool" where
  "stored_as cp cs \<longleftrightarrow> cs_name cs = cp_name cp \<and> cs_subscribers cs = cp_subscribers cp
     \<and> length (cp_publishers cp) \<le> u32_max \<and> (\<forall>s \<in> set (cp_subscribers cp). 0 < spec_capacity s)
     \<and> list_all2 (\<lambda>spec st. length (storage (ps_arena st)) = publisher_budget cp spec
          \<and> ps_loan st = spec_loan spec \<and> spec_loan spec \<le> u32_max) (cp_publishers cp) (cs_publishers cs)"

definition bound_as :: "('q, ptr) array_queue \<Rightarrow> (nat \<Rightarrow> nat) \<Rightarrow> channel_plan \<Rightarrow> publisher list \<Rightarrow> ('f, 'q, 'v) bus \<Rightarrow> bool" where
  "bound_as Q f cp pbs w \<longleftrightarrow> length pbs = length (cp_publishers cp) \<and> length (subs w) = length (cp_subscribers cp)
     \<and> dims (arenas w) = map (publisher_budget cp) (cp_publishers cp)
     \<and> (\<forall>i < length pbs. pub_arena (pbs ! i) = i \<and> loan_capacity (pbs ! i) = spec_loan (cp_publishers cp ! i)
          \<and> pending (pbs ! i) = [] \<and> set (targets (pbs ! i)) = {j. j < length (cp_subscribers cp) \<and> accepts_source (cp_subscribers cp ! j) i})
     \<and> (\<forall>j < length (subs w). single_buffer_capacity Q (sub_buffer (subs w ! j)) = spec_capacity (cp_subscribers cp ! j)
          \<and> read_capacity (sub_buffer (subs w ! j)) = f (spec_capacity (cp_subscribers cp ! j))
          \<and> sub_policy (subs w ! j) = spec_policy (cp_subscribers cp ! j))"

context message_bus
begin

lemma channel_allocate_returns:
  assumes "channel_validate cp = Inr ()"
  shows "\<exists>cs :: ('f, 'v) channel_storage. channel_allocate F cp = Ret (Inr cs) \<and> stored_as cp cs"
proof -
  from assms have v: "length (cp_publishers cp) \<le> u32_max" "\<forall>s \<in> set (cp_subscribers cp). 0 < spec_capacity s"
    "check_capacities cp (cp_publishers cp) = Inr ()"
    by (auto simp: channel_validate_def checked_u32_def split: if_splits)
  from fl.allocate_all_returns [OF v(3)] obtain sts :: "('f, 'v) publisher_storage list"
    where sts: "allocate_all F cp (cp_publishers cp) = Ret (Inr sts)" by blast
  from fl.allocate_all_law [OF sts] have "list_all2 (\<lambda>spec st. length (storage (ps_arena st)) = publisher_budget cp spec
      \<and> ps_loan st = spec_loan spec \<and> spec_loan spec \<le> u32_max) (cp_publishers cp) sts"
    by (rule list_all2_mono) simp
  with v(1,2) sts assms show ?thesis by (simp add: channel_allocate_def stored_as_def)
qed

lemma bind_subscriber_returns:
  "0 < spec_capacity s \<Longrightarrow> \<exists>x. bind_subscriber Q f n s = Ret x \<and> single_buffer_capacity Q (sub_buffer x) = spec_capacity s
     \<and> read_capacity (sub_buffer x) = f (spec_capacity s) \<and> sub_policy x = spec_policy s"
  using wq.new_pos [of "spec_capacity s"]
  by (auto simp: bind_subscriber_def subscriber_with_policy_def double_buffer_new_def mpsc_new_def single_buffer_capacity_def mpsc_capacity_def)

lemma bind_publisher_law:
  assumes "ps_loan st \<le> u32_max" and "i \<le> u32_max"
  shows "\<exists>pb. bind_publisher n specs i st = Ret pb \<and> pub_arena pb = i \<and> loan_capacity pb = ps_loan st \<and> pending pb = []
    \<and> set (targets pb) = {j. j < length specs \<and> accepts_source (specs ! j) i}"
  using assms by (auto simp: bind_publisher_def publisher_new_def checked_u32_def foldl_connect)

lemma channel_bind_returns:
  fixes cs :: "('f, 'v) channel_storage"
  assumes "stored_as cp cs"
  shows "\<exists>pbs w. channel_bind Q f cs = Ret (pbs, w) \<and> bound_as Q f cp pbs w"
proof -
  let ?n = "cs_name cs" and ?specs = "cp_subscribers cp"
  let ?S = "\<lambda>s x. single_buffer_capacity Q (sub_buffer x) = spec_capacity s \<and> read_capacity (sub_buffer x) = f (spec_capacity s)
      \<and> sub_policy x = spec_policy s"
  have subs: "\<exists>x. bind_subscriber Q f ?n s = Ret x \<and> ?S s x" if "s \<in> set ?specs" for s
    using assms that bind_subscriber_returns by (simp add: stored_as_def)
  from outcome_list_returns [of ?specs "bind_subscriber Q f ?n" ?S, OF subs] obtain ss where
    ss: "map_outcome_list (bind_subscriber Q f ?n) ?specs = Ret ss" "length ss = length ?specs" "\<forall>j < length ss. ?S (?specs ! j) (ss ! j)"
    by (auto simp: list_all2_conv_all_nth)
  let ?P = "\<lambda>(i, st) pb. pub_arena pb = i \<and> loan_capacity pb = ps_loan st \<and> pending pb = []
      \<and> set (targets pb) = {j. j < length ?specs \<and> accepts_source (?specs ! j) i}"
  have len: "length (cs_publishers cs) = length (cp_publishers cp)" using assms by (auto simp: stored_as_def dest: list_all2_lengthD)
  have pubs: "\<exists>pb. (case x of (i, st) \<Rightarrow> bind_publisher ?n ?specs i st) = Ret pb \<and> ?P x pb" if "x \<in> set (enumerate 0 (cs_publishers cs))" for x
  proof -
    from that obtain i where i: "i < length (cs_publishers cs)" "x = (i, cs_publishers cs ! i)" by (auto simp: in_set_enumerate_eq)
    with assms len have "ps_loan (cs_publishers cs ! i) \<le> u32_max" "i \<le> u32_max"
      by (auto simp: stored_as_def list_all2_conv_all_nth)
    from bind_publisher_law [OF this, of ?n ?specs] i show ?thesis by simp
  qed
  from outcome_list_returns [of "enumerate 0 (cs_publishers cs)" "\<lambda>(i, st). bind_publisher ?n ?specs i st" ?P, OF pubs] obtain pbs where
    pbs: "map_outcome_list (\<lambda>(i, st). bind_publisher ?n ?specs i st) (enumerate 0 (cs_publishers cs)) = Ret pbs"
      "list_all2 ?P (enumerate 0 (cs_publishers cs)) pbs" by blast
  from pbs(2) have "length pbs = length (cs_publishers cs)" by (auto dest: list_all2_lengthD)
  moreover have "?P (i, cs_publishers cs ! i) (pbs ! i)" if "i < length pbs" for i
    using list_all2_nthD2 [OF pbs(2) that] that calculation by (simp add: nth_enumerate_eq)
  moreover have "ps_loan (cs_publishers cs ! i) = spec_loan (cp_publishers cp ! i)" if "i < length (cp_publishers cp)" for i
    using assms that by (auto simp: stored_as_def list_all2_conv_all_nth)
  moreover have "dims (map ps_arena (cs_publishers cs)) = map (publisher_budget cp) (cp_publishers cp)"
    using assms by (auto simp: stored_as_def list_all2_conv_all_nth dims_def intro: nth_equalityI)
  ultimately have "bound_as Q f cp pbs \<lparr>arenas = map ps_arena (cs_publishers cs), subs = ss, trace = []\<rparr>"
    using len ss(2,3) by (simp add: bound_as_def)
  moreover have "cs_subscribers cs = ?specs" using assms by (simp add: stored_as_def)
  ultimately show ?thesis using ss(1) pbs(1) by (auto simp: channel_bind_def)
qed

end

section \<open>The graph\<close>

definition binding_of :: "('q, ptr) array_queue \<Rightarrow> (nat \<Rightarrow> nat) \<Rightarrow> string \<Rightarrow> planned_channel \<Rightarrow> ('f, 'q, 'v) channel_binding \<Rightarrow> bool" where
  "binding_of Q f n c b \<longleftrightarrow> bd_payload b = ch_payload c \<and> (\<exists>pbs. bd_publishers b = \<lparr>et_channel = cp_name (ch_plan c), et_slots = map Some pbs\<rparr>
     \<and> bd_subscribers b = \<lparr>et_channel = cp_name (ch_plan c), et_slots = map Some [0..<length (cp_subscribers (ch_plan c))]\<rparr>
     \<and> bound_as Q f (ch_plan c) pbs (bd_bus b))"

lemma list_all2_map_of:
  assumes "list_all2 (\<lambda>(n, c) (m, b). m = n \<and> R n c b) xs ys"
  shows "map fst ys = map fst xs" and "map_of xs n = Some c \<Longrightarrow> \<exists>b. map_of ys n = Some b \<and> R n c b"
  using assms by (induction xs ys rule: list_all2_induct) (auto split: if_splits)

context message_bus
begin

lemma channels_bound:
  assumes "validate_channels cs = Inr ()"
  shows "\<exists>sts w. allocate_channels F cs = Ret (Inr (sts :: (string \<times> payload \<times> ('f, 'v) channel_storage) list))
    \<and> map_outcome_list (bind_stored Q f) sts = Ret w
    \<and> list_all2 (\<lambda>(n, c) (m, b). m = n \<and> binding_of Q f n c b) cs w"
  using assms
proof (induction cs rule: validate_channels.induct)
  case (2 n c cs)
  then have v: "channel_validate (ch_plan c) = Inr ()" "validate_channels cs = Inr ()" by (auto split: sum.splits)
  from channel_allocate_returns [OF v(1)] obtain st :: "('f, 'v) channel_storage" where
    st: "channel_allocate F (ch_plan c) = Ret (Inr st)" "stored_as (ch_plan c) st" by blast
  from channel_bind_returns [OF st(2), of f] obtain pbs w where w: "channel_bind Q f st = Ret (pbs, w)" "bound_as Q f (ch_plan c) pbs w" by blast
  from 2(1) v obtain sts ws where IH: "allocate_channels F cs = Ret (Inr (sts :: (string \<times> payload \<times> ('f, 'v) channel_storage) list))"
    "map_outcome_list (bind_stored Q f) sts = Ret ws" "list_all2 (\<lambda>(n, c) (m, b). m = n \<and> binding_of Q f n c b) cs ws"
    by auto
  have "cs_name st = cp_name (ch_plan c)" "length (subs w) = length (cp_subscribers (ch_plan c))"
    using st(2) w(2) by (simp_all add: stored_as_def bound_as_def)
  with w have "\<exists>b. bind_stored Q f (n, ch_payload c, st) = Ret (n, b) \<and> binding_of Q f n c b"
    by (simp add: bind_stored_def binding_of_def)
  with st(1) IH show ?case
    by (intro exI [of _ "(n, ch_payload c, st) # sts"]) auto
qed simp

end

text \<open>The endpoints of a plan in the bindings.\<close>

definition endpoint_key :: "planned_endpoint \<Rightarrow> key" where
  "endpoint_key e = \<lparr>key_channel = pe_channel e, key_index = pe_index e\<rparr>"

definition endpoint_bound :: "('q, ptr) array_queue \<Rightarrow> (nat \<Rightarrow> nat) \<Rightarrow> ('f, 'q, 'v) graph_bindings \<Rightarrow> planned_endpoint \<Rightarrow> bool" where
  "endpoint_bound Q f w e \<longleftrightarrow> (\<exists>b. map_of w (pe_channel e) = Some b \<and> (if pe_output e
     then \<exists>pb t. take_endpoint (bd_publishers b) (endpoint_key e) = Inr (pb, t) \<and> loan_capacity pb = pe_capacity e
     else \<exists>t. take_endpoint (bd_subscribers b) (endpoint_key e) = Inr (pe_index e, t) \<and> pe_index e < length (subs (bd_bus b))
       \<and> single_buffer_capacity Q (sub_buffer (subs (bd_bus b) ! pe_index e)) = pe_capacity e
       \<and> read_capacity (sub_buffer (subs (bd_bus b) ! pe_index e)) = f (pe_capacity e)))"

lemma endpoint_bound_ok:
  assumes ok: "plan_ok p" and w: "list_all2 (\<lambda>(n, c) (m, b). m = n \<and> binding_of Q f n c b) (gp_channels p) w" and e: "e \<in> set (gp_endpoints p)"
  shows "endpoint_bound Q f w e"
proof -
  from plan_okD(4) [OF ok e] obtain c where c: "map_of (gp_channels p) (pe_channel e) = Some c" "endpoint_ok (ch_plan c) e" by blast
  from list_all2_map_of(2) [OF w c(1)] obtain b pbs where b: "map_of w (pe_channel e) = Some b"
    "bd_publishers b = \<lparr>et_channel = cp_name (ch_plan c), et_slots = map Some pbs\<rparr>"
    "bd_subscribers b = \<lparr>et_channel = cp_name (ch_plan c), et_slots = map Some [0..<length (cp_subscribers (ch_plan c))]\<rparr>"
    "bound_as Q f (ch_plan c) pbs (bd_bus b)" by (auto simp: binding_of_def)
  have "cp_name (ch_plan c) = pe_channel e" using plan_okD(2) [OF ok c(1)] by (simp add: channel_ok_def)
  with b c(2) show ?thesis
    by (auto simp: endpoint_bound_def take_endpoint_def endpoint_key_def endpoint_ok_def bound_as_def split: if_splits)
qed

lemma prepared_valid:
  assumes "gp_prepare p = Ret (Inr u, p1)"
  shows "validate_channels (gp_channels p1) = Inr ()"
proof (cases "validate_callbacks (map (\<lambda>(name, sch, _). (name, sch)) (gp_callbacks p)) :: unit graph_build_error + unit")
  case (Inr v)
  with assms obtain x where x: "prepare_forwarding p = Ret x" by (auto simp: gp_prepare_def)
  with assms Inr show ?thesis by (cases x; cases "fst x") (auto simp: gp_prepare_def)
qed (use assms in \<open>simp add: gp_prepare_def\<close>)

text \<open>A prepared plan is allocated and bound.\<close>

context message_bus
begin

lemma plan_binds:
  fixes p :: "'b graph_plan"
  assumes ok: "plan_ok p" and prep: "gp_prepare p = Ret (Inr u, p1)"
  shows "\<exists>(st :: ('f, 'v, 'b) graph_storage) w. gp_allocate F p = Ret (Inr st) \<and> gs_callbacks st = Some (gp_callbacks p)
    \<and> gs_names st = intern_all interner_new (map fst (gp_channels p)) \<and> gs_bind Q f st = Ret w
    \<and> list_all2 (\<lambda>(n, c) (m, b). m = n \<and> binding_of Q f n c b) (gp_channels p1) w \<and> retuned p p1 \<and> plan_ok p1"
proof -
  from gp_prepare_law [OF ok] prep have p1: "retuned p p1" "plan_ok p1" by auto
  from channels_bound [OF prepared_valid [OF prep], where f = f]
  obtain sts w where w: "allocate_channels F (gp_channels p1) = Ret (Inr (sts :: (string \<times> payload \<times> ('f, 'v) channel_storage) list))"
    "map_outcome_list (bind_stored Q f) sts = Ret w" "list_all2 (\<lambda>(n, c) (m, b). m = n \<and> binding_of Q f n c b) (gp_channels p1) w" by blast
  obtain t where t: "gp_topology p1 = Ret t" using topology_returns [OF p1(2)] by blast
  let ?st = "\<lparr>gs_callbacks = Some (gp_callbacks p1), gs_topology = t, gs_channels = sts,
      gs_names = intern_all interner_new (map fst (gp_channels p1))\<rparr> :: ('f, 'v, 'b) graph_storage"
  have "gp_allocate F p = Ret (Inr ?st)" using prep t w(1) by (simp add: gp_allocate_def)
  moreover have "gs_bind Q f ?st = Ret w" using w(2) by (simp add: gs_bind_def)
  moreover from retunedD [OF p1(1)] have "gp_callbacks p1 = gp_callbacks p" "map fst (gp_channels p1) = map fst (gp_channels p)"
    by (simp_all add: same_wiring_def)
  ultimately show ?thesis using p1 w(3) by (intro exI [of _ ?st] exI [of _ w]) simp
qed

end

lemma allocate_prepared:
  assumes "plan_ok p" and "gp_allocate F p = Ret (Inr st)"
  obtains p1 where "gp_prepare p = Ret (Inr (), p1)"
proof -
  from gp_prepare_law [OF assms(1)] obtain r p1 where "gp_prepare p = Ret (r, p1)" by blast
  with assms(2) that show ?thesis by (cases r) (auto simp: gp_allocate_def)
qed

text \<open>
  C16: allocating a reachable plan. A plan that \<open>prepare\<close> refuses is refused with the same error whatever the allocator
  does: nothing is created before every channel is validated. Otherwise allocation and binding succeed, the bindings have
  the channels of the plan, and every planned endpoint is there to be taken under its key, with its capacity: the loan
  capacity of a publisher, and for a subscriber the capacity of its queue, its read window having what a deque asked for
  that capacity reserves.
\<close>

theorem planned_graph_binds:
  fixes F :: "('f, nat) array_queue" and p :: "'b graph_plan"
  assumes "bounded_queue F fitems fvalid" and "bounded_queue Q qitems qvalid" and "planned p"
  shows "case gp_prepare p of Ret (Inl err, _) \<Rightarrow> gp_allocate G p = Ret (Inl err)
    | Ret (Inr _, p1) \<Rightarrow> (\<exists>(st :: ('f, 'v, 'b) graph_storage) w. gp_allocate F p = Ret (Inr st) \<and> gs_callbacks st = Some (gp_callbacks p)
        \<and> gs_bind Q f st = Ret w \<and> map fst w = map fst (gp_channels p) \<and> (\<forall>e \<in> set (gp_endpoints p). endpoint_bound Q f w e))
    | _ \<Rightarrow> False"
proof -
  have mb: "message_bus F fitems fvalid Q qitems qvalid"
    using assms(1,2) by (intro message_bus.intro slot_queue.intro)
  note ok = planned_ok [OF assms(3)]
  from gp_prepare_law [OF ok] obtain r p1 where p1: "gp_prepare p = Ret (r, p1)" by blast
  show ?thesis
  proof (cases r)
    case (Inl err)
    with p1 show ?thesis by (simp add: gp_allocate_def)
  next
    case (Inr u)
    from message_bus.plan_binds [OF mb ok p1 [unfolded Inr], where f = f]
    obtain st :: "('f, 'v, 'b) graph_storage" and w where st: "gp_allocate F p = Ret (Inr st)" "gs_callbacks st = Some (gp_callbacks p)" "gs_bind Q f st = Ret w"
      "list_all2 (\<lambda>(n, c) (m, b). m = n \<and> binding_of Q f n c b) (gp_channels p1) w" "retuned p p1" "plan_ok p1" by blast
    from retunedD [OF st(5)] have same: "gp_endpoints p1 = gp_endpoints p" "map fst (gp_channels p1) = map fst (gp_channels p)"
      by (simp_all add: same_wiring_def)
    have "\<forall>e \<in> set (gp_endpoints p). endpoint_bound Q f w e" using endpoint_bound_ok [OF st(6,4)] same(1) by simp
    moreover have "map fst w = map fst (gp_channels p)" using list_all2_map_of(1) [OF st(4)] same(2) by simp
    ultimately have "\<exists>(st :: ('f, 'v, 'b) graph_storage) w. gp_allocate F p = Ret (Inr st) \<and> gs_callbacks st = Some (gp_callbacks p)
        \<and> gs_bind Q f st = Ret w \<and> map fst w = map fst (gp_channels p) \<and> (\<forall>e \<in> set (gp_endpoints p). endpoint_bound Q f w e)" using st(1-3) by blast
    with p1 Inr show ?thesis by simp
  qed
qed

section \<open>Retained slots\<close>

lemma prepared_budgets:
  assumes "gp_prepare p = Ret (Inr (), p1)" and "n \<in> Field (edge_rel p)"
  shows "\<exists>c. map_of (gp_channels p1) n = Some c \<and> total_publisher_capacity (ch_plan c) = Inr (channel_slots p1 n)
    \<and> forwarding_retention (ch_plan c) = sum_list (map (channel_slots p1) (outputs_of p n))"
proof -
  obtain r p' where r: "prepare_forwarding p = Ret (r, p')" "case r of Inl err \<Rightarrow> forwarding_error p err
   | Inr _ \<Rightarrow> acyclic (edge_rel p)
       \<and> (\<forall>n \<in> Field (edge_rel p). \<exists>c. map_of (gp_channels p') n = Some c \<and> total_publisher_capacity (ch_plan c) = Inr (channel_slots p' n)
            \<and> forwarding_retention (ch_plan c) = sum_list (map (channel_slots p') (outputs_of p n)))
       \<and> (\<forall>n. n \<notin> Field (edge_rel p) \<longrightarrow> map_of (gp_channels p') n = map_of (gp_channels p) n)"
    using prepare_forwarding_law [of p] by blast
  have "r = Inr ()" "p' = p1"
    using assms(1) r(1) by (cases r; auto simp: gp_prepare_def split: sum.splits)+
  with r(2) assms(2) show ?thesis by simp
qed

lemma ok_or_Inr: "ok_or m e = Inr y \<longleftrightarrow> m = Some y"
  by (cases m) auto

lemma sum_capacities_Inr:
  "sum_capacities cp x specs = Inr v \<Longrightarrow> v = x + sum_list (map (publisher_budget cp) specs)"
proof (induction cp x specs rule: sum_capacities.induct)
  case (2 cp x spec specs)
  from 2(2) obtain c y where c: "try_bind (publisher_plan cp spec) plan_capacity = Inr c" "checked_usize (x + c) = Some y" "sum_capacities cp y specs = Inr v"
    unfolding sum_capacities.simps try_bind_Inr [of "try_bind (publisher_plan cp spec) plan_capacity"] by (auto simp: try_bind_Inr ok_or_Inr)
  from c(1) have "c = publisher_budget cp spec" by (simp add: plan_of_spec publisher_budget_def)
  moreover from c(2) have "y = x + c" by (simp add: checked_usize_def split: if_splits)
  ultimately show ?case using 2(1) [OF c(3)] by simp
qed simp

definition arena_slots :: "('f, 'q, 'v) graph_bindings \<Rightarrow> string \<Rightarrow> nat" where
  "arena_slots w n = (case map_of w n of None \<Rightarrow> 0 | Some b \<Rightarrow> sum_list (map (\<lambda>a. length (storage a)) (arenas (bd_bus b))))"

lemma arena_slots_bound:
  assumes "list_all2 (\<lambda>(n, c) (m, b). m = n \<and> binding_of Q f n c b) (gp_channels p) w"
    and "map_of (gp_channels p) n = Some c" and "total_publisher_capacity (ch_plan c) = Inr (channel_slots p n)"
  shows "arena_slots w n = channel_slots p n"
proof -
  from list_all2_map_of(2) [OF assms(1,2)] obtain b where b: "map_of w n = Some b" "binding_of Q f n c b" by blast
  then have "map (\<lambda>a. length (storage a)) (arenas (bd_bus b)) = map (publisher_budget (ch_plan c)) (cp_publishers (ch_plan c))"
    by (auto simp: binding_of_def bound_as_def dims_def)
  with b(1) sum_capacities_Inr [OF assms(3) [unfolded total_publisher_capacity_def]] show ?thesis by (simp add: arena_slots_def)
qed

text \<open>
  C14: forwarded messages never run a source channel out of slots by being kept. In the storage of a reachable plan, each
  arena of a channel that is forwarded has room for the loans of its publisher and for both buffers of every subscriber
  and, besides, one slot for every slot of the arenas of the channels its messages are forwarded into.
\<close>

theorem forwarding_storage_covers:
  fixes F :: "('f, nat) array_queue" and p :: "'b graph_plan" and st :: "('f, 'v, 'b) graph_storage"
  assumes "bounded_queue F fitems fvalid" and "bounded_queue Q qitems qvalid" and "planned p"
    and "gp_allocate F p = Ret (Inr st)" and "gs_bind Q f st = Ret w" and "n \<in> source_names p"
  shows "\<exists>c b. map_of (gp_channels p) n = Some c \<and> map_of w n = Some b \<and> length (arenas (bd_bus b)) = length (cp_publishers (ch_plan c))
    \<and> (\<forall>k < length (arenas (bd_bus b)). spec_loan (cp_publishers (ch_plan c) ! k)
        + sum_list (map (\<lambda>s. 2 * spec_capacity s + 1) (cp_subscribers (ch_plan c)))
        + sum_list (map (arena_slots w) (outputs_of p n)) \<le> length (storage (arenas (bd_bus b) ! k)))"
proof -
  have mb: "message_bus F fitems fvalid Q qitems qvalid"
    using assms(1,2) by (intro message_bus.intro slot_queue.intro)
  note ok = planned_ok [OF assms(3)]
  from allocate_prepared [OF ok assms(4)] obtain p1 where prep: "gp_prepare p = Ret (Inr (), p1)" .
  from message_bus.plan_binds [where 'v = 'v, OF mb ok prep, where f = f] assms(4,5)
  have w: "list_all2 (\<lambda>(n, c) (m, b). m = n \<and> binding_of Q f n c b) (gp_channels p1) w" "retuned p p1" by auto
  note budgets = prepared_budgets [OF prep]
  have n: "n \<in> Field (edge_rel p)" using assms(6) by (auto simp: source_names_def edge_rel_def Field_def)
  from budgets [OF n] obtain c1 where c1: "map_of (gp_channels p1) n = Some c1"
    "forwarding_retention (ch_plan c1) = sum_list (map (channel_slots p1) (outputs_of p n))" by blast
  have "map (arena_slots w) (outputs_of p n) = map (channel_slots p1) (outputs_of p n)"
  proof (rule map_cong [OF refl])
    fix m assume "m \<in> set (outputs_of p n)"
    then have "m \<in> Field (edge_rel p)" by (auto simp: set_outputs_of Field_def)
    from budgets [OF this] show "arena_slots w m = channel_slots p1 m" by (auto intro: arena_slots_bound [OF w(1)])
  qed
  then have ret: "sum_list (map (arena_slots w) (outputs_of p n)) = forwarding_retention (ch_plan c1)" by (simp only: c1(2))
  from list_all2_map_of(2) [OF w(1) c1(1)] obtain b where b: "map_of w n = Some b"
    "dims (arenas (bd_bus b)) = map (publisher_budget (ch_plan c1)) (cp_publishers (ch_plan c1))" by (auto simp: binding_of_def bound_as_def)
  have len: "length (arenas (bd_bus b)) = length (cp_publishers (ch_plan c1))" using arg_cong [OF b(2), of length] by (simp add: dims_def)
  have size: "length (storage (arenas (bd_bus b) ! k)) = publisher_budget (ch_plan c1) (cp_publishers (ch_plan c1) ! k)"
    if "k < length (arenas (bd_bus b))" for k
    using arg_cong [OF b(2), of "\<lambda>xs. xs ! k"] that len by (simp add: dims_def)
  obtain c x where c: "map_of (gp_channels p) n = Some c" "c1 = c\<lparr>ch_plan := set_forwarding_retention (ch_plan c) x\<rparr>"
    using retuned_at [OF w(2) c1(1)] by blast
  with len size ret b(1) show ?thesis
    by (intro exI [of _ c] exI [of _ b]) (auto simp: publisher_budget_def set_forwarding_retention_def)
qed

section \<open>Injected inputs\<close>

text \<open>What a successful injection leaves in the plan.\<close>

lemma declare_injection_sources:
  assumes "declare_injection t e cap p = Ret (Inr b, p1)" and "plan_ok p" and "Option.bind (map_of (gp_channels p) (pe_channel e)) ch_replay = Some t"
  shows "pb_channel b = pe_channel e \<and> (\<exists>c. map_of (gp_channels p1) (pe_channel e) = Some c
    \<and> key_index (pb_key b) < length (cp_publishers (ch_plan c)) \<and> pe_index e < length (cp_subscribers (ch_plan c))
    \<and> spec_sources (cp_subscribers (ch_plan c) ! pe_index e) = Some [key_index (pb_key b)])"
proof -
  from assms(3) obtain c where c: "map_of (gp_channels p) (pe_channel e) = Some c" "ch_replay c = Some t" by (auto split: bind_splits)
  note native = declared_family(2) [OF assms(2) c]
  let ?cp = "snd (declare_publisher (ch_plan c) cap)" and ?k = "fst (declare_publisher (ch_plan c) cap)"
  let ?sub = "\<lparr>key_channel = cp_name (ch_plan c), key_index = pe_index e\<rparr>"
  have index: "pe_index e < length (cp_subscribers (ch_plan c))"
    using assms(1) native c(1) by (auto simp: declare_injection_def channel_at_def subscriber_key_def split: if_splits)
  show ?thesis
  proof (cases "restrict_subscriber_sources ?cp ?sub [?k]")
    case (Inl err)
    with assms(1) native c(1) index show ?thesis by (simp add: declare_injection_def channel_at_def subscriber_key_def split_def Let_def)
  next
    case (Inr cp')
    with assms(1) native c(1) index have "b = \<lparr>pb_payload = NativePayload t, pb_channel = pe_channel e, pb_key = ?k\<rparr>"
      "p1 = on_channel (pe_channel e) (\<lambda>c. c\<lparr>ch_plan := cp'\<rparr>) p" by (simp_all add: declare_injection_def channel_at_def subscriber_key_def split_def Let_def)
    moreover from Inr index have "cp' = ?cp\<lparr>cp_subscribers := (cp_subscribers ?cp)[pe_index e := (cp_subscribers ?cp ! pe_index e)\<lparr>spec_sources := Some [key_index ?k]\<rparr>]\<rparr>"
      by (auto simp: restrict_subscriber_sources_def declare_publisher_def Let_def split: if_splits)
    ultimately show ?thesis using c(1) index by (simp add: declare_publisher_def)
  qed
qed

lemma inject_input_Inr:
  assumes "inject_input n i cap p = Ret (Inr b, p1)" and ok: "plan_ok p"
  shows "\<exists>e c. gp_endpoint p n i False = Ret (Inr e) \<and> pb_channel b = pe_channel e \<and> map_of (gp_channels p1) (pe_channel e) = Some c
    \<and> key_index (pb_key b) < length (cp_publishers (ch_plan c)) \<and> pe_index e < length (cp_subscribers (ch_plan c))
    \<and> spec_sources (cp_subscribers (ch_plan c) ! pe_index e) = Some [key_index (pb_key b)]"
proof (cases rule: gp_endpoint_cases [OF ok, of n i False])
  case (1 err)
  with assms(1) show ?thesis by (simp add: inject_input_def split: if_splits)
next
  case (2 e)
  show ?thesis
  proof (cases "Option.bind (map_of (gp_channels p) (pe_channel e)) ch_replay")
    case None
    with assms(1) 2(1) show ?thesis by (simp add: inject_input_def split: if_splits)
  next
    case (Some t)
    with assms(1) 2(1) have free: "\<not> pe_configured e" and "\<not> (cap = 0 \<or> checked_u32 cap = None)" by (auto simp: inject_input_def split: if_splits)
    from declare_injection_law [OF ok 2(2) _ Some, of cap] 2(3) obtain r q where d: "declare_injection t e cap p = Ret (r, q)"
      "plan_ok q" "same_wiring p q" by auto
    from claim_endpoint_law [OF ok 2(1) free _ _ d(2)] d(3) obtain q2 where q2: "claim_endpoint n i False q = Ret (Inr q2)" "gp_channels q2 = gp_channels q"
      by (auto simp: same_wiring_def)
    show ?thesis
    proof (cases r)
      case (Inl err)
      with assms(1) 2(1) Some free d(1) show ?thesis by (simp add: inject_input_def split: if_splits)
    next
      case (Inr b')
      with assms(1) 2(1) Some free d(1) q2(1) have "b' = b" "q2 = p1" by (simp_all add: inject_input_def split: if_splits)
      with declare_injection_sources [OF d(1) [unfolded Inr] ok Some] q2(2) 2(1) show ?thesis by auto
    qed
  qed
qed

text \<open>
  C17: an injected input is isolated. Once \<open>inject_input\<close> has attached a source to an input, whatever is declared after it,
  in the bound graph that source's publisher is the only one of the channel that is connected to the input's subscriber.
\<close>

theorem injected_input_isolated:
  fixes F :: "('f, nat) array_queue" and p :: "'b graph_plan" and st :: "('f, 'v, 'b) graph_storage"
  assumes "bounded_queue F fitems fvalid" and "bounded_queue Q qitems qvalid" and "planned p"
    and inj: "inject_input n i cap p = Ret (Inr b, p1)" and calls: "plan_call\<^sup>*\<^sup>* p1 p2"
    and alloc: "gp_allocate F p2 = Ret (Inr st)" and bnd: "gs_bind Q f st = Ret w"
  shows "\<exists>e cb. gp_endpoint p n i False = Ret (Inr e) \<and> map_of w (pe_channel e) = Some cb \<and> pb_channel b = pe_channel e
    \<and> key_index (pb_key b) < length (et_slots (bd_publishers cb)) \<and> pe_index e < length (subs (bd_bus cb))
    \<and> (\<forall>k < length (et_slots (bd_publishers cb)). \<exists>pb. et_slots (bd_publishers cb) ! k = Some pb
         \<and> (pe_index e \<in> set (targets pb) \<longleftrightarrow> k = key_index (pb_key b)))"
proof -
  have mb: "message_bus F fitems fvalid Q qitems qvalid"
    using assms(1,2) by (intro message_bus.intro slot_queue.intro)
  note ok = planned_ok [OF assms(3)]
  from inject_input_Inr [OF inj ok] obtain e c where e: "gp_endpoint p n i False = Ret (Inr e)" "pb_channel b = pe_channel e"
    "map_of (gp_channels p1) (pe_channel e) = Some c" "key_index (pb_key b) < length (cp_publishers (ch_plan c))"
    "pe_index e < length (cp_subscribers (ch_plan c))" "spec_sources (cp_subscribers (ch_plan c) ! pe_index e) = Some [key_index (pb_key b)]" by blast
  have ok1: "plan_ok p1" using inject_input_law [OF ok, of n i cap] inj by auto
  from plan_calls_ok [OF calls ok1] have ok2: "plan_ok p2" and grow: "plans_grow p1 p2" by (simp_all add: extends_def)
  from allocate_prepared [OF ok2 alloc] obtain p3 where prep: "gp_prepare p2 = Ret (Inr (), p3)" .
  from message_bus.plan_binds [where 'v = 'v, OF mb ok2 prep, where f = f] alloc bnd
  have w: "list_all2 (\<lambda>(n, c) (m, b). m = n \<and> binding_of Q f n c b) (gp_channels p3) w" "retuned p2 p3" by auto
  from plans_grow_trans [OF grow retuned_grow [OF w(2)]] e(3) obtain c3 where c3: "map_of (gp_channels p3) (pe_channel e) = Some c3"
    "grows (ch_plan c) (ch_plan c3)" by (auto simp: plans_grow_def)
  from list_all2_map_of(2) [OF w(1) c3(1)] obtain cb pbs where cb: "map_of w (pe_channel e) = Some cb"
    "et_slots (bd_publishers cb) = map Some pbs" "bound_as Q f (ch_plan c3) pbs (bd_bus cb)" by (auto simp: binding_of_def)
  have at: "pe_index e < length (cp_subscribers (ch_plan c3))" "key_index (pb_key b) < length (cp_publishers (ch_plan c3))"
    "spec_sources (cp_subscribers (ch_plan c3) ! pe_index e) = Some [key_index (pb_key b)]"
    using c3(2) e(4-6) by (auto simp: grows_def)
  have "pe_index e \<in> set (targets (pbs ! k)) \<longleftrightarrow> k = key_index (pb_key b)" if "k < length pbs" for k
    using cb(3) that at by (simp add: bound_as_def accepts_source_def)
  with cb at e(1,2) show ?thesis by (intro exI [of _ e] exI [of _ cb]) (auto simp: bound_as_def)
qed

section \<open>Building once\<close>

lemma bind_tasks_law:
  assumes "bind_tasks tasks w = (r, w')"
  shows "case r of Inr nodes \<Rightarrow> map cb_name nodes = map fst tasks \<and> map cb_schedule nodes = map (fst \<circ> snd) tasks
    | Inl err \<Rightarrow> \<exists>name e. name \<in> set (map fst tasks) \<and> err = TaskFailed name e"
  using assms
proof (induction tasks w arbitrary: r w' rule: bind_tasks.induct)
  case (2 name sch bnd tasks w)
  obtain res w1 where b: "bnd w = (res, w1)" by (cases "bnd w")
  show ?case
  proof (cases res)
    case (Inl e)
    with 2(2) b show ?thesis by auto
  next
    case (Inr c)
    obtain r2 w2 where r2: "bind_tasks tasks w1 = (r2, w2)" by (cases "bind_tasks tasks w1")
    have r: "r = map_sum id (Cons \<lparr>cb_name = name, cb_callback = c, cb_schedule = sch\<rparr>) r2" using 2(2) b Inr r2 by simp
    from 2(1) [OF b [symmetric] Inr r2] r show ?thesis by (cases r2) auto
  qed
qed auto

text \<open>
  a graph is built once, from all tasks. A build names and schedules the callbacks as they were registered, in that
  order and with different names, or fails with the name of a registered task; either way the tasks are used up, and every
  later build of the storage is refused.
\<close>

theorem graph_built_once:
  fixes p :: "('w, 'c) task_binding graph_plan"
  assumes "planned p" and "gp_allocate F p = Ret (Inr st)" and "build_with visit_names st w = (r, st1, w1)"
  shows "(case r of
      Inr g \<Rightarrow> map cb_name (graph_callbacks g) = map fst (gp_callbacks p) \<and> map cb_schedule (graph_callbacks g) = map (fst \<circ> snd) (gp_callbacks p)
        \<and> distinct (map cb_name (graph_callbacks g))
    | Inl err \<Rightarrow> \<exists>name e. name \<in> set (map fst (gp_tasks p)) \<and> err = TaskFailed name e)
    \<and> build_with visit_names' st1 w' = (Inl AlreadyBuilt, st1, w')"
proof -
  note ok = planned_ok [OF assms(1)]
  from gp_prepare_law [OF ok] obtain r1 p1 where p1: "gp_prepare p = Ret (r1, p1)" "retuned p p1" by blast
  have "map_sum id g xa = Inr y \<Longrightarrow> \<exists>z. y = g z" for g :: "'x \<Rightarrow> 'y" and xa :: "'e + 'x" and y by (cases xa) auto
  with p1 assms(2) have "gs_callbacks st = Some (gp_callbacks p1)" by (cases r1) (fastforce simp: gp_allocate_def)+
  then have st: "gs_callbacks st = Some (gp_callbacks p)" using retunedD(1) [OF p1(2)] by (simp add: same_wiring_def)
  obtain r2 w2 where b: "bind_tasks (gp_callbacks p) w = (r2, w2)" by (cases "bind_tasks (gp_callbacks p) w")
  with assms(3) st have res: "r = map_sum id (\<lambda>nodes. from_callbacks visit_names nodes (gs_names st)) r2" "gs_callbacks st1 = None"
    by (auto simp: build_with_def)
  note D = plan_okD(7,8) [OF ok]
  show ?thesis
  proof (cases r2)
    case (Inl err)
    with res bind_tasks_law [OF b, unfolded D(2)] show ?thesis by (simp add: build_with_def)
  next
    case (Inr nodes)
    with res bind_tasks_law [OF b] D(1) show ?thesis by (simp add: build_with_def from_callbacks_def graph_extend_def)
  qed
qed

section \<open>Sample plans\<close>

definition u64_type :: native_type where
  "u64_type = \<lparr>native_id = 1, native_name = ''u64''\<rparr>"

text \<open>A task with one input; its callback is the number of the subscriber.\<close>

definition reader_binding :: "(('f, 'q, 'v) graph_bindings, nat) task_binding" where
  "reader_binding w = (case take_planned_subscriber \<lparr>pb_payload = NativePayload u64_type, pb_channel = ''data'', pb_key = \<lparr>key_channel = ''data'', key_index = 0\<rparr>\<rparr> w of
     Inl e \<Rightarrow> (Inl e, w) | Inr (s, w1) \<Rightarrow> (Inr s, w1))"

definition reader_task :: "'b \<Rightarrow> 'b task" where
  "reader_task bnd ov p = and_then (gp_subscriber (NativePayload u64_type) ''data'' 2 policy_default p) (\<lambda>r. Ret (case r of
     Inl e \<Rightarrow> (Inl e, p) | Inr (_, p1) \<Rightarrow> (Inr bnd, p1)))"

lemma reader_declares: "declares_by_calls (reader_task bnd)"
  unfolding declares_by_calls_def
proof (intro allI impI)
  fix ov :: overrides and p p' :: "'a graph_plan" and r
  assume run: "reader_task bnd ov p = Ret (r, p')"
  then obtain x where x: "gp_subscriber (NativePayload u64_type) ''data'' 2 policy_default p = Ret x" by (auto simp: reader_task_def)
  show "plan_call\<^sup>*\<^sup>* p p'"
  proof (cases x)
    case (Inr y)
    with run x have "gp_subscriber (NativePayload u64_type) ''data'' 2 policy_default p = Ret (Inr (fst y, p'))" by (auto simp: reader_task_def split: prod.splits)
    then show ?thesis by (blast intro: plan_call.subscriber)
  qed (use run x in \<open>simp add: reader_task_def\<close>)
qed

definition reader_channel :: planned_channel where
  "reader_channel = \<lparr>ch_capture = None, ch_replay = None, ch_origin = Some ''reader'', ch_payload = NativePayload u64_type,
     ch_plan = \<lparr>forwarding_retention = 0, cp_name = ''data'', cp_publishers = [],
       cp_subscribers = [\<lparr>spec_capacity = 2, spec_policy = policy_default, spec_sources = None\<rparr>]\<rparr>,
     ch_publishers = 0, ch_subscribers = 1\<rparr>"

definition reader_plan :: "'b \<Rightarrow> 'b graph_plan" where
  "reader_plan bnd = \<lparr>forwarding_edges = [], active_task = None, gp_channels = [(''data'', reader_channel)],
     gp_endpoints = [planned_endpoint_new (NativePayload u64_type) ''data'' False 0 2],
     gp_tasks = [(''reader'', 0, 1)], gp_callbacks = [(''reader'', on_start, bnd)]\<rparr>"

lemma reader_registers: "register_task (registration_new ''reader'' (reader_task bnd) on_start) graph_plan_default = Ret (Inr (), reader_plan bnd)"
  by (simp add: register_task_def registration_new_def reader_task_def graph_plan_default_def gp_subscriber_def gp_native_def channel_new_def
      channel_plan_new_def channel_at_def declare_subscriber_with_policy_def on_channel_def reader_plan_def reader_channel_def Let_def)

lemma reader_planned: "planned (reader_plan bnd)"
  by (rule planned.register [OF planned.start _ reader_registers]) (simp add: registration_new_def reader_declares)

lemma reader_prepares: "gp_prepare (reader_plan bnd) = Ret (Inr (), reader_plan bnd)"
  by (simp add: gp_prepare_def reader_plan_def validate_callbacks_def on_start_def input_triggered_def prepare_forwarding_def
      channel_validate_def reader_channel_def checked_u32_def u32_max_def)

theorem plan_wiring_sound_witness:
  "plan_ok (reader_plan ()) \<and> (\<exists>x. inject_input ''reader'' 0 1 (reader_plan ()) = Ret x)"
  using plan_wiring_sound [OF reader_planned [of "()"]] by blast

theorem planned_graph_binds_witness:
  "\<exists>(st :: (nat list_queue, nat, unit) graph_storage) w. gp_allocate list_array_queue (reader_plan ()) = Ret (Inr st)
     \<and> gs_bind list_array_queue id st = Ret w \<and> endpoint_bound list_array_queue id w (planned_endpoint_new (NativePayload u64_type) ''data'' False 0 2)"
  using planned_graph_binds [OF lq.bounded_queue_axioms lq.bounded_queue_axioms reader_planned [of "()"], of _ id]
  by (simp add: reader_prepares) (auto simp: reader_plan_def)

theorem graph_built_once_witness:
  "\<exists>(st :: (nat list_queue, nat, ((nat list_queue, ptr list_queue, nat) graph_bindings, nat) task_binding) graph_storage) w r st1 w1.
     gp_allocate list_array_queue (reader_plan reader_binding) = Ret (Inr st) \<and> build_with (\<lambda>_. []) st w = (r, st1, w1)
     \<and> build_with (\<lambda>_. []) st1 w1 = (Inl AlreadyBuilt, st1, w1)"
proof -
  let ?p = "reader_plan reader_binding :: ((nat list_queue, ptr list_queue, nat) graph_bindings, nat) task_binding graph_plan"
  from lqb.plan_binds [OF planned_ok [OF reader_planned] reader_prepares, of reader_binding]
  obtain st :: "(nat list_queue, nat, ((nat list_queue, ptr list_queue, nat) graph_bindings, nat) task_binding) graph_storage" and w
    where st: "gp_allocate list_array_queue ?p = Ret (Inr st)" "gs_bind list_array_queue id st = Ret w" by blast
  obtain r st1 w1 where b: "build_with (\<lambda>_. []) st w = (r, st1, w1)" by (cases "build_with (\<lambda>_. []) st w")
  from graph_built_once [OF reader_planned st(1) b, of "\<lambda>_. []" w1] st b show ?thesis by blast
qed

text \<open>The reader's input fed by an injected source.\<close>

definition decodable_plan :: "unit graph_plan" where
  "decodable_plan = on_channel ''data'' (\<lambda>c. c\<lparr>ch_replay := Some u64_type\<rparr>) (reader_plan ())"

lemma decodable_planned: "planned decodable_plan"
proof -
  have "register_replay_native u64_type ''data'' (reader_plan ()) = Inr decodable_plan"
    by (simp add: register_replay_native_def decodable_plan_def reader_plan_def gp_native_def on_channel_def reader_channel_def)
  from planned.call [OF reader_planned plan_call.replayable [OF this]] show ?thesis .
qed

lemma injects:
  "\<exists>b p1. inject_input ''reader'' 0 1 decodable_plan = Ret (Inr b, p1) \<and> gp_prepare p1 = Ret (Inr (), p1)"
  by (simp add: inject_input_def decodable_plan_def reader_plan_def on_channel_def reader_channel_def gp_endpoint_def range_of_def
      planned_endpoint_new_def checked_u32_def u32_max_def declare_injection_def gp_native_def channel_at_def subscriber_key_def
      declare_publisher_def restrict_subscriber_sources_def claim_endpoint_def Let_def gp_prepare_def validate_callbacks_def on_start_def
      input_triggered_def prepare_forwarding_def channel_validate_def publisher_plan_def checked_usize_def usize_max_def plan_capacity_def
      with_subscriber_def with_retained_capacity_def storage_plan_new_def)

theorem injected_input_isolated_witness:
  "\<exists>b p1 (st :: (nat list_queue, nat, unit) graph_storage) w (e :: planned_endpoint) cb. inject_input ''reader'' 0 1 decodable_plan = Ret (Inr b, p1)
     \<and> gp_allocate list_array_queue p1 = Ret (Inr st) \<and> gs_bind list_array_queue id st = Ret w \<and> map_of w (pe_channel e) = Some cb
     \<and> (\<exists>pb. et_slots (bd_publishers cb) ! key_index (pb_key b) = Some pb \<and> pe_index e \<in> set (targets pb))"
proof -
  obtain b p1 where b: "inject_input ''reader'' 0 1 decodable_plan = Ret (Inr b, p1)" "gp_prepare p1 = Ret (Inr (), p1)" using injects by blast
  have "plan_ok p1" using inject_input_law [OF planned_ok [OF decodable_planned], of "''reader''" 0 1] b(1) by auto
  from lqb.plan_binds [OF this b(2), of id] obtain st :: "(nat list_queue, nat, unit) graph_storage" and w
    where st: "gp_allocate list_array_queue p1 = Ret (Inr st)" "gs_bind list_array_queue id st = Ret w" by blast
  from injected_input_isolated [OF lq.bounded_queue_axioms lq.bounded_queue_axioms decodable_planned b(1) rtranclp.rtrancl_refl st]
  obtain e :: planned_endpoint and cb where e: "map_of w (pe_channel e) = Some cb" "key_index (pb_key b) < length (et_slots (bd_publishers cb))"
    "\<forall>k < length (et_slots (bd_publishers cb)). \<exists>pb. et_slots (bd_publishers cb) ! k = Some pb
       \<and> (pe_index e \<in> set (targets pb) \<longleftrightarrow> k = key_index (pb_key b))" by blast
  from e(3) [rule_format, OF e(2)] have "\<exists>pb. et_slots (bd_publishers cb) ! key_index (pb_key b) = Some pb \<and> pe_index e \<in> set (targets pb)" by simp
  with b(1) st e(1) show ?thesis by blast
qed

text \<open>A channel forwarded into another, declared by calls.\<close>

definition pair_type :: bundle_type where
  "pair_type = \<lparr>bundle_ids = (1, 2), bundle_name = ''F'', bundle_sources = ''S'', source_fields = [(''x'', 1)]\<rparr>"

definition forward_plan :: "unit graph_plan" where
  "forward_plan = \<lparr>
     forwarding_edges = [\<lparr>edge_callback = None, edge_output = ''out'', edge_field = ''x'', edge_input = ''in'', edge_source = ''a'', edge_target = ''b''\<rparr>],
     active_task = None,
     gp_channels = [(''a'', (channel_new (graph_plan_default :: unit graph_plan) (NativePayload u64_type) ''a'')\<lparr>
         ch_plan := (channel_plan_new ''a'')\<lparr>cp_publishers := [\<lparr>spec_loan = 1, spec_retained = 0\<rparr>]\<rparr>, ch_publishers := 1\<rparr>),
       (''b'', (channel_new (graph_plan_default :: unit graph_plan) (BundlePayload pair_type) ''b'')\<lparr>
         ch_plan := (channel_plan_new ''b'')\<lparr>cp_publishers := [\<lparr>spec_loan = 2, spec_retained = 0\<rparr>]\<rparr>, ch_publishers := 1\<rparr>)],
     gp_endpoints = [planned_endpoint_new (NativePayload u64_type) ''a'' True 0 1, planned_endpoint_new (BundlePayload pair_type) ''b'' True 0 2],
     gp_tasks = [], gp_callbacks = []\<rparr>"

lemma forward_planned: "planned forward_plan"
proof -
  have "\<exists>k p1. gp_publisher (NativePayload u64_type) ''a'' 1 (graph_plan_default :: unit graph_plan) = Ret (Inr (k, p1))
      \<and> (\<exists>k2 p2. gp_publisher (BundlePayload pair_type) ''b'' 2 p1 = Ret (Inr (k2, p2))
        \<and> map_forwarding [(''x'', 1)] ''out'' ''b'' [(''x'', ''in'', ''a'', 1)] p2 = Inr forward_plan)"
    by (simp add: gp_publisher_def gp_native_def gp_bundle_def graph_plan_default_def channel_new_def channel_at_def declare_publisher_def
        channel_plan_new_def on_channel_def map_forwarding_def forward_plan_def Let_def)
  then show ?thesis
    by (elim exE conjE) (rule planned.call [OF planned.call [OF planned.call [OF planned.start plan_call.publisher] plan_call.publisher] plan_call.forward])
qed

lemma forward_prepares: "\<exists>p1. gp_prepare forward_plan = Ret (Inr (), p1)"
  by (simp add: gp_prepare_def forward_plan_def validate_callbacks_def prepare_forwarding_def channel_new_def graph_plan_default_def
      channel_plan_new_def numeral_2_eq_2 on_channel_def Let_def set_forwarding_retention_def total_publisher_capacity_def publisher_plan_def
      plan_capacity_def checked_usize_def checked_u32_def usize_max_def u32_max_def storage_plan_new_def with_retained_capacity_def
      with_subscriber_def channel_validate_def)
    (simp flip: numeral_2_eq_2)

theorem forwarding_storage_covers_witness:
  "\<exists>(st :: (nat list_queue, nat, unit) graph_storage) w b. gp_allocate list_array_queue forward_plan = Ret (Inr st)
     \<and> gs_bind list_array_queue id st = Ret w \<and> map_of w ''a'' = Some b \<and> length (arenas (bd_bus b)) = 1
     \<and> 1 + arena_slots w ''b'' \<le> length (storage (arenas (bd_bus b) ! 0))"
proof -
  obtain p1 where p1: "gp_prepare forward_plan = Ret (Inr (), p1)" using forward_prepares by blast
  from lqb.plan_binds [OF planned_ok [OF forward_planned] p1, of id] obtain st :: "(nat list_queue, nat, unit) graph_storage" and w
    where st: "gp_allocate list_array_queue forward_plan = Ret (Inr st)" "gs_bind list_array_queue id st = Ret w" by blast
  have a: "''a'' \<in> source_names forward_plan" "outputs_of forward_plan ''a'' = [''b'']"
    by (simp_all add: source_names_def outputs_of_def forward_plan_def)
  from forwarding_storage_covers [OF lq.bounded_queue_axioms lq.bounded_queue_axioms forward_planned st a(1)]
  obtain c b where c: "map_of (gp_channels forward_plan) ''a'' = Some c" "map_of w ''a'' = Some b"
    "length (arenas (bd_bus b)) = length (cp_publishers (ch_plan c))"
    "\<forall>k < length (arenas (bd_bus b)). spec_loan (cp_publishers (ch_plan c) ! k)
        + sum_list (map (\<lambda>s. 2 * spec_capacity s + 1) (cp_subscribers (ch_plan c)))
        + sum_list (map (arena_slots w) (outputs_of forward_plan ''a'')) \<le> length (storage (arenas (bd_bus b) ! k))" by blast
  from c(1) have plan: "cp_publishers (ch_plan c) = [\<lparr>spec_loan = 1, spec_retained = 0\<rparr>]" by (auto simp: forward_plan_def)
  with c st a(2) show ?thesis by (intro exI [of _ st] exI [of _ w] exI [of _ b]) auto
qed

end
