(* ===== verification/Log_Session.thy ===== *)
theory Log_Session
  imports Execution_Log
begin

text \<open>
  \<open>logging/src/session.rs\<close> with \<open>diagnostics.rs\<close>, \<open>incompleteness.rs\<close>, \<open>capture.rs\<close> and the captures of
  \<open>task_graph/src/capture.rs\<close>: a session drains its captures into a log file writer and keeps a record of everything
  that went wrong.

  The diagnostics of a session are its own; the registry of names, the writer and the messages are shared with other
  sessions and are the state \<open>log_state\<close>. The writer, the printers of serde and of derived \<open>Debug\<close>, and the counters
  of dropped execution records are the environment \<open>log_env\<close>. A mutex makes each call of the shared writer atomic.
\<close>

section \<open>Captures\<close>

datatype capture_failure_kind = OverflowFailure | SerializationFailure | WriteFailure | ReceiveFailure

record capture_failure =
  fail_kind :: capture_failure_kind
  fail_header :: "message_header option"
  fail_error :: string

text \<open>\<open>BoxedLogError\<close>, as far as the code looks into it.\<close>

datatype log_error = PlainError string | CaptureError capture_failure

fun error_text :: "log_error \<Rightarrow> string" where
  "error_text (PlainError e) = e"
| "error_text (CaptureError e) = fail_error e"

type_synonym 'f capture_visitor = "message_header \<Rightarrow> byte list \<Rightarrow> 'f \<Rightarrow> (string + unit) \<times> 'f"

record ('s, 'f) serialized_capture =
  cap_channel :: string
  cap_drain :: "'f capture_visitor \<Rightarrow> 's \<Rightarrow> 'f \<Rightarrow> ((log_error + unit) \<times> 's \<times> 'f) outcome"
  cap_losses :: "'s \<Rightarrow> nat \<times> nat \<times> nat"

definition native_losses :: "nat \<Rightarrow> ('a, 'q, 'v) bus \<Rightarrow> nat \<times> nat \<times> nat" where
  "native_losses sub w = (unat (writer_drops (sub_buffer (subs w ! sub))), read_drops (sub_buffer (subs w ! sub)), 0)"

text \<open>
  The loop over the drained messages. A message is released at the end of its round, and with the rest of them when the
  loop is left early.
\<close>

fun drain_messages ::
  "('a, nat) array_queue \<Rightarrow> ('v \<Rightarrow> string + byte list) \<Rightarrow> 'f capture_visitor \<Rightarrow> ptr list \<Rightarrow> ('a, 'q, 'v) bus \<Rightarrow> 'f
     \<Rightarrow> ((log_error + unit) \<times> ('a, 'q, 'v) bus \<times> 'f) outcome" where
  "drain_messages F ser vis [] w f = Ret (Inr (), w, f)"
| "drain_messages F ser vis (p # ps) w f = and_then (store_read (arenas w) p) (\<lambda>m.
     case ser (message_body m) of
       Inl e \<Rightarrow> and_then (release_dropped F w (p # ps)) (\<lambda>w1. Ret (Inl (CaptureError
         \<lparr>fail_kind = SerializationFailure, fail_header = Some (header m), fail_error = e\<rparr>), w1, f))
     | Inr bytes \<Rightarrow> (case vis (header m) bytes f of
         (Inl e, f1) \<Rightarrow> and_then (release_dropped F w (p # ps)) (\<lambda>w1. Ret (Inl (CaptureError
           \<lparr>fail_kind = WriteFailure, fail_header = Some (header m), fail_error = e\<rparr>), w1, f1))
       | (Inr _, f1) \<Rightarrow> and_then (release_dropped F w [p]) (\<lambda>w1. drain_messages F ser vis ps w1 f1)))"

definition native_drain ::
  "('a, nat) array_queue \<Rightarrow> ('q, ptr) array_queue \<Rightarrow> string \<Rightarrow> nat \<Rightarrow> ('v \<Rightarrow> string + byte list) \<Rightarrow> 'f capture_visitor
     \<Rightarrow> ('a, 'q, 'v) bus \<Rightarrow> 'f \<Rightarrow> ((log_error + unit) \<times> ('a, 'q, 'v) bus \<times> 'f) outcome" where
  "native_drain F Q channel sub ser vis w f = and_then (subscriber_update F Q w sub) (\<lambda>w1.
     let (ps, w2) = input_drain w1 sub; (wr, rd, _) = native_losses sub w2
     in if wr \<noteq> 0 \<or> rd \<noteq> 0
        then and_then (release_dropped F w2 ps) (\<lambda>w3. Ret (Inl (CaptureError \<lparr>fail_kind = OverflowFailure,
          fail_header = None, fail_error = ''capture '' @ in_quotes channel @ '' overflowed (writer '' @ dec_digits wr
            @ '', reader '' @ dec_digits rd @ '')''\<rparr>), w3, f))
        else drain_messages F ser vis ps w2 f)"

text \<open>\<open>NativeCapture\<close>\<close>

definition native_capture ::
  "('a, nat) array_queue \<Rightarrow> ('q, ptr) array_queue \<Rightarrow> string \<Rightarrow> nat \<Rightarrow> ('v \<Rightarrow> string + byte list)
     \<Rightarrow> (('a, 'q, 'v) bus, 'f) serialized_capture" where
  "native_capture F Q channel sub ser = \<lparr>cap_channel = channel, cap_drain = native_drain F Q channel sub ser,
     cap_losses = native_losses sub\<rparr>"

section \<open>Diagnostics\<close>

datatype diagnostic_policy = SilentPolicy | PrintPolicy | PanicPolicy

datatype diagnostic_kind =
  DiagCapture | DiagSerialization | DiagWrite | DiagOverflow | DiagReceive | DiagDescriptor | DiagArtifact | DiagFlush | DiagPanic

record log_diagnostic =
  diag_channel :: "intern_id option"
  diag_at :: "framework_time option"
  diag_header :: "message_header option"
  diag_kind :: diagnostic_kind
  diag_error :: string

record capture_loss =
  loss_channel :: string
  loss_writer :: nat
  loss_reader :: nat
  loss_receive :: nat

record recording_incompleteness =
  inc_captures :: "capture_loss list"
  inc_dropped :: nat
  inc_errors :: "string list"
  inc_diagnostics :: "log_diagnostic list"

section \<open>Sessions\<close>

record 'f log_writer = "'f artifact_writer" +
  store_message :: "'f \<Rightarrow> string \<Rightarrow> message_header \<Rightarrow> byte list \<Rightarrow> (string + unit) \<times> 'f"
  writer_flush :: "'f \<Rightarrow> (string + unit) \<times> 'f"
  marker_to_vec :: "recording_incompleteness \<Rightarrow> string + byte list"

record ('s, 'f) log_env =
  env_writer :: "'f log_writer"
  env_dropped :: "'s \<Rightarrow> nat \<times> nat" \<comment> \<open>execution records and event records\<close>
  env_shown :: "diagnostic_kind \<Rightarrow> string option \<Rightarrow> framework_time option \<Rightarrow> string \<Rightarrow> string" \<comment> \<open>the printer of \<open>format!\<close>\<close>
  env_panicking :: bool

record ('s, 'f) log_state =
  st_registry :: registry
  st_sink :: 'f
  st_world :: 's
  st_stderr :: "string list"

record ('s, 'f) log_session =
  ls_captures :: "('s, 'f) serialized_capture list"
  ls_metadata :: "execution_log_metadata option"
  ls_diagnostics :: "log_diagnostic list"
  ls_policy :: diagnostic_policy
  ls_finished :: bool

definition session_with_registry :: "('s, 'f) serialized_capture list \<Rightarrow> ('s, 'f) log_session" where
  "session_with_registry caps = \<lparr>ls_captures = caps, ls_metadata = None, ls_diagnostics = [], ls_policy = SilentPolicy,
     ls_finished = False\<rparr>"

definition session_new :: "('s, 'f) serialized_capture list \<Rightarrow> registry \<times> ('s, 'f) log_session" where
  "session_new caps = (registry_new (map cap_channel caps), session_with_registry caps)"

definition status_format :: "('s, 'f) log_env \<Rightarrow> intern_tables \<Rightarrow> log_diagnostic \<Rightarrow> string" where
  "status_format E tables d = env_shown E (diag_kind d) (Option.bind (diag_channel d) (try_lookup_by_id (channels_table tables)))
     (diag_at d) (diag_error d)"

definition status_errors :: "('s, 'f) log_env \<Rightarrow> ('s, 'f) log_session \<Rightarrow> ('s, 'f) log_state \<Rightarrow> string list" where
  "status_errors E l x = map (status_format E (reg_tables (st_registry x))) (ls_diagnostics l)"

definition push_diagnostic :: "log_diagnostic \<Rightarrow> ('s, 'f) log_session \<Rightarrow> ('s, 'f) log_session" where
  "push_diagnostic d l = l\<lparr>ls_diagnostics := ls_diagnostics l @ [d]\<rparr>"

definition report ::
  "diagnostic_kind \<Rightarrow> framework_time option \<Rightarrow> string option \<Rightarrow> string \<Rightarrow> registry \<Rightarrow> ('s, 'f) log_session
     \<Rightarrow> ('s, 'f) log_session outcome" where
  "report kind at channel error g l =
     and_then (case channel of None \<Rightarrow> Ret None | Some name \<Rightarrow> and_then (registry_channel g name) (\<lambda>i. Ret (Some i))) (\<lambda>i.
       Ret (push_diagnostic \<lparr>diag_channel = i, diag_at = at, diag_header = None, diag_kind = kind, diag_error = error\<rparr> l))"

definition start_tables :: "('s, 'f) log_env \<Rightarrow> ('s, 'f) log_state \<Rightarrow> ((string + unit) \<times> ('s, 'f) log_state) outcome" where
  "start_tables E x =
     and_then (registry_start (artifact_writer.truncate (env_writer E)) (st_registry x) (st_sink x)) (\<lambda>(r, g, f).
       Ret (r, x\<lparr>st_registry := g, st_sink := f\<rparr>))"

fun failure_kind :: "capture_failure_kind \<Rightarrow> diagnostic_kind" where
  "failure_kind OverflowFailure = DiagOverflow"
| "failure_kind SerializationFailure = DiagSerialization"
| "failure_kind WriteFailure = DiagWrite"
| "failure_kind ReceiveFailure = DiagReceive"

fun error_diagnostic :: "log_error \<Rightarrow> diagnostic_kind \<times> message_header option" where
  "error_diagnostic (CaptureError e) = (failure_kind (fail_kind e), fail_header e)"
| "error_diagnostic (PlainError _) = (DiagCapture, None)"

text \<open>\<open>first.get_or_insert\<close>\<close>

definition get_or_insert_error :: "log_error option \<Rightarrow> log_error \<Rightarrow> log_error option" where
  "get_or_insert_error first e = (case first of None \<Rightarrow> Some e | Some _ \<Rightarrow> first)"

fun drain_captures ::
  "('s, 'f) log_env \<Rightarrow> framework_time option \<Rightarrow> ('s, 'f) serialized_capture list \<Rightarrow> log_error option
     \<Rightarrow> ('s, 'f) log_session \<Rightarrow> ('s, 'f) log_state \<Rightarrow> (log_error option \<times> ('s, 'f) log_session \<times> ('s, 'f) log_state) outcome" where
  "drain_captures E at [] first l x = Ret (first, l, x)"
| "drain_captures E at (c # cs) first l x =
     and_then (cap_drain c (\<lambda>h body f. store_message (env_writer E) f (cap_channel c) h body) (st_world x) (st_sink x))
       (\<lambda>(r, s, f). let x1 = x\<lparr>st_world := s, st_sink := f\<rparr> in case r of
         Inr _ \<Rightarrow> drain_captures E at cs first l x1
       | Inl e \<Rightarrow> and_then (registry_channel (st_registry x1) (cap_channel c)) (\<lambda>i.
           drain_captures E at cs (get_or_insert_error first e) (push_diagnostic \<lparr>diag_channel = Some i, diag_at = at,
             diag_header = snd (error_diagnostic e), diag_kind = fst (error_diagnostic e), diag_error = error_text e\<rparr> l) x1))"

definition report_overflow ::
  "string \<Rightarrow> string \<Rightarrow> nat \<Rightarrow> framework_time option \<Rightarrow> log_error option \<Rightarrow> registry \<Rightarrow> ('s, 'f) log_session
     \<Rightarrow> (log_error option \<times> ('s, 'f) log_session) outcome" where
  "report_overflow what channel n at first g l =
     (if n = 0 then Ret (first, l)
      else let e = what @ '' overflow: '' @ dec_digits n @ '' records dropped''
        in and_then (report DiagOverflow at (Some channel) e g l) (\<lambda>l1. Ret (get_or_insert_error first (PlainError e), l1)))"

definition flush_inner ::
  "('s, 'f) log_env \<Rightarrow> framework_time option \<Rightarrow> ('s, 'f) log_session \<Rightarrow> ('s, 'f) log_state
     \<Rightarrow> ((log_error + unit) \<times> ('s, 'f) log_session \<times> ('s, 'f) log_state) outcome" where
  "flush_inner E at l x = and_then (start_tables E x) (\<lambda>(r, x1). case r of
     Inl e \<Rightarrow> and_then (report DiagArtifact at None e (st_registry x1) l) (\<lambda>l1. Ret (Inl (PlainError e), l1, x1))
   | Inr _ \<Rightarrow> and_then (drain_captures E at (ls_captures l) None l x1) (\<lambda>(first, l1, x2).
       and_then (case ls_metadata l of None \<Rightarrow> Ret (first, l1) | Some _ \<Rightarrow>
         and_then (report_overflow ''execution log'' EXECUTION_LOG_CHANNEL (fst (env_dropped E (st_world x2))) at first (st_registry x2) l1)
           (\<lambda>(first1, l2). report_overflow ''iox2 event record'' IOX2_EVENT_RECORD_CHANNEL (snd (env_dropped E (st_world x2))) at first1
             (st_registry x2) l2)) (\<lambda>(first2, l3).
       Ret (case first2 of None \<Rightarrow> Inr () | Some e \<Rightarrow> Inl e, l3, x2))))"

definition capture_loss_of :: "('s, 'f) serialized_capture \<Rightarrow> 's \<Rightarrow> capture_loss" where
  "capture_loss_of c s = (case cap_losses c s of (wr, rd, rc) \<Rightarrow>
     \<lparr>loss_channel = cap_channel c, loss_writer = wr, loss_reader = rd, loss_receive = rc\<rparr>)"

definition incompleteness_of ::
  "('s, 'f) log_env \<Rightarrow> ('s, 'f) log_session \<Rightarrow> ('s, 'f) log_state \<Rightarrow> string list \<Rightarrow> recording_incompleteness" where
  "incompleteness_of E l x errors = \<lparr>inc_captures = map (\<lambda>c. capture_loss_of c (st_world x)) (ls_captures l),
     inc_dropped = (case ls_metadata l of None \<Rightarrow> 0 | Some _ \<Rightarrow> fst (env_dropped E (st_world x)) + snd (env_dropped E (st_world x))),
     inc_errors = errors, inc_diagnostics = ls_diagnostics l\<rparr>"

definition persist_incompleteness ::
  "('s, 'f) log_env \<Rightarrow> ('s, 'f) log_session \<Rightarrow> ('s, 'f) log_state \<Rightarrow> ((string + unit) \<times> ('s, 'f) log_state) outcome" where
  "persist_incompleteness E l x =
     (let errors = status_errors E l x in
      if errors = [] then Ret (Inr (), x)
      else and_then (start_tables E x) (\<lambda>(r, x1). Ret (case r of
        Inl e \<Rightarrow> (Inl e, x1)
      | Inr _ \<Rightarrow> (case marker_to_vec (env_writer E) (incompleteness_of E l x1 errors) of
          Inl e \<Rightarrow> (Inl e, x1)
        | Inr bytes \<Rightarrow> (case write_artifact (env_writer E) (st_sink x1) RECORDING_INCOMPLETENESS_ARTIFACT bytes of
            (r, f) \<Rightarrow> (r, x1\<lparr>st_sink := f\<rparr>))))))"

definition apply_policy ::
  "('s, 'f) log_env \<Rightarrow> nat \<Rightarrow> bool \<Rightarrow> ('s, 'f) log_session \<Rightarrow> ('s, 'f) log_state \<Rightarrow> ('s, 'f) log_state outcome" where
  "apply_policy E start allow_panic l x =
     (let new = drop start (ls_diagnostics l) in
      case ls_policy l of
        PrintPolicy \<Rightarrow> Ret (x\<lparr>st_stderr := st_stderr x @ map (status_format E (reg_tables (st_registry x))) new\<rparr>)
      | PanicPolicy \<Rightarrow> if allow_panic \<and> \<not> env_panicking E \<and> new \<noteq> [] then Panic else Ret x
      | SilentPolicy \<Rightarrow> Ret x)"

text \<open>An error is reported when there is one.\<close>

definition report_error ::
  "diagnostic_kind \<Rightarrow> framework_time option \<Rightarrow> string + unit \<Rightarrow> registry \<Rightarrow> ('s, 'f) log_session \<Rightarrow> ('s, 'f) log_session outcome" where
  "report_error kind at r g l = (case r of Inr _ \<Rightarrow> Ret l | Inl e \<Rightarrow> report kind at None e g l)"

definition flush_sink :: "('s, 'f) log_env \<Rightarrow> ('s, 'f) log_state \<Rightarrow> (string + unit) \<times> ('s, 'f) log_state" where
  "flush_sink E x = (case writer_flush (env_writer E) (st_sink x) of (r, f) \<Rightarrow> (r, x\<lparr>st_sink := f\<rparr>))"

text \<open>What follows a refused flush of the writer.\<close>

definition retry_flush ::
  "('s, 'f) log_env \<Rightarrow> framework_time option \<Rightarrow> string \<Rightarrow> ('s, 'f) log_session \<Rightarrow> ('s, 'f) log_state
     \<Rightarrow> (('s, 'f) log_session \<times> ('s, 'f) log_state) outcome" where
  "retry_flush E at e l x = and_then (report DiagFlush at None e (st_registry x) l) (\<lambda>l1.
     and_then (persist_incompleteness E l1 x) (\<lambda>(r, x1).
     and_then (report_error DiagArtifact at r (st_registry x1) l1) (\<lambda>l2. case flush_sink E x1 of (r2, x2) \<Rightarrow>
       and_then (report_error DiagFlush at r2 (st_registry x2) l2) (\<lambda>l3. Ret (l3, x2)))))"

text \<open>\<open>Result::and\<close>\<close>

fun result_and :: "log_error + unit \<Rightarrow> string + unit \<Rightarrow> log_error + unit" where
  "result_and (Inl e) r = Inl e"
| "result_and (Inr _) (Inl e) = Inl (PlainError e)"
| "result_and (Inr _) (Inr _) = Inr ()"

definition flush_impl ::
  "('s, 'f) log_env \<Rightarrow> framework_time option \<Rightarrow> bool \<Rightarrow> ('s, 'f) log_session \<Rightarrow> ('s, 'f) log_state
     \<Rightarrow> ((log_error + unit) \<times> ('s, 'f) log_session \<times> ('s, 'f) log_state) outcome" where
  "flush_impl E at allow_panic l x =
     and_then (flush_inner E at l x) (\<lambda>(r, l1, x1).
     and_then (persist_incompleteness E l1 x1) (\<lambda>(marker, x2).
     and_then (report_error DiagArtifact at marker (st_registry x2) l1) (\<lambda>l2. case flush_sink E x2 of (flushed, x3) \<Rightarrow>
     and_then (case flushed of Inr _ \<Rightarrow> Ret (l2, x3) | Inl e \<Rightarrow> retry_flush E at e l2 x3) (\<lambda>(l4, x4).
     and_then (apply_policy E (length (ls_diagnostics l)) allow_panic l4 x4) (\<lambda>x5.
       Ret (result_and (result_and r marker) flushed, l4, x5))))))"

text \<open>\<open>flush\<close> has no time, \<open>flush_at\<close> that of the executor.\<close>

definition session_flush ::
  "('s, 'f) log_env \<Rightarrow> ('s, 'f) log_session \<Rightarrow> ('s, 'f) log_state
     \<Rightarrow> ((log_error + unit) \<times> ('s, 'f) log_session \<times> ('s, 'f) log_state) outcome" where
  "session_flush E = flush_impl E None True"

definition session_flush_at ::
  "('s, 'f) log_env \<Rightarrow> framework_time \<Rightarrow> ('s, 'f) log_session \<Rightarrow> ('s, 'f) log_state
     \<Rightarrow> ((log_error + unit) \<times> ('s, 'f) log_session \<times> ('s, 'f) log_state) outcome" where
  "session_flush_at E at = flush_impl E (Some at) True"

definition session_start ::
  "('s, 'f) log_env \<Rightarrow> ('s, 'f) log_session \<Rightarrow> ('s, 'f) log_state
     \<Rightarrow> ((string + unit) \<times> ('s, 'f) log_session \<times> ('s, 'f) log_state) outcome" where
  "session_start E l x = and_then (start_tables E x) (\<lambda>(r, x1). case r of
     Inr _ \<Rightarrow> Ret (Inr (), l, x1)
   | Inl e \<Rightarrow> and_then (report DiagArtifact None None (''logging startup artifacts: '' @ e) (st_registry x1) l) (\<lambda>l1.
       and_then (flush_impl E None False l1 x1) (\<lambda>(_, l2, x2).
       and_then (apply_policy E (length (ls_diagnostics l)) True l2 x2) (\<lambda>x3. Ret (Inl e, l2, x3)))))"

definition session_finish ::
  "('s, 'f) log_env \<Rightarrow> ('s, 'f) log_session \<Rightarrow> ('s, 'f) log_state
     \<Rightarrow> ((log_error + unit) \<times> ('s, 'f) log_session \<times> ('s, 'f) log_state) outcome" where
  "session_finish E l x = and_then (session_flush E (l\<lparr>ls_finished := True\<rparr>) x) (\<lambda>(r, l1, x1). Ret (case r of
     Inl e \<Rightarrow> (Inl e, l1, x1)
   | Inr _ \<Rightarrow> (case status_errors E l1 x1 of
       [] \<Rightarrow> (Inr (), l1, x1)
     | e # _ \<Rightarrow> (Inl (PlainError (''log session is incomplete: '' @ e)), l1, x1))))"

section \<open>Attaching an execution log\<close>

definition attach_execution_log_for ::
  "execution_log_metadata \<Rightarrow> string list \<Rightarrow> ('s, 'f) log_session \<Rightarrow> registry
     \<Rightarrow> ((string + unit) \<times> ('s, 'f) log_session \<times> registry) outcome" where
  "attach_execution_log_for md channels l g =
     (let kept = filter (\<lambda>c. c \<noteq> EXECUTION_LOG_CHANNEL \<and> c \<noteq> IOX2_EVENT_RECORD_CHANNEL) channels;
          d = (log_descriptor md)\<lparr>logged_channels := remdups_adj (sort kept)\<rparr>
      in and_then (registry_configure g (log_tables md)) (\<lambda>(r, g1). Ret (case r of
        Inl e \<Rightarrow> (Inl e, l, g1)
      | Inr _ \<Rightarrow> (case registry_recording g1 d of
          (Inl e, g2) \<Rightarrow> (Inl e, l, g2)
        | (Inr _, g2) \<Rightarrow> (Inr (), l\<lparr>ls_metadata := Some md\<rparr>, g2)))))"

definition attach_execution_log ::
  "execution_log_metadata \<Rightarrow> ('s, 'f) log_session \<Rightarrow> registry \<Rightarrow> ((string + unit) \<times> ('s, 'f) log_session \<times> registry) outcome" where
  "attach_execution_log md l g = attach_execution_log_for md (map cap_channel (ls_captures l)) l g"

definition session_with_execution_log ::
  "('s, 'f) log_env \<Rightarrow> execution_log_metadata \<Rightarrow> ('s, 'f) log_session \<Rightarrow> ('s, 'f) log_state
     \<Rightarrow> ((string + unit) \<times> ('s, 'f) log_session \<times> ('s, 'f) log_state) outcome" where
  "session_with_execution_log E md l x = and_then (attach_execution_log md l (st_registry x)) (\<lambda>(r, l1, g).
     let x1 = x\<lparr>st_registry := g\<rparr> in case r of
       Inl e \<Rightarrow> Ret (Inl e, l1, x1)
     | Inr _ \<Rightarrow> session_start E l1 x1)"

section \<open>Every failure is recorded\<close>

definition adds :: "('s, 'f) log_session \<Rightarrow> log_diagnostic list \<Rightarrow> ('s, 'f) log_session" where
  "adds l ds = l\<lparr>ls_diagnostics := ls_diagnostics l @ ds\<rparr>"

lemma adds_simps [simp]:
  "ls_diagnostics (adds l ds) = ls_diagnostics l @ ds" "ls_captures (adds l ds) = ls_captures l"
  "ls_metadata (adds l ds) = ls_metadata l" "ls_policy (adds l ds) = ls_policy l" "ls_finished (adds l ds) = ls_finished l"
  "adds (adds l ds) es = adds l (ds @ es)" "adds l [] = l"
  by (simp_all add: adds_def)

lemma push_adds: "push_diagnostic d l = adds l [d]"
  by (simp add: push_diagnostic_def adds_def)

lemma report_Ret: "report kind at channel e g l = Ret l' \<Longrightarrow> \<exists>d. l' = adds l [d] \<and> diag_kind d = kind"
  by (auto simp: report_def push_adds)

lemma report_error_Ret:
  "report_error kind at r g l = Ret l' \<Longrightarrow> \<exists>ds. l' = adds l ds \<and> (ds = [] \<longleftrightarrow> r = Inr ()) \<and> (\<forall>d \<in> set ds. diag_kind d = kind)"
  by (cases r) (fastforce simp: report_error_def dest: report_Ret intro: exI [of _ "[]"])+

text \<open>The error that a loop returns and the diagnostics it adds come together.\<close>

lemma drain_captures_Ret:
  "drain_captures E at cs first l x = Ret (first', l', x') \<Longrightarrow>
     \<exists>ds. l' = adds l ds \<and> (first' = None \<longleftrightarrow> first = None \<and> ds = []) \<and> st_registry x' = st_registry x \<and> st_stderr x' = st_stderr x"
proof (induction cs arbitrary: first l x)
  case Nil
  then show ?case by (auto intro: exI [of _ "[]"])
next
  case (Cons c cs)
  obtain r s f where r: "cap_drain c (\<lambda>h body f. store_message (env_writer E) f (cap_channel c) h body) (st_world x) (st_sink x) = Ret (r, s, f)"
    using Cons.prems by auto
  show ?case
  proof (cases r)
    case (Inr u)
    with Cons.prems r have "drain_captures E at cs first l (x\<lparr>st_world := s, st_sink := f\<rparr>) = Ret (first', l', x')" by simp
    from Cons.IH [OF this] show ?thesis by simp
  next
    case (Inl e)
    with Cons.prems r obtain d where "drain_captures E at cs (get_or_insert_error first e) (adds l [d]) (x\<lparr>st_world := s, st_sink := f\<rparr>) = Ret (first', l', x')"
      by (auto simp: push_adds)
    from Cons.IH [OF this] obtain ds where "l' = adds l (d # ds)" "first' \<noteq> None" "st_registry x' = st_registry x" "st_stderr x' = st_stderr x"
      by (auto simp: get_or_insert_error_def split: option.splits)
    then show ?thesis by (intro exI [of _ "d # ds"]) auto
  qed
qed

lemma report_overflow_Ret:
  "report_overflow what channel n at first g l = Ret (first', l') \<Longrightarrow>
     \<exists>ds. l' = adds l ds \<and> (first' = None \<longleftrightarrow> first = None \<and> ds = []) \<and> (ds = [] \<longleftrightarrow> n = 0)"
  by (auto simp: report_overflow_def Let_def get_or_insert_error_def split: if_splits option.splits dest: report_Ret intro: exI [of _ "[]"])

lemma registry_start_tables:
  assumes "registry_start W g f = Ret (r, g', f')"
  shows "reg_tables g' = reg_tables g"
proof -
  let ?check = "case reg_descriptor g of Some d \<Rightarrow> validate_descriptor_tables (reg_tables g) d | None \<Rightarrow> Inr ()"
  consider "reg_started g" | e where "\<not> reg_started g" "?check = Inl e" | u where "\<not> reg_started g" "?check = Inr u"
    by (cases ?check) auto
  then show ?thesis
  proof cases
    case 3
    with assms obtain q where q: "tables_serialize W (reg_tables g) = Ret q" by (auto simp: registry_start_def)
    show ?thesis
    proof (cases q)
      case (Inr bytes)
      obtain w1 f1 where "write_artifact W f INTERN_TABLES_ARTIFACT bytes = (w1, f1)" by fastforce
      moreover obtain w2 f2 where "write_descriptor W f1 (reg_descriptor g) = (w2, f2)" by fastforce
      ultimately show ?thesis using assms 3 q Inr by (cases w1; cases w2) (auto simp: registry_start_def)
    qed (use assms 3 q in \<open>simp add: registry_start_def\<close>)
  qed (use assms in \<open>simp_all add: registry_start_def\<close>)
qed

lemma start_tables_Ret:
  "start_tables E x = Ret (r, x') \<Longrightarrow> st_world x' = st_world x \<and> st_stderr x' = st_stderr x
     \<and> reg_tables (st_registry x') = reg_tables (st_registry x)"
  by (auto simp: start_tables_def dest: registry_start_tables)

lemma flush_inner_Ret:
  assumes "flush_inner E at l x = Ret (r, l', x')"
  shows "\<exists>ds. l' = adds l ds \<and> (r = Inr () \<longleftrightarrow> ds = [])"
proof -
  obtain q x1 where start: "start_tables E x = Ret (q, x1)" using assms by (auto simp: flush_inner_def)
  show ?thesis
  proof (cases q)
    case (Inl e)
    with assms start show ?thesis by (auto simp: flush_inner_def dest!: report_Ret)
  next
    case (Inr u)
    with assms start obtain first l1 x2 where drained: "drain_captures E at (ls_captures l) None l x1 = Ret (first, l1, x2)"
      by (auto simp: flush_inner_def)
    from drain_captures_Ret [OF this] obtain ds where ds: "l1 = adds l ds" "first = None \<longleftrightarrow> ds = []" by auto
    show ?thesis
    proof (cases "ls_metadata l")
      case None
      with assms start Inr drained ds show ?thesis by (auto simp: flush_inner_def split: option.splits)
    next
      case (Some md)
      with assms start Inr drained obtain first1 l2 first2 where
        over: "report_overflow ''execution log'' EXECUTION_LOG_CHANNEL (fst (env_dropped E (st_world x2))) at first (st_registry x2) l1 = Ret (first1, l2)"
          "report_overflow ''iox2 event record'' IOX2_EVENT_RECORD_CHANNEL (snd (env_dropped E (st_world x2))) at first1 (st_registry x2) l2 = Ret (first2, l')"
        and r: "r = (case first2 of None \<Rightarrow> Inr () | Some e \<Rightarrow> Inl e)"
        by (auto simp: flush_inner_def)
      from report_overflow_Ret [OF over(1)] report_overflow_Ret [OF over(2)] ds r show ?thesis
        by (auto split: option.splits)
    qed
  qed
qed

text \<open>The last thing that the writer was given, and accepted, is a marker with these diagnostics.\<close>

definition marker_accepted :: "('s, 'f) log_env \<Rightarrow> log_diagnostic list \<Rightarrow> 'f \<Rightarrow> bool" where
  "marker_accepted E ds f' \<longleftrightarrow> (\<exists>snap bytes f. inc_diagnostics snap = ds \<and> marker_to_vec (env_writer E) snap = Inr bytes
     \<and> write_artifact (env_writer E) f RECORDING_INCOMPLETENESS_ARTIFACT bytes = (Inr (), f'))"

text \<open>The same after a flush of the writer.\<close>

definition marked :: "('s, 'f) log_env \<Rightarrow> log_diagnostic list \<Rightarrow> 'f \<Rightarrow> bool" where
  "marked E ds f' \<longleftrightarrow> (\<exists>f r. marker_accepted E ds f \<and> writer_flush (env_writer E) f = (r, f'))"

lemma persist_Ret:
  assumes "persist_incompleteness E l x = Ret (r, x')"
  shows "(r = Inr () \<longrightarrow> ls_diagnostics l = [] \<or> marker_accepted E (ls_diagnostics l) (st_sink x')) \<and> (ls_diagnostics l = [] \<longrightarrow> r = Inr () \<and> x' = x)
    \<and> st_world x' = st_world x \<and> reg_tables (st_registry x') = reg_tables (st_registry x)"
proof (cases "ls_diagnostics l = []")
  case True
  with assms show ?thesis by (simp add: persist_incompleteness_def status_errors_def)
next
  case False
  then have "status_errors E l x \<noteq> []" by (simp add: status_errors_def)
  with assms obtain q x1 where start: "start_tables E x = Ret (q, x1)"
    and rest: "(r, x') = (case q of Inl e \<Rightarrow> (Inl e, x1) | Inr _ \<Rightarrow> (case marker_to_vec (env_writer E) (incompleteness_of E l x1 (status_errors E l x)) of
        Inl e \<Rightarrow> (Inl e, x1)
      | Inr bytes \<Rightarrow> (case write_artifact (env_writer E) (st_sink x1) RECORDING_INCOMPLETENESS_ARTIFACT bytes of (r, f) \<Rightarrow> (r, x1\<lparr>st_sink := f\<rparr>))))"
    by (auto simp: persist_incompleteness_def Let_def)
  have "inc_diagnostics (incompleteness_of E l x1 es) = ls_diagnostics l" for es by (simp add: incompleteness_of_def)
  with rest False start_tables_Ret [OF start] show ?thesis
    by (auto simp: marker_accepted_def split: sum.splits prod.splits)
qed

text \<open>What a flush leaves: every diagnostic is in a marker that was accepted, except a refusal of the last flush of the writer.\<close>

definition known_to_log :: "('s, 'f) log_env \<Rightarrow> log_diagnostic list \<Rightarrow> 'f \<Rightarrow> bool" where
  "known_to_log E ds f \<longleftrightarrow> ds = [] \<or> marked E ds f \<or> (\<exists>es d. ds = es @ [d] \<and> es \<noteq> [] \<and> diag_kind d = DiagFlush \<and> marked E es f)"

lemma retry_flush_Ret:
  assumes "retry_flush E at e l x = Ret (l', x')"
  shows "\<exists>ds. l' = adds l ds \<and> ds \<noteq> [] \<and> (known_to_log E (ls_diagnostics l') (st_sink x') \<or> (\<exists>d \<in> set ds. diag_kind d = DiagArtifact))"
proof -
  obtain l1 r x1 l2 where
    l1: "report DiagFlush at None e (st_registry x) l = Ret l1" and p: "persist_incompleteness E l1 x = Ret (r, x1)"
    and l2: "report_error DiagArtifact at r (st_registry x1) l1 = Ret l2"
    using assms by (auto simp: retry_flush_def)
  obtain r2 x2 where sink: "flush_sink E x1 = (r2, x2)" by fastforce
  have l3: "report_error DiagFlush at r2 (st_registry x2) l2 = Ret l'" and x': "x' = x2"
    using assms l1 p l2 sink by (auto simp: retry_flush_def)
  have flushed: "writer_flush (env_writer E) (st_sink x1) = (r2, st_sink x')"
    using sink x' by (auto simp: flush_sink_def split: prod.splits)
  from report_Ret [OF l1] obtain d where d: "l1 = adds l [d]" by blast
  from report_error_Ret [OF l2] obtain ds where ds: "l2 = adds l1 ds" "ds = [] \<longleftrightarrow> r = Inr ()" "\<forall>d \<in> set ds. diag_kind d = DiagArtifact"
    by blast
  from l3 report_Ret have es: "l' = l2 \<or> (\<exists>d'. l' = adds l2 [d'] \<and> diag_kind d' = DiagFlush)"
    by (fastforce simp: report_error_def split: sum.splits)
  show ?thesis
  proof (cases "r = Inr ()")
    case True
    with persist_Ret [OF p] d flushed have "marked E (ls_diagnostics l @ [d]) (st_sink x')" by (auto simp: marked_def)
    with es ds True d have "known_to_log E (ls_diagnostics l') (st_sink x')" "l' = adds l [d] \<or> (\<exists>d'. l' = adds l [d, d'])"
      by (auto simp: known_to_log_def)
    then show ?thesis by blast
  next
    case False
    with ds obtain a as where "ds = a # as" "diag_kind a = DiagArtifact" by (cases ds) auto
    with es ds(1) d have "\<exists>fs. l' = adds l (d # a # fs)" by auto
    with \<open>diag_kind a = DiagArtifact\<close> show ?thesis by fastforce
  qed
qed

lemma apply_policy_Ret:
  "apply_policy E n allow l x = Ret x' \<Longrightarrow> st_world x' = st_world x \<and> st_sink x' = st_sink x \<and> st_registry x' = st_registry x"
  by (auto simp: apply_policy_def Let_def split: diagnostic_policy.splits if_splits)

lemma result_and_Inr: "result_and r q = Inr () \<longleftrightarrow> r = Inr () \<and> q = Inr ()"
  by (cases r; cases q) auto

lemma flush_impl_Ret:
  assumes "flush_impl E at allow l x = Ret (r, l', x')"
  shows "\<exists>ds. l' = adds l ds \<and> (r = Inr () \<longleftrightarrow> ds = [])
    \<and> (known_to_log E (ls_diagnostics l') (st_sink x') \<or> (\<exists>d \<in> set ds. diag_kind d = DiagArtifact))"
proof -
  obtain r1 l1 x1 marker x2 l2 where
    inner: "flush_inner E at l x = Ret (r1, l1, x1)" and p: "persist_incompleteness E l1 x1 = Ret (marker, x2)"
    and l2: "report_error DiagArtifact at marker (st_registry x2) l1 = Ret l2"
    using assms by (auto simp: flush_impl_def)
  obtain flushed x3 where sink: "flush_sink E x2 = (flushed, x3)" by fastforce
  with assms inner p l2 obtain x4 where
    l4: "(case flushed of Inr _ \<Rightarrow> Ret (l2, x3) | Inl e \<Rightarrow> retry_flush E at e l2 x3) = Ret (l', x4)"
    and r: "r = result_and (result_and r1 marker) flushed" and x': "st_sink x' = st_sink x4"
    by (auto simp: flush_impl_def dest: apply_policy_Ret)
  from flush_inner_Ret [OF inner] obtain ds where ds: "l1 = adds l ds" "r1 = Inr () \<longleftrightarrow> ds = []" by blast
  from report_error_Ret [OF l2] obtain es where es: "l2 = adds l1 es" "es = [] \<longleftrightarrow> marker = Inr ()" "\<forall>d \<in> set es. diag_kind d = DiagArtifact"
    by blast
  show ?thesis
  proof (cases flushed)
    case (Inl e)
    with l4 retry_flush_Ret obtain fs where fs: "l' = adds l2 fs" "fs \<noteq> []"
      "known_to_log E (ls_diagnostics l') (st_sink x') \<or> (\<exists>d \<in> set fs. diag_kind d = DiagArtifact)"
      using x' by fastforce
    then show ?thesis using r Inl ds(1) es(1) by (auto simp: result_and_Inr)
  next
    case (Inr u)
    have flush: "writer_flush (env_writer E) (st_sink x2) = (flushed, st_sink x')"
      using sink x' l4 Inr by (auto simp: flush_sink_def split: prod.splits)
    have "known_to_log E (ls_diagnostics l') (st_sink x') \<or> (\<exists>d \<in> set es. diag_kind d = DiagArtifact)"
    proof (cases "es = []")
      case True
      then have "ls_diagnostics l1 = [] \<or> marked E (ls_diagnostics l1) (st_sink x')" "l' = l1"
        using persist_Ret [OF p] es l4 Inr flush by (auto simp: marked_def)
      then show ?thesis by (auto simp: known_to_log_def)
    next
      case False
      then show ?thesis using es(3) by (cases es) auto
    qed
    then show ?thesis using r Inr l4 ds es by (auto simp: result_and_Inr)
  qed
qed

section \<open>Calls of a session\<close>

inductive session_call ::
  "('s, 'f) log_env \<Rightarrow> ('s, 'f) log_session \<times> ('s, 'f) log_state \<Rightarrow> bool \<Rightarrow> ('s, 'f) log_session \<times> ('s, 'f) log_state \<Rightarrow> bool"
  for E where
  flushes: "session_flush E l x = Ret (r, l', x') \<Longrightarrow> session_call E (l, x) (r = Inr ()) (l', x')"
| flushes_at: "session_flush_at E t l x = Ret (r, l', x') \<Longrightarrow> session_call E (l, x) (r = Inr ()) (l', x')"
| starts: "session_start E l x = Ret (r, l', x') \<Longrightarrow> session_call E (l, x) (r = Inr ()) (l', x')"
| others: "session_call E (l, x) True (l, x')" \<comment> \<open>what the rest of the program does to the shared state\<close>

inductive session_calls ::
  "('s, 'f) log_env \<Rightarrow> ('s, 'f) log_session \<times> ('s, 'f) log_state \<Rightarrow> bool \<Rightarrow> ('s, 'f) log_session \<times> ('s, 'f) log_state \<Rightarrow> bool"
  for E where
  none: "session_calls E c True c"
| more: "session_calls E c ok d \<Longrightarrow> session_call E d ok' e \<Longrightarrow> session_calls E c (ok \<and> ok') e"

lemma session_call_adds:
  assumes "session_call E (l, x) ok (l', x')"
  shows "\<exists>ds. l' = adds l ds \<and> (ok \<longleftrightarrow> ds = [])"
  using assms
proof (cases rule: session_call.cases)
  case 3: (starts r)
  then obtain q y where start: "start_tables E x = Ret (q, y)" by (auto simp: session_start_def)
  show ?thesis
  proof (cases q)
    case (Inr u)
    with 3 start show ?thesis by (auto simp: session_start_def intro: exI [of _ "[]"])
  next
    case (Inl e)
    with 3 start obtain k r2 x2 where k: "report DiagArtifact None None (''logging startup artifacts: '' @ e) (st_registry y) l = Ret k"
        "flush_impl E None False k y = Ret (r2, l', x2)" "r = Inl e"
      by (auto simp: session_start_def)
    from report_Ret [OF k(1)] flush_impl_Ret [OF k(2)] k(3) 3 show ?thesis by auto
  qed
qed (auto simp: session_flush_def session_flush_at_def dest!: flush_impl_Ret intro: exI [of _ "[]"])

lemma session_calls_adds:
  "session_calls E c ok d \<Longrightarrow> \<exists>ds. fst d = adds (fst c) ds \<and> (ok \<longleftrightarrow> ds = [])"
proof (induction rule: session_calls.induct)
  case (more c ok d ok' e)
  then show ?case using session_call_adds [of E "fst d" "snd d" ok' "fst e" "snd e"] by auto
qed (auto intro: exI [of _ "[]"])

text \<open>
  C27: a failure is never forgotten. Over any calls of a session, with any captures, any writer and anything else happening to
  the shared state in between, diagnostics are only added, and all calls succeeded exactly when none was. Finishing returns
  an error exactly when there is a diagnostic, and the log says so: the last thing the writer accepted is a marker with every
  diagnostic, except perhaps a refusal of the last flush, or the diagnostics say that a marker could not be written.
\<close>

theorem failures_never_forgotten:
  assumes "session_calls E (l, x) ok (l1, x1)" and "session_finish E l1 x1 = Ret (r, l2, x2)"
  shows "\<exists>ds es. ls_diagnostics l1 = ls_diagnostics l @ ds \<and> (ok \<longleftrightarrow> ds = []) \<and> ls_diagnostics l2 = ls_diagnostics l1 @ es
    \<and> (r = Inr () \<longleftrightarrow> ls_diagnostics l2 = [])
    \<and> (known_to_log E (ls_diagnostics l2) (st_sink x2) \<or> (\<exists>d \<in> set es. diag_kind d = DiagArtifact))"
proof -
  from session_calls_adds [OF assms(1)] obtain ds where ds: "l1 = adds l ds" "ok \<longleftrightarrow> ds = []" by auto
  from assms(2) obtain q k y where q: "flush_impl E None True (l1\<lparr>ls_finished := True\<rparr>) x1 = Ret (q, k, y)"
    and fin: "(r, l2, x2) = (case q of Inl e \<Rightarrow> (Inl e, k, y) | Inr _ \<Rightarrow> (case status_errors E k y of
       [] \<Rightarrow> (Inr (), k, y) | e # _ \<Rightarrow> (Inl (PlainError (''log session is incomplete: '' @ e)), k, y)))"
    by (auto simp: session_finish_def session_flush_def)
  from fin have k: "l2 = k" "x2 = y" and r: "r = Inr () \<longleftrightarrow> q = Inr () \<and> ls_diagnostics k = []"
    by (auto simp: status_errors_def split: sum.splits list.splits)
  from flush_impl_Ret [OF q] obtain es where es: "ls_diagnostics k = ls_diagnostics l1 @ es" "q = Inr () \<longleftrightarrow> es = []"
    "known_to_log E (ls_diagnostics k) (st_sink y) \<or> (\<exists>d \<in> set es. diag_kind d = DiagArtifact)"
    by (metis adds_simps(1) log_session.select_convs(3) log_session.surjective log_session.update_convs(5))
  then show ?thesis using ds r unfolding k by auto
qed

section \<open>What a flush writes\<close>

text \<open>Draining a list of messages into the writer, without the memory they live in.\<close>

fun deliver :: "('v \<Rightarrow> string + byte list) \<Rightarrow> 'f capture_visitor \<Rightarrow> 'v message list \<Rightarrow> 'f \<Rightarrow> (log_error + unit) \<times> 'f" where
  "deliver ser vis [] f = (Inr (), f)"
| "deliver ser vis (m # ms) f = (case ser (message_body m) of
     Inl e \<Rightarrow> (Inl (CaptureError \<lparr>fail_kind = SerializationFailure, fail_header = Some (header m), fail_error = e\<rparr>), f)
   | Inr bytes \<Rightarrow> (case vis (header m) bytes f of
       (Inl e, f1) \<Rightarrow> (Inl (CaptureError \<lparr>fail_kind = WriteFailure, fail_header = Some (header m), fail_error = e\<rparr>), f1)
     | (Inr _, f1) \<Rightarrow> deliver ser vis ms f1))"

definition captured :: "('q \<Rightarrow> ptr list) \<Rightarrow> ('a, 'q, 'v) bus \<Rightarrow> nat \<Rightarrow> 'v message list" where
  "captured qitems w s = (let b = sub_buffer (subs w ! s)
     in map (\<lambda>p. the (payload_at (arenas w) p)) (read_storage b @ written qitems b))"

text \<open>The messages that the next drain finds lost, in the write buffer and in the read buffer.\<close>

definition lost :: "('q \<Rightarrow> ptr list) \<Rightarrow> ('a, 'q, 'v) bus \<Rightarrow> nat \<Rightarrow> nat \<times> nat" where
  "lost qitems w s = (let b = sub_buffer (subs w ! s) in (unat (writer_drops b),
     read_drops b + (length (read_storage b) + length (written qitems b) - read_capacity b)))"

definition capture_result ::
  "('q \<Rightarrow> ptr list) \<Rightarrow> string \<Rightarrow> nat \<Rightarrow> ('v \<Rightarrow> string + byte list) \<Rightarrow> 'f capture_visitor \<Rightarrow> ('a, 'q, 'v) bus \<Rightarrow> 'f
     \<Rightarrow> (log_error + unit) \<times> 'f" where
  "capture_result qitems channel s ser vis w f = (case lost qitems w s of (wr, rd) \<Rightarrow>
     if wr \<noteq> 0 \<or> rd \<noteq> 0 then (Inl (CaptureError \<lparr>fail_kind = OverflowFailure, fail_header = None,
       fail_error = ''capture '' @ in_quotes channel @ '' overflowed (writer '' @ dec_digits wr @ '', reader '' @ dec_digits rd @ '')''\<rparr>), f)
     else deliver ser vis (captured qitems w s) f)"

context message_bus begin

lemma release_law:
  assumes "bus_inv F fitems fvalid qitems qvalid w (P + mset ds) U"
  shows "\<exists>as. release_dropped F w ds = Ret (w\<lparr>arenas := as\<rparr>) \<and> bus_inv F fitems fvalid qitems qvalid (w\<lparr>arenas := as\<rparr>) P U
    \<and> (\<forall>q. q \<in># P + bus_ptrs qitems w \<longrightarrow> payload_at as q = payload_at (arenas w) q)"
proof -
  have "store_inv F fitems fvalid (arenas w) ((P + bus_ptrs qitems w) + mset ds) U"
    using assms by (simp add: bus_inv_def ac_simps)
  from fl.store_release_all_law [OF this] obtain as where "store_release_all F (arenas w) ds = Ret as"
    "store_inv F fitems fvalid as (P + bus_ptrs qitems w) U"
    "\<forall>q. q \<in># P + bus_ptrs qitems w \<or> q \<in> U \<longrightarrow> payload_at as q = payload_at (arenas w) q" by blast
  with assms show ?thesis
    by (intro exI [of _ as]) (auto simp: release_dropped_def bus_inv_def bus_ptrs_def)
qed

lemma drain_messages_law:
  "bus_inv F fitems fvalid qitems qvalid w (P + mset ps) U \<Longrightarrow>
     \<exists>as. drain_messages F ser vis ps w f = (case deliver ser vis (map (\<lambda>p. the (payload_at (arenas w) p)) ps) f of
         (r, f') \<Rightarrow> Ret (r, w\<lparr>arenas := as\<rparr>, f'))
       \<and> bus_inv F fitems fvalid qitems qvalid (w\<lparr>arenas := as\<rparr>) P U
       \<and> (\<forall>q. q \<in># P + bus_ptrs qitems w \<longrightarrow> payload_at as q = payload_at (arenas w) q)"
proof (induction ps arbitrary: w f)
  case Nil
  then show ?case by (auto intro!: exI [of _ "arenas w"])
next
  case (Cons p ps)
  have "p \<in># P + mset (p # ps) + bus_ptrs qitems w" by simp
  with Cons.prems fl.store_read_law obtain m where m: "payload_at (arenas w) p = Some m" "store_read (arenas w) p = Ret m"
    unfolding bus_inv_def by blast
  from release_law [OF Cons.prems] obtain bs where bs: "release_dropped F w (p # ps) = Ret (w\<lparr>arenas := bs\<rparr>)"
    "bus_inv F fitems fvalid qitems qvalid (w\<lparr>arenas := bs\<rparr>) P U"
    "\<forall>q. q \<in># P + bus_ptrs qitems w \<longrightarrow> payload_at bs q = payload_at (arenas w) q" by blast
  show ?case
  proof (cases "ser (message_body m)")
    case (Inl e)
    then show ?thesis using m bs by auto
  next
    case bytes: (Inr bytes)
    obtain r f1 where v: "vis (header m) bytes f = (r, f1)" by fastforce
    show ?thesis
    proof (cases r)
      case (Inl e)
      then show ?thesis using m bs bytes v by auto
    next
      case (Inr u)
      have "bus_inv F fitems fvalid qitems qvalid w ((P + mset ps) + mset [p]) U" using Cons.prems by simp
      from release_law [OF this] obtain as where as: "release_dropped F w [p] = Ret (w\<lparr>arenas := as\<rparr>)"
        "bus_inv F fitems fvalid qitems qvalid (w\<lparr>arenas := as\<rparr>) (P + mset ps) U"
        "\<forall>q. q \<in># P + mset ps + bus_ptrs qitems w \<longrightarrow> payload_at as q = payload_at (arenas w) q" by blast
      have same: "map (\<lambda>p. the (payload_at as p)) ps = map (\<lambda>p. the (payload_at (arenas w) p)) ps"
        using as(3) by auto
      have ptrs: "bus_ptrs qitems (w\<lparr>arenas := as\<rparr>) = bus_ptrs qitems w" by (simp add: bus_ptrs_def)
      from Cons.IH [OF as(2), of f1] obtain cs where cs:
        "drain_messages F ser vis ps (w\<lparr>arenas := as\<rparr>) f1 = (case deliver ser vis (map (\<lambda>p. the (payload_at (arenas w) p)) ps) f1 of
           (r, f') \<Rightarrow> Ret (r, w\<lparr>arenas := cs\<rparr>, f'))"
        "bus_inv F fitems fvalid qitems qvalid (w\<lparr>arenas := cs\<rparr>) P U"
        "\<forall>q. q \<in># P + bus_ptrs qitems w \<longrightarrow> payload_at cs q = payload_at as q"
        unfolding ptrs by (auto simp: same)
      with as m bytes v Inr show ?thesis by (intro exI [of _ cs]) auto
    qed
  qed
qed

text \<open>Draining a capture: its buffers are empty afterwards, whatever happens, and nothing else changes.\<close>

lemma native_drain_law:
  fixes w :: "('f, 'q, 'c) bus"
  assumes inv: "bus_inv F fitems fvalid qitems qvalid w P U" and s: "s < length (subs w)"
  shows "\<exists>w'. native_drain F Q channel s ser vis w f = (case capture_result qitems channel s ser vis w f of (r, f') \<Rightarrow> Ret (r, w', f'))
    \<and> bus_inv F fitems fvalid qitems qvalid w' P U \<and> trace w' = trace w \<and> length (subs w') = length (subs w)
    \<and> (\<forall>t < length (subs w). t \<noteq> s \<longrightarrow> subs w' ! t = subs w ! t)
    \<and> read_storage (sub_buffer (subs w' ! s)) = [] \<and> written qitems (sub_buffer (subs w' ! s)) = []
    \<and> (\<forall>q. q \<in># P + bus_ptrs qitems w' \<longrightarrow> payload_at (arenas w') q = payload_at (arenas w) q)"
proof -
  let ?b = "sub_buffer (subs w ! s)"
  let ?n = "length (read_storage ?b) + length (written qitems ?b) - read_capacity ?b" and ?all = "read_storage ?b @ written qitems ?b"
  have "buffer_inv qvalid ?b" using inv s by (simp add: bus_inv_def)
  from wq.drain_law [OF this] obtain b where b: "drain_writer_to_reader Q ?b = Some (take ?n ?all, b)" "buffer_inv qvalid b"
    "written qitems b = []" "read_storage b = keep_last (read_capacity ?b) ?all" "read_drops b = read_drops ?b + ?n"
    "writer_drops b = writer_drops ?b" by blast
  have split: "take ?n ?all @ read_storage b = ?all"
    unfolding b(4) keep_last_def using append_take_drop_id [of ?n ?all] by (simp only: length_append)
  have "mset (written qitems b) + mset (read_storage b) + mset (take ?n ?all) = sub_ptrs qitems (subs w ! s) + {#}"
    using arg_cong [OF split, of mset] b(3) by (simp add: sub_ptrs_def ac_simps)
  from replace_buffer_law [of w P "{#}" U s b "take ?n ?all", OF _ s b(2) this] inv obtain as where as:
    "release_dropped F (set_buffer w s b) (take ?n ?all) = Ret (set_buffer w s b\<lparr>arenas := as\<rparr>)"
    "bus_inv F fitems fvalid qitems qvalid (set_buffer w s b\<lparr>arenas := as\<rparr>) P U"
    "\<forall>q. q \<in># P + bus_ptrs qitems (set_buffer w s b) \<longrightarrow> payload_at as q = payload_at (arenas w) q"
    by auto
  define w1 where "w1 = set_buffer w s b\<lparr>arenas := as\<rparr>"
  let ?ps = "read_storage b"
  define w2 where "w2 = set_buffer w1 s (b\<lparr>read_storage := []\<rparr>)"
  have inv1: "bus_inv F fitems fvalid qitems qvalid w1 P U" using as(2) by (simp add: w1_def)
  have s1: "s < length (subs w1)" and buf1: "sub_buffer (subs w1 ! s) = b"
    using s subs_set_buffer [OF s, of b s] by (simp_all add: w1_def set_buffer_def)
  have ptrs: "bus_ptrs qitems w2 + mset ?ps = bus_ptrs qitems w1"
    using bus_ptrs_set_buffer [OF s1, of qitems "b\<lparr>read_storage := []\<rparr>"] b(3) buf1
    by (simp add: w2_def sub_ptrs_def written_def)
  have inv2: "bus_inv F fitems fvalid qitems qvalid w2 (P + mset ?ps) U"
  proof -
    have eq: "P + mset ?ps + bus_ptrs qitems w2 = P + bus_ptrs qitems w1" unfolding ptrs [symmetric] by (simp add: ac_simps)
    have "buffer_inv qvalid (sub_buffer (subs w2 ! t))" if "t < length (subs w2)" for t
      using that inv1 b(2) subs_set_buffer [OF s1, of "b\<lparr>read_storage := []\<rparr>" t]
      by (auto simp: w2_def [symmetric] bus_inv_def buffer_inv_def) (simp_all add: w2_def set_buffer_def)
    moreover have "arenas w2 = arenas w1" by (simp add: w2_def set_buffer_def)
    ultimately show ?thesis using inv1 unfolding bus_inv_def eq by simp
  qed
  have run: "subscriber_update F Q w s = Ret w1" "input_drain w1 s = (?ps, w2)"
    using b(1) as(1) buf1 by (simp_all add: subscriber_update_def input_drain_def read_drain_def w1_def [symmetric] w2_def Let_def)
  have losses: "native_losses s w2 = (fst (lost qitems w s), snd (lost qitems w s), 0)"
    using subs_set_buffer [OF s1, of "b\<lparr>read_storage := []\<rparr>" s] b(5,6)
    by (simp add: native_losses_def lost_def Let_def w2_def writer_drops_def)
  have kept: "payload_at (arenas w2) q = payload_at (arenas w) q" if "q \<in># P + mset ?ps + bus_ptrs qitems w2" for q
  proof -
    have "q \<in># P + bus_ptrs qitems w1" using that unfolding ptrs [symmetric] by auto
    moreover have "bus_ptrs qitems w1 = bus_ptrs qitems (set_buffer w s b)" "arenas w2 = as"
      by (simp_all add: w1_def w2_def set_buffer_def bus_ptrs_def)
    ultimately show ?thesis using as(3) by metis
  qed
  have frame: "trace w2 = trace w" "length (subs w2) = length (subs w)" "\<forall>t < length (subs w). t \<noteq> s \<longrightarrow> subs w2 ! t = subs w ! t"
      "read_storage (sub_buffer (subs w2 ! s)) = []" "written qitems (sub_buffer (subs w2 ! s)) = []"
    using s b(3) by (simp_all add: w2_def w1_def set_buffer_def written_def)
  show ?thesis
  proof (cases "fst (lost qitems w s) \<noteq> 0 \<or> snd (lost qitems w s) \<noteq> 0")
    case True
    from release_law [OF inv2] obtain bs where bs: "release_dropped F w2 ?ps = Ret (w2\<lparr>arenas := bs\<rparr>)"
      "bus_inv F fitems fvalid qitems qvalid (w2\<lparr>arenas := bs\<rparr>) P U"
      "\<forall>q. q \<in># P + bus_ptrs qitems w2 \<longrightarrow> payload_at bs q = payload_at (arenas w2) q" by blast
    show ?thesis
      using True run losses bs frame kept
      by (intro exI [of _ "w2\<lparr>arenas := bs\<rparr>"])
        (auto simp: native_drain_def capture_result_def bus_ptrs_def split: prod.splits)
  next
    case False
    then have "?n = 0" by (simp add: lost_def Let_def)
    with split have ps: "?ps = ?all" by simp
    then have all: "map (\<lambda>p. the (payload_at (arenas w2) p)) ?ps = captured qitems w s"
      using kept by (auto simp: captured_def Let_def)
    from drain_messages_law [OF inv2, of ser vis f] obtain bs where bs:
      "drain_messages F ser vis ?ps w2 f = (case deliver ser vis (captured qitems w s) f of (r, f') \<Rightarrow> Ret (r, w2\<lparr>arenas := bs\<rparr>, f'))"
      "bus_inv F fitems fvalid qitems qvalid (w2\<lparr>arenas := bs\<rparr>) P U"
      "\<forall>q. q \<in># P + bus_ptrs qitems w2 \<longrightarrow> payload_at bs q = payload_at (arenas w2) q"
      unfolding all by blast
    show ?thesis
      using False run losses bs frame kept
      by (intro exI [of _ "w2\<lparr>arenas := bs\<rparr>"])
        (auto simp: native_drain_def capture_result_def bus_ptrs_def split: prod.splits)
  qed
qed

end

text \<open>A native capture by its channel, its subscriber and the serializer of its payload.\<close>

type_synonym 'v capture_spec = "string \<times> nat \<times> ('v \<Rightarrow> string + byte list)"

definition native_of ::
  "('a, nat) array_queue \<Rightarrow> ('q, ptr) array_queue \<Rightarrow> 'v capture_spec \<Rightarrow> (('a, 'q, 'v) bus, 'f) serialized_capture" where
  "native_of F Q c = (case c of (channel, s, ser) \<Rightarrow> native_capture F Q channel s ser)"

abbreviation spec_sub :: "'v capture_spec \<Rightarrow> nat" where
  "spec_sub c \<equiv> fst (snd c)"

text \<open>All captures in order, each from the messages that are there at the start, with the errors of those that fail.\<close>

fun captures_result ::
  "(('a, 'q, 'v) bus, 'f) log_env \<Rightarrow> ('q \<Rightarrow> ptr list) \<Rightarrow> 'v capture_spec list \<Rightarrow> ('a, 'q, 'v) bus \<Rightarrow> 'f \<Rightarrow> (string \<times> log_error) list \<times> 'f" where
  "captures_result E qitems [] w f = ([], f)"
| "captures_result E qitems (c # cs) w f =
     (case capture_result qitems (fst c) (spec_sub c) (snd (snd c)) (\<lambda>h body f. store_message (env_writer E) f (fst c) h body) w f of
        (Inl e, f1) \<Rightarrow> (case captures_result E qitems cs w f1 of (es, f2) \<Rightarrow> ((fst c, e) # es, f2))
      | (Inr _, f1) \<Rightarrow> captures_result E qitems cs w f1)"

definition registered :: "registry \<Rightarrow> string \<Rightarrow> bool" where
  "registered g c \<longleftrightarrow> lookup_by_value (channels_table (reg_tables g)) c \<noteq> None"

definition registry_ok :: "registry \<Rightarrow> bool" where
  "registry_ok g \<longleftrightarrow> (\<exists>ns bs. reg_tables g = \<lparr>channels_table = table_of ns, callbacks_table = table_of bs\<rparr>
     \<and> distinct ns \<and> length ns \<le> 2 ^ 32 \<and> distinct bs \<and> length bs \<le> 2 ^ 32)"

definition capture_diagnostic :: "framework_time option \<Rightarrow> registry \<Rightarrow> string \<times> log_error \<Rightarrow> log_diagnostic" where
  "capture_diagnostic at g ce = \<lparr>diag_channel = lookup_by_value (channels_table (reg_tables g)) (fst ce), diag_at = at,
     diag_header = snd (error_diagnostic (snd ce)), diag_kind = fst (error_diagnostic (snd ce)), diag_error = error_text (snd ce)\<rparr>"

lemma captured_cong:
  assumes "subs w' ! s = subs w ! s" and "s < length (subs w')"
    and "\<forall>q. q \<in># P + bus_ptrs qitems w' \<longrightarrow> payload_at (arenas w') q = payload_at (arenas w) q"
  shows "capture_result qitems c s ser vis w' f = capture_result qitems c s ser vis w f"
proof -
  have "q \<in># bus_ptrs qitems w'" if "q \<in> set (read_storage (sub_buffer (subs w' ! s)) @ written qitems (sub_buffer (subs w' ! s)))" for q
  proof -
    have "q \<in># sub_ptrs qitems (subs w' ! s)" using that by (auto simp: sub_ptrs_def)
    then show ?thesis using assms(2) nth_mem [OF assms(2)] by (auto simp: bus_ptrs_def)
  qed
  then have "captured qitems w' s = captured qitems w s"
    using assms(1,3) by (fastforce simp: captured_def Let_def)
  moreover have "lost qitems w' s = lost qitems w s" using assms(1) by (simp add: lost_def)
  ultimately show ?thesis unfolding capture_result_def by presburger
qed

lemma captures_result_cong:
  assumes "\<And>c. c \<in> set cs \<Longrightarrow> subs w' ! spec_sub c = subs w ! spec_sub c \<and> spec_sub c < length (subs w')"
    and "\<forall>q. q \<in># P + bus_ptrs qitems w' \<longrightarrow> payload_at (arenas w') q = payload_at (arenas w) q"
  shows "captures_result E qitems cs w' f = captures_result E qitems cs w f"
  using assms(1)
proof (induction cs arbitrary: f)
  case (Cons c cs)
  then have rest: "captures_result E qitems cs w' = captures_result E qitems cs w" by auto
  have "capture_result qitems a (spec_sub c) ser vis w' f = capture_result qitems a (spec_sub c) ser vis w f" for a ser vis
    by (rule captured_cong [OF _ _ assms(2)]) (use Cons.prems [of c] in simp_all)
  then show ?case by (simp only: captures_result.simps rest)
qed simp

context message_bus begin

lemma drain_captures_law:
  fixes x :: "(('f, 'q, 'c) bus, 'g) log_state"
  assumes "bus_inv F fitems fvalid qitems qvalid (st_world x) P U" and "distinct (map spec_sub cs)"
    and "\<forall>c \<in> set cs. spec_sub c < length (subs (st_world x)) \<and> registered (st_registry x) (fst c)"
  shows "\<exists>w'. drain_captures E at (map (native_of F Q) cs) first l x
      = (case captures_result E qitems cs (st_world x) (st_sink x) of (es, f') \<Rightarrow>
          Ret (foldl get_or_insert_error first (map snd es), adds l (map (capture_diagnostic at (st_registry x)) es), x\<lparr>st_world := w', st_sink := f'\<rparr>))
    \<and> bus_inv F fitems fvalid qitems qvalid w' P U \<and> length (subs w') = length (subs (st_world x))
    \<and> (\<forall>t < length (subs w'). t \<notin> spec_sub ` set cs \<longrightarrow> subs w' ! t = subs (st_world x) ! t)
    \<and> (\<forall>t \<in> spec_sub ` set cs. captured qitems w' t = [])"
  using assms
proof (induction cs arbitrary: first l x)
  case Nil
  then show ?case by (auto intro!: exI [of _ "st_world x"])
next
  case (Cons c cs)
  obtain name s ser where c: "c = (name, s, ser)" by (cases c)
  let ?vis = "\<lambda>h body f. store_message (env_writer E) f name h body"
  have s: "s < length (subs (st_world x))" using Cons.prems(3) c by simp
  from native_drain_law [OF Cons.prems(1) s, of name ser ?vis "st_sink x"] obtain w1 where w1:
    "native_drain F Q name s ser ?vis (st_world x) (st_sink x)
       = (case capture_result qitems name s ser ?vis (st_world x) (st_sink x) of (r, f') \<Rightarrow> Ret (r, w1, f'))"
    "bus_inv F fitems fvalid qitems qvalid w1 P U" "length (subs w1) = length (subs (st_world x))"
    "\<forall>t < length (subs (st_world x)). t \<noteq> s \<longrightarrow> subs w1 ! t = subs (st_world x) ! t"
    "read_storage (sub_buffer (subs w1 ! s)) = []" "written qitems (sub_buffer (subs w1 ! s)) = []"
    "\<forall>q. q \<in># P + bus_ptrs qitems w1 \<longrightarrow> payload_at (arenas w1) q = payload_at (arenas (st_world x)) q" by blast
  obtain r f1 where r: "capture_result qitems name s ser ?vis (st_world x) (st_sink x) = (r, f1)" by fastforce
  let ?x = "x\<lparr>st_world := w1, st_sink := f1\<rparr>"
  have fresh: "s \<notin> spec_sub ` set cs" using Cons.prems(2) c by auto
  have same: "captures_result E qitems cs w1 f1 = captures_result E qitems cs (st_world x) f1"
  proof (rule captures_result_cong [OF _ w1(7)])
    show "subs w1 ! spec_sub d = subs (st_world x) ! spec_sub d \<and> spec_sub d < length (subs w1)" if "d \<in> set cs" for d
      using that w1(3,4) fresh Cons.prems(3) by force
  qed
  let ?first = "case r of Inl e \<Rightarrow> get_or_insert_error first e | Inr _ \<Rightarrow> first"
  let ?l = "case r of Inl e \<Rightarrow> adds l [capture_diagnostic at (st_registry x) (name, e)] | Inr _ \<Rightarrow> l"
  from Cons.prems(3) c obtain i where i: "registry_channel (st_registry x) name = Ret i"
      "lookup_by_value (channels_table (reg_tables (st_registry x))) name = Some i"
    by (auto simp: registered_def registry_channel_def)
  have step: "drain_captures E at (map (native_of F Q) (c # cs)) first l x = drain_captures E at (map (native_of F Q) cs) ?first ?l ?x"
    using w1(1) r i by (cases r) (simp_all add: c native_of_def native_capture_def Let_def push_adds capture_diagnostic_def)
  from Cons.IH [of ?x ?first ?l] w1(2,3) Cons.prems(2,3) obtain w2 where w2:
    "drain_captures E at (map (native_of F Q) cs) ?first ?l ?x
      = (case captures_result E qitems cs (st_world x) f1 of (es, f') \<Rightarrow>
          Ret (foldl get_or_insert_error ?first (map snd es), adds ?l (map (capture_diagnostic at (st_registry x)) es), x\<lparr>st_world := w2, st_sink := f'\<rparr>))"
    "bus_inv F fitems fvalid qitems qvalid w2 P U" "length (subs w2) = length (subs w1)"
    "\<forall>t < length (subs w2). t \<notin> spec_sub ` set cs \<longrightarrow> subs w2 ! t = subs w1 ! t" "\<forall>t \<in> spec_sub ` set cs. captured qitems w2 t = []"
    by (auto simp: same)
  have "captured qitems w2 s = []"
    using w2(3,4) w1(3,5,6) s fresh by (simp add: captured_def)
  moreover have "\<forall>t < length (subs w2). t \<notin> spec_sub ` set (c # cs) \<longrightarrow> subs w2 ! t = subs (st_world x) ! t"
    using w2(3,4) w1(3,4) c by simp
  moreover have "drain_captures E at (map (native_of F Q) (c # cs)) first l x
      = (case captures_result E qitems (c # cs) (st_world x) (st_sink x) of (es, f') \<Rightarrow>
          Ret (foldl get_or_insert_error first (map snd es), adds l (map (capture_diagnostic at (st_registry x)) es), x\<lparr>st_world := w2, st_sink := f'\<rparr>))"
    unfolding step w2(1) using r by (cases r) (auto simp: c split: prod.splits)
  ultimately show ?case using w2(2,3,5) w1(3) by (intro exI [of _ w2]) (auto simp: c)
qed

end

section \<open>A flush returns\<close>

lemma report_returns: "channel = None \<or> registered g (the channel) \<Longrightarrow> \<exists>l'. report kind at channel e g l = Ret l'"
  by (cases channel) (auto simp: report_def registered_def registry_channel_def)

lemma report_error_returns: "\<exists>l'. report_error kind at r g l = Ret l'"
  using report_returns [of None] by (cases r) (auto simp: report_error_def)

lemma registry_start_returns:
  assumes "registry_ok g"
  shows "\<exists>r g' f'. registry_start W g f = Ret (r, g', f')"
proof -
  let ?check = "case reg_descriptor g of Some d \<Rightarrow> validate_descriptor_tables (reg_tables g) d | None \<Rightarrow> Inr ()"
  from assms obtain ns bs where "tables_serialize W (reg_tables g) = Ret (tables_to_vec W (ns, bs))"
    unfolding registry_ok_def using tables_serialize_table by metis
  then show ?thesis
    by (cases ?check; cases "tables_to_vec W (ns, bs)")
      (auto simp: registry_start_def split: sum.splits prod.splits)
qed

lemma registry_ok_tables: "reg_tables g' = reg_tables g \<Longrightarrow> registry_ok g' = registry_ok g \<and> registered g' = registered g"
  by (auto simp: registry_ok_def registered_def)

lemma start_tables_returns: "registry_ok (st_registry x) \<Longrightarrow> \<exists>r x'. start_tables E x = Ret (r, x')"
  using registry_start_returns by (fastforce simp: start_tables_def)

lemma persist_returns:
  assumes "registry_ok (st_registry x)"
  shows "\<exists>r x'. persist_incompleteness E l x = Ret (r, x')"
proof -
  from start_tables_returns [OF assms] obtain r y where "start_tables E x = Ret (r, y)" by blast
  then show ?thesis by (cases r) (auto simp: persist_incompleteness_def Let_def split: sum.splits prod.splits)
qed

lemma flush_sink_world: "flush_sink E x = (r, x') \<Longrightarrow> st_world x' = st_world x \<and> st_registry x' = st_registry x"
  by (auto simp: flush_sink_def split: prod.splits)

lemma retry_flush_returns:
  assumes "registry_ok (st_registry x)"
  shows "\<exists>l' x'. retry_flush E at e l x = Ret (l', x') \<and> st_world x' = st_world x"
proof -
  obtain l1 where l1: "report DiagFlush at None e (st_registry x) l = Ret l1" using report_returns [of None] by blast
  from persist_returns [OF assms] obtain r x1 where p: "persist_incompleteness E l1 x = Ret (r, x1)" by blast
  obtain l2 where l2: "report_error DiagArtifact at r (st_registry x1) l1 = Ret l2" using report_error_returns by blast
  obtain r2 x2 where sink: "flush_sink E x1 = (r2, x2)" by fastforce
  obtain l3 where "report_error DiagFlush at r2 (st_registry x2) l2 = Ret l3" using report_error_returns by blast
  then show ?thesis using l1 p l2 sink persist_Ret [OF p] flush_sink_world [OF sink] by (simp add: retry_flush_def)
qed

lemma report_overflow_returns:
  "registered g channel \<Longrightarrow> \<exists>first' l'. report_overflow what channel n at first g l = Ret (first', l')"
  using report_returns [of "Some channel" g] by (fastforce simp: report_overflow_def Let_def)

text \<open>From the outcome of \<open>flush_inner\<close> on, a flush returns unless its policy is to panic.\<close>

lemma flush_impl_returns:
  assumes inner: "flush_inner E at l x = Ret (r1, l1, x1)" and ok: "registry_ok (st_registry x1)"
    and policy: "ls_policy l = PanicPolicy \<longrightarrow> \<not> allow"
  shows "\<exists>r ds x'. flush_impl E at allow l x = Ret (r, adds l ds, x') \<and> (r = Inr () \<longleftrightarrow> ds = []) \<and> st_world x' = st_world x1
    \<and> (ds = [] \<longrightarrow> r1 = Inr ()) \<and> (ds = [] \<longrightarrow> ls_diagnostics l = [] \<longrightarrow> writer_flush (env_writer E) (st_sink x1) = (Inr (), st_sink x'))"
proof -
  from persist_returns [OF ok] obtain marker x2 where p: "persist_incompleteness E l1 x1 = Ret (marker, x2)" by blast
  note x2 = persist_Ret [OF p]
  obtain l2 where l2: "report_error DiagArtifact at marker (st_registry x2) l1 = Ret l2" using report_error_returns by blast
  obtain flushed x3 where sink: "flush_sink E x2 = (flushed, x3)" by fastforce
  note x3 = flush_sink_world [OF sink]
  have ok3: "registry_ok (st_registry x3)" using ok x2 x3 registry_ok_tables by metis
  obtain l4 x4 where l4: "(case flushed of Inr _ \<Rightarrow> Ret (l2, x3) | Inl e \<Rightarrow> retry_flush E at e l2 x3) = Ret (l4, x4)"
      "st_world x4 = st_world x3" "flushed = Inr () \<longrightarrow> x4 = x3"
    using retry_flush_returns [OF ok3] by (cases flushed) fastforce+
  from flush_inner_Ret [OF inner] report_error_Ret [OF l2] l4(1) retry_flush_Ret
  have "ls_policy l4 = ls_policy l" by (cases flushed) fastforce+
  with policy obtain x5 where x5: "apply_policy E (length (ls_diagnostics l)) allow l4 x4 = Ret x5"
    by (cases "ls_policy l") (auto simp: apply_policy_def Let_def)
  have run: "flush_impl E at allow l x = Ret (result_and (result_and r1 marker) flushed, l4, x5)"
    using inner p l2 sink l4(1) x5 by (simp add: flush_impl_def)
  from flush_impl_Ret [OF run] obtain ds where ds: "l4 = adds l ds" "result_and (result_and r1 marker) flushed = Inr () \<longleftrightarrow> ds = []" by blast
  have "writer_flush (env_writer E) (st_sink x1) = (Inr (), st_sink x5)" if "ds = []" "ls_diagnostics l = []"
  proof -
    from that ds have none: "r1 = Inr ()" "flushed = Inr ()" by (simp_all add: result_and_Inr)
    with flush_inner_Ret [OF inner] that have "ls_diagnostics l1 = []" by auto
    with x2 have "x2 = x1" by simp
    with sink none l4(3) apply_policy_Ret [OF x5] show ?thesis by (auto simp: flush_sink_def split: prod.splits)
  qed
  then show ?thesis using run ds x2 x3 l4(2) apply_policy_Ret [OF x5] by (auto simp: result_and_Inr)
qed

text \<open>The policy is applied last: a flush that may panic does what one that may not does, and then panics.\<close>

lemma flush_impl_allow:
  assumes "flush_impl E at False l x = Ret (r, adds l ds, x')"
  shows "flush_impl E at allow l x
    = (if ls_policy l = PanicPolicy \<and> allow \<and> \<not> env_panicking E \<and> ds \<noteq> [] then Panic else Ret (r, adds l ds, x'))"
proof -
  from assms obtain r1 l1 x1 where inner: "flush_inner E at l x = Ret (r1, l1, x1)" by (auto simp: flush_impl_def)
  with assms obtain marker x2 where p: "persist_incompleteness E l1 x1 = Ret (marker, x2)" by (auto simp: flush_impl_def)
  with inner assms obtain l2 where l2: "report_error DiagArtifact at marker (st_registry x2) l1 = Ret l2" by (auto simp: flush_impl_def)
  obtain flushed x3 where sink: "flush_sink E x2 = (flushed, x3)" by fastforce
  from inner p l2 sink assms obtain l4 x4 where l4: "(case flushed of Inr _ \<Rightarrow> Ret (l2, x3) | Inl e \<Rightarrow> retry_flush E at e l2 x3) = Ret (l4, x4)"
    by (auto simp: flush_impl_def)
  have any: "flush_impl E at b l x
      = and_then (apply_policy E (length (ls_diagnostics l)) b l4 x4) (\<lambda>x5. Ret (result_and (result_and r1 marker) flushed, l4, x5))" for b
    using inner p l2 sink l4 by (simp add: flush_impl_def)
  with assms have l: "l4 = adds l ds" and r: "result_and (result_and r1 marker) flushed = r"
    and x5: "apply_policy E (length (ls_diagnostics l)) False l4 x4 = Ret x'" by auto
  have "apply_policy E (length (ls_diagnostics l)) allow l4 x4
      = (if ls_policy l = PanicPolicy \<and> allow \<and> \<not> env_panicking E \<and> ds \<noteq> [] then Panic else Ret x')"
    using x5 unfolding l by (cases "ls_policy l") (auto simp: apply_policy_def Let_def adds_def)
  then show ?thesis unfolding any using l r by simp
qed

lemma foldl_first: "foldl get_or_insert_error first es = None \<longleftrightarrow> first = None \<and> es = []"
  by (induction es arbitrary: first) (auto simp: get_or_insert_error_def split: option.splits)

context message_bus begin

lemma flush_inner_law:
  fixes x :: "(('f, 'q, 'c) bus, 'g) log_state"
  assumes inv: "bus_inv F fitems fvalid qitems qvalid (st_world x) P U" and caps: "ls_captures l = map (native_of F Q) cs"
    and "distinct (map spec_sub cs)" and "registry_ok (st_registry x)"
    and reg: "\<forall>c \<in> set cs. spec_sub c < length (subs (st_world x)) \<and> registered (st_registry x) (fst c)"
    and logs: "registered (st_registry x) EXECUTION_LOG_CHANNEL" "registered (st_registry x) IOX2_EVENT_RECORD_CHANNEL"
  shows "\<exists>q y r l1 x1. start_tables E x = Ret (q, y) \<and> flush_inner E at l x = Ret (r, l1, x1)
    \<and> bus_inv F fitems fvalid qitems qvalid (st_world x1) P U \<and> reg_tables (st_registry x1) = reg_tables (st_registry x)
    \<and> (case q of Inl e \<Rightarrow> r = Inl (PlainError e) \<and> st_world x1 = st_world x
       | Inr _ \<Rightarrow> (\<forall>c \<in> set cs. captured qitems (st_world x1) (spec_sub c) = [])
         \<and> (\<forall>t < length (subs (st_world x)). t \<notin> spec_sub ` set cs \<longrightarrow> subs (st_world x1) ! t = subs (st_world x) ! t)
         \<and> snd (captures_result E qitems cs (st_world x) (st_sink y)) = st_sink x1
         \<and> (r = Inr () \<longrightarrow> fst (captures_result E qitems cs (st_world x) (st_sink y)) = []))"
proof -
  from start_tables_returns [OF assms(4)] obtain q y where start: "start_tables E x = Ret (q, y)" by blast
  note y = start_tables_Ret [OF start]
  show ?thesis
  proof (cases q)
    case (Inl e)
    obtain l1 where "report DiagArtifact at None e (st_registry y) l = Ret l1" using report_returns [of None] by blast
    with start Inl inv y show ?thesis by (simp add: flush_inner_def)
  next
    case (Inr u)
    have regy: "registered (st_registry y) = registered (st_registry x)" using y registry_ok_tables by metis
    obtain es f where es: "captures_result E qitems cs (st_world x) (st_sink y) = (es, f)" by fastforce
    have "bus_inv F fitems fvalid qitems qvalid (st_world y) P U" "\<forall>c \<in> set cs. spec_sub c < length (subs (st_world y)) \<and> registered (st_registry y) (fst c)"
      using inv reg y regy by simp_all
    from drain_captures_law [OF this(1) assms(3) this(2), of E at None l] y es obtain w where w:
      "drain_captures E at (ls_captures l) None l y = Ret (foldl get_or_insert_error None (map snd es),
         adds l (map (capture_diagnostic at (st_registry y)) es), y\<lparr>st_world := w, st_sink := f\<rparr>)"
      "bus_inv F fitems fvalid qitems qvalid w P U" "length (subs w) = length (subs (st_world x))"
      "\<forall>t < length (subs w). t \<notin> spec_sub ` set cs \<longrightarrow> subs w ! t = subs (st_world x) ! t" "\<forall>t \<in> spec_sub ` set cs. captured qitems w t = []"
      by (auto simp: caps)
    let ?x = "y\<lparr>st_world := w, st_sink := f\<rparr>" and ?l = "adds l (map (capture_diagnostic at (st_registry y)) es)"
    let ?first = "foldl get_or_insert_error None (map snd es)"
    obtain first1 l2 where o1: "report_overflow ''execution log'' EXECUTION_LOG_CHANNEL (fst (env_dropped E w)) at ?first (st_registry y) ?l = Ret (first1, l2)"
      using report_overflow_returns logs(1) regy by metis
    obtain first2 l3 where o2: "report_overflow ''iox2 event record'' IOX2_EVENT_RECORD_CHANNEL (snd (env_dropped E w)) at first1 (st_registry y) l2 = Ret (first2, l3)"
      using report_overflow_returns logs(2) regy by metis
    let ?m = "ls_metadata l"
    have run: "flush_inner E at l x = Ret (case (if ?m = None then ?first else first2) of None \<Rightarrow> Inr () | Some e \<Rightarrow> Inl e,
        if ?m = None then ?l else l3, ?x)"
      using start Inr w(1) o1 o2 by (cases ?m) (simp_all add: flush_inner_def)
    have "es = []" if "(case (if ?m = None then ?first else first2) of None \<Rightarrow> Inr () | Some e \<Rightarrow> Inl e) = Inr ()"
      using that report_overflow_Ret [OF o1] report_overflow_Ret [OF o2]
      by (auto simp: foldl_first split: if_splits option.splits)
    with start run es Inr w y show ?thesis by auto
  qed
qed

end

section \<open>A flush without diagnostics\<close>

fun store_all :: "'f log_writer \<Rightarrow> (string \<times> message_header \<times> byte list) list \<Rightarrow> 'f \<Rightarrow> 'f option" where
  "store_all W [] f = Some f"
| "store_all W ((channel, h, body) # es) f = (case store_message W f channel h body of
     (Inl _, _) \<Rightarrow> None
   | (Inr _, f1) \<Rightarrow> store_all W es f1)"

lemma store_all_append: "store_all W (xs @ ys) f = Option.bind (store_all W xs f) (store_all W ys)"
  by (induction xs arbitrary: f) (auto split: sum.splits prod.splits)

definition capture_entries :: "('q \<Rightarrow> ptr list) \<Rightarrow> ('a, 'q, 'v) bus \<Rightarrow> 'v capture_spec \<Rightarrow> (string \<times> message_header \<times> byte list) list" where
  "capture_entries qitems w c = map (\<lambda>m. (fst c, header m, projr (snd (snd c) (message_body m)))) (captured qitems w (spec_sub c))"

definition capture_complete :: "('q \<Rightarrow> ptr list) \<Rightarrow> ('a, 'q, 'v) bus \<Rightarrow> 'v capture_spec \<Rightarrow> bool" where
  "capture_complete qitems w c \<longleftrightarrow> lost qitems w (spec_sub c) = (0, 0)
     \<and> (\<forall>m \<in> set (captured qitems w (spec_sub c)). \<exists>bytes. snd (snd c) (message_body m) = Inr bytes)"

lemma deliver_Inr:
  "deliver ser (\<lambda>h body f. store_message W f c h body) ms f = (Inr u, f') \<Longrightarrow>
     store_all W (map (\<lambda>m. (c, header m, projr (ser (message_body m)))) ms) f = Some f'
     \<and> (\<forall>m \<in> set ms. \<exists>bytes. ser (message_body m) = Inr bytes)"
  by (induction ms arbitrary: f) (auto split: sum.splits prod.splits)

lemma captures_result_complete:
  "captures_result E qitems cs w f = ([], f') \<Longrightarrow>
     (\<forall>c \<in> set cs. capture_complete qitems w c) \<and> store_all (env_writer E) (concat (map (capture_entries qitems w) cs)) f = Some f'"
proof (induction cs arbitrary: f)
  case (Cons c cs)
  then obtain u f1 where r: "capture_result qitems (fst c) (spec_sub c) (snd (snd c))
      (\<lambda>h body f. store_message (env_writer E) f (fst c) h body) w f = (Inr u, f1)" "captures_result E qitems cs w f1 = ([], f')"
    by (auto split: sum.splits prod.splits)
  then have "lost qitems w (spec_sub c) = (0, 0)"
    and "deliver (snd (snd c)) (\<lambda>h body f. store_message (env_writer E) f (fst c) h body) (captured qitems w (spec_sub c)) f = (Inr u, f1)"
    by (auto simp: capture_result_def split: prod.splits if_splits)
  from this(1) deliver_Inr [OF this(2)] Cons.IH [OF r(2)] show ?case
    by (simp add: capture_complete_def capture_entries_def store_all_append)
qed simp

text \<open>
  C26: what a flush of a session does. If the startup tables can be written (or were before), it leaves no captured message
  behind: the buffers of the captures are empty and every slot the messages held is released; if not, the flush fails with a
  diagnostic and the captures stay as they were. Other subscribers are as before. The flush succeeds exactly when it adds no
  diagnostic; then the tables were written, no capture has ever lost a message, and the writer has accepted every captured
  message, under its channel with its header and its bytes, capture by capture and in the order of arrival, and, when there
  were no earlier failures, nothing else before it was flushed. It returns, except that a session whose policy is to panic
  does so at the end of a flush that added diagnostics, where that is allowed and the thread is not unwinding already.
\<close>

theorem log_flush_exact:
  fixes x :: "(('f, 'q, 'c) bus, 'g) log_state"
  assumes "message_bus F fitems fvalid Q qitems qvalid"
    and "bus_inv F fitems fvalid qitems qvalid (st_world x) P U" and "ls_captures l = map (native_of F Q) cs"
    and "distinct (map spec_sub cs)" and "registry_ok (st_registry x)"
    and "\<forall>c \<in> set cs. spec_sub c < length (subs (st_world x)) \<and> registered (st_registry x) (fst c)"
    and "registered (st_registry x) EXECUTION_LOG_CHANNEL" and "registered (st_registry x) IOX2_EVENT_RECORD_CHANNEL"
  shows "\<exists>q y r ds x'. start_tables E x = Ret (q, y) \<and> flush_impl E at False l x = Ret (r, adds l ds, x')
    \<and> flush_impl E at allow l x
        = (if ls_policy l = PanicPolicy \<and> allow \<and> \<not> env_panicking E \<and> ds \<noteq> [] then Panic else Ret (r, adds l ds, x'))
    \<and> (r = Inr () \<longleftrightarrow> ds = [])
    \<and> bus_inv F fitems fvalid qitems qvalid (st_world x') P U
    \<and> (\<forall>t < length (subs (st_world x)). t \<notin> spec_sub ` set cs \<longrightarrow> subs (st_world x') ! t = subs (st_world x) ! t)
    \<and> (if q = Inr () then \<forall>c \<in> set cs. captured qitems (st_world x') (spec_sub c) = []
       else st_world x' = st_world x \<and> ds \<noteq> [])
    \<and> (ds = [] \<longrightarrow> q = Inr () \<and> (\<forall>c \<in> set cs. capture_complete qitems (st_world x) c)
        \<and> (\<exists>f. store_all (env_writer E) (concat (map (capture_entries qitems (st_world x)) cs)) (st_sink y) = Some f
            \<and> (ls_diagnostics l = [] \<longrightarrow> writer_flush (env_writer E) f = (Inr (), st_sink x'))))"
proof -
  from message_bus.flush_inner_law [OF assms, of E at] obtain q y r l1 x1 where inner:
    "start_tables E x = Ret (q, y)" "flush_inner E at l x = Ret (r, l1, x1)"
    "bus_inv F fitems fvalid qitems qvalid (st_world x1) P U" "reg_tables (st_registry x1) = reg_tables (st_registry x)"
    "case q of Inl e \<Rightarrow> r = Inl (PlainError e) \<and> st_world x1 = st_world x
       | Inr _ \<Rightarrow> (\<forall>c \<in> set cs. captured qitems (st_world x1) (spec_sub c) = [])
         \<and> (\<forall>t < length (subs (st_world x)). t \<notin> spec_sub ` set cs \<longrightarrow> subs (st_world x1) ! t = subs (st_world x) ! t)
         \<and> snd (captures_result E qitems cs (st_world x) (st_sink y)) = st_sink x1
         \<and> (r = Inr () \<longrightarrow> fst (captures_result E qitems cs (st_world x) (st_sink y)) = [])"
    by blast
  have "registry_ok (st_registry x1)" using assms(5) inner(4) registry_ok_tables by metis
  from flush_impl_returns [OF inner(2) this, of False] obtain r' ds x' where run: "flush_impl E at False l x = Ret (r', adds l ds, x')"
    "r' = Inr () \<longleftrightarrow> ds = []" "st_world x' = st_world x1" and r: "ds = [] \<longrightarrow> r = Inr ()" and sunk:
    "ds = [] \<longrightarrow> ls_diagnostics l = [] \<longrightarrow> writer_flush (env_writer E) (st_sink x1) = (Inr (), st_sink x')" by blast
  have cr: "q = Inr () \<and> captures_result E qitems cs (st_world x) (st_sink y) = ([], st_sink x1)" if "ds = []"
    using r that inner(5) by (cases q) (auto simp: prod_eq_iff)
  have "q = Inr () \<and> (\<forall>c \<in> set cs. capture_complete qitems (st_world x) c)
      \<and> store_all (env_writer E) (concat (map (capture_entries qitems (st_world x)) cs)) (st_sink y) = Some (st_sink x1)" if "ds = []"
    using cr [OF that] captures_result_complete [of E qitems cs "st_world x" "st_sink y" "st_sink x1"] by simp
  then show ?thesis using inner run sunk flush_impl_allow [OF run(1), of allow] by (cases q) auto
qed

section \<open>Examples\<close>

text \<open>A writer that keeps everything and whose flush returns a fixed result.\<close>

definition list_writer :: "string + unit \<Rightarrow> (string \<times> byte list) list log_writer" where
  "list_writer flushed = \<lparr>write_artifact = (\<lambda>f name bytes. (Inr (), f @ [(name, bytes)])), tables_to_vec = (\<lambda>_. Inr [0]),
     descriptor_to_vec = (\<lambda>_. Inr [1]), store_message = (\<lambda>f channel h body. (Inr (), f @ [(channel, body)])),
     writer_flush = (\<lambda>f. (flushed, f)), marker_to_vec = (\<lambda>_. Inr [2])\<rparr>"

definition list_env :: "string + unit \<Rightarrow> ('s, (string \<times> byte list) list) log_env" where
  "list_env flushed = \<lparr>env_writer = list_writer flushed, env_dropped = (\<lambda>_. (0, 0)), env_shown = (\<lambda>_ _ _ e. e),
     env_panicking = False\<rparr>"

definition log_names :: "string list" where
  "log_names = [''c'', EXECUTION_LOG_CHANNEL, IOX2_EVENT_RECORD_CHANNEL]"

definition log_registry :: registry where
  "log_registry = \<lparr>reg_tables = \<lparr>channels_table = table_of log_names, callbacks_table = table_of []\<rparr>, reg_started = False,
     reg_descriptor = None\<rparr>"

definition logged_bus :: "(nat list_queue, ptr list_queue, nat) bus" where
  "logged_bus = \<lparr>
     arenas = [\<lparr>arena_capacity = 2,
       storage = [\<lparr>ref_count = 1, payload = Some \<lparr>header = header_default, message_body = 5\<rparr>\<rparr>, \<lparr>ref_count = 0, payload = None\<rparr>],
       free_list = \<lparr>lq_capacity = 2, lq_items = [1]\<rparr>\<rparr>],
     subs = [\<lparr>sub_buffer = \<lparr>write_queue = \<lparr>inner = \<lparr>lq_capacity = 1, lq_items = [(0, 0)]\<rparr>, dropped = 0\<rparr>,
         read_storage = [], read_capacity = 1, read_drops = 0\<rparr>,
       sub_channel = ''c'', sub_wake = False, sub_policy = policy_default\<rparr>],
     trace = []\<rparr>"

lemma log_names_distinct: "distinct log_names"
  by (simp add: log_names_def EXECUTION_LOG_CHANNEL_def IOX2_EVENT_RECORD_CHANNEL_def)

lemma log_registry_ok: "registry_ok log_registry" "c \<in> set log_names \<Longrightarrow> registered log_registry c"
proof -
  show "registry_ok log_registry"
    using log_names_distinct unfolding registry_ok_def
    by (intro exI [of _ log_names] exI [of _ "[]"]) (simp add: log_registry_def log_names_def)
  show "registered log_registry c" if c: "c \<in> set log_names"
  proof -
    from c obtain i where i: "i < length log_names" "c = log_names ! i" by (auto simp: in_set_conv_nth)
    have "length log_names \<le> 2 ^ 32" by (simp add: log_names_def)
    from table_of_lookups(1) [OF log_names_distinct this i(1)] i(2) show ?thesis
      by (simp add: registered_def log_registry_def)
  qed
qed

lemma logged_bus_inv: "bus_inv list_array_queue lq_items lq_valid lq_items lq_valid logged_bus {#} {}"
  by (simp add: bus_inv_def logged_bus_def store_inv_def arena_inv_def bus_ptrs_def sub_ptrs_def
      written_def buffer_inv_def lq_valid_def nth_Cons split: nat.split) auto

theorem log_flush_exact_witness:
  "\<exists>r ds x'. flush_impl (list_env (Inr ())) None True
      (session_with_registry [native_of list_array_queue list_array_queue (''c'', 0, \<lambda>n. Inr [of_nat n])])
      \<lparr>st_registry = log_registry, st_sink = [], st_world = logged_bus, st_stderr = []\<rparr> = Ret (r, adds
        (session_with_registry [native_of list_array_queue list_array_queue (''c'', 0, \<lambda>n. Inr [of_nat n])]) ds, x')
    \<and> captured lq_items (st_world x') 0 = []"
proof -
  let ?c = "(''c'', 0, \<lambda>n. Inr [of_nat n]) :: string \<times> nat \<times> (nat \<Rightarrow> string + byte list)"
  let ?l = "session_with_registry [native_of list_array_queue list_array_queue (''c'', 0, \<lambda>n. Inr [of_nat n])]"
  let ?x = "\<lparr>st_registry = log_registry, st_sink = [] :: (string \<times> byte list) list, st_world = logged_bus, st_stderr = []\<rparr>"
  have "tables_serialize (artifact_writer.truncate (list_writer (Inr ()))) (reg_tables log_registry) = Ret (Inr [0])"
    unfolding log_registry_def registry.simps
    by (subst tables_serialize_table [OF log_names_distinct]) (simp_all add: log_names_def list_writer_def artifact_writer.defs)
  then have start: "\<exists>y. start_tables (list_env (Inr ())) ?x = Ret (Inr (), y)"
    by (simp add: start_tables_def registry_start_def list_env_def)
      (simp add: log_registry_def list_writer_def artifact_writer.defs write_descriptor_def)
  have hyps: "bus_inv list_array_queue lq_items lq_valid lq_items lq_valid (st_world ?x) {#} {}"
    "ls_captures ?l = map (native_of list_array_queue list_array_queue) [?c]" "distinct (map spec_sub [?c])" "registry_ok (st_registry ?x)"
    "\<forall>c \<in> set [?c]. spec_sub c < length (subs (st_world ?x)) \<and> registered (st_registry ?x) (fst c)"
    "registered (st_registry ?x) EXECUTION_LOG_CHANNEL" "registered (st_registry ?x) IOX2_EVENT_RECORD_CHANNEL" "ls_policy ?l \<noteq> PanicPolicy"
    using logged_bus_inv log_registry_ok by (simp_all add: session_with_registry_def logged_bus_def log_names_def)
  from log_flush_exact [OF lqb.message_bus_axioms hyps(1-7), of "list_env (Inr ())" None True]
  have "\<exists>q y r ds x'. start_tables (list_env (Inr ())) ?x = Ret (q, y) \<and> flush_impl (list_env (Inr ())) None True ?l ?x = Ret (r, adds ?l ds, x')
      \<and> (q = Inr () \<longrightarrow> captured lq_items (st_world x') 0 = [])"
    by (elim ex_forward conjE) (simp only: hyps(8) simp_thms if_False, intro conjI impI, simp_all)
  then show ?thesis using start by fastforce
qed

theorem failures_never_forgotten_witness:
  "\<exists>r l2 x2. session_finish (list_env (Inl ''disk full'')) (session_with_registry [])
      \<lparr>st_registry = log_registry\<lparr>reg_started := True\<rparr>, st_sink = [], st_world = (), st_stderr = []\<rparr> = Ret (r, l2, x2)
    \<and> r \<noteq> Inr () \<and> ls_diagnostics l2 \<noteq> [] \<and> known_to_log (list_env (Inl ''disk full'') :: (unit, (string \<times> byte list) list) log_env) (ls_diagnostics l2) (st_sink x2)"
proof -
  let ?E = "list_env (Inl ''disk full'') :: (unit, (string \<times> byte list) list) log_env"
  let ?l = "session_with_registry [] :: (unit, (string \<times> byte list) list) log_session"
  let ?x = "\<lparr>st_registry = log_registry\<lparr>reg_started := True\<rparr>, st_sink = [] :: (string \<times> byte list) list, st_world = (), st_stderr = []\<rparr>"
  have "\<exists>r l2 x2. session_finish ?E ?l ?x = Ret (r, l2, x2) \<and> r \<noteq> Inr () \<and> (\<forall>d \<in> set (ls_diagnostics l2). diag_kind d \<noteq> DiagArtifact)"
    by (simp add: session_finish_def session_flush_def flush_impl_def flush_inner_def start_tables_def registry_start_def
        persist_incompleteness_def status_errors_def report_error_def report_def flush_sink_def retry_flush_def push_diagnostic_def
        apply_policy_def session_with_registry_def list_env_def list_writer_def Let_def)
  then obtain r l2 x2 where fin: "session_finish ?E ?l ?x = Ret (r, l2, x2)" "r \<noteq> Inr ()" "\<forall>d \<in> set (ls_diagnostics l2). diag_kind d \<noteq> DiagArtifact"
    by blast
  from failures_never_forgotten [OF session_calls.none fin(1)] fin show ?thesis by fastforce
qed

end
