(* ===== verification/Spec2Isabelle.thy ===== *)
theory Spec2Isabelle
  imports Prelude Array_Queue Mpsc_Queue Double_Buffer Static_Vec String_Interner Framework_Time Arena
    Arena_Concurrent Message_Store Message_Bus Channel_Plan Channel_Run Output_Span Callback_Lifecycle
    Task_Graph Live_Scheduler Live_Timers Callback_Batch Simulation Simulation_Steps Log_Stream
    Intern_Tables Replay_Feed Log_Simulation Experimental_Queue Replay_Log Exact_Report Exact_Replay Exact_Steps
    Exact_Session Execution_Log Graph_Plan Graph_Wiring Graph_Forwarding Graph_Build Graph_Storage
    Log_Session
begin

text \<open>
  A verification library for cfw, a publish/subscribe framework that decides when callbacks run.

  \<^bold>\<open>The program.\<close> Callbacks exchange messages over typed channels. A publisher allocates its messages in
  an arena of its own; a pointer to the message travels to the double buffer of every subscriber. An
  executor prepares a callback (moves its inputs into view), runs it, and commits or discards its
  outputs. The live executor decides with timers and wake-ups from threads; the simulation executor
  does the same over virtual time and is deterministic. Logs are read back as sorted streams.

  \<^bold>\<open>Theories and sources.\<close> Paths are relative to \<open>src/\<close>.
  \<^item> \<open>Prelude\<close>: the \<open>outcome\<close> of a call (returns, panics, never ends), checked arithmetic at the
    width of the machine, lemmas on lists and on queues sorted by time.
  \<^item> \<open>Array_Queue\<close>: the interface of crossbeam's \<open>ArrayQueue\<close>, which the repository only calls, as the
    locale \<open>bounded_queue\<close> with its documented laws and a list that satisfies them.
  \<^item> \<open>Mpsc_Queue\<close>, \<open>Double_Buffer\<close>, \<open>Static_Vec\<close>, \<open>String_Interner\<close>, \<open>Arena\<close>: \<open>base/src/\<close> of the same
    names. \<open>Arena_Concurrent\<close> splits the operations of the arena into their atomic accesses.
  \<^item> \<open>Framework_Time\<close>: \<open>task/src/time.rs\<close>, signed 64-bit nanoseconds.
  \<^item> \<open>Message_Store\<close>, \<open>Message_Bus\<close>, \<open>Output_Span\<close>: \<open>task/src/message.rs\<close>, \<open>subscriber.rs\<close>,
    \<open>publisher.rs\<close>, \<open>output.rs\<close>, \<open>input.rs\<close>. The state is one \<open>bus\<close> of arenas and subscribers with
    a trace of the wake-ups and observer calls; publishers are values passed to the operations.
  \<^item> \<open>Channel_Plan\<close>: \<open>task/src/storage.rs\<close>, \<open>channel.rs\<close>. \<open>Channel_Run\<close> puts a planned channel to work as
    the step relation \<open>channel_step\<close> over the operations of the bus.
  \<^item> \<open>Callback_Lifecycle\<close>: \<open>task/src/callback.rs\<close> and \<open>callback/\<close>. A callback is the record
    \<open>callback_ops\<close> of its operations over a state; \<open>node_callback\<close> builds it from native endpoints.
  \<^item> \<open>Task_Graph\<close>: \<open>task_graph/src/graph.rs\<close>, schedules and the construction of graphs.
  \<^item> \<open>Live_Scheduler\<close>, \<open>Live_Timers\<close>: \<open>live_executor/src/pool_state.rs\<close>, \<open>periodic.rs\<close>,
    \<open>pool_worker.rs\<close>; the first as atomic steps of any number of threads, the second as whole calls.
  \<^item> \<open>Callback_Batch\<close>: \<open>simulation_executor/src/callback_execution.rs\<close>, bounded parallel execution.
  \<^item> \<open>Simulation\<close>, \<open>Simulation_Steps\<close>: \<open>simulation_executor/src/state.rs\<close>, the model and its laws.
  \<^item> \<open>Log_Stream\<close>: \<open>logging/src/sorted_log_stream.rs\<close>. \<open>Intern_Tables\<close>: \<open>logging/src/intern_tables.rs\<close> with the
    schema of \<open>task/src/execution_log_schema.rs\<close>. \<open>Replay_Feed\<close>: \<open>logging/src/replay_feed.rs\<close>.
  \<^item> \<open>Log_Simulation\<close>: \<open>simulation_executor/src/log_simulation.rs\<close>, the feed as a streaming action of the simulation.
  \<^item> \<open>Graph_Plan\<close>: \<open>task_graph/src/plan.rs\<close>, \<open>endpoints.rs\<close>, \<open>bundle.rs\<close>, \<open>capture.rs\<close>, \<open>replay.rs\<close>, \<open>topology.rs\<close> and
    \<open>application.rs\<close>, from the declaration of endpoints to the built graph. A \<open>graph_plan\<close> holds a channel plan per name.
    \<open>Graph_Wiring\<close> has its invariant \<open>plan_ok\<close> and the laws of the calls, \<open>Graph_Forwarding\<close> the budgets of forwarded
    messages, \<open>Graph_Build\<close> the plans that calls and registrations reach (\<open>planned\<close>), \<open>Graph_Storage\<close> what is allocated.
  \<^item> \<open>Execution_Log\<close>: \<open>task_graph/src/execution_log.rs\<close>, callbacks wrapped to publish a record of each execution.
  \<^item> \<open>Log_Session\<close>: \<open>logging/src/session.rs\<close> with \<open>diagnostics.rs\<close>, \<open>incompleteness.rs\<close>, \<open>capture.rs\<close> and the captures of
    \<open>task_graph/src/capture.rs\<close>, which it drains from the bus into a log file writer.
  \<^item> \<open>Replay_Log\<close>, \<open>Exact_Report\<close>, \<open>Exact_Replay\<close>: \<open>exact_replay_executor/src/replay_log.rs\<close>, \<open>report.rs\<close>, \<open>replay.rs\<close>
    with \<open>output_capture.rs\<close> and the bindings of \<open>plan.rs\<close>. Callbacks, sources and cache loaders act on a world that holds
    the captures. \<open>Exact_Steps\<close> has the laws of one execution, \<open>Exact_Session\<close> those of steps and runs.
  \<^item> \<open>Experimental_Queue\<close>: \<open>base/src/experimental_mpsc_queue.rs\<close>, its calls as atomic steps.

  \<^bold>\<open>Interfaces.\<close> \<open>bounded_queue\<close> is extended by \<open>slot_queue\<close> (the free list of an arena) and gives
  \<open>displacing_queue\<close> (the \<open>MpscQueue\<close>) by a \<open>sublocale\<close>; \<open>message_bus\<close> takes one of each, for the free
  lists and the write buffers. They are interpreted on the list queue (\<open>lq\<close>, \<open>lqs\<close>, \<open>lqb\<close>).
  \<open>bounded_channel\<close> is crossbeam's bounded channel between notifiers and workers, interpreted as \<open>lc\<close>.
  \<open>batch_relation\<close> is a relation that preparing, running, cancelling and committing a job respect; it
  carries over to whole batches and is interpreted for ``nothing was published'', ``returned'' and ``kept
  what the callbacks cannot reach'' (\<open>keeping\<close>). \<open>replay_relation\<close> is the same for the parts of a replayed execution,
  with one relation for results and one for failures; it is interpreted for ``same session'' (\<open>frame\<close>), ``errors only
  grow'' (\<open>counting\<close>), ``the report stays honest'' (\<open>honest\<close>) and ``strict means without error'' (\<open>strict\<close>).
  \<open>record_sink\<close> is what recording asks of the channel of the records, interpreted on publishers of the bus (\<open>log_sink\<close>).

  \<^bold>\<open>What is shown.\<close>
  \<^item> Memory: reference counts equal the live pointers, the free list is the unreferenced slots, no slot
    is read uninitialised, in every sequential run and every interleaving of atomic steps; the only panic
    is that of cloning above half the range of a count.
  \<^item> Channels: a flush delivers the batch to every subscriber in order; the double buffer keeps the
    newest messages; the storage that was planned suffices in every reachable state in which callbacks keep to
    their retained budget and read windows to their planned capacity, and no call panics.
  \<^item> Callbacks: all outputs are published or none; a failed batch publishes nothing; a batch of
    independent callbacks gives the same result on any number of workers.
  \<^item> Live scheduling: exactly one entry per queued node, one worker per running node, no overflow, no
    lost trigger, idle only when nothing is at work; timer rounds trigger exactly the due nodes, once.
  \<^item> Simulation: pool capacities are respected, time never goes back and never skips an event, steps
    make progress, an idle state is final, due actions run once and in order.
  \<^item> Logs: the external merge sort is the stable sort by time for every batch size, reading up to a
    time takes exactly the due entries. The name tables of a log are written once, before anything else,
    and read back. A replay feed injects the selected entries by time, in order, each once; a log
    simulation injects each at its own virtual time, before the callbacks of that time run, and ends as
    its policy for the end of the input says.
  \<^item> Graph plans: every reachable plan is well formed and its calls return, annotating an endpoint only if there is one; the retention of forwarded messages ends,
    is exact and refuses cycles; the storage has every planned endpoint with its capacity and room for all that is forwarded; an injected
    input hears its source alone; a graph is built once.
  \<^item> Recording: every execution publishes one record that describes it, also when its body or its commit panics, and
    recording changes nothing else.
  \<^item> Log sessions: a flush that succeeds has stored every captured message in order and nothing was lost; a failure is
    never forgotten and ends up in the log, which then cannot be replayed.
  \<^item> Exact replay: an accepted recording is well formed; a run that reports an exact replay has reproduced
    every execution in order; a strict run is exact or fails and then stays failed; the report is honest.
  \<^item> The experimental queue is correct without interference; two producers can destroy an element.
  \<^item> Base types: interners are bijections, the static vector is a bounded stack, codecs round trip,
    time arithmetic is exact or refused.

  \<^bold>\<open>Loops and bounds.\<close> Loops over data are structural recursion or have a measure (\<open>read_until_loop\<close>: the
  entries left). \<open>mpsc_clear\<close>, which pops until the queue is empty, is a \<open>partial_function\<close> with a
  proof that it returns. The compare-and-exchange loops of the arena and the scheduler are steps of
  the interleaving relations, one access each. The loop over due actions has a measure as well: an
  action that was run comes back only at a later time. A replay run has as fuel the executions that are left and one
  more, which is enough because every step takes one (\<open>loop_returns\<close>). The recursion of \<open>budget\<close> over forwarding edges has
  two more than the edges, which is enough because the channels on its way are different ones (\<open>forwarding_fuel\<close>). Sizes are \<open>nat\<close> with overflow written out
  (\<open>checked_usize\<close>); reference counts are 64-bit words.

  \<^bold>\<open>Not modelled.\<close>
  \<^item> The shared-memory transport (\<open>task/src/iox2.rs\<close>) and what uses it: it wraps a library that is not part
    of the repository. The other components are modelled in the build without it.
  \<^item> Procedural macros (\<open>task_macros\<close>): they rewrite token streams of third-party types.
  \<^item> Exhaustion of memory: allocations succeed, also above \<open>isize::MAX\<close> bytes, where the code panics. A panic ends the run
    and leaves no state, except where the code goes on while unwinding (bodies, batches, recorded commits).
  \<^item> Memory orderings weaker than sequential consistency, thread creation and joining, signals.
  \<^item> Files: run files of a log are lists, failures while writing them are left out.
  \<^item> Serde's formats: parsers are parameters; where a type has an implementation of its own, that is
    modelled over serde's data model.
  \<^item> The rendering of a topology, live replay, the callbacks that flush log sessions, the writers of log files, examples and tests.
\<close>

end
